(* ===== verification/Prelude.thy ===== *)
theory Prelude
  imports Main "HOL-Library.Word" "HOL-Library.Multiset"
begin

text \<open>
  The vocabulary every component of the development shares.

  A C function that may fail an \<open>ASSERT\<close>, \<open>PANIC\<close>, run off the end of an array, follow a
  null pointer or loop forever is modelled by a function into \<open>'a exec\<close>: \<open>None\<close> is a run
  that never returns, \<open>Some (Inl f)\<close> a run that stops with the fault \<open>f\<close>, and
  \<open>Some (Inr x)\<close> a run that returns \<open>x\<close>. Loops are \<^theory_text>\<open>partial_function (option)\<close>
  definitions over this type, so that the termination of a loop is a theorem and never an
  assumption.
\<close>

section \<open>Executions\<close>

datatype fault =
    Assert_failed     \<comment> \<open>\<open>ASSERT (...)\<close> of \<open>lib/debug.h\<close> is false\<close>
  | Panicked          \<comment> \<open>\<open>PANIC (...)\<close>\<close>
  | Out_of_bounds     \<comment> \<open>an array access outside the array\<close>
  | Null_deref        \<comment> \<open>a member access through a null pointer\<close>
  | Div_error         \<comment> \<open>the divide error of the processor\<close>

type_synonym 'a exec = "(fault + 'a) option"

abbreviation ret :: "'a \<Rightarrow> 'a exec" where
  "ret x \<equiv> Some (Inr x)"

abbreviation fail :: "fault \<Rightarrow> 'a exec" where
  "fail e \<equiv> Some (Inl e)"

abbreviation diverges :: "'a exec" where
  "diverges \<equiv> None"

definition bindE :: "'a exec \<Rightarrow> ('a \<Rightarrow> 'b exec) \<Rightarrow> 'b exec" where
  "bindE m f = (case m of None \<Rightarrow> None | Some (Inl e) \<Rightarrow> Some (Inl e) | Some (Inr x) \<Rightarrow> f x)"

text \<open>\<open>ASSERT P m\<close> is the statement \<open>ASSERT (P); m\<close>.\<close>

abbreviation ASSERT :: "bool \<Rightarrow> 'a exec \<Rightarrow> 'a exec" where
  "ASSERT P m \<equiv> (if P then m else fail Assert_failed)"

abbreviation returns :: "'a exec \<Rightarrow> bool" where
  "returns m \<equiv> (\<exists>x. m = ret x)"

lemma bindE_simps [simp]:
  "bindE None f = None"
  "bindE (Some (Inl e)) f = Some (Inl e)"
  "bindE (Some (Inr x)) f = f x"
  by (simp_all add: bindE_def)

lemma bindE_eq_ret [simp]:
  "bindE m f = ret y \<longleftrightarrow> (\<exists>x. m = ret x \<and> f x = ret y)"
  by (auto simp: bindE_def split: option.splits sum.splits)

lemma bindE_assoc: "bindE (bindE m f) g = bindE m (\<lambda>x. bindE (f x) g)"
  by (simp add: bindE_def split: option.splits sum.splits)

lemma bindE_ret_right [simp]: "bindE m (\<lambda>x. ret x) = m"
  by (simp add: bindE_def split: option.splits sum.splits)

lemma bindE_cong [fundef_cong]:
  "m = m' \<Longrightarrow> (\<And>x. m' = ret x \<Longrightarrow> f x = f' x) \<Longrightarrow> bindE m f = bindE m' f'"
  by (auto simp: bindE_def split: option.splits sum.splits)

lemma bindE_if: "bindE (if P then m else m') f = (if P then bindE m f else bindE m' f)"
  by simp

text \<open>The loops of the sources are defined with \<open>bindE\<close>, which is monotone in both arguments.\<close>

lemma bindE_mono [partial_function_mono]:
  assumes "mono_option B" and "\<And>y. mono_option (\<lambda>f. C y f)"
  shows "mono_option (\<lambda>f. bindE (B f) (\<lambda>y. C y f))"
  using assms unfolding monotone_def
  by (fastforce simp: flat_ord_def bindE_def split: option.splits sum.splits)

section \<open>Machine integers\<close>

type_synonym u8 = "8 word"
type_synonym u32 = "32 word"
type_synonym u64 = "64 word"
type_synonym size_t = "64 word"
type_synonym ptr = "64 word"

abbreviation NULL :: ptr where
  "NULL \<equiv> 0"

text \<open>Comparisons of words through their natural numbers.\<close>

lemma word_less_unat: "(a :: 'a::len word) < b \<longleftrightarrow> unat a < unat b"
  by (rule word_less_nat_alt)

lemma unat_of_nat_u64: "n < 2 ^ 64 \<Longrightarrow> unat (of_nat n :: u64) = n"
  by (simp add: unat_of_nat take_bit_nat_eq_self)

lemma unat_of_nat_u32: "n < 2 ^ 32 \<Longrightarrow> unat (of_nat n :: u32) = n"
  by (simp add: unat_of_nat take_bit_nat_eq_self)

lemma unat_u32_bound: "unat (x :: u32) < 2 ^ 32"
  using unsigned_less [of x, where ?'a = nat] by simp

lemma unat_u64_bound: "unat (x :: u64) < 2 ^ 64"
  using unsigned_less [of x, where ?'a = nat] by simp

lemma unat_Suc_less:
  fixes x y :: "'a::len word"
  assumes "x < y"
  shows "unat (x + 1) = Suc (unat x)"
proof -
  have "Suc (unat x) < 2 ^ LENGTH('a)"
    using assms less_le_trans [OF _ unsigned_less [of y, where ?'a = nat, THEN Suc_leI], of "Suc (unat x)"]
    by (simp add: word_less_nat_alt Suc_le_eq del: unsigned_less)
  then show ?thesis by (simp add: unat_word_ariths)
qed

text \<open>A list of distinct words is no longer than the word type.\<close>

lemma distinct_words_length:
  fixes xs :: "'a::len word list"
  assumes "distinct xs"
  shows "length xs \<le> 2 ^ LENGTH('a)"
proof -
  have "length xs = card (set xs)" using assms by (simp add: distinct_card)
  also have "\<dots> \<le> card (UNIV :: 'a word set)" by (rule card_mono) auto
  finally show ?thesis by (simp add: card_word)
qed

text \<open>
  Signed division of C: the quotient is truncated towards zero. \<open>int32 x\<close> is the value an
  \<open>int\<close> holds after a computation whose exact result is \<open>x\<close>, on the two's complement
  machine the kernel is compiled for.
\<close>

definition cdiv :: "int \<Rightarrow> int \<Rightarrow> int" where
  "cdiv a b = sgn a * sgn b * (\<bar>a\<bar> div \<bar>b\<bar>)"

definition cmod :: "int \<Rightarrow> int \<Rightarrow> int" where
  "cmod a b = a - cdiv a b * b"

definition int32 :: "int \<Rightarrow> int" where
  "int32 x = (x + 2 ^ 31) mod 2 ^ 32 - 2 ^ 31"

definition in_int32 :: "int \<Rightarrow> bool" where
  "in_int32 x \<longleftrightarrow> - (2 ^ 31) \<le> x \<and> x < 2 ^ 31"

lemma cdiv_nonneg: "0 \<le> a \<Longrightarrow> 0 < b \<Longrightarrow> cdiv a b = a div b"
  by (cases "a = 0") (auto simp: cdiv_def)

lemma cmod_nonneg: "0 \<le> a \<Longrightarrow> 0 < b \<Longrightarrow> cmod a b = a mod b"
  by (simp add: cmod_def cdiv_nonneg minus_div_mult_eq_mod)

lemma int32_id [simp]: "in_int32 x \<Longrightarrow> int32 x = x"
  by (simp add: in_int32_def int32_def)

lemma in_int32_int32 [simp]: "in_int32 (int32 x)"
  using pos_mod_bound [of "2 ^ 32" "x + 2 ^ 31"] pos_mod_sign [of "2 ^ 32" "x + 2 ^ 31"]
  by (simp add: in_int32_def int32_def)

section \<open>Lists\<close>

lemma list_update_append_mid: "length xs = n \<Longrightarrow> (xs @ y # ys)[n := z] = xs @ z # ys"
  by (simp add: list_update_append)

lemma nth_append_mid: "length xs = n \<Longrightarrow> (xs @ y # ys) ! n = y"
  by auto

text \<open>
  The buffer \<open>buf\<close> after the bytes \<open>xs\<close> are stored from index \<open>n\<close> on.
\<close>

definition put_bytes :: "u8 list \<Rightarrow> nat \<Rightarrow> u8 list \<Rightarrow> u8 list" where
  "put_bytes buf n xs = take n buf @ xs @ drop (n + length xs) buf"

lemma put_bytes_block:
  assumes "length pre = n" and "r + length xs \<le> length sec"
  shows "pre @ put_bytes sec r xs @ post = put_bytes (pre @ sec @ post) (n + r) xs"
  using assms by (simp add: put_bytes_def)

lemma length_put_bytes [simp]: "n + length xs \<le> length b \<Longrightarrow> length (put_bytes b n xs) = length b"
  by (simp add: put_bytes_def)

lemma put_bytes_put_bytes:
  "n + length xs + length ys \<le> length b \<Longrightarrow> put_bytes (put_bytes b n xs) (n + length xs) ys = put_bytes b n (xs @ ys)"
  by (simp add: put_bytes_def ac_simps)

lemma put_bytes_Nil [simp]: "put_bytes b n [] = b"
  by (simp add: put_bytes_def)

lemma put_bytes_whole: "length sec = length xs \<Longrightarrow> put_bytes sec 0 xs = xs"
  by (simp add: put_bytes_def)

lemma nth_put_bytes:
  "o' + length buf \<le> length b \<Longrightarrow> k < length b \<Longrightarrow>
     put_bytes b o' buf ! k = (if o' \<le> k \<and> k < o' + length buf then buf ! (k - o') else b ! k)"
  by (auto simp: put_bytes_def nth_append min_def)

lemma put_bytes_start: "length bs \<le> length e \<Longrightarrow> length (put_bytes e 0 bs) = length e"
  by (simp add: put_bytes_def)

section \<open>Step relations\<close>

text \<open>A property that every step of a relation keeps holds in every state a run reaches.\<close>

locale stable =
  fixes step :: "'s \<Rightarrow> 's \<Rightarrow> bool" and inv :: "'s \<Rightarrow> bool"
  assumes stable: "inv s \<Longrightarrow> step s s' \<Longrightarrow> inv s'"
begin

lemma runs: "step\<^sup>*\<^sup>* s s' \<Longrightarrow> inv s \<Longrightarrow> inv s'"
  by (induction rule: rtranclp_induct) (auto intro: stable)

end

end
