(* ===== verification/Klist.thy ===== *)
theory Klist
  imports Prelude
begin

text \<open>
  The kernel's doubly linked list, \<open>lib/kernel/list.c\<close>, at the level of pointers. The links
  of all list elements live in one heap from addresses to \<open>list_elem\<close> records; a
  \<open>struct list\<close> at address \<open>l\<close> has its \<open>head\<close> element at \<open>l\<close> and its \<open>tail\<close> element at
  \<open>l + 16\<close>, as the C layout has them. Every operation of the C file is a definition over
  that heap, assignments in the order of the source and assertions as faults.

  \<open>list_rep h l xs\<close> says that the heap holds a well-formed list at \<open>l\<close> whose interior
  elements are \<open>xs\<close>, in order. The lemmas show that on a well-formed list no operation
  faults or loops, that it does to \<open>xs\<close> what its comment says, and that it leaves every
  link outside the list alone. The ordered operations are in \<open>Klist_Ordered\<close>.
\<close>

section \<open>Data\<close>

record list_elem =
  le_prev :: ptr
  le_next :: ptr

type_synonym lheap = "ptr \<Rightarrow> list_elem"

definition set_prev :: "lheap \<Rightarrow> ptr \<Rightarrow> ptr \<Rightarrow> lheap" where
  "set_prev h p q = h(p := (h p)\<lparr>le_prev := q\<rparr>)"

definition set_next :: "lheap \<Rightarrow> ptr \<Rightarrow> ptr \<Rightarrow> lheap" where
  "set_next h p q = h(p := (h p)\<lparr>le_next := q\<rparr>)"

abbreviation tailp :: "ptr \<Rightarrow> ptr" where
  "tailp l \<equiv> l + 16"

section \<open>Operations\<close>

definition is_head :: "lheap \<Rightarrow> ptr \<Rightarrow> bool" where
  "is_head h e \<longleftrightarrow> e \<noteq> NULL \<and> le_prev (h e) = NULL \<and> le_next (h e) \<noteq> NULL"

definition is_interior :: "lheap \<Rightarrow> ptr \<Rightarrow> bool" where
  "is_interior h e \<longleftrightarrow> e \<noteq> NULL \<and> le_prev (h e) \<noteq> NULL \<and> le_next (h e) \<noteq> NULL"

definition is_tail :: "lheap \<Rightarrow> ptr \<Rightarrow> bool" where
  "is_tail h e \<longleftrightarrow> e \<noteq> NULL \<and> le_prev (h e) \<noteq> NULL \<and> le_next (h e) = NULL"

definition list_init :: "lheap \<Rightarrow> ptr \<Rightarrow> lheap exec" where
  "list_init h l = ASSERT (l \<noteq> NULL) (
     let h1 = set_prev h l NULL;
         h2 = set_next h1 l (tailp l);
         h3 = set_prev h2 (tailp l) l;
         h4 = set_next h3 (tailp l) NULL
     in ret h4)"

definition list_begin :: "lheap \<Rightarrow> ptr \<Rightarrow> ptr exec" where
  "list_begin h l = ASSERT (l \<noteq> NULL) (ret (le_next (h l)))"

definition list_next :: "lheap \<Rightarrow> ptr \<Rightarrow> ptr exec" where
  "list_next h e = ASSERT (is_head h e \<or> is_interior h e) (ret (le_next (h e)))"

definition list_end :: "lheap \<Rightarrow> ptr \<Rightarrow> ptr exec" where
  "list_end h l = ASSERT (l \<noteq> NULL) (ret (tailp l))"

definition list_rbegin :: "lheap \<Rightarrow> ptr \<Rightarrow> ptr exec" where
  "list_rbegin h l = ASSERT (l \<noteq> NULL) (ret (le_prev (h (tailp l))))"

definition list_prev :: "lheap \<Rightarrow> ptr \<Rightarrow> ptr exec" where
  "list_prev h e = ASSERT (is_interior h e \<or> is_tail h e) (ret (le_prev (h e)))"

definition list_rend :: "lheap \<Rightarrow> ptr \<Rightarrow> ptr exec" where
  "list_rend h l = ASSERT (l \<noteq> NULL) (ret l)"

definition list_head :: "lheap \<Rightarrow> ptr \<Rightarrow> ptr exec" where
  "list_head h l = ASSERT (l \<noteq> NULL) (ret l)"

definition list_tail :: "lheap \<Rightarrow> ptr \<Rightarrow> ptr exec" where
  "list_tail h l = ASSERT (l \<noteq> NULL) (ret (tailp l))"

definition list_insert :: "lheap \<Rightarrow> ptr \<Rightarrow> ptr \<Rightarrow> lheap exec" where
  "list_insert h bef e =
     ASSERT (is_interior h bef \<or> is_tail h bef) (ASSERT (e \<noteq> NULL) (
     let h1 = set_prev h e (le_prev (h bef));
         h2 = set_next h1 e bef;
         h3 = set_next h2 (le_prev (h2 bef)) e;
         h4 = set_prev h3 bef e
     in ret h4))"

definition list_splice :: "lheap \<Rightarrow> ptr \<Rightarrow> ptr \<Rightarrow> ptr \<Rightarrow> lheap exec" where
  "list_splice h bef frst lst =
     ASSERT (is_interior h bef \<or> is_tail h bef) (
     if frst = lst then ret h
     else bindE (list_prev h lst) (\<lambda>lst.
       ASSERT (is_interior h frst) (ASSERT (is_interior h lst) (
       let h1 = set_next h (le_prev (h frst)) (le_next (h lst));
           h2 = set_prev h1 (le_next (h1 lst)) (le_prev (h1 frst));
           h3 = set_prev h2 frst (le_prev (h2 bef));
           h4 = set_next h3 lst bef;
           h5 = set_next h4 (le_prev (h4 bef)) frst;
           h6 = set_prev h5 bef lst
       in ret h6))))"

definition list_push_front :: "lheap \<Rightarrow> ptr \<Rightarrow> ptr \<Rightarrow> lheap exec" where
  "list_push_front h l e = bindE (list_begin h l) (\<lambda>b. list_insert h b e)"

definition list_push_back :: "lheap \<Rightarrow> ptr \<Rightarrow> ptr \<Rightarrow> lheap exec" where
  "list_push_back h l e = bindE (list_end h l) (\<lambda>b. list_insert h b e)"

definition list_remove :: "lheap \<Rightarrow> ptr \<Rightarrow> (ptr \<times> lheap) exec" where
  "list_remove h e = ASSERT (is_interior h e) (
     let h1 = set_next h (le_prev (h e)) (le_next (h e));
         h2 = set_prev h1 (le_next (h1 e)) (le_prev (h1 e))
     in ret (le_next (h2 e), h2))"

definition list_empty :: "lheap \<Rightarrow> ptr \<Rightarrow> bool exec" where
  "list_empty h l = bindE (list_begin h l) (\<lambda>b. bindE (list_end h l) (\<lambda>e. ret (b = e)))"

definition list_front :: "lheap \<Rightarrow> ptr \<Rightarrow> ptr exec" where
  "list_front h l = bindE (list_empty h l) (\<lambda>em. ASSERT (\<not> em) (ret (le_next (h l))))"

definition list_back :: "lheap \<Rightarrow> ptr \<Rightarrow> ptr exec" where
  "list_back h l = bindE (list_empty h l) (\<lambda>em. ASSERT (\<not> em) (ret (le_prev (h (tailp l)))))"

definition list_pop_front :: "lheap \<Rightarrow> ptr \<Rightarrow> (ptr \<times> lheap) exec" where
  "list_pop_front h l =
     bindE (list_front h l) (\<lambda>front. bindE (list_remove h front) (\<lambda>(_, h'). ret (front, h')))"

definition list_pop_back :: "lheap \<Rightarrow> ptr \<Rightarrow> (ptr \<times> lheap) exec" where
  "list_pop_back h l =
     bindE (list_back h l) (\<lambda>back. bindE (list_remove h back) (\<lambda>(_, h'). ret (back, h')))"

text \<open>The loop of \<open>list_size\<close>; \<open>cnt\<close> is a \<open>size_t\<close>.\<close>

partial_function (option) list_size_loop :: "lheap \<Rightarrow> ptr \<Rightarrow> ptr \<Rightarrow> size_t \<Rightarrow> size_t exec" where
  "list_size_loop h stop e cnt =
     (if e \<noteq> stop then bindE (list_next h e) (\<lambda>e'. list_size_loop h stop e' (cnt + 1))
      else ret cnt)"

definition list_size :: "lheap \<Rightarrow> ptr \<Rightarrow> size_t exec" where
  "list_size h l =
     bindE (list_begin h l) (\<lambda>e. bindE (list_end h l) (\<lambda>stop. list_size_loop h stop e 0))"

text \<open>
  \<open>list_reverse\<close> swaps the two links of every interior element, walking by the new \<open>prev\<close>
  link, then the outer links of the headers and the inner links that point at them.
\<close>

definition swap_links :: "lheap \<Rightarrow> ptr \<Rightarrow> lheap" where
  "swap_links h e = h(e := \<lparr>le_prev = le_next (h e), le_next = le_prev (h e)\<rparr>)"

partial_function (option) list_reverse_loop :: "lheap \<Rightarrow> ptr \<Rightarrow> ptr \<Rightarrow> lheap exec" where
  "list_reverse_loop h stop e =
     (if e \<noteq> stop then
        (if e = NULL then fail Null_deref
         else let h' = swap_links h e in list_reverse_loop h' stop (le_prev (h' e)))
      else ret h)"

definition list_reverse :: "lheap \<Rightarrow> ptr \<Rightarrow> lheap exec" where
  "list_reverse h l =
     bindE (list_empty h l) (\<lambda>em.
     if \<not> em then
       bindE (list_begin h l) (\<lambda>e.
       bindE (list_end h l) (\<lambda>stop.
       bindE (list_reverse_loop h stop e) (\<lambda>h1.
       let a = le_next (h1 l); b = le_prev (h1 (tailp l));
           h2 = set_next h1 l b;
           h3 = set_prev h2 (tailp l) a;
           p = le_next (h3 l); q = le_prev (h3 (tailp l));
           c = le_prev (h3 p); d = le_next (h3 q);
           h4 = set_prev h3 p d;
           h5 = set_next h4 q c
       in ret h5)))
     else ret h)"

section \<open>Well-formed lists\<close>

fun dlseg :: "lheap \<Rightarrow> ptr list \<Rightarrow> bool" where
  "dlseg h [] = True"
| "dlseg h [p] = True"
| "dlseg h (p # q # ps) = (le_next (h p) = q \<and> le_prev (h q) = p \<and> dlseg h (q # ps))"

definition list_nodes :: "ptr \<Rightarrow> ptr list \<Rightarrow> ptr list" where
  "list_nodes l xs = l # xs @ [tailp l]"

definition list_rep :: "lheap \<Rightarrow> ptr \<Rightarrow> ptr list \<Rightarrow> bool" where
  "list_rep h l xs \<longleftrightarrow>
     distinct (list_nodes l xs) \<and> NULL \<notin> set (list_nodes l xs) \<and> dlseg h (list_nodes l xs) \<and>
     le_prev (h l) = NULL \<and> le_next (h (tailp l)) = NULL"

text \<open>\<open>unchanged A h h'\<close>: the links outside the addresses \<open>A\<close> are the same in both heaps.\<close>

definition unchanged :: "ptr set \<Rightarrow> lheap \<Rightarrow> lheap \<Rightarrow> bool" where
  "unchanged A h h' \<longleftrightarrow> (\<forall>p. p \<notin> A \<longrightarrow> h' p = h p)"

lemma set_prev_fields [simp]:
  "le_prev (set_prev h p q x) = (if x = p then q else le_prev (h x))"
  "le_next (set_prev h p q x) = le_next (h x)"
  by (simp_all add: set_prev_def)

lemma set_next_fields [simp]:
  "le_next (set_next h p q x) = (if x = p then q else le_next (h x))"
  "le_prev (set_next h p q x) = le_prev (h x)"
  by (simp_all add: set_next_def)

lemma set_link_other:
  "x \<noteq> p \<Longrightarrow> set_prev h p q x = h x"
  "x \<noteq> p \<Longrightarrow> set_next h p q x = h x"
  by (simp_all add: set_prev_def set_next_def)

lemma dlseg_append:
  "dlseg h (ps @ p # qs) \<longleftrightarrow> dlseg h (ps @ [p]) \<and> dlseg h (p # qs)"
proof (induction ps)
  case (Cons a ps)
  then show ?case by (cases ps) (simp_all add: conj_assoc)
qed simp

lemma dlseg_snoc2:
  "dlseg h (ps @ [p, q]) \<longleftrightarrow> dlseg h (ps @ [p]) \<and> le_next (h p) = q \<and> le_prev (h q) = p"
  by (subst dlseg_append) auto

text \<open>A segment reads the \<open>next\<close> links of all nodes but the last and the \<open>prev\<close> links of all
  but the first.\<close>

lemma dlseg_cong:
  "\<forall>p \<in> set (butlast ps). le_next (h' p) = le_next (h p) \<Longrightarrow>
   \<forall>p \<in> set (tl ps). le_prev (h' p) = le_prev (h p) \<Longrightarrow> dlseg h' ps = dlseg h ps"
  by (induction h ps rule: dlseg.induct) (simp_all split: if_splits)

definition dl_chain :: "lheap \<Rightarrow> ptr list \<Rightarrow> bool" where
  "dl_chain h ns \<longleftrightarrow> distinct ns \<and> NULL \<notin> set ns \<and> dlseg h ns \<and>
     le_prev (h (hd ns)) = NULL \<and> le_next (h (last ns)) = NULL"

lemma list_rep_chain: "list_rep h l xs \<longleftrightarrow> dl_chain h (list_nodes l xs)"
  by (simp add: list_rep_def dl_chain_def list_nodes_def)

text \<open>The links of a node inside a chain, by the nodes around it.\<close>

lemma dl_chain_links:
  assumes "dl_chain h (ps @ p # q # qs)"
  shows "le_next (h p) = q" and "le_prev (h q) = p" and "p \<noteq> NULL" and "q \<noteq> NULL" and "p \<noteq> q"
  using assms by (simp_all add: dl_chain_def dlseg_append [of h ps p "q # qs"])

lemma dl_chain_first: "dl_chain h (p # ps) \<Longrightarrow> le_prev (h p) = NULL"
  by (simp add: dl_chain_def)

lemma dl_chain_last: "dl_chain h (ps @ [p]) \<Longrightarrow> le_next (h p) = NULL"
  by (simp add: dl_chain_def)

lemma dl_chain_kind:
  shows chain_is_interior: "dl_chain h (ps @ a # p # b # qs) \<Longrightarrow> is_interior h p"
    and chain_is_head: "dl_chain h (p # b # qs) \<Longrightarrow> is_head h p"
    and chain_is_tail: "dl_chain h (ps @ [a, p]) \<Longrightarrow> is_tail h p"
proof -
  assume c: "dl_chain h (ps @ a # p # b # qs)"
  from dl_chain_links [OF c] dl_chain_links [of h "ps @ [a]" p b qs] c
  show "is_interior h p" by (simp add: is_interior_def)
next
  assume c: "dl_chain h (p # b # qs)"
  from dl_chain_links [of h "[]" p b qs] c dl_chain_first [OF c]
  show "is_head h p" by (simp add: is_head_def)
next
  assume c: "dl_chain h (ps @ [a, p])"
  from dl_chain_links [of h ps a p "[]"] c dl_chain_last [of h "ps @ [a]" p]
  show "is_tail h p" by (simp add: is_tail_def)
qed

lemma chain_next:
  assumes "dl_chain h (ps @ p # q # qs)"
  shows "list_next h p = ret q"
proof (cases ps rule: rev_cases)
  case Nil
  with assms have "is_head h p" by (simp add: chain_is_head)
  with dl_chain_links [OF assms] show ?thesis by (simp add: list_next_def)
next
  case (snoc ps' a)
  with assms have "is_interior h p" by (intro chain_is_interior [of h ps' a p q qs]) simp
  with dl_chain_links [OF assms] show ?thesis by (simp add: list_next_def)
qed

lemma chain_not_first:
  assumes "dl_chain h (ps @ p # q # qs)"
  shows "is_interior h q \<or> is_tail h q"
proof (cases qs)
  case Nil
  with assms show ?thesis by (simp add: chain_is_tail)
next
  case (Cons r rs)
  with assms show ?thesis by (simp add: chain_is_interior)
qed

lemma chain_prev:
  assumes "dl_chain h (ps @ p # q # qs)"
  shows "list_prev h q = ret p"
  using chain_not_first [OF assms] dl_chain_links [OF assms] by (auto simp: list_prev_def)

lemma unchanged_refl [simp]: "unchanged A h h"
  by (simp add: unchanged_def)

lemma unchanged_trans: "unchanged A h h' \<Longrightarrow> unchanged A h' h'' \<Longrightarrow> unchanged A h h''"
  by (simp add: unchanged_def)

lemma unchanged_mono: "unchanged A h h' \<Longrightarrow> A \<subseteq> B \<Longrightarrow> unchanged B h h'"
  by (auto simp: unchanged_def)

lemma dlseg_unchanged:
  assumes "unchanged A h h'" and "set ps \<inter> A = {}"
  shows "dlseg h' ps = dlseg h ps"
proof (rule dlseg_cong)
  have same: "h' p = h p" if "p \<in> set ps" for p
    using assms that by (auto simp: unchanged_def)
  show "\<forall>p \<in> set (butlast ps). le_next (h' p) = le_next (h p)"
    by (auto dest: in_set_butlastD simp: same)
  show "\<forall>p \<in> set (tl ps). le_prev (h' p) = le_prev (h p)"
    by (cases ps) (auto simp: same)
qed

text \<open>A list disjoint from the nodes an operation may write is still a list afterwards.\<close>

lemma list_rep_frame:
  assumes "unchanged A h h'" and "set (list_nodes l xs) \<inter> A = {}" and "list_rep h l xs"
  shows "list_rep h' l xs"
proof -
  have "h' p = h p" if "p \<in> set (list_nodes l xs)" for p
    using assms(1,2) that by (auto simp: unchanged_def)
  then show ?thesis
    using assms(3) dlseg_unchanged [OF assms(1,2)]
    by (auto simp: list_rep_def list_nodes_def)
qed

lemma dlseg_link:
  "dlseg h (ps @ a # b # qs) \<longleftrightarrow>
     dlseg h (ps @ [a]) \<and> le_next (h a) = b \<and> le_prev (h b) = a \<and> dlseg h (b # qs)"
  by (subst dlseg_append) simp

text \<open>
  Surgery on a chain: the nodes between \<open>a\<close> and \<open>b\<close> are replaced, and the links outside that
  stretch are kept.
\<close>

lemma chain_replace:
  assumes c: "dl_chain h (ps @ a # ms @ b # qs)"
    and nx: "\<forall>p \<in> set ps \<union> set (b # qs). le_next (h' p) = le_next (h p)"
    and pv: "\<forall>p \<in> set (ps @ [a]) \<union> set qs. le_prev (h' p) = le_prev (h p)"
    and mid: "dlseg h' (a # ms' @ [b])"
    and d: "distinct (ps @ a # ms' @ b # qs)" "NULL \<notin> set ms'"
  shows "dl_chain h' (ps @ a # ms' @ b # qs)"
proof -
  have "dlseg h (ps @ [a])" "dlseg h (b # qs)"
    using c dlseg_append [of h ps a "ms @ b # qs"] dlseg_append [of h "a # ms" b qs]
    by (simp_all add: dl_chain_def)
  moreover have "dlseg h' (ps @ [a]) = dlseg h (ps @ [a])"
    using nx pv by (intro dlseg_cong) (cases ps; auto)+
  moreover have "dlseg h' (b # qs) = dlseg h (b # qs)"
    using nx pv by (intro dlseg_cong) (auto dest: in_set_butlastD)
  ultimately have "dlseg h' (ps @ a # ms' @ b # qs)"
    using mid dlseg_append [of h' ps a "ms' @ b # qs"] dlseg_append [of h' "a # ms'" b qs] by simp
  moreover have "le_prev (h' (hd (ps @ a # ms' @ b # qs))) = NULL"
    using c pv by (cases ps) (auto simp: dl_chain_def)
  moreover have "le_next (h' (last (b # qs))) = NULL"
    using c nx last_in_set [of "b # qs"] by (auto simp: dl_chain_def)
  ultimately show ?thesis
    using d c by (auto simp: dl_chain_def)
qed

lemma chain_insert:
  assumes c: "dl_chain h (ps @ a # b # qs)" and e: "e \<notin> set (ps @ a # b # qs)" "e \<noteq> NULL"
  shows "\<exists>h'. list_insert h b e = ret h' \<and> dl_chain h' (ps @ a # e # b # qs) \<and>
           unchanged {e, a, b} h h'"
proof -
  define h' where "h' = set_prev (set_next (set_next (set_prev h e a) e b) a e) b e"
  have d: "distinct (ps @ a # b # qs)" "NULL \<notin> set (ps @ a # b # qs)"
    using c by (simp_all add: dl_chain_def)
  have "list_insert h b e = ret h'"
    using chain_not_first [OF c] dl_chain_links [OF c] e
    by (auto simp: list_insert_def h'_def Let_def)
  moreover have "dl_chain h' (ps @ a # [e] @ b # qs)"
    by (rule chain_replace [where ms = "[]"]) (use c d e in \<open>auto simp: h'_def\<close>)
  moreover have "unchanged {e, a, b} h h'"
    by (simp add: unchanged_def h'_def set_link_other)
  ultimately show ?thesis by auto
qed

lemma chain_remove:
  assumes c: "dl_chain h (ps @ a # e # b # qs)"
  shows "\<exists>h'. list_remove h e = ret (b, h') \<and> dl_chain h' (ps @ a # b # qs) \<and>
           unchanged {a, b} h h'"
proof -
  define h' where "h' = set_prev (set_next h a b) b a"
  have d: "distinct (ps @ a # e # b # qs)" "NULL \<notin> set (ps @ a # e # b # qs)"
    using c by (simp_all add: dl_chain_def)
  have l: "le_next (h e) = b" "le_prev (h e) = a"
    using dl_chain_links [OF c] dl_chain_links [of h "ps @ [a]" e b qs] c by simp_all
  have "list_remove h e = ret (b, h')"
    using chain_is_interior [OF c] l d by (auto simp: list_remove_def h'_def Let_def)
  moreover have "dl_chain h' (ps @ a # [] @ b # qs)"
    by (rule chain_replace [where ms = "[e]"]) (use c d in \<open>auto simp: h'_def\<close>)
  moreover have "unchanged {a, b} h h'"
    by (simp add: unchanged_def h'_def set_link_other)
  ultimately show ?thesis by auto
qed

lemma dlseg_join:
  "us \<noteq> [] \<Longrightarrow> vs \<noteq> [] \<Longrightarrow> dlseg h (us @ vs) \<longleftrightarrow>
     dlseg h us \<and> le_next (h (last us)) = hd vs \<and> le_prev (h (hd vs)) = last us \<and> dlseg h vs"
  by (cases us rule: rev_cases; cases vs) (simp_all add: dlseg_link)

lemma chain_links_at:
  assumes "dl_chain h ns" and "ns = us @ vs" and "us \<noteq> []" and "vs \<noteq> []"
  shows "le_next (h (last us)) = hd vs" and "le_prev (h (hd vs)) = last us"
    and "dlseg h us" and "dlseg h vs"
  using assms by (auto simp: dl_chain_def dlseg_join)

text \<open>
  The six assignments of \<open>list_splice\<close>, for the stretch \<open>fs\<close> between \<open>x\<close> and \<open>z\<close> moved
  between \<open>p\<close> and \<open>a\<close>.
\<close>

lemma splice_heap:
  assumes a: "is_interior h a \<or> is_tail h a" and z: "list_prev h z = ret (last fs)"
    and f: "is_interior h (hd fs)" "is_interior h (last fs)" and ne: "fs \<noteq> []" "z \<notin> set fs" "a \<notin> set fs" "a \<noteq> z"
    and x: "le_prev (h (hd fs)) = x" "le_next (h (last fs)) = z" and p: "le_prev (h a) = p" "p \<noteq> x"
    and xfs: "x \<notin> set fs"
  shows "\<exists>h'. list_splice h a (hd fs) z = ret h' \<and>
     (\<forall>q. le_next (h' q) = (if q = p then hd fs else if q = last fs then a else if q = x then z else le_next (h q))) \<and>
     (\<forall>q. le_prev (h' q) = (if q = a then last fs else if q = hd fs then p else if q = z then x else le_prev (h q))) \<and>
     unchanged {a, p, x, z, hd fs, last fs} h h'"
proof -
  have hl: "hd fs \<in> set fs" "last fs \<in> set fs" using ne by simp_all
  have neq: "hd fs \<noteq> z" "hd fs \<noteq> a" "x \<noteq> last fs"
    using hl ne xfs by auto
  have s: "list_splice h a (hd fs) z =
     ret (set_prev (set_next (set_next (set_prev (set_prev (set_next h x z) z x) (hd fs) p) (last fs) a) p (hd fs)) a (last fs))"
    using a z f x p neq ne by (auto simp: list_splice_def Let_def)
  show ?thesis unfolding s by (auto simp: unchanged_def set_link_other)
qed

lemma chain_at:
  assumes "dl_chain h (us @ vs)" and "us \<noteq> []" and "vs \<noteq> []"
  shows "list_prev h (hd vs) = ret (last us)" and "list_next h (last us) = ret (hd vs)"
  using assms by (cases us rule: rev_cases; cases vs; simp add: chain_prev chain_next)+

lemma dlseg_cong_ends:
  assumes "distinct ps"
    and "\<And>q. q \<in> set ps \<Longrightarrow> q \<noteq> last ps \<Longrightarrow> le_next (h' q) = le_next (h q)"
    and "\<And>q. q \<in> set ps \<Longrightarrow> q \<noteq> hd ps \<Longrightarrow> le_prev (h' q) = le_prev (h q)"
  shows "dlseg h' ps = dlseg h ps"
proof (rule dlseg_cong)
  show "\<forall>q \<in> set (butlast ps). le_next (h' q) = le_next (h q)"
    using assms(1,2) by (cases ps rule: rev_cases) auto
  show "\<forall>q \<in> set (tl ps). le_prev (h' q) = le_prev (h q)"
    using assms(1,3) by (cases ps) auto
qed

lemma chain_interior_mid:
  assumes "dl_chain h (us @ vs @ ws)" and "us \<noteq> []" and "ws \<noteq> []" and "v \<in> set vs"
  shows "is_interior h v"
proof -
  from assms(4) obtain v1 v2 where v: "vs = v1 @ v # v2" by (auto simp: in_set_conv_decomp)
  define l r where "l = last (us @ v1)" and "r = hd (v2 @ ws)"
  have "us @ v1 = butlast (us @ v1) @ [l]" "v2 @ ws = r # tl (v2 @ ws)"
    using assms(2,3) by (auto simp: l_def r_def simp del: butlast_append)
  then have "us @ vs @ ws = butlast (us @ v1) @ l # v # r # tl (v2 @ ws)"
    by (metis (no_types, lifting) append.assoc append_Cons append_Nil v)
  with assms(1) show ?thesis by (metis chain_is_interior)
qed

lemma chain_splice_left:
  assumes c: "dl_chain h (ps @ p # as @ fs @ z # qs)" and ne: "as \<noteq> []" "fs \<noteq> []"
  shows "\<exists>h'. list_splice h (hd as) (hd fs) z = ret h' \<and> dl_chain h' (ps @ p # fs @ as @ z # qs) \<and>
           unchanged (set (p # as @ fs @ [z])) h h'"
proof -
  have d: "distinct (ps @ p # as @ fs @ z # qs)" "NULL \<notin> set (ps @ p # as @ fs @ z # qs)"
    using c by (simp_all add: dl_chain_def)
  note l1 = chain_links_at [OF c, of "ps @ [p]" "as @ fs @ z # qs"]
  note l2 = chain_links_at [OF c, of "ps @ p # as" "fs @ z # qs"]
  note l3 = chain_links_at [OF c, of "ps @ p # as @ fs" "z # qs"]
  have l: "le_prev (h (hd as)) = p" "le_prev (h (hd fs)) = last as" "le_next (h (last fs)) = z"
    using l1 l2 l3 ne by simp_all
  have m: "hd as \<in> set as" "last as \<in> set as" "hd fs \<in> set fs" "last fs \<in> set fs"
    using ne by simp_all
  have i: "is_interior h (hd as)" "is_interior h (hd fs)" "is_interior h (last fs)"
    using chain_interior_mid [of h "ps @ [p]" "as @ fs" "z # qs"] c m by simp_all
  have zp: "list_prev h z = ret (last fs)"
    using chain_at(1) [of h "ps @ p # as @ fs" "z # qs"] c ne by simp
  have dis: "z \<notin> set fs" "hd as \<notin> set fs" "hd as \<noteq> z" "p \<noteq> last as" "last as \<notin> set fs"
    using d m by auto
  obtain h' where sp: "list_splice h (hd as) (hd fs) z = ret h'"
    and nx: "\<And>q. le_next (h' q) = (if q = p then hd fs else if q = last fs then hd as
               else if q = last as then z else le_next (h q))"
    and pv: "\<And>q. le_prev (h' q) = (if q = hd as then last fs else if q = hd fs then p
               else if q = z then last as else le_prev (h q))"
    and un: "unchanged {hd as, p, last as, z, hd fs, last fs} h h'"
    using splice_heap [OF disjI1 [OF i(1)] zp i(2,3) ne(2) dis(1,2,3) l(2,3,1) dis(4,5)] by blast
  have seg: "dlseg h as" "dlseg h fs"
    using l1 l2 ne dlseg_join [of as "fs @ z # qs" h] dlseg_join [of fs "z # qs" h] by simp_all
  have "p \<notin> set as" "z \<notin> set as" "p \<notin> set fs" "distinct as" "distinct fs" "set as \<inter> set fs = {}"
    using d by auto
  then have "dlseg h' as = dlseg h as" and "dlseg h' fs = dlseg h fs"
    using m dis(1) by - (rule dlseg_cong_ends; auto simp: nx pv)+
  then have "dlseg h' as" "dlseg h' fs"
    using seg by simp_all
  note segs = this
  have neq: "hd fs \<noteq> hd as" "last fs \<noteq> p" "last as \<noteq> p" "last as \<noteq> last fs" "z \<noteq> hd as" "z \<noteq> hd fs"
    using d m by auto
  have "dlseg h' (as @ [z])"
    using segs(1) ne neq by (simp add: dlseg_join nx pv)
  then have "dlseg h' (fs @ as @ [z])"
    using segs(2) ne neq by (subst dlseg_join) (simp_all add: nx pv)
  then have "dlseg h' ([p] @ fs @ as @ [z])"
    using ne neq by (subst dlseg_join) (simp_all add: nx pv)
  then have mid: "dlseg h' (p # (fs @ as) @ [z])" by simp
  have "dl_chain h' (ps @ p # (fs @ as) @ z # qs)"
  proof (rule chain_replace [where ms = "as @ fs", OF _ _ _ mid])
    show "dl_chain h (ps @ p # (as @ fs) @ z # qs)" using c by simp
    show "\<forall>q \<in> set ps \<union> set (z # qs). le_next (h' q) = le_next (h q)"
      using d m by (auto simp: nx)
    show "\<forall>q \<in> set (ps @ [p]) \<union> set qs. le_prev (h' q) = le_prev (h q)"
      using d m by (auto simp: pv)
    show "distinct (ps @ p # (fs @ as) @ z # qs)" "NULL \<notin> set (fs @ as)"
      using d by auto
  qed
  moreover have "unchanged (set (p # as @ fs @ [z])) h h'"
    by (rule unchanged_mono [OF un]) (use m in auto)
  ultimately show ?thesis using sp by simp
qed

section \<open>The operations on well-formed lists\<close>

lemma list_rep_nonnull: "list_rep h l xs \<Longrightarrow> l \<noteq> NULL"
  by (simp add: list_rep_def list_nodes_def)

lemma list_rep_end: "list_rep h l xs \<Longrightarrow> list_end h l = ret (tailp l)"
  by (simp add: list_end_def list_rep_nonnull)

lemma list_rep_begin:
  assumes "list_rep h l xs"
  shows "list_begin h l = ret (hd (xs @ [tailp l]))"
  using assms chain_links_at(1) [of h "list_nodes l xs" "[l]" "xs @ [tailp l]"]
  by (simp add: list_begin_def list_rep_nonnull list_rep_chain list_nodes_def)

lemma list_rep_rbegin:
  assumes "list_rep h l xs"
  shows "list_rbegin h l = ret (last (l # xs))"
  using assms chain_links_at(2) [of h "list_nodes l xs" "l # xs" "[tailp l]"]
  by (simp add: list_rbegin_def list_rep_nonnull list_rep_chain list_nodes_def)

lemma list_rep_empty:
  assumes "list_rep h l xs"
  shows "list_empty h l = ret (xs = [])"
  using assms list_rep_begin [OF assms] list_rep_end [OF assms]
  by (cases xs) (simp_all add: list_empty_def list_rep_def list_nodes_def)

lemma list_rep_front:
  assumes "list_rep h l xs"
  shows "list_front h l = (if xs = [] then fail Assert_failed else ret (hd xs))"
  using assms list_rep_begin [OF assms]
  by (simp add: list_front_def list_rep_empty list_begin_def list_rep_nonnull)

lemma list_rep_back:
  assumes "list_rep h l xs"
  shows "list_back h l = (if xs = [] then fail Assert_failed else ret (last xs))"
  using assms list_rep_rbegin [OF assms]
  by (simp add: list_back_def list_rep_empty list_rbegin_def list_rep_nonnull)

lemma list_init_rep:
  assumes "l \<noteq> NULL" "tailp l \<noteq> NULL"
  shows "\<exists>h'. list_init h l = ret h' \<and> list_rep h' l [] \<and> unchanged {l, tailp l} h h'"
  using assms by (auto simp: list_init_def list_rep_def list_nodes_def unchanged_def set_link_other Let_def)

lemma list_nodes_split:
  obtains ps a b qs where "b = hd (ys @ [tailp l])"
    and "\<And>zs. list_nodes l (xs @ zs @ ys) = ps @ a # zs @ b # qs"
proof
  show "list_nodes l (xs @ zs @ ys) =
      butlast (l # xs) @ last (l # xs) # zs @ hd (ys @ [tailp l]) # tl (ys @ [tailp l])" for zs
  proof -
    have "list_nodes l (xs @ zs @ ys) = (l # xs) @ zs @ (ys @ [tailp l])"
      by (simp add: list_nodes_def)
    also have "\<dots> = (butlast (l # xs) @ [last (l # xs)]) @ zs @ hd (ys @ [tailp l]) # tl (ys @ [tailp l])"
      by (subst append_butlast_last_id) simp_all
    finally show ?thesis by simp
  qed
qed simp

lemma list_insert_rep:
  assumes r: "list_rep h l (xs @ ys)" and e: "e \<notin> set (list_nodes l (xs @ ys))" "e \<noteq> NULL"
  shows "\<exists>h'. list_insert h (hd (ys @ [tailp l])) e = ret h' \<and> list_rep h' l (xs @ e # ys) \<and>
           unchanged (insert e (set (list_nodes l (xs @ ys)))) h h'"
proof -
  obtain ps a b qs where b: "b = hd (ys @ [tailp l])"
    and zs: "\<And>zs. list_nodes l (xs @ zs @ ys) = ps @ a # zs @ b # qs"
    by (rule list_nodes_split [of ys l xs]) blast
  have ns: "list_nodes l (xs @ ys) = ps @ a # b # qs" "list_nodes l (xs @ e # ys) = ps @ a # e # b # qs"
    using zs [of "[]"] zs [of "[e]"] by simp_all
  from chain_insert [of h ps a b qs e] r e
  obtain h' where "list_insert h b e = ret h'" "dl_chain h' (ps @ a # e # b # qs)" "unchanged {e, a, b} h h'"
    unfolding list_rep_chain ns by auto
  moreover from this(3) have "unchanged (insert e (set (list_nodes l (xs @ ys)))) h h'"
    by (rule unchanged_mono) (auto simp: ns)
  ultimately show ?thesis unfolding list_rep_chain ns b [symmetric] by blast
qed

lemma list_push_front_rep:
  assumes "list_rep h l xs" and "e \<notin> set (list_nodes l xs)" "e \<noteq> NULL"
  shows "\<exists>h'. list_push_front h l e = ret h' \<and> list_rep h' l (e # xs) \<and>
           unchanged (insert e (set (list_nodes l xs))) h h'"
  using list_insert_rep [of h l "[]" xs e] assms by (simp add: list_push_front_def list_rep_begin)

lemma list_push_back_rep:
  assumes "list_rep h l xs" and "e \<notin> set (list_nodes l xs)" "e \<noteq> NULL"
  shows "\<exists>h'. list_push_back h l e = ret h' \<and> list_rep h' l (xs @ [e]) \<and>
           unchanged (insert e (set (list_nodes l xs))) h h'"
  using list_insert_rep [of h l xs "[]" e] assms by (simp add: list_push_back_def list_rep_end)

lemma list_remove_rep:
  assumes r: "list_rep h l (xs @ e # ys)"
  shows "\<exists>h'. list_remove h e = ret (hd (ys @ [tailp l]), h') \<and> list_rep h' l (xs @ ys) \<and>
           unchanged (set (list_nodes l (xs @ ys))) h h'"
proof -
  obtain ps a b qs where b: "b = hd (ys @ [tailp l])"
    and zs: "\<And>zs. list_nodes l (xs @ zs @ ys) = ps @ a # zs @ b # qs"
    by (rule list_nodes_split [of ys l xs]) blast
  have ns: "list_nodes l (xs @ ys) = ps @ a # b # qs" "list_nodes l (xs @ e # ys) = ps @ a # e # b # qs"
    using zs [of "[]"] zs [of "[e]"] by simp_all
  from chain_remove [of h ps a e b qs] r
  obtain h' where "list_remove h e = ret (b, h')" "dl_chain h' (ps @ a # b # qs)" "unchanged {a, b} h h'"
    unfolding list_rep_chain ns by auto
  moreover from this(3) have "unchanged (set (list_nodes l (xs @ ys))) h h'"
    by (rule unchanged_mono) (auto simp: ns)
  ultimately show ?thesis unfolding list_rep_chain ns b [symmetric] by blast
qed

lemma list_pop_front_rep:
  assumes "list_rep h l (x # xs)"
  shows "\<exists>h'. list_pop_front h l = ret (x, h') \<and> list_rep h' l xs \<and> unchanged (set (list_nodes l xs)) h h'"
  using list_remove_rep [of h l "[]" x xs] assms by (auto simp: list_pop_front_def list_rep_front)

lemma list_pop_back_rep:
  assumes "list_rep h l (xs @ [x])"
  shows "\<exists>h'. list_pop_back h l = ret (x, h') \<and> list_rep h' l xs \<and> unchanged (set (list_nodes l xs)) h h'"
  using list_remove_rep [of h l xs x "[]"] assms by (auto simp: list_pop_back_def list_rep_back)

text \<open>Walking a list from any of its nodes.\<close>

lemma list_rep_next:
  assumes "list_rep h l (xs @ e # ys)"
  shows "list_next h e = ret (hd (ys @ [tailp l]))"
  using chain_at(2) [of h "l # xs @ [e]" "ys @ [tailp l]"] assms by (simp add: list_rep_chain list_nodes_def)

lemma list_rep_prev:
  assumes "list_rep h l (xs @ e # ys)"
  shows "list_prev h e = ret (last (l # xs))"
  using chain_at(1) [of h "l # xs" "e # ys @ [tailp l]"] assms by (simp add: list_rep_chain list_nodes_def)

lemma list_rep_not_tail: "list_rep h l xs \<Longrightarrow> e \<in> set xs \<Longrightarrow> e \<noteq> tailp l"
  by (auto simp: list_rep_def list_nodes_def)

lemma list_rep_length: "list_rep h l xs \<Longrightarrow> length xs < 2 ^ 64"
  using distinct_words_length [of "list_nodes l xs"] by (simp add: list_rep_def list_nodes_def)

lemma list_size_loop_rep:
  assumes "list_rep h l (xs @ ys)"
  shows "list_size_loop h (tailp l) (hd (ys @ [tailp l])) cnt = ret (cnt + of_nat (length ys))"
  using assms
proof (induction ys arbitrary: xs cnt)
  case Nil
  then show ?case by (subst list_size_loop.simps) simp
next
  case (Cons y ys)
  then have "y \<noteq> tailp l" using list_rep_not_tail [OF Cons.prems, of y] by simp
  with Cons.IH [of "xs @ [y]" "cnt + 1"] Cons.prems show ?case
    by (subst list_size_loop.simps) (simp add: list_rep_next [OF Cons.prems] add.assoc)
qed

lemma list_size_rep:
  assumes "list_rep h l xs"
  shows "list_size h l = ret (of_nat (length xs))"
  using list_size_loop_rep [of h l "[]" xs 0] assms
  by (simp add: list_size_def list_rep_begin list_rep_end)

text \<open>
  \<open>list_splice\<close> between two lists: the stretch \<open>fs\<close> leaves the list at \<open>l\<close> and enters the
  list at \<open>k\<close>.
\<close>

lemma list_splice_rep:
  assumes L: "list_rep h l (xs @ fs @ ys)" and K: "list_rep h k (us @ vs)" and ne: "fs \<noteq> []"
    and disj: "set (list_nodes l (xs @ fs @ ys)) \<inter> set (list_nodes k (us @ vs)) = {}"
  shows "\<exists>h'. list_splice h (hd (vs @ [tailp k])) (hd fs) (hd (ys @ [tailp l])) = ret h' \<and>
           list_rep h' l (xs @ ys) \<and> list_rep h' k (us @ fs @ vs)"
proof -
  obtain ps x z qs where z: "z = hd (ys @ [tailp l])"
    and n1: "\<And>zs. list_nodes l (xs @ zs @ ys) = ps @ x # zs @ z # qs"
    by (rule list_nodes_split [of ys l xs]) blast
  obtain rs p a ts where a: "a = hd (vs @ [tailp k])"
    and n2: "\<And>zs. list_nodes k (us @ zs @ vs) = rs @ p # zs @ a # ts"
    by (rule list_nodes_split [of vs k us]) blast
  have c1: "dl_chain h (ps @ x # fs @ z # qs)" using L n1 [of fs] by (simp add: list_rep_chain)
  have c2: "dl_chain h (rs @ p # a # ts)" using K n2 [of "[]"] by (simp add: list_rep_chain)
  have d1: "distinct (ps @ x # fs @ z # qs)" "NULL \<notin> set (ps @ x # fs @ z # qs)"
    using c1 by (simp_all add: dl_chain_def)
  have d2: "distinct (rs @ p # a # ts)" "NULL \<notin> set (rs @ p # a # ts)"
    using c2 by (simp_all add: dl_chain_def)
  have d12: "set (ps @ x # fs @ z # qs) \<inter> set (rs @ p # a # ts) = {}"
    using disj n1 [of fs] n2 [of "[]"] by simp
  have m: "hd fs \<in> set fs" "last fs \<in> set fs" using ne by simp_all
  have i: "is_interior h (hd fs)" "is_interior h (last fs)"
    using chain_interior_mid [of h "ps @ [x]" fs "z # qs"] c1 m by simp_all
  have l: "le_prev (h (hd fs)) = x" "le_next (h (last fs)) = z" "le_prev (h a) = p"
    "dlseg h fs"
    using chain_links_at [OF c1, of "ps @ [x]" "fs @ z # qs"] chain_links_at [OF c1, of "ps @ x # fs" "z # qs"]
      chain_links_at [OF c2, of "rs @ [p]" "a # ts"] ne dlseg_join [of fs "z # qs" h] by simp_all
  have zp: "list_prev h z = ret (last fs)"
    using chain_at(1) [of h "ps @ x # fs" "z # qs"] c1 ne by simp
  have dis: "z \<notin> set fs" "a \<notin> set fs" "a \<noteq> z" "p \<noteq> x" "x \<notin> set fs" "p \<notin> set fs"
    using d1 d12 by auto
  obtain h' where sp: "list_splice h a (hd fs) z = ret h'"
    and nx: "\<And>q. le_next (h' q) = (if q = p then hd fs else if q = last fs then a
               else if q = x then z else le_next (h q))"
    and pv: "\<And>q. le_prev (h' q) = (if q = a then last fs else if q = hd fs then p
               else if q = z then x else le_prev (h q))"
    using splice_heap [OF chain_not_first [OF c2] zp i ne dis(1,2,3) l(1,2,3) dis(4,5)] by blast
  have "x \<noteq> a" "x \<noteq> z" "z \<noteq> hd fs" "x \<noteq> last fs" using d1 d12 m by auto
  then have m1: "dlseg h' (x # [] @ [z])" using dis by (simp add: nx pv)
  have "dl_chain h' (ps @ x # [] @ z # qs)"
    by (rule chain_replace [where ms = fs, OF c1 _ _ m1]) (use d1 d12 m in \<open>auto simp: nx pv\<close>)
  moreover have fs': "dlseg h' fs = dlseg h fs"
    using d1 dis m by - (rule dlseg_cong_ends; auto simp: nx pv)
  have "hd fs \<noteq> a" "last fs \<noteq> p" using m dis by auto
  then have "dlseg h' (fs @ [a])" using ne l(4) fs' by (simp add: dlseg_join nx pv)
  then have "dlseg h' ([p] @ fs @ [a])"
    using ne \<open>hd fs \<noteq> a\<close> by (subst dlseg_join) (simp_all add: nx pv)
  then have m2: "dlseg h' (p # fs @ [a])" by simp
  have "dl_chain h' (rs @ p # fs @ a # ts)"
    by (rule chain_replace [where ms = "[]", OF _ _ _ m2]) (use c2 d1 d2 d12 m in \<open>auto simp: nx pv\<close>)
  ultimately show ?thesis
    using sp n1 [of "[]"] n2 [of fs] by (auto simp: list_rep_chain a z)
qed

text \<open>Reversal.\<close>

definition swap_all :: "lheap \<Rightarrow> ptr set \<Rightarrow> lheap" where
  "swap_all h A = (\<lambda>p. if p \<in> A then \<lparr>le_prev = le_next (h p), le_next = le_prev (h p)\<rparr> else h p)"

lemma swap_all_insert: "p \<notin> A \<Longrightarrow> swap_all (swap_links h p) A = swap_all h (insert p A)"
  by (auto simp: swap_all_def swap_links_def fun_eq_iff)

lemma dlseg_rev:
  "dlseg h xs \<Longrightarrow> set xs \<subseteq> A \<Longrightarrow> dlseg (swap_all h A) (rev xs)"
proof (induction h xs rule: dlseg.induct)
  case (3 h p q ps)
  then show ?case
    using dlseg_snoc2 [of "swap_all h A" "rev ps" q p] by (simp add: swap_all_def)
qed simp_all

lemma list_reverse_loop_chain:
  assumes "dl_chain h (us @ ys @ z # qs)" and "us \<noteq> []"
  shows "list_reverse_loop h z (hd (ys @ [z])) = ret (swap_all h (set ys))"
proof -
  have "list_reverse_loop h' z (hd (ys @ [z])) = ret (swap_all h' (set ys))"
    if "\<forall>p \<in> set ys. h' p = h p" for h'
    using that assms
  proof (induction ys arbitrary: us h')
    case Nil
    then show ?case by (subst list_reverse_loop.simps) (simp add: swap_all_def)
  next
    case (Cons y ys)
    have d: "y \<noteq> z" "y \<noteq> NULL" "y \<notin> set ys"
      using Cons.prems(2) by (auto simp: dl_chain_def)
    have nx: "le_next (h' y) = hd (ys @ [z])"
      using chain_links_at(1) [OF Cons.prems(2), of "us @ [y]" "ys @ z # qs"] Cons.prems(1)
      by (cases ys) simp_all
    have "list_reverse_loop (swap_links h' y) z (hd (ys @ [z])) = ret (swap_all (swap_links h' y) (set ys))"
      by (rule Cons.IH [of _ "us @ [y]"]) (use Cons.prems d in \<open>auto simp: swap_links_def\<close>)
    moreover have "le_prev (swap_links h' y y) = hd (ys @ [z])"
      using nx by (simp add: swap_links_def)
    ultimately show ?case
      using d by (subst list_reverse_loop.simps) (simp add: Let_def swap_all_insert)
  qed
  then show ?thesis by simp
qed

lemma list_reverse_rep:
  assumes r: "list_rep h l xs"
  shows "\<exists>h'. list_reverse h l = ret h' \<and> list_rep h' l (rev xs)"
proof (cases "xs = []")
  case True
  with r show ?thesis by (simp add: list_reverse_def list_rep_empty)
next
  case False
  have c: "dl_chain h ([l] @ xs @ [tailp l])" using r by (simp add: list_rep_chain list_nodes_def)
  have d: "distinct (l # xs @ [tailp l])" "NULL \<notin> set (l # xs @ [tailp l])"
    using c by (simp_all add: dl_chain_def)
  have m: "hd xs \<in> set xs" "last xs \<in> set xs" using False by simp_all
  define h1 where "h1 = swap_all h (set xs)"
  have loop: "list_reverse_loop h (tailp l) (hd (xs @ [tailp l])) = ret h1"
    using list_reverse_loop_chain [of h "[l]" xs "tailp l" "[]"] c by (simp add: h1_def)
  have lk: "le_next (h l) = hd xs" "le_prev (h (hd xs)) = l" "le_next (h (last xs)) = tailp l"
    "le_prev (h (tailp l)) = last xs" "dlseg h xs" "le_prev (h l) = NULL" "le_next (h (tailp l)) = NULL"
    using chain_links_at [OF c, of "[l]" "xs @ [tailp l]"] chain_links_at [OF c, of "l # xs" "[tailp l]"]
      dlseg_join [of xs "[tailp l]" h] c False by (simp_all add: dl_chain_def)
  define h' where "h' = set_next (set_prev (set_prev (set_next h1 l (last xs)) (tailp l) (hd xs)) (last xs) l) (hd xs) (tailp l)"
  have lt: "l \<notin> set xs" "tailp l \<notin> set xs" "l \<noteq> tailp l" using d by auto
  then have neq: "l \<noteq> hd xs" "l \<noteq> last xs" "tailp l \<noteq> hd xs" "tailp l \<noteq> last xs" using m by metis+
  have h1: "le_next (h1 l) = hd xs" "le_prev (h1 (tailp l)) = last xs" "le_prev (h1 (last xs)) = tailp l"
    "le_next (h1 (hd xs)) = l" "le_prev (h1 l) = NULL" "le_next (h1 (tailp l)) = NULL"
    using lk lt m by (simp_all add: h1_def swap_all_def)
  have res: "list_reverse h l = ret h'"
    using r False loop h1 neq lt
    by (simp add: list_reverse_def list_rep_empty list_rep_begin list_rep_end Let_def h'_def)
  have "dlseg h1 (rev xs)" unfolding h1_def using lk by (intro dlseg_rev) auto
  moreover have "dlseg h' (rev xs) = dlseg h1 (rev xs)"
    by (rule dlseg_cong_ends) (use d lt False in \<open>auto simp: h'_def hd_rev last_rev\<close>)
  ultimately have "dlseg h' (rev xs)" by simp
  then have "dlseg h' (rev xs @ [tailp l])"
    using False neq lt by (simp add: dlseg_join last_rev h'_def)
  then have "dlseg h' ([l] @ rev xs @ [tailp l])"
    using False neq lt by (subst dlseg_join) (simp_all add: hd_rev h'_def)
  then have "list_rep h' l (rev xs)"
    using d h1 neq lt by (simp add: list_rep_def list_nodes_def h'_def)
  with res show ?thesis by blast
qed

end
