(* ===== verification/Klist_Ordered.thy ===== *)
theory Klist_Ordered
  imports Klist
begin

text \<open>
  The operations of \<open>lib/kernel/list.c\<close> that take a comparison function: \<open>is_sorted\<close>, the
  natural merge sort \<open>list_sort\<close>, \<open>list_insert_ordered\<close>, \<open>list_unique\<close>, \<open>list_max\<close> and
  \<open>list_min\<close>, on the pointer heap of \<open>Klist\<close>. A \<open>list_less_func\<close> with its \<open>aux\<close> argument is
  a parameter \<open>lt\<close> on element addresses: it reads the structures around the elements, which
  these operations do not write.

  The contract of a comparison function is the locale \<open>list_less\<close>: a strict weak order. Under
  it the sort terminates, is stable and never fails its own assertions; the clients interpret
  the locale at their comparison functions.
\<close>

section \<open>Operations\<close>

partial_function (option) is_sorted_loop ::
  "(ptr \<Rightarrow> ptr \<Rightarrow> bool) \<Rightarrow> lheap \<Rightarrow> ptr \<Rightarrow> ptr \<Rightarrow> bool exec" where
  "is_sorted_loop lt h a b =
     bindE (list_next h a) (\<lambda>a.
     if a \<noteq> b then
       bindE (list_prev h a) (\<lambda>p. if lt a p then ret False else is_sorted_loop lt h a b)
     else ret True)"

definition is_sorted :: "(ptr \<Rightarrow> ptr \<Rightarrow> bool) \<Rightarrow> lheap \<Rightarrow> ptr \<Rightarrow> ptr \<Rightarrow> bool exec" where
  "is_sorted lt h a b = (if a \<noteq> b then is_sorted_loop lt h a b else ret True)"

partial_function (option) find_end_loop ::
  "(ptr \<Rightarrow> ptr \<Rightarrow> bool) \<Rightarrow> lheap \<Rightarrow> ptr \<Rightarrow> ptr \<Rightarrow> ptr exec" where
  "find_end_loop lt h a b =
     bindE (list_next h a) (\<lambda>a.
     if a \<noteq> b then
       bindE (list_prev h a) (\<lambda>p. if \<not> lt a p then find_end_loop lt h a b else ret a)
     else ret a)"

definition find_end_of_run :: "(ptr \<Rightarrow> ptr \<Rightarrow> bool) \<Rightarrow> lheap \<Rightarrow> ptr \<Rightarrow> ptr \<Rightarrow> ptr exec" where
  "find_end_of_run lt h a b =
     ASSERT (a \<noteq> NULL) (ASSERT (b \<noteq> NULL) (ASSERT (a \<noteq> b) (find_end_loop lt h a b)))"

partial_function (option) inplace_merge_loop ::
  "(ptr \<Rightarrow> ptr \<Rightarrow> bool) \<Rightarrow> lheap \<Rightarrow> ptr \<Rightarrow> ptr \<Rightarrow> ptr \<Rightarrow> lheap exec" where
  "inplace_merge_loop lt h a0 a1b0 b1 =
     (if a0 \<noteq> a1b0 \<and> a1b0 \<noteq> b1 then
        (if \<not> lt a1b0 a0 then
           bindE (list_next h a0) (\<lambda>a0. inplace_merge_loop lt h a0 a1b0 b1)
         else
           bindE (list_next h a1b0) (\<lambda>a1b0.
           bindE (list_prev h a1b0) (\<lambda>p.
           bindE (list_splice h a0 p a1b0) (\<lambda>h. inplace_merge_loop lt h a0 a1b0 b1))))
      else ret h)"

definition inplace_merge ::
  "(ptr \<Rightarrow> ptr \<Rightarrow> bool) \<Rightarrow> lheap \<Rightarrow> ptr \<Rightarrow> ptr \<Rightarrow> ptr \<Rightarrow> lheap exec" where
  "inplace_merge lt h a0 a1b0 b1 =
     ASSERT (a0 \<noteq> NULL) (ASSERT (a1b0 \<noteq> NULL) (ASSERT (b1 \<noteq> NULL) (
     bindE (is_sorted lt h a0 a1b0) (\<lambda>s1. ASSERT s1 (
     bindE (is_sorted lt h a1b0 b1) (\<lambda>s2. ASSERT s2 (
     inplace_merge_loop lt h a0 a1b0 b1)))))))"

text \<open>The inner \<open>for\<close> loop of \<open>list_sort\<close>, one pass over the list; \<open>cnt\<close> is \<open>output_run_cnt\<close>.\<close>

partial_function (option) list_sort_pass ::
  "(ptr \<Rightarrow> ptr \<Rightarrow> bool) \<Rightarrow> ptr \<Rightarrow> lheap \<Rightarrow> ptr \<Rightarrow> size_t \<Rightarrow> (lheap \<times> size_t) exec" where
  "list_sort_pass lt l h a0 cnt =
     bindE (list_end h l) (\<lambda>stop.
     if a0 \<noteq> stop then
       bindE (find_end_of_run lt h a0 stop) (\<lambda>a1b0.
       if a1b0 = stop then ret (h, cnt + 1)
       else
         bindE (find_end_of_run lt h a1b0 stop) (\<lambda>b1.
         bindE (inplace_merge lt h a0 a1b0 b1) (\<lambda>h.
         list_sort_pass lt l h b1 (cnt + 1))))
     else ret (h, cnt))"

partial_function (option) list_sort_loop ::
  "(ptr \<Rightarrow> ptr \<Rightarrow> bool) \<Rightarrow> ptr \<Rightarrow> lheap \<Rightarrow> lheap exec" where
  "list_sort_loop lt l h =
     bindE (list_begin h l) (\<lambda>a0.
     bindE (list_sort_pass lt l h a0 0) (\<lambda>(h, cnt).
     if cnt > 1 then list_sort_loop lt l h else ret h))"

definition list_sort :: "(ptr \<Rightarrow> ptr \<Rightarrow> bool) \<Rightarrow> lheap \<Rightarrow> ptr \<Rightarrow> lheap exec" where
  "list_sort lt h l =
     ASSERT (l \<noteq> NULL) (
     bindE (list_sort_loop lt l h) (\<lambda>h.
     bindE (list_begin h l) (\<lambda>b.
     bindE (list_end h l) (\<lambda>e.
     bindE (is_sorted lt h b e) (\<lambda>s. ASSERT s (ret h))))))"

partial_function (option) insert_ordered_loop ::
  "(ptr \<Rightarrow> ptr \<Rightarrow> bool) \<Rightarrow> lheap \<Rightarrow> ptr \<Rightarrow> ptr \<Rightarrow> ptr \<Rightarrow> ptr exec" where
  "insert_ordered_loop lt h stop x e =
     (if e \<noteq> stop then
        (if lt x e then ret e
         else bindE (list_next h e) (\<lambda>e. insert_ordered_loop lt h stop x e))
      else ret e)"

definition list_insert_ordered :: "(ptr \<Rightarrow> ptr \<Rightarrow> bool) \<Rightarrow> lheap \<Rightarrow> ptr \<Rightarrow> ptr \<Rightarrow> lheap exec" where
  "list_insert_ordered lt h l x =
     ASSERT (l \<noteq> NULL) (ASSERT (x \<noteq> NULL) (
     bindE (list_begin h l) (\<lambda>b.
     bindE (list_end h l) (\<lambda>stop.
     bindE (insert_ordered_loop lt h stop x b) (\<lambda>e. list_insert h e x)))))"

partial_function (option) list_unique_loop ::
  "(ptr \<Rightarrow> ptr \<Rightarrow> bool) \<Rightarrow> ptr \<Rightarrow> ptr \<Rightarrow> lheap \<Rightarrow> ptr \<Rightarrow> lheap exec" where
  "list_unique_loop lt l dups h e =
     bindE (list_next h e) (\<lambda>nx.
     bindE (list_end h l) (\<lambda>stop.
     if nx \<noteq> stop then
       (if \<not> lt e nx \<and> \<not> lt nx e then
          bindE (list_remove h nx) (\<lambda>(_, h).
          bindE (if dups \<noteq> NULL then list_push_back h dups nx else ret h) (\<lambda>h.
          list_unique_loop lt l dups h e))
        else list_unique_loop lt l dups h nx)
     else ret h))"

definition list_unique :: "(ptr \<Rightarrow> ptr \<Rightarrow> bool) \<Rightarrow> lheap \<Rightarrow> ptr \<Rightarrow> ptr \<Rightarrow> lheap exec" where
  "list_unique lt h l dups =
     ASSERT (l \<noteq> NULL) (
     bindE (list_empty h l) (\<lambda>em.
     if em then ret h
     else bindE (list_begin h l) (\<lambda>e. list_unique_loop lt l dups h e)))"

partial_function (option) list_max_loop ::
  "(ptr \<Rightarrow> ptr \<Rightarrow> bool) \<Rightarrow> lheap \<Rightarrow> ptr \<Rightarrow> ptr \<Rightarrow> ptr \<Rightarrow> ptr exec" where
  "list_max_loop lt h stop mx e =
     (if e \<noteq> stop then
        bindE (list_next h e) (\<lambda>e'. list_max_loop lt h stop (if lt mx e then e else mx) e')
      else ret mx)"

definition list_max :: "(ptr \<Rightarrow> ptr \<Rightarrow> bool) \<Rightarrow> lheap \<Rightarrow> ptr \<Rightarrow> ptr exec" where
  "list_max lt h l =
     bindE (list_begin h l) (\<lambda>mx.
     bindE (list_end h l) (\<lambda>stop.
     if mx \<noteq> stop then bindE (list_next h mx) (\<lambda>e. list_max_loop lt h stop mx e)
     else ret mx))"

partial_function (option) list_min_loop ::
  "(ptr \<Rightarrow> ptr \<Rightarrow> bool) \<Rightarrow> lheap \<Rightarrow> ptr \<Rightarrow> ptr \<Rightarrow> ptr \<Rightarrow> ptr exec" where
  "list_min_loop lt h stop mn e =
     (if e \<noteq> stop then
        bindE (list_next h e) (\<lambda>e'. list_min_loop lt h stop (if lt e mn then e else mn) e')
      else ret mn)"

definition list_min :: "(ptr \<Rightarrow> ptr \<Rightarrow> bool) \<Rightarrow> lheap \<Rightarrow> ptr \<Rightarrow> ptr exec" where
  "list_min lt h l =
     bindE (list_begin h l) (\<lambda>mn.
     bindE (list_end h l) (\<lambda>stop.
     if mn \<noteq> stop then bindE (list_next h mn) (\<lambda>e. list_min_loop lt h stop mn e)
     else ret mn))"

section \<open>Sorting, on the sequence of elements\<close>

abbreviation equiv_by :: "('a \<Rightarrow> 'a \<Rightarrow> bool) \<Rightarrow> 'a \<Rightarrow> 'a \<Rightarrow> bool" where
  "equiv_by lt x y \<equiv> \<not> lt x y \<and> \<not> lt y x"

definition ordered :: "('a \<Rightarrow> 'a \<Rightarrow> bool) \<Rightarrow> 'a list \<Rightarrow> bool" where
  "ordered lt xs \<longleftrightarrow> sorted_wrt (\<lambda>x y. \<not> lt y x) xs"

fun adjacent_ordered :: "('a \<Rightarrow> 'a \<Rightarrow> bool) \<Rightarrow> 'a list \<Rightarrow> bool" where
  "adjacent_ordered lt (x # y # zs) = (\<not> lt y x \<and> adjacent_ordered lt (y # zs))"
| "adjacent_ordered lt _ = True"

fun merge_by :: "('a \<Rightarrow> 'a \<Rightarrow> bool) \<Rightarrow> 'a list \<Rightarrow> 'a list \<Rightarrow> 'a list" where
  "merge_by lt [] bs = bs"
| "merge_by lt as [] = as"
| "merge_by lt (a # as) (b # bs) =
     (if \<not> lt b a then a # merge_by lt as (b # bs) else b # merge_by lt (a # as) bs)"

fun runs_of :: "('a \<Rightarrow> 'a \<Rightarrow> bool) \<Rightarrow> 'a list \<Rightarrow> 'a list list" where
  "runs_of lt [] = []"
| "runs_of lt [x] = [[x]]"
| "runs_of lt (x # y # zs) =
     (if lt y x then [x] # runs_of lt (y # zs)
      else (x # hd (runs_of lt (y # zs))) # tl (runs_of lt (y # zs)))"

fun merge_pairs :: "('a \<Rightarrow> 'a \<Rightarrow> bool) \<Rightarrow> 'a list list \<Rightarrow> 'a list list" where
  "merge_pairs lt (r # s # rs) = merge_by lt r s # merge_pairs lt rs"
| "merge_pairs lt rs = rs"

lemma runs_of_nonempty [simp]: "runs_of lt xs = [] \<longleftrightarrow> xs = []"
  by (induction lt xs rule: runs_of.induct) auto

lemma concat_runs_of [simp]: "concat (runs_of lt xs) = xs"
proof (induction lt xs rule: runs_of.induct)
  case (3 lt x y zs)
  then show ?case
    by (cases "runs_of lt (y # zs)") (auto split: if_splits)
qed simp_all

lemma runs_of_Cons_hd: "xs \<noteq> [] \<Longrightarrow> hd (hd (runs_of lt xs)) = hd xs \<and> hd (runs_of lt xs) \<noteq> []"
  by (induction lt xs rule: runs_of.induct) auto

lemma runs_of_elems: "r \<in> set (runs_of lt xs) \<Longrightarrow> r \<noteq> [] \<and> adjacent_ordered lt r"
proof (induction lt xs arbitrary: r rule: runs_of.induct)
  case (3 lt x y zs)
  obtain r0 rs where rr: "runs_of lt (y # zs) = r0 # rs"
    by (cases "runs_of lt (y # zs)") auto
  then obtain r1 where r1: "r0 = y # r1"
    using runs_of_Cons_hd [of "y # zs" lt] by (cases r0) auto
  show ?case
  proof (cases "lt y x")
    case True
    then have "r = [x] \<or> r \<in> set (runs_of lt (y # zs))" using "3.prems" by simp
    then show ?thesis using "3.IH"(1) [OF True] by fastforce
  next
    case False
    then have "r = x # r0 \<or> r \<in> set rs" using "3.prems" rr by simp
    then show ?thesis
      using "3.IH"(2) [OF False, of r] "3.IH"(2) [OF False, of r0] rr r1 False by fastforce
  qed
qed simp_all

text \<open>Dropping the first run leaves the runs of the remaining elements.\<close>

lemma runs_of_tl: "runs_of lt (concat (tl (runs_of lt xs))) = tl (runs_of lt xs)"
proof (induction lt xs rule: runs_of.induct)
  case (3 lt x y zs)
  then show ?case by auto
qed simp_all

lemma runs_of_concatD: "runs_of lt xs = r # rs \<Longrightarrow> runs_of lt (concat rs) = rs"
  using runs_of_tl [of lt xs] by simp

lemma length_merge_pairs: "length (merge_pairs lt rs) = (length rs + 1) div 2"
  by (induction lt rs rule: merge_pairs.induct) auto

lemma merge_by_induct [case_names Nil1 Nil2 Cons]:
  fixes lt :: "'a \<Rightarrow> 'a \<Rightarrow> bool"
  assumes "\<And>bs. P [] bs" and "\<And>a as. P (a # as) []"
    and "\<And>a as b bs. (\<not> lt b a \<Longrightarrow> P as (b # bs)) \<Longrightarrow> (lt b a \<Longrightarrow> P (a # as) bs) \<Longrightarrow> P (a # as) (b # bs)"
  shows "P as bs"
  using assms by (induction lt as bs rule: merge_by.induct) blast+

lemma mset_merge_by [simp]: "mset (merge_by lt as bs) = mset as + mset bs"
  by (induction lt as bs rule: merge_by.induct) auto

lemma set_merge_by [simp]: "set (merge_by lt as bs) = set as \<union> set bs"
  by (metis mset_merge_by set_mset_mset set_mset_union)

lemma length_merge_by [simp]: "length (merge_by lt as bs) = length as + length bs"
  by (metis mset_merge_by size_mset size_union)

lemma mset_merge_pairs: "mset (concat (merge_pairs lt rs)) = mset (concat rs)"
  by (induction lt rs rule: merge_pairs.induct) auto

text \<open>\<open>stably lt xs ys\<close>: elements that compare equal are in the same order in both lists.\<close>

definition stably :: "('a \<Rightarrow> 'a \<Rightarrow> bool) \<Rightarrow> 'a list \<Rightarrow> 'a list \<Rightarrow> bool" where
  "stably lt xs ys \<longleftrightarrow> (\<forall>x. filter (equiv_by lt x) ys = filter (equiv_by lt x) xs)"

lemma length_runs_of_append:
  "length (runs_of lt (xs @ ys)) \<le> length (runs_of lt xs) + length (runs_of lt ys)"
proof (induction lt xs rule: runs_of.induct)
  case (2 lt x)
  then show ?case by (cases ys) auto
next
  case (3 lt x y zs)
  then show ?case
    by (cases "runs_of lt (y # zs)"; cases "runs_of lt (y # zs @ ys)") auto
qed simp

locale list_less =
  fixes lt :: "'a \<Rightarrow> 'a \<Rightarrow> bool"
  assumes irrefl: "\<not> lt x x"
    and trans: "lt x y \<Longrightarrow> lt y z \<Longrightarrow> lt x z"
    and negtrans: "\<not> lt x y \<Longrightarrow> \<not> lt y z \<Longrightarrow> \<not> lt x z"
begin

lemma asym: "lt x y \<Longrightarrow> \<not> lt y x"
  using irrefl trans by blast

lemma ordered_Nil [simp]: "ordered lt []"
  by (simp add: ordered_def)

lemma ordered_Cons: "ordered lt (x # xs) \<longleftrightarrow> (\<forall>y \<in> set xs. \<not> lt y x) \<and> ordered lt xs"
  by (auto simp: ordered_def)

lemma ordered_append:
  "ordered lt (xs @ ys) \<longleftrightarrow> ordered lt xs \<and> ordered lt ys \<and> (\<forall>x \<in> set xs. \<forall>y \<in> set ys. \<not> lt y x)"
  by (auto simp: ordered_def sorted_wrt_append)

lemma adjacent_ordered_iff: "adjacent_ordered lt xs \<longleftrightarrow> ordered lt xs"
proof (induction xs)
  case (Cons x xs)
  then show ?case
    by (cases xs) (auto simp: ordered_Cons dest: negtrans)
qed simp

lemma ordered_merge_by: "ordered lt as \<Longrightarrow> ordered lt bs \<Longrightarrow> ordered lt (merge_by lt as bs)"
proof (induction as bs rule: merge_by_induct [where lt = lt])
  case (Cons a as b bs)
  then show ?case
    by (auto simp: ordered_Cons dest: asym negtrans)
qed auto

lemma filter_merge_by:
  assumes "ordered lt as" "ordered lt bs"
  shows "filter (equiv_by lt x) (merge_by lt as bs) = filter (equiv_by lt x) as @ filter (equiv_by lt x) bs"
  using assms
proof (induction as bs rule: merge_by_induct [where lt = lt])
  case (Cons a as b bs)
  show ?case
  proof (cases "lt b a")
    case True
    have "filter (equiv_by lt x) (a # as) = []" if "equiv_by lt x b"
    proof -
      have "lt x c" if "c \<in> set (a # as)" for c
      proof -
        have "\<not> lt c a" using Cons.prems(1) that irrefl by (auto simp: ordered_Cons)
        then have "lt b c" using True negtrans by blast
        then show ?thesis using \<open>equiv_by lt x b\<close> negtrans by blast
      qed
      then show ?thesis by (auto simp: filter_empty_conv)
    qed
    with True Cons show ?thesis by (auto simp: ordered_Cons)
  next
    case False
    with Cons show ?thesis by (auto simp: ordered_Cons)
  qed
qed auto

lemma runs_of_ordered: "r \<in> set (runs_of lt xs) \<Longrightarrow> ordered lt r"
  using runs_of_elems [of r lt xs] by (simp add: adjacent_ordered_iff)

lemma merge_pairs_ordered: "\<forall>r \<in> set rs. ordered lt r \<Longrightarrow> \<forall>r \<in> set (merge_pairs lt rs). ordered lt r"
  by (induction rs rule: induct_list012) (auto simp: ordered_merge_by)

lemma filter_merge_pairs:
  assumes "\<forall>r \<in> set rs. ordered lt r"
  shows "filter (equiv_by lt x) (concat (merge_pairs lt rs)) = filter (equiv_by lt x) (concat rs)"
  using assms by (induction rs rule: induct_list012) (simp_all add: filter_merge_by)

lemma ordered_single_run: "ordered lt xs \<Longrightarrow> length (runs_of lt xs) \<le> 1"
proof (induction xs rule: induct_list012)
  case (3 x y zs)
  then have "\<not> lt y x" "length (runs_of lt (y # zs)) \<le> 1" by (simp_all add: ordered_Cons)
  moreover have "runs_of lt (y # zs) \<noteq> []" by simp
  ultimately show ?case by (cases "runs_of lt (y # zs)") auto
qed simp_all

lemma runs_of_concat_ordered: "\<forall>r \<in> set rs. ordered lt r \<Longrightarrow> length (runs_of lt (concat rs)) \<le> length rs"
proof (induction rs)
  case (Cons r rs)
  then have "length (runs_of lt (r @ concat rs)) \<le> length (runs_of lt r) + length (runs_of lt (concat rs))"
    by (intro length_runs_of_append)
  with Cons ordered_single_run [of r] show ?case by simp
qed simp

end

section \<open>Sorting, on the heap\<close>

lemma is_sorted_loop_chain:
  assumes "dl_chain h (us @ xs @ z # qs)" and "us \<noteq> []" and "xs \<noteq> []"
  shows "is_sorted_loop lt h (hd xs) z = ret (adjacent_ordered lt xs)"
  using assms
proof (induction xs arbitrary: us)
  case (Cons x xs)
  have nx: "list_next h x = ret (hd (xs @ [z]))"
    using chain_at(2) [of h "us @ [x]" "xs @ z # qs"] Cons.prems by (cases xs) simp_all
  show ?case
  proof (cases xs)
    case Nil
    with nx show ?thesis by (subst is_sorted_loop.simps) simp
  next
    case (Cons y ys)
    have "list_prev h y = ret x"
      using chain_at(1) [of h "us @ [x]" "xs @ z # qs"] Cons.prems Cons by simp
    moreover have "y \<noteq> z" using Cons.prems Cons by (auto simp: dl_chain_def)
    moreover have "is_sorted_loop lt h y z = ret (adjacent_ordered lt xs)"
      using Cons.IH [of "us @ [x]"] Cons.prems Cons by simp
    ultimately show ?thesis using nx Cons by (subst is_sorted_loop.simps) simp
  qed
qed simp

lemma is_sorted_chain:
  assumes "dl_chain h (us @ xs @ z # qs)" and "us \<noteq> []"
  shows "is_sorted lt h (hd (xs @ [z])) z = ret (adjacent_ordered lt xs)"
  using is_sorted_loop_chain [OF assms] assms(1)
  by (cases xs) (auto simp: is_sorted_def dl_chain_def)

lemma find_end_loop_chain:
  assumes "dl_chain h (us @ xs @ z # qs)" and "us \<noteq> []" and "xs \<noteq> []"
  shows "find_end_loop lt h (hd xs) z = ret (hd (concat (tl (runs_of lt xs)) @ [z]))"
  using assms
proof (induction xs arbitrary: us)
  case (Cons x xs)
  have nx: "list_next h x = ret (hd (xs @ [z]))"
    using chain_at(2) [of h "us @ [x]" "xs @ z # qs"] Cons.prems by (cases xs) simp_all
  show ?case
  proof (cases xs)
    case Nil
    with nx show ?thesis by (subst find_end_loop.simps) simp
  next
    case (Cons y ys)
    have "list_prev h y = ret x"
      using chain_at(1) [of h "us @ [x]" "xs @ z # qs"] Cons.prems Cons by simp
    moreover have "y \<noteq> z" using Cons.prems Cons by (auto simp: dl_chain_def)
    moreover have "find_end_loop lt h y z = ret (hd (concat (tl (runs_of lt xs)) @ [z]))"
      using Cons.IH [of "us @ [x]"] Cons.prems Cons by simp
    ultimately show ?thesis using nx Cons by (subst find_end_loop.simps) simp
  qed
qed simp

lemma find_end_of_run_chain:
  assumes "dl_chain h (us @ xs @ z # qs)" and "us \<noteq> []" and "xs \<noteq> []"
  shows "find_end_of_run lt h (hd xs) z = ret (hd (concat (tl (runs_of lt xs)) @ [z]))"
proof -
  have "hd xs \<in> set xs" using assms(3) by simp
  then have "hd xs \<noteq> NULL" "z \<noteq> NULL" "hd xs \<noteq> z" using assms(1) by (auto simp: dl_chain_def)
  with find_end_loop_chain [OF assms] show ?thesis by (simp add: find_end_of_run_def)
qed

lemma inplace_merge_loop_chain:
  assumes "dl_chain h (ps @ p # as @ bs @ z # qs)"
  shows "\<exists>h'. inplace_merge_loop lt h (hd (as @ bs @ [z])) (hd (bs @ [z])) z = ret h' \<and>
           dl_chain h' (ps @ p # merge_by lt as bs @ z # qs) \<and> unchanged (set (p # as @ bs @ [z])) h h'"
  using assms
proof (induction as bs arbitrary: h ps p rule: merge_by_induct [where lt = lt])
  case (Nil1 bs)
  then show ?case by (intro exI [of _ h]) (subst inplace_merge_loop.simps, simp)
next
  case (Nil2 a as)
  then show ?case by (intro exI [of _ h]) (subst inplace_merge_loop.simps, simp)
next
  case (Cons a as b bs)
  have ab: "a \<noteq> b" "b \<noteq> z" using Cons.prems by (auto simp: dl_chain_def)
  show ?case
  proof (cases "lt b a")
    case False
    have nx: "list_next h a = ret (hd (as @ b # bs @ [z]))"
      using chain_at(2) [of h "ps @ [p, a]" "as @ b # bs @ z # qs"] Cons.prems by (cases as) simp_all
    obtain h' where "inplace_merge_loop lt h (hd (as @ (b # bs) @ [z])) (hd ((b # bs) @ [z])) z = ret h'"
      "dl_chain h' ((ps @ [p]) @ a # merge_by lt as (b # bs) @ z # qs)"
      "unchanged (set (a # as @ (b # bs) @ [z])) h h'"
      using Cons.IH(1) [OF False, of h "ps @ [p]" a] Cons.prems by auto
    with False ab nx show ?thesis
      by (intro exI [of _ h']) (subst inplace_merge_loop.simps, auto elim: unchanged_mono)
  next
    case True
    define c cs where "c = hd (bs @ [z])" and "cs = tl (bs @ z # qs)"
    have cc: "bs @ z # qs = c # cs" by (cases bs) (simp_all add: c_def cs_def)
    have ch: "dl_chain h (ps @ p # (a # as) @ [b] @ c # cs)"
      using Cons.prems cc by simp
    obtain h1 where sp: "list_splice h a b c = ret h1"
      and ch1: "dl_chain h1 (ps @ p # [b] @ (a # as) @ c # cs)"
      and un1: "unchanged (set (p # (a # as) @ [b] @ [c])) h h1"
      using chain_splice_left [OF ch] by auto
    have nx: "list_next h b = ret c" and pv: "list_prev h c = ret b"
      using chain_at [of h "ps @ p # (a # as) @ [b]" "c # cs"] ch by simp_all
    obtain h' where "inplace_merge_loop lt h1 (hd ((a # as) @ bs @ [z])) (hd (bs @ [z])) z = ret h'"
      "dl_chain h' ((ps @ [p]) @ b # merge_by lt (a # as) bs @ z # qs)"
      and un2: "unchanged (set (b # (a # as) @ bs @ [z])) h1 h'"
      using Cons.IH(2) [OF True, of h1 "ps @ [p]" b] ch1 cc by auto
    moreover have "c \<in> set (bs @ [z])" by (cases bs) (simp_all add: c_def)
    then have "unchanged (set (p # (a # as) @ (b # bs) @ [z])) h h1"
      using un1 by (elim unchanged_mono) auto
    moreover have "unchanged (set (p # (a # as) @ (b # bs) @ [z])) h1 h'"
      using un2 by (elim unchanged_mono) auto
    ultimately show ?thesis
      using True ab nx pv sp c_def
      by (intro exI [of _ h']) (subst inplace_merge_loop.simps, auto intro: unchanged_trans)
  qed
qed

lemma inplace_merge_chain:
  assumes c: "dl_chain h (ps @ p # as @ bs @ z # qs)" and ne: "as \<noteq> []" "bs \<noteq> []"
    and s: "adjacent_ordered lt as" "adjacent_ordered lt bs"
  shows "\<exists>h'. inplace_merge lt h (hd as) (hd bs) z = ret h' \<and>
           dl_chain h' (ps @ p # merge_by lt as bs @ z # qs) \<and> unchanged (set (p # as @ bs @ [z])) h h'"
proof -
  have m: "hd as \<in> set as" "hd bs \<in> set bs" using ne by simp_all
  then have nn: "hd as \<noteq> NULL" "hd bs \<noteq> NULL" "z \<noteq> NULL" using c by (auto simp: dl_chain_def)
  have "hd (bs @ z # qs) = hd bs" "hd (bs @ [z]) = hd bs" "hd (as @ bs @ [z]) = hd as"
    using ne by simp_all
  moreover have "is_sorted lt h (hd as) (hd bs) = ret True"
    using is_sorted_chain [of h "ps @ [p]" as "hd bs" "tl bs @ z # qs" lt] c ne s
    by (cases bs) simp_all
  moreover have "is_sorted lt h (hd bs) z = ret True"
    using is_sorted_chain [of h "ps @ p # as" bs z qs lt] c ne s by simp
  ultimately show ?thesis
    using inplace_merge_loop_chain [OF c, of lt] nn by (simp add: inplace_merge_def)
qed

text \<open>One iteration of a pass: two adjacent runs become one.\<close>

lemma list_sort_pass_step:
  assumes rep: "list_rep h l (ds @ r @ s @ concat rs)" and runs: "runs_of lt (r @ s @ concat rs) = r # s # rs"
  shows "\<exists>h'. list_sort_pass lt l h (hd r) cnt =
             list_sort_pass lt l h' (hd (concat rs @ [tailp l])) (cnt + 1) \<and>
           list_rep h' l ((ds @ merge_by lt r s) @ concat rs) \<and>
           unchanged (set (list_nodes l (ds @ r @ s @ concat rs))) h h'"
proof -
  let ?t = "tailp l" and ?z = "hd (concat rs @ [tailp l])"
  have c: "dl_chain h ((l # ds) @ r @ s @ concat rs @ [?t])"
    using rep by (simp add: list_rep_chain list_nodes_def)
  have rs: "r \<noteq> []" "s \<noteq> []" "adjacent_ordered lt r" "adjacent_ordered lt s"
    using runs_of_elems [of _ lt "r @ s @ concat rs"] runs by simp_all
  have r1: "runs_of lt (s @ concat rs) = s # rs" using runs_of_concatD [OF runs] by simp
  have "?t \<notin> set r" "?t \<notin> set s" using c by (auto simp: dl_chain_def)
  then have neq: "hd r \<noteq> ?t" "hd s \<noteq> ?t" using rs hd_in_set by metis+
  have f1: "find_end_of_run lt h (hd r) ?t = ret (hd s)"
    using find_end_of_run_chain [of h "l # ds" "r @ s @ concat rs" ?t "[]" lt] c runs rs by simp
  have f2: "find_end_of_run lt h (hd s) ?t = ret ?z"
    using find_end_of_run_chain [of h "l # ds @ r" "s @ concat rs" ?t "[]" lt] c r1 rs by simp
  obtain ps p z qs where z: "z = ?z"
    and nodes: "\<And>xs. list_nodes l (ds @ xs @ concat rs) = ps @ p # xs @ z # qs"
    by (rule list_nodes_split [of "concat rs" l ds]) blast
  have "dl_chain h (ps @ p # r @ s @ z # qs)"
    using rep nodes [of "r @ s"] by (simp add: list_rep_chain)
  then obtain h1 where mg: "inplace_merge lt h (hd r) (hd s) z = ret h1"
    and c1: "dl_chain h1 (ps @ p # merge_by lt r s @ z # qs)"
    and un: "unchanged (set (p # r @ s @ [z])) h h1"
    using inplace_merge_chain [of h ps p r s z qs lt] rs by auto
  have "list_rep h1 l ((ds @ merge_by lt r s) @ concat rs)"
    using c1 nodes [of "merge_by lt r s"] by (simp add: list_rep_chain)
  moreover have "unchanged (set (list_nodes l (ds @ r @ s @ concat rs))) h h1"
    using un nodes [of "r @ s"] by (elim unchanged_mono) auto
  moreover have "list_sort_pass lt l h (hd r) cnt = list_sort_pass lt l h1 ?z (cnt + 1)"
    using f1 f2 mg z neq list_rep_end [OF rep] by (subst list_sort_pass.simps) simp
  ultimately show ?thesis by blast
qed

lemma list_sort_pass_rep:
  assumes "list_rep h l (ds @ concat rs)" and "runs_of lt (concat rs) = rs"
  shows "\<exists>h'. list_sort_pass lt l h (hd (concat rs @ [tailp l])) cnt =
             ret (h', cnt + of_nat (length (merge_pairs lt rs))) \<and>
           list_rep h' l (ds @ concat (merge_pairs lt rs)) \<and>
           unchanged (set (list_nodes l (ds @ concat rs))) h h'"
  using assms
proof (induction "length rs" arbitrary: rs ds h cnt rule: less_induct)
  case less
  note le = list_rep_end [OF less.prems(1)]
  consider "rs = []" | r where "rs = [r]" | r s rs' where "rs = r # s # rs'"
    by (cases rs rule: remdups_adj.cases) auto
  then show ?case
  proof cases
    case 1
    with less.prems le show ?thesis
      by (intro exI [of _ h]) (subst list_sort_pass.simps, simp)
  next
    case (2 r)
    then have r: "r \<noteq> []" using runs_of_elems [of r lt "concat rs"] less.prems(2) by simp
    then have "hd r \<noteq> tailp l" using less.prems(1) 2 hd_in_set list_rep_not_tail by fastforce
    moreover have "find_end_of_run lt h (hd r) (tailp l) = ret (tailp l)"
      using find_end_of_run_chain [of h "l # ds" r "tailp l" "[]" lt] less.prems 2 r
      by (simp add: list_rep_chain list_nodes_def)
    ultimately show ?thesis using 2 less.prems le r
      by (intro exI [of _ h]) (subst list_sort_pass.simps, simp)
  next
    case (3 r s rs')
    then have r: "r \<noteq> []" using runs_of_elems [of r lt "concat rs"] less.prems(2) by simp
    obtain h1 where e1: "list_sort_pass lt l h (hd r) cnt =
        list_sort_pass lt l h1 (hd (concat rs' @ [tailp l])) (cnt + 1)"
      and rep1: "list_rep h1 l ((ds @ merge_by lt r s) @ concat rs')"
      and un1: "unchanged (set (list_nodes l (ds @ concat rs))) h h1"
      using list_sort_pass_step [of h l ds r s rs' lt cnt] less.prems 3 by auto
    have "runs_of lt (concat rs') = rs'"
      using runs_of_concatD [of lt "concat rs" r "s # rs'"] runs_of_concatD [of lt "s @ concat rs'" s rs']
        less.prems(2) 3 by simp
    moreover have "set (list_nodes l ((ds @ merge_by lt r s) @ concat rs')) = set (list_nodes l (ds @ concat rs))"
      by (auto simp: list_nodes_def 3)
    ultimately show ?thesis
      using less.hyps [OF _ rep1, of "cnt + 1"] 3 e1 r un1
      by (auto simp: add_ac elim: unchanged_trans)
  qed
qed

lemma length_concat_ge: "\<forall>r \<in> set rs. r \<noteq> [] \<Longrightarrow> length rs \<le> length (concat rs)"
  by (induction rs) (auto simp: Suc_le_eq length_greater_0_conv [symmetric] simp del: length_greater_0_conv)

locale elem_less = list_less lt for lt :: "ptr \<Rightarrow> ptr \<Rightarrow> bool"
begin

lemma list_sort_loop_rep:
  assumes "list_rep h l xs"
  shows "\<exists>h' ys. list_sort_loop lt l h = ret h' \<and> list_rep h' l ys \<and>
           mset ys = mset xs \<and> ordered lt ys \<and> stably lt xs ys \<and>
           unchanged (set (list_nodes l xs)) h h'"
  using assms
proof (induction "length (runs_of lt xs)" arbitrary: xs h rule: less_induct)
  case less
  define rs where "rs = runs_of lt xs"
  define ys where "ys = concat (merge_pairs lt rs)"
  have xs: "concat rs = xs" "runs_of lt (concat rs) = rs" by (simp_all add: rs_def)
  have ord: "\<forall>r \<in> set rs. ordered lt r" by (simp add: rs_def runs_of_ordered)
  obtain h1 where pass: "list_sort_pass lt l h (hd (xs @ [tailp l])) 0 = ret (h1, of_nat (length (merge_pairs lt rs)))"
    and rep1: "list_rep h1 l ys" and un1: "unchanged (set (list_nodes l xs)) h h1"
    using list_sort_pass_rep [of h l "[]" rs lt 0] less.prems xs by (auto simp: ys_def)
  have ms: "mset ys = mset xs" using mset_merge_pairs [of lt rs] xs by (simp add: ys_def)
  have st: "stably lt xs ys" using filter_merge_pairs [OF ord] xs by (simp add: stably_def ys_def)
  have "length rs \<le> length xs"
    using length_concat_ge [of rs] runs_of_elems [of _ lt xs] by (auto simp: rs_def)
  then have "length (merge_pairs lt rs) < 2 ^ 64"
    using list_rep_length [OF less.prems] by (simp add: length_merge_pairs)
  then have cnt: "(of_nat (length (merge_pairs lt rs)) :: size_t) > 1 \<longleftrightarrow> length (merge_pairs lt rs) > 1"
    by (simp add: word_less_nat_alt unat_of_nat_u64)
  show ?case
  proof (cases "length (merge_pairs lt rs) > 1")
    case False
    have "ordered lt ys"
    proof (cases "merge_pairs lt rs")
      case (Cons q qs)
      with False merge_pairs_ordered [OF ord] show ?thesis by (simp add: ys_def)
    qed (simp add: ys_def)
    with False cnt pass rep1 ms st un1 less.prems show ?thesis
      by (intro exI [of _ h1] exI [of _ ys]) (subst list_sort_loop.simps, simp add: list_rep_begin)
  next
    case True
    have "length (runs_of lt ys) \<le> length (merge_pairs lt rs)"
      unfolding ys_def by (rule runs_of_concat_ordered) (rule merge_pairs_ordered [OF ord])
    with True have "length (runs_of lt ys) < length (runs_of lt xs)"
      by (simp add: length_merge_pairs rs_def)
    then obtain h' zs where IH: "list_sort_loop lt l h1 = ret h'" "list_rep h' l zs" "mset zs = mset ys"
      "ordered lt zs" "stably lt ys zs" "unchanged (set (list_nodes l ys)) h1 h'"
      using less.hyps [OF _ rep1] by blast
    moreover have "set (list_nodes l ys) = set (list_nodes l xs)"
      using mset_eq_setD [OF ms] by (auto simp: list_nodes_def)
    ultimately show ?thesis
      using True cnt pass ms st un1 less.prems
      by (intro exI [of _ h'] exI [of _ zs], subst list_sort_loop.simps)
        (auto simp: list_rep_begin stably_def elim: unchanged_trans)
  qed
qed

lemma list_sort_rep:
  assumes "list_rep h l xs"
  shows "\<exists>h' ys. list_sort lt h l = ret h' \<and> list_rep h' l ys \<and>
           mset ys = mset xs \<and> ordered lt ys \<and> stably lt xs ys \<and>
           unchanged (set (list_nodes l xs)) h h'"
proof -
  obtain h' ys where r: "list_sort_loop lt l h = ret h'" "list_rep h' l ys"
    "mset ys = mset xs" "ordered lt ys" "stably lt xs ys" "unchanged (set (list_nodes l xs)) h h'"
    using list_sort_loop_rep [OF assms] by blast
  moreover have "is_sorted lt h' (hd (ys @ [tailp l])) (tailp l) = ret True"
    using is_sorted_chain [of h' "[l]" ys "tailp l" "[]" lt] r(2,4)
    by (simp add: list_rep_chain list_nodes_def adjacent_ordered_iff)
  ultimately show ?thesis
    using list_rep_nonnull [OF assms] list_rep_begin [OF r(2)] list_rep_end [OF r(2)]
    by (simp add: list_sort_def) blast
qed

end

section \<open>Ordered insertion, duplicates, extremal elements\<close>

definition insert_by :: "('a \<Rightarrow> 'a \<Rightarrow> bool) \<Rightarrow> 'a \<Rightarrow> 'a list \<Rightarrow> 'a list" where
  "insert_by lt x xs = takeWhile (\<lambda>e. \<not> lt x e) xs @ x # dropWhile (\<lambda>e. \<not> lt x e) xs"

fun unique_by :: "('a \<Rightarrow> 'a \<Rightarrow> bool) \<Rightarrow> 'a list \<Rightarrow> 'a list" where
  "unique_by lt (x # y # zs) =
     (if equiv_by lt x y then unique_by lt (x # zs) else x # unique_by lt (y # zs))"
| "unique_by lt xs = xs"

fun dups_by :: "('a \<Rightarrow> 'a \<Rightarrow> bool) \<Rightarrow> 'a list \<Rightarrow> 'a list" where
  "dups_by lt (x # y # zs) =
     (if equiv_by lt x y then y # dups_by lt (x # zs) else dups_by lt (y # zs))"
| "dups_by lt xs = []"

lemma insert_ordered_loop_rep:
  assumes "list_rep h l (ds @ xs)"
  shows "insert_ordered_loop lt h (tailp l) x (hd (xs @ [tailp l])) =
           ret (hd (dropWhile (\<lambda>e. \<not> lt x e) xs @ [tailp l]))"
  using assms
proof (induction xs arbitrary: ds)
  case Nil
  then show ?case by (subst insert_ordered_loop.simps) simp
next
  case (Cons y ys)
  have "y \<noteq> tailp l" using list_rep_not_tail [OF Cons.prems, of y] by simp
  with Cons.IH [of "ds @ [y]"] Cons.prems show ?case
    by (subst insert_ordered_loop.simps) (simp add: list_rep_next [OF Cons.prems])
qed

lemma list_insert_ordered_rep:
  assumes r: "list_rep h l xs" and x: "x \<notin> set (list_nodes l xs)" "x \<noteq> NULL"
  shows "\<exists>h'. list_insert_ordered lt h l x = ret h' \<and> list_rep h' l (insert_by lt x xs) \<and>
           unchanged (insert x (set (list_nodes l xs))) h h'"
  using list_insert_rep [of h l "takeWhile (\<lambda>e. \<not> lt x e) xs" "dropWhile (\<lambda>e. \<not> lt x e) xs" x]
    insert_ordered_loop_rep [of h l "[]" xs lt x] r x list_rep_nonnull [OF r]
  by (simp add: list_insert_ordered_def list_rep_begin list_rep_end insert_by_def)

context list_less
begin

lemma ordered_insert_by: "ordered lt xs \<Longrightarrow> ordered lt (insert_by lt x xs)"
proof (induction xs)
  case (Cons y ys)
  show ?case
  proof (cases "lt x y")
    case True
    then have "\<forall>z \<in> set ys. lt x z"
      using Cons.prems negtrans by (auto simp: ordered_Cons)
    with True Cons.prems show ?thesis by (auto simp: insert_by_def ordered_Cons dest: asym)
  next
    case False
    then have "insert_by lt x (y # ys) = y # insert_by lt x ys" by (simp add: insert_by_def)
    moreover have "set (insert_by lt x ys) = insert x (set ys)"
      by (metis insert_by_def set_append list.simps(15) takeWhile_dropWhile_id Un_insert_right)
    ultimately show ?thesis using Cons False by (simp add: ordered_Cons)
  qed
qed (simp add: insert_by_def ordered_Cons)

end

lemma mset_insert_by: "mset (insert_by lt x xs) = add_mset x (mset xs)"
  by (simp add: insert_by_def) (metis mset_append takeWhile_dropWhile_id)

text \<open>\<open>list_unique\<close>, with a list of duplicates or without one.\<close>

lemma list_unique_loop_rep:
  assumes "list_rep h l (ds @ x # xs)" and "list_rep h d es" and "d \<noteq> NULL"
    and "set (list_nodes l (ds @ x # xs)) \<inter> set (list_nodes d es) = {}"
  shows "\<exists>h'. list_unique_loop lt l d h x = ret h' \<and> list_rep h' l (ds @ unique_by lt (x # xs)) \<and>
           list_rep h' d (es @ dups_by lt (x # xs))"
  using assms
proof (induction xs arbitrary: x ds es h)
  case Nil
  then show ?case
    using list_rep_next [OF Nil(1)] list_rep_end [OF Nil(1)]
    by (intro exI [of _ h]) (subst list_unique_loop.simps, simp)
next
  case (Cons y ys)
  have nx: "list_next h x = ret y" "list_end h l = ret (tailp l)" "y \<noteq> tailp l"
    using list_rep_next [OF Cons.prems(1)] list_rep_end [OF Cons.prems(1)]
      list_rep_not_tail [OF Cons.prems(1), of y] by simp_all
  show ?case
  proof (cases "equiv_by lt x y")
    case False
    with Cons.IH [of h "ds @ [x]" y es] Cons.prems nx show ?thesis
      by (auto simp: list_unique_loop.simps [of lt l d h x])
  next
    case True
    obtain h1 where rm: "list_remove h y = ret (hd (ys @ [tailp l]), h1)"
      and r1: "list_rep h1 l (ds @ x # ys)" and u1: "unchanged (set (list_nodes l (ds @ x # ys))) h h1"
      using list_remove_rep [of h l "ds @ [x]" y ys] Cons.prems(1) by auto
    have dj: "set (list_nodes d es) \<inter> set (list_nodes l (ds @ x # ys)) = {}"
      "y \<notin> set (list_nodes d es)" "y \<notin> set (list_nodes l (ds @ x # ys))" "y \<noteq> NULL"
      using Cons.prems(1,4) by (auto simp: list_rep_def list_nodes_def)
    have "list_rep h1 d es" using list_rep_frame [OF u1 dj(1) Cons.prems(2)] .
    then obtain h2 where pb: "list_push_back h1 d y = ret h2" and r2: "list_rep h2 d (es @ [y])"
      and u2: "unchanged (insert y (set (list_nodes d es))) h1 h2"
      using list_push_back_rep dj by blast
    have "list_rep h2 l (ds @ x # ys)"
      by (rule list_rep_frame [OF u2 _ r1]) (use dj in auto)
    moreover have "set (list_nodes l (ds @ x # ys)) \<inter> set (list_nodes d (es @ [y])) = {}"
      using dj by (auto simp: list_nodes_def)
    ultimately obtain h' where "list_unique_loop lt l d h2 x = ret h'"
      "list_rep h' l (ds @ unique_by lt (x # ys))" "list_rep h' d ((es @ [y]) @ dups_by lt (x # ys))"
      using Cons.IH [of h2 ds x "es @ [y]"] r2 Cons.prems(3) by blast
    with True nx rm pb Cons.prems(3) show ?thesis
      by (intro exI [of _ h']) (subst list_unique_loop.simps, simp)
  qed
qed

lemma list_unique_loop_null_rep:
  assumes "list_rep h l (ds @ x # xs)"
  shows "\<exists>h'. list_unique_loop lt l NULL h x = ret h' \<and> list_rep h' l (ds @ unique_by lt (x # xs))"
  using assms
proof (induction xs arbitrary: x ds h)
  case Nil
  then show ?case
    using list_rep_next [OF Nil(1)] list_rep_end [OF Nil(1)]
    by (intro exI [of _ h]) (subst list_unique_loop.simps, simp)
next
  case (Cons y ys)
  have nx: "list_next h x = ret y" "list_end h l = ret (tailp l)" "y \<noteq> tailp l"
    using list_rep_next [OF Cons.prems(1)] list_rep_end [OF Cons.prems(1)]
      list_rep_not_tail [OF Cons.prems(1), of y] by simp_all
  show ?case
  proof (cases "equiv_by lt x y")
    case False
    with Cons.IH [of h "ds @ [x]" y] Cons.prems nx show ?thesis
      by (auto simp: list_unique_loop.simps [of lt l NULL h x])
  next
    case True
    obtain h1 where rm: "list_remove h y = ret (hd (ys @ [tailp l]), h1)"
      and r1: "list_rep h1 l (ds @ x # ys)"
      using list_remove_rep [of h l "ds @ [x]" y ys] Cons.prems(1) by auto
    with Cons.IH [OF r1] True nx show ?thesis
      by (auto simp: list_unique_loop.simps [of lt l NULL h x])
  qed
qed

lemma list_unique_rep:
  assumes l: "list_rep h l xs" and d: "list_rep h d es"
    and disj: "set (list_nodes l xs) \<inter> set (list_nodes d es) = {}"
  shows "\<exists>h'. list_unique lt h l d = ret h' \<and> list_rep h' l (unique_by lt xs) \<and>
           list_rep h' d (es @ dups_by lt xs)"
proof (cases xs)
  case Nil
  with assms show ?thesis by (simp add: list_unique_def list_rep_empty list_rep_nonnull)
next
  case (Cons x ys)
  with list_unique_loop_rep [of h l "[]" x ys d es lt] assms list_rep_nonnull [OF d] show ?thesis
    by (simp add: list_unique_def list_rep_empty list_rep_nonnull list_rep_begin [OF l])
qed

lemma list_unique_null_rep:
  assumes l: "list_rep h l xs"
  shows "\<exists>h'. list_unique lt h l NULL = ret h' \<and> list_rep h' l (unique_by lt xs)"
proof (cases xs)
  case Nil
  with assms show ?thesis by (simp add: list_unique_def list_rep_empty list_rep_nonnull)
next
  case (Cons x ys)
  with list_unique_loop_null_rep [of h l "[]" x ys lt] assms show ?thesis
    by (simp add: list_unique_def list_rep_empty list_rep_nonnull list_rep_begin [OF l])
qed

text \<open>\<open>list_max\<close> and \<open>list_min\<close> fold the list, keeping the earlier of two equal elements.\<close>

lemma list_max_loop_rep:
  assumes "list_rep h l (ds @ xs)"
  shows "list_max_loop lt h (tailp l) mx (hd (xs @ [tailp l])) =
           ret (foldl (\<lambda>m e. if lt m e then e else m) mx xs)"
  using assms
proof (induction xs arbitrary: ds mx)
  case Nil
  then show ?case by (subst list_max_loop.simps) simp
next
  case (Cons y ys)
  have "y \<noteq> tailp l" using list_rep_not_tail [OF Cons.prems, of y] by simp
  with Cons.IH [of "ds @ [y]"] Cons.prems show ?case
    by (subst list_max_loop.simps) (simp add: list_rep_next [OF Cons.prems])
qed

lemma list_min_loop_rep:
  assumes "list_rep h l (ds @ xs)"
  shows "list_min_loop lt h (tailp l) mn (hd (xs @ [tailp l])) =
           ret (foldl (\<lambda>m e. if lt e m then e else m) mn xs)"
  using assms
proof (induction xs arbitrary: ds mn)
  case Nil
  then show ?case by (subst list_min_loop.simps) simp
next
  case (Cons y ys)
  have "y \<noteq> tailp l" using list_rep_not_tail [OF Cons.prems, of y] by simp
  with Cons.IH [of "ds @ [y]"] Cons.prems show ?case
    by (subst list_min_loop.simps) (simp add: list_rep_next [OF Cons.prems])
qed

lemma list_max_rep:
  assumes "list_rep h l xs"
  shows "list_max lt h l =
     ret (if xs = [] then tailp l else foldl (\<lambda>m e. if lt m e then e else m) (hd xs) (tl xs))"
proof (cases xs)
  case (Cons x ys)
  moreover have "x \<noteq> tailp l" using list_rep_not_tail [OF assms, of x] Cons by simp
  ultimately show ?thesis
    using list_max_loop_rep [of h l "[x]" ys lt x] list_rep_next [of h l "[]" x ys] assms
    by (simp add: list_max_def list_rep_begin [OF assms] list_rep_end [OF assms])
qed (simp add: list_max_def list_rep_begin [OF assms] list_rep_end [OF assms])

lemma list_min_rep:
  assumes "list_rep h l xs"
  shows "list_min lt h l =
     ret (if xs = [] then tailp l else foldl (\<lambda>m e. if lt e m then e else m) (hd xs) (tl xs))"
proof (cases xs)
  case (Cons x ys)
  moreover have "x \<noteq> tailp l" using list_rep_not_tail [OF assms, of x] Cons by simp
  ultimately show ?thesis
    using list_min_loop_rep [of h l "[x]" ys lt x] list_rep_next [of h l "[]" x ys] assms
    by (simp add: list_min_def list_rep_begin [OF assms] list_rep_end [OF assms])
qed (simp add: list_min_def list_rep_begin [OF assms] list_rep_end [OF assms])

definition first_max :: "('a \<Rightarrow> 'a \<Rightarrow> bool) \<Rightarrow> 'a list \<Rightarrow> 'a \<Rightarrow> bool" where
  "first_max lt xs m \<longleftrightarrow> (\<forall>y \<in> set xs. \<not> lt m y) \<and> (\<exists>us vs. xs = us @ m # vs \<and> (\<forall>y \<in> set us. lt y m))"

lemma list_less_flip: "list_less lt \<Longrightarrow> list_less (\<lambda>a b. lt b a)"
  unfolding list_less_def by blast

context list_less
begin

lemma first_max_snoc:
  assumes "first_max lt xs m"
  shows "first_max lt (xs @ [z]) (if lt m z then z else m)"
proof (cases "lt m z")
  case True
  then have "\<forall>y \<in> set xs. lt y z" using assms negtrans by (auto simp: first_max_def)
  with True show ?thesis by (auto simp: first_max_def irrefl dest: asym)
next
  case False
  from assms obtain us vs where "xs = us @ m # vs" "\<forall>y \<in> set us. lt y m" by (auto simp: first_max_def)
  then have "\<exists>us' vs'. xs @ [z] = us' @ m # vs' \<and> (\<forall>y \<in> set us'. lt y m)"
    by (intro exI [of _ us] exI [of _ "vs @ [z]"]) simp
  with False assms show ?thesis by (simp add: first_max_def)
qed

lemma fold_first_max: "first_max lt (x # xs) (foldl (\<lambda>m e. if lt m e then e else m) x xs)"
proof (induction xs rule: rev_induct)
  case Nil
  show ?case by (simp add: first_max_def irrefl) (rule exI [of _ "[]"], simp)
next
  case (snoc z xs)
  from first_max_snoc [OF snoc, of z] show ?case by simp
qed

end

section \<open>Properties\<close>

text \<open>A heap with a list of three elements at address \<open>0x1000\<close> and an empty list at \<open>0x1800\<close>,
  for the witnesses.\<close>

definition sample_lheap :: lheap where
  "sample_lheap = (\<lambda>p.
     if p = 0x1000 then \<lparr>le_prev = 0, le_next = 0x4000\<rparr>
     else if p = 0x4000 then \<lparr>le_prev = 0x1000, le_next = 0x2000\<rparr>
     else if p = 0x2000 then \<lparr>le_prev = 0x4000, le_next = 0x3000\<rparr>
     else if p = 0x3000 then \<lparr>le_prev = 0x2000, le_next = 0x1010\<rparr>
     else if p = 0x1010 then \<lparr>le_prev = 0x3000, le_next = 0\<rparr>
     else if p = 0x1800 then \<lparr>le_prev = 0, le_next = 0x1810\<rparr>
     else if p = 0x1810 then \<lparr>le_prev = 0x1800, le_next = 0\<rparr>
     else \<lparr>le_prev = 0, le_next = 0\<rparr>)"

lemma sample_lheap_reps:
  "list_rep sample_lheap 0x1000 [0x4000, 0x2000, 0x3000]" "list_rep sample_lheap 0x1800 []"
  by (simp_all add: sample_lheap_def list_rep_def list_nodes_def)

lemma address_order: "list_less ((<) :: ptr \<Rightarrow> ptr \<Rightarrow> bool)"
  by unfold_locales auto

text \<open>
  C14. \<open>list_sort\<close> terminates on every well-formed list without failing an assertion, and leaves
  a well-formed list of the same elements in nondecreasing order, with elements that compare
  equal in their original order, and without touching a link outside the list.
\<close>

theorem list_sort_correct:
  assumes "list_less lt" and "list_rep h l xs"
  shows "\<exists>h' ys. list_sort lt h l = ret h' \<and> list_rep h' l ys \<and> mset ys = mset xs \<and>
           ordered lt ys \<and> stably lt xs ys \<and> unchanged (set (list_nodes l xs)) h h'"
  using assms by (intro elem_less.list_sort_rep) (simp_all add: elem_less_def)

theorem list_sort_correct_witness:
  "\<exists>h' ys. list_sort (<) sample_lheap 0x1000 = ret h' \<and> list_rep h' 0x1000 ys \<and>
     mset ys = mset [0x4000, 0x2000, 0x3000] \<and> ordered (<) ys \<and>
     stably (<) [0x4000, 0x2000, 0x3000] ys \<and>
     unchanged (set (list_nodes 0x1000 [0x4000, 0x2000, 0x3000])) sample_lheap h'"
  by (rule list_sort_correct [OF address_order sample_lheap_reps(1)])

text \<open>
  \<open>list_push_front\<close> and \<open>list_push_back\<close> of a fresh element return, add it at the front and
  at the back, and write no link outside the list and the element.
\<close>

theorem list_push_refines:
  assumes "list_rep h l xs" and "e \<notin> set (list_nodes l xs)" and "e \<noteq> NULL"
  shows "(\<exists>h'. list_push_front h l e = ret h' \<and> list_rep h' l (e # xs) \<and>
            unchanged (insert e (set (list_nodes l xs))) h h') \<and>
         (\<exists>h'. list_push_back h l e = ret h' \<and> list_rep h' l (xs @ [e]) \<and>
            unchanged (insert e (set (list_nodes l xs))) h h')"
  using list_push_front_rep [OF assms] list_push_back_rep [OF assms] by blast

theorem list_push_refines_witness:
  "(\<exists>h'. list_push_front sample_lheap 0x1000 0x5000 = ret h' \<and>
      list_rep h' 0x1000 [0x5000, 0x4000, 0x2000, 0x3000] \<and>
      unchanged (insert 0x5000 (set (list_nodes 0x1000 [0x4000, 0x2000, 0x3000]))) sample_lheap h') \<and>
   (\<exists>h'. list_push_back sample_lheap 0x1000 0x5000 = ret h' \<and>
      list_rep h' 0x1000 ([0x4000, 0x2000, 0x3000] @ [0x5000]) \<and>
      unchanged (insert 0x5000 (set (list_nodes 0x1000 [0x4000, 0x2000, 0x3000]))) sample_lheap h')"
  by (rule list_push_refines [OF sample_lheap_reps(1)]) (simp_all add: list_nodes_def)

text \<open>
  Removing: on a list with elements \<open>xs\<close>, \<open>list_pop_front\<close> and \<open>list_pop_back\<close> fail their
  assertion exactly when the list is empty and otherwise take off the first and the last
  element; \<open>list_remove\<close> of an element in any position takes off just that element and returns
  its successor; \<open>list_size\<close> counts the elements.
\<close>

theorem list_remove_refines:
  assumes "list_rep h l xs"
  shows "(if xs = [] then list_pop_front h l = fail Assert_failed
          else \<exists>h'. list_pop_front h l = ret (hd xs, h') \<and> list_rep h' l (tl xs)) \<and>
         (if xs = [] then list_pop_back h l = fail Assert_failed
          else \<exists>h'. list_pop_back h l = ret (last xs, h') \<and> list_rep h' l (butlast xs)) \<and>
         (\<forall>us e vs. xs = us @ e # vs \<longrightarrow>
            (\<exists>h'. list_remove h e = ret (hd (vs @ [tailp l]), h') \<and> list_rep h' l (us @ vs))) \<and>
         list_size h l = ret (of_nat (length xs))"
proof (intro conjI allI impI)
  show "if xs = [] then list_pop_front h l = fail Assert_failed
        else \<exists>h'. list_pop_front h l = ret (hd xs, h') \<and> list_rep h' l (tl xs)"
    using assms list_pop_front_rep [of h l "hd xs" "tl xs"]
    by (auto simp: list_pop_front_def list_rep_front)
  show "if xs = [] then list_pop_back h l = fail Assert_failed
        else \<exists>h'. list_pop_back h l = ret (last xs, h') \<and> list_rep h' l (butlast xs)"
    using assms list_pop_back_rep [of h l "butlast xs" "last xs"]
    by (auto simp: list_pop_back_def list_rep_back)
  show "\<exists>h'. list_remove h e = ret (hd (vs @ [tailp l]), h') \<and> list_rep h' l (us @ vs)"
    if "xs = us @ e # vs" for us e vs
    using list_remove_rep [of h l us e vs] assms that by blast
  show "list_size h l = ret (of_nat (length xs))"
    using assms by (rule list_size_rep)
qed

theorem list_remove_refines_witness:
  "(\<exists>h'. list_pop_front sample_lheap 0x1000 = ret (0x4000, h') \<and> list_rep h' 0x1000 [0x2000, 0x3000]) \<and>
   (\<exists>h'. list_remove sample_lheap 0x2000 = ret (0x3000, h') \<and> list_rep h' 0x1000 [0x4000, 0x3000]) \<and>
   list_size sample_lheap 0x1000 = ret 3 \<and> list_pop_back sample_lheap 0x1800 = fail Assert_failed"
proof -
  note r = list_remove_refines [OF sample_lheap_reps(1)]
  have "[0x4000, 0x2000, 0x3000] = [0x4000] @ (0x2000 :: ptr) # [0x3000]" by simp
  then have "\<exists>h'. list_remove sample_lheap 0x2000 = ret (hd ([0x3000] @ [tailp 0x1000]), h') \<and>
      list_rep h' 0x1000 ([0x4000] @ [0x3000])"
    using r by blast
  then show ?thesis using r list_remove_refines [OF sample_lheap_reps(2)] by simp
qed

text \<open>
  \<open>list_splice\<close> moves a nonempty stretch of one list to any place of another list, leaving
  both well formed; \<open>list_reverse\<close> reverses a list.
\<close>

theorem list_splice_reverse_refines:
  assumes "list_rep h l (xs @ fs @ ys)" and "list_rep h k (us @ vs)" and "fs \<noteq> []"
    and "set (list_nodes l (xs @ fs @ ys)) \<inter> set (list_nodes k (us @ vs)) = {}"
  shows "(\<exists>h'. list_splice h (hd (vs @ [tailp k])) (hd fs) (hd (ys @ [tailp l])) = ret h' \<and>
            list_rep h' l (xs @ ys) \<and> list_rep h' k (us @ fs @ vs)) \<and>
         (\<exists>h'. list_reverse h l = ret h' \<and> list_rep h' l (rev (xs @ fs @ ys)))"
  using list_splice_rep [OF assms] list_reverse_rep [OF assms(1)] by blast

theorem list_splice_reverse_refines_witness:
  "(\<exists>h'. list_splice sample_lheap 0x1810 0x4000 0x3000 = ret h' \<and>
      list_rep h' 0x1000 [0x3000] \<and> list_rep h' 0x1800 [0x4000, 0x2000]) \<and>
   (\<exists>h'. list_reverse sample_lheap 0x1000 = ret h' \<and> list_rep h' 0x1000 [0x3000, 0x2000, 0x4000])"
  using list_splice_reverse_refines [of sample_lheap "0x1000" "[]" "[0x4000, 0x2000]" "[0x3000]" "0x1800" "[]" "[]"]
    sample_lheap_reps by (simp add: list_nodes_def)

text \<open>
  \<open>list_insert_ordered\<close> into an ordered list keeps it ordered and adds exactly the new
  element, after every element it is not less than.
\<close>

theorem list_insert_ordered_correct:
  assumes "list_less lt" and "list_rep h l xs" and "ordered lt xs"
    and "x \<notin> set (list_nodes l xs)" and "x \<noteq> NULL"
  shows "\<exists>h' ys zs. list_insert_ordered lt h l x = ret h' \<and> xs = ys @ zs \<and>
           list_rep h' l (ys @ x # zs) \<and> ordered lt (ys @ x # zs) \<and>
           (\<forall>y \<in> set ys. \<not> lt x y) \<and> (\<forall>z \<in> set zs. lt x z)"
proof -
  let ?ys = "takeWhile (\<lambda>e. \<not> lt x e) xs" and ?zs = "dropWhile (\<lambda>e. \<not> lt x e) xs"
  obtain h' where h': "list_insert_ordered lt h l x = ret h'" "list_rep h' l (insert_by lt x xs)"
    using list_insert_ordered_rep [OF assms(2,4,5)] by blast
  have ord: "ordered lt (insert_by lt x xs)"
    using assms(1,3) by (rule list_less.ordered_insert_by)
  have "lt x z" if "z \<in> set ?zs" for z
  proof (cases ?zs)
    case (Cons c cs)
    then have "lt x c" by (metis hd_dropWhile list.distinct(1) list.sel(1))
    moreover have "ordered lt ?zs"
      using assms(3) list_less.ordered_append [OF assms(1), of ?ys ?zs] by simp
    then have "\<not> lt z c"
      using that list_less.irrefl [OF assms(1)] unfolding Cons by (auto simp: ordered_def)
    ultimately show ?thesis using list_less.negtrans [OF assms(1)] by blast
  next
    case Nil
    with that show ?thesis by (simp only: list.set) simp
  qed
  moreover have "xs = ?ys @ ?zs" by simp
  moreover have "\<forall>y \<in> set ?ys. \<not> lt x y" by (metis set_takeWhileD)
  ultimately show ?thesis using h' ord unfolding insert_by_def by blast
qed

theorem list_insert_ordered_correct_witness:
  "\<exists>h' ys zs. list_insert_ordered (<) sample_lheap 0x1800 0x5000 = ret h' \<and> [] = ys @ zs \<and>
     list_rep h' 0x1800 (ys @ 0x5000 # zs) \<and> ordered (<) (ys @ 0x5000 # zs) \<and>
     (\<forall>y \<in> set ys. \<not> (0x5000 :: ptr) < y) \<and> (\<forall>z \<in> set zs. (0x5000 :: ptr) < z)"
  by (rule list_insert_ordered_correct [OF address_order sample_lheap_reps(2)])
    (simp_all add: list_nodes_def ordered_def)

text \<open>
  \<open>list_max\<close> returns the earliest maximal element and \<open>list_min\<close> the earliest minimal one,
  or the tail of an empty list.
\<close>

theorem list_max_min_correct:
  assumes "list_less lt" and "list_rep h l xs"
  shows "(if xs = [] then list_max lt h l = ret (tailp l) \<and> list_min lt h l = ret (tailp l)
          else \<exists>mx mn. list_max lt h l = ret mx \<and> first_max lt xs mx \<and>
                 list_min lt h l = ret mn \<and> first_max (\<lambda>a b. lt b a) xs mn)"
proof (cases xs)
  case (Cons x ys)
  with list_max_rep [OF assms(2), of lt] list_min_rep [OF assms(2), of lt]
    list_less.fold_first_max [OF assms(1), of x ys]
    list_less.fold_first_max [OF list_less_flip [OF assms(1)], of x ys]
  show ?thesis by simp
qed (use list_max_rep [OF assms(2), of lt] list_min_rep [OF assms(2), of lt] in simp)

theorem list_max_min_correct_witness:
  "\<exists>mx mn. list_max (<) sample_lheap 0x1000 = ret mx \<and> first_max (<) [0x4000, 0x2000, 0x3000] mx \<and>
     list_min (<) sample_lheap 0x1000 = ret mn \<and> first_max (\<lambda>a b. b < a) [0x4000, 0x2000, 0x3000] mn"
  using list_max_min_correct [OF address_order sample_lheap_reps(1)] by simp

end
