(* ===== verification/Hash.thy ===== *)
theory Hash
  imports Klist_Ordered
begin

unbundle bit_operations_syntax

text \<open>
  The kernel's hash table, \<open>lib/kernel/hash.c\<close>. A bucket is the sequence its linked list stands
  for (the links themselves are the matter of \<open>Klist\<close>): \<open>list_push_front\<close> is a cons,
  \<open>list_remove (e)\<close> takes \<open>e\<close> out of the bucket that holds it. The element type \<open>'e\<close> stands for
  the addresses of the embedded \<open>struct hash_elem\<close>s, \<open>None\<close> for the null pointer. Whether the
  \<open>malloc\<close> of a new bucket array succeeds is an argument of each operation that may call it.

  The locale \<open>hash_funcs\<close> states what the table relies on: \<open>less\<close> is a strict weak order and
  equivalent elements have equal hash values. In it, \<open>hash_wf\<close> is shown to be an invariant of all
  operations, which refine the operations on the set of the elements stored.
\<close>

section \<open>Data\<close>

record 'e hash =
  h_elem_cnt :: size_t
  bucket_cnt :: size_t
  buckets :: "'e list list"
  h_hash :: "'e \<Rightarrow> u64"
  h_less :: "'e \<Rightarrow> 'e \<Rightarrow> bool"

text \<open>The iterator's \<open>elem\<close>: the head of the current bucket, its element number \<open>k\<close>, or null.\<close>

datatype cursor = At_head | At_elem nat | At_null

record hash_iterator =
  it_bucket :: nat
  it_elem :: cursor

section \<open>Operations\<close>

definition find_bucket :: "'e hash \<Rightarrow> 'e \<Rightarrow> nat exec" where
  "find_bucket h e =
     (let bucket_idx = h_hash h e AND (bucket_cnt h - 1) in
      if unat bucket_idx < length (buckets h) then ret (unat bucket_idx) else fail Out_of_bounds)"

definition find_elem :: "'e hash \<Rightarrow> nat \<Rightarrow> 'e \<Rightarrow> 'e option" where
  "find_elem h bucket e =
     find (\<lambda>hi. \<not> h_less h hi e \<and> \<not> h_less h e hi) (buckets h ! bucket)"

definition turn_off_least_1bit :: "size_t \<Rightarrow> size_t" where
  "turn_off_least_1bit x = x AND (x - 1)"

definition is_power_of_2 :: "size_t \<Rightarrow> bool" where
  "is_power_of_2 x \<longleftrightarrow> x \<noteq> 0 \<and> turn_off_least_1bit x = 0"

partial_function (option) power_of_2_loop :: "size_t \<Rightarrow> size_t exec" where
  "power_of_2_loop n = (if \<not> is_power_of_2 n then power_of_2_loop (turn_off_least_1bit n) else ret n)"

definition push_bucket :: "nat \<Rightarrow> 'e \<Rightarrow> 'e hash \<Rightarrow> 'e hash" where
  "push_bucket i e h = h\<lparr>buckets := (buckets h)[i := e # buckets h ! i]\<rparr>"

text \<open>The loop of \<open>rehash\<close> that moves the elements of the old buckets.\<close>

fun rehash_move :: "'e hash \<Rightarrow> 'e list \<Rightarrow> 'e hash exec" where
  "rehash_move h [] = ret h"
| "rehash_move h (e # es) = bindE (find_bucket h e) (\<lambda>i. rehash_move (push_bucket i e h) es)"

definition rehash :: "bool \<Rightarrow> 'e hash \<Rightarrow> 'e hash exec" where
  "rehash mem h =
     (let n = h_elem_cnt h div 2; n = (if n < 4 then 4 else n) in
      bindE (power_of_2_loop n) (\<lambda>new_bucket_cnt.
      if new_bucket_cnt = bucket_cnt h then ret h
      else if \<not> mem then ret h
      else rehash_move (h\<lparr>buckets := replicate (unat new_bucket_cnt) [], bucket_cnt := new_bucket_cnt\<rparr>)
             (concat (take (unat (bucket_cnt h)) (buckets h)))))"

definition insert_elem :: "'e hash \<Rightarrow> nat \<Rightarrow> 'e \<Rightarrow> 'e hash" where
  "insert_elem h bucket e = push_bucket bucket e (h\<lparr>h_elem_cnt := h_elem_cnt h + 1\<rparr>)"

definition remove_elem :: "'e hash \<Rightarrow> 'e \<Rightarrow> 'e hash" where
  "remove_elem h e = h\<lparr>h_elem_cnt := h_elem_cnt h - 1, buckets := map (remove1 e) (buckets h)\<rparr>"

text \<open>
  \<open>hash_clear\<close> returns, besides the table, the elements the destructor (if any) was called on, in
  the order of the calls.
\<close>

definition clear_bucket :: "bool \<Rightarrow> nat \<Rightarrow> 'e hash \<times> 'e list \<Rightarrow> 'e hash \<times> 'e list" where
  "clear_bucket destructor i = (\<lambda>(h, called).
     (h\<lparr>buckets := (buckets h)[i := []]\<rparr>, if destructor then called @ buckets h ! i else called))"

definition hash_clear :: "'e hash \<Rightarrow> bool \<Rightarrow> 'e hash \<times> 'e list" where
  "hash_clear h destructor =
     (let (h, called) = fold (clear_bucket destructor) [0..<unat (bucket_cnt h)] (h, [])
      in (h\<lparr>h_elem_cnt := 0\<rparr>, called))"

text \<open>\<open>mem\<close> is the uninitialised bucket array \<open>malloc\<close> returns, if it does.\<close>

definition hash_init :: "'e list list option \<Rightarrow> ('e \<Rightarrow> u64) \<Rightarrow> ('e \<Rightarrow> 'e \<Rightarrow> bool) \<Rightarrow> 'e hash option" where
  "hash_init mem hsh lt = (case mem of
     None \<Rightarrow> None
   | Some bs \<Rightarrow> Some (fst (hash_clear
       \<lparr>h_elem_cnt = 0, bucket_cnt = 4, buckets = bs, h_hash = hsh, h_less = lt\<rparr> False)))"

definition hash_insert :: "bool \<Rightarrow> 'e hash \<Rightarrow> 'e \<Rightarrow> ('e option \<times> 'e hash) exec" where
  "hash_insert mem h new =
     bindE (find_bucket h new) (\<lambda>bucket.
     let old = find_elem h bucket new;
         h = (if old = None then insert_elem h bucket new else h)
     in bindE (rehash mem h) (\<lambda>h. ret (old, h)))"

definition hash_replace :: "bool \<Rightarrow> 'e hash \<Rightarrow> 'e \<Rightarrow> ('e option \<times> 'e hash) exec" where
  "hash_replace mem h new =
     bindE (find_bucket h new) (\<lambda>bucket.
     let old = find_elem h bucket new;
         h = (case old of Some e \<Rightarrow> remove_elem h e | None \<Rightarrow> h);
         h = insert_elem h bucket new
     in bindE (rehash mem h) (\<lambda>h. ret (old, h)))"

definition hash_find :: "'e hash \<Rightarrow> 'e \<Rightarrow> 'e option exec" where
  "hash_find h e = bindE (find_bucket h e) (\<lambda>bucket. ret (find_elem h bucket e))"

definition hash_delete :: "bool \<Rightarrow> 'e hash \<Rightarrow> 'e \<Rightarrow> ('e option \<times> 'e hash) exec" where
  "hash_delete mem h e =
     bindE (find_bucket h e) (\<lambda>bucket.
     case find_elem h bucket e of
       None \<Rightarrow> ret (None, h)
     | Some found \<Rightarrow> bindE (rehash mem (remove_elem h found)) (\<lambda>h. ret (Some found, h)))"

text \<open>\<open>hash_destroy\<close> and \<open>hash_apply\<close>: the elements passed to the callback, in order.\<close>

definition hash_destroy :: "'e hash \<Rightarrow> bool \<Rightarrow> 'e list" where
  "hash_destroy h destructor = (if destructor then snd (hash_clear h True) else [])"

definition hash_apply :: "'e hash \<Rightarrow> ('s \<Rightarrow> 'e \<Rightarrow> 's) \<Rightarrow> 's \<Rightarrow> 's" where
  "hash_apply h action s = foldl (\<lambda>s i. foldl action s (buckets h ! i)) s [0..<unat (bucket_cnt h)]"

definition hash_first :: "'e hash \<Rightarrow> hash_iterator" where
  "hash_first h = \<lparr>it_bucket = 0, it_elem = At_head\<rparr>"

fun next_bucket :: "'e list list \<Rightarrow> nat \<Rightarrow> nat \<times> cursor" where
  "next_bucket [] b = (b, At_null)"
| "next_bucket (xs # bs) b = (if xs = [] then next_bucket bs (Suc b) else (b, At_elem 0))"

definition hash_cur :: "'e hash \<Rightarrow> hash_iterator \<Rightarrow> 'e option exec" where
  "hash_cur h i = (case it_elem i of
     At_null \<Rightarrow> ret None
   | At_head \<Rightarrow> fail Out_of_bounds
   | At_elem k \<Rightarrow> ret (Some (buckets h ! it_bucket i ! k)))"

definition hash_next :: "'e hash \<Rightarrow> hash_iterator \<Rightarrow> hash_iterator exec" where
  "hash_next h i =
     (let step = (\<lambda>k. if k \<noteq> length (buckets h ! it_bucket i) then ret (i\<lparr>it_elem := At_elem k\<rparr>)
          else let (b, e) = next_bucket (drop (Suc (it_bucket i)) (take (unat (bucket_cnt h)) (buckets h)))
                              (Suc (it_bucket i))
               in ret (i\<lparr>it_bucket := b, it_elem := e\<rparr>))
      in case it_elem i of At_head \<Rightarrow> step 0 | At_elem k \<Rightarrow> step (Suc k) | At_null \<Rightarrow> fail Null_deref)"

text \<open>
  The loop of the comment above \<open>hash_first\<close>: the elements \<open>while (hash_next (&i))\<close> sees
  through \<open>hash_cur\<close>.
\<close>

partial_function (option) hash_walk :: "'e hash \<Rightarrow> hash_iterator \<Rightarrow> 'e list exec" where
  "hash_walk h i =
     bindE (hash_next h i) (\<lambda>i. bindE (hash_cur h i) (\<lambda>c.
     case c of None \<Rightarrow> ret [] | Some e \<Rightarrow> bindE (hash_walk h i) (\<lambda>es. ret (e # es))))"

definition hash_size :: "'e hash \<Rightarrow> size_t" where
  "hash_size h = h_elem_cnt h"

definition hash_empty :: "'e hash \<Rightarrow> bool" where
  "hash_empty h \<longleftrightarrow> h_elem_cnt h = 0"

definition FNV_64_PRIME :: u64 where "FNV_64_PRIME = 0x00000100000001B3"

definition FNV_64_BASIS :: u64 where "FNV_64_BASIS = 0xcbf29ce484222325"

fun hash_bytes_loop :: "u64 \<Rightarrow> u8 list \<Rightarrow> u64" where
  "hash_bytes_loop hash [] = hash"
| "hash_bytes_loop hash (c # buf) = hash_bytes_loop ((hash * FNV_64_PRIME) XOR ucast c) buf"

definition hash_bytes :: "u8 list \<Rightarrow> nat \<Rightarrow> u64 exec" where
  "hash_bytes buf n = (if n \<le> length buf then ret (hash_bytes_loop FNV_64_BASIS (take n buf))
     else fail Out_of_bounds)"

fun hash_string_loop :: "u64 \<Rightarrow> u8 list \<Rightarrow> u64 exec" where
  "hash_string_loop hash [] = fail Out_of_bounds"
| "hash_string_loop hash (c # s) =
     (if c \<noteq> 0 then hash_string_loop ((hash * FNV_64_PRIME) XOR ucast c) s else ret hash)"

definition hash_string :: "u8 list \<Rightarrow> u64 exec" where
  "hash_string s = hash_string_loop FNV_64_BASIS s"

definition bytes_le :: "nat \<Rightarrow> u64 \<Rightarrow> u8 list" where
  "bytes_le n w = map (\<lambda>k. ucast (drop_bit (8 * k) w)) [0..<n]"

definition hash_int :: "u32 \<Rightarrow> u64 exec" where
  "hash_int i = hash_bytes (bytes_le 4 (ucast i)) 4"

section \<open>The number of buckets\<close>

lemma and_le_nat: "(m :: nat) AND n \<le> n"
proof -
  have "int (m AND n) \<le> int n" by (simp only: of_nat_and_eq AND_upper2 of_nat_0_le_iff)
  then show ?thesis by (simp only: of_nat_le_iff)
qed

lemma top_bit: "2 ^ t \<le> n \<Longrightarrow> n < 2 ^ Suc t \<Longrightarrow> bit (n :: nat) t"
proof -
  assume "2 ^ t \<le> n" "n < 2 ^ Suc t"
  then have "n div 2 ^ t = 1" by (intro div_nat_eqI) simp_all
  then show ?thesis by (simp add: bit_iff_odd)
qed

lemma bit_le: "bit (n :: nat) t \<Longrightarrow> 2 ^ t \<le> n"
  by (metis bit_iff_odd div_less even_zero not_less)

lemma turn_off_top:
  assumes "2 ^ t \<le> unat x" and "unat x < 2 ^ Suc t" and "unat x \<noteq> 2 ^ t"
  shows "2 ^ t \<le> unat (turn_off_least_1bit x)" and "unat (turn_off_least_1bit x) < unat x"
proof -
  have x0: "x \<noteq> 0" using assms(1) by auto
  then have u: "unat (x - 1) = unat x - 1" by (simp add: unat_minus_one)
  have *: "unat (turn_off_least_1bit x) = unat x AND (unat x - 1)"
    by (simp add: turn_off_least_1bit_def unsigned_and_eq u)
  have "bit (unat x) t" "bit (unat x - 1) t" using assms by (auto intro!: top_bit)
  then have "bit (unat x AND (unat x - 1)) t" by (simp add: bit_and_iff)
  then show "2 ^ t \<le> unat (turn_off_least_1bit x)" unfolding * by (rule bit_le)
  show "unat (turn_off_least_1bit x) < unat x"
    unfolding * using and_le_nat [of "unat x" "unat x - 1"] assms(1) less_le_trans [of 0 "2 ^ t" "unat x"] by simp
qed

lemma is_power_of_2_iff: "is_power_of_2 x \<longleftrightarrow> (\<exists>t. unat x = 2 ^ t)"
proof
  assume p: "is_power_of_2 x"
  then have "0 < unat x" by (simp add: is_power_of_2_def unat_gt_0)
  then obtain t where t: "2 ^ t \<le> unat x" "unat x < 2 ^ Suc t" using ex_power_ivl1 [of 2 "unat x"] by auto
  with turn_off_top(1) [OF t] p show "\<exists>t. unat x = 2 ^ t" by (auto simp: is_power_of_2_def)
next
  assume "\<exists>t. unat x = 2 ^ t"
  then obtain t where t: "unat x = 2 ^ t" by blast
  then have x0: "x \<noteq> 0" by auto
  have "unat x AND (unat x - 1) = 0"
  proof -
    have "2 ^ t AND mask t = (0 :: nat)" by (rule bit_eqI) (auto simp: bit_and_iff bit_exp_iff bit_mask_iff)
    then show ?thesis unfolding t by (simp add: mask_eq_exp_minus_1)
  qed
  moreover have "unat (turn_off_least_1bit x) = unat x AND (unat x - 1)"
    using x0 by (simp add: turn_off_least_1bit_def unsigned_and_eq unat_minus_one)
  ultimately show "is_power_of_2 x" using x0 by (simp add: is_power_of_2_def unat_eq_zero)
qed

text \<open>The loop ends with the largest power of two that is not above its argument.\<close>

lemma power_of_2_loop_returns:
  assumes "2 ^ t \<le> unat n" and "unat n < 2 ^ Suc t"
  shows "power_of_2_loop n = ret (of_nat (2 ^ t))"
  using assms
proof (induction "unat n" arbitrary: n rule: less_induct)
  case less
  show ?case
  proof (cases "unat n = 2 ^ t")
    case True
    then have "is_power_of_2 n" by (auto simp: is_power_of_2_iff)
    moreover have "of_nat (2 ^ t) = n" by (simp only: True [symmetric] word_of_nat_eq_iff) simp
    ultimately show ?thesis by (subst power_of_2_loop.simps) simp
  next
    case False
    have "\<not> is_power_of_2 n"
    proof
      assume "is_power_of_2 n"
      then obtain k where "unat n = 2 ^ k" by (auto simp: is_power_of_2_iff)
      with less.prems False have "(2::nat) ^ t < 2 ^ k" "(2::nat) ^ k < 2 ^ Suc t" by auto
      then have "t < k" "k < Suc t" by (simp_all only: power_strict_increasing_iff one_less_numeral_iff semiring_norm)
      then show False by simp
    qed
    then show ?thesis
      using less.hyps [of "turn_off_least_1bit n"] turn_off_top [OF less.prems False] less.prems
      by (subst power_of_2_loop.simps) simp
  qed
qed

lemma power_of_2_loop_total:
  assumes "4 \<le> n"
  shows "\<exists>t. 2 \<le> t \<and> 2 ^ t \<le> unat n \<and> unat n < 2 ^ Suc t \<and> power_of_2_loop n = ret (of_nat (2 ^ t)) \<and>
           unat (of_nat (2 ^ t) :: size_t) = 2 ^ t \<and> is_power_of_2 (of_nat (2 ^ t))"
proof -
  have n4: "4 \<le> unat n" using assms by (simp add: word_le_nat_alt)
  then obtain t where t: "2 ^ t \<le> unat n" "unat n < 2 ^ Suc t" using ex_power_ivl1 [of 2 "unat n"] by auto
  have "2 \<le> t"
  proof (rule ccontr)
    assume "\<not> 2 \<le> t"
    then have "(2::nat) ^ Suc t \<le> 2 ^ 2" by (intro power_increasing) auto
    with t n4 show False by simp
  qed
  moreover have "(2 :: nat) ^ t < 2 ^ 64" using t(1) unat_u64_bound [of n] by linarith
  then have u: "unat (of_nat (2 ^ t) :: size_t) = 2 ^ t" by (rule unat_of_nat_u64)
  ultimately show ?thesis using t power_of_2_loop_returns [OF t] is_power_of_2_iff by metis
qed

section \<open>The stored elements\<close>

definition bidx :: "'e hash \<Rightarrow> 'e \<Rightarrow> nat" where
  "bidx h e = unat (h_hash h e AND (bucket_cnt h - 1))"

definition helems :: "'e hash \<Rightarrow> 'e list" where
  "helems h = concat (buckets h)"

text \<open>Every element is in the bucket of its hash value.\<close>

definition placed :: "'e hash \<Rightarrow> bool" where
  "placed h \<longleftrightarrow> bucket_cnt h \<noteq> 0 \<and> length (buckets h) = unat (bucket_cnt h) \<and>
     (\<forall>i < length (buckets h). \<forall>e \<in> set (buckets h ! i). bidx h e = i)"

definition equivalent :: "'e hash \<Rightarrow> 'e \<Rightarrow> 'e \<Rightarrow> bool" where
  "equivalent h a b \<longleftrightarrow> \<not> h_less h a b \<and> \<not> h_less h b a"

definition hash_wf :: "'e hash \<Rightarrow> bool" where
  "hash_wf h \<longleftrightarrow> placed h \<and> is_power_of_2 (bucket_cnt h) \<and> distinct (helems h) \<and>
     unat (h_elem_cnt h) = length (helems h) \<and>
     (\<forall>x \<in> set (helems h). \<forall>y \<in> set (helems h). equivalent h x y \<longrightarrow> x = y)"

lemma bidx_bound: "bucket_cnt h \<noteq> 0 \<Longrightarrow> bidx h e < unat (bucket_cnt h)"
proof -
  assume 0: "bucket_cnt h \<noteq> 0"
  then have "0 < unat (bucket_cnt h)" by (simp add: unat_gt_0)
  with 0 and_le_nat [of "unat (h_hash h e)" "unat (bucket_cnt h) - 1"] show ?thesis
    by (simp add: bidx_def unsigned_and_eq unat_minus_one)
qed

lemma placed_find_bucket: "placed h \<Longrightarrow> find_bucket h e = ret (bidx h e)"
  using bidx_bound [of h e] by (simp add: find_bucket_def placed_def bidx_def Let_def)

lemma mset_concat_update:
  "i < length bs \<Longrightarrow> mset (concat (bs[i := e # bs ! i])) = add_mset e (mset (concat bs))"
  by (induction bs arbitrary: i) (auto split: nat.splits)

lemma remove1_distinct: "distinct xs \<Longrightarrow> remove1 x xs = filter (\<lambda>y. y \<noteq> x) xs"
  by (simp add: distinct_remove1_removeAll removeAll_filter_not_eq, rule filter_cong) auto

lemma placed_push:
  assumes "placed h"
  shows "placed (push_bucket (bidx h e) e h)"
    and "mset (helems (push_bucket (bidx h e) e h)) = add_mset e (mset (helems h))"
    and "bucket_cnt (push_bucket i e h) = bucket_cnt h" and "h_elem_cnt (push_bucket i e h) = h_elem_cnt h"
    and "h_hash (push_bucket i e h) = h_hash h" and "h_less (push_bucket i e h) = h_less h"
  using assms bidx_bound [of h e]
  by (auto simp: placed_def push_bucket_def helems_def mset_concat_update nth_list_update bidx_def split: if_splits)

lemma rehash_move_placed:
  assumes "placed h"
  shows "\<exists>h'. rehash_move h es = ret h' \<and> placed h' \<and> bucket_cnt h' = bucket_cnt h \<and>
    h_elem_cnt h' = h_elem_cnt h \<and> h_hash h' = h_hash h \<and> h_less h' = h_less h \<and>
    mset (helems h') = mset es + mset (helems h)"
  using assms
proof (induction es arbitrary: h)
  case (Cons e es)
  with placed_push [OF Cons.prems] Cons.IH [OF placed_push(1) [OF Cons.prems]] show ?case
    by (auto simp: placed_find_bucket)
qed simp

lemma concat_replicate_Nil [simp]: "concat (replicate n []) = []"
  by (induction n) auto

text \<open>The number of buckets \<open>rehash\<close> aims at.\<close>

definition best_buckets :: "'e hash \<Rightarrow> nat" where
  "best_buckets h = max 4 (unat (h_elem_cnt h) div 2)"

lemma rehash_placed:
  assumes "placed h" and "is_power_of_2 (bucket_cnt h)"
  shows "\<exists>h' t. rehash mem h = ret h' \<and> placed h' \<and> is_power_of_2 (bucket_cnt h') \<and>
    h_elem_cnt h' = h_elem_cnt h \<and> h_hash h' = h_hash h \<and> h_less h' = h_less h \<and>
    mset (helems h') = mset (helems h) \<and> 2 ^ t \<le> best_buckets h \<and> best_buckets h < 2 ^ Suc t \<and>
    (mem \<longrightarrow> unat (bucket_cnt h') = 2 ^ t)"
proof -
  define n where "n = (if h_elem_cnt h div 2 < 4 then 4 else h_elem_cnt h div 2)"
  have n4: "4 \<le> n" by (auto simp: n_def)
  have un: "unat n = best_buckets h"
    by (auto simp: n_def best_buckets_def word_less_nat_alt unat_div max_def)
  from power_of_2_loop_total [OF n4] obtain m t where
    m: "power_of_2_loop n = ret m" "is_power_of_2 m" "unat m = 2 ^ t" "2 ^ t \<le> unat n" "unat n < 2 ^ Suc t"
    by metis
  let ?h = "h\<lparr>buckets := replicate (unat m) [], bucket_cnt := m\<rparr>"
  have rh: "rehash mem h = (if m = bucket_cnt h \<or> \<not> mem then ret h
      else rehash_move ?h (concat (take (unat (bucket_cnt h)) (buckets h))))"
    by (simp add: rehash_def Let_def n_def [symmetric] m(1))
  show ?thesis
  proof (cases "m = bucket_cnt h \<or> \<not> mem")
    case True
    then show ?thesis using rh assms m un by (intro exI [of _ h] exI [of _ t]) auto
  next
    case False
    have "placed ?h" using m(2) by (auto simp: placed_def is_power_of_2_def)
    from rehash_move_placed [OF this, of "concat (take (unat (bucket_cnt h)) (buckets h))"] obtain h' where
      "rehash_move ?h (concat (take (unat (bucket_cnt h)) (buckets h))) = ret h'" "placed h'"
      "bucket_cnt h' = m" "h_elem_cnt h' = h_elem_cnt h" "h_hash h' = h_hash h" "h_less h' = h_less h"
      "mset (helems h') = mset (concat (take (unat (bucket_cnt h)) (buckets h)))"
      by (auto simp: helems_def)
    moreover have "take (unat (bucket_cnt h)) (buckets h) = buckets h" using assms(1) by (simp add: placed_def)
    ultimately show ?thesis
      using rh False m un by (intro exI [of _ h'] exI [of _ t]) (simp add: helems_def)
  qed
qed

lemma wf_mset_cong:
  assumes "hash_wf h" and "placed h'" and "is_power_of_2 (bucket_cnt h')" and "h_elem_cnt h' = h_elem_cnt h"
    and "h_less h' = h_less h" and "mset (helems h') = mset (helems h)"
  shows "hash_wf h'"
  using assms mset_eq_setD [OF assms(6)] mset_eq_length [OF assms(6)] mset_eq_imp_distinct_iff [OF assms(6)]
  by (simp add: hash_wf_def equivalent_def)

lemma rehash_wf:
  assumes "hash_wf h"
  shows "\<exists>h'. rehash mem h = ret h' \<and> hash_wf h' \<and> h_hash h' = h_hash h \<and> h_less h' = h_less h \<and>
    mset (helems h') = mset (helems h)"
proof -
  from rehash_placed [of h mem] assms obtain h' where
    "rehash mem h = ret h'" "placed h'" "is_power_of_2 (bucket_cnt h')" "h_elem_cnt h' = h_elem_cnt h"
    "h_hash h' = h_hash h" "h_less h' = h_less h" "mset (helems h') = mset (helems h)"
    by (auto simp: hash_wf_def)
  with wf_mset_cong [OF assms] show ?thesis by blast
qed

section \<open>Tables over consistent functions\<close>

locale hash_funcs = list_less lt for lt :: "'e \<Rightarrow> 'e \<Rightarrow> bool" +
  fixes hsh :: "'e \<Rightarrow> u64"
  assumes consistent: "\<not> lt a b \<Longrightarrow> \<not> lt b a \<Longrightarrow> hsh a = hsh b"
begin

definition table :: "'e hash \<Rightarrow> bool" where
  "table h \<longleftrightarrow> hash_wf h \<and> h_hash h = hsh \<and> h_less h = lt"

abbreviation eqv :: "'e \<Rightarrow> 'e \<Rightarrow> bool" where
  "eqv a b \<equiv> \<not> lt a b \<and> \<not> lt b a"

lemma eqv_trans: "eqv a b \<Longrightarrow> eqv b c \<Longrightarrow> eqv a c"
  using negtrans by blast

lemma same_bucket:
  assumes "table h" and "x \<in> set (helems h)" and "eqv x e"
  shows "x \<in> set (buckets h ! bidx h e)"
proof -
  obtain i where i: "i < length (buckets h)" "x \<in> set (buckets h ! i)"
    using assms(2) by (auto simp: helems_def in_set_conv_nth) (metis in_set_conv_nth)
  moreover have "bidx h x = i" using assms(1) i by (auto simp: table_def hash_wf_def placed_def)
  moreover have "bidx h x = bidx h e"
    using assms consistent [of x e] by (simp add: bidx_def table_def)
  ultimately show ?thesis by simp
qed

lemma table_find_bucket: "table h \<Longrightarrow> find_bucket h e = ret (bidx h e)"
  by (simp add: table_def hash_wf_def placed_find_bucket)

lemma find_elem_Some:
  assumes "table h" and "find_elem h (bidx h e) e = Some x"
  shows "x \<in> set (helems h)" and "eqv x e"
proof -
  have "bidx h e < length (buckets h)"
    using assms(1) bidx_bound [of h e] by (simp add: table_def hash_wf_def placed_def)
  moreover have "x \<in> set (buckets h ! bidx h e) \<and> eqv x e"
    using assms by (auto simp: find_elem_def find_Some_iff table_def)
  ultimately show "x \<in> set (helems h)" "eqv x e" by (auto simp: helems_def)
qed

lemma find_elem_None:
  assumes "table h" and "find_elem h (bidx h e) e = None" and "x \<in> set (helems h)"
  shows "\<not> eqv x e"
  using same_bucket [OF assms(1,3), of e] assms(1,2) by (auto simp: find_elem_def find_None_iff table_def)

lemma insert_elem_table:
  assumes t: "table h" and new: "\<And>x. x \<in> set (helems h) \<Longrightarrow> \<not> eqv x e"
    and room: "unat (h_elem_cnt h) < 2 ^ 64 - 1"
  shows "table (insert_elem h (bidx h e) e)"
    and "mset (helems (insert_elem h (bidx h e) e)) = add_mset e (mset (helems h))"
proof -
  let ?h = "h\<lparr>h_elem_cnt := h_elem_cnt h + 1\<rparr>" and ?h' = "insert_elem h (bidx h e) e"
  have pl: "placed ?h" and b: "bidx ?h e = bidx h e"
    using t by (auto simp: table_def hash_wf_def placed_def bidx_def)
  note pu = placed_push(1,2) [OF pl, of e, unfolded b] placed_push(3-6) [OF pl]
  show m: "mset (helems ?h') = add_mset e (mset (helems h))"
    using pu(2) by (simp add: insert_elem_def helems_def)
  have "unat (h_elem_cnt h + 1) = Suc (unat (h_elem_cnt h))"
    using room by (simp add: unat_word_ariths)
  moreover have "length (helems ?h') = Suc (length (helems h))" using m by (metis size_add_mset size_mset)
  moreover have "e \<notin> set (helems h)" using new irrefl by blast
  then have "distinct (helems ?h')"
    using m t by (metis distinct.simps(2) hash_wf_def mset.simps(2) mset_eq_imp_distinct_iff table_def)
  moreover have "set (helems ?h') = insert e (set (helems h))" using m by (metis set_mset_add_mset_insert set_mset_mset)
  ultimately show "table ?h'"
    using t new pu by (auto simp: table_def hash_wf_def insert_elem_def equivalent_def)
qed

lemma remove_elem_table:
  assumes t: "table h" and x: "x \<in> set (helems h)"
  shows "table (remove_elem h x)" and "helems (remove_elem h x) = filter (\<lambda>y. y \<noteq> x) (helems h)"
    and "unat (h_elem_cnt (remove_elem h x)) = unat (h_elem_cnt h) - 1"
    and "bidx (remove_elem h x) = bidx h"
proof -
  have d: "distinct (helems h)" using t by (simp add: table_def hash_wf_def)
  have f: "map (remove1 x) (buckets h) = map (filter (\<lambda>y. y \<noteq> x)) (buckets h)"
    using d by (auto simp: helems_def distinct_concat_iff intro!: remove1_distinct)
  show h: "helems (remove_elem h x) = filter (\<lambda>y. y \<noteq> x) (helems h)"
    by (simp add: helems_def remove_elem_def f filter_concat)
  show b: "bidx (remove_elem h x) = bidx h" by (simp add: bidx_def remove_elem_def fun_eq_iff)
  have "h_elem_cnt h \<noteq> 0" using t x by (auto simp: table_def hash_wf_def)
  then show c: "unat (h_elem_cnt (remove_elem h x)) = unat (h_elem_cnt h) - 1"
    by (simp add: remove_elem_def unat_minus_one)
  have "length (filter (\<lambda>y. y \<noteq> x) (helems h)) = length (helems h) - 1"
    using d x by (simp add: remove1_distinct [symmetric] length_remove1)
  moreover have "placed (remove_elem h x)"
    using t b by (auto simp: table_def hash_wf_def placed_def remove_elem_def f)
  ultimately show "table (remove_elem h x)"
    using t c d by (simp add: table_def hash_wf_def h equivalent_def) (simp add: remove_elem_def)
qed

lemma remove_found:
  assumes t: "table h" and s: "find_elem h (bidx h e) e = Some x"
  shows "set (helems (remove_elem h x)) = {y \<in> set (helems h). \<not> eqv y e}"
proof -
  note fs = find_elem_Some [OF t s]
  have "y = x" if "y \<in> set (helems h)" "eqv y e" for y
  proof -
    have "eqv y x" using eqv_trans [of y e x] that fs(2) by blast
    with that fs(1) t show ?thesis by (auto simp: table_def hash_wf_def equivalent_def)
  qed
  then show ?thesis using fs unfolding remove_elem_table(2) [OF t fs(1)] set_filter by blast
qed

lemma rehash_table:
  assumes "table h"
  obtains h' where "rehash mem h = ret h'" "table h'" "mset (helems h') = mset (helems h)"
  using rehash_wf [of h mem] assms by (auto simp: table_def)

text \<open>\<open>hash_find\<close> finds the element equivalent to its argument, whenever there is one.\<close>

lemma hash_find_table:
  assumes "table h"
  shows "\<exists>r. hash_find h e = ret r \<and>
    (case r of None \<Rightarrow> \<forall>x \<in> set (helems h). \<not> eqv x e | Some x \<Rightarrow> x \<in> set (helems h) \<and> eqv x e)"
  using find_elem_Some [OF assms, of e] find_elem_None [OF assms, of e]
  by (auto simp: hash_find_def table_find_bucket [OF assms] split: option.split)

lemma hash_insert_table:
  assumes t: "table h" and room: "unat (h_elem_cnt h) < 2 ^ 64 - 1"
  shows "\<exists>r h'. hash_find h e = ret r \<and> hash_insert mem h e = ret (r, h') \<and> table h' \<and>
    mset (helems h') = (if r = None then add_mset e (mset (helems h)) else mset (helems h))"
proof (cases "find_elem h (bidx h e) e")
  case None
  note ins = insert_elem_table [OF t find_elem_None [OF t None] room]
  with rehash_table [OF ins(1), of mem] None show ?thesis
    by (auto simp: hash_find_def hash_insert_def table_find_bucket [OF t] Let_def)
next
  case (Some x)
  with rehash_table [OF t, of mem] show ?thesis
    by (auto simp: hash_find_def hash_insert_def table_find_bucket [OF t] Let_def)
qed

lemma hash_delete_table:
  assumes t: "table h"
  shows "\<exists>r h'. hash_find h e = ret r \<and> hash_delete mem h e = ret (r, h') \<and> table h' \<and>
    set (helems h') = {x \<in> set (helems h). \<not> eqv x e}"
proof (cases "find_elem h (bidx h e) e")
  case None
  then show ?thesis
    using t find_elem_None [OF t None]
    by (auto simp: hash_find_def hash_delete_def table_find_bucket [OF t])
next
  case (Some x)
  note rm = remove_elem_table [OF t find_elem_Some(1) [OF t Some]]
  from rehash_table [OF rm(1), of mem] obtain h' where
    h': "rehash mem (remove_elem h x) = ret h'" "table h'" "mset (helems h') = mset (helems (remove_elem h x))" .
  have "set (helems h') = {x \<in> set (helems h). \<not> eqv x e}"
    using mset_eq_setD [OF h'(3)] remove_found [OF t Some] by simp
  with h' Some show ?thesis
    by (intro exI [of _ "Some x"] exI [of _ h']) (simp add: hash_find_def hash_delete_def table_find_bucket [OF t])
qed

lemma hash_replace_table:
  assumes t: "table h" and room: "unat (h_elem_cnt h) < 2 ^ 64 - 1"
  shows "\<exists>r h'. hash_find h e = ret r \<and> hash_replace mem h e = ret (r, h') \<and> table h' \<and>
    set (helems h') = insert e {x \<in> set (helems h). \<not> eqv x e}"
proof (cases "find_elem h (bidx h e) e")
  case None
  note ins = insert_elem_table [OF t find_elem_None [OF t None] room]
  from rehash_table [OF ins(1), of mem] obtain h' where
    h': "rehash mem (insert_elem h (bidx h e) e) = ret h'" "table h'"
      "mset (helems h') = mset (helems (insert_elem h (bidx h e) e))" .
  have "set (helems h') = insert e {x \<in> set (helems h). \<not> eqv x e}"
    using mset_eq_setD [OF h'(3)] arg_cong [OF ins(2), of set_mset] find_elem_None [OF t None] by auto
  with h' None show ?thesis
    by (intro exI [of _ None] exI [of _ h'])
      (simp add: hash_find_def hash_replace_def table_find_bucket [OF t] Let_def)
next
  case (Some x)
  note rm = remove_elem_table [OF t find_elem_Some(1) [OF t Some]]
  have "\<not> eqv y e" if "y \<in> set (helems (remove_elem h x))" for y
    using that remove_found [OF t Some] by simp
  note ins = insert_elem_table [OF rm(1) this, unfolded rm(3,4)]
  from ins room have tab: "table (insert_elem (remove_elem h x) (bidx h e) e)"
    "mset (helems (insert_elem (remove_elem h x) (bidx h e) e)) = add_mset e (mset (helems (remove_elem h x)))"
    by auto
  from rehash_table [OF tab(1), of mem] obtain h' where
    h': "rehash mem (insert_elem (remove_elem h x) (bidx h e) e) = ret h'" "table h'"
      "mset (helems h') = mset (helems (insert_elem (remove_elem h x) (bidx h e) e))" .
  have "set (helems h') = insert e {x \<in> set (helems h). \<not> eqv x e}"
    using mset_eq_setD [OF h'(3)] arg_cong [OF tab(2), of set_mset] remove_found [OF t Some] by simp
  with h' Some show ?thesis
    by (intro exI [of _ "Some x"] exI [of _ h'])
      (simp add: hash_find_def hash_replace_def table_find_bucket [OF t] Let_def)
qed

end

section \<open>Creation, clearing and iteration\<close>

lemma fold_clear_bucket:
  assumes "n \<le> length (buckets h)"
  shows "fold (clear_bucket d) [0..<n] (h, []) =
    (h\<lparr>buckets := replicate n [] @ drop n (buckets h)\<rparr>, if d then concat (take n (buckets h)) else [])"
  using assms
proof (induction n)
  case (Suc n)
  then have "n < length (buckets h)" by simp
  then have "drop n (buckets h) = buckets h ! n # drop (Suc n) (buckets h)" by (simp add: Cons_nth_drop_Suc)
  with Suc show ?case
    by (simp add: clear_bucket_def list_update_append take_Suc_conv_app_nth replicate_append_same nth_append
        del: replicate_Suc) (simp add: replicate_append_same [symmetric])
qed simp

lemma hash_clear_wf:
  assumes "length (buckets h) = unat (bucket_cnt h)" and "is_power_of_2 (bucket_cnt h)"
  shows "hash_wf (fst (hash_clear h d))" and "helems (fst (hash_clear h d)) = []"
    and "snd (hash_clear h d) = (if d then helems h else [])"
    and "h_hash (fst (hash_clear h d)) = h_hash h" and "h_less (fst (hash_clear h d)) = h_less h"
proof -
  have *: "hash_clear h d = (h\<lparr>buckets := replicate (unat (bucket_cnt h)) [], h_elem_cnt := 0\<rparr>,
      if d then helems h else [])"
    using fold_clear_bucket [of "unat (bucket_cnt h)" h d] assms(1) by (simp add: hash_clear_def helems_def)
  show "hash_wf (fst (hash_clear h d))" "helems (fst (hash_clear h d)) = []"
    using assms(2) by (auto simp: * hash_wf_def placed_def helems_def is_power_of_2_def)
  show "snd (hash_clear h d) = (if d then helems h else [])"
    "h_hash (fst (hash_clear h d)) = h_hash h" "h_less (fst (hash_clear h d)) = h_less h"
    by (simp_all add: *)
qed

lemma hash_init_wf:
  assumes "length bs = 4"
  obtains h where "hash_init (Some bs) hsh lt = Some h" "hash_wf h" "helems h = []" "h_hash h = hsh" "h_less h = lt"
proof -
  let ?h = "\<lparr>h_elem_cnt = 0, bucket_cnt = 4, buckets = bs, h_hash = hsh, h_less = lt\<rparr>"
  have "is_power_of_2 4" by (simp add: is_power_of_2_def turn_off_least_1bit_def)
  then show thesis
    using hash_clear_wf [of ?h False] assms that [of "fst (hash_clear ?h False)"] by (simp add: hash_init_def)
qed

text \<open>What is left to visit when the iterator stands at \<open>i\<close>.\<close>

definition unvisited :: "'e hash \<Rightarrow> hash_iterator \<Rightarrow> 'e list" where
  "unvisited h i = (case it_elem i of
     At_head \<Rightarrow> concat (drop (it_bucket i) (buckets h))
   | At_elem k \<Rightarrow> drop (Suc k) (buckets h ! it_bucket i) @ concat (drop (Suc (it_bucket i)) (buckets h))
   | At_null \<Rightarrow> [])"

definition it_valid :: "'e hash \<Rightarrow> hash_iterator \<Rightarrow> bool" where
  "it_valid h i \<longleftrightarrow> it_bucket i < length (buckets h) \<and> (case it_elem i of
     At_head \<Rightarrow> True | At_elem k \<Rightarrow> k < length (buckets h ! it_bucket i) | At_null \<Rightarrow> False)"

lemma next_bucket_cases:
  "(concat bs = [] \<and> snd (next_bucket bs b) = At_null) \<or>
   (\<exists>n x xs. next_bucket bs b = (b + n, At_elem 0) \<and> n < length bs \<and> bs ! n = x # xs \<and>
      concat bs = x # xs @ concat (drop (Suc n) bs))"
proof (induction bs arbitrary: b)
  case (Cons ys bs)
  show ?case
  proof (cases ys)
    case Nil
    from Cons.IH [of "Suc b"] show ?thesis
    proof (elim disjE exE conjE)
      fix n x xs
      assume "next_bucket bs (Suc b) = (Suc b + n, At_elem 0)" "n < length bs" "bs ! n = x # xs"
        "concat bs = x # xs @ concat (drop (Suc n) bs)"
      with Nil show ?thesis by (intro disjI2 exI [of _ "Suc n"] exI [of _ x] exI [of _ xs]) simp
    qed (simp add: Nil)
  qed (auto intro!: exI [of _ 0])
qed simp

lemma hash_next_step:
  assumes len: "length (buckets h) = unat (bucket_cnt h)" and v: "it_valid h i"
  shows "(unvisited h i = [] \<and> (\<exists>i'. hash_next h i = ret i' \<and> hash_cur h i' = ret None)) \<or>
    (\<exists>e es i'. unvisited h i = e # es \<and> hash_next h i = ret i' \<and> hash_cur h i' = ret (Some e) \<and>
       it_valid h i' \<and> unvisited h i' = es)"
proof -
  define k where "k = (case it_elem i of At_elem k \<Rightarrow> Suc k | _ \<Rightarrow> 0)"
  let ?b = "it_bucket i" and ?bs = "drop (Suc (it_bucket i)) (buckets h)"
  have b: "?b < length (buckets h)" and k: "k \<le> length (buckets h ! ?b)"
    using v by (auto simp: it_valid_def k_def split: cursor.splits)
  have dr: "drop ?b (buckets h) = buckets h ! ?b # ?bs" using b by (simp add: Cons_nth_drop_Suc)
  have un: "unvisited h i = drop k (buckets h ! ?b) @ concat ?bs"
    using v dr by (auto simp: unvisited_def it_valid_def k_def split: cursor.splits)
  have nx: "hash_next h i = (if k \<noteq> length (buckets h ! ?b) then ret (i\<lparr>it_elem := At_elem k\<rparr>)
      else ret (i\<lparr>it_bucket := fst (next_bucket ?bs (Suc ?b)), it_elem := snd (next_bucket ?bs (Suc ?b))\<rparr>))"
    using v len by (auto simp: hash_next_def it_valid_def k_def split: cursor.splits prod.splits)
  show ?thesis
  proof (cases "k = length (buckets h ! ?b)")
    case False
    then have "k < length (buckets h ! ?b)" using k by simp
    then have "drop k (buckets h ! ?b) = buckets h ! ?b ! k # drop (Suc k) (buckets h ! ?b)"
      by (simp add: Cons_nth_drop_Suc)
    then show ?thesis
      using False un nx b \<open>k < _\<close>
      by (intro disjI2) (simp add: hash_cur_def it_valid_def unvisited_def)
  next
    case True
    from next_bucket_cases [of ?bs "Suc ?b"] show ?thesis
    proof (elim disjE exE conjE)
      assume "concat ?bs = []" "snd (next_bucket ?bs (Suc ?b)) = At_null"
      then show ?thesis using True un nx by (simp add: hash_cur_def)
    next
      fix n x xs
      assume "next_bucket ?bs (Suc ?b) = (Suc ?b + n, At_elem 0)" "n < length ?bs" "?bs ! n = x # xs"
        "concat ?bs = x # xs @ concat (drop (Suc n) ?bs)"
      then show ?thesis
        using True un nx by (intro disjI2) (simp add: hash_cur_def it_valid_def unvisited_def add.commute)
    qed
  qed
qed

lemma hash_walk_unvisited:
  assumes "length (buckets h) = unat (bucket_cnt h)" and "it_valid h i"
  shows "hash_walk h i = ret (unvisited h i)"
  using assms(2)
proof (induction "unvisited h i" arbitrary: i)
  case Nil
  with hash_next_step [OF assms(1) Nil.prems] show ?case by (subst hash_walk.simps) auto
next
  case (Cons e es)
  from hash_next_step [OF assms(1) Cons.prems] Cons.hyps(2) obtain i' where
    "hash_next h i = ret i'" "hash_cur h i' = ret (Some e)" "it_valid h i'" "unvisited h i' = es" by auto
  with Cons.hyps(1) [of i'] Cons.hyps(2) show ?case by (subst hash_walk.simps) simp
qed

lemma foldl_concat_nth: "n \<le> length bs \<Longrightarrow>
    foldl (\<lambda>s i. foldl f s (bs ! i)) s [0..<n] = foldl f s (concat (take n bs))"
  by (induction n arbitrary: s) (simp_all add: take_Suc_conv_app_nth)

section \<open>Properties\<close>

text \<open>
  C17. With a strict weak order and a hash function that agrees on equivalent elements, every
  operation of a well-formed table returns, keeps it well formed, and acts on the set of stored
  elements as its name says: \<open>hash_find\<close> returns the equivalent element if there is one,
  \<open>hash_insert\<close> adds only when there is none, \<open>hash_replace\<close> takes the place of it and
  \<open>hash_delete\<close> removes it, whether or not the memory for a resize is there.
\<close>

theorem hash_ops_refine:
  assumes "hash_funcs (h_less h) (h_hash h)" and "hash_wf h" and "unat (h_elem_cnt h) < 2 ^ 64 - 1"
  shows "\<exists>r hi hr hd. hash_find h e = ret r \<and>
    (case r of None \<Rightarrow> \<forall>x \<in> set (helems h). \<not> equivalent h x e
     | Some x \<Rightarrow> x \<in> set (helems h) \<and> equivalent h x e) \<and>
    hash_insert mem h e = ret (r, hi) \<and> hash_wf hi \<and>
      mset (helems hi) = (if r = None then add_mset e (mset (helems h)) else mset (helems h)) \<and>
    hash_replace mem h e = ret (r, hr) \<and> hash_wf hr \<and>
      set (helems hr) = insert e {x \<in> set (helems h). \<not> equivalent h x e} \<and>
    hash_delete mem h e = ret (r, hd) \<and> hash_wf hd \<and>
      set (helems hd) = {x \<in> set (helems h). \<not> equivalent h x e}"
proof -
  have t: "hash_funcs.table (h_less h) (h_hash h) h"
    using assms(2) by (simp add: hash_funcs.table_def [OF assms(1)])
  note wf = hash_funcs.table_def [OF assms(1)]
  obtain r where r: "hash_find h e = ret r" and
    r_spec: "case r of None \<Rightarrow> \<forall>x \<in> set (helems h). \<not> equivalent h x e
     | Some x \<Rightarrow> x \<in> set (helems h) \<and> equivalent h x e"
    using hash_funcs.hash_find_table [OF assms(1) t, of e] unfolding equivalent_def by blast
  obtain hi where hi: "hash_insert mem h e = ret (r, hi)" "hash_wf hi"
    "mset (helems hi) = (if r = None then add_mset e (mset (helems h)) else mset (helems h))"
    using hash_funcs.hash_insert_table [OF assms(1) t assms(3), of e mem] r unfolding wf by auto
  obtain hr where hr: "hash_replace mem h e = ret (r, hr)" "hash_wf hr"
    "set (helems hr) = insert e {x \<in> set (helems h). \<not> equivalent h x e}"
    using hash_funcs.hash_replace_table [OF assms(1) t assms(3), of e mem] r
    unfolding wf equivalent_def by auto
  obtain hd where hd: "hash_delete mem h e = ret (r, hd)" "hash_wf hd"
    "set (helems hd) = {x \<in> set (helems h). \<not> equivalent h x e}"
    using hash_funcs.hash_delete_table [OF assms(1) t, of e mem] r unfolding wf equivalent_def by auto
  show ?thesis using r r_spec hi hr hd by blast
qed

definition sample_hash :: "u64 hash" where
  "sample_hash = \<lparr>h_elem_cnt = 3, bucket_cnt = 4, buckets = [[8], [5, 1], [], []],
     h_hash = (\<lambda>x. x), h_less = (<)\<rparr>"

lemma sample_hash_ok: "hash_wf sample_hash" "hash_funcs (h_less sample_hash) (h_hash sample_hash)"
proof -
  have "is_power_of_2 (bucket_cnt sample_hash)"
    by (simp add: sample_hash_def is_power_of_2_def turn_off_least_1bit_def)
  then show "hash_wf sample_hash"
    by (simp add: hash_wf_def placed_def sample_hash_def helems_def bidx_def equivalent_def
        All_less_Suc)
  show "hash_funcs (h_less sample_hash) (h_hash sample_hash)"
    by unfold_locales (auto simp: sample_hash_def)
qed

theorem hash_ops_refine_witness:
  "\<exists>hi. hash_insert True sample_hash 6 = ret (None, hi) \<and> hash_wf hi \<and>
     mset (helems hi) = {#6, 8, 5, 1#}"
proof -
  have "unat (h_elem_cnt sample_hash) < 2 ^ 64 - 1" by (simp add: sample_hash_def)
  from hash_ops_refine [OF sample_hash_ok(2,1) this, of 6 True] obtain r hi where
    "hash_find sample_hash 6 = ret r" "hash_insert True sample_hash 6 = ret (r, hi)" "hash_wf hi"
    "mset (helems hi) = (if r = None then add_mset 6 (mset (helems sample_hash)) else mset (helems sample_hash))"
    by blast
  moreover have "hash_find sample_hash 6 = ret None"
    by (simp add: hash_find_def find_bucket_def find_elem_def sample_hash_def)
  ultimately show ?thesis by (simp add: sample_hash_def helems_def)
qed

text \<open>
  \<open>rehash\<close> terminates, keeps the table well formed and its elements the same, and gives the
  table the largest power of two of buckets that is at most the larger of 4 and half the number
  of elements; when there is no memory for the new buckets the table stays usable as it is.
\<close>

theorem rehash_correct:
  assumes "hash_wf h"
  shows "(\<exists>h' t. rehash True h = ret h' \<and> hash_wf h' \<and> mset (helems h') = mset (helems h) \<and>
      unat (bucket_cnt h') = 2 ^ t \<and> 2 ^ t \<le> max 4 (unat (h_elem_cnt h) div 2) \<and>
      max 4 (unat (h_elem_cnt h) div 2) < 2 ^ Suc t)
    \<and> rehash False h = ret h"
proof -
  have p: "placed h" "is_power_of_2 (bucket_cnt h)" using assms by (simp_all add: hash_wf_def)
  from rehash_placed [OF p, of True] wf_mset_cong [OF assms] obtain h' t where
    "rehash True h = ret h'" "hash_wf h'" "mset (helems h') = mset (helems h)"
    "unat (bucket_cnt h') = 2 ^ t" "2 ^ t \<le> best_buckets h" "best_buckets h < 2 ^ Suc t" by metis
  moreover have "4 \<le> (if h_elem_cnt h div 2 < 4 then 4 else h_elem_cnt h div 2)" by (simp add: linorder_not_less)
  from power_of_2_loop_total [OF this] have "rehash False h = ret h" by (auto simp: rehash_def Let_def)
  ultimately show ?thesis unfolding best_buckets_def by blast
qed

theorem rehash_correct_witness:
  "hash_wf sample_hash \<and> rehash False sample_hash = ret sample_hash \<and>
   (\<exists>h' t. rehash True sample_hash = ret h' \<and> unat (bucket_cnt h') = 2 ^ t)"
  using rehash_correct [OF sample_hash_ok(1)] sample_hash_ok(1) by blast

text \<open>
  Iterating over a well-formed table with \<open>hash_first\<close>, \<open>hash_next\<close> and \<open>hash_cur\<close>
  terminates and visits every element exactly once; \<open>hash_apply\<close> visits the same elements in
  the same order, and \<open>hash_clear\<close> passes them to the destructor and leaves an empty table.
\<close>

theorem hash_iteration_complete:
  assumes "hash_wf h"
  shows "\<exists>es. hash_walk h (hash_first h) = ret es \<and> distinct es \<and> set es = set (helems h) \<and>
    length es = unat (hash_size h) \<and> hash_apply h act s = foldl act s es \<and>
    (\<exists>h'. hash_clear h True = (h', es) \<and> hash_wf h' \<and> helems h' = [] \<and> hash_empty h')"
proof -
  have len: "length (buckets h) = unat (bucket_cnt h)" and "0 < unat (bucket_cnt h)"
    and p2: "is_power_of_2 (bucket_cnt h)"
    using assms by (auto simp: hash_wf_def placed_def unat_gt_0)
  then have "it_valid h (hash_first h)" by (simp add: it_valid_def hash_first_def)
  from hash_walk_unvisited [OF len this] have "hash_walk h (hash_first h) = ret (helems h)"
    by (simp add: unvisited_def hash_first_def helems_def)
  moreover have "hash_apply h act s = foldl act s (helems h)"
    using foldl_concat_nth [of "unat (bucket_cnt h)" "buckets h" act s] len by (simp add: hash_apply_def helems_def)
  moreover note hash_clear_wf [OF len p2, of True]
  moreover from this have "hash_empty (fst (hash_clear h True))"
    by (simp add: hash_empty_def hash_wf_def unat_eq_zero)
  ultimately show ?thesis
    using assms by (intro exI [of _ "helems h"]) (auto simp: hash_wf_def hash_size_def prod_eq_iff)
qed

theorem hash_iteration_complete_witness:
  "hash_wf sample_hash \<and> (\<exists>es. hash_walk sample_hash (hash_first sample_hash) = ret es \<and>
     hash_apply sample_hash (+) 0 = foldl (+) 0 es)"
  using hash_iteration_complete [OF sample_hash_ok(1), of "(+)" 0] sample_hash_ok(1) by blast

text \<open>The two byte hashes agree: \<open>hash_string\<close> hashes the bytes before the terminating zero.\<close>

lemma hash_string_loop_bytes:
  "0 \<notin> set s \<Longrightarrow> hash_string_loop a (s @ 0 # rest) = ret (hash_bytes_loop a s)"
  by (induction s arbitrary: a) auto

lemma hash_string_bytes:
  "0 \<notin> set s \<Longrightarrow> hash_string (s @ 0 # rest) = hash_bytes s (length s)"
  by (simp add: hash_string_def hash_bytes_def hash_string_loop_bytes)

lemma hash_int_returns: "hash_int i = ret (hash_bytes_loop FNV_64_BASIS (bytes_le 4 (ucast i)))"
  by (simp add: hash_int_def hash_bytes_def bytes_le_def)

end
