(* ===== verification/Bitmap.thy ===== *)
theory Bitmap
  imports Prelude
begin

unbundle bit_operations_syntax

text \<open>
  The kernel's bitmap, \<open>lib/kernel/bitmap.c\<close>: an array of 64-bit elements that simulates an
  array of bits, with \<open>size_t\<close> indices kept at their width. \<open>bm_bits b\<close> is the sequence of
  bits a bitmap stands for and \<open>bitmap_wf b\<close> says that its elements are enough for them. The
  lemmas show that every operation implements its reading on the sequence; the locale
  \<open>run_allocator\<close> is the contract the allocators built on a bitmap rely on, and
  \<open>bitmap_scan_and_flip\<close> with \<open>bitmap_set_multiple\<close> is interpreted as one.

  What \<open>malloc\<close> returns is an argument of \<open>bitmap_create\<close>.
\<close>

section \<open>Data\<close>

record bitmap =
  bit_cnt :: size_t
  elems :: "u64 list"

definition BITMAP_ERROR :: size_t where
  "BITMAP_ERROR = - 1"

section \<open>Operations\<close>

definition elem_idx :: "size_t \<Rightarrow> size_t" where
  "elem_idx bit_idx = bit_idx div 64"

definition bit_mask :: "size_t \<Rightarrow> u64" where
  "bit_mask bit_idx = push_bit (unat (bit_idx mod 64)) 1"

definition elem_cnt :: "size_t \<Rightarrow> size_t" where
  "elem_cnt n = (n + 64 - 1) div 64"

definition byte_cnt :: "size_t \<Rightarrow> size_t" where
  "byte_cnt n = 8 * elem_cnt n"

definition last_mask :: "bitmap \<Rightarrow> u64" where
  "last_mask b = (let last_bits = bit_cnt b mod 64 in
     if last_bits \<noteq> 0 then push_bit (unat last_bits) 1 - 1 else - 1)"

text \<open>\<open>b->bits[idx] = op (b->bits[idx])\<close>\<close>

definition bitmap_apply :: "bitmap \<Rightarrow> size_t \<Rightarrow> (u64 \<Rightarrow> u64) \<Rightarrow> bitmap exec" where
  "bitmap_apply b idx f =
     (if unat idx < length (elems b)
      then ret (b\<lparr>elems := (elems b)[unat idx := f (elems b ! unat idx)]\<rparr>)
      else fail Out_of_bounds)"

definition bitmap_mark :: "bitmap \<Rightarrow> size_t \<Rightarrow> bitmap exec" where
  "bitmap_mark b i = bitmap_apply b (elem_idx i) (\<lambda>w. w OR bit_mask i)"

definition bitmap_reset :: "bitmap \<Rightarrow> size_t \<Rightarrow> bitmap exec" where
  "bitmap_reset b i = bitmap_apply b (elem_idx i) (\<lambda>w. w AND NOT (bit_mask i))"

definition bitmap_flip :: "bitmap \<Rightarrow> size_t \<Rightarrow> bitmap exec" where
  "bitmap_flip b i = bitmap_apply b (elem_idx i) (\<lambda>w. w XOR bit_mask i)"

definition bitmap_size :: "bitmap \<Rightarrow> size_t" where
  "bitmap_size b = bit_cnt b"

definition bitmap_set :: "bitmap \<Rightarrow> size_t \<Rightarrow> bool \<Rightarrow> bitmap exec" where
  "bitmap_set b i v =
     ASSERT (i < bit_cnt b) (if v then bitmap_mark b i else bitmap_reset b i)"

definition bitmap_test :: "bitmap \<Rightarrow> size_t \<Rightarrow> bool exec" where
  "bitmap_test b i =
     ASSERT (i < bit_cnt b) (
     if unat (elem_idx i) < length (elems b)
     then ret ((elems b ! unat (elem_idx i)) AND bit_mask i \<noteq> 0)
     else fail Out_of_bounds)"

partial_function (option) set_multiple_loop ::
  "bitmap \<Rightarrow> size_t \<Rightarrow> size_t \<Rightarrow> bool \<Rightarrow> size_t \<Rightarrow> bitmap exec" where
  "set_multiple_loop b start cnt v i =
     (if i < cnt then
        bindE (bitmap_set b (start + i) v) (\<lambda>b. set_multiple_loop b start cnt v (i + 1))
      else ret b)"

definition bitmap_set_multiple :: "bitmap \<Rightarrow> size_t \<Rightarrow> size_t \<Rightarrow> bool \<Rightarrow> bitmap exec" where
  "bitmap_set_multiple b start cnt v =
     ASSERT (start \<le> bit_cnt b) (ASSERT (start + cnt \<le> bit_cnt b) (
     set_multiple_loop b start cnt v 0))"

definition bitmap_set_all :: "bitmap \<Rightarrow> bool \<Rightarrow> bitmap exec" where
  "bitmap_set_all b v = bitmap_set_multiple b 0 (bitmap_size b) v"

partial_function (option) count_loop ::
  "bitmap \<Rightarrow> size_t \<Rightarrow> size_t \<Rightarrow> bool \<Rightarrow> size_t \<Rightarrow> size_t \<Rightarrow> size_t exec" where
  "count_loop b start cnt v i n =
     (if i < cnt then
        bindE (bitmap_test b (start + i)) (\<lambda>t.
        count_loop b start cnt v (i + 1) (if t = v then n + 1 else n))
      else ret n)"

definition bitmap_count :: "bitmap \<Rightarrow> size_t \<Rightarrow> size_t \<Rightarrow> bool \<Rightarrow> size_t exec" where
  "bitmap_count b start cnt v =
     ASSERT (start \<le> bit_cnt b) (ASSERT (start + cnt \<le> bit_cnt b) (
     count_loop b start cnt v 0 0))"

partial_function (option) contains_loop ::
  "bitmap \<Rightarrow> size_t \<Rightarrow> size_t \<Rightarrow> bool \<Rightarrow> size_t \<Rightarrow> bool exec" where
  "contains_loop b start cnt v i =
     (if i < cnt then
        bindE (bitmap_test b (start + i)) (\<lambda>t.
        if t = v then ret True else contains_loop b start cnt v (i + 1))
      else ret False)"

definition bitmap_contains :: "bitmap \<Rightarrow> size_t \<Rightarrow> size_t \<Rightarrow> bool \<Rightarrow> bool exec" where
  "bitmap_contains b start cnt v =
     ASSERT (start \<le> bit_cnt b) (ASSERT (start + cnt \<le> bit_cnt b) (
     contains_loop b start cnt v 0))"

definition bitmap_any :: "bitmap \<Rightarrow> size_t \<Rightarrow> size_t \<Rightarrow> bool exec" where
  "bitmap_any b start cnt = bitmap_contains b start cnt True"

definition bitmap_none :: "bitmap \<Rightarrow> size_t \<Rightarrow> size_t \<Rightarrow> bool exec" where
  "bitmap_none b start cnt = bindE (bitmap_contains b start cnt True) (\<lambda>c. ret (\<not> c))"

definition bitmap_all :: "bitmap \<Rightarrow> size_t \<Rightarrow> size_t \<Rightarrow> bool exec" where
  "bitmap_all b start cnt = bindE (bitmap_contains b start cnt False) (\<lambda>c. ret (\<not> c))"

partial_function (option) scan_loop ::
  "bitmap \<Rightarrow> size_t \<Rightarrow> bool \<Rightarrow> size_t \<Rightarrow> size_t \<Rightarrow> size_t exec" where
  "scan_loop b cnt v lst i =
     (if i \<le> lst then
        bindE (bitmap_contains b i cnt (\<not> v)) (\<lambda>c.
        if \<not> c then ret i else scan_loop b cnt v lst (i + 1))
      else ret BITMAP_ERROR)"

definition bitmap_scan :: "bitmap \<Rightarrow> size_t \<Rightarrow> size_t \<Rightarrow> bool \<Rightarrow> size_t exec" where
  "bitmap_scan b start cnt v =
     ASSERT (start \<le> bit_cnt b) (
     if cnt \<le> bit_cnt b then scan_loop b cnt v (bit_cnt b - cnt) start
     else ret BITMAP_ERROR)"

definition bitmap_scan_and_flip ::
  "bitmap \<Rightarrow> size_t \<Rightarrow> size_t \<Rightarrow> bool \<Rightarrow> (size_t \<times> bitmap) exec" where
  "bitmap_scan_and_flip b start cnt v =
     bindE (bitmap_scan b start cnt v) (\<lambda>idx.
     if idx \<noteq> BITMAP_ERROR
     then bindE (bitmap_set_multiple b idx cnt (\<not> v)) (\<lambda>b'. ret (idx, b'))
     else ret (idx, b))"

text \<open>
  \<open>bitmap_create m1 m2 n\<close>: \<open>m1\<close> tells whether \<open>malloc\<close> has room for the header, \<open>m2\<close> is the
  uninitialised block it returns for the elements, if any.
\<close>

definition bitmap_create :: "bool \<Rightarrow> u64 list option \<Rightarrow> size_t \<Rightarrow> bitmap option exec" where
  "bitmap_create m1 m2 n =
     (if \<not> m1 then ret None
      else case m2 of
        Some es \<Rightarrow> bindE (bitmap_set_all \<lparr>bit_cnt = n, elems = es\<rparr> False) (\<lambda>b. ret (Some b))
      | None \<Rightarrow>
          if n = 0 then bindE (bitmap_set_all \<lparr>bit_cnt = n, elems = []\<rparr> False) (\<lambda>b. ret (Some b))
          else ret None)"

definition bitmap_buf_size :: "size_t \<Rightarrow> size_t" where
  "bitmap_buf_size n = 16 + byte_cnt n"

text \<open>\<open>blk\<close> holds the elements that follow the header in the caller's block.\<close>

definition bitmap_create_in_buf :: "size_t \<Rightarrow> u64 list \<Rightarrow> size_t \<Rightarrow> bitmap exec" where
  "bitmap_create_in_buf n blk block_size =
     ASSERT (block_size \<ge> bitmap_buf_size n) (bitmap_set_all \<lparr>bit_cnt = n, elems = blk\<rparr> False)"

definition bitmap_file_size :: "bitmap \<Rightarrow> size_t" where
  "bitmap_file_size b = byte_cnt (bit_cnt b)"

text \<open>
  \<open>rd size\<close> stands for \<open>file_read_at (file, b->bits, size, 0)\<close>: the count it returns and the
  elements after the transfer. \<open>wr\<close> stands for \<open>file_write_at\<close> in the same way.
\<close>

definition bitmap_read :: "(u64 list \<Rightarrow> int \<Rightarrow> int \<times> u64 list) \<Rightarrow> bitmap \<Rightarrow> (bool \<times> bitmap) exec" where
  "bitmap_read rd b =
     (if bit_cnt b > 0 then
        let size = int32 (uint (byte_cnt (bit_cnt b)));
            (n, es) = rd (elems b) size
        in bindE (bitmap_apply (b\<lparr>elems := es\<rparr>) (elem_cnt (bit_cnt b) - 1) (\<lambda>w. w AND last_mask b))
             (\<lambda>b'. ret (n = size, b'))
      else ret (True, b))"

definition bitmap_write :: "(u64 list \<Rightarrow> int \<Rightarrow> int) \<Rightarrow> bitmap \<Rightarrow> bool" where
  "bitmap_write wr b = (let size = int32 (uint (byte_cnt (bit_cnt b))) in wr (elems b) size = size)"

section \<open>The sequence of bits\<close>

definition bm_bit :: "bitmap \<Rightarrow> nat \<Rightarrow> bool" where
  "bm_bit b i = bit (elems b ! (i div 64)) (i mod 64)"

definition bm_bits :: "bitmap \<Rightarrow> bool list" where
  "bm_bits b = map (bm_bit b) [0..<unat (bit_cnt b)]"

definition bitmap_wf :: "bitmap \<Rightarrow> bool" where
  "bitmap_wf b \<longleftrightarrow> unat (bit_cnt b) \<le> 64 * length (elems b) \<and> 64 * length (elems b) < 2 ^ 64"

lemma length_bm_bits [simp]: "length (bm_bits b) = unat (bit_cnt b)"
  by (simp add: bm_bits_def)

lemma nth_bm_bits [simp]: "i < unat (bit_cnt b) \<Longrightarrow> bm_bits b ! i = bm_bit b i"
  by (simp add: bm_bits_def)

lemma unat_elem_idx [simp]: "unat (elem_idx i) = unat i div 64"
  by (simp add: elem_idx_def unat_div)

lemma bit_bit_mask: "bit (bit_mask i) n \<longleftrightarrow> n = unat i mod 64"
proof -
  have "unat i mod 64 < 64" by simp
  then show ?thesis
    by (auto simp: bit_mask_def bit_exp_iff possible_bit_word unat_mod)
qed

lemma and_bit_mask: "w AND bit_mask i \<noteq> 0 \<longleftrightarrow> bit w (unat i mod 64)"
  by (auto simp: bit_eq_iff [of "w AND bit_mask i" 0] bit_and_iff bit_bit_mask dest: bit_imp_le_length)

lemma wf_elem_bound: "bitmap_wf b \<Longrightarrow> i < unat (bit_cnt b) \<Longrightarrow> i div 64 < length (elems b)"
  by (simp add: bitmap_wf_def) linarith

lemma bitmap_test_wf:
  assumes "bitmap_wf b"
  shows "bitmap_test b i = (if i < bit_cnt b then ret (bm_bits b ! unat i) else fail Assert_failed)"
  using wf_elem_bound [OF assms, of "unat i"]
  by (simp add: bitmap_test_def and_bit_mask bm_bit_def word_less_nat_alt)

text \<open>A function on the element that holds bit \<open>i\<close> and changes that bit only.\<close>

lemma bitmap_apply_bit:
  assumes wf: "bitmap_wf b" and i: "i < bit_cnt b"
    and f: "\<And>w n. bit (f w) n = (if n = unat i mod 64 then g (bit w n) else bit w n)"
  shows "\<exists>b'. bitmap_apply b (elem_idx i) f = ret b' \<and> bitmap_wf b' \<and> bit_cnt b' = bit_cnt b \<and>
           bm_bits b' = (bm_bits b)[unat i := g (bm_bits b ! unat i)]"
proof -
  define b' where "b' = b\<lparr>elems := (elems b)[unat i div 64 := f (elems b ! (unat i div 64))]\<rparr>"
  have il: "unat i div 64 < length (elems b)"
    using wf_elem_bound [OF wf] i by (simp add: word_less_nat_alt)
  have "bm_bits b' = (bm_bits b)[unat i := g (bm_bits b ! unat i)]"
  proof (rule nth_equalityI)
    fix j assume "j < length (bm_bits b')"
    then have j: "j < unat (bit_cnt b)" by (simp add: b'_def)
    have "bm_bit b' j = (if j = unat i then g (bm_bit b j) else bm_bit b j)"
    proof (cases "j = unat i")
      case False
      then have "j div 64 \<noteq> unat i div 64 \<or> j mod 64 \<noteq> unat i mod 64" by (metis div_mult_mod_eq)
      with False il f show ?thesis by (auto simp: bm_bit_def b'_def nth_list_update)
    qed (use il f in \<open>simp add: bm_bit_def b'_def\<close>)
    then show "bm_bits b' ! j = (bm_bits b)[unat i := g (bm_bits b ! unat i)] ! j"
      using j i by (simp add: b'_def nth_list_update word_less_nat_alt)
  qed (simp add: b'_def)
  moreover have "bitmap_wf b'" using wf by (simp add: bitmap_wf_def b'_def)
  ultimately show ?thesis using il by (simp add: bitmap_apply_def b'_def)
qed

lemma bit_or_mask: "bit (w OR bit_mask i) n = (if n = unat i mod 64 then True else bit w n)"
  by (simp add: bit_or_iff bit_bit_mask)

lemma bit_xor_mask: "bit (w XOR bit_mask i) n = (if n = unat i mod 64 then \<not> bit w n else bit w n)"
  by (auto simp: bit_xor_iff bit_bit_mask)

lemma bit_and_not_mask: "bit (w AND NOT (bit_mask i)) n = (if n = unat i mod 64 then False else bit w n)"
  by (auto simp: bit_and_iff bit_not_iff bit_bit_mask possible_bit_word dest: bit_imp_le_length)

lemma bitmap_set_wf:
  assumes "bitmap_wf b" and "i < bit_cnt b"
  shows "\<exists>b'. bitmap_set b i v = ret b' \<and> bitmap_wf b' \<and> bit_cnt b' = bit_cnt b \<and>
           bm_bits b' = (bm_bits b)[unat i := v]"
  using bitmap_apply_bit [OF assms, of _ "\<lambda>_. True", OF bit_or_mask]
    bitmap_apply_bit [OF assms, of _ "\<lambda>_. False", OF bit_and_not_mask] assms(2)
  by (cases v) (simp_all add: bitmap_set_def bitmap_mark_def bitmap_reset_def)

lemma bitmap_flip_wf:
  assumes "bitmap_wf b" and "i < bit_cnt b"
  shows "\<exists>b'. bitmap_flip b i = ret b' \<and> bitmap_wf b' \<and> bit_cnt b' = bit_cnt b \<and>
           bm_bits b' = (bm_bits b)[unat i := \<not> bm_bits b ! unat i]"
  using bitmap_apply_bit [OF assms, of _ Not, OF bit_xor_mask] by (simp add: bitmap_flip_def)

text \<open>The loops over a range \<open>start, ..., start + cnt - 1\<close> of bits.\<close>

definition in_range :: "bitmap \<Rightarrow> size_t \<Rightarrow> size_t \<Rightarrow> bool" where
  "in_range b start cnt \<longleftrightarrow> unat start + unat cnt \<le> unat (bit_cnt b)"

lemma in_range_index:
  assumes "in_range b start cnt" and "i < cnt"
  shows "unat (start + i) = unat start + unat i" and "start + i < bit_cnt b"
    and "unat (i + 1) = Suc (unat i)"
proof -
  have lt: "unat start + unat i < unat (bit_cnt b)"
    using assms by (simp add: in_range_def word_less_nat_alt)
  then have "unat start + unat i < 2 ^ 64" using unat_u64_bound [of "bit_cnt b"] by linarith
  then show e: "unat (start + i) = unat start + unat i" by (simp add: unat_word_ariths)
  show "start + i < bit_cnt b" using lt e by (simp add: word_less_nat_alt)
  show "unat (i + 1) = Suc (unat i)" using assms(2) by (rule unat_Suc_less)
qed

lemma in_range_assert:
  assumes "in_range b start cnt"
  shows "start \<le> bit_cnt b" and "start + cnt \<le> bit_cnt b"
proof -
  have "unat start + unat cnt < 2 ^ 64"
    using assms unat_u64_bound [of "bit_cnt b"] by (simp add: in_range_def)
  then have "unat (start + cnt) = unat start + unat cnt" by (simp add: unat_word_ariths)
  then show "start \<le> bit_cnt b" "start + cnt \<le> bit_cnt b"
    using assms by (simp_all add: in_range_def word_le_nat_alt)
qed

definition slice :: "bool list \<Rightarrow> nat \<Rightarrow> nat \<Rightarrow> bool list" where
  "slice xs s n = take n (drop s xs)"

definition fill :: "bool list \<Rightarrow> nat \<Rightarrow> nat \<Rightarrow> bool \<Rightarrow> bool list" where
  "fill xs s n v = take s xs @ replicate n v @ drop (s + n) xs"

lemma nth_fill:
  "s + n \<le> length xs \<Longrightarrow> j < length xs \<Longrightarrow> fill xs s n v ! j = (if s \<le> j \<and> j < s + n then v else xs ! j)"
  by (auto simp: fill_def nth_append min_def)

lemma length_fill [simp]: "s + n \<le> length xs \<Longrightarrow> length (fill xs s n v) = length xs"
  by (simp add: fill_def)

lemma fill_Suc:
  assumes "s + Suc n \<le> length xs"
  shows "(fill xs s n v)[s + n := v] = fill xs s (Suc n) v"
  using assms by (intro nth_equalityI) (auto simp: nth_fill nth_list_update)

lemma slice_step:
  assumes "in_range b start cnt" and "i < cnt"
  shows "slice (bm_bits b) (unat start + unat i) (unat cnt - unat i) =
      bm_bits b ! unat (start + i) # slice (bm_bits b) (unat start + unat (i + 1)) (unat cnt - unat (i + 1))"
proof -
  note ix = in_range_index [OF assms]
  have "unat start + unat i < length (bm_bits b)" using ix by (simp add: word_less_nat_alt)
  moreover have "unat cnt - unat i = Suc (unat cnt - unat (i + 1))"
    using ix(3) assms(2) by (simp add: word_less_nat_alt)
  ultimately show ?thesis
    unfolding slice_def ix(1,3) by (simp add: Cons_nth_drop_Suc [symmetric])
qed

lemma set_multiple_loop_wf:
  assumes "bitmap_wf b" and "in_range b start cnt" and "i \<le> cnt"
    and "bm_bits b = fill xs (unat start) (unat i) v" and "length xs = unat (bit_cnt b)"
  shows "\<exists>b'. set_multiple_loop b start cnt v i = ret b' \<and> bitmap_wf b' \<and> bit_cnt b' = bit_cnt b \<and>
           bm_bits b' = fill xs (unat start) (unat cnt) v"
  using assms
proof (induction "unat cnt - unat i" arbitrary: b i)
  case 0
  then have "\<not> i < cnt" "unat i = unat cnt" by (auto simp: word_less_nat_alt word_le_nat_alt)
  with 0 show ?case by (subst set_multiple_loop.simps) auto
next
  case (Suc k)
  then have lt: "i < cnt" by (simp add: word_less_nat_alt)
  note ix = in_range_index [OF Suc.prems(2) lt]
  obtain b1 where b1: "bitmap_set b (start + i) v = ret b1" "bitmap_wf b1" "bit_cnt b1 = bit_cnt b"
    "bm_bits b1 = (bm_bits b)[unat (start + i) := v]"
    using bitmap_set_wf [OF Suc.prems(1) ix(2)] by blast
  have "bm_bits b1 = fill xs (unat start) (unat (i + 1)) v"
    using b1(4) Suc.prems(4,5) ix fill_Suc [of "unat start" "unat i" xs v] by (simp add: word_less_nat_alt)
  moreover have "in_range b1 start cnt" using Suc.prems(2) b1(3) by (simp add: in_range_def)
  moreover have "i + 1 \<le> cnt" using lt by (rule inc_le)
  ultimately have "\<exists>b'. set_multiple_loop b1 start cnt v (i + 1) = ret b' \<and> bitmap_wf b' \<and>
      bit_cnt b' = bit_cnt b1 \<and> bm_bits b' = fill xs (unat start) (unat cnt) v"
    using Suc.hyps(1) [of "i + 1" b1] Suc.hyps(2) Suc.prems(5) b1 ix(3) by simp
  with b1 lt show ?case by (subst set_multiple_loop.simps) simp
qed

lemma bitmap_set_multiple_wf:
  assumes "bitmap_wf b" and "in_range b start cnt"
  shows "\<exists>b'. bitmap_set_multiple b start cnt v = ret b' \<and> bitmap_wf b' \<and> bit_cnt b' = bit_cnt b \<and>
           bm_bits b' = fill (bm_bits b) (unat start) (unat cnt) v"
  using set_multiple_loop_wf [OF assms, of 0 "bm_bits b" v] in_range_assert [OF assms(2)]
  by (simp add: bitmap_set_multiple_def fill_def)

lemma count_loop_wf:
  assumes "bitmap_wf b" and "in_range b start cnt" and "i \<le> cnt"
  shows "count_loop b start cnt v i n =
     ret (n + of_nat (length (filter (\<lambda>t. t = v) (slice (bm_bits b) (unat start + unat i) (unat cnt - unat i)))))"
  using assms(3)
proof (induction "unat cnt - unat i" arbitrary: i n)
  case 0
  then have "\<not> i < cnt" "unat i = unat cnt" by (auto simp: word_less_nat_alt word_le_nat_alt)
  then show ?case by (subst count_loop.simps) (simp add: slice_def)
next
  case (Suc k)
  then have lt: "i < cnt" by (simp add: word_less_nat_alt)
  note ix = in_range_index [OF assms(2) lt]
  note slice_step [OF assms(2) lt]
  moreover have "bitmap_test b (start + i) = ret (bm_bits b ! unat (start + i))"
    using ix(2) by (simp add: bitmap_test_wf [OF assms(1)])
  moreover have "unat cnt - unat (i + 1) = k" "i + 1 \<le> cnt" using Suc.hyps(2) ix(3) lt by (simp_all add: inc_le)
  ultimately show ?case
    using lt Suc.hyps(1) [of "i + 1"] by (subst count_loop.simps) (simp add: add.assoc)
qed

lemma contains_loop_wf:
  assumes "bitmap_wf b" and "in_range b start cnt" and "i \<le> cnt"
  shows "contains_loop b start cnt v i =
     ret (v \<in> set (slice (bm_bits b) (unat start + unat i) (unat cnt - unat i)))"
  using assms(3)
proof (induction "unat cnt - unat i" arbitrary: i)
  case 0
  then have "\<not> i < cnt" "unat i = unat cnt" by (auto simp: word_less_nat_alt word_le_nat_alt)
  then show ?case by (subst contains_loop.simps) (simp add: slice_def)
next
  case (Suc k)
  then have lt: "i < cnt" by (simp add: word_less_nat_alt)
  note ix = in_range_index [OF assms(2) lt]
  note slice_step [OF assms(2) lt]
  moreover have "bitmap_test b (start + i) = ret (bm_bits b ! unat (start + i))"
    using ix(2) by (simp add: bitmap_test_wf [OF assms(1)])
  moreover have "unat cnt - unat (i + 1) = k" "i + 1 \<le> cnt" using Suc.hyps(2) ix(3) lt by (simp_all add: inc_le)
  ultimately show ?case
    using lt Suc.hyps(1) [of "i + 1"] by (subst contains_loop.simps) auto
qed

lemma bitmap_contains_wf:
  assumes "bitmap_wf b" and "in_range b start cnt"
  shows "bitmap_contains b start cnt v = ret (v \<in> set (slice (bm_bits b) (unat start) (unat cnt)))"
  using contains_loop_wf [OF assms, of 0 v] in_range_assert [OF assms(2)]
  by (simp add: bitmap_contains_def)

lemma bitmap_count_wf:
  assumes "bitmap_wf b" and "in_range b start cnt"
  shows "bitmap_count b start cnt v =
     ret (of_nat (length (filter (\<lambda>t. t = v) (slice (bm_bits b) (unat start) (unat cnt)))))"
  using count_loop_wf [OF assms, of 0 v 0] in_range_assert [OF assms(2)]
  by (simp add: bitmap_count_def)

section \<open>Scanning\<close>

text \<open>\<open>run_at xs v n j\<close>: \<open>n\<close> bits equal to \<open>v\<close> start at \<open>j\<close>. \<open>find_run\<close> is the first such place.\<close>

definition run_at :: "bool list \<Rightarrow> bool \<Rightarrow> nat \<Rightarrow> nat \<Rightarrow> bool" where
  "run_at xs v n j \<longleftrightarrow> (\<not> v) \<notin> set (slice xs j n)"

definition find_run :: "bool list \<Rightarrow> bool \<Rightarrow> nat \<Rightarrow> nat \<Rightarrow> nat option" where
  "find_run xs v n s = (if n \<le> length xs then find (run_at xs v n) [s..<Suc (length xs - n)] else None)"

lemma run_at_iff: "j + n \<le> length xs \<Longrightarrow> run_at xs v n j \<longleftrightarrow> (\<forall>k. j \<le> k \<and> k < j + n \<longrightarrow> xs ! k = v)"
proof -
  assume le: "j + n \<le> length xs"
  have "set (slice xs j n) = {xs ! k | k. j \<le> k \<and> k < j + n}"
  proof (intro set_eqI iffI)
    fix x assume "x \<in> set (slice xs j n)"
    then obtain i where "i < n" "x = xs ! (j + i)" using le by (auto simp: slice_def in_set_conv_nth)
    then show "x \<in> {xs ! k | k. j \<le> k \<and> k < j + n}" by (auto intro!: exI [of _ "j + i"])
  next
    fix x assume "x \<in> {xs ! k | k. j \<le> k \<and> k < j + n}"
    then obtain k where "j \<le> k" "k < j + n" "x = xs ! k" by blast
    then show "x \<in> set (slice xs j n)"
      using le by (auto simp: slice_def in_set_conv_nth intro!: exI [of _ "k - j"])
  qed
  then show ?thesis unfolding run_at_def by auto
qed

lemma find_run_Some:
  assumes "find_run xs v n s = Some j"
  shows "s \<le> j" and "j + n \<le> length xs" and "run_at xs v n j"
    and "\<And>k. s \<le> k \<Longrightarrow> k < j \<Longrightarrow> \<not> run_at xs v n k"
proof -
  have le: "n \<le> length xs" and f: "find (run_at xs v n) [s..<Suc (length xs - n)] = Some j"
    using assms by (auto simp: find_run_def split: if_splits)
  obtain i where i: "i < Suc (length xs - n) - s" "run_at xs v n (s + i)" "j = s + i"
      "\<forall>k<i. \<not> run_at xs v n ([s..<Suc (length xs - n)] ! k)"
    using f by (auto simp: find_Some_iff simp del: upt_Suc)
  show "s \<le> j" "j + n \<le> length xs" "run_at xs v n j" using i le by auto
  fix k assume "s \<le> k" "k < j"
  then show "\<not> run_at xs v n k" using i(1,3) i(4) [rule_format, of "k - s"] by (simp del: upt_Suc)
qed

lemma find_run_None: "find_run xs v n s = None \<Longrightarrow> s \<le> j \<Longrightarrow> j + n \<le> length xs \<Longrightarrow> \<not> run_at xs v n j"
  by (auto simp: find_run_def find_None_iff split: if_splits)

lemma wf_bit_cnt_small: "bitmap_wf b \<Longrightarrow> unat (bit_cnt b) < 2 ^ 64 - 1"
  by (simp add: bitmap_wf_def)

definition scan_result :: "nat option \<Rightarrow> size_t" where
  "scan_result r = (case r of None \<Rightarrow> BITMAP_ERROR | Some j \<Rightarrow> of_nat j)"

lemma scan_loop_wf:
  assumes wf: "bitmap_wf b" and cnt: "cnt \<le> bit_cnt b" and i: "unat i \<le> Suc (unat (bit_cnt b) - unat cnt)"
  shows "scan_loop b cnt v (bit_cnt b - cnt) i =
     ret (scan_result (find (run_at (bm_bits b) v (unat cnt)) [unat i..<Suc (unat (bit_cnt b) - unat cnt)]))"
  using i
proof (induction "Suc (unat (bit_cnt b) - unat cnt) - unat i" arbitrary: i)
  case 0
  have "unat (bit_cnt b - cnt) = unat (bit_cnt b) - unat cnt" using cnt by (simp add: unat_sub)
  then have "\<not> i \<le> bit_cnt b - cnt" using 0 by (simp add: word_le_nat_alt)
  with 0 show ?case by (subst scan_loop.simps) (simp add: scan_result_def)
next
  case (Suc k)
  have sub: "unat (bit_cnt b - cnt) = unat (bit_cnt b) - unat cnt" using cnt by (simp add: unat_sub)
  have le: "i \<le> bit_cnt b - cnt" "unat i + unat cnt \<le> unat (bit_cnt b)"
    using Suc.hyps(2) sub cnt by (simp_all add: word_le_nat_alt)
  then have rg: "in_range b i cnt" by (simp add: in_range_def)
  have "unat i + 1 < 2 ^ 64" using le wf_bit_cnt_small [OF wf] by simp
  then have i1: "unat (i + 1) = Suc (unat i)" by (simp add: unat_word_ariths)
  have split: "[unat i..<Suc (unat (bit_cnt b) - unat cnt)] =
      unat i # [unat (i + 1)..<Suc (unat (bit_cnt b) - unat cnt)]"
    using Suc.hyps(2) i1 by (simp add: upt_rec)
  have IH: "scan_loop b cnt v (bit_cnt b - cnt) (i + 1) =
     ret (scan_result (find (run_at (bm_bits b) v (unat cnt)) [unat (i + 1)..<Suc (unat (bit_cnt b) - unat cnt)]))"
    using Suc.hyps i1 by (intro Suc.hyps(1)) simp_all
  show ?case
    using le(1) IH
    by (subst scan_loop.simps, subst split)
      (simp add: bitmap_contains_wf [OF wf rg] run_at_def scan_result_def)
qed

lemma bitmap_scan_wf:
  assumes wf: "bitmap_wf b" and start: "start \<le> bit_cnt b"
  shows "bitmap_scan b start cnt v = ret (scan_result (find_run (bm_bits b) v (unat cnt) (unat start)))"
proof (cases "cnt \<le> bit_cnt b")
  case True
  show ?thesis
  proof (cases "unat start \<le> Suc (unat (bit_cnt b) - unat cnt)")
    case True
    with scan_loop_wf [OF wf \<open>cnt \<le> bit_cnt b\<close> True, of v] \<open>cnt \<le> bit_cnt b\<close> start show ?thesis
      by (simp add: bitmap_scan_def find_run_def word_le_nat_alt)
  next
    case False
    have "unat (bit_cnt b - cnt) = unat (bit_cnt b) - unat cnt" using \<open>cnt \<le> bit_cnt b\<close> by (simp add: unat_sub)
    with False have "\<not> start \<le> bit_cnt b - cnt" by (simp add: word_le_nat_alt)
    with False start \<open>cnt \<le> bit_cnt b\<close> show ?thesis
      by (simp add: bitmap_scan_def find_run_def word_le_nat_alt scan_result_def scan_loop.simps)
  qed
next
  case False
  with start show ?thesis
    by (simp add: bitmap_scan_def find_run_def word_le_nat_alt scan_result_def)
qed

lemma scan_result_error:
  assumes "bitmap_wf b" and "find_run (bm_bits b) v n s = Some j"
  shows "scan_result (Some j) \<noteq> BITMAP_ERROR" and "unat (scan_result (Some j)) = j"
proof -
  have "j < 2 ^ 64 - 1"
    using find_run_Some [OF assms(2)] wf_bit_cnt_small [OF assms(1)] by simp
  then show u: "unat (scan_result (Some j)) = j" by (simp add: scan_result_def unat_of_nat_u64)
  have "unat BITMAP_ERROR = 2 ^ 64 - 1" by (simp add: BITMAP_ERROR_def unsigned_minus_1_eq_mask mask_eq_exp_minus_1)
  with u \<open>j < 2 ^ 64 - 1\<close> show "scan_result (Some j) \<noteq> BITMAP_ERROR" by auto
qed

lemma bitmap_scan_and_flip_wf:
  assumes wf: "bitmap_wf b" and start: "start \<le> bit_cnt b"
  shows "case find_run (bm_bits b) v (unat cnt) (unat start) of
      None \<Rightarrow> bitmap_scan_and_flip b start cnt v = ret (BITMAP_ERROR, b)
    | Some j \<Rightarrow> (\<exists>b'. bitmap_scan_and_flip b start cnt v = ret (of_nat j, b') \<and> bitmap_wf b' \<and>
        bit_cnt b' = bit_cnt b \<and> bm_bits b' = fill (bm_bits b) j (unat cnt) (\<not> v))"
proof (cases "find_run (bm_bits b) v (unat cnt) (unat start)")
  case None
  then show ?thesis
    using bitmap_scan_wf [OF assms] by (simp add: bitmap_scan_and_flip_def scan_result_def)
next
  case (Some j)
  note sr = scan_result_error [OF wf Some]
  have "in_range b (of_nat j) cnt"
    using find_run_Some [OF Some] sr(2) by (simp add: in_range_def scan_result_def)
  from bitmap_set_multiple_wf [OF wf this, of "\<not> v"] obtain b' where
    "bitmap_set_multiple b (of_nat j) cnt (\<not> v) = ret b'" "bitmap_wf b'" "bit_cnt b' = bit_cnt b"
    "bm_bits b' = fill (bm_bits b) j (unat cnt) (\<not> v)"
    using sr(2) by (auto simp: scan_result_def)
  then show ?thesis
    using Some bitmap_scan_wf [OF assms] sr by (simp add: bitmap_scan_and_flip_def scan_result_def)
qed

section \<open>Creation and storage\<close>

lemma elem_cnt_enough:
  assumes "unat n < 2 ^ 64 - 64"
  shows "unat n \<le> 64 * unat (elem_cnt n)" and "unat (elem_cnt n) = (unat n + 63) div 64"
proof -
  have "unat (n + 63) = unat n + 63" using assms by (simp add: unat_word_ariths)
  moreover have "elem_cnt n = (n + 63) div 64" by (simp add: elem_cnt_def add.commute)
  ultimately show "unat (elem_cnt n) = (unat n + 63) div 64" by (simp only: unat_div) simp
  then show "unat n \<le> 64 * unat (elem_cnt n)" by linarith
qed

lemma bitmap_set_all_wf:
  assumes "bitmap_wf b"
  shows "\<exists>b'. bitmap_set_all b v = ret b' \<and> bitmap_wf b' \<and> bit_cnt b' = bit_cnt b \<and>
           bm_bits b' = replicate (unat (bit_cnt b)) v"
proof -
  have "in_range b 0 (bit_cnt b)" by (simp add: in_range_def)
  from bitmap_set_multiple_wf [OF assms this, of v] show ?thesis
    by (auto simp: bitmap_set_all_def bitmap_size_def fill_def)
qed

lemma bitmap_create_wf:
  assumes "unat n < 2 ^ 64 - 64" and "length es = unat (elem_cnt n)"
  shows "\<exists>b. bitmap_create True (Some es) n = ret (Some b) \<and> bitmap_wf b \<and> bit_cnt b = n \<and>
           bm_bits b = replicate (unat n) False"
proof -
  have "bitmap_wf \<lparr>bit_cnt = n, elems = es\<rparr>"
    using elem_cnt_enough [OF assms(1)] assms by (simp add: bitmap_wf_def)
  from bitmap_set_all_wf [OF this, of False] show ?thesis by (auto simp: bitmap_create_def)
qed

section \<open>Allocating runs\<close>

text \<open>
  The contract of an allocator of runs of consecutive slots, as the page allocator, the swap
  table and the free map use a bitmap: \<open>used s\<close> is the set of slots that are taken.
\<close>

definition slots :: "nat \<times> size_t \<Rightarrow> nat set" where
  "slots p = {fst p..<fst p + unat (snd p)}"

fun disjoint_blocks :: "(nat \<times> size_t) list \<Rightarrow> bool" where
  "disjoint_blocks [] = True"
| "disjoint_blocks (p # ps) = ((\<forall>q \<in> set ps. slots p \<inter> slots q = {}) \<and> disjoint_blocks ps)"

lemma disjoint_blocks_remove1:
  assumes "disjoint_blocks ps" and "p \<in> set ps"
  shows "disjoint_blocks (remove1 p ps)" and "(\<Union>q \<in> set (remove1 p ps). slots q) = (\<Union>q \<in> set ps. slots q) - slots p"
  using assms
proof (induction ps)
  case (Cons a ps)
  {
    case 1
    then show ?case using Cons.IH(1) by (auto dest: notin_set_remove1 [of _ _ p, THEN contrapos_nn])
  next
    case 2
    then show ?case using Cons.IH(2) by (cases "a = p") auto
  }
qed simp_all

datatype request = Get size_t | Give nat size_t

text \<open>
  A client's history over the pair of the allocator and the blocks the client holds. It gives
  back only what it holds.
\<close>

fun serve :: "(size_t \<Rightarrow> 's \<Rightarrow> (nat option \<times> 's) exec) \<Rightarrow> (nat \<Rightarrow> size_t \<Rightarrow> 's \<Rightarrow> 's exec) \<Rightarrow>
    's \<Rightarrow> (nat \<times> size_t) list \<Rightarrow> request list \<Rightarrow> ('s \<times> (nat \<times> size_t) list) exec" where
  "serve get giv s held [] = ret (s, held)"
| "serve get giv s held (Get n # rs) =
     bindE (get n s) (\<lambda>(r, s). serve get giv s (case r of None \<Rightarrow> held | Some i \<Rightarrow> (i, n) # held) rs)"
| "serve get giv s held (Give i n # rs) =
     (if (i, n) \<in> set held
      then bindE (giv i n s) (\<lambda>s. serve get giv s (remove1 (i, n) held) rs)
      else serve get giv s held rs)"

locale run_allocator =
  fixes inv :: "'s \<Rightarrow> bool" and slot_cnt :: "'s \<Rightarrow> nat" and used :: "'s \<Rightarrow> nat set"
    and get :: "size_t \<Rightarrow> 's \<Rightarrow> (nat option \<times> 's) exec"
    and giv :: "nat \<Rightarrow> size_t \<Rightarrow> 's \<Rightarrow> 's exec"
  assumes get_total: "inv s \<Longrightarrow> returns (get n s)"
    and get_some: "inv s \<Longrightarrow> get n s = ret (Some i, s') \<Longrightarrow>
      inv s' \<and> slot_cnt s' = slot_cnt s \<and> i + unat n \<le> slot_cnt s \<and> slots (i, n) \<inter> used s = {} \<and>
      used s' = used s \<union> slots (i, n)"
    and get_none: "inv s \<Longrightarrow> get n s = ret (None, s') \<Longrightarrow>
      s' = s \<and> (\<forall>i. i + unat n \<le> slot_cnt s \<longrightarrow> slots (i, n) \<inter> used s \<noteq> {})"
    and giv_ok: "inv s \<Longrightarrow> i + unat n \<le> slot_cnt s \<Longrightarrow>
      \<exists>s'. giv i n s = ret s' \<and> inv s' \<and> slot_cnt s' = slot_cnt s \<and> used s' = used s - slots (i, n)"
begin

definition sound :: "'s \<Rightarrow> (nat \<times> size_t) list \<Rightarrow> bool" where
  "sound s held \<longleftrightarrow> inv s \<and> disjoint_blocks held \<and> used s = (\<Union>p \<in> set held. slots p) \<and>
     (\<forall>p \<in> set held. fst p + unat (snd p) \<le> slot_cnt s)"

lemma sound_get:
  assumes "sound s held"
  shows "\<exists>r s'. get n s = ret (r, s') \<and> sound s' (case r of None \<Rightarrow> held | Some i \<Rightarrow> (i, n) # held)"
proof -
  have inv: "inv s" using assms by (simp add: sound_def)
  from get_total [OF inv, of n] obtain r s' where g: "get n s = ret (r, s')" by auto
  show ?thesis
  proof (cases r)
    case None
    then show ?thesis using g get_none [OF inv, of n s'] assms by auto
  next
    case (Some i)
    then show ?thesis using g get_some [OF inv, of n i s'] assms by (auto simp: sound_def)
  qed
qed

lemma sound_give:
  assumes "sound s held" and "(i, n) \<in> set held"
  shows "\<exists>s'. giv i n s = ret s' \<and> sound s' (remove1 (i, n) held)"
proof -
  have "i + unat n \<le> slot_cnt s" and inv: "inv s" using assms by (force simp: sound_def)+
  from giv_ok [OF inv this(1)] obtain s' where
    "giv i n s = ret s'" "inv s'" "slot_cnt s' = slot_cnt s" "used s' = used s - slots (i, n)" by blast
  then show ?thesis
    using assms disjoint_blocks_remove1 [of held "(i, n)"]
    by (auto simp: sound_def dest: notin_set_remove1 [THEN contrapos_nn])
qed

lemma serve_sound:
  assumes "sound s held"
  shows "\<exists>s' held'. serve get giv s held rs = ret (s', held') \<and> sound s' held'"
  using assms
proof (induction rs arbitrary: s held)
  case (Cons r rs)
  show ?case
  proof (cases r)
    case (Get n)
    with sound_get [OF Cons.prems, of n] Cons.IH show ?thesis by fastforce
  next
    case (Give i n)
    show ?thesis
    proof (cases "(i, n) \<in> set held")
      case True
      with sound_give [OF Cons.prems True] Cons.IH Give show ?thesis by fastforce
    qed (use Give Cons in simp)
  qed
qed simp

lemma serve_slot_cnt:
  "sound s held \<Longrightarrow> serve get giv s held rs = ret (s', held') \<Longrightarrow> slot_cnt s' = slot_cnt s"
proof (induction rs arbitrary: s held)
  case (Cons r rs)
  note inv = Cons.prems(1) [unfolded sound_def, THEN conjunct1]
  show ?case
  proof (cases r)
    case (Get n)
    obtain x t where g: "get n s = ret (x, t)" "sound t (case x of None \<Rightarrow> held | Some i \<Rightarrow> (i, n) # held)"
      using sound_get [OF Cons.prems(1)] by blast
    moreover have "slot_cnt t = slot_cnt s"
      using g(1) get_some [OF inv] get_none [OF inv] by (cases x) blast+
    ultimately show ?thesis using Cons.IH [OF g(2)] Cons.prems(2) Get by simp
  next
    case (Give i n)
    show ?thesis
    proof (cases "(i, n) \<in> set held")
      case True
      with Cons.prems(1) have "i + unat n \<le> slot_cnt s" by (force simp: sound_def)
      from giv_ok [OF inv this] sound_give [OF Cons.prems(1) True] obtain t where
        "giv i n s = ret t" "sound t (remove1 (i, n) held)" "slot_cnt t = slot_cnt s" by auto
      then show ?thesis using Cons.IH [of t] Cons.prems(2) Give True by simp
    qed (use Give Cons in simp)
  qed
qed simp

end

text \<open>The bitmap as such an allocator: a set bit is a slot in use.\<close>

definition bm_get :: "size_t \<Rightarrow> bitmap \<Rightarrow> (nat option \<times> bitmap) exec" where
  "bm_get n b = bindE (bitmap_scan_and_flip b 0 n False) (\<lambda>(i, b').
     ret (if i = BITMAP_ERROR then None else Some (unat i), b'))"

definition bm_give :: "nat \<Rightarrow> size_t \<Rightarrow> bitmap \<Rightarrow> bitmap exec" where
  "bm_give i n b = bitmap_set_multiple b (of_nat i) n False"

definition bm_used :: "bitmap \<Rightarrow> nat set" where
  "bm_used b = {i. i < unat (bit_cnt b) \<and> bm_bits b ! i}"

lemma bm_get_cases:
  assumes wf: "bitmap_wf b"
  obtains i b' where "bm_get n b = ret (Some i, b')" "find_run (bm_bits b) False (unat n) 0 = Some i"
      "bitmap_wf b'" "bit_cnt b' = bit_cnt b" "bm_bits b' = fill (bm_bits b) i (unat n) True"
  | "bm_get n b = ret (None, b)" "find_run (bm_bits b) False (unat n) 0 = None"
proof (cases "find_run (bm_bits b) False (unat n) 0")
  case None
  with bitmap_scan_and_flip_wf [OF wf, of 0 n False] that(2) show thesis by (simp add: bm_get_def)
next
  case (Some i)
  note sr = scan_result_error [OF wf Some]
  from bitmap_scan_and_flip_wf [OF wf, of 0 n False] Some obtain b' where
    "bitmap_scan_and_flip b 0 n False = ret (of_nat i, b')" "bitmap_wf b'" "bit_cnt b' = bit_cnt b"
    "bm_bits b' = fill (bm_bits b) i (unat n) True" by auto
  with Some sr that(1) [of i b'] show thesis by (simp add: bm_get_def scan_result_def)
qed

lemma free_run_iff:
  "i + unat n \<le> unat (bit_cnt b) \<Longrightarrow>
     run_at (bm_bits b) False (unat n) i \<longleftrightarrow> slots (i, n) \<inter> bm_used b = {}"
  by (auto simp: run_at_iff slots_def bm_used_def)

interpretation bm: run_allocator bitmap_wf "\<lambda>b. unat (bit_cnt b)" bm_used bm_get bm_give
proof
  fix b n assume wf: "bitmap_wf b"
  show "returns (bm_get n b)" using bm_get_cases [OF wf, of n] by metis
next
  fix b n i b' assume wf: "bitmap_wf b" and g: "bm_get n b = ret (Some i, b')"
  have *: "find_run (bm_bits b) False (unat n) 0 = Some i" "bitmap_wf b'" "bit_cnt b' = bit_cnt b"
      "bm_bits b' = fill (bm_bits b) i (unat n) True"
    using bm_get_cases [OF wf, of n] g by (metis Inr_inject Pair_inject option.inject option.distinct(1))+
  note fr = find_run_Some [OF *(1)]
  have "bm_used b' = bm_used b \<union> slots (i, n)"
    using fr(2) *(3,4) by (auto simp: bm_used_def nth_fill slots_def)
  then show "bitmap_wf b' \<and> unat (bit_cnt b') = unat (bit_cnt b) \<and> i + unat n \<le> unat (bit_cnt b) \<and>
      slots (i, n) \<inter> bm_used b = {} \<and> bm_used b' = bm_used b \<union> slots (i, n)"
    using * fr free_run_iff [of i n b] by simp
next
  fix b n b' assume wf: "bitmap_wf b" and g: "bm_get n b = ret (None, b')"
  have *: "b' = b" "find_run (bm_bits b) False (unat n) 0 = None"
    using bm_get_cases [OF wf, of n] g by (metis Inr_inject Pair_inject option.inject option.distinct(1))+
  then show "b' = b \<and> (\<forall>i. i + unat n \<le> unat (bit_cnt b) \<longrightarrow> slots (i, n) \<inter> bm_used b \<noteq> {})"
    using find_run_None [OF *(2)] free_run_iff by auto
next
  fix b i n assume wf: "bitmap_wf b" and le: "i + unat (n :: size_t) \<le> unat (bit_cnt b)"
  have i: "unat (of_nat i :: size_t) = i" using le unat_u64_bound [of "bit_cnt b"] by (intro unat_of_nat_u64) linarith
  have rg: "in_range b (of_nat i) n" using le i by (simp add: in_range_def)
  from bitmap_set_multiple_wf [OF wf rg, of False] i obtain b' where
    "bm_give i n b = ret b'" "bitmap_wf b'" "bit_cnt b' = bit_cnt b" "bm_bits b' = fill (bm_bits b) i (unat n) False"
    by (auto simp: bm_give_def)
  moreover from this le have "bm_used b' = bm_used b - slots (i, n)"
    by (auto simp: bm_used_def nth_fill slots_def split: if_splits)
  ultimately show "\<exists>b'. bm_give i n b = ret b' \<and> bitmap_wf b' \<and> unat (bit_cnt b') = unat (bit_cnt b) \<and>
      bm_used b' = bm_used b - slots (i, n)" by auto
qed

section \<open>Properties\<close>

text \<open>
  On a well-formed bitmap \<open>bitmap_test\<close> reads, \<open>bitmap_set\<close>, \<open>bitmap_flip\<close> and
  \<open>bitmap_set_multiple\<close> write exactly the named bits, every other bit and the size stay as they
  are, no access leaves the array, and an index out of range stops in the assertion.
\<close>

theorem bitmap_ops_refine:
  assumes wf: "bitmap_wf b"
  shows "(if unat i < unat (bit_cnt b)
     then bitmap_test b i = ret (bm_bits b ! unat i) \<and>
       (\<exists>b'. bitmap_set b i v = ret b' \<and> bitmap_wf b' \<and> bm_bits b' = (bm_bits b)[unat i := v]) \<and>
       (\<exists>b'. bitmap_flip b i = ret b' \<and> bitmap_wf b' \<and> bm_bits b' = (bm_bits b)[unat i := \<not> bm_bits b ! unat i])
     else bitmap_test b i = fail Assert_failed \<and> bitmap_set b i v = fail Assert_failed) \<and>
    (unat i + unat n \<le> unat (bit_cnt b) \<longrightarrow>
      (\<exists>b'. bitmap_set_multiple b i n v = ret b' \<and> bitmap_wf b' \<and> bm_bits b' = fill (bm_bits b) (unat i) (unat n) v))"
proof (intro conjI impI)
  have "bitmap_test b i = (if unat i < unat (bit_cnt b) then ret (bm_bits b ! unat i) else fail Assert_failed)"
    using bitmap_test_wf [OF wf] by (simp add: word_less_nat_alt)
  moreover have "\<not> unat i < unat (bit_cnt b) \<Longrightarrow> bitmap_set b i v = fail Assert_failed"
    by (simp add: bitmap_set_def word_less_nat_alt)
  moreover have "unat i < unat (bit_cnt b) \<Longrightarrow>
      \<exists>b'. bitmap_set b i v = ret b' \<and> bitmap_wf b' \<and> bm_bits b' = (bm_bits b)[unat i := v]"
    using bitmap_set_wf [OF wf, of i v] by (auto simp: word_less_nat_alt)
  moreover have "unat i < unat (bit_cnt b) \<Longrightarrow>
      \<exists>b'. bitmap_flip b i = ret b' \<and> bitmap_wf b' \<and> bm_bits b' = (bm_bits b)[unat i := \<not> bm_bits b ! unat i]"
    using bitmap_flip_wf [OF wf, of i] by (auto simp: word_less_nat_alt)
  ultimately show "if unat i < unat (bit_cnt b)
     then bitmap_test b i = ret (bm_bits b ! unat i) \<and>
       (\<exists>b'. bitmap_set b i v = ret b' \<and> bitmap_wf b' \<and> bm_bits b' = (bm_bits b)[unat i := v]) \<and>
       (\<exists>b'. bitmap_flip b i = ret b' \<and> bitmap_wf b' \<and> bm_bits b' = (bm_bits b)[unat i := \<not> bm_bits b ! unat i])
     else bitmap_test b i = fail Assert_failed \<and> bitmap_set b i v = fail Assert_failed" by simp
  show "\<exists>b'. bitmap_set_multiple b i n v = ret b' \<and> bitmap_wf b' \<and> bm_bits b' = fill (bm_bits b) (unat i) (unat n) v"
    if "unat i + unat n \<le> unat (bit_cnt b)"
    using bitmap_set_multiple_wf [OF wf, of i n v] that by (auto simp: in_range_def)
qed

definition sample_bitmap :: bitmap where
  "sample_bitmap = \<lparr>bit_cnt = 70, elems = [5, 0]\<rparr>"

lemma sample_bitmap_wf: "bitmap_wf sample_bitmap"
  by (simp add: bitmap_wf_def sample_bitmap_def)

theorem bitmap_ops_refine_witness:
  "bitmap_wf sample_bitmap \<and> bitmap_test sample_bitmap 2 = ret True \<and>
   bitmap_set sample_bitmap 70 True = fail Assert_failed \<and>
   (\<exists>b'. bitmap_set sample_bitmap 69 True = ret b' \<and> bm_bits b' = (bm_bits sample_bitmap)[69 := True])"
  using bitmap_ops_refine [OF sample_bitmap_wf, of 2 True 0] bitmap_ops_refine [OF sample_bitmap_wf, of 70 True 0]
    bitmap_ops_refine [OF sample_bitmap_wf, of 69 True 0] sample_bitmap_wf
  by (auto simp: sample_bitmap_def bm_bit_def bit_numeral_rec)

text \<open>
  \<open>bitmap_scan\<close> terminates and is a first-fit search: it returns the least index from
  \<open>start\<close> on at which \<open>cnt\<close> consecutive bits equal \<open>value\<close>, and \<open>BITMAP_ERROR\<close> exactly when the
  bitmap has no such run; \<open>bitmap_scan_and_flip\<close> returns the same index and inverts that run and
  nothing else. (For \<open>cnt = 0\<close> this index is \<open>start\<close>.)
\<close>

theorem bitmap_scan_first_fit:
  assumes wf: "bitmap_wf b" and start: "start \<le> bit_cnt b"
  shows "\<exists>r b'. bitmap_scan b start cnt v = ret r \<and> bitmap_scan_and_flip b start cnt v = ret (r, b') \<and>
    (if r = BITMAP_ERROR
     then b' = b \<and> (\<forall>j. unat start \<le> j \<and> j + unat cnt \<le> unat (bit_cnt b) \<longrightarrow>
            \<not> run_at (bm_bits b) v (unat cnt) j)
     else start \<le> r \<and> unat r + unat cnt \<le> unat (bit_cnt b) \<and> run_at (bm_bits b) v (unat cnt) (unat r) \<and>
          (\<forall>j. unat start \<le> j \<and> j < unat r \<longrightarrow> \<not> run_at (bm_bits b) v (unat cnt) j) \<and>
          bitmap_wf b' \<and> bm_bits b' = fill (bm_bits b) (unat r) (unat cnt) (\<not> v))"
proof (cases "find_run (bm_bits b) v (unat cnt) (unat start)")
  case None
  then show ?thesis
    using bitmap_scan_wf [OF assms, of cnt v] bitmap_scan_and_flip_wf [OF assms, of cnt v] find_run_None [OF None]
    by (simp add: scan_result_def)
next
  case (Some j)
  note fr = find_run_Some [OF Some] and sr = scan_result_error [OF wf Some]
  from bitmap_scan_and_flip_wf [OF assms, of cnt v] Some obtain b' where
    "bitmap_scan_and_flip b start cnt v = ret (of_nat j, b')" "bitmap_wf b'"
    "bm_bits b' = fill (bm_bits b) j (unat cnt) (\<not> v)" by auto
  then show ?thesis
    using bitmap_scan_wf [OF assms, of cnt v] Some fr sr
    by (intro exI [of _ "of_nat j"] exI [of _ b']) (simp add: scan_result_def word_le_nat_alt)
qed

theorem bitmap_scan_first_fit_witness:
  "bitmap_wf sample_bitmap \<and> (0 :: size_t) \<le> bit_cnt sample_bitmap \<and>
   (\<exists>r b'. bitmap_scan_and_flip sample_bitmap 0 60 False = ret (r, b'))"
  using bitmap_scan_first_fit [OF sample_bitmap_wf, of 0 60 False] sample_bitmap_wf by auto

text \<open>
  C18. Over any history of \<open>bitmap_scan_and_flip\<close> requests and matching \<open>bitmap_set_multiple\<close>
  releases on a bitmap made by \<open>bitmap_create\<close>, no call faults or loops, the runs a client holds
  are pairwise disjoint and inside the bitmap, and the set bits are exactly the runs held.
\<close>

theorem bitmap_allocations_disjoint:
  assumes "unat n < 2 ^ 64 - 64" and "length es = unat (elem_cnt n)"
  shows "\<exists>b b' held. bitmap_create True (Some es) n = ret (Some b) \<and>
    serve bm_get bm_give b [] rs = ret (b', held) \<and> disjoint_blocks held \<and>
    bm_used b' = (\<Union>p \<in> set held. slots p) \<and> (\<forall>p \<in> set held. fst p + unat (snd p) \<le> unat n)"
proof -
  from bitmap_create_wf [OF assms] obtain b where
    b: "bitmap_create True (Some es) n = ret (Some b)" "bitmap_wf b" "bit_cnt b = n"
      "bm_bits b = replicate (unat n) False" by blast
  have "bm_used b = {}" using b by (auto simp: bm_used_def simp del: nth_bm_bits)
  then have "bm.sound b []" using b by (simp add: bm.sound_def)
  from bm.serve_sound [OF this, of rs] obtain b' held where
    s: "serve bm_get bm_give b [] rs = ret (b', held)" "bm.sound b' held" by blast
  have "unat (bit_cnt b') = unat n" using bm.serve_slot_cnt [OF \<open>bm.sound b []\<close> s(1)] b(3) by simp
  with b s show ?thesis by (auto simp: bm.sound_def)
qed

theorem bitmap_allocations_disjoint_witness:
  "\<exists>b b' held. bitmap_create True (Some [7, 7]) 100 = ret (Some b) \<and>
    serve bm_get bm_give b [] [Get 3, Get 90, Get 8, Give 0 3, Get 2] = ret (b', held) \<and> disjoint_blocks held"
proof -
  have "unat (100 :: size_t) < 2 ^ 64 - 64" "length [7 :: u64, 7] = unat (elem_cnt 100)"
    by (simp_all add: elem_cnt_def)
  from bitmap_allocations_disjoint [OF this, of "[Get 3, Get 90, Get 8, Give 0 3, Get 2]"] show ?thesis by blast
qed

text \<open>
  The comment on \<open>bitmap_scan_and_flip\<close> says that it returns 0 when \<open>cnt\<close> is 0. It returns
  \<open>start\<close>, and changes nothing.
\<close>

lemma bitmap_scan_and_flip_zero:
  assumes "bitmap_wf b" and "start \<le> bit_cnt b"
  shows "bitmap_scan_and_flip b start 0 v = ret (start, b)"
proof -
  have "bitmap_contains b start 0 (\<not> v) = ret False"
    using assms by (subst bitmap_contains_wf) (simp_all add: in_range_def word_le_nat_alt slice_def)
  moreover have "start \<noteq> BITMAP_ERROR"
    using assms wf_bit_cnt_small [OF assms(1)]
    by (auto simp: word_le_nat_alt BITMAP_ERROR_def unsigned_minus_1_eq_mask mask_eq_exp_minus_1)
  ultimately show ?thesis
    using assms(2)
    by (simp add: bitmap_scan_and_flip_def bitmap_scan_def scan_loop.simps [of b 0]
        bitmap_set_multiple_def set_multiple_loop.simps)
qed

end
