(* ===== verification/Palloc.thy ===== *)
theory Palloc
  imports Bitmap
begin

unbundle bit_operations_syntax

text \<open>
  The page allocator, \<open>threads/palloc.c\<close>, with the address arithmetic of \<open>include/threads/vaddr.h\<close>. A pool is a
  bitmap of used pages and a base address. Memory is a function from the addresses of 8-byte cells to
  their contents; a block is filled cell by cell. The lock of a pool is held only around calls that do
  not sleep, so that it has no effect on the state. The lemmas show that the pages handed out are
  free, inside the pool, aligned and, on request, zero, that no other memory changes, and that
  giving a page back makes it free again.
\<close>

section \<open>Addresses\<close>

definition PGSIZE :: u64 where "PGSIZE = 4096"
definition PGMASK :: u64 where "PGMASK = 0xFFF"
definition KERN_BASE :: u64 where "KERN_BASE = 0x8004000000"

definition pg_ofs :: "ptr \<Rightarrow> u64" where "pg_ofs va = va AND PGMASK"
definition pg_no :: "ptr \<Rightarrow> u64" where "pg_no va = drop_bit 12 va"
definition pg_round_up :: "ptr \<Rightarrow> ptr" where "pg_round_up va = (va + PGSIZE - 1) AND NOT PGMASK"
definition pg_round_down :: "ptr \<Rightarrow> ptr" where "pg_round_down va = va AND NOT PGMASK"
definition is_kernel_vaddr :: "ptr \<Rightarrow> bool" where "is_kernel_vaddr va \<longleftrightarrow> va \<ge> KERN_BASE"
definition is_user_vaddr :: "ptr \<Rightarrow> bool" where "is_user_vaddr va \<longleftrightarrow> \<not> is_kernel_vaddr va"
definition ptov :: "u64 \<Rightarrow> ptr" where "ptov pa = pa + KERN_BASE"
definition vtop :: "ptr \<Rightarrow> u64 exec" where "vtop va = ASSERT (is_kernel_vaddr va) (ret (va - KERN_BASE))"

section \<open>Pools\<close>

record pool =
  used_map :: bitmap
  pool_base :: ptr

record phys =
  kernel_pool :: pool
  user_pool :: pool
  cells :: "ptr \<Rightarrow> u64"

definition PAL_ASSERT :: u32 where "PAL_ASSERT = 1"
definition PAL_ZERO :: u32 where "PAL_ZERO = 2"
definition PAL_USER :: u32 where "PAL_USER = 4"

text \<open>\<open>memset\<close> of a block of pages: every cell gets the same value.\<close>

definition fill_cells :: "(ptr \<Rightarrow> u64) \<Rightarrow> ptr \<Rightarrow> u64 \<Rightarrow> u64 \<Rightarrow> ptr \<Rightarrow> u64" where
  "fill_cells m p n v = (\<lambda>a. if a - p < n then v else m a)"

definition page_from_pool :: "pool \<Rightarrow> ptr \<Rightarrow> bool" where
  "page_from_pool p page =
     (let page_no = pg_no page; start_page = pg_no (pool_base p); end_page = start_page + bitmap_size (used_map p)
      in page_no \<ge> start_page \<and> page_no < end_page)"

definition palloc_get_multiple :: "phys \<Rightarrow> u32 \<Rightarrow> size_t \<Rightarrow> (ptr \<times> phys) exec" where
  "palloc_get_multiple s flags page_cnt =
     (let user = (flags AND PAL_USER \<noteq> 0); p = (if user then user_pool s else kernel_pool s) in
      bindE (bitmap_scan_and_flip (used_map p) 0 page_cnt False) (\<lambda>(page_idx, bm).
      let p = p\<lparr>used_map := bm\<rparr>;
          s = (if user then s\<lparr>user_pool := p\<rparr> else s\<lparr>kernel_pool := p\<rparr>);
          pages = (if page_idx \<noteq> BITMAP_ERROR then pool_base p + PGSIZE * page_idx else NULL) in
      if pages \<noteq> NULL then
        ret (pages, if flags AND PAL_ZERO \<noteq> 0 then s\<lparr>cells := fill_cells (cells s) pages (PGSIZE * page_cnt) 0\<rparr> else s)
      else if flags AND PAL_ASSERT \<noteq> 0 then fail Panicked
      else ret (NULL, s)))"

definition palloc_get_page :: "phys \<Rightarrow> u32 \<Rightarrow> (ptr \<times> phys) exec" where
  "palloc_get_page s flags = palloc_get_multiple s flags 1"

text \<open>\<open>NOT_REACHED\<close> panics. Freed memory is filled with the byte \<open>0xcc\<close>.\<close>

definition palloc_free_multiple :: "phys \<Rightarrow> ptr \<Rightarrow> size_t \<Rightarrow> phys exec" where
  "palloc_free_multiple s pages page_cnt =
     ASSERT (pg_ofs pages = 0) (
     if pages = NULL \<or> page_cnt = 0 then ret s
     else
       let kern = page_from_pool (kernel_pool s) pages; p = (if kern then kernel_pool s else user_pool s) in
       if \<not> kern \<and> \<not> page_from_pool (user_pool s) pages then fail Panicked
       else
         let page_idx = pg_no pages - pg_no (pool_base p);
             s = s\<lparr>cells := fill_cells (cells s) pages (PGSIZE * page_cnt) 0xcccccccccccccccc\<rparr> in
         bindE (bitmap_all (used_map p) page_idx page_cnt) (\<lambda>a.
         ASSERT a (
         bindE (bitmap_set_multiple (used_map p) page_idx page_cnt False) (\<lambda>bm.
         let p = p\<lparr>used_map := bm\<rparr> in
         ret (if kern then s\<lparr>kernel_pool := p\<rparr> else s\<lparr>user_pool := p\<rparr>)))))"

definition palloc_free_page :: "phys \<Rightarrow> ptr \<Rightarrow> phys exec" where
  "palloc_free_page s page = palloc_free_multiple s page 1"

section \<open>Setting up the pools\<close>

text \<open>The memory map of the boot loader, and what the kernel reads from it.\<close>

record e820_entry =
  mem_lo :: u32
  mem_hi :: u32
  len_lo :: u32
  len_hi :: u32
  e_type :: u32

record area =
  a_start :: u64
  a_end :: u64
  a_size :: u64

definition BASE_MEM_THRESHOLD :: u64 where "BASE_MEM_THRESHOLD = 0x100000"
definition USABLE :: u32 where "USABLE = 1"
definition ACPI_RECLAIMABLE :: u32 where "ACPI_RECLAIMABLE = 3"

definition APPEND_HILO :: "u32 \<Rightarrow> u32 \<Rightarrow> u64" where
  "APPEND_HILO hi lo = push_bit 32 (ucast hi) + ucast lo"

definition usable :: "e820_entry \<Rightarrow> bool" where
  "usable e \<longleftrightarrow> e_type e = ACPI_RECLAIMABLE \<or> e_type e = USABLE"

definition extend_area :: "area \<Rightarrow> u64 \<Rightarrow> u64 \<Rightarrow> area" where
  "extend_area a start sz =
     (let stop = start + sz in
      if a_size a = 0 then \<lparr>a_start = start, a_end = stop, a_size = sz\<rparr>
      else \<lparr>a_start = (if a_start a > start then start else a_start a),
            a_end = (if a_end a < stop then stop else a_end a), a_size = a_size a + sz\<rparr>)"

fun resolve_area_info :: "e820_entry list \<Rightarrow> area \<Rightarrow> area \<Rightarrow> area \<times> area" where
  "resolve_area_info [] base_mem ext_mem = (base_mem, ext_mem)"
| "resolve_area_info (e # es) base_mem ext_mem =
     (if usable e then
        let start = APPEND_HILO (mem_hi e) (mem_lo e); sz = APPEND_HILO (len_hi e) (len_lo e) in
        if start < BASE_MEM_THRESHOLD then resolve_area_info es (extend_area base_mem start sz) ext_mem
        else resolve_area_info es base_mem (extend_area ext_mem start sz)
      else resolve_area_info es base_mem ext_mem)"

text \<open>\<open>blk\<close>: the elements of the bitmap that is placed at \<open>bm_base\<close>.\<close>

definition init_pool :: "u64 list \<Rightarrow> ptr \<Rightarrow> u64 \<Rightarrow> u64 \<Rightarrow> (pool \<times> ptr) exec" where
  "init_pool blk bm_base start stop =
     (let pgcnt = (stop - start) div PGSIZE;
          bm_pages = (bitmap_buf_size pgcnt + PGSIZE - 1) div PGSIZE * PGSIZE in
      bindE (bitmap_create_in_buf pgcnt blk bm_pages) (\<lambda>bm.
      bindE (bitmap_set_all bm True) (\<lambda>bm.
      ret (\<lparr>used_map = bm, pool_base = start\<rparr>, bm_base + bm_pages))))"

datatype claim_state = KERN_START | KERN | USER_START | USER

text \<open>
  The first loop of \<open>populate_pools\<close>: its state, what is left of the pool under construction, the start of
  the region, the end of the last entry, and the kernel pool with the next address for a bitmap.
\<close>

record claim =
  c_state :: claim_state
  c_rem :: u64
  region_start :: u64
  c_end :: u64
  c_kernel :: "pool option"
  free_start :: ptr

definition claim_entry :: "u64 list \<Rightarrow> u64 \<Rightarrow> claim \<Rightarrow> e820_entry \<Rightarrow> claim exec" where
  "claim_entry blk user_pages c e =
     (let start = ptov (APPEND_HILO (mem_hi e) (mem_lo e)); sz = APPEND_HILO (len_hi e) (len_lo e);
          size_in_pg = sz div PGSIZE; c = c\<lparr>c_end := start + sz\<rparr>;
          c = (if c_state c = KERN_START then c\<lparr>region_start := start, c_state := KERN\<rparr> else c) in
      case c_state c of
        KERN \<Rightarrow>
          if c_rem c > size_in_pg then ret (c\<lparr>c_rem := c_rem c - size_in_pg\<rparr>)
          else
            bindE (init_pool blk (free_start c) (region_start c) (start + c_rem c * PGSIZE)) (\<lambda>(p, fs).
            let c = c\<lparr>c_kernel := Some p, free_start := fs\<rparr> in
            if c_rem c = size_in_pg then ret (c\<lparr>c_rem := user_pages, c_state := USER_START\<rparr>)
            else ret (c\<lparr>region_start := start + c_rem c * PGSIZE, c_rem := user_pages - size_in_pg + c_rem c, c_state := USER\<rparr>))
      | USER_START \<Rightarrow> ret (c\<lparr>region_start := start, c_state := USER\<rparr>)
      | USER \<Rightarrow>
          if c_rem c > size_in_pg then ret (c\<lparr>c_rem := c_rem c - size_in_pg\<rparr>)
          else ASSERT (c_rem c = sz) (ret c)
      | KERN_START \<Rightarrow> fail Panicked)"

fun claim_regions :: "u64 list \<Rightarrow> u64 \<Rightarrow> claim \<Rightarrow> e820_entry list \<Rightarrow> claim exec" where
  "claim_regions blk user_pages c [] = ret c"
| "claim_regions blk user_pages c (e # es) =
     bindE (if usable e then claim_entry blk user_pages c e else ret c) (\<lambda>c. claim_regions blk user_pages c es)"

text \<open>The loop at the label \<open>split\<close>: the pages from \<open>start\<close> to \<open>stop\<close> become free, pool by pool.\<close>

partial_function (option) split_loop :: "pool \<Rightarrow> pool \<Rightarrow> u64 \<Rightarrow> u64 \<Rightarrow> (pool \<times> pool) exec" where
  "split_loop k u start stop =
     (let kern = page_from_pool k start; p = (if kern then k else u) in
      if \<not> kern \<and> \<not> page_from_pool u start then fail Panicked
      else
        let pool_end = pool_base p + bitmap_size (used_map p) * PGSIZE;
            page_idx = pg_no start - pg_no (pool_base p);
            page_cnt = (if pool_end < stop then pool_end - start else stop - start) div PGSIZE in
        bindE (bitmap_set_multiple (used_map p) page_idx page_cnt False) (\<lambda>bm.
        let p = p\<lparr>used_map := bm\<rparr>; k = (if kern then p else k); u = (if kern then u else p) in
        if pool_end < stop then split_loop k u pool_end stop else ret (k, u)))"

fun release_usable :: "u64 \<Rightarrow> pool \<Rightarrow> pool \<Rightarrow> e820_entry list \<Rightarrow> (pool \<times> pool) exec" where
  "release_usable usable_bound k u [] = ret (k, u)"
| "release_usable usable_bound k u (e # es) =
     (let start = ptov (APPEND_HILO (mem_hi e) (mem_lo e)); stop = start + APPEND_HILO (len_hi e) (len_lo e) in
      if \<not> usable e \<or> stop < usable_bound then release_usable usable_bound k u es
      else bindE (split_loop k u (pg_round_up (if start \<ge> usable_bound then start else usable_bound)) stop) (\<lambda>(k, u).
        release_usable usable_bound k u es))"

text \<open>
  \<open>kernel_end\<close> is the address of \<open>_end\<close>; \<open>kblk\<close> and \<open>ublk\<close> are the bitmaps' elements. When no entry
  completes the kernel pool, its bitmap is still the null pointer, which \<open>page_from_pool\<close> follows.
\<close>

definition populate_pools :: "size_t \<Rightarrow> ptr \<Rightarrow> u64 list \<Rightarrow> u64 list \<Rightarrow> area \<Rightarrow> area \<Rightarrow> e820_entry list \<Rightarrow> (pool option \<times> pool) exec" where
  "populate_pools user_page_limit kernel_end kblk ublk base_mem ext_mem entries =
     (let total_pages = (a_size base_mem + a_size ext_mem) div PGSIZE;
          user_pages = (if total_pages div 2 > user_page_limit then user_page_limit else total_pages div 2);
          kern_pages = total_pages - user_pages;
          c = \<lparr>c_state = KERN_START, c_rem = kern_pages, region_start = 0, c_end = 0, c_kernel = None,
               free_start = pg_round_up kernel_end\<rparr> in
      bindE (claim_regions kblk user_pages c entries) (\<lambda>c.
      bindE (init_pool ublk (free_start c) (region_start c) (c_end c)) (\<lambda>(u, fs).
      case c_kernel c of
        Some k \<Rightarrow> bindE (release_usable fs k u entries) (\<lambda>(k, u). ret (Some k, u))
      | None \<Rightarrow>
          if \<exists>e \<in> set entries. usable e \<and> \<not> ptov (APPEND_HILO (mem_hi e) (mem_lo e)) + APPEND_HILO (len_hi e) (len_lo e) < fs
          then fail Null_deref else ret (None, u))))"

definition palloc_init :: "size_t \<Rightarrow> ptr \<Rightarrow> u64 list \<Rightarrow> u64 list \<Rightarrow> e820_entry list \<Rightarrow> (u64 \<times> pool option \<times> pool) exec" where
  "palloc_init user_page_limit kernel_end kblk ublk entries =
     (let no_area = \<lparr>a_start = 0, a_end = 0, a_size = 0\<rparr>;
          (base_mem, ext_mem) = resolve_area_info entries no_area no_area in
      bindE (populate_pools user_page_limit kernel_end kblk ublk base_mem ext_mem entries) (\<lambda>(k, u).
      ret (a_end ext_mem, k, u)))"

section \<open>Page addresses\<close>

lemma unat_pg_no: "unat (pg_no a) = unat a div 4096"
  by (simp add: pg_no_def drop_bit_eq_div unat_div)

lemma unat_pg_ofs: "unat (pg_ofs a) = unat a mod 4096"
proof -
  have "PGMASK = mask 12" by (simp add: PGMASK_def mask_eq_exp_minus_1)
  then have "pg_ofs a = take_bit 12 a" by (simp add: pg_ofs_def take_bit_eq_mask)
  then show ?thesis by (simp add: take_bit_eq_mod unat_mod)
qed

lemma pg_ofs_0_iff: "pg_ofs a = 0 \<longleftrightarrow> 4096 dvd unat a"
  by (simp add: unat_eq_0 [symmetric] unat_pg_ofs dvd_eq_mod_eq_0 del: unat_eq_0)

definition pool_wf :: "pool \<Rightarrow> bool" where
  "pool_wf p \<longleftrightarrow> bitmap_wf (used_map p) \<and> pg_ofs (pool_base p) = 0 \<and> is_kernel_vaddr (pool_base p) \<and>
     unat (pool_base p) + 4096 * unat (bit_cnt (used_map p)) < 2 ^ 64"

definition page_at :: "pool \<Rightarrow> nat \<Rightarrow> ptr" where
  "page_at p i = pool_base p + PGSIZE * of_nat i"

lemma unat_page_at:
  assumes "pool_wf p" and "i \<le> unat (bit_cnt (used_map p))"
  shows "unat (page_at p i) = unat (pool_base p) + 4096 * i"
proof -
  have "4096 * i < 2 ^ 64" "unat (pool_base p) + 4096 * i < 2 ^ 64" using assms by (auto simp: pool_wf_def)
  then have "page_at p i = of_nat (unat (pool_base p) + 4096 * i)" by (simp add: page_at_def PGSIZE_def)
  then show ?thesis using \<open>unat (pool_base p) + 4096 * i < 2 ^ 64\<close> by (simp only: unat_of_nat_u64)
qed

lemma page_at_props:
  assumes "pool_wf p" and "i < unat (bit_cnt (used_map p))"
  shows "pg_ofs (page_at p i) = 0" "is_kernel_vaddr (page_at p i)" "page_at p i \<noteq> NULL" "page_from_pool p (page_at p i)"
    "unat (pg_no (page_at p i) - pg_no (pool_base p)) = i"
proof -
  have u: "unat (page_at p i) = unat (pool_base p) + 4096 * i" using unat_page_at [OF assms(1)] assms(2) by simp
  have b: "4096 dvd unat (pool_base p)" "KERN_BASE \<le> pool_base p" using assms(1) by (auto simp: pool_wf_def pg_ofs_0_iff is_kernel_vaddr_def)
  show "pg_ofs (page_at p i) = 0" using u b(1) by (simp add: pg_ofs_0_iff)
  show k: "is_kernel_vaddr (page_at p i)" using u b(2) by (simp add: is_kernel_vaddr_def word_le_nat_alt)
  then show "page_at p i \<noteq> NULL" by (auto simp: is_kernel_vaddr_def KERN_BASE_def)
  from b(1) obtain q where "unat (pool_base p) = 4096 * q" by blast
  then have no: "unat (pg_no (page_at p i)) = unat (pg_no (pool_base p)) + i" using u by (simp add: unat_pg_no)
  then have le: "pg_no (pool_base p) \<le> pg_no (page_at p i)" by (simp add: word_le_nat_alt)
  then show "unat (pg_no (page_at p i) - pg_no (pool_base p)) = i" using no by (simp add: unat_sub)
  have "unat (pg_no (pool_base p)) + unat (bit_cnt (used_map p)) < 2 ^ 64" using assms(1) by (auto simp: pool_wf_def unat_pg_no)
  then have "unat (pg_no (pool_base p) + bit_cnt (used_map p)) = unat (pg_no (pool_base p)) + unat (bit_cnt (used_map p))"
    by (simp add: unat_word_ariths)
  then show "page_from_pool p (page_at p i)" using no le assms(2) by (simp add: page_from_pool_def bitmap_size_def word_less_nat_alt Let_def)
qed

lemma page_at_inj: "pool_wf p \<Longrightarrow> i < unat (bit_cnt (used_map p)) \<Longrightarrow> j < unat (bit_cnt (used_map p)) \<Longrightarrow> page_at p i = page_at p j \<longleftrightarrow> i = j"
proof -
  assume a: "pool_wf p" "i < unat (bit_cnt (used_map p))" "j < unat (bit_cnt (used_map p))"
  then have "unat (page_at p i) = unat (pool_base p) + 4096 * i" "unat (page_at p j) = unat (pool_base p) + 4096 * j"
    by (intro unat_page_at; simp)+
  then show ?thesis by (metis add_left_cancel mult_cancel1 zero_neq_numeral)
qed

lemma page_from_pool_bounds:
  assumes "pool_wf p" and "page_from_pool p a"
  shows "unat (pool_base p) \<le> unat a" "unat a < unat (pool_base p) + 4096 * unat (bit_cnt (used_map p))"
proof -
  have d: "4096 dvd unat (pool_base p)" using assms(1) by (simp add: pool_wf_def pg_ofs_0_iff)
  have "unat (pg_no (pool_base p)) + unat (bit_cnt (used_map p)) < 2 ^ 64" using assms(1) by (auto simp: pool_wf_def unat_pg_no)
  then have "unat (pg_no (pool_base p) + bit_cnt (used_map p)) = unat (pg_no (pool_base p)) + unat (bit_cnt (used_map p))"
    by (simp add: unat_word_ariths)
  then have n: "unat (pool_base p) div 4096 \<le> unat a div 4096" "unat a div 4096 < unat (pool_base p) div 4096 + unat (bit_cnt (used_map p))"
    using assms(2) by (auto simp: page_from_pool_def bitmap_size_def word_le_nat_alt word_less_nat_alt unat_pg_no Let_def)
  from d obtain q where q: "unat (pool_base p) = 4096 * q" by blast
  then show "unat (pool_base p) \<le> unat a" "unat a < unat (pool_base p) + 4096 * unat (bit_cnt (used_map p))"
    using n by simp_all
qed

section \<open>The pages in use\<close>

definition pools_apart :: "pool \<Rightarrow> pool \<Rightarrow> bool" where
  "pools_apart k u \<longleftrightarrow> unat (pool_base k) + 4096 * unat (bit_cnt (used_map k)) \<le> unat (pool_base u) \<or>
     unat (pool_base u) + 4096 * unat (bit_cnt (used_map u)) \<le> unat (pool_base k)"

definition phys_wf :: "phys \<Rightarrow> bool" where
  "phys_wf s \<longleftrightarrow> pool_wf (kernel_pool s) \<and> pool_wf (user_pool s) \<and> pools_apart (kernel_pool s) (user_pool s)"

definition pool_pages :: "pool \<Rightarrow> ptr set" where
  "pool_pages p = page_at p ` bm_used (used_map p)"

definition used_pages :: "phys \<Rightarrow> ptr set" where
  "used_pages s = pool_pages (kernel_pool s) \<union> pool_pages (user_pool s)"

definition block :: "ptr \<Rightarrow> nat \<Rightarrow> ptr set" where
  "block p n = (\<lambda>k. p + PGSIZE * of_nat k) ` {..<n}"

lemma block_page_at: "block (page_at p i) n = page_at p ` {i..<i + n}"
proof -
  have "{i..<i + n} = (\<lambda>k. i + k) ` {..<n}" by (auto simp: image_iff) (metis add_diff_inverse_nat lessThan_iff nat_add_left_cancel_less not_le)
  then show ?thesis by (simp add: block_def image_image page_at_def algebra_simps)
qed

text \<open>A page of one pool is not a page of the other.\<close>

lemma pools_disjoint:
  assumes "pool_wf p" "pool_wf q" "pools_apart p q" and "i < unat (bit_cnt (used_map p))"
  shows "j < unat (bit_cnt (used_map q)) \<Longrightarrow> page_at p i \<noteq> page_at q j" "\<not> page_from_pool q (page_at p i)"
proof -
  have u: "unat (page_at p i) = unat (pool_base p) + 4096 * i" using unat_page_at [of p i] assms by auto
  show "page_at p i \<noteq> page_at q j" if "j < unat (bit_cnt (used_map q))"
    using u unat_page_at [of q j] assms that by (auto simp: pools_apart_def)
  show "\<not> page_from_pool q (page_at p i)"
    using page_from_pool_bounds [OF assms(2), of "page_at p i"] u assms(3-4) by (auto simp: pools_apart_def)
qed

lemma page_at_update [simp]: "page_at (p\<lparr>used_map := bm\<rparr>) i = page_at p i"
  by (simp add: page_at_def)

lemma pool_wf_update: "pool_wf p \<Longrightarrow> bitmap_wf bm \<Longrightarrow> bit_cnt bm = bit_cnt (used_map p) \<Longrightarrow> pool_wf (p\<lparr>used_map := bm\<rparr>)"
  by (simp add: pool_wf_def)

lemma bm_used_fill:
  assumes "bm_bits b' = fill (bm_bits b) i n v" and "bit_cnt b' = bit_cnt b" and "i + n \<le> unat (bit_cnt b)"
  shows "bm_used b' = (if v then bm_used b \<union> {i..<i + n} else bm_used b - {i..<i + n})"
  using assms by (auto simp: bm_used_def nth_fill simp del: nth_bm_bits split: if_splits)

text \<open>What \<open>bitmap_scan_and_flip\<close> does to a pool.\<close>

lemma pool_get:
  assumes wf: "pool_wf p" and n: "0 < cnt"
  obtains (none) "bitmap_scan_and_flip (used_map p) 0 cnt False = ret (BITMAP_ERROR, used_map p)"
      "\<forall>i. i + unat cnt \<le> unat (bit_cnt (used_map p)) \<longrightarrow> {i..<i + unat cnt} \<inter> bm_used (used_map p) \<noteq> {}"
    | (some) i bm where "bitmap_scan_and_flip (used_map p) 0 cnt False = ret (of_nat i, bm)" "of_nat i \<noteq> BITMAP_ERROR"
      "pool_wf (p\<lparr>used_map := bm\<rparr>)" "bit_cnt bm = bit_cnt (used_map p)" "i + unat cnt \<le> unat (bit_cnt (used_map p))"
      "{i..<i + unat cnt} \<inter> bm_used (used_map p) = {}" "bm_used bm = bm_used (used_map p) \<union> {i..<i + unat cnt}"
proof -
  have bw: "bitmap_wf (used_map p)" using wf by (simp add: pool_wf_def)
  note sf = bitmap_scan_and_flip_wf [OF bw, of 0 cnt False]
  show thesis
  proof (cases "find_run (bm_bits (used_map p)) False (unat cnt) 0")
    case None
    have "{i..<i + unat cnt} \<inter> bm_used (used_map p) \<noteq> {}" if "i + unat cnt \<le> unat (bit_cnt (used_map p))" for i
      using find_run_None [OF None, of i] free_run_iff [OF that] that by (simp add: slots_def)
    then show thesis using sf None by (intro none) auto
  next
    case (Some i)
    then obtain bm where bm: "bitmap_scan_and_flip (used_map p) 0 cnt False = ret (of_nat i, bm)" "bitmap_wf bm"
      "bit_cnt bm = bit_cnt (used_map p)" "bm_bits bm = fill (bm_bits (used_map p)) i (unat cnt) True" using sf by auto
    have i: "i + unat cnt \<le> unat (bit_cnt (used_map p))" using find_run_Some(2) [OF Some] by simp
    have "{i..<i + unat cnt} \<inter> bm_used (used_map p) = {}"
      using find_run_Some(3) [OF Some] free_run_iff [OF i] by (simp add: slots_def)
    moreover have "of_nat i \<noteq> BITMAP_ERROR" using scan_result_error(1) [OF bw Some] by (simp add: scan_result_def)
    ultimately show thesis using bm i bm_used_fill [OF bm(4,3) i] pool_wf_update [OF wf bm(2,3)] by (intro some [of i bm]) simp_all
  qed
qed

text \<open>The pool the flags choose, and the other one.\<close>

definition pal_pool :: "u32 \<Rightarrow> phys \<Rightarrow> pool" where
  "pal_pool flags s = (if flags AND PAL_USER \<noteq> 0 then user_pool s else kernel_pool s)"

definition set_pal_pool :: "u32 \<Rightarrow> phys \<Rightarrow> pool \<Rightarrow> phys" where
  "set_pal_pool flags s p = (if flags AND PAL_USER \<noteq> 0 then s\<lparr>user_pool := p\<rparr> else s\<lparr>kernel_pool := p\<rparr>)"

lemma pal_pool_wf: "phys_wf s \<Longrightarrow> pool_wf (pal_pool flags s)"
  by (simp add: phys_wf_def pal_pool_def)

lemma set_pal_pool_wf:
  "phys_wf s \<Longrightarrow> pool_wf p \<Longrightarrow> pool_base p = pool_base (pal_pool flags s) \<Longrightarrow> bit_cnt (used_map p) = bit_cnt (used_map (pal_pool flags s)) \<Longrightarrow>
     phys_wf (set_pal_pool flags s p)"
  by (auto simp: phys_wf_def pal_pool_def set_pal_pool_def pools_apart_def)

definition other_pool :: "u32 \<Rightarrow> phys \<Rightarrow> pool" where
  "other_pool flags s = (if flags AND PAL_USER \<noteq> 0 then kernel_pool s else user_pool s)"

lemma set_pal_pool_pages: "used_pages (set_pal_pool flags s p) = pool_pages p \<union> pool_pages (other_pool flags s)"
  "used_pages s = pool_pages (pal_pool flags s) \<union> pool_pages (other_pool flags s)"
  by (auto simp: used_pages_def set_pal_pool_def pal_pool_def other_pool_def)

lemma pool_pages_block:
  assumes wf: "phys_wf s" and i: "i + n \<le> unat (bit_cnt (used_map (pal_pool flags s)))"
  shows "block (page_at (pal_pool flags s) i) n \<inter> pool_pages (other_pool flags s) = {}"
    "B \<subseteq> {..<unat (bit_cnt (used_map (pal_pool flags s)))} \<Longrightarrow>
       page_at (pal_pool flags s) ` (B - {i..<i + n}) = page_at (pal_pool flags s) ` B - block (page_at (pal_pool flags s) i) n"
    "{i..<i + n} \<inter> bm_used (used_map (pal_pool flags s)) = {} \<Longrightarrow> block (page_at (pal_pool flags s) i) n \<inter> pool_pages (pal_pool flags s) = {}"
proof -
  let ?p = "pal_pool flags s" and ?q = "other_pool flags s"
  have w: "pool_wf ?p" "pool_wf ?q" "pools_apart ?p ?q" using wf by (auto simp: phys_wf_def pal_pool_def other_pool_def pools_apart_def)
  have b: "bm_used (used_map r) \<subseteq> {..<unat (bit_cnt (used_map r))}" for r by (auto simp: bm_used_def)
  have inj: "inj_on (page_at ?p) {..<unat (bit_cnt (used_map ?p))}" using page_at_inj [OF w(1)] by (auto simp: inj_on_def)
  show "block (page_at ?p i) n \<inter> pool_pages ?q = {}"
    using pools_disjoint(1) [OF w] i b [of ?q] by (fastforce simp: block_page_at pool_pages_def)
  have sub: "{i..<i + n} \<subseteq> {..<unat (bit_cnt (used_map ?p))}" using i by auto
  show "page_at ?p ` (B - {i..<i + n}) = page_at ?p ` B - block (page_at ?p i) n" if "B \<subseteq> {..<unat (bit_cnt (used_map ?p))}"
    unfolding block_page_at by (rule inj_on_image_set_diff [OF inj _ sub]) (use that in blast)
  show "block (page_at ?p i) n \<inter> pool_pages ?p = {}" if "{i..<i + n} \<inter> bm_used (used_map ?p) = {}"
    unfolding block_page_at pool_pages_def using inj_on_image_Int [OF inj sub b] that by simp
qed

lemma palloc_get_ok:
  assumes wf: "phys_wf s" and fl: "flags AND PAL_ASSERT = 0" and n: "0 < cnt"
  shows "\<exists>p s'. palloc_get_multiple s flags cnt = ret (p, s') \<and> phys_wf s' \<and>
    (if p = NULL then s' = s \<and>
       (\<forall>i. i + unat cnt \<le> unat (bit_cnt (used_map (pal_pool flags s))) \<longrightarrow> {i..<i + unat cnt} \<inter> bm_used (used_map (pal_pool flags s)) \<noteq> {})
     else \<exists>i. p = page_at (pal_pool flags s') i \<and> i + unat cnt \<le> unat (bit_cnt (used_map (pal_pool flags s'))) \<and>
       {i..<i + unat cnt} \<subseteq> bm_used (used_map (pal_pool flags s')) \<and>
       block p (unat cnt) \<inter> used_pages s = {} \<and> used_pages s' = used_pages s \<union> block p (unat cnt) \<and>
       cells s' = (if flags AND PAL_ZERO \<noteq> 0 then fill_cells (cells s) p (PGSIZE * cnt) 0 else cells s))"
proof (rule pool_get [OF pal_pool_wf [OF wf, of flags] n], goal_cases)
  case none: 1
  have "set_pal_pool flags s (pal_pool flags s) = s" by (simp add: set_pal_pool_def pal_pool_def)
  then have "palloc_get_multiple s flags cnt = ret (NULL, s)"
    using none(1) fl by (simp add: palloc_get_multiple_def pal_pool_def [symmetric] set_pal_pool_def [symmetric] Let_def)
  then show ?thesis using none(2) wf by auto
next
  case some: (2 i bm)
  let ?p = "pal_pool flags s"
  let ?s = "set_pal_pool flags s (?p\<lparr>used_map := bm\<rparr>)"
  let ?s' = "if flags AND PAL_ZERO \<noteq> 0 then ?s\<lparr>cells := fill_cells (cells s) (page_at ?p i) (PGSIZE * cnt) 0\<rparr> else ?s"
  have i: "i < unat (bit_cnt (used_map ?p))" using some(5) n by (simp add: word_less_nat_alt)
  have nn: "page_at ?p i \<noteq> NULL" by (rule page_at_props(3) [OF pal_pool_wf [OF wf] i])
  have run: "palloc_get_multiple s flags cnt = ret (page_at ?p i, ?s')"
    using some(1,2) nn
    by (simp add: palloc_get_multiple_def pal_pool_def [symmetric] set_pal_pool_def [symmetric] Let_def page_at_def [symmetric])
      (simp add: set_pal_pool_def)
  have cs: "pal_pool flags ?s' = ?p\<lparr>used_map := bm\<rparr>" "used_pages ?s' = used_pages ?s" "phys_wf ?s' = phys_wf ?s"
    by (simp_all add: pal_pool_def set_pal_pool_def used_pages_def phys_wf_def)
  have "phys_wf ?s" using some(3,4) by (intro set_pal_pool_wf [OF wf]) simp_all
  moreover have "used_pages ?s = used_pages s \<union> block (page_at ?p i) (unat cnt)"
    using set_pal_pool_pages(1) [of flags s "?p\<lparr>used_map := bm\<rparr>"] set_pal_pool_pages(2) [of s flags] some(7)
    by (auto simp: pool_pages_def block_page_at page_at_update)
  moreover have "block (page_at ?p i) (unat cnt) \<inter> used_pages s = {}"
    using pool_pages_block(1,3) [OF wf some(5)] some(6) set_pal_pool_pages(2) [of s flags] by blast
  ultimately show ?thesis using run nn cs some(4,5,7)
    by (intro exI [of _ "page_at ?p i"] exI [of _ ?s']) (auto simp: set_pal_pool_def)
qed

lemma free_pool:
  assumes wf: "phys_wf s" and i: "i + unat cnt \<le> unat (bit_cnt (used_map (pal_pool flags s)))" and n: "0 < cnt"
  defines "p \<equiv> page_at (pal_pool flags s) i"
  shows "palloc_free_multiple s p cnt =
    (if {i..<i + unat cnt} \<subseteq> bm_used (used_map (pal_pool flags s)) then
       bindE (bitmap_set_multiple (used_map (pal_pool flags s)) (of_nat i) cnt False) (\<lambda>bm.
       ret (set_pal_pool flags (s\<lparr>cells := fill_cells (cells s) p (PGSIZE * cnt) 0xcccccccccccccccc\<rparr>) ((pal_pool flags s)\<lparr>used_map := bm\<rparr>)))
     else fail Assert_failed)"
proof -
  let ?p = "pal_pool flags s" and ?q = "other_pool flags s"
  have i': "i < unat (bit_cnt (used_map ?p))" using i n by (simp add: word_less_nat_alt)
  note pp = page_at_props [OF pal_pool_wf [OF wf, of flags] i', folded p_def]
  have w: "pool_wf ?p" "pool_wf ?q" "pools_apart ?p ?q" using wf by (auto simp: phys_wf_def pal_pool_def other_pool_def pools_apart_def)
  have nq: "\<not> page_from_pool ?q p" unfolding p_def by (rule pools_disjoint(2) [OF w i'])
  have "unat (of_nat i :: u64) = i" using i' unat_u64_bound [of "bit_cnt (used_map ?p)"] by (intro unat_of_nat_u64) linarith
  then have idx: "pg_no p - pg_no (pool_base ?p) = of_nat i" using pp(5) by (simp add: word_unat_eq_iff)
  have bw: "bitmap_wf (used_map ?p)" using w(1) by (simp add: pool_wf_def)
  have "unat (of_nat i :: u64) = i" using pp(5) idx by simp
  then have r: "in_range (used_map ?p) (of_nat i) cnt" using i by (simp add: in_range_def)
  have "bitmap_all (used_map ?p) (of_nat i) cnt = ret ({i..<i + unat cnt} \<subseteq> bm_used (used_map ?p))"
  proof -
    have "False \<notin> set (slice (bm_bits (used_map ?p)) i (unat cnt)) \<longleftrightarrow> (\<forall>k. i \<le> k \<and> k < i + unat cnt \<longrightarrow> bm_bits (used_map ?p) ! k = True)"
      using run_at_iff [of i "unat cnt" "bm_bits (used_map ?p)" True] i by (simp add: run_at_def)
    moreover have "(\<forall>k. i \<le> k \<and> k < i + unat cnt \<longrightarrow> bm_bits (used_map ?p) ! k = True) \<longleftrightarrow> {i..<i + unat cnt} \<subseteq> bm_used (used_map ?p)"
      using i by (auto simp: bm_used_def subset_iff simp del: nth_bm_bits)
    ultimately show ?thesis
      using bitmap_contains_wf [OF bw r, of False] \<open>unat (of_nat i :: u64) = i\<close> by (simp add: bitmap_all_def)
  qed
  then show ?thesis
    using pp(1,3,4) nq idx n less_imp_neq [OF n]
    by (cases "flags AND PAL_USER = 0") (simp_all add: palloc_free_multiple_def pal_pool_def other_pool_def set_pal_pool_def Let_def)
qed

lemma palloc_free_ok:
  assumes wf: "phys_wf s" and i: "i + unat cnt \<le> unat (bit_cnt (used_map (pal_pool flags s)))" and n: "0 < cnt"
    and u: "{i..<i + unat cnt} \<subseteq> bm_used (used_map (pal_pool flags s))"
  defines "p \<equiv> page_at (pal_pool flags s) i"
  shows "\<exists>s'. palloc_free_multiple s p cnt = ret s' \<and> phys_wf s' \<and> used_pages s' = used_pages s - block p (unat cnt) \<and>
    cells s' = fill_cells (cells s) p (PGSIZE * cnt) 0xcccccccccccccccc \<and> (\<forall>j. page_at (pal_pool flags s') j = page_at (pal_pool flags s) j) \<and>
    bit_cnt (used_map (pal_pool flags s')) = bit_cnt (used_map (pal_pool flags s))"
proof -
  let ?p = "pal_pool flags s"
  have w: "pool_wf ?p" "bitmap_wf (used_map ?p)" using pal_pool_wf [OF wf, of flags] by (auto simp: pool_wf_def)
  have "unat (of_nat i :: u64) = i" using i unat_u64_bound [of "bit_cnt (used_map ?p)"] by (intro unat_of_nat_u64) linarith
  then have "in_range (used_map ?p) (of_nat i) cnt" using i by (simp add: in_range_def)
  from bitmap_set_multiple_wf [OF w(2) this, of False] obtain bm where
    bm: "bitmap_set_multiple (used_map ?p) (of_nat i) cnt False = ret bm" "bitmap_wf bm" "bit_cnt bm = bit_cnt (used_map ?p)"
      "bm_bits bm = fill (bm_bits (used_map ?p)) i (unat cnt) False" using \<open>unat (of_nat i :: u64) = i\<close> by auto
  let ?t = "s\<lparr>cells := fill_cells (cells s) p (PGSIZE * cnt) 0xcccccccccccccccc\<rparr>"
  let ?s = "set_pal_pool flags ?t (?p\<lparr>used_map := bm\<rparr>)"
  have eq: "phys_wf ?t" "pal_pool flags ?t = ?p" "other_pool flags ?t = other_pool flags s" "used_pages ?t = used_pages s"
    using wf by (simp_all add: phys_wf_def pal_pool_def other_pool_def used_pages_def)
  have "phys_wf ?s" using pool_wf_update [OF w(1) bm(2,3)] bm(3) eq(2) by (intro set_pal_pool_wf [OF eq(1)]) simp_all
  moreover have "used_pages ?s = used_pages s - block p (unat cnt)"
  proof -
    have "bm_used (used_map ?p) \<subseteq> {..<unat (bit_cnt (used_map ?p))}" by (auto simp: bm_used_def)
    note pb = pool_pages_block(1) [OF wf i] pool_pages_block(2) [OF wf i this]
    have "pool_pages (?p\<lparr>used_map := bm\<rparr>) = pool_pages ?p - block p (unat cnt)"
      using bm_used_fill [OF bm(4,3) i] pb(2) by (simp add: pool_pages_def p_def)
    then show ?thesis
      using set_pal_pool_pages(1) [of flags ?t "?p\<lparr>used_map := bm\<rparr>"] set_pal_pool_pages(2) [of s flags] eq pb(1) unfolding p_def by auto
  qed
  moreover have "palloc_free_multiple s p cnt = ret ?s" using free_pool [OF wf i n] u bm(1) by (simp add: p_def)
  moreover have "cells ?s = cells ?t" "pal_pool flags ?s = ?p\<lparr>used_map := bm\<rparr>" by (simp_all add: set_pal_pool_def pal_pool_def)
  ultimately show ?thesis using bm(3) by simp
qed

text \<open>
  C32. Allocating pages: \<open>palloc_get_multiple\<close> ends, and returns NULL, changing nothing, exactly when the
  pool the flags choose has no run of that many free pages; otherwise it returns an aligned kernel
  address of a run of pages none of which was in use, marks exactly these as used, zeroes exactly
  these if asked to, and changes no other memory. Giving the run back with \<open>palloc_free_multiple\<close> succeeds
  and restores the set of used pages; giving it back a second time fails an assertion.
\<close>

theorem palloc_get_free:
  assumes wf: "phys_wf s" and fl: "flags AND PAL_ASSERT = 0" and n: "0 < cnt"
  shows "\<exists>p s'. palloc_get_multiple s flags cnt = ret (p, s') \<and> phys_wf s' \<and>
    (if p = NULL then s' = s \<and> (\<forall>i. i + unat cnt \<le> unat (bit_cnt (used_map (pal_pool flags s))) \<longrightarrow>
       {i..<i + unat cnt} \<inter> bm_used (used_map (pal_pool flags s)) \<noteq> {})
     else pg_ofs p = 0 \<and> is_kernel_vaddr p \<and> block p (unat cnt) \<inter> used_pages s = {} \<and>
       used_pages s' = used_pages s \<union> block p (unat cnt) \<and>
       (\<forall>a. cells s' a = (if flags AND PAL_ZERO \<noteq> 0 \<and> a - p < PGSIZE * cnt then 0 else cells s a)) \<and>
       (\<exists>s''. palloc_free_multiple s' p cnt = ret s'' \<and> phys_wf s'' \<and> used_pages s'' = used_pages s \<and>
          palloc_free_multiple s'' p cnt = fail Assert_failed))"
proof -
  from palloc_get_ok [OF assms] obtain p s' where g: "palloc_get_multiple s flags cnt = ret (p, s')" "phys_wf s'"
    "if p = NULL then s' = s \<and>
       (\<forall>i. i + unat cnt \<le> unat (bit_cnt (used_map (pal_pool flags s))) \<longrightarrow> {i..<i + unat cnt} \<inter> bm_used (used_map (pal_pool flags s)) \<noteq> {})
     else \<exists>i. p = page_at (pal_pool flags s') i \<and> i + unat cnt \<le> unat (bit_cnt (used_map (pal_pool flags s'))) \<and>
       {i..<i + unat cnt} \<subseteq> bm_used (used_map (pal_pool flags s')) \<and>
       block p (unat cnt) \<inter> used_pages s = {} \<and> used_pages s' = used_pages s \<union> block p (unat cnt) \<and>
       cells s' = (if flags AND PAL_ZERO \<noteq> 0 then fill_cells (cells s) p (PGSIZE * cnt) 0 else cells s)" by blast
  show ?thesis
  proof (cases "p = NULL")
    case True
    then show ?thesis using g by (intro exI [of _ p] exI [of _ s']) simp
  next
    case False
    with g(3) obtain i where i: "p = page_at (pal_pool flags s') i" "i + unat cnt \<le> unat (bit_cnt (used_map (pal_pool flags s')))"
      "{i..<i + unat cnt} \<subseteq> bm_used (used_map (pal_pool flags s'))" "block p (unat cnt) \<inter> used_pages s = {}"
      "used_pages s' = used_pages s \<union> block p (unat cnt)"
      "cells s' = (if flags AND PAL_ZERO \<noteq> 0 then fill_cells (cells s) p (PGSIZE * cnt) 0 else cells s)" by auto
    have i': "i < unat (bit_cnt (used_map (pal_pool flags s')))" using i(2) n by (simp add: word_less_nat_alt)
    note pp = page_at_props [OF pal_pool_wf [OF g(2)] i', folded i(1)]
    from palloc_free_ok [OF g(2) i(2) n i(3)] obtain s'' where
      f: "palloc_free_multiple s' p cnt = ret s''" "phys_wf s''" "used_pages s'' = used_pages s' - block p (unat cnt)"
        "page_at (pal_pool flags s'') i = p" "bit_cnt (used_map (pal_pool flags s'')) = bit_cnt (used_map (pal_pool flags s'))" unfolding i(1) by auto
    have "p \<in> block p (unat cnt)" using n by (auto simp: block_def word_less_nat_alt intro!: image_eqI [of _ _ 0])
    then have "p \<notin> pool_pages (pal_pool flags s'')" using f(3) set_pal_pool_pages(2) [of s'' flags] by blast
    then have "i \<notin> bm_used (used_map (pal_pool flags s''))" using f(4) by (auto simp: pool_pages_def)
    moreover have "i \<in> {i..<i + unat cnt}" using n by (simp add: word_less_nat_alt)
    ultimately have "\<not> {i..<i + unat cnt} \<subseteq> bm_used (used_map (pal_pool flags s''))" by blast
    then have again: "palloc_free_multiple s'' p cnt = fail Assert_failed"
      using free_pool [OF f(2) _ n, of i flags] f(4,5) i(2) by simp
    have "used_pages s'' = used_pages s" using f(3) i(4,5) by blast
    then show ?thesis using g(1,2) False pp(1,2) i(4-6) f(1,2) again
      by (intro exI [of _ p] exI [of _ s']) (simp add: fill_cells_def)
  qed
qed


definition sample_phys :: phys where
  "sample_phys = \<lparr>kernel_pool = \<lparr>used_map = \<lparr>bit_cnt = 10, elems = [0]\<rparr>, pool_base = 0x8004000000\<rparr>,
     user_pool = \<lparr>used_map = \<lparr>bit_cnt = 10, elems = [0]\<rparr>, pool_base = 0x800400a000\<rparr>, cells = (\<lambda>_. 7)\<rparr>"

lemma sample_phys_wf: "phys_wf sample_phys"
  by (simp add: phys_wf_def pool_wf_def pools_apart_def bitmap_wf_def sample_phys_def pg_ofs_def PGMASK_def is_kernel_vaddr_def KERN_BASE_def)

theorem palloc_get_free_witness:
  "\<exists>p s'. palloc_get_multiple sample_phys PAL_ZERO 4 = ret (p, s') \<and> p \<noteq> NULL \<and> cells s' p = 0 \<and>
     (\<exists>s''. palloc_free_multiple s' p 4 = ret s'' \<and> palloc_free_multiple s'' p 4 = fail Assert_failed)"
proof -
  have "pal_pool PAL_ZERO sample_phys = kernel_pool sample_phys" by (simp add: pal_pool_def PAL_ZERO_def PAL_USER_def)
  moreover have "{4..<8} \<inter> bm_used (used_map (kernel_pool sample_phys)) = {}"
    by (auto simp: bm_used_def sample_phys_def bm_bit_def)
  ultimately have "\<not> (\<forall>i. i + unat (4 :: u64) \<le> unat (bit_cnt (used_map (pal_pool PAL_ZERO sample_phys))) \<longrightarrow>
      {i..<i + unat (4 :: u64)} \<inter> bm_used (used_map (pal_pool PAL_ZERO sample_phys)) \<noteq> {})"
    by (auto simp: sample_phys_def intro!: exI [of _ 4])
  moreover have "PAL_ZERO AND PAL_ASSERT = 0" "PAL_ZERO AND PAL_ZERO \<noteq> 0" "(0 :: u64) < PGSIZE * 4" by (simp_all add: PAL_ZERO_def PAL_ASSERT_def PGSIZE_def)
  ultimately show ?thesis using palloc_get_free [OF sample_phys_wf, of PAL_ZERO 4] by (fastforce split: if_splits)
qed

text \<open>
  The last region of the user pool: \<open>populate_pools\<close> asserts that the number of pages left equals the size of
  the region in bytes, which fails also when the region holds exactly the pages left.
\<close>

lemma claim_user_region_fails:
  assumes "c_state c = USER" and "c_rem c = APPEND_HILO (len_hi e) (len_lo e) div PGSIZE" and "c_rem c \<noteq> 0"
  shows "claim_entry blk user_pages c e = fail Assert_failed"
proof -
  let ?n = "APPEND_HILO (len_hi e) (len_lo e)"
  have "?n div PGSIZE \<noteq> ?n"
  proof
    assume a: "?n div PGSIZE = ?n"
    have "unat (?n div PGSIZE) = unat ?n div 4096" by (simp add: unat_div PGSIZE_def)
    then have "unat ?n = unat ?n div 4096" using a by simp
    then have "unat ?n = 0" by linarith
    then show False using assms(2,3) a by (simp add: unat_eq_zero)
  qed
  then show ?thesis using assms by (simp add: claim_entry_def Let_def)
qed

text \<open>One page.\<close>

lemma block_one [simp]: "block p (unat (1 :: u64)) = {p}" "block p (Suc 0) = {p}"
  by (simp_all add: block_def lessThan_Suc)

lemma palloc_get_page_ok:
  assumes "phys_wf s" and "flags AND PAL_ASSERT = 0"
  shows "palloc_get_page s flags = ret (NULL, s) \<or>
    (\<exists>p s'. palloc_get_page s flags = ret (p, s') \<and> p \<noteq> NULL \<and> phys_wf s' \<and> p \<notin> used_pages s \<and> used_pages s' = insert p (used_pages s) \<and>
      cells s' = (if flags AND PAL_ZERO \<noteq> 0 then fill_cells (cells s) p PGSIZE 0 else cells s))"
proof -
  have "(0 :: size_t) < 1" by simp
  from palloc_get_ok [OF assms this] obtain p s' where g: "palloc_get_page s flags = ret (p, s')" "phys_wf s'"
    "if p = NULL then s' = s else block p (unat (1 :: u64)) \<inter> used_pages s = {} \<and> used_pages s' = used_pages s \<union> block p (unat (1 :: u64)) \<and>
       cells s' = (if flags AND PAL_ZERO \<noteq> 0 then fill_cells (cells s) p (PGSIZE * 1) 0 else cells s)"
    unfolding palloc_get_page_def by meson
  then show ?thesis by (cases "p = NULL") (simp_all add: Un_commute)
qed

lemma palloc_free_page_ok:
  assumes wf: "phys_wf s" and p: "p \<in> used_pages s"
  shows "\<exists>s'. palloc_free_page s p = ret s' \<and> phys_wf s' \<and> used_pages s' = used_pages s - {p} \<and>
    cells s' = fill_cells (cells s) p PGSIZE 0xcccccccccccccccc"
proof -
  have c: "pal_pool 0 s = kernel_pool s" "pal_pool PAL_USER s = user_pool s" by (simp_all add: pal_pool_def PAL_USER_def)
  from p obtain flags where "p \<in> pool_pages (pal_pool flags s)" unfolding used_pages_def using c by (metis Un_iff)
  then obtain i where i: "i \<in> bm_used (used_map (pal_pool flags s))" "p = page_at (pal_pool flags s) i" by (auto simp: pool_pages_def)
  then have "i + unat (1 :: u64) \<le> unat (bit_cnt (used_map (pal_pool flags s)))" by (simp add: bm_used_def)
  from palloc_free_ok [OF wf this] i show ?thesis unfolding palloc_free_page_def by fastforce
qed

end
