(* ===== verification/Spt.thy ===== *)
theory Spt
  imports Hash Palloc
begin

text \<open>
  The supplemental page table, the part of \<open>vm/vm.c\<close> that keeps the pages of a process in a hash table:
  entries are pairs of a user address and the address of a \<open>struct page\<close>. The hash and comparison functions
  \<open>my_hash\<close> and \<open>my_less\<close> meet the contract \<open>hash_funcs\<close> of the hash table, so that the table is shown to be a
  finite map from page addresses to pages.
\<close>

section \<open>Entries\<close>

record SPT_entry =
  se_va :: ptr
  se_page :: ptr

type_synonym spt = "SPT_entry hash"

text \<open>\<open>hash_int\<close> takes an \<open>int\<close>: the address is cut to 32 bits.\<close>

definition my_hash :: "SPT_entry \<Rightarrow> u64" where
  "my_hash e = (case hash_int (ucast (se_va e)) of Some (Inr h) \<Rightarrow> h | _ \<Rightarrow> 0)"

definition my_less :: "SPT_entry \<Rightarrow> SPT_entry \<Rightarrow> bool" where
  "my_less a b \<longleftrightarrow> se_va a < se_va b"

interpretation spt: hash_funcs my_less my_hash
proof unfold_locales
  show "my_hash a = my_hash b" if "\<not> my_less a b" "\<not> my_less b a" for a b
    using that by (simp add: my_less_def my_hash_def not_less antisym)
qed (auto simp: my_less_def)

section \<open>Operations\<close>

text \<open>\<open>mem\<close>: the bucket array \<open>malloc\<close> returns, if it does.\<close>

definition supplemental_page_table_init :: "SPT_entry list list option \<Rightarrow> spt option" where
  "supplemental_page_table_init mem = hash_init mem my_hash my_less"

definition spt_find_page :: "spt \<Rightarrow> ptr \<Rightarrow> ptr exec" where
  "spt_find_page h va =
     bindE (hash_find h \<lparr>se_va = pg_round_down va, se_page = NULL\<rparr>) (\<lambda>r.
     ret (case r of None \<Rightarrow> NULL | Some e \<Rightarrow> se_page e))"

text \<open>\<open>mem\<close>: there is memory for the entry; \<open>mem'\<close>: for a larger bucket array. \<open>va\<close> is the address of the page.\<close>

definition spt_insert_page :: "bool \<Rightarrow> bool \<Rightarrow> spt \<Rightarrow> ptr \<Rightarrow> ptr \<Rightarrow> (bool \<times> spt) exec" where
  "spt_insert_page mem mem' h page va =
     (if page = NULL \<or> \<not> mem then ret (False, h)
      else bindE (hash_insert mem' h \<lparr>se_va = va, se_page = page\<rparr>) (\<lambda>(old, h). ret (old = None, h)))"

text \<open>The part of \<open>spt_remove_page\<close> that changes the table; whether an entry was there.\<close>

definition spt_delete_entry :: "bool \<Rightarrow> spt \<Rightarrow> ptr \<Rightarrow> (bool \<times> spt) exec" where
  "spt_delete_entry mem' h va =
     bindE (hash_delete mem' h \<lparr>se_va = va, se_page = NULL\<rparr>) (\<lambda>(old, h). ret (old \<noteq> None, h))"

section \<open>The map of a table\<close>

definition spt_wf :: "spt \<Rightarrow> bool" where
  "spt_wf h \<longleftrightarrow> spt.table h"

definition spt_map :: "spt \<Rightarrow> ptr \<Rightarrow> ptr option" where
  "spt_map h va = map_option se_page (find (\<lambda>e. se_va e = va) (helems h))"

lemma my_less_eqv: "\<not> my_less a b \<and> \<not> my_less b a \<longleftrightarrow> se_va a = se_va b"
  by (auto simp: my_less_def)

lemma spt_keys_unique:
  assumes "spt_wf h" "e \<in> set (helems h)" "e' \<in> set (helems h)" "se_va e = se_va e'"
  shows "e = e'"
  using assms my_less_eqv [of e e'] by (auto simp: spt_wf_def spt.table_def hash_wf_def equivalent_def)

lemma spt_map_Some:
  assumes "spt_wf h"
  shows "spt_map h va = Some p \<longleftrightarrow> (\<exists>e \<in> set (helems h). se_va e = va \<and> se_page e = p)"
proof
  assume "\<exists>e \<in> set (helems h). se_va e = va \<and> se_page e = p"
  then obtain e where e: "e \<in> set (helems h)" "se_va e = va" "se_page e = p" by blast
  then obtain e' where "find (\<lambda>e. se_va e = va) (helems h) = Some e'"
    by (cases "find (\<lambda>e. se_va e = va) (helems h)") (auto simp: find_None_iff)
  moreover from this have "e' \<in> set (helems h)" "se_va e' = va" by (auto simp: find_Some_iff)
  ultimately show "spt_map h va = Some p" using spt_keys_unique [OF assms, of e' e] e by (simp add: spt_map_def)
qed (auto simp: spt_map_def find_Some_iff)

lemma spt_map_None: "spt_map h va = None \<longleftrightarrow> (\<forall>e \<in> set (helems h). se_va e \<noteq> va)"
  by (auto simp: spt_map_def find_None_iff)

text \<open>Two tables with related elements have related maps.\<close>

lemma spt_map_eqI:
  assumes "spt_wf h" and "\<And>va p. m va = Some p \<longleftrightarrow> (\<exists>e \<in> set (helems h). se_va e = va \<and> se_page e = p)"
  shows "spt_map h = m"
proof
  fix va
  have "spt_map h va = Some p \<longleftrightarrow> m va = Some p" for p using assms by (simp add: spt_map_Some)
  then show "spt_map h va = m va" by (metis not_None_eq)
qed

lemma hash_find_spt:
  assumes "spt_wf h"
  obtains r where "hash_find h \<lparr>se_va = va, se_page = q\<rparr> = ret r" "map_option se_page r = spt_map h va"
proof -
  from spt.hash_find_table [of h "\<lparr>se_va = va, se_page = q\<rparr>"] assms obtain r where
    r: "hash_find h \<lparr>se_va = va, se_page = q\<rparr> = ret r"
      "case r of None \<Rightarrow> \<forall>x \<in> set (helems h). se_va x \<noteq> va | Some x \<Rightarrow> x \<in> set (helems h) \<and> se_va x = va"
    by (auto simp: spt_wf_def my_less_eqv split: option.splits)
  have "map_option se_page r = spt_map h va"
  proof (cases r)
    case None
    then show ?thesis using r(2) spt_map_None [of h va] by simp
  next
    case (Some x)
    then have "spt_map h va = Some (se_page x)" using r(2) spt_map_Some [OF assms] by auto
    then show ?thesis using Some by simp
  qed
  with r(1) show thesis by (rule that)
qed

lemma spt_find_map:
  assumes "spt_wf h"
  shows "spt_find_page h va = ret (case spt_map h (pg_round_down va) of None \<Rightarrow> NULL | Some p \<Rightarrow> p)"
proof -
  obtain r where "hash_find h \<lparr>se_va = pg_round_down va, se_page = NULL\<rparr> = ret r" "map_option se_page r = spt_map h (pg_round_down va)"
    by (rule hash_find_spt [OF assms])
  then show ?thesis by (cases r) (auto simp: spt_find_page_def dest: sym)
qed

lemma spt_insert_map:
  assumes wf: "spt_wf h" and room: "unat (h_elem_cnt h) < 2 ^ 64 - 1" and "page \<noteq> NULL"
  obtains h' where "spt_insert_page True mem' h page va = ret (spt_map h va = None, h')" "spt_wf h'"
    "spt_map h' = (if spt_map h va = None then (spt_map h)(va \<mapsto> page) else spt_map h)"
proof -
  let ?e = "\<lparr>se_va = va, se_page = page\<rparr>"
  from spt.hash_insert_table [of h ?e mem'] wf room obtain r h' where
    r: "hash_find h ?e = ret r" "hash_insert mem' h ?e = ret (r, h')" "spt_wf h'"
      "mset (helems h') = (if r = None then add_mset ?e (mset (helems h)) else mset (helems h))"
    by (auto simp: spt_wf_def)
  have m: "map_option se_page r = spt_map h va" using hash_find_spt [OF wf, of va page] r(1) by auto
  then have n: "r = None \<longleftrightarrow> spt_map h va = None" by (metis option.map_disc_iff)
  have s: "set (helems h') = (if r = None then insert ?e (set (helems h)) else set (helems h))"
    using arg_cong [OF r(4), of set_mset] by (auto split: if_splits)
  have "spt_map h' = (if spt_map h va = None then (spt_map h)(va \<mapsto> page) else spt_map h)"
    using s n spt_map_None [of h va] by (intro spt_map_eqI [OF r(3)]) (auto simp: spt_map_Some [OF wf])
  then show thesis using that r(2,3) n assms(3) by (simp add: spt_insert_page_def)
qed

lemma spt_delete_map:
  assumes wf: "spt_wf h"
  obtains h' where "spt_delete_entry mem' h va = ret (spt_map h va \<noteq> None, h')" "spt_wf h'"
    "spt_map h' = (spt_map h)(va := None)"
proof -
  let ?e = "\<lparr>se_va = va, se_page = NULL\<rparr>"
  from spt.hash_delete_table [of h ?e mem'] wf obtain r h' where
    r: "hash_find h ?e = ret r" "hash_delete mem' h ?e = ret (r, h')" "spt_wf h'"
      "set (helems h') = {x \<in> set (helems h). se_va x \<noteq> va}"
    by (auto simp: spt_wf_def my_less_eqv)
  have "map_option se_page r = spt_map h va" using hash_find_spt [OF wf, of va NULL] r(1) by auto
  then have n: "r = None \<longleftrightarrow> spt_map h va = None" by (metis option.map_disc_iff)
  have "spt_map h' = (spt_map h)(va := None)"
    using r(4) by (intro spt_map_eqI [OF r(3)]) (auto simp: spt_map_Some [OF wf] split: if_splits)
  then show thesis using that [OF _ r(3)] r(2) n by (simp add: spt_delete_entry_def del: not_None_eq)
qed

section \<open>Properties\<close>

text \<open>
  C34. The supplemental page table is a finite map from addresses to pages: \<open>spt_find_page\<close> returns the page of the
  page address of \<open>va\<close>, or null; \<open>spt_insert_page\<close> enters the page exactly when its address is not there yet, and
  reports that; the deletion in \<open>spt_remove_page\<close> removes exactly the address of the page; all keep
  the table well formed, also when its buckets are reorganised or there is no memory for that.
\<close>

theorem spt_refines_map:
  assumes wf: "spt_wf h" and room: "unat (h_elem_cnt h) < 2 ^ 64 - 1" and "page \<noteq> NULL"
  shows "spt_find_page h a = ret (case spt_map h (pg_round_down a) of None \<Rightarrow> NULL | Some p \<Rightarrow> p) \<and>
    (\<exists>h'. spt_insert_page True mem h page va = ret (spt_map h va = None, h') \<and> spt_wf h' \<and>
      spt_map h' = (if spt_map h va = None then (spt_map h)(va \<mapsto> page) else spt_map h)) \<and>
    (\<exists>h'. spt_delete_entry mem h va = ret (spt_map h va \<noteq> None, h') \<and> spt_wf h' \<and> spt_map h' = (spt_map h)(va := None))"
proof (intro conjI)
  show "spt_find_page h a = ret (case spt_map h (pg_round_down a) of None \<Rightarrow> NULL | Some p \<Rightarrow> p)" by (rule spt_find_map [OF wf])
  show "\<exists>h'. spt_insert_page True mem h page va = ret (spt_map h va = None, h') \<and> spt_wf h' \<and>
      spt_map h' = (if spt_map h va = None then (spt_map h)(va \<mapsto> page) else spt_map h)"
    by (rule spt_insert_map [OF assms, of mem va]) blast
  show "\<exists>h'. spt_delete_entry mem h va = ret (spt_map h va \<noteq> None, h') \<and> spt_wf h' \<and> spt_map h' = (spt_map h)(va := None)"
    by (rule spt_delete_map [OF wf, of mem va]) blast
qed

definition empty_spt :: spt where
  "empty_spt = \<lparr>h_elem_cnt = 0, bucket_cnt = 4, buckets = [[], [], [], []], h_hash = my_hash, h_less = my_less\<rparr>"

lemma empty_spt_wf: "spt_wf empty_spt" "spt_map empty_spt a = None" "h_elem_cnt empty_spt = 0"
proof -
  have p: "is_power_of_2 4" using is_power_of_2_iff [of 4] by (auto intro: exI [of _ 2])
  show "spt_wf empty_spt"
    by (auto simp: spt_wf_def spt.table_def hash_wf_def placed_def helems_def empty_spt_def p nth_Cons split: nat.splits)
  show "spt_map empty_spt a = None" "h_elem_cnt empty_spt = 0" by (simp_all add: spt_map_def helems_def empty_spt_def)
qed

theorem spt_refines_map_witness:
  "spt_find_page empty_spt 0x400123 = ret NULL \<and>
   (\<exists>h'. spt_insert_page True True empty_spt 0x10 0x400000 = ret (True, h') \<and> spt_map h' 0x400000 = Some 0x10)"
proof -
  have "unat (h_elem_cnt empty_spt) < 2 ^ 64 - 1" "(0x10 :: ptr) \<noteq> NULL" by (simp_all add: empty_spt_wf(3))
  from spt_refines_map [OF empty_spt_wf(1) this, of "0x400123" True "0x400000"] show ?thesis
    by (auto simp: empty_spt_wf(2))
qed

text \<open>\<open>spt_find_page\<close> rounds its address down and \<open>spt_insert_page\<close> does not: a page entered at any other address is never found.\<close>

lemma spt_unaligned_never_found:
  assumes "spt_wf h" "unat (h_elem_cnt h) < 2 ^ 64 - 1" "page \<noteq> NULL" "spt_map h va = None" "pg_ofs va \<noteq> 0" "\<forall>v. spt_map h v \<noteq> Some page"
  shows "\<exists>h'. spt_insert_page True mem h page va = ret (True, h') \<and> (\<forall>a. spt_find_page h' a \<noteq> ret page)"
proof -
  obtain h' where h': "spt_insert_page True mem h page va = ret (spt_map h va = None, h')" "spt_wf h'"
    "spt_map h' = (if spt_map h va = None then (spt_map h)(va \<mapsto> page) else spt_map h)"
    by (rule spt_insert_map [OF assms(1-3)])
  have "pg_round_down a \<noteq> va" for a using assms(5) by (auto simp: pg_round_down_def pg_ofs_def and.assoc)
  then have "spt_find_page h' a \<noteq> ret page" for a
    using spt_find_map [OF h'(2), of a] assms(3,4,6) h'(3) by (auto split: option.splits)
  then show ?thesis using h'(1) assms(4) by simp
qed

end
