(* ===== verification/Mmu.thy ===== *)
theory Mmu
  imports Palloc
begin

text \<open>
  The page tables, \<open>threads/mmu.c\<close> with the index macros of \<open>include/threads/pte.h\<close>: four levels of tables of 512
  entries, in memory pages that the page allocator hands out. The walks, the operations on a
  mapping, the iteration over all entries and the destruction of the tables are modelled on the memory
  cells of \<open>Palloc\<close>. The base page table of the kernel is an argument; loading the register \<open>cr3\<close> and
  flushing the translation cache have no effect on the memory.

  The abstraction of a table is the function \<open>pte_of\<close> from virtual addresses to entries, 0 where a table is
  missing. The lemmas show that a walk that creates tables leaves it alone, also when memory runs out
  in the middle, and that each operation changes it at one page only.
\<close>

section \<open>Entries\<close>

definition PML4 :: "u64 \<Rightarrow> u64" where "PML4 la = drop_bit 39 la AND 0x1FF"
definition PDPE :: "u64 \<Rightarrow> u64" where "PDPE la = drop_bit 30 la AND 0x1FF"
definition PDX :: "u64 \<Rightarrow> u64" where "PDX la = drop_bit 21 la AND 0x1FF"
definition PTX :: "u64 \<Rightarrow> u64" where "PTX la = drop_bit 12 la AND 0x1FF"
definition PTE_ADDR :: "u64 \<Rightarrow> u64" where "PTE_ADDR pte = pte AND NOT 0xFFF"
definition PTE_P :: u64 where "PTE_P = 0x1"
definition PTE_W :: u64 where "PTE_W = 0x2"
definition PTE_U :: u64 where "PTE_U = 0x4"
definition PTE_A :: u64 where "PTE_A = 0x20"
definition PTE_D :: u64 where "PTE_D = 0x40"

definition put_cell :: "phys \<Rightarrow> ptr \<Rightarrow> u64 \<Rightarrow> phys" where
  "put_cell s a v = s\<lparr>cells := (cells s)(a := v)\<rparr>"

section \<open>Walking\<close>

text \<open>
  What the three walks do with the entry at \<open>slot\<close>: \<open>None\<close> when there is no table behind it, otherwise
  whether one was allocated.
\<close>

definition enter_table :: "phys \<Rightarrow> ptr \<Rightarrow> bool \<Rightarrow> (bool option \<times> phys) exec" where
  "enter_table s slot create =
     (if cells s slot AND PTE_P = 0 then
        if create then
          bindE (palloc_get_page s PAL_ZERO) (\<lambda>(new_page, s).
          if new_page \<noteq> NULL then
            bindE (vtop new_page) (\<lambda>pa. ret (Some True, put_cell s slot (pa OR PTE_U OR PTE_W OR PTE_P)))
          else ret (None, s))
        else ret (None, s)
      else ret (Some False, s))"

definition pgdir_walk :: "phys \<Rightarrow> ptr \<Rightarrow> u64 \<Rightarrow> bool \<Rightarrow> (ptr \<times> phys) exec" where
  "pgdir_walk s pdp va create =
     (if pdp = NULL then ret (NULL, s)
      else let slot = pdp + 8 * PDX va in
        bindE (enter_table s slot create) (\<lambda>(r, s).
        if r = None then ret (NULL, s) else ret (ptov (PTE_ADDR (cells s slot) + 8 * PTX va), s)))"

definition undo_table :: "phys \<Rightarrow> ptr \<Rightarrow> ptr \<Rightarrow> bool \<Rightarrow> (ptr \<times> phys) exec" where
  "undo_table s slot pte allocated =
     (if pte = NULL \<and> allocated then
        bindE (palloc_free_page s (ptov (PTE_ADDR (cells s slot)))) (\<lambda>s. ret (pte, put_cell s slot 0))
      else ret (pte, s))"

definition pdpe_walk :: "phys \<Rightarrow> ptr \<Rightarrow> u64 \<Rightarrow> bool \<Rightarrow> (ptr \<times> phys) exec" where
  "pdpe_walk s pdpe va create =
     (if pdpe = NULL then ret (NULL, s)
      else let slot = pdpe + 8 * PDPE va in
        bindE (enter_table s slot create) (\<lambda>(r, s).
        case r of
          None \<Rightarrow> ret (NULL, s)
        | Some allocated \<Rightarrow>
            bindE (pgdir_walk s (ptov (PTE_ADDR (cells s slot))) va create) (\<lambda>(pte, s). undo_table s slot pte allocated)))"

definition pml4e_walk :: "phys \<Rightarrow> ptr \<Rightarrow> u64 \<Rightarrow> bool \<Rightarrow> (ptr \<times> phys) exec" where
  "pml4e_walk s pml4e va create =
     (if pml4e = NULL then ret (NULL, s)
      else let slot = pml4e + 8 * PML4 va in
        bindE (enter_table s slot create) (\<lambda>(r, s).
        case r of
          None \<Rightarrow> ret (NULL, s)
        | Some allocated \<Rightarrow>
            bindE (pdpe_walk s (ptov (PTE_ADDR (cells s slot))) va create) (\<lambda>(pte, s). undo_table s slot pte allocated)))"

definition pml4_create :: "phys \<Rightarrow> ptr \<Rightarrow> (ptr \<times> phys) exec" where
  "pml4_create s base_pml4 =
     bindE (palloc_get_page s 0) (\<lambda>(pml4, s).
     if pml4 \<noteq> NULL
     then ret (pml4, s\<lparr>cells := (\<lambda>a. if a - pml4 < PGSIZE then cells s (base_pml4 + (a - pml4)) else cells s a)\<rparr>)
     else ret (pml4, s))"

section \<open>Iteration and destruction\<close>

text \<open>A loop over the indices of a table that stops when its body returns false.\<close>

fun for_each_index :: "(nat \<Rightarrow> 's \<Rightarrow> (bool \<times> 's) exec) \<Rightarrow> nat list \<Rightarrow> 's \<Rightarrow> (bool \<times> 's) exec" where
  "for_each_index f [] s = ret (True, s)"
| "for_each_index f (i # is) s = bindE (f i s) (\<lambda>(ok, s). if ok then for_each_index f is s else ret (False, s))"

abbreviation table_indices :: "nat list" where
  "table_indices \<equiv> [0..<512]"

text \<open>\<open>func\<close> gets the address of an entry and its virtual address; \<open>'a\<close> is the type of what \<open>aux\<close> points to.\<close>

type_synonym 'a pte_func = "ptr \<Rightarrow> ptr \<Rightarrow> phys \<times> 'a \<Rightarrow> (bool \<times> phys \<times> 'a) exec"

definition entry :: "phys \<Rightarrow> ptr \<Rightarrow> nat \<Rightarrow> u64" where
  "entry s t i = cells s (t + 8 * of_nat i)"

definition pt_for_each :: "'a pte_func \<Rightarrow> ptr \<Rightarrow> nat \<Rightarrow> nat \<Rightarrow> nat \<Rightarrow> phys \<times> 'a \<Rightarrow> (bool \<times> phys \<times> 'a) exec" where
  "pt_for_each func pt pml4_index pdp_index pdx_index =
     for_each_index (\<lambda>i (s, aux).
       if entry s pt i AND PTE_P \<noteq> 0 then
         func (pt + 8 * of_nat i)
           (push_bit 39 (of_nat pml4_index) OR push_bit 30 (of_nat pdp_index) OR push_bit 21 (of_nat pdx_index) OR push_bit 12 (of_nat i)) (s, aux)
       else ret (True, s, aux)) table_indices"

definition pgdir_for_each :: "'a pte_func \<Rightarrow> ptr \<Rightarrow> nat \<Rightarrow> nat \<Rightarrow> phys \<times> 'a \<Rightarrow> (bool \<times> phys \<times> 'a) exec" where
  "pgdir_for_each func pdp pml4_index pdp_index =
     for_each_index (\<lambda>i (s, aux).
       let pte = ptov (entry s pdp i) in
       if pte AND PTE_P \<noteq> 0 then pt_for_each func (PTE_ADDR pte) pml4_index pdp_index i (s, aux) else ret (True, s, aux)) table_indices"

definition pdp_for_each :: "'a pte_func \<Rightarrow> ptr \<Rightarrow> nat \<Rightarrow> phys \<times> 'a \<Rightarrow> (bool \<times> phys \<times> 'a) exec" where
  "pdp_for_each func pdp pml4_index =
     for_each_index (\<lambda>i (s, aux).
       let pde = ptov (entry s pdp i) in
       if pde AND PTE_P \<noteq> 0 then pgdir_for_each func (PTE_ADDR pde) pml4_index i (s, aux) else ret (True, s, aux)) table_indices"

definition pml4_for_each :: "'a pte_func \<Rightarrow> ptr \<Rightarrow> phys \<times> 'a \<Rightarrow> (bool \<times> phys \<times> 'a) exec" where
  "pml4_for_each func pml4 =
     for_each_index (\<lambda>i (s, aux).
       let pdpe = ptov (entry s pml4 i) in
       if pdpe AND PTE_P \<noteq> 0 then pdp_for_each func (PTE_ADDR pdpe) i (s, aux) else ret (True, s, aux)) table_indices"

text \<open>The destructors: every present entry is handed to the destructor of the next level, then the table is freed.\<close>

definition destroy_table :: "(ptr \<Rightarrow> phys \<Rightarrow> phys exec) \<Rightarrow> ptr \<Rightarrow> phys \<Rightarrow> phys exec" where
  "destroy_table below t s =
     bindE (for_each_index (\<lambda>i s.
       let pte = ptov (entry s t i) in
       if pte AND PTE_P \<noteq> 0 then bindE (below (PTE_ADDR pte) s) (\<lambda>s. ret (True, s)) else ret (True, s)) table_indices s) (\<lambda>(_, s).
     palloc_free_page s t)"

definition pt_destroy :: "ptr \<Rightarrow> phys \<Rightarrow> phys exec" where
  "pt_destroy = destroy_table (\<lambda>page s. palloc_free_page s page)"

definition pgdir_destroy :: "ptr \<Rightarrow> phys \<Rightarrow> phys exec" where
  "pgdir_destroy = destroy_table pt_destroy"

definition pdpe_destroy :: "ptr \<Rightarrow> phys \<Rightarrow> phys exec" where
  "pdpe_destroy = destroy_table pgdir_destroy"

definition pml4_destroy :: "ptr \<Rightarrow> phys \<Rightarrow> ptr \<Rightarrow> phys exec" where
  "pml4_destroy base_pml4 s pml4 =
     (if pml4 = NULL then ret s
      else ASSERT (pml4 \<noteq> base_pml4) (
        let pdpe = ptov (entry s pml4 0) in
        bindE (if pdpe AND PTE_P \<noteq> 0 then pdpe_destroy (PTE_ADDR pdpe) s else ret s) (\<lambda>s.
        palloc_free_page s pml4)))"

section \<open>Mappings\<close>

definition pml4_get_page :: "phys \<Rightarrow> ptr \<Rightarrow> ptr \<Rightarrow> ptr exec" where
  "pml4_get_page s pml4 uaddr =
     ASSERT (is_user_vaddr uaddr) (
     bindE (pml4e_walk s pml4 uaddr False) (\<lambda>(pte, s).
     if pte \<noteq> NULL \<and> cells s pte AND PTE_P \<noteq> 0 then ret (ptov (PTE_ADDR (cells s pte)) + pg_ofs uaddr) else ret NULL))"

definition pml4_set_page :: "ptr \<Rightarrow> phys \<Rightarrow> ptr \<Rightarrow> ptr \<Rightarrow> ptr \<Rightarrow> bool \<Rightarrow> (bool \<times> phys) exec" where
  "pml4_set_page base_pml4 s pml4 upage kpage rw =
     ASSERT (pg_ofs upage = 0) (ASSERT (pg_ofs kpage = 0) (ASSERT (is_user_vaddr upage) (ASSERT (pml4 \<noteq> base_pml4) (
     bindE (pml4e_walk s pml4 upage True) (\<lambda>(pte, s).
     if pte \<noteq> NULL then
       bindE (vtop kpage) (\<lambda>pa. ret (True, put_cell s pte (pa OR PTE_P OR (if rw then PTE_W else 0) OR PTE_U)))
     else ret (False, s))))))"

definition pml4_clear_page :: "phys \<Rightarrow> ptr \<Rightarrow> ptr \<Rightarrow> phys exec" where
  "pml4_clear_page s pml4 upage =
     ASSERT (pg_ofs upage = 0) (ASSERT (is_user_vaddr upage) (
     bindE (pml4e_walk s pml4 upage False) (\<lambda>(pte, s).
     if pte \<noteq> NULL \<and> cells s pte AND PTE_P \<noteq> 0 then ret (put_cell s pte (cells s pte AND NOT PTE_P)) else ret s)))"

definition pml4_is_dirty :: "phys \<Rightarrow> ptr \<Rightarrow> ptr \<Rightarrow> bool exec" where
  "pml4_is_dirty s pml4 vpage =
     bindE (pml4e_walk s pml4 vpage False) (\<lambda>(pte, s). ret (pte \<noteq> NULL \<and> cells s pte AND PTE_D \<noteq> 0))"

text \<open>
  The mask of the setters is a 32-bit number: clearing a flag with \<open>~(uint32_t) PTE_D\<close> also clears the
  upper half of the entry.
\<close>

definition clear_flag :: "u64 \<Rightarrow> u64 \<Rightarrow> u64" where
  "clear_flag e flag = e AND ucast (NOT (ucast flag :: u32))"

definition pml4_set_dirty :: "phys \<Rightarrow> ptr \<Rightarrow> ptr \<Rightarrow> bool \<Rightarrow> phys exec" where
  "pml4_set_dirty s pml4 vpage dirty =
     bindE (pml4e_walk s pml4 vpage False) (\<lambda>(pte, s).
     if pte \<noteq> NULL then ret (put_cell s pte (if dirty then cells s pte OR PTE_D else clear_flag (cells s pte) PTE_D)) else ret s)"

definition pml4_is_accessed :: "phys \<Rightarrow> ptr \<Rightarrow> ptr \<Rightarrow> bool exec" where
  "pml4_is_accessed s pml4 vpage =
     bindE (pml4e_walk s pml4 vpage False) (\<lambda>(pte, s). ret (pte \<noteq> NULL \<and> cells s pte AND PTE_A \<noteq> 0))"

definition pml4_set_accessed :: "phys \<Rightarrow> ptr \<Rightarrow> ptr \<Rightarrow> bool \<Rightarrow> phys exec" where
  "pml4_set_accessed s pml4 vpage accessed =
     bindE (pml4e_walk s pml4 vpage False) (\<lambda>(pte, s).
     if pte \<noteq> NULL then ret (put_cell s pte (if accessed then cells s pte OR PTE_A else clear_flag (cells s pte) PTE_A)) else ret s)"

section \<open>Addresses of entries\<close>

definition idx :: "nat \<Rightarrow> u64 \<Rightarrow> u64" where
  "idx d va = (if d = 0 then PML4 va else if d = 1 then PDPE va else if d = 2 then PDX va else PTX va)"

lemma and_1FF_less: "(x AND 0x1FF :: u64) < 512"
proof -
  have "x AND 0x1FF = take_bit 9 x" by (simp add: take_bit_eq_mask mask_eq_exp_minus_1)
  moreover have "unat (take_bit 9 x) < 512" by (simp add: take_bit_eq_mod unat_mod)
  ultimately show ?thesis by (simp add: word_less_nat_alt)
qed

lemma idx_less: "idx d va < 512"
  by (simp add: idx_def PML4_def PDPE_def PDX_def PTX_def and_1FF_less)

lemma unat_slot:
  assumes "pg_ofs t = 0" and "k < 4096"
  shows "unat (t + k) = unat t + unat k" "4096 dvd unat t" "unat k < 4096"
proof -
  show k: "unat k < 4096" using assms(2) by (simp add: word_less_nat_alt)
  show d: "4096 dvd unat t" using assms(1) by (simp add: pg_ofs_0_iff)
  then obtain q where "unat t = 4096 * q" by blast
  moreover have "unat t < 2 ^ 64" by (rule unat_u64_bound)
  ultimately have "unat t + unat k < 2 ^ 64" using k by simp
  then show "unat (t + k) = unat t + unat k" by (simp add: unat_word_ariths)
qed

lemma idx_offset: "i < 512 \<Longrightarrow> (8 * i :: u64) < 4096 \<and> unat (8 * i) = 8 * unat i"
proof -
  assume "i < 512"
  then have "unat i < 512" by (simp add: word_less_nat_alt)
  moreover from this have "unat (8 * i) = 8 * unat i" by (simp add: unat_word_ariths)
  ultimately show ?thesis by (simp add: word_less_nat_alt)
qed

text \<open>An address inside a page determines the page.\<close>

lemma page_unique:
  assumes "pg_ofs t = 0" "pg_ofs t' = 0" "k < 4096" "k' < 4096" "t + k = t' + k'"
  shows "t = t' \<and> k = k'"
proof -
  note u = unat_slot [OF assms(1,3)] and u' = unat_slot [OF assms(2,4)]
  obtain q q' where q: "unat t = 4096 * q" "unat t' = 4096 * q'" using u(2) u'(2) by (auto elim!: dvdE)
  have "4096 * q + unat k = 4096 * q' + unat k'" using u(1) u'(1) q assms(5) by metis
  then have "(4096 * q + unat k) div 4096 = (4096 * q' + unat k') div 4096" by simp
  then have "q = q'" using u(3) u'(3) by simp
  then have "t = t'" using q by (simp add: word_unat_eq_iff)
  then show ?thesis using assms(5) by simp
qed

lemma slot_eq_iff:
  assumes "pg_ofs t = 0" "pg_ofs t' = 0" "i < 512" "i' < 512"
  shows "t + 8 * i = t' + 8 * i' \<longleftrightarrow> t = t' \<and> i = i'"
proof
  assume "t + 8 * i = t' + 8 * i'"
  then have e: "t = t'" "8 * i = 8 * i'"
    using page_unique [OF assms(1,2), of "8 * i" "8 * i'"] idx_offset [OF assms(3)] idx_offset [OF assms(4)] by blast+
  then have "8 * unat i = 8 * unat i'" using idx_offset [OF assms(3)] idx_offset [OF assms(4)] by simp
  then show "t = t' \<and> i = i'" using e(1) by (simp add: word_unat_eq_iff)
qed simp

lemma slot_in_page:
  assumes "pg_ofs t = 0" "pg_ofs n = 0" "i < 512" "t \<noteq> n"
  shows "\<not> t + 8 * i - n < PGSIZE"
proof
  assume "t + 8 * i - n < PGSIZE"
  then have "t = n" using page_unique [of t n "8 * i" "t + 8 * i - n"] assms idx_offset by (simp add: PGSIZE_def)
  then show False using assms(4) by simp
qed

text \<open>The entry of a page that was just allocated leads back to that page.\<close>

lemma PTE_ADDR_aligned: "pg_ofs x = 0 \<Longrightarrow> x AND NOT 0xFFF = x"
proof -
  assume "pg_ofs x = 0"
  then have "x AND 0xFFF = 0" by (simp add: pg_ofs_def PGMASK_def)
  moreover have "x = (x AND 0xFFF) OR (x AND NOT 0xFFF)" by (simp flip: bit.conj_disj_distrib)
  ultimately show ?thesis by simp
qed

lemma entry_roundtrip:
  assumes "pg_ofs n = 0" "is_kernel_vaddr n" and "f AND NOT 0xFFF = 0"
  shows "ptov (PTE_ADDR ((n - KERN_BASE) OR f)) = n"
proof -
  have "4096 dvd unat KERN_BASE" by (simp add: KERN_BASE_def)
  then have "pg_ofs (n - KERN_BASE) = 0" using assms(1,2) by (simp add: pg_ofs_0_iff is_kernel_vaddr_def unat_sub dvd_diff_nat)
  then have "(n - KERN_BASE) AND NOT 0xFFF = n - KERN_BASE" by (rule PTE_ADDR_aligned)
  then show ?thesis using assms(3) by (simp add: ptov_def PTE_ADDR_def bit.conj_disj_distrib2)
qed

section \<open>The tree of tables\<close>

text \<open>The table of depth \<open>d\<close> on the way to \<open>va\<close>, and the addresses that share the way to it.\<close>

fun tab :: "phys \<Rightarrow> ptr \<Rightarrow> nat \<Rightarrow> u64 \<Rightarrow> ptr option" where
  "tab s pml4 0 va = Some pml4"
| "tab s pml4 (Suc d) va =
     (case tab s pml4 d va of
        None \<Rightarrow> None
      | Some t \<Rightarrow> let e = cells s (t + 8 * idx d va) in if e AND PTE_P = 0 then None else Some (ptov (PTE_ADDR e)))"

definition same :: "nat \<Rightarrow> u64 \<Rightarrow> u64 \<Rightarrow> bool" where
  "same d va va' \<longleftrightarrow> (\<forall>i < d. idx i va = idx i va')"

lemma same_simps [simp]: "same 0 va va'" "same (Suc d) va va' \<longleftrightarrow> same d va va' \<and> idx d va = idx d va'" "same d va va"
  by (auto simp: same_def less_Suc_eq)

lemma same_sym: "same d va va' \<Longrightarrow> same d va' va"
  by (simp add: same_def)

lemma tab_same: "same d va va' \<Longrightarrow> tab s pml4 d va = tab s pml4 d va'"
  by (induction d) (auto split: option.split)

lemma same_4: "same 4 va va' \<longleftrightarrow> same 3 va va' \<and> idx 3 va = idx 3 va'"
  using same_simps(2) [of 3 va va'] by simp

definition pte_of :: "phys \<Rightarrow> ptr \<Rightarrow> u64 \<Rightarrow> u64" where
  "pte_of s pml4 va = (case tab s pml4 3 va of None \<Rightarrow> 0 | Some t \<Rightarrow> cells s (t + 8 * PTX va))"

text \<open>Every table is a page in use, and is the table of one level and one part of the address space.\<close>

definition vm_ok :: "phys \<Rightarrow> ptr \<Rightarrow> bool" where
  "vm_ok s pml4 \<longleftrightarrow> phys_wf s \<and> (\<forall>d va t. d \<le> 3 \<and> tab s pml4 d va = Some t \<longrightarrow> t \<in> used_pages s) \<and>
     (\<forall>d d' va va' t. d \<le> 3 \<and> d' \<le> 3 \<and> tab s pml4 d va = Some t \<and> tab s pml4 d' va' = Some t \<longrightarrow> d = d' \<and> same d va va')"

lemma vm_ok_unique:
  "vm_ok s pml4 \<Longrightarrow> d \<le> 3 \<Longrightarrow> d' \<le> 3 \<Longrightarrow> tab s pml4 d va = Some t \<Longrightarrow> tab s pml4 d' va' = Some t \<Longrightarrow> d = d' \<and> same d va va'"
  unfolding vm_ok_def by blast

lemma used_page_props:
  assumes "phys_wf s" and "t \<in> used_pages s"
  shows "pg_ofs t = 0" "is_kernel_vaddr t" "t \<noteq> NULL"
proof -
  from assms(2) obtain p where p: "t \<in> pool_pages p" "p = kernel_pool s \<or> p = user_pool s" by (auto simp: used_pages_def)
  then have "pool_wf p" using assms(1) by (auto simp: phys_wf_def)
  moreover from p(1) obtain i where i: "i \<in> bm_used (used_map p)" "t = page_at p i" by (auto simp: pool_pages_def)
  moreover from i(1) have "i < unat (bit_cnt (used_map p))" by (simp add: bm_used_def)
  ultimately show "pg_ofs t = 0" "is_kernel_vaddr t" "t \<noteq> NULL" using page_at_props(1,2,3) [of p i] by simp_all
qed

lemma table_props:
  assumes "vm_ok s pml4" and "d \<le> 3" and "tab s pml4 d va = Some t"
  shows "pg_ofs t = 0" "is_kernel_vaddr t" "t \<noteq> NULL" "t \<in> used_pages s"
proof -
  have "phys_wf s" "t \<in> used_pages s" using assms unfolding vm_ok_def by blast+
  then show "pg_ofs t = 0" "is_kernel_vaddr t" "t \<noteq> NULL" "t \<in> used_pages s" using used_page_props by blast+
qed

text \<open>Changing one entry affects only what lies behind it.\<close>

lemma tab_frame:
  assumes ok: "vm_ok s pml4" and t0: "tab s pml4 d0 va0 = Some t0" "d0 \<le> 3"
    and eq: "\<And>d va t i. d \<le> 3 \<Longrightarrow> tab s pml4 d va = Some t \<Longrightarrow> i < 512 \<Longrightarrow> t + 8 * i \<noteq> t0 + 8 * idx d0 va0 \<Longrightarrow>
      cells s' (t + 8 * i) = cells s (t + 8 * i)"
    and d: "d \<le> 4" "\<not> (d0 < d \<and> same (Suc d0) va va0)"
  shows "tab s' pml4 d va = tab s pml4 d va"
  using d
proof (induction d)
  case (Suc d)
  have IH: "tab s' pml4 d va = tab s pml4 d va" using Suc by auto
  show ?case
  proof (cases "tab s pml4 d va")
    case (Some t)
    have d3: "d \<le> 3" using Suc.prems(1) by simp
    have "t + 8 * idx d va \<noteq> t0 + 8 * idx d0 va0"
    proof
      assume "t + 8 * idx d va = t0 + 8 * idx d0 va0"
      then have e: "t = t0" "idx d va = idx d0 va0"
        using slot_eq_iff [of t t0 "idx d va" "idx d0 va0"] table_props(1) [OF ok _ Some] table_props(1) [OF ok t0(2,1)] idx_less Suc.prems(1) by auto
      then have "d = d0 \<and> same d va va0" using vm_ok_unique [OF ok _ t0(2) Some t0(1) [folded e(1)]] d3 by blast
      then show False using e(2) Suc.prems(2) by auto
    qed
    then have "cells s' (t + 8 * idx d va) = cells s (t + 8 * idx d va)" using eq [OF _ Some idx_less] Suc.prems(1) by simp
    then show ?thesis using IH Some by simp
  qed (use IH in simp)
qed simp

lemma tab_None: "tab s pml4 d va = None \<Longrightarrow> d \<le> d' \<Longrightarrow> tab s pml4 d' va = None"
  by (induction d') (auto simp: le_Suc_eq)

text \<open>Storing a leaf entry.\<close>

lemma store_pte:
  fixes v :: u64
  assumes ok: "vm_ok s pml4" and t: "tab s pml4 3 va = Some t"
  defines "s' \<equiv> put_cell s (t + 8 * PTX va) v"
  shows "vm_ok s' pml4" "pte_of s' pml4 = (\<lambda>va'. if same 4 va' va then v else pte_of s pml4 va')"
proof -
  have px: "PTX va = idx 3 va" for va by (simp add: idx_def)
  have tabs: "tab s' pml4 d va' = tab s pml4 d va'" if "d \<le> 3" for d va'
    using that by (intro tab_frame [OF ok t]) (auto simp: s'_def put_cell_def px)
  have "phys_wf s' = phys_wf s" "used_pages s' = used_pages s" by (simp_all add: s'_def put_cell_def phys_wf_def used_pages_def)
  then show "vm_ok s' pml4" using ok tabs unfolding vm_ok_def by (metis (no_types))
  show "pte_of s' pml4 = (\<lambda>va'. if same 4 va' va then v else pte_of s pml4 va')"
  proof
    fix va'
    show "pte_of s' pml4 va' = (if same 4 va' va then v else pte_of s pml4 va')"
    proof (cases "tab s pml4 3 va'")
      case None
      then have "\<not> same 3 va' va" using t tab_same [of 3 va' va s pml4] by auto
      then have "\<not> same 4 va' va" by (simp add: same_4)
      then show ?thesis using None tabs [of 3 va'] by (simp add: pte_of_def)
    next
      case (Some t')
      have "t' + 8 * PTX va' = t + 8 * PTX va \<longleftrightarrow> t' = t \<and> idx 3 va' = idx 3 va"
        unfolding px using table_props(1) [OF ok _ Some] table_props(1) [OF ok _ t] idx_less by (intro slot_eq_iff) auto
      also have "\<dots> \<longleftrightarrow> same 3 va' va \<and> idx 3 va' = idx 3 va"
        using vm_ok_unique [OF ok _ _ Some, of 3 va] t Some tab_same [of 3 va' va s pml4] by auto
      also have "\<dots> \<longleftrightarrow> same 4 va' va" by (simp add: same_4)
      finally have "t' + 8 * PTX va' = t + 8 * PTX va \<longleftrightarrow> same 4 va' va" .
      then show ?thesis using Some tabs [of 3 va'] by (auto simp: pte_of_def s'_def put_cell_def)
    qed
  qed
qed

lemma slot_not_null: "vm_ok s pml4 \<Longrightarrow> d \<le> 3 \<Longrightarrow> tab s pml4 d va = Some t \<Longrightarrow> t + 8 * idx d' va' \<noteq> NULL"
proof -
  assume a: "vm_ok s pml4" "d \<le> 3" "tab s pml4 d va = Some t"
  have "unat (t + 8 * idx d' va') = unat t + unat (8 * idx d' va')"
    using table_props(1) [OF a] idx_offset [OF idx_less] by (intro unat_slot) auto
  moreover have "unat t \<noteq> 0" using table_props(3) [OF a] by (simp add: unat_eq_zero)
  ultimately show ?thesis by auto
qed

text \<open>
  The pages in use that are no tables of the tree; an operation keeps them when they stay in use and no
  byte of them changes.
\<close>

definition tables :: "phys \<Rightarrow> ptr \<Rightarrow> ptr set" where
  "tables s pml4 = {t. \<exists>d va. d \<le> 3 \<and> tab s pml4 d va = Some t}"

definition data_pages :: "phys \<Rightarrow> ptr \<Rightarrow> ptr set" where
  "data_pages s pml4 = used_pages s - tables s pml4"

definition keeps :: "phys \<Rightarrow> phys \<Rightarrow> ptr \<Rightarrow> bool" where
  "keeps s s' pml4 \<longleftrightarrow> data_pages s pml4 \<subseteq> data_pages s' pml4 \<and>
     (\<forall>p \<in> data_pages s pml4. \<forall>a. a - p < PGSIZE \<longrightarrow> cells s' a = cells s a)"

lemma tablesI: "tab s pml4 d va = Some t \<Longrightarrow> d \<le> 3 \<Longrightarrow> t \<in> tables s pml4"
  unfolding tables_def by blast

lemma keeps_refl [simp]: "keeps s s pml4"
  by (simp add: keeps_def)

lemma keeps_trans: "keeps s s' pml4 \<Longrightarrow> keeps s' s'' pml4 \<Longrightarrow> keeps s s'' pml4"
  by (force simp: keeps_def)

lemma pages_apart:
  assumes "pg_ofs p = 0" "pg_ofs q = 0" "p \<noteq> q" "a - p < PGSIZE"
  shows "\<not> a - q < PGSIZE"
  using page_unique [of p q "a - p" "a - q"] assms by (auto simp: PGSIZE_def)

lemma in_page_slot: "i < 512 \<Longrightarrow> t + 8 * i - t < PGSIZE"
  using idx_offset [of i] by (simp add: PGSIZE_def)

text \<open>A change inside tables and inside pages that are not in use keeps the data pages.\<close>

lemma keepsI:
  assumes wf: "phys_wf s" and used: "used_pages s - T \<subseteq> used_pages s'" and tabs: "tables s' pml4 \<subseteq> tables s pml4 \<union> N" "N \<inter> used_pages s \<subseteq> tables s pml4"
    and T: "T \<subseteq> tables s pml4"
    and eq: "\<And>a. cells s' a \<noteq> cells s a \<Longrightarrow> \<exists>q. pg_ofs q = 0 \<and> a - q < PGSIZE \<and> (q \<notin> used_pages s \<or> q \<in> tables s pml4)"
  shows "keeps s s' pml4"
proof -
  have "cells s' a = cells s a" if p: "p \<in> data_pages s pml4" "a - p < PGSIZE" for p a
  proof (rule ccontr)
    assume "cells s' a \<noteq> cells s a"
    then obtain q where q: "pg_ofs q = 0" "a - q < PGSIZE" "q \<notin> used_pages s \<or> q \<in> tables s pml4" using eq by blast
    have "pg_ofs p = 0" using p(1) used_page_props(1) [OF wf] by (auto simp: data_pages_def)
    moreover have "p \<noteq> q" using p(1) q(3) by (auto simp: data_pages_def)
    ultimately show False using pages_apart [OF _ q(1) _ p(2)] q(2) by blast
  qed
  moreover have "data_pages s pml4 \<subseteq> data_pages s' pml4" using used tabs T by (auto simp: data_pages_def)
  ultimately show ?thesis by (simp add: keeps_def)
qed

lemma store_pte_keeps:
  assumes ok: "vm_ok s pml4" and t: "tab s pml4 3 va = Some t"
  shows "d \<le> 3 \<Longrightarrow> tab (put_cell s (t + 8 * PTX va) v) pml4 d va' = tab s pml4 d va'" "keeps s (put_cell s (t + 8 * PTX va) v) pml4"
proof -
  let ?s = "put_cell s (t + 8 * PTX va) v"
  have px: "PTX va = idx 3 va" by (simp add: idx_def)
  have tabs: "tab ?s pml4 d va' = tab s pml4 d va'" if "d \<le> 3" for d va'
    using that by (intro tab_frame [OF ok t]) (auto simp: put_cell_def px)
  then show "d \<le> 3 \<Longrightarrow> tab ?s pml4 d va' = tab s pml4 d va'" .
  have "tables ?s pml4 = tables s pml4" unfolding tables_def using tabs by (metis (no_types))
  moreover have "used_pages ?s = used_pages s" by (simp add: put_cell_def used_pages_def)
  moreover
  have "t \<in> tables s pml4" "pg_ofs t = 0" using tablesI [OF t] table_props(1) [OF ok _ t] by auto
  then have "\<exists>q. pg_ofs q = 0 \<and> a - q < PGSIZE \<and> (q \<notin> used_pages s \<or> q \<in> tables s pml4)" if "cells ?s a \<noteq> cells s a" for a
    using that in_page_slot [OF idx_less, of t 3 va] by (intro exI [of _ t]) (auto simp: put_cell_def px split: if_splits)
  ultimately show "keeps s ?s pml4"
    using ok by (intro keepsI [where T = "{}" and N = "{}"]) (auto simp: vm_ok_def)
qed

text \<open>What a walk that may create tables does to the tree.\<close>

definition walk_ok :: "phys \<Rightarrow> phys \<Rightarrow> ptr \<Rightarrow> u64 \<Rightarrow> ptr \<Rightarrow> bool" where
  "walk_ok s s' pml4 va pte \<longleftrightarrow> vm_ok s' pml4 \<and> pte_of s' pml4 = pte_of s pml4 \<and> keeps s s' pml4 \<and>
     (if pte = NULL then \<forall>d va'. d \<le> 3 \<longrightarrow> tab s' pml4 d va' = tab s pml4 d va'
      else \<exists>t. tab s' pml4 3 va = Some t \<and> pte = t + 8 * PTX va)"

lemma enter_new:
  assumes ok: "vm_ok s pml4" and t: "tab s pml4 d va = Some t" "d \<le> 2"
    and e: "cells s (t + 8 * idx d va) AND PTE_P = 0"
    and n: "n \<noteq> NULL" "phys_wf s1" "n \<notin> used_pages s" "used_pages s1 = insert n (used_pages s)" "cells s1 = fill_cells (cells s) n PGSIZE 0"
  defines "s' \<equiv> put_cell s1 (t + 8 * idx d va) ((n - KERN_BASE) OR PTE_U OR PTE_W OR PTE_P)"
  shows "vm_ok s' pml4" "pte_of s' pml4 = pte_of s pml4" "tab s' pml4 (Suc d) va = Some n"
    "n = ptov (PTE_ADDR (cells s' (t + 8 * idx d va)))"
    "\<And>d' va'. d' \<le> 3 \<Longrightarrow> tab s pml4 d' va' = (if Suc d \<le> d' \<and> same (Suc d) va' va then None else tab s' pml4 d' va')"
    "\<And>va'. same (Suc d) va' va \<Longrightarrow> tab s' pml4 (Suc (Suc d)) va' = None" "keeps s s' pml4"
proof -
  let ?slot = "t + 8 * idx d va"
  have np: "pg_ofs n = 0" "is_kernel_vaddr n" using used_page_props [OF n(2), of n] n(4) by auto
  have flags: "(PTE_U OR PTE_W OR PTE_P) AND NOT 0xFFF = 0" by (simp add: PTE_U_def PTE_W_def PTE_P_def)
  show rt: "n = ptov (PTE_ADDR (cells s' ?slot))"
    using entry_roundtrip [OF np flags] by (simp add: s'_def put_cell_def)
  have present: "cells s' ?slot AND PTE_P \<noteq> 0"
    by (simp add: s'_def put_cell_def bit.conj_disj_distrib2 PTE_U_def PTE_W_def PTE_P_def)
  have other: "t' \<noteq> n" if "d' \<le> 3" "tab s pml4 d' va' = Some t'" for d' va' t' using table_props(4) [OF ok that] n(3) by auto
  have eq: "cells s' (t' + 8 * i) = cells s (t' + 8 * i)" if "d' \<le> 3" "tab s pml4 d' va' = Some t'" "i < 512" "t' + 8 * i \<noteq> ?slot" for d' va' t' i
    using slot_in_page [OF table_props(1) [OF ok that(1,2)] np(1) that(3) other [OF that(1,2)]] that(4)
    by (simp add: s'_def put_cell_def n(5) fill_cells_def)
  have d3: "d \<le> 3" using t(2) by simp
  have frame: "tab s' pml4 d' va' = tab s pml4 d' va'" if "d' \<le> 4" "\<not> (d < d' \<and> same (Suc d) va' va)" for d' va'
    by (rule tab_frame [OF ok t(1) d3 eq that]) 
  have zero: "cells s' (n + 8 * idx k va') = 0" for k va'
  proof -
    have "n + 8 * idx k va' \<noteq> ?slot"
      using slot_eq_iff [OF np(1) table_props(1) [OF ok d3 t(1)] idx_less idx_less] other [OF d3 t(1)] by auto
    then show ?thesis using idx_offset [OF idx_less, of k va'] by (simp add: s'_def put_cell_def n(5) fill_cells_def PGSIZE_def)
  qed
  have at: "tab s' pml4 (Suc d) va' = Some n" if "same (Suc d) va' va" for va'
  proof -
    have "tab s' pml4 d va' = tab s pml4 d va'" using t(2) by (intro frame) auto
    also have "\<dots> = Some t" using tab_same [of d va' va s pml4] that t(1) by simp
    finally show ?thesis using that present rt by (simp add: Let_def)
  qed
  show tn: "tab s' pml4 (Suc d) va = Some n" by (rule at) simp
  show below: "tab s' pml4 (Suc (Suc d)) va' = None" if "same (Suc d) va' va" for va'
    using at [OF that] zero [of "Suc d" va'] by (simp add: Let_def)
  have none: "tab s pml4 (Suc d) va' = None" if "same (Suc d) va' va" for va'
    using tab_same [of d va' va s pml4] that t(1) e by (simp add: Let_def)
  show old: "tab s pml4 d' va' = (if Suc d \<le> d' \<and> same (Suc d) va' va then None else tab s' pml4 d' va')" if "d' \<le> 3" for d' va'
    using frame [of d' va'] that tab_None [OF none, of va' d'] by (simp add: Suc_le_eq)
  have kinds: "t' = n \<and> d' = Suc d \<and> same (Suc d) va' va \<or> t' \<noteq> n \<and> tab s pml4 d' va' = Some t'"
    if d': "d' \<le> 3" and t': "tab s' pml4 d' va' = Some t'" for d' va' t'
  proof (cases "Suc d \<le> d' \<and> same (Suc d) va' va")
    case True
    have "\<not> Suc (Suc d) \<le> d'" using tab_None [OF below, of va' d'] True t' by auto
    then have "d' = Suc d" using True by simp
    then show ?thesis using at True t' by auto
  next
    case False
    then have "tab s pml4 d' va' = Some t'" using old [OF d'] t' by auto
    then show ?thesis using other [OF d'] by simp
  qed
  have sp: "phys_wf s'" "used_pages s' = insert n (used_pages s)"
    using n(2,4) by (simp_all add: s'_def put_cell_def phys_wf_def used_pages_def)
  have tt: "t \<in> tables s pml4" "pg_ofs t = 0" using tablesI [OF t(1) d3] table_props(1) [OF ok d3 t(1)] by auto
  show "keeps s s' pml4"
  proof (rule keepsI [where T = "{}" and N = "{n}"])
    show "tables s' pml4 \<subseteq> tables s pml4 \<union> {n}" using kinds by (force simp: tables_def)
    fix a assume "cells s' a \<noteq> cells s a"
    then have "a = ?slot \<or> a - n < PGSIZE" by (auto simp: s'_def put_cell_def n(5) fill_cells_def split: if_splits)
    then show "\<exists>q. pg_ofs q = 0 \<and> a - q < PGSIZE \<and> (q \<notin> used_pages s \<or> q \<in> tables s pml4)"
      using tt np(1) n(3) in_page_slot [OF idx_less, of t d va] by blast
  qed (use ok sp n in \<open>auto simp: vm_ok_def\<close>)
  show "vm_ok s' pml4" unfolding vm_ok_def
  proof (intro conjI allI impI sp(1), goal_cases)
    case (1 d' va' t')
    then show ?case using kinds [of d' va' t'] table_props(4) [OF ok, of d' va' t'] sp(2) by auto
  next
    case (2 d1 d2 va1 va2 t')
    then have "t' = n \<and> d1 = Suc d \<and> d2 = Suc d \<or> tab s pml4 d1 va1 = Some t' \<and> tab s pml4 d2 va2 = Some t'"
      using kinds [of d1 va1 t'] kinds [of d2 va2 t'] by blast
    then show ?case using 2 vm_ok_unique [OF ok, of d1 d2 va1 t' va2] by blast
  next
    case (3 d1 d2 va1 va2 t')
    then have "t' = n \<and> d1 = Suc d \<and> same (Suc d) va1 va \<and> same (Suc d) va2 va \<or> tab s pml4 d1 va1 = Some t' \<and> tab s pml4 d2 va2 = Some t'"
      using kinds [of d1 va1 t'] kinds [of d2 va2 t'] by blast
    then show ?case
    proof (elim disjE conjE)
      assume "d1 = Suc d" "same (Suc d) va1 va" "same (Suc d) va2 va"
      then show ?case unfolding same_def by metis
    next
      assume "tab s pml4 d1 va1 = Some t'" "tab s pml4 d2 va2 = Some t'"
      then show ?case using 3 vm_ok_unique [OF ok, of d1 d2 va1 t' va2] by blast
    qed
  qed
  show "pte_of s' pml4 = pte_of s pml4"
  proof
    fix va'
    have px: "PTX va' = idx 3 va'" by (simp add: idx_def)
    show "pte_of s' pml4 va' = pte_of s pml4 va'"
    proof (cases "same (Suc d) va' va")
      case True
      then have "tab s pml4 3 va' = None" using old [of 3 va'] t(2) by simp
      moreover have "pte_of s' pml4 va' = 0"
        using kinds [of 3 va'] zero [of 3 va'] calculation by (cases "tab s' pml4 3 va'") (auto simp: pte_of_def px)
      ultimately show ?thesis by (simp add: pte_of_def)
    next
      case False
      then have eq3: "tab s' pml4 3 va' = tab s pml4 3 va'" using frame [of 3 va'] by simp
      have "cells s' (t' + 8 * idx 3 va') = cells s (t' + 8 * idx 3 va')" if t': "tab s pml4 3 va' = Some t'" for t'
      proof -
        have "t' + 8 * idx 3 va' \<noteq> ?slot"
        proof
          assume "t' + 8 * idx 3 va' = ?slot"
          then have "t' = t" using slot_eq_iff [OF table_props(1) [OF ok _ t'] table_props(1) [OF ok d3 t(1)] idx_less idx_less] by simp
          then show False using vm_ok_unique [OF ok _ d3 t'] t by fastforce
        qed
        then show ?thesis using eq [OF _ t' idx_less] by simp
      qed
      then show ?thesis using eq3 by (simp add: pte_of_def px split: option.split)
    qed
  qed
qed

lemma undo_ok:
  assumes ok: "vm_ok s pml4" and t: "tab s pml4 d va = Some t" "d \<le> 1" and n: "tab s pml4 (Suc d) va = Some n"
    and empty: "\<And>va'. same (Suc d) va' va \<Longrightarrow> tab s pml4 (Suc (Suc d)) va' = None"
  shows "\<exists>s'. undo_table s (t + 8 * idx d va) NULL True = ret (NULL, s') \<and> vm_ok s' pml4 \<and> pte_of s' pml4 = pte_of s pml4 \<and>
    (\<forall>d' va'. d' \<le> 3 \<longrightarrow> tab s' pml4 d' va' = (if Suc d \<le> d' \<and> same (Suc d) va' va then None else tab s pml4 d' va')) \<and> keeps s s' pml4"
proof -
  let ?slot = "t + 8 * idx d va"
  have d3: "d \<le> 3" "Suc d \<le> 3" using t(2) by simp_all
  note np = table_props [OF ok d3(2) n] and tp = table_props [OF ok d3(1) t(1)]
  have wf: "phys_wf s" using ok by (simp add: vm_ok_def)
  from palloc_free_page_ok [OF wf np(4)] obtain s1 where
    f: "palloc_free_page s n = ret s1" "phys_wf s1" "used_pages s1 = used_pages s - {n}" "cells s1 = fill_cells (cells s) n PGSIZE 0xcccccccccccccccc" by blast
  define s' where "s' = put_cell s1 ?slot 0"
  have pt: "ptov (PTE_ADDR (cells s ?slot)) = n" using t(1) n by (auto simp: Let_def split: if_splits)
  have run: "undo_table s ?slot NULL True = ret (NULL, s')" using f(1) pt by (simp add: undo_table_def s'_def)
  have tn: "t \<noteq> n" using vm_ok_unique [OF ok d3 t(1)] n by fastforce
  have eq: "cells s' (t' + 8 * i) = cells s (t' + 8 * i)" if "d' \<le> 3" "tab s pml4 d' va' = Some t'" "t' \<noteq> n" "i < 512" "t' + 8 * i \<noteq> ?slot" for d' va' t' i
    using slot_in_page [OF table_props(1) [OF ok that(1,2)] np(1) that(4,3)] that(5)
    by (simp add: s'_def put_cell_def f(4) fill_cells_def)
  have slot0: "cells s' ?slot = 0" by (simp add: s'_def put_cell_def)
  have tabs: "tab s' pml4 d' va' = (if Suc d \<le> d' \<and> same (Suc d) va' va then None else tab s pml4 d' va')" if "d' \<le> 3" for d' va'
    using that
  proof (induction d')
    case (Suc d')
    show ?case
    proof (cases "Suc d \<le> d' \<and> same (Suc d) va' va")
      case True
      then show ?thesis using Suc by simp
    next
      case False
      then have IH: "tab s' pml4 d' va' = tab s pml4 d' va'" using Suc by auto
      show ?thesis
      proof (cases "tab s pml4 d' va'")
        case None
        then show ?thesis using IH by simp
      next
        case (Some t')
        have d': "d' \<le> 3" using Suc.prems by simp
        have t'n: "t' \<noteq> n"
        proof
          assume "t' = n"
          then have "d' = Suc d \<and> same d' va' va" using vm_ok_unique [OF ok d' d3(2) _ n] Some by blast
          then show False using False by auto
        qed
        have "t' + 8 * idx d' va' = ?slot \<longleftrightarrow> d' = d \<and> same (Suc d) va' va"
        proof
          assume "t' + 8 * idx d' va' = ?slot"
          then have e: "t' = t" "idx d' va' = idx d va"
            using slot_eq_iff [OF table_props(1) [OF ok d' Some] tp(1) idx_less idx_less] by auto
          then have "d' = d \<and> same d' va' va" using vm_ok_unique [OF ok d' d3(1) _ t(1)] Some by blast
          then show "d' = d \<and> same (Suc d) va' va" using e(2) by auto
        next
          assume a: "d' = d \<and> same (Suc d) va' va"
          then have "t' = t" using tab_same [of d va' va s pml4] Some t(1) by simp
          then show "t' + 8 * idx d' va' = ?slot" using a by simp
        qed
        then show ?thesis using IH Some eq [OF d' Some t'n idx_less] slot0 False
          by (cases "d' = d \<and> same (Suc d) va' va") (auto simp: Let_def not_less_eq_eq le_Suc_eq)
      qed
    qed
  qed simp
  have sp: "phys_wf s'" "used_pages s' = used_pages s - {n}"
    using f(2,3) by (simp_all add: s'_def put_cell_def phys_wf_def used_pages_def)
  have old: "tab s pml4 d' va' = Some t' \<and> t' \<noteq> n" if "d' \<le> 3" "tab s' pml4 d' va' = Some t'" for d' va' t'
  proof -
    have o: "\<not> (Suc d \<le> d' \<and> same (Suc d) va' va)" "tab s pml4 d' va' = Some t'" using tabs [OF that(1), of va'] that(2) by (auto split: if_splits)
    moreover have "t' \<noteq> n"
    proof
      assume "t' = n"
      then have "d' = Suc d \<and> same d' va' va" using vm_ok_unique [OF ok that(1) d3(2) _ n] o(2) by blast
      then show False using o(1) by auto
    qed
    ultimately show ?thesis by simp
  qed
  have "vm_ok s' pml4" unfolding vm_ok_def
  proof (intro conjI allI impI sp(1), goal_cases)
    case (1 d' va' t')
    then show ?case using old [of d' va' t'] table_props(4) [OF ok, of d' va' t'] sp(2) by auto
  next
    case (2 d1 d2 va1 va2 t')
    then show ?case using old [of d1 va1 t'] old [of d2 va2 t'] vm_ok_unique [OF ok, of d1 d2 va1 t' va2] by blast
  next
    case (3 d1 d2 va1 va2 t')
    then show ?case using old [of d1 va1 t'] old [of d2 va2 t'] vm_ok_unique [OF ok, of d1 d2 va1 t' va2] by blast
  qed
  moreover have "pte_of s' pml4 = pte_of s pml4"
  proof
    fix va'
    have px: "PTX va' = idx 3 va'" by (simp add: idx_def)
    show "pte_of s' pml4 va' = pte_of s pml4 va'"
    proof (cases "tab s' pml4 3 va'")
      case None
      then have "tab s pml4 3 va' = None" using tabs [of 3 va'] tab_None [OF empty, of va' 3] t(2) by (auto split: if_splits)
      then show ?thesis using None by (simp add: pte_of_def)
    next
      case (Some t')
      then have o: "tab s pml4 3 va' = Some t'" "t' \<noteq> n" using old [of 3 va' t'] by auto
      have "t' + 8 * idx 3 va' \<noteq> ?slot"
      proof
        assume "t' + 8 * idx 3 va' = ?slot"
        then have "t' = t" using slot_eq_iff [OF table_props(1) [OF ok _ o(1)] tp(1) idx_less idx_less] by simp
        then show False using vm_ok_unique [OF ok _ d3(1) o(1)] t by fastforce
      qed
      then show ?thesis using Some o eq [OF _ o idx_less] by (simp add: pte_of_def px)
    qed
  qed
  moreover have "keeps s s' pml4"
  proof (rule keepsI [where T = "{n}" and N = "{}"])
    show "tables s' pml4 \<subseteq> tables s pml4 \<union> {}" using old by (force simp: tables_def)
    have tt: "t \<in> tables s pml4" "n \<in> tables s pml4" using tablesI [OF t(1) d3(1)] tablesI [OF n d3(2)] by auto
    then show "{n} \<subseteq> tables s pml4" by simp
    fix a assume "cells s' a \<noteq> cells s a"
    then have "a = ?slot \<or> a - n < PGSIZE" by (auto simp: s'_def put_cell_def f(4) fill_cells_def split: if_splits)
    then show "\<exists>q. pg_ofs q = 0 \<and> a - q < PGSIZE \<and> (q \<notin> used_pages s \<or> q \<in> tables s pml4)"
      using tt np(1) tp(1) in_page_slot [OF idx_less, of t d va] by blast
  qed (use wf sp in auto)
  ultimately show ?thesis using run tabs by blast
qed

text \<open>One level of a walk that creates tables, over any correct walk below it.\<close>

lemma level_walk:
  assumes ok: "vm_ok s pml4" and t: "tab s pml4 d va = Some t" "d \<le> 1"
    and below: "\<And>s1 n. vm_ok s1 pml4 \<Longrightarrow> tab s1 pml4 (Suc d) va = Some n \<Longrightarrow>
      \<exists>pte s2. walk s1 n = ret (pte, s2) \<and> walk_ok s1 s2 pml4 va pte"
  defines "slot \<equiv> t + 8 * idx d va"
  shows "\<exists>pte s'. bindE (enter_table s slot True) (\<lambda>(r, s). case r of None \<Rightarrow> ret (NULL, s)
      | Some allocated \<Rightarrow> bindE (walk s (ptov (PTE_ADDR (cells s slot)))) (\<lambda>(pte, s). undo_table s slot pte allocated)) = ret (pte, s') \<and>
    walk_ok s s' pml4 va pte"
proof (cases "cells s slot AND PTE_P = 0")
  case False
  then have n: "tab s pml4 (Suc d) va = Some (ptov (PTE_ADDR (cells s slot)))" using t(1) by (simp add: slot_def Let_def)
  from below [OF ok n] obtain pte s2 where "walk s (ptov (PTE_ADDR (cells s slot))) = ret (pte, s2)" "walk_ok s s2 pml4 va pte" by blast
  then show ?thesis using False by (simp add: enter_table_def undo_table_def)
next
  case True
  have wf: "phys_wf s" and fl: "PAL_ZERO AND PAL_ASSERT = 0" "PAL_ZERO AND PAL_ZERO \<noteq> 0"
    using ok by (simp_all add: vm_ok_def PAL_ZERO_def PAL_ASSERT_def)
  from palloc_get_page_ok [OF wf fl(1)] show ?thesis
  proof (elim disjE exE conjE)
    assume "palloc_get_page s PAL_ZERO = ret (NULL, s)"
    then show ?thesis using True ok by (simp add: enter_table_def walk_ok_def)
  next
    fix n s1
    assume n: "palloc_get_page s PAL_ZERO = ret (n, s1)" "n \<noteq> NULL" "phys_wf s1" "n \<notin> used_pages s" "used_pages s1 = insert n (used_pages s)"
      "cells s1 = (if PAL_ZERO AND PAL_ZERO \<noteq> 0 then fill_cells (cells s) n PGSIZE 0 else cells s)"
    have c1: "cells s1 = fill_cells (cells s) n PGSIZE 0" using n(6) fl(2) by simp
    have d2: "d \<le> 2" using t(2) by simp
    define s2 where "s2 = put_cell s1 slot ((n - KERN_BASE) OR PTE_U OR PTE_W OR PTE_P)"
    note e = enter_new [OF ok t(1) d2 True [unfolded slot_def] n(2-5) c1, folded slot_def, folded s2_def]
    have "is_kernel_vaddr n" using used_page_props(2) [OF n(3)] n(5) by simp
    then have enter: "enter_table s slot True = ret (Some True, s2)"
      using True n(1,2) by (simp add: enter_table_def vtop_def s2_def)
    from below [OF e(1,3)] obtain pte s3 where w: "walk s2 n = ret (pte, s3)" "walk_ok s2 s3 pml4 va pte" by blast
    show ?thesis
    proof (cases "pte = NULL")
      case False
      then show ?thesis using enter w e(2,4) keeps_trans [OF e(7)] by (simp add: undo_table_def walk_ok_def)
    next
      case True
      then have s3: "vm_ok s3 pml4" "pte_of s3 pml4 = pte_of s pml4" "\<And>d' va'. d' \<le> 3 \<Longrightarrow> tab s3 pml4 d' va' = tab s2 pml4 d' va'"
        and k3: "keeps s s3 pml4"
        using w(2) e(2) keeps_trans [OF e(7)] by (auto simp: walk_ok_def)
      have t3: "tab s3 pml4 d va = Some t" using s3(3) [of d va] e(5) [of d va] t by simp
      have n3: "tab s3 pml4 (Suc d) va = Some n" using s3(3) [of "Suc d" va] e(3) t(2) by simp
      have "tab s3 pml4 (Suc (Suc d)) va' = None" if "same (Suc d) va' va" for va' using s3(3) [of "Suc (Suc d)" va'] e(6) [OF that] t(2) by simp
      from undo_ok [OF s3(1) t3 t(2) n3 this] obtain s4 where
        u: "undo_table s3 slot NULL True = ret (NULL, s4)" "vm_ok s4 pml4" "pte_of s4 pml4 = pte_of s3 pml4"
          "\<forall>d' va'. d' \<le> 3 \<longrightarrow> tab s4 pml4 d' va' = (if Suc d \<le> d' \<and> same (Suc d) va' va then None else tab s3 pml4 d' va')" "keeps s3 s4 pml4"
        unfolding slot_def by blast
      have "tab s4 pml4 d' va' = tab s pml4 d' va'" if "d' \<le> 3" for d' va'
        using u(4) that s3(3) [OF that, of va'] e(5) [OF that, of va'] by auto
      then show ?thesis using enter w(1) e(4) u(1-3) s3(2) True keeps_trans [OF k3 u(5)] by (auto simp: walk_ok_def)
    qed
  qed
qed

lemma PTX_idx: "PTX va = idx 3 va" and PDX_idx: "PDX va = idx 2 va" and PDPE_idx: "PDPE va = idx 1 va" and PML4_idx: "PML4 va = idx 0 va"
  by (simp_all add: idx_def)

lemma pgdir_walk_ok:
  assumes ok: "vm_ok s pml4" and t: "tab s pml4 2 va = Some t"
  shows "\<exists>pte s'. pgdir_walk s t va True = ret (pte, s') \<and> walk_ok s s' pml4 va pte"
proof -
  let ?slot = "t + 8 * idx 2 va"
  have nn: "t \<noteq> NULL" using table_props(3) [OF ok _ t] by simp
  have step: "ptov (PTE_ADDR e + 8 * PTX va) = ptov (PTE_ADDR e) + 8 * PTX va" for e by (simp add: ptov_def)
  have leaf: "walk_ok s s' pml4 va (n + 8 * PTX va)" if "vm_ok s' pml4" "pte_of s' pml4 = pte_of s pml4" "tab s' pml4 3 va = Some n" "keeps s s' pml4" for s' n
    using that slot_not_null [OF that(1) _ that(3), of 3 va] by (simp add: walk_ok_def PTX_idx)
  have tab3: "tab s' pml4 3 va = Some n" if "tab s' pml4 (Suc 2) va = Some n" for s' n using that by (simp add: numeral_3_eq_3)
  show ?thesis
  proof (cases "cells s ?slot AND PTE_P = 0")
    case False
    then have "tab s pml4 (Suc 2) va = Some (ptov (PTE_ADDR (cells s ?slot)))"
      using tab.simps(2) [of s pml4 2 va] t by (simp only: option.case Let_def if_False)
    note leaf [OF ok refl tab3 [OF this] keeps_refl]
    then show ?thesis using False nn by (simp add: pgdir_walk_def enter_table_def PDX_idx step)
  next
    case True
    have wf: "phys_wf s" and fl: "PAL_ZERO AND PAL_ASSERT = 0" "PAL_ZERO AND PAL_ZERO \<noteq> 0"
      using ok by (simp_all add: vm_ok_def PAL_ZERO_def PAL_ASSERT_def)
    from palloc_get_page_ok [OF wf fl(1)] show ?thesis
    proof (elim disjE exE conjE)
      assume "palloc_get_page s PAL_ZERO = ret (NULL, s)"
      then show ?thesis using True ok nn by (simp add: pgdir_walk_def enter_table_def walk_ok_def PDX_idx)
    next
      fix n s1
      assume n: "palloc_get_page s PAL_ZERO = ret (n, s1)" "n \<noteq> NULL" "phys_wf s1" "n \<notin> used_pages s" "used_pages s1 = insert n (used_pages s)"
        "cells s1 = (if PAL_ZERO AND PAL_ZERO \<noteq> 0 then fill_cells (cells s) n PGSIZE 0 else cells s)"
      have c1: "cells s1 = fill_cells (cells s) n PGSIZE 0" using n(6) fl(2) by simp
      define s2 where "s2 = put_cell s1 ?slot ((n - KERN_BASE) OR PTE_U OR PTE_W OR PTE_P)"
      note e = enter_new [OF ok t order_refl True n(2-5) c1, folded s2_def]
      have "is_kernel_vaddr n" using used_page_props(2) [OF n(3)] n(5) by simp
      then have "enter_table s ?slot True = ret (Some True, s2)" using True n(1,2) by (simp add: enter_table_def vtop_def s2_def)
      then have "pgdir_walk s t va True = ret (n + 8 * PTX va, s2)" using nn e(4) by (simp add: pgdir_walk_def PDX_idx step)
      then show ?thesis using leaf [OF e(1,2) tab3 [OF e(3)] e(7)] by blast
    qed
  qed
qed

lemma pdpe_walk_ok:
  assumes ok: "vm_ok s pml4" and t: "tab s pml4 1 va = Some t"
  shows "\<exists>pte s'. pdpe_walk s t va True = ret (pte, s') \<and> walk_ok s s' pml4 va pte"
proof -
  have nn: "t \<noteq> NULL" using table_props(3) [OF ok _ t] by simp
  have b: "\<exists>pte s2. pgdir_walk s1 n va True = ret (pte, s2) \<and> walk_ok s1 s2 pml4 va pte" if "vm_ok s1 pml4" "tab s1 pml4 (Suc 1) va = Some n" for s1 n
    using that(2) by (intro pgdir_walk_ok [OF that(1)]) (simp only: Suc_1)
  show ?thesis using nn level_walk [where walk = "\<lambda>s n. pgdir_walk s n va True", OF ok t order_refl b]
    unfolding pdpe_walk_def PDPE_idx Let_def by simp
qed

lemma pml4e_walk_ok:
  assumes ok: "vm_ok s pml4"
  shows "\<exists>pte s'. pml4e_walk s pml4 va True = ret (pte, s') \<and> walk_ok s s' pml4 va pte"
proof -
  have t: "tab s pml4 0 va = Some pml4" by simp
  have nn: "pml4 \<noteq> NULL" using table_props(3) [OF ok _ t] by simp
  have b: "\<exists>pte s2. pdpe_walk s1 n va True = ret (pte, s2) \<and> walk_ok s1 s2 pml4 va pte" if "vm_ok s1 pml4" "tab s1 pml4 (Suc 0) va = Some n" for s1 n
    using that(2) by (intro pdpe_walk_ok [OF that(1)]) (simp only: One_nat_def)
  show ?thesis using nn level_walk [where walk = "\<lambda>s n. pdpe_walk s n va True", OF ok t zero_le b]
    unfolding pml4e_walk_def PML4_idx Let_def by simp
qed

text \<open>A walk that creates nothing.\<close>

lemma find_walk:
  assumes ok: "vm_ok s pml4"
  shows "pml4e_walk s pml4 va False = ret (case tab s pml4 3 va of None \<Rightarrow> NULL | Some t \<Rightarrow> t + 8 * PTX va, s)"
proof -
  have e: "enter_table s slot False = ret (if cells s slot AND PTE_P = 0 then None else Some False, s)" for slot by (simp add: enter_table_def)
  have nn: "t \<noteq> NULL" if "d \<le> 3" "tab s pml4 d va = Some t" for d t using table_props(3) [OF ok that] .
  have step: "ptov (PTE_ADDR e + 8 * PTX va) = ptov (PTE_ADDR e) + 8 * PTX va" for e by (simp add: ptov_def)
  have t3: "tab s pml4 3 va = (case tab s pml4 2 va of None \<Rightarrow> None | Some t \<Rightarrow>
      let e = cells s (t + 8 * idx 2 va) in if e AND PTE_P = 0 then None else Some (ptov (PTE_ADDR e)))"
    by (simp only: numeral_3_eq_3 numeral_2_eq_2 tab.simps)
  have t2: "tab s pml4 2 va = (case tab s pml4 1 va of None \<Rightarrow> None | Some t \<Rightarrow>
      let e = cells s (t + 8 * idx 1 va) in if e AND PTE_P = 0 then None else Some (ptov (PTE_ADDR e)))"
    by (simp only: numeral_2_eq_2 One_nat_def tab.simps)
  have t1: "tab s pml4 1 va = (let e = cells s (pml4 + 8 * idx 0 va) in if e AND PTE_P = 0 then None else Some (ptov (PTE_ADDR e)))" by simp
  have w2: "pgdir_walk s t va False = ret (case tab s pml4 3 va of None \<Rightarrow> NULL | Some t \<Rightarrow> t + 8 * PTX va, s)" if "tab s pml4 2 va = Some t" for t
    using nn [of 2 t] that t3 by (simp add: pgdir_walk_def e PDX_idx step Let_def)
  have w1: "pdpe_walk s t va False = ret (case tab s pml4 3 va of None \<Rightarrow> NULL | Some t \<Rightarrow> t + 8 * PTX va, s)" if "tab s pml4 1 va = Some t" for t
    using nn [of 1 t] that t2 t3 w2 by (simp add: pdpe_walk_def e PDPE_idx undo_table_def Let_def)
  show ?thesis
    using nn [of 0 pml4] t1 t2 t3 w1 by (simp add: pml4e_walk_def e PML4_idx undo_table_def Let_def)
qed

section \<open>Pages of user addresses\<close>

lemma bit_index: "bit (drop_bit k va AND 0x1FF :: u64) n \<longleftrightarrow> n < 9 \<and> bit va (k + n)"
proof -
  have "drop_bit k va AND 0x1FF = take_bit 9 (drop_bit k va)" by (simp add: take_bit_eq_mask mask_eq_exp_minus_1)
  then show ?thesis by (simp add: bit_take_bit_iff bit_drop_bit_eq)
qed

lemma index_eq_iff: "(drop_bit k va AND 0x1FF :: u64) = drop_bit k va' AND 0x1FF \<longleftrightarrow> (\<forall>n. k \<le> n \<and> n < k + 9 \<longrightarrow> bit va n = bit va' n)"
proof -
  have "(drop_bit k va AND 0x1FF :: u64) = drop_bit k va' AND 0x1FF \<longleftrightarrow> (\<forall>n < 9. bit va (k + n) = bit va' (k + n))"
  proof -
    have "(drop_bit k va AND 0x1FF :: u64) = drop_bit k va' AND 0x1FF \<longleftrightarrow>
        (\<forall>n < 64. (n < 9 \<and> bit va (k + n)) = (n < 9 \<and> bit va' (k + n)))" by (simp add: bit_eq_iff bit_index)
    also have "\<dots> \<longleftrightarrow> (\<forall>n < 9. bit va (k + n) = bit va' (k + n))"
    proof
      assume a: "\<forall>n < 64. (n < 9 \<and> bit va (k + n)) = (n < 9 \<and> bit va' (k + n))"
      show "\<forall>n < 9. bit va (k + n) = bit va' (k + n)"
      proof (intro allI impI)
        fix n :: nat assume n: "n < 9"
        then have "n < 64" by simp
        then show "bit va (k + n) = bit va' (k + n)" using a n by blast
      qed
    qed blast
    finally show ?thesis .
  qed
  also have "\<dots> \<longleftrightarrow> (\<forall>n. k \<le> n \<and> n < k + 9 \<longrightarrow> bit va n = bit va' n)" by (metis add_less_cancel_left le_Suc_ex le_add1)
  finally show ?thesis .
qed

lemma split_36:
  "(\<forall>n. 39 \<le> n \<and> n < 48 \<longrightarrow> P n) \<and> (\<forall>n. 30 \<le> n \<and> n < 39 \<longrightarrow> P n) \<and> (\<forall>n. 21 \<le> n \<and> n < 30 \<longrightarrow> P n) \<and> (\<forall>n. 12 \<le> n \<and> n < 21 \<longrightarrow> P n) \<longleftrightarrow>
     (\<forall>n :: nat. 12 \<le> n \<and> n < 48 \<longrightarrow> P n)" (is "?l \<longleftrightarrow> ?r")
proof
  assume l: ?l
  show ?r
  proof (intro allI impI)
    fix n :: nat assume "12 \<le> n \<and> n < 48"
    then have "(12 \<le> n \<and> n < 21) \<or> (21 \<le> n \<and> n < 30) \<or> (30 \<le> n \<and> n < 39) \<or> (39 \<le> n \<and> n < 48)" by linarith
    then show "P n" using l by blast
  qed
qed simp

lemma same_4_bits: "same 4 va va' \<longleftrightarrow> (\<forall>n. 12 \<le> n \<and> n < 48 \<longrightarrow> bit va n = bit va' n)"
proof -
  have "same 4 va va' \<longleftrightarrow> same (Suc (Suc (Suc (Suc 0)))) va va'" by (simp add: numeral_eq_Suc del: same_simps)
  also have "\<dots> \<longleftrightarrow> PML4 va = PML4 va' \<and> PDPE va = PDPE va' \<and> PDX va = PDX va' \<and> PTX va = PTX va'"
    by (auto simp: idx_def)
  also have "\<dots> \<longleftrightarrow> (\<forall>n. 12 \<le> n \<and> n < 48 \<longrightarrow> bit va n = bit va' n)"
    unfolding PML4_def PDPE_def PDX_def PTX_def index_eq_iff split_36 [symmetric] by (simp only: arith_simps)
  finally show ?thesis .
qed

lemma user_bits: "is_user_vaddr va \<Longrightarrow> 48 \<le> n \<Longrightarrow> \<not> bit va n"
proof
  assume "is_user_vaddr va" "48 \<le> n" "bit va n"
  then have "va < KERN_BASE" by (simp add: is_user_vaddr_def is_kernel_vaddr_def)
  then have "unat va < 2 ^ 48" by (simp add: KERN_BASE_def word_less_nat_alt)
  then have "take_bit 48 va = va" by (simp add: word_unat_eq_iff unsigned_take_bit_eq take_bit_nat_eq_self)
  then show False using \<open>48 \<le> n\<close> \<open>bit va n\<close> by (metis bit_take_bit_iff not_less)
qed

lemma same_page_iff:
  assumes "is_user_vaddr va" "is_user_vaddr upage" "pg_ofs upage = 0"
  shows "same 4 va upage \<longleftrightarrow> pg_round_down va = upage"
proof -
  have m: "bit (PGMASK :: u64) n \<longleftrightarrow> n < 12" for n
  proof -
    have "PGMASK = mask 12" by (simp add: PGMASK_def mask_eq_exp_minus_1)
    then show ?thesis unfolding \<open>PGMASK = mask 12\<close> bit_mask_iff by (simp add: possible_bit_word) linarith
  qed
  have r: "bit (pg_round_down va) n \<longleftrightarrow> 12 \<le> n \<and> bit va n" for n
    by (auto simp: pg_round_down_def bit_and_iff bit_not_iff m possible_bit_word dest: bit_imp_le_length)
  have u: "bit upage n \<Longrightarrow> 12 \<le> n" for n
  proof (rule ccontr)
    assume "bit upage n" "\<not> 12 \<le> n"
    then have "bit (pg_ofs upage) n" by (simp add: pg_ofs_def bit_and_iff m)
    then show False using assms(3) by simp
  qed
  have "same 4 va upage \<longleftrightarrow> (\<forall>n. bit (pg_round_down va) n = bit upage n)"
    unfolding same_4_bits r using u user_bits [OF assms(1)] user_bits [OF assms(2)] by (metis not_le)
  then show ?thesis by (auto intro: bit_eqI)
qed

section \<open>Operations on mappings\<close>

lemma with_entry:
  assumes ok: "vm_ok s pml4"
  shows "bindE (pml4e_walk s pml4 va False) (\<lambda>(pte, s). f (pte \<noteq> NULL \<and> cells s pte AND m \<noteq> 0)) = f (pte_of s pml4 va AND m \<noteq> 0)"
  using find_walk [OF ok, of va] slot_not_null [OF ok, of 3 va _ 3 va]
  by (cases "tab s pml4 3 va") (simp_all add: pte_of_def PTX_idx)

lemma get_page_eq:
  assumes ok: "vm_ok s pml4" and "is_user_vaddr va"
  shows "pml4_get_page s pml4 va =
    ret (if pte_of s pml4 va AND PTE_P \<noteq> 0 then ptov (PTE_ADDR (pte_of s pml4 va)) + pg_ofs va else NULL)"
  using find_walk [OF ok, of va] slot_not_null [OF ok, of 3 va _ 3 va] assms(2)
  by (cases "tab s pml4 3 va") (simp_all add: pml4_get_page_def pte_of_def PTX_idx)

lemma pml4_set_page_ok:
  assumes ok: "vm_ok s pml4" and u: "is_user_vaddr upage" "pg_ofs upage = 0" and k: "is_kernel_vaddr kpage" "pg_ofs kpage = 0"
    and b: "pml4 \<noteq> base_pml4"
  obtains (failed) s' where "pml4_set_page base_pml4 s pml4 upage kpage rw = ret (False, s')" "vm_ok s' pml4"
      "pte_of s' pml4 = pte_of s pml4" "keeps s s' pml4"
    | (mapped) s' where "pml4_set_page base_pml4 s pml4 upage kpage rw = ret (True, s')" "vm_ok s' pml4"
      "pte_of s' pml4 = (\<lambda>va. if same 4 va upage then (kpage - KERN_BASE) OR (PTE_P OR (if rw then PTE_W else 0) OR PTE_U) else pte_of s pml4 va)"
      "keeps s s' pml4"
proof -
  let ?v = "(kpage - KERN_BASE) OR (PTE_P OR (if rw then PTE_W else 0) OR PTE_U)"
  from pml4e_walk_ok [OF ok, of upage] obtain pte s1 where
    w: "pml4e_walk s pml4 upage True = ret (pte, s1)" "walk_ok s s1 pml4 upage pte" by blast
  show thesis
  proof (cases "pte = NULL")
    case True
    then show thesis using w u k(2) b by (intro failed [of s1]) (auto simp: pml4_set_page_def walk_ok_def)
  next
    case False
    then obtain t where t: "vm_ok s1 pml4" "pte_of s1 pml4 = pte_of s pml4" "keeps s s1 pml4" "tab s1 pml4 3 upage = Some t" "pte = t + 8 * PTX upage"
      using w(2) by (auto simp: walk_ok_def)
    let ?s = "put_cell s1 pte ?v"
    have "pml4_set_page base_pml4 s pml4 upage kpage rw = ret (True, ?s)"
      using w(1) False u k b by (simp add: pml4_set_page_def vtop_def or.assoc)
    then show thesis
      using store_pte [OF t(1,4), of ?v, folded t(5), unfolded t(2)] keeps_trans [OF t(3) store_pte_keeps(2) [OF t(1,4), of ?v, folded t(5)]]
      by (intro mapped [of ?s]) simp_all
  qed
qed

lemma mapped_page:
  assumes "vm_ok s pml4" "is_user_vaddr va" and k: "is_kernel_vaddr kpage" "pg_ofs kpage = 0"
    and "pte_of s pml4 va = (kpage - KERN_BASE) OR (PTE_P OR (if rw then PTE_W else 0) OR PTE_U)"
  shows "pml4_get_page s pml4 va = ret (kpage + pg_ofs va)"
proof -
  let ?f = "PTE_P OR (if rw then PTE_W else 0) OR PTE_U"
  have fl: "?f AND NOT 0xFFF = 0" by (simp add: PTE_P_def PTE_W_def PTE_U_def)
  have "((kpage - KERN_BASE) OR ?f) AND PTE_P \<noteq> 0" by (simp add: bit.conj_disj_distrib2 PTE_P_def PTE_W_def PTE_U_def)
  then show ?thesis using get_page_eq [OF assms(1,2)] assms(5) entry_roundtrip [OF k(2,1) fl] by simp
qed


definition sample_vm :: phys where
  "sample_vm = \<lparr>kernel_pool = \<lparr>used_map = \<lparr>bit_cnt = 10, elems = [1]\<rparr>, pool_base = 0x8004000000\<rparr>,
     user_pool = \<lparr>used_map = \<lparr>bit_cnt = 10, elems = [0]\<rparr>, pool_base = 0x800400a000\<rparr>, cells = (\<lambda>_. 0)\<rparr>"

lemma sample_vm_ok: "vm_ok sample_vm 0x8004000000"
proof -
  have z: "tab sample_vm 0x8004000000 d va = (if d = 0 then Some 0x8004000000 else None)" for d va
    by (cases d) (auto simp: sample_vm_def Let_def split: option.split)
  have "phys_wf sample_vm"
    by (simp add: phys_wf_def pool_wf_def pools_apart_def bitmap_wf_def sample_vm_def pg_ofs_def PGMASK_def is_kernel_vaddr_def KERN_BASE_def)
  moreover have "0x8004000000 \<in> used_pages sample_vm"
    by (auto simp: used_pages_def pool_pages_def sample_vm_def page_at_def bm_used_def bm_bit_def intro!: image_eqI [of _ _ 0])
  ultimately show ?thesis unfolding vm_ok_def z by (auto split: if_splits)
qed


lemma with_update:
  assumes ok: "vm_ok s pml4"
  shows "\<exists>s'. bindE (pml4e_walk s pml4 va False) (\<lambda>(pte, s). if pte \<noteq> NULL then ret (put_cell s pte (g (cells s pte))) else ret s) = ret s' \<and>
    vm_ok s' pml4 \<and> pte_of s' pml4 = (\<lambda>va'. if same 4 va' va \<and> tab s pml4 3 va \<noteq> None then g (pte_of s pml4 va) else pte_of s pml4 va') \<and>
    keeps s s' pml4 \<and> (\<forall>d va'. d \<le> 3 \<longrightarrow> tab s' pml4 d va' = tab s pml4 d va')"
proof (cases "tab s pml4 3 va")
  case None
  then show ?thesis using find_walk [OF ok, of va] ok by simp
next
  case (Some t)
  have "t + 8 * PTX va \<noteq> NULL" using slot_not_null [OF ok _ Some, of 3 va] by (simp add: PTX_idx)
  moreover have "pte_of s pml4 va = cells s (t + 8 * PTX va)" using Some by (simp add: pte_of_def)
  ultimately show ?thesis
    using Some find_walk [OF ok, of va] store_pte [OF ok Some, of "g (pte_of s pml4 va)"] store_pte_keeps [OF ok Some, where v = "g (pte_of s pml4 va)"]
    by simp
qed

lemma clear_flag_eq: "clear_flag e f = take_bit 32 e AND NOT f"
proof (rule bit_eqI)
  fix n assume "possible_bit TYPE(64 word) n"
  then have n: "n < 64" by (simp add: possible_bit_word)
  show "bit (clear_flag e f) n = bit (take_bit 32 e AND NOT f) n"
    using n by (cases "n < 32") (auto simp: clear_flag_def bit_and_iff bit_not_iff bit_unsigned_iff bit_take_bit_iff possible_bit_word)
qed

lemma and_not_P: "x AND PTE_P = 0 \<Longrightarrow> x AND NOT PTE_P = x" for x :: u64
proof -
  assume "x AND PTE_P = 0"
  moreover have "x = (x AND PTE_P) OR (x AND NOT PTE_P)" by (simp flip: bit.conj_disj_distrib)
  ultimately show ?thesis by simp
qed

lemma pte_of_same: "same 4 va' va \<Longrightarrow> pte_of s pml4 va' = pte_of s pml4 va"
  using tab_same [of 3 va' va s pml4] by (auto simp: pte_of_def same_4 PTX_idx split: option.split)

lemma pml4_clear_page_ok:
  assumes ok: "vm_ok s pml4" and u: "is_user_vaddr va" "pg_ofs va = 0"
  obtains s' where "pml4_clear_page s pml4 va = ret s'" "vm_ok s' pml4" "keeps s s' pml4"
    "pte_of s' pml4 = (\<lambda>va'. if same 4 va' va then pte_of s pml4 va AND NOT PTE_P else pte_of s pml4 va')"
proof (cases "tab s pml4 3 va \<noteq> None \<and> pte_of s pml4 va AND PTE_P \<noteq> 0")
  case True
  then obtain t where t: "tab s pml4 3 va = Some t" "pte_of s pml4 va = cells s (t + 8 * PTX va)" by (auto simp: pte_of_def)
  let ?v = "pte_of s pml4 va AND NOT PTE_P"
  have "pml4_clear_page s pml4 va = ret (put_cell s (t + 8 * PTX va) ?v)"
    using True u t find_walk [OF ok, of va] slot_not_null [OF ok _ t(1), of 3 va] by (simp add: pml4_clear_page_def PTX_idx)
  then show thesis using store_pte [OF ok t(1), of ?v] store_pte_keeps(2) [OF ok t(1), of ?v] by (intro that) auto
next
  case False
  then have e: "pte_of s pml4 va AND PTE_P = 0" by (auto simp: pte_of_def split: option.splits)
  have "pte_of s pml4 = (\<lambda>va'. if same 4 va' va then pte_of s pml4 va AND NOT PTE_P else pte_of s pml4 va')"
  proof
    fix va'
    show "pte_of s pml4 va' = (if same 4 va' va then pte_of s pml4 va AND NOT PTE_P else pte_of s pml4 va')"
      unfolding and_not_P [OF e] using pte_of_same [of va' va] by (cases "same 4 va' va") (simp_all only: if_True if_False)
  qed
  moreover have "pml4_clear_page s pml4 va = ret s"
    using u e find_walk [OF ok, of va] by (cases "tab s pml4 3 va") (auto simp: pml4_clear_page_def pte_of_def)
  ultimately show thesis using ok by (intro that [of s]) simp_all
qed

lemma pml4_set_accessed_ok:
  assumes "vm_ok s pml4"
  obtains s' where "pml4_set_accessed s pml4 va False = ret s'" "vm_ok s' pml4" "keeps s s' pml4" "\<And>va'. tab s' pml4 3 va' = tab s pml4 3 va'"
    "pte_of s' pml4 = (\<lambda>va'. if same 4 va' va \<and> tab s pml4 3 va \<noteq> None then take_bit 32 (pte_of s pml4 va) AND NOT PTE_A else pte_of s pml4 va')"
  using with_update [OF assms, of va "\<lambda>e. clear_flag e PTE_A"] that unfolding pml4_set_accessed_def clear_flag_eq if_False by blast

lemma pml4_reads:
  assumes ok: "vm_ok s pml4"
  shows "pml4_is_dirty s pml4 va = ret (pte_of s pml4 va AND PTE_D \<noteq> 0)" "pml4_is_accessed s pml4 va = ret (pte_of s pml4 va AND PTE_A \<noteq> 0)"
  using with_entry [OF ok, of va ret] by (simp_all add: pml4_is_dirty_def pml4_is_accessed_def)

text \<open>
  The flags of a mapping: \<open>pml4_is_dirty\<close> and \<open>pml4_is_accessed\<close> read the entry of the page;
  \<open>pml4_clear_page\<close> clears the present bit of exactly that page's entry, so that the page leads nowhere, and
  setting a flag sets it in that entry alone; clearing the dirty or the accessed flag clears it in that
  entry alone, and with it the upper half of the entry.
\<close>

theorem pml4_flags_correct:
  assumes ok: "vm_ok s pml4"
  shows "pml4_is_dirty s pml4 va = ret (pte_of s pml4 va AND PTE_D \<noteq> 0) \<and> pml4_is_accessed s pml4 va = ret (pte_of s pml4 va AND PTE_A \<noteq> 0) \<and>
    (\<exists>s'. pml4_set_dirty s pml4 va on = ret s' \<and> vm_ok s' pml4 \<and> pte_of s' pml4 = (\<lambda>va'. if same 4 va' va \<and> tab s pml4 3 va \<noteq> None
       then if on then pte_of s pml4 va OR PTE_D else take_bit 32 (pte_of s pml4 va) AND NOT PTE_D else pte_of s pml4 va')) \<and>
    (\<exists>s'. pml4_set_accessed s pml4 va on = ret s' \<and> vm_ok s' pml4 \<and> pte_of s' pml4 = (\<lambda>va'. if same 4 va' va \<and> tab s pml4 3 va \<noteq> None
       then if on then pte_of s pml4 va OR PTE_A else take_bit 32 (pte_of s pml4 va) AND NOT PTE_A else pte_of s pml4 va')) \<and>
    (is_user_vaddr va \<and> pg_ofs va = 0 \<longrightarrow> (\<exists>s'. pml4_clear_page s pml4 va = ret s' \<and> vm_ok s' pml4 \<and>
       pte_of s' pml4 = (\<lambda>va'. if same 4 va' va then pte_of s pml4 va AND NOT PTE_P else pte_of s pml4 va') \<and>
       pml4_get_page s' pml4 va = ret NULL))"
proof (intro conjI impI)
  show "pml4_is_dirty s pml4 va = ret (pte_of s pml4 va AND PTE_D \<noteq> 0)" "pml4_is_accessed s pml4 va = ret (pte_of s pml4 va AND PTE_A \<noteq> 0)"
    by (rule pml4_reads [OF ok])+
  show "\<exists>s'. pml4_set_dirty s pml4 va on = ret s' \<and> vm_ok s' pml4 \<and> pte_of s' pml4 = (\<lambda>va'. if same 4 va' va \<and> tab s pml4 3 va \<noteq> None
       then if on then pte_of s pml4 va OR PTE_D else take_bit 32 (pte_of s pml4 va) AND NOT PTE_D else pte_of s pml4 va')"
    using with_update [OF ok, of va "\<lambda>e. if on then e OR PTE_D else clear_flag e PTE_D"] unfolding pml4_set_dirty_def clear_flag_eq by blast
  show "\<exists>s'. pml4_set_accessed s pml4 va on = ret s' \<and> vm_ok s' pml4 \<and> pte_of s' pml4 = (\<lambda>va'. if same 4 va' va \<and> tab s pml4 3 va \<noteq> None
       then if on then pte_of s pml4 va OR PTE_A else take_bit 32 (pte_of s pml4 va) AND NOT PTE_A else pte_of s pml4 va')"
    using with_update [OF ok, of va "\<lambda>e. if on then e OR PTE_A else clear_flag e PTE_A"] unfolding pml4_set_accessed_def clear_flag_eq by blast
next
  assume u: "is_user_vaddr va \<and> pg_ofs va = 0"
  then obtain s' where s': "pml4_clear_page s pml4 va = ret s'" "vm_ok s' pml4"
    "pte_of s' pml4 = (\<lambda>va'. if same 4 va' va then pte_of s pml4 va AND NOT PTE_P else pte_of s pml4 va')"
    using pml4_clear_page_ok [OF ok] by metis
  have "pml4_get_page s' pml4 va = ret NULL" using get_page_eq [OF s'(2), of va] u s'(3) by (simp add: and.assoc)
  then show "\<exists>s'. pml4_clear_page s pml4 va = ret s' \<and> vm_ok s' pml4 \<and>
       pte_of s' pml4 = (\<lambda>va'. if same 4 va' va then pte_of s pml4 va AND NOT PTE_P else pte_of s pml4 va') \<and>
       pml4_get_page s' pml4 va = ret NULL" using s' by blast
qed

theorem pml4_flags_correct_witness:
  "pml4_is_dirty sample_vm 0x8004000000 0x400000 = ret False \<and>
   (\<exists>s'. pml4_clear_page sample_vm 0x8004000000 0x400000 = ret s' \<and> pml4_get_page s' 0x8004000000 0x400000 = ret NULL)"
proof -
  have "tab sample_vm 0x8004000000 3 0x400000 = None" by (simp add: numeral_3_eq_3 sample_vm_def Let_def)
  then have "pte_of sample_vm 0x8004000000 0x400000 = 0" by (simp add: pte_of_def)
  moreover have "is_user_vaddr 0x400000 \<and> pg_ofs 0x400000 = 0"
    by (simp add: is_user_vaddr_def is_kernel_vaddr_def KERN_BASE_def pg_ofs_def PGMASK_def)
  ultimately show ?thesis using pml4_flags_correct [OF sample_vm_ok, of "0x400000" True] by auto
qed

text \<open>Clearing the dirty flag of a mapping to a page above 4 GiB moves the mapping to another page.\<close>

lemma pml4_set_dirty_moves_page:
  assumes ok: "vm_ok s pml4" and "tab s pml4 3 va \<noteq> None" and e: "pte_of s pml4 va \<ge> 2 ^ 32"
  shows "\<exists>s'. pml4_set_dirty s pml4 va False = ret s' \<and> PTE_ADDR (pte_of s' pml4 va) \<noteq> PTE_ADDR (pte_of s pml4 va)"
proof -
  from with_update [OF ok, of va "\<lambda>e. clear_flag e PTE_D"] assms(2) obtain s' where
    s': "pml4_set_dirty s pml4 va False = ret s'" "pte_of s' pml4 va = clear_flag (pte_of s pml4 va) PTE_D"
    unfolding pml4_set_dirty_def if_False by fastforce
  let ?e = "pte_of s pml4 va"
  have "\<exists>n \<ge> 32. bit ?e n"
  proof (rule ccontr)
    assume "\<not> (\<exists>n \<ge> 32. bit ?e n)"
    then have "take_bit 32 ?e = ?e" by (intro bit_eqI) (metis bit_take_bit_iff not_le)
    then have "unat ?e < 2 ^ 32" by (metis take_bit_nat_less_exp unsigned_take_bit_eq)
    then show False using e by (simp add: word_le_nat_alt)
  qed
  then obtain n where n: "32 \<le> n" "bit ?e n" by blast
  have "bit (PTE_ADDR x) n \<longleftrightarrow> bit x n" for x
  proof -
    have "(0xFFF :: u64) = mask 12" by (simp add: mask_eq_exp_minus_1)
    then have "PTE_ADDR x = x AND NOT (mask 12)" by (simp only: PTE_ADDR_def)
    then show ?thesis using n bit_imp_le_length [of x n] by (auto simp: bit_and_iff bit_not_iff bit_mask_iff possible_bit_word bit_imp_le_length)
  qed
  then have "bit (PTE_ADDR ?e) n" "\<not> bit (PTE_ADDR (pte_of s' pml4 va)) n"
    using n by (simp_all add: s'(2) clear_flag_eq bit_and_iff bit_take_bit_iff)
  then show ?thesis using s'(1) by metis
qed

end
