(* ===== verification/Pmem.thy ===== *)
theory Pmem
  imports Mmu
begin

unbundle bit_operations_syntax

text \<open>
  Bytes of the physical memory. \<open>Palloc\<close> keeps memory as 8-byte cells; \<open>memcpy\<close>, \<open>memset\<close> and the disk
  transfers of the virtual memory code read and write bytes. A cell is eight bytes, the least significant
  first. The lemmas reduce a block of bytes to the bytes at its addresses, and show that page tables do not
  change when other pages are written.
\<close>

section \<open>Cells and bytes\<close>

definition cell_byte :: "u64 \<Rightarrow> nat \<Rightarrow> u8" where
  "cell_byte w k = ucast (drop_bit (8 * k) w)"

definition bytes_cell :: "(nat \<Rightarrow> u8) \<Rightarrow> u64" where
  "bytes_cell f = foldr (\<lambda>k w. push_bit (8 * k) (ucast (f k)) OR w) [0..<8] 0"

definition byte_at :: "phys \<Rightarrow> ptr \<Rightarrow> u8" where
  "byte_at s a = cell_byte (cells s (a AND NOT 7)) (unat (a AND 7))"

definition get_mem :: "phys \<Rightarrow> ptr \<Rightarrow> nat \<Rightarrow> u8 list" where
  "get_mem s a n = map (\<lambda>i. byte_at s (a + of_nat i)) [0..<n]"

definition put_mem :: "phys \<Rightarrow> ptr \<Rightarrow> u8 list \<Rightarrow> phys" where
  "put_mem s a bs = s\<lparr>cells := (\<lambda>c. if c AND 7 = 0 then bytes_cell (\<lambda>k.
     let i = unat (c + of_nat k - a) in if i < length bs then bs ! i else cell_byte (cells s c) k) else cells s c)\<rparr>"

lemma bit_foldr_bytes:
  "bit (foldr (\<lambda>k w. push_bit (8 * k) (ucast (f k :: u8)) OR w) ks 0 :: u64) n \<longleftrightarrow>
     n < 64 \<and> n div 8 \<in> set ks \<and> bit (f (n div 8)) (n mod 8)"
proof (induction ks)
  case (Cons k ks)
  have "bit (push_bit (8 * k) (ucast (f k)) :: u64) n \<longleftrightarrow> n < 64 \<and> n div 8 = k \<and> bit (f k) (n mod 8)"
  proof -
    have "bit (push_bit (8 * k) (ucast (f k)) :: u64) n \<longleftrightarrow> n < 64 \<and> 8 * k \<le> n \<and> n - 8 * k < 8 \<and> bit (f k) (n - 8 * k)"
      by (auto simp: bit_simps dest: bit_imp_le_length)
    also have "\<dots> \<longleftrightarrow> n < 64 \<and> n div 8 = k \<and> bit (f k) (n mod 8)"
    proof -
      have "8 * k \<le> n \<and> n - 8 * k < 8 \<longleftrightarrow> n div 8 = k" by auto
      moreover have "n div 8 = k \<Longrightarrow> n - 8 * k = n mod 8" by (auto simp: minus_mult_div_eq_mod)
      ultimately show ?thesis by auto
    qed
    finally show ?thesis .
  qed
  then show ?case by (auto simp: bit_or_iff Cons.IH)
qed simp

lemma bit_bytes_cell: "bit (bytes_cell f) n \<longleftrightarrow> n < 64 \<and> bit (f (n div 8)) (n mod 8)"
  unfolding bytes_cell_def bit_foldr_bytes by auto

lemma cell_byte_bytes_cell [simp]: "k < 8 \<Longrightarrow> cell_byte (bytes_cell f) k = f k"
  by (rule bit_eqI) (auto simp: cell_byte_def bit_simps bit_bytes_cell)

lemma bytes_cell_cell_byte: "bytes_cell (cell_byte w) = w"
  by (rule bit_eqI) (auto simp: cell_byte_def bit_simps bit_bytes_cell mult_div_mod_eq)

lemma bytes_cell_cong: "(\<And>k. k < 8 \<Longrightarrow> f k = g k) \<Longrightarrow> bytes_cell f = bytes_cell g"
  by (rule bit_eqI) (auto simp: bit_bytes_cell)

section \<open>Blocks of bytes\<close>

lemma and_7: "(a :: ptr) AND NOT 7 = a - (a AND 7)" "unat (a AND 7 :: ptr) < 8"
proof -
  have "(a AND NOT 7) + (a AND 7) = (a AND NOT 7) OR (a AND 7)"
    by (intro disjunctive_add) (auto simp: bit_simps)
  also have "\<dots> = a" by (simp flip: bit.conj_disj_distrib)
  finally show "a AND NOT 7 = a - (a AND 7)" by (simp add: algebra_simps)
  have "a AND 7 = take_bit 3 a" by (simp add: take_bit_eq_mask mask_eq_exp_minus_1)
  then show "unat (a AND 7) < 8" by (simp add: take_bit_eq_mod unat_mod)
qed

lemma byte_at_put_mem:
  "byte_at (put_mem s a bs) x = (if unat (x - a) < length bs then bs ! unat (x - a) else byte_at s x)"
proof -
  have "(x AND NOT 7) + of_nat (unat (x AND 7)) - a = x - a" unfolding and_7(1) by simp
  moreover have "(x AND NOT 7) AND 7 = 0" by (simp only: and.assoc) simp
  ultimately show ?thesis using and_7(2) [of x] by (simp only: byte_at_def put_mem_def Let_def) simp
qed

lemma length_get_mem [simp]: "length (get_mem s a n) = n"
  by (simp add: get_mem_def)

lemma nth_get_mem [simp]: "i < n \<Longrightarrow> get_mem s a n ! i = byte_at s (a + of_nat i)"
  by (simp add: get_mem_def)

lemma get_put_mem:
  assumes "length bs \<le> 2 ^ 64" and "n = length bs"
  shows "get_mem (put_mem s a bs) a n = bs"
  using assms by (intro nth_equalityI) (simp_all add: byte_at_put_mem unat_of_nat_u64)

lemma get_mem_put_other:
  assumes "\<And>i. i < n \<Longrightarrow> \<not> unat (b + of_nat i - a) < length bs"
  shows "get_mem (put_mem s a bs) b n = get_mem s b n"
  using assms by (intro nth_equalityI) (simp_all add: byte_at_put_mem)

lemma put_mem_sel [simp]: "kernel_pool (put_mem s a bs) = kernel_pool s" "user_pool (put_mem s a bs) = user_pool s"
  by (simp_all add: put_mem_def)

text \<open>A page that is written in pieces.\<close>

lemma byte_at_cong: "cells s (a AND NOT 7) = cells s' (a AND NOT 7) \<Longrightarrow> byte_at s a = byte_at s' a"
  by (simp add: byte_at_def)

lemma cells_put_mem_other:
  assumes "\<And>k. k < 8 \<Longrightarrow> \<not> unat (c + of_nat k - a) < length bs"
  shows "cells (put_mem s a bs) c = cells s c"
proof -
  have "bytes_cell (\<lambda>k. let i = unat (c + of_nat k - a) in if i < length bs then bs ! i else cell_byte (cells s c) k) =
      bytes_cell (cell_byte (cells s c))"
    using assms by (auto simp: Let_def intro!: bytes_cell_cong)
  then show ?thesis by (simp add: put_mem_def bytes_cell_cell_byte)
qed

section \<open>Pages\<close>

text \<open>The addresses of a page.\<close>

lemma in_page_add:
  assumes "pg_ofs p = 0" "i < 512" "k < 8"
  shows "p + 8 * i + of_nat k - p < PGSIZE"
proof -
  have i: "unat (8 * i) = 8 * unat i" "unat i < 512" using idx_offset [OF assms(2)] assms(2) by (simp_all add: word_less_nat_alt)
  have "unat (8 * i + of_nat k) = 8 * unat i + k" using i assms(3) by (simp add: unat_word_ariths unat_of_nat_u64)
  then show ?thesis using i(2) assms(3) by (simp add: PGSIZE_def word_less_nat_alt add.assoc)
qed

text \<open>A block inside a page.\<close>

lemma in_block_in_page:
  assumes "unat (x - (p + of_nat k)) < n" "k + n \<le> 4096"
  shows "x - p < PGSIZE"
proof -
  define y where "y = x - (p + of_nat k)"
  have "x - p = y + of_nat k" by (simp add: y_def)
  moreover have "unat (y + of_nat k) = unat y + k"
    using assms unat_of_nat_u64 [of k] by (simp add: y_def [symmetric] unat_word_ariths)
  ultimately have "unat (x - p) < 4096" using assms by (simp add: y_def [symmetric])
  then show ?thesis by (simp add: PGSIZE_def word_less_nat_alt)
qed

lemma cell_in_page:
  assumes na: "pg_ofs n = 0" and that: "i < 4096"
  shows "(n + of_nat i AND NOT 7) - n < PGSIZE"
proof -
  have x: "unat (n + of_nat i) = unat n + i" "8 dvd unat n"
    using unat_slot(1,2) [OF na, of "of_nat i"] that unat_of_nat_u64 [of i] by (auto simp: word_less_nat_alt elim: dvd_trans [rotated])
  have "n + of_nat i AND 7 = take_bit 3 (n + of_nat i)" by (simp add: take_bit_eq_mask mask_eq_exp_minus_1)
  then have "unat (n + of_nat i AND 7) = i mod 8" using x by (simp add: take_bit_eq_mod unat_mod mod_add_left_eq [symmetric])
  then have "n + of_nat i AND 7 = of_nat (i mod 8)" by (metis word_unat_eq_iff unat_of_nat_u64 mod_less_divisor order.strict_trans zero_less_numeral that unat_u64_bound)
  then have "(n + of_nat i AND NOT 7) - n = of_nat (i - i mod 8)" unfolding and_7(1) by (simp add: of_nat_diff)
  then have "unat ((n + of_nat i AND NOT 7) - n) = i - i mod 8" using that by (simp only:) (subst unat_of_nat_u64; simp)
  then show ?thesis using that unfolding word_less_nat_alt by (simp only: PGSIZE_def) simp
qed

lemma get_mem_cells_cong:
  assumes "pg_ofs p = 0" and "\<And>a. a - p < PGSIZE \<Longrightarrow> cells s' a = cells s a"
  shows "get_mem s' p 4096 = get_mem s p 4096"
proof -
  have "byte_at s' (p + of_nat i) = byte_at s (p + of_nat i)" if "i < 4096" for i
    unfolding byte_at_def assms(2) [OF cell_in_page [OF assms(1) that]] ..
  then show ?thesis by (intro nth_equalityI) simp_all
qed

lemma keeps_get_mem:
  assumes "keeps s s' pml4" and "vm_ok s pml4" and "p \<in> data_pages s pml4"
  shows "get_mem s' p 4096 = get_mem s p 4096"
  using assms used_page_props(1) [of s p] by (intro get_mem_cells_cong) (auto simp: keeps_def data_pages_def vm_ok_def)

lemma get_mem_fill_zero:
  assumes "pg_ofs p = 0" and "cells s' = fill_cells m p PGSIZE 0"
  shows "get_mem s' p 4096 = replicate 4096 0"
proof -
  have "byte_at s' (p + of_nat i) = 0" if "i < 4096" for i
    unfolding byte_at_def assms(2) fill_cells_def using cell_in_page [OF assms(1) that] by (simp only: if_True) (simp add: cell_byte_def)
  then show ?thesis by (intro nth_equalityI) simp_all
qed

lemma get_mem_other_page:
  assumes "pg_ofs p = 0" "pg_ofs q = 0" "p \<noteq> q" "k + length bs \<le> 4096"
  shows "get_mem (put_mem s (p + of_nat k) bs) q 4096 = get_mem s q 4096"
proof (rule get_mem_put_other)
  fix i :: nat assume i: "i < 4096"
  then have q: "q + of_nat i - q < PGSIZE" by (simp add: PGSIZE_def word_less_nat_alt unat_of_nat_u64)
  show "\<not> unat (q + of_nat i - (p + of_nat k)) < length bs"
    using in_block_in_page [of "q + of_nat i" p k "length bs"] pages_apart [OF assms(2,1) _ q] assms by auto
qed

text \<open>Equal cells, equal tables.\<close>

lemma tab_cells_cong:
  assumes "\<And>t i. t \<in> tables s pml4 \<Longrightarrow> i < 512 \<Longrightarrow> cells s' (t + 8 * i) = cells s (t + 8 * i)" and "d \<le> 4"
  shows "tab s' pml4 d va = tab s pml4 d va"
  using assms(2)
proof (induction d)
  case (Suc d)
  then have "cells s' (t + 8 * idx d va) = cells s (t + 8 * idx d va)" if "tab s pml4 d va = Some t" for t
    using that assms(1) [OF tablesI idx_less] by auto
  then show ?case using Suc by (simp split: option.split)
qed simp

lemma vm_cells_cong:
  assumes ok: "vm_ok s pml4" and "phys_wf s'" "used_pages s \<subseteq> used_pages s'"
    and eq: "\<And>t i. t \<in> tables s pml4 \<Longrightarrow> i < 512 \<Longrightarrow> cells s' (t + 8 * i) = cells s (t + 8 * i)"
  shows "vm_ok s' pml4" "pte_of s' pml4 = pte_of s pml4" "\<And>d va. d \<le> 3 \<Longrightarrow> tab s' pml4 d va = tab s pml4 d va" "tables s' pml4 = tables s pml4"
proof -
  have t: "tab s' pml4 d va = tab s pml4 d va" if "d \<le> 3" for d va using that by (intro tab_cells_cong) (auto intro: eq)
  then show "\<And>d va. d \<le> 3 \<Longrightarrow> tab s' pml4 d va = tab s pml4 d va" .
  show "tables s' pml4 = tables s pml4" unfolding tables_def using t by (metis (no_types))
  show "vm_ok s' pml4" using ok assms(2,3) t unfolding vm_ok_def by (smt (verit) subsetD)
  show "pte_of s' pml4 = pte_of s pml4"
  proof
    fix va
    show "pte_of s' pml4 va = pte_of s pml4 va"
      using t [of 3 va] eq [OF tablesI, of 3 va _ "PTX va"] idx_less [of 3 va] by (auto simp: pte_of_def PTX_idx split: option.split)
  qed
qed

text \<open>Writing into a page that is no table.\<close>

lemma put_mem_data:
  assumes ok: "vm_ok s pml4" and p: "p \<in> data_pages s pml4" and k: "k + length bs \<le> 4096"
  shows "vm_ok (put_mem s (p + of_nat k) bs) pml4" "pte_of (put_mem s (p + of_nat k) bs) pml4 = pte_of s pml4"
    "\<And>d va. d \<le> 3 \<Longrightarrow> tab (put_mem s (p + of_nat k) bs) pml4 d va = tab s pml4 d va"
    "data_pages (put_mem s (p + of_nat k) bs) pml4 = data_pages s pml4"
proof -
  let ?s = "put_mem s (p + of_nat k) bs"
  have wf: "phys_wf s" using ok by (simp add: vm_ok_def)
  have pa: "pg_ofs p = 0" using p used_page_props(1) [OF wf] by (auto simp: data_pages_def)
  have eq: "cells ?s (t + 8 * i) = cells s (t + 8 * i)" if t: "t \<in> tables s pml4" "i < 512" for t i
  proof (rule cells_put_mem_other)
    fix j :: nat assume j: "j < 8"
    have ta: "pg_ofs t = 0" using t(1) table_props(1) [OF ok] by (auto simp: tables_def)
    have "t \<noteq> p" using t(1) p by (auto simp: data_pages_def)
    then show "\<not> unat (t + 8 * i + of_nat j - (p + of_nat k)) < length bs"
      using in_block_in_page [of "t + 8 * i + of_nat j" p k "length bs"] k pages_apart [OF ta pa _ in_page_add [OF ta t(2) j]] by auto
  qed
  have u: "phys_wf ?s" "used_pages ?s = used_pages s" using wf by (simp_all add: phys_wf_def used_pages_def)
  note c = vm_cells_cong [OF ok u(1) _ eq, unfolded u(2), OF order_refl]
  then show "vm_ok ?s pml4" "pte_of ?s pml4 = pte_of s pml4" "\<And>d va. d \<le> 3 \<Longrightarrow> tab ?s pml4 d va = tab s pml4 d va" by auto
  show "data_pages ?s pml4 = data_pages s pml4" using c(4) u(2) by (simp add: data_pages_def)
qed

lemma fill_data:
  fixes v :: u64
  assumes ok: "vm_ok s pml4" and p: "p \<in> data_pages s pml4"
  defines "s' \<equiv> s\<lparr>cells := fill_cells (cells s) p PGSIZE v\<rparr>"
  shows "vm_ok s' pml4" "pte_of s' pml4 = pte_of s pml4" "\<And>d va. d \<le> 3 \<Longrightarrow> tab s' pml4 d va = tab s pml4 d va"
    "data_pages s' pml4 = data_pages s pml4"
proof -
  have wf: "phys_wf s" using ok by (simp add: vm_ok_def)
  have pa: "pg_ofs p = 0" using p used_page_props(1) [OF wf] by (auto simp: data_pages_def)
  have nt: "t \<noteq> p" "pg_ofs t = 0" if "t \<in> tables s pml4" for t using that table_props [OF ok] p by (auto simp: tables_def data_pages_def)
  have eq: "cells s' (t + 8 * i) = cells s (t + 8 * i)" if "t \<in> tables s pml4" "i < 512" for t i
    using pages_apart [OF nt(2) [OF that(1)] pa nt(1) [OF that(1)] in_page_slot [OF that(2)]] by (simp add: s'_def fill_cells_def)
  have u: "phys_wf s'" "used_pages s' = used_pages s" using wf by (simp_all add: s'_def phys_wf_def used_pages_def)
  note c = vm_cells_cong [OF ok u(1) _ eq, unfolded u(2), OF order_refl]
  then show "vm_ok s' pml4" "pte_of s' pml4 = pte_of s pml4" "\<And>d va. d \<le> 3 \<Longrightarrow> tab s' pml4 d va = tab s pml4 d va" by auto
  show "data_pages s' pml4 = data_pages s pml4" using c(4) u(2) by (simp add: data_pages_def)
qed

lemma unaligned_cell: "c AND 7 \<noteq> 0 \<Longrightarrow> cells (put_mem s a bs) c = cells s c"
  by (simp add: put_mem_def)

lemma cell_inside_page:
  assumes q: "pg_ofs q = 0" and a: "a - q < PGSIZE" "a AND 7 = 0" and k: "k < 8"
  shows "a + of_nat k - q < PGSIZE"
proof -
  define y where "y = unat (a - q)"
  have y: "y < 4096" using a(1) by (simp add: y_def PGSIZE_def word_less_nat_alt)
  have x: "unat (q + (a - q)) = unat q + y" "4096 dvd unat q"
    using unat_slot(1,2) [OF q, of "a - q"] a(1) by (simp_all add: y_def PGSIZE_def)
  have "a AND 7 = take_bit 3 a" by (simp add: take_bit_eq_mask mask_eq_exp_minus_1)
  then have "unat (a AND 7) = unat a mod 8" by (simp add: take_bit_eq_mod unat_mod)
  then have "8 dvd unat a" using a(2) by (simp add: dvd_eq_mod_eq_0)
  moreover have "8 dvd unat q" using x(2) by (rule dvd_trans [rotated]) simp
  ultimately have "8 dvd y" using x(1) by (simp add: dvd_add_right_iff)
  then have "y + k < 4096" using y k by (auto elim!: dvdE)
  moreover have "unat (a - q + of_nat k) = y + k"
    using calculation unat_of_nat_u64 [of k] k by (simp add: unat_word_ariths y_def)
  moreover have "a + of_nat k - q = a - q + of_nat k" by simp
  ultimately have "unat (a + of_nat k - q) < 4096" by metis
  then show ?thesis by (simp add: PGSIZE_def word_less_nat_alt)
qed

lemma put_mem_other_cells:
  assumes "pg_ofs p = 0" "pg_ofs q = 0" "p \<noteq> q" "j + length bs \<le> 4096" "a - q < PGSIZE"
  shows "cells (put_mem s (p + of_nat j) bs) a = cells s a"
proof (cases "a AND 7 = 0")
  case True
  show ?thesis
  proof (rule cells_put_mem_other)
    fix k :: nat assume "k < 8"
    then have "a + of_nat k - q < PGSIZE" using cell_inside_page [OF assms(2,5) True] by blast
    then have "\<not> a + of_nat k - p < PGSIZE" using pages_apart [OF assms(2,1)] assms(3) by blast
    then show "\<not> unat (a + of_nat k - (p + of_nat j)) < length bs" using in_block_in_page assms(4) by blast
  qed
qed (rule unaligned_cell)

text \<open>Writing into a page that was not in use before keeps the data pages.\<close>

lemma put_mem_new:
  assumes k: "keeps s s' pml4" and ok: "vm_ok s pml4" "vm_ok s' pml4" and p: "p \<in> data_pages s' pml4" "p \<notin> used_pages s" and l: "j + length bs \<le> 4096"
  shows "keeps s (put_mem s' (p + of_nat j) bs) pml4"
proof -
  have al: "pg_ofs q = 0" if "q \<in> used_pages r" "vm_ok r pml4" for q r using that used_page_props(1) by (auto simp: vm_ok_def)
  have "cells (put_mem s' (p + of_nat j) bs) a = cells s a" if "q \<in> data_pages s pml4" "a - q < PGSIZE" for q a
  proof -
    have q: "pg_ofs q = 0" "p \<noteq> q" using that(1) al [OF _ ok(1)] p(2) by (auto simp: data_pages_def)
    have "pg_ofs p = 0" using p(1) al [OF _ ok(2)] by (simp add: data_pages_def)
    then have "cells (put_mem s' (p + of_nat j) bs) a = cells s' a" using put_mem_other_cells q l that(2) by blast
    then show ?thesis using k that by (simp add: keeps_def)
  qed
  then show ?thesis using k put_mem_data(4) [OF ok(2) p(1) l] by (simp add: keeps_def)
qed

text \<open>A page that was just allocated and cleared.\<close>

lemma alloc_data:
  assumes ok: "vm_ok s pml4" and n: "phys_wf s'" "n \<notin> used_pages s" "used_pages s' = insert n (used_pages s)" "cells s' = fill_cells (cells s) n PGSIZE 0"
  shows "vm_ok s' pml4" "pte_of s' pml4 = pte_of s pml4" "\<And>d va. d \<le> 3 \<Longrightarrow> tab s' pml4 d va = tab s pml4 d va"
    "n \<in> data_pages s' pml4" "keeps s s' pml4" "get_mem s' n 4096 = replicate 4096 0"
proof -
  have na: "pg_ofs n = 0" using used_page_props(1) [OF n(1)] n(3) by auto
  have nt: "t \<noteq> n" "pg_ofs t = 0" if "t \<in> tables s pml4" for t using that table_props [OF ok] n(2) by (auto simp: tables_def)
  have eq: "cells s' (t + 8 * i) = cells s (t + 8 * i)" if "t \<in> tables s pml4" "i < 512" for t i
    using pages_apart [OF nt(2) [OF that(1)] na nt(1) [OF that(1)] in_page_slot [OF that(2)]] by (simp add: n(4) fill_cells_def)
  have sub: "used_pages s \<subseteq> used_pages s'" using n(3) by auto
  note c = vm_cells_cong [OF ok n(1) sub eq]
  show "vm_ok s' pml4" "pte_of s' pml4 = pte_of s pml4" "\<And>d va. d \<le> 3 \<Longrightarrow> tab s' pml4 d va = tab s pml4 d va" using c by auto
  have "n \<notin> tables s pml4" using nt(1) by blast
  then show "n \<in> data_pages s' pml4" using n(3) c(4) by (simp add: data_pages_def)
  show "keeps s s' pml4"
  proof (rule keepsI [where T = "{}" and N = "{}"])
    fix a assume "cells s' a \<noteq> cells s a"
    then have "a - n < PGSIZE" by (auto simp: n(4) fill_cells_def split: if_splits)
    then show "\<exists>q. pg_ofs q = 0 \<and> a - q < PGSIZE \<and> (q \<notin> used_pages s \<or> q \<in> tables s pml4)" using na n(2) by blast
  qed (use ok sub c(4) in \<open>auto simp: vm_ok_def\<close>)
  show "get_mem s' n 4096 = replicate 4096 0" by (rule get_mem_fill_zero [OF na n(4)])
qed

text \<open>Mapping a page below a table that exists cannot fail and allocates nothing.\<close>

lemma walk_present:
  assumes ok: "vm_ok s pml4" and t: "tab s pml4 3 va = Some t"
  shows "pml4e_walk s pml4 va True = ret (t + 8 * PTX va, s)"
proof -
  obtain t1 t2 where t12: "tab s pml4 1 va = Some t1" "tab s pml4 2 va = Some t2"
    using t tab_None [of s pml4 1 va 3] tab_None [of s pml4 2 va 3] by fastforce
  have t0: "tab s pml4 0 va = Some pml4" by simp
  have step: "enter_table s (u + 8 * idx d va) True = ret (Some False, s)" "ptov (PTE_ADDR (cells s (u + 8 * idx d va))) = v"
    if "tab s pml4 d va = Some u" "tab s pml4 (Suc d) va = Some v" for d u v
    using that by (auto simp: enter_table_def Let_def split: if_splits)
  have nn: "pml4 \<noteq> NULL" "t1 \<noteq> NULL" "t2 \<noteq> NULL" using table_props(3) [OF ok _ t0] table_props(3) [OF ok _ t12(1)] table_props(3) [OF ok _ t12(2)] by simp_all
  have s1: "tab s pml4 (Suc 0) va = Some t1" "tab s pml4 (Suc 1) va = Some t2" "tab s pml4 (Suc 2) va = Some t"
    using t t12 by (simp_all only: One_nat_def [symmetric] Suc_1 eval_nat_numeral)
  have w2: "pgdir_walk s t2 va True = ret (t + 8 * PTX va, s)"
    using step [OF t12(2) s1(3)] nn(3) by (simp add: pgdir_walk_def PDX_idx ptov_def Let_def algebra_simps)
  have nz: "t + 8 * PTX va \<noteq> NULL" using slot_not_null [OF ok _ t, of 3 va] by (simp add: PTX_idx)
  have w1: "pdpe_walk s t1 va True = ret (t + 8 * PTX va, s)"
    using step [OF t12(1) s1(2)] nn(2) w2 nz by (simp add: pdpe_walk_def PDPE_idx undo_table_def Let_def)
  show ?thesis using step [OF t0 s1(1)] nn(1) w1 nz by (simp add: pml4e_walk_def PML4_idx undo_table_def Let_def)
qed

lemma pml4_set_page_present:
  assumes ok: "vm_ok s pml4" and u: "is_user_vaddr upage" "pg_ofs upage = 0" and k: "is_kernel_vaddr kpage" "pg_ofs kpage = 0"
    and b: "pml4 \<noteq> base_pml4" and t: "tab s pml4 3 upage \<noteq> None"
  obtains s' where "pml4_set_page base_pml4 s pml4 upage kpage rw = ret (True, s')" "vm_ok s' pml4" "keeps s s' pml4"
      "pte_of s' pml4 = (\<lambda>va. if same 4 va upage then (kpage - KERN_BASE) OR (PTE_P OR (if rw then PTE_W else 0) OR PTE_U) else pte_of s pml4 va)"
      "\<And>d va. d \<le> 3 \<Longrightarrow> tab s' pml4 d va = tab s pml4 d va"
proof -
  from t obtain t where t: "tab s pml4 3 upage = Some t" by blast
  let ?v = "(kpage - KERN_BASE) OR (PTE_P OR (if rw then PTE_W else 0) OR PTE_U)"
  have nz: "t + 8 * PTX upage \<noteq> NULL" using slot_not_null [OF ok _ t, of 3 upage] by (simp add: PTX_idx)
  have "pml4_set_page base_pml4 s pml4 upage kpage rw = ret (True, put_cell s (t + 8 * PTX upage) ?v)"
    using walk_present [OF ok t] nz u k b by (simp add: pml4_set_page_def vtop_def or.assoc)
  then show thesis
    by (rule that [OF _ store_pte(1) [OF ok t] store_pte_keeps(2) [OF ok t] store_pte(2) [OF ok t] store_pte_keeps(1) [OF ok t]])
qed

end
