(* ===== verification/Disk.thy ===== *)
theory Disk
  imports Prelude
begin

unbundle bit_operations_syntax

text \<open>
  The disk as its clients see it (\<open>disk_size\<close>, \<open>disk_read\<close> and \<open>disk_write\<close> of
  \<open>devices/disk.c\<close>): a number of sectors of 512 bytes, read and written as a whole, with the
  bound that \<open>select_sector\<close> asserts. The ATA protocol below is not modelled. The theory also
  holds the little-endian layout of the 32-bit fields that the file system keeps on disk.
\<close>

section \<open>Bytes of 32-bit words\<close>

definition u32_bytes :: "u32 \<Rightarrow> u8 list" where
  "u32_bytes w = [ucast w, ucast (drop_bit 8 w), ucast (drop_bit 16 w), ucast (drop_bit 24 w)]"

fun bytes_u32 :: "u8 list \<Rightarrow> u32" where
  "bytes_u32 [] = 0"
| "bytes_u32 (b # bs) = ucast b OR push_bit 8 (bytes_u32 bs)"

lemma bytes_u32_inverse [simp]: "bytes_u32 (u32_bytes w) = w"
proof (rule bit_eqI)
  fix n assume "possible_bit TYPE(32 word) n"
  then have n: "n < 32" by (simp add: possible_bit_word)
  consider "n < 8" | "8 \<le> n" "n < 16" | "16 \<le> n" "n < 24" | "24 \<le> n" by linarith
  then show "bit (bytes_u32 (u32_bytes w)) n = bit w n"
    by cases (use n in \<open>auto simp: u32_bytes_def bit_simps\<close>)
qed

lemma u32_bytes_inverse [simp]: "u32_bytes (bytes_u32 [a, b, c, d]) = [a, b, c, d]"
proof -
  have "bit ((ucast (drop_bit (8 * k) (bytes_u32 [a, b, c, d])) :: u8)) n = bit ([a, b, c, d] ! k) n"
    if "k < 4" "n < 8" for k n
  proof -
    have "k = 0 \<or> k = 1 \<or> k = 2 \<or> k = 3" using that(1) by arith
    then show ?thesis
      by (elim disjE) (use that(2) in \<open>auto simp: bit_simps dest: bit_imp_le_length\<close>)
  qed
  from this [of 0] this [of 1] this [of 2] this [of 3] show ?thesis
    by (auto simp: u32_bytes_def possible_bit_word intro!: bit_eqI)
qed

lemma length_u32_bytes [simp]: "length (u32_bytes w) = 4"
  by (simp add: u32_bytes_def)

fun u32s_bytes :: "u32 list \<Rightarrow> u8 list" where
  "u32s_bytes [] = []"
| "u32s_bytes (w # ws) = u32_bytes w @ u32s_bytes ws"

fun bytes_u32s :: "u8 list \<Rightarrow> u32 list" where
  "bytes_u32s (a # b # c # d # bs) = bytes_u32 [a, b, c, d] # bytes_u32s bs"
| "bytes_u32s bs = []"

lemma length_u32s_bytes [simp]: "length (u32s_bytes ws) = 4 * length ws"
  by (induction ws) auto

lemma u32s_bytes_append [simp]: "u32s_bytes (ws @ vs) = u32s_bytes ws @ u32s_bytes vs"
  by (induction ws) auto

lemma bytes_u32s_inverse [simp]: "bytes_u32s (u32s_bytes ws) = ws"
proof (induction ws)
  case (Cons w ws)
  then show ?case using bytes_u32_inverse [of w] by (simp add: u32_bytes_def del: bytes_u32.simps bytes_u32_inverse)
qed simp

lemma u32s_bytes_inverse: "4 dvd length bs \<Longrightarrow> u32s_bytes (bytes_u32s bs) = bs"
proof (induction bs rule: bytes_u32s.induct)
  case (1 a b c d bs)
  then have "4 dvd length bs" by simp presburger
  with "1.IH" show ?case by (simp del: bytes_u32.simps)
qed (simp_all, presburger+)

lemma length_bytes_u32s [simp]: "length (bytes_u32s bs) = length bs div 4"
  by (induction bs rule: bytes_u32s.induct) auto

section \<open>The disk\<close>

definition DISK_SECTOR_SIZE :: nat where "DISK_SECTOR_SIZE = 512"

record disk =
  capacity :: u32
  sectors :: "u32 \<Rightarrow> u8 list"
  read_cnt :: int
  write_cnt :: int

definition disk_size :: "disk \<Rightarrow> u32" where
  "disk_size d = capacity d"

text \<open>\<open>select_sector\<close>: the assertions on the sector number.\<close>

definition select_sector :: "disk \<Rightarrow> u32 \<Rightarrow> unit exec" where
  "select_sector d sec_no = ASSERT (sec_no < capacity d) (ASSERT (unat sec_no < 2 ^ 28) (ret ()))"

definition disk_read :: "disk \<Rightarrow> u32 \<Rightarrow> (u8 list \<times> disk) exec" where
  "disk_read d sec_no =
     bindE (select_sector d sec_no) (\<lambda>_. ret (sectors d sec_no, d\<lparr>read_cnt := read_cnt d + 1\<rparr>))"

definition disk_write :: "disk \<Rightarrow> u32 \<Rightarrow> u8 list \<Rightarrow> disk exec" where
  "disk_write d sec_no buffer =
     bindE (select_sector d sec_no) (\<lambda>_.
     if DISK_SECTOR_SIZE \<le> length buffer
     then ret (d\<lparr>sectors := (sectors d)(sec_no := take DISK_SECTOR_SIZE buffer), write_cnt := write_cnt d + 1\<rparr>)
     else fail Out_of_bounds)"

definition disk_wf :: "disk \<Rightarrow> bool" where
  "disk_wf d \<longleftrightarrow> unat (capacity d) \<le> 2 ^ 28 \<and> (\<forall>s. length (sectors d s) = DISK_SECTOR_SIZE)"

lemma disk_read_ok:
  "disk_wf d \<Longrightarrow> s < capacity d \<Longrightarrow> disk_read d s = ret (sectors d s, d\<lparr>read_cnt := read_cnt d + 1\<rparr>)"
  by (simp add: disk_read_def select_sector_def disk_wf_def word_less_nat_alt)

lemma disk_write_ok:
  "disk_wf d \<Longrightarrow> s < capacity d \<Longrightarrow> length buf = 512 \<Longrightarrow>
     disk_write d s buf = ret (d\<lparr>sectors := (sectors d)(s := buf), write_cnt := write_cnt d + 1\<rparr>)"
  by (simp add: disk_write_def select_sector_def disk_wf_def word_less_nat_alt DISK_SECTOR_SIZE_def)

lemma disk_wf_write: "disk_wf d \<Longrightarrow> length buf = 512 \<Longrightarrow>
    disk_wf (d\<lparr>sectors := (sectors d)(s := buf), write_cnt := n\<rparr>)"
  by (simp add: disk_wf_def DISK_SECTOR_SIZE_def)

lemma disk_wf_read [simp]: "disk_wf (d\<lparr>read_cnt := n\<rparr>) = disk_wf d"
  by (simp add: disk_wf_def)

end
