(* ===== verification/Fat.thy ===== *)
theory Fat
  imports Disk
begin

text \<open>
  The file allocation table, \<open>filesys/fat.c\<close>: the in-memory table \<open>fat_fs\<close>, its storage on
  disk, and the cluster chains. \<open>fat_chains fs C\<close> is the abstraction: \<open>C\<close> is the set of chains
  (lists of cluster numbers) the table encodes. The lemmas show that creating, extending,
  truncating and removing chains act on \<open>C\<close> as intended, under the conditions in which they do.

  Whether an allocation (\<open>calloc\<close>) succeeds is an argument of the operations that panic when it
  does not.
\<close>

type_synonym cluster_t = u32
type_synonym disk_sector_t = u32

section \<open>Data\<close>

definition FAT_MAGIC :: u32 where "FAT_MAGIC = 0xEB3C9000"
definition EOChain :: u32 where "EOChain = 0x0FFFFFFF"
definition SECTORS_PER_CLUSTER :: u32 where "SECTORS_PER_CLUSTER = 1"
definition FAT_BOOT_SECTOR :: u32 where "FAT_BOOT_SECTOR = 0"
definition ROOT_DIR_CLUSTER :: u32 where "ROOT_DIR_CLUSTER = 1"

record fat_boot =
  magic :: u32
  sectors_per_cluster :: u32
  total_sectors :: u32
  fat_start :: u32
  fat_sectors :: u32
  root_dir_cluster :: u32

record fat_fs =
  fs_bs :: fat_boot
  fat :: "u32 list"
  fat_length :: u32
  data_start :: disk_sector_t
  last_clst :: cluster_t

section \<open>Entries\<close>

definition fat_put :: "fat_fs \<Rightarrow> cluster_t \<Rightarrow> cluster_t \<Rightarrow> fat_fs exec" where
  "fat_put fs clst val =
     (if unat clst < length (fat fs) then ret (fs\<lparr>fat := (fat fs)[unat clst := val]\<rparr>) else fail Out_of_bounds)"

definition fat_get :: "fat_fs \<Rightarrow> cluster_t \<Rightarrow> cluster_t exec" where
  "fat_get fs clst = (if unat clst < length (fat fs) then ret (fat fs ! unat clst) else fail Out_of_bounds)"

definition cluster_to_sector :: "fat_fs \<Rightarrow> cluster_t \<Rightarrow> disk_sector_t" where
  "cluster_to_sector fs clst = data_start fs + (clst - 1)"

definition sector_to_cluster :: "fat_fs \<Rightarrow> disk_sector_t \<Rightarrow> cluster_t" where
  "sector_to_cluster fs sector = (sector - data_start fs) + 1"

section \<open>Formatting, loading and storing\<close>

definition fat_boot_create :: "disk \<Rightarrow> fat_fs \<Rightarrow> fat_fs" where
  "fat_boot_create d fs =
     fs\<lparr>fs_bs := \<lparr>magic = FAT_MAGIC, sectors_per_cluster = SECTORS_PER_CLUSTER,
       total_sectors = disk_size d, fat_start = 1,
       fat_sectors = (disk_size d - 1) div (512 div 4 * SECTORS_PER_CLUSTER + 1) + 1,
       root_dir_cluster = ROOT_DIR_CLUSTER\<rparr>\<rparr>"

definition fat_fs_init :: "fat_fs \<Rightarrow> fat_fs" where
  "fat_fs_init fs =
     fs\<lparr>fat_length := fat_sectors (fs_bs fs) * 512 div (4 * SECTORS_PER_CLUSTER),
        data_start := fat_start (fs_bs fs) + fat_sectors (fs_bs fs),
        last_clst := ROOT_DIR_CLUSTER + 1\<rparr>"

text \<open>\<open>struct fat_boot\<close> is six words.\<close>

definition boot_bytes :: "fat_boot \<Rightarrow> u8 list" where
  "boot_bytes b = u32s_bytes [magic b, sectors_per_cluster b, total_sectors b, fat_start b,
     fat_sectors b, root_dir_cluster b]"

definition bytes_boot :: "u8 list \<Rightarrow> fat_boot" where
  "bytes_boot bytes = (case bytes_u32s (take 24 bytes) of
     [a, b, c, d, e, f] \<Rightarrow> \<lparr>magic = a, sectors_per_cluster = b, total_sectors = c, fat_start = d,
       fat_sectors = e, root_dir_cluster = f\<rparr>
   | _ \<Rightarrow> \<lparr>magic = 0, sectors_per_cluster = 0, total_sectors = 0, fat_start = 0,
       fat_sectors = 0, root_dir_cluster = 0\<rparr>)"

definition fat_init :: "bool \<Rightarrow> disk \<Rightarrow> (fat_fs \<times> disk) exec" where
  "fat_init mem d =
     (if \<not> mem then fail Panicked
      else bindE (disk_read d FAT_BOOT_SECTOR) (\<lambda>(bounce, d).
        let fs = \<lparr>fs_bs = bytes_boot bounce, fat = [], fat_length = 0, data_start = 0, last_clst = 0\<rparr>;
            fs = (if magic (fs_bs fs) \<noteq> FAT_MAGIC then fat_boot_create d fs else fs)
        in ret (fat_fs_init fs, d)))"

text \<open>
  The loops of \<open>fat_open\<close> and \<open>fat_close\<close>. \<open>buf\<close> is the byte image of the table, \<open>n\<close> the
  bytes transferred so far; \<open>off_t\<close> is a 32-bit signed integer.
\<close>

definition fat_size_in_bytes :: "fat_fs \<Rightarrow> int" where
  "fat_size_in_bytes fs = int32 (uint (fat_length fs) * 4)"

definition transfer_size :: "int \<Rightarrow> nat \<Rightarrow> nat exec" where
  "transfer_size sz n =
     (let bytes_left = sz - int n in
      if bytes_left \<ge> 512 then ret 512 else if bytes_left \<ge> 0 then ret (nat bytes_left) else fail Out_of_bounds)"

partial_function (option) fat_open_loop ::
  "disk \<Rightarrow> u32 \<Rightarrow> u32 \<Rightarrow> int \<Rightarrow> u32 \<Rightarrow> u8 list \<Rightarrow> nat \<Rightarrow> (u8 list \<times> disk) exec" where
  "fat_open_loop d start secs sz i buf n =
     (if i < secs then
        bindE (transfer_size sz n) (\<lambda>m.
        bindE (disk_read d (start + i)) (\<lambda>(sec, d).
        fat_open_loop d start secs sz (i + 1) (put_bytes buf n (take m sec)) (n + m)))
      else ret (buf, d))"

definition fat_open :: "bool \<Rightarrow> fat_fs \<Rightarrow> disk \<Rightarrow> (fat_fs \<times> disk) exec" where
  "fat_open mem fs d =
     (if \<not> mem then fail Panicked
      else bindE (fat_open_loop d (fat_start (fs_bs fs)) (fat_sectors (fs_bs fs)) (fat_size_in_bytes fs) 0
             (replicate (4 * unat (fat_length fs)) 0) 0)
        (\<lambda>(buf, d). ret (fs\<lparr>fat := bytes_u32s buf\<rparr>, d)))"

partial_function (option) fat_close_loop ::
  "disk \<Rightarrow> u32 \<Rightarrow> u32 \<Rightarrow> int \<Rightarrow> u32 \<Rightarrow> u8 list \<Rightarrow> nat \<Rightarrow> disk exec" where
  "fat_close_loop d start secs sz i buf n =
     (if i < secs then
        bindE (transfer_size sz n) (\<lambda>m.
        bindE (disk_write d (start + i) (take m (drop n buf) @ replicate (512 - m) 0)) (\<lambda>d.
        fat_close_loop d start secs sz (i + 1) buf (n + m)))
      else ret d)"

definition fat_close :: "bool \<Rightarrow> fat_fs \<Rightarrow> disk \<Rightarrow> disk exec" where
  "fat_close mem fs d =
     (if \<not> mem then fail Panicked
      else bindE (disk_write d FAT_BOOT_SECTOR (boot_bytes (fs_bs fs) @ replicate 488 0)) (\<lambda>d.
        fat_close_loop d (fat_start (fs_bs fs)) (fat_sectors (fs_bs fs)) (fat_size_in_bytes fs) 0
          (u32s_bytes (fat fs)) 0))"

definition fat_create :: "bool \<Rightarrow> fat_fs \<Rightarrow> disk \<Rightarrow> (fat_fs \<times> disk) exec" where
  "fat_create mem fs d =
     (let fs = fat_fs_init (fat_boot_create d fs) in
      if \<not> mem then fail Panicked
      else bindE (fat_put (fs\<lparr>fat := replicate (unat (fat_length fs)) 0\<rparr>) ROOT_DIR_CLUSTER EOChain) (\<lambda>fs.
        bindE (disk_write d (cluster_to_sector fs ROOT_DIR_CLUSTER) (replicate 512 0)) (\<lambda>d.
        ret (fs, d))))"

section \<open>Chains\<close>

partial_function (option) find_free_loop :: "fat_fs \<Rightarrow> cluster_t \<Rightarrow> cluster_t \<Rightarrow> cluster_t exec" where
  "find_free_loop fs find_end finding_clst =
     (if finding_clst \<noteq> find_end then
        bindE (fat_get fs finding_clst) (\<lambda>v.
        if v = 0 then ret finding_clst
        else let c = finding_clst + 1 in
             find_free_loop fs find_end (if c = fat_length fs then 2 else c))
      else ret 0)"

definition find_free_cluster :: "fat_fs \<Rightarrow> cluster_t exec" where
  "find_free_cluster fs = find_free_loop fs (last_clst fs) (last_clst fs + 1)"

partial_function (option) chain_end_loop :: "fat_fs \<Rightarrow> cluster_t \<Rightarrow> cluster_t exec" where
  "chain_end_loop fs clst =
     (if clst \<noteq> ROOT_DIR_CLUSTER then
        bindE (fat_get fs clst) (\<lambda>v. if v \<noteq> EOChain then chain_end_loop fs v else ret clst)
      else ret clst)"

definition fat_create_chain :: "fat_fs \<Rightarrow> cluster_t \<Rightarrow> (cluster_t \<times> fat_fs) exec" where
  "fat_create_chain fs clst =
     ASSERT (clst < fat_length fs) (
     bindE (find_free_cluster fs) (\<lambda>new_clst.
     if new_clst = 0 then ret (0, fs)
     else bindE (fat_put fs new_clst EOChain) (\<lambda>fs.
       let fs = fs\<lparr>last_clst := new_clst\<rparr> in
       if clst = 0 then ret (new_clst, fs)
       else bindE (chain_end_loop fs clst) (\<lambda>e.
         bindE (fat_put fs e new_clst) (\<lambda>fs. ret (new_clst, fs))))))"

partial_function (option) remove_chain_loop :: "fat_fs \<Rightarrow> cluster_t \<Rightarrow> fat_fs exec" where
  "remove_chain_loop fs clst =
     (if clst \<noteq> EOChain then
        bindE (fat_get fs clst) (\<lambda>nxt.
        bindE (fat_put fs clst 0) (\<lambda>fs.
        remove_chain_loop (if last_clst fs = clst then fs\<lparr>last_clst := 2\<rparr> else fs) nxt))
      else ret fs)"

definition fat_remove_chain :: "fat_fs \<Rightarrow> cluster_t \<Rightarrow> cluster_t \<Rightarrow> fat_fs exec" where
  "fat_remove_chain fs clst pclst =
     ASSERT (clst < fat_length fs) (
     bindE (if pclst \<noteq> 0 then fat_put fs pclst EOChain else ret fs) (\<lambda>fs.
     remove_chain_loop fs clst))"

partial_function (option) fat_allocate_loop ::
  "fat_fs \<Rightarrow> cluster_t \<Rightarrow> size_t \<Rightarrow> (fat_fs \<times> size_t) exec" where
  "fat_allocate_loop fs prv cnt =
     (if prv \<noteq> 0 \<and> cnt > 0 then
        bindE (fat_create_chain fs prv) (\<lambda>(prv, fs). fat_allocate_loop fs prv (cnt - 1))
      else ret (fs, cnt))"

text \<open>The second component is \<open>*clusterp\<close>, \<open>None\<close> when it is not assigned.\<close>

definition fat_allocate :: "fat_fs \<Rightarrow> size_t \<Rightarrow> (bool \<times> cluster_t option \<times> fat_fs) exec" where
  "fat_allocate fs cnt =
     (if cnt = 0 then ret (True, None, fs)
      else bindE (fat_create_chain fs 0) (\<lambda>(start, fs).
        bindE (fat_allocate_loop fs start (cnt - 1)) (\<lambda>(fs, left).
        if left \<noteq> 0
        then bindE (fat_remove_chain fs start 0) (\<lambda>fs. ret (start \<noteq> 0, None, fs))
        else ret (start \<noteq> 0, Some start, fs))))"

definition fat_release :: "fat_fs \<Rightarrow> cluster_t \<Rightarrow> fat_fs exec" where
  "fat_release fs clst = fat_remove_chain fs clst 0"

section \<open>The set of chains\<close>

fun linked :: "u32 list \<Rightarrow> cluster_t list \<Rightarrow> bool" where
  "linked ft [] = False"
| "linked ft [c] = (c \<noteq> 0 \<and> unat c < length ft \<and> ft ! unat c = EOChain)"
| "linked ft (c # d # cs) = (c \<noteq> 0 \<and> unat c < length ft \<and> ft ! unat c = d \<and> linked ft (d # cs))"

definition chain :: "u32 list \<Rightarrow> cluster_t list \<Rightarrow> bool" where
  "chain ft cs \<longleftrightarrow> linked ft cs \<and> distinct cs"

definition fat_ok :: "fat_fs \<Rightarrow> bool" where
  "fat_ok fs \<longleftrightarrow> length (fat fs) = unat (fat_length fs) \<and> 3 \<le> unat (fat_length fs) \<and>
     unat (fat_length fs) \<le> unat EOChain \<and> 2 \<le> unat (last_clst fs) \<and> unat (last_clst fs) < unat (fat_length fs)"

text \<open>A cluster number of the table other than the unused entry 0.\<close>

definition in_table :: "fat_fs \<Rightarrow> cluster_t \<Rightarrow> bool" where
  "in_table fs c \<longleftrightarrow> c \<noteq> 0 \<and> unat c < length (fat fs)"

definition fat_chains :: "fat_fs \<Rightarrow> cluster_t list set \<Rightarrow> bool" where
  "fat_chains fs C \<longleftrightarrow> fat_ok fs \<and> (\<forall>cs \<in> C. chain (fat fs) cs) \<and>
     (\<forall>cs \<in> C. \<forall>ds \<in> C. set cs \<inter> set ds \<noteq> {} \<longrightarrow> cs = ds) \<and>
     (\<forall>c. in_table fs c \<longrightarrow> (fat fs ! unat c \<noteq> 0 \<longleftrightarrow> (\<exists>cs \<in> C. c \<in> set cs)))"

lemma EOChain_not_0 [simp]: "EOChain \<noteq> 0"
  by (simp add: EOChain_def)

lemma linked_in_table: "linked ft cs \<Longrightarrow> c \<in> set cs \<Longrightarrow> c \<noteq> 0 \<and> unat c < length ft"
  by (induction ft cs rule: linked.induct) auto

lemma u32_cong: "unat a = unat b \<Longrightarrow> a = (b :: 'a::len word)"
  by (simp add: word_unat_eq_iff)

lemma nth_word_update:
  "unat c < length xs \<Longrightarrow> xs[unat d := v] ! unat c = (if (c :: u32) = d then v else xs ! unat c)"
proof (cases "c = d")
  case False
  then have "unat d \<noteq> unat c" using u32_cong by metis
  then have "xs[unat d := v] ! unat c = xs ! unat c" by (rule nth_list_update_neq)
  with False show ?thesis by simp
qed simp

lemma linked_update_other: "unat c \<notin> unat ` set cs \<Longrightarrow> linked (ft[unat c := v]) cs \<longleftrightarrow> linked ft cs"
  by (induction ft cs rule: linked.induct) (auto simp: nth_list_update)

lemma linked_update: "c \<notin> set cs \<Longrightarrow> linked (ft[unat c := v]) cs \<longleftrightarrow> linked ft cs"
  by (rule linked_update_other) (auto dest: u32_cong)

lemma chain_update: "c \<notin> set cs \<Longrightarrow> chain (ft[unat c := v]) cs \<longleftrightarrow> chain ft cs"
  by (simp add: chain_def linked_update)

lemma linked_last: "linked ft cs \<Longrightarrow> ft ! unat (last cs) = EOChain"
  by (induction ft cs rule: linked.induct) auto

lemma linked_extend:
  "linked ft cs \<Longrightarrow> distinct cs \<Longrightarrow> n \<notin> set cs \<Longrightarrow> linked ft [n] \<Longrightarrow> linked (ft[unat (last cs) := n]) (cs @ [n])"
proof (induction ft cs rule: linked.induct)
  case (2 ft c)
  then show ?case by (auto simp: nth_list_update word_unat_eq_iff)
next
  case (3 ft c d cs)
  then have "c \<noteq> last (d # cs)" using last_in_set [of "d # cs"] by auto
  with 3 show ?case by (auto simp: nth_list_update word_unat_eq_iff)
qed simp

lemma linked_suffix: "linked ft (cs @ ds) \<Longrightarrow> ds \<noteq> [] \<Longrightarrow> linked ft ds"
proof (induction cs)
  case (Cons c cs)
  then show ?case by (cases "cs @ ds") auto
qed simp

lemma linked_truncate:
  "linked ft (cs @ p # ds) \<Longrightarrow> distinct (cs @ p # ds) \<Longrightarrow> linked (ft[unat p := EOChain]) (cs @ [p])"
proof (induction cs)
  case Nil
  then show ?case by (cases ds) auto
next
  case (Cons c cs)
  then show ?case
    by (cases cs) (auto simp: nth_list_update word_unat_eq_iff)
qed

section \<open>Finding a free cluster\<close>

definition first_free :: "fat_fs \<Rightarrow> nat list \<Rightarrow> cluster_t" where
  "first_free fs js = (case find (\<lambda>j. fat fs ! j = 0) js of None \<Rightarrow> 0 | Some j \<Rightarrow> of_nat j)"

lemma first_free_Cons: "first_free fs (j # js) = (if fat fs ! j = 0 then of_nat j else first_free fs js)"
  by (simp add: first_free_def)

lemma find_free_low:
  assumes ok: "fat_ok fs" and "2 \<le> unat f" and "unat f \<le> unat e" and e: "unat e < length (fat fs)"
  shows "find_free_loop fs e f = ret (first_free fs [unat f..<unat e])"
  using assms(2,3)
proof (induction "unat e - unat f" arbitrary: f)
  case 0
  then have "f = e" by (intro u32_cong) simp
  then show ?case by (subst find_free_loop.simps) (simp add: first_free_def)
next
  case (Suc k)
  then have lt: "unat f < unat e" by simp
  have f1: "unat (f + 1) = Suc (unat f)" using lt by (intro unat_Suc_less) (simp add: word_less_nat_alt)
  then have ne: "f + 1 \<noteq> fat_length fs" using lt e ok by (auto simp: fat_ok_def)
  have "find_free_loop fs e (f + 1) = ret (first_free fs [unat (f + 1)..<unat e])"
    using Suc.hyps lt f1 Suc.prems by (intro Suc.hyps(1)) simp_all
  moreover have "[unat f..<unat e] = unat f # [unat (f + 1)..<unat e]" using lt f1 by (simp add: upt_conv_Cons)
  ultimately show ?case
    using lt e ne by (subst find_free_loop.simps) (auto simp: fat_get_def first_free_Cons)
qed

lemma find_free_high:
  assumes ok: "fat_ok fs" and "unat e < unat f" and "unat f < length (fat fs)" and e: "2 \<le> unat e"
  shows "find_free_loop fs e f = ret (first_free fs ([unat f..<length (fat fs)] @ [2..<unat e]))"
  using assms(2,3)
proof (induction "length (fat fs) - unat f" arbitrary: f)
  case (Suc k)
  have len: "length (fat fs) = unat (fat_length fs)" using ok by (simp add: fat_ok_def)
  have f1: "unat (f + 1) = Suc (unat f)"
    using Suc.prems(2) len by (intro unat_Suc_less [where y = "fat_length fs"]) (simp add: word_less_nat_alt)
  have split: "[unat f..<length (fat fs)] = unat f # [unat (f + 1)..<length (fat fs)]"
    using Suc.prems f1 by (simp add: upt_conv_Cons)
  have "find_free_loop fs e (if f + 1 = fat_length fs then 2 else f + 1) =
      ret (first_free fs ([unat (f + 1)..<length (fat fs)] @ [2..<unat e]))"
  proof (cases "f + 1 = fat_length fs")
    case True
    then show ?thesis
      using find_free_low [OF ok, of 2 e] e Suc.prems len f1 by simp
  next
    case False
    then have "unat (f + 1) < length (fat fs)" using f1 len Suc.prems by (auto simp: word_unat_eq_iff)
    with False show ?thesis using Suc.hyps f1 Suc.prems by simp
  qed
  then show ?case
    using Suc.prems split by (subst find_free_loop.simps) (auto simp: fat_get_def first_free_Cons Let_def)
qed simp

lemma first_free_cases:
  assumes "fat_ok fs" and "set js \<subseteq> {2..<length (fat fs)}"
  shows "(first_free fs js = 0 \<and> (\<forall>j \<in> set js. fat fs ! j \<noteq> 0)) \<or>
    (2 \<le> unat (first_free fs js) \<and> unat (first_free fs js) \<in> set js \<and> fat fs ! unat (first_free fs js) = 0)"
proof (cases "find (\<lambda>j. fat fs ! j = 0) js")
  case None
  then have "first_free fs js = 0" by (simp add: first_free_def)
  with None show ?thesis by (simp add: find_None_iff)
next
  case (Some j)
  then have j: "j \<in> set js" "fat fs ! j = 0" by (auto simp: find_Some_iff)
  then have "j < 2 ^ 32" using assms unat_u32_bound [of "fat_length fs"] by (auto simp: fat_ok_def)
  then have "unat (of_nat j :: u32) = j" by (rule unat_of_nat_u32)
  with j Some assms(2) show ?thesis by (auto simp: first_free_def)
qed

text \<open>
  \<open>find_free_cluster\<close> looks at every cluster from 2 on except the last one allocated, as long as
  that one is not the last of the table.
\<close>

lemma find_free_cluster_ok:
  assumes ok: "fat_ok fs" and room: "unat (last_clst fs) + 1 < length (fat fs)"
  obtains c where "find_free_cluster fs = ret c" "c \<noteq> 0" "2 \<le> unat c" "unat c < length (fat fs)"
      "c \<noteq> last_clst fs" "fat fs ! unat c = 0"
  | "find_free_cluster fs = ret 0" "\<And>j. 2 \<le> j \<Longrightarrow> j < length (fat fs) \<Longrightarrow> j \<noteq> unat (last_clst fs) \<Longrightarrow> fat fs ! j \<noteq> 0"
proof -
  let ?e = "last_clst fs"
  let ?js = "[Suc (unat ?e)..<length (fat fs)] @ [2..<unat ?e]"
  have f1: "unat (?e + 1) = Suc (unat ?e)"
    using ok room by (intro unat_Suc_less [where y = "fat_length fs"]) (simp add: fat_ok_def word_less_nat_alt)
  have e2: "2 \<le> unat ?e" using ok by (simp add: fat_ok_def)
  have ff: "find_free_cluster fs = ret (first_free fs ?js)"
    using find_free_high [OF ok, of ?e "?e + 1"] f1 room e2 by (simp add: find_free_cluster_def)
  have js: "set ?js \<subseteq> {2..<length (fat fs)}" using e2 room by auto
  from first_free_cases [OF ok js] show thesis
  proof (elim disjE conjE)
    assume "first_free fs ?js = 0" "\<forall>j \<in> set ?js. fat fs ! j \<noteq> 0"
    then show thesis using ff by (intro that(2)) auto
  next
    assume a: "2 \<le> unat (first_free fs ?js)" "unat (first_free fs ?js) \<in> set ?js" "fat fs ! unat (first_free fs ?js) = 0"
    then show thesis using ff js by (intro that(1) [of "first_free fs ?js"]) auto
  qed
qed

lemma find_free_cluster_overrun:
  assumes "fat_ok fs" and "unat (last_clst fs) + 1 = length (fat fs)"
  shows "find_free_cluster fs = fail Out_of_bounds"
proof -
  have "last_clst fs + 1 = fat_length fs"
    using assms by (intro u32_cong, subst unat_Suc_less [where y = "fat_length fs"])
      (simp_all add: fat_ok_def word_less_nat_alt)
  moreover have "last_clst fs + 1 \<noteq> last_clst fs" by simp
  ultimately show ?thesis
    using assms by (simp add: find_free_cluster_def find_free_loop.simps [of fs] fat_get_def fat_ok_def)
qed

section \<open>Operations on chains\<close>

lemma fat_chains_member: "fat_chains fs C \<Longrightarrow> cs \<in> C \<Longrightarrow> c \<in> set cs \<Longrightarrow> c \<noteq> 0 \<and> unat c < length (fat fs) \<and> fat fs ! unat c \<noteq> 0"
  using linked_in_table [of "fat fs" cs c] by (auto simp: fat_chains_def chain_def in_table_def)

lemma fat_chains_same: "fat_chains fs C \<Longrightarrow> cs \<in> C \<Longrightarrow> ds \<in> C \<Longrightarrow> c \<in> set cs \<Longrightarrow> c \<in> set ds \<Longrightarrow> cs = ds"
  unfolding fat_chains_def by blast

lemma disjoint_chains_insert:
  assumes "\<forall>xs \<in> D. \<forall>ys \<in> D. set xs \<inter> set ys \<noteq> {} \<longrightarrow> xs = ys" and "\<And>ds. ds \<in> D \<Longrightarrow> set cs \<inter> set ds = {}"
  shows "\<forall>xs \<in> insert cs D. \<forall>ys \<in> insert cs D. set xs \<inter> set ys \<noteq> {} \<longrightarrow> xs = ys"
  using assms by blast

lemma fat_ok_update: "fat_ok fs \<Longrightarrow> 2 \<le> unat l \<Longrightarrow> unat l < length (fat fs) \<Longrightarrow>
    fat_ok (fs\<lparr>fat := (fat fs)[i := v], last_clst := l\<rparr>)"
  by (auto simp: fat_ok_def)

lemma fat_chains_new:
  assumes C: "fat_chains fs C" and n: "2 \<le> unat n" "unat n < length (fat fs)" "fat fs ! unat n = 0"
  shows "fat_chains (fs\<lparr>fat := (fat fs)[unat n := EOChain], last_clst := n\<rparr>) (insert [n] C)"
proof -
  have n0: "n \<noteq> 0" using n(1) by auto
  have fresh: "n \<notin> set cs" if "cs \<in> C" for cs using fat_chains_member [OF C that] n(3) by auto
  have "chain ((fat fs)[unat n := EOChain]) cs" if "cs \<in> insert [n] C" for cs
    using that C fresh n n0 by (auto simp: chain_update fat_chains_def) (auto simp: chain_def)
  moreover have "(fat fs)[unat n := EOChain] ! unat c \<noteq> 0 \<longleftrightarrow> (\<exists>cs \<in> insert [n] C. c \<in> set cs)"
    if "c \<noteq> 0" "unat c < length (fat fs)" for c
    using that C n(2) by (auto simp: fat_chains_def in_table_def nth_list_update dest: u32_cong)
  ultimately show ?thesis
    using C n(1,2) fresh fat_ok_update [of fs n] by (auto simp: fat_chains_def in_table_def)
qed

lemma fat_chains_extend:
  assumes C: "fat_chains fs (insert [n] C)" and cs: "cs \<in> C" and n: "n \<notin> \<Union> (set ` C)"
  shows "fat_chains (fs\<lparr>fat := (fat fs)[unat (last cs) := n]\<rparr>) (insert (cs @ [n]) (C - {cs}))"
proof -
  have ch: "linked (fat fs) cs" "distinct cs" "linked (fat fs) [n]" using C cs by (auto simp: fat_chains_def chain_def)
  have n0: "n \<noteq> 0" using ch(3) by simp
  have nn: "n \<notin> set cs" using n cs by auto
  have lst: "last cs \<in> set cs" using ch(1) by (cases cs) auto
  have other: "last cs \<notin> set ds" if "ds \<in> C" "ds \<noteq> cs" for ds
    using fat_chains_same [OF C, of ds cs "last cs"] that cs lst by auto
  have "chain ((fat fs)[unat (last cs) := n]) ds" if "ds \<in> insert (cs @ [n]) (C - {cs})" for ds
    using that C other linked_extend [OF ch(1,2) nn ch(3)] nn ch(2)
    by (auto simp: chain_update fat_chains_def) (simp add: chain_def)
  moreover have "(fat fs)[unat (last cs) := n] ! unat c \<noteq> 0 \<longleftrightarrow> (\<exists>ds \<in> insert (cs @ [n]) (C - {cs}). c \<in> set ds)"
    if "c \<noteq> 0" "unat c < length (fat fs)" for c
  proof -
    have "(fat fs)[unat (last cs) := n] ! unat c \<noteq> 0 \<longleftrightarrow> fat fs ! unat c \<noteq> 0"
      using n0 that linked_last [OF ch(1)] by (simp add: nth_word_update)
    also have "\<dots> \<longleftrightarrow> (\<exists>ds \<in> insert [n] C. c \<in> set ds)" using C that by (simp add: fat_chains_def in_table_def)
    also have "\<dots> \<longleftrightarrow> (\<exists>ds \<in> insert (cs @ [n]) (C - {cs}). c \<in> set ds)" using cs by auto
    finally show ?thesis .
  qed
  moreover have "fat_ok (fs\<lparr>fat := (fat fs)[unat (last cs) := n]\<rparr>)" using C by (auto simp: fat_chains_def fat_ok_def)
  moreover have "set (cs @ [n]) \<inter> set ds = {}" if "ds \<in> C - {cs}" for ds
    using that n cs fat_chains_same [OF C, of cs ds] by auto
  moreover have "\<forall>xs \<in> C. \<forall>ys \<in> C. set xs \<inter> set ys \<noteq> {} \<longrightarrow> xs = ys" using C by (auto simp: fat_chains_def)
  ultimately show ?thesis
    unfolding fat_chains_def in_table_def by (auto simp del: set_append)
qed

text \<open>The walk to the end of a chain, from any of its members.\<close>

lemma chain_end_loop_last:
  "linked (fat fs) cs \<Longrightarrow> ROOT_DIR_CLUSTER \<notin> set cs \<Longrightarrow> length (fat fs) \<le> unat EOChain \<Longrightarrow>
     chain_end_loop fs (hd cs) = ret (last cs)"
proof (induction "fat fs" cs rule: linked.induct)
  case (2 c)
  then show ?case by (subst chain_end_loop.simps) (auto simp: fat_get_def)
next
  case (3 c d cs)
  then have "d \<noteq> EOChain" using linked_in_table [of "fat fs" "d # cs" d] by auto
  with 3 show ?case by (subst chain_end_loop.simps) (auto simp: fat_get_def)
qed simp

lemma fat_create_chain_new:
  assumes C: "fat_chains fs C" and room: "unat (last_clst fs) + 1 < length (fat fs)"
  shows "(fat_create_chain fs 0 = ret (0, fs) \<and>
            (\<forall>j. 2 \<le> j \<and> j < length (fat fs) \<and> j \<noteq> unat (last_clst fs) \<longrightarrow> fat fs ! j \<noteq> 0)) \<or>
         (\<exists>n fs'. fat_create_chain fs 0 = ret (n, fs') \<and> n \<noteq> 0 \<and> 2 \<le> unat n \<and> n \<notin> \<Union> (set ` C) \<and>
            fat_chains fs' (insert [n] C) \<and> last_clst fs' = n \<and> fat_length fs' = fat_length fs \<and>
            data_start fs' = data_start fs \<and> fs_bs fs' = fs_bs fs)"
proof -
  have ok: "fat_ok fs" using C by (simp add: fat_chains_def)
  then have pos: "0 < fat_length fs" by (simp add: fat_ok_def word_less_nat_alt)
  show ?thesis
  proof (rule find_free_cluster_ok [OF ok room])
    fix c assume c: "find_free_cluster fs = ret c" "c \<noteq> 0" "2 \<le> unat c" "unat c < length (fat fs)" "fat fs ! unat c = 0"
    then have "c \<notin> \<Union> (set ` C)" using fat_chains_member [OF C] by auto
    with c pos fat_chains_new [OF C c(3,4,5)] show ?thesis
      by (intro disjI2) (simp add: fat_create_chain_def fat_put_def)
  next
    assume "find_free_cluster fs = ret 0"
      "\<And>j. 2 \<le> j \<Longrightarrow> j < length (fat fs) \<Longrightarrow> j \<noteq> unat (last_clst fs) \<Longrightarrow> fat fs ! j \<noteq> 0"
    with pos show ?thesis by (intro disjI1) (simp add: fat_create_chain_def)
  qed
qed

lemma fat_create_chain_extend:
  assumes C: "fat_chains fs C" and room: "unat (last_clst fs) + 1 < length (fat fs)"
    and cs: "cs \<in> C" "clst \<in> set cs" and root: "ROOT_DIR_CLUSTER \<notin> set cs"
  shows "(fat_create_chain fs clst = ret (0, fs) \<and>
            (\<forall>j. 2 \<le> j \<and> j < length (fat fs) \<and> j \<noteq> unat (last_clst fs) \<longrightarrow> fat fs ! j \<noteq> 0)) \<or>
         (\<exists>n fs'. fat_create_chain fs clst = ret (n, fs') \<and> n \<noteq> 0 \<and> 2 \<le> unat n \<and> n \<notin> \<Union> (set ` C) \<and>
            fat_chains fs' (insert (cs @ [n]) (C - {cs})) \<and> last_clst fs' = n \<and> fat_length fs' = fat_length fs \<and>
            data_start fs' = data_start fs \<and> fs_bs fs' = fs_bs fs)"
proof -
  have ok: "fat_ok fs" using C by (simp add: fat_chains_def)
  have lt: "clst < fat_length fs" and c0: "clst \<noteq> 0"
    using fat_chains_member [OF C cs] ok by (simp_all add: fat_ok_def word_less_nat_alt)
  show ?thesis
  proof (rule find_free_cluster_ok [OF ok room])
    fix n assume n: "find_free_cluster fs = ret n" "n \<noteq> 0" "2 \<le> unat n" "unat n < length (fat fs)" "fat fs ! unat n = 0"
    then have nC: "n \<notin> \<Union> (set ` C)" using fat_chains_member [OF C] by auto
    let ?fs = "fs\<lparr>fat := (fat fs)[unat n := EOChain], last_clst := n\<rparr>"
    note new = fat_chains_new [OF C n(3,4,5)]
    obtain xs ys where sp: "cs = xs @ clst # ys" using cs(2) by (auto simp: in_set_conv_decomp)
    have "linked (fat ?fs) cs" using new cs(1) by (simp add: fat_chains_def chain_def)
    then have "linked (fat ?fs) (clst # ys)" using linked_suffix [of "fat ?fs" xs "clst # ys"] sp by simp
    moreover have "length (fat ?fs) \<le> unat EOChain" using ok by (simp add: fat_ok_def)
    ultimately have e: "chain_end_loop ?fs clst = ret (last cs)"
      using chain_end_loop_last [of ?fs "clst # ys"] root sp by simp
    have "last cs \<in> set cs" using cs by (cases cs) auto
    then have "unat (last cs) < length (fat fs)" using fat_chains_member [OF C cs(1)] by simp
    with n lt c0 e nC fat_chains_extend [OF new cs(1) nC] show ?thesis
      by (intro disjI2) (simp add: fat_create_chain_def fat_put_def)
  next
    assume "find_free_cluster fs = ret 0"
      "\<And>j. 2 \<le> j \<Longrightarrow> j < length (fat fs) \<Longrightarrow> j \<noteq> unat (last_clst fs) \<Longrightarrow> fat fs ! j \<noteq> 0"
    with lt show ?thesis by (intro disjI1) (simp add: fat_create_chain_def)
  qed
qed

section \<open>Removing chains\<close>

text \<open>The table with the clusters \<open>cs\<close> freed.\<close>

definition clear_all :: "u32 list \<Rightarrow> cluster_t list \<Rightarrow> u32 list" where
  "clear_all ft cs = fold (\<lambda>c ft. ft[unat c := 0]) cs ft"

lemma length_clear_all [simp]: "length (clear_all ft cs) = length ft"
  by (induction cs arbitrary: ft) (auto simp: clear_all_def)

lemma nth_clear_all:
  "unat c < length ft \<Longrightarrow> clear_all ft cs ! unat c = (if c \<in> set cs then 0 else ft ! unat c)"
proof (induction cs arbitrary: ft)
  case (Cons d cs)
  from Cons.IH [of "ft[unat d := 0]"] Cons.prems show ?case
    by (auto simp: clear_all_def nth_word_update)
qed (simp add: clear_all_def)

lemma linked_clear_all: "set cs \<inter> set ds = {} \<Longrightarrow> linked (clear_all ft cs) ds \<longleftrightarrow> linked ft ds"
  by (induction cs arbitrary: ft) (simp_all add: clear_all_def linked_update)

lemma remove_chain_loop_linked:
  "linked (fat fs) cs \<Longrightarrow> distinct cs \<Longrightarrow> length (fat fs) \<le> unat EOChain \<Longrightarrow>
     remove_chain_loop fs (hd cs) =
       ret (fs\<lparr>fat := clear_all (fat fs) cs, last_clst := (if last_clst fs \<in> set cs then 2 else last_clst fs)\<rparr>)"
proof (induction cs arbitrary: fs rule: induct_list012)
  case (2 c)
  then have "c \<noteq> EOChain" by auto
  with 2 show ?case
    by (subst remove_chain_loop.simps)
      (simp add: fat_get_def fat_put_def clear_all_def remove_chain_loop.simps [of _ EOChain])
next
  case (3 c d cs)
  let ?fs = "fs\<lparr>fat := (fat fs)[unat c := 0], last_clst := (if last_clst fs = c then 2 else last_clst fs)\<rparr>"
  have ce: "c \<noteq> EOChain" using 3 by auto
  have l: "linked (fat ?fs) (d # cs)" using 3 by (simp add: linked_update)
  have step: "remove_chain_loop fs c = remove_chain_loop ?fs d"
    using "3.prems" ce by (subst remove_chain_loop.simps) (simp add: fat_get_def fat_put_def)
  have "remove_chain_loop ?fs d = ret (?fs\<lparr>fat := clear_all (fat ?fs) (d # cs),
      last_clst := (if last_clst ?fs \<in> set (d # cs) then 2 else last_clst ?fs)\<rparr>)"
    using "3.IH"(2) [of ?fs] l "3.prems" by simp
  then show ?case using step by (simp add: clear_all_def)
qed simp

lemma fat_chains_cleared:
  assumes C: "fat_chains fs C" and cs: "cs \<in> C" and l: "l = 2 \<or> l = last_clst fs"
  shows "fat_chains (fs\<lparr>fat := clear_all (fat fs) cs, last_clst := l\<rparr>) (C - {cs})"
proof -
  have dj: "set cs \<inter> set ds = {}" if "ds \<in> C - {cs}" for ds
    using that cs fat_chains_same [OF C, of cs ds] by blast
  have "clear_all (fat fs) cs ! unat c \<noteq> 0 \<longleftrightarrow> (\<exists>ds \<in> C - {cs}. c \<in> set ds)" if "in_table fs c" for c
  proof -
    have "fat fs ! unat c \<noteq> 0 \<longleftrightarrow> (\<exists>ds \<in> C. c \<in> set ds)" using C that by (simp add: fat_chains_def)
    then show ?thesis using that dj cs by (auto simp: nth_clear_all in_table_def)
  qed
  moreover have "chain (clear_all (fat fs) cs) ds" if "ds \<in> C - {cs}" for ds
    using that C dj [OF that] linked_clear_all [of cs ds "fat fs"] by (auto simp: fat_chains_def chain_def)
  moreover have "fat_ok (fs\<lparr>fat := clear_all (fat fs) cs, last_clst := l\<rparr>)"
    using C l by (auto simp: fat_chains_def fat_ok_def)
  ultimately show ?thesis using C by (auto simp: fat_chains_def in_table_def)
qed

lemma fat_remove_chain_whole:
  assumes C: "fat_chains fs C" and cs: "cs \<in> C"
  shows "\<exists>fs'. fat_remove_chain fs (hd cs) 0 = ret fs' \<and> fat_chains fs' (C - {cs}) \<and>
    fat_length fs' = fat_length fs \<and> data_start fs' = data_start fs \<and> fs_bs fs' = fs_bs fs"
proof -
  have ch: "linked (fat fs) cs" "distinct cs" "length (fat fs) \<le> unat EOChain"
    using C cs by (auto simp: fat_chains_def chain_def fat_ok_def)
  have "hd cs \<in> set cs" using ch(1) by (cases cs) auto
  then have "hd cs < fat_length fs"
    using fat_chains_member [OF C cs] C by (simp add: fat_chains_def fat_ok_def word_less_nat_alt)
  then show ?thesis
    using remove_chain_loop_linked [OF ch] fat_chains_cleared [OF C cs]
    by (simp add: fat_remove_chain_def)
qed

lemma linked_split:
  "linked ft (xs @ p # c # ys) \<Longrightarrow> linked ft (c # ys) \<and> ft ! unat p = c"
  using linked_suffix [of ft xs "p # c # ys"] by simp

lemma fat_remove_chain_tail:
  assumes C: "fat_chains fs C" and cs: "xs @ p # c # ys \<in> C"
  shows "\<exists>fs'. fat_remove_chain fs c p = ret fs' \<and>
    fat_chains fs' (insert (xs @ [p]) (C - {xs @ p # c # ys})) \<and>
    fat_length fs' = fat_length fs \<and> data_start fs' = data_start fs \<and> fs_bs fs' = fs_bs fs"
proof -
  let ?cs = "xs @ p # c # ys" and ?fs = "fs\<lparr>fat := (fat fs)[unat p := EOChain]\<rparr>"
  let ?C = "insert (c # ys) (insert (xs @ [p]) (C - {?cs}))"
  have "chain (fat fs) ?cs" using C cs unfolding fat_chains_def by blast
  then have ch: "linked (fat fs) ?cs" "distinct ?cs" unfolding chain_def by blast+
  have mem: "unat p < length (fat fs)" "p \<noteq> 0" "c < fat_length fs"
    using fat_chains_member [OF C cs] C by (auto simp: fat_chains_def fat_ok_def word_less_nat_alt)
  have dj: "set ?cs \<inter> set ds = {}" if "ds \<in> C - {?cs}" for ds
    using that cs fat_chains_same [OF C, of ?cs ds] by blast
  have split: "fat_chains ?fs ?C"
  proof -
    have "chain (fat ?fs) ds" if "ds \<in> C - {?cs}" for ds
    proof -
      have "p \<notin> set ds" using dj [OF that] by auto
      then show ?thesis using that C by (simp add: chain_update fat_chains_def)
    qed
    moreover have "chain (fat ?fs) (c # ys)" "chain (fat ?fs) (xs @ [p])"
      using ch linked_split [OF ch(1)] linked_truncate [OF ch] by (simp_all add: chain_def linked_update)
    moreover have "fat ?fs ! unat a \<noteq> 0 \<longleftrightarrow> (\<exists>ds \<in> ?C. a \<in> set ds)" if "in_table ?fs a" for a
    proof -
      have "fat ?fs ! unat a \<noteq> 0 \<longleftrightarrow> fat fs ! unat a \<noteq> 0"
        using that fat_chains_member [OF C cs, of p] by (simp add: in_table_def nth_word_update)
      also have "\<dots> \<longleftrightarrow> (\<exists>ds \<in> C. a \<in> set ds)" using C that by (simp add: fat_chains_def in_table_def)
      also have "\<dots> \<longleftrightarrow> a \<in> set ?cs \<or> (\<exists>ds \<in> C - {?cs}. a \<in> set ds)" using cs by blast
      also have "\<dots> \<longleftrightarrow> (\<exists>ds \<in> ?C. a \<in> set ds)" by auto
      finally show ?thesis .
    qed
    moreover have "fat_ok ?fs" using C by (simp add: fat_chains_def fat_ok_def)
    moreover have "\<forall>xs \<in> ?C. \<forall>ys \<in> ?C. set xs \<inter> set ys \<noteq> {} \<longrightarrow> xs = ys"
    proof (intro disjoint_chains_insert)
      show "\<forall>xs \<in> C - {?cs}. \<forall>ys \<in> C - {?cs}. set xs \<inter> set ys \<noteq> {} \<longrightarrow> xs = ys"
        using fat_chains_same [OF C] by blast
      show "set (xs @ [p]) \<inter> set ds = {}" if "ds \<in> C - {?cs}" for ds using dj [OF that] by auto
      show "set (c # ys) \<inter> set ds = {}" if "ds \<in> insert (xs @ [p]) (C - {?cs})" for ds
        using that dj [of ds] ch(2) by auto
    qed
    ultimately show ?thesis unfolding fat_chains_def by blast
  qed
  have "p \<notin> set (c # ys)" using ch(2) by auto
  then have "c # ys \<noteq> xs @ [p]" "c # ys \<noteq> ?cs" by (metis in_set_conv_decomp)+
  moreover have "c # ys \<notin> C" if "c # ys \<noteq> ?cs"
    using that fat_chains_same [OF C cs, of "c # ys" c] by auto
  ultimately have "c # ys \<noteq> xs @ [p]" "c # ys \<notin> C" by blast+
  then have "?C - {c # ys} = insert (xs @ [p]) (C - {?cs})" by auto
  then show ?thesis
    using fat_remove_chain_whole [OF split, of "c # ys"] mem by (simp add: fat_remove_chain_def fat_put_def)
qed

section \<open>Allocating chains\<close>

definition free_clusters :: "fat_fs \<Rightarrow> nat set" where
  "free_clusters fs = {j. 2 \<le> j \<and> j < length (fat fs) \<and> fat fs ! j = 0}"

text \<open>
  The last cluster of the table is in use, and is not the one allocated last: then
  \<open>find_free_cluster\<close> stays inside the table, now and after every allocation.
\<close>

definition fat_safe :: "fat_fs \<Rightarrow> bool" where
  "fat_safe fs \<longleftrightarrow> unat (last_clst fs) + 1 < length (fat fs) \<and> fat fs ! (length (fat fs) - 1) \<noteq> 0"

definition fat_full :: "fat_fs \<Rightarrow> bool" where
  "fat_full fs \<longleftrightarrow> free_clusters fs \<subseteq> {unat (last_clst fs)}"

lemma free_clusters_chains:
  assumes "fat_chains fs C"
  shows "free_clusters fs = {j. 2 \<le> j \<and> j < length (fat fs)} - unat ` \<Union> (set ` C)"
proof -
  have lt: "j < 2 ^ 32" if "j < length (fat fs)" for j
    using that assms unat_u32_bound [of "fat_length fs"] by (auto simp: fat_chains_def fat_ok_def)
  have "fat fs ! j = 0 \<longleftrightarrow> j \<notin> unat ` \<Union> (set ` C)" if "2 \<le> j" "j < length (fat fs)" for j
  proof -
    have u: "unat (of_nat j :: u32) = j" using lt [OF that(2)] by (rule unat_of_nat_u32)
    then have "in_table fs (of_nat j)" using that by (auto simp: in_table_def)
    then have "fat fs ! j \<noteq> 0 \<longleftrightarrow> (\<exists>cs \<in> C. (of_nat j :: u32) \<in> set cs)"
      using assms u by (auto simp: fat_chains_def)
    moreover have "j \<in> unat ` \<Union> (set ` C) \<longleftrightarrow> (of_nat j :: u32) \<in> \<Union> (set ` C)"
    proof
      assume "j \<in> unat ` \<Union> (set ` C)"
      then obtain c where "c \<in> \<Union> (set ` C)" "j = unat c" by blast
      then show "(of_nat j :: u32) \<in> \<Union> (set ` C)" by simp
    next
      assume "(of_nat j :: u32) \<in> \<Union> (set ` C)"
      then have "unat (of_nat j :: u32) \<in> unat ` \<Union> (set ` C)" by (rule imageI)
      then show "j \<in> unat ` \<Union> (set ` C)" using u by simp
    qed
    ultimately show ?thesis by auto
  qed
  then show ?thesis by (auto simp: free_clusters_def)
qed

lemma fat_safe_step:
  assumes "fat_chains fs C" and "fat_safe fs" and "fat_chains fs' C'" and "\<Union> (set ` C) \<subseteq> \<Union> (set ` C')"
    and "fat_length fs' = fat_length fs" and "n \<notin> \<Union> (set ` C)" and "last_clst fs' = n" and "n \<in> \<Union> (set ` C')"
  shows "fat_safe fs'"
proof -
  have len: "length (fat fs') = length (fat fs)" using assms(1,3,5) by (simp add: fat_chains_def fat_ok_def)
  have f: "free_clusters fs' \<subseteq> free_clusters fs"
    unfolding free_clusters_chains [OF assms(1)] free_clusters_chains [OF assms(3)] len
    using image_mono [OF assms(4), of unat] by blast
  have l3: "3 \<le> length (fat fs)" using assms(1) by (simp add: fat_chains_def fat_ok_def)
  then have "2 \<le> length (fat fs) - 1" "length (fat fs) - 1 < length (fat fs)" by auto
  then have used: "fat fs' ! (length (fat fs) - 1) \<noteq> 0"
    using subsetD [OF f, of "length (fat fs) - 1"] assms(2) len by (auto simp: free_clusters_def fat_safe_def)
  have nl: "unat n < length (fat fs)" using assms(3,7) len by (simp add: fat_chains_def fat_ok_def)
  moreover have "2 \<le> unat n" using assms(3,7) by (simp add: fat_chains_def fat_ok_def)
  ultimately have "unat n \<in> free_clusters fs"
    using free_clusters_chains [OF assms(1)] assms(6) by (auto dest: u32_cong)
  then have "unat n \<noteq> length (fat fs) - 1" using assms(2) by (auto simp: free_clusters_def fat_safe_def)
  with nl used len assms(7) show ?thesis by (simp add: fat_safe_def)
qed

lemma fat_allocate_loop_ok:
  assumes "fat_chains fs C" and "fat_safe fs" and "cs \<in> C" and "prv \<in> set cs" and "ROOT_DIR_CLUSTER \<notin> set cs"
  shows "\<exists>fs' ns left. fat_allocate_loop fs prv cnt = ret (fs', left) \<and>
    fat_chains fs' (insert (cs @ ns) (C - {cs})) \<and> set ns \<inter> \<Union> (set ` C) = {} \<and> (\<forall>c \<in> set ns. 2 \<le> unat c) \<and>
    fat_length fs' = fat_length fs \<and> data_start fs' = data_start fs \<and> fs_bs fs' = fs_bs fs \<and>
    (length ns = unat cnt \<and> left = 0 \<or>
     length ns < unat cnt \<and> unat left = unat cnt - length ns - 1 \<and> fat_full fs')"
  using assms
proof (induction "unat cnt" arbitrary: cnt fs C cs prv)
  case 0
  then have "insert (cs @ []) (C - {cs}) = C" by auto
  moreover have "cnt = 0" using 0 by (simp add: unat_eq_zero)
  ultimately show ?case
    using 0 by (subst fat_allocate_loop.simps) (auto intro!: exI [of _ "[]"])
next
  case (Suc k)
  note C = Suc.prems(1) and safe = Suc.prems(2)
  have p0: "prv \<noteq> 0" using fat_chains_member [OF C Suc.prems(3,4)] by simp
  have c0: "cnt > 0" using Suc.hyps(2) by (simp add: word_less_nat_alt)
  have c1: "unat (cnt - 1) = k" using Suc.hyps(2) c0 by (simp add: unat_minus_one)
  have room: "unat (last_clst fs) + 1 < length (fat fs)" using safe by (simp add: fat_safe_def)
  from fat_create_chain_extend [OF C room Suc.prems(3,4,5)] show ?case
  proof (elim disjE exE conjE)
    assume a: "fat_create_chain fs prv = ret (0, fs)"
      "\<forall>j. 2 \<le> j \<and> j < length (fat fs) \<and> j \<noteq> unat (last_clst fs) \<longrightarrow> fat fs ! j \<noteq> 0"
    have "insert (cs @ []) (C - {cs}) = C" using Suc.prems(3) by auto
    moreover have "fat_full fs" using a(2) by (auto simp: fat_full_def free_clusters_def)
    moreover have "fat_allocate_loop fs prv cnt = ret (fs, cnt - 1)"
      using a(1) p0 c0 by (simp add: fat_allocate_loop.simps [of fs prv] fat_allocate_loop.simps [of fs 0])
    ultimately show ?case
      using C Suc.hyps(2) c1 by (intro exI [of _ fs] exI [of _ "[]"] exI [of _ "cnt - 1"]) simp
  next
    fix n fs1
    let ?C = "insert (cs @ [n]) (C - {cs})"
    assume n: "fat_create_chain fs prv = ret (n, fs1)" "n \<noteq> 0" "2 \<le> unat n" "n \<notin> \<Union> (set ` C)" "fat_chains fs1 ?C"
      "last_clst fs1 = n" "fat_length fs1 = fat_length fs" "data_start fs1 = data_start fs" "fs_bs fs1 = fs_bs fs"
    have "\<Union> (set ` ?C) = insert n (\<Union> (set ` C))" using Suc.prems(3) by auto
    then have "fat_safe fs1" using fat_safe_step [OF C safe n(5)] n(4,6,7) by auto
    moreover have "ROOT_DIR_CLUSTER \<notin> set (cs @ [n])" using Suc.prems(5) n(3) by (auto simp: ROOT_DIR_CLUSTER_def)
    ultimately obtain fs' ns left where ih:
      "fat_allocate_loop fs1 n (cnt - 1) = ret (fs', left)"
      "fat_chains fs' (insert ((cs @ [n]) @ ns) (?C - {cs @ [n]}))" "set ns \<inter> \<Union> (set ` ?C) = {}"
      "\<forall>c \<in> set ns. 2 \<le> unat c" "fat_length fs' = fat_length fs1" "data_start fs' = data_start fs1" "fs_bs fs' = fs_bs fs1"
      "length ns = unat (cnt - 1) \<and> left = 0 \<or>
       length ns < unat (cnt - 1) \<and> unat left = unat (cnt - 1) - length ns - 1 \<and> fat_full fs'"
      using Suc.hyps(1) [of "cnt - 1" fs1 ?C "cs @ [n]" n] c1 n(5) by auto
    have "cs @ [n] \<notin> C" using n(4) by auto
    then have "insert ((cs @ [n]) @ ns) (?C - {cs @ [n]}) = insert (cs @ n # ns) (C - {cs})" by auto
    moreover have "fat_allocate_loop fs prv cnt = ret (fs', left)"
      using n(1) p0 c0 ih(1) by (subst fat_allocate_loop.simps) simp
    moreover have "set (n # ns) \<inter> \<Union> (set ` C) = {}" using ih(3) n(4) Suc.prems(3) by auto
    ultimately show ?case
      using ih n c1 Suc.hyps(2)
      by (intro exI [of _ fs'] exI [of _ "n # ns"] exI [of _ left]) auto
  qed
qed

lemma card_free_after:
  assumes "fat_chains fs C" and "fat_chains fs' (insert cs C)" and "set cs \<inter> \<Union> (set ` C) = {}"
    and "fat_length fs' = fat_length fs" and "\<And>c. c \<in> set cs \<Longrightarrow> 2 \<le> unat c" and "distinct cs"
  shows "card (free_clusters fs') = card (free_clusters fs) - length cs" and "length cs \<le> card (free_clusters fs)"
proof -
  have len: "length (fat fs') = length (fat fs)" using assms(1,2,4) by (simp add: fat_chains_def fat_ok_def)
  have inj: "inj_on unat (set cs)" by (auto intro!: inj_onI dest: u32_cong)
  have sub: "unat ` set cs \<subseteq> free_clusters fs"
  proof
    fix j assume "j \<in> unat ` set cs"
    then obtain c where c: "c \<in> set cs" "j = unat c" by blast
    then have "unat c < length (fat fs)" using fat_chains_member [OF assms(2), of cs c] len by simp
    moreover have "unat c \<notin> unat ` \<Union> (set ` C)" using c assms(3) by (auto dest: u32_cong)
    ultimately show "j \<in> free_clusters fs" using c assms(5) by (simp add: free_clusters_chains [OF assms(1)])
  qed
  have "free_clusters fs' = free_clusters fs - unat ` set cs"
    by (auto simp: free_clusters_chains [OF assms(1)] free_clusters_chains [OF assms(2)] len)
  moreover have "finite (free_clusters fs)" by (simp add: free_clusters_def)
  moreover have "card (unat ` set cs) = length cs" using inj assms(6) by (simp add: card_image distinct_card)
  ultimately show "card (free_clusters fs') = card (free_clusters fs) - length cs" "length cs \<le> card (free_clusters fs)"
    using sub card_mono [of "free_clusters fs" "unat ` set cs"] by (simp_all add: card_Diff_subset)
qed

section \<open>The table on disk\<close>

text \<open>The sectors of the table hold its byte image, from sector \<open>s\<close> on.\<close>

definition sectors_hold :: "disk \<Rightarrow> u32 \<Rightarrow> nat \<Rightarrow> u8 list \<Rightarrow> bool" where
  "sectors_hold d s n bytes \<longleftrightarrow> (\<forall>i < n. sectors d (s + of_nat i) = take 512 (drop (512 * i) bytes))"

definition layout_ok :: "fat_fs \<Rightarrow> disk \<Rightarrow> bool" where
  "layout_ok fs d \<longleftrightarrow> disk_wf d \<and> length (fat fs) = unat (fat_length fs) \<and>
     unat (fat_length fs) = 128 * unat (fat_sectors (fs_bs fs)) \<and> fat_start (fs_bs fs) = 1 \<and>
     1 + unat (fat_sectors (fs_bs fs)) \<le> unat (capacity d) \<and> unat (fat_length fs) \<le> unat EOChain"

lemma transfer_size_whole: "n + 512 \<le> sz \<Longrightarrow> transfer_size (int sz) n = ret 512"
  by (simp add: transfer_size_def Let_def)

lemma sector_index:
  fixes i secs s :: u32
  assumes "i < secs" and "unat s + unat secs < 2 ^ 32"
  shows "unat (s + i) = unat s + unat i" and "unat (i + 1) = Suc (unat i)"
  using assms unat_Suc_less [of i secs] by (simp_all add: unat_word_ariths word_less_nat_alt)

lemma fat_close_loop_ok:
  assumes "disk_wf d" and "unat s + unat secs \<le> unat (capacity d)" and "length bytes = 512 * unat secs"
    and "i \<le> secs" and "sectors_hold d s (unat i) bytes" and "n = 512 * unat i"
  shows "\<exists>d'. fat_close_loop d s secs (int (512 * unat secs)) i bytes n = ret d' \<and> disk_wf d' \<and>
    capacity d' = capacity d \<and> sectors_hold d' s (unat secs) bytes \<and>
    (\<forall>x. unat x < unat s \<or> unat s + unat secs \<le> unat x \<longrightarrow> sectors d' x = sectors d x)"
  using assms
proof (induction "unat secs - unat i" arbitrary: i d n)
  case 0
  then have "i = secs" by (intro u32_cong) (simp add: word_le_nat_alt)
  with 0 show ?case by (subst fat_close_loop.simps) simp
next
  case (Suc k)
  have lt: "i < secs" using Suc.hyps(2) by (simp add: word_less_nat_alt)
  have bound: "unat s + unat secs < 2 ^ 32"
    using Suc.prems(1,2) by (auto simp: disk_wf_def intro: le_less_trans)
  note ix = sector_index [OF lt bound]
  let ?sec = "take 512 (drop n bytes)"
  have l512: "length ?sec = 512" using Suc.prems(3,6) lt by (simp add: word_less_nat_alt)
  have cap: "s + i < capacity d" using ix lt Suc.prems(2) by (simp add: word_less_nat_alt)
  let ?d = "d\<lparr>sectors := (sectors d)(s + i := ?sec), write_cnt := write_cnt d + 1\<rparr>"
  have w: "disk_write d (s + i) ?sec = ret ?d" by (rule disk_write_ok [OF Suc.prems(1) cap l512])
  have ts: "transfer_size (int (512 * unat secs)) n = ret 512"
    using Suc.prems(6) lt by (intro transfer_size_whole) (simp add: word_less_nat_alt)
  have ne: "s + of_nat j \<noteq> s + i" if "j < unat i" for j :: nat
  proof -
    have "unat (of_nat j :: u32) = j" using that unat_u32_bound [of i] by (intro unat_of_nat_u32) simp
    then show ?thesis using that by auto
  qed
  have "sectors_hold ?d s (unat (i + 1)) bytes"
    using Suc.prems(5,6) ne ix(2) by (auto simp: sectors_hold_def less_Suc_eq)
  moreover have "disk_wf ?d" using disk_wf_write [OF Suc.prems(1) l512] by simp
  ultimately obtain d' where d': "fat_close_loop ?d s secs (int (512 * unat secs)) (i + 1) bytes (n + 512) = ret d'"
      "disk_wf d'" "capacity d' = capacity d" "sectors_hold d' s (unat secs) bytes"
      "\<forall>x. unat x < unat s \<or> unat s + unat secs \<le> unat x \<longrightarrow> sectors d' x = sectors ?d x"
    using Suc.hyps(1) [of "i + 1" ?d "n + 512"] Suc.hyps(2) Suc.prems ix(2) inc_le [OF lt] by fastforce
  have "sectors d' x = sectors d x" if "unat x < unat s \<or> unat s + unat secs \<le> unat x" for x
  proof -
    have "x \<noteq> s + i" using that ix(1) lt by (auto simp: word_less_nat_alt)
    then show ?thesis using spec [OF d'(5), of x] that by auto
  qed
  with d' w ts lt show ?case by (subst fat_close_loop.simps) simp
qed

lemma put_bytes_prefix:
  "length buf = m \<Longrightarrow> n + length xs \<le> m \<Longrightarrow> take n buf = take n bytes \<Longrightarrow> xs = take (length xs) (drop n bytes) \<Longrightarrow>
     n \<le> length bytes \<Longrightarrow> length (put_bytes buf n xs) = m \<and> take (n + length xs) (put_bytes buf n xs) = take (n + length xs) bytes"
  by (auto simp: put_bytes_def min_def take_add)

lemma fat_open_loop_ok:
  assumes "disk_wf d" and "unat s + unat secs \<le> unat (capacity d)" and "length bytes = 512 * unat secs"
    and "i \<le> secs" and "sectors_hold d s (unat secs) bytes" and "n = 512 * unat i"
    and "length buf = length bytes" and "take n buf = take n bytes"
  shows "\<exists>d'. fat_open_loop d s secs (int (512 * unat secs)) i buf n = ret (bytes, d') \<and> sectors d' = sectors d \<and>
    capacity d' = capacity d"
  using assms
proof (induction "unat secs - unat i" arbitrary: i d n buf)
  case 0
  then have "i = secs" by (intro u32_cong) (simp add: word_le_nat_alt)
  with 0 show ?case by (subst fat_open_loop.simps) simp
next
  case (Suc k)
  have lt: "i < secs" using Suc.hyps(2) by (simp add: word_less_nat_alt)
  have bound: "unat s + unat secs < 2 ^ 32"
    using Suc.prems(1,2) by (auto simp: disk_wf_def intro: le_less_trans)
  note ix = sector_index [OF lt bound]
  let ?sec = "take 512 (drop n bytes)"
  have l512: "length ?sec = 512" using Suc.prems(3,6) lt by (simp add: word_less_nat_alt)
  have cap: "s + i < capacity d" using ix lt Suc.prems(2) by (simp add: word_less_nat_alt)
  have sec: "sectors d (s + i) = ?sec"
    using Suc.prems(5,6) lt by (auto simp: sectors_hold_def word_less_nat_alt dest: spec [of _ "unat i"])
  have r: "disk_read d (s + i) = ret (?sec, d\<lparr>read_cnt := read_cnt d + 1\<rparr>)"
    using disk_read_ok [OF Suc.prems(1) cap] sec by simp
  have ts: "transfer_size (int (512 * unat secs)) n = ret 512"
    using Suc.prems(6) lt by (intro transfer_size_whole) (simp add: word_less_nat_alt)
  have pb: "length (put_bytes buf n ?sec) = length bytes" "take (n + 512) (put_bytes buf n ?sec) = take (n + 512) bytes"
    using put_bytes_prefix [OF Suc.prems(7), of n ?sec bytes] Suc.prems(3,6,8) l512 lt
    by (auto simp: word_less_nat_alt)
  have "\<exists>d'. fat_open_loop (d\<lparr>read_cnt := read_cnt d + 1\<rparr>) s secs (int (512 * unat secs)) (i + 1)
      (put_bytes buf n ?sec) (n + 512) = ret (bytes, d') \<and> sectors d' = sectors d \<and> capacity d' = capacity d"
    using Suc.hyps(1) [of "i + 1" "d\<lparr>read_cnt := read_cnt d + 1\<rparr>" "n + 512" "put_bytes buf n ?sec"]
      Suc.hyps(2) Suc.prems ix(2) inc_le [OF lt] pb by (simp add: sectors_hold_def)
  with r ts lt l512 show ?case by (subst fat_open_loop.simps) simp
qed

section \<open>Properties\<close>

text \<open>A table of eight clusters: the root directory, a file on clusters 2 and 4, cluster 7 in use.\<close>

definition sample_fs :: fat_fs where
  "sample_fs = \<lparr>fs_bs = \<lparr>magic = FAT_MAGIC, sectors_per_cluster = 1, total_sectors = 20, fat_start = 1,
      fat_sectors = 1, root_dir_cluster = 1\<rparr>,
    fat = [0, EOChain, 4, 0, EOChain, 0, 0, EOChain], fat_length = 8, data_start = 2, last_clst = 4\<rparr>"

lemma sample_fs_chains: "fat_chains sample_fs {[1], [2, 4], [7]}"
proof -
  have "c \<in> {1, 2, 3, 4, 5, 6, 7}" if "in_table sample_fs c" for c
  proof -
    have "unat c < 8" "c \<noteq> 0" using that by (simp_all add: in_table_def sample_fs_def)
    then have "unat c \<noteq> 0" by (simp add: unat_eq_zero)
    with \<open>unat c < 8\<close> have "unat c = unat (1 :: u32) \<or> unat c = unat (2 :: u32) \<or> unat c = unat (3 :: u32) \<or>
        unat c = unat (4 :: u32) \<or> unat c = unat (5 :: u32) \<or> unat c = unat (6 :: u32) \<or> unat c = unat (7 :: u32)"
      by (simp, arith)
    then show ?thesis using u32_cong by blast
  qed
  then have "fat sample_fs ! unat c \<noteq> 0 \<longleftrightarrow> (\<exists>cs \<in> {[1], [2, 4], [7]}. c \<in> set cs)" if "in_table sample_fs c" for c
    using that by (fastforce simp: sample_fs_def)
  then show ?thesis
    by (simp add: fat_chains_def) (simp add: fat_ok_def chain_def sample_fs_def EOChain_def)
qed



text \<open>
  C24. \<open>fat_remove_chain\<close> terminates; called on the start of a chain it frees exactly the clusters
  of that chain, and called with a cluster and its predecessor it cuts the chain after the
  predecessor and frees exactly the rest. No other chain changes.
\<close>

theorem fat_remove_chain_refines:
  assumes C: "fat_chains fs C"
  shows "(\<forall>cs \<in> C. \<exists>fs'. fat_remove_chain fs (hd cs) 0 = ret fs' \<and> fat_chains fs' (C - {cs})) \<and>
    (\<forall>xs p c ys. xs @ p # c # ys \<in> C \<longrightarrow> (\<exists>fs'. fat_remove_chain fs c p = ret fs' \<and>
      fat_chains fs' (insert (xs @ [p]) (C - {xs @ p # c # ys}))))"
  using fat_remove_chain_whole [OF C] fat_remove_chain_tail [OF C] by (intro conjI ballI allI impI) blast+

theorem fat_remove_chain_refines_witness:
  "(\<exists>fs'. fat_remove_chain sample_fs 2 0 = ret fs' \<and> fat_chains fs' ({[1], [2, 4], [7]} - {[2, 4]})) \<and>
   (\<exists>fs'. fat_remove_chain sample_fs 4 2 = ret fs' \<and> fat_chains fs' (insert [2] ({[1], [2, 4], [7]} - {[2, 4]})))"
proof -
  note r = fat_remove_chain_refines [OF sample_fs_chains]
  from conjunct1 [OF r] have "\<exists>fs'. fat_remove_chain sample_fs (hd [2, 4]) 0 = ret fs' \<and> fat_chains fs' ({[1], [2, 4], [7]} - {[2, 4]})"
    by blast
  moreover have "[] @ 2 # 4 # [] \<in> {[1], [2, 4], [7 :: u32]}" by simp
  then have "\<exists>fs'. fat_remove_chain sample_fs 4 2 = ret fs' \<and>
      fat_chains fs' (insert ([] @ [2]) ({[1], [2, 4], [7]} - {[] @ 2 # 4 # []}))" using conjunct2 [OF r] by blast
  ultimately show ?thesis by simp
qed

text \<open>
  When more than \<open>cnt\<close> clusters are free and the search cannot run past the end of the table,
  \<open>fat_allocate\<close> terminates, reports success, and has built one new chain of exactly \<open>cnt\<close>
  clusters, none of which was in use, from the cluster it stores through its argument.
\<close>

theorem fat_allocate_correct:
  assumes C: "fat_chains fs C" and safe: "fat_safe fs" and "cnt \<noteq> 0" and free: "unat cnt < card (free_clusters fs)"
  shows "\<exists>cs fs'. fat_allocate fs cnt = ret (True, Some (hd cs), fs') \<and> length cs = unat cnt \<and>
    set cs \<inter> \<Union> (set ` C) = {} \<and> fat_chains fs' (insert cs C)"
proof -
  have c1: "unat (cnt - 1) = unat cnt - 1" "0 < unat cnt" using assms(3) by (simp_all add: unat_minus_one unat_gt_0)
  have sz: "card F \<le> 1" if "F \<subseteq> {x}" for F :: "nat set" and x using card_mono [OF _ that] by simp
  have room: "unat (last_clst fs) + 1 < length (fat fs)" using safe by (simp add: fat_safe_def)
  have "free_clusters fs \<subseteq> {unat (last_clst fs)}"
    if "\<forall>j. 2 \<le> j \<and> j < length (fat fs) \<and> j \<noteq> unat (last_clst fs) \<longrightarrow> fat fs ! j \<noteq> 0"
    using that by (auto simp: free_clusters_def)
  from sz [OF this] fat_create_chain_new [OF C room] free c1(2) obtain n fs1 where
    n: "fat_create_chain fs 0 = ret (n, fs1)" "n \<noteq> 0" "2 \<le> unat n" "n \<notin> \<Union> (set ` C)" "fat_chains fs1 (insert [n] C)"
      "last_clst fs1 = n" "fat_length fs1 = fat_length fs" by auto
  have safe1: "fat_safe fs1" using fat_safe_step [OF C safe n(5)] n(4,6,7) by auto
  have "ROOT_DIR_CLUSTER \<notin> set [n]" using n(3) by (auto simp: ROOT_DIR_CLUSTER_def)
  from fat_allocate_loop_ok [OF n(5) safe1, of "[n]" n "cnt - 1"] this obtain fs' ns left where
    l: "fat_allocate_loop fs1 n (cnt - 1) = ret (fs', left)" "fat_chains fs' (insert ([n] @ ns) (insert [n] C - {[n]}))"
      "set ns \<inter> \<Union> (set ` insert [n] C) = {}" "fat_length fs' = fat_length fs1"
      "\<forall>c \<in> set ns. 2 \<le> unat c" "length ns = unat (cnt - 1) \<and> left = 0 \<or>
       length ns < unat (cnt - 1) \<and> unat left = unat (cnt - 1) - length ns - 1 \<and> fat_full fs'"
    by auto
  have "insert [n] C - {[n]} = C" using n(4) by auto
  then have C': "fat_chains fs' (insert (n # ns) C)" using l(2) by simp
  have dj: "set (n # ns) \<inter> \<Union> (set ` C) = {}" using l(3) n(4) by auto
  have dist: "distinct (n # ns)" using C' by (auto simp: fat_chains_def chain_def)
  have ge2: "2 \<le> unat c" if "c \<in> set (n # ns)" for c
    using l(5) n(3) that by auto
  have "\<not> fat_full fs'" if "length ns < unat (cnt - 1)"
  proof
    assume "fat_full fs'"
    then have "card (free_clusters fs') \<le> 1" using sz by (simp add: fat_full_def)
    then show False
      using card_free_after [OF C C' dj _ ge2 dist] l(4) n(7) that free c1 by simp
  qed
  with l(6) have "length ns = unat (cnt - 1)" "left = 0" by auto
  then show ?thesis
    using n l(1) C' dj c1 assms(3) by (intro exI [of _ "n # ns"] exI [of _ fs']) (simp add: fat_allocate_def)
qed

theorem fat_allocate_correct_witness:
  "\<exists>cs fs'. fat_allocate sample_fs 2 = ret (True, Some (hd cs), fs') \<and> length cs = 2 \<and>
     set cs \<inter> \<Union> (set ` {[1], [2, 4], [7]}) = {} \<and> fat_chains fs' (insert cs {[1], [2, 4], [7]})"
proof -
  have "fat_safe sample_fs" by (simp add: fat_safe_def sample_fs_def)
  moreover have "free_clusters sample_fs = {3, 5, 6}"
  proof -
    have "j = 2 \<or> j = 3 \<or> j = 4 \<or> j = 5 \<or> j = 6 \<or> j = 7" if "2 \<le> j" "j < 8" for j :: nat using that by arith
    then show ?thesis by (fastforce simp: free_clusters_def sample_fs_def)
  qed
  ultimately show ?thesis using fat_allocate_correct [OF sample_fs_chains, of 2] by simp
qed

lemma layout_size:
  assumes "layout_ok fs d"
  shows "fat_size_in_bytes fs = int (512 * unat (fat_sectors (fs_bs fs)))"
proof -
  have "unat (fat_length fs) \<le> 268435455" using assms by (simp add: layout_ok_def EOChain_def)
  then obtain n where n: "unat (fat_length fs) = n" "uint (fat_length fs) = int n" "n \<le> 268435455"
    using uint_nat [of "fat_length fs"] by blast
  then have "in_int32 (uint (fat_length fs) * 4)" by (simp add: in_int32_def)
  then have "fat_size_in_bytes fs = int (4 * unat (fat_length fs))"
    unfolding n(1) by (simp add: fat_size_in_bytes_def n(2))
  moreover have "4 * unat (fat_length fs) = 512 * unat (fat_sectors (fs_bs fs))" using assms by (simp add: layout_ok_def)
  ultimately show ?thesis by (simp only:)
qed

lemma bytes_boot_inverse [simp]: "bytes_boot (boot_bytes b @ rest) = b"
proof -
  have "take 24 (boot_bytes b @ rest) = u32s_bytes [magic b, sectors_per_cluster b, total_sectors b, fat_start b,
     fat_sectors b, root_dir_cluster b]"
    by (simp add: boot_bytes_def del: u32s_bytes.simps)
  then show ?thesis unfolding bytes_boot_def by (simp only: bytes_u32s_inverse) simp
qed


definition sample_disk :: disk where
  "sample_disk = \<lparr>capacity = 20, sectors = (\<lambda>_. replicate 512 0), read_cnt = 0, write_cnt = 0\<rparr>"

definition empty_fs :: fat_fs where
  "empty_fs = sample_fs\<lparr>fat := [0, EOChain] @ replicate 126 0, fat_length := 128\<rparr>"


lemma unat_1_plus: "unat x + 1 < 2 ^ 32 \<Longrightarrow> unat (1 + x :: u32) = 1 + unat x"
  by (simp add: unat_word_ariths)

lemma unat_times_512: "unat x * 512 < 2 ^ 32 \<Longrightarrow> unat (x * 512 :: u32) = unat x * 512"
  by (simp add: unat_word_ariths)

lemma boot_geometry:
  fixes fs :: fat_fs
  assumes wf: "disk_wf d" and cap: "3 \<le> unat (capacity d)"
  defines "fs' \<equiv> fat_fs_init (fat_boot_create d fs)"
  shows "unat (fat_sectors (fs_bs fs')) = (unat (capacity d) - 1) div 129 + 1"
    and "unat (fat_length fs') = 128 * ((unat (capacity d) - 1) div 129 + 1)"
    and "unat (data_start fs') = (unat (capacity d) - 1) div 129 + 2"
    and "fat_start (fs_bs fs') = 1" and "magic (fs_bs fs') = FAT_MAGIC" and "last_clst fs' = 2"
proof -
  let ?q = "(unat (capacity d) - 1) div 129 + 1"
  have c28: "unat (capacity d) \<le> 268435456" using wf by (simp add: disk_wf_def)
  then have q: "?q \<le> 2080896" by linarith
  have "unat ((capacity d - 1) div 129) = (unat (capacity d) - 1) div 129"
  proof -
    have "capacity d \<noteq> 0" using cap by auto
    then have "unat (capacity d - 1) = unat (capacity d) - 1" by (rule unat_minus_one)
    then show ?thesis by (simp only: unat_div) simp
  qed
  then have s: "unat ((capacity d - 1) div 129 + 1) = ?q" using q by (simp add: unat_word_ariths)
  let ?s = "(capacity d - 1) div 129 + 1"
  have e: "fs_bs fs' = \<lparr>magic = FAT_MAGIC, sectors_per_cluster = 1, total_sectors = capacity d, fat_start = 1,
      fat_sectors = ?s, root_dir_cluster = 1\<rparr>"
    by (simp add: fs'_def fat_fs_init_def fat_boot_create_def disk_size_def SECTORS_PER_CLUSTER_def ROOT_DIR_CLUSTER_def)
  show "unat (fat_sectors (fs_bs fs')) = ?q" using s by (simp add: e)
  show "fat_start (fs_bs fs') = 1" "magic (fs_bs fs') = FAT_MAGIC" by (simp_all add: e)
  show "last_clst fs' = 2" by (simp add: fs'_def fat_fs_init_def ROOT_DIR_CLUSTER_def)
  have "data_start fs' = 1 + ?s"
    by (simp add: fs'_def fat_fs_init_def fat_boot_create_def disk_size_def SECTORS_PER_CLUSTER_def)
  moreover have "unat (1 + ?s) = 1 + unat ?s" using q s by (intro unat_1_plus) simp
  ultimately show "unat (data_start fs') = (unat (capacity d) - 1) div 129 + 2" using s by simp
  have "fat_length fs' = ?s * 512 div 4"
    by (simp add: fs'_def fat_fs_init_def fat_boot_create_def disk_size_def SECTORS_PER_CLUSTER_def)
  moreover have "unat (?s * 512) = unat ?s * 512" using q s by (intro unat_times_512) simp
  ultimately have "unat (fat_length fs') = unat ?s * 512 div 4" by (simp only: unat_div) simp
  then show "unat (fat_length fs') = 128 * ?q" using s by simp
qed

text \<open>
  Formatting: on any disk of at least 3 sectors that the driver can address, \<open>fat_create\<close>
  succeeds without an integer overflowing, and leaves a table whose only chain is the one-cluster
  chain of the root directory, with room for it on the disk, its cluster zeroed, and a layout
  that \<open>fat_close\<close> can store.
\<close>

theorem fat_create_correct:
  assumes wf: "disk_wf d" and cap: "3 \<le> unat (capacity d)"
  shows "\<exists>fs' d'. fat_create True fs d = ret (fs', d') \<and> fat_chains fs' {[ROOT_DIR_CLUSTER]} \<and> layout_ok fs' d' \<and>
    sectors d' (cluster_to_sector fs' ROOT_DIR_CLUSTER) = replicate 512 0"
proof -
  let ?fs = "fat_fs_init (fat_boot_create d fs)"
  note g = boot_geometry [OF wf cap, of fs]
  let ?fs' = "?fs\<lparr>fat := (replicate (unat (fat_length ?fs)) 0)[1 := EOChain]\<rparr>"
  have c28: "unat (capacity d) \<le> 268435456" using wf by (simp add: disk_wf_def)
  have len: "3 \<le> unat (fat_length ?fs)" "unat (fat_length ?fs) \<le> unat EOChain"
    unfolding g(2) using c28 by (simp_all add: EOChain_def)
  have fp: "fat_put (?fs\<lparr>fat := replicate (unat (fat_length ?fs)) 0\<rparr>) ROOT_DIR_CLUSTER EOChain = ret ?fs'"
    using len by (simp add: fat_put_def ROOT_DIR_CLUSTER_def)
  have ds: "cluster_to_sector ?fs' ROOT_DIR_CLUSTER = data_start ?fs"
    by (simp add: cluster_to_sector_def ROOT_DIR_CLUSTER_def)
  have "data_start ?fs < capacity d" using cap unfolding word_less_nat_alt g(3) by linarith
  from disk_write_ok [OF wf this, of "replicate 512 0"]
  have cr: "fat_create True fs d = ret (?fs', d\<lparr>sectors := (sectors d)(data_start ?fs := replicate 512 0), write_cnt := write_cnt d + 1\<rparr>)"
    by (simp only: fat_create_def Let_def fp ds bindE_simps if_False not_True_eq_False) simp
  let ?d = "d\<lparr>sectors := (sectors d)(data_start ?fs := replicate 512 0), write_cnt := write_cnt d + 1\<rparr>"
  have "fat ?fs' ! unat c \<noteq> 0 \<longleftrightarrow> c = 1" if "in_table ?fs' c" for c
  proof -
    have "unat c < unat (fat_length ?fs)" using that by (simp add: in_table_def)
    moreover have "unat c = 1 \<longleftrightarrow> c = 1" using u32_cong [of c 1] by auto
    ultimately show ?thesis using len by (auto simp: nth_list_update)
  qed
  moreover have "chain (fat ?fs') [1]" using len by (simp add: chain_def)
  moreover have "fat_ok ?fs'" using len g(6) by (simp add: fat_ok_def)
  ultimately have "fat_chains ?fs' {[ROOT_DIR_CLUSTER]}" by (simp add: fat_chains_def ROOT_DIR_CLUSTER_def)
  moreover have "layout_ok ?fs' ?d"
  proof -
    have "unat (fat_sectors (fs_bs ?fs)) + 1 \<le> unat (capacity d)" unfolding g(1) using cap by linarith
    moreover have "disk_wf ?d" by (rule disk_wf_write [OF wf]) simp
    ultimately show ?thesis using len(2) g(1,2,4) by (simp add: layout_ok_def)
  qed
  ultimately show ?thesis using cr ds by auto
qed

theorem fat_create_correct_witness:
  "\<exists>fs' d'. fat_create True sample_fs sample_disk = ret (fs', d') \<and> fat_chains fs' {[ROOT_DIR_CLUSTER]}"
proof -
  have "disk_wf sample_disk" "3 \<le> unat (capacity sample_disk)"
    by (simp_all add: sample_disk_def disk_wf_def DISK_SECTOR_SIZE_def)
  from fat_create_correct [OF this, of sample_fs] show ?thesis by blast
qed

section \<open>Where the code falls short\<close>

text \<open>
  When the cluster allocated last is the last of the table, the search for a free one reads past
  the end of the table (\<open>find_free_cluster_overrun\<close> above). Extending the root directory's chain
  a second time drops the clusters it already had: the walk to the end of the chain stops at
  cluster 1 at once.
\<close>

lemma root_chain_lost:
  "\<exists>fs1 fs2. fat_create_chain sample_fs 1 = ret (5, fs1) \<and> linked (fat fs1) [1, 5] \<and>
     fat_create_chain fs1 1 = ret (6, fs2) \<and> linked (fat fs2) [1, 6] \<and> fat fs2 ! 5 = EOChain"
  by (simp add: fat_create_chain_def find_free_cluster_def find_free_loop.simps sample_fs_def fat_get_def
      fat_put_def EOChain_def chain_end_loop.simps ROOT_DIR_CLUSTER_def)

text \<open>
  When space runs out, \<open>fat_allocate\<close> still reports success: with a chain that is one cluster
  short when only the last cluster was missing, and otherwise with no chain at all and nothing
  stored through its argument.
\<close>

lemma fat_allocate_short:
  "\<exists>fs1. fat_allocate sample_fs 4 = ret (True, Some 5, fs1) \<and> linked (fat fs1) [5, 6, 3]"
  "\<exists>fs2. fat_allocate sample_fs 5 = ret (True, None, fs2) \<and> fat fs2 = fat sample_fs"
  by (simp_all add: fat_allocate_def fat_create_chain_def find_free_cluster_def find_free_loop.simps sample_fs_def
      fat_get_def fat_put_def EOChain_def chain_end_loop.simps fat_allocate_loop.simps fat_remove_chain_def
      remove_chain_loop.simps ROOT_DIR_CLUSTER_def)

text \<open>
  With no free cluster at all and more than one wanted, \<open>fat_allocate\<close> removes the \<open>chain\<close>
  that starts at cluster 0, whose entry is 0 again: it never returns. The same happens to
  \<open>fat_release (0)\<close>, which \<open>inode_close\<close> calls for a removed file that has no cluster.
\<close>

lemma remove_chain_zero_diverges:
  assumes "fat fs ! 0 = 0" and "0 < length (fat fs)" and "last_clst fs \<noteq> 0"
  shows "remove_chain_loop fs 0 = diverges"
proof (rule ccontr)
  assume "remove_chain_loop fs 0 \<noteq> diverges"
  then obtain y where y: "remove_chain_loop fs 0 = Some y" by auto
  have "\<not> (c = 0 \<and> fat g ! 0 = 0 \<and> 0 < length (fat g) \<and> last_clst g \<noteq> 0)" if "remove_chain_loop g c = Some z" for g c z
    using that
  proof (rule remove_chain_loop.raw_induct [rotated])
    fix f :: "fat_fs \<Rightarrow> cluster_t \<Rightarrow> fat_fs exec" and g :: fat_fs and c z
    assume IH: "\<And>g c z. f g c = Some z \<Longrightarrow> \<not> (c = 0 \<and> fat g ! 0 = 0 \<and> 0 < length (fat g) \<and> last_clst g \<noteq> 0)"
    assume eq: "(if c \<noteq> EOChain then bindE (fat_get g c) (\<lambda>nxt. bindE (fat_put g c 0)
        (\<lambda>fs. f (if last_clst fs = c then fs\<lparr>last_clst := 2\<rparr> else fs) nxt)) else ret g) = Some z"
    show "\<not> (c = 0 \<and> fat g ! 0 = 0 \<and> 0 < length (fat g) \<and> last_clst g \<noteq> 0)"
    proof
      assume a: "c = 0 \<and> fat g ! 0 = 0 \<and> 0 < length (fat g) \<and> last_clst g \<noteq> 0"
      then have "(fat g)[0 := 0] = fat g" using list_update_id [of "fat g" 0] by simp
      then have "f g 0 = Some z" using eq a EOChain_not_0 by (auto simp: fat_get_def fat_put_def)
      with IH a show False by blast
    qed
  qed
  with y assms show False by blast
qed

lemma fat_allocate_full_diverges:
  assumes ok: "fat_ok fs" and room: "unat (last_clst fs) + 1 < length (fat fs)" and "fat_full fs"
    and "fat fs ! 0 = 0" and "1 < unat cnt"
  shows "fat_allocate fs cnt = diverges"
proof -
  have pos: "0 < fat_length fs" "0 < length (fat fs)" "last_clst fs \<noteq> 0"
    using ok by (auto simp: fat_ok_def word_less_nat_alt)
  have "find_free_cluster fs = ret 0"
  proof (rule find_free_cluster_ok [OF ok room])
    fix c assume "2 \<le> unat c" "unat c < length (fat fs)" "c \<noteq> last_clst fs" "fat fs ! unat c = 0"
    then have "unat c \<in> free_clusters fs" "unat c \<noteq> unat (last_clst fs)" by (auto simp: free_clusters_def dest: u32_cong)
    with assms(3) show ?thesis by (auto simp: fat_full_def)
  qed
  then have "fat_create_chain fs 0 = ret (0, fs)" using pos by (simp add: fat_create_chain_def)
  moreover have "cnt \<noteq> 0" "cnt - 1 \<noteq> 0" using assms(5) by auto
  moreover have "fat_allocate_loop fs 0 (cnt - 1) = ret (fs, cnt - 1)" by (subst fat_allocate_loop.simps) simp
  ultimately show ?thesis
    using remove_chain_zero_diverges [OF assms(4)] pos by (simp add: fat_allocate_def fat_remove_chain_def)
qed

lemma fat_release_zero_diverges:
  "fat_ok fs \<Longrightarrow> fat fs ! 0 = 0 \<Longrightarrow> fat_release fs 0 = diverges"
  using remove_chain_zero_diverges [of fs] unat_0 [where ?'a = 32]
  by (cases "last_clst fs = 0") (auto simp: fat_release_def fat_remove_chain_def fat_ok_def word_less_nat_alt)

text \<open>Cluster numbers and sector numbers correspond one to one.\<close>

lemma sector_cluster_inverse [simp]:
  "sector_to_cluster fs (cluster_to_sector fs c) = c" "cluster_to_sector fs (sector_to_cluster fs s) = s"
  by (simp_all add: sector_to_cluster_def cluster_to_sector_def)

end
