(* ===== verification/Inode.thy ===== *)
theory Inode
  imports Fat
begin

text \<open>
  The inode layer, \<open>filesys/inode.c\<close>: on-disk inodes, the list of open in-memory inodes, and
  reading and writing files through the cluster chains. The state \<open>fsys\<close> holds the allocation
  table, the disk, and the in-memory inodes by address. \<open>off_t\<close> is a 32-bit signed integer: the
  model computes in \<^typ>\<open>int\<close> and wraps with \<open>int32\<close> where a sum could leave the range.

  \<open>raw fs d cs\<close> is the byte sequence of the sectors of the chain \<open>cs\<close>; the content of a file is
  its first \<open>length\<close> bytes. The lemmas show that reads return and writes change exactly the
  right bytes of it, also when the file grows.

  Whether \<open>malloc\<close> succeeds, and the address it returns, are arguments.
\<close>

type_synonym off_t = int

section \<open>Data\<close>

definition INODE_MAGIC :: u32 where "INODE_MAGIC = 0x494e4f44"
definition ROOT_DIR_SECTOR :: u32 where "ROOT_DIR_SECTOR = 1"

text \<open>\<open>unused\<close> stands for the 499 bytes after \<open>isdir\<close> (the unused member and the padding).\<close>

record inode_disk =
  d_start :: cluster_t
  d_length :: off_t
  d_magic :: u32
  isdir :: bool
  unused :: "u8 list"

record inode =
  i_sector :: disk_sector_t
  open_cnt :: int
  removed :: bool
  deny_write_cnt :: int
  i_data :: inode_disk

record fsys =
  fatfs :: fat_fs
  filesys_disk :: disk
  inodes :: "ptr \<Rightarrow> inode option"
  open_inodes :: "ptr list"

definition inode_disk_bytes :: "inode_disk \<Rightarrow> u8 list" where
  "inode_disk_bytes i = u32_bytes (d_start i) @ u32_bytes (word_of_int (d_length i)) @ u32_bytes (d_magic i) @
     [if isdir i then 1 else 0] @ unused i"

definition bytes_inode_disk :: "u8 list \<Rightarrow> inode_disk" where
  "bytes_inode_disk bs = \<lparr>d_start = bytes_u32 (take 4 bs), d_length = sint (bytes_u32 (take 4 (drop 4 bs))),
     d_magic = bytes_u32 (take 4 (drop 8 bs)), isdir = (bs ! 12 \<noteq> 0), unused = drop 13 bs\<rparr>"

definition the_inode :: "fsys \<Rightarrow> ptr \<Rightarrow> inode exec" where
  "the_inode s p = (case inodes s p of None \<Rightarrow> fail Null_deref | Some i \<Rightarrow> ret i)"

definition put_inode :: "fsys \<Rightarrow> ptr \<Rightarrow> inode \<Rightarrow> fsys" where
  "put_inode s p i = s\<lparr>inodes := (inodes s)(p \<mapsto> i)\<rparr>"

section \<open>Locating bytes\<close>

definition bytes_to_sectors :: "off_t \<Rightarrow> size_t" where
  "bytes_to_sectors sz = word_of_int (cdiv (sz + 512 - 1) 512)"

definition inode_length :: "inode \<Rightarrow> off_t" where
  "inode_length i = d_length (i_data i)"

partial_function (option) walk_chain :: "fat_fs \<Rightarrow> cluster_t \<Rightarrow> int \<Rightarrow> disk_sector_t exec" where
  "walk_chain fs clst_idx secs =
     (if secs > 0 then
        bindE (fat_get fs clst_idx) (\<lambda>c. if c = EOChain then ret (- 1) else walk_chain fs c (secs - 1))
      else ret (cluster_to_sector fs clst_idx))"

definition byte_to_sector :: "fat_fs \<Rightarrow> inode \<Rightarrow> off_t \<Rightarrow> disk_sector_t exec" where
  "byte_to_sector fs i pos =
     (if pos > d_length (i_data i) then ret (- 1)
      else let clst_idx = d_start (i_data i) in
        if clst_idx = 0 \<or> clst_idx = EOChain then ret (- 1)
        else walk_chain fs clst_idx (cdiv pos 512))"

section \<open>Reading and writing\<close>

text \<open>How many bytes the loops transfer next.\<close>

definition chunk_size :: "inode \<Rightarrow> off_t \<Rightarrow> off_t \<Rightarrow> int" where
  "chunk_size i sz offset =
     (let inode_left = inode_length i - offset;
          sector_left = 512 - cmod offset 512;
          min_left = (if inode_left < sector_left then inode_left else sector_left)
      in if sz < min_left then sz else min_left)"

text \<open>\<open>mem\<close>: there is memory for the bounce buffer. \<open>acc\<close> is what has been copied so far.\<close>

partial_function (option) read_loop ::
  "bool \<Rightarrow> fat_fs \<Rightarrow> inode \<Rightarrow> disk \<Rightarrow> off_t \<Rightarrow> off_t \<Rightarrow> u8 list \<Rightarrow> (u8 list \<times> disk) exec" where
  "read_loop mem fs i d sz offset acc =
     (if sz > 0 then
        bindE (byte_to_sector fs i offset) (\<lambda>sector_idx.
        let sector_ofs = cmod offset 512; chunk = chunk_size i sz offset in
        if chunk \<le> 0 then ret (acc, d)
        else if sector_ofs = 0 \<and> chunk = 512 then
          bindE (disk_read d sector_idx) (\<lambda>(sec, d).
          read_loop mem fs i d (sz - chunk) (offset + chunk) (acc @ sec))
        else if \<not> mem then ret (acc, d)
        else
          bindE (disk_read d sector_idx) (\<lambda>(sec, d).
          read_loop mem fs i d (sz - chunk) (offset + chunk)
            (acc @ take (nat chunk) (drop (nat sector_ofs) sec))))
      else ret (acc, d))"

text \<open>The bytes \<open>inode_read_at\<close> stores from the start of the buffer; it returns their number.\<close>

definition inode_read_at :: "bool \<Rightarrow> fsys \<Rightarrow> ptr \<Rightarrow> off_t \<Rightarrow> off_t \<Rightarrow> (u8 list \<times> fsys) exec" where
  "inode_read_at mem s p sz offset =
     bindE (the_inode s p) (\<lambda>i.
     bindE (read_loop mem (fatfs s) i (filesys_disk s) sz offset []) (\<lambda>(bytes, d).
     ret (bytes, s\<lparr>filesys_disk := d\<rparr>)))"

partial_function (option) extend_loop ::
  "fat_fs \<Rightarrow> disk \<Rightarrow> inode_disk \<Rightarrow> off_t \<Rightarrow> (fat_fs \<times> disk \<times> inode_disk) exec" where
  "extend_loop fs d di remain_length =
     (if remain_length > 0 then
        bindE (fat_create_chain fs (d_start di)) (\<lambda>(new_clst, fs).
        let add_size = (if remain_length < 512 then remain_length else 512) in
        bindE (disk_write d (cluster_to_sector fs new_clst) (replicate 512 0)) (\<lambda>d.
        extend_loop fs d (di\<lparr>d_length := int32 (d_length di + add_size)\<rparr>) (remain_length - 512)))
      else ret (fs, d, di))"

definition inode_extend :: "fat_fs \<Rightarrow> disk \<Rightarrow> inode_disk \<Rightarrow> off_t \<Rightarrow> (fat_fs \<times> disk \<times> inode_disk) exec" where
  "inode_extend fs d di extend_size =
     (if extend_size > d_length di then
        let last_sector_use_size = cmod (d_length di) 512;
            remain_length = extend_size - d_length di;
            last_sector_remain_size = 512 - last_sector_use_size in
        bindE (if d_start di = 0 then bindE (fat_create_chain fs 0) (\<lambda>(c, fs). ret (fs, di\<lparr>d_start := c\<rparr>))
               else ret (fs, di)) (\<lambda>(fs, di).
        extend_loop fs d
          (di\<lparr>d_length := int32 (d_length di +
             (if remain_length < last_sector_remain_size then remain_length else last_sector_remain_size))\<rparr>)
          (remain_length - last_sector_remain_size))
      else ret (fs, d, di))"

text \<open>\<open>buf\<close> is what is still to be written, \<open>n\<close> the number of bytes written so far.\<close>

partial_function (option) write_loop ::
  "bool \<Rightarrow> fat_fs \<Rightarrow> inode \<Rightarrow> disk \<Rightarrow> u8 list \<Rightarrow> off_t \<Rightarrow> off_t \<Rightarrow> int \<Rightarrow> (int \<times> disk) exec" where
  "write_loop mem fs i d buf sz offset n =
     (if sz > 0 then
        bindE (byte_to_sector fs i offset) (\<lambda>sector_idx.
        let sector_ofs = cmod offset 512; sector_left = 512 - sector_ofs; chunk = chunk_size i sz offset in
        if chunk \<le> 0 then ret (n, d)
        else if int (length buf) < chunk then fail Out_of_bounds
        else if sector_ofs = 0 \<and> chunk = 512 then
          bindE (disk_write d sector_idx (take 512 buf)) (\<lambda>d.
          write_loop mem fs i d (drop (nat chunk) buf) (sz - chunk) (offset + chunk) (n + chunk))
        else if \<not> mem then ret (n, d)
        else
          bindE (if sector_ofs > 0 \<or> chunk < sector_left then disk_read d sector_idx
                 else ret (replicate 512 0, d)) (\<lambda>(bounce, d).
          bindE (disk_write d sector_idx (put_bytes bounce (nat sector_ofs) (take (nat chunk) buf))) (\<lambda>d.
          write_loop mem fs i d (drop (nat chunk) buf) (sz - chunk) (offset + chunk) (n + chunk))))
      else ret (n, d))"

definition inode_flush :: "disk \<Rightarrow> inode \<Rightarrow> disk exec" where
  "inode_flush d i = disk_write d (i_sector i) (inode_disk_bytes (i_data i))"

definition inode_write_at :: "bool \<Rightarrow> fsys \<Rightarrow> ptr \<Rightarrow> u8 list \<Rightarrow> off_t \<Rightarrow> off_t \<Rightarrow> (off_t \<times> fsys) exec" where
  "inode_write_at mem s p buf sz offset =
     bindE (the_inode s p) (\<lambda>i.
     if deny_write_cnt i \<noteq> 0 then ret (0, s)
     else
       bindE (inode_extend (fatfs s) (filesys_disk s) (i_data i) (int32 (offset + sz))) (\<lambda>(fs, d, di).
       let i = i\<lparr>i_data := di\<rparr> in
       bindE (write_loop mem fs i d buf sz offset 0) (\<lambda>(n, d).
       bindE (inode_flush d i) (\<lambda>d.
       ret (n, put_inode (s\<lparr>fatfs := fs, filesys_disk := d\<rparr>) p i)))))"

section \<open>Creating, opening and closing\<close>

definition inode_init :: "fsys \<Rightarrow> fsys" where
  "inode_init s = s\<lparr>open_inodes := []\<rparr>"

definition create_root_dir_inode :: "bool \<Rightarrow> fat_fs \<Rightarrow> disk \<Rightarrow> (fat_fs \<times> disk) exec" where
  "create_root_dir_inode mem fs d =
     bindE (fat_put fs ROOT_DIR_CLUSTER EOChain) (\<lambda>fs.
     if \<not> mem then fail Panicked
     else bindE (disk_write d (cluster_to_sector fs ROOT_DIR_CLUSTER) (replicate 512 0)) (\<lambda>d.
       bindE (disk_write d ROOT_DIR_SECTOR (inode_disk_bytes
         \<lparr>d_start = ROOT_DIR_CLUSTER, d_length = 0, d_magic = INODE_MAGIC, isdir = True, unused = replicate 499 0\<rparr>)) (\<lambda>d.
       ret (fs, d))))"

partial_function (option) zero_loop :: "disk \<Rightarrow> disk_sector_t \<Rightarrow> size_t \<Rightarrow> size_t \<Rightarrow> disk exec" where
  "zero_loop d start secs i =
     (if i < secs then
        bindE (disk_write d (start + ucast i) (replicate 512 0)) (\<lambda>d. zero_loop d start secs (i + 1))
      else ret d)"

definition inode_create :: "bool \<Rightarrow> fat_fs \<Rightarrow> disk \<Rightarrow> disk_sector_t \<Rightarrow> off_t \<Rightarrow> bool \<Rightarrow> (bool \<times> fat_fs \<times> disk) exec" where
  "inode_create mem fs d sector len is_directory =
     ASSERT (len \<ge> 0) (
     if \<not> mem then ret (False, fs, d)
     else
       let secs = bytes_to_sectors len in
       bindE (fat_allocate fs secs) (\<lambda>(ok, start, fs).
       if ok then
         let start = (case start of Some c \<Rightarrow> c | None \<Rightarrow> 0);
             di = \<lparr>d_start = start, d_length = len, d_magic = INODE_MAGIC, isdir = is_directory, unused = replicate 499 0\<rparr> in
         bindE (disk_write d sector (inode_disk_bytes di)) (\<lambda>d.
         bindE (if secs > 0 then zero_loop d (cluster_to_sector fs start) secs 0 else ret d) (\<lambda>d.
         ret (True, fs, d)))
       else ret (False, fs, d)))"

fun find_open :: "fsys \<Rightarrow> disk_sector_t \<Rightarrow> ptr list \<Rightarrow> ptr option exec" where
  "find_open s sector [] = ret None"
| "find_open s sector (p # ps) =
     bindE (the_inode s p) (\<lambda>i. if i_sector i = sector then ret (Some p) else find_open s sector ps)"

definition inode_reopen :: "fsys \<Rightarrow> ptr \<Rightarrow> fsys exec" where
  "inode_reopen s p =
     (if p \<noteq> NULL then bindE (the_inode s p) (\<lambda>i. ret (put_inode s p (i\<lparr>open_cnt := open_cnt i + 1\<rparr>))) else ret s)"

text \<open>\<open>new\<close> is the address \<open>malloc\<close> returns, if it does.\<close>

definition inode_open :: "ptr option \<Rightarrow> fsys \<Rightarrow> disk_sector_t \<Rightarrow> (ptr \<times> fsys) exec" where
  "inode_open new s sector =
     bindE (find_open s sector (open_inodes s)) (\<lambda>r.
     case r of
       Some p \<Rightarrow> bindE (inode_reopen s p) (\<lambda>s. ret (p, s))
     | None \<Rightarrow> (case new of
         None \<Rightarrow> ret (NULL, s)
       | Some p \<Rightarrow>
           bindE (disk_read (filesys_disk s) sector) (\<lambda>(bytes, d).
           ret (p, (put_inode s p \<lparr>i_sector = sector, open_cnt = 1, removed = False, deny_write_cnt = 0,
               i_data = bytes_inode_disk bytes\<rparr>)\<lparr>filesys_disk := d, open_inodes := p # open_inodes s\<rparr>))))"

definition inode_get_inumber :: "inode \<Rightarrow> disk_sector_t" where
  "inode_get_inumber i = i_sector i"

definition inode_close :: "fsys \<Rightarrow> ptr \<Rightarrow> fsys exec" where
  "inode_close s p =
     (if p = NULL then ret s
      else bindE (the_inode s p) (\<lambda>i.
        if d_magic (i_data i) \<noteq> INODE_MAGIC then ret s
        else if open_cnt i - 1 = 0 then
          let s = s\<lparr>open_inodes := remove1 p (open_inodes s)\<rparr> in
          bindE (if removed i then
                   bindE (fat_release (fatfs s) (d_start (i_data i))) (\<lambda>fs.
                   bindE (fat_release fs (sector_to_cluster fs (i_sector i))) (\<lambda>fs.
                   ret (s\<lparr>fatfs := fs\<rparr>)))
                 else ret s) (\<lambda>s.
          ret (s\<lparr>inodes := (inodes s)(p := None)\<rparr>))
        else ret (put_inode s p (i\<lparr>open_cnt := open_cnt i - 1\<rparr>))))"

definition inode_remove :: "fsys \<Rightarrow> ptr \<Rightarrow> fsys exec" where
  "inode_remove s p = ASSERT (p \<noteq> NULL) (bindE (the_inode s p) (\<lambda>i. ret (put_inode s p (i\<lparr>removed := True\<rparr>))))"

definition inode_deny_write :: "fsys \<Rightarrow> ptr \<Rightarrow> fsys exec" where
  "inode_deny_write s p =
     bindE (the_inode s p) (\<lambda>i.
     ASSERT (deny_write_cnt i + 1 \<le> open_cnt i) (ret (put_inode s p (i\<lparr>deny_write_cnt := deny_write_cnt i + 1\<rparr>))))"

definition inode_allow_write :: "fsys \<Rightarrow> ptr \<Rightarrow> fsys exec" where
  "inode_allow_write s p =
     bindE (the_inode s p) (\<lambda>i.
     ASSERT (deny_write_cnt i > 0) (ASSERT (deny_write_cnt i \<le> open_cnt i) (
     ret (put_inode s p (i\<lparr>deny_write_cnt := deny_write_cnt i - 1\<rparr>)))))"

definition is_dir :: "inode \<Rightarrow> bool" where
  "is_dir i = isdir (i_data i)"

definition is_good_inode :: "inode \<Rightarrow> bool" where
  "is_good_inode i \<longleftrightarrow> d_magic (i_data i) = INODE_MAGIC"

definition get_inode_sector :: "inode \<Rightarrow> disk_sector_t" where
  "get_inode_sector i = i_sector i"

section \<open>The bytes of a chain\<close>

definition raw :: "fat_fs \<Rightarrow> disk \<Rightarrow> cluster_t list \<Rightarrow> u8 list" where
  "raw fs d cs = concat (map (\<lambda>c. sectors d (cluster_to_sector fs c)) cs)"

lemma raw_simps [simp]:
  "raw fs d [] = []" "raw fs d (c # cs) = sectors d (cluster_to_sector fs c) @ raw fs d cs"
  "raw fs d (cs @ ds) = raw fs d cs @ raw fs d ds"
  by (simp_all add: raw_def)

lemma sector_length: "disk_wf d \<Longrightarrow> length (sectors d x) = 512"
  by (simp add: disk_wf_def DISK_SECTOR_SIZE_def)

lemma length_raw: "disk_wf d \<Longrightarrow> length (raw fs d cs) = 512 * length cs"
  by (induction cs) (simp_all add: sector_length)

lemma drop_raw: "disk_wf d \<Longrightarrow> k \<le> length cs \<Longrightarrow> drop (512 * k) (raw fs d cs) = raw fs d (drop k cs)"
proof -
  assume d: "disk_wf d" and k: "k \<le> length cs"
  have "raw fs d cs = raw fs d (take k cs) @ raw fs d (drop k cs)" by (metis append_take_drop_id raw_simps(3))
  moreover have "length (raw fs d (take k cs)) = 512 * k" using d k by (simp add: length_raw)
  ultimately show ?thesis by simp
qed

lemma raw_block:
  assumes "disk_wf d" and "o' div 512 < length cs" and "o' mod 512 + c \<le> 512"
  shows "take c (drop (o' mod 512) (sectors d (cluster_to_sector fs (cs ! (o' div 512))))) = take c (drop o' (raw fs d cs))"
proof -
  let ?k = "o' div 512" and ?r = "o' mod 512"
  let ?s = "sectors d (cluster_to_sector fs (cs ! ?k))"
  have "drop (512 * ?k) (raw fs d cs) = ?s @ raw fs d (drop (Suc ?k) cs)"
    using assms(1,2) by (simp add: drop_raw Cons_nth_drop_Suc [symmetric])
  moreover have "drop o' (raw fs d cs) = drop ?r (drop (512 * ?k) (raw fs d cs))"
    by (simp only: drop_drop mod_div_mult_eq add.commute) (simp add: add.commute)
  moreover have "length ?s = 512" using assms(1) by (rule sector_length)
  ultimately show ?thesis using assms(3) by simp
qed

lemma raw_cong: "(\<And>c. c \<in> set cs \<Longrightarrow> sectors d' (cluster_to_sector fs' c) = sectors d (cluster_to_sector fs c)) \<Longrightarrow> raw fs' d' cs = raw fs d cs"
  by (induction cs) simp_all

lemma cluster_to_sector_inj [simp]: "cluster_to_sector fs a = cluster_to_sector fs b \<longleftrightarrow> a = b"
  by (simp add: cluster_to_sector_def)

text \<open>Writing one sector of a chain.\<close>

lemma raw_write:
  assumes d: "disk_wf d" and k: "k < length cs" and "distinct cs" and r: "r + length xs \<le> 512"
  shows "raw fs (d\<lparr>sectors := (sectors d)(cluster_to_sector fs (cs ! k) :=
      put_bytes (sectors d (cluster_to_sector fs (cs ! k))) r xs), write_cnt := w\<rparr>) cs =
    put_bytes (raw fs d cs) (512 * k + r) xs" (is "raw fs ?d cs = _")
proof -
  let ?c = "cs ! k"
  have sp: "cs = take k cs @ ?c # drop (Suc k) cs" using k by (rule id_take_nth_drop)
  have nin: "?c \<notin> set (take k cs)" "?c \<notin> set (drop (Suc k) cs)"
    using \<open>distinct cs\<close> sp by (metis distinct.simps(2) distinct_append disjoint_iff list.set_intros(1))+
  have "raw fs ?d (take k cs) = raw fs d (take k cs)" "raw fs ?d (drop (Suc k) cs) = raw fs d (drop (Suc k) cs)"
    using nin by (auto intro!: raw_cong)
  then have "raw fs ?d cs = raw fs d (take k cs) @ put_bytes (sectors d (cluster_to_sector fs ?c)) r xs @ raw fs d (drop (Suc k) cs)"
    by (subst sp) simp
  also have "\<dots> = put_bytes (raw fs d (take k cs) @ sectors d (cluster_to_sector fs ?c) @ raw fs d (drop (Suc k) cs)) (512 * k + r) xs"
    using d k r by (intro put_bytes_block) (simp_all add: length_raw sector_length)
  also have "raw fs d (take k cs) @ sectors d (cluster_to_sector fs ?c) @ raw fs d (drop (Suc k) cs) = raw fs d cs"
    by (subst (4) sp) simp
  finally show ?thesis .
qed

section \<open>Files\<close>

text \<open>\<open>file_at fs d di cs\<close>: the inode's data are on the chain \<open>cs\<close>, which has room for its length.\<close>

definition file_at :: "fat_fs \<Rightarrow> disk \<Rightarrow> inode_disk \<Rightarrow> cluster_t list \<Rightarrow> bool" where
  "file_at fs d di cs \<longleftrightarrow> disk_wf d \<and> length (fat fs) \<le> unat EOChain \<and>
     (cs = [] \<and> d_start di = 0 \<or> chain (fat fs) cs \<and> d_start di = hd cs) \<and>
     0 \<le> d_length di \<and> nat (d_length di) \<le> 512 * length cs \<and>
     (\<forall>c \<in> set cs. cluster_to_sector fs c < capacity d)"

definition content :: "fat_fs \<Rightarrow> disk \<Rightarrow> inode_disk \<Rightarrow> cluster_t list \<Rightarrow> u8 list" where
  "content fs d di cs = take (nat (d_length di)) (raw fs d cs)"

lemma walk_chain_nth:
  "linked (fat fs) cs \<Longrightarrow> length (fat fs) \<le> unat EOChain \<Longrightarrow> k \<le> length cs \<Longrightarrow>
     walk_chain fs (hd cs) (int k) = ret (if k < length cs then cluster_to_sector fs (cs ! k) else - 1)"
proof (induction "fat fs" cs arbitrary: k rule: linked.induct)
  case (2 c)
  then have "k = 0 \<or> k = 1" by auto
  then show ?case using 2 by (subst walk_chain.simps) (auto simp: fat_get_def)
next
  case (3 c e cs)
  show ?case
  proof (cases k)
    case 0
    then show ?thesis by (subst walk_chain.simps) simp
  next
    case (Suc j)
    have "e \<noteq> EOChain" using 3 linked_in_table [of "fat fs" "e # cs" e] by auto
    then show ?thesis using 3 Suc by (subst walk_chain.simps) (simp add: fat_get_def)
  qed
qed simp

lemma EOChain_not_member: "linked ft cs \<Longrightarrow> length ft \<le> unat EOChain \<Longrightarrow> hd cs \<noteq> EOChain \<and> hd cs \<noteq> 0"
  using linked_in_table [of ft cs "hd cs"] by (cases cs) auto

lemma byte_to_sector_ok:
  assumes f: "file_at fs d (i_data i) cs" and "int pos \<le> inode_length i" and "pos div 512 < length cs"
  shows "byte_to_sector fs i (int pos) = ret (cluster_to_sector fs (cs ! (pos div 512)))"
proof -
  have ch: "linked (fat fs) cs" "length (fat fs) \<le> unat EOChain" "d_start (i_data i) = hd cs"
    using f assms(3) by (auto simp: file_at_def chain_def)
  have "cdiv (int pos) 512 = int (pos div 512)" by (simp add: cdiv_nonneg zdiv_int)
  then show ?thesis
    using walk_chain_nth [OF ch(1,2), of "pos div 512"] EOChain_not_member [OF ch(1,2)] ch(3) assms(2,3)
    by (simp add: byte_to_sector_def inode_length_def)
qed

lemma byte_to_sector_returns:
  assumes f: "file_at fs d (i_data i) cs"
  shows "returns (byte_to_sector fs i (int pos))"
proof (cases "int pos > d_length (i_data i) \<or> cs = []")
  case True
  then show ?thesis using f by (auto simp: byte_to_sector_def file_at_def chain_def)
next
  case False
  have ch: "linked (fat fs) cs" "length (fat fs) \<le> unat EOChain" "d_start (i_data i) = hd cs"
    using f False by (auto simp: file_at_def chain_def)
  have "cdiv (int pos) 512 = int (pos div 512)" by (simp add: cdiv_nonneg zdiv_int)
  moreover have "pos div 512 \<le> length cs" using f False by (auto simp: file_at_def)
  ultimately show ?thesis
    using walk_chain_nth [OF ch(1,2), of "pos div 512"] ch(3) by (auto simp: byte_to_sector_def Let_def)
qed

section \<open>Reading\<close>

text \<open>The next transfer at offset \<open>o'\<close> of a file of length \<open>l\<close> with \<open>z\<close> bytes wanted.\<close>

definition chunk_nat :: "nat \<Rightarrow> nat \<Rightarrow> nat \<Rightarrow> nat" where
  "chunk_nat l z o' = min z (min (l - o') (512 - o' mod 512))"

lemma chunk_size_nat:
  assumes "inode_length i = int l"
  shows "chunk_size i (int z) (int o') = (if o' \<le> l then int (chunk_nat l z o') else - int (o' - l)) \<or> z = 0"
    and "0 < z \<Longrightarrow> chunk_size i (int z) (int o') \<le> 0 \<longleftrightarrow> l \<le> o'"
proof -
  have "cmod (int o') 512 = int (o' mod 512)" by (simp add: cmod_nonneg zmod_int)
  moreover have "o' mod 512 < 512" by simp
  ultimately show "chunk_size i (int z) (int o') = (if o' \<le> l then int (chunk_nat l z o') else - int (o' - l)) \<or> z = 0"
    "0 < z \<Longrightarrow> chunk_size i (int z) (int o') \<le> 0 \<longleftrightarrow> l \<le> o'"
    using assms unfolding chunk_size_def Let_def chunk_nat_def by (auto simp: min_def)
qed

lemma read_loop_unfold:
  assumes "sz > 0" and "byte_to_sector fs i off = ret sec" and "cmod off 512 = ofs" and "chunk_size i sz off = ch" and "ch > 0"
    and "disk_read d sec = ret (b, d')" and "ofs = 0 \<Longrightarrow> ch = 512 \<Longrightarrow> b = x" and "take (nat ch) (drop (nat ofs) b) = x"
  shows "read_loop True fs i d sz off acc = read_loop True fs i d' (sz - ch) (off + ch) (acc @ x)"
  using assms by (subst read_loop.simps) (auto simp: Let_def)

lemma read_loop_step:
  assumes f: "file_at fs d (i_data i) cs" and l: "inode_length i = int l" and z: "0 < z" and o': "o' < l"
  defines "c \<equiv> chunk_nat l z o'"
  shows "read_loop True fs i d (int z) (int o') acc =
    read_loop True fs i (d\<lparr>read_cnt := read_cnt d + 1\<rparr>) (int (z - c)) (int (o' + c)) (acc @ take c (drop o' (raw fs d cs)))"
proof -
  let ?k = "o' div 512"
  let ?sec = "cluster_to_sector fs (cs ! ?k)"
  have wf: "disk_wf d" using f by (simp add: file_at_def)
  have le: "l \<le> 512 * length cs" using f l by (simp add: file_at_def inode_length_def)
  then have k: "?k < length cs" using o' by linarith
  have ofs: "cmod (int o') 512 = int (o' mod 512)" by (simp add: cmod_nonneg zmod_int)
  have c: "chunk_size i (int z) (int o') = int c" using chunk_size_nat(1) [OF l, of z o'] o' z by (simp add: c_def)
  have c0: "0 < c" "c \<le> z" "o' mod 512 + c \<le> 512" using z o' by (auto simp: c_def chunk_nat_def)
  have bts: "byte_to_sector fs i (int o') = ret ?sec" using byte_to_sector_ok [OF f _ k] o' l by simp
  have rd: "disk_read d ?sec = ret (sectors d ?sec, d\<lparr>read_cnt := read_cnt d + 1\<rparr>)"
    using f k by (intro disk_read_ok [OF wf]) (simp add: file_at_def)
  have blk: "take c (drop (o' mod 512) (sectors d ?sec)) = take c (drop o' (raw fs d cs))"
    by (rule raw_block [OF wf k c0(3)])
  have whole: "o' mod 512 = 0 \<Longrightarrow> c = 512 \<Longrightarrow> sectors d ?sec = take c (drop o' (raw fs d cs))"
    using blk sector_length [OF wf, of ?sec] by simp
  have "read_loop True fs i d (int z) (int o') acc = read_loop True fs i (d\<lparr>read_cnt := read_cnt d + 1\<rparr>)
      (int z - int c) (int o' + int c) (acc @ take c (drop o' (raw fs d cs)))"
    using z c0(1) blk whole by (intro read_loop_unfold [OF _ bts ofs c _ rd]) simp_all
  moreover have "int z - int c = int (z - c)" "int o' + int c = int (o' + c)" using c0 by auto
  ultimately show ?thesis by (simp only:)
qed

lemma read_loop_ok:
  assumes "file_at fs d (i_data i) cs" and l: "inode_length i = int l"
  shows "\<exists>d'. read_loop True fs i d (int z) (int o') acc =
      ret (acc @ take z (drop o' (content fs d (i_data i) cs)), d') \<and> sectors d' = sectors d \<and> capacity d' = capacity d"
  using assms(1)
proof (induction z arbitrary: d o' acc rule: less_induct)
  case (less z)
  note f = less.prems
  have cl: "content fs d (i_data i) cs = take l (raw fs d cs)" using l by (simp add: content_def inode_length_def)
  show ?case
  proof (cases "z = 0 \<or> l \<le> o'")
    case True
    then have "read_loop True fs i d (int z) (int o') acc = ret (acc, d)"
      using byte_to_sector_returns [OF f, of o'] chunk_size_nat(2) [OF l, of z o'] by (subst read_loop.simps) auto
    then show ?thesis using True cl by auto
  next
    case False
    define c where "c = chunk_nat l z o'"
    have c: "0 < c" "c \<le> z" "o' + c \<le> l" using False by (auto simp: c_def chunk_nat_def)
    let ?d = "d\<lparr>read_cnt := read_cnt d + 1\<rparr>"
    have "file_at fs ?d (i_data i) cs" using f by (simp add: file_at_def)
    from less.IH [OF _ this, of "z - c" "o' + c" "acc @ take c (drop o' (raw fs d cs))"] c obtain d' where
      d': "read_loop True fs i ?d (int (z - c)) (int (o' + c)) (acc @ take c (drop o' (raw fs d cs))) =
        ret ((acc @ take c (drop o' (raw fs d cs))) @ take (z - c) (drop (o' + c) (content fs ?d (i_data i) cs)), d')"
        "sectors d' = sectors d" "capacity d' = capacity d" by auto
    have "take c (drop o' (take l (raw fs d cs))) = take c (drop o' (raw fs d cs))"
      using c by (simp add: drop_take min_def)
    moreover have "content fs ?d (i_data i) cs = content fs d (i_data i) cs" by (simp add: content_def raw_def)
    moreover have "take z (drop o' (take l (raw fs d cs))) =
        take c (drop o' (take l (raw fs d cs))) @ take (z - c) (drop (o' + c) (take l (raw fs d cs)))"
      using c(2) by (metis add.commute drop_drop le_add_diff_inverse take_add)
    ultimately show ?thesis
      using d' read_loop_step [OF f l, of z o' acc] False c_def cl by (auto simp: not_le)
  qed
qed

section \<open>Writing in place\<close>

lemma write_loop_unfold:
  assumes "sz > 0" and "byte_to_sector fs i off = ret sec" and "cmod off 512 = ofs" and "chunk_size i sz off = ch" and "ch > 0"
    and "ch \<le> int (length buf)" and "ofs = 0 \<Longrightarrow> ch = 512 \<Longrightarrow> disk_write d sec (take 512 buf) = ret d'"
    and "\<not> (ofs = 0 \<and> ch = 512) \<Longrightarrow> ofs > 0 \<or> ch < 512 - ofs"
    and "\<not> (ofs = 0 \<and> ch = 512) \<Longrightarrow> \<exists>b d1. disk_read d sec = ret (b, d1) \<and>
      disk_write d1 sec (put_bytes b (nat ofs) (take (nat ch) buf)) = ret d'"
  shows "write_loop True fs i d buf sz off n =
    write_loop True fs i d' (drop (nat ch) buf) (sz - ch) (off + ch) (n + ch)"
proof (cases "ofs = 0 \<and> ch = 512")
  case True
  then show ?thesis using assms(1-7) by (subst write_loop.simps) (simp add: Let_def)
next
  case False
  from assms(9) [OF False] obtain b d1 where
    "disk_read d sec = ret (b, d1)" "disk_write d1 sec (put_bytes b (nat ofs) (take (nat ch) buf)) = ret d'" by blast
  then show ?thesis using False assms(1-6) assms(8) [OF False] by (subst write_loop.simps) (auto simp: Let_def)
qed

lemma file_at_write:
  assumes "file_at fs d di cs" and "length b = 512"
  shows "file_at fs (d\<lparr>sectors := (sectors d)(x := b), write_cnt := w\<rparr>) di cs"
  using assms disk_wf_write [OF _ assms(2), of d] by (simp add: file_at_def)

lemma write_loop_step:
  assumes f: "file_at fs d (i_data i) cs" and l: "inode_length i = int l" and z: "0 < z" and o': "o' + z \<le> l"
    and buf: "z \<le> length buf"
  defines "c \<equiv> chunk_nat l z o'"
  shows "\<exists>d'. write_loop True fs i d buf (int z) (int o') (int n) =
      write_loop True fs i d' (drop c buf) (int (z - c)) (int (o' + c)) (int (n + c)) \<and>
    file_at fs d' (i_data i) cs \<and> raw fs d' cs = put_bytes (raw fs d cs) o' (take c buf) \<and> capacity d' = capacity d \<and>
    (\<forall>x. x \<notin> cluster_to_sector fs ` set cs \<longrightarrow> sectors d' x = sectors d x)"
proof -
  let ?k = "o' div 512" and ?r = "o' mod 512"
  let ?sec = "cluster_to_sector fs (cs ! ?k)"
  have wf: "disk_wf d" and ch: "distinct cs" using f by (auto simp: file_at_def chain_def)
  have "l \<le> 512 * length cs" using f l by (simp add: file_at_def inode_length_def)
  then have k: "?k < length cs" using o' z by linarith
  have ofs: "cmod (int o') 512 = int ?r" by (simp add: cmod_nonneg zmod_int)
  have c: "chunk_size i (int z) (int o') = int c" using chunk_size_nat(1) [OF l, of z o'] o' z by (simp add: c_def)
  have c0: "0 < c" "c \<le> z" "?r + c \<le> 512" using z o' by (auto simp: c_def chunk_nat_def)
  have bts: "byte_to_sector fs i (int o') = ret ?sec" using byte_to_sector_ok [OF f _ k] o' l by simp
  have cap: "?sec < capacity d" using f k by (simp add: file_at_def)
  let ?b = "put_bytes (sectors d ?sec) ?r (take c buf)"
  have lb: "length ?b = 512" using sector_length [OF wf, of ?sec] c0 buf by simp
  define whole where "whole \<longleftrightarrow> ?r = 0 \<and> c = 512"
  define d0 where "d0 = (if whole then d else d\<lparr>read_cnt := read_cnt d + 1\<rparr>)"
  define d' where "d' = d0\<lparr>sectors := (sectors d0)(?sec := ?b), write_cnt := write_cnt d0 + 1\<rparr>"
  have d0: "disk_wf d0" "?sec < capacity d0" "sectors d0 = sectors d" "file_at fs d0 (i_data i) cs"
    using wf cap f by (auto simp: d0_def file_at_def)
  have wr: "disk_write d0 ?sec ?b = ret d'" unfolding d'_def by (rule disk_write_ok [OF d0(1,2) lb])
  have rd: "disk_read d ?sec = ret (sectors d ?sec, d\<lparr>read_cnt := read_cnt d + 1\<rparr>)" by (rule disk_read_ok [OF wf cap])
  have "write_loop True fs i d buf (int z) (int o') (int n) =
      write_loop True fs i d' (drop (nat (int c)) buf) (int z - int c) (int o' + int c) (int n + int c)"
  proof (rule write_loop_unfold [OF _ bts ofs c])
    show "disk_write d ?sec (take 512 buf) = ret d'" if "int ?r = 0" "int c = 512"
    proof -
      have w: whole using that by (simp add: whole_def)
      then have "?b = take 512 buf"
        using sector_length [OF wf, of ?sec] buf c0(2) by (simp add: whole_def put_bytes_whole)
      then show ?thesis using wr w by (simp add: d0_def)
    qed
    show "\<exists>b d1. disk_read d ?sec = ret (b, d1) \<and> disk_write d1 ?sec (put_bytes b (nat (int ?r)) (take (nat (int c)) buf)) = ret d'"
      if "\<not> (int ?r = 0 \<and> int c = 512)"
    proof -
      have "\<not> whole" using that by (simp add: whole_def)
      then show ?thesis using rd wr by (simp add: d0_def)
    qed
  qed (use z c0 buf in auto)
  moreover have "int z - int c = int (z - c)" "int o' + int c = int (o' + c)" "int n + int c = int (n + c)" "nat (int c) = c" using c0 by auto
  ultimately have "write_loop True fs i d buf (int z) (int o') (int n) =
      write_loop True fs i d' (drop c buf) (int (z - c)) (int (o' + c)) (int (n + c))" by (simp only:)
  moreover have "raw fs d' cs = put_bytes (raw fs d cs) o' (take c buf)"
  proof -
    have "raw fs d' cs = put_bytes (raw fs d0 cs) (512 * ?k + ?r) (take c buf)"
      using raw_write [OF d0(1) k ch, of ?r "take c buf"] c0 by (simp add: d'_def d0(3))
    moreover have "raw fs d0 cs = raw fs d cs" by (simp add: raw_def d0(3))
    ultimately show ?thesis by simp
  qed
  moreover have "file_at fs d' (i_data i) cs" unfolding d'_def by (rule file_at_write [OF d0(4) lb])
  moreover have "capacity d' = capacity d" by (simp add: d'_def d0_def)
  moreover have "sectors d' x = sectors d x" if "x \<notin> cluster_to_sector fs ` set cs" for x
    using that k by (auto simp: d'_def d0(3))
  ultimately show ?thesis by blast
qed

lemma write_loop_ok:
  assumes "file_at fs d (i_data i) cs" and l: "inode_length i = int l" and "o' + z \<le> l" and "z \<le> length buf"
  shows "\<exists>d'. write_loop True fs i d buf (int z) (int o') (int n) = ret (int (n + z), d') \<and>
    file_at fs d' (i_data i) cs \<and> raw fs d' cs = put_bytes (raw fs d cs) o' (take z buf) \<and> capacity d' = capacity d \<and>
    (\<forall>x. x \<notin> cluster_to_sector fs ` set cs \<longrightarrow> sectors d' x = sectors d x)"
  using assms(1,3,4)
proof (induction z arbitrary: d o' buf n rule: less_induct)
  case (less z)
  show ?case
  proof (cases "z = 0")
    case True
    then show ?thesis using less.prems by (subst write_loop.simps) auto
  next
    case False
    define c where "c = chunk_nat l z o'"
    have c: "0 < c" "c \<le> z" using False less.prems(2) by (auto simp: c_def chunk_nat_def)
    from write_loop_step [OF less.prems(1) l _ less.prems(2,3), of n] False obtain d1 where
      d1: "write_loop True fs i d buf (int z) (int o') (int n) =
        write_loop True fs i d1 (drop c buf) (int (z - c)) (int (o' + c)) (int (n + c))"
        "file_at fs d1 (i_data i) cs" "raw fs d1 cs = put_bytes (raw fs d cs) o' (take c buf)" "capacity d1 = capacity d"
        "\<forall>x. x \<notin> cluster_to_sector fs ` set cs \<longrightarrow> sectors d1 x = sectors d x"
      unfolding c_def by auto
    have pre: "z - c < z" "o' + c + (z - c) \<le> l" "z - c \<le> length (drop c buf)" using c less.prems by auto
    from less.IH [OF pre(1) d1(2) pre(2,3), of "n + c"] obtain d' where
      d': "write_loop True fs i d1 (drop c buf) (int (z - c)) (int (o' + c)) (int (n + c)) = ret (int (n + c + (z - c)), d')"
        "file_at fs d' (i_data i) cs" "raw fs d' cs = put_bytes (raw fs d1 cs) (o' + c) (take (z - c) (drop c buf))"
        "capacity d' = capacity d1" "\<forall>x. x \<notin> cluster_to_sector fs ` set cs \<longrightarrow> sectors d' x = sectors d1 x" by blast
    have "o' + z \<le> length (raw fs d cs)"
      using less.prems(1,2) l by (simp add: length_raw file_at_def inode_length_def)
    then have "raw fs d' cs = put_bytes (raw fs d cs) o' (take c buf @ take (z - c) (drop c buf))"
      using d'(3) d1(3) c less.prems(3) put_bytes_put_bytes [of o' "take c buf" "take (z - c) (drop c buf)" "raw fs d cs"]
      by simp
    moreover have "take c buf @ take (z - c) (drop c buf) = take z buf" using c(2) by (metis le_add_diff_inverse take_add)
    ultimately show ?thesis using d1 d' c by auto
  qed
qed

section \<open>Growing\<close>

definition clusters_on_disk :: "fat_fs \<Rightarrow> disk \<Rightarrow> bool" where
  "clusters_on_disk fs d \<longleftrightarrow> (\<forall>c. in_table fs c \<longrightarrow> cluster_to_sector fs c < capacity d)"

lemma clusters_on_disk_cong:
  "fat_chains fs C \<Longrightarrow> fat_chains fs' C' \<Longrightarrow> fat_length fs' = fat_length fs \<Longrightarrow> data_start fs' = data_start fs \<Longrightarrow>
     capacity d' = capacity d \<Longrightarrow> clusters_on_disk fs' d' \<longleftrightarrow> clusters_on_disk fs d"
  by (simp add: clusters_on_disk_def in_table_def cluster_to_sector_def fat_chains_def fat_ok_def)

lemma card_free_one:
  assumes "fat_chains fs C" and "fat_chains fs' C'" and "\<Union> (set ` C') = insert n (\<Union> (set ` C))"
    and "n \<notin> \<Union> (set ` C)" and "2 \<le> unat n" and "fat_length fs' = fat_length fs"
  shows "card (free_clusters fs') = card (free_clusters fs) - 1"
proof -
  have len: "length (fat fs') = length (fat fs)" using assms(1,2,6) by (simp add: fat_chains_def fat_ok_def)
  obtain cs where "cs \<in> C'" "n \<in> set cs" using assms(3) by blast
  then have "unat n < length (fat fs)" using fat_chains_member [OF assms(2)] len by metis
  moreover have "unat n \<notin> unat ` \<Union> (set ` C)" using assms(4) by (auto dest: u32_cong)
  ultimately have "unat n \<in> free_clusters fs" using assms(5) by (simp add: free_clusters_chains [OF assms(1)])
  moreover have "free_clusters fs' = free_clusters fs - {unat n}"
    unfolding free_clusters_chains [OF assms(1)] free_clusters_chains [OF assms(2)] len assms(3) by auto
  moreover have "finite (free_clusters fs)" by (simp add: free_clusters_def)
  ultimately show ?thesis by simp
qed

lemma full_few:
  assumes "\<forall>j. 2 \<le> j \<and> j < length (fat fs) \<and> j \<noteq> unat (last_clst fs) \<longrightarrow> fat fs ! j \<noteq> 0"
  shows "card (free_clusters fs) \<le> 1"
proof -
  have "free_clusters fs \<subseteq> {unat (last_clst fs)}" using assms by (auto simp: free_clusters_def)
  then show ?thesis using card_mono [of "{unat (last_clst fs)}"] by simp
qed

lemma fat_extend_one:
  assumes C: "fat_chains fs C" and safe: "fat_safe fs" and cs: "cs = [] \<and> clst = 0 \<or> cs \<in> C \<and> clst \<in> set cs"
    and root: "ROOT_DIR_CLUSTER \<notin> set cs" and free: "1 < card (free_clusters fs)"
  obtains n fs' where "fat_create_chain fs clst = ret (n, fs')" "n \<noteq> 0" "2 \<le> unat n" "n \<notin> \<Union> (set ` C)"
    "fat_chains fs' (insert (cs @ [n]) (C - {cs}))" "fat_safe fs'" "fat_length fs' = fat_length fs"
    "data_start fs' = data_start fs" "card (free_clusters fs') = card (free_clusters fs) - 1"
proof -
  have room: "unat (last_clst fs) + 1 < length (fat fs)" using safe by (simp add: fat_safe_def)
  have nil: "[] \<notin> C" using C by (auto simp: fat_chains_def chain_def)
  have "\<exists>n fs'. fat_create_chain fs clst = ret (n, fs') \<and> n \<noteq> 0 \<and> 2 \<le> unat n \<and> n \<notin> \<Union> (set ` C) \<and>
      fat_chains fs' (insert (cs @ [n]) (C - {cs})) \<and> last_clst fs' = n \<and> fat_length fs' = fat_length fs \<and> data_start fs' = data_start fs"
    using cs
  proof
    assume "cs = [] \<and> clst = 0"
    moreover have "C - {[]} = C" using nil by simp
    ultimately show ?thesis using fat_create_chain_new [OF C room] full_few [of fs] free by auto
  next
    assume "cs \<in> C \<and> clst \<in> set cs"
    then show ?thesis using fat_create_chain_extend [OF C room _ _ root, of clst] full_few [of fs] free by fastforce
  qed
  then obtain n fs' where
    n: "fat_create_chain fs clst = ret (n, fs')" "n \<noteq> 0" "2 \<le> unat n" "n \<notin> \<Union> (set ` C)"
      "fat_chains fs' (insert (cs @ [n]) (C - {cs}))" "last_clst fs' = n" "fat_length fs' = fat_length fs"
      "data_start fs' = data_start fs" by blast
  have u: "\<Union> (set ` insert (cs @ [n]) (C - {cs})) = insert n (\<Union> (set ` C))" using cs by auto
  show thesis
  proof (rule that [OF n(1-5) _ n(7,8)])
    show "fat_safe fs'" using fat_safe_step [OF C safe n(5)] n(4,6,7) u by auto
    show "card (free_clusters fs') = card (free_clusters fs) - 1" by (rule card_free_one [OF C n(5) u n(4,3,7)])
  qed
qed

text \<open>What growing a file by the clusters \<open>ns\<close> leaves: the same bytes, then those of the new clusters.\<close>

definition grown :: "fat_fs \<Rightarrow> disk \<Rightarrow> cluster_t list set \<Rightarrow> cluster_t list \<Rightarrow> cluster_t list \<Rightarrow> fat_fs \<Rightarrow> disk \<Rightarrow> bool" where
  "grown fs d C cs ns fs' d' \<longleftrightarrow> fat_chains fs' (insert (cs @ ns) (C - {cs})) \<and> fat_safe fs' \<and> set ns \<inter> \<Union> (set ` C) = {} \<and>
     (\<forall>n \<in> set ns. 2 \<le> unat n) \<and> fat_length fs' = fat_length fs \<and> data_start fs' = data_start fs \<and> disk_wf d' \<and>
     capacity d' = capacity d \<and> (\<forall>x. x \<notin> cluster_to_sector fs ` set ns \<longrightarrow> sectors d' x = sectors d x)"

lemma grown_raw_old:
  assumes "grown fs d C cs ns fs' d'" and "ds \<in> insert cs C"
    and "cs \<in> C \<or> cs = []"
  shows "raw fs' d' ds = raw fs d ds"
proof (rule raw_cong)
  fix c assume "c \<in> set ds"
  then have "c \<notin> set ns" using assms by (auto simp: grown_def)
  then have "cluster_to_sector fs c \<notin> cluster_to_sector fs ` set ns" by auto
  moreover have "cluster_to_sector fs' c = cluster_to_sector fs c" using assms(1) by (simp add: grown_def cluster_to_sector_def)
  ultimately show "sectors d' (cluster_to_sector fs' c) = sectors d (cluster_to_sector fs c)"
    using assms(1) by (auto simp: grown_def)
qed

lemma blocks_step: "0 < r \<Longrightarrow> (nat r + 511) div 512 = Suc ((nat (r - 512) + 511) div 512)"
proof -
  assume "0 < r"
  moreover have "nat (r - 512) = nat r - 512" by (simp add: nat_diff_distrib')
  ultimately show ?thesis by (cases "512 \<le> nat r") (auto simp: div_nat_eqI elim!: le_Suc_ex [THEN exE] nat_le_iff_add [THEN iffD1, THEN exE])
qed

lemma extend_loop_ok:
  assumes "fat_chains fs C" and "fat_safe fs" and "cs \<in> C" and "d_start di = hd cs"
    and "ROOT_DIR_CLUSTER \<notin> set cs \<or> r \<le> 0" and "disk_wf d" and "clusters_on_disk fs d" and "(nat r + 511) div 512 < card (free_clusters fs)"
    and "0 \<le> d_length di" and "d_length di + int (nat r) < 2 ^ 31"
  shows "\<exists>fs' d' ns. extend_loop fs d di r = ret (fs', d', di\<lparr>d_length := d_length di + int (nat r)\<rparr>) \<and>
    grown fs d C cs ns fs' d' \<and> length ns = (nat r + 511) div 512 \<and> raw fs' d' ns = replicate (512 * length ns) 0"
  using assms
proof (induction "nat r" arbitrary: r fs d di C cs rule: less_induct)
  case less
  note C = less.prems(1) and safe = less.prems(2)
  have hd: "hd cs \<in> set cs" using less.prems(1,3) by (cases cs) (auto simp: fat_chains_def chain_def)
  show ?case
  proof (cases "r > 0")
    case False
    then have "extend_loop fs d di r = ret (fs, d, di)" by (subst extend_loop.simps) simp
    moreover have "insert (cs @ []) (C - {cs}) = C" using less.prems(3) by auto
    then have "grown fs d C cs [] fs d" using less.prems by (simp add: grown_def)
    ultimately show ?thesis using False by (intro exI [of _ fs] exI [of _ d] exI [of _ "[]"]) simp
  next
    case True
    have blocks: "(nat r + 511) div 512 = Suc ((nat (r - 512) + 511) div 512)" using True by (rule blocks_step)
    then have "1 \<le> (nat r + 511) div 512" by linarith
    then have free: "1 < card (free_clusters fs)" using less.prems(8) by linarith
    have root: "ROOT_DIR_CLUSTER \<notin> set cs" using less.prems(5) True by simp
    from fat_extend_one [OF C safe _ root free, of "hd cs"] less.prems(3) hd obtain n fs1 where
      n: "fat_create_chain fs (hd cs) = ret (n, fs1)" "n \<noteq> 0" "2 \<le> unat n" "n \<notin> \<Union> (set ` C)"
        "fat_chains fs1 (insert (cs @ [n]) (C - {cs}))" "fat_safe fs1" "fat_length fs1 = fat_length fs"
        "data_start fs1 = data_start fs" "card (free_clusters fs1) = card (free_clusters fs) - 1" by blast
    let ?sec = "cluster_to_sector fs1 n" and ?C1 = "insert (cs @ [n]) (C - {cs})"
    let ?a = "if r < 512 then r else 512"
    define d1 where "d1 = d\<lparr>sectors := (sectors d)(?sec := replicate 512 0), write_cnt := write_cnt d + 1\<rparr>"
    define di1 where "di1 = di\<lparr>d_length := d_length di + ?a\<rparr>"
    have "in_table fs1 n" using fat_chains_member [OF n(5), of "cs @ [n]" n] by (simp add: in_table_def)
    then have "in_table fs n" using C n(5,7) by (simp add: in_table_def fat_chains_def fat_ok_def)
    then have "?sec < capacity d" using less.prems(7) n(8) by (simp add: clusters_on_disk_def cluster_to_sector_def)
    then have wr: "disk_write d ?sec (replicate 512 0) = ret d1" unfolding d1_def by (intro disk_write_ok [OF less.prems(6)]) simp_all
    have i32: "int32 (d_length di + ?a) = d_length di + ?a"
      using less.prems(9,10) True by (intro int32_id) (auto simp: in_int32_def)
    have step: "extend_loop fs d di r = extend_loop fs1 d1 di1 (r - 512)"
      using True less.prems(4) n(1) wr i32 by (subst extend_loop.simps) (simp add: di1_def Let_def)
    have "\<exists>fs' d' ns. extend_loop fs1 d1 di1 (r - 512) = ret (fs', d', di1\<lparr>d_length := d_length di1 + int (nat (r - 512))\<rparr>) \<and>
      grown fs1 d1 ?C1 (cs @ [n]) ns fs' d' \<and> length ns = (nat (r - 512) + 511) div 512 \<and> raw fs' d' ns = replicate (512 * length ns) 0"
    proof (rule less.hyps [OF _ n(5,6)])
      show "nat (r - 512) < nat r" using True by simp
      show "d_start di1 = hd (cs @ [n])" using less.prems(4) hd by (cases cs) (auto simp: di1_def)
      show "ROOT_DIR_CLUSTER \<notin> set (cs @ [n]) \<or> r - 512 \<le> 0" using root n(3) by (auto simp: ROOT_DIR_CLUSTER_def)
      show "disk_wf d1" unfolding d1_def by (rule disk_wf_write [OF less.prems(6)]) simp
      show "clusters_on_disk fs1 d1" using clusters_on_disk_cong [OF C n(5,7,8), of d1 d] less.prems(7) by (simp add: d1_def)
      show "(nat (r - 512) + 511) div 512 < card (free_clusters fs1)" using less.prems(8) n(9) blocks by linarith
      show "0 \<le> d_length di1" "d_length di1 + int (nat (r - 512)) < 2 ^ 31" using less.prems(9,10) True by (auto simp: di1_def)
    qed simp
    then obtain fs' d' ns where
      ih: "extend_loop fs1 d1 di1 (r - 512) = ret (fs', d', di1\<lparr>d_length := d_length di1 + int (nat (r - 512))\<rparr>)"
        "grown fs1 d1 ?C1 (cs @ [n]) ns fs' d'" "length ns = (nat (r - 512) + 511) div 512" "raw fs' d' ns = replicate (512 * length ns) 0"
      by blast
    have ctr: "cluster_to_sector fs1 = cluster_to_sector fs" "cluster_to_sector fs' = cluster_to_sector fs"
      using n(8) ih(2) by (auto simp: cluster_to_sector_def grown_def fun_eq_iff)
    have nn: "n \<notin> set ns" using ih(2) by (auto simp: grown_def)
    have "insert ((cs @ [n]) @ ns) (?C1 - {cs @ [n]}) = insert (cs @ n # ns) (C - {cs})" using n(4) by auto
    then have g: "grown fs d C cs (n # ns) fs' d'"
      using ih(2) n less.prems(3) unfolding grown_def ctr d1_def by auto
    have "cluster_to_sector fs n \<notin> cluster_to_sector fs ` set ns" using nn by auto
    then have "sectors d' (cluster_to_sector fs n) = replicate 512 0" using ih(2) unfolding grown_def ctr by (simp add: d1_def ctr)
    then have z: "raw fs' d' (n # ns) = replicate (512 * length (n # ns)) 0"
      using ih(4) ctr(2) by (simp add: replicate_add [symmetric] del: replicate_add)
    have "length (n # ns) = (nat r + 511) div 512" using ih(3) blocks by simp
    moreover have "di1\<lparr>d_length := d_length di1 + int (nat (r - 512))\<rparr> = di\<lparr>d_length := d_length di + int (nat r)\<rparr>"
      using True by (simp add: di1_def)
    ultimately show ?thesis using step ih(1) g z by auto
  qed
qed

lemma grown_trans:
  assumes "grown fs d C cs ns fs1 d1" and "grown fs1 d1 (insert (cs @ ns) (C - {cs})) (cs @ ns) ms fs2 d2"
    and "cs \<in> C \<or> cs = []" and "ns \<noteq> []"
  shows "grown fs d C cs (ns @ ms) fs2 d2"
proof -
  have "cs @ ns \<notin> C - {cs}"
  proof
    assume "cs @ ns \<in> C - {cs}"
    moreover obtain n where "n \<in> set ns" using assms(4) by (cases ns) auto
    then have "n \<in> set (cs @ ns)" by simp
    ultimately have "n \<in> \<Union> (set ` C)" by blast
    with \<open>n \<in> set ns\<close> show False using assms(1) unfolding grown_def by blast
  qed
  then have "insert ((cs @ ns) @ ms) (insert (cs @ ns) (C - {cs}) - {cs @ ns}) = insert (cs @ ns @ ms) (C - {cs})" by auto
  moreover have "cluster_to_sector fs1 = cluster_to_sector fs" using assms(1) by (simp add: grown_def cluster_to_sector_def fun_eq_iff)
  moreover have "sectors d2 x = sectors d x" if "x \<notin> cluster_to_sector fs ` set (ns @ ms)" for x
  proof -
    have "x \<notin> cluster_to_sector fs ` set ns" "x \<notin> cluster_to_sector fs1 ` set ms"
      using that \<open>cluster_to_sector fs1 = _\<close> by auto
    then show ?thesis using assms(1,2) unfolding grown_def by simp
  qed
  moreover have "set (ns @ ms) \<inter> \<Union> (set ` C) = {}"
    using assms(1-3) unfolding grown_def by auto
  ultimately show ?thesis using assms(1,2) unfolding grown_def by auto
qed

lemma blocks_extend:
  fixes l e :: nat
  assumes "l mod 512 \<noteq> 0" and "l < e"
  shows "(l + 511) div 512 + (nat (int e - int l - (512 - int (l mod 512))) + 511) div 512 = (e + 511) div 512"
proof -
  obtain k u where ku: "l = 512 * k + u" "u < 512" by (metis mod_less_divisor mult_div_mod_eq zero_less_numeral)
  then have u: "l mod 512 = u" "0 < u" using assms(1) by auto
  define q where "q = k + 1"
  have lq: "(l + 511) div 512 = q" using ku u unfolding q_def by simp
  have "int e - int l - (512 - int (l mod 512)) = int e - int (512 * q)" using ku u unfolding q_def by simp
  then have r: "nat (int e - int l - (512 - int (l mod 512))) = e - 512 * q" by simp
  show ?thesis
  proof (cases "512 * q \<le> e")
    case True
    then obtain x where "e = 512 * q + x" using le_Suc_ex by blast
    then show ?thesis unfolding lq r by (simp add: add.assoc)
  next
    case False
    then have "(e + 511) div 512 = q" using assms(2) ku unfolding q_def by simp
    then show ?thesis unfolding lq r using False by simp
  qed
qed

lemma grown_refl: "fat_chains fs C \<Longrightarrow> fat_safe fs \<Longrightarrow> disk_wf d \<Longrightarrow> cs \<in> C \<Longrightarrow> grown fs d C cs [] fs d"
  by (simp add: grown_def insert_absorb)

lemma inode_extend_ok:
  assumes C: "fat_chains fs C" and safe: "fat_safe fs" and cs: "cs \<in> C \<and> d_start di = hd cs \<or> cs = [] \<and> d_start di = 0"
    and root: "ROOT_DIR_CLUSTER \<notin> set cs \<or> e \<le> 512 * length cs" and wf: "disk_wf d" and on: "clusters_on_disk fs d"
    and l: "d_length di = int l" "length cs = (l + 511) div 512 \<or> l = 0 \<and> length cs = 1" "l = 0 \<or> l mod 512 \<noteq> 0 \<or> e \<le> l"
    and e: "0 < e" "e < 2 ^ 31" and free: "e \<le> l \<or> (e + 511) div 512 - length cs < card (free_clusters fs)"
  shows "\<exists>fs' d' ns. inode_extend fs d di (int e) =
      ret (fs', d', di\<lparr>d_start := hd (cs @ ns), d_length := int (max l e)\<rparr>) \<and> grown fs d C cs ns fs' d' \<and>
    length (cs @ ns) = (max l e + 511) div 512 \<and> drop (512 - 512 * length cs) (raw fs' d' ns) =
      replicate (512 * length ns - (512 - 512 * length cs)) 0"
proof -
  have nz: "cs \<in> C \<Longrightarrow> hd cs \<in> set cs \<and> hd cs \<noteq> 0"
    using fat_chains_member [OF C] C by (cases cs) (auto simp: fat_chains_def chain_def)
  define a where "a = 512 - int (l mod 512)"
  define r where "r = int e - int l - a"
  consider "e \<le> l" "cs \<in> C" "d_start di = hd cs"
    | "l < e" "cs \<in> C" "d_start di = hd cs" "length cs + (nat r + 511) div 512 = (e + 511) div 512"
    | "l < e" "cs = []" "d_start di = 0" "l = 0"
  proof -
    have "cs = [] \<Longrightarrow> l = 0" using l(2) by auto
    moreover have "length cs + (nat r + 511) div 512 = (e + 511) div 512" if "l < e" "cs \<in> C"
    proof (cases "l = 0")
      case True
      then have "length cs = 1" using l(2) nz [OF that(2)] by (cases cs) auto
      then show ?thesis using True blocks_step [of "int e"] e(1) by (simp add: r_def a_def)
    next
      case False
      then show ?thesis using blocks_extend [of l e] l(2,3) that(1) by (simp add: r_def a_def)
    qed
    ultimately show ?thesis using cs e(1) that by (cases "e \<le> l") auto
  qed
  then show ?thesis
  proof cases
    case 1
    then have "inode_extend fs d di (int e) = ret (fs, d, di)" using l by (simp add: inode_extend_def)
    moreover have "length cs = (l + 511) div 512" using l(2) 1(1) e(1) by simp
    ultimately show ?thesis using 1 grown_refl [OF C safe wf 1(2)] l by (intro exI [of _ fs] exI [of _ d] exI [of _ "[]"]) simp
  next
    case 2
    define b where "b = (if int e - int l < a then int e - int l else a)"
    define di1 where "di1 = di\<lparr>d_length := int l + b\<rparr>"
    have a: "0 < a" unfolding a_def by simp
    note bl = 2(4)
    have rt: "ROOT_DIR_CLUSTER \<notin> set cs \<or> r \<le> 0"
    proof (rule ccontr)
      assume "\<not> ?thesis"
      then have "e \<le> 512 * length cs" "0 < r" using root by auto
      moreover from \<open>0 < r\<close> have "1 \<le> (nat r + 511) div 512" by linarith
      ultimately show False using bl by linarith
    qed
    have "int32 (int l + b) = int l + b" using a 2(1) e(2) by (intro int32_id) (auto simp: in_int32_def b_def)
    moreover have "cmod (int l) 512 = int (l mod 512)" by (simp add: cmod_nonneg zmod_int)
    ultimately have st: "inode_extend fs d di (int e) = extend_loop fs d di1 r"
      using 2 l(1) nz by (simp only: inode_extend_def Let_def a_def [symmetric] b_def [symmetric] r_def di1_def) simp
    have dl: "d_length di1 + int (nat r) = int e" using a 2(1) by (auto simp: di1_def r_def b_def)
    have b0: "0 \<le> d_length di1" "d_length di1 + int (nat r) < 2 ^ 31" "d_start di1 = hd cs"
      unfolding dl using a 2 e by (auto simp: di1_def b_def)
    have fr: "(nat r + 511) div 512 < card (free_clusters fs)" using bl free 2(1) by linarith
    from extend_loop_ok [OF C safe 2(2) b0(3) rt wf on fr b0(1,2), unfolded dl] obtain fs' d' ns where
      x: "extend_loop fs d di1 r = ret (fs', d', di1\<lparr>d_length := int e\<rparr>)" "grown fs d C cs ns fs' d'"
        "length ns = (nat r + 511) div 512" "raw fs' d' ns = replicate (512 * length ns) 0" by blast
    have c0: "cs \<noteq> []" using nz 2(2) by auto
    then have "512 - 512 * length cs = 0" by (cases cs) auto
    moreover have "di1\<lparr>d_length := int e\<rparr> = di\<lparr>d_start := hd (cs @ ns), d_length := int (max l e)\<rparr>"
      using 2 c0 by (simp add: di1_def)
    ultimately show ?thesis
      using st x bl 2(1) by (intro exI [of _ fs'] exI [of _ d'] exI [of _ ns]) (simp add: max_def)
  next
    case 3
    have "1 \<le> (e + 511) div 512" using e(1) by linarith
    then have fr: "1 < card (free_clusters fs)" using free 3(1,2) by simp
    have "ROOT_DIR_CLUSTER \<notin> set cs" using 3 by simp
    from fat_extend_one [OF C safe _ this fr, of 0] 3 obtain n fs1 where
      n: "fat_create_chain fs 0 = ret (n, fs1)" "n \<noteq> 0" "2 \<le> unat n" "n \<notin> \<Union> (set ` C)"
        "fat_chains fs1 (insert [n] (C - {[]}))" "fat_safe fs1" "fat_length fs1 = fat_length fs"
        "data_start fs1 = data_start fs" "card (free_clusters fs1) = card (free_clusters fs) - 1" by (metis append_Nil)
    have g1: "grown fs d C [] [n] fs1 d" using n wf by (simp add: grown_def)
    have r3: "r = int e - 512" using 3 by (simp add: r_def a_def)
    define di1 where "di1 = di\<lparr>d_start := n, d_length := (if int e < 512 then int e else 512)\<rparr>"
    have bl: "1 + (nat r + 511) div 512 = (e + 511) div 512" using blocks_step [of "int e"] e(1) by (simp add: r3)
    have "int32 (int e) = int e" "int32 512 = 512" using e by (auto simp: in_int32_def)
    then have st: "inode_extend fs d di (int e) = extend_loop fs1 d di1 r"
      using 3 l(1) n(1) by (simp add: inode_extend_def Let_def cmod_nonneg r3 di1_def)
    have dl: "d_length di1 + int (nat r) = int e" by (auto simp: di1_def r3)
    have rt: "ROOT_DIR_CLUSTER \<notin> set [n] \<or> r \<le> 0" using n(3) by (auto simp: ROOT_DIR_CLUSTER_def)
    have on1: "clusters_on_disk fs1 d" using clusters_on_disk_cong [OF C n(5,7,8)] on by simp
    have fr1: "(nat r + 511) div 512 < card (free_clusters fs1)" using bl free n(9) 3(1,2) by simp
    have b0: "0 \<le> d_length di1" "d_length di1 + int (nat r) < 2 ^ 31" "d_start di1 = hd [n]" "[n] \<in> insert [n] (C - {[]})"
      unfolding dl using e by (auto simp: di1_def)
    from extend_loop_ok [OF n(5,6) b0(4,3) rt wf on1 fr1 b0(1,2), unfolded dl] obtain fs' d' ns where
      x: "extend_loop fs1 d di1 r = ret (fs', d', di1\<lparr>d_length := int e\<rparr>)" "grown fs1 d (insert [n] (C - {[]})) [n] ns fs' d'"
        "length ns = (nat r + 511) div 512" "raw fs' d' ns = replicate (512 * length ns) 0" by blast
    have "grown fs d C [] ([n] @ ns) fs' d'" using grown_trans [OF g1, of ns fs' d'] x(2) by simp
    moreover have "length (sectors d' (cluster_to_sector fs' n)) = 512" using x(2) by (intro sector_length) (simp add: grown_def)
    then have "drop 512 (raw fs' d' (n # ns)) = replicate (512 * length ns) 0" using x(4) by simp
    moreover have "di1\<lparr>d_length := int e\<rparr> = di\<lparr>d_start := hd ([] @ n # ns), d_length := int (max l e)\<rparr>" using 3 by (simp add: di1_def)
    ultimately show ?thesis
      using st x(1,3) bl 3 by (intro exI [of _ fs'] exI [of _ d'] exI [of _ "n # ns"]) simp
  qed
qed

section \<open>Files of the file system\<close>

text \<open>
  The in-memory inode \<open>i\<close> at \<open>p\<close> describes a file on the chain \<open>cs\<close> of the file system whose
  chains are \<open>C\<close>; its own sector belongs to another chain or lies outside the data area.
\<close>

definition file_ok :: "fsys \<Rightarrow> cluster_t list set \<Rightarrow> ptr \<Rightarrow> inode \<Rightarrow> cluster_t list \<Rightarrow> bool" where
  "file_ok s C p i cs \<longleftrightarrow> inodes s p = Some i \<and> fat_chains (fatfs s) C \<and> disk_wf (filesys_disk s) \<and>
     clusters_on_disk (fatfs s) (filesys_disk s) \<and>
     (cs \<in> C \<and> d_start (i_data i) = hd cs \<or> cs = [] \<and> d_start (i_data i) = 0) \<and> 0 \<le> inode_length i \<and> inode_length i < 2 ^ 31 \<and>
     (length cs = (nat (inode_length i) + 511) div 512 \<or> inode_length i = 0 \<and> length cs = 1) \<and>
     i_sector i < capacity (filesys_disk s) \<and> length (unused (i_data i)) = 499 \<and>
     (let c = sector_to_cluster (fatfs s) (i_sector i) in c \<notin> set cs \<and> (in_table (fatfs s) c \<longrightarrow> c \<in> \<Union> (set ` C)))"

lemma length_inode_disk_bytes: "length (unused di) = 499 \<Longrightarrow> length (inode_disk_bytes di) = 512"
  by (simp add: inode_disk_bytes_def)

lemma file_ok_file_at:
  assumes "file_ok s C p i cs"
  shows "file_at (fatfs s) (filesys_disk s) (i_data i) cs"
proof -
  have "chain (fat (fatfs s)) cs" if "cs \<in> C" using that assms by (auto simp: file_ok_def fat_chains_def)
  moreover have "in_table (fatfs s) c" if "cs \<in> C" "c \<in> set cs" for c
    using that assms fat_chains_member [of "fatfs s" C cs c] by (auto simp: file_ok_def in_table_def)
  moreover have "length (fat (fatfs s)) \<le> unat EOChain" using assms by (simp add: file_ok_def fat_chains_def fat_ok_def)
  moreover have "length cs = (nat (d_length (i_data i)) + 511) div 512 \<or> d_length (i_data i) = 0"
    using assms by (auto simp: file_ok_def inode_length_def)
  then have "nat (d_length (i_data i)) \<le> 512 * length cs" by auto
  ultimately show ?thesis
    using assms by (auto simp: file_ok_def file_at_def inode_length_def clusters_on_disk_def)
qed

text \<open>
  C19. Reading: for a well-formed file, \<open>inode_read_at\<close> terminates without a fault and returns
  exactly the bytes of the file from \<open>offset\<close> on, at most \<open>size\<close> of them and none beyond the end
  of the file, wherever the clusters lie on the disk; nothing is written.
\<close>

theorem inode_read_at_correct:
  assumes "file_ok s C p i cs" and "0 \<le> sz" and "0 \<le> offset"
  shows "\<exists>s'. inode_read_at True s p sz offset =
      ret (take (nat sz) (drop (nat offset) (content (fatfs s) (filesys_disk s) (i_data i) cs)), s') \<and>
    sectors (filesys_disk s') = sectors (filesys_disk s) \<and> fatfs s' = fatfs s \<and> inodes s' = inodes s"
proof -
  have l: "inode_length i = int (nat (inode_length i))" using assms(1) by (simp add: file_ok_def)
  have "the_inode s p = ret i" using assms(1) by (simp add: file_ok_def the_inode_def)
  moreover from read_loop_ok [OF file_ok_file_at [OF assms(1)] l, of "nat sz" "nat offset" "[]"] assms(2,3) obtain d' where
    "read_loop True (fatfs s) i (filesys_disk s) sz offset [] =
      ret (take (nat sz) (drop (nat offset) (content (fatfs s) (filesys_disk s) (i_data i) cs)), d')"
    "sectors d' = sectors (filesys_disk s)" by auto
  ultimately show ?thesis by (simp add: inode_read_at_def)
qed

lemma read_back_put_bytes:
  assumes "o' + length buf \<le> m" and "m \<le> length b"
  shows "take (length buf) (drop o' (take m (put_bytes b o' buf))) = buf"
proof -
  have "drop o' (put_bytes b o' buf) = buf @ drop (o' + length buf) b" using assms by (simp add: put_bytes_def)
  then have "drop o' (take m (put_bytes b o' buf)) = take (m - o') (buf @ drop (o' + length buf) b)" by (simp add: drop_take)
  moreover have "length buf \<le> m - o'" using assms by simp
  ultimately show ?thesis by (simp add: min_def)
qed

text \<open>The effect of a write on a well-formed file, growing it if need be.\<close>

lemma inode_write_at_ok:
  assumes f: "file_ok s C p i cs" and deny: "deny_write_cnt i = 0" and safe: "fat_safe (fatfs s)"
    and z: "buf \<noteq> []" and e: "o' + length buf < 2 ^ 31"
    and l: "inode_length i = 0 \<or> nat (inode_length i) mod 512 \<noteq> 0 \<or> o' + length buf \<le> nat (inode_length i)"
    and root: "ROOT_DIR_CLUSTER \<notin> set cs \<or> o' + length buf \<le> 512 * length cs"
    and free: "o' + length buf \<le> nat (inode_length i) \<or> (o' + length buf + 511) div 512 - length cs < card (free_clusters (fatfs s))"
  shows "\<exists>s' i' ns pad. inode_write_at True s p buf (int (length buf)) (int o') = ret (int (length buf), s') \<and>
    file_ok s' (insert (cs @ ns) (C - {cs})) p i' (cs @ ns) \<and>
    inode_length i' = max (inode_length i) (int (o' + length buf)) \<and> i_sector i' = i_sector i \<and>
    data_start (fatfs s') = data_start (fatfs s) \<and>
    length pad = 512 * length ns \<and> drop (512 - 512 * length cs) pad = replicate (512 * length ns - (512 - 512 * length cs)) 0 \<and>
    raw (fatfs s') (filesys_disk s') (cs @ ns) = put_bytes (raw (fatfs s) (filesys_disk s) cs @ pad) o' buf \<and>
    sectors (filesys_disk s') (i_sector i) = inode_disk_bytes (i_data i') \<and>
    (\<forall>ds \<in> C - {cs}. sector_to_cluster (fatfs s) (i_sector i) \<notin> set ds \<longrightarrow>
       raw (fatfs s') (filesys_disk s') ds = raw (fatfs s) (filesys_disk s) ds)"
proof -
  let ?fs = "fatfs s" and ?d = "filesys_disk s" and ?e = "o' + length buf"
  define m where "m = nat (inode_length i)"
  have m: "inode_length i = int m" "d_length (i_data i) = int m" "m < 2 ^ 31"
    using f by (auto simp: m_def file_ok_def inode_length_def)
  have C: "fat_chains ?fs C" and wf: "disk_wf ?d" and on: "clusters_on_disk ?fs ?d" and cs: "cs \<in> C \<or> cs = []"
    using f by (auto simp: file_ok_def)
  have pre: "cs \<in> C \<and> d_start (i_data i) = hd cs \<or> cs = [] \<and> d_start (i_data i) = 0" "length cs = (m + 511) div 512 \<or> m = 0 \<and> length cs = 1" "m = 0 \<or> m mod 512 \<noteq> 0 \<or> ?e \<le> m" "0 < ?e"
    "?e \<le> m \<or> (?e + 511) div 512 - length cs < card (free_clusters ?fs)"
    using f l z free by (auto simp: file_ok_def m_def)
  from inode_extend_ok [OF C safe pre(1) root wf on m(2) pre(2,3,4) e pre(5)] obtain fs1 d1 ns where
    x: "inode_extend ?fs ?d (i_data i) (int ?e) =
        ret (fs1, d1, (i_data i)\<lparr>d_start := hd (cs @ ns), d_length := int (max m ?e)\<rparr>)" "grown ?fs ?d C cs ns fs1 d1"
      "length (cs @ ns) = (max m ?e + 511) div 512"
      "drop (512 - 512 * length cs) (raw fs1 d1 ns) = replicate (512 * length ns - (512 - 512 * length cs)) 0" by blast
  define i' where "i' = i\<lparr>i_data := (i_data i)\<lparr>d_start := hd (cs @ ns), d_length := int (max m ?e)\<rparr>\<rparr>"
  let ?cs = "cs @ ns" and ?C = "insert (cs @ ns) (C - {cs})" and ?c = "sector_to_cluster ?fs (i_sector i)"
  have ctr: "cluster_to_sector fs1 = cluster_to_sector ?fs" "sector_to_cluster fs1 = sector_to_cluster ?fs"
    using x(2) by (auto simp: cluster_to_sector_def sector_to_cluster_def grown_def fun_eq_iff)
  have start: "data_start fs1 = data_start ?fs" using x(2) by (simp add: grown_def)
  have C1: "fat_chains fs1 ?C" "disk_wf d1" "capacity d1 = capacity ?d" using x(2) by (auto simp: grown_def)
  have on1: "clusters_on_disk fs1 d1" using clusters_on_disk_cong [OF C C1(1)] x(2) on by (simp add: grown_def)
  have tab: "in_table fs1 c = in_table ?fs c" for c
    using C C1(1) x(2) by (simp add: in_table_def fat_chains_def fat_ok_def grown_def)
  have cns: "?c \<notin> set ?cs"
  proof -
    have "?c \<notin> set ns"
    proof
      assume a: "?c \<in> set ns"
      then have "in_table fs1 ?c" using fat_chains_member [OF C1(1), of ?cs ?c] by (simp add: in_table_def)
      then have "?c \<in> \<Union> (set ` C)" using f tab by (simp add: file_ok_def Let_def)
      with a show False using x(2) by (auto simp: grown_def)
    qed
    then show ?thesis using f by (simp add: file_ok_def Let_def)
  qed
  have ok1: "file_ok (s\<lparr>fatfs := fs1, filesys_disk := d2, inodes := (inodes s)(p \<mapsto> i')\<rparr>) ?C p i' ?cs"
    if "disk_wf d2" "capacity d2 = capacity d1" for d2
  proof -
    have "\<Union> (set ` C) \<subseteq> \<Union> (set ` ?C)" by auto
    moreover have "clusters_on_disk fs1 d2" using on1 that by (simp add: clusters_on_disk_def)
    ultimately show ?thesis
      using C1 that cns x(3) m(3) e f unfolding file_ok_def
      by (auto simp: i'_def inode_length_def ctr tab Let_def)
  qed
  have l': "inode_length i' = int (max m ?e)" by (simp add: i'_def inode_length_def)
  have fa: "file_at fs1 d1 (i_data i') ?cs" using file_ok_file_at [OF ok1 [OF C1(2) refl]] by simp
  from write_loop_ok [OF fa l', of o' "length buf" buf 0] obtain d2 where
    w: "write_loop True fs1 i' d1 buf (int (length buf)) (int o') 0 = ret (int (length buf), d2)"
      "file_at fs1 d2 (i_data i') ?cs" "raw fs1 d2 ?cs = put_bytes (raw fs1 d1 ?cs) o' buf" "capacity d2 = capacity d1"
      "\<forall>x. x \<notin> cluster_to_sector fs1 ` set ?cs \<longrightarrow> sectors d2 x = sectors d1 x" by auto
  have lb: "length (inode_disk_bytes (i_data i')) = 512"
    using f by (intro length_inode_disk_bytes) (simp add: file_ok_def i'_def)
  define d3 where "d3 = d2\<lparr>sectors := (sectors d2)(i_sector i := inode_disk_bytes (i_data i')), write_cnt := write_cnt d2 + 1\<rparr>"
  have wf2: "disk_wf d2" using w(2) by (simp add: file_at_def)
  have fl: "inode_flush d2 i' = ret d3"
    using disk_write_ok [OF wf2 _ lb, of "i_sector i"] w(4) C1(3) f by (simp add: inode_flush_def i'_def d3_def file_ok_def)
  have wf3: "disk_wf d3" unfolding d3_def by (rule disk_wf_write [OF wf2 lb])
  define s' where "s' = s\<lparr>fatfs := fs1, filesys_disk := d3, inodes := (inodes s)(p \<mapsto> i')\<rparr>"
  have "the_inode s p = ret i" using f by (simp add: file_ok_def the_inode_def)
  moreover have "int32 (int o' + int (length buf)) = int ?e" using e by (subst int32_id) (simp_all add: in_int32_def)
  ultimately have run: "inode_write_at True s p buf (int (length buf)) (int o') = ret (int (length buf), s')"
    using deny x(1) w(1) fl by (simp add: inode_write_at_def i'_def [symmetric] s'_def put_inode_def Let_def)
  have sec: "cluster_to_sector fs1 c = i_sector i \<longleftrightarrow> c = ?c" for c
    by (metis ctr(1) sector_cluster_inverse)
  have raw3: "raw fs1 d3 ds = raw fs1 d2 ds" if "?c \<notin> set ds" for ds
    using that sec by (intro raw_cong) (auto simp: d3_def)
  have rawcs: "raw fs1 d1 cs = raw ?fs ?d cs" using grown_raw_old [OF x(2), of cs] cs by blast
  have "raw fs1 d3 ?cs = put_bytes (raw ?fs ?d cs @ raw fs1 d1 ns) o' buf"
    using raw3 [OF cns] w(3) rawcs by simp
  moreover have "raw fs1 d3 ds = raw ?fs ?d ds" if "ds \<in> C - {cs}" "?c \<notin> set ds" for ds
  proof -
    have "set ds \<inter> set ?cs = {}"
      using that(1) x(2) cs fat_chains_same [OF C, of ds cs] by (auto simp: grown_def)
    then have "cluster_to_sector fs1 c \<notin> cluster_to_sector fs1 ` set ?cs" if "c \<in> set ds" for c using that by auto
    then have "raw fs1 d2 ds = raw fs1 d1 ds" using w(5) by (intro raw_cong) blast
    then show ?thesis using raw3 [OF that(2)] grown_raw_old [OF x(2), of ds] that(1) cs by simp
  qed
  ultimately show ?thesis
    using run ok1 [OF wf3] w(4) l' m(1) start length_raw [OF C1(2), of fs1 ns] x(4)
    by (intro exI [of _ s'] exI [of _ i'] exI [of _ ns] exI [of _ "raw fs1 d1 ns"])
      (auto simp: s'_def d3_def i'_def)
qed

lemma sint_word_of_int32: "in_int32 x \<Longrightarrow> sint (word_of_int x :: u32) = x"
  by (simp add: in_int32_def sint_sbintrunc' signed_take_bit_int_eq_self)

lemma inode_disk_roundtrip:
  "in_int32 (d_length di) \<Longrightarrow> bytes_inode_disk (inode_disk_bytes di) = di"
  by (simp add: bytes_inode_disk_def inode_disk_bytes_def sint_word_of_int32 nth_append)


lemma inode_write_read_ok:
  assumes f: "file_ok s C p i cs" and "deny_write_cnt i = 0" and "fat_safe (fatfs s)"
    and "buf \<noteq> []" and e: "o' + length buf < 2 ^ 31"
    and "inode_length i = 0 \<or> nat (inode_length i) mod 512 \<noteq> 0 \<or> o' + length buf \<le> nat (inode_length i)"
    and "ROOT_DIR_CLUSTER \<notin> set cs \<or> o' + length buf \<le> 512 * length cs"
    and "o' + length buf \<le> nat (inode_length i) \<or> (o' + length buf + 511) div 512 - length cs < card (free_clusters (fatfs s))"
  shows "\<exists>s1 s2 i'. inode_write_at True s p buf (int (length buf)) (int o') = ret (int (length buf), s1) \<and>
    inode_read_at True s1 p (int (length buf)) (int o') = ret (buf, s2) \<and>
    inodes s1 p = Some i' \<and> bytes_inode_disk (sectors (filesys_disk s1) (i_sector i)) = i_data i'"
proof -
  from inode_write_at_ok [OF assms] obtain s1 i' ns pad where
    x: "inode_write_at True s p buf (int (length buf)) (int o') = ret (int (length buf), s1)"
      "file_ok s1 (insert (cs @ ns) (C - {cs})) p i' (cs @ ns)"
      "inode_length i' = max (inode_length i) (int (o' + length buf))" "length pad = 512 * length ns"
      "raw (fatfs s1) (filesys_disk s1) (cs @ ns) = put_bytes (raw (fatfs s) (filesys_disk s) cs @ pad) o' buf"
      "sectors (filesys_disk s1) (i_sector i) = inode_disk_bytes (i_data i')" by blast
  let ?b = "raw (fatfs s) (filesys_disk s) cs @ pad"
  have "length (raw (fatfs s) (filesys_disk s) cs) = 512 * length cs" using f by (intro length_raw) (simp add: file_ok_def)
  then have "nat (inode_length i') \<le> length ?b"
    using file_ok_file_at [OF x(2)] x(4) by (simp add: file_at_def inode_length_def)
  moreover have "o' + length buf \<le> nat (inode_length i')" using x(3) by simp
  ultimately have rb: "take (length buf) (drop o' (content (fatfs s1) (filesys_disk s1) (i_data i') (cs @ ns))) = buf"
    using read_back_put_bytes [of o' buf "nat (inode_length i')" ?b] x(5) by (simp add: content_def inode_length_def)
  have l: "inode_length i' = int (nat (inode_length i'))" using x(2) by (simp add: file_ok_def)
  have "the_inode s1 p = ret i'" using x(2) by (simp add: file_ok_def the_inode_def)
  moreover from read_loop_ok [OF file_ok_file_at [OF x(2)] l, of "length buf" o' "[]"] obtain d' where
    "read_loop True (fatfs s1) i' (filesys_disk s1) (int (length buf)) (int o') [] =
      ret (take (length buf) (drop o' (content (fatfs s1) (filesys_disk s1) (i_data i') (cs @ ns))), d')" by auto
  ultimately have "inode_read_at True s1 p (int (length buf)) (int o') = ret (buf, s1\<lparr>filesys_disk := d'\<rparr>)"
    using rb by (simp add: inode_read_at_def)
  moreover have "in_int32 (d_length (i_data i'))" using x(2) by (simp add: file_ok_def inode_length_def in_int32_def)
  ultimately show ?thesis using x inode_disk_roundtrip [of "i_data i'"] by (auto simp: file_ok_def)
qed

text \<open>
  Round trip: what \<open>inode_write_at\<close> writes to a well-formed file is what \<open>inode_read_at\<close>
  reads back at the same offset, and the inode's sector on disk decodes to the updated inode.
\<close>

theorem inode_write_read_roundtrip:
  assumes f: "file_ok s C p i cs" and "deny_write_cnt i = 0" and "fat_safe (fatfs s)"
    and "buf \<noteq> []" and e: "o' + length buf < 2 ^ 31"
    and "inode_length i = 0 \<or> nat (inode_length i) mod 512 \<noteq> 0 \<or> o' + length buf \<le> nat (inode_length i)"
    and "ROOT_DIR_CLUSTER \<notin> set cs \<or> o' + length buf \<le> 512 * length cs"
    and "o' + length buf \<le> nat (inode_length i) \<or> (o' + length buf + 511) div 512 - length cs < card (free_clusters (fatfs s))"
  shows "\<exists>s1 s2 i'. inode_write_at True s p buf (int (length buf)) (int o') = ret (int (length buf), s1) \<and>
    inode_read_at True s1 p (int (length buf)) (int o') = ret (buf, s2) \<and>
    inodes s1 p = Some i' \<and> bytes_inode_disk (sectors (filesys_disk s1) (i_sector i)) = i_data i'"
  using inode_write_read_ok [OF assms] .

text \<open>
  Appending to a file whose length is a positive multiple of the sector size: the code takes the
  full last sector for an empty one, adds no cluster, and then asks the disk for sector -1.
\<close>

lemma inode_append_faults:
  assumes f: "file_ok s C p i cs" and "deny_write_cnt i = 0" and l: "nat (inode_length i) = 512 * k" "0 < k"
    and z: "buf \<noteq> []" "length buf \<le> 512" and e: "512 * k + length buf < 2 ^ 31"
  shows "inode_write_at True s p buf (int (length buf)) (int (512 * k)) = fail Assert_failed"
proof -
  let ?fs = "fatfs s" and ?d = "filesys_disk s" and ?e = "512 * k + length buf"
  have m: "d_length (i_data i) = int (512 * k)" using f l by (simp add: file_ok_def inode_length_def)
  have lc: "length cs = k" using f l by (auto simp: file_ok_def)
  then have cs: "chain (fat ?fs) cs" "d_start (i_data i) = hd cs" "hd cs \<noteq> 0" "hd cs \<noteq> EOChain" "length (fat ?fs) \<le> unat EOChain"
    using f l(2) EOChain_not_member [of "fat ?fs" cs] by (auto simp: file_ok_def fat_chains_def chain_def fat_ok_def)
  define di where "di = (i_data i)\<lparr>d_length := int ?e\<rparr>"
  have i32: "int32 (int ?e) = int ?e" using e by (intro int32_id) (simp add: in_int32_def)
  have "cmod (int (512 * k)) 512 = 0" by (simp add: cmod_nonneg)
  then have ext: "inode_extend ?fs ?d (i_data i) (int ?e) = ret (?fs, ?d, di)"
    using z i32 m cs by (auto simp: inode_extend_def Let_def di_def extend_loop.simps [of ?fs])
  have "byte_to_sector ?fs (i\<lparr>i_data := di\<rparr>) (int (512 * k)) = ret (- 1)"
    using walk_chain_nth [of ?fs cs k] cs lc by (simp add: byte_to_sector_def di_def cdiv_nonneg chain_def)
  moreover have "chunk_size (i\<lparr>i_data := di\<rparr>) (int (length buf)) (int (512 * k)) = int (length buf)"
    using z by (simp add: chunk_size_def inode_length_def di_def cmod_nonneg Let_def)
  moreover have "select_sector ?d (- 1) = fail Assert_failed"
  proof -
    have "unat (capacity ?d) \<le> 2 ^ 28" using f by (simp add: file_ok_def disk_wf_def)
    moreover have "unat (- 1 :: u32) = 2 ^ 32 - 1" by (simp add: unsigned_minus_1_eq_mask mask_eq_exp_minus_1)
    ultimately show ?thesis by (simp add: select_sector_def word_less_nat_alt)
  qed
  ultimately have "write_loop True ?fs (i\<lparr>i_data := di\<rparr>) ?d buf (int (length buf)) (int (512 * k)) 0 = fail Assert_failed"
    using z by (subst write_loop.simps) (simp add: disk_write_def disk_read_def cmod_nonneg Let_def)
  moreover have "the_inode s p = ret i" using f by (simp add: file_ok_def the_inode_def)
  ultimately show ?thesis
    using ext i32 assms(2) by (simp add: inode_write_at_def Let_def)
qed

section \<open>The open inodes\<close>

text \<open>
  One in-memory inode per open sector: the list of open inodes is the domain of the heap, holds no
  sector twice, and every inode in it is open at least once and denies at most that many writes.
\<close>

definition open_wf :: "fsys \<Rightarrow> bool" where
  "open_wf s \<longleftrightarrow> distinct (open_inodes s) \<and> NULL \<notin> set (open_inodes s) \<and>
     (\<forall>p. inodes s p \<noteq> None \<longleftrightarrow> p \<in> set (open_inodes s)) \<and>
     (\<forall>p i. inodes s p = Some i \<longrightarrow> 1 \<le> open_cnt i \<and> 0 \<le> deny_write_cnt i \<and> deny_write_cnt i \<le> open_cnt i) \<and>
     (\<forall>p q i j. inodes s p = Some i \<and> inodes s q = Some j \<and> i_sector i = i_sector j \<longrightarrow> p = q)"

lemma open_wf_put:
  assumes "open_wf s" and "inodes s p = Some j" and "i_sector i = i_sector j" and "1 \<le> open_cnt i"
    and "0 \<le> deny_write_cnt i" and "deny_write_cnt i \<le> open_cnt i"
  shows "open_wf (put_inode s p i)"
  using assms unfolding open_wf_def put_inode_def by (auto split: if_splits)

text \<open>Denying and allowing writes keep the invariant, and are refused exactly when it would break.\<close>

lemma inode_deny_allow:
  assumes wf: "open_wf s" and p: "inodes s p = Some i"
  shows "deny_write_cnt i < open_cnt i \<Longrightarrow> \<exists>s'. inode_deny_write s p = ret s' \<and> open_wf s' \<and> inode_allow_write s' p = ret s"
    and "deny_write_cnt i = open_cnt i \<Longrightarrow> inode_deny_write s p = fail Assert_failed"
    and "deny_write_cnt i = 0 \<Longrightarrow> inode_allow_write s p = fail Assert_failed"
proof -
  have i: "1 \<le> open_cnt i" "0 \<le> deny_write_cnt i" using wf p by (auto simp: open_wf_def)
  show "\<exists>s'. inode_deny_write s p = ret s' \<and> open_wf s' \<and> inode_allow_write s' p = ret s" if "deny_write_cnt i < open_cnt i"
  proof -
    let ?s = "put_inode s p (i\<lparr>deny_write_cnt := deny_write_cnt i + 1\<rparr>)"
    have "open_wf ?s" using i that by (intro open_wf_put [OF wf p]) auto
    moreover have "(inodes s)(p \<mapsto> i) = inodes s" using p by auto
    ultimately show ?thesis
      using i that p by (simp add: inode_deny_write_def inode_allow_write_def the_inode_def put_inode_def)
  qed
qed (use p in \<open>simp_all add: inode_deny_write_def inode_allow_write_def the_inode_def\<close>)

lemma find_open_ok:
  assumes "\<forall>p \<in> set ps. inodes s p \<noteq> None"
  shows "(\<exists>p i. find_open s sec ps = ret (Some p) \<and> p \<in> set ps \<and> inodes s p = Some i \<and> i_sector i = sec) \<or>
    (find_open s sec ps = ret None \<and> (\<forall>p i. p \<in> set ps \<and> inodes s p = Some i \<longrightarrow> i_sector i \<noteq> sec))"
  using assms
proof (induction ps)
  case (Cons q ps)
  then have "inodes s q \<noteq> None" by simp
  then obtain j where j: "inodes s q = Some j" by blast
  show ?case
  proof (cases "i_sector j = sec")
    case True
    then show ?thesis using j by (intro disjI1) (auto simp: the_inode_def)
  next
    case False
    then show ?thesis using j Cons by (auto simp: the_inode_def)
  qed
qed simp

text \<open>
  Opening: \<open>inode_open\<close> of a sector yields the one in-memory inode of that sector, shared with
  every earlier opener (whose data it keeps) or freshly read from the disk; closing it again gives
  back exactly the state before, so every open is undone by one close.
\<close>

theorem inode_open_close_inverse:
  assumes wf: "open_wf s" and d: "disk_wf (filesys_disk s)" and sec: "sec < capacity (filesys_disk s)"
    and new: "inodes s new = None" "new \<noteq> NULL"
    and good: "\<And>p i. inodes s p = Some i \<Longrightarrow> is_good_inode i"
      "d_magic (bytes_inode_disk (sectors (filesys_disk s) sec)) = INODE_MAGIC"
  shows "\<exists>p i s1 s2. inode_open (Some new) s sec = ret (p, s1) \<and> open_wf s1 \<and> inodes s1 p = Some i \<and> i_sector i = sec \<and>
    (case inodes s p of
       Some j \<Rightarrow> i = j\<lparr>open_cnt := open_cnt j + 1\<rparr>
     | None \<Rightarrow> open_cnt i = 1 \<and> i_data i = bytes_inode_disk (sectors (filesys_disk s) sec)) \<and>
    inode_close s1 p = ret s2 \<and> inodes s2 = inodes s \<and> open_inodes s2 = open_inodes s \<and> fatfs s2 = fatfs s \<and>
    sectors (filesys_disk s2) = sectors (filesys_disk s)"
proof -
  have dom: "\<forall>p \<in> set (open_inodes s). inodes s p \<noteq> None" using wf by (auto simp: open_wf_def)
  from find_open_ok [OF dom, of sec] show ?thesis
  proof (elim disjE exE conjE)
    fix p j assume p: "find_open s sec (open_inodes s) = ret (Some p)" "p \<in> set (open_inodes s)" "inodes s p = Some j" "i_sector j = sec"
    let ?i = "j\<lparr>open_cnt := open_cnt j + 1\<rparr>"
    have nn: "p \<noteq> NULL" and cnt: "1 \<le> open_cnt j" "0 \<le> deny_write_cnt j" "deny_write_cnt j \<le> open_cnt j"
      using wf p by (auto simp: open_wf_def)
    have op: "inode_open (Some new) s sec = ret (p, put_inode s p ?i)"
      using p nn by (simp add: inode_open_def inode_reopen_def the_inode_def)
    have "open_wf (put_inode s p ?i)" using cnt by (intro open_wf_put [OF wf p(3)]) auto
    moreover have "inode_close (put_inode s p ?i) p = ret (put_inode (put_inode s p ?i) p j)"
      using nn cnt good(1) [OF p(3)] by (simp add: inode_close_def the_inode_def put_inode_def is_good_inode_def)
    moreover have "inodes (put_inode (put_inode s p ?i) p j) = inodes s" using p(3) by (auto simp: put_inode_def)
    ultimately show ?thesis using op p
      by (intro exI [of _ p] exI [of _ ?i] exI [of _ "put_inode s p ?i"] exI [of _ "put_inode (put_inode s p ?i) p j"])
        (simp add: put_inode_def)
  next
    assume none: "find_open s sec (open_inodes s) = ret None"
      "\<forall>p i. p \<in> set (open_inodes s) \<and> inodes s p = Some i \<longrightarrow> i_sector i \<noteq> sec"
    let ?i = "\<lparr>i_sector = sec, open_cnt = 1, removed = False, deny_write_cnt = 0,
      i_data = bytes_inode_disk (sectors (filesys_disk s) sec)\<rparr>"
    let ?d = "filesys_disk s"
    let ?s1 = "(put_inode s new ?i)\<lparr>filesys_disk := ?d\<lparr>read_cnt := read_cnt ?d + 1\<rparr>, open_inodes := new # open_inodes s\<rparr>"
    have op: "inode_open (Some new) s sec = ret (new, ?s1)"
      using none disk_read_ok [OF d sec] by (simp add: inode_open_def)
    have nin: "new \<notin> set (open_inodes s)" using wf new unfolding open_wf_def by blast
    have other: "i_sector j \<noteq> sec" if "inodes s q = Some j" for q j using that wf none(2) by (auto simp: open_wf_def)
    have w1: "open_wf ?s1"
      using wf new nin other unfolding open_wf_def put_inode_def by (auto split: if_splits)
    have "inode_close ?s1 new = ret (?s1\<lparr>open_inodes := open_inodes s, inodes := inodes s\<rparr>)"
    proof -
      have "(inodes s)(new := None) = inodes s" using new by auto
      then show ?thesis using new good(2) by (simp add: inode_close_def the_inode_def put_inode_def)
    qed
    with op w1 new show ?thesis
      by (intro exI [of _ new] exI [of _ ?i] exI [of _ ?s1] exI [of _ "?s1\<lparr>open_inodes := open_inodes s, inodes := inodes s\<rparr>"])
        (simp add: put_inode_def)
  qed
qed

text \<open>
  The last close of a removed file gives back its clusters: the chain of its data and the one
  of the inode itself, and no others.
\<close>

theorem inode_close_releases:
  assumes C: "fat_chains (fatfs s) C" and p: "inodes s p = Some i" "p \<noteq> NULL" and "removed i" and "open_cnt i = 1"
    and "is_good_inode i" and cs: "cs \<in> C" "d_start (i_data i) = hd cs"
    and own: "[sector_to_cluster (fatfs s) (i_sector i)] \<in> C" "cs \<noteq> [sector_to_cluster (fatfs s) (i_sector i)]"
  shows "\<exists>s'. inode_close s p = ret s' \<and> inodes s' = (inodes s)(p := None) \<and> open_inodes s' = remove1 p (open_inodes s) \<and>
    fat_chains (fatfs s') (C - {cs} - {[sector_to_cluster (fatfs s) (i_sector i)]})"
proof -
  from fat_remove_chain_whole [OF C cs(1)] obtain fs1 where
    f1: "fat_remove_chain (fatfs s) (hd cs) 0 = ret fs1" "fat_chains fs1 (C - {cs})" "data_start fs1 = data_start (fatfs s)" by blast
  have "[sector_to_cluster (fatfs s) (i_sector i)] \<in> C - {cs}" using own by auto
  from fat_remove_chain_whole [OF f1(2) this] obtain fs2 where
    f2: "fat_remove_chain fs1 (sector_to_cluster (fatfs s) (i_sector i)) 0 = ret fs2"
      "fat_chains fs2 (C - {cs} - {[sector_to_cluster (fatfs s) (i_sector i)]})" by auto
  have "sector_to_cluster fs1 (i_sector i) = sector_to_cluster (fatfs s) (i_sector i)" using f1(3) by (simp add: sector_to_cluster_def)
  then show ?thesis
    using f1(1) f2 assms by (simp add: inode_close_def the_inode_def is_good_inode_def fat_release_def)
qed

section \<open>A sample file system\<close>

definition sample_inode :: inode where
  "sample_inode = \<lparr>i_sector = 8, open_cnt = 1, removed = False, deny_write_cnt = 0,
     i_data = \<lparr>d_start = 2, d_length = 600, d_magic = INODE_MAGIC, isdir = False, unused = replicate 499 0\<rparr>\<rparr>"

definition sample_fsys :: fsys where
  "sample_fsys = \<lparr>fatfs = sample_fs, filesys_disk = sample_disk, inodes = [0x1000 \<mapsto> sample_inode], open_inodes = [0x1000]\<rparr>"

lemma sample_table: "in_table sample_fs c \<Longrightarrow> unat c < 8 \<and> c \<noteq> 0"
  by (simp add: in_table_def sample_fs_def)

lemma sample_file_ok: "file_ok sample_fsys {[1], [2, 4], [7]} 0x1000 sample_inode [2, 4]"
proof -
  have "cluster_to_sector sample_fs c < capacity sample_disk" if "in_table sample_fs c" for c
  proof -
    have "unat (1 + c) = 1 + unat c" using sample_table [OF that] by (intro unat_1_plus) simp
    then show ?thesis
      using sample_table [OF that] by (simp add: cluster_to_sector_def sample_fs_def sample_disk_def word_less_nat_alt)
  qed
  then show ?thesis
    using sample_fs_chains
    by (simp add: file_ok_def sample_fsys_def clusters_on_disk_def)
      (simp add: sample_inode_def sample_disk_def sample_fs_def disk_wf_def DISK_SECTOR_SIZE_def ROOT_DIR_CLUSTER_def
        inode_length_def sector_to_cluster_def)
qed

lemma sample_free: "free_clusters sample_fs = {3, 5, 6}"
proof -
  have "j = 2 \<or> j = 3 \<or> j = 4 \<or> j = 5 \<or> j = 6 \<or> j = 7" if "2 \<le> j" "j < 8" for j :: nat using that by arith
  then show ?thesis by (fastforce simp: free_clusters_def sample_fs_def)
qed

lemma sample_writable:
  "deny_write_cnt sample_inode = 0" "fat_safe (fatfs sample_fsys)"
  "inode_length sample_inode = 0 \<or> nat (inode_length sample_inode) mod 512 \<noteq> 0 \<or> 900 + length [7, 8, 9 :: u8] \<le> nat (inode_length sample_inode)"
  "ROOT_DIR_CLUSTER \<notin> set [2, 4] \<or> 900 + length [7, 8, 9 :: u8] \<le> 512 * length [2, 4 :: u32]"
  "900 + length [7, 8, 9 :: u8] \<le> nat (inode_length sample_inode) \<or> (900 + length [7, 8, 9 :: u8] + 511) div 512 - length [2, 4 :: u32] < card (free_clusters (fatfs sample_fsys))"
  using sample_free by (simp_all add: sample_inode_def sample_fsys_def fat_safe_def inode_length_def sample_fs_def ROOT_DIR_CLUSTER_def)

theorem inode_read_at_correct_witness:
  "\<exists>s'. inode_read_at True sample_fsys 0x1000 100 50 =
      ret (take 100 (drop 50 (content sample_fs sample_disk (i_data sample_inode) [2, 4])), s')"
  using inode_read_at_correct [OF sample_file_ok, of 100 50] by (auto simp: sample_fsys_def)


theorem inode_write_read_roundtrip_witness:
  "\<exists>s1 s2. inode_write_at True sample_fsys 0x1000 [7, 8, 9] 3 900 = ret (3, s1) \<and>
     inode_read_at True s1 0x1000 3 900 = ret ([7, 8, 9], s2)"
  using inode_write_read_roundtrip [OF sample_file_ok sample_writable(1,2) _ _ sample_writable(3,4,5)] by fastforce

definition sample_new_fsys :: fsys where
  "sample_new_fsys = sample_fsys\<lparr>filesys_disk := sample_disk\<lparr>sectors := (sectors sample_disk)(9 := inode_disk_bytes (i_data sample_inode))\<rparr>\<rparr>"

theorem inode_open_close_inverse_witness:
  "\<exists>p s1 s2. inode_open (Some 0x2000) sample_new_fsys 9 = ret (p, s1) \<and> inode_close s1 p = ret s2 \<and>
     inodes s2 = inodes sample_new_fsys"
proof -
  let ?s = sample_new_fsys
  have "open_wf ?s" by (simp add: open_wf_def sample_new_fsys_def sample_fsys_def sample_inode_def)
  moreover have "disk_wf (filesys_disk ?s)" "9 < capacity (filesys_disk ?s)"
    by (simp_all add: sample_new_fsys_def sample_disk_def disk_wf_def DISK_SECTOR_SIZE_def length_inode_disk_bytes sample_inode_def)
  moreover have "inodes ?s 0x2000 = None" "(0x2000 :: ptr) \<noteq> NULL" by (simp_all add: sample_new_fsys_def sample_fsys_def)
  moreover have "is_good_inode i" if "inodes ?s p = Some i" for p i
    using that by (auto simp: sample_new_fsys_def sample_fsys_def sample_inode_def is_good_inode_def split: if_splits)
  moreover have "d_magic (bytes_inode_disk (sectors (filesys_disk ?s) 9)) = INODE_MAGIC"
    by (simp add: sample_new_fsys_def inode_disk_roundtrip in_int32_def sample_inode_def)
  ultimately show ?thesis using inode_open_close_inverse [of ?s 9 "0x2000"] by blast
qed

theorem inode_close_releases_witness:
  "\<exists>s'. inode_close (put_inode sample_fsys 0x1000 (sample_inode\<lparr>removed := True\<rparr>)) 0x1000 = ret s' \<and>
     fat_chains (fatfs s') ({[1], [2, 4], [7]} - {[2, 4]} - {[7]})"
proof -
  let ?s = "put_inode sample_fsys 0x1000 (sample_inode\<lparr>removed := True\<rparr>)"
  have c: "fat_chains (fatfs ?s) {[1], [2, 4], [7]}" using sample_fs_chains by (simp add: put_inode_def sample_fsys_def)
  have "sector_to_cluster (fatfs ?s) 8 = 7" by (simp add: put_inode_def sample_fsys_def sample_fs_def sector_to_cluster_def)
  then show ?thesis
    using inode_close_releases [OF c, of "0x1000" "sample_inode\<lparr>removed := True\<rparr>" "[2, 4]"]
    by (auto simp: put_inode_def sample_inode_def is_good_inode_def)
qed

text \<open>
  A new file whose clusters do not follow one another: \<open>inode_create\<close> zeroes as many sectors from
  its first one on. Here the chain is 5, 6, 3, and it is cluster 7, which belongs to another file,
  that is wiped, while cluster 3 keeps its old bytes.
\<close>

lemma inode_create_zeroes_neighbour:
  "\<exists>fs d. inode_create True sample_fs (sample_disk\<lparr>sectors := (\<lambda>_. replicate 512 1)\<rparr>) 9 1500 False = ret (True, fs, d) \<and>
     linked (fat fs) [5, 6, 3] \<and> linked (fat fs) [7] \<and>
     sectors d (cluster_to_sector fs 7) = replicate 512 0 \<and> sectors d (cluster_to_sector fs 3) = replicate 512 1"
proof -
  have a: "fat_allocate sample_fs 3 = ret (True, Some 5, sample_fs\<lparr>fat := [0, EOChain, 4, EOChain, EOChain, 6, 3, EOChain], last_clst := 3\<rparr>)"
    by (simp add: fat_allocate_def fat_create_chain_def find_free_cluster_def find_free_loop.simps sample_fs_def
      fat_get_def fat_put_def EOChain_def chain_end_loop.simps fat_allocate_loop.simps ROOT_DIR_CLUSTER_def)
  have b: "bytes_to_sectors 1500 = 3" by (simp add: bytes_to_sectors_def cdiv_nonneg)
  show ?thesis
    by (simp add: inode_create_def a b) (simp add: zero_loop.simps disk_write_def select_sector_def sample_disk_def DISK_SECTOR_SIZE_def
        length_inode_disk_bytes cluster_to_sector_def sample_fs_def EOChain_def)
qed

end
