(* ===== verification/Directory.thy ===== *)
theory Directory
  imports Inode
begin

text \<open>
  Directories, \<open>filesys/directory.c\<close>: files of 20-byte entries. A \<open>struct dir\<close> is passed by
  value (its inode's address and position); only \<open>dir_readdir\<close> changes it. A name is the list of
  its bytes before the terminating zero. \<open>entries\<close> decodes a directory's content; the lemmas show
  that \<open>lookup\<close>, \<open>dir_add\<close> and \<open>dir_remove\<close> are the operations of a finite map from names to
  inode sectors on it.

  Whether \<open>malloc\<close> and \<open>calloc\<close> succeed, and what the stack held before, are arguments.
\<close>

definition NAME_MAX :: nat where "NAME_MAX = 14"

record dir =
  dir_inode :: ptr
  dir_pos :: off_t

record dir_entry =
  e_sector :: disk_sector_t
  e_name :: "u8 list"
  in_use :: bool

definition entry_bytes :: "dir_entry \<Rightarrow> u8 list" where
  "entry_bytes e = u32_bytes (e_sector e) @ e_name e @ [if in_use e then 1 else 0]"

definition bytes_entry :: "u8 list \<Rightarrow> dir_entry" where
  "bytes_entry bs = \<lparr>e_sector = bytes_u32 (take 4 bs), e_name = take 15 (drop 4 bs), in_use = (bs ! 19 \<noteq> 0)\<rparr>"

section \<open>Strings\<close>

definition cstr :: "u8 list \<Rightarrow> u8 list" where
  "cstr buf = takeWhile (\<lambda>c. c \<noteq> 0) buf"

text \<open>\<open>!strcmp (name, buf)\<close> for an array \<open>buf\<close> of 15 bytes.\<close>

definition strcmp_eq :: "u8 list \<Rightarrow> u8 list \<Rightarrow> bool exec" where
  "strcmp_eq name buf =
     (if 0 \<in> set buf then ret (name = cstr buf)
      else if take (length buf) name = buf then fail Out_of_bounds
      else ret False)"

text \<open>\<open>strlcpy (dst, src, size)\<close>: the bytes of \<open>dst\<close> after the terminator stay.\<close>

definition strlcpy :: "u8 list \<Rightarrow> u8 list \<Rightarrow> nat \<Rightarrow> u8 list" where
  "strlcpy dst src sz =
     (if sz > 0 then
        let dst_len = (if length src \<ge> sz then sz - 1 else length src)
        in put_bytes dst 0 (take dst_len src @ [0])
      else dst)"

section \<open>Operations\<close>

definition dir_create :: "bool \<Rightarrow> fat_fs \<Rightarrow> disk \<Rightarrow> disk_sector_t \<Rightarrow> size_t \<Rightarrow> (bool \<times> fat_fs \<times> disk) exec" where
  "dir_create mem fs d sector entry_cnt = inode_create mem fs d sector (int32 (uint (entry_cnt * 20))) True"

definition dir_open :: "bool \<Rightarrow> fsys \<Rightarrow> ptr \<Rightarrow> (dir option \<times> fsys) exec" where
  "dir_open mem s inode =
     (if inode \<noteq> NULL \<and> mem then ret (Some \<lparr>dir_inode = inode, dir_pos = 0\<rparr>, s)
      else bindE (inode_close s inode) (\<lambda>s. ret (None, s)))"

definition dir_open_root :: "bool \<Rightarrow> ptr option \<Rightarrow> fsys \<Rightarrow> (dir option \<times> fsys) exec" where
  "dir_open_root mem new s = bindE (inode_open new s ROOT_DIR_SECTOR) (\<lambda>(p, s). dir_open mem s p)"

definition dir_reopen :: "bool \<Rightarrow> fsys \<Rightarrow> dir \<Rightarrow> (dir option \<times> fsys) exec" where
  "dir_reopen mem s dir = bindE (inode_reopen s (dir_inode dir)) (\<lambda>s. dir_open mem s (dir_inode dir))"

definition dir_close :: "fsys \<Rightarrow> dir option \<Rightarrow> fsys exec" where
  "dir_close s dir = (case dir of None \<Rightarrow> ret s | Some d \<Rightarrow> inode_close s (dir_inode d))"

definition dir_get_inode :: "dir \<Rightarrow> ptr" where
  "dir_get_inode dir = dir_inode dir"

partial_function (option) lookup_loop ::
  "bool \<Rightarrow> fsys \<Rightarrow> ptr \<Rightarrow> u8 list \<Rightarrow> off_t \<Rightarrow> ((dir_entry \<times> off_t) option \<times> fsys) exec" where
  "lookup_loop mem s p name ofs =
     bindE (inode_read_at mem s p 20 ofs) (\<lambda>(bytes, s).
     if length bytes = 20 then
       let e = bytes_entry bytes in
       bindE (if in_use e then strcmp_eq name (e_name e) else ret False) (\<lambda>eq.
       if eq then ret (Some (e, ofs), s) else lookup_loop mem s p name (ofs + 20))
     else ret (None, s))"

definition lookup :: "bool \<Rightarrow> fsys \<Rightarrow> dir \<Rightarrow> u8 list \<Rightarrow> ((dir_entry \<times> off_t) option \<times> fsys) exec" where
  "lookup mem s dir name = lookup_loop mem s (dir_inode dir) name 0"

definition dir_lookup :: "bool \<Rightarrow> ptr option \<Rightarrow> fsys \<Rightarrow> dir \<Rightarrow> u8 list \<Rightarrow> (bool \<times> ptr \<times> fsys) exec" where
  "dir_lookup mem new s dir name =
     bindE (lookup mem s dir name) (\<lambda>(r, s).
     case r of
       Some (e, ofs) \<Rightarrow> bindE (inode_open new s (e_sector e)) (\<lambda>(p, s). ret (p \<noteq> NULL, p, s))
     | None \<Rightarrow> ret (False, NULL, s))"

text \<open>The search for a slot; \<open>e\<close> is the 20-byte buffer on the stack.\<close>

partial_function (option) slot_loop :: "bool \<Rightarrow> fsys \<Rightarrow> ptr \<Rightarrow> u8 list \<Rightarrow> off_t \<Rightarrow> (u8 list \<times> off_t \<times> fsys) exec" where
  "slot_loop mem s p e ofs =
     bindE (inode_read_at mem s p 20 ofs) (\<lambda>(bytes, s).
     let e = put_bytes e 0 bytes in
     if length bytes = 20 \<and> in_use (bytes_entry e) then slot_loop mem s p e (ofs + 20)
     else ret (e, ofs, s))"

definition dir_add :: "bool \<Rightarrow> u8 list \<Rightarrow> fsys \<Rightarrow> dir \<Rightarrow> u8 list \<Rightarrow> disk_sector_t \<Rightarrow> (bool \<times> fsys) exec" where
  "dir_add mem junk s dir name sector =
     (if name = [] \<or> length name > NAME_MAX then ret (False, s)
      else bindE (lookup mem s dir name) (\<lambda>(r, s).
        if r \<noteq> None then ret (False, s)
        else bindE (slot_loop mem s (dir_inode dir) junk 0) (\<lambda>(e, ofs, s).
          let old = bytes_entry e;
              new = \<lparr>e_sector = sector, e_name = strlcpy (e_name old) name 15, in_use = True\<rparr> in
          bindE (inode_write_at mem s (dir_inode dir) (entry_bytes new) 20 ofs) (\<lambda>(n, s). ret (n = 20, s)))))"

definition dir_remove :: "bool \<Rightarrow> ptr option \<Rightarrow> fsys \<Rightarrow> dir \<Rightarrow> u8 list \<Rightarrow> (bool \<times> fsys) exec" where
  "dir_remove mem new s dir name =
     bindE (lookup mem s dir name) (\<lambda>(r, s).
     case r of
       None \<Rightarrow> bindE (inode_close s NULL) (\<lambda>s. ret (False, s))
     | Some (e, ofs) \<Rightarrow>
         bindE (inode_open new s (e_sector e)) (\<lambda>(inode, s).
         if inode = NULL then bindE (inode_close s inode) (\<lambda>s. ret (False, s))
         else
           bindE (inode_write_at mem s (dir_inode dir) (entry_bytes (e\<lparr>in_use := False\<rparr>)) 20 ofs) (\<lambda>(n, s).
           if n \<noteq> 20 then bindE (inode_close s inode) (\<lambda>s. ret (False, s))
           else
             bindE (inode_remove s inode) (\<lambda>s.
             bindE (inode_close s inode) (\<lambda>s. ret (True, s))))))"

partial_function (option) readdir_loop :: "bool \<Rightarrow> fsys \<Rightarrow> dir \<Rightarrow> (u8 list option \<times> dir \<times> fsys) exec" where
  "readdir_loop mem s dir =
     bindE (inode_read_at mem s (dir_inode dir) 20 (dir_pos dir)) (\<lambda>(bytes, s).
     if length bytes = 20 then
       let e = bytes_entry bytes; dir = dir\<lparr>dir_pos := dir_pos dir + 20\<rparr> in
       if in_use e then ret (Some (cstr (e_name e)), dir, s) else readdir_loop mem s dir
     else ret (None, dir, s))"

definition dir_readdir :: "bool \<Rightarrow> fsys \<Rightarrow> dir \<Rightarrow> (u8 list option \<times> dir \<times> fsys) exec" where
  "dir_readdir mem s dir = readdir_loop mem s dir"

definition dir_inode_of :: "fsys \<Rightarrow> dir \<Rightarrow> inode exec" where
  "dir_inode_of s dir = the_inode s (dir_inode dir)"

definition get_dir_sector :: "fsys \<Rightarrow> dir \<Rightarrow> disk_sector_t exec" where
  "get_dir_sector s dir = bindE (dir_inode_of s dir) (\<lambda>i. ret (i_sector i))"

definition is_root_dir :: "fsys \<Rightarrow> dir \<Rightarrow> bool exec" where
  "is_root_dir s dir = bindE (get_dir_sector s dir) (\<lambda>x. ret (x = ROOT_DIR_SECTOR))"

definition is_same_dir :: "fsys \<Rightarrow> dir \<Rightarrow> dir \<Rightarrow> bool exec" where
  "is_same_dir s dir1 dir2 = bindE (get_dir_sector s dir1) (\<lambda>x. bindE (get_dir_sector s dir2) (\<lambda>y. ret (x = y)))"

definition is_dir_removed :: "fsys \<Rightarrow> dir \<Rightarrow> bool exec" where
  "is_dir_removed s dir = bindE (dir_inode_of s dir) (\<lambda>i. ret (removed i))"

section \<open>Entries\<close>

lemma length_entry_bytes: "length (e_name e) = 15 \<Longrightarrow> length (entry_bytes e) = 20"
  by (simp add: entry_bytes_def)

lemma bytes_entry_inverse: "length (e_name e) = 15 \<Longrightarrow> bytes_entry (entry_bytes e) = e"
  by (simp add: bytes_entry_def entry_bytes_def nth_append)

text \<open>The entries a byte sequence holds; a rest of fewer than 20 bytes is no entry.\<close>

function entries :: "u8 list \<Rightarrow> dir_entry list" where
  "entries bs = (if length bs < 20 then [] else bytes_entry (take 20 bs) # entries (drop 20 bs))"
  by auto
termination by (relation "measure length") auto

declare entries.simps [simp del]

lemma length_entries: "length (entries bs) = length bs div 20"
proof (induction bs rule: entries.induct)
  case (1 bs)
  show ?case
  proof (cases "length bs < 20")
    case False
    then have "length bs div 20 = Suc ((length bs - 20) div 20)" by (simp add: le_div_geq)
    with False 1 show ?thesis by (subst entries.simps) simp
  qed (simp add: entries.simps)
qed

lemma entries_drop: "20 * k \<le> length bs \<Longrightarrow> entries (drop (20 * k) bs) = drop k (entries bs)"
proof (induction k arbitrary: bs)
  case (Suc k)
  then have "entries bs = bytes_entry (take 20 bs) # entries (drop 20 bs)" by (subst entries.simps) simp
  moreover have "drop (20 * Suc k) bs = drop (20 * k) (drop 20 bs)" by (simp add: add.commute)
  moreover have "entries (drop (20 * k) (drop 20 bs)) = drop k (entries (drop 20 bs))"
    using Suc.IH [of "drop 20 bs"] Suc.prems by (simp del: drop_drop)
  ultimately show ?case by (simp del: drop_drop)
qed simp

lemma nth_entries:
  assumes "k < length (entries bs)"
  shows "entries bs ! k = bytes_entry (take 20 (drop (20 * k) bs))"
proof -
  have k: "20 * k + 20 \<le> length bs" using assms by (simp add: length_entries)
  then have "drop k (entries bs) = bytes_entry (take 20 (drop (20 * k) bs)) # entries (drop 20 (drop (20 * k) bs))"
    by (subst entries_drop [symmetric]) (simp_all add: entries.simps [of "drop (20 * k) bs"])
  then show ?thesis using assms by (metis Cons_nth_drop_Suc list.inject)
qed

lemma entries_append:
  assumes "20 dvd length bs"
  shows "entries (bs @ cs) = entries bs @ entries cs"
  using assms
proof (induction bs rule: entries.induct)
  case (1 bs)
  show ?case
  proof (cases "length bs < 20")
    case True
    then have "bs = []" using "1.prems" by (auto elim!: dvdE)
    then show ?thesis by (simp add: entries.simps [of "[]"])
  next
    case False
    moreover have "20 dvd length (drop 20 bs)" using "1.prems" by simp
    ultimately show ?thesis using "1.IH" by (subst (1 2) entries.simps) simp
  qed
qed

lemma entries_single: "length (e_name e) = 15 \<Longrightarrow> entries (entry_bytes e) = [e]"
  by (subst entries.simps, subst entries.simps) (simp add: length_entry_bytes bytes_entry_inverse)

lemma entries_put:
  assumes "j < length (entries bs)" and "length (e_name e) = 15"
  shows "entries (put_bytes bs (20 * j) (entry_bytes e)) = (entries bs)[j := e]"
proof -
  have j: "20 * j + 20 \<le> length bs" using assms(1) by (simp add: length_entries)
  let ?pre = "take (20 * j) bs" and ?post = "drop (20 * j + 20) bs"
  have "put_bytes bs (20 * j) (entry_bytes e) = ?pre @ entry_bytes e @ ?post"
    by (simp add: put_bytes_def length_entry_bytes [OF assms(2)])
  moreover have "20 dvd length ?pre" "length ?pre = 20 * j" using j by simp_all
  ultimately have "entries (put_bytes bs (20 * j) (entry_bytes e)) = entries ?pre @ [e] @ entries ?post"
    using entries_single [OF assms(2)] by (simp add: entries_append length_entry_bytes [OF assms(2)])
  moreover have "bs = ?pre @ drop (20 * j) bs" by simp
  then have "entries bs = entries ?pre @ entries (drop (20 * j) bs)" using \<open>20 dvd length ?pre\<close> by (metis entries_append)
  moreover have "entries (drop (20 * j) bs) = bytes_entry (take 20 (drop (20 * j) bs)) # entries ?post"
    using j by (subst entries.simps) (simp add: add.commute)
  moreover have "length (entries ?pre) = j" using j by (simp add: length_entries)
  ultimately show ?thesis by (simp add: list_update_append)
qed

section \<open>Searching\<close>

text \<open>A state that differs in the disk's statistics only.\<close>

definition same_fs :: "fsys \<Rightarrow> fsys \<Rightarrow> bool" where
  "same_fs s s' \<longleftrightarrow> fatfs s' = fatfs s \<and> inodes s' = inodes s \<and> open_inodes s' = open_inodes s \<and>
     sectors (filesys_disk s') = sectors (filesys_disk s) \<and> capacity (filesys_disk s') = capacity (filesys_disk s)"

lemma same_fs_refl [simp]: "same_fs s s"
  by (simp add: same_fs_def)

lemma same_fs_trans: "same_fs s s' \<Longrightarrow> same_fs s' s'' \<Longrightarrow> same_fs s s''"
  by (simp add: same_fs_def)

definition file_content :: "fsys \<Rightarrow> inode \<Rightarrow> cluster_t list \<Rightarrow> u8 list" where
  "file_content s i cs = content (fatfs s) (filesys_disk s) (i_data i) cs"

lemma same_fs_file_ok: "same_fs s s' \<Longrightarrow> file_ok s' C p i cs = file_ok s C p i cs"
  by (simp add: same_fs_def file_ok_def clusters_on_disk_def disk_wf_def)

lemma same_fs_content: "same_fs s s' \<Longrightarrow> file_content s' i cs = file_content s i cs"
  by (simp add: same_fs_def file_content_def content_def raw_def)

lemma length_file_content: "file_ok s C p i cs \<Longrightarrow> length (file_content s i cs) = nat (inode_length i)"
  using file_ok_file_at [of s C p i cs]
  by (auto simp: file_content_def content_def length_raw file_at_def inode_length_def)

lemma inode_read_ok:
  assumes "file_ok s C p i cs"
  shows "\<exists>s'. inode_read_at True s p (int z) (int o') = ret (take z (drop o' (file_content s i cs)), s') \<and> same_fs s s'"
proof -
  have l: "inode_length i = int (nat (inode_length i))" using assms by (simp add: file_ok_def)
  from read_loop_ok [OF file_ok_file_at [OF assms] l, of z o' "[]"] obtain d' where
    "read_loop True (fatfs s) i (filesys_disk s) (int z) (int o') [] = ret (take z (drop o' (file_content s i cs)), d')"
    "sectors d' = sectors (filesys_disk s)" "capacity d' = capacity (filesys_disk s)" by (auto simp: file_content_def)
  moreover have "the_inode s p = ret i" using assms by (simp add: file_ok_def the_inode_def)
  ultimately show ?thesis by (simp add: inode_read_at_def same_fs_def)
qed

definition dir_entries :: "fsys \<Rightarrow> inode \<Rightarrow> cluster_t list \<Rightarrow> dir_entry list" where
  "dir_entries s i cs = entries (file_content s i cs)"

lemma read_entry:
  assumes "file_ok s C p i cs"
  shows "\<exists>bytes s'. inode_read_at True s p 20 (int (20 * k)) = ret (bytes, s') \<and> same_fs s s' \<and>
    (if k < length (dir_entries s i cs) then length bytes = 20 \<and> bytes_entry bytes = dir_entries s i cs ! k
     else length bytes < 20)"
proof -
  let ?c = "file_content s i cs"
  from inode_read_ok [OF assms, of 20 "20 * k"] obtain s' where
    s': "inode_read_at True s p 20 (int (20 * k)) = ret (take 20 (drop (20 * k) ?c), s')" "same_fs s s'" by auto
  have "if k < length (dir_entries s i cs) then length (take 20 (drop (20 * k) ?c)) = 20 \<and>
      bytes_entry (take 20 (drop (20 * k) ?c)) = dir_entries s i cs ! k else length (take 20 (drop (20 * k) ?c)) < 20"
    by (auto simp: dir_entries_def nth_entries length_entries)
  with s' show ?thesis by blast
qed

definition is_named :: "u8 list \<Rightarrow> dir_entry \<Rightarrow> bool" where
  "is_named name e \<longleftrightarrow> in_use e \<and> cstr (e_name e) = name"

text \<open>A directory: every name in use is terminated, and none is used twice.\<close>

definition dir_ok :: "dir_entry list \<Rightarrow> bool" where
  "dir_ok es \<longleftrightarrow> (\<forall>e \<in> set es. in_use e \<longrightarrow> 0 \<in> set (e_name e)) \<and>
     distinct (map (\<lambda>e. cstr (e_name e)) (filter in_use es))"

definition found_at :: "u8 list \<Rightarrow> dir_entry list \<Rightarrow> nat \<Rightarrow> (dir_entry \<times> off_t) option" where
  "found_at name es k = (case find (\<lambda>j. is_named name (es ! j)) [k..<length es] of
     None \<Rightarrow> None | Some j \<Rightarrow> Some (es ! j, int (20 * j)))"

lemma lookup_loop_ok:
  assumes "file_ok s C p i cs" and "\<forall>e \<in> set (dir_entries s i cs). in_use e \<longrightarrow> 0 \<in> set (e_name e)"
  shows "\<exists>s'. lookup_loop True s p name (int (20 * k)) = ret (found_at name (dir_entries s i cs) k, s') \<and> same_fs s s'"
  using assms
proof (induction "length (dir_entries s i cs) - k" arbitrary: k s)
  case 0
  from read_entry [OF 0(2), of k] 0(1) obtain bytes s' where
    "inode_read_at True s p 20 (int (20 * k)) = ret (bytes, s')" "same_fs s s'" "length bytes < 20" by auto
  then show ?case using 0(1) by (subst lookup_loop.simps) (auto simp: found_at_def)
next
  case (Suc n)
  let ?es = "dir_entries s i cs"
  have k: "k < length ?es" using Suc.hyps(2) by simp
  from read_entry [OF Suc.prems(1), of k] k obtain bytes s1 where
    b: "inode_read_at True s p 20 (int (20 * k)) = ret (bytes, s1)" "same_fs s s1" "length bytes = 20"
      "bytes_entry bytes = ?es ! k" by auto
  have es1: "dir_entries s1 i cs = ?es" using same_fs_content [OF b(2)] by (simp add: dir_entries_def)
  have cmp: "(if in_use (?es ! k) then strcmp_eq name (e_name (?es ! k)) else ret False) = ret (is_named name (?es ! k))"
    using Suc.prems(2) k by (auto simp: strcmp_eq_def is_named_def)
  have split: "[k..<length ?es] = k # [Suc k..<length ?es]" using k by (simp add: upt_conv_Cons)
  show ?case
  proof (cases "is_named name (?es ! k)")
    case True
    then show ?thesis using b cmp split by (subst lookup_loop.simps) (simp add: found_at_def)
  next
    case False
    have "\<exists>s'. lookup_loop True s1 p name (int (20 * Suc k)) = ret (found_at name ?es (Suc k), s') \<and> same_fs s1 s'"
      using Suc.hyps(1) [of s1 "Suc k"] Suc.hyps(2) Suc.prems es1 same_fs_file_ok [OF b(2)] by simp
    then obtain s' where "lookup_loop True s1 p name (int (20 * Suc k)) = ret (found_at name ?es (Suc k), s')" "same_fs s1 s'" by blast
    moreover have "lookup_loop True s p name (int (20 * k)) = lookup_loop True s1 p name (int (20 * Suc k))"
      using b cmp False by (subst lookup_loop.simps) (simp add: Let_def add.commute)
    moreover have "found_at name ?es k = found_at name ?es (Suc k)" using False split by (simp add: found_at_def)
    ultimately show ?thesis using same_fs_trans [OF b(2), of s'] by metis
  qed
qed

definition dirmap :: "dir_entry list \<Rightarrow> u8 list \<Rightarrow> disk_sector_t option" where
  "dirmap es name = map_option e_sector (find (is_named name) es)"

lemma found_at_find:
  "found_at name es 0 = None \<longleftrightarrow> find (is_named name) es = None"
  "found_at name es 0 = Some (e, ofs) \<Longrightarrow> find (is_named name) es = Some e \<and> (\<exists>j < length es. ofs = int (20 * j) \<and> es ! j = e)"
  by (auto simp: found_at_def find_None_iff find_Some_iff in_set_conv_nth split: option.splits)

section \<open>Adding entries\<close>

definition free_slot :: "dir_entry list \<Rightarrow> nat" where
  "free_slot es = length (takeWhile in_use es)"

lemma slot_loop_ok:
  assumes "file_ok s C p i cs" and "length e = 20"
  shows "\<exists>e' s'. slot_loop True s p e (int (20 * k)) = ret (e', int (20 * (k + free_slot (drop k (dir_entries s i cs)))), s') \<and>
    length e' = 20 \<and> same_fs s s'"
  using assms
proof (induction "length (dir_entries s i cs) - k" arbitrary: k s e)
  case 0
  from read_entry [OF 0(2), of k] 0(1) obtain bytes s' where
    "inode_read_at True s p 20 (int (20 * k)) = ret (bytes, s')" "same_fs s s'" "length bytes < 20" by auto
  then show ?case using 0 by (subst slot_loop.simps) (auto simp: free_slot_def put_bytes_start)
next
  case (Suc n)
  let ?es = "dir_entries s i cs"
  have k: "k < length ?es" using Suc.hyps(2) by simp
  from read_entry [OF Suc.prems(1), of k] k obtain bytes s1 where
    b: "inode_read_at True s p 20 (int (20 * k)) = ret (bytes, s1)" "same_fs s s1" "length bytes = 20"
      "bytes_entry bytes = ?es ! k" by auto
  have es1: "dir_entries s1 i cs = ?es" using same_fs_content [OF b(2)] by (simp add: dir_entries_def)
  have e: "put_bytes e 0 bytes = bytes" using b(3) Suc.prems(2) by (simp add: put_bytes_whole)
  have split: "drop k ?es = ?es ! k # drop (Suc k) ?es" using k by (rule Cons_nth_drop_Suc [symmetric])
  show ?case
  proof (cases "in_use (?es ! k)")
    case False
    then show ?thesis using b e split by (subst slot_loop.simps) (simp add: free_slot_def)
  next
    case True
    have "\<exists>e' s'. slot_loop True s1 p bytes (int (20 * Suc k)) =
        ret (e', int (20 * (Suc k + free_slot (drop (Suc k) ?es))), s') \<and> length e' = 20 \<and> same_fs s1 s'"
      using Suc.hyps(1) [of s1 "Suc k" bytes] Suc.hyps(2) Suc.prems es1 b(3) same_fs_file_ok [OF b(2)] by simp
    then obtain e' s' where "slot_loop True s1 p bytes (int (20 * Suc k)) =
        ret (e', int (20 * (Suc k + free_slot (drop (Suc k) ?es))), s')" "length e' = 20" "same_fs s1 s'" by blast
    moreover have "slot_loop True s p e (int (20 * k)) = slot_loop True s1 p bytes (int (20 * Suc k))"
      using b e True by (subst slot_loop.simps) (simp add: Let_def add.commute)
    moreover have "Suc k + free_slot (drop (Suc k) ?es) = k + free_slot (drop k ?es)" using True split by (simp add: free_slot_def)
    ultimately show ?thesis using same_fs_trans [OF b(2), of s'] by metis
  qed
qed

lemma strlcpy_name:
  assumes "length buf = 15" and "length name \<le> 14" and "0 \<notin> set name"
  shows "length (strlcpy buf name 15) = 15" "0 \<in> set (strlcpy buf name 15)" "cstr (strlcpy buf name 15) = name"
  using assms by (auto simp: strlcpy_def put_bytes_def cstr_def takeWhile_append)

text \<open>A write that starts inside a file or at its end.\<close>

lemma take_put_bytes:
  assumes "o' \<le> L" and "L \<le> length R"
  shows "take (max L (o' + length buf)) (put_bytes (R @ pad) o' buf) = put_bytes (take L R) o' buf"
proof -
  let ?e = "o' + length buf"
  have "take (max L ?e) (put_bytes (R @ pad) o' buf) = take o' R @ buf @ take (max L ?e - ?e) (drop ?e (R @ pad))"
    using assms by (simp add: put_bytes_def)
  also have "take (max L ?e - ?e) (drop ?e (R @ pad)) = drop ?e (take L R)"
    using assms by (cases "L \<le> ?e") (auto simp: drop_take)
  finally show ?thesis using assms by (simp add: put_bytes_def)
qed

definition writable :: "fsys \<Rightarrow> inode \<Rightarrow> cluster_t list \<Rightarrow> nat \<Rightarrow> bool" where
  "writable s i cs end' \<longleftrightarrow> deny_write_cnt i = 0 \<and> fat_safe (fatfs s) \<and> end' < 2 ^ 31 \<and>
     (inode_length i = 0 \<or> nat (inode_length i) mod 512 \<noteq> 0 \<or> end' \<le> nat (inode_length i)) \<and>
     (ROOT_DIR_CLUSTER \<notin> set cs \<or> end' \<le> 512 * length cs) \<and>
     (end' \<le> nat (inode_length i) \<or> (end' + 511) div 512 - length cs < card (free_clusters (fatfs s)))"

lemma same_fs_writable: "same_fs s s' \<Longrightarrow> writable s' i cs e = writable s i cs e"
  by (simp add: same_fs_def writable_def)

lemma inode_write_content:
  assumes f: "file_ok s C p i cs" and w: "writable s i cs (o' + length buf)" and "buf \<noteq> []" and o: "o' \<le> nat (inode_length i)"
  shows "\<exists>s' i' ns. inode_write_at True s p buf (int (length buf)) (int o') = ret (int (length buf), s') \<and>
    file_ok s' (insert (cs @ ns) (C - {cs})) p i' (cs @ ns) \<and> i_sector i' = i_sector i \<and> data_start (fatfs s') = data_start (fatfs s) \<and>
    file_content s' i' (cs @ ns) = put_bytes (file_content s i cs) o' buf \<and>
    (\<forall>ds \<in> C - {cs}. sector_to_cluster (fatfs s) (i_sector i) \<notin> set ds \<longrightarrow>
       raw (fatfs s') (filesys_disk s') ds = raw (fatfs s) (filesys_disk s) ds)"
proof -
  from w have wr: "deny_write_cnt i = 0" "fat_safe (fatfs s)" "o' + length buf < 2 ^ 31"
    "inode_length i = 0 \<or> nat (inode_length i) mod 512 \<noteq> 0 \<or> o' + length buf \<le> nat (inode_length i)"
    "ROOT_DIR_CLUSTER \<notin> set cs \<or> o' + length buf \<le> 512 * length cs"
    "o' + length buf \<le> nat (inode_length i) \<or> (o' + length buf + 511) div 512 - length cs < card (free_clusters (fatfs s))"
    by (auto simp: writable_def)
  from inode_write_at_ok [OF f wr(1,2) \<open>buf \<noteq> []\<close> wr(3-6)] obtain s' i' ns pad where
    x: "inode_write_at True s p buf (int (length buf)) (int o') = ret (int (length buf), s')"
      "file_ok s' (insert (cs @ ns) (C - {cs})) p i' (cs @ ns)"
      "inode_length i' = max (inode_length i) (int (o' + length buf))" "i_sector i' = i_sector i" "data_start (fatfs s') = data_start (fatfs s)"
      "raw (fatfs s') (filesys_disk s') (cs @ ns) = put_bytes (raw (fatfs s) (filesys_disk s) cs @ pad) o' buf"
      "\<forall>ds \<in> C - {cs}. sector_to_cluster (fatfs s) (i_sector i) \<notin> set ds \<longrightarrow>
       raw (fatfs s') (filesys_disk s') ds = raw (fatfs s) (filesys_disk s) ds" by blast
  let ?R = "raw (fatfs s) (filesys_disk s) cs" and ?L = "nat (inode_length i)"
  have "?L \<le> length ?R" using file_ok_file_at [OF f] by (simp add: file_at_def length_raw inode_length_def)
  moreover have "nat (d_length (i_data i')) = max ?L (o' + length buf)"
    using x(3) by (simp add: inode_length_def)
  ultimately have "file_content s' i' (cs @ ns) = put_bytes (file_content s i cs) o' buf"
    using take_put_bytes [OF o, of ?R buf pad] x(6) by (simp add: file_content_def content_def inode_length_def)
  with x show ?thesis by blast
qed

lemma find_app: "find P (xs @ ys) = (case find P xs of None \<Rightarrow> find P ys | Some x \<Rightarrow> Some x)"
  by (induction xs) auto

text \<open>The entry takes the place of the first unused one, or follows the last.\<close>

definition add_entry :: "dir_entry list \<Rightarrow> dir_entry \<Rightarrow> dir_entry list" where
  "add_entry es e = takeWhile in_use es @ e # tl (dropWhile in_use es)"

lemma split_slot:
  "takeWhile in_use es = es \<and> dropWhile in_use es = [] \<or>
   (\<exists>old. es = takeWhile in_use es @ old # tl (dropWhile in_use es) \<and> \<not> in_use old)"
proof (cases "dropWhile in_use es")
  case Nil
  then show ?thesis by (metis append_Nil2 takeWhile_dropWhile_id)
next
  case (Cons old post)
  then have "\<not> in_use old" using hd_dropWhile [of in_use es] by simp
  moreover have "es = takeWhile in_use es @ old # post" by (metis Cons takeWhile_dropWhile_id)
  ultimately show ?thesis using Cons by auto
qed

lemma entries_add:
  assumes "20 dvd length bs" and "length (e_name e) = 15"
  shows "entries (put_bytes bs (20 * free_slot (entries bs)) (entry_bytes e)) = add_entry (entries bs) e"
  using split_slot [of "entries bs"]
proof (elim disjE exE conjE)
  let ?es = "entries bs"
  assume t: "takeWhile in_use ?es = ?es" and d: "dropWhile in_use ?es = []"
  have "put_bytes bs (20 * length ?es) (entry_bytes e) = bs @ entry_bytes e"
    using assms(1) by (simp add: put_bytes_def length_entries)
  then show ?thesis
    unfolding add_entry_def free_slot_def t d using entries_append [OF assms(1)] entries_single [OF assms(2)] by simp
next
  let ?es = "entries bs"
  fix old assume es: "?es = takeWhile in_use ?es @ old # tl (dropWhile in_use ?es)"
  then have "length ?es = length (takeWhile in_use ?es) + Suc (length (tl (dropWhile in_use ?es)))"
    by (metis length_append length_Cons)
  then have "free_slot ?es < length ?es" by (simp add: free_slot_def)
  moreover have "?es[free_slot ?es := e] = add_entry ?es e"
    unfolding free_slot_def add_entry_def by (metis es list_update_length)
  ultimately show ?thesis using entries_put [OF _ assms(2)] by simp
qed

lemma dirmap_None: "dirmap es name = None \<longleftrightarrow> (\<forall>e \<in> set es. \<not> is_named name e)"
  by (auto simp: dirmap_def find_None_iff)

lemma add_entry_ok:
  assumes "dir_ok es" and "dirmap es name = None" and "in_use e" "0 \<in> set (e_name e)" "cstr (e_name e) = name"
  shows "dir_ok (add_entry es e)" "dirmap (add_entry es e) = (dirmap es)(name \<mapsto> e_sector e)"
proof -
  let ?pre = "takeWhile in_use es" and ?post = "tl (dropWhile in_use es)"
  have a: "add_entry es e = ?pre @ e # ?post" by (simp add: add_entry_def)
  from split_slot [of es] have "filter in_use es = filter in_use (?pre @ ?post) \<and>
    (\<forall>m. find (is_named m) es = find (is_named m) (?pre @ ?post)) \<and> set (?pre @ ?post) \<subseteq> set es"
  proof (elim disjE exE conjE)
    fix old assume es: "es = ?pre @ old # ?post" and old: "\<not> in_use old"
    have "filter in_use es = filter in_use (?pre @ ?post)" by (subst es) (use old in simp)
    moreover have "find (is_named m) es = find (is_named m) (?pre @ ?post)" for m
      by (subst es) (use old in \<open>auto simp: find_app is_named_def split: option.splits\<close>)
    moreover have "set es = set ?pre \<union> insert old (set ?post)" by (subst es) simp
    ultimately show ?thesis by auto
  next
    assume t: "?pre = es" and d: "dropWhile in_use es = []"
    show ?thesis unfolding t d by simp
  qed
  then have f: "filter in_use es = filter in_use (?pre @ ?post)"
    "find (is_named m) es = find (is_named m) (?pre @ ?post)" "set (?pre @ ?post) \<subseteq> set es" for m by blast+
  have n: "\<not> is_named name x" if "x \<in> set es" for x using that assms(2) by (simp add: dirmap_None)
  have nn: "name \<notin> (\<lambda>e. cstr (e_name e)) ` set (filter in_use es)" using n by (auto simp: is_named_def)
  show "dir_ok (add_entry es e)"
    using assms(1,3-5) nn f(3) unfolding dir_ok_def a f(1) by auto
  have "find (is_named name) ?pre = None" using n f(3) by (auto simp: find_None_iff)
  then show "dirmap (add_entry es e) = (dirmap es)(name \<mapsto> e_sector e)"
    using assms(3-5) by (auto simp: fun_eq_iff dirmap_def a f(2) find_app is_named_def split: option.splits)
qed

section \<open>Reading and changing directories\<close>

text \<open>
  \<open>lookup\<close> terminates without a fault and finds an entry exactly when the directory maps the
  name to a sector, and then the entry for that sector and its place in the file; the file system
  does not change.
\<close>

theorem dir_lookup_correct:
  assumes "file_ok s C (dir_inode dir) i cs" and "dir_ok (dir_entries s i cs)"
  shows "\<exists>r s'. lookup True s dir name = ret (r, s') \<and> same_fs s s' \<and>
    map_option (\<lambda>(e, ofs). e_sector e) r = dirmap (dir_entries s i cs) name \<and>
    (\<forall>e ofs. r = Some (e, ofs) \<longrightarrow> (\<exists>j < length (dir_entries s i cs). ofs = int (20 * j) \<and> dir_entries s i cs ! j = e))"
proof -
  have "\<forall>e \<in> set (dir_entries s i cs). in_use e \<longrightarrow> 0 \<in> set (e_name e)" using assms(2) by (simp add: dir_ok_def)
  from lookup_loop_ok [OF assms(1) this, of name 0] obtain s' where
    "lookup True s dir name = ret (found_at name (dir_entries s i cs) 0, s')" "same_fs s s'" by (auto simp: lookup_def)
  then show ?thesis
    using found_at_find [of name "dir_entries s i cs"] by (cases "found_at name (dir_entries s i cs) 0") (auto simp: dirmap_def)
qed


text \<open>The names \<open>dir_readdir\<close> has still to deliver from the \<open>k\<close>-th entry on.\<close>

definition names_from :: "dir_entry list \<Rightarrow> nat \<Rightarrow> u8 list list" where
  "names_from es k = map (\<lambda>e. cstr (e_name e)) (filter in_use (drop k es))"

lemma readdir_loop_ok:
  assumes "file_ok s C (dir_inode dir) i cs" and "dir_pos dir = int (20 * k)"
  shows "\<exists>s' k'. readdir_loop True s dir =
      ret (case names_from (dir_entries s i cs) k of [] \<Rightarrow> None | n # _ \<Rightarrow> Some n, dir\<lparr>dir_pos := int (20 * k')\<rparr>, s') \<and>
    names_from (dir_entries s i cs) k' = tl (names_from (dir_entries s i cs) k) \<and> same_fs s s'"
  using assms
proof (induction "length (dir_entries s i cs) - k" arbitrary: k s dir)
  case 0
  from read_entry [OF 0(2), of k] 0(1) obtain bytes s' where
    "inode_read_at True s (dir_inode dir) 20 (int (20 * k)) = ret (bytes, s')" "same_fs s s'" "length bytes < 20" by auto
  moreover have "dir\<lparr>dir_pos := int (20 * k)\<rparr> = dir" using 0(3) by simp
  ultimately show ?case using 0 by (subst readdir_loop.simps) (auto simp: names_from_def intro!: exI [of _ k])
next
  case (Suc n)
  let ?es = "dir_entries s i cs" and ?dir = "dir\<lparr>dir_pos := int (20 * Suc k)\<rparr>"
  have k: "k < length ?es" using Suc.hyps(2) by simp
  from read_entry [OF Suc.prems(1), of k] k obtain bytes s1 where
    b: "inode_read_at True s (dir_inode dir) 20 (int (20 * k)) = ret (bytes, s1)" "same_fs s s1" "length bytes = 20"
      "bytes_entry bytes = ?es ! k" by auto
  have es1: "dir_entries s1 i cs = ?es" using same_fs_content [OF b(2)] by (simp add: dir_entries_def)
  have split: "drop k ?es = ?es ! k # drop (Suc k) ?es" using k by (rule Cons_nth_drop_Suc [symmetric])
  show ?case
  proof (cases "in_use (?es ! k)")
    case True
    then have "readdir_loop True s dir = ret (Some (cstr (e_name (?es ! k))), ?dir, s1)"
      using b Suc.prems(2) by (subst readdir_loop.simps) (simp add: Let_def add.commute)
    then show ?thesis using True split b(2) by (intro exI [of _ s1] exI [of _ "Suc k"]) (simp add: names_from_def)
  next
    case False
    have step: "readdir_loop True s dir = readdir_loop True s1 ?dir"
      using b Suc.prems(2) False by (subst readdir_loop.simps) (simp add: Let_def add.commute)
    have names: "names_from ?es k = names_from ?es (Suc k)" using False split by (simp add: names_from_def)
    have "file_ok s1 C (dir_inode ?dir) i cs" using Suc.prems(1) same_fs_file_ok [OF b(2)] by simp
    moreover have "n = length ?es - Suc k" using Suc.hyps(2) by simp
    ultimately obtain s' k' where
      "readdir_loop True s1 ?dir = ret (case names_from ?es (Suc k) of [] \<Rightarrow> None | n # _ \<Rightarrow> Some n, ?dir\<lparr>dir_pos := int (20 * k')\<rparr>, s')"
      "names_from ?es k' = tl (names_from ?es (Suc k))" "same_fs s1 s'" using Suc.hyps(1) [of s1 "Suc k" ?dir] es1 by auto
    moreover from this have "same_fs s s'" using same_fs_trans [OF b(2)] by simp
    ultimately show ?thesis using step names by (intro exI [of _ s'] exI [of _ k']) simp
  qed
qed

text \<open>
  \<open>dir_readdir\<close> delivers the names in use one at a time, in the order of the directory, each
  once, and then reports the end.
\<close>

theorem dir_readdir_correct:
  assumes "file_ok s C (dir_inode dir) i cs" and "dir_pos dir = int (20 * k)"
  shows "\<exists>r dir' s' k'. dir_readdir True s dir = ret (r, dir', s') \<and> same_fs s s' \<and>
    r = (case names_from (dir_entries s i cs) k of [] \<Rightarrow> None | n # _ \<Rightarrow> Some n) \<and>
    dir_inode dir' = dir_inode dir \<and> dir_pos dir' = int (20 * k') \<and>
    names_from (dir_entries s i cs) k' = tl (names_from (dir_entries s i cs) k)"
proof -
  from readdir_loop_ok [OF assms] obtain s' k' where
    "readdir_loop True s dir = ret (case names_from (dir_entries s i cs) k of [] \<Rightarrow> None | n # _ \<Rightarrow> Some n, dir\<lparr>dir_pos := int (20 * k')\<rparr>, s')"
    "names_from (dir_entries s i cs) k' = tl (names_from (dir_entries s i cs) k)" "same_fs s s'" by blast
  then show ?thesis by (intro exI [of _ "dir\<lparr>dir_pos := int (20 * k')\<rparr>"] exI) (auto simp: dir_readdir_def)
qed

section \<open>Removing entries\<close>

lemma erase_ok:
  assumes ok: "dir_ok es" and j: "j < length es" "is_named name (es ! j)"
  shows "dir_ok (es[j := (es ! j)\<lparr>in_use := False\<rparr>])"
    "dirmap (es[j := (es ! j)\<lparr>in_use := False\<rparr>]) = (dirmap es)(name := None)"
proof -
  let ?e = "es ! j" and ?pre = "take j es" and ?post = "drop (Suc j) es"
  have es: "es = ?pre @ ?e # ?post" using j(1) by (rule id_take_nth_drop)
  have up: "es[j := x] = ?pre @ x # ?post" for x using j(1) by (rule upd_conv_take_nth_drop)
  have named: "in_use ?e" "cstr (e_name ?e) = name" using j(2) by (auto simp: is_named_def)
  have "filter in_use es = filter in_use ?pre @ ?e # filter in_use ?post" by (subst es) (simp add: named)
  then have d: "distinct (map (\<lambda>e. cstr (e_name e)) (filter in_use ?pre @ ?e # filter in_use ?post))"
    using ok by (simp add: dir_ok_def)
  have z: "\<forall>x \<in> set ?pre \<union> set ?post. in_use x \<longrightarrow> 0 \<in> set (e_name x)"
    using ok set_take_subset [of j es] set_drop_subset [of "Suc j" es] by (auto simp: dir_ok_def)
  show "dir_ok (es[j := ?e\<lparr>in_use := False\<rparr>])" using d z by (auto simp: dir_ok_def up)
  have "\<not> is_named name x" if "x \<in> set ?pre \<union> set ?post" for x using that d by (auto simp: is_named_def named(2))
  then have "find (is_named name) ?pre = None" "find (is_named name) ?post = None" by (auto simp: find_None_iff)
  moreover have "find (is_named m) es = find (is_named m) (?pre @ ?post)" if "m \<noteq> name" for m
    by (subst es) (use that named in \<open>auto simp: find_app is_named_def split: option.splits\<close>)
  moreover have "\<not> is_named m (?e\<lparr>in_use := False\<rparr>)" for m by (simp add: is_named_def)
  ultimately show "dirmap (es[j := ?e\<lparr>in_use := False\<rparr>]) = (dirmap es)(name := None)"
    by (auto simp: fun_eq_iff dirmap_def up find_app split: option.splits)
qed

lemma found_at_named:
  assumes "found_at name es 0 = Some (e, ofs)"
  obtains j where "j < length es" "ofs = int (20 * j)" "es ! j = e" "is_named name (es ! j)"
  using assms by (auto simp: found_at_def find_Some_iff split: option.splits)

lemma inode_write_at_frame:
  assumes "inode_write_at mem s p buf sz ofs = ret (n, s')" and "inodes s p = Some i"
  shows "(\<exists>i'. inodes s' = (inodes s)(p \<mapsto> i')) \<and> open_inodes s' = open_inodes s"
  using assms
  by (auto simp: inode_write_at_def the_inode_def put_inode_def Let_def intro: fun_upd_idem [symmetric] split: if_splits prod.splits)

text \<open>The effect of \<open>dir_remove\<close>'s write on the directory.\<close>

lemma erase_write_ok:
  assumes f: "file_ok s C p i cs" and w: "writable s i cs (nat (inode_length i))" and ok: "dir_ok (dir_entries s i cs)"
    and r: "found_at name (dir_entries s i cs) 0 = Some (e, ofs)"
  shows "\<exists>s' i' ns. inode_write_at True s p (entry_bytes (e\<lparr>in_use := False\<rparr>)) 20 ofs = ret (20, s') \<and>
    file_ok s' (insert (cs @ ns) (C - {cs})) p i' (cs @ ns) \<and> data_start (fatfs s') = data_start (fatfs s) \<and>
    inodes s' = (inodes s)(p \<mapsto> i') \<and> open_inodes s' = open_inodes s \<and> dir_ok (dir_entries s' i' (cs @ ns)) \<and>
    dirmap (dir_entries s' i' (cs @ ns)) = (dirmap (dir_entries s i cs))(name := None)"
proof -
  let ?es = "dir_entries s i cs" and ?c = "file_content s i cs"
  from found_at_named [OF r] obtain j where j: "j < length ?es" "ofs = int (20 * j)" "?es ! j = e" "is_named name (?es ! j)" .
  have len: "20 * j + 20 \<le> nat (inode_length i)"
    using j(1) length_file_content [OF f] by (simp add: dir_entries_def length_entries)
  have "e = bytes_entry (take 20 (drop (20 * j) ?c))" using j nth_entries [of j ?c] by (simp add: dir_entries_def)
  then have nm: "length (e_name (e\<lparr>in_use := False\<rparr>)) = 15" using len length_file_content [OF f] by (simp add: bytes_entry_def)
  let ?b = "entry_bytes (e\<lparr>in_use := False\<rparr>)"
  have b: "length ?b = 20" "?b \<noteq> []" using length_entry_bytes [OF nm] by auto
  have "writable s i cs (20 * j + length ?b)" using w len b(1) f by (auto simp: writable_def file_ok_def)
  from inode_write_content [OF f this b(2)] len b(1) j(2) obtain s' i' ns where
    x: "inode_write_at True s p ?b 20 ofs = ret (20, s')" "file_ok s' (insert (cs @ ns) (C - {cs})) p i' (cs @ ns)"
      "data_start (fatfs s') = data_start (fatfs s)" "file_content s' i' (cs @ ns) = put_bytes ?c (20 * j) ?b" by auto
  have es': "dir_entries s' i' (cs @ ns) = ?es[j := e\<lparr>in_use := False\<rparr>]"
    using x(4) entries_put [OF _ nm, of j ?c] j(1) by (simp add: dir_entries_def)
  have "inodes s p = Some i" "inodes s' p = Some i'" using f x(2) by (auto simp: file_ok_def)
  then have "inodes s' = (inodes s)(p \<mapsto> i')" "open_inodes s' = open_inodes s" using inode_write_at_frame [OF x(1)] by auto
  then show ?thesis using x es' erase_ok [OF ok j(1,4)] j(3) by (metis (no_types))
qed

lemma inode_close_last:
  assumes C: "fat_chains (fatfs s) C" and p: "inodes s p = Some i" "p \<noteq> NULL" and "removed i" and "open_cnt i = 1"
    and "d_magic (i_data i) = INODE_MAGIC" and cs: "cs \<in> C" "d_start (i_data i) = hd cs"
    and own: "[sector_to_cluster (fatfs s) (i_sector i)] \<in> C" "cs \<noteq> [sector_to_cluster (fatfs s) (i_sector i)]"
  shows "\<exists>fs. inode_close s p = ret (s\<lparr>open_inodes := remove1 p (open_inodes s), fatfs := fs, inodes := (inodes s)(p := None)\<rparr>) \<and>
    fat_chains fs (C - {cs} - {[sector_to_cluster (fatfs s) (i_sector i)]}) \<and> data_start fs = data_start (fatfs s)"
proof -
  from fat_remove_chain_whole [OF C cs(1)] obtain fs1 where
    f1: "fat_remove_chain (fatfs s) (hd cs) 0 = ret fs1" "fat_chains fs1 (C - {cs})" "data_start fs1 = data_start (fatfs s)" by blast
  have "[sector_to_cluster (fatfs s) (i_sector i)] \<in> C - {cs}" using own by auto
  from fat_remove_chain_whole [OF f1(2) this] obtain fs2 where
    f2: "fat_remove_chain fs1 (sector_to_cluster (fatfs s) (i_sector i)) 0 = ret fs2"
      "fat_chains fs2 (C - {cs} - {[sector_to_cluster (fatfs s) (i_sector i)]})" "data_start fs2 = data_start fs1" by auto
  have "sector_to_cluster fs1 (i_sector i) = sector_to_cluster (fatfs s) (i_sector i)" using f1(3) by (simp add: sector_to_cluster_def)
  then show ?thesis
    using f1 f2 assms by (intro exI [of _ fs2]) (simp add: inode_close_def the_inode_def fat_release_def)
qed

lemma dir_remove_lookup:
  assumes "file_ok s C (dir_inode dir) i cs" and "dir_ok (dir_entries s i cs)" and "dirmap (dir_entries s i cs) name = Some sector"
  obtains e ofs s1 where "lookup True s dir name = ret (Some (e, ofs), s1)" "same_fs s s1" "e_sector e = sector"
    "found_at name (dir_entries s i cs) 0 = Some (e, ofs)"
proof -
  have z: "\<forall>e \<in> set (dir_entries s i cs). in_use e \<longrightarrow> 0 \<in> set (e_name e)" using assms(2) by (simp add: dir_ok_def)
  from lookup_loop_ok [OF assms(1) z, of name 0] obtain s1 where
    l: "lookup True s dir name = ret (found_at name (dir_entries s i cs) 0, s1)" "same_fs s s1" by (auto simp: lookup_def)
  obtain x where x: "found_at name (dir_entries s i cs) 0 = Some x"
    using assms(3) found_at_find(1) [of name "dir_entries s i cs"] by (fastforce simp: dirmap_def)
  moreover obtain e ofs where "x = (e, ofs)" by (cases x)
  ultimately show thesis
    using l that found_at_find(2) [of name "dir_entries s i cs" e ofs] assms(3) by (auto simp: dirmap_def)
qed


section \<open>A sample directory\<close>

definition sample_entry :: dir_entry where
  "sample_entry = \<lparr>e_sector = 4, e_name = 97 # replicate 14 0, in_use = True\<rparr>"

definition sample_target :: inode_disk where
  "sample_target = \<lparr>d_start = 5, d_length = 10, d_magic = INODE_MAGIC, isdir = False, unused = replicate 499 0\<rparr>"

definition sample_dir_inode :: inode where
  "sample_dir_inode = \<lparr>i_sector = 8, open_cnt = 1, removed = False, deny_write_cnt = 0,
     i_data = \<lparr>d_start = 2, d_length = 40, d_magic = INODE_MAGIC, isdir = True, unused = replicate 499 0\<rparr>\<rparr>"

text \<open>A directory of two slots on cluster 2: the name \<open>a\<close> for the inode in sector 4 (cluster 3), and a free slot.\<close>

definition sample_dir_fsys :: fsys where
  "sample_dir_fsys = \<lparr>fatfs = sample_fs\<lparr>fat := [0, EOChain, EOChain, EOChain, 0, EOChain, 0, EOChain]\<rparr>,
     filesys_disk = sample_disk\<lparr>sectors := (sectors sample_disk)
       (3 := entry_bytes sample_entry @ replicate 492 0, 4 := inode_disk_bytes sample_target)\<rparr>,
     inodes = [0x1000 \<mapsto> sample_dir_inode], open_inodes = [0x1000]\<rparr>"

definition sample_dir :: dir where
  "sample_dir = \<lparr>dir_inode = 0x1000, dir_pos = 0\<rparr>"

lemma small_u32: "unat (c :: u32) < 8 \<Longrightarrow> c \<noteq> 0 \<Longrightarrow> c \<in> {1, 2, 3, 4, 5, 6, 7}"
proof -
  assume "unat c < 8" "c \<noteq> 0"
  moreover from this have "unat c \<noteq> 0" by (simp add: unat_eq_zero)
  ultimately have "unat c = unat (1 :: u32) \<or> unat c = unat (2 :: u32) \<or> unat c = unat (3 :: u32) \<or>
      unat c = unat (4 :: u32) \<or> unat c = unat (5 :: u32) \<or> unat c = unat (6 :: u32) \<or> unat c = unat (7 :: u32)"
    by (simp, arith)
  then show ?thesis using u32_cong by blast
qed

lemma sample_dir_table: "in_table (fatfs sample_dir_fsys) c \<Longrightarrow> unat c < 8 \<and> c \<noteq> 0"
  by (simp add: in_table_def sample_fs_def sample_dir_fsys_def)

lemma sample_dir_chains: "fat_chains (fatfs sample_dir_fsys) {[1], [2], [3], [5], [7]}"
proof -
  let ?fs = "fatfs sample_dir_fsys"
  have "fat ?fs ! unat c \<noteq> 0 \<longleftrightarrow> (\<exists>cs \<in> {[1], [2], [3], [5], [7]}. c \<in> set cs)" if "in_table ?fs c" for c
    using sample_dir_table [OF that] small_u32 [of c] by (fastforce simp: sample_dir_fsys_def)
  then show ?thesis
    by (simp add: fat_chains_def) (simp add: fat_ok_def chain_def sample_dir_fsys_def sample_fs_def EOChain_def)
qed

lemma sample_dir_disk_wf: "disk_wf (filesys_disk sample_dir_fsys)"
  by (simp add: sample_dir_fsys_def sample_disk_def disk_wf_def DISK_SECTOR_SIZE_def length_inode_disk_bytes sample_target_def
    length_entry_bytes sample_entry_def)

lemma sample_dir_ok: "file_ok sample_dir_fsys {[1], [2], [3], [5], [7]} (dir_inode sample_dir) sample_dir_inode [2]"
proof -
  have "cluster_to_sector (fatfs sample_dir_fsys) c < capacity (filesys_disk sample_dir_fsys)" if "in_table (fatfs sample_dir_fsys) c" for c
  proof -
    have "unat (1 + c) = 1 + unat c" using sample_dir_table [OF that] by (intro unat_1_plus) simp
    then show ?thesis
      using sample_dir_table [OF that] by (simp add: cluster_to_sector_def sample_dir_fsys_def sample_fs_def sample_disk_def word_less_nat_alt)
  qed
  then show ?thesis
    using sample_dir_chains sample_dir_disk_wf
    by (simp add: file_ok_def clusters_on_disk_def)
      (simp add: sample_dir_def sample_dir_fsys_def sample_dir_inode_def sample_disk_def sample_fs_def inode_length_def sector_to_cluster_def)
qed

lemma sample_dir_entries:
  "dir_entries sample_dir_fsys sample_dir_inode [2] = [sample_entry, \<lparr>e_sector = 0, e_name = replicate 15 0, in_use = False\<rparr>]"
proof -
  have "file_content sample_dir_fsys sample_dir_inode [2] = entry_bytes sample_entry @ replicate 20 0"
    by (simp add: file_content_def content_def sample_dir_inode_def sample_dir_fsys_def cluster_to_sector_def sample_fs_def
      length_entry_bytes sample_entry_def)
  moreover have "20 dvd length (entry_bytes sample_entry)" "length (e_name sample_entry) = 15"
    by (simp_all add: length_entry_bytes sample_entry_def)
  moreover have "entries (replicate 20 0) = [\<lparr>e_sector = 0, e_name = replicate 15 0, in_use = False\<rparr>]"
    by (simp add: entries.simps bytes_entry_def eval_nat_numeral)
  ultimately show ?thesis by (simp add: dir_entries_def entries_append entries_single)
qed

lemma sample_dir_names: "dir_ok (dir_entries sample_dir_fsys sample_dir_inode [2])"
  "dirmap (dir_entries sample_dir_fsys sample_dir_inode [2]) [97] = Some 4"
  "dirmap (dir_entries sample_dir_fsys sample_dir_inode [2]) [98] = None"
  by (simp_all add: sample_dir_entries dir_ok_def sample_entry_def dirmap_def is_named_def cstr_def)

lemma sample_dir_writable: "e \<le> 40 \<Longrightarrow> writable sample_dir_fsys sample_dir_inode [2] e"
  by (simp add: writable_def sample_dir_inode_def sample_dir_fsys_def fat_safe_def sample_fs_def inode_length_def)

theorem dir_lookup_correct_witness:
  "\<exists>e ofs s'. lookup True sample_dir_fsys sample_dir [97] = ret (Some (e, ofs), s') \<and> e_sector e = 4"
  using dir_lookup_correct [OF sample_dir_ok sample_dir_names(1), of "[97]"] by (auto simp: sample_dir_names)


theorem dir_readdir_correct_witness:
  "\<exists>dir' s'. dir_readdir True sample_dir_fsys sample_dir = ret (Some [97], dir', s')"
  using dir_readdir_correct [OF sample_dir_ok, of 0]
  by (auto simp: sample_dir_def names_from_def sample_dir_entries sample_entry_def cstr_def)


end
