(* ===== verification/File.thy ===== *)
theory File
  imports Directory
begin

text \<open>
  Open files, \<open>filesys/file.c\<close>: an inode with a position, a flag that this file denies writes to the
  inode, and the count of descriptors that share it. A \<open>struct file\<close> is passed by value and returned
  when it changes; \<open>None\<close> is the null pointer. The lemmas show that reading and writing move the
  position by the bytes transferred, and that a file that denies writes protects its inode.
\<close>

record open_file =
  f_inode :: ptr
  f_pos :: off_t
  deny_write :: bool
  dup_count :: int

definition increase_dup_count :: "open_file \<Rightarrow> open_file" where
  "increase_dup_count f = f\<lparr>dup_count := int32 (dup_count f + 1)\<rparr>"

definition decrease_dup_count :: "open_file \<Rightarrow> open_file" where
  "decrease_dup_count f = f\<lparr>dup_count := int32 (dup_count f - 1)\<rparr>"

definition check_dup_count :: "open_file \<Rightarrow> int" where
  "check_dup_count f = dup_count f"

definition file_open :: "bool \<Rightarrow> fsys \<Rightarrow> ptr \<Rightarrow> (open_file option \<times> fsys) exec" where
  "file_open mem s inode =
     (if inode \<noteq> NULL \<and> mem then ret (Some \<lparr>f_inode = inode, f_pos = 0, deny_write = False, dup_count = 1\<rparr>, s)
      else bindE (inode_close s inode) (\<lambda>s. ret (None, s)))"

definition file_reopen :: "bool \<Rightarrow> fsys \<Rightarrow> open_file \<Rightarrow> (open_file option \<times> fsys) exec" where
  "file_reopen mem s f = bindE (inode_reopen s (f_inode f)) (\<lambda>s. file_open mem s (f_inode f))"

definition file_deny_write :: "fsys \<Rightarrow> open_file \<Rightarrow> (open_file \<times> fsys) exec" where
  "file_deny_write s f =
     (if \<not> deny_write f then bindE (inode_deny_write s (f_inode f)) (\<lambda>s. ret (f\<lparr>deny_write := True\<rparr>, s)) else ret (f, s))"

definition file_allow_write :: "fsys \<Rightarrow> open_file \<Rightarrow> (open_file \<times> fsys) exec" where
  "file_allow_write s f =
     (if deny_write f then bindE (inode_allow_write s (f_inode f)) (\<lambda>s. ret (f\<lparr>deny_write := False\<rparr>, s)) else ret (f, s))"

definition file_duplicate :: "bool \<Rightarrow> fsys \<Rightarrow> open_file \<Rightarrow> (open_file option \<times> fsys) exec" where
  "file_duplicate mem s f =
     bindE (inode_reopen s (f_inode f)) (\<lambda>s.
     bindE (file_open mem s (f_inode f)) (\<lambda>(nfile, s).
     case nfile of
       None \<Rightarrow> ret (None, s)
     | Some n \<Rightarrow>
         let n = n\<lparr>f_pos := f_pos f\<rparr> in
         if deny_write f then bindE (file_deny_write s n) (\<lambda>(n, s). ret (Some n, s)) else ret (Some n, s)))"

definition file_close :: "fsys \<Rightarrow> open_file option \<Rightarrow> fsys exec" where
  "file_close s f =
     (case f of None \<Rightarrow> ret s
      | Some f \<Rightarrow> bindE (file_allow_write s f) (\<lambda>(f, s). inode_close s (f_inode f)))"

definition file_get_inode :: "open_file \<Rightarrow> ptr" where
  "file_get_inode f = f_inode f"

text \<open>The bytes \<open>file_read\<close> stores in the buffer; it returns their number.\<close>

definition file_read :: "bool \<Rightarrow> fsys \<Rightarrow> open_file \<Rightarrow> off_t \<Rightarrow> (u8 list \<times> open_file \<times> fsys) exec" where
  "file_read mem s f sz =
     bindE (inode_read_at mem s (f_inode f) sz (f_pos f)) (\<lambda>(bytes, s).
     ret (bytes, f\<lparr>f_pos := int32 (f_pos f + int (length bytes))\<rparr>, s))"

definition file_read_at :: "bool \<Rightarrow> fsys \<Rightarrow> open_file \<Rightarrow> off_t \<Rightarrow> off_t \<Rightarrow> (u8 list \<times> fsys) exec" where
  "file_read_at mem s f sz ofs = inode_read_at mem s (f_inode f) sz ofs"

definition file_write :: "bool \<Rightarrow> fsys \<Rightarrow> open_file \<Rightarrow> u8 list \<Rightarrow> off_t \<Rightarrow> (off_t \<times> open_file \<times> fsys) exec" where
  "file_write mem s f buf sz =
     bindE (inode_write_at mem s (f_inode f) buf sz (f_pos f)) (\<lambda>(n, s).
     ret (n, f\<lparr>f_pos := int32 (f_pos f + n)\<rparr>, s))"

definition file_write_at :: "bool \<Rightarrow> fsys \<Rightarrow> open_file \<Rightarrow> u8 list \<Rightarrow> off_t \<Rightarrow> off_t \<Rightarrow> (off_t \<times> fsys) exec" where
  "file_write_at mem s f buf sz ofs = inode_write_at mem s (f_inode f) buf sz ofs"

definition file_length :: "fsys \<Rightarrow> open_file \<Rightarrow> off_t exec" where
  "file_length s f = bindE (the_inode s (f_inode f)) (\<lambda>i. ret (inode_length i))"

definition file_seek :: "open_file \<Rightarrow> off_t \<Rightarrow> open_file exec" where
  "file_seek f new_pos = ASSERT (new_pos \<ge> 0) (ret (f\<lparr>f_pos := new_pos\<rparr>))"

definition file_tell :: "open_file \<Rightarrow> off_t" where
  "file_tell f = f_pos f"

definition is_file_dir :: "fsys \<Rightarrow> open_file \<Rightarrow> bool exec" where
  "is_file_dir s f = bindE (the_inode s (f_inode f)) (\<lambda>i. ret (is_dir i))"

definition get_file_inode_num :: "fsys \<Rightarrow> open_file \<Rightarrow> disk_sector_t exec" where
  "get_file_inode_num s f = bindE (the_inode s (f_inode f)) (\<lambda>i. ret (get_inode_sector i))"

definition file_to_dir :: "bool \<Rightarrow> fsys \<Rightarrow> open_file \<Rightarrow> (dir option \<times> fsys) exec" where
  "file_to_dir mem s f = dir_open mem s (f_inode f)"

section \<open>Properties\<close>

text \<open>
  A file is a tape: \<open>file_write\<close> at the position of the file stores the bytes there and moves the
  position behind them; after \<open>file_seek\<close> back, \<open>file_read\<close> returns the same bytes and ends at the
  same position.
\<close>

theorem file_write_seek_read:
  assumes f: "file_ok s C (f_inode f) i cs" and "deny_write_cnt i = 0" and "fat_safe (fatfs s)"
    and "buf \<noteq> []" and p: "f_pos f = int o'" and e: "o' + length buf < 2 ^ 31"
    and "inode_length i = 0 \<or> nat (inode_length i) mod 512 \<noteq> 0 \<or> o' + length buf \<le> nat (inode_length i)"
    and "ROOT_DIR_CLUSTER \<notin> set cs \<or> o' + length buf \<le> 512 * length cs"
    and "o' + length buf \<le> nat (inode_length i) \<or> (o' + length buf + 511) div 512 - length cs < card (free_clusters (fatfs s))"
  shows "\<exists>f1 s1 f2 s2. file_write True s f buf (int (length buf)) = ret (int (length buf), f1, s1) \<and>
    file_tell f1 = int (o' + length buf) \<and> file_seek f1 (int o') = ret f \<and>
    file_read True s1 f (int (length buf)) = ret (buf, f2, s2) \<and> file_tell f2 = int (o' + length buf)"
proof -
  from inode_write_read_ok [OF f assms(2-4) e assms(7-9)] obtain s1 s2 where
    x: "inode_write_at True s (f_inode f) buf (int (length buf)) (int o') = ret (int (length buf), s1)"
      "inode_read_at True s1 (f_inode f) (int (length buf)) (int o') = ret (buf, s2)" by blast
  have i: "int32 (int o' + int (length buf)) = int (o' + length buf)" using e by (subst int32_id) (auto simp: in_int32_def)
  have "f\<lparr>f_pos := int o'\<rparr> = f" using p by simp
  then show ?thesis using x i p by (simp add: file_write_def file_read_def file_seek_def file_tell_def)
qed

theorem file_write_seek_read_witness:
  "\<exists>f1 s1 f2 s2. file_write True sample_fsys \<lparr>f_inode = 0x1000, f_pos = 900, deny_write = False, dup_count = 1\<rparr> [7, 8, 9] 3 = ret (3, f1, s1) \<and>
     file_tell f1 = 903 \<and> file_seek f1 900 = ret \<lparr>f_inode = 0x1000, f_pos = 900, deny_write = False, dup_count = 1\<rparr> \<and>
     file_read True s1 \<lparr>f_inode = 0x1000, f_pos = 900, deny_write = False, dup_count = 1\<rparr> 3 = ret ([7, 8, 9], f2, s2)"
  using file_write_seek_read [where f = "\<lparr>f_inode = 0x1000, f_pos = 900, deny_write = False, dup_count = 1\<rparr>" and buf = "[7, 8, 9]" and o' = 900,
      simplified, OF sample_file_ok sample_writable(1,2)] sample_writable(3,4,5) by fastforce

text \<open>
  A running program's file is safe from writes: after \<open>file_deny_write\<close> every \<open>file_write\<close> to the
  inode, through whatever file, writes nothing; a duplicate of the denying file denies too, and
  closing the duplicate and allowing writes again restores the state exactly.
\<close>

theorem file_deny_write_protects:
  assumes i: "inodes s (f_inode f) = Some i" "f_inode f \<noteq> NULL" "is_good_inode i" and "\<not> deny_write f"
    and c: "0 \<le> deny_write_cnt i" "deny_write_cnt i < open_cnt i"
  shows "\<exists>f1 s1 g s2. file_deny_write s f = ret (f1, s1) \<and>
    (\<forall>h buf sz. f_inode h = f_inode f \<and> in_int32 (f_pos h) \<longrightarrow> file_write True s1 h buf sz = ret (0, h, s1)) \<and>
    file_duplicate True s1 f1 = ret (Some g, s2) \<and> deny_write g \<and> f_pos g = f_pos f \<and>
    file_close s2 (Some g) = ret s1 \<and> file_allow_write s1 f1 = ret (f, s)"
proof -
  define p where "p = f_inode f"
  define i1 where "i1 = i\<lparr>deny_write_cnt := deny_write_cnt i + 1\<rparr>"
  define s1 where "s1 = put_inode s p i1"
  define i2 where "i2 = i1\<lparr>open_cnt := open_cnt i1 + 1, deny_write_cnt := deny_write_cnt i1 + 1\<rparr>"
  let ?f = "f\<lparr>deny_write := True\<rparr>" and ?g = "\<lparr>f_inode = p, f_pos = f_pos f, deny_write = True, dup_count = 1\<rparr>"
  have id: "f\<lparr>deny_write := False\<rparr> = f" using assms(4) by simp
  have t: "the_inode s p = ret i" "the_inode (put_inode u p j) p = ret j" for u j using i(1) by (simp_all add: p_def the_inode_def put_inode_def)
  have pp: "put_inode (put_inode u p j) p k = put_inode u p k" for u j k by (simp add: put_inode_def)
  have s0: "put_inode s p i = s" using i(1) by (simp add: put_inode_def p_def fun_upd_idem)
  have "file_deny_write s f = ret (?f, s1)"
    using assms(4) c t(1) by (simp add: file_deny_write_def inode_deny_write_def p_def [symmetric] s1_def i1_def)
  moreover have "file_write True s1 h buf sz = ret (0, h, s1)" if "f_inode h = f_inode f" "in_int32 (f_pos h)" for h buf sz
    using that c t(2) by (simp add: file_write_def inode_write_at_def p_def [symmetric] s1_def i1_def)
  moreover have "file_duplicate True s1 ?f = ret (Some ?g, put_inode s p i2)"
    using i(2) c t(2) by (simp add: file_duplicate_def inode_reopen_def file_open_def file_deny_write_def inode_deny_write_def Let_def
        p_def [symmetric] s1_def i1_def i2_def pp)
  moreover have "file_close (put_inode s p i2) (Some ?g) = ret s1"
    using i(2,3) c t(2) by (simp add: file_close_def file_allow_write_def inode_allow_write_def inode_close_def is_good_inode_def
        p_def [symmetric] s1_def i1_def i2_def pp add.commute)
  moreover have "file_allow_write s1 ?f = ret (f, s)"
    using c t(2) id s0 by (simp add: file_allow_write_def inode_allow_write_def p_def [symmetric] s1_def i1_def pp)
  ultimately show ?thesis by fastforce
qed

theorem file_deny_write_protects_witness:
  "\<exists>f1 s1. file_deny_write sample_fsys \<lparr>f_inode = 0x1000, f_pos = 0, deny_write = False, dup_count = 1\<rparr> = ret (f1, s1) \<and>
     file_write True s1 \<lparr>f_inode = 0x1000, f_pos = 5, deny_write = False, dup_count = 1\<rparr> [1] 1 =
       ret (0, \<lparr>f_inode = 0x1000, f_pos = 5, deny_write = False, dup_count = 1\<rparr>, s1)"
  using file_deny_write_protects [of sample_fsys "\<lparr>f_inode = 0x1000, f_pos = 0, deny_write = False, dup_count = 1\<rparr>" sample_inode]
  by (fastforce simp: sample_fsys_def sample_inode_def is_good_inode_def in_int32_def)

end
