(* ===== verification/Vm.thy ===== *)
theory Vm
  imports Spt Pmem File
begin

unbundle bit_operations_syntax

text \<open>
  Virtual memory: \<open>vm/vm.c\<close>, \<open>vm/uninit.c\<close>, \<open>vm/anon.c\<close> and \<open>vm/file.c\<close> with \<open>lazy_load_segment\<close> of
  \<open>userprog/process.c\<close>, for one running process. Pages and frames are objects at addresses; a freed
  object is no longer there. The union of \<open>struct page\<close> is kept as its five 8-byte words, so that
  reading a member that was not the last one stored gives what the layout gives. The frame table is
  the list of its frames, and the swap table and swap disk are those of \<open>Bitmap\<close> and \<open>Disk\<close>.
\<close>

section \<open>Objects\<close>

datatype page_operations = uninit_ops | anon_ops | file_ops

record page =
  operations :: page_operations
  p_va :: ptr
  p_frame :: ptr
  writable :: bool
  is_swap :: bool
  w0 :: u64
  w1 :: u64
  w2 :: u64
  w3 :: u64
  w4 :: u64

record frame =
  kva :: ptr
  ref_cnt :: int
  f_page :: ptr

record lazy_load_info =
  l_file :: ptr
  l_offset :: off_t
  readbyte :: size_t
  zerobyte :: size_t

record mmap_info =
  mi_info :: ptr
  mi_count :: int

definition VM_UNINIT :: u32 where "VM_UNINIT = 0"
definition VM_ANON :: u32 where "VM_ANON = 1"
definition VM_FILE :: u32 where "VM_FILE = 2"
definition VM_MMAP :: u32 where "VM_MMAP = 4"
definition VM_TYPE :: "u32 \<Rightarrow> u32" where "VM_TYPE type = type AND 7"

fun op_type :: "page_operations \<Rightarrow> u32" where
  "op_type uninit_ops = VM_UNINIT" | "op_type anon_ops = VM_ANON" | "op_type file_ops = VM_FILE"

text \<open>
  The members of the union. \<open>uninit\<close>: \<open>init\<close>, \<open>type\<close>, \<open>aux\<close>, \<open>page_initializer\<close>; \<open>anon\<close>: \<open>swap_idx\<close>; \<open>file\<close>:
  \<open>mapping_count\<close>, \<open>file\<close>, \<open>offset\<close>, \<open>read_byte\<close>, \<open>zero_byte\<close>. A 4-byte member is the low half of its word.
\<close>

definition set_lo :: "u64 \<Rightarrow> u32 \<Rightarrow> u64" where
  "set_lo w v = (w AND 0xFFFFFFFF00000000) OR ucast v"

definition lo_int :: "u64 \<Rightarrow> int" where
  "lo_int w = sint (ucast w :: u32)"

abbreviation u_type :: "page \<Rightarrow> u32" where "u_type p \<equiv> ucast (w1 p)"
abbreviation swap_idx :: "page \<Rightarrow> int" where "swap_idx p \<equiv> lo_int (w0 p)"
abbreviation mapping_count :: "page \<Rightarrow> int" where "mapping_count p \<equiv> lo_int (w0 p)"
abbreviation fp_file :: "page \<Rightarrow> ptr" where "fp_file p \<equiv> w1 p"
abbreviation fp_offset :: "page \<Rightarrow> off_t" where "fp_offset p \<equiv> lo_int (w2 p)"

section \<open>The state\<close>

text \<open>The addresses the linker gives to the functions that pages store.\<close>

record symbols =
  sym_lazy_load_segment :: ptr
  sym_anon_initializer :: ptr
  sym_file_backed_initializer :: ptr

text \<open>A position of the clock hand in the frame table.\<close>

datatype clock = Clock_null | Clock_at ptr | Clock_end

text \<open>
  \<open>heap\<close> is what the next calls of \<open>malloc\<close> return, \<open>NULL\<close> when there is no memory; \<open>mem\<close>: the allocations
  inside the hash table and the file system succeed. \<open>pml4\<close>, \<open>spt\<close> and \<open>user_rsp\<close> are those of the
  running thread.
\<close>

record vmst =
  ph :: phys
  base_pml4 :: ptr
  pml4 :: ptr
  spt_tab :: spt
  user_rsp :: u64
  pages :: "ptr \<Rightarrow> page option"
  frames :: "ptr \<Rightarrow> frame option"
  infos :: "ptr \<Rightarrow> lazy_load_info option"
  mmap_infos :: "ptr \<Rightarrow> mmap_info option"
  files :: "ptr \<Rightarrow> open_file option"
  frame_table :: "ptr list"
  clock_start :: clock
  swap_table :: bitmap
  swap_disk :: disk
  fsystem :: fsys
  heap :: "ptr list"
  mem :: bool
  syms :: symbols

definition the_obj :: "(ptr \<Rightarrow> 'a option) \<Rightarrow> ptr \<Rightarrow> 'a exec" where
  "the_obj m p = (case m p of None \<Rightarrow> fail Null_deref | Some x \<Rightarrow> ret x)"

abbreviation the_page :: "vmst \<Rightarrow> ptr \<Rightarrow> page exec" where "the_page s p \<equiv> the_obj (pages s) p"
abbreviation the_frame :: "vmst \<Rightarrow> ptr \<Rightarrow> frame exec" where "the_frame s p \<equiv> the_obj (frames s) p"
abbreviation the_file :: "vmst \<Rightarrow> ptr \<Rightarrow> open_file exec" where "the_file s p \<equiv> the_obj (files s) p"

definition put_page :: "vmst \<Rightarrow> ptr \<Rightarrow> page \<Rightarrow> vmst" where
  "put_page s p pg = s\<lparr>pages := (pages s)(p \<mapsto> pg)\<rparr>"

definition put_frame :: "vmst \<Rightarrow> ptr \<Rightarrow> frame \<Rightarrow> vmst" where
  "put_frame s p fr = s\<lparr>frames := (frames s)(p \<mapsto> fr)\<rparr>"

fun malloc :: "vmst \<Rightarrow> ptr \<times> vmst" where
  "malloc s = (case heap s of [] \<Rightarrow> (NULL, s) | p # ps \<Rightarrow> (p, s\<lparr>heap := ps\<rparr>))"

definition free_obj :: "vmst \<Rightarrow> ptr \<Rightarrow> vmst" where
  "free_obj s p = s\<lparr>pages := (pages s)(p := None), frames := (frames s)(p := None),
     infos := (infos s)(p := None), mmap_infos := (mmap_infos s)(p := None)\<rparr>"

definition off_of_size :: "size_t \<Rightarrow> off_t" where
  "off_of_size n = int32 (uint n)"

section \<open>Anonymous pages\<close>

text \<open>\<open>m1\<close> and \<open>m2\<close>: the memory for the bitmap. The disk is missing when \<open>disk_get\<close> returns null.\<close>

definition vm_anon_init :: "bool \<Rightarrow> u64 list option \<Rightarrow> disk option \<Rightarrow> (bitmap option \<times> disk) exec" where
  "vm_anon_init m1 m2 dsk =
     (case dsk of None \<Rightarrow> fail Panicked
      | Some d \<Rightarrow> bindE (bitmap_create m1 m2 (ucast (disk_size d div 8))) (\<lambda>b. ret (b, d)))"

definition anon_initializer :: "vmst \<Rightarrow> ptr \<Rightarrow> u32 \<Rightarrow> ptr \<Rightarrow> (bool \<times> vmst) exec" where
  "anon_initializer s p type kv =
     (if p = NULL then ret (False, s)
      else bindE (the_page s p) (\<lambda>pg.
        let pg = pg\<lparr>operations := anon_ops, w0 := set_lo (w0 pg) (- 1)\<rparr>; s = put_page s p pg in
        if kv \<noteq> NULL then
          bindE (the_frame s (p_frame pg)) (\<lambda>fr.
          ret (True, if ref_cnt fr \<le> 1 then s\<lparr>ph := (ph s)\<lparr>cells := fill_cells (cells (ph s)) kv PGSIZE 0\<rparr>\<rparr> else s))
        else ret (True, s)))"

text \<open>The loops over the eight sectors of a page; \<open>first\<close> is the product that is converted to a sector number.\<close>

fun swap_read :: "disk \<Rightarrow> phys \<Rightarrow> u32 \<Rightarrow> ptr \<Rightarrow> nat list \<Rightarrow> (phys \<times> disk) exec" where
  "swap_read d m first kv [] = ret (m, d)"
| "swap_read d m first kv (i # is) =
     bindE (disk_read d (first + of_nat i)) (\<lambda>(bytes, d).
     swap_read d (put_mem m (kv + 512 * of_nat i) bytes) first kv is)"

fun swap_write :: "disk \<Rightarrow> phys \<Rightarrow> u32 \<Rightarrow> ptr \<Rightarrow> nat list \<Rightarrow> disk exec" where
  "swap_write d m first kv [] = ret d"
| "swap_write d m first kv (i # is) =
     bindE (disk_write d (first + of_nat i) (get_mem m (kv + 512 * of_nat i) 512)) (\<lambda>d. swap_write d m first kv is)"

definition anon_swap_in :: "vmst \<Rightarrow> ptr \<Rightarrow> ptr \<Rightarrow> (bool \<times> vmst) exec" where
  "anon_swap_in s p kv =
     bindE (the_page s p) (\<lambda>pg.
     if swap_idx pg < 0 then ret (False, s)
     else
       bindE (swap_read (swap_disk s) (ph s) (word_of_int (swap_idx pg) * 8) kv [0..<8]) (\<lambda>(m, d).
       bindE (bitmap_reset (swap_table s) (word_of_int (swap_idx pg))) (\<lambda>b.
       ret (True, put_page (s\<lparr>ph := m, swap_disk := d, swap_table := b\<rparr>) p (pg\<lparr>w0 := set_lo (w0 pg) (- 1)\<rparr>)))))"

definition anon_swap_out :: "vmst \<Rightarrow> ptr \<Rightarrow> (bool \<times> vmst) exec" where
  "anon_swap_out s p =
     (if p = NULL then ret (False, s)
      else
        bindE (bitmap_scan_and_flip (swap_table s) 0 1 False) (\<lambda>(idx, b).
        let s = s\<lparr>swap_table := b\<rparr> in
        if idx = BITMAP_ERROR then bindE (bitmap_test (swap_table s) idx) (\<lambda>t. ASSERT (\<not> t) (ret (False, s)))
        else
          bindE (the_page s p) (\<lambda>pg.
          bindE (the_frame s (p_frame pg)) (\<lambda>fr.
          bindE (swap_write (swap_disk s) (ph s) (ucast (idx * 8)) (kva fr) [0..<8]) (\<lambda>d.
          let s = put_frame (s\<lparr>swap_disk := d\<rparr>) (p_frame pg) (fr\<lparr>f_page := NULL\<rparr>) in
          ret (True, put_page s p (pg\<lparr>p_frame := NULL, w0 := set_lo (w0 pg) (ucast idx)\<rparr>)))))))"

definition anon_destroy :: "vmst \<Rightarrow> ptr \<Rightarrow> vmst exec" where
  "anon_destroy s p =
     bindE (the_page s p) (\<lambda>pg.
     bindE (pml4_clear_page (ph s) (pml4 s) (p_va pg)) (\<lambda>m.
     let s = s\<lparr>ph := m\<rparr> in
     if swap_idx pg < 0 then ret s
     else bindE (bitmap_reset (swap_table s) (word_of_int (swap_idx pg))) (\<lambda>b. ret (s\<lparr>swap_table := b\<rparr>))))"

section \<open>File-backed pages\<close>

definition file_backed_initializer :: "vmst \<Rightarrow> ptr \<Rightarrow> u32 \<Rightarrow> ptr \<Rightarrow> (bool \<times> vmst) exec" where
  "file_backed_initializer s p type kv =
     bindE (the_page s p) (\<lambda>pg.
     bindE (the_obj (mmap_infos s) (w2 pg)) (\<lambda>mi.
     bindE (the_obj (infos s) (mi_info mi)) (\<lambda>info.
     ret (True, put_page s p (pg\<lparr>operations := file_ops, w0 := set_lo (w0 pg) (word_of_int (mi_count mi)), w1 := l_file info,
       w2 := set_lo (w2 pg) (word_of_int (l_offset info)), w3 := readbyte info, w4 := zerobyte info\<rparr>)))))"

text \<open>
  What \<open>file_backed_swap_in\<close> and \<open>lazy_load_segment\<close> share: the bytes of the file go to the page, and the rest
  of the page is cleared when as many bytes came as were asked for.
\<close>

definition read_into_page :: "vmst \<Rightarrow> ptr \<Rightarrow> ptr \<Rightarrow> size_t \<Rightarrow> size_t \<Rightarrow> off_t \<Rightarrow> (bool \<times> vmst) exec" where
  "read_into_page s kv f nread nzero ofs =
     bindE (the_file s f) (\<lambda>fl.
     bindE (file_read_at (mem s) (fsystem s) fl (off_of_size nread) ofs) (\<lambda>(bytes, fs).
     let s = s\<lparr>ph := put_mem (ph s) kv bytes, fsystem := fs\<rparr> in
     if int (length bytes) \<noteq> off_of_size nread then ret (False, s)
     else ret (True, s\<lparr>ph := put_mem (ph s) (kv + nread) (replicate (unat nzero) 0)\<rparr>)))"

definition file_backed_swap_in :: "vmst \<Rightarrow> ptr \<Rightarrow> ptr \<Rightarrow> (bool \<times> vmst) exec" where
  "file_backed_swap_in s p kv =
     bindE (the_page s p) (\<lambda>pg. read_into_page s kv (fp_file pg) (w3 pg) (w4 pg) (fp_offset pg))"

text \<open>Writing a dirty page back; it returns the number of bytes written.\<close>

definition write_back :: "vmst \<Rightarrow> page \<Rightarrow> (off_t \<times> vmst) exec" where
  "write_back s pg =
     bindE (the_file s (fp_file pg)) (\<lambda>fl.
     bindE (the_frame s (p_frame pg)) (\<lambda>fr.
     bindE (file_write_at (mem s) (fsystem s) fl (get_mem (ph s) (kva fr) 4096) (off_of_size (w3 pg)) (fp_offset pg)) (\<lambda>(n, fs).
     ret (n, s\<lparr>fsystem := fs\<rparr>))))"

definition file_backed_swap_out :: "vmst \<Rightarrow> ptr \<Rightarrow> (bool \<times> vmst) exec" where
  "file_backed_swap_out s p =
     bindE (the_page s p) (\<lambda>pg.
     bindE (pml4_is_dirty (ph s) (pml4 s) (p_va pg)) (\<lambda>dirty.
     bindE (if dirty then
              bindE (write_back s pg) (\<lambda>(n, s).
              if n \<noteq> off_of_size (w3 pg) then ret (False, s)
              else bindE (pml4_set_dirty (ph s) (pml4 s) (p_va pg) False) (\<lambda>m. ret (True, s\<lparr>ph := m\<rparr>)))
            else ret (True, s)) (\<lambda>(ok, s).
     if \<not> ok then ret (False, s)
     else
       bindE (the_frame s (p_frame pg)) (\<lambda>fr.
       ret (True, put_page (put_frame s (p_frame pg) (fr\<lparr>f_page := NULL\<rparr>)) p (pg\<lparr>p_frame := NULL\<rparr>))))))"

definition file_backed_destroy :: "vmst \<Rightarrow> ptr \<Rightarrow> vmst exec" where
  "file_backed_destroy s p =
     bindE (the_page s p) (\<lambda>pg.
     bindE (the_file s (fp_file pg)) (\<lambda>fl.
     bindE (file_allow_write (fsystem s) fl) (\<lambda>(fl, fs).
     let s = s\<lparr>fsystem := fs, files := (files s)(fp_file pg \<mapsto> fl)\<rparr> in
     bindE (pml4_is_dirty (ph s) (pml4 s) (p_va pg)) (\<lambda>dirty.
     bindE (if dirty then
              bindE (write_back s pg) (\<lambda>(n, s).
              ASSERT (word_of_int n = w3 pg) (
              bindE (pml4_set_dirty (ph s) (pml4 s) (p_va pg) False) (\<lambda>m. ret (s\<lparr>ph := m\<rparr>))))
            else ret s) (\<lambda>s.
     bindE (if p_frame pg = NULL then ret s
            else bindE (the_frame s (p_frame pg)) (\<lambda>fr.
              if ref_cnt fr < 1 then
                bindE (palloc_free_page (ph s) (kva fr)) (\<lambda>m.
                ret (put_page (free_obj (s\<lparr>ph := m\<rparr>) (p_frame pg)) p (pg\<lparr>p_frame := NULL\<rparr>)))
              else ret s)) (\<lambda>s.
     bindE (pml4_clear_page (ph s) (pml4 s) (p_va pg)) (\<lambda>m. ret (s\<lparr>ph := m\<rparr>))))))))"

section \<open>Uninitialized pages\<close>

text \<open>The bytes of the union that the initializer does not name are zero.\<close>

definition uninit_new :: "vmst \<Rightarrow> ptr \<Rightarrow> ptr \<Rightarrow> ptr \<Rightarrow> u32 \<Rightarrow> ptr \<Rightarrow> ptr \<Rightarrow> vmst exec" where
  "uninit_new s p va init type aux initializer =
     ASSERT (p \<noteq> NULL) (ret (put_page s p
       \<lparr>operations = uninit_ops, p_va = va, p_frame = NULL, writable = False, is_swap = False,
        w0 = init, w1 = ucast type, w2 = aux, w3 = initializer, w4 = 0\<rparr>))"

definition lazy_load_segment :: "vmst \<Rightarrow> ptr \<Rightarrow> ptr \<Rightarrow> (bool \<times> vmst) exec" where
  "lazy_load_segment s p aux =
     bindE (the_obj (infos s) aux) (\<lambda>info.
     bindE (the_page s p) (\<lambda>pg.
     bindE (the_frame s (p_frame pg)) (\<lambda>fr.
     bindE (read_into_page s (kva fr) (l_file info) (readbyte info) (zerobyte info) (l_offset info)) (\<lambda>(ok, s).
     ret (ok, if ok then free_obj s aux else s)))))"

text \<open>Calls through the stored function pointers.\<close>

definition call_page_initializer :: "vmst \<Rightarrow> ptr \<Rightarrow> ptr \<Rightarrow> u32 \<Rightarrow> ptr \<Rightarrow> (bool \<times> vmst) exec" where
  "call_page_initializer s f p type kv =
     (if f = sym_anon_initializer (syms s) then anon_initializer s p type kv
      else if f = sym_file_backed_initializer (syms s) then file_backed_initializer s p type kv
      else fail Null_deref)"

definition call_init :: "vmst \<Rightarrow> ptr \<Rightarrow> ptr \<Rightarrow> ptr \<Rightarrow> (bool \<times> vmst) exec" where
  "call_init s f p aux =
     (if f = NULL then ret (True, s)
      else if f = sym_lazy_load_segment (syms s) then lazy_load_segment s p aux
      else fail Null_deref)"

definition uninit_initialize :: "vmst \<Rightarrow> ptr \<Rightarrow> ptr \<Rightarrow> (bool \<times> vmst) exec" where
  "uninit_initialize s p kv =
     bindE (the_page s p) (\<lambda>pg.
     bindE (if u_type pg = VM_MMAP \<or> u_type pg = VM_FILE
            then bindE (the_obj (mmap_infos s) (w2 pg)) (\<lambda>mi. ret (mi_info mi)) else ret (w2 pg)) (\<lambda>aux.
     bindE (call_page_initializer s (w3 pg) p (u_type pg) kv) (\<lambda>(ok, s).
     if ok then call_init s (w0 pg) p aux else ret (False, s))))"

definition uninit_destroy :: "vmst \<Rightarrow> ptr \<Rightarrow> vmst exec" where
  "uninit_destroy s p = bindE (the_page s p) (\<lambda>pg. ret (free_obj s (w2 pg)))"

section \<open>The operations of a page\<close>

definition swap_in :: "vmst \<Rightarrow> ptr \<Rightarrow> ptr \<Rightarrow> (bool \<times> vmst) exec" where
  "swap_in s p kv =
     bindE (the_page s p) (\<lambda>pg.
     case operations pg of
       uninit_ops \<Rightarrow> uninit_initialize s p kv
     | anon_ops \<Rightarrow> anon_swap_in s p kv
     | file_ops \<Rightarrow> file_backed_swap_in s p kv)"

definition swap_out :: "vmst \<Rightarrow> ptr \<Rightarrow> (bool \<times> vmst) exec" where
  "swap_out s p =
     bindE (the_page s p) (\<lambda>pg.
     case operations pg of
       uninit_ops \<Rightarrow> fail Null_deref
     | anon_ops \<Rightarrow> anon_swap_out s p
     | file_ops \<Rightarrow> file_backed_swap_out s p)"

definition destroy :: "vmst \<Rightarrow> ptr \<Rightarrow> vmst exec" where
  "destroy s p =
     bindE (the_page s p) (\<lambda>pg.
     case operations pg of
       uninit_ops \<Rightarrow> uninit_destroy s p
     | anon_ops \<Rightarrow> anon_destroy s p
     | file_ops \<Rightarrow> file_backed_destroy s p)"

definition page_get_type :: "page \<Rightarrow> u32" where
  "page_get_type pg = (let ty = VM_TYPE (op_type (operations pg)) in if ty = VM_UNINIT then VM_TYPE (u_type pg) else ty)"

section \<open>Creating and removing pages\<close>

definition vm_alloc_page_with_initializer :: "vmst \<Rightarrow> u32 \<Rightarrow> ptr \<Rightarrow> bool \<Rightarrow> ptr \<Rightarrow> ptr \<Rightarrow> (bool \<times> vmst) exec" where
  "vm_alloc_page_with_initializer s type upage wr init aux =
     ASSERT (VM_TYPE type \<noteq> VM_UNINIT) (
     bindE (spt_find_page (spt_tab s) upage) (\<lambda>old.
     if old \<noteq> NULL then ret (False, s)
     else
       let (p, s) = malloc s in
       if p = NULL then ret (False, s)
       else if VM_TYPE type \<noteq> VM_ANON \<and> VM_TYPE type \<noteq> VM_MMAP \<and> VM_TYPE type \<noteq> VM_FILE then ret (False, free_obj s p)
       else
         bindE (uninit_new s p upage init type aux
           (if VM_TYPE type = VM_ANON then sym_anon_initializer (syms s) else sym_file_backed_initializer (syms s))) (\<lambda>s.
         bindE (the_page s p) (\<lambda>pg.
         let s = put_page s p (pg\<lparr>writable := wr\<rparr>); (entry, s) = malloc s in
         bindE (spt_insert_page (entry \<noteq> NULL) (mem s) (spt_tab s) p (p_va pg)) (\<lambda>(ok, tab).
         let s = s\<lparr>spt_tab := tab\<rparr> in
         if ok then ret (True, s) else ret (False, free_obj s p))))))"

definition vm_alloc_page :: "vmst \<Rightarrow> u32 \<Rightarrow> ptr \<Rightarrow> bool \<Rightarrow> (bool \<times> vmst) exec" where
  "vm_alloc_page s type upage wr = vm_alloc_page_with_initializer s type upage wr NULL NULL"

definition vm_dealloc_page :: "vmst \<Rightarrow> ptr \<Rightarrow> vmst exec" where
  "vm_dealloc_page s p =
     bindE (the_page s p) (\<lambda>pg.
     bindE (if p_frame pg \<noteq> NULL
            then bindE (the_frame s (p_frame pg)) (\<lambda>fr. ret (put_frame s (p_frame pg) (fr\<lparr>ref_cnt := int32 (ref_cnt fr - 1)\<rparr>)))
            else ret s) (\<lambda>s.
     bindE (destroy s p) (\<lambda>s. ret (free_obj s p))))"

definition spt_remove_page :: "vmst \<Rightarrow> ptr \<Rightarrow> vmst exec" where
  "spt_remove_page s p =
     bindE (the_page s p) (\<lambda>pg.
     bindE (spt_delete_entry (mem s) (spt_tab s) (p_va pg)) (\<lambda>(found, tab).
     let s = s\<lparr>spt_tab := tab\<rparr> in
     if \<not> found then ret s
     else
       bindE (pml4_clear_page (ph s) (pml4 s) (p_va pg)) (\<lambda>m.
       vm_dealloc_page (s\<lparr>ph := m\<rparr>) p)))"

section \<open>Eviction\<close>

definition first_frame :: "ptr list \<Rightarrow> clock" where
  "first_frame fs = (case fs of [] \<Rightarrow> Clock_end | f # _ \<Rightarrow> Clock_at f)"

text \<open>\<open>list_next\<close> of the element of a frame.\<close>

fun next_frame :: "ptr list \<Rightarrow> ptr \<Rightarrow> clock" where
  "next_frame [] f = Clock_end"
| "next_frame (g # fs) f = (if g = f then first_frame fs else next_frame fs f)"

text \<open>
  The clock from the frame \<open>now\<close> on. The assertion at its start, on a variable without a value, is left
  out.
\<close>

partial_function (option) victim_loop :: "vmst \<Rightarrow> ptr \<Rightarrow> (ptr \<times> vmst) exec" where
  "victim_loop s now =
     bindE (the_frame s now) (\<lambda>victim.
     bindE (the_page s (f_page victim)) (\<lambda>pg.
     bindE (pml4_is_accessed (ph s) (pml4 s) (p_va pg)) (\<lambda>accessed.
     if \<not> accessed then ret (now, s\<lparr>clock_start := next_frame (frame_table s) now\<rparr>)
     else
       bindE (pml4_set_accessed (ph s) (pml4 s) (p_va pg) False) (\<lambda>m.
       let s = s\<lparr>ph := m\<rparr>;
           nx = (case next_frame (frame_table s) now of Clock_end \<Rightarrow> first_frame (frame_table s) | c \<Rightarrow> c) in
       case nx of
         Clock_at f \<Rightarrow>
           if nx \<noteq> clock_start s then victim_loop s f
           else ret (f, s\<lparr>clock_start := next_frame (frame_table s) f\<rparr>)
       | _ \<Rightarrow> fail Null_deref))))"

definition vm_get_victim :: "vmst \<Rightarrow> (ptr \<times> vmst) exec" where
  "vm_get_victim s =
     (let s = (if clock_start s = Clock_null \<or> clock_start s = Clock_end
               then s\<lparr>clock_start := first_frame (frame_table s)\<rparr> else s) in
      case clock_start s of Clock_at f \<Rightarrow> victim_loop s f | _ \<Rightarrow> fail Null_deref)"

definition vm_evict_frame :: "vmst \<Rightarrow> (ptr \<times> vmst) exec" where
  "vm_evict_frame s =
     bindE (vm_get_victim s) (\<lambda>(victim, s).
     if victim = NULL then ret (NULL, s)
     else
       bindE (the_frame s victim) (\<lambda>fr.
       if f_page fr = NULL then ret (NULL, s)
       else
         bindE (swap_out s (f_page fr)) (\<lambda>(ok, s).
         if \<not> ok then ret (NULL, s)
         else
           bindE (the_page s (f_page fr)) (\<lambda>pg.
           bindE (pml4_clear_page (ph s) (pml4 s) (p_va pg)) (\<lambda>m.
           ret (victim, s\<lparr>ph := m, frame_table := remove1 victim (frame_table s)\<rparr>))))))"

definition frame_table_insert :: "vmst \<Rightarrow> ptr \<Rightarrow> vmst" where
  "frame_table_insert s f = s\<lparr>frame_table := frame_table s @ [f]\<rparr>"

definition frame_table_remove :: "vmst \<Rightarrow> ptr \<times> vmst" where
  "frame_table_remove s = (case frame_table s of [] \<Rightarrow> (NULL, s) | f # fs \<Rightarrow> (f, s\<lparr>frame_table := fs\<rparr>))"

definition vm_get_frame :: "vmst \<Rightarrow> (ptr \<times> vmst) exec" where
  "vm_get_frame s =
     (let (f, s) = malloc s in
      ASSERT (f \<noteq> NULL) (
      bindE (palloc_get_page (ph s) (PAL_USER OR PAL_ZERO)) (\<lambda>(kv, m).
      let s = s\<lparr>ph := m\<rparr> in
      bindE (if kv = NULL then
               bindE (vm_evict_frame s) (\<lambda>(victim, s).
               ASSERT (victim \<noteq> NULL) (
               bindE (the_frame s victim) (\<lambda>fr. ret (kva fr, free_obj s victim))))
             else ret (kv, s)) (\<lambda>(kv, s).
      ret (f, frame_table_insert (put_frame s f \<lparr>kva = kv, ref_cnt = 1, f_page = NULL\<rparr>) f)))))"

section \<open>Claiming pages and faults\<close>

definition vm_do_claim_page :: "vmst \<Rightarrow> ptr \<Rightarrow> (bool \<times> vmst) exec" where
  "vm_do_claim_page s p =
     bindE (the_page s p) (\<lambda>_.
     bindE (vm_get_frame s) (\<lambda>(f, s).
     bindE (the_frame s f) (\<lambda>fr.
     bindE (the_page s p) (\<lambda>pg.
     let s = put_page (put_frame s f (fr\<lparr>f_page := p\<rparr>)) p (pg\<lparr>p_frame := f\<rparr>) in
     bindE (pml4_set_page (base_pml4 s) (ph s) (pml4 s) (p_va pg) (kva fr) (writable pg)) (\<lambda>(ok, m).
     let s = s\<lparr>ph := m\<rparr> in
     if \<not> ok then ret (False, s) else swap_in s p (kva fr))))))"

definition vm_claim_page :: "vmst \<Rightarrow> ptr \<Rightarrow> (bool \<times> vmst) exec" where
  "vm_claim_page s va =
     bindE (spt_find_page (spt_tab s) va) (\<lambda>p. if p = NULL then ret (False, s) else vm_do_claim_page s p)"

definition vm_stack_growth :: "vmst \<Rightarrow> ptr \<Rightarrow> vmst exec" where
  "vm_stack_growth s addr =
     bindE (vm_alloc_page s VM_ANON addr True) (\<lambda>(_, s).
     bindE (vm_claim_page s addr) (\<lambda>(_, s). ret s))"

definition vm_handle_wp :: "vmst \<Rightarrow> ptr \<Rightarrow> (bool \<times> vmst) exec" where
  "vm_handle_wp s p =
     (if p = NULL then ret (False, s)
      else
        bindE (the_page s p) (\<lambda>pg.
        let copy_frame = p_frame pg in
        bindE (the_frame s copy_frame) (\<lambda>cf.
        if ref_cnt cf > 1 then
          bindE (vm_get_frame s) (\<lambda>(f, s).
          bindE (the_frame s f) (\<lambda>fr.
          bindE (the_page s p) (\<lambda>pg.
          bindE (the_frame s copy_frame) (\<lambda>cf.
          let s = put_page s p (pg\<lparr>p_frame := f\<rparr>);
              s = s\<lparr>ph := put_mem (ph s) (kva fr) (get_mem (ph s) (kva cf) 4096)\<rparr>;
              s = put_frame s copy_frame (cf\<lparr>ref_cnt := int32 (ref_cnt cf - 1)\<rparr>) in
          bindE (pml4_set_page (base_pml4 s) (ph s) (pml4 s) (p_va pg) (kva fr) True) (\<lambda>(ok, m). ret (ok, s\<lparr>ph := m\<rparr>))))))
        else
          let s = put_frame s copy_frame (cf\<lparr>f_page := p\<rparr>) in
          bindE (pml4_set_page (base_pml4 s) (ph s) (pml4 s) (p_va pg) (kva cf) True) (\<lambda>(ok, m). ret (ok, s\<lparr>ph := m\<rparr>)))))"

definition STACK_GROW_RANGE :: u64 where "STACK_GROW_RANGE = 4192"
definition USER_STACK :: u64 where "USER_STACK = 0x47480000"

definition vm_try_handle_fault :: "vmst \<Rightarrow> ptr \<Rightarrow> bool \<Rightarrow> bool \<Rightarrow> bool \<Rightarrow> (bool \<times> vmst) exec" where
  "vm_try_handle_fault s addr user write not_present =
     (let addr = pg_round_down addr; rsp = user_rsp s in
      bindE (spt_find_page (spt_tab s) addr) (\<lambda>p.
      if p = NULL \<and> addr \<ge> rsp - STACK_GROW_RANGE \<and> addr < USER_STACK \<and> addr \<ge> USER_STACK - push_bit 20 1
      then bindE (vm_stack_growth s addr) (\<lambda>s. ret (True, s))
      else if p = NULL then ret (False, s)
      else
        bindE (the_page s p) (\<lambda>pg.
        if write \<and> \<not> writable pg then ret (False, s)
        else if write \<and> writable pg \<and> p_frame pg \<noteq> NULL then vm_handle_wp s p
        else vm_do_claim_page s p)))"

section \<open>Copying and killing an address space\<close>

definition vm_copy_claim_page :: "vmst \<Rightarrow> ptr \<Rightarrow> ptr \<Rightarrow> (bool \<times> vmst) exec" where
  "vm_copy_claim_page s va parent =
     bindE (spt_find_page (spt_tab s) va) (\<lambda>p.
     if p = NULL then ret (False, s)
     else
       bindE (the_page s p) (\<lambda>pg.
       bindE (the_page s parent) (\<lambda>par.
       bindE (the_frame s (p_frame par)) (\<lambda>fr.
       let fr = fr\<lparr>ref_cnt := int32 (ref_cnt fr + 1)\<rparr>; s = put_frame s (p_frame par) fr in
       if ref_cnt fr = 1 then ret (True, s)
       else
         let s = put_page s p (pg\<lparr>p_frame := p_frame par\<rparr>) in
         bindE (pml4_set_page (base_pml4 s) (ph s) (pml4 s) (p_va pg) (kva fr) False) (\<lambda>(ok, m).
         let s = s\<lparr>ph := m\<rparr> in
         if \<not> ok then ret (False, s) else swap_in s p (kva fr))))))"

text \<open>A second handle on an open file, at a new address.\<close>

definition reopen_file :: "vmst \<Rightarrow> ptr \<Rightarrow> (ptr \<times> vmst) exec" where
  "reopen_file s f =
     bindE (the_file s f) (\<lambda>fl.
     let (new, s) = malloc s in
     bindE (file_reopen (new \<noteq> NULL) (fsystem s) fl) (\<lambda>(r, fs).
     let s = s\<lparr>fsystem := fs\<rparr> in
     case r of None \<Rightarrow> ret (NULL, s) | Some nf \<Rightarrow> ret (new, s\<lparr>files := (files s)(new \<mapsto> nf)\<rparr>)))"

text \<open>The results of \<open>malloc\<close> are not tested here, so that a null pointer is written through.\<close>

definition make_info :: "vmst \<Rightarrow> ptr \<Rightarrow> off_t \<Rightarrow> size_t \<Rightarrow> (ptr \<times> vmst) exec" where
  "make_info s file offset read_byte =
     (let (p, s) = malloc s in
      if p = NULL then fail Null_deref
      else ret (p, s\<lparr>infos := (infos s)(p \<mapsto> \<lparr>l_file = file, l_offset = offset, readbyte = read_byte, zerobyte = PGSIZE - read_byte\<rparr>)\<rparr>))"

definition make_mmap_info :: "vmst \<Rightarrow> ptr \<Rightarrow> int \<Rightarrow> (ptr \<times> vmst) exec" where
  "make_mmap_info s info cnt =
     (let (p, s) = malloc s in
      if p = NULL then fail Null_deref
      else ret (p, s\<lparr>mmap_infos := (mmap_infos s)(p \<mapsto> \<lparr>mi_info = info, mi_count = cnt\<rparr>)\<rparr>))"

definition duplicate_aux :: "vmst \<Rightarrow> page \<Rightarrow> (ptr \<times> vmst) exec" where
  "duplicate_aux s src =
     (if u_type src = VM_MMAP then
        bindE (the_obj (mmap_infos s) (w2 src)) (\<lambda>mi.
        bindE (the_obj (infos s) (mi_info mi)) (\<lambda>info.
        let (dst_mi, s) = malloc s; (dst_info, s) = malloc s in
        bindE (reopen_file s (l_file info)) (\<lambda>(nf, s).
        if dst_info = NULL \<or> dst_mi = NULL then fail Null_deref
        else ret (dst_mi, s\<lparr>infos := (infos s)(dst_info \<mapsto> info\<lparr>l_file := nf\<rparr>),
                            mmap_infos := (mmap_infos s)(dst_mi \<mapsto> \<lparr>mi_info = dst_info, mi_count = mi_count mi\<rparr>)\<rparr>))))
      else
        bindE (the_obj (infos s) (w2 src)) (\<lambda>info.
        let (dst_info, s) = malloc s in
        bindE (reopen_file s (l_file info)) (\<lambda>(nf, s).
        if dst_info = NULL then fail Null_deref
        else ret (dst_info, s\<lparr>infos := (infos s)(dst_info \<mapsto> info\<lparr>l_file := nf\<rparr>)\<rparr>))))"

text \<open>One step of \<open>supplemental_page_table_copy\<close>: the page of one entry of the source table.\<close>

definition copy_page :: "vmst \<Rightarrow> ptr \<Rightarrow> (bool \<times> vmst) exec" where
  "copy_page s p =
     bindE (the_page s p) (\<lambda>src.
     case operations src of
       uninit_ops \<Rightarrow>
         bindE (duplicate_aux s src) (\<lambda>(aux, s).
         bindE (vm_alloc_page_with_initializer s VM_ANON (p_va src) (writable src) (w0 src) aux) (\<lambda>(_, s). ret (True, s)))
     | file_ops \<Rightarrow>
         bindE (reopen_file s (fp_file src)) (\<lambda>(nf, s).
         bindE (make_info s nf (fp_offset src) (w3 src)) (\<lambda>(info, s).
         bindE (make_mmap_info s info (mapping_count src)) (\<lambda>(aux, s).
         bindE (vm_alloc_page_with_initializer s VM_FILE (p_va src) (writable src) (sym_lazy_load_segment (syms s)) aux) (\<lambda>(ok, s).
         if \<not> ok then ret (False, s) else vm_copy_claim_page s (p_va src) p))))
     | anon_ops \<Rightarrow>
         bindE (vm_alloc_page_with_initializer s VM_ANON (p_va src) (writable src) NULL NULL) (\<lambda>(ok, s).
         if \<not> ok then ret (False, s)
         else
           bindE (vm_copy_claim_page s (p_va src) p) (\<lambda>(ok, s).
           if \<not> ok then ret (False, s)
           else
             bindE (spt_find_page (spt_tab s) (p_va src)) (\<lambda>dst.
             bindE (the_page s dst) (\<lambda>dpg.
             bindE (the_frame s (p_frame dpg)) (\<lambda>dfr.
             bindE (the_page s p) (\<lambda>src.
             bindE (the_frame s (p_frame src)) (\<lambda>sfr.
             ret (True, s\<lparr>ph := put_mem (ph s) (kva dfr) (get_mem (ph s) (kva sfr) 4096)\<rparr>)))))))))"

text \<open>The table that is copied belongs to another process and does not change.\<close>

partial_function (option) copy_loop :: "spt \<Rightarrow> hash_iterator \<Rightarrow> vmst \<Rightarrow> (bool \<times> vmst) exec" where
  "copy_loop src i s =
     bindE (hash_next src i) (\<lambda>i.
     bindE (hash_cur src i) (\<lambda>e.
     case e of
       None \<Rightarrow> ret (True, s)
     | Some e \<Rightarrow> bindE (copy_page s (se_page e)) (\<lambda>(ok, s). if ok then copy_loop src i s else ret (False, s))))"

definition supplemental_page_table_copy :: "vmst \<Rightarrow> spt \<Rightarrow> (bool \<times> vmst) exec" where
  "supplemental_page_table_copy s src = copy_loop src (hash_first src) s"

fun kill_entries :: "vmst \<Rightarrow> SPT_entry list \<Rightarrow> vmst exec" where
  "kill_entries s [] = ret s"
| "kill_entries s (e # es) = bindE (vm_dealloc_page s (se_page e)) (\<lambda>s. kill_entries s es)"

definition supplemental_page_table_kill :: "vmst \<Rightarrow> vmst exec" where
  "supplemental_page_table_kill s =
     (let (tab, es) = hash_clear (spt_tab s) True in kill_entries (s\<lparr>spt_tab := tab\<rparr>) es)"

section \<open>Memory-mapped files\<close>

partial_function (option) mmap_loop :: "vmst \<Rightarrow> bool \<Rightarrow> ptr \<Rightarrow> ptr \<Rightarrow> off_t \<Rightarrow> size_t \<Rightarrow> int \<Rightarrow> vmst exec" where
  "mmap_loop s wr file cur_addr cur_offset remain_length cnt =
     (if remain_length > 0 then
        let allocate_length = (if remain_length > PGSIZE then PGSIZE else remain_length) in
        bindE (make_info s file cur_offset allocate_length) (\<lambda>(info, s).
        bindE (make_mmap_info s info cnt) (\<lambda>(aux, s).
        bindE (vm_alloc_page_with_initializer s VM_MMAP cur_addr wr (sym_lazy_load_segment (syms s)) aux) (\<lambda>(_, s).
        if remain_length < PGSIZE then ret s
        else mmap_loop s wr file (cur_addr + PGSIZE) (int32 (cur_offset + 4096)) (remain_length - PGSIZE) (int32 (cnt + 1)))))
      else ret s)"

definition do_mmap :: "vmst \<Rightarrow> ptr \<Rightarrow> size_t \<Rightarrow> bool \<Rightarrow> ptr \<Rightarrow> off_t \<Rightarrow> vmst exec" where
  "do_mmap s addr len wr file offset =
     bindE (the_file s file) (\<lambda>fl.
     bindE (file_length (fsystem s) fl) (\<lambda>file_size.
     let read_size = int32 (file_size - offset); read_size = (if read_size < 0 then 0 else read_size) in
     bindE (reopen_file s file) (\<lambda>(nf, s).
     mmap_loop s wr nf addr offset (word_of_int read_size) 0)))"

definition is_my_mmap :: "vmst \<Rightarrow> ptr \<Rightarrow> ptr \<Rightarrow> int \<Rightarrow> bool exec" where
  "is_my_mmap s addr mmap_file mmap_count =
     bindE (spt_find_page (spt_tab s) addr) (\<lambda>p.
     if p = NULL then ret False
     else bindE (the_page s p) (\<lambda>pg.
       ret (fp_file pg \<noteq> NULL \<and> fp_file pg = mmap_file \<and> mapping_count pg = mmap_count)))"

partial_function (option) munmap_loop :: "vmst \<Rightarrow> ptr \<Rightarrow> ptr \<Rightarrow> int \<Rightarrow> vmst exec" where
  "munmap_loop s addr file cnt =
     bindE (is_my_mmap s addr file (int32 (cnt + 1))) (\<lambda>mine.
     if mine then
       bindE (spt_find_page (spt_tab s) addr) (\<lambda>p.
       bindE (spt_remove_page s p) (\<lambda>s. munmap_loop s (addr + PGSIZE) file (int32 (cnt + 1))))
     else ret s)"

definition do_munmap :: "vmst \<Rightarrow> ptr \<Rightarrow> vmst exec" where
  "do_munmap s addr =
     bindE (spt_find_page (spt_tab s) addr) (\<lambda>p.
     if p = NULL then ret s
     else
       bindE (the_page s p) (\<lambda>pg.
       bindE (munmap_loop s (addr + PGSIZE) (fp_file pg) (mapping_count pg)) (\<lambda>s.
       spt_remove_page s p)))"

end
