(* ===== verification/Vm_Swap.thy ===== *)
theory Vm_Swap
  imports Vm
begin

unbundle bit_operations_syntax

text \<open>
  Swapping anonymous pages (\<open>vm/anon.c\<close>): what is written to a slot of the swap disk comes back byte for
  byte, slots do not disturb each other, and a full swap disk stops the kernel.
\<close>

section \<open>Slots\<close>

definition swap_ok :: "vmst \<Rightarrow> bool" where
  "swap_ok s \<longleftrightarrow> bitmap_wf (swap_table s) \<and> disk_wf (swap_disk s) \<and>
     8 * unat (bit_cnt (swap_table s)) \<le> unat (capacity (swap_disk s))"

definition slot_sectors :: "vmst \<Rightarrow> nat \<Rightarrow> u8 list list" where
  "slot_sectors s i = map (\<lambda>k. sectors (swap_disk s) (of_nat (8 * i + k))) [0..<8]"

lemma slot_get:
  assumes wf: "bitmap_wf b"
  obtains (full) "bitmap_scan_and_flip b 0 1 False = ret (BITMAP_ERROR, b)" "bm_used b = {..<unat (bit_cnt b)}"
    | (got) i b' where "bitmap_scan_and_flip b 0 1 False = ret (of_nat i, b')" "of_nat i \<noteq> BITMAP_ERROR" "bitmap_wf b'" "bit_cnt b' = bit_cnt b"
      "i < unat (bit_cnt b)" "i \<notin> bm_used b" "bm_used b' = insert i (bm_used b)"
proof -
  note sf = bitmap_scan_and_flip_wf [OF wf, of 0 1 False]
  show thesis
  proof (cases "find_run (bm_bits b) False (unat (1 :: size_t)) 0")
    case None
    have "i \<in> bm_used b" if "i < unat (bit_cnt b)" for i
      using find_run_None [OF None, of i] that run_at_iff [of i 1 "bm_bits b" False] by (auto simp: bm_used_def le_less_Suc_eq)
    then show thesis using sf None by (intro full) (auto simp: bm_used_def)
  next
    case (Some i)
    then obtain b' where b': "bitmap_scan_and_flip b 0 1 False = ret (of_nat i, b')" "bitmap_wf b'" "bit_cnt b' = bit_cnt b"
      "bm_bits b' = fill (bm_bits b) i (unat (1 :: size_t)) True" using sf by auto
    have i: "i < unat (bit_cnt b)" using find_run_Some(2) [OF Some] by simp
    have "\<not> bm_bits b ! i" using find_run_Some(3) [OF Some] run_at_iff [of i 1 "bm_bits b" False] i by simp
    moreover have "of_nat i \<noteq> BITMAP_ERROR" using scan_result_error(1) [OF wf Some] by (simp add: scan_result_def)
    ultimately show thesis using b' i bm_used_fill [OF b'(4,3)] by (intro got [of i b']) (auto simp: bm_used_def)
  qed
qed

lemma slot_give:
  assumes wf: "bitmap_wf b" and i: "i < unat (bit_cnt b)"
  obtains b' where "bitmap_reset b (of_nat i) = ret b'" "bitmap_wf b'" "bit_cnt b' = bit_cnt b" "bm_used b' = bm_used b - {i}"
proof -
  have u: "unat (of_nat i :: size_t) = i" using i unat_u64_bound [of "bit_cnt b"] by (simp add: unat_of_nat_u64)
  then have "(of_nat i :: size_t) < bit_cnt b" using i by (simp add: word_less_nat_alt)
  from bitmap_apply_bit [OF wf this, of _ "\<lambda>_. False", OF bit_and_not_mask] obtain b' where
    b': "bitmap_reset b (of_nat i) = ret b'" "bitmap_wf b'" "bit_cnt b' = bit_cnt b" "bm_bits b' = (bm_bits b)[i := False]"
    by (auto simp: bitmap_reset_def u)
  then have "bm_used b' = bm_used b - {i}" using i by (auto simp: bm_used_def nth_list_update simp del: nth_bm_bits split: if_splits)
  with b' show thesis by (intro that)
qed

section \<open>Transfers\<close>

lemma length_concat_equal: "(\<And>x. x \<in> set xss \<Longrightarrow> length x = n) \<Longrightarrow> length (concat xss) = length xss * n"
  by (induction xss) auto

lemma nth_concat_equal:
  "(\<And>x. x \<in> set xss \<Longrightarrow> length x = n) \<Longrightarrow> j < length xss * n \<Longrightarrow> concat xss ! j = xss ! (j div n) ! (j mod n)"
proof (induction xss arbitrary: j)
  case (Cons xs xss)
  then have n: "0 < n" "length xs = n" by (auto intro: gr0I)
  show ?case
  proof (cases "j < n")
    case False
    then have "j - n < length xss * n" using Cons.prems(2) by simp
    then show ?thesis using Cons.IH [of "j - n"] Cons.prems(1) False n by (simp add: nth_append le_div_geq le_mod_geq not_less)
  qed (use n in \<open>simp add: nth_append\<close>)
qed simp

lemma swap_write_ok:
  assumes "disk_wf d" and "distinct js" and "\<And>j. j \<in> set js \<Longrightarrow> j < 8 \<and> unat first + j < unat (capacity d)"
  shows "\<exists>d'. swap_write d m first kv js = ret d' \<and> disk_wf d' \<and> capacity d' = capacity d \<and>
    (\<forall>x. sectors d' x = (if unat (x - first) \<in> set js then get_mem m (kv + 512 * of_nat (unat (x - first))) 512 else sectors d x))"
  using assms
proof (induction js arbitrary: d)
  case (Cons j js)
  let ?b = "get_mem m (kv + 512 * of_nat j) 512"
  let ?d = "d\<lparr>sectors := (sectors d)(first + of_nat j := ?b), write_cnt := write_cnt d + 1\<rparr>"
  have j: "j < 8" "unat first + j < unat (capacity d)" using Cons.prems(3) [of j] by auto
  have uj: "unat (of_nat j :: u32) = j" using j(1) by (simp add: unat_of_nat_u32)
  have "unat (first + of_nat j) = unat first + j"
    using j(2) uj unat_u32_bound [of "capacity d"] by (simp add: unat_word_ariths)
  then have w: "disk_write d (first + of_nat j) ?b = ret ?d"
    using Cons.prems(1) j(2) by (intro disk_write_ok) (simp_all add: word_less_nat_alt)
  have wf: "disk_wf ?d" using Cons.prems(1) by (intro disk_wf_write) simp_all
  from Cons.IH [OF wf] Cons.prems(2,3) obtain d' where
    d': "swap_write ?d m first kv js = ret d'" "disk_wf d'" "capacity d' = capacity d"
      "\<And>x. sectors d' x = (if unat (x - first) \<in> set js then get_mem m (kv + 512 * of_nat (unat (x - first))) 512 else sectors ?d x)"
    by auto
  have "x = first + of_nat j \<longleftrightarrow> unat (x - first) = j" for x
    using uj by (auto simp: word_unat_eq_iff [of "x - first", symmetric] algebra_simps)
  then show ?case using w d' by auto
qed simp

lemma swap_read_append:
  "swap_read d m first kv (js @ ks) = bindE (swap_read d m first kv js) (\<lambda>(m, d). swap_read d m first kv ks)"
  by (induction js arbitrary: d m) (auto simp: bindE_assoc intro!: bindE_cong)

lemma unat_sub_window:
  fixes z :: u64
  assumes "k + n \<le> 4096"
  shows "unat (z - of_nat k) < n \<longleftrightarrow> k \<le> unat z \<and> unat z < k + n" "k \<le> unat z \<Longrightarrow> unat (z - of_nat k) = unat z - k"
  using assms unat_of_nat_u64 [of k] unat_u64_bound [of z] by (auto simp: unat_sub_if')

lemma swap_read_ok:
  assumes wf: "disk_wf d" and n: "n \<le> 8" and cap: "unat first + n \<le> unat (capacity d)"
  shows "\<exists>m' d'. swap_read d m first kv [0..<n] = ret (m', d') \<and> disk_wf d' \<and> capacity d' = capacity d \<and> sectors d' = sectors d \<and>
    kernel_pool m' = kernel_pool m \<and> user_pool m' = user_pool m \<and>
    (\<forall>x. byte_at m' x = (if unat (x - kv) < 512 * n
       then sectors d (first + of_nat (unat (x - kv) div 512)) ! (unat (x - kv) mod 512) else byte_at m x)) \<and>
    (\<forall>c. (\<forall>k < 8. \<not> unat (c + of_nat k - kv) < 512 * n) \<longrightarrow> cells m' c = cells m c)"
  using n cap
proof (induction n)
  case 0
  then show ?case using wf by simp
next
  case (Suc n)
  then obtain m1 d1 where r: "swap_read d m first kv [0..<n] = ret (m1, d1)" "disk_wf d1" "capacity d1 = capacity d" "sectors d1 = sectors d"
    "kernel_pool m1 = kernel_pool m" "user_pool m1 = user_pool m"
    "\<And>x. byte_at m1 x = (if unat (x - kv) < 512 * n
       then sectors d (first + of_nat (unat (x - kv) div 512)) ! (unat (x - kv) mod 512) else byte_at m x)"
    "\<And>c. (\<forall>k < 8. \<not> unat (c + of_nat k - kv) < 512 * n) \<Longrightarrow> cells m1 c = cells m c"
    by auto
  let ?x = "first + of_nat n" and ?m = "put_mem m1 (kv + 512 * of_nat n) (sectors d (first + of_nat n))"
  have "unat ?x = unat first + n"
    using Suc.prems unat_u32_bound [of "capacity d"] by (simp add: unat_word_ariths unat_of_nat_u32)
  then have "disk_read d1 ?x = ret (sectors d ?x, d1\<lparr>read_cnt := read_cnt d1 + 1\<rparr>)"
    using disk_read_ok [OF r(2), of ?x] Suc.prems(2) by (simp add: r(3,4) word_less_nat_alt)
  then have run: "swap_read d m first kv [0..<Suc n] = ret (?m, d1\<lparr>read_cnt := read_cnt d1 + 1\<rparr>)"
    using r(1) by (simp add: swap_read_append)
  have len: "length (sectors d ?x) = 512" using wf by (simp add: disk_wf_def DISK_SECTOR_SIZE_def)
  have k: "y - (kv + 512 * of_nat n) = (y - kv) - of_nat (512 * n)" for y by simp
  have b: "512 * n + 512 \<le> 4096" "512 * Suc n = 512 * n + 512" using Suc.prems(1) by simp_all
  have win: "unat (y - (kv + 512 * of_nat n)) < 512 \<longleftrightarrow> 512 * n \<le> unat (y - kv) \<and> unat (y - kv) < 512 * Suc n"
    "512 * n \<le> unat (y - kv) \<Longrightarrow> unat (y - (kv + 512 * of_nat n)) = unat (y - kv) - 512 * n" for y
    unfolding k b(2) by (rule unat_sub_window [OF b(1)])+
  have bytes: "byte_at ?m x = (if unat (x - kv) < 512 * Suc n
       then sectors d (first + of_nat (unat (x - kv) div 512)) ! (unat (x - kv) mod 512) else byte_at m x)" for x
  proof (cases "512 * n \<le> unat (x - kv) \<and> unat (x - kv) < 512 * Suc n")
    case True
    define y where "y = unat (x - kv)"
    have y: "512 * n \<le> y" "y < 512 * Suc n" using True by (simp_all add: y_def)
    then have q1: "y div 512 = n" by (intro div_nat_eqI)
    have q2: "y mod 512 = y - 512 * n" unfolding q1 [symmetric] by (rule minus_mult_div_eq_mod [symmetric])
    show ?thesis using True win [of x] len q1 q2 by (simp add: byte_at_put_mem y_def [symmetric])
  next
    case False
    then show ?thesis using win [of x] len r(7) [of x] by (auto simp: byte_at_put_mem)
  qed
  have "cells ?m c = cells m c" if c: "\<And>k. k < 8 \<Longrightarrow> \<not> unat (c + of_nat k - kv) < 512 * Suc n" for c
  proof -
    have "cells ?m c = cells m1 c" using c win(1) len by (intro cells_put_mem_other) auto
    also have "\<dots> = cells m c" using c by (intro r(8)) force
    finally show ?thesis .
  qed
  then show ?case using run bytes r(2-6) by simp
qed

section \<open>Swap indices in a page\<close>

lemma ucast_set_lo [simp]: "(ucast (set_lo w v) :: u32) = v"
proof (rule bit_eqI)
  fix n assume "possible_bit TYPE(32 word) n"
  then have n: "n < 32" by (simp add: possible_bit_word)
  have "(0xFFFFFFFF00000000 :: u64) = NOT (mask 32)" by (simp add: mask_eq_exp_minus_1)
  then have "set_lo w v = (w AND NOT (mask 32)) OR ucast v" by (simp only: set_lo_def)
  then show "bit (ucast (set_lo w v) :: u32) n = bit v n"
    using n by (simp add: bit_unsigned_iff bit_or_iff bit_and_iff bit_not_iff bit_mask_iff possible_bit_word)
qed

lemma lo_int_set_lo [simp]: "lo_int (set_lo w v) = sint v"
  by (simp add: lo_int_def)

lemma sint_small: "i < 2 ^ 31 \<Longrightarrow> sint (ucast (of_nat i :: u64) :: u32) = int i"
  by (simp add: signed_of_nat signed_take_bit_int_eq_self unsigned_of_nat take_bit_nat_eq_self)

lemma swap_first:
  "i < 2 ^ 31 \<Longrightarrow> ucast (of_nat i * 8 :: u64) = (of_nat (8 * i) :: u32)" "word_of_int (int i) * 8 = (of_nat (8 * i) :: u32)"
  "word_of_int (int i) = (of_nat i :: u64)"
proof -
  assume "i < 2 ^ 31"
  then have "unat (of_nat (8 * i) :: u64) = 8 * i" by (intro unat_of_nat_u64) simp
  moreover have "(ucast w :: u32) = of_nat (unat w)" for w :: u64 by simp
  ultimately have "(ucast (of_nat (8 * i) :: u64) :: u32) = of_nat (8 * i)" by metis
  then show "ucast (of_nat i * 8 :: u64) = (of_nat (8 * i) :: u32)" by (simp add: mult.commute)
qed (simp_all add: mult.commute)

section \<open>Swapping out and in\<close>

lemma slot_small:
  assumes "swap_ok s" and "i < unat (bit_cnt (swap_table s))"
  shows "8 * i + 8 \<le> unat (capacity (swap_disk s))" "8 * i + 8 \<le> 2 ^ 28" "i < 2 ^ 31" "unat (of_nat (8 * i) :: u32) = 8 * i"
proof -
  show c: "8 * i + 8 \<le> unat (capacity (swap_disk s))" using assms by (simp add: swap_ok_def)
  then show "8 * i + 8 \<le> 2 ^ 28" using assms(1) by (simp add: swap_ok_def disk_wf_def)
  then show "i < 2 ^ 31" by simp
  show "unat (of_nat (8 * i) :: u32) = 8 * i" using \<open>8 * i + 8 \<le> 2 ^ 28\<close> by (intro unat_of_nat_u32) simp
qed

lemma anon_swap_out_ok:
  assumes ok: "swap_ok s" and p: "p \<noteq> NULL" "pages s p = Some pg" "frames s (p_frame pg) = Some fr"
    and free: "bm_used (swap_table s) \<noteq> {..<unat (bit_cnt (swap_table s))}"
  obtains i s1 where "anon_swap_out s p = ret (True, s1)" "swap_ok s1" "i < unat (bit_cnt (swap_table s))" "i \<notin> bm_used (swap_table s)"
    "bm_used (swap_table s1) = insert i (bm_used (swap_table s))" "bit_cnt (swap_table s1) = bit_cnt (swap_table s)"
    "slot_sectors s1 i = map (\<lambda>k. get_mem (ph s) (kva fr + 512 * of_nat k) 512) [0..<8]"
    "\<And>j. j < unat (bit_cnt (swap_table s)) \<Longrightarrow> j \<noteq> i \<Longrightarrow> slot_sectors s1 j = slot_sectors s j"
    "pages s1 = (pages s)(p \<mapsto> pg\<lparr>p_frame := NULL, w0 := set_lo (w0 pg) (ucast (of_nat i :: u64))\<rparr>)" "ph s1 = ph s"
    "frames s1 = (frames s)(p_frame pg \<mapsto> fr\<lparr>f_page := NULL\<rparr>)"
proof -
  have wf: "bitmap_wf (swap_table s)" "disk_wf (swap_disk s)" using ok by (simp_all add: swap_ok_def)
  show thesis
  proof (rule slot_get [OF wf(1)], goal_cases)
    case 1
    then show thesis using free by simp
  next
    case (2 i b)
    note got = 2
    note sm = slot_small [OF ok got(5)]
    let ?f = "of_nat (8 * i) :: u32"
    have "\<exists>d'. swap_write (swap_disk s) (ph s) ?f (kva fr) [0..<8] = ret d' \<and> disk_wf d' \<and> capacity d' = capacity (swap_disk s) \<and>
      (\<forall>x. sectors d' x = (if unat (x - ?f) \<in> set [0..<8] then get_mem (ph s) (kva fr + 512 * of_nat (unat (x - ?f))) 512 else sectors (swap_disk s) x))"
      using sm by (intro swap_write_ok [OF wf(2)]) auto
    then obtain d' where d': "swap_write (swap_disk s) (ph s) ?f (kva fr) [0..<8] = ret d'" "disk_wf d'" "capacity d' = capacity (swap_disk s)"
      "\<And>x. sectors d' x = (if unat (x - ?f) < 8 then get_mem (ph s) (kva fr + 512 * of_nat (unat (x - ?f))) 512 else sectors (swap_disk s) x)"
      by auto
    define s1 where "s1 = s\<lparr>swap_table := b, swap_disk := d', frames := (frames s)(p_frame pg \<mapsto> fr\<lparr>f_page := NULL\<rparr>),
            pages := (pages s)(p \<mapsto> pg\<lparr>p_frame := NULL, w0 := set_lo (w0 pg) (ucast (of_nat i :: u64))\<rparr>)\<rparr>"
    have run: "anon_swap_out s p = ret (True, s1)"
      using p got(1,2) d'(1) swap_first(1) [OF sm(3)] by (simp add: anon_swap_out_def the_obj_def Let_def put_page_def put_frame_def s1_def)
    have off: "unat (of_nat (8 * j + k) - ?f) < 8 \<longleftrightarrow> j = i" "unat (of_nat (8 * i + k) - ?f) = k"
      if j: "j < unat (bit_cnt (swap_table s))" and k: "k < 8" for j k
    proof -
      have u: "unat (of_nat (8 * j + k) :: u32) = 8 * j + k" using slot_small(2) [OF ok j] k by (intro unat_of_nat_u32) simp
      have "unat (of_nat (8 * i + k) :: u32) = 8 * i + k" using sm(2) k by (intro unat_of_nat_u32) simp
      then show "unat (of_nat (8 * i + k) - ?f) = k" using sm(4) by (simp add: unat_sub_if' del: of_nat_add of_nat_mult)
      show "unat (of_nat (8 * j + k) - ?f) < 8 \<longleftrightarrow> j = i"
        using u sm(2,4) k slot_small(2) [OF ok j] by (auto simp: unat_sub_if' simp del: of_nat_add of_nat_mult)
    qed
    have same: "slot_sectors s1 j = slot_sectors s j" if "j < unat (bit_cnt (swap_table s))" "j \<noteq> i" for j
      using off(1) [OF that(1)] that(2) by (simp add: slot_sectors_def s1_def d'(4) del: of_nat_add of_nat_mult)
    have new: "slot_sectors s1 i = map (\<lambda>k. get_mem (ph s) (kva fr + 512 * of_nat k) 512) [0..<8]"
      using off [OF got(5)] by (simp add: slot_sectors_def s1_def d'(4) del: of_nat_add of_nat_mult upt_rec_numeral)
    have "swap_ok s1" using ok got(3,4) d'(2,3) by (simp add: swap_ok_def s1_def)
    then show thesis using run got same new by (intro that [of s1 i]) (simp_all add: s1_def)
  qed
qed

lemma anon_swap_in_ok:
  assumes ok: "swap_ok s" and p: "pages s p = Some pg" "swap_idx pg = int i" "i < unat (bit_cnt (swap_table s))"
  obtains s1 where "anon_swap_in s p kv = ret (True, s1)" "swap_ok s1"
    "get_mem (ph s1) kv 4096 = concat (slot_sectors s i)" "bm_used (swap_table s1) = bm_used (swap_table s) - {i}" "slot_sectors s1 = slot_sectors s"
    "kernel_pool (ph s1) = kernel_pool (ph s)" "user_pool (ph s1) = user_pool (ph s)"
    "\<And>c. (\<And>k. k < 8 \<Longrightarrow> \<not> unat (c + of_nat k - kv) < 4096) \<Longrightarrow> cells (ph s1) c = cells (ph s) c"
    "pages s1 = (pages s)(p \<mapsto> pg\<lparr>w0 := set_lo (w0 pg) (- 1)\<rparr>)" "frames s1 = frames s"
proof -
  have wf: "bitmap_wf (swap_table s)" "disk_wf (swap_disk s)" using ok by (simp_all add: swap_ok_def)
  note sm = slot_small [OF ok p(3)]
  let ?f = "of_nat (8 * i) :: u32"
  from swap_read_ok [OF wf(2), of 8 ?f "ph s" kv] sm(1,4) obtain m d where
    r: "swap_read (swap_disk s) (ph s) ?f kv [0..<8] = ret (m, d)" "disk_wf d" "capacity d = capacity (swap_disk s)" "sectors d = sectors (swap_disk s)"
      "kernel_pool m = kernel_pool (ph s)" "user_pool m = user_pool (ph s)"
      "\<And>x. byte_at m x = (if unat (x - kv) < 4096
       then sectors (swap_disk s) (?f + of_nat (unat (x - kv) div 512)) ! (unat (x - kv) mod 512) else byte_at (ph s) x)"
      "\<And>c. (\<And>k. k < 8 \<Longrightarrow> \<not> unat (c + of_nat k - kv) < 4096) \<Longrightarrow> cells m c = cells (ph s) c"
    by auto
  obtain b where b: "bitmap_reset (swap_table s) (of_nat i) = ret b" "bitmap_wf b" "bit_cnt b = bit_cnt (swap_table s)"
    "bm_used b = bm_used (swap_table s) - {i}" by (rule slot_give [OF wf(1) p(3)])
  define s1 where "s1 = s\<lparr>swap_table := b, swap_disk := d, ph := m, pages := (pages s)(p \<mapsto> pg\<lparr>w0 := set_lo (w0 pg) (- 1)\<rparr>)\<rparr>"
  have run: "anon_swap_in s p kv = ret (True, s1)"
    using p(1,2) r(1) b(1) by (simp add: anon_swap_in_def the_obj_def put_page_def s1_def mult.commute)
  have len: "length x = 512" if "x \<in> set (slot_sectors s i)" for x
    using that wf(2) by (auto simp: slot_sectors_def disk_wf_def DISK_SECTOR_SIZE_def)
  have lc: "length (slot_sectors s i) = 8" by (simp add: slot_sectors_def)
  have bytes: "get_mem m kv 4096 = concat (slot_sectors s i)"
  proof (rule nth_equalityI)
    show "length (get_mem m kv 4096) = length (concat (slot_sectors s i))"
      using length_concat_equal [of "slot_sectors s i" 512] len lc by simp
    fix j assume "j < length (get_mem m kv 4096)"
    then have j: "j < 4096" by simp
    then have q: "j div 512 < 8" by simp
    have "get_mem m kv 4096 ! j = sectors (swap_disk s) (of_nat (8 * i + j div 512)) ! (j mod 512)"
      using j r(7) [of "kv + of_nat j"] unat_of_nat_u64 [of j] by simp
    also have "\<dots> = slot_sectors s i ! (j div 512) ! (j mod 512)" using q by (simp add: slot_sectors_def)
    also have "\<dots> = concat (slot_sectors s i) ! j" using nth_concat_equal [of "slot_sectors s i" 512 j] len lc j by simp
    finally show "get_mem m kv 4096 ! j = concat (slot_sectors s i) ! j" .
  qed
  have "slot_sectors s1 = slot_sectors s" by (simp add: fun_eq_iff slot_sectors_def s1_def r(4))
  moreover have "swap_ok s1" using ok b(2,3) r(2,3) by (simp add: swap_ok_def s1_def)
  ultimately show thesis using run bytes b(4) r(5,6,8) by (intro that [of s1]) (simp_all add: s1_def)
qed

lemma get_mem_chunks: "concat (map (\<lambda>k. get_mem m (a + 512 * of_nat k) 512) [0..<8]) = get_mem m a 4096" (is "concat ?xss = _")
proof (rule nth_equalityI)
  have len: "length x = 512" if "x \<in> set ?xss" for x using that by auto
  then show "length (concat ?xss) = length (get_mem m a 4096)" using length_concat_equal [of ?xss 512] by (simp del: upt_rec_numeral)
  fix j assume "j < length (concat ?xss)"
  then have j: "j < 4096" using length_concat_equal [of ?xss 512] len by (simp del: upt_rec_numeral)
  have "a + 512 * of_nat (j div 512) + of_nat (j mod 512) = a + (of_nat (512 * (j div 512) + j mod 512) :: u64)" by (simp only: of_nat_add of_nat_mult) simp
  also have "512 * (j div 512) + j mod 512 = j" by simp
  finally have "get_mem m (a + 512 * of_nat (j div 512)) 512 ! (j mod 512) = get_mem m a 4096 ! j" using j by (simp add: add.assoc)
  moreover have "concat ?xss ! j = ?xss ! (j div 512) ! (j mod 512)" using nth_concat_equal [of ?xss 512 j] len j by (simp del: upt_rec_numeral nth_map nth_get_mem)
  moreover have "?xss ! (j div 512) = get_mem m (a + 512 * of_nat (j div 512)) 512" using j nth_upt [of 0 "j div 512" 8] by (simp del: upt_rec_numeral)
  ultimately show "concat ?xss ! j = get_mem m a 4096 ! j" by simp
qed

section \<open>Properties\<close>

text \<open>
  C5. Swapping is lossless: as long as a slot is free, \<open>anon_swap_out\<close> ends with success, takes a slot that was
  free and leaves the contents of all slots in use alone; whatever happens in between, if the page object
  and the sectors of the slot are kept, \<open>anon_swap_in\<close> into any page of memory restores the bytes of the page exactly,
  frees the slot again and marks the page as not swapped, so that a second call reports failure.
\<close>

theorem anon_swap_roundtrip:
  assumes ok: "swap_ok s" and p: "p \<noteq> NULL" "pages s p = Some pg" "frames s (p_frame pg) = Some fr"
    and free: "bm_used (swap_table s) \<noteq> {..<unat (bit_cnt (swap_table s))}"
  shows "\<exists>i s1. anon_swap_out s p = ret (True, s1) \<and> swap_ok s1 \<and> i \<notin> bm_used (swap_table s) \<and>
    bm_used (swap_table s1) = insert i (bm_used (swap_table s)) \<and>
    (\<forall>j \<in> bm_used (swap_table s). slot_sectors s1 j = slot_sectors s j) \<and>
    (\<forall>s2 kv. swap_ok s2 \<and> pages s2 p = pages s1 p \<and> i \<in> bm_used (swap_table s2) \<and> slot_sectors s2 i = slot_sectors s1 i \<longrightarrow>
      (\<exists>s3. anon_swap_in s2 p kv = ret (True, s3) \<and> swap_ok s3 \<and> get_mem (ph s3) kv 4096 = get_mem (ph s) (kva fr) 4096 \<and>
        bm_used (swap_table s3) = bm_used (swap_table s2) - {i} \<and> anon_swap_in s3 p kv = ret (False, s3)))"
proof -
  obtain i s1 where o: "anon_swap_out s p = ret (True, s1)" "swap_ok s1" "i < unat (bit_cnt (swap_table s))" "i \<notin> bm_used (swap_table s)"
    "bm_used (swap_table s1) = insert i (bm_used (swap_table s))" "bit_cnt (swap_table s1) = bit_cnt (swap_table s)"
    and sec: "slot_sectors s1 i = map (\<lambda>k. get_mem (ph s) (kva fr + 512 * of_nat k) 512) [0..<8]"
      "\<And>j. j < unat (bit_cnt (swap_table s)) \<Longrightarrow> j \<noteq> i \<Longrightarrow> slot_sectors s1 j = slot_sectors s j"
    and s1: "pages s1 = (pages s)(p \<mapsto> pg\<lparr>p_frame := NULL, w0 := set_lo (w0 pg) (ucast (of_nat i :: u64))\<rparr>)" "ph s1 = ph s"
      "frames s1 = (frames s)(p_frame pg \<mapsto> fr\<lparr>f_page := NULL\<rparr>)"
    by (rule anon_swap_out_ok [OF assms]) (rule that)
  let ?pg = "pg\<lparr>p_frame := NULL, w0 := set_lo (w0 pg) (ucast (of_nat i :: u64))\<rparr>"
  have pg1: "pages s1 p = Some ?pg" using s1(1) by simp
  have idx: "swap_idx ?pg = int i" using sint_small slot_small(3) [OF ok o(3)] by simp
  have "\<exists>s3. anon_swap_in s2 p kv = ret (True, s3) \<and> swap_ok s3 \<and> get_mem (ph s3) kv 4096 = get_mem (ph s) (kva fr) 4096 \<and>
      bm_used (swap_table s3) = bm_used (swap_table s2) - {i} \<and> anon_swap_in s3 p kv = ret (False, s3)"
    if s2: "swap_ok s2" "pages s2 p = pages s1 p" "i \<in> bm_used (swap_table s2)" "slot_sectors s2 i = slot_sectors s1 i" for s2 kv
  proof -
    have i2: "i < unat (bit_cnt (swap_table s2))" using s2(3) by (simp add: bm_used_def)
    obtain s3 where s3: "anon_swap_in s2 p kv = ret (True, s3)" "swap_ok s3" "get_mem (ph s3) kv 4096 = concat (slot_sectors s2 i)"
      "bm_used (swap_table s3) = bm_used (swap_table s2) - {i}" "pages s3 = (pages s2)(p \<mapsto> ?pg\<lparr>w0 := set_lo (w0 ?pg) (- 1)\<rparr>)"
      by (rule anon_swap_in_ok [OF s2(1) s2(2) [unfolded pg1] idx i2, of kv]) (rule that)
    have "anon_swap_in s3 p kv = ret (False, s3)" using s3(5) by (simp add: anon_swap_in_def the_obj_def)
    then show ?thesis using s3 s2(4) sec(1) get_mem_chunks [of "ph s" "kva fr"] by metis
  qed
  moreover have "\<forall>j \<in> bm_used (swap_table s). slot_sectors s1 j = slot_sectors s j" using sec(2) o(4) unfolding bm_used_def by blast
  ultimately show ?thesis using o by blast
qed

definition sample_page :: page where
  "sample_page = \<lparr>operations = anon_ops, p_va = 0x400000, p_frame = 0x20, writable = True, is_swap = False,
     w0 = 0xFFFFFFFF, w1 = 1, w2 = 0, w3 = 0, w4 = 0\<rparr>"

definition zero_sector :: "u8 list" where "zero_sector = replicate 512 0"

lemma length_zero_sector [simp]: "length zero_sector = 512"
  by (simp only: zero_sector_def length_replicate)

definition sample_vmst :: vmst where
  "sample_vmst = \<lparr>ph = sample_vm, base_pml4 = 0, pml4 = 0x8004000000,
     spt_tab = empty_spt, user_rsp = 0x4747F000,
     pages = [0x10 \<mapsto> sample_page], frames = [0x20 \<mapsto> \<lparr>kva = 0x800400A000, ref_cnt = 1, f_page = 0x10\<rparr>],
     infos = Map.empty, mmap_infos = Map.empty, files = Map.empty, frame_table = [0x20], clock_start = Clock_null,
     swap_table = \<lparr>bit_cnt = 2, elems = [1]\<rparr>, swap_disk = \<lparr>capacity = 16, sectors = (\<lambda>_. zero_sector), read_cnt = 0, write_cnt = 0\<rparr>,
     fsystem = undefined, heap = [0x30, 0x40, 0x50], mem = True,
     syms = \<lparr>sym_lazy_load_segment = 0x1000, sym_anon_initializer = 0x2000, sym_file_backed_initializer = 0x3000\<rparr>\<rparr>"

lemma sample_swap_ok: "swap_ok sample_vmst" "bm_used (swap_table sample_vmst) = {0}"
proof -
  show "swap_ok sample_vmst" by (simp add: swap_ok_def sample_vmst_def bitmap_wf_def disk_wf_def DISK_SECTOR_SIZE_def)
  have t: "swap_table sample_vmst = \<lparr>bit_cnt = 2, elems = [1]\<rparr>" by (simp add: sample_vmst_def)
  have "i \<in> bm_used (swap_table sample_vmst) \<longleftrightarrow> i = 0" for i
  proof -
    consider "i = 0" | "i = 1" | "2 \<le> i" by linarith
    then show ?thesis by cases (simp_all add: t bm_used_def bm_bit_def bit_1_iff)
  qed
  then show "bm_used (swap_table sample_vmst) = {0}" by blast
qed

theorem anon_swap_roundtrip_witness:
  "\<exists>s1 s3. anon_swap_out sample_vmst 0x10 = ret (True, s1) \<and> anon_swap_in s1 0x10 0x800400B000 = ret (True, s3) \<and>
     get_mem (ph s3) 0x800400B000 4096 = get_mem (ph sample_vmst) 0x800400A000 4096"
proof -
  have h: "(0x10 :: ptr) \<noteq> NULL" "pages sample_vmst 0x10 = Some sample_page"
    "frames sample_vmst (p_frame sample_page) = Some \<lparr>kva = 0x800400A000, ref_cnt = 1, f_page = 0x10\<rparr>"
    by (simp_all add: sample_vmst_def sample_page_def)
  have "unat (bit_cnt (swap_table sample_vmst)) = 2" by (simp add: sample_vmst_def)
  moreover have "(1 :: nat) \<in> {..<2}" "1 \<notin> {0 :: nat}" by simp_all
  ultimately have f: "bm_used (swap_table sample_vmst) \<noteq> {..<unat (bit_cnt (swap_table sample_vmst))}"
    unfolding sample_swap_ok(2) by metis
  from anon_swap_roundtrip [OF sample_swap_ok(1) h f] obtain i s1 where
    o: "anon_swap_out sample_vmst 0x10 = ret (True, s1)" "swap_ok s1" "bm_used (swap_table s1) = insert i (bm_used (swap_table sample_vmst))"
      "\<forall>s2 kv. swap_ok s2 \<and> pages s2 0x10 = pages s1 0x10 \<and> i \<in> bm_used (swap_table s2) \<and> slot_sectors s2 i = slot_sectors s1 i \<longrightarrow>
      (\<exists>s3. anon_swap_in s2 0x10 kv = ret (True, s3) \<and> swap_ok s3 \<and> get_mem (ph s3) kv 4096 = get_mem (ph sample_vmst) (kva \<lparr>kva = 0x800400A000, ref_cnt = 1, f_page = 0x10\<rparr>) 4096 \<and>
        bm_used (swap_table s3) = bm_used (swap_table s2) - {i} \<and> anon_swap_in s3 0x10 kv = ret (False, s3))"
    by blast
  from o(4) [rule_format, of s1 "0x800400B000"] o(2,3) obtain s3 where "anon_swap_in s1 0x10 0x800400B000 = ret (True, s3)"
    "get_mem (ph s3) 0x800400B000 4096 = get_mem (ph sample_vmst) 0x800400A000 4096" by auto
  then show ?thesis using o(1) by blast
qed

text \<open>
  A full swap disk is not reported to the caller: \<open>anon_swap_out\<close>, meant to return false, evaluates an assertion
  on the bit with the number of the error code, which fails, so that the kernel panics.
\<close>

theorem anon_swap_out_full:
  assumes ok: "swap_ok s" and "p \<noteq> NULL" and full: "bm_used (swap_table s) = {..<unat (bit_cnt (swap_table s))}"
  shows "anon_swap_out s p = fail Assert_failed"
proof -
  have wf: "bitmap_wf (swap_table s)" using ok by (simp add: swap_ok_def)
  have "bitmap_scan_and_flip (swap_table s) 0 1 False = ret (BITMAP_ERROR, swap_table s)"
    by (rule slot_get [OF wf]) (use full in auto)
  moreover have "\<not> BITMAP_ERROR < bit_cnt (swap_table s)"
    using wf_bit_cnt_small [OF wf] by (simp add: BITMAP_ERROR_def word_less_nat_alt unsigned_minus_1_eq_mask mask_eq_exp_minus_1)
  ultimately show ?thesis using assms(2) bitmap_test_wf [OF wf, of BITMAP_ERROR] by (simp add: anon_swap_out_def Let_def)
qed

theorem anon_swap_out_full_witness:
  "anon_swap_out (sample_vmst\<lparr>swap_table := \<lparr>bit_cnt = 1, elems = [1]\<rparr>\<rparr>) 0x10 = fail Assert_failed"
proof -
  let ?s = "sample_vmst\<lparr>swap_table := \<lparr>bit_cnt = 1, elems = [1]\<rparr>\<rparr>"
  have "swap_ok ?s" by (simp add: swap_ok_def sample_vmst_def bitmap_wf_def disk_wf_def DISK_SECTOR_SIZE_def)
  moreover have "bm_used (swap_table ?s) = {..<unat (bit_cnt (swap_table ?s))}" by (auto simp: bm_used_def bm_bit_def)
  ultimately show ?thesis by (intro anon_swap_out_full) simp_all
qed

end
