(* ===== verification/Vm_Clock.thy ===== *)
theory Vm_Clock
  imports Vm_Swap
begin

unbundle bit_operations_syntax

text \<open>
  The choice of a victim (\<open>vm_get_victim\<close> of \<open>vm/vm.c\<close>) refines the second-chance policy: starting at the clock hand,
  the first frame whose page was not accessed is taken; the accessed flags of the frames passed are
  cleared; when all frames were accessed the hand comes back to the first one, which is taken.
\<close>

section \<open>The policy\<close>

definition second_chance :: "('a \<Rightarrow> bool) \<Rightarrow> 'a list \<Rightarrow> 'a" where
  "second_chance acc fs = (case dropWhile acc fs of [] \<Rightarrow> hd fs | f # _ \<Rightarrow> f)"

definition frame_va :: "vmst \<Rightarrow> ptr \<Rightarrow> ptr" where
  "frame_va s f = p_va (the (pages s (f_page (the (frames s f)))))"

definition accessed :: "vmst \<Rightarrow> ptr \<Rightarrow> bool" where
  "accessed s f \<longleftrightarrow> pte_of (ph s) (pml4 s) (frame_va s f) AND PTE_A \<noteq> 0"

text \<open>The frames in the order the hand meets them.\<close>

definition hand_order :: "vmst \<Rightarrow> ptr list" where
  "hand_order s = (case clock_start s of
     Clock_at f \<Rightarrow> dropWhile (\<lambda>g. g \<noteq> f) (frame_table s) @ takeWhile (\<lambda>g. g \<noteq> f) (frame_table s) | _ \<Rightarrow> frame_table s)"

text \<open>The frames belong to different pages of the running process, and the hand is in the table.\<close>

definition clock_ok :: "vmst \<Rightarrow> bool" where
  "clock_ok s \<longleftrightarrow> vm_ok (ph s) (pml4 s) \<and> distinct (frame_table s) \<and>
     (\<forall>f \<in> set (frame_table s). \<exists>fr pg. frames s f = Some fr \<and> pages s (f_page fr) = Some pg \<and> is_user_vaddr (p_va pg) \<and> pg_ofs (p_va pg) = 0) \<and>
     inj_on (frame_va s) (set (frame_table s)) \<and>
     (\<forall>f. clock_start s = Clock_at f \<longrightarrow> f \<in> set (frame_table s))"

section \<open>The frame table as a circle\<close>

lemma next_frame_mid: "distinct (xs @ x # ys) \<Longrightarrow> next_frame (xs @ x # ys) x = first_frame ys"
  by (induction xs) auto

lemma first_frame_cases: "first_frame xs = (if xs = [] then Clock_end else Clock_at (hd xs))"
  by (cases xs) (auto simp: first_frame_def)

definition cyc_next :: "ptr list \<Rightarrow> ptr \<Rightarrow> clock" where
  "cyc_next ft x = (case next_frame ft x of Clock_end \<Rightarrow> first_frame ft | c \<Rightarrow> c)"

lemma cyc_next_order:
  assumes d: "distinct (as @ h # bs)" and hs: "h # bs @ as = us @ x # vs"
  shows "cyc_next (as @ h # bs) x = Clock_at (if vs = [] then h else hd vs)"
proof -
  have "(h # bs) @ as = us @ x # vs" using hs by simp
  then consider (right) vs' where "h # bs = us @ x # vs'" "vs = vs' @ as" | (left) as1 where "as = as1 @ x # vs" "us = h # bs @ as1"
    by (auto simp: append_eq_append_conv2 append_eq_Cons_conv Cons_eq_append_conv) 
  then show ?thesis
  proof cases
    case right
    have n: "next_frame (as @ h # bs) x = first_frame vs'"
      using d next_frame_mid [of "as @ us" x vs'] by (simp add: right(1))
    show ?thesis
    proof (cases "vs' = []")
      case True
      have "hd (as @ h # bs) = (if vs = [] then h else hd vs)" using True right(2) by (cases as) auto
      then show ?thesis using n True by (simp add: cyc_next_def first_frame_cases)
    next
      case False
      then show ?thesis using n right(2) by (simp add: cyc_next_def first_frame_cases)
    qed
  next
    case left
    have "next_frame (as @ h # bs) x = first_frame (vs @ h # bs)"
      using d next_frame_mid [of as1 x "vs @ h # bs"] by (simp add: left(1))
    then show ?thesis by (cases vs) (simp_all add: cyc_next_def first_frame_cases)
  qed
qed

lemma hand_order_split:
  assumes "clock_start s = Clock_at h" "distinct (frame_table s)" "h \<in> set (frame_table s)"
  obtains as bs where "frame_table s = as @ h # bs" "hand_order s = h # bs @ as"
proof -
  obtain as bs where s: "frame_table s = as @ h # bs" "h \<notin> set as" using split_list_first [OF assms(3)] by blast
  then have "takeWhile (\<lambda>g. g \<noteq> h) (as @ h # bs) = as" "dropWhile (\<lambda>g. g \<noteq> h) (as @ h # bs) = h # bs"
    by (auto simp: takeWhile_append dropWhile_append)
  then show thesis using that s assms(1) by (simp add: hand_order_def)
qed

section \<open>The loop\<close>

lemma same_user_pages:
  assumes "is_user_vaddr a" "is_user_vaddr b" "pg_ofs a = 0" "pg_ofs b = 0"
  shows "same 4 a b \<longleftrightarrow> a = b"
proof -
  have "pg_round_down a = a" using PTE_ADDR_aligned [OF assms(3)] by (simp add: pg_round_down_def PGMASK_def)
  then show ?thesis using same_page_iff [OF assms(1,2,4)] by simp
qed

lemma clock_frame:
  assumes "clock_ok s" "x \<in> set (frame_table s)"
  obtains fr pg where "frames s x = Some fr" "pages s (f_page fr) = Some pg" "p_va pg = frame_va s x"
    "is_user_vaddr (frame_va s x)" "pg_ofs (frame_va s x) = 0"
  using assms by (force simp: clock_ok_def frame_va_def)

lemma frames_apart:
  assumes "clock_ok s" "x \<in> set (frame_table s)" "y \<in> set (frame_table s)" "same 4 va (frame_va s x)" "same 4 va (frame_va s y)"
  shows "x = y"
proof -
  have "same 4 (frame_va s x) (frame_va s y)" using assms(4,5) by (simp add: same_def)
  then have "frame_va s x = frame_va s y"
    using clock_frame [OF assms(1,2)] clock_frame [OF assms(1,3)] same_user_pages by metis
  then show ?thesis using assms(1-3) by (auto simp: clock_ok_def inj_on_def)
qed

lemma victim_loop_step:
  assumes "clock_ok s" "x \<in> set (frame_table s)"
  shows "victim_loop s x =
    (if \<not> accessed s x then ret (x, s\<lparr>clock_start := next_frame (frame_table s) x\<rparr>)
     else bindE (pml4_set_accessed (ph s) (pml4 s) (frame_va s x) False) (\<lambda>m.
       case cyc_next (frame_table s) x of
         Clock_at f \<Rightarrow> if Clock_at f \<noteq> clock_start s then victim_loop (s\<lparr>ph := m\<rparr>) f
           else ret (f, s\<lparr>ph := m, clock_start := next_frame (frame_table s) f\<rparr>)
       | _ \<Rightarrow> fail Null_deref))"
proof -
  obtain fr pg where f: "frames s x = Some fr" "pages s (f_page fr) = Some pg" "p_va pg = frame_va s x"
    using clock_frame [OF assms] by metis
  have ok: "vm_ok (ph s) (pml4 s)" using assms(1) by (simp add: clock_ok_def)
  show ?thesis
    by (subst victim_loop.simps) (auto simp: the_obj_def f pml4_reads(2) [OF ok] accessed_def cyc_next_def Let_def intro!: bindE_cong split: clock.split)
qed

lemma clear_step:
  assumes ok: "clock_ok s" and x: "x \<in> set (frame_table s)" "accessed s x"
  obtains m where "pml4_set_accessed (ph s) (pml4 s) (frame_va s x) False = ret m" "vm_ok m (pml4 s)" "keeps (ph s) m (pml4 s)"
    "\<And>va. pte_of m (pml4 s) va = (if same 4 va (frame_va s x) then take_bit 32 (pte_of (ph s) (pml4 s) va) AND NOT PTE_A else pte_of (ph s) (pml4 s) va)"
    "clock_ok (s\<lparr>ph := m\<rparr>)" "\<And>f. f \<in> set (frame_table s) \<Longrightarrow> f \<noteq> x \<Longrightarrow> accessed (s\<lparr>ph := m\<rparr>) f = accessed s f"
proof -
  have vm: "vm_ok (ph s) (pml4 s)" using ok by (simp add: clock_ok_def)
  have "tab (ph s) (pml4 s) 3 (frame_va s x) \<noteq> None" using x(2) by (cases "tab (ph s) (pml4 s) 3 (frame_va s x)") (auto simp: accessed_def pte_of_def)
  then obtain m where m: "pml4_set_accessed (ph s) (pml4 s) (frame_va s x) False = ret m" "vm_ok m (pml4 s)" "keeps (ph s) m (pml4 s)"
    "pte_of m (pml4 s) = (\<lambda>va. if same 4 va (frame_va s x) then take_bit 32 (pte_of (ph s) (pml4 s) (frame_va s x)) AND NOT PTE_A else pte_of (ph s) (pml4 s) va)"
    using pml4_set_accessed_ok [OF vm, of "frame_va s x"] by (metis (lifting) ext)
  have fv: "frame_va (s\<lparr>ph := m\<rparr>) = frame_va s" by (simp add: fun_eq_iff frame_va_def)
  have pte: "pte_of m (pml4 s) va = (if same 4 va (frame_va s x) then take_bit 32 (pte_of (ph s) (pml4 s) va) AND NOT PTE_A else pte_of (ph s) (pml4 s) va)" for va
    using pte_of_same [of va "frame_va s x" "ph s" "pml4 s"] by (simp add: m(4))
  have "clock_ok (s\<lparr>ph := m\<rparr>)" using ok m(2) by (simp add: clock_ok_def fv)
  moreover have "accessed (s\<lparr>ph := m\<rparr>) f = accessed s f" if "f \<in> set (frame_table s)" "f \<noteq> x" for f
    using frames_apart [OF ok that(1) x(1), of "frame_va s f"] that(2) by (auto simp: accessed_def fv pte)
  ultimately show thesis using that m(1-3) pte by blast
qed

lemma victim_loop_run:
  assumes "clock_ok s" and "clock_start s = Clock_at h" and "frame_table s = as @ h # bs" and "h # bs @ as = us @ x # vs"
  shows "\<exists>m. victim_loop s x = (let v = (case dropWhile (accessed s) (x # vs) of [] \<Rightarrow> h | f # _ \<Rightarrow> f) in
      ret (v, s\<lparr>ph := m, clock_start := next_frame (frame_table s) v\<rparr>)) \<and>
    vm_ok m (pml4 s) \<and> keeps (ph s) m (pml4 s) \<and>
    (\<forall>va. pte_of m (pml4 s) va = (if \<exists>f \<in> set (takeWhile (accessed s) (x # vs)). same 4 va (frame_va s f)
       then take_bit 32 (pte_of (ph s) (pml4 s) va) AND NOT PTE_A else pte_of (ph s) (pml4 s) va))"
  using assms
proof (induction vs arbitrary: s us x)
  case Nil
  have d: "distinct (as @ h # bs)" and vm: "vm_ok (ph s) (pml4 s)" using Nil.prems(1,3) by (auto simp: clock_ok_def)
  have "x \<in> set (h # bs @ as)" unfolding Nil.prems(4) by simp
  then have x: "x \<in> set (frame_table s)" using Nil.prems(3) by auto
  note step = victim_loop_step [OF Nil.prems(1) x]
  show ?case
  proof (cases "accessed s x")
    case False
    then show ?thesis using step vm by (intro exI [of _ "ph s"]) (simp add: Let_def)
  next
    case True
    obtain m where m: "pml4_set_accessed (ph s) (pml4 s) (frame_va s x) False = ret m" "vm_ok m (pml4 s)" "keeps (ph s) m (pml4 s)"
      "\<And>va. pte_of m (pml4 s) va = (if same 4 va (frame_va s x) then take_bit 32 (pte_of (ph s) (pml4 s) va) AND NOT PTE_A else pte_of (ph s) (pml4 s) va)"
      using clear_step [OF Nil.prems(1) x True] by metis
    have "cyc_next (frame_table s) x = Clock_at h" using cyc_next_order [OF d Nil.prems(4)] Nil.prems(3) by simp
    then show ?thesis using step True m Nil.prems(2) by (intro exI [of _ m]) (simp add: Let_def)
  qed
next
  case (Cons y vs)
  have d: "distinct (as @ h # bs)" and vm: "vm_ok (ph s) (pml4 s)" using Cons.prems(1,3) by (auto simp: clock_ok_def)
  then have dh: "distinct (us @ x # y # vs)" using Cons.prems(4) by (metis append.assoc append_Cons append_Nil distinct_append distinct_rotate rotate_append)
  have sub: "set (us @ x # y # vs) = set (frame_table s)" unfolding Cons.prems(4) [symmetric] Cons.prems(3) by auto
  then have x: "x \<in> set (frame_table s)" by auto
  note step = victim_loop_step [OF Cons.prems(1) x]
  show ?case
  proof (cases "accessed s x")
    case False
    then show ?thesis using step vm by (intro exI [of _ "ph s"]) (simp add: Let_def)
  next
    case True
    obtain m where m: "pml4_set_accessed (ph s) (pml4 s) (frame_va s x) False = ret m" "vm_ok m (pml4 s)" "keeps (ph s) m (pml4 s)"
      "\<And>va. pte_of m (pml4 s) va = (if same 4 va (frame_va s x) then take_bit 32 (pte_of (ph s) (pml4 s) va) AND NOT PTE_A else pte_of (ph s) (pml4 s) va)"
      "clock_ok (s\<lparr>ph := m\<rparr>)" "\<And>f. f \<in> set (frame_table s) \<Longrightarrow> f \<noteq> x \<Longrightarrow> accessed (s\<lparr>ph := m\<rparr>) f = accessed s f"
      by (rule clear_step [OF Cons.prems(1) x True]) (rule that)
    let ?s = "s\<lparr>ph := m\<rparr>"
    have fv: "frame_va ?s = frame_va s" by (simp add: fun_eq_iff frame_va_def)
    have acc: "accessed ?s f = accessed s f" if "f \<in> set (y # vs)" for f using m(6) [of f] that dh sub by auto
    have nx: "cyc_next (frame_table s) x = Clock_at y" using cyc_next_order [OF d Cons.prems(4)] Cons.prems(3) by simp
    have yh: "y \<noteq> h" using Cons.prems(4) dh by (cases us) auto
    have sel: "ph ?s = m" "pml4 ?s = pml4 s" "clock_start ?s = clock_start s" "frame_table ?s = frame_table s" by simp_all
    have hs: "h # bs @ as = (us @ [x]) @ y # vs" using Cons.prems(4) by simp
    from Cons.IH [of ?s "us @ [x]" y, unfolded sel fv, OF m(5) Cons.prems(2,3) hs] obtain m' where
      m': "victim_loop ?s y = (let v = (case dropWhile (accessed ?s) (y # vs) of [] \<Rightarrow> h | f # _ \<Rightarrow> f) in
          ret (v, ?s\<lparr>ph := m', clock_start := next_frame (frame_table s) v\<rparr>))" "vm_ok m' (pml4 s)" "keeps m m' (pml4 s)"
        "\<And>va. pte_of m' (pml4 s) va = (if \<exists>f \<in> set (takeWhile (accessed ?s) (y # vs)). same 4 va (frame_va s f)
          then take_bit 32 (pte_of m (pml4 s) va) AND NOT PTE_A else pte_of m (pml4 s) va)"
      by blast
    have dw: "dropWhile (accessed ?s) (y # vs) = dropWhile (accessed s) (y # vs)" "takeWhile (accessed ?s) (y # vs) = takeWhile (accessed s) (y # vs)"
      using acc by (auto intro!: dropWhile_cong takeWhile_cong)
    have apart: "\<not> same 4 va (frame_va s x)" if "f \<in> set (takeWhile (accessed s) (y # vs))" "same 4 va (frame_va s f)" for f va
    proof
      assume "same 4 va (frame_va s x)"
      moreover have "f \<in> set (y # vs)" using set_takeWhileD [OF that(1)] by simp
      ultimately show False using frames_apart [OF Cons.prems(1) _ x that(2)] sub dh by auto
    qed
    have "pte_of m' (pml4 s) va = (if \<exists>f \<in> set (takeWhile (accessed s) (x # y # vs)). same 4 va (frame_va s f)
        then take_bit 32 (pte_of (ph s) (pml4 s) va) AND NOT PTE_A else pte_of (ph s) (pml4 s) va)" for va
    proof (cases "\<exists>f \<in> set (takeWhile (accessed s) (y # vs)). same 4 va (frame_va s f)")
      case T: True
      then show ?thesis using m'(4) [of va] m(4) [of va] apart [of _ va] True unfolding dw(2) by (auto simp del: takeWhile.simps(2) simp: takeWhile.simps(2) [of _ x])
    next
      case F: False
      then show ?thesis using m'(4) [of va] m(4) [of va] True unfolding dw(2) by (simp del: takeWhile.simps(2) add: takeWhile.simps(2) [of _ x])
    qed
    moreover have "victim_loop s x = (let v = (case dropWhile (accessed s) (x # y # vs) of [] \<Rightarrow> h | f # _ \<Rightarrow> f) in
        ret (v, s\<lparr>ph := m', clock_start := next_frame (frame_table s) v\<rparr>))"
      using step True m(1) nx yh Cons.prems(2) m'(1) dw(1) by (simp add: Let_def)
    ultimately show ?thesis using m'(2) keeps_trans [OF m(3) m'(3)] by blast
  qed
qed

lemma next_frame_in: "next_frame ft f = Clock_at g \<Longrightarrow> g \<in> set ft"
  by (induction ft) (auto simp: first_frame_cases split: if_splits)

lemma vm_get_victim_at:
  assumes ok: "clock_ok s" and h: "clock_start s = Clock_at h" and v: "v = second_chance (accessed s) (hand_order s)"
  shows "\<exists>m. vm_get_victim s = ret (v, s\<lparr>ph := m, clock_start := next_frame (frame_table s) v\<rparr>) \<and> v \<in> set (frame_table s) \<and>
    set (hand_order s) = set (frame_table s) \<and> vm_ok m (pml4 s) \<and> keeps (ph s) m (pml4 s) \<and>
    (\<forall>va. pte_of m (pml4 s) va = (if \<exists>f \<in> set (takeWhile (accessed s) (hand_order s)). same 4 va (frame_va s f)
       then take_bit 32 (pte_of (ph s) (pml4 s) va) AND NOT PTE_A else pte_of (ph s) (pml4 s) va))"
proof -
  have "distinct (frame_table s)" "h \<in> set (frame_table s)" using ok h by (auto simp: clock_ok_def)
  from hand_order_split [OF h this] obtain as bs where o: "frame_table s = as @ h # bs" "hand_order s = h # bs @ as" by blast
  have "h # bs @ as = [] @ h # (bs @ as)" by simp
  from victim_loop_run [OF ok h o(1) this] have run: "\<exists>m. victim_loop s h = ret (v, s\<lparr>ph := m, clock_start := next_frame (frame_table s) v\<rparr>) \<and>
    vm_ok m (pml4 s) \<and> keeps (ph s) m (pml4 s) \<and>
    (\<forall>va. pte_of m (pml4 s) va = (if \<exists>f \<in> set (takeWhile (accessed s) (hand_order s)). same 4 va (frame_va s f)
       then take_bit 32 (pte_of (ph s) (pml4 s) va) AND NOT PTE_A else pte_of (ph s) (pml4 s) va))"
    unfolding v second_chance_def Let_def o(2) list.sel(1) .
  have "v \<in> set (hand_order s)"
    unfolding v second_chance_def using set_dropWhileD [of _ "accessed s" "hand_order s"] o(2) by (cases "dropWhile (accessed s) (hand_order s)") auto
  moreover have "set (hand_order s) = set (frame_table s)" using o by auto
  ultimately show ?thesis using run h by (simp add: vm_get_victim_def)
qed


lemma sample_clock_ok: "clock_ok sample_vmst" "frame_table sample_vmst = [0x20]"
proof -
  have f: "frames sample_vmst 0x20 = Some \<lparr>kva = 0x800400A000, ref_cnt = 1, f_page = 0x10\<rparr>" "pages sample_vmst 0x10 = Some sample_page"
    "ph sample_vmst = sample_vm" "pml4 sample_vmst = 0x8004000000" "clock_start sample_vmst = Clock_null"
    by (simp_all add: sample_vmst_def)
  show t: "frame_table sample_vmst = [0x20]" by (simp add: sample_vmst_def)
  show "clock_ok sample_vmst"
    using sample_vm_ok by (simp add: clock_ok_def t f sample_page_def is_user_vaddr_def is_kernel_vaddr_def KERN_BASE_def pg_ofs_def PGMASK_def)
qed


end
