(* ===== verification/Vm_Fault.thy ===== *)
theory Vm_Fault
  imports Vm_Clock
begin

unbundle bit_operations_syntax

text \<open>
  Page faults (\<open>vm_try_handle_fault\<close>, \<open>vm_handle_wp\<close>, \<open>vm_stack_growth\<close> and \<open>vm_claim_page\<close> of \<open>vm/vm.c\<close>): which faults are
  refused, that a growing stack gets a cleared page, and that a write to a shared page gets a copy.
\<close>

section \<open>Frames\<close>

definition user_page_free :: "phys \<Rightarrow> bool" where
  "user_page_free m \<longleftrightarrow> bm_used (used_map (user_pool m)) \<noteq> {..<unat (bit_cnt (used_map (user_pool m)))}"

lemma palloc_user_page:
  assumes wf: "phys_wf m" and "user_page_free m"
  obtains kv m' where "palloc_get_page m (PAL_USER OR PAL_ZERO) = ret (kv, m')" "kv \<noteq> NULL" "phys_wf m'" "kv \<notin> used_pages m"
    "used_pages m' = insert kv (used_pages m)" "cells m' = fill_cells (cells m) kv PGSIZE 0"
proof -
  have fl: "(PAL_USER OR PAL_ZERO) AND PAL_ASSERT = 0" "(PAL_USER OR PAL_ZERO) AND PAL_ZERO \<noteq> 0" "(PAL_USER OR PAL_ZERO) AND PAL_USER \<noteq> 0"
    by (simp_all add: PAL_USER_def PAL_ZERO_def PAL_ASSERT_def)
  have pw: "pool_wf (user_pool m)" "bitmap_wf (used_map (user_pool m))" using wf by (auto simp: phys_wf_def pool_wf_def)
  obtain i b where g: "bitmap_scan_and_flip (used_map (user_pool m)) 0 1 False = ret (of_nat i, b)" "of_nat i \<noteq> BITMAP_ERROR" "i < unat (bit_cnt (used_map (user_pool m)))"
    by (rule slot_get [OF pw(2)]) (use assms(2) in \<open>auto simp: user_page_free_def\<close>)
  have "page_at (user_pool m) i \<noteq> NULL" using page_at_props(3) [OF pw(1) g(3)] .
  then have "palloc_get_page m (PAL_USER OR PAL_ZERO) \<noteq> ret (NULL, m)"
    using g(1,2) fl(2,3) by (auto simp: palloc_get_page_def palloc_get_multiple_def page_at_def Let_def)
  then show thesis using palloc_get_page_ok [OF wf fl(1)] fl(2) that by auto
qed

text \<open>The state after \<open>vm_get_frame\<close> with a free page.\<close>

definition with_frame :: "vmst \<Rightarrow> phys \<Rightarrow> ptr \<Rightarrow> ptr \<Rightarrow> vmst" where
  "with_frame s m f kv = s\<lparr>heap := tl (heap s), ph := m, frames := (frames s)(f \<mapsto> \<lparr>kva = kv, ref_cnt = 1, f_page = NULL\<rparr>),
     frame_table := frame_table s @ [f]\<rparr>"

lemma vm_get_frame_fresh:
  assumes ok: "vm_ok (ph s) (pml4 s)" and "user_page_free (ph s)" and h: "heap s = f # hs" "f \<noteq> NULL"
  obtains kv m where "vm_get_frame s = ret (f, with_frame s m f kv)" "vm_ok m (pml4 s)" "pte_of m (pml4 s) = pte_of (ph s) (pml4 s)"
    "\<And>d va. d \<le> 3 \<Longrightarrow> tab m (pml4 s) d va = tab (ph s) (pml4 s) d va" "kv \<in> data_pages m (pml4 s)" "kv \<notin> used_pages (ph s)"
    "keeps (ph s) m (pml4 s)" "get_mem m kv 4096 = replicate 4096 0" "is_kernel_vaddr kv" "pg_ofs kv = 0" "kv \<noteq> NULL"
proof -
  have wf: "phys_wf (ph s)" using ok by (simp add: vm_ok_def)
  obtain kv m where p: "palloc_get_page (ph s) (PAL_USER OR PAL_ZERO) = ret (kv, m)" "kv \<noteq> NULL" "phys_wf m" "kv \<notin> used_pages (ph s)"
    "used_pages m = insert kv (used_pages (ph s))" "cells m = fill_cells (cells (ph s)) kv PGSIZE 0"
    by (rule palloc_user_page [OF wf assms(2)])
  note a = alloc_data [OF ok p(3-6)]
  have "vm_get_frame s = ret (f, with_frame s m f kv)"
    using p(1,2) h by (simp add: vm_get_frame_def with_frame_def frame_table_insert_def put_frame_def)
  then show thesis using used_page_props [OF p(3), of kv] p(2,4,5) a by (intro that) auto
qed

section \<open>Claiming a page that was never used\<close>

lemma fill_new:
  assumes k: "keeps s s' t" and ok: "vm_ok s t" "vm_ok s' t" and p: "p \<in> data_pages s' t" "p \<notin> used_pages s"
  shows "keeps s (s'\<lparr>cells := fill_cells (cells s') p PGSIZE v\<rparr>) t"
proof -
  have al: "pg_ofs q = 0" if "q \<in> used_pages r" "vm_ok r t" for q r using that used_page_props(1) by (auto simp: vm_ok_def)
  have "cells (s'\<lparr>cells := fill_cells (cells s') p PGSIZE v\<rparr>) a = cells s a" if "q \<in> data_pages s t" "a - q < PGSIZE" for q a
  proof -
    have q: "pg_ofs q = 0" "p \<noteq> q" using that(1) al [OF _ ok(1)] p(2) by (auto simp: data_pages_def)
    have "pg_ofs p = 0" using p(1) al [OF _ ok(2)] by (simp add: data_pages_def)
    then have "\<not> a - p < PGSIZE" using pages_apart [OF q(1)] q(2) that(2) by blast
    then show ?thesis using k that by (simp add: keeps_def fill_cells_def)
  qed
  then show ?thesis using k fill_data(4) [OF ok(2) p(1), of v] by (simp add: keeps_def)
qed

text \<open>The entry of a user page.\<close>

abbreviation user_pte :: "ptr \<Rightarrow> bool \<Rightarrow> u64" where
  "user_pte kv rw \<equiv> (kv - KERN_BASE) OR (PTE_P OR (if rw then PTE_W else 0) OR PTE_U)"

lemma claim_zero:
  assumes ok: "vm_ok (ph s) (pml4 s)" "pml4 s \<noteq> base_pml4 s" and fr: "user_page_free (ph s)" "heap s = f # hs" "f \<noteq> NULL"
    and p: "p \<noteq> NULL" "pages s p = Some pg" "operations pg = uninit_ops" "u_type pg = VM_ANON" "w0 pg = NULL" "w3 pg = sym_anon_initializer (syms s)"
    and va: "is_user_vaddr (p_va pg)" "pg_ofs (p_va pg) = 0" "tab (ph s) (pml4 s) 3 (p_va pg) \<noteq> None"
  obtains s' kv where "vm_do_claim_page s p = ret (True, s')" "vm_ok (ph s') (pml4 s)"
    "pte_of (ph s') (pml4 s) = (\<lambda>v. if same 4 v (p_va pg) then user_pte kv (writable pg) else pte_of (ph s) (pml4 s) v)"
    "kv \<notin> used_pages (ph s)" "keeps (ph s) (ph s') (pml4 s)" "get_mem (ph s') kv 4096 = replicate 4096 0" "is_kernel_vaddr kv" "pg_ofs kv = 0"
    "pages s' = (pages s)(p \<mapsto> pg\<lparr>p_frame := f, operations := anon_ops, w0 := set_lo NULL (- 1)\<rparr>)"
    "frames s' = (frames s)(f \<mapsto> \<lparr>kva = kv, ref_cnt = 1, f_page = p\<rparr>)" "spt_tab s' = spt_tab s" "pml4 s' = pml4 s"
    "frame_table s' = frame_table s @ [f]"
proof -
  let ?t = "pml4 s"
  obtain kv m where g: "vm_get_frame s = ret (f, with_frame s m f kv)" "vm_ok m ?t" "pte_of m ?t = pte_of (ph s) ?t"
    "\<And>d v. d \<le> 3 \<Longrightarrow> tab m ?t d v = tab (ph s) ?t d v" "kv \<in> data_pages m ?t" "kv \<notin> used_pages (ph s)"
    "keeps (ph s) m ?t" "get_mem m kv 4096 = replicate 4096 0" "is_kernel_vaddr kv" "pg_ofs kv = 0" "kv \<noteq> NULL"
    by (rule vm_get_frame_fresh [OF ok(1) fr]) (rule that)
  have "tab m ?t 3 (p_va pg) \<noteq> None" using va(3) g(4) by simp
  then obtain m1 where m1: "pml4_set_page (base_pml4 s) m ?t (p_va pg) kv (writable pg) = ret (True, m1)" "vm_ok m1 ?t" "keeps m m1 ?t"
    "pte_of m1 ?t = (\<lambda>v. if same 4 v (p_va pg) then user_pte kv (writable pg) else pte_of m ?t v)" "\<And>d v. d \<le> 3 \<Longrightarrow> tab m1 ?t d v = tab m ?t d v"
    by (rule pml4_set_page_present [OF g(2) va(1,2) g(9,10) ok(2), of "writable pg"]) (rule that)
  define m2 where "m2 = m1\<lparr>cells := fill_cells (cells m1) kv PGSIZE 0\<rparr>"
  have kd: "kv \<in> data_pages m1 ?t" using m1(3) g(5) by (auto simp: keeps_def)
  note fd = fill_data [OF m1(2) kd, where v = 0, folded m2_def]
  have kp: "keeps (ph s) m2 ?t" unfolding m2_def by (rule fill_new [OF keeps_trans [OF g(7) m1(3)] ok(1) m1(2) kd g(6)])
  have z: "get_mem m2 kv 4096 = replicate 4096 0" by (rule get_mem_fill_zero [OF g(10), of _ "cells m1"]) (simp add: m2_def)
  define s' where "s' = (with_frame s m2 f kv)\<lparr>frames := (frames s)(f \<mapsto> \<lparr>kva = kv, ref_cnt = 1, f_page = p\<rparr>),
    pages := (pages s)(p \<mapsto> pg\<lparr>p_frame := f, operations := anon_ops, w0 := set_lo NULL (- 1)\<rparr>)\<rparr>"
  have ty: "VM_ANON \<noteq> VM_MMAP" "VM_ANON \<noteq> VM_FILE" by (simp_all add: VM_ANON_def VM_MMAP_def VM_FILE_def)
  have run: "vm_do_claim_page s p = ret (True, s')"
    using g(1,11) m1(1) p ty
    by (simp add: vm_do_claim_page_def the_obj_def with_frame_def put_page_def put_frame_def Let_def swap_in_def uninit_initialize_def
        call_page_initializer_def anon_initializer_def call_init_def s'_def m2_def)
  have pte: "pte_of m2 ?t = (\<lambda>v. if same 4 v (p_va pg) then user_pte kv (writable pg) else pte_of (ph s) ?t v)"
    unfolding fd(2) m1(4) g(3) ..
  show thesis
    using run fd(1) pte g(6,9,10) kp z by (intro that [of s' kv]) (simp_all add: s'_def with_frame_def)
qed

section \<open>Growing the stack\<close>

lemma round_down_props [simp]: "pg_round_down (pg_round_down a) = pg_round_down a" "pg_ofs (pg_round_down a) = 0"
  by (simp_all add: pg_round_down_def pg_ofs_def and.assoc)

lemma round_down_aligned: "pg_ofs a = 0 \<Longrightarrow> pg_round_down a = a"
  using PTE_ADDR_aligned [of a] by (simp add: pg_round_down_def PGMASK_def)

definition new_anon_page :: "vmst \<Rightarrow> ptr \<Rightarrow> bool \<Rightarrow> page" where
  "new_anon_page s va wr = \<lparr>operations = uninit_ops, p_va = va, p_frame = NULL, writable = wr, is_swap = False,
     w0 = NULL, w1 = ucast VM_ANON, w2 = NULL, w3 = sym_anon_initializer (syms s), w4 = 0\<rparr>"

lemma vm_alloc_page_anon:
  assumes t: "spt_wf (spt_tab s)" "unat (h_elem_cnt (spt_tab s)) < 2 ^ 64 - 1" and h: "heap s = p # e # hs" "p \<noteq> NULL" "e \<noteq> NULL"
    and a: "pg_ofs a = 0" "spt_map (spt_tab s) a = None"
  obtains tb where "vm_alloc_page s VM_ANON a wr = ret (True, s\<lparr>heap := hs, pages := (pages s)(p \<mapsto> new_anon_page s a wr), spt_tab := tb\<rparr>)"
    "spt_wf tb" "spt_map tb = (spt_map (spt_tab s))(a \<mapsto> p)"
proof -
  obtain tb where tb: "spt_insert_page True (mem s) (spt_tab s) p a = ret (spt_map (spt_tab s) a = None, tb)" "spt_wf tb"
    "spt_map tb = (if spt_map (spt_tab s) a = None then (spt_map (spt_tab s))(a \<mapsto> p) else spt_map (spt_tab s))"
    by (rule spt_insert_map [OF t h(2)])
  have ty: "VM_TYPE VM_ANON = VM_ANON" "VM_ANON \<noteq> VM_UNINIT" by (simp_all add: VM_TYPE_def VM_ANON_def VM_UNINIT_def)
  have "spt_find_page (spt_tab s) a = ret NULL" using spt_find_map [OF t(1), of a] round_down_aligned [OF a(1)] a(2) by simp
  then have "vm_alloc_page s VM_ANON a wr = ret (True, s\<lparr>heap := hs, pages := (pages s)(p \<mapsto> new_anon_page s a wr), spt_tab := tb\<rparr>)"
    using h tb(1) ty a(2)
    by (simp add: vm_alloc_page_def vm_alloc_page_with_initializer_def uninit_new_def put_page_def the_obj_def new_anon_page_def Let_def)
  then show thesis using tb(2,3) a(2) by (intro that) simp_all
qed

definition in_stack_window :: "vmst \<Rightarrow> ptr \<Rightarrow> bool" where
  "in_stack_window s a \<longleftrightarrow> user_rsp s - STACK_GROW_RANGE \<le> a \<and> a < USER_STACK \<and> USER_STACK - push_bit 20 1 \<le> a"

lemma stack_user: "a < USER_STACK \<Longrightarrow> is_user_vaddr a"
  by (simp add: is_user_vaddr_def is_kernel_vaddr_def USER_STACK_def KERN_BASE_def word_less_nat_alt word_le_nat_alt)

text \<open>
  C11. The stack grows on demand: a fault on an address without a page, not further below the stack pointer than
  the code allows and within a megabyte below the top of the user stack, returns success, and when there is
  memory the page of the address is entered in the supplemental page table and mapped writable to a memory
  page that was not in use and is all zero, whatever the kind of access; no other user address is
  mapped differently, and no byte of the data pages in use changes.
\<close>

theorem stack_growth_correct:
  assumes ok: "vm_ok (ph s) (pml4 s)" "pml4 s \<noteq> base_pml4 s" and fr: "user_page_free (ph s)"
    and h: "heap s = p # e # f # hs" "p \<noteq> NULL" "e \<noteq> NULL" "f \<noteq> NULL"
    and t: "spt_wf (spt_tab s)" "unat (h_elem_cnt (spt_tab s)) < 2 ^ 64 - 1"
    and a: "spt_map (spt_tab s) (pg_round_down addr) = None" "in_stack_window s (pg_round_down addr)"
      "tab (ph s) (pml4 s) 3 (pg_round_down addr) \<noteq> None"
  shows "\<exists>s' kv. vm_try_handle_fault s addr user write not_present = ret (True, s') \<and> vm_ok (ph s') (pml4 s) \<and>
    spt_map (spt_tab s') = (spt_map (spt_tab s))(pg_round_down addr \<mapsto> p) \<and> kv \<notin> used_pages (ph s) \<and>
    (\<forall>va. is_user_vaddr va \<longrightarrow> pml4_get_page (ph s') (pml4 s) va =
       (if pg_round_down va = pg_round_down addr then ret (kv + pg_ofs va) else pml4_get_page (ph s) (pml4 s) va)) \<and>
    pte_of (ph s') (pml4 s) (pg_round_down addr) = user_pte kv True \<and>
    get_mem (ph s') kv 4096 = replicate 4096 0 \<and> keeps (ph s) (ph s') (pml4 s)"
proof -
  let ?a = "pg_round_down addr"
  have ua: "is_user_vaddr ?a" using a(2) stack_user by (simp add: in_stack_window_def)
  obtain tb where al: "vm_alloc_page s VM_ANON ?a True = ret (True, s\<lparr>heap := f # hs, pages := (pages s)(p \<mapsto> new_anon_page s ?a True), spt_tab := tb\<rparr>)"
    "spt_wf tb" "spt_map tb = (spt_map (spt_tab s))(?a \<mapsto> p)"
    by (rule vm_alloc_page_anon [OF t h(1-3) round_down_props(2) a(1), of True])
  define s1 where "s1 = s\<lparr>heap := f # hs, pages := (pages s)(p \<mapsto> new_anon_page s ?a True), spt_tab := tb\<rparr>"
  have pg: "pages s1 p = Some (new_anon_page s ?a True)" "heap s1 = f # hs" "ph s1 = ph s" "pml4 s1 = pml4 s" "base_pml4 s1 = base_pml4 s" "syms s1 = syms s" "spt_tab s1 = tb"
    by (simp_all add: s1_def)
  have np: "operations (new_anon_page s ?a True) = uninit_ops" "u_type (new_anon_page s ?a True) = VM_ANON" "w0 (new_anon_page s ?a True) = NULL"
    "w3 (new_anon_page s ?a True) = sym_anon_initializer (syms s)" "p_va (new_anon_page s ?a True) = ?a" "writable (new_anon_page s ?a True) = True"
    by (simp_all add: new_anon_page_def VM_ANON_def)
  obtain s' kv where c: "vm_do_claim_page s1 p = ret (True, s')" "vm_ok (ph s') (pml4 s)"
    "pte_of (ph s') (pml4 s) = (\<lambda>v. if same 4 v ?a then user_pte kv True else pte_of (ph s) (pml4 s) v)"
    "kv \<notin> used_pages (ph s)" "keeps (ph s) (ph s') (pml4 s)" "get_mem (ph s') kv 4096 = replicate 4096 0" "is_kernel_vaddr kv" "pg_ofs kv = 0"
    "pages s' = (pages s1)(p \<mapsto> (new_anon_page s ?a True)\<lparr>p_frame := f, operations := anon_ops, w0 := set_lo NULL (- 1)\<rparr>)"
    "frames s' = (frames s1)(f \<mapsto> \<lparr>kva = kv, ref_cnt = 1, f_page = p\<rparr>)" "spt_tab s' = tb" "pml4 s' = pml4 s" "frame_table s' = frame_table s1 @ [f]"
    by (rule claim_zero [of s1 f hs p "new_anon_page s ?a True", unfolded pg np, OF ok fr refl h(4,2) refl refl refl refl refl ua round_down_props(2) a(3)]) (rule that)
  have "spt_find_page tb ?a = ret p" using spt_find_map [OF al(2), of ?a] al(3) by simp
  then have "vm_claim_page s1 ?a = ret (True, s')" using c(1) h(2) by (simp add: vm_claim_page_def pg)
  then have "vm_stack_growth s ?a = ret s'" using al(1) by (simp add: vm_stack_growth_def s1_def)
  moreover have "spt_find_page (spt_tab s) ?a = ret NULL" using spt_find_map [OF t(1), of ?a] a(1) by simp
  ultimately have run: "vm_try_handle_fault s addr user write not_present = ret (True, s')"
    using a(2) by (simp add: vm_try_handle_fault_def in_stack_window_def Let_def)
  have "pml4_get_page (ph s') (pml4 s) va = (if pg_round_down va = ?a then ret (kv + pg_ofs va) else pml4_get_page (ph s) (pml4 s) va)"
    if "is_user_vaddr va" for va
    using mapped_page [OF c(2) that c(7,8), of True] get_page_eq [OF ok(1) that] get_page_eq [OF c(2) that]
      same_page_iff [OF that ua round_down_props(2)] by (auto simp: c(3))
  then show ?thesis using run c(2-6,11) al(3) by (intro exI [of _ s'] exI [of _ kv]) simp
qed

section \<open>Copy on write\<close>

text \<open>
  C35. Writing to a shared page: when the frame of a page has more than one owner, \<open>vm_handle_wp\<close> gives the page a new
  frame with one owner in a memory page that was not in use, maps it writable there with an exact copy
  of the shared bytes, takes one owner from the shared frame and leaves its bytes alone; when the
  frame has one owner the page is mapped writable to the same memory, whose bytes do not change. No other
  user address is mapped differently.
\<close>

theorem vm_handle_wp_copies:
  assumes ok: "vm_ok (ph s) (pml4 s)" "pml4 s \<noteq> base_pml4 s" and fr: "user_page_free (ph s)" "heap s = f # hs" "f \<noteq> NULL" "f \<noteq> p_frame pg"
    and p: "p \<noteq> NULL" "pages s p = Some pg" "frames s (p_frame pg) = Some cf" "in_int32 (ref_cnt cf)"
    and k: "kva cf \<in> data_pages (ph s) (pml4 s)"
    and va: "is_user_vaddr (p_va pg)" "pg_ofs (p_va pg) = 0" "tab (ph s) (pml4 s) 3 (p_va pg) \<noteq> None"
  shows "\<exists>s' kv. vm_handle_wp s p = ret (True, s') \<and> vm_ok (ph s') (pml4 s) \<and>
    (if ref_cnt cf > 1
     then kv \<notin> used_pages (ph s) \<and> pages s' = (pages s)(p \<mapsto> pg\<lparr>p_frame := f\<rparr>) \<and>
       frames s' = (frames s)(f \<mapsto> \<lparr>kva = kv, ref_cnt = 1, f_page = NULL\<rparr>, p_frame pg \<mapsto> cf\<lparr>ref_cnt := ref_cnt cf - 1\<rparr>)
     else kv = kva cf \<and> pages s' = pages s \<and> frames s' = (frames s)(p_frame pg \<mapsto> cf\<lparr>f_page := p\<rparr>)) \<and>
    get_mem (ph s') kv 4096 = get_mem (ph s) (kva cf) 4096 \<and> keeps (ph s) (ph s') (pml4 s) \<and>
    (\<forall>v. pte_of (ph s') (pml4 s) v = (if same 4 v (p_va pg) then user_pte kv True else pte_of (ph s) (pml4 s) v))"
proof (cases "ref_cnt cf > 1")
  case True
  let ?t = "pml4 s" and ?b = "get_mem (ph s) (kva cf) 4096"
  obtain kv m where g: "vm_get_frame s = ret (f, with_frame s m f kv)" "vm_ok m ?t" "pte_of m ?t = pte_of (ph s) ?t"
    "\<And>d v. d \<le> 3 \<Longrightarrow> tab m ?t d v = tab (ph s) ?t d v" "kv \<in> data_pages m ?t" "kv \<notin> used_pages (ph s)"
    "keeps (ph s) m ?t" "get_mem m kv 4096 = replicate 4096 0" "is_kernel_vaddr kv" "pg_ofs kv = 0" "kv \<noteq> NULL"
    by (rule vm_get_frame_fresh [OF ok(1) fr(1-3)]) (rule that)
  have b: "get_mem m (kva cf) 4096 = ?b" by (rule keeps_get_mem [OF g(7) ok(1) k])
  define m1 where "m1 = put_mem m kv ?b"
  have l: "0 + length ?b \<le> 4096" by simp
  note pd = put_mem_data [OF g(2,5) l, simplified, folded m1_def]
  have kp: "keeps (ph s) m1 ?t" using put_mem_new [OF g(7) ok(1) g(2,5,6) l] by (simp add: m1_def)
  have "tab m1 ?t 3 (p_va pg) \<noteq> None" using va(3) g(4) pd(3) by simp
  then obtain m2 where m2: "pml4_set_page (base_pml4 s) m1 ?t (p_va pg) kv True = ret (True, m2)" "vm_ok m2 ?t" "keeps m1 m2 ?t"
    "pte_of m2 ?t = (\<lambda>v. if same 4 v (p_va pg) then user_pte kv True else pte_of m1 ?t v)" "\<And>d v. d \<le> 3 \<Longrightarrow> tab m2 ?t d v = tab m1 ?t d v"
    by (rule pml4_set_page_present [OF pd(1) va(1,2) g(9,10) ok(2), of True]) (rule that)
  have c: "get_mem m2 kv 4096 = ?b"
    using keeps_get_mem [OF m2(3) pd(1), of kv] pd(4) g(5) get_put_mem [of ?b 4096 m kv] by (simp add: m1_def)
  have i: "int32 (ref_cnt cf - 1) = ref_cnt cf - 1" using True p(4) by (intro int32_id) (simp add: in_int32_def)
  define s' where "s' = (with_frame s m2 f kv)\<lparr>pages := (pages s)(p \<mapsto> pg\<lparr>p_frame := f\<rparr>),
    frames := (frames s)(f \<mapsto> \<lparr>kva = kv, ref_cnt = 1, f_page = NULL\<rparr>, p_frame pg \<mapsto> cf\<lparr>ref_cnt := ref_cnt cf - 1\<rparr>)\<rparr>"
  have "vm_handle_wp s p = ret (True, s')"
    using p(1-3) True g(1) fr(4) m2(1) b i
    by (simp add: vm_handle_wp_def the_obj_def with_frame_def put_page_def put_frame_def Let_def m1_def [symmetric] s'_def)
  moreover have "pte_of m2 ?t v = (if same 4 v (p_va pg) then user_pte kv True else pte_of (ph s) ?t v)" for v
    unfolding m2(4) pd(2) g(3) ..
  ultimately show ?thesis using True g(6) m2(2) c keeps_trans [OF kp m2(3)]
    by (intro exI [of _ s'] exI [of _ kv]) (simp add: s'_def with_frame_def)
next
  case False
  let ?t = "pml4 s"
  have kp: "is_kernel_vaddr (kva cf)" "pg_ofs (kva cf) = 0" using used_page_props [of "ph s" "kva cf"] ok(1) k by (auto simp: vm_ok_def data_pages_def)
  obtain m where m: "pml4_set_page (base_pml4 s) (ph s) ?t (p_va pg) (kva cf) True = ret (True, m)" "vm_ok m ?t" "keeps (ph s) m ?t"
    "pte_of m ?t = (\<lambda>v. if same 4 v (p_va pg) then user_pte (kva cf) True else pte_of (ph s) ?t v)" "\<And>d v. d \<le> 3 \<Longrightarrow> tab m ?t d v = tab (ph s) ?t d v"
    by (rule pml4_set_page_present [OF ok(1) va(1,2) kp ok(2) va(3), of True]) (rule that)
  define s' where "s' = s\<lparr>frames := (frames s)(p_frame pg \<mapsto> cf\<lparr>f_page := p\<rparr>), ph := m\<rparr>"
  have "vm_handle_wp s p = ret (True, s')"
    using p(1-3) False m(1) by (simp add: vm_handle_wp_def the_obj_def put_frame_def Let_def s'_def)
  then show ?thesis using False m(2-4) keeps_get_mem [OF m(3) ok(1) k]
    by (intro exI [of _ s'] exI [of _ "kva cf"]) (simp add: s'_def)
qed

text \<open>
  Faults that are refused: when no page is entered for the address and it is outside the window of the
  stack, and when a page that is not writable is written to, \<open>vm_try_handle_fault\<close> returns false and
  changes nothing.
\<close>

theorem vm_try_handle_fault_refuses:
  assumes "spt_wf (spt_tab s)"
    and "case spt_map (spt_tab s) (pg_round_down addr) of None \<Rightarrow> \<not> in_stack_window s (pg_round_down addr)
      | Some p \<Rightarrow> p \<noteq> NULL \<and> write \<and> (\<exists>pg. pages s p = Some pg \<and> \<not> writable pg)"
  shows "vm_try_handle_fault s addr user write not_present = ret (False, s)"
proof (cases "spt_map (spt_tab s) (pg_round_down addr)")
  case None
  then have "\<not> in_stack_window s (pg_round_down addr)" using assms(2) by simp
  moreover have "spt_find_page (spt_tab s) (pg_round_down addr) = ret NULL" using spt_find_map [OF assms(1)] None by simp
  ultimately show ?thesis unfolding in_stack_window_def vm_try_handle_fault_def Let_def by (simp only: bindE_simps if_False simp_thms if_True)
next
  case (Some p)
  then obtain pg where "p \<noteq> NULL" "write" "pages s p = Some pg" "\<not> writable pg" using assms(2) by auto
  moreover have "spt_find_page (spt_tab s) (pg_round_down addr) = ret p" using spt_find_map [OF assms(1)] Some by simp
  ultimately show ?thesis by (simp add: vm_try_handle_fault_def the_obj_def Let_def)
qed

section \<open>A sample address space\<close>

text \<open>Three tables lead to the page tables of the stack; the frame of the sample page is in use.\<close>

definition sample_tables :: phys where
  "sample_tables = \<lparr>kernel_pool = \<lparr>used_map = \<lparr>bit_cnt = 10, elems = [15]\<rparr>, pool_base = 0x8004000000\<rparr>,
     user_pool = \<lparr>used_map = \<lparr>bit_cnt = 10, elems = [1]\<rparr>, pool_base = 0x800400a000\<rparr>,
     cells = (\<lambda>_. 0)(0x8004000000 := 0x1007, 0x8004001008 := 0x2007, 0x80040021D0 := 0x3007)\<rparr>"

lemma sample_wf: "phys_wf sample_tables"
  by (simp add: phys_wf_def sample_tables_def pool_wf_def bitmap_wf_def pools_apart_def is_kernel_vaddr_def KERN_BASE_def pg_ofs_def PGMASK_def)

lemma less_4: "i < 4 \<Longrightarrow> i = 0 \<or> i = 1 \<or> i = 2 \<or> i = 3" for i :: nat
  by linarith

lemma sample_used:
  "i < 4 \<Longrightarrow> 0x8004000000 + 4096 * of_nat i \<in> used_pages sample_tables" "0x800400a000 \<in> used_pages sample_tables"
proof -
  assume "i < 4"
  then have "i \<in> bm_used \<lparr>bit_cnt = 10, elems = [15]\<rparr>"
    by (elim less_4 [elim_format] disjE) (simp_all add: bm_used_def bm_bit_def)
  then have "page_at (kernel_pool sample_tables) i \<in> pool_pages (kernel_pool sample_tables)"
    unfolding pool_pages_def by (intro imageI) (simp add: sample_tables_def)
  then show "0x8004000000 + 4096 * of_nat i \<in> used_pages sample_tables"
    by (simp add: used_pages_def page_at_def sample_tables_def PGSIZE_def)
next
  have "0 \<in> bm_used \<lparr>bit_cnt = 10, elems = [1]\<rparr>" by (simp add: bm_used_def bm_bit_def)
  then have "page_at (user_pool sample_tables) 0 \<in> pool_pages (user_pool sample_tables)"
    unfolding pool_pages_def by (intro imageI) (simp add: sample_tables_def)
  then show "0x800400a000 \<in> used_pages sample_tables" by (simp add: used_pages_def page_at_def sample_tables_def)
qed

definition sample_way :: "nat \<Rightarrow> u64" where
  "sample_way d = (if d = 0 then 0 else if d = 1 then 1 else 58)"

lemma sample_cells:
  assumes "i < 512" and "d < 4"
  shows "cells sample_tables (0x8004000000 + 4096 * of_nat d + 8 * i) =
    (if d < 3 \<and> i = sample_way d then 0x1007 + 0x1000 * of_nat d else 0)"
proof -
  have al: "pg_ofs (0x8004000000 + 4096 * of_nat e) = 0" if "e < 4" for e
    using that by (elim less_4 [elim_format] disjE) (simp_all add: pg_ofs_def PGMASK_def)
  have s: "0x8004000000 + 4096 * of_nat d + 8 * i = 0x8004000000 + 4096 * of_nat e + 8 * j \<longleftrightarrow> d = e \<and> i = j" if "e < 4" "j < 512" for e j
  proof -
    have "(0x8004000000 + 4096 * of_nat d :: ptr) = 0x8004000000 + 4096 * of_nat e \<longleftrightarrow> d = e"
      using assms(2) that(1) by (elim less_4 [elim_format] disjE) simp_all
    then show ?thesis using slot_eq_iff [OF al [OF assms(2)] al [OF that(1)] assms(1) that(2)] by simp
  qed
  from s [of 0 0] s [of 1 1] s [of 2 58] show ?thesis
    using less_4 [OF assms(2)] by (elim disjE) (simp_all add: sample_tables_def sample_way_def)
qed

lemma sample_tab: "d \<le> 3 \<Longrightarrow> tab sample_tables 0x8004000000 d va =
    (if \<forall>e < d. idx e va = sample_way e then Some (0x8004000000 + 4096 * of_nat d) else None)"
proof (induction d)
  case (Suc d)
  then have d: "d < 3" "d < 4" by simp_all
  have e: "(0x1007 + 0x1000 * of_nat d :: u64) AND PTE_P \<noteq> 0 \<and> ptov (PTE_ADDR (0x1007 + 0x1000 * of_nat d)) = 0x8004000000 + 4096 * of_nat (Suc d)"
    using less_4 [OF d(2)] d(1) by (elim disjE) (simp_all add: PTE_P_def ptov_def PTE_ADDR_def KERN_BASE_def)
  show ?case using Suc.IH d e sample_cells [OF idx_less d(2), of d va] by (auto simp: Let_def less_Suc_eq)
qed simp

lemma sample_tables_ok: "vm_ok sample_tables 0x8004000000"
  unfolding vm_ok_def
proof (intro conjI allI impI sample_wf, goal_cases)
  case (1 d va t)
  then show ?case using sample_tab [of d va] sample_used(1) [of d] by (auto split: if_splits)
next
  case (2 d d' va va' t)
  then have "(0x8004000000 + 4096 * of_nat d :: ptr) = 0x8004000000 + 4096 * of_nat d'" "d < 4" "d' < 4"
    using sample_tab [of d va] sample_tab [of d' va'] by (auto split: if_splits)
  then show ?case by (elim less_4 [elim_format] disjE) simp_all
next
  case (3 d d' va va' t)
  then have "(0x8004000000 + 4096 * of_nat d :: ptr) = 0x8004000000 + 4096 * of_nat d'" "d < 4" "d' < 4"
    "\<forall>e < d. idx e va = sample_way e" "\<forall>e < d'. idx e va' = sample_way e"
    using sample_tab [of d va] sample_tab [of d' va'] by (auto split: if_splits)
  moreover from this have "d = d'" by (elim less_4 [elim_format] disjE) simp_all
  ultimately show ?case by (simp add: same_def)
qed

lemma sample_stack_tab: "tab sample_tables 0x8004000000 3 0x4747E000 \<noteq> None"
proof -
  have "idx e 0x4747E000 = sample_way e" if "e < 3" for e
    using less_4 [of e] that by (auto simp: idx_def sample_way_def PML4_def PDPE_def PDX_def)
  then show ?thesis using sample_tab [of 3 "0x4747E000"] by simp
qed

lemma sample_user_free: "user_page_free sample_tables"
proof -
  have "1 \<notin> bm_used (used_map (user_pool sample_tables))" by (simp add: bm_used_def bm_bit_def sample_tables_def bit_1_iff)
  moreover have "1 \<in> {..<unat (bit_cnt (used_map (user_pool sample_tables)))}" by (simp add: sample_tables_def)
  ultimately show ?thesis unfolding user_page_free_def by metis
qed

lemma sample_spt_wf: "spt_wf (spt_tab sample_vmst)" "spt_map (spt_tab sample_vmst) a = None" "h_elem_cnt (spt_tab sample_vmst) = 0"
  by (simp_all add: sample_vmst_def empty_spt_wf)

theorem stack_growth_correct_witness:
  "\<exists>s' kv. vm_try_handle_fault (sample_vmst\<lparr>ph := sample_tables\<rparr>) 0x4747EFF8 True True True = ret (True, s') \<and>
     pml4_get_page (ph s') 0x8004000000 0x4747EFF8 = ret (kv + 0xFF8) \<and> get_mem (ph s') kv 4096 = replicate 4096 0"
proof -
  let ?s = "sample_vmst\<lparr>ph := sample_tables\<rparr>"
  have sel: "ph ?s = sample_tables" "pml4 ?s = 0x8004000000" "base_pml4 ?s = 0" "heap ?s = [0x30, 0x40, 0x50]" "spt_tab ?s = spt_tab sample_vmst" "user_rsp ?s = 0x4747F000"
    by (simp_all add: sample_vmst_def)
  have a: "pg_round_down 0x4747EFF8 = 0x4747E000" "pg_ofs 0x4747EFF8 = 0xFF8" "is_user_vaddr 0x4747EFF8"
    by (simp_all add: pg_round_down_def pg_ofs_def PGMASK_def is_user_vaddr_def is_kernel_vaddr_def KERN_BASE_def)
  have w: "in_stack_window ?s 0x4747E000" by (simp add: in_stack_window_def sel STACK_GROW_RANGE_def USER_STACK_def)
  have "\<exists>s' kv. vm_try_handle_fault ?s 0x4747EFF8 True True True = ret (True, s') \<and> vm_ok (ph s') (pml4 ?s) \<and>
    spt_map (spt_tab s') = (spt_map (spt_tab ?s))(pg_round_down 0x4747EFF8 \<mapsto> 0x30) \<and> kv \<notin> used_pages (ph ?s) \<and>
    (\<forall>va. is_user_vaddr va \<longrightarrow> pml4_get_page (ph s') (pml4 ?s) va =
       (if pg_round_down va = pg_round_down 0x4747EFF8 then ret (kv + pg_ofs va) else pml4_get_page (ph ?s) (pml4 ?s) va)) \<and>
    pte_of (ph s') (pml4 ?s) (pg_round_down 0x4747EFF8) = user_pte kv True \<and>
    get_mem (ph s') kv 4096 = replicate 4096 0 \<and> keeps (ph ?s) (ph s') (pml4 ?s)"
    by (rule stack_growth_correct [where p = "0x30" and e = "0x40" and f = "0x50" and hs = "[]"])
      (simp_all only: sel a(1) sample_tables_ok sample_user_free sample_spt_wf w sample_stack_tab, simp_all)
  then obtain s' kv where r: "vm_try_handle_fault ?s 0x4747EFF8 True True True = ret (True, s')"
    "pml4_get_page (ph s') (pml4 ?s) 0x4747EFF8 = ret (kv + pg_ofs 0x4747EFF8)" "get_mem (ph s') kv 4096 = replicate 4096 0"
    using a(3) by (metis (no_types, lifting))
  then show ?thesis unfolding sel(2) a(2) by blast
qed

lemma sample_data: "0x800400a000 \<in> data_pages sample_tables 0x8004000000"
proof -
  have "tab sample_tables 0x8004000000 d va \<noteq> Some 0x800400a000" if "d \<le> 3" for d va
  proof -
    have "(0x8004000000 + 4096 * of_nat d :: ptr) \<noteq> 0x800400a000" using less_4 [of d] that by auto
    then show ?thesis using sample_tab [OF that] by simp
  qed
  then show ?thesis using sample_used(2) by (auto simp: data_pages_def tables_def)
qed

definition sample_shared :: vmst where
  "sample_shared = sample_vmst\<lparr>ph := sample_tables, pages := [0x10 \<mapsto> sample_page\<lparr>p_va := 0x4747E000\<rparr>],
     frames := [0x20 \<mapsto> \<lparr>kva = 0x800400A000, ref_cnt = 2, f_page = 0x10\<rparr>]\<rparr>"

theorem vm_handle_wp_copies_witness:
  "\<exists>s' kv. vm_handle_wp sample_shared 0x10 = ret (True, s') \<and> kv \<noteq> 0x800400A000 \<and>
     get_mem (ph s') kv 4096 = get_mem (ph sample_shared) 0x800400A000 4096"
proof -
  let ?s = sample_shared and ?pg = "sample_page\<lparr>p_va := 0x4747E000\<rparr>" and ?cf = "\<lparr>kva = 0x800400A000, ref_cnt = 2, f_page = 0x10\<rparr> :: frame"
  have sel: "ph ?s = sample_tables" "pml4 ?s = 0x8004000000" "base_pml4 ?s = 0" "heap ?s = [0x30, 0x40, 0x50]"
    "pages ?s 0x10 = Some ?pg" "frames ?s 0x20 = Some ?cf" "p_va ?pg = 0x4747E000" "kva ?cf = 0x800400A000" "p_frame ?pg = 0x20"
    by (simp_all add: sample_shared_def sample_vmst_def sample_page_def)
  have u: "is_user_vaddr 0x4747E000" "pg_ofs 0x4747E000 = 0"
    by (simp_all add: pg_ofs_def PGMASK_def is_user_vaddr_def is_kernel_vaddr_def KERN_BASE_def)
  have "\<exists>s' kv. vm_handle_wp ?s 0x10 = ret (True, s') \<and> vm_ok (ph s') (pml4 ?s) \<and>
    (if ref_cnt ?cf > 1
     then kv \<notin> used_pages (ph ?s) \<and> pages s' = (pages ?s)(0x10 \<mapsto> ?pg\<lparr>p_frame := 0x30\<rparr>) \<and>
       frames s' = (frames ?s)(0x30 \<mapsto> \<lparr>kva = kv, ref_cnt = 1, f_page = NULL\<rparr>, p_frame ?pg \<mapsto> ?cf\<lparr>ref_cnt := ref_cnt ?cf - 1\<rparr>)
     else kv = kva ?cf \<and> pages s' = pages ?s \<and> frames s' = (frames ?s)(p_frame ?pg \<mapsto> ?cf\<lparr>f_page := 0x10\<rparr>)) \<and>
    get_mem (ph s') kv 4096 = get_mem (ph ?s) (kva ?cf) 4096 \<and> keeps (ph ?s) (ph s') (pml4 ?s) \<and>
    (\<forall>v. pte_of (ph s') (pml4 ?s) v = (if same 4 v (p_va ?pg) then user_pte kv True else pte_of (ph ?s) (pml4 ?s) v))"
    by (rule vm_handle_wp_copies [where hs = "[0x40, 0x50]"])
      (simp_all only: sel sample_tables_ok sample_user_free sample_data sample_stack_tab u, simp_all add: in_int32_def)
  then obtain s' kv where r: "vm_handle_wp ?s 0x10 = ret (True, s')" "kv \<notin> used_pages (ph ?s)" "get_mem (ph s') kv 4096 = get_mem (ph ?s) (kva ?cf) 4096"
    by auto
  have "kv \<noteq> 0x800400A000" using r(2) sample_used(2) by (auto simp: sel)
  then show ?thesis using r unfolding sel(8) by blast
qed

theorem vm_try_handle_fault_refuses_witness:
  "vm_try_handle_fault sample_vmst 0x1234 True True True = ret (False, sample_vmst)"
proof (rule vm_try_handle_fault_refuses [OF sample_spt_wf(1)])
  have "pg_round_down 0x1234 = 0x1000" by (simp add: pg_round_down_def PGMASK_def)
  then show "case spt_map (spt_tab sample_vmst) (pg_round_down 0x1234) of None \<Rightarrow> \<not> in_stack_window sample_vmst (pg_round_down 0x1234)
      | Some p \<Rightarrow> p \<noteq> NULL \<and> True \<and> (\<exists>pg. pages sample_vmst p = Some pg \<and> \<not> writable pg)"
    unfolding sample_spt_wf(2) by (simp add: in_stack_window_def sample_vmst_def STACK_GROW_RANGE_def USER_STACK_def)
qed

text \<open>Observations for the findings: a page that is swapped out stops a fork, since its frame is the null pointer.\<close>

lemma fork_of_swapped_page_faults:
  assumes "spt_wf (spt_tab s)" and "spt_map (spt_tab s) (pg_round_down va) = Some p" "p \<noteq> NULL" "pages s p = Some pg"
    and "pages s parent = Some par" "p_frame par = NULL" "frames s NULL = None"
  shows "vm_copy_claim_page s va parent = fail Null_deref"
  using assms spt_find_map [OF assms(1), of va] by (simp add: vm_copy_claim_page_def the_obj_def)

text \<open>
  Unmapping a file whose later pages were never touched stops after the first page: the test for the
  next page reads \<open>file.file\<close> from an uninitialized page, where the type and not a file is stored.
\<close>

lemma munmap_untouched_pages_stay:
  assumes "spt_wf (spt_tab s)" and "spt_map (spt_tab s) (pg_round_down addr) = Some p" "p \<noteq> NULL" "pages s p = Some pg"
    and "w1 pg = ucast VM_MMAP" and "file \<noteq> ucast VM_MMAP"
  shows "munmap_loop s addr file cnt = ret s"
  using assms spt_find_map [OF assms(1), of addr]
  by (subst munmap_loop.simps) (simp add: is_my_mmap_def the_obj_def)

end
