(* ===== verification/Kstring.thy ===== *)
theory Kstring
  imports Prelude
begin

text \<open>
  Memory and string functions, \<open>lib/string.c\<close>. Memory is a sequence of bytes, a pointer an index
  into it, and \<open>None\<close> the null pointer a search returns; an access past the end is a fault. The
  arguments are non-null, so the assertions on them hold.

  \<open>string_at m p s\<close> says that the bytes \<open>s\<close> and a terminating zero are stored at \<open>p\<close>. The lemmas
  give each function's result on such strings, and the effect of the copying functions on
  overlapping blocks. \<open>strtok_r\<close> is shown to deliver the words of a string.
\<close>

definition load :: "u8 list \<Rightarrow> nat \<Rightarrow> u8 exec" where
  "load m p = (if p < length m then ret (m ! p) else fail Out_of_bounds)"

definition store :: "u8 list \<Rightarrow> nat \<Rightarrow> u8 \<Rightarrow> u8 list exec" where
  "store m p b = (if p < length m then ret (m[p := b]) else fail Out_of_bounds)"

section \<open>Blocks\<close>

fun memcpy_loop :: "u8 list \<Rightarrow> nat \<Rightarrow> nat \<Rightarrow> nat \<Rightarrow> u8 list exec" where
  "memcpy_loop m dst src 0 = ret m"
| "memcpy_loop m dst src (Suc n) =
     bindE (load m src) (\<lambda>b. bindE (store m dst b) (\<lambda>m. memcpy_loop m (dst + 1) (src + 1) n))"

definition memcpy :: "u8 list \<Rightarrow> nat \<Rightarrow> nat \<Rightarrow> nat \<Rightarrow> (nat \<times> u8 list) exec" where
  "memcpy m dst src sz = bindE (memcpy_loop m dst src sz) (\<lambda>m. ret (dst, m))"

text \<open>The loop that copies backwards; it starts behind the blocks.\<close>

fun memmove_down :: "u8 list \<Rightarrow> nat \<Rightarrow> nat \<Rightarrow> nat \<Rightarrow> u8 list exec" where
  "memmove_down m dst src 0 = ret m"
| "memmove_down m dst src (Suc n) =
     bindE (load m (src - 1)) (\<lambda>b. bindE (store m (dst - 1) b) (\<lambda>m. memmove_down m (dst - 1) (src - 1) n))"

text \<open>The pointer returned is \<open>dst\<close> after the loop has moved it.\<close>

definition memmove :: "u8 list \<Rightarrow> nat \<Rightarrow> nat \<Rightarrow> nat \<Rightarrow> (nat \<times> u8 list) exec" where
  "memmove m dst src sz =
     (if dst < src then bindE (memcpy_loop m dst src sz) (\<lambda>m. ret (dst + sz, m))
      else bindE (memmove_down m (dst + sz) (src + sz) sz) (\<lambda>m. ret (dst, m)))"

fun memcmp :: "u8 list \<Rightarrow> nat \<Rightarrow> nat \<Rightarrow> nat \<Rightarrow> int exec" where
  "memcmp m a b 0 = ret 0"
| "memcmp m a b (Suc n) =
     bindE (load m a) (\<lambda>x. bindE (load m b) (\<lambda>y.
     if x \<noteq> y then ret (if x > y then 1 else - 1) else memcmp m (a + 1) (b + 1) n))"

fun memchr :: "u8 list \<Rightarrow> nat \<Rightarrow> u8 \<Rightarrow> nat \<Rightarrow> nat option exec" where
  "memchr m block ch 0 = ret None"
| "memchr m block ch (Suc n) = bindE (load m block) (\<lambda>b. if b = ch then ret (Some block) else memchr m (block + 1) ch n)"

fun memset_loop :: "u8 list \<Rightarrow> nat \<Rightarrow> u8 \<Rightarrow> nat \<Rightarrow> u8 list exec" where
  "memset_loop m dst v 0 = ret m"
| "memset_loop m dst v (Suc n) = bindE (store m dst v) (\<lambda>m. memset_loop m (dst + 1) v n)"

definition memset :: "u8 list \<Rightarrow> nat \<Rightarrow> u8 \<Rightarrow> nat \<Rightarrow> (nat \<times> u8 list) exec" where
  "memset m dst v sz = bindE (memset_loop m dst v sz) (\<lambda>m. ret (dst, m))"

section \<open>Strings\<close>

function strlen_loop :: "u8 list \<Rightarrow> nat \<Rightarrow> nat exec" where
  "strlen_loop m p =
     (if p < length m then if m ! p \<noteq> 0 then strlen_loop m (p + 1) else ret p else fail Out_of_bounds)"
  by auto
termination by (relation "measure (\<lambda>(m, p). length m - p)") auto

definition strlen :: "u8 list \<Rightarrow> nat \<Rightarrow> nat exec" where
  "strlen m string = bindE (strlen_loop m string) (\<lambda>p. ret (p - string))"

function strnlen_loop :: "u8 list \<Rightarrow> nat \<Rightarrow> nat \<Rightarrow> nat \<Rightarrow> nat exec" where
  "strnlen_loop m string maxlen len =
     (if string + len < length m
      then if m ! (string + len) \<noteq> 0 \<and> len < maxlen then strnlen_loop m string maxlen (len + 1) else ret len
      else fail Out_of_bounds)"
  by auto
termination by (relation "measure (\<lambda>(m, s, x, l). length m - l)") auto

definition strnlen :: "u8 list \<Rightarrow> nat \<Rightarrow> nat \<Rightarrow> nat exec" where
  "strnlen m string maxlen = strnlen_loop m string maxlen 0"

function strcmp :: "u8 list \<Rightarrow> nat \<Rightarrow> nat \<Rightarrow> int exec" where
  "strcmp m a b =
     (if a < length m \<and> b < length m
      then if m ! a \<noteq> 0 \<and> m ! a = m ! b then strcmp m (a + 1) (b + 1)
           else ret (if m ! a < m ! b then - 1 else if m ! a > m ! b then 1 else 0)
      else fail Out_of_bounds)"
  by auto
termination by (relation "measure (\<lambda>(m, a, b). length m - a)") auto

function strchr :: "u8 list \<Rightarrow> nat \<Rightarrow> u8 \<Rightarrow> nat option exec" where
  "strchr m string c =
     (if string < length m
      then if m ! string = c then ret (Some string) else if m ! string = 0 then ret None else strchr m (string + 1) c
      else fail Out_of_bounds)"
  by auto
termination by (relation "measure (\<lambda>(m, s, c). length m - s)") auto

text \<open>The common loop of \<open>strcspn\<close> and \<open>strspn\<close>: it goes on while being a member of \<open>set\<close> is \<open>want\<close>.\<close>

function span_loop :: "bool \<Rightarrow> u8 list \<Rightarrow> nat \<Rightarrow> nat \<Rightarrow> nat \<Rightarrow> nat exec" where
  "span_loop want m string chars len =
     (if string + len < length m
      then if m ! (string + len) \<noteq> 0
           then bindE (strchr m chars (m ! (string + len))) (\<lambda>r.
             if (r \<noteq> None) \<noteq> want then ret len else span_loop want m string chars (len + 1))
           else ret len
      else fail Out_of_bounds)"
  by auto
termination by (relation "measure (\<lambda>(w, m, s, x, l). length m - l)") auto

definition strcspn :: "u8 list \<Rightarrow> nat \<Rightarrow> nat \<Rightarrow> nat exec" where
  "strcspn m string stop = span_loop False m string stop 0"

definition strspn :: "u8 list \<Rightarrow> nat \<Rightarrow> nat \<Rightarrow> nat exec" where
  "strspn m string skip = span_loop True m string skip 0"

function strpbrk :: "u8 list \<Rightarrow> nat \<Rightarrow> nat \<Rightarrow> nat option exec" where
  "strpbrk m string stop =
     (if string < length m
      then if m ! string \<noteq> 0
           then bindE (strchr m stop (m ! string)) (\<lambda>r. if r \<noteq> None then ret (Some string) else strpbrk m (string + 1) stop)
           else ret None
      else fail Out_of_bounds)"
  by auto
termination by (relation "measure (\<lambda>(m, s, x). length m - s)") auto

function strrchr_loop :: "u8 list \<Rightarrow> nat \<Rightarrow> u8 \<Rightarrow> nat option \<Rightarrow> nat option exec" where
  "strrchr_loop m string c p =
     (if string < length m
      then if m ! string \<noteq> 0 then strrchr_loop m (string + 1) c (if m ! string = c then Some string else p) else ret p
      else fail Out_of_bounds)"
  by auto
termination by (relation "measure (\<lambda>(m, s, c, p). length m - s)") auto

definition strrchr :: "u8 list \<Rightarrow> nat \<Rightarrow> u8 \<Rightarrow> nat option exec" where
  "strrchr m string c = strrchr_loop m string c None"

function strstr_loop :: "u8 list \<Rightarrow> nat \<Rightarrow> nat \<Rightarrow> nat \<Rightarrow> nat \<Rightarrow> nat \<Rightarrow> nat option exec" where
  "strstr_loop m haystack needle needle_len lst i =
     (if i \<le> lst then
        bindE (memcmp m (haystack + i) needle needle_len) (\<lambda>c.
        if c = 0 then ret (Some (haystack + i)) else strstr_loop m haystack needle needle_len lst (i + 1))
      else ret None)"
  by auto
termination by (relation "measure (\<lambda>(m, h, n, l, x, i). Suc x - i)") auto

definition strstr :: "u8 list \<Rightarrow> nat \<Rightarrow> nat \<Rightarrow> nat option exec" where
  "strstr m haystack needle =
     bindE (strlen m haystack) (\<lambda>haystack_len. bindE (strlen m needle) (\<lambda>needle_len.
     if haystack_len \<ge> needle_len then strstr_loop m haystack needle needle_len (haystack_len - needle_len) 0
     else ret None))"

text \<open>The two loops of \<open>strtok_r\<close>; \<open>None\<close>: only delimiters were left, and the end of the string is at \<open>s\<close>.\<close>

function tok_skip :: "u8 list \<Rightarrow> nat \<Rightarrow> nat \<Rightarrow> (nat \<times> bool) exec" where
  "tok_skip m delimiters s =
     (if s < length m then
        bindE (strchr m delimiters (m ! s)) (\<lambda>r.
        if r \<noteq> None then if m ! s = 0 then ret (s, True) else tok_skip m delimiters (s + 1)
        else ret (s, False))
      else fail Out_of_bounds)"
  by auto
termination by (relation "measure (\<lambda>(m, d, s). length m - s)") auto

function tok_end :: "u8 list \<Rightarrow> nat \<Rightarrow> nat \<Rightarrow> nat exec" where
  "tok_end m delimiters s =
     (if s < length m then
        bindE (strchr m delimiters (m ! s)) (\<lambda>r. if r = None then tok_end m delimiters (s + 1) else ret s)
      else fail Out_of_bounds)"
  by auto
termination by (relation "measure (\<lambda>(m, d, s). length m - s)") auto

text \<open>The result: the token, the new \<open>*save_ptr\<close> and the memory.\<close>

definition strtok_r :: "u8 list \<Rightarrow> nat option \<Rightarrow> nat \<Rightarrow> nat \<Rightarrow> (nat option \<times> nat \<times> u8 list) exec" where
  "strtok_r m s delimiters save_ptr =
     (let s = (case s of None \<Rightarrow> save_ptr | Some p \<Rightarrow> p) in
      bindE (tok_skip m delimiters s) (\<lambda>(s, at_end).
      if at_end then ret (None, s, m)
      else let token = s in
        bindE (tok_end m delimiters s) (\<lambda>s.
        bindE (load m s) (\<lambda>c.
        if c \<noteq> 0 then bindE (store m s 0) (\<lambda>m. ret (Some token, s + 1, m))
        else ret (Some token, s, m)))))"

definition strlcpy_mem :: "u8 list \<Rightarrow> nat \<Rightarrow> nat \<Rightarrow> nat \<Rightarrow> (nat \<times> u8 list) exec" where
  "strlcpy_mem m dst src sz =
     bindE (strlen m src) (\<lambda>src_len.
     if sz > 0 then
       let dst_len = (if src_len < sz - 1 then src_len else sz - 1) in
       bindE (memcpy m dst src dst_len) (\<lambda>(p, m).
       bindE (store m (dst + dst_len) 0) (\<lambda>m. ret (src_len, m)))
     else ret (src_len, m))"

definition strlcat :: "u8 list \<Rightarrow> nat \<Rightarrow> nat \<Rightarrow> nat \<Rightarrow> (nat \<times> u8 list) exec" where
  "strlcat m dst src sz =
     bindE (strlen m src) (\<lambda>src_len. bindE (strlen m dst) (\<lambda>dst_len.
     if sz > 0 \<and> dst_len < sz then
       let copy_cnt = (if src_len < sz - dst_len - 1 then src_len else sz - dst_len - 1) in
       bindE (memcpy m (dst + dst_len) src copy_cnt) (\<lambda>(p, m).
       bindE (store m (dst + dst_len + copy_cnt) 0) (\<lambda>m. ret (src_len + dst_len, m)))
     else ret (src_len + dst_len, m)))"

lemmas string_loops = strlen_loop.simps strnlen_loop.simps strcmp.simps strchr.simps span_loop.simps strpbrk.simps
  strrchr_loop.simps strstr_loop.simps tok_skip.simps tok_end.simps

declare string_loops [simp del]

section \<open>Strings in memory\<close>

fun string_at :: "u8 list \<Rightarrow> nat \<Rightarrow> u8 list \<Rightarrow> bool" where
  "string_at m p [] \<longleftrightarrow> p < length m \<and> m ! p = 0"
| "string_at m p (c # s) \<longleftrightarrow> p < length m \<and> m ! p = c \<and> c \<noteq> 0 \<and> string_at m (Suc p) s"

lemma string_at_bound: "string_at m p s \<Longrightarrow> p + length s < length m"
  by (induction s arbitrary: p) fastforce+

lemma string_at_bytes: "string_at m p s \<Longrightarrow> take (length s) (drop p m) = s \<and> m ! (p + length s) = 0 \<and> 0 \<notin> set s"
proof (induction s arbitrary: p)
  case (Cons c s)
  then show ?case using Cons.IH [of "Suc p"] by (auto simp: Cons_nth_drop_Suc [symmetric])
qed simp

lemma string_at_drop: "string_at m p (s @ t) \<Longrightarrow> string_at m (p + length s) t"
  by (induction s arbitrary: p) fastforce+

lemma string_at_cong:
  "string_at m p s \<Longrightarrow> length m' = length m \<Longrightarrow> (\<And>k. p \<le> k \<Longrightarrow> k \<le> p + length s \<Longrightarrow> m' ! k = m ! k) \<Longrightarrow> string_at m' p s"
proof (induction s arbitrary: p)
  case (Cons c s)
  then have "string_at m' (Suc p) s" by (intro Cons.IH) auto
  then show ?case using Cons.prems by simp
qed simp

text \<open>A string ends where the word of an iteration over it starts.\<close>

fun first_index :: "('a \<Rightarrow> bool) \<Rightarrow> 'a list \<Rightarrow> nat option" where
  "first_index P [] = None"
| "first_index P (x # xs) = (if P x then Some 0 else map_option Suc (first_index P xs))"

lemma first_index_takeWhile:
  "first_index P xs = (if \<exists>x \<in> set xs. P x then Some (length (takeWhile (\<lambda>x. \<not> P x) xs)) else None)"
  by (induction xs) auto

lemma strlen_loop_at: "string_at m p s \<Longrightarrow> strlen_loop m p = ret (p + length s)"
proof (induction s arbitrary: p)
  case Nil
  then show ?case by (subst strlen_loop.simps) simp
next
  case (Cons c s)
  then show ?case by (subst strlen_loop.simps) simp
qed

lemma strlen_at [simp]: "string_at m p s \<Longrightarrow> strlen m p = ret (length s)"
  by (simp add: strlen_def strlen_loop_at)

lemma strchr_at:
  "string_at m p s \<Longrightarrow> strchr m p c = ret (map_option ((+) p) (first_index (\<lambda>x. x = c) (s @ [0])))"
proof (induction s arbitrary: p)
  case Nil
  then show ?case by (subst strchr.simps) auto
next
  case (Cons x s)
  then show ?case by (subst strchr.simps) (auto simp: option.map_comp comp_def)
qed

lemma strchr_member: "string_at m p s \<Longrightarrow> \<exists>r. strchr m p c = ret r \<and> (r \<noteq> None \<longleftrightarrow> c \<in> insert 0 (set s))"
  by (simp add: strchr_at first_index_takeWhile)

lemma strnlen_loop_at:
  "string_at m p (t @ s) \<Longrightarrow> length t \<le> k \<Longrightarrow> strnlen_loop m p k (length t) = ret (length t + min (length s) (k - length t))"
proof (induction s arbitrary: t)
  case Nil
  then show ?case using string_at_bound [OF Nil(1)] string_at_bytes [OF Nil(1)] by (subst strnlen_loop.simps) simp
next
  case (Cons c s)
  have b: "p + length t < length m" "m ! (p + length t) = c" "c \<noteq> 0"
    using string_at_drop [OF Cons.prems(1)] by auto
  show ?case
  proof (cases "length t < k")
    case True
    then have "strnlen_loop m p k (length (t @ [c])) = ret (length (t @ [c]) + min (length s) (k - length (t @ [c])))"
      using Cons.IH [of "t @ [c]"] Cons.prems by simp
    then show ?thesis using b True by (subst strnlen_loop.simps) (simp add: min_def, arith?)
  next
    case False
    then show ?thesis using b Cons.prems(2) by (subst strnlen_loop.simps) simp
  qed
qed

lemma strnlen_at: "string_at m p s \<Longrightarrow> strnlen m p k = ret (min (length s) k)"
  using strnlen_loop_at [of m p "[]" s k] by (simp add: strnlen_def)

text \<open>\<open>strcmp\<close> orders strings like a dictionary of their bytes.\<close>

lemma strcmp_at:
  "string_at m a s \<Longrightarrow> string_at m b t \<Longrightarrow>
     strcmp m a b = ret (if s = t then 0 else if ord_class.lexordp s t then - 1 else 1)"
proof (induction s arbitrary: a b t)
  case Nil
  then show ?case by (subst strcmp.simps, cases t) (auto simp: word_gt_0)
next
  case (Cons c s)
  show ?case
  proof (cases t)
    case Nil
    then show ?thesis using Cons.prems by (subst strcmp.simps) (auto simp: word_gt_0)
  next
    case (Cons d t')
    then show ?thesis using Cons.prems Cons.IH [of "Suc a" "Suc b" t'] by (subst strcmp.simps) auto
  qed
qed

section \<open>Copying\<close>

lemma memcpy_loop_ok:
  assumes "dst + n \<le> length m" and "src + n \<le> length m" and "dst \<le> src \<or> src + n \<le> dst"
  shows "memcpy_loop m dst src n = ret (put_bytes m dst (take n (drop src m)))"
  using assms
proof (induction n arbitrary: m dst src)
  case (Suc n)
  let ?m = "m[dst := m ! src]"
  have "memcpy_loop m dst src (Suc n) = memcpy_loop ?m (dst + 1) (src + 1) n" using Suc.prems by (simp add: load_def store_def)
  also have "\<dots> = ret (put_bytes ?m (dst + 1) (take n (drop (src + 1) ?m)))" using Suc.prems by (intro Suc.IH) auto
  also have "put_bytes ?m (dst + 1) (take n (drop (src + 1) ?m)) = put_bytes m dst (take (Suc n) (drop src m))"
    using Suc.prems
    by (intro nth_equalityI) (auto simp: nth_put_bytes nth_list_update nth_Cons' Cons_nth_drop_Suc [symmetric, of src])
  finally show ?case .
qed simp

lemma memmove_down_ok:
  assumes "dst \<le> length m" and "src \<le> length m" and "n \<le> src" and "src \<le> dst"
  shows "memmove_down m dst src n = ret (put_bytes m (dst - n) (take n (drop (src - n) m)))"
  using assms
proof (induction n arbitrary: m dst src)
  case (Suc n)
  let ?m = "m[dst - 1 := m ! (src - 1)]"
  have "src - 1 < length m" "dst - 1 < length m" using Suc.prems by arith+
  then have "memmove_down m dst src (Suc n) = memmove_down ?m (dst - 1) (src - 1) n" by (simp add: load_def store_def)
  also have "\<dots> = ret (put_bytes ?m (dst - 1 - n) (take n (drop (src - 1 - n) ?m)))" using Suc.prems by (intro Suc.IH) auto
  also have "put_bytes ?m (dst - 1 - n) (take n (drop (src - 1 - n) ?m)) = put_bytes m (dst - Suc n) (take (Suc n) (drop (src - Suc n) m))"
    using Suc.prems
    by (intro nth_equalityI) (auto simp: nth_put_bytes nth_list_update intro!: arg_cong [of _ _ "(!) m"])
  finally show ?case .
qed simp

lemma memset_loop_ok: "dst + n \<le> length m \<Longrightarrow> memset_loop m dst v n = ret (put_bytes m dst (replicate n v))"
proof (induction n arbitrary: m dst)
  case (Suc n)
  have "memset_loop m dst v (Suc n) = memset_loop (m[dst := v]) (dst + 1) v n" using Suc.prems by (simp add: store_def)
  also have "\<dots> = ret (put_bytes (m[dst := v]) (dst + 1) (replicate n v))" using Suc.prems by (intro Suc.IH) auto
  also have "put_bytes (m[dst := v]) (dst + 1) (replicate n v) = put_bytes m dst (replicate (Suc n) v)"
    using Suc.prems by (intro nth_equalityI) (auto simp: nth_put_bytes nth_list_update nth_Cons')
  finally show ?case .
qed simp

lemma memcmp_ok:
  "a + n \<le> length m \<Longrightarrow> b + n \<le> length m \<Longrightarrow>
     memcmp m a b n = ret (let x = take n (drop a m); y = take n (drop b m) in
       if x = y then 0 else if ord_class.lexordp x y then - 1 else 1)"
proof (induction n arbitrary: a b)
  case (Suc n)
  then show ?case
    by (auto simp: load_def Let_def Cons_nth_drop_Suc [symmetric, of a] Cons_nth_drop_Suc [symmetric, of b])
qed simp

lemma memchr_ok:
  "p + n \<le> length m \<Longrightarrow> memchr m p c n = ret (map_option ((+) p) (first_index (\<lambda>x. x = c) (take n (drop p m))))"
proof (induction n arbitrary: p)
  case (Suc n)
  then show ?case by (auto simp: load_def Cons_nth_drop_Suc [symmetric, of p] option.map_comp comp_def)
qed simp

section \<open>Searching\<close>

lemma span_loop_at:
  assumes "string_at m d D"
  shows "string_at m p (t @ s) \<Longrightarrow> span_loop want m p d (length t) =
    ret (length t + length (takeWhile (\<lambda>c. (c \<in> set D) = want) s))"
proof (induction s arbitrary: t)
  case Nil
  then show ?case using string_at_bound [OF Nil(1)] string_at_bytes [OF Nil(1)] by (subst span_loop.simps) simp
next
  case (Cons c s)
  have b: "p + length t < length m" "m ! (p + length t) = c" "c \<noteq> 0" using string_at_drop [OF Cons.prems] by auto
  obtain r where r: "strchr m d c = ret r" "r \<noteq> None \<longleftrightarrow> c \<in> set D" using strchr_member [OF assms, of c] b(3) by auto
  show ?case
  proof (cases "(c \<in> set D) = want")
    case True
    have "span_loop want m p d (length (t @ [c])) = ret (length (t @ [c]) + length (takeWhile (\<lambda>c. (c \<in> set D) = want) s))"
      using Cons.IH [of "t @ [c]"] Cons.prems by simp
    then show ?thesis using b r True by (subst span_loop.simps) auto
  next
    case False
    then show ?thesis using b r by (subst span_loop.simps) auto
  qed
qed

lemma strspn_at: "string_at m p s \<Longrightarrow> string_at m d D \<Longrightarrow> strspn m p d = ret (length (takeWhile (\<lambda>c. c \<in> set D) s))"
  using span_loop_at [of m d D p "[]" s True] by (simp add: strspn_def)

lemma strcspn_at: "string_at m p s \<Longrightarrow> string_at m d D \<Longrightarrow> strcspn m p d = ret (length (takeWhile (\<lambda>c. c \<notin> set D) s))"
  using span_loop_at [of m d D p "[]" s False] by (simp add: strcspn_def)

lemma strpbrk_at:
  assumes "string_at m d D"
  shows "string_at m p s \<Longrightarrow> strpbrk m p d = ret (map_option ((+) p) (first_index (\<lambda>c. c \<in> set D) s))"
proof (induction s arbitrary: p)
  case Nil
  then show ?case by (subst strpbrk.simps) simp
next
  case (Cons c s)
  obtain r where r: "strchr m d c = ret r" "r \<noteq> None \<longleftrightarrow> c \<in> set D" using strchr_member [OF assms, of c] Cons.prems by auto
  then show ?case using Cons by (subst strpbrk.simps) (auto simp: option.map_comp comp_def)
qed

lemma takeWhile_shorter: "c \<in> set s \<Longrightarrow> length (takeWhile (\<lambda>x. x \<noteq> c) s) < length s"
  by (induction s) auto

lemma strrchr_loop_at:
  "string_at m p s \<Longrightarrow> strrchr_loop m p c q =
     ret (if c \<in> set s then Some (p + (length s - Suc (length (takeWhile (\<lambda>x. x \<noteq> c) (rev s))))) else q)"
proof (induction s arbitrary: p q)
  case Nil
  then show ?case by (subst strrchr_loop.simps) simp
next
  case (Cons x s)
  have "length (takeWhile (\<lambda>x. x \<noteq> c) (rev s)) < length s" if "c \<in> set s"
    using that takeWhile_shorter [of c "rev s"] by simp
  then show ?case using Cons by (subst strrchr_loop.simps) (auto simp: takeWhile_append)
qed

lemma memcmp_string:
  assumes "string_at m h (u @ v)" and "string_at m q n" and "length n \<le> length v"
  shows "\<exists>c. memcmp m (h + length u) q (length n) = ret c \<and> (c = 0 \<longleftrightarrow> take (length n) v = n)"
proof -
  have v: "string_at m (h + length u) v" by (rule string_at_drop [OF assms(1)])
  have "take (length n) (drop (h + length u) m) = take (length n) v"
    using string_at_bytes [OF v] assms(3) by (metis min.absorb1 take_take)
  then show ?thesis
    using memcmp_ok [of "h + length u" "length n" m q] string_at_bound [OF v] string_at_bound [OF assms(2)]
      string_at_bytes [OF assms(2)] assms(3) by (simp add: Let_def)
qed

text \<open>The place of the first occurrence of \<open>n\<close> in \<open>s\<close>.\<close>

definition occurs :: "u8 list \<Rightarrow> u8 list \<Rightarrow> nat \<Rightarrow> bool" where
  "occurs n s k \<longleftrightarrow> k + length n \<le> length s \<and> take (length n) (drop k s) = n"

lemma strstr_loop_at:
  assumes h: "string_at m h s" and n: "string_at m q n" and len: "length n \<le> length s"
  shows "i \<le> Suc (length s - length n) \<Longrightarrow> (\<forall>k < i. \<not> occurs n s k) \<Longrightarrow>
    \<exists>r. strstr_loop m h q (length n) (length s - length n) i = ret r \<and>
      (case r of None \<Rightarrow> \<forall>k. \<not> occurs n s k | Some p \<Rightarrow> \<exists>k. p = h + k \<and> occurs n s k \<and> (\<forall>j < k. \<not> occurs n s j))"
proof (induction "Suc (length s - length n) - i" arbitrary: i)
  case 0
  then have "\<not> occurs n s k" for k using len by (cases "k < i") (auto simp: occurs_def)
  then show ?case using 0 by (subst strstr_loop.simps) simp
next
  case (Suc x)
  then have i: "i \<le> length s - length n" by simp
  have "string_at m h (take i s @ drop i s)" using h by simp
  moreover have "length n \<le> length (drop i s)" using i len by simp
  ultimately obtain c where
    c: "memcmp m (h + i) q (length n) = ret c" "c = 0 \<longleftrightarrow> take (length n) (drop i s) = n"
    using memcmp_string [of m h "take i s" "drop i s" q n] n i len by auto
  have o: "occurs n s i \<longleftrightarrow> c = 0" using c(2) i len by (auto simp: occurs_def)
  show ?case
  proof (cases "c = 0")
    case True
    then show ?thesis using c i o Suc.prems(2) by (subst strstr_loop.simps) auto
  next
    case False
    then have "\<forall>k < i + 1. \<not> occurs n s k" using o Suc.prems(2) less_Suc_eq by auto
    with Suc.hyps(1) [of "i + 1"] Suc.hyps(2) i
    show ?thesis using c False by (subst strstr_loop.simps) simp
  qed
qed

lemma strstr_at:
  assumes "string_at m h s" and "string_at m q n"
  shows "\<exists>r. strstr m h q = ret r \<and>
    (case r of None \<Rightarrow> \<forall>k. \<not> occurs n s k | Some p \<Rightarrow> \<exists>k. p = h + k \<and> occurs n s k \<and> (\<forall>j < k. \<not> occurs n s j))"
proof (cases "length n \<le> length s")
  case True
  then show ?thesis using strstr_loop_at [OF assms True, of 0] assms by (simp add: strstr_def)
next
  case False
  then show ?thesis using assms by (simp add: strstr_def occurs_def)
qed

section \<open>Tokens\<close>

text \<open>The words of a string: its maximal non-empty parts without a delimiter.\<close>

function words :: "u8 set \<Rightarrow> u8 list \<Rightarrow> u8 list list" where
  "words D s = (let s' = dropWhile (\<lambda>c. c \<in> D) s in
     if s' = [] then [] else takeWhile (\<lambda>c. c \<notin> D) s' # words D (dropWhile (\<lambda>c. c \<notin> D) s'))"
  by auto
termination
proof (relation "measure (\<lambda>(D, s). length s)", simp)
  fix D :: "u8 set" and s s' :: "u8 list"
  assume s': "s' = dropWhile (\<lambda>c. c \<in> D) s" and "s' \<noteq> []"
  then have "hd s' \<notin> D" using hd_dropWhile [of "\<lambda>c. c \<in> D" s] by simp
  with \<open>s' \<noteq> []\<close> have "length (dropWhile (\<lambda>c. c \<notin> D) s') < length s'"
    by (cases s') (auto simp: le_imp_less_Suc length_dropWhile_le)
  also have "length s' \<le> length s" unfolding s' by (rule length_dropWhile_le)
  finally show "((D, dropWhile (\<lambda>c. c \<notin> D) s'), (D, s)) \<in> measure (\<lambda>(D, s). length s)" by simp
qed

declare words.simps [simp del]

lemma words_skip: "c \<in> D \<Longrightarrow> words D (c # s) = words D s"
  using words.simps [of D "c # s"] words.simps [of D s] by simp

lemma tok_skip_at:
  assumes "string_at m d D"
  shows "string_at m p s \<Longrightarrow> tok_skip m d p =
    ret (p + length (takeWhile (\<lambda>c. c \<in> set D) s), dropWhile (\<lambda>c. c \<in> set D) s = [])"
proof (induction s arbitrary: p)
  case Nil
  obtain r where "strchr m d 0 = ret r" "r \<noteq> None" using strchr_member [OF assms, of 0] by auto
  then show ?case using Nil by (subst tok_skip.simps) auto
next
  case (Cons c s)
  obtain r where r: "strchr m d c = ret r" "r \<noteq> None \<longleftrightarrow> c \<in> set D" using strchr_member [OF assms, of c] Cons.prems by auto
  then show ?case using Cons by (subst tok_skip.simps) auto
qed

lemma tok_end_at:
  assumes "string_at m d D"
  shows "string_at m p s \<Longrightarrow> tok_end m d p = ret (p + length (takeWhile (\<lambda>c. c \<notin> set D) s))"
proof (induction s arbitrary: p)
  case Nil
  obtain r where "strchr m d 0 = ret r" "r \<noteq> None" using strchr_member [OF assms, of 0] by auto
  then show ?case using Nil by (subst tok_end.simps) auto
next
  case (Cons c s)
  obtain r where r: "strchr m d c = ret r" "r \<noteq> None \<longleftrightarrow> c \<in> set D" using strchr_member [OF assms, of c] Cons.prems by auto
  then show ?case using Cons by (subst tok_end.simps) auto
qed

lemma string_at_take:
  assumes "string_at m p (s @ t)"
  shows "string_at (m[p + length s := 0]) p s"
  using assms
proof (induction s arbitrary: p)
  case Nil
  then have "p < length m" using string_at_bound by fastforce
  then show ?case by simp
next
  case (Cons c s)
  then have "string_at (m[Suc p + length s := 0]) (Suc p) s" using Cons.IH [of "Suc p"] by simp
  then show ?case using Cons.prems by auto
qed

lemma strtok_r_none:
  assumes "string_at m d D" and "string_at m p s" and "words (set D) s = []"
  shows "strtok_r m (Some p) d sv = ret (None, p + length s, m)" "strtok_r m None d p = ret (None, p + length s, m)"
proof -
  have "dropWhile (\<lambda>c. c \<in> set D) s = []" using assms(3) by (subst (asm) words.simps) (auto simp: Let_def split: if_splits)
  moreover from this have "length (takeWhile (\<lambda>c. c \<in> set D) s) = length s"
    by (metis append.right_neutral takeWhile_dropWhile_id)
  ultimately show "strtok_r m (Some p) d sv = ret (None, p + length s, m)" "strtok_r m None d p = ret (None, p + length s, m)"
    using tok_skip_at [OF assms(1,2)] by (simp_all add: strtok_r_def)
qed

text \<open>One call that finds a word: the memory changes in at most one byte, behind the word.\<close>

lemma strtok_r_some:
  assumes d: "string_at m d D" and s: "string_at m p s" and ws: "words (set D) s = w # ws"
  shows "\<exists>q sv' m' s'. strtok_r m (Some p) d sv = ret (Some q, sv', m') \<and> strtok_r m None d p = ret (Some q, sv', m') \<and>
    string_at m' q w \<and> string_at m' sv' s' \<and> words (set D) s' = ws \<and> p \<le> q \<and> q + length w \<le> sv' \<and>
    sv' + length s' = p + length s \<and> q + length w \<le> p + length s \<and> (m' = m \<or> (m' = m[q + length w := 0] \<and> sv' = q + length w + 1))"
proof -
  let ?in = "\<lambda>c. c \<in> set D" and ?out = "\<lambda>c. c \<notin> set D"
  define u where "u = takeWhile ?in s"
  define v where "v = dropWhile ?in s"
  define r where "r = dropWhile ?out v"
  have v: "v \<noteq> []" "w = takeWhile ?out v" "ws = words (set D) r"
    using ws by (subst (asm) words.simps; simp add: Let_def v_def r_def split: if_splits)+
  have split: "s = u @ v" "v = w @ r" using v(2) by (simp_all add: u_def v_def r_def)
  let ?q = "p + length u" and ?e = "p + length u + length w"
  have vat: "string_at m ?q v" using string_at_drop s split(1) by blast
  have rat: "string_at m ?e r" using string_at_drop [of m ?q w r] vat split(2) by simp
  have skip: "tok_skip m d p = ret (?q, False)" using tok_skip_at [OF d s] v(1) by (simp add: u_def v_def)
  have tend: "tok_end m d ?q = ret ?e" using tok_end_at [OF d vat] v(2) by simp
  have len: "p + length s = ?e + length r" using split by simp
  show ?thesis
  proof (cases r)
    case Nil
    have "m ! ?e = 0" "?e < length m" using rat Nil by auto
    then have "strtok_r m (Some p) d sv = ret (Some ?q, ?e, m)" "strtok_r m None d p = ret (Some ?q, ?e, m)"
      using skip tend by (simp_all add: strtok_r_def load_def Let_def)
    moreover have "string_at m ?q w" "string_at m ?e []" using vat rat split(2) Nil by simp_all
    ultimately show ?thesis using v(3) Nil len
      by (intro exI [of _ ?q] exI [of _ ?e] exI [of _ m] exI [of _ "[]"]) simp
  next
    case (Cons c r')
    let ?m = "m[?e := 0]"
    have c: "c \<in> set D" using Cons by (simp add: r_def dropWhile_eq_Cons_conv)
    have "m ! ?e \<noteq> 0" "?e < length m" "string_at m (Suc ?e) r'" using rat Cons by auto
    then have "strtok_r m (Some p) d sv = ret (Some ?q, ?e + 1, ?m)" "strtok_r m None d p = ret (Some ?q, ?e + 1, ?m)"
      using skip tend by (simp_all add: strtok_r_def load_def store_def Let_def)
    moreover have "string_at ?m ?q w" using string_at_take [of m ?q w r] vat split(2) by simp
    moreover have "string_at ?m (?e + 1) r'"
      by (rule string_at_cong [of m]) (use \<open>string_at m (Suc ?e) r'\<close> in auto)
    moreover have "words (set D) r' = ws" using v(3) Cons words_skip [OF c] by simp
    moreover have "?e + 1 + length r' = p + length s" "?q + length w \<le> p + length s" using len Cons by simp_all
    ultimately show ?thesis
      by (intro exI [of _ ?q] exI [of _ "?e + 1"] exI [of _ ?m] exI [of _ r']) simp
  qed
qed

lemma string_at_put:
  "0 \<notin> set s \<Longrightarrow> p + length s < length m \<Longrightarrow> string_at (put_bytes m p (s @ [0])) p s"
proof (induction s arbitrary: p m)
  case Nil
  then show ?case by (simp add: put_bytes_def nth_append)
next
  case (Cons c s)
  have "put_bytes m p ((c # s) @ [0]) = put_bytes (m[p := c]) (Suc p) (s @ [0])"
    using Cons.prems by (intro nth_equalityI) (auto simp: nth_put_bytes nth_list_update nth_Cons')
  then show ?case using Cons.IH [of "Suc p" "m[p := c]"] Cons.prems by (simp add: nth_put_bytes)
qed

text \<open>\<open>strlcpy\<close> truncates to the size given, and always terminates the copy.\<close>

lemma strlcpy_mem_at:
  assumes s: "string_at m src s" and sz: "0 < sz" and fit: "dst + sz \<le> length m" and apart: "dst + sz \<le> src \<or> src + length s < dst"
  shows "\<exists>m'. strlcpy_mem m dst src sz = ret (length s, m') \<and> string_at m' dst (take (sz - 1) s) \<and>
    m' = put_bytes m dst (take (sz - 1) s @ [0])"
proof -
  let ?n = "min (length s) (sz - 1)"
  have bytes: "take ?n (drop src m) = take (sz - 1) s"
    using string_at_bytes [OF s] by (metis min.commute take_take)
  have l: "length (take (sz - 1) s) = ?n" by simp
  have fits: "dst + ?n < length m" "src + ?n \<le> length m" using fit sz string_at_bound [OF s] by auto
  have "memcpy_loop m dst src ?n = ret (put_bytes m dst (take (sz - 1) s))"
    using memcpy_loop_ok [of dst ?n m src] fits apart bytes by auto
  moreover have "(put_bytes m dst (take (sz - 1) s))[dst + ?n := 0] = put_bytes m dst (take (sz - 1) s @ [0])"
    using fits l by (intro nth_equalityI) (auto simp: nth_put_bytes nth_list_update nth_append)
  moreover have "?n = (if length s < sz - 1 then length s else sz - 1)" by simp
  ultimately have "strlcpy_mem m dst src sz = ret (length s, put_bytes m dst (take (sz - 1) s @ [0]))"
    using sz fits l s by (simp add: strlcpy_mem_def memcpy_def store_def Let_def)
  moreover have "string_at (put_bytes m dst (take (sz - 1) s @ [0])) dst (take (sz - 1) s)"
    using string_at_bytes [OF s] fits l by (intro string_at_put) (auto dest: in_set_takeD)
  ultimately show ?thesis by blast
qed

section \<open>Properties\<close>



text \<open>
  The read-only functions on strings terminated in memory return, without a fault: \<open>strlen\<close>
  the length, \<open>strcmp\<close> the sign of the dictionary order of the bytes, \<open>strchr\<close> the first place of a
  byte, the terminator included, and \<open>strstr\<close> the first place of a string within another.
\<close>

theorem string_functions_correct:
  assumes s: "string_at m p s" and t: "string_at m q t"
  shows "strlen m p = ret (length s) \<and>
    strcmp m p q = ret (if s = t then 0 else if ord_class.lexordp s t then - 1 else 1) \<and>
    strchr m p c = ret (if c \<in> insert 0 (set s) then Some (p + length (takeWhile (\<lambda>x. x \<noteq> c) s)) else None) \<and>
    (\<exists>r. strstr m p q = ret r \<and>
      (case r of None \<Rightarrow> \<forall>k. \<not> occurs t s k
       | Some a \<Rightarrow> \<exists>k. a = p + k \<and> occurs t s k \<and> (\<forall>j < k. \<not> occurs t s j)))"
proof (intro conjI)
  have "takeWhile (\<lambda>x. x \<noteq> c) (s @ [0]) = takeWhile (\<lambda>x. x \<noteq> c) s" if "c \<in> insert 0 (set s)"
  proof (cases "c \<in> set s")
    case False
    then have *: "takeWhile (\<lambda>x. x \<noteq> c) s = s" by (auto simp: takeWhile_eq_all_conv)
    show ?thesis unfolding * using that False by (auto simp: takeWhile_append)
  qed (auto simp: takeWhile_append)
  then show "strchr m p c = ret (if c \<in> insert 0 (set s) then Some (p + length (takeWhile (\<lambda>x. x \<noteq> c) s)) else None)"
    unfolding strchr_at [OF s] first_index_takeWhile by auto
qed (use assms strcmp_at strstr_at in auto)

definition sample_mem :: "u8 list" where
  "sample_mem = [98, 97, 97, 0, 97, 97, 0]"

lemma sample_mem_strings: "string_at sample_mem 0 [98, 97, 97]" "string_at sample_mem 4 [97, 97]"
  by (simp_all add: sample_mem_def)

theorem string_functions_correct_witness:
  "strlen sample_mem 0 = ret 3 \<and> strcmp sample_mem 0 4 = ret 1 \<and> strchr sample_mem 0 97 = ret (Some 1) \<and>
   (\<exists>r. strstr sample_mem 0 4 = ret r)"
  using string_functions_correct [OF sample_mem_strings, of 97] by auto

text \<open>
  \<open>strtok_r\<close>, on a string and a string of delimiters stored apart from it: it returns no token
  exactly when the string has no word left; otherwise it returns a pointer to the first word,
  terminated in place, and leaves in \<open>*save_ptr\<close> a string with exactly the remaining words. It
  writes at most one byte, the delimiter behind the word.
\<close>

theorem strtok_r_correct:
  assumes "string_at m d D" and "string_at m p s"
  shows "\<exists>r sv' m'. strtok_r m (Some p) d sv = ret (r, sv', m') \<and> strtok_r m None d p = ret (r, sv', m') \<and>
    (case words (set D) s of
       [] \<Rightarrow> r = None \<and> m' = m
     | w # ws \<Rightarrow> \<exists>q s'. r = Some q \<and> string_at m' q w \<and> string_at m' sv' s' \<and> words (set D) s' = ws \<and>
         p \<le> q \<and> sv' + length s' = p + length s \<and> (m' = m \<or> m' = m[q + length w := 0]))"
proof (cases "words (set D) s")
  case Nil
  then show ?thesis using strtok_r_none [OF assms Nil] by auto
next
  case (Cons w ws)
  from strtok_r_some [OF assms Cons, of sv] show ?thesis using Cons by auto
qed

definition sample_path :: "u8 list" where
  "sample_path = [47, 97, 47, 47, 98, 0, 47, 0]"

theorem strtok_r_correct_witness:
  "\<exists>sv' m' q s'. strtok_r sample_path (Some 0) 6 0 = ret (Some q, sv', m') \<and> string_at m' q [97] \<and>
     string_at m' sv' s' \<and> words {47} s' = [[98]]"
proof -
  have "string_at sample_path 6 [47]" "string_at sample_path 0 [47, 97, 47, 47, 98]" by (simp_all add: sample_path_def)
  moreover have "words (set [47]) [47, 97, 47, 47, 98] = [[97], [98]]" by (simp add: words.simps)
  ultimately show ?thesis
    using strtok_r_correct [of sample_path 6 "[47]" 0 "[47, 97, 47, 47, 98]" 0] by fastforce
qed

end
