(* ===== verification/Filesys.thy ===== *)
theory Filesys
  imports File Kstring
begin

text \<open>
  Path names and the operations of the file system, \<open>filesys/filesys.c\<close>, built on directories, files,
  inodes and the allocation table.

  \<open>parse_path\<close> works on a byte memory: it cuts the path at its slashes with \<open>strtok_r\<close> and stores the
  addresses of the names in an array of 128 pointers, beyond which it writes out of bounds.
  \<open>path_names\<close> is what a caller sees of it. The working directory \<open>cwd\<close> of the running thread is
  an argument; \<open>alloc\<close> stands for \<open>malloc\<close>: the address it returns in a given state, if any.
\<close>

section \<open>Paths\<close>

definition SLASH :: u8 where "SLASH = 47"

definition is_root_path :: "u8 list \<Rightarrow> bool" where
  "is_root_path path \<longleftrightarrow> (path @ [0]) ! 0 = SLASH"

partial_function (option) parse_loop :: "u8 list \<Rightarrow> nat option \<Rightarrow> nat \<Rightarrow> nat \<Rightarrow> nat list \<Rightarrow> (nat list \<times> u8 list) exec" where
  "parse_loop m token delim save_ptr argv =
     (if length argv \<ge> 128 then fail Out_of_bounds
      else case token of
        None \<Rightarrow> ret (argv, m)
      | Some t \<Rightarrow> bindE (strtok_r m None delim save_ptr) (\<lambda>(token, save_ptr, m).
          parse_loop m token delim save_ptr (argv @ [t])))"

text \<open>\<open>delim\<close> is the address of the string \<open>"/"\<close>.\<close>

definition parse_path :: "u8 list \<Rightarrow> nat \<Rightarrow> nat \<Rightarrow> (nat list \<times> u8 list) exec" where
  "parse_path m target delim =
     bindE (strtok_r m (Some target) delim 0) (\<lambda>(token, save_ptr, m). parse_loop m token delim save_ptr [])"

text \<open>The names of a path that is stored, with its zero, in front of the string \<open>"/"\<close>.\<close>

definition path_names :: "u8 list \<Rightarrow> u8 list list exec" where
  "path_names path =
     bindE (parse_path (path @ [0, SLASH, 0]) 0 (length path + 1)) (\<lambda>(argv, m).
     ret (map (\<lambda>p. cstr (drop p m)) argv))"

section \<open>Walking\<close>

type_synonym alloc = "fsys \<Rightarrow> ptr option"

text \<open>\<open>is_good_inode (cwd->inode)\<close>\<close>

definition good_dir :: "fsys \<Rightarrow> dir \<Rightarrow> bool exec" where
  "good_dir s d = bindE (the_inode s (dir_inode d)) (\<lambda>i. ret (is_good_inode i))"

definition start_dir :: "bool \<Rightarrow> alloc \<Rightarrow> fsys \<Rightarrow> dir option \<Rightarrow> bool \<Rightarrow> (dir option \<times> fsys) exec" where
  "start_dir mem alloc s cwd is_root =
     (case cwd of
        None \<Rightarrow> dir_open_root mem (alloc s) s
      | Some d \<Rightarrow>
          if is_root then dir_open_root mem (alloc s) s
          else bindE (good_dir s d) (\<lambda>good. if \<not> good then dir_open_root mem (alloc s) s else dir_reopen mem s d))"

text \<open>The loop over the directories of a path: \<open>None\<close> when the function returns false from it.\<close>

fun walk_path :: "bool \<Rightarrow> alloc \<Rightarrow> fsys \<Rightarrow> dir option \<Rightarrow> u8 list list \<Rightarrow> (dir option option \<times> fsys) exec" where
  "walk_path mem alloc s cur_dir [] = ret (Some cur_dir, s)"
| "walk_path mem alloc s cur_dir (name # names) =
     (case cur_dir of
        None \<Rightarrow> fail Assert_failed
      | Some d \<Rightarrow>
          bindE (dir_lookup mem (alloc s) s d name) (\<lambda>(found, inode, s).
          if \<not> found then ret (None, s)
          else bindE (the_inode s inode) (\<lambda>i.
            if \<not> is_dir i then ret (None, s)
            else bindE (dir_close s (Some d)) (\<lambda>s.
              bindE (dir_open mem s inode) (\<lambda>(next_dir, s). walk_path mem alloc s next_dir names)))))"

section \<open>Operations\<close>

definition filesys_create :: "bool \<Rightarrow> alloc \<Rightarrow> u8 list \<Rightarrow> fsys \<Rightarrow> dir option \<Rightarrow> u8 list \<Rightarrow> off_t \<Rightarrow> (bool \<times> fsys) exec" where
  "filesys_create mem alloc junk s cwd path initial_size =
     bindE (path_names path) (\<lambda>names.
     if names = [] then ret (False, s)
     else
       bindE (start_dir mem alloc s cwd (is_root_path path)) (\<lambda>(cur_dir, s).
       bindE (walk_path mem alloc s cur_dir (butlast names)) (\<lambda>(r, s).
       case r of
         None \<Rightarrow> ret (False, s)
       | Some None \<Rightarrow> ret (False, s)
       | Some (Some d) \<Rightarrow>
           if length (last names) > 14 then ret (False, s)
           else
             bindE (fat_allocate (fatfs s) 1) (\<lambda>(ok, clst, fs).
             let s = s\<lparr>fatfs := fs\<rparr>; inode_clst = (case clst of Some c \<Rightarrow> c | None \<Rightarrow> 0) in
             if \<not> ok then ret (False, s)
             else
               bindE (inode_create mem fs (filesys_disk s) (cluster_to_sector fs inode_clst) initial_size False) (\<lambda>(ok, fs, dk).
               let s = s\<lparr>fatfs := fs, filesys_disk := dk\<rparr> in
               if \<not> ok then ret (False, s)
               else dir_add mem junk s d (last names) (cluster_to_sector fs inode_clst))))))"

text \<open>Opening the root itself returns a \<open>struct dir\<close> in place of a file.\<close>

datatype opened = Opened_file open_file | Opened_dir dir | Not_opened

definition filesys_open :: "bool \<Rightarrow> alloc \<Rightarrow> fsys \<Rightarrow> dir option \<Rightarrow> u8 list \<Rightarrow> (opened \<times> fsys) exec" where
  "filesys_open mem alloc s cwd path =
     (if length path + 1 > 128 then fail Out_of_bounds
      else bindE (path_names path) (\<lambda>names.
        if is_root_path path \<and> names = [] then
          bindE (dir_open_root mem (alloc s) s) (\<lambda>(d, s). ret (case d of Some d \<Rightarrow> Opened_dir d | None \<Rightarrow> Not_opened, s))
        else
          bindE (start_dir mem alloc s cwd (is_root_path path)) (\<lambda>(cur_dir, s).
          bindE (walk_path mem alloc s cur_dir (butlast names)) (\<lambda>(r, s).
          case r of
            None \<Rightarrow> ret (Not_opened, s)
          | Some None \<Rightarrow> ret (Not_opened, s)
          | Some (Some d) \<Rightarrow>
              if names = [] then fail Out_of_bounds
              else
                bindE (dir_lookup mem (alloc s) s d (last names)) (\<lambda>(found, inode, s).
                if \<not> found then ret (Not_opened, s)
                else bindE (file_open mem s inode) (\<lambda>(f, s).
                  ret (case f of Some f \<Rightarrow> Opened_file f | None \<Rightarrow> Not_opened, s)))))))"

definition load_file_open :: "bool \<Rightarrow> alloc \<Rightarrow> fsys \<Rightarrow> dir option \<Rightarrow> u8 list \<Rightarrow> (open_file option \<times> dir option \<times> fsys) exec" where
  "load_file_open mem alloc s cwd name =
     bindE (case cwd of None \<Rightarrow> ret False | Some d \<Rightarrow> good_dir s d) (\<lambda>good.
     bindE (if good then ret (cwd, s) else dir_open_root mem (alloc s) s) (\<lambda>(cwd, s).
     case cwd of
       None \<Rightarrow> ret (None, cwd, s)
     | Some d \<Rightarrow>
         bindE (dir_lookup mem (alloc s) s d name) (\<lambda>(found, inode, s).
         if \<not> found then ret (None, cwd, s)
         else bindE (file_open mem s inode) (\<lambda>(f, s). ret (f, cwd, s)))))"

text \<open>\<open>cur->cwd\<close> is dereferenced by \<open>is_same_dir\<close>, also when it is null.\<close>

definition filesys_remove :: "bool \<Rightarrow> alloc \<Rightarrow> fsys \<Rightarrow> dir option \<Rightarrow> u8 list \<Rightarrow> (bool \<times> fsys) exec" where
  "filesys_remove mem alloc s cwd path =
     bindE (path_names path) (\<lambda>names.
     if names = [] then ret (False, s)
     else
       bindE (case cwd of
                None \<Rightarrow> dir_open_root mem (alloc s) s
              | Some d \<Rightarrow> if is_root_path path then dir_open_root mem (alloc s) s else dir_reopen mem s d) (\<lambda>(cur_dir, s).
       bindE (walk_path mem alloc s cur_dir (butlast names)) (\<lambda>(r, s).
       case r of
         None \<Rightarrow> ret (False, s)
       | Some None \<Rightarrow> fail Assert_failed
       | Some (Some d) \<Rightarrow>
           bindE (dir_lookup mem (alloc s) s d (last names)) (\<lambda>(found, find, s).
           if \<not> found then ret (False, s)
           else
             bindE (dir_open mem s find) (\<lambda>(find_dir, s).
             bindE (case (find_dir, cwd) of (Some f, Some c) \<Rightarrow> is_same_dir s f c | _ \<Rightarrow> fail Null_deref) (\<lambda>same.
             bindE (dir_close s find_dir) (\<lambda>s.
             if same then bindE (dir_close s (Some d)) (\<lambda>s. ret (False, s))
             else
               bindE (dir_remove mem (alloc s) s d (last names)) (\<lambda>(success, s).
               bindE (dir_close s (Some d)) (\<lambda>s.
               bindE (the_inode s find) (\<lambda>i.
               if is_good_inode i \<and> is_dir i then ret (False, s) else ret (success, s)))))))))))"

section \<open>Start and end\<close>

definition do_format :: "bool \<Rightarrow> fat_fs \<Rightarrow> disk \<Rightarrow> (fat_fs \<times> disk) exec" where
  "do_format mem fs d =
     bindE (fat_create mem fs d) (\<lambda>(fs, d).
     bindE (fat_close mem fs d) (\<lambda>d.
     create_root_dir_inode mem fs d))"

definition filesys_init :: "bool \<Rightarrow> disk option \<Rightarrow> bool \<Rightarrow> (fat_fs \<times> disk) exec" where
  "filesys_init mem hdb format =
     (case hdb of
        None \<Rightarrow> fail Panicked
      | Some d \<Rightarrow>
          bindE (fat_init mem d) (\<lambda>(fs, d).
          bindE (if format then do_format mem fs d else ret (fs, d)) (\<lambda>(fs, d).
          fat_open mem fs d)))"

definition filesys_done :: "bool \<Rightarrow> fsys \<Rightarrow> fsys exec" where
  "filesys_done mem s = bindE (fat_close mem (fatfs s) (filesys_disk s)) (\<lambda>d. ret (s\<lparr>filesys_disk := d\<rparr>))"

section \<open>Splitting a path\<close>

lemma words_Cons_nonempty:
  assumes "words D s = w # ws"
  shows "w \<noteq> []"
proof -
  let ?s = "dropWhile (\<lambda>c. c \<in> D) s"
  from assms have n: "?s \<noteq> []" and w: "w = takeWhile (\<lambda>c. c \<notin> D) ?s"
    by (subst (asm) words.simps, auto simp: Let_def split: if_splits)+
  then show ?thesis using hd_dropWhile [OF n] by (cases ?s) auto
qed

text \<open>
  The state of the loop with the words \<open>ws\<close> still to come: the first of them is the token, the rest
  is in the string at \<open>save_ptr\<close>, which lies in front of the delimiter string.
\<close>

fun parse_inv :: "u8 \<Rightarrow> u8 list \<Rightarrow> nat option \<Rightarrow> nat \<Rightarrow> nat \<Rightarrow> u8 list list \<Rightarrow> bool" where
  "parse_inv c m token d sv [] \<longleftrightarrow> token = None"
| "parse_inv c m token d sv (w # ws) \<longleftrightarrow> string_at m d [c] \<and> (\<exists>t s. token = Some t \<and> string_at m t w \<and> t + length w \<le> sv \<and>
     string_at m sv s \<and> words {c} s = ws \<and> sv + length s < d)"

lemma strtok_r_inv:
  assumes d: "string_at m d [c]" and s: "string_at m p s" "p + length s < d"
  shows "\<exists>token sv' m'. strtok_r m (Some p) d sv = ret (token, sv', m') \<and> strtok_r m None d p = ret (token, sv', m') \<and>
    parse_inv c m' token d sv' (words {c} s) \<and> length m' = length m \<and> (\<forall>k \<le> p. m' ! k = m ! k) \<and> (words {c} s \<noteq> [] \<longrightarrow> p \<le> sv')"
proof (cases "words {c} s")
  case Nil
  then show ?thesis using strtok_r_none [OF d s(1)] by simp
next
  case (Cons w ws)
  from strtok_r_some [OF d s(1), of w ws sv] Cons obtain q sv' m' s' where
    t: "strtok_r m (Some p) d sv = ret (Some q, sv', m')" "strtok_r m None d p = ret (Some q, sv', m')" "string_at m' q w" "string_at m' sv' s'"
      "words {c} s' = ws" "p \<le> q" "q + length w \<le> sv'" "sv' + length s' = p + length s" "m' = m \<or> m' = m[q + length w := 0]" by auto
  have w: "w \<noteq> []" by (rule words_Cons_nonempty [OF Cons])
  have "0 < length w" using w by simp
  then have in_s: "p < q + length w" "q + length w \<le> p + length s" using t(6-8) by linarith+
  have eq: "length m' = length m" "m' ! k = m ! k" if "k \<le> p \<or> p + length s < k" for k
  proof -
    have "q + length w \<noteq> k" using that in_s by auto
    then show "length m' = length m" "m' ! k = m ! k" using t(9) by (auto simp: nth_list_update_neq)
  qed
  have "string_at m' d [c]" using d eq s(2) by (intro string_at_cong [OF d]) auto
  moreover have "sv' + length s' < d" using t(8) s(2) by simp
  ultimately show ?thesis using t eq Cons by auto
qed

lemma parse_loop_ok:
  assumes "parse_inv c m token d sv ws" and "length argv + length ws < 128"
  shows "\<exists>argv' m'. parse_loop m token d sv argv = ret (argv @ argv', m') \<and> list_all2 (string_at m') argv' ws \<and>
    length m' = length m \<and> (ws \<noteq> [] \<longrightarrow> (\<forall>k \<le> sv. m' ! k = m ! k))"
  using assms
proof (induction ws arbitrary: m token sv argv)
  case Nil
  then show ?case by (subst parse_loop.simps) simp
next
  case (Cons w ws)
  from Cons.prems(1) obtain t s where
    t: "string_at m d [c]" "token = Some t" "string_at m t w" "t + length w \<le> sv" "string_at m sv s" "words {c} s = ws" "sv + length s < d" by auto
  from strtok_r_inv [OF t(1,5,7), of 0] t(6) obtain tk sv1 m1 where
    i: "strtok_r m None d sv = ret (tk, sv1, m1)" "parse_inv c m1 tk d sv1 ws" "length m1 = length m" "\<forall>k \<le> sv. m1 ! k = m ! k"
      "ws \<noteq> [] \<longrightarrow> sv \<le> sv1" by auto
  from Cons.IH [OF i(2), of "argv @ [t]"] Cons.prems(2) obtain argv' m' where
    r: "parse_loop m1 tk d sv1 (argv @ [t]) = ret ((argv @ [t]) @ argv', m')" "list_all2 (string_at m') argv' ws" "length m' = length m1"
      "ws \<noteq> [] \<longrightarrow> (\<forall>k \<le> sv1. m' ! k = m1 ! k)" by auto
  have m1: "m' = m1" if "ws = []" using r(1) i(2) that by (subst (asm) parse_loop.simps) (auto split: if_splits)
  have keep: "\<forall>k \<le> sv. m' ! k = m ! k" using r(4) i(4,5) m1 by (cases "ws = []") auto
  have "string_at m' t w" using keep t(4) r(3) i(3) by (intro string_at_cong [OF t(3)]) auto
  moreover have "parse_loop m token d sv argv = ret (argv @ t # argv', m')"
    using Cons.prems(2) t(2) i(1) r(1) by (subst parse_loop.simps) simp
  ultimately show ?case using r(2,3) i(3) keep by (intro exI [of _ "t # argv'"] exI [of _ m']) simp
qed

lemma parse_loop_overflow:
  assumes "parse_inv c m token d sv ws" and "length argv + length ws \<ge> 128"
  shows "parse_loop m token d sv argv = fail Out_of_bounds"
  using assms
proof (induction ws arbitrary: m token sv argv)
  case Nil
  then show ?case by (subst parse_loop.simps) simp
next
  case (Cons w ws)
  from Cons.prems(1) obtain t s where
    t: "string_at m d [c]" "token = Some t" "string_at m sv s" "words {c} s = ws" "sv + length s < d" by auto
  from strtok_r_inv [OF t(1,3,5), of 0] t(4) obtain tk sv1 m1 where
    i: "strtok_r m None d sv = ret (tk, sv1, m1)" "parse_inv c m1 tk d sv1 ws" by auto
  from Cons.IH [OF i(2), of "argv @ [t]"] Cons.prems(2) show ?case using t(2) i(1) by (subst parse_loop.simps) simp
qed

lemma string_at_append: "0 \<notin> set s \<Longrightarrow> string_at (pre @ s @ 0 # post) (length pre) s"
proof (induction s arbitrary: pre)
  case (Cons c s)
  from Cons.IH [of "pre @ [c]"] Cons.prems show ?case by auto
qed simp

lemma string_at_cstr: "string_at m p s \<Longrightarrow> cstr (drop p m) = s"
proof (induction s arbitrary: p)
  case Nil
  then show ?case by (simp add: cstr_def Cons_nth_drop_Suc [symmetric])
next
  case (Cons c s)
  then have "drop p m = c # drop (Suc p) m" by (simp add: Cons_nth_drop_Suc [symmetric])
  then show ?case using Cons by (simp add: cstr_def)
qed

lemma path_names_eq:
  assumes "0 \<notin> set path"
  shows "path_names path = (if length (words {SLASH} path) < 128 then ret (words {SLASH} path) else fail Out_of_bounds)"
proof -
  let ?m = "path @ [0, SLASH, 0]" and ?d = "length path + 1"
  have d: "string_at ?m ?d [SLASH]" using string_at_append [of "[SLASH]" "path @ [0]" "[]"] by (simp add: SLASH_def)
  have p: "string_at ?m 0 path" using string_at_append [of path "[]" "[SLASH, 0]"] assms by simp
  from strtok_r_inv [OF d p, of 0] obtain tk sv m where
    i: "strtok_r ?m (Some 0) ?d 0 = ret (tk, sv, m)" "parse_inv SLASH m tk ?d sv (words {SLASH} path)" by auto
  show ?thesis
  proof (cases "length (words {SLASH} path) < 128")
    case True
    with parse_loop_ok [OF i(2), of "[]"] obtain argv m' where
      r: "parse_loop m tk ?d sv [] = ret (argv, m')" "list_all2 (string_at m') argv (words {SLASH} path)" by auto
    from r(2) have "map (\<lambda>p. cstr (drop p m')) argv = words {SLASH} path" by (induction) (auto simp: string_at_cstr)
    then show ?thesis using True i(1) r(1) by (simp add: path_names_def parse_path_def)
  next
    case False
    then show ?thesis using parse_loop_overflow [OF i(2), of "[]"] i(1) by (simp add: path_names_def parse_path_def)
  qed
qed

text \<open>
  C31. Splitting a path: on any memory that holds the path and, behind it, the string \<open>"/"\<close>, \<open>parse_path\<close>
  ends; it stores the addresses of exactly the maximal parts between slashes, in order, each terminated
  in place; and with 128 or more parts it writes behind the array of its callers.
\<close>

theorem parse_path_splits:
  assumes "string_at m p path" and "string_at m d [SLASH]" and "p + length path < d"
  shows "if length (words {SLASH} path) < 128
    then \<exists>argv m'. parse_path m p d = ret (argv, m') \<and> length m' = length m \<and> list_all2 (string_at m') argv (words {SLASH} path)
    else parse_path m p d = fail Out_of_bounds"
proof -
  from strtok_r_inv [OF assms(2,1,3), of 0] obtain tk sv m1 where
    i: "strtok_r m (Some p) d 0 = ret (tk, sv, m1)" "parse_inv SLASH m1 tk d sv (words {SLASH} path)" "length m1 = length m" by auto
  show ?thesis
    using parse_loop_ok [OF i(2), of "[]"] parse_loop_overflow [OF i(2), of "[]"] i(1,3) by (fastforce simp: parse_path_def)
qed

theorem parse_path_splits_witness:
  "\<exists>argv m'. parse_path [47, 97, 47, 47, 98, 0, 47, 0] 0 6 = ret (argv, m') \<and> list_all2 (string_at m') argv [[97], [98]]"
proof -
  have "words {SLASH} [47, 97, 47, 47, 98] = [[97], [98]]"
    by (simp add: SLASH_def words.simps [of _ "[47, 97, 47, 47, 98]"] words.simps [of _ "[47, 47, 98]"] words.simps [of _ "[]"] Let_def)
  then show ?thesis
    using parse_path_splits [of "[47, 97, 47, 47, 98, 0, 47, 0]" 0 "[47, 97, 47, 47, 98]" 6] by (auto simp: SLASH_def)
qed

lemma length_words: "length (words D s) \<le> length s"
proof (induction D s rule: words.induct)
  case (1 D s)
  let ?s = "dropWhile (\<lambda>c. c \<in> D) s" and ?r = "dropWhile (\<lambda>c. c \<notin> D) (dropWhile (\<lambda>c. c \<in> D) s)"
  show ?case
  proof (cases "?s = []")
    case False
    then have "length ?r < length ?s" using hd_dropWhile [OF False] by (cases ?s) (auto simp: less_Suc_eq_le length_dropWhile_le)
    moreover have "length ?s \<le> length s" by (rule length_dropWhile_le)
    ultimately show ?thesis using 1 [OF refl False] by (subst words.simps) (simp add: Let_def)
  qed (subst words.simps, simp)
qed

section \<open>The directory tree\<close>

text \<open>
  The directories on the disk form a graph: \<open>tree_ok s C T\<close> says that every sector of \<open>T\<close> holds the
  inode of a well-formed directory with the chain \<open>T\<close> gives, and that the directories it names are in
  \<open>T\<close> again. \<open>resolve\<close> follows a list of names through it. \<open>fs_inv\<close> holds between the operations: the
  table of open inodes is well formed and its inodes are the ones on the disk (\<open>inode_write_at\<close>
  flushes every inode it changes), none of them removed.
\<close>

definition disk_node :: "fsys \<Rightarrow> disk_sector_t \<Rightarrow> inode" where
  "disk_node s sec = \<lparr>i_sector = sec, open_cnt = 1, removed = False, deny_write_cnt = 0,
     i_data = bytes_inode_disk (sectors (filesys_disk s) sec)\<rparr>"

definition node_entries :: "fsys \<Rightarrow> (disk_sector_t \<Rightarrow> cluster_t list option) \<Rightarrow> disk_sector_t \<Rightarrow> dir_entry list" where
  "node_entries s T sec = dir_entries s (disk_node s sec) (the (T sec))"

definition tree_ok :: "fsys \<Rightarrow> cluster_t list set \<Rightarrow> (disk_sector_t \<Rightarrow> cluster_t list option) \<Rightarrow> bool" where
  "tree_ok s C T \<longleftrightarrow> (\<forall>sec cs. T sec = Some cs \<longrightarrow>
     file_ok (s\<lparr>inodes := [1 \<mapsto> disk_node s sec]\<rparr>) C 1 (disk_node s sec) cs \<and> is_dir (disk_node s sec) \<and>
     is_good_inode (disk_node s sec) \<and> dir_ok (node_entries s T sec) \<and>
     (\<forall>name sec'. dirmap (node_entries s T sec) name = Some sec' \<longrightarrow> sec' < capacity (filesys_disk s) \<and>
        is_good_inode (disk_node s sec') \<and> (is_dir (disk_node s sec') \<longrightarrow> T sec' \<noteq> None)))"

fun resolve :: "fsys \<Rightarrow> (disk_sector_t \<Rightarrow> cluster_t list option) \<Rightarrow> disk_sector_t \<Rightarrow> u8 list list \<Rightarrow> disk_sector_t option" where
  "resolve s T sec [] = Some sec"
| "resolve s T sec (name # names) =
     (case dirmap (node_entries s T sec) name of
        None \<Rightarrow> None
      | Some sec' \<Rightarrow> if is_dir (disk_node s sec') then resolve s T sec' names else None)"

definition fs_inv :: "fsys \<Rightarrow> bool" where
  "fs_inv s \<longleftrightarrow> open_wf s \<and> disk_wf (filesys_disk s) \<and> (\<forall>p i. inodes s p = Some i \<longrightarrow>
     i_data i = i_data (disk_node s (i_sector i)) \<and> \<not> removed i \<and> i_sector i < capacity (filesys_disk s))"

text \<open>What looking around leaves alone: the allocation table and the sectors of the disk.\<close>

definition same_disk :: "fsys \<Rightarrow> fsys \<Rightarrow> bool" where
  "same_disk s s' \<longleftrightarrow> fatfs s' = fatfs s \<and> sectors (filesys_disk s') = sectors (filesys_disk s) \<and>
     capacity (filesys_disk s') = capacity (filesys_disk s)"

lemma same_disk_refl [simp]: "same_disk s s"
  by (simp add: same_disk_def)

lemma same_disk_trans: "same_disk s s' \<Longrightarrow> same_disk s' s'' \<Longrightarrow> same_disk s s''"
  by (simp add: same_disk_def)

lemma same_fs_same_disk: "same_fs s s' \<Longrightarrow> same_disk s s'"
  by (simp add: same_fs_def same_disk_def)

lemma same_disk_node: "same_disk s s' \<Longrightarrow> disk_node s' sec = disk_node s sec"
  by (simp add: same_disk_def disk_node_def)

lemma same_disk_entries: "same_disk s s' \<Longrightarrow> node_entries s' T sec = node_entries s T sec"
  by (simp add: node_entries_def dir_entries_def file_content_def content_def raw_def same_disk_node) (simp add: same_disk_def)

lemma same_disk_resolve: "same_disk s s' \<Longrightarrow> resolve s' T sec names = resolve s T sec names"
  by (induction names arbitrary: sec) (simp_all add: same_disk_entries same_disk_node cong: option.case_cong if_cong)

lemma same_disk_tree_ok: "same_disk s s' \<Longrightarrow> tree_ok s' C T = tree_ok s C T"
proof -
  assume a: "same_disk s s'"
  have "file_ok (s'\<lparr>inodes := m\<rparr>) C p i cs = file_ok (s\<lparr>inodes := m\<rparr>) C p i cs" for m p i cs
    using a by (simp add: same_disk_def file_ok_def clusters_on_disk_def disk_wf_def)
  moreover have "capacity (filesys_disk s') = capacity (filesys_disk s)" using a by (simp add: same_disk_def)
  ultimately show ?thesis unfolding tree_ok_def by (simp add: same_disk_node [OF a] same_disk_entries [OF a])
qed

lemma same_fs_inv: "same_fs s s' \<Longrightarrow> fs_inv s' = fs_inv s"
  unfolding fs_inv_def open_wf_def by (auto simp: same_fs_def disk_node_def disk_wf_def)

text \<open>An inode that is open for a sector and that some opener does not deny writes to.\<close>

definition opened_at :: "fsys \<Rightarrow> ptr \<Rightarrow> disk_sector_t \<Rightarrow> bool" where
  "opened_at s p sec \<longleftrightarrow> p \<noteq> NULL \<and> (\<exists>i. inodes s p = Some i \<and> i_sector i = sec \<and> deny_write_cnt i < open_cnt i)"

text \<open>\<open>malloc\<close> returns fresh memory as long as fewer than \<open>M\<close> inodes are open.\<close>

definition alloc_ok :: "alloc \<Rightarrow> nat \<Rightarrow> bool" where
  "alloc_ok alloc M \<longleftrightarrow> (\<forall>s. open_wf s \<and> length (open_inodes s) < M \<longrightarrow> (\<exists>q. alloc s = Some q \<and> q \<noteq> NULL \<and> inodes s q = None))"

lemma inode_open_step:
  assumes inv: "fs_inv s" and sec: "sec < capacity (filesys_disk s)" and new: "new \<noteq> NULL" "inodes s new = None"
  obtains p s' where "inode_open (Some new) s sec = ret (p, s')" "fs_inv s'" "same_disk s s'" "opened_at s' p sec"
    "length (open_inodes s') \<le> length (open_inodes s) + 1"
    "\<And>q i. inodes s q = Some i \<Longrightarrow> q \<noteq> p \<and> inodes s' q = Some i \<or> q = p \<and> inodes s' q = Some (i\<lparr>open_cnt := open_cnt i + 1\<rparr>)"
proof -
  have wf: "open_wf s" and dwf: "disk_wf (filesys_disk s)" using inv by (auto simp: fs_inv_def)
  have dom: "\<forall>p \<in> set (open_inodes s). inodes s p \<noteq> None" using wf by (auto simp: open_wf_def)
  from find_open_ok [OF dom, of sec] show thesis
  proof (elim disjE exE conjE)
    fix p j assume p: "find_open s sec (open_inodes s) = ret (Some p)" "p \<in> set (open_inodes s)" "inodes s p = Some j" "i_sector j = sec"
    let ?s = "put_inode s p (j\<lparr>open_cnt := open_cnt j + 1\<rparr>)"
    have nn: "p \<noteq> NULL" and cnt: "1 \<le> open_cnt j" "0 \<le> deny_write_cnt j" "deny_write_cnt j \<le> open_cnt j" using wf p by (auto simp: open_wf_def)
    have "open_wf ?s" using cnt by (intro open_wf_put [OF wf p(3)]) auto
    moreover have "fs_inv ?s \<longleftrightarrow> open_wf ?s" using inv p(3) by (auto simp: fs_inv_def put_inode_def disk_node_def)
    moreover have "same_disk s ?s" by (simp add: same_disk_def put_inode_def)
    moreover have "opened_at ?s p sec" using nn cnt p(4) by (simp add: opened_at_def put_inode_def)
    moreover have "inode_open (Some new) s sec = ret (p, ?s)" using p nn by (simp add: inode_open_def inode_reopen_def the_inode_def)
    ultimately show thesis using p by (intro that [of p ?s]) (auto simp: put_inode_def)
  next
    assume none: "find_open s sec (open_inodes s) = ret None" "\<forall>p i. p \<in> set (open_inodes s) \<and> inodes s p = Some i \<longrightarrow> i_sector i \<noteq> sec"
    let ?i = "disk_node s sec"
    let ?s = "(put_inode s new ?i)\<lparr>filesys_disk := (filesys_disk s)\<lparr>read_cnt := read_cnt (filesys_disk s) + 1\<rparr>, open_inodes := new # open_inodes s\<rparr>"
    have nin: "new \<notin> set (open_inodes s)" using wf new(2) unfolding open_wf_def by blast
    have other: "i_sector j \<noteq> sec" if "inodes s q = Some j" for q j using that wf none(2) by (auto simp: open_wf_def)
    have "open_wf ?s" using wf new nin other unfolding open_wf_def put_inode_def disk_node_def by (auto split: if_splits)
    moreover have "fs_inv ?s \<longleftrightarrow> open_wf ?s" using inv sec by (auto simp: fs_inv_def put_inode_def disk_node_def disk_wf_def)
    moreover have "same_disk s ?s" by (simp add: same_disk_def put_inode_def)
    moreover have "opened_at ?s new sec" using new(1) by (simp add: opened_at_def put_inode_def disk_node_def)
    moreover have "inode_open (Some new) s sec = ret (new, ?s)"
      using none(1) disk_read_ok [OF dwf sec] by (simp add: inode_open_def disk_node_def put_inode_def)
    ultimately show thesis using new(2) by (intro that [of new ?s]) (auto simp: put_inode_def)
  qed
qed

lemma inode_close_step:
  assumes inv: "fs_inv s" and p: "inodes s p = Some i" "p \<noteq> NULL" "is_good_inode i" "deny_write_cnt i < open_cnt i"
  obtains s' where "inode_close s p = ret s'" "fs_inv s'" "same_disk s s'" "length (open_inodes s') \<le> length (open_inodes s)"
    "\<And>q. q \<noteq> p \<Longrightarrow> inodes s' q = inodes s q" "open_cnt i > 1 \<Longrightarrow> inodes s' p = Some (i\<lparr>open_cnt := open_cnt i - 1\<rparr>)"
proof (cases "open_cnt i = 1")
  case True
  let ?s = "s\<lparr>open_inodes := remove1 p (open_inodes s), inodes := (inodes s)(p := None)\<rparr>"
  have wf: "open_wf s" and r: "\<not> removed i" using inv p(1) by (auto simp: fs_inv_def)
  have "open_wf ?s" using wf unfolding open_wf_def by (auto split: if_splits simp: set_remove1_eq)
  moreover have "fs_inv ?s \<longleftrightarrow> open_wf ?s" using inv by (auto simp: fs_inv_def disk_node_def)
  moreover have "inode_close s p = ret ?s" using p True r by (simp add: inode_close_def the_inode_def is_good_inode_def)
  ultimately show thesis using True by (intro that [of ?s]) (auto simp: same_disk_def length_remove1)
next
  case False
  let ?s = "put_inode s p (i\<lparr>open_cnt := open_cnt i - 1\<rparr>)"
  have wf: "open_wf s" and c: "1 \<le> open_cnt i" "0 \<le> deny_write_cnt i" using inv p(1) by (auto simp: fs_inv_def open_wf_def)
  have "open_wf ?s" using c p(4) False by (intro open_wf_put [OF wf p(1)]) auto
  moreover have "fs_inv ?s \<longleftrightarrow> open_wf ?s" using inv p(1) by (auto simp: fs_inv_def put_inode_def disk_node_def)
  moreover have "inode_close s p = ret ?s" using p False by (simp add: inode_close_def the_inode_def is_good_inode_def)
  ultimately show thesis by (intro that [of ?s]) (auto simp: same_disk_def put_inode_def)
qed

lemma opened_file_ok:
  assumes inv: "fs_inv s" and t: "tree_ok s C T" "T sec = Some cs" and p: "inodes s p = Some i" "i_sector i = sec"
  shows "file_ok s C p i cs" "dir_entries s i cs = node_entries s T sec" "dir_ok (dir_entries s i cs)" "is_good_inode i" "is_dir i"
proof -
  have d: "i_data i = i_data (disk_node s sec)" using inv p by (auto simp: fs_inv_def)
  have f: "file_ok (s\<lparr>inodes := [1 \<mapsto> disk_node s sec]\<rparr>) C 1 (disk_node s sec) cs" "is_dir (disk_node s sec)"
    "is_good_inode (disk_node s sec)" "dir_ok (node_entries s T sec)" using t by (auto simp: tree_ok_def)
  have "i_sector (disk_node s sec) = sec" by (simp add: disk_node_def)
  then show "file_ok s C p i cs" using f(1) p d by (simp add: file_ok_def inode_length_def)
  show e: "dir_entries s i cs = node_entries s T sec" using d t(2) by (simp add: node_entries_def dir_entries_def file_content_def)
  show "dir_ok (dir_entries s i cs)" using f(4) e by simp
  show "is_good_inode i" "is_dir i" using f(2,3) d by (auto simp: is_good_inode_def is_dir_def)
qed

lemma dir_lookup_step:
  assumes inv: "fs_inv s" and t: "tree_ok s C T" "T sec = Some cs" and d: "opened_at s (dir_inode d) sec"
    and al: "alloc_ok alloc M" "length (open_inodes s) < M"
  shows "case dirmap (node_entries s T sec) name of
      None \<Rightarrow> \<exists>s'. dir_lookup True (alloc s) s d name = ret (False, NULL, s') \<and> fs_inv s' \<and> same_disk s s' \<and>
        length (open_inodes s') = length (open_inodes s)
    | Some sec' \<Rightarrow> \<exists>p s' i. dir_lookup True (alloc s) s d name = ret (True, p, s') \<and> fs_inv s' \<and> same_disk s s' \<and>
        opened_at s' p sec' \<and> length (open_inodes s') \<le> length (open_inodes s) + 1 \<and> opened_at s' (dir_inode d) sec \<and>
        inodes s' (dir_inode d) = Some i \<and> (p = dir_inode d \<longrightarrow> deny_write_cnt i < open_cnt i - 1)"
proof -
  from d obtain i where i: "dir_inode d \<noteq> NULL" "inodes s (dir_inode d) = Some i" "i_sector i = sec" "deny_write_cnt i < open_cnt i"
    by (auto simp: opened_at_def)
  note ok = opened_file_ok [OF inv t i(2,3)]
  have "\<forall>e \<in> set (dir_entries s i cs). in_use e \<longrightarrow> 0 \<in> set (e_name e)" using ok(3) by (simp add: dir_ok_def)
  from lookup_loop_ok [OF ok(1) this, of name 0] obtain s1 where
    l: "lookup True s d name = ret (found_at name (node_entries s T sec) 0, s1)" "same_fs s s1" by (auto simp: lookup_def ok(2))
  have inv1: "fs_inv s1" using inv same_fs_inv [OF l(2)] by simp
  have eq: "open_inodes s1 = open_inodes s" "inodes s1 = inodes s" "alloc s1 = alloc s1" using l(2) by (auto simp: same_fs_def)
  show ?thesis
  proof (cases "dirmap (node_entries s T sec) name")
    case None
    then have "found_at name (node_entries s T sec) 0 = None" by (simp add: dirmap_def found_at_find)
    then show ?thesis using None l inv1 same_fs_same_disk [OF l(2)] eq by (simp add: dir_lookup_def)
  next
    case (Some sec')
    then obtain e ofs where fa: "found_at name (node_entries s T sec) 0 = Some (e, ofs)" "e_sector e = sec'"
      using found_at_find [of name "node_entries s T sec"] by (cases "found_at name (node_entries s T sec) 0") (auto simp: dirmap_def)
    have cap: "sec' < capacity (filesys_disk s1)" using t Some l(2) by (auto simp: tree_ok_def same_fs_def)
    from al inv obtain new where new: "alloc s = Some new" "new \<noteq> NULL" "inodes s1 new = None" by (auto simp: alloc_ok_def fs_inv_def eq)
    from inode_open_step [OF inv1 cap new(2,3)] obtain p s' where
      o: "inode_open (Some new) s1 sec' = ret (p, s')" "fs_inv s'" "same_disk s1 s'" "opened_at s' p sec'"
        "length (open_inodes s') \<le> length (open_inodes s1) + 1"
        "\<And>q i. inodes s1 q = Some i \<Longrightarrow> q \<noteq> p \<and> inodes s' q = Some i \<or> q = p \<and> inodes s' q = Some (i\<lparr>open_cnt := open_cnt i + 1\<rparr>)"
      by blast
    have "p \<noteq> NULL" using o(4) by (simp add: opened_at_def)
    then have "dir_lookup True (alloc s) s d name = ret (True, p, s')" using l(1) fa new(1) o(1) by (simp add: dir_lookup_def)
    moreover have "same_disk s s'" by (rule same_disk_trans [OF same_fs_same_disk [OF l(2)] o(3)])
    moreover have "\<exists>i. inodes s' (dir_inode d) = Some i \<and> i_sector i = sec \<and> deny_write_cnt i < open_cnt i \<and>
        (p = dir_inode d \<longrightarrow> deny_write_cnt i < open_cnt i - 1)"
      using o(6) [of "dir_inode d" i] i eq by auto
    ultimately show ?thesis using Some o(2,4,5) i(1) eq by (auto simp: opened_at_def)
  qed
qed

lemma walk_path_ok:
  assumes "fs_inv s" and "tree_ok s C T" and "T sec \<noteq> None" and "opened_at s (dir_inode d) sec"
    and al: "alloc_ok alloc M" and "length (open_inodes s) + length names \<le> M"
  shows "\<exists>r s'. walk_path True alloc s (Some d) names = ret (r, s') \<and> fs_inv s' \<and> same_disk s s' \<and>
    length (open_inodes s') \<le> length (open_inodes s) + length names \<and>
    (case resolve s T sec names of
       None \<Rightarrow> r = None
     | Some sec' \<Rightarrow> T sec' \<noteq> None \<and> (\<exists>d'. r = Some (Some d') \<and> opened_at s' (dir_inode d') sec'))"
  using assms(1-4,6)
proof (induction names arbitrary: s d sec)
  case Nil
  then show ?case by auto
next
  case (Cons name names)
  from Cons.prems(3) obtain cs where cs: "T sec = Some cs" by blast
  have len: "length (open_inodes s) < M" using Cons.prems(5) by simp
  note l = dir_lookup_step [OF Cons.prems(1,2) cs Cons.prems(4) al len, of name]
  show ?case
  proof (cases "dirmap (node_entries s T sec) name")
    case None
    with l obtain s' where "dir_lookup True (alloc s) s d name = ret (False, NULL, s')" "fs_inv s'" "same_disk s s'"
      "length (open_inodes s') = length (open_inodes s)" by auto
    then show ?thesis using None by (intro exI [of _ None] exI [of _ s']) simp
  next
    case (Some sec')
    with l obtain p s1 i where
      p: "dir_lookup True (alloc s) s d name = ret (True, p, s1)" "fs_inv s1" "same_disk s s1" "opened_at s1 p sec'"
        "length (open_inodes s1) \<le> length (open_inodes s) + 1" "opened_at s1 (dir_inode d) sec"
        "inodes s1 (dir_inode d) = Some i" "p = dir_inode d \<longrightarrow> deny_write_cnt i < open_cnt i - 1" by auto
    from p(4) obtain j where j: "p \<noteq> NULL" "inodes s1 p = Some j" "i_sector j = sec'" "deny_write_cnt j < open_cnt j" by (auto simp: opened_at_def)
    have dj: "is_dir j = is_dir (disk_node s sec')"
      using p(2) j(2,3) same_disk_node [OF p(3), of sec'] by (auto simp: fs_inv_def is_dir_def)
    show ?thesis
    proof (cases "is_dir j")
      case False
      then show ?thesis using Some dj p(1,2,3,5) j(2) by (intro exI [of _ None] exI [of _ s1]) (simp add: the_inode_def)
    next
      case True
      have t1: "tree_ok s1 C T" using Cons.prems(2) same_disk_tree_ok [OF p(3)] by simp
      from p(6,7) have di: "dir_inode d \<noteq> NULL" "i_sector i = sec" "deny_write_cnt i < open_cnt i" by (auto simp: opened_at_def)
      from inode_close_step [OF p(2,7) di(1) opened_file_ok(4) [OF p(2) t1 cs p(7) di(2)] di(3)] obtain s2 where
        c: "inode_close s1 (dir_inode d) = ret s2" "fs_inv s2" "same_disk s1 s2" "length (open_inodes s2) \<le> length (open_inodes s1)"
          "\<And>q. q \<noteq> dir_inode d \<Longrightarrow> inodes s2 q = inodes s1 q" "open_cnt i > 1 \<Longrightarrow> inodes s2 (dir_inode d) = Some (i\<lparr>open_cnt := open_cnt i - 1\<rparr>)"
        by blast
      have deny: "0 \<le> deny_write_cnt i" using p(2,7) by (auto simp: fs_inv_def open_wf_def)
      have o2: "opened_at s2 p sec'"
      proof (cases "p = dir_inode d")
        case True
        then show ?thesis using c(6) p(7,8) j deny by (auto simp: opened_at_def)
      next
        case False
        then show ?thesis using c(5) j by (auto simp: opened_at_def)
      qed
      have s2: "same_disk s s2" by (rule same_disk_trans [OF p(3) c(3)])
      have t2: "tree_ok s2 C T" using Cons.prems(2) same_disk_tree_ok [OF s2] by simp
      have T': "T sec' \<noteq> None" using Cons.prems(2) cs Some True dj unfolding tree_ok_def by blast
      have len2: "length (open_inodes s2) + length names \<le> M" using p(5) c(4) Cons.prems(5) by simp
      from Cons.IH [OF c(2) t2 T', of "\<lparr>dir_inode = p, dir_pos = 0\<rparr>"] o2 len2 obtain r s' where
        r: "walk_path True alloc s2 (Some \<lparr>dir_inode = p, dir_pos = 0\<rparr>) names = ret (r, s')" "fs_inv s'" "same_disk s2 s'"
          "length (open_inodes s') \<le> length (open_inodes s2) + length names"
          "case resolve s2 T sec' names of None \<Rightarrow> r = None
           | Some sec' \<Rightarrow> T sec' \<noteq> None \<and> (\<exists>d'. r = Some (Some d') \<and> opened_at s' (dir_inode d') sec')" by auto
      have "walk_path True alloc s (Some d) (name # names) = ret (r, s')"
        using p(1) j(1,2) True c(1) r(1) by (simp add: the_inode_def dir_close_def dir_open_def)
      moreover have "resolve s T sec (name # names) = resolve s2 T sec' names"
        using Some True dj same_disk_resolve [OF s2] by simp
      moreover have "length (open_inodes s') \<le> length (open_inodes s) + length (name # names)" using r(4) p(5) c(4) by simp
      ultimately show ?thesis using r(2,5) same_disk_trans [OF s2 r(3)] by (intro exI [of _ r] exI [of _ s']) simp
    qed
  qed
qed


text \<open>Where a path starts: at the root, or at the working directory.\<close>

definition start_sector :: "fsys \<Rightarrow> dir option \<Rightarrow> u8 list \<Rightarrow> disk_sector_t" where
  "start_sector s cwd path = (case cwd of Some d \<Rightarrow> if is_root_path path then ROOT_DIR_SECTOR else i_sector (the (inodes s (dir_inode d)))
     | None \<Rightarrow> ROOT_DIR_SECTOR)"

definition cwd_ok :: "fsys \<Rightarrow> (disk_sector_t \<Rightarrow> cluster_t list option) \<Rightarrow> dir option \<Rightarrow> bool" where
  "cwd_ok s T cwd \<longleftrightarrow> T ROOT_DIR_SECTOR \<noteq> None \<and> (\<forall>d. cwd = Some d \<longrightarrow> dir_inode d \<noteq> NULL \<and> inodes s (dir_inode d) \<noteq> None \<and>
     T (i_sector (the (inodes s (dir_inode d)))) \<noteq> None)"

lemma tree_ok_capacity: "tree_ok s C T \<Longrightarrow> T sec \<noteq> None \<Longrightarrow> sec < capacity (filesys_disk s)"
  unfolding tree_ok_def file_ok_def by (auto simp: disk_node_def)

lemma dir_open_root_step:
  assumes inv: "fs_inv s" and t: "tree_ok s C T" "T ROOT_DIR_SECTOR \<noteq> None" and al: "alloc_ok alloc M" "length (open_inodes s) < M"
  shows "\<exists>d s'. dir_open_root True (alloc s) s = ret (Some d, s') \<and> fs_inv s' \<and> same_disk s s' \<and>
    opened_at s' (dir_inode d) ROOT_DIR_SECTOR \<and> length (open_inodes s') \<le> length (open_inodes s) + 1"
proof -
  from al inv obtain new where new: "alloc s = Some new" "new \<noteq> NULL" "inodes s new = None" by (auto simp: alloc_ok_def fs_inv_def)
  from inode_open_step [OF inv tree_ok_capacity [OF t] new(2,3)] obtain p s' where
    o: "inode_open (Some new) s ROOT_DIR_SECTOR = ret (p, s')" "fs_inv s'" "same_disk s s'" "opened_at s' p ROOT_DIR_SECTOR"
      "length (open_inodes s') \<le> length (open_inodes s) + 1"
      "\<And>q i. inodes s q = Some i \<Longrightarrow> q \<noteq> p \<and> inodes s' q = Some i \<or> q = p \<and> inodes s' q = Some (i\<lparr>open_cnt := open_cnt i + 1\<rparr>)"
    by blast
  moreover from o(4) have "p \<noteq> NULL" by (simp add: opened_at_def)
  ultimately show ?thesis using new(1)
    by (intro exI [of _ "\<lparr>dir_inode = p, dir_pos = 0\<rparr>"] exI [of _ s']) (simp add: dir_open_root_def dir_open_def)
qed

lemma start_dir_step:
  assumes inv: "fs_inv s" and t: "tree_ok s C T" "cwd_ok s T cwd" and al: "alloc_ok alloc M" "length (open_inodes s) < M"
  shows "\<exists>d s'. start_dir True alloc s cwd (is_root_path path) = ret (Some d, s') \<and> fs_inv s' \<and> same_disk s s' \<and>
    opened_at s' (dir_inode d) (start_sector s cwd path) \<and> T (start_sector s cwd path) \<noteq> None \<and>
    length (open_inodes s') \<le> length (open_inodes s) + 1"
proof -
  have rt: "T ROOT_DIR_SECTOR \<noteq> None" using t(2) by (simp add: cwd_ok_def)
  note root = dir_open_root_step [OF inv t(1) rt al]
  show ?thesis
  proof (cases "\<exists>d. cwd = Some d \<and> \<not> is_root_path path")
    case False
    then have "start_dir True alloc s cwd (is_root_path path) = dir_open_root True (alloc s) s" "start_sector s cwd path = ROOT_DIR_SECTOR"
      by (auto simp: start_dir_def start_sector_def split: option.splits)
    then show ?thesis using root rt by simp
  next
    case True
    then obtain d where d: "cwd = Some d" "\<not> is_root_path path" by blast
    with t(2) obtain i cs where i: "dir_inode d \<noteq> NULL" "inodes s (dir_inode d) = Some i" "T (i_sector i) = Some cs" by (auto simp: cwd_ok_def)
    have good: "is_good_inode i" by (rule opened_file_ok(4) [OF inv t(1) i(3,2) refl])
    let ?s = "put_inode s (dir_inode d) (i\<lparr>open_cnt := open_cnt i + 1\<rparr>)"
    have wf: "open_wf s" and cnt: "1 \<le> open_cnt i" "0 \<le> deny_write_cnt i" "deny_write_cnt i \<le> open_cnt i"
      using inv i(2) by (auto simp: fs_inv_def open_wf_def)
    have "open_wf ?s" using cnt by (intro open_wf_put [OF wf i(2)]) auto
    then have "fs_inv ?s" using inv i(2) by (auto simp: fs_inv_def put_inode_def disk_node_def)
    moreover have "start_dir True alloc s cwd (is_root_path path) = ret (Some \<lparr>dir_inode = dir_inode d, dir_pos = 0\<rparr>, ?s)"
      using d i good by (simp add: start_dir_def good_dir_def the_inode_def dir_reopen_def inode_reopen_def dir_open_def)
    moreover have "opened_at ?s (dir_inode d) (i_sector i)" using cnt i(1) by (simp add: opened_at_def put_inode_def)
    moreover have "same_disk s ?s" "open_inodes ?s = open_inodes s" by (simp_all add: same_disk_def put_inode_def)
    moreover have "start_sector s cwd path = i_sector i" using d i(2) by (simp add: start_sector_def)
    ultimately show ?thesis using i(3) by (intro exI [of _ "\<lparr>dir_inode = dir_inode d, dir_pos = 0\<rparr>"] exI [of _ ?s]) simp
  qed
qed


text \<open>What a path names: the sector its last name maps to in the directory the others lead to.\<close>

definition resolve_file :: "fsys \<Rightarrow> (disk_sector_t \<Rightarrow> cluster_t list option) \<Rightarrow> disk_sector_t \<Rightarrow> u8 list list \<Rightarrow> disk_sector_t option" where
  "resolve_file s T sec names = (case resolve s T sec (butlast names) of
     None \<Rightarrow> None | Some sec' \<Rightarrow> dirmap (node_entries s T sec') (last names))"

text \<open>
  C2. Opening by path: on a well-formed tree of directories, \<open>filesys_open\<close> ends for every path of
  fewer than 128 bytes; it opens the inode of exactly the sector the path names, from the root or
  from the working directory, at position 0, and returns NULL exactly when the path names nothing;
  either way the disk and the allocation table stay as they were and the open inodes well formed.
\<close>

theorem filesys_open_resolves:
  assumes inv: "fs_inv s" and t: "tree_ok s C T" "cwd_ok s T cwd"
    and al: "alloc_ok alloc M" "length (open_inodes s) + length path + 2 \<le> M"
    and path: "0 \<notin> set path" "length path < 128" "words {SLASH} path \<noteq> []"
  shows "\<exists>r s'. filesys_open True alloc s cwd path = ret (r, s') \<and> fs_inv s' \<and> same_disk s s' \<and>
    (case resolve_file s T (start_sector s cwd path) (words {SLASH} path) of
       None \<Rightarrow> r = Not_opened
     | Some sec \<Rightarrow> \<exists>f. r = Opened_file f \<and> f_pos f = 0 \<and> \<not> deny_write f \<and> opened_at s' (f_inode f) sec)"
proof -
  let ?ws = "words {SLASH} path" and ?st = "start_sector s cwd path"
  have lw: "length ?ws \<le> length path" by (rule length_words)
  have names: "path_names path = ret ?ws" using path_names_eq [OF path(1)] lw path(2) by simp
  have "length (open_inodes s) < M" using al(2) by simp
  from start_dir_step [OF inv t al(1) this, of path] obtain d s1 where
    d: "start_dir True alloc s cwd (is_root_path path) = ret (Some d, s1)" "fs_inv s1" "same_disk s s1"
      "opened_at s1 (dir_inode d) ?st" "T ?st \<noteq> None" "length (open_inodes s1) \<le> length (open_inodes s) + 1" by blast
  have t1: "tree_ok s1 C T" using t(1) same_disk_tree_ok [OF d(3)] by simp
  have "length (open_inodes s1) + length (butlast ?ws) \<le> M" using d(6) al(2) lw by simp
  from walk_path_ok [OF d(2) t1 d(5,4) al(1) this] obtain r s2 where
    w: "walk_path True alloc s1 (Some d) (butlast ?ws) = ret (r, s2)" "fs_inv s2" "same_disk s1 s2"
      "length (open_inodes s2) \<le> length (open_inodes s1) + length (butlast ?ws)"
      "case resolve s1 T ?st (butlast ?ws) of None \<Rightarrow> r = None
       | Some sec' \<Rightarrow> T sec' \<noteq> None \<and> (\<exists>d'. r = Some (Some d') \<and> opened_at s2 (dir_inode d') sec')" by blast
  have s2: "same_disk s s2" by (rule same_disk_trans [OF d(3) w(3)])
  have t2: "tree_ok s2 C T" using t(1) same_disk_tree_ok [OF s2] by simp
  have res: "resolve s1 T ?st (butlast ?ws) = resolve s T ?st (butlast ?ws)" by (rule same_disk_resolve [OF d(3)])
  note run = filesys_open_def names d(1) w(1) path(3)
  have short: "\<not> 128 < length path + 1" using path(2) by simp
  show ?thesis
  proof (cases "resolve s T ?st (butlast ?ws)")
    case None
    then have "r = None" using w(5) res by simp
    then have "filesys_open True alloc s cwd path = ret (Not_opened, s2)" using short by (simp add: run)
    then show ?thesis using None w(2) s2 by (simp add: resolve_file_def)
  next
    case (Some sec')
    then obtain d' cs where d': "r = Some (Some d')" "opened_at s2 (dir_inode d') sec'" "T sec' = Some cs" using w(5) res by auto
    have "length (open_inodes s2) < M" using w(4) d(6) al(2) lw by simp
    note l = dir_lookup_step [OF w(2) t2 d'(3,2) al(1) this, of "last ?ws"]
    have ents: "node_entries s2 T sec' = node_entries s T sec'" by (rule same_disk_entries [OF s2])
    show ?thesis
    proof (cases "dirmap (node_entries s T sec') (last ?ws)")
      case None
      with l ents obtain s3 where "dir_lookup True (alloc s2) s2 d' (last ?ws) = ret (False, NULL, s3)" "fs_inv s3" "same_disk s2 s3" by auto
      moreover from this have "filesys_open True alloc s cwd path = ret (Not_opened, s3)" using short d'(1) by (simp add: run)
      ultimately show ?thesis using None Some same_disk_trans [OF s2] by (simp add: resolve_file_def)
    next
      case (Some sec)
      with l ents obtain p s3 where
        p: "dir_lookup True (alloc s2) s2 d' (last ?ws) = ret (True, p, s3)" "fs_inv s3" "same_disk s2 s3" "opened_at s3 p sec" by auto
      have "p \<noteq> NULL" using p(4) by (simp add: opened_at_def)
      then have "filesys_open True alloc s cwd path = ret (Opened_file \<lparr>f_inode = p, f_pos = 0, deny_write = False, dup_count = 1\<rparr>, s3)"
        using short d'(1) p(1) by (simp add: run file_open_def)
      then show ?thesis using \<open>resolve s T ?st (butlast ?ws) = Some sec'\<close> Some p(2,4) same_disk_trans [OF s2 p(3)]
        by (simp add: resolve_file_def)
    qed
  qed
qed

section \<open>A sample tree\<close>

text \<open>The root directory, in sector 1 with its entries in sector 2, names the directory \<open>b\<close> in sector 8, which names the file \<open>a\<close>.\<close>

definition root_data :: inode_disk where
  "root_data = \<lparr>d_start = 1, d_length = 20, d_magic = INODE_MAGIC, isdir = True, unused = replicate 499 0\<rparr>"

definition sub_entry :: dir_entry where
  "sub_entry = \<lparr>e_sector = 8, e_name = 98 # replicate 14 0, in_use = True\<rparr>"

definition tree_fsys :: fsys where
  "tree_fsys = sample_dir_fsys\<lparr>filesys_disk := (filesys_disk sample_dir_fsys)\<lparr>sectors := (sectors (filesys_disk sample_dir_fsys))
     (1 := inode_disk_bytes root_data, 2 := entry_bytes sub_entry @ replicate 492 0, 8 := inode_disk_bytes (i_data sample_dir_inode))\<rparr>,
     inodes := Map.empty, open_inodes := []\<rparr>"

definition tree_dirs :: "disk_sector_t \<Rightarrow> cluster_t list option" where
  "tree_dirs = [1 \<mapsto> [1], 8 \<mapsto> [2]]"

lemma tree_nodes:
  "i_data (disk_node tree_fsys 1) = root_data" "i_data (disk_node tree_fsys 8) = i_data sample_dir_inode" "i_data (disk_node tree_fsys 4) = sample_target"
  by (simp_all add: disk_node_def tree_fsys_def sample_dir_fsys_def inode_disk_roundtrip in_int32_def root_data_def sample_dir_inode_def sample_target_def)

lemma tree_disk_wf: "disk_wf (filesys_disk tree_fsys)"
  using sample_dir_disk_wf
  by (simp add: tree_fsys_def disk_wf_def DISK_SECTOR_SIZE_def length_inode_disk_bytes root_data_def sample_dir_inode_def length_entry_bytes sub_entry_def)

lemma tree_entries:
  "node_entries tree_fsys tree_dirs 1 = [sub_entry]"
  "node_entries tree_fsys tree_dirs 8 = [sample_entry, \<lparr>e_sector = 0, e_name = replicate 15 0, in_use = False\<rparr>]"
proof -
  have "file_content tree_fsys (disk_node tree_fsys 1) [1] = entry_bytes sub_entry"
    by (simp add: file_content_def content_def tree_nodes root_data_def)
      (simp add: tree_fsys_def sample_dir_fsys_def cluster_to_sector_def sample_fs_def length_entry_bytes sub_entry_def)
  moreover have "length (e_name sub_entry) = 15" by (simp add: sub_entry_def)
  ultimately show "node_entries tree_fsys tree_dirs 1 = [sub_entry]"
    by (simp add: node_entries_def tree_dirs_def dir_entries_def entries_single)
  have "file_content tree_fsys (disk_node tree_fsys 8) [2] = file_content sample_dir_fsys sample_dir_inode [2]"
    by (simp add: file_content_def content_def tree_nodes) (simp add: tree_fsys_def sample_dir_fsys_def cluster_to_sector_def sample_fs_def)
  then show "node_entries tree_fsys tree_dirs 8 = [sample_entry, \<lparr>e_sector = 0, e_name = replicate 15 0, in_use = False\<rparr>]"
    using sample_dir_entries by (simp add: node_entries_def tree_dirs_def dir_entries_def)
qed

lemma tree_file_ok:
  assumes "tree_dirs sec = Some cs"
  shows "file_ok (tree_fsys\<lparr>inodes := [1 \<mapsto> disk_node tree_fsys sec]\<rparr>) {[1], [2], [3], [5], [7]} 1 (disk_node tree_fsys sec) cs"
proof -
  have c: "fatfs tree_fsys = fatfs sample_dir_fsys" "capacity (filesys_disk tree_fsys) = capacity (filesys_disk sample_dir_fsys)"
    by (simp_all add: tree_fsys_def)
  have on: "clusters_on_disk (fatfs sample_dir_fsys) (filesys_disk sample_dir_fsys)" using sample_dir_ok by (simp add: file_ok_def)
  have st: "sector_to_cluster (fatfs sample_dir_fsys) 1 = 0" "sector_to_cluster (fatfs sample_dir_fsys) 8 = 7"
    "1 < capacity (filesys_disk sample_dir_fsys)" "8 < capacity (filesys_disk sample_dir_fsys)"
    by (simp_all add: sample_dir_fsys_def sector_to_cluster_def sample_fs_def sample_disk_def)
  have sec: "i_sector (disk_node tree_fsys sec) = sec" for sec by (simp add: disk_node_def)
  have "sec = 1 \<and> cs = [1] \<or> sec = 8 \<and> cs = [2]" using assms by (auto simp: tree_dirs_def split: if_splits)
  then show ?thesis
    using sample_dir_chains tree_disk_wf on st
    by (elim disjE) (simp_all add: file_ok_def c clusters_on_disk_def sec inode_length_def tree_nodes Let_def in_table_def,
      simp_all add: root_data_def sample_dir_inode_def)
qed

lemma tree_fsys_ok: "tree_ok tree_fsys {[1], [2], [3], [5], [7]} tree_dirs"
proof -
  have s: "sec = 1 \<or> sec = 8" if "tree_dirs sec = Some cs" for sec cs using that by (auto simp: tree_dirs_def split: if_splits)
  have d: "is_dir (disk_node tree_fsys 1)" "is_dir (disk_node tree_fsys 8)" "\<not> is_dir (disk_node tree_fsys 4)"
    "is_good_inode (disk_node tree_fsys 1)" "is_good_inode (disk_node tree_fsys 8)" "is_good_inode (disk_node tree_fsys 4)"
    by (simp_all add: is_dir_def is_good_inode_def tree_nodes root_data_def sample_dir_inode_def sample_target_def)
  have cap: "4 < capacity (filesys_disk tree_fsys)" "8 < capacity (filesys_disk tree_fsys)" by (simp_all add: tree_fsys_def sample_dir_fsys_def sample_disk_def)
  have ok: "dir_ok (node_entries tree_fsys tree_dirs 1)" "dir_ok (node_entries tree_fsys tree_dirs 8)"
    by (simp_all add: tree_entries dir_ok_def sub_entry_def sample_entry_def)
  have m: "dirmap (node_entries tree_fsys tree_dirs 1) name = Some sec' \<Longrightarrow> sec' = 8"
    "dirmap (node_entries tree_fsys tree_dirs 8) name = Some sec' \<Longrightarrow> sec' = 4" for name sec'
    by (auto simp: tree_entries dirmap_def is_named_def sub_entry_def sample_entry_def split: if_splits)
  have T: "tree_dirs 8 \<noteq> None" by (simp add: tree_dirs_def)
  have "sec' < capacity (filesys_disk tree_fsys) \<and> is_good_inode (disk_node tree_fsys sec') \<and> (is_dir (disk_node tree_fsys sec') \<longrightarrow> tree_dirs sec' \<noteq> None)"
    if "sec = 1 \<or> sec = 8" "dirmap (node_entries tree_fsys tree_dirs sec) name = Some sec'" for sec name sec'
  proof -
    have "sec' = 8 \<or> sec' = 4" using that(1)
    proof
      assume "sec = 1"
      then show ?thesis using m(1) [of name sec'] that(2) by (simp only:) simp
    next
      assume "sec = 8"
      then show ?thesis using m(2) [of name sec'] that(2) by (simp only:) simp
    qed
    then show ?thesis using d cap T by (elim disjE) simp_all
  qed
  note entry = this
  have node: "is_dir (disk_node tree_fsys sec) \<and> is_good_inode (disk_node tree_fsys sec) \<and> dir_ok (node_entries tree_fsys tree_dirs sec)"
    if "sec = 1 \<or> sec = 8" for sec using that d ok by (elim disjE) simp_all
  show ?thesis unfolding tree_ok_def
  proof (intro allI impI)
    fix sec cs assume a: "tree_dirs sec = Some cs"
    show "file_ok (tree_fsys\<lparr>inodes := [1 \<mapsto> disk_node tree_fsys sec]\<rparr>) {[1], [2], [3], [5], [7]} 1 (disk_node tree_fsys sec) cs \<and>
      is_dir (disk_node tree_fsys sec) \<and> is_good_inode (disk_node tree_fsys sec) \<and> dir_ok (node_entries tree_fsys tree_dirs sec) \<and>
      (\<forall>name sec'. dirmap (node_entries tree_fsys tree_dirs sec) name = Some sec' \<longrightarrow> sec' < capacity (filesys_disk tree_fsys) \<and>
        is_good_inode (disk_node tree_fsys sec') \<and> (is_dir (disk_node tree_fsys sec') \<longrightarrow> tree_dirs sec' \<noteq> None))"
      using tree_file_ok [OF a] node [OF s [OF a]] entry [OF s [OF a]] by (intro conjI allI impI) (elim conjE; assumption | simp)+
  qed
qed

definition tree_alloc :: alloc where
  "tree_alloc s = find (\<lambda>q. inodes s q = None) [1, 2, 3, 4, 5, 6]"

lemma tree_alloc_ok: "alloc_ok tree_alloc 6"
proof -
  have "\<exists>q. tree_alloc s = Some q \<and> q \<noteq> NULL \<and> inodes s q = None" if "open_wf s" "length (open_inodes s) < 6" for s
  proof -
    have "card (set (open_inodes s)) < card {1, 2, 3, 4, 5, 6 :: ptr}" using that(2) card_length [of "open_inodes s"] by simp
    then have "\<not> {1, 2, 3, 4, 5, 6} \<subseteq> set (open_inodes s)" using card_mono [OF List.finite_set, of "{1, 2, 3, 4, 5, 6 :: ptr}" "open_inodes s"] by linarith
    then obtain q where "q \<in> {1, 2, 3, 4, 5, 6}" "q \<notin> set (open_inodes s)" by (meson subsetI)
    moreover have "inodes s q = None \<longleftrightarrow> q \<notin> set (open_inodes s)" using that(1) unfolding open_wf_def by metis
    ultimately have "q \<in> {1, 2, 3, 4, 5, 6}" "inodes s q = None" by simp_all
    then have "find (\<lambda>q. inodes s q = None) [1, 2, 3, 4, 5, 6] \<noteq> None" by (auto simp: find_None_iff)
    then obtain r where "tree_alloc s = Some r" by (auto simp: tree_alloc_def)
    then show ?thesis by (auto simp: tree_alloc_def split: if_splits)
  qed
  then show ?thesis by (simp add: alloc_ok_def)
qed

theorem filesys_open_resolves_witness:
  "\<exists>f s'. filesys_open True tree_alloc tree_fsys None [47, 98, 47, 97] = ret (Opened_file f, s') \<and> opened_at s' (f_inode f) 4"
proof -
  have w: "words {SLASH} [47, 98, 47, 97] = [[98], [97]]"
    by (simp add: SLASH_def words.simps [of _ "[47, 98, 47, 97]"] words.simps [of _ "[47, 97]"] words.simps [of _ "[]"] Let_def)
  have "fs_inv tree_fsys" using tree_disk_wf by (simp add: fs_inv_def open_wf_def tree_fsys_def)
  moreover have "cwd_ok tree_fsys tree_dirs None" "length (open_inodes tree_fsys) = 0" "start_sector tree_fsys None [47, 98, 47, 97] = 1"
    by (simp_all add: cwd_ok_def ROOT_DIR_SECTOR_def tree_dirs_def tree_fsys_def start_sector_def)
  moreover have "is_dir (disk_node tree_fsys 8)" by (simp add: is_dir_def tree_nodes sample_dir_inode_def)
  then have "resolve_file tree_fsys tree_dirs 1 [[98], [97]] = Some 4"
    by (simp add: resolve_file_def tree_entries dirmap_def is_named_def sub_entry_def sample_entry_def cstr_def)
  ultimately show ?thesis
    using filesys_open_resolves [OF _ tree_fsys_ok, of None tree_alloc 6 "[47, 98, 47, 97]"] tree_alloc_ok w by fastforce
qed

section \<open>Formatting\<close>

text \<open>
  The inode of the root directory and the first sector of the allocation table are the same sector:
  after \<open>do_format\<close> the table on the disk starts with the fields of that inode, so that \<open>fat_open\<close> loads
  the root's own entry as 0 (a free cluster) and the magic number of inodes as the entry of cluster 2.
\<close>

lemma format_overwrites_table:
  "fat_start (fs_bs (fat_boot_create d fs)) = ROOT_DIR_SECTOR"
  "create_root_dir_inode True fs d = ret (fs', d') \<Longrightarrow>
     bytes_u32s (take 12 (sectors d' ROOT_DIR_SECTOR)) = [ROOT_DIR_CLUSTER, 0, INODE_MAGIC]"
proof -
  show "fat_start (fs_bs (fat_boot_create d fs)) = ROOT_DIR_SECTOR" by (simp add: fat_boot_create_def ROOT_DIR_SECTOR_def)
  assume "create_root_dir_inode True fs d = ret (fs', d')"
  then have "sectors d' ROOT_DIR_SECTOR = inode_disk_bytes
      \<lparr>d_start = ROOT_DIR_CLUSTER, d_length = 0, d_magic = INODE_MAGIC, isdir = True, unused = replicate 499 0\<rparr>"
    by (auto simp: create_root_dir_inode_def disk_write_def length_inode_disk_bytes DISK_SECTOR_SIZE_def split: if_splits)
  then have "take 12 (sectors d' ROOT_DIR_SECTOR) = u32s_bytes [ROOT_DIR_CLUSTER, 0, INODE_MAGIC]"
    by (simp add: inode_disk_bytes_def)
  then show "bytes_u32s (take 12 (sectors d' ROOT_DIR_SECTOR)) = [ROOT_DIR_CLUSTER, 0, INODE_MAGIC]" by (simp only: bytes_u32s_inverse)
qed

text \<open>The empty path has no last name: \<open>filesys_open\<close> reads in front of its array.\<close>

lemma filesys_open_empty:
  assumes inv: "fs_inv s" and t: "tree_ok s C T" "cwd_ok s T cwd" and al: "alloc_ok alloc M" "length (open_inodes s) < M"
  shows "filesys_open True alloc s cwd [] = fail Out_of_bounds"
proof -
  have "words {SLASH} [] = []" by (simp add: words.simps)
  then have "path_names [] = ret []" using path_names_eq [of "[]"] by simp
  moreover have "\<not> is_root_path []" by (simp add: is_root_path_def SLASH_def)
  moreover from start_dir_step [OF inv t al, of "[]"] obtain d s' where
    "start_dir True alloc s cwd (is_root_path []) = ret (Some d, s')" by blast
  ultimately show ?thesis by (simp add: filesys_open_def)
qed

end
