(* ===== verification/Descriptors.thy ===== *)
theory Descriptors
  imports Vm_Fault Filesys
begin

text \<open>
  File descriptors: the table of a process and the calls of \<open>userprog/syscall.c\<close> that work on it, with the
  parts of \<open>userprog/process.c\<close> that create, copy and clear it. A slot of the table is the null pointer,
  \<open>STDIN\<close>, \<open>STDOUT\<close> or the address of a \<open>struct file\<close>, or of a \<open>struct dir\<close>, which \<open>sys_open\<close> stores in place of
  a file. The lemmas show that the count in a file is the number of the slots that share it, so that the
  file is closed with the last of them and not before.
\<close>

section \<open>The process\<close>

definition FDT_PAGES :: u64 where "FDT_PAGES = 3"
definition MAX_FD :: int where "MAX_FD = 1536"
definition STDIN :: ptr where "STDIN = 1"
definition STDOUT :: ptr where "STDOUT = 2"

text \<open>
  The members of \<open>struct thread\<close> that belong to the process, the kernel's objects in \<open>vm\<close>, the directories
  that descriptors point to, the text on the console, the keys that will be pressed, and whether the
  running thread holds \<open>filesys_lock\<close>, and the pages of its table.
\<close>

record proc =
  vm :: vmst
  fd_table :: "int \<Rightarrow> ptr"
  fd_idx :: int
  stdin_count :: int
  stdout_count :: int
  running_file :: ptr
  cwd :: "dir option"
  exit_status :: int
  dirs :: "ptr \<Rightarrow> dir option"
  console :: "u8 list"
  keyboard :: "u8 list"
  filesys_lock :: bool
  fd_pages :: ptr

abbreviation fsys_of :: "proc \<Rightarrow> fsys" where "fsys_of s \<equiv> fsystem (vm s)"
abbreviation files_of :: "proc \<Rightarrow> ptr \<Rightarrow> open_file option" where "files_of s \<equiv> files (vm s)"
abbreviation set_fsys :: "proc \<Rightarrow> fsys \<Rightarrow> proc" where "set_fsys s fs \<equiv> s\<lparr>vm := (vm s)\<lparr>fsystem := fs\<rparr>\<rparr>"
abbreviation set_file :: "proc \<Rightarrow> ptr \<Rightarrow> open_file option \<Rightarrow> proc" where
  "set_file s p f \<equiv> s\<lparr>vm := (vm s)\<lparr>files := (files (vm s))(p := f)\<rparr>\<rparr>"

definition lock_acquire_fs :: "proc \<Rightarrow> proc exec" where
  "lock_acquire_fs s = ASSERT (\<not> filesys_lock s) (ret (s\<lparr>filesys_lock := True\<rparr>))"

definition lock_release_fs :: "proc \<Rightarrow> proc exec" where
  "lock_release_fs s = ASSERT (filesys_lock s) (ret (s\<lparr>filesys_lock := False\<rparr>))"

text \<open>Reading and writing a slot; the table ends at \<open>MAX_FD\<close>.\<close>

definition fd_slot :: "proc \<Rightarrow> int \<Rightarrow> ptr exec" where
  "fd_slot s fd = (if 0 \<le> fd \<and> fd < MAX_FD then ret (fd_table s fd) else fail Out_of_bounds)"

definition set_fd :: "proc \<Rightarrow> int \<Rightarrow> ptr \<Rightarrow> proc exec" where
  "set_fd s fd p = (if 0 \<le> fd \<and> fd < MAX_FD then ret (s\<lparr>fd_table := (fd_table s)(fd := p)\<rparr>) else fail Out_of_bounds)"

text \<open>
  A \<open>struct dir\<close> begins like a \<open>struct file\<close>, with the inode and the position, and ends there: \<open>as_file\<close> is for
  operations that use these two members, \<open>counted_file\<close> for those that use the others.
\<close>

definition as_file :: "proc \<Rightarrow> ptr \<Rightarrow> open_file exec" where
  "as_file s p =
     (case files_of s p of
        Some f \<Rightarrow> ret f
      | None \<Rightarrow> (case dirs s p of
          Some d \<Rightarrow> ret \<lparr>f_inode = dir_inode d, f_pos = dir_pos d, deny_write = False, dup_count = 0\<rparr>
        | None \<Rightarrow> fail Null_deref))"

definition put_pos :: "proc \<Rightarrow> ptr \<Rightarrow> open_file \<Rightarrow> proc" where
  "put_pos s p f =
     (case files_of s p of
        Some _ \<Rightarrow> set_file s p (Some f)
      | None \<Rightarrow> (case dirs s p of Some d \<Rightarrow> s\<lparr>dirs := (dirs s)(p \<mapsto> d\<lparr>dir_pos := f_pos f\<rparr>)\<rparr> | None \<Rightarrow> s))"

definition counted_file :: "proc \<Rightarrow> ptr \<Rightarrow> open_file exec" where
  "counted_file s p =
     (case files_of s p of Some f \<Rightarrow> ret f | None \<Rightarrow> if dirs s p = None then fail Null_deref else fail Out_of_bounds)"

section \<open>Operations on descriptors\<close>

definition process_get_file :: "proc \<Rightarrow> int \<Rightarrow> ptr exec" where
  "process_get_file s fd = (if fd < 2 \<or> fd > MAX_FD then ret NULL else fd_slot s fd)"

partial_function (option) unused_loop :: "proc \<Rightarrow> int \<Rightarrow> int exec" where
  "unused_loop s i = bindE (fd_slot s i) (\<lambda>p. if p \<noteq> NULL \<and> i < MAX_FD then unused_loop s (i + 1) else ret i)"

definition find_unused_fd :: "proc \<Rightarrow> ptr \<Rightarrow> (int \<times> proc) exec" where
  "find_unused_fd s file =
     bindE (unused_loop s (fd_idx s)) (\<lambda>i.
     let s = s\<lparr>fd_idx := i\<rparr> in
     if i \<ge> MAX_FD then ret (- 1, s) else bindE (set_fd s i file) (\<lambda>s. ret (i, s)))"

definition sys_filesize :: "proc \<Rightarrow> int \<Rightarrow> int exec" where
  "sys_filesize s fd =
     (if fd < 0 \<or> fd \<ge> MAX_FD then ret (- 1)
      else bindE (fd_slot s fd) (\<lambda>p.
        if p = NULL then ret (- 1) else bindE (as_file s p) (\<lambda>f. file_length (fsys_of s) f)))"

definition sys_seek :: "proc \<Rightarrow> int \<Rightarrow> u32 \<Rightarrow> proc exec" where
  "sys_seek s fd position =
     (if fd < 0 \<or> fd \<ge> MAX_FD then ret s
      else bindE (fd_slot s fd) (\<lambda>p.
        if p = STDIN \<or> p = STDOUT then ret s
        else if p = NULL then ret s
        else bindE (as_file s p) (\<lambda>f. bindE (file_seek f (sint position)) (\<lambda>f. ret (put_pos s p f)))))"

definition sys_tell :: "proc \<Rightarrow> int \<Rightarrow> u32 exec" where
  "sys_tell s fd =
     (if fd < 0 \<or> fd \<ge> MAX_FD then ret (- 1)
      else bindE (fd_slot s fd) (\<lambda>p.
        if p = NULL then ret (- 1) else bindE (as_file s p) (\<lambda>f. ret (word_of_int (file_tell f)))))"

text \<open>\<open>file_close\<close> of the file at an address, which is freed.\<close>

definition close_file :: "proc \<Rightarrow> ptr \<Rightarrow> proc exec" where
  "close_file s p =
     bindE (counted_file s p) (\<lambda>f.
     bindE (file_close (fsys_of s) (Some f)) (\<lambda>fs. ret (set_file (set_fsys s fs) p None)))"

definition sys_close :: "proc \<Rightarrow> int \<Rightarrow> proc exec" where
  "sys_close s fd =
     (if fd < 0 \<or> fd \<ge> MAX_FD then ret s
      else bindE (fd_slot s fd) (\<lambda>p.
        let s = (if p = STDIN then s\<lparr>stdin_count := int32 (stdin_count s - 1)\<rparr> else s);
            s = (if p = STDOUT then s\<lparr>stdout_count := int32 (stdout_count s - 1)\<rparr> else s) in
        if p = NULL \<or> p = STDIN \<or> p = STDOUT then set_fd s fd NULL
        else
          bindE (counted_file s p) (\<lambda>f.
          let f = decrease_dup_count f; s = set_file s p (Some f) in
          bindE (if check_dup_count f = 0 then close_file s p else ret s) (\<lambda>s.
          set_fd s fd NULL))))"

definition sys_dup2 :: "proc \<Rightarrow> int \<Rightarrow> int \<Rightarrow> (int \<times> proc) exec" where
  "sys_dup2 s oldfd newfd =
     (if oldfd < 0 \<or> oldfd \<ge> MAX_FD then ret (- 1, s)
      else bindE (fd_slot s oldfd) (\<lambda>p.
        if p = NULL then ret (- 1, s)
        else if oldfd = newfd then ret (newfd, s)
        else
          bindE (if p = STDIN then ret (s\<lparr>stdin_count := int32 (stdin_count s + 1)\<rparr>)
                 else if p = STDOUT then ret (s\<lparr>stdout_count := int32 (stdout_count s + 1)\<rparr>)
                 else bindE (counted_file s p) (\<lambda>f. ret (set_file s p (Some (increase_dup_count f))))) (\<lambda>s.
          bindE (fd_slot s newfd) (\<lambda>q.
          bindE (if q \<noteq> NULL then
                   bindE (lock_acquire_fs s) (\<lambda>s. bindE (sys_close s newfd) (\<lambda>s. lock_release_fs s))
                 else ret s) (\<lambda>s.
          bindE (fd_slot s oldfd) (\<lambda>p.
          bindE (set_fd s newfd p) (\<lambda>s. ret (newfd, s))))))))"

section \<open>The table of a new process\<close>

text \<open>
  The table is three fresh pages filled with zeros. When there are none the first store into it goes to
  the null pointer, before the assertion.
\<close>

definition process_init :: "alloc \<Rightarrow> proc \<Rightarrow> proc exec" where
  "process_init al s =
     bindE (palloc_get_multiple (ph (vm s)) PAL_ZERO FDT_PAGES) (\<lambda>(pages, m).
     if pages = NULL then fail Null_deref
     else
       let s = s\<lparr>vm := (vm s)\<lparr>ph := m\<rparr>, fd_pages := pages, fd_table := (\<lambda>_. NULL)(0 := STDIN, 1 := STDOUT), fd_idx := 2,
                 stdin_count := 1, stdout_count := 1\<rparr> in
       bindE (dir_open_root (mem (vm s)) (al (fsys_of s)) (fsys_of s)) (\<lambda>(d, fs).
       ret ((set_fsys s fs)\<lparr>cwd := d\<rparr>)))"

text \<open>\<open>file_duplicate\<close> of the file at an address, into a new object.\<close>

definition duplicate_file :: "proc \<Rightarrow> ptr \<Rightarrow> (ptr \<times> proc) exec" where
  "duplicate_file s p =
     bindE (counted_file s p) (\<lambda>f.
     let (new, v) = malloc (vm s); s = s\<lparr>vm := v\<rparr> in
     bindE (file_duplicate (new \<noteq> NULL) (fsys_of s) f) (\<lambda>(r, fs).
     let s = set_fsys s fs in
     case r of None \<Rightarrow> ret (NULL, s) | Some n \<Rightarrow> ret (new, set_file s new (Some n))))"

text \<open>
  The loop of \<open>__do_fork\<close> over the slots of the parent, whose table is \<open>parent\<close>; the state is the child's.
\<close>

fun fork_fds :: "(int \<Rightarrow> ptr) \<Rightarrow> proc \<Rightarrow> int list \<Rightarrow> proc exec" where
  "fork_fds parent s [] = ret s"
| "fork_fds parent s (fd # fds) =
     bindE (if fd \<le> 1 then set_fd s fd (parent fd)
            else if parent fd = NULL then ret s
            else if parent fd = STDIN \<or> parent fd = STDOUT then set_fd s fd (parent fd)
            else bindE (duplicate_file s (parent fd)) (\<lambda>(p, s). set_fd s fd p)) (\<lambda>s.
     fork_fds parent s fds)"

text \<open>
  What \<open>__do_fork\<close> does for the descriptors and the working directory, after the address space: \<open>None\<close> when it
  goes to its error exit.
\<close>

definition do_fork_files :: "alloc \<Rightarrow> proc \<Rightarrow> proc \<Rightarrow> proc option exec" where
  "do_fork_files al parent s =
     bindE (process_init al s) (\<lambda>s.
     if fd_idx parent = MAX_FD then ret None
     else
       bindE (fork_fds (fd_table parent) s [0..MAX_FD - 1]) (\<lambda>s.
       let s = s\<lparr>fd_idx := fd_idx parent, stdin_count := stdin_count parent, stdout_count := stdout_count parent\<rparr> in
       case cwd parent of
         None \<Rightarrow> fail Null_deref
       | Some d \<Rightarrow> bindE (dir_reopen (mem (vm s)) (fsys_of s) d) (\<lambda>(nd, fs). ret (Some ((set_fsys s fs)\<lparr>cwd := nd\<rparr>)))))"

text \<open>The loop of \<open>process_exit\<close> over the table.\<close>

fun close_fds :: "proc \<Rightarrow> int list \<Rightarrow> proc exec" where
  "close_fds s [] = ret s"
| "close_fds s (fd # fds) =
     bindE (fd_slot s fd) (\<lambda>p.
     bindE (if p \<noteq> NULL then bindE (sys_close s fd) (\<lambda>s. set_fd s fd NULL) else ret s) (\<lambda>s. close_fds s fds))"

section \<open>Counts\<close>

definition fds_on :: "proc \<Rightarrow> ptr \<Rightarrow> int set" where
  "fds_on s p = {fd \<in> {0..<MAX_FD}. fd_table s fd = p}"

abbreviation special :: "ptr \<Rightarrow> bool" where
  "special p \<equiv> p = NULL \<or> p = STDIN \<or> p = STDOUT"

text \<open>
  The invariant of the descriptors of a process: a slot that is not special holds a file, the count in
  the file is the number of slots with it, and the two counters count the slots of the console.
\<close>

definition fd_inv :: "proc \<Rightarrow> bool" where
  "fd_inv s \<longleftrightarrow>
     (\<forall>p. \<not> special p \<and> fds_on s p \<noteq> {} \<longrightarrow> (\<exists>f. files_of s p = Some f \<and> dup_count f = int (card (fds_on s p)))) \<and>
     stdin_count s = int (card (fds_on s STDIN)) \<and> stdout_count s = int (card (fds_on s STDOUT)) \<and>
     0 \<le> fd_idx s \<and> fd_idx s \<le> MAX_FD"

lemma special_simps [simp]: "STDIN \<noteq> NULL" "STDOUT \<noteq> NULL" "STDIN \<noteq> STDOUT" "STDOUT \<noteq> STDIN"
  by (simp_all add: STDIN_def STDOUT_def)

lemma finite_fds [simp]: "finite (fds_on s p)"
  by (rule finite_subset [of _ "{0..<MAX_FD}"]) (auto simp: fds_on_def)

lemma card_fds: "card (fds_on s p) \<le> 1536"
proof -
  have "card (fds_on s p) \<le> card {0..<MAX_FD}" by (rule card_mono) (auto simp: fds_on_def)
  then show ?thesis by (simp add: MAX_FD_def)
qed

lemma fds_on_upd:
  assumes "0 \<le> fd" "fd < MAX_FD"
  shows "fds_on (s\<lparr>fd_table := (fd_table s)(fd := p)\<rparr>) q = (if q = p then insert fd (fds_on s q) else fds_on s q - {fd})"
  using assms by (auto simp: fds_on_def)

lemma fds_on_cong: "fd_table s' = fd_table s \<Longrightarrow> fds_on s' = fds_on s"
  by (simp add: fds_on_def fun_eq_iff)

lemma int32_small: "0 \<le> x \<Longrightarrow> x \<le> 2000 \<Longrightarrow> int32 x = x"
  by (rule int32_id) (simp add: in_int32_def)

lemma card_minus: "fd \<in> A \<Longrightarrow> finite A \<Longrightarrow> int (card (A - {fd})) = int (card A) - 1"
  using card_Diff_singleton [of fd A] card_gt_0_iff [of A] by (auto simp: of_nat_diff Suc_le_eq)

lemma file_close_count [simp]: "file_close s (Some (f\<lparr>dup_count := n\<rparr>)) = file_close s (Some f)"
  by (cases f) (simp add: file_close_def file_allow_write_def bindE_assoc)

text \<open>What a call leaves to be done for the file at \<open>p\<close> when one of its descriptors goes away.\<close>

definition drop_ref :: "proc \<Rightarrow> ptr \<Rightarrow> open_file \<Rightarrow> nat \<Rightarrow> fsys \<Rightarrow> proc" where
  "drop_ref s p f n fs =
     (if n = 1 then set_file (set_fsys s fs) p None else set_file s p (Some (f\<lparr>dup_count := int n - 1\<rparr>)))"

lemma sys_close_special:
  assumes "0 \<le> fd" "fd < MAX_FD" "special (fd_table s fd)"
  shows "sys_close s fd = ret (s\<lparr>fd_table := (fd_table s)(fd := NULL),
     stdin_count := (if fd_table s fd = STDIN then int32 (stdin_count s - 1) else stdin_count s),
     stdout_count := (if fd_table s fd = STDOUT then int32 (stdout_count s - 1) else stdout_count s)\<rparr>)"
  using assms by (auto simp: sys_close_def fd_slot_def set_fd_def Let_def)

lemma sys_close_file:
  assumes "0 \<le> fd" "fd < MAX_FD" "\<not> special (fd_table s fd)" and "files_of s (fd_table s fd) = Some f"
    and "dup_count f = int n" "1 \<le> n" "n \<le> 1537"
    and "n = 1 \<Longrightarrow> file_close (fsys_of s) (Some f) = ret fs"
  shows "sys_close s fd = ret ((drop_ref s (fd_table s fd) f n fs)\<lparr>fd_table := (fd_table s)(fd := NULL)\<rparr>)"
proof -
  have "int32 (int n - 1) = int n - 1" using assms(6,7) by (intro int32_small) auto
  then show ?thesis
    using assms by (auto simp: sys_close_def fd_slot_def set_fd_def Let_def counted_file_def decrease_dup_count_def check_dup_count_def
        close_file_def drop_ref_def)
qed


text \<open>The fields of the state after a descriptor went away.\<close>

lemma drop_ref_sel [simp]:
  "fd_table (drop_ref s p f n fs) = fd_table s" "stdin_count (drop_ref s p f n fs) = stdin_count s"
  "stdout_count (drop_ref s p f n fs) = stdout_count s" "fd_idx (drop_ref s p f n fs) = fd_idx s"
  "filesys_lock (drop_ref s p f n fs) = filesys_lock s"
  "files_of (drop_ref s p f n fs) = (files_of s)(p := if n = 1 then None else Some (f\<lparr>dup_count := int n - 1\<rparr>))"
  "fsys_of (drop_ref s p f n fs) = (if n = 1 then fs else fsys_of s)"
  by (simp_all add: drop_ref_def)

lemma fd_invD:
  assumes "fd_inv s"
  shows "\<not> special p \<Longrightarrow> fds_on s p \<noteq> {} \<Longrightarrow> \<exists>f. files_of s p = Some f \<and> dup_count f = int (card (fds_on s p))"
    and "stdin_count s = int (card (fds_on s STDIN))" and "stdout_count s = int (card (fds_on s STDOUT))"
    and "0 \<le> fd_idx s" and "fd_idx s \<le> MAX_FD"
  using assms unfolding fd_inv_def by blast+

lemma fds_onD: "fds_on s p = {fd} \<Longrightarrow> fd_table s fd = p"
proof -
  assume "fds_on s p = {fd}"
  then have "fd \<in> fds_on s p" by simp
  then show ?thesis by (simp add: fds_on_def)
qed

lemma card_fds_1: "fd \<in> fds_on s p \<Longrightarrow> card (fds_on s p) = 1 \<longleftrightarrow> fds_on s p = {fd}"
  by (auto simp: card_1_singleton_iff)

text \<open>
  Closing a descriptor empties its slot and nothing else, and keeps the counts: the file is closed
  exactly when this was its last descriptor, and otherwise stays open, with the file system untouched.
\<close>

lemma sys_close_spec:
  assumes inv: "fd_inv s" and r: "0 \<le> fd" "fd < MAX_FD"
    and fc: "\<And>f. \<not> special (fd_table s fd) \<Longrightarrow> fds_on s (fd_table s fd) = {fd} \<Longrightarrow> files_of s (fd_table s fd) = Some f \<Longrightarrow>
      file_close (fsys_of s) (Some f) = ret fs"
  shows "\<exists>s'. sys_close s fd = ret s' \<and> fd_inv s' \<and> fd_table s' = (fd_table s)(fd := NULL) \<and>
    (\<forall>p. \<not> special p \<and> fds_on s p \<noteq> {} \<longrightarrow> (files_of s' p = None \<longleftrightarrow> fds_on s p = {fd})) \<and>
    fsys_of s' = (if \<not> special (fd_table s fd) \<and> fds_on s (fd_table s fd) = {fd} then fs else fsys_of s)"
proof (cases "special (fd_table s fd)")
  case True
  let ?s = "s\<lparr>fd_table := (fd_table s)(fd := NULL),
     stdin_count := (if fd_table s fd = STDIN then int32 (stdin_count s - 1) else stdin_count s),
     stdout_count := (if fd_table s fd = STDOUT then int32 (stdout_count s - 1) else stdout_count s)\<rparr>"
  have on: "fds_on ?s q = (if q = NULL then insert fd (fds_on s q) else fds_on s q - {fd})" for q
    using r by (auto simp: fds_on_def)
  have off: "fds_on s q - {fd} = fds_on s q" if "q \<noteq> fd_table s fd" for q using that by (auto simp: fds_on_def)
  have m: "fd \<in> fds_on s (fd_table s fd)" using r by (simp add: fds_on_def)
  have i: "int32 (int (card (fds_on s (fd_table s fd))) - 1) = int (card (fds_on s (fd_table s fd) - {fd}))"
    using card_minus [OF m] card_fds [of s "fd_table s fd"] by (simp add: int32_small)
  have keep: "fds_on ?s q = fds_on s q" if "q \<noteq> NULL" "q \<noteq> fd_table s fd" for q using that on [of q] off [OF that(2)] by simp
  have gone: "fds_on ?s q = fds_on s q - {fd}" if "q \<noteq> NULL" for q using that on [of q] by simp
  have "fd_inv ?s" unfolding fd_inv_def
  proof (intro conjI allI impI)
    fix p assume p: "\<not> special p \<and> fds_on ?s p \<noteq> {}"
    then have "fds_on ?s p = fds_on s p" using True by (intro keep) auto
    then show "\<exists>f. files_of ?s p = Some f \<and> dup_count f = int (card (fds_on ?s p))" using fd_invD(1) [OF inv, of p] p by simp
  next
    show "stdin_count ?s = int (card (fds_on ?s STDIN))"
      using fd_invD(2) [OF inv] i gone [of STDIN] keep [of STDIN] by (cases "fd_table s fd = STDIN") simp_all
  next
    show "stdout_count ?s = int (card (fds_on ?s STDOUT))"
      using fd_invD(3) [OF inv] i gone [of STDOUT] keep [of STDOUT] by (cases "fd_table s fd = STDOUT") simp_all
  qed (use fd_invD(4,5) [OF inv] in simp_all)
  moreover have "files_of s p \<noteq> None" if "\<not> special p" "fds_on s p \<noteq> {}" for p using fd_invD(1) [OF inv that] by auto
  moreover have "fds_on s p \<noteq> {fd}" if "\<not> special p" for p using that True fds_onD [of s p fd] by blast
  ultimately show ?thesis using sys_close_special [OF r True] True by auto
next
  case False
  let ?p = "fd_table s fd"
  have m: "fd \<in> fds_on s ?p" using r by (simp add: fds_on_def)
  define n where "n = card (fds_on s ?p)"
  from fd_invD(1) [OF inv False] m obtain f where f: "files_of s ?p = Some f" "dup_count f = int n" unfolding n_def by blast
  have n: "1 \<le> n" "n \<le> 1537" using m card_fds [of s ?p] by (auto simp: n_def Suc_le_eq card_gt_0_iff)
  have n1: "n = 1 \<longleftrightarrow> fds_on s ?p = {fd}" using card_fds_1 [OF m] by (simp add: n_def)
  let ?s = "(drop_ref s ?p f n fs)\<lparr>fd_table := (fd_table s)(fd := NULL)\<rparr>"
  have c: "sys_close s fd = ret ?s" using r False f n fc n1 by (intro sys_close_file) auto
  have on: "fds_on ?s q = (if q = NULL then insert fd (fds_on s q) else fds_on s q - {fd})" for q
    using r by (auto simp: fds_on_def)
  have off: "fds_on s q - {fd} = fds_on s q" if "q \<noteq> ?p" for q using that by (auto simp: fds_on_def)
  have std: "fds_on s STDIN - {fd} = fds_on s STDIN" "fds_on s STDOUT - {fd} = fds_on s STDOUT" using off False by metis+
  have k: "int (card (fds_on s ?p - {fd})) = int n - 1" using card_minus [OF m] by (simp add: n_def)
  have "fd_inv ?s" unfolding fd_inv_def
  proof (intro conjI allI impI)
    fix p assume p: "\<not> special p \<and> fds_on ?s p \<noteq> {}"
    show "\<exists>f. files_of ?s p = Some f \<and> dup_count f = int (card (fds_on ?s p))"
    proof (cases "p = ?p")
      case True
      then have "n \<noteq> 1" using p on n1 by auto
      then show ?thesis using True p on k by simp
    next
      case 2: False
      then have "fds_on ?s p = fds_on s p" using p on [of p] off [of p] by simp
      then show ?thesis using fd_invD(1) [OF inv, of p] p 2 by simp
    qed
  qed (use fd_invD(2-5) [OF inv] on std in simp_all)
  moreover have "files_of ?s p = None \<longleftrightarrow> fds_on s p = {fd}" if "\<not> special p" "fds_on s p \<noteq> {}" for p
  proof (cases "p = ?p")
    case True
    then show ?thesis using n1 by simp
  next
    case 2: False
    then have "fds_on s p \<noteq> {fd}" using fds_onD [of s p fd] by blast
    moreover have "files_of s p \<noteq> None" using fd_invD(1) [OF inv that] by auto
    ultimately show ?thesis using 2 by simp
  qed
  moreover have "fsys_of ?s = (if \<not> special ?p \<and> fds_on s ?p = {fd} then fs else fsys_of s)" using False n1 by simp
  moreover have "fd_table ?s = (fd_table s)(fd := NULL)" by simp
  ultimately show ?thesis using c by blast
qed


section \<open>Sharing a file\<close>

text \<open>The count the kernel keeps for a pointer of the table.\<close>

definition recorded :: "proc \<Rightarrow> ptr \<Rightarrow> int" where
  "recorded s p =
     (if p = STDIN then stdin_count s else if p = STDOUT then stdout_count s
      else case files_of s p of Some f \<Rightarrow> dup_count f | None \<Rightarrow> 0)"

lemma fd_inv_recorded:
  "fd_inv s \<longleftrightarrow> (\<forall>p. p \<noteq> NULL \<and> (special p \<or> fds_on s p \<noteq> {}) \<longrightarrow> recorded s p = int (card (fds_on s p))) \<and>
     0 \<le> fd_idx s \<and> fd_idx s \<le> MAX_FD"  (is "?l \<longleftrightarrow> ?r")
proof
  assume ?l
  show ?r
  proof (intro conjI allI impI)
    fix p assume p: "p \<noteq> NULL \<and> (special p \<or> fds_on s p \<noteq> {})"
    show "recorded s p = int (card (fds_on s p))"
      using fd_invD(1) [OF \<open>?l\<close>, of p] fd_invD(2,3) [OF \<open>?l\<close>] p by (cases "special p") (auto simp: recorded_def)
  qed (use fd_invD(4,5) [OF \<open>?l\<close>] in auto)
next
  assume r: ?r
  then have c: "recorded s p = int (card (fds_on s p))" if "p \<noteq> NULL" "special p \<or> fds_on s p \<noteq> {}" for p using that by blast
  show ?l unfolding fd_inv_def
  proof (intro conjI allI impI)
    fix p assume p: "\<not> special p \<and> fds_on s p \<noteq> {}"
    then have "card (fds_on s p) \<noteq> 0" by simp
    then show "\<exists>f. files_of s p = Some f \<and> dup_count f = int (card (fds_on s p))"
      using c [of p] p by (auto simp: recorded_def split: option.splits)
  next
    show "stdin_count s = int (card (fds_on s STDIN))" using c [of STDIN] by (simp add: recorded_def)
  next
    show "stdout_count s = int (card (fds_on s STDOUT))" using c [of STDOUT] by (simp add: recorded_def)
  qed (use r in auto)
qed

lemma fds_on_store:
  assumes "0 \<le> fd" "fd < MAX_FD" "fd_table s' = (fd_table s)(fd := p)"
  shows "int (card (fds_on s' r)) = int (card (fds_on s r)) + of_bool (r = p) - of_bool (r = fd_table s fd)"
proof -
  have "fds_on s' r = (if r = p then insert fd (fds_on s r) else fds_on s r - {fd})"
    using assms by (auto simp: fds_on_def)
  moreover have "fd \<in> fds_on s r \<longleftrightarrow> r = fd_table s fd" using assms by (auto simp: fds_on_def)
  ultimately show ?thesis using card_minus [of fd "fds_on s r"] by (auto simp: card_insert_if)
qed

text \<open>What the two changes of a count do; only the count of one file changes, until it is closed.\<close>

definition same_file :: "open_file \<Rightarrow> open_file \<Rightarrow> bool" where
  "same_file f g \<longleftrightarrow> f_inode g = f_inode f \<and> f_pos g = f_pos f \<and> deny_write g = deny_write f"

lemma same_file_close: "same_file f g \<Longrightarrow> file_close s (Some g) = file_close s (Some f)"
  by (auto simp: same_file_def file_close_def file_allow_write_def bindE_assoc)

definition same_but_count :: "proc \<Rightarrow> proc \<Rightarrow> ptr \<Rightarrow> bool" where
  "same_but_count s s' r \<longleftrightarrow>
     (case (files_of s r, files_of s' r) of (Some f, Some g) \<Rightarrow> same_file f g | (None, None) \<Rightarrow> True | _ \<Rightarrow> False)"

lemma sys_close_recorded:
  assumes r: "0 \<le> fd" "fd < MAX_FD" and q: "fd_table s fd \<noteq> NULL" "1 \<le> recorded s (fd_table s fd)" "recorded s (fd_table s fd) \<le> 1537"
    and fc: "\<And>f. \<not> special (fd_table s fd) \<Longrightarrow> files_of s (fd_table s fd) = Some f \<Longrightarrow> dup_count f = 1 \<Longrightarrow>
      file_close (fsys_of s) (Some f) = ret fs"
  obtains s' where "sys_close s fd = ret s'" "fd_table s' = (fd_table s)(fd := NULL)"
    "\<And>p. recorded s' p = recorded s p - of_bool (p = fd_table s fd)"
    "\<forall>p. p \<noteq> fd_table s fd \<or> recorded s (fd_table s fd) \<noteq> 1 \<or> special p \<longrightarrow> same_but_count s s' p"
    "\<forall>p. p = fd_table s fd \<and> recorded s (fd_table s fd) = 1 \<and> \<not> special p \<longrightarrow> files_of s' p = None"
    "fd_idx s' = fd_idx s" "filesys_lock s' = filesys_lock s"
    "fsys_of s' = (if \<not> special (fd_table s fd) \<and> recorded s (fd_table s fd) = 1 then fs else fsys_of s)"
proof (cases "special (fd_table s fd)")
  case True
  let ?s = "s\<lparr>fd_table := (fd_table s)(fd := NULL),
     stdin_count := (if fd_table s fd = STDIN then int32 (stdin_count s - 1) else stdin_count s),
     stdout_count := (if fd_table s fd = STDOUT then int32 (stdout_count s - 1) else stdout_count s)\<rparr>"
  have i: "int32 (recorded s (fd_table s fd) - 1) = recorded s (fd_table s fd) - 1" using q by (intro int32_small) auto
  have "recorded ?s p = recorded s p - of_bool (p = fd_table s fd)" for p
    using True q(1) i by (cases "p = fd_table s fd") (auto simp: recorded_def)
  then show thesis by (intro that [OF sys_close_special [OF r True]]) (use True in \<open>auto simp: same_but_count_def same_file_def split: option.splits\<close>)
next
  case False
  then obtain f where f: "files_of s (fd_table s fd) = Some f" "dup_count f = recorded s (fd_table s fd)"
    using q(2) by (auto simp: recorded_def split: option.splits)
  define n where "n = nat (dup_count f)"
  have n: "dup_count f = int n" "1 \<le> n" "n \<le> 1537" using q(2,3) f(2) by (auto simp: n_def)
  let ?s = "(drop_ref s (fd_table s fd) f n fs)\<lparr>fd_table := (fd_table s)(fd := NULL)\<rparr>"
  have c: "sys_close s fd = ret ?s" using r False f(1) n fc by (intro sys_close_file) auto
  have n1: "recorded s (fd_table s fd) = 1 \<longleftrightarrow> n = 1" using f(2) n(1) by auto
  have "recorded ?s p = recorded s p - of_bool (p = fd_table s fd)" for p
    using False f(1) n(1) by (auto simp: recorded_def)
  then show thesis
    by (intro that [OF c]) (use False f(1) n1 in \<open>auto simp: same_but_count_def same_file_def split: option.splits\<close>)
qed

lemma increase_recorded:
  assumes "p \<noteq> NULL" "1 \<le> recorded s p" "recorded s p \<le> 1537"
  obtains s' where
    "(if p = STDIN then ret (s\<lparr>stdin_count := int32 (stdin_count s + 1)\<rparr>)
      else if p = STDOUT then ret (s\<lparr>stdout_count := int32 (stdout_count s + 1)\<rparr>)
      else bindE (counted_file s p) (\<lambda>f. ret (set_file s p (Some (increase_dup_count f))))) = ret s'"
    "fd_table s' = fd_table s" "\<And>r. recorded s' r = recorded s r + of_bool (r = p)" "\<And>r. same_but_count s s' r"
    "fd_idx s' = fd_idx s" "filesys_lock s' = filesys_lock s" "fsys_of s' = fsys_of s"
proof -
  have i: "int32 (recorded s p + 1) = recorded s p + 1" using assms(2,3) by (intro int32_small) auto
  consider "p = STDIN" | "p = STDOUT" | "\<not> special p" using assms(1) by blast
  then show thesis
  proof cases
    case 1
    then show thesis by (intro that [of "s\<lparr>stdin_count := int32 (stdin_count s + 1)\<rparr>"])
      (use 1 i in \<open>auto simp: recorded_def same_but_count_def same_file_def split: option.splits\<close>)
  next
    case 2
    then show thesis by (intro that [of "s\<lparr>stdout_count := int32 (stdout_count s + 1)\<rparr>"])
      (use 2 i in \<open>auto simp: recorded_def same_but_count_def same_file_def split: option.splits\<close>)
  next
    case 3
    then obtain f where f: "files_of s p = Some f" "dup_count f = recorded s p"
      using assms(2) by (auto simp: recorded_def split: option.splits)
    show thesis by (intro that [of "set_file s p (Some (increase_dup_count f))"])
      (use 3 f i in \<open>auto simp: recorded_def same_but_count_def same_file_def counted_file_def increase_dup_count_def split: option.splits\<close>)
  qed
qed


lemma recorded_upd [simp]:
  "recorded (s\<lparr>filesys_lock := b\<rparr>) = recorded s" "recorded (s\<lparr>fd_table := t\<rparr>) = recorded s"
  by (simp_all add: recorded_def fun_eq_iff)

lemma same_but_count_upd [simp]:
  "same_but_count (s\<lparr>filesys_lock := b\<rparr>) s' = same_but_count s s'" "same_but_count s (s'\<lparr>filesys_lock := b\<rparr>) = same_but_count s s'"
  "same_but_count s (s'\<lparr>fd_table := t\<rparr>) = same_but_count s s'"
  by (simp_all add: same_but_count_def fun_eq_iff)

lemma same_but_count_trans: "same_but_count a b r \<Longrightarrow> same_but_count b c r \<Longrightarrow> same_but_count a c r"
  by (auto simp: same_but_count_def same_file_def split: option.splits)

lemma recorded_ge_1: "fd_inv s \<Longrightarrow> 0 \<le> fd \<Longrightarrow> fd < MAX_FD \<Longrightarrow> fd_table s fd \<noteq> NULL \<Longrightarrow>
  recorded s (fd_table s fd) = int (card (fds_on s (fd_table s fd))) \<and> 1 \<le> recorded s (fd_table s fd) \<and> recorded s (fd_table s fd) \<le> 1536"
proof -
  assume i: "fd_inv s" and r: "0 \<le> fd" "fd < MAX_FD" "fd_table s fd \<noteq> NULL"
  have m: "fd \<in> fds_on s (fd_table s fd)" using r by (simp add: fds_on_def)
  then have "recorded s (fd_table s fd) = int (card (fds_on s (fd_table s fd)))" using i r(3) unfolding fd_inv_recorded by blast
  moreover have "0 < card (fds_on s (fd_table s fd))" using m by (auto simp: card_gt_0_iff)
  ultimately show ?thesis using card_fds [of s "fd_table s fd"] by simp
qed

text \<open>
  C36. \<open>dup2\<close> makes \<open>newfd\<close> another name of what \<open>oldfd\<close> names, and keeps the counts: every slot but
  \<open>newfd\<close> is as before, a file whose only descriptor was \<open>newfd\<close> is closed, every other file stays open at
  its position, and both descriptors now share one position. This holds also when \<open>newfd\<close> already named
  the same file.
\<close>

theorem sys_dup2_correct:
  assumes inv: "fd_inv s" and old: "0 \<le> oldfd" "oldfd < MAX_FD" "fd_table s oldfd \<noteq> NULL"
    and new: "0 \<le> newfd" "newfd < MAX_FD" "newfd \<noteq> oldfd" and lock: "\<not> filesys_lock s"
    and fc: "\<And>f. \<not> special (fd_table s newfd) \<Longrightarrow> fds_on s (fd_table s newfd) = {newfd} \<Longrightarrow> files_of s (fd_table s newfd) = Some f \<Longrightarrow>
      file_close (fsys_of s) (Some f) = ret fs"
  shows "\<exists>s'. sys_dup2 s oldfd newfd = ret (newfd, s') \<and> fd_inv s' \<and> fd_table s' = (fd_table s)(newfd := fd_table s oldfd) \<and>
    (\<forall>p. \<not> special p \<and> fds_on s p = {newfd} \<longrightarrow> files_of s' p = None) \<and>
    (\<forall>p. \<not> special p \<and> fds_on s p \<noteq> {newfd} \<longrightarrow> same_but_count s s' p) \<and> \<not> filesys_lock s'"
proof -
  let ?p = "fd_table s oldfd" and ?q = "fd_table s newfd"
  have c: "recorded s ?p = int (card (fds_on s ?p))" "1 \<le> recorded s ?p" "recorded s ?p \<le> 1536"
    using recorded_ge_1 [OF inv old] by auto
  from c have c': "1 \<le> recorded s ?p" "recorded s ?p \<le> 1537" by auto
  obtain s1 where s1:
    "(if ?p = STDIN then ret (s\<lparr>stdin_count := int32 (stdin_count s + 1)\<rparr>)
      else if ?p = STDOUT then ret (s\<lparr>stdout_count := int32 (stdout_count s + 1)\<rparr>)
      else bindE (counted_file s ?p) (\<lambda>f. ret (set_file s ?p (Some (increase_dup_count f))))) = ret s1"
    and t1: "fd_table s1 = fd_table s" and r1: "\<And>r. recorded s1 r = recorded s r + of_bool (r = ?p)"
    and b1: "\<And>r. same_but_count s s1 r" and o1: "fd_idx s1 = fd_idx s" "filesys_lock s1 = filesys_lock s" "fsys_of s1 = fsys_of s"
    by (rule increase_recorded [OF old(3) c']) (rule that)
  have solo: "recorded s1 ?q = 1 \<longleftrightarrow> fds_on s ?q = {newfd}" if "\<not> special ?q"
  proof (cases "?q = ?p")
    case True
    then have "oldfd \<in> fds_on s ?q" using old by (simp add: fds_on_def)
    then have "fds_on s ?q \<noteq> {newfd}" using new(3) by auto
    then show ?thesis using True r1 [of ?q] c(2) by simp
  next
    case False
    have m: "newfd \<in> fds_on s ?q" using new by (simp add: fds_on_def)
    have "recorded s ?q = int (card (fds_on s ?q))" using recorded_ge_1 [OF inv new(1,2)] that by simp
    then show ?thesis using False r1 [of ?q] card_fds_1 [OF m] by simp
  qed
  obtain s2 where s2: "(if ?q \<noteq> NULL then bindE (lock_acquire_fs s1) (\<lambda>s. bindE (sys_close s newfd) (\<lambda>s. lock_release_fs s)) else ret s1) = ret s2"
    and t2: "fd_table s2 = (fd_table s)(newfd := NULL)"
    and r2: "\<And>r. r \<noteq> NULL \<Longrightarrow> recorded s2 r = recorded s1 r - of_bool (r = ?q)"
    and b2: "\<And>r. \<not> special r \<Longrightarrow> fds_on s r \<noteq> {newfd} \<Longrightarrow> same_but_count s1 s2 r"
    and n2: "\<And>r. \<not> special r \<Longrightarrow> fds_on s r = {newfd} \<Longrightarrow> files_of s2 r = None"
    and o2: "fd_idx s2 = fd_idx s" "\<not> filesys_lock s2"
  proof (cases "?q = NULL")
    case True
    have "fds_on s r \<noteq> {newfd}" if "\<not> special r" for r using that True fds_onD [of s r newfd] by blast
    then show thesis by (intro that [of s1]) (use True t1 o1 lock in \<open>auto simp: same_but_count_def same_file_def split: option.splits\<close>)
  next
    case False
    let ?s1 = "s1\<lparr>filesys_lock := True\<rparr>"
    have q: "fd_table ?s1 newfd \<noteq> NULL" "1 \<le> recorded ?s1 (fd_table ?s1 newfd)" "recorded ?s1 (fd_table ?s1 newfd) \<le> 1537"
      using False recorded_ge_1 [OF inv new(1,2)] r1 [of ?q] by (auto simp: t1)
    have "file_close (fsys_of ?s1) (Some g) = ret fs"
      if g: "\<not> special (fd_table ?s1 newfd)" "files_of ?s1 (fd_table ?s1 newfd) = Some g" "dup_count g = 1" for g
    proof -
      have "recorded s1 ?q = 1" using g t1 by (simp add: recorded_def)
      then have "fds_on s ?q = {newfd}" using solo g(1) t1 by simp
      moreover obtain f where "files_of s ?q = Some f" "same_file f g"
        using b1 [of ?q] g(2) t1 by (auto simp: same_but_count_def split: option.splits)
      ultimately show ?thesis using fc g(1) t1 o1(3) same_file_close [of f g "fsys_of s"] by simp
    qed
    note fc' = this
    obtain u where u: "sys_close ?s1 newfd = ret u" "fd_table u = (fd_table ?s1)(newfd := NULL)"
      "\<And>p. recorded u p = recorded ?s1 p - of_bool (p = fd_table ?s1 newfd)"
      "\<forall>p. p \<noteq> fd_table ?s1 newfd \<or> recorded ?s1 (fd_table ?s1 newfd) \<noteq> 1 \<or> special p \<longrightarrow> same_but_count ?s1 u p"
      "\<forall>p. p = fd_table ?s1 newfd \<and> recorded ?s1 (fd_table ?s1 newfd) = 1 \<and> \<not> special p \<longrightarrow> files_of u p = None"
      "fd_idx u = fd_idx ?s1" "filesys_lock u = filesys_lock ?s1"
      "fsys_of u = (if \<not> special (fd_table ?s1 newfd) \<and> recorded ?s1 (fd_table ?s1 newfd) = 1 then fs else fsys_of ?s1)"
      by (rule sys_close_recorded [OF new(1,2) q]) ((rule fc'; assumption), rule that)
    have "same_but_count s1 u r" if "\<not> special r" "fds_on s r \<noteq> {newfd}" for r
      using that solo u(4) [rule_format, of r] t1 by auto
    moreover have "files_of u r = None" if "\<not> special r" "fds_on s r = {newfd}" for r
      using that solo fds_onD [OF that(2)] u(5) [rule_format, of r] t1 by simp
    ultimately show thesis
      by (intro that [of "u\<lparr>filesys_lock := False\<rparr>"])
        (use False u(1,2,3,6,7) t1 o1 lock in \<open>auto simp: lock_acquire_fs_def lock_release_fs_def\<close>)
  qed
  let ?s = "s2\<lparr>fd_table := (fd_table s)(newfd := ?p)\<rparr>"
  have e: "sys_dup2 s oldfd newfd = ret (newfd, ?s)"
    using old new s1 s2 t1 t2 by (simp add: sys_dup2_def fd_slot_def set_fd_def)
  have "recorded ?s r = int (card (fds_on ?s r))" if "r \<noteq> NULL" "special r \<or> fds_on ?s r \<noteq> {}" for r
  proof -
    have cc: "int (card (fds_on ?s r)) = int (card (fds_on s r)) + of_bool (r = ?p) - of_bool (r = ?q)"
      using new by (intro fds_on_store) auto
    have "special r \<or> fds_on s r \<noteq> {}" using that(2) old new by (auto simp: fds_on_def split: if_splits)
    then have "recorded s r = int (card (fds_on s r))" using inv that(1) unfolding fd_inv_recorded by blast
    then show ?thesis using r2 [OF that(1)] r1 [of r] cc by simp
  qed
  then have "fd_inv ?s" using o2(1) fd_invD(4,5) [OF inv] unfolding fd_inv_recorded by (intro conjI allI impI) auto
  moreover have "same_but_count s ?s r" if "\<not> special r" "fds_on s r \<noteq> {newfd}" for r
    using same_but_count_trans [OF b1 b2 [OF that]] by simp
  moreover have "files_of ?s r = None" if "\<not> special r" "fds_on s r = {newfd}" for r using n2 [OF that] by simp
  moreover have "fd_table ?s = (fd_table s)(newfd := ?p)" "\<not> filesys_lock ?s" using o2 by simp_all
  ultimately show ?thesis using e by blast
qed


section \<open>A new descriptor\<close>

lemma unused_loop_finds:
  assumes "0 \<le> k" "k \<le> i" "i < MAX_FD" "fd_table s i = NULL" "\<And>j. k \<le> j \<Longrightarrow> j < i \<Longrightarrow> fd_table s j \<noteq> NULL"
  shows "unused_loop s k = ret i"
  using assms
proof (induction "nat (i - k)" arbitrary: k)
  case 0
  then show ?case by (subst unused_loop.simps) (simp add: fd_slot_def)
next
  case (Suc n)
  from Suc.hyps(2) have "k < i" by simp
  moreover have "unused_loop s (k + 1) = ret i" using Suc.prems \<open>k < i\<close> Suc.hyps(2) by (intro Suc.hyps(1)) auto
  ultimately show ?case using Suc.prems by (subst unused_loop.simps) (simp add: fd_slot_def)
qed

text \<open>
  \<open>find_unused_fd\<close> takes the first free slot from \<open>fd_idx\<close> on, stores the file there and keeps the counts.
\<close>

theorem find_unused_fd_correct:
  assumes inv: "fd_inv s" and i: "fd_idx s \<le> i" "i < MAX_FD" "fd_table s i = NULL"
    and first: "\<And>j. fd_idx s \<le> j \<Longrightarrow> j < i \<Longrightarrow> fd_table s j \<noteq> NULL"
    and p: "\<not> special p" "fds_on s p = {}" "files_of s p = Some f" "dup_count f = 1"
  shows "\<exists>s'. find_unused_fd s p = ret (i, s') \<and> fd_inv s' \<and> fd_table s' = (fd_table s)(i := p) \<and> vm s' = vm s \<and> fd_idx s' = i"
proof -
  let ?s = "s\<lparr>fd_idx := i, fd_table := (fd_table s)(i := p)\<rparr>"
  have i0: "0 \<le> i" using fd_invD(4) [OF inv] i(1) by simp
  have "unused_loop s (fd_idx s) = ret i" using fd_invD(4) [OF inv] i first by (intro unused_loop_finds) auto
  then have e: "find_unused_fd s p = ret (i, ?s)" using i i0 by (simp add: find_unused_fd_def set_fd_def)
  have on: "fds_on ?s q = (if q = p then {i} else fds_on s q - {i})" for q using i0 i p(2) by (auto simp: fds_on_def)
  have off: "fds_on s q - {i} = fds_on s q" if "q \<noteq> NULL" for q using that i(3) by (auto simp: fds_on_def)
  have "fd_inv ?s" unfolding fd_inv_def
  proof (intro conjI allI impI)
    fix q assume q: "\<not> special q \<and> fds_on ?s q \<noteq> {}"
    show "\<exists>f. files_of ?s q = Some f \<and> dup_count f = int (card (fds_on ?s q))"
      using q p on off fd_invD(1) [OF inv, of q] by (cases "q = p") auto
  qed (use fd_invD(2,3) [OF inv] p(1) on off i i0 in auto)
  then show ?thesis using e by auto
qed

text \<open>
  When every slot from \<open>fd_idx\<close> on is taken the search reads behind the table, whatever slots below \<open>fd_idx\<close>
  were freed by \<open>close\<close>.
\<close>

lemma find_unused_fd_full:
  assumes "0 \<le> fd_idx s" "fd_idx s \<le> MAX_FD" "\<And>j. fd_idx s \<le> j \<Longrightarrow> j < MAX_FD \<Longrightarrow> fd_table s j \<noteq> NULL"
  shows "find_unused_fd s p = fail Out_of_bounds"
proof -
  have "unused_loop s k = fail Out_of_bounds" if "fd_idx s \<le> k" "k \<le> MAX_FD" for k
    using that
  proof (induction "nat (MAX_FD - k)" arbitrary: k)
    case 0
    then show ?case by (subst unused_loop.simps) (simp add: fd_slot_def)
  next
    case (Suc n)
    then have "k < MAX_FD" by simp
    moreover have "unused_loop s (k + 1) = fail Out_of_bounds" using Suc by (intro Suc.hyps(1)) auto
    ultimately show ?case using assms Suc.prems by (subst unused_loop.simps) (simp add: fd_slot_def)
  qed
  then show ?thesis using assms(1,2) by (simp add: find_unused_fd_def)
qed

text \<open>
  The first two slots of the parent are copied to the child as they are, so that a file there is shared by
  two processes and counted for one: when the child closes it, the parent is left with a freed file.
\<close>

lemma fork_low_slot_dangles:
  assumes "\<not> special (parent 1)" "files_of s (parent 1) = Some f" "dup_count f = 1" "file_close (fsys_of s) (Some f) = ret fs"
  shows "\<exists>s1 s2. fork_fds parent s [0, 1] = ret s1 \<and> fd_table s1 1 = parent 1 \<and> sys_close s1 1 = ret s2 \<and> files_of s2 (parent 1) = None"
proof -
  let ?s = "s\<lparr>fd_table := (fd_table s)(0 := parent 0, 1 := parent 1)\<rparr>"
  have "fork_fds parent s [0, 1] = ret ?s" by (simp add: set_fd_def MAX_FD_def)
  moreover have "sys_close ?s 1 = ret ((drop_ref ?s (fd_table ?s 1) f 1 fs)\<lparr>fd_table := (fd_table ?s)(1 := NULL)\<rparr>)"
    using assms by (intro sys_close_file) (auto simp: MAX_FD_def)
  ultimately show ?thesis by (auto simp: drop_ref_def)
qed

text \<open>The number \<open>newfd\<close> is not checked.\<close>

lemma sys_dup2_unchecked:
  assumes "0 \<le> oldfd" "oldfd < MAX_FD" "fd_table s oldfd = STDIN" "newfd < 0 \<or> MAX_FD \<le> newfd"
  shows "sys_dup2 s oldfd newfd = fail Out_of_bounds"
  using assms by (auto simp: sys_dup2_def fd_slot_def)

text \<open>A seek to a position from \<open>2\<^sup>3\<^sup>1\<close> on, which is a negative \<open>off_t\<close>, stops the kernel.\<close>

lemma div_int_half_u32: "2147483648 \<le> uint (x :: u32) \<Longrightarrow> uint x div 2147483648 = 1"
  using uint_lt2p [of x] by (simp add: div_pos_geq)

lemma sys_seek_negative:
  assumes "0 \<le> fd" "fd < MAX_FD" "\<not> special (fd_table s fd)" "files_of s (fd_table s fd) = Some f" "2147483648 \<le> position"
  shows "sys_seek s fd position = fail Assert_failed"
proof -
  have "sint position < 0" using assms(5) by (simp add: sint_uint word_le_def bit_iff_odd take_bit_int_less_eq signed_take_bit_negative_iff div_int_half_u32)
  then show ?thesis using assms by (simp add: sys_seek_def fd_slot_def as_file_def file_seek_def)
qed


section \<open>A concrete process\<close>

text \<open>Descriptors 2 and 3 share a file, descriptor 4 has one for itself.\<close>

definition sample_open :: "int \<Rightarrow> open_file" where
  "sample_open n = \<lparr>f_inode = 0x1000, f_pos = 5, deny_write = False, dup_count = n\<rparr>"

definition sample_proc :: proc where
  "sample_proc = \<lparr>vm = sample_vmst\<lparr>files := [0x100 \<mapsto> sample_open 2, 0x200 \<mapsto> sample_open 1, 0x300 \<mapsto> sample_open 1], fsystem := sample_fsys\<rparr>,
     fd_table = (\<lambda>_. NULL)(0 := STDIN, 1 := STDOUT, 2 := 0x100, 3 := 0x100, 4 := 0x200), fd_idx = 5,
     stdin_count = 1, stdout_count = 1, running_file = NULL, cwd = None, exit_status = 0, dirs = Map.empty,
     console = [], keyboard = [], filesys_lock = False, fd_pages = 0x8004020000\<rparr>"

lemma sample_fds:
  "p \<noteq> NULL \<Longrightarrow> fds_on sample_proc p =
     (if p = STDIN then {0} else if p = STDOUT then {1} else if p = 0x100 then {2, 3} else if p = 0x200 then {4} else {})"
  by (auto simp: fds_on_def sample_proc_def STDIN_def STDOUT_def MAX_FD_def split: if_splits)

lemma sample_files: "files_of sample_proc = [0x100 \<mapsto> sample_open 2, 0x200 \<mapsto> sample_open 1, 0x300 \<mapsto> sample_open 1]"
  "fsys_of sample_proc = sample_fsys" "filesys_lock sample_proc = False" "fd_idx sample_proc = 5"
  "fd_table sample_proc = (\<lambda>_. NULL)(0 := STDIN, 1 := STDOUT, 2 := 0x100, 3 := 0x100, 4 := 0x200)"
  by (simp_all add: sample_proc_def)

lemma sample_inv: "fd_inv sample_proc"
proof -
  have "\<exists>f. files_of sample_proc p = Some f \<and> dup_count f = int (card (fds_on sample_proc p))"
    if "\<not> special p" "fds_on sample_proc p \<noteq> {}" for p
    using that by (auto simp: sample_fds sample_files sample_open_def split: if_splits)
  moreover have "stdin_count sample_proc = 1" "stdout_count sample_proc = 1" by (simp_all add: sample_proc_def)
  moreover have "fds_on sample_proc STDIN = {0}" "fds_on sample_proc STDOUT = {1}" by (simp_all add: sample_fds)
  moreover have "0 \<le> fd_idx sample_proc" "fd_idx sample_proc \<le> MAX_FD" by (simp_all add: sample_files MAX_FD_def)
  ultimately show ?thesis unfolding fd_inv_def by (intro conjI allI impI) simp_all
qed

lemma sample_close:
  "file_close sample_fsys (Some (sample_open n)) = ret (sample_fsys\<lparr>inodes := Map.empty, open_inodes := []\<rparr>)"
  by (simp add: file_close_def file_allow_write_def sample_open_def inode_close_def the_inode_def sample_fsys_def sample_inode_def Let_def)

theorem sys_dup2_correct_witness:
  "\<exists>s'. sys_dup2 sample_proc 2 4 = ret (4, s') \<and> fd_inv s' \<and> fd_table s' = (fd_table sample_proc)(4 := 0x100) \<and> files_of s' 0x200 = None"
proof -
  have "file_close (fsys_of sample_proc) (Some f) = ret (sample_fsys\<lparr>inodes := Map.empty, open_inodes := []\<rparr>)"
    if "files_of sample_proc (fd_table sample_proc 4) = Some f" for f
    using that sample_close by (auto simp: sample_files)
  from sys_dup2_correct [OF sample_inv, of 2 4, OF _ _ _ _ _ _ _ this] obtain s' where "sys_dup2 sample_proc 2 4 = ret (4, s')" "fd_inv s'"
    "fd_table s' = (fd_table sample_proc)(4 := fd_table sample_proc 2)"
    "\<forall>p. \<not> special p \<and> fds_on sample_proc p = {4} \<longrightarrow> files_of s' p = None"
    by (auto simp: MAX_FD_def sample_files)
  then show ?thesis by (auto simp: sample_fds sample_files STDIN_def STDOUT_def)
qed

theorem find_unused_fd_correct_witness:
  "\<exists>s'. find_unused_fd sample_proc 0x300 = ret (5, s') \<and> fd_inv s' \<and> fd_table s' = (fd_table sample_proc)(5 := 0x300)"
  using find_unused_fd_correct [OF sample_inv, of 5 "0x300" "sample_open 1"]
  by (auto simp: sample_files sample_fds MAX_FD_def STDIN_def STDOUT_def sample_open_def)

end
