(* ===== verification/Usermem.thy ===== *)
theory Usermem
  imports Descriptors
begin

unbundle bit_operations_syntax

text \<open>
  The kernel's use of user memory: accesses through user pointers, with the page faults they cause
  (\<open>page_fault\<close> of \<open>userprog/exception.c\<close>), and the checks of pointers at the start of the system calls of
  \<open>userprog/syscall.c\<close>. The lemmas show that a checked buffer lies in user memory, and that the checks end.
\<close>

section \<open>Results of system calls\<close>

text \<open>A call returns a value to the user program, or the process ends in \<open>sys_exit\<close>.\<close>

datatype 'a outcome = Return 'a | Exit int

type_synonym 'a sys = "('a outcome \<times> proc) exec"

definition bindS :: "'a sys \<Rightarrow> ('a \<Rightarrow> proc \<Rightarrow> 'b sys) \<Rightarrow> 'b sys" where
  "bindS m k = bindE m (\<lambda>(r, s). case r of Return x \<Rightarrow> k x s | Exit st \<Rightarrow> ret (Exit st, s))"

abbreviation returnS :: "'a \<Rightarrow> proc \<Rightarrow> 'a sys" where
  "returnS x s \<equiv> ret (Return x, s)"

lemma bindS_simps [simp]:
  "bindS None k = None" "bindS (Some (Inl e)) k = Some (Inl e)" "bindS (Some (Inr (Return x, s))) k = k x s"
  "bindS (Some (Inr (Exit st, s))) k = ret (Exit st, s)"
  by (simp_all add: bindS_def)

lemma bindS_eq_return:
  "bindS m k = ret (Return y, s') \<longleftrightarrow> (\<exists>x s. m = ret (Return x, s) \<and> k x s = ret (Return y, s'))"
  by (auto simp: bindS_def split: outcome.splits) (metis outcome.exhaust)

lemma bindS_mono [partial_function_mono]:
  assumes "mono_option B" and "\<And>y s. mono_option (\<lambda>f. C y s f)"
  shows "mono_option (\<lambda>f. bindS (B f) (\<lambda>y s. C y s f))"
  unfolding bindS_def
proof (rule bindE_mono [OF assms(1)])
  fix y :: "'c outcome \<times> proc"
  obtain r s where y: "y = (r, s)" by (cases y)
  show "mono_option (\<lambda>f. case y of (r, s) \<Rightarrow> (case r of Return x \<Rightarrow> C x s f | Exit st \<Rightarrow> ret (Exit st, s)))"
    using assms(2) by (cases r) (simp_all add: y option.const_mono)
qed

text \<open>\<open>sys_exit\<close> never returns: \<open>thread_exit\<close> runs \<open>process_exit\<close>. The line it prints is left out.\<close>

definition sys_exit :: "proc \<Rightarrow> int \<Rightarrow> 'a sys" where
  "sys_exit s status = ret (Exit status, s\<lparr>exit_status := status\<rparr>)"

section \<open>Accesses through user pointers\<close>

text \<open>
  The kernel address behind a virtual address, when the kernel accesses it with the page table of the
  process. An access to the kernel's own part needs no table. An entry that is not present raises a page
  fault, and \<open>page_fault\<close> lets \<open>vm_try_handle_fault\<close> bring the page in; when it refuses, the fault came from
  kernel code and \<open>kill\<close> panics. The processor does not check the write permission, because the kernel
  leaves the flag WP of \<open>cr0\<close> clear, and it marks the entry as accessed and, after a write, as dirty.
\<close>

partial_function (option) user_page :: "vmst \<Rightarrow> ptr \<Rightarrow> bool \<Rightarrow> (ptr \<times> vmst) exec" where
  "user_page v va wr =
     (if is_kernel_vaddr va then ret (va, v)
      else bindE (pml4e_walk (ph v) (pml4 v) va False) (\<lambda>(pte, m).
        if pte \<noteq> NULL \<and> cells m pte AND PTE_P \<noteq> 0
        then ret (ptov (PTE_ADDR (cells m pte)) + pg_ofs va,
                  v\<lparr>ph := put_cell m pte (cells m pte OR PTE_A OR (if wr then PTE_D else 0))\<rparr>)
        else bindE (vm_try_handle_fault v va False wr True) (\<lambda>(ok, v). if ok then user_page v va wr else fail Panicked)))"

primrec user_load :: "nat \<Rightarrow> vmst \<Rightarrow> ptr \<Rightarrow> (u8 list \<times> vmst) exec" where
  "user_load 0 v a = ret ([], v)"
| "user_load (Suc n) v a =
     bindE (user_page v a False) (\<lambda>(k, v).
     bindE (user_load n v (a + 1)) (\<lambda>(bs, v'). ret (byte_at (ph v) k # bs, v')))"

primrec user_store :: "u8 list \<Rightarrow> vmst \<Rightarrow> ptr \<Rightarrow> vmst exec" where
  "user_store [] v a = ret v"
| "user_store (b # bs) v a =
     bindE (user_page v a True) (\<lambda>(k, v). user_store bs (v\<lparr>ph := put_mem (ph v) k [b]\<rparr>) (a + 1))"

text \<open>The string at an address, up to its zero.\<close>

partial_function (option) user_string :: "vmst \<Rightarrow> ptr \<Rightarrow> (u8 list \<times> vmst) exec" where
  "user_string v a =
     bindE (user_page v a False) (\<lambda>(k, v).
     let b = byte_at (ph v) k in
     if b = 0 then ret ([], v) else bindE (user_string v (a + 1)) (\<lambda>(bs, v). ret (b # bs, v)))"

text \<open>The bytes at which \<open>new\<close> differs from \<open>old\<close> are stored.\<close>

fun store_changes :: "u8 list \<Rightarrow> u8 list \<Rightarrow> vmst \<Rightarrow> ptr \<Rightarrow> vmst exec" where
  "store_changes (x # old) (y # new) v a =
     bindE (if x = y then ret v else user_store [y] v a) (\<lambda>v. store_changes old new v (a + 1))"
| "store_changes _ _ v a = ret v"

text \<open>\<open>parse_path\<close> on a path in user memory: it overwrites the slashes behind the names.\<close>

definition parse_user_path :: "proc \<Rightarrow> ptr \<Rightarrow> u8 list \<Rightarrow> proc exec" where
  "parse_user_path s a path =
     bindE (parse_path (path @ [0, SLASH, 0]) 0 (length path + 1)) (\<lambda>(argv, m).
     bindE (store_changes path (take (length path) m) (vm s) a) (\<lambda>v. ret (s\<lparr>vm := v\<rparr>)))"

section \<open>Checks of pointers\<close>

text \<open>A pointer that equals the address of a string literal is a kernel address.\<close>

definition check_address :: "proc \<Rightarrow> ptr \<Rightarrow> unit sys" where
  "check_address s addr =
     (if \<not> is_user_vaddr addr then sys_exit s (- 1)
      else bindE (pml4_get_page (ph (vm s)) (pml4 (vm s)) addr) (\<lambda>k. if k = NULL then sys_exit s (- 1) else returnS () s))"

definition bring_in :: "proc \<Rightarrow> ptr \<Rightarrow> bool \<Rightarrow> unit sys" where
  "bring_in s addr wr =
     bindE (vm_try_handle_fault (vm s) addr True wr True) (\<lambda>(ok, v).
     if ok then returnS () (s\<lparr>vm := v\<rparr>) else sys_exit (s\<lparr>vm := v\<rparr>) (- 1))"

partial_function (option) check_loop :: "proc \<Rightarrow> ptr \<Rightarrow> ptr \<Rightarrow> unit sys" where
  "check_loop s addr last_page =
     (if addr \<le> last_page then
        if \<not> is_user_vaddr addr then sys_exit s (- 1)
        else
          bindE (pml4_get_page (ph (vm s)) (pml4 (vm s)) addr) (\<lambda>k.
          bindS (if k = NULL then bring_in s addr False else returnS () s) (\<lambda>_ s.
          check_loop s (addr + PGSIZE) last_page))
      else returnS () s)"

definition check_buffer :: "proc \<Rightarrow> ptr \<Rightarrow> u32 \<Rightarrow> unit sys" where
  "check_buffer s buffer sz =
     (if buffer = NULL then sys_exit s (- 1)
      else check_loop s (pg_round_down buffer) (pg_round_down (buffer + ucast sz - 1)))"

definition check_read_buffer :: "proc \<Rightarrow> ptr \<Rightarrow> u32 \<Rightarrow> unit sys" where
  "check_read_buffer s buffer sz =
     (if \<not> is_user_vaddr buffer \<or> \<not> is_user_vaddr (buffer + ucast sz - 1) then sys_exit s (- 1)
      else check_buffer s buffer sz)"

text \<open>One page of \<open>check_write_buffer\<close>: a page that is there must be writable, by its entry or by its description.\<close>

definition check_write_page :: "proc \<Rightarrow> ptr \<Rightarrow> unit sys" where
  "check_write_page s addr =
     bindE (pml4_get_page (ph (vm s)) (pml4 (vm s)) addr) (\<lambda>k.
     if k = NULL then bring_in s addr True
     else
       bindE (pml4e_walk (ph (vm s)) (pml4 (vm s)) addr False) (\<lambda>(pte, m).
       bindE (spt_find_page (spt_tab (vm s)) addr) (\<lambda>p.
       bindE (the_page (vm s) p) (\<lambda>pg.
       if pte = NULL \<or> (cells m pte AND PTE_W = 0 \<and> \<not> writable pg) then sys_exit s (- 1)
       else if cells m pte AND PTE_W = 0 then
         bindE (vm_try_handle_fault (vm s) addr True True True) (\<lambda>(_, v). returnS () (s\<lparr>vm := v\<rparr>))
       else returnS () s))))"

partial_function (option) check_write_loop :: "proc \<Rightarrow> ptr \<Rightarrow> ptr \<Rightarrow> unit sys" where
  "check_write_loop s addr last_page =
     (if addr \<le> last_page then
        if \<not> is_user_vaddr addr then sys_exit s (- 1)
        else bindS (check_write_page s addr) (\<lambda>_ s. check_write_loop s (addr + PGSIZE) last_page)
      else returnS () s)"

definition check_write_buffer :: "proc \<Rightarrow> ptr \<Rightarrow> u32 \<Rightarrow> unit sys" where
  "check_write_buffer s buffer sz =
     (if \<not> is_user_vaddr buffer \<or> \<not> is_user_vaddr (buffer + ucast sz - 1) then sys_exit s (- 1)
      else bindS (check_buffer s buffer sz) (\<lambda>_ s.
        check_write_loop s (pg_round_down buffer) (pg_round_down (buffer + ucast sz - 1))))"


section \<open>User memory\<close>

text \<open>Where a user address leads, and the byte there.\<close>

definition leads :: "phys \<Rightarrow> ptr \<Rightarrow> ptr \<Rightarrow> ptr" where
  "leads m t va = ptov (PTE_ADDR (pte_of m t va)) + pg_ofs va"

definition mapped :: "phys \<Rightarrow> ptr \<Rightarrow> ptr \<Rightarrow> bool" where
  "mapped m t va \<longleftrightarrow> is_user_vaddr va \<and> pte_of m t va AND PTE_P \<noteq> 0 \<and> ptov (PTE_ADDR (pte_of m t va)) \<in> data_pages m t"

definition user_byte :: "phys \<Rightarrow> ptr \<Rightarrow> ptr \<Rightarrow> u8" where
  "user_byte m t va = byte_at m (leads m t va)"

text \<open>Another physical memory with the same view of user memory, up to some bytes.\<close>

definition same_map :: "phys \<Rightarrow> phys \<Rightarrow> ptr \<Rightarrow> bool" where
  "same_map m m' t \<longleftrightarrow> vm_ok m' t \<and> data_pages m t \<subseteq> data_pages m' t \<and>
     (\<forall>va. PTE_ADDR (pte_of m' t va) = PTE_ADDR (pte_of m t va) \<and>
       pte_of m' t va AND PTE_P = pte_of m t va AND PTE_P \<and> pte_of m' t va AND PTE_W = pte_of m t va AND PTE_W)"

lemma same_map_refl: "vm_ok m t \<Longrightarrow> same_map m m t"
  by (simp add: same_map_def)

lemma same_map_trans: "same_map m m' t \<Longrightarrow> same_map m' m'' t \<Longrightarrow> same_map m m'' t"
  by (auto simp: same_map_def)

lemma same_map_leads: "same_map m m' t \<Longrightarrow> leads m' t va = leads m t va"
  by (simp add: same_map_def leads_def)

lemma same_map_mapped: "same_map m m' t \<Longrightarrow> mapped m t va \<Longrightarrow> mapped m' t va"
  by (auto simp: same_map_def mapped_def)

lemma byte_at_page_cong:
  assumes "pg_ofs p = 0" and "\<And>a. a - p < PGSIZE \<Longrightarrow> cells s' a = cells s a" and "unat k < 4096"
  shows "byte_at s' (p + k) = byte_at s (p + k)"
proof -
  have "get_mem s' p 4096 ! unat k = get_mem s p 4096 ! unat k" using get_mem_cells_cong [OF assms(1,2)] by simp
  then show ?thesis using assms(3) by simp
qed

lemma pg_ofs_less: "unat (pg_ofs va) < 4096"
proof -
  have "pg_ofs va = take_bit 12 va" by (simp add: pg_ofs_def PGMASK_def take_bit_eq_mask mask_eq_exp_minus_1)
  then show ?thesis by (simp add: take_bit_eq_mod unat_mod)
qed

text \<open>An access to a mapped address: it ends, and changes nothing but the flags of the entry.\<close>

lemma flags_or:
  fixes e :: u64
  shows "PTE_ADDR (e OR PTE_A OR (if w then PTE_D else 0)) = PTE_ADDR e" "(e OR PTE_A OR (if w then PTE_D else 0)) AND PTE_P = e AND PTE_P"
    "(e OR PTE_A OR (if w then PTE_D else 0)) AND PTE_W = e AND PTE_W"
  by (simp_all add: PTE_ADDR_def PTE_A_def PTE_D_def PTE_P_def PTE_W_def bit.conj_disj_distrib2)

lemma user_page_mapped:
  assumes ok: "vm_ok (ph v) (pml4 v)" and va: "mapped (ph v) (pml4 v) va"
  obtains m where "user_page v va wr = ret (leads (ph v) (pml4 v) va, v\<lparr>ph := m\<rparr>)" "same_map (ph v) m (pml4 v)" "keeps (ph v) m (pml4 v)"
proof -
  let ?g = "\<lambda>e. e OR PTE_A OR (if wr then PTE_D else 0)"
  have u: "\<not> is_kernel_vaddr va" "is_user_vaddr va" using va by (simp_all add: mapped_def is_user_vaddr_def)
  from va have "pte_of (ph v) (pml4 v) va \<noteq> 0" by (auto simp: mapped_def)
  then obtain t where t: "tab (ph v) (pml4 v) 3 va = Some t" by (cases "tab (ph v) (pml4 v) 3 va") (auto simp: pte_of_def)
  have w: "pml4e_walk (ph v) (pml4 v) va False = ret (t + 8 * PTX va, ph v)" "t + 8 * PTX va \<noteq> NULL"
    using find_walk [OF ok, of va] slot_not_null [OF ok, of 3 va t 3 va] t by (simp_all add: PTX_idx)
  from with_update [OF ok, of va ?g] obtain m where m: "put_cell (ph v) (t + 8 * PTX va) (?g (cells (ph v) (t + 8 * PTX va))) = m"
    "vm_ok m (pml4 v)" "pte_of m (pml4 v) = (\<lambda>va'. if same 4 va' va \<and> tab (ph v) (pml4 v) 3 va \<noteq> None then ?g (pte_of (ph v) (pml4 v) va) else pte_of (ph v) (pml4 v) va')"
    "keeps (ph v) m (pml4 v)" using w by (simp del: if_split_eq1)
  have e: "pte_of (ph v) (pml4 v) va = cells (ph v) (t + 8 * PTX va)" using t by (simp add: pte_of_def)
  have "user_page v va wr = ret (leads (ph v) (pml4 v) va, v\<lparr>ph := m\<rparr>)"
    using w u va m(1) by (subst user_page.simps) (simp add: leads_def mapped_def e)
  moreover have "same_map (ph v) m (pml4 v)"
  proof -
    have "PTE_ADDR (pte_of m (pml4 v) va') = PTE_ADDR (pte_of (ph v) (pml4 v) va')"
      "pte_of m (pml4 v) va' AND PTE_P = pte_of (ph v) (pml4 v) va' AND PTE_P"
      "pte_of m (pml4 v) va' AND PTE_W = pte_of (ph v) (pml4 v) va' AND PTE_W" for va'
      unfolding m(3) using flags_or [of "pte_of (ph v) (pml4 v) va" wr] pte_of_same [of va' va "ph v" "pml4 v"] by simp_all
    then show ?thesis using m(2,4) by (simp add: same_map_def keeps_def)
  qed
  ultimately show thesis using m(4) by (rule that)
qed

lemma keeps_user_byte:
  assumes ok: "vm_ok m t" and "same_map m m' t" "keeps m m' t" "mapped m t va"
  shows "user_byte m' t va = user_byte m t va"
proof -
  let ?p = "ptov (PTE_ADDR (pte_of m t va))"
  have p: "?p \<in> data_pages m t" using assms(4) by (simp add: mapped_def)
  then have "pg_ofs ?p = 0" using ok used_page_props(1) by (auto simp: data_pages_def vm_ok_def)
  then have "byte_at m' (?p + pg_ofs va) = byte_at m (?p + pg_ofs va)"
    using p assms(3) pg_ofs_less by (intro byte_at_page_cong) (auto simp: keeps_def)
  then show ?thesis using assms(2) by (simp add: user_byte_def leads_def same_map_def)
qed


definition user_bytes :: "phys \<Rightarrow> ptr \<Rightarrow> ptr \<Rightarrow> nat \<Rightarrow> u8 list" where
  "user_bytes m t a n = map (\<lambda>i. user_byte m t (a + of_nat i)) [0..<n]"

lemma user_bytes_simps [simp]:
  "user_bytes m t a 0 = []" "user_bytes m t a (Suc n) = user_byte m t a # user_bytes m t (a + 1) n"
  "length (user_bytes m t a n) = n"
proof -
  have "[0..<Suc n] = 0 # map Suc [0..<n]" by (simp add: map_Suc_upt upt_conv_Cons del: upt_Suc)
  then show "user_bytes m t a (Suc n) = user_byte m t a # user_bytes m t (a + 1) n"
    by (simp add: user_bytes_def comp_def add.assoc del: upt_Suc)
qed (simp_all add: user_bytes_def)

lemma user_bytes_cong:
  "(\<And>i. i < n \<Longrightarrow> user_byte m' t (a + of_nat i) = user_byte m t (a + of_nat i)) \<Longrightarrow> user_bytes m' t a n = user_bytes m t a n"
  by (simp add: user_bytes_def)

text \<open>Reading mapped memory returns its bytes and leaves the memory as it was.\<close>

lemma user_load_mapped:
  assumes "vm_ok (ph v) (pml4 v)" and "\<And>i. i < n \<Longrightarrow> mapped (ph v) (pml4 v) (a + of_nat i)"
  shows "\<exists>m. user_load n v a = ret (user_bytes (ph v) (pml4 v) a n, v\<lparr>ph := m\<rparr>) \<and> same_map (ph v) m (pml4 v) \<and> keeps (ph v) m (pml4 v)"
  using assms
proof (induction n arbitrary: v a)
  case 0
  then show ?case by (auto simp: same_map_refl intro!: exI [of _ "ph v"])
next
  case (Suc n)
  have va: "mapped (ph v) (pml4 v) a" using Suc.prems(2) [of 0] by simp
  from user_page_mapped [OF Suc.prems(1) va, of False] obtain m where
    m: "user_page v a False = ret (leads (ph v) (pml4 v) a, v\<lparr>ph := m\<rparr>)" "same_map (ph v) m (pml4 v)" "keeps (ph v) m (pml4 v)" .
  have rest: "mapped (ph v) (pml4 v) (a + 1 + of_nat i)" if "i < n" for i using Suc.prems(2) [of "Suc i"] that by (simp add: add.assoc)
  have "vm_ok (ph (v\<lparr>ph := m\<rparr>)) (pml4 (v\<lparr>ph := m\<rparr>))" using m(2) by (simp add: same_map_def)
  moreover have "\<And>i. i < n \<Longrightarrow> mapped (ph (v\<lparr>ph := m\<rparr>)) (pml4 (v\<lparr>ph := m\<rparr>)) (a + 1 + of_nat i)"
    using same_map_mapped [OF m(2)] rest by simp
  ultimately obtain m' where m': "user_load n (v\<lparr>ph := m\<rparr>) (a + 1) = ret (user_bytes m (pml4 v) (a + 1) n, v\<lparr>ph := m'\<rparr>)"
    "same_map m m' (pml4 v)" "keeps m m' (pml4 v)" using Suc.IH [of "v\<lparr>ph := m\<rparr>" "a + 1"] by auto
  have "byte_at m (leads (ph v) (pml4 v) a) = user_byte (ph v) (pml4 v) a"
    using keeps_user_byte [OF Suc.prems(1) m(2,3) va] same_map_leads [OF m(2)] by (simp add: user_byte_def)
  moreover have "user_bytes m (pml4 v) (a + 1) n = user_bytes (ph v) (pml4 v) (a + 1) n"
    using keeps_user_byte [OF Suc.prems(1) m(2,3) rest] by (intro user_bytes_cong)
  ultimately have "user_load (Suc n) v a = ret (user_bytes (ph v) (pml4 v) a (Suc n), v\<lparr>ph := m'\<rparr>)" using m(1) m'(1) by simp
  then show ?case using same_map_trans [OF m(2) m'(2)] keeps_trans [OF m(3) m'(3)] by blast
qed

text \<open>One byte stored through a mapped address.\<close>

lemma put_user_byte:
  assumes ok: "vm_ok m t" and va: "mapped m t va"
  shows "same_map m (put_mem m (leads m t va) [b]) t" "byte_at (put_mem m (leads m t va) [b]) x = (if x = leads m t va then b else byte_at m x)"
proof -
  let ?p = "ptov (PTE_ADDR (pte_of m t va))"
  have "?p \<in> data_pages m t" using va by (simp add: mapped_def)
  moreover have "leads m t va = ?p + of_nat (unat (pg_ofs va))" by (simp add: leads_def)
  ultimately show "same_map m (put_mem m (leads m t va) [b]) t"
    using put_mem_data [OF ok, of ?p "unat (pg_ofs va)" "[b]"] pg_ofs_less [of va] by (simp add: same_map_def Suc_le_eq)
  show "byte_at (put_mem m (leads m t va) [b]) x = (if x = leads m t va then b else byte_at m x)"
    by (simp add: byte_at_put_mem unat_eq_0)
qed

text \<open>Bytes stored through mapped addresses that lead to different places are there, and no other byte changes.\<close>

lemma user_store_mapped:
  assumes "vm_ok (ph v) (pml4 v)" and "\<And>i. i < length bs \<Longrightarrow> mapped (ph v) (pml4 v) (a + of_nat i)"
    and "\<And>i j. i < length bs \<Longrightarrow> j < length bs \<Longrightarrow> i \<noteq> j \<Longrightarrow> leads (ph v) (pml4 v) (a + of_nat i) \<noteq> leads (ph v) (pml4 v) (a + of_nat j)"
  shows "\<exists>m. user_store bs v a = ret (v\<lparr>ph := m\<rparr>) \<and> same_map (ph v) m (pml4 v) \<and> user_bytes m (pml4 v) a (length bs) = bs \<and>
    (\<forall>x. mapped (ph v) (pml4 v) x \<and> (\<forall>i < length bs. leads (ph v) (pml4 v) x \<noteq> leads (ph v) (pml4 v) (a + of_nat i)) \<longrightarrow>
      user_byte m (pml4 v) x = user_byte (ph v) (pml4 v) x)"
  using assms
proof (induction bs arbitrary: v a)
  case Nil
  then show ?case by (auto simp: same_map_refl intro!: exI [of _ "ph v"])
next
  case (Cons b bs)
  let ?t = "pml4 v" and ?l = "leads (ph v) (pml4 v)"
  have va: "mapped (ph v) ?t a" using Cons.prems(2) [of 0] by simp
  from user_page_mapped [OF Cons.prems(1) va, of True] obtain m where
    m: "user_page v a True = ret (?l a, v\<lparr>ph := m\<rparr>)" "same_map (ph v) m ?t" "keeps (ph v) m ?t" .
  have mok: "vm_ok m ?t" using m(2) by (simp add: same_map_def)
  have l: "leads m ?t = ?l" using same_map_leads [OF m(2)] by (simp add: fun_eq_iff)
  define m1 where "m1 = put_mem m (?l a) [b]"
  have p: "same_map m m1 ?t" "byte_at m1 x = (if x = ?l a then b else byte_at m x)" for x
    using put_user_byte [OF mok same_map_mapped [OF m(2) va]] by (simp_all add: m1_def l)
  have s1: "same_map (ph v) m1 ?t" using same_map_trans [OF m(2) p(1)] .
  have l1: "leads m1 ?t = ?l" using same_map_leads [OF s1] by (simp add: fun_eq_iff)
  let ?v = "v\<lparr>ph := m1\<rparr>"
  have rest: "mapped m1 ?t (a + 1 + of_nat i)" if "i < length bs" for i
    using same_map_mapped [OF s1] Cons.prems(2) [of "Suc i"] that by (simp add: add.assoc)
  have inj: "?l (a + 1 + of_nat i) \<noteq> ?l (a + 1 + of_nat j)" if "i < length bs" "j < length bs" "i \<noteq> j" for i j
    using Cons.prems(3) [of "Suc i" "Suc j"] that by (simp add: add.assoc)
  have first: "?l a \<noteq> ?l (a + 1 + of_nat i)" if "i < length bs" for i
    using Cons.prems(3) [of 0 "Suc i"] that by (simp add: add.assoc)
  have "vm_ok (ph ?v) (pml4 ?v)" using s1 by (simp add: same_map_def)
  then obtain m2 where m2: "user_store bs ?v (a + 1) = ret (v\<lparr>ph := m2\<rparr>)" "same_map m1 m2 ?t" "user_bytes m2 ?t (a + 1) (length bs) = bs"
    and other: "\<And>x. mapped m1 ?t x \<Longrightarrow> (\<And>i. i < length bs \<Longrightarrow> ?l x \<noteq> ?l (a + 1 + of_nat i)) \<Longrightarrow> user_byte m2 ?t x = user_byte m1 ?t x"
    using Cons.IH [of ?v "a + 1"] rest inj by (auto simp: l1)
  have e: "user_store (b # bs) v a = ret (v\<lparr>ph := m2\<rparr>)" using m(1) m2(1) by (simp add: m1_def)
  have "user_byte m2 ?t a = b" using other [OF same_map_mapped [OF s1 va] first] p(2) [of "?l a"] by (simp add: user_byte_def l1)
  then have bytes: "user_bytes m2 ?t a (length (b # bs)) = b # bs" using m2(3) by simp
  have "user_byte m2 ?t x = user_byte (ph v) ?t x"
    if x: "mapped (ph v) ?t x" "\<forall>i < length (b # bs). ?l x \<noteq> ?l (a + of_nat i)" for x
  proof -
    have "?l x \<noteq> ?l (a + 1 + of_nat i)" if "i < length bs" for i using x(2) [rule_format, of "Suc i"] that by (simp add: add.assoc)
    then have "user_byte m2 ?t x = user_byte m1 ?t x" using other same_map_mapped [OF s1 x(1)] by blast
    also have "\<dots> = user_byte m ?t x" using p(2) [of "?l x"] x(2) [rule_format, of 0] by (simp add: user_byte_def l l1)
    finally show ?thesis using keeps_user_byte [OF Cons.prems(1) m(2,3) x(1)] by simp
  qed
  then show ?case using e bytes same_map_trans [OF s1 m2(2)] by blast
qed


section \<open>The checks\<close>

lemma user_bound: "is_user_vaddr a \<longleftrightarrow> unat a < 549822922752"
  by (simp add: is_user_vaddr_def is_kernel_vaddr_def KERN_BASE_def word_le_nat_alt not_le)

lemma add_page:
  assumes "is_user_vaddr a"
  shows "unat (a + PGSIZE) = unat a + 4096"
  using assms by (simp add: user_bound PGSIZE_def unat_word_ariths)

text \<open>What the checks find at a page: it is there, or the fault is refused.\<close>

definition present :: "proc \<Rightarrow> ptr \<Rightarrow> bool" where
  "present s a \<longleftrightarrow> (\<exists>k. pml4_get_page (ph (vm s)) (pml4 (vm s)) a = ret k \<and> k \<noteq> NULL)"

definition refused :: "proc \<Rightarrow> ptr \<Rightarrow> bool" where
  "refused s a \<longleftrightarrow> pml4_get_page (ph (vm s)) (pml4 (vm s)) a = ret NULL \<and> vm_try_handle_fault (vm s) a True False True = ret (False, vm s)"

fun pages_from :: "ptr \<Rightarrow> nat \<Rightarrow> ptr list" where
  "pages_from a 0 = []"
| "pages_from a (Suc n) = a # pages_from (a + PGSIZE) n"

definition page_count :: "ptr \<Rightarrow> ptr \<Rightarrow> nat" where
  "page_count a b = (if a \<le> b then Suc ((unat b - unat a) div 4096) else 0)"

lemma page_count_step:
  assumes "a \<le> b" "is_user_vaddr a"
  shows "page_count a b = Suc (page_count (a + PGSIZE) b)"
proof -
  have "unat a \<le> unat b" using assms(1) by (simp add: word_le_nat_alt)
  moreover have "(unat b - unat a) div 4096 = Suc ((unat b - (unat a + 4096)) div 4096)" if "unat a + 4096 \<le> unat b"
    using that div_add_self2 [of 4096 "unat b - (unat a + 4096)"] by simp
  ultimately show ?thesis using assms(1) add_page [OF assms(2)] by (auto simp: page_count_def word_le_nat_alt)
qed

lemma check_loop_spec:
  assumes "is_user_vaddr b" "\<forall>x \<in> set (pages_from a (page_count a b)). present s x \<or> refused s x"
  shows "check_loop s a b = (if \<forall>x \<in> set (pages_from a (page_count a b)). present s x then returnS () s else sys_exit s (- 1))"
  using assms
proof (induction "page_count a b" arbitrary: a)
  case 0
  then have "\<not> a \<le> b" by (auto simp: page_count_def split: if_splits)
  then show ?case using 0 by (subst check_loop.simps) simp
next
  case (Suc n)
  then have le: "a \<le> b" by (auto simp: page_count_def split: if_splits)
  then have u: "is_user_vaddr a" using Suc.prems(1) by (auto simp: user_bound word_le_nat_alt)
  have n: "page_count a b = Suc (page_count (a + PGSIZE) b)" by (rule page_count_step [OF le u])
  have IH: "check_loop s (a + PGSIZE) b = (if \<forall>x \<in> set (pages_from (a + PGSIZE) (page_count (a + PGSIZE) b)). present s x then returnS () s else sys_exit s (- 1))"
    using Suc.hyps(2) n Suc.prems by (intro Suc.hyps(1)) auto
  consider "present s a" | "refused s a" "\<not> present s a" using Suc.prems(2) n by auto
  then show ?case
  proof cases
    case 1
    then obtain k where "pml4_get_page (ph (vm s)) (pml4 (vm s)) a = ret k" "k \<noteq> NULL" by (auto simp: present_def)
    then have "check_loop s a b = check_loop s (a + PGSIZE) b" using le u by (subst check_loop.simps) simp
    then show ?thesis using IH 1 by (simp add: n)
  next
    case 2
    then show ?thesis using le u by (subst check_loop.simps) (auto simp: n refused_def bring_in_def sys_exit_def)
  qed
qed

text \<open>Every byte of the buffer is in one of the checked pages.\<close>

lemma buffer_user:
  assumes "is_user_vaddr b" "is_user_vaddr (b + ucast (n :: u32) - 1)" "i < unat n"
  shows "is_user_vaddr (b + of_nat i)"
proof -
  have n: "unat n < 2 ^ 32" by (rule unat_u32_bound)
  have b: "unat b < 549822922752" "unat (b + ucast n - 1) < 549822922752" using assms by (simp_all add: user_bound)
  have "unat (b + ucast n) = unat b + unat n" using b(1) n by (simp add: unat_word_ariths unsigned_ucast_eq take_bit_nat_eq_self)
  then have "unat (b + ucast n - 1) = unat b + unat n - 1" using assms(3) by (simp add: unat_sub_if')
  moreover have "unat (b + of_nat i) = unat b + i" using b(1) n assms(3) by (simp add: unat_word_ariths unat_of_nat_u64)
  ultimately show ?thesis using b(2) assms(3) by (simp add: user_bound)
qed

text \<open>
  A path in a page that is not in memory, because it was never touched or was swapped out, ends the
  process, though the page could be brought in.
\<close>

lemma check_address_kills_absent_page:
  assumes "is_user_vaddr addr" "pml4_get_page (ph (vm s)) (pml4 (vm s)) addr = ret NULL"
  shows "check_address s addr = sys_exit s (- 1)"
  using assms by (simp add: check_address_def)

text \<open>A kernel access to an address that cannot be brought in, or to the kernel itself.\<close>

lemma user_page_bad:
  assumes "is_user_vaddr va" "vm_ok (ph v) (pml4 v)" "pte_of (ph v) (pml4 v) va AND PTE_P = 0" "vm_try_handle_fault v va False wr True = ret (False, v')"
  shows "user_page v va wr = fail Panicked"
proof -
  have "pml4_get_page (ph v) (pml4 v) va = ret NULL" using get_page_eq [OF assms(2,1)] assms(3) by simp
  then obtain pte where "pml4e_walk (ph v) (pml4 v) va False = ret (pte, ph v)" "\<not> (pte \<noteq> NULL \<and> cells (ph v) pte AND PTE_P \<noteq> 0)"
    using find_walk [OF assms(2), of va] assms(3) by (cases "tab (ph v) (pml4 v) 3 va") (auto simp: pte_of_def)
  then show ?thesis using assms(1,4) by (subst user_page.simps) (auto simp: is_user_vaddr_def)
qed

text \<open>A store through a kernel address, which no check refused, changes the kernel's memory.\<close>

lemma user_store_kernel: "is_kernel_vaddr a \<Longrightarrow> user_store [b] v a = ret (v\<lparr>ph := put_mem (ph v) a [b]\<rparr>)"
  by (subst user_store.simps, subst user_page.simps) simp

end
