(* ===== verification/Syscall.thy ===== *)
theory Syscall
  imports Usermem
begin

unbundle bit_operations_syntax

text \<open>
  The system calls of \<open>userprog/syscall.c\<close> that use files, directories and mappings. \<open>al\<close> stands for the
  addresses \<open>malloc\<close> gives to inodes, \<open>junk\<close> for the bytes of an uninitialized stack buffer. A new
  \<open>struct file\<close> or \<open>struct dir\<close> takes its address from the heap; without one the allocations inside the file
  system fail too. The lemmas show that what a program writes to a file it reads back, through its own
  memory, the descriptor table, the file and the disk.
\<close>

section \<open>Reading and writing\<close>

text \<open>\<open>putbuf\<close> and \<open>input_getc\<close>: the console takes every byte; a key that never comes is waited for forever.\<close>

definition putbuf :: "proc \<Rightarrow> u8 list \<Rightarrow> proc" where
  "putbuf s bytes = s\<lparr>console := console s @ bytes\<rparr>"

definition input_getc :: "proc \<Rightarrow> (u8 \<times> proc) exec" where
  "input_getc s = (case keyboard s of [] \<Rightarrow> diverges | c # cs \<Rightarrow> ret (c, s\<lparr>keyboard := cs\<rparr>))"

primrec read_keys :: "nat \<Rightarrow> proc \<Rightarrow> ptr \<Rightarrow> proc exec" where
  "read_keys 0 s a = ret s"
| "read_keys (Suc n) s a =
     bindE (input_getc s) (\<lambda>(c, s).
     bindE (user_store [c] (vm s) a) (\<lambda>v. read_keys n (s\<lparr>vm := v\<rparr>) (a + 1)))"

definition load_user :: "proc \<Rightarrow> ptr \<Rightarrow> nat \<Rightarrow> (u8 list \<times> proc) exec" where
  "load_user s a n = bindE (user_load n (vm s) a) (\<lambda>(bytes, v). ret (bytes, s\<lparr>vm := v\<rparr>))"

definition store_user :: "proc \<Rightarrow> ptr \<Rightarrow> u8 list \<Rightarrow> proc exec" where
  "store_user s a bytes = bindE (user_store bytes (vm s) a) (\<lambda>v. ret (s\<lparr>vm := v\<rparr>))"

definition string_user :: "proc \<Rightarrow> ptr \<Rightarrow> (u8 list \<times> proc) exec" where
  "string_user s a = bindE (user_string (vm s) a) (\<lambda>(str, v). ret (str, s\<lparr>vm := v\<rparr>))"

text \<open>The number of bytes an \<open>unsigned\<close> size asks for, as an \<open>off_t\<close>; a file gets the bytes of the buffer first.\<close>

definition sys_write :: "proc \<Rightarrow> int \<Rightarrow> ptr \<Rightarrow> u32 \<Rightarrow> int sys" where
  "sys_write s fd buffer sz =
     bindS (check_read_buffer s buffer sz) (\<lambda>_ s.
     if fd < 0 \<or> fd \<ge> MAX_FD then returnS (- 1) s
     else
       bindE (fd_slot s fd) (\<lambda>p.
       if p = STDOUT \<and> stdout_count s \<noteq> 0 then
         bindE (load_user s buffer (unat sz)) (\<lambda>(bytes, s). returnS (sint sz) (putbuf s bytes))
       else
         bindE (process_get_file s fd) (\<lambda>f.
         if f = NULL then returnS (- 1) s
         else
           bindE (lock_acquire_fs s) (\<lambda>s.
           bindE (as_file s f) (\<lambda>fl.
           bindE (is_file_dir (fsys_of s) fl) (\<lambda>isdir.
           if isdir then bindE (lock_release_fs s) (\<lambda>s. sys_exit s (- 1))
           else
             bindE (load_user s buffer (nat (sint sz))) (\<lambda>(bytes, s).
             bindE (file_write (mem (vm s)) (fsys_of s) fl bytes (sint sz)) (\<lambda>(n, fl, fs).
             bindE (lock_release_fs (put_pos (set_fsys s fs) f fl)) (\<lambda>s. returnS n s)))))))))"

definition sys_read :: "proc \<Rightarrow> int \<Rightarrow> ptr \<Rightarrow> u32 \<Rightarrow> int sys" where
  "sys_read s fd buffer sz =
     (if sz = 0 then returnS 0 s
      else bindS (check_write_buffer s buffer sz) (\<lambda>_ s.
        if fd < 0 \<or> fd \<ge> MAX_FD then returnS (- 1) s
        else
          bindE (fd_slot s fd) (\<lambda>p.
          if p = STDIN then
            if stdin_count s \<noteq> 0 then bindE (read_keys (unat sz) s buffer) (\<lambda>s. returnS (sint sz) s) else returnS (- 1) s
          else if p = NULL \<or> p = STDIN \<or> p = STDOUT then returnS (- 1) s
          else
            bindE (lock_acquire_fs s) (\<lambda>s.
            bindE (as_file s p) (\<lambda>fl.
            bindE (file_read (mem (vm s)) (fsys_of s) fl (sint sz)) (\<lambda>(bytes, fl, fs).
            bindE (store_user (put_pos (set_fsys s fs) p fl) buffer bytes) (\<lambda>s.
            bindE (lock_release_fs s) (\<lambda>s. returnS (int (length bytes)) s))))))))"

section \<open>Creating, removing and opening\<close>

text \<open>Splitting the path overwrites its slashes in the memory of the program.\<close>

definition sys_create :: "alloc \<Rightarrow> u8 list \<Rightarrow> proc \<Rightarrow> ptr \<Rightarrow> u32 \<Rightarrow> bool sys" where
  "sys_create al junk s file initial_size =
     bindE (lock_acquire_fs s) (\<lambda>s.
     bindS (check_address s file) (\<lambda>_ s.
     bindE (string_user s file) (\<lambda>(path, s).
     if file = NULL \<or> path = [] then sys_exit s (- 1)
     else
       bindE (parse_user_path s file path) (\<lambda>s.
       bindE (filesys_create (mem (vm s)) al junk (fsys_of s) (cwd s) path (sint initial_size)) (\<lambda>(success, fs).
       bindE (lock_release_fs (set_fsys s fs)) (\<lambda>s. returnS success s))))))"

definition sys_remove :: "alloc \<Rightarrow> proc \<Rightarrow> ptr \<Rightarrow> bool sys" where
  "sys_remove al s file =
     bindS (check_address s file) (\<lambda>_ s.
     bindE (lock_acquire_fs s) (\<lambda>s.
     bindE (string_user s file) (\<lambda>(path, s).
     bindE (parse_user_path s file path) (\<lambda>s.
     bindE (filesys_remove (mem (vm s)) al (fsys_of s) (cwd s) path) (\<lambda>(success, fs).
     bindE (lock_release_fs (set_fsys s fs)) (\<lambda>s. returnS success s))))))"

text \<open>
  The object \<open>sys_open\<close> stores in the table: the file, or for a directory a \<open>struct dir\<close> at an address of its
  own, which takes over the inode; the file is freed. \<open>filesys_open\<close> of the root returns a directory already.
\<close>

definition open_as_dir :: "proc \<Rightarrow> ptr \<Rightarrow> (ptr \<times> proc) exec" where
  "open_as_dir s inode =
     (let (new, v) = malloc (vm s); s = s\<lparr>vm := v\<rparr> in
      bindE (dir_open (new \<noteq> NULL) (fsys_of s) inode) (\<lambda>(d, fs).
      let s = set_fsys s fs in
      case d of None \<Rightarrow> ret (NULL, s) | Some d \<Rightarrow> ret (new, s\<lparr>dirs := (dirs s)(new \<mapsto> d)\<rparr>)))"

definition sys_open :: "alloc \<Rightarrow> proc \<Rightarrow> ptr \<Rightarrow> int sys" where
  "sys_open al s file =
     bindS (check_address s file) (\<lambda>_ s.
     bindE (string_user s file) (\<lambda>(path, s).
     if file = NULL \<or> path = [] then returnS (- 1) s
     else
       bindE (lock_acquire_fs s) (\<lambda>s.
       let (new, v) = malloc (vm s); s = s\<lparr>vm := v\<rparr> in
       bindE (filesys_open (mem (vm s) \<and> new \<noteq> NULL) al (fsys_of s) (cwd s) path) (\<lambda>(r, fs).
       let s = set_fsys s fs in
       bindE (case r of
                Not_opened \<Rightarrow> ret (None, s)
              | Opened_dir d \<Rightarrow> bindE (open_as_dir s (dir_inode d)) (\<lambda>(p, s). ret (Some p, s))
              | Opened_file f \<Rightarrow>
                  bindE (is_file_dir (fsys_of s) f) (\<lambda>isdir.
                  if isdir then bindE (open_as_dir s (f_inode f)) (\<lambda>(p, s). ret (Some p, s))
                  else ret (Some new, set_file s new (Some f)))) (\<lambda>(p, s).
       case p of
         None \<Rightarrow> bindE (lock_release_fs s) (\<lambda>s. returnS (- 1) s)
       | Some p \<Rightarrow>
           bindE (find_unused_fd s p) (\<lambda>(fd, s).
           bindE (lock_release_fs s) (\<lambda>s. returnS fd s)))))))"

section \<open>Directories\<close>

text \<open>
  The loop of \<open>sys_mkdir\<close> and \<open>sys_chdir\<close> over the directories of a path, with the directory it has reached and
  whether it found them all.
\<close>

fun walk_dirs :: "bool \<Rightarrow> alloc \<Rightarrow> fsys \<Rightarrow> dir option \<Rightarrow> u8 list list \<Rightarrow> (bool \<times> dir option \<times> fsys) exec" where
  "walk_dirs m al fs cur_dir [] = ret (True, cur_dir, fs)"
| "walk_dirs m al fs cur_dir (name # names) =
     (case cur_dir of
        None \<Rightarrow> fail Assert_failed
      | Some d \<Rightarrow>
          bindE (dir_lookup m (al fs) fs d name) (\<lambda>(found, inode, fs).
          if \<not> found then ret (False, cur_dir, fs)
          else bindE (the_inode fs inode) (\<lambda>i.
            if \<not> is_dir i then ret (False, cur_dir, fs)
            else bindE (dir_close fs cur_dir) (\<lambda>fs.
              bindE (dir_open m fs inode) (\<lambda>(next_dir, fs). walk_dirs m al fs next_dir names)))))"

definition base_dir :: "bool \<Rightarrow> alloc \<Rightarrow> fsys \<Rightarrow> dir option \<Rightarrow> bool \<Rightarrow> (dir option \<times> fsys) exec" where
  "base_dir m al fs cur is_root =
     (case cur of
        None \<Rightarrow> dir_open_root m (al fs) fs
      | Some d \<Rightarrow> if is_root then dir_open_root m (al fs) fs else dir_reopen m fs d)"

definition DOT :: "u8 list" where "DOT = [46]"
definition DOTDOT :: "u8 list" where "DOTDOT = [46, 46]"

text \<open>
  The exits of \<open>sys_mkdir\<close> through its label \<open>fail\<close>. Before \<open>new_dir\<close> has a value it is what the stack holds there,
  \<open>garbage\<close>.
\<close>

definition mkdir_fail :: "fsys \<Rightarrow> dir option \<Rightarrow> dir option \<Rightarrow> (bool \<times> fsys) exec" where
  "mkdir_fail fs new_dir cur_dir =
     bindE (dir_close fs new_dir) (\<lambda>fs. bindE (dir_close fs cur_dir) (\<lambda>fs. ret (False, fs)))"

definition the_dir :: "dir option \<Rightarrow> dir exec" where
  "the_dir d = (case d of None \<Rightarrow> fail Null_deref | Some d \<Rightarrow> ret d)"

definition make_dir :: "bool \<Rightarrow> alloc \<Rightarrow> u8 list \<Rightarrow> dir option \<Rightarrow> fsys \<Rightarrow> dir option \<Rightarrow> bool \<Rightarrow> u8 list list \<Rightarrow> (bool \<times> fsys) exec" where
  "make_dir m al junk garbage fs cur is_root names =
     bindE (base_dir m al fs cur is_root) (\<lambda>(cur_dir, fs).
     bindE (walk_dirs m al fs cur_dir (butlast names)) (\<lambda>(found, cur_dir, fs).
     if \<not> found then mkdir_fail fs garbage cur_dir
     else
       bindE (fat_create_chain (fatfs fs) 0) (\<lambda>(clst, ff).
       let sector = cluster_to_sector ff clst in
       bindE (dir_create m ff (filesys_disk fs) sector 16) (\<lambda>(ok, ff, dk).
       let fs = fs\<lparr>fatfs := ff, filesys_disk := dk\<rparr> in
       if \<not> ok then mkdir_fail fs garbage cur_dir
       else
         bindE (inode_open (al fs) fs sector) (\<lambda>(p, fs).
         bindE (dir_open m fs p) (\<lambda>(new_dir, fs).
         bindE (the_dir cur_dir) (\<lambda>cd.
         bindE (dir_add m junk fs cd (last names) sector) (\<lambda>(ok, fs).
         if \<not> ok then mkdir_fail fs new_dir cur_dir
         else
           bindE (the_dir new_dir) (\<lambda>nd.
           bindE (dir_add m junk fs nd DOT sector) (\<lambda>(ok, fs).
           if \<not> ok then mkdir_fail fs new_dir cur_dir
           else
             bindE (get_dir_sector fs cd) (\<lambda>parent.
             bindE (dir_add m junk fs nd DOTDOT parent) (\<lambda>(ok, fs).
             if \<not> ok then mkdir_fail fs new_dir cur_dir
             else bindE (dir_close fs new_dir) (\<lambda>fs. bindE (dir_close fs cur_dir) (\<lambda>fs. ret (True, fs)))))))))))))))"

definition sys_mkdir :: "alloc \<Rightarrow> u8 list \<Rightarrow> dir option \<Rightarrow> proc \<Rightarrow> ptr \<Rightarrow> bool sys" where
  "sys_mkdir al junk garbage s dir =
     bindE (string_user s dir) (\<lambda>(path, s).
     bindE (path_names path) (\<lambda>names.
     bindE (parse_user_path s dir path) (\<lambda>s.
     if names = [] then returnS False s
     else
       bindE (make_dir (mem (vm s)) al junk garbage (fsys_of s) (cwd s) (is_root_path path) names) (\<lambda>(ok, fs).
       returnS ok (set_fsys s fs)))))"

definition sys_chdir :: "alloc \<Rightarrow> proc \<Rightarrow> ptr \<Rightarrow> bool sys" where
  "sys_chdir al s dir =
     bindE (string_user s dir) (\<lambda>(path, s).
     bindE (path_names path) (\<lambda>names.
     bindE (parse_user_path s dir path) (\<lambda>s.
     let m = mem (vm s) in
     if is_root_path path \<and> names = [] then
       bindE (dir_close (fsys_of s) (cwd s)) (\<lambda>fs.
       bindE (dir_open_root m (al fs) fs) (\<lambda>(d, fs). returnS True ((set_fsys s fs)\<lparr>cwd := d\<rparr>)))
     else
       bindE (base_dir m al (fsys_of s) (cwd s) (is_root_path path)) (\<lambda>(cur_dir, fs).
       bindE (walk_dirs m al fs cur_dir names) (\<lambda>(found, cur_dir, fs).
       if \<not> found then returnS False (set_fsys s fs)
       else
         bindE (the_dir cur_dir) (\<lambda>d.
         bindE (is_dir_removed fs d) (\<lambda>gone.
         if gone then returnS False (set_fsys s fs)
         else bindE (dir_close fs (cwd s)) (\<lambda>fs. returnS True ((set_fsys s fs)\<lparr>cwd := cur_dir\<rparr>)))))))))"

definition sys_inumber :: "proc \<Rightarrow> int \<Rightarrow> int exec" where
  "sys_inumber s fd =
     (if fd < 2 then ret (- 1)
      else bindE (fd_slot s fd) (\<lambda>p. bindE (as_file s p) (\<lambda>f.
        bindE (get_file_inode_num (fsys_of s) f) (\<lambda>n. ret (sint n)))))"

definition sys_isdir :: "proc \<Rightarrow> int \<Rightarrow> bool exec" where
  "sys_isdir s fd =
     (if fd < 2 then ret False
      else bindE (fd_slot s fd) (\<lambda>p. bindE (as_file s p) (\<lambda>f. is_file_dir (fsys_of s) f)))"

text \<open>Every name \<open>dir_readdir\<close> finds is stored, with its zero, at \<open>name\<close>; the entries \<open>.\<close> and \<open>..\<close> are passed over.\<close>

partial_function (option) readdir_skip :: "proc \<Rightarrow> dir \<Rightarrow> ptr \<Rightarrow> (bool \<times> proc) exec" where
  "readdir_skip s d name =
     bindE (dir_readdir (mem (vm s)) (fsys_of s) d) (\<lambda>(r, d, fs).
     let s = set_fsys s fs in
     case r of
       None \<Rightarrow> ret (False, s)
     | Some str \<Rightarrow>
         bindE (store_user s name (str @ [0])) (\<lambda>s.
         if str = DOT \<or> str = DOTDOT then readdir_skip s d name else ret (True, s)))"

text \<open>\<open>file_to_dir\<close> opens a new directory on the inode, at its start, and nobody closes it.\<close>

definition sys_readdir :: "proc \<Rightarrow> int \<Rightarrow> ptr \<Rightarrow> (bool \<times> proc) exec" where
  "sys_readdir s fd name =
     (if fd < 2 then ret (False, s)
      else bindE (fd_slot s fd) (\<lambda>p. bindE (as_file s p) (\<lambda>f.
        bindE (is_file_dir (fsys_of s) f) (\<lambda>isdir.
        if \<not> isdir then ret (False, s)
        else bindE (file_to_dir (mem (vm s)) (fsys_of s) f) (\<lambda>(d, fs).
          bindE (the_dir d) (\<lambda>d. readdir_skip (set_fsys s fs) d name))))))"

section \<open>Mappings\<close>

definition MAP_FAILED :: ptr where "MAP_FAILED = NULL"

partial_function (option) mmap_free :: "vmst \<Rightarrow> ptr \<Rightarrow> ptr \<Rightarrow> bool exec" where
  "mmap_free v start_page end_page =
     (if end_page > start_page then
        bindE (spt_find_page (spt_tab v) start_page) (\<lambda>p.
        if p \<noteq> NULL then ret False else mmap_free v (start_page + PGSIZE) end_page)
      else ret True)"

definition sys_mmap :: "proc \<Rightarrow> ptr \<Rightarrow> size_t \<Rightarrow> int \<Rightarrow> int \<Rightarrow> off_t \<Rightarrow> (ptr \<times> proc) exec" where
  "sys_mmap s addr len wr fd offset =
     (if fd < 2 then ret (MAP_FAILED, s)
      else bindE (sys_filesize s fd) (\<lambda>filesize.
        if filesize = 0 \<or> len = 0 then ret (MAP_FAILED, s)
        else if len > addr then ret (MAP_FAILED, s)
        else if addr = 0 \<or> addr mod PGSIZE \<noteq> 0 \<or> cmod offset 4096 \<noteq> 0 \<or> \<not> is_user_vaddr addr then ret (MAP_FAILED, s)
        else bindE (fd_slot s fd) (\<lambda>target_file.
          if target_file = NULL then ret (MAP_FAILED, s)
          else bindE (mmap_free (vm s) addr (pg_round_up (addr + len))) (\<lambda>free.
            if \<not> free then ret (MAP_FAILED, s)
            else bindE (do_mmap (vm s) addr len (wr \<noteq> 0) target_file offset) (\<lambda>v. ret (addr, s\<lparr>vm := v\<rparr>))))))"

definition sys_munmap :: "proc \<Rightarrow> ptr \<Rightarrow> proc exec" where
  "sys_munmap s addr = bindE (do_munmap (vm s) addr) (\<lambda>v. ret (s\<lparr>vm := v\<rparr>))"


section \<open>Buffers in memory\<close>

lemma pages_from_mem: "x \<in> set (pages_from a n) \<longleftrightarrow> (\<exists>k < n. x = a + of_nat k * PGSIZE)"
proof (induction n arbitrary: a)
  case (Suc n)
  have "(\<exists>k < Suc n. x = a + of_nat k * PGSIZE) \<longleftrightarrow> x = a \<or> (\<exists>k < n. x = a + PGSIZE + of_nat k * PGSIZE)"
    by (auto simp: algebra_simps less_Suc_eq_0_disj)
  then show ?case using Suc by auto
qed simp

lemma round_down_plus_ofs: "pg_round_down a + pg_ofs a = a"
proof -
  have "pg_round_down a + pg_ofs a = (a AND NOT PGMASK) OR (a AND PGMASK)"
    unfolding pg_round_down_def pg_ofs_def by (intro disjunctive_add) (auto simp: bit_simps)
  then show ?thesis by (simp flip: bit.conj_disj_distrib)
qed

lemma unat_round_down: "unat (pg_round_down a) = 4096 * (unat a div 4096)"
proof -
  have "pg_round_down a = a - pg_ofs a" using round_down_plus_ofs [of a] by (simp add: algebra_simps)
  moreover have "pg_ofs a \<le> a" by (simp add: word_le_nat_alt unat_pg_ofs)
  ultimately show ?thesis by (simp add: unat_sub_if' unat_pg_ofs word_le_nat_alt minus_mod_eq_mult_div)
qed

text \<open>Every page of the checks holds a byte of the buffer.\<close>

lemma checked_page_has_byte:
  assumes n: "0 < n" "n < 2 ^ 32" and u: "is_user_vaddr b"
    and x: "x \<in> set (pages_from (pg_round_down b) (page_count (pg_round_down b) (pg_round_down (b + of_nat n - 1))))"
  shows "\<exists>i < n. pg_round_down (b + of_nat i) = x"
proof -
  have ub: "unat b < 549822922752" using u by (simp add: user_bound)
  have un: "unat (b + of_nat i) = unat b + i" if "i \<le> n" for i using ub n that by (simp add: unat_word_ariths unat_of_nat_u64)
  have e: "b + of_nat n - 1 = b + of_nat (n - 1)" using n by (simp add: of_nat_diff)
  have ue: "unat (b + of_nat (n - 1)) = unat b + (n - 1)" by (intro un) simp
  define d where "d = unat b div 4096"
  define e' where "e' = (unat b + (n - 1)) div 4096"
  have le: "d \<le> e'" by (simp add: d_def e'_def div_le_mono)
  have "page_count (pg_round_down b) (pg_round_down (b + of_nat n - 1)) = Suc (e' - d)"
    unfolding page_count_def e word_le_nat_alt unat_round_down ue d_def [symmetric] e'_def [symmetric] using le by (simp flip: diff_mult_distrib2)
  with x obtain k where k: "k \<le> e' - d" "x = pg_round_down b + of_nat k * PGSIZE"
    by (auto simp: pages_from_mem less_Suc_eq_le simp del: pages_from.simps)
  have e'b: "4096 * e' \<le> unat b + (n - 1)" by (simp add: e'_def)
  have ux: "unat x = 4096 * (d + k)"
  proof -
    have "4096 * (d + k) \<le> unat b + (n - 1)" using k(1) le e'b by (intro order_trans [OF _ e'b]) simp
    then have s: "4096 * d + k * 4096 < 2 ^ 64" using ub n by simp
    then have "unat (of_nat k * PGSIZE) = k * 4096" by (simp add: PGSIZE_def unat_word_ariths unat_of_nat_u64)
    then show ?thesis unfolding k(2) using s by (simp add: unat_word_ariths unat_round_down d_def [symmetric])
  qed
  define i where "i = (if k = 0 then 0 else 4096 * (d + k) - unat b)"
  have in': "i < n"
  proof (cases "k = 0")
    case False
    have "4096 * (d + k) \<le> unat b + (n - 1)" using k(1) le e'b by (intro order_trans [OF _ e'b]) simp
    then show ?thesis using n False by (simp add: i_def)
  qed (use n in \<open>simp add: i_def\<close>)
  have "(unat b + i) div 4096 = d + k"
  proof (cases "k = 0")
    case False
    have "unat b < 4096 * (d + 1)" using dividend_less_times_div [of 4096 "unat b"] by (simp add: d_def)
    also have "\<dots> \<le> 4096 * (d + k)" using False by simp
    finally show ?thesis using False by (simp add: i_def)
  qed (simp add: i_def d_def)
  then have "unat (pg_round_down (b + of_nat i)) = unat x" using un [of i] in' ux by (simp add: unat_round_down)
  then show ?thesis using in' by (auto simp: word_unat_eq_iff)
qed


text \<open>A buffer that is in memory, and one the kernel may write to.\<close>

definition in_memory :: "vmst \<Rightarrow> ptr \<Rightarrow> nat \<Rightarrow> bool" where
  "in_memory v b n \<longleftrightarrow> b \<noteq> NULL \<and> (\<forall>i < n. mapped (ph v) (pml4 v) (b + of_nat i))"

definition may_write :: "vmst \<Rightarrow> ptr \<Rightarrow> nat \<Rightarrow> bool" where
  "may_write v b n \<longleftrightarrow> in_memory v b n \<and>
     (\<forall>i < n. pte_of (ph v) (pml4 v) (b + of_nat i) AND PTE_W \<noteq> 0 \<and>
       (\<exists>p pg. spt_find_page (spt_tab v) (pg_round_down (b + of_nat i)) = ret p \<and> pages v p = Some pg)) \<and>
     (\<forall>i j. i < n \<and> j < n \<and> i \<noteq> j \<longrightarrow> leads (ph v) (pml4 v) (b + of_nat i) \<noteq> leads (ph v) (pml4 v) (b + of_nat j))"

lemma user_round_down: "is_user_vaddr a \<Longrightarrow> is_user_vaddr (pg_round_down a)"
  using word_and_le2 [of a "NOT PGMASK"] by (auto simp: user_bound pg_round_down_def word_le_nat_alt)

lemma pte_round_down: "is_user_vaddr a \<Longrightarrow> pte_of m t (pg_round_down a) = pte_of m t a"
  using same_page_iff [of a "pg_round_down a"] pte_of_same [of a "pg_round_down a" m t] by (simp add: user_round_down)

lemma mapped_present:
  assumes ok: "vm_ok (ph v) (pml4 v)" and a: "mapped (ph v) (pml4 v) a"
  obtains k where "pml4_get_page (ph v) (pml4 v) (pg_round_down a) = ret k" "k \<noteq> NULL"
proof -
  have u: "is_user_vaddr a" using a by (simp add: mapped_def)
  have "ptov (PTE_ADDR (pte_of (ph v) (pml4 v) a)) \<noteq> NULL"
    using a ok used_page_props(3) by (auto simp: mapped_def data_pages_def vm_ok_def)
  then show thesis using get_page_eq [OF ok user_round_down [OF u]] a u that by (simp add: pte_round_down mapped_def)
qed

lemma buffer_ends:
  assumes "in_memory v b n" "0 < n" "n < 2 ^ 31"
  shows "is_user_vaddr b" "is_user_vaddr (b + ucast (of_nat n :: u32) - 1)" "b + ucast (of_nat n :: u32) - 1 = b + of_nat n - 1"
proof -
  have e: "ucast (of_nat n :: u32) = (of_nat n :: u64)" using assms(3) by (simp add: word_unat_eq_iff unsigned_ucast_eq take_bit_nat_eq_self unat_of_nat_u32 unat_of_nat_u64)
  show "is_user_vaddr b" using assms(1,2) by (force simp: in_memory_def mapped_def)
  have "b + of_nat n - 1 = b + of_nat (n - 1)" using assms(2) by (simp add: of_nat_diff)
  then show "is_user_vaddr (b + ucast (of_nat n :: u32) - 1)" unfolding e using assms(1,2) by (simp only: in_memory_def mapped_def)
  show "b + ucast (of_nat n :: u32) - 1 = b + of_nat n - 1" by (simp add: e)
qed

lemma pages_present:
  assumes ok: "vm_ok (ph (vm s)) (pml4 (vm s))" and b: "in_memory (vm s) b n" "0 < n" "n < 2 ^ 31"
    and x: "x \<in> set (pages_from (pg_round_down b) (page_count (pg_round_down b) (pg_round_down (b + of_nat n - 1))))"
  shows "present s x"
proof -
  from checked_page_has_byte [OF b(2) _ buffer_ends(1) [OF b] x] b(3) obtain i where "i < n" "pg_round_down (b + of_nat i) = x" by auto
  then show ?thesis using mapped_present [OF ok, of "b + of_nat i"] b(1) by (auto simp: present_def in_memory_def)
qed

lemma check_read_ok:
  assumes ok: "vm_ok (ph (vm s)) (pml4 (vm s))" and b: "in_memory (vm s) b n" "0 < n" "n < 2 ^ 31"
  shows "check_buffer s b (of_nat n) = returnS () s" "check_read_buffer s b (of_nat n) = returnS () s"
proof -
  note ends = buffer_ends [OF b]
  have "is_user_vaddr (pg_round_down (b + of_nat n - 1))" using user_round_down [OF ends(2)] ends(3) by simp
  then show c: "check_buffer s b (of_nat n) = returnS () s"
    using check_loop_spec [of "pg_round_down (b + of_nat n - 1)" "pg_round_down b" s] pages_present [OF ok b] b(1) ends(3) by (simp add: check_buffer_def in_memory_def)
  show "check_read_buffer s b (of_nat n) = returnS () s" using c ends by (simp add: check_read_buffer_def)
qed

lemma check_write_loop_ok:
  assumes "is_user_vaddr b" "\<And>x. x \<in> set (pages_from a (page_count a b)) \<Longrightarrow> check_write_page s x = returnS () s"
  shows "check_write_loop s a b = returnS () s"
  using assms
proof (induction "page_count a b" arbitrary: a)
  case 0
  then have "\<not> a \<le> b" by (auto simp: page_count_def split: if_splits)
  then show ?case by (subst check_write_loop.simps) simp
next
  case (Suc n)
  then have le: "a \<le> b" by (auto simp: page_count_def split: if_splits)
  then have u: "is_user_vaddr a" using Suc.prems(1) by (auto simp: user_bound word_le_nat_alt)
  have n: "page_count a b = Suc (page_count (a + PGSIZE) b)" by (rule page_count_step [OF le u])
  have "check_write_loop s (a + PGSIZE) b = returnS () s" using Suc.hyps(2) n Suc.prems by (intro Suc.hyps(1)) auto
  then show ?case using le u Suc.prems(2) [of a] n by (subst check_write_loop.simps) simp
qed

lemma check_write_ok:
  assumes ok: "vm_ok (ph (vm s)) (pml4 (vm s))" and b: "may_write (vm s) b n" "0 < n" "n < 2 ^ 31"
  shows "check_write_buffer s b (of_nat n) = returnS () s"
proof -
  have m: "in_memory (vm s) b n" using b(1) by (simp add: may_write_def)
  note ends = buffer_ends [OF m b(2,3)]
  have "check_write_page s x = returnS () s"
    if x: "x \<in> set (pages_from (pg_round_down b) (page_count (pg_round_down b) (pg_round_down (b + of_nat n - 1))))" for x
  proof -
    from checked_page_has_byte [OF b(2) _ ends(1) x] b(3) obtain i where i: "i < n" "pg_round_down (b + of_nat i) = x" by auto
    have a: "mapped (ph (vm s)) (pml4 (vm s)) (b + of_nat i)" using m i by (simp add: in_memory_def)
    then have u: "is_user_vaddr (b + of_nat i)" by (simp add: mapped_def)
    obtain k where k: "pml4_get_page (ph (vm s)) (pml4 (vm s)) x = ret k" "k \<noteq> NULL" using mapped_present [OF ok a] i(2) by metis
    have w: "pte_of (ph (vm s)) (pml4 (vm s)) x AND PTE_W \<noteq> 0" using b(1) i pte_round_down [OF u] by (auto simp: may_write_def)
    then obtain t where t: "tab (ph (vm s)) (pml4 (vm s)) 3 x = Some t" by (cases "tab (ph (vm s)) (pml4 (vm s)) 3 x") (auto simp: pte_of_def)
    then have e: "pml4e_walk (ph (vm s)) (pml4 (vm s)) x False = ret (t + 8 * PTX x, ph (vm s))" "t + 8 * PTX x \<noteq> NULL"
      "cells (ph (vm s)) (t + 8 * PTX x) AND PTE_W \<noteq> 0"
      using find_walk [OF ok, of x] slot_not_null [OF ok, of 3 x t 3 x] w by (simp_all add: PTX_idx pte_of_def)
    obtain p pg where "spt_find_page (spt_tab (vm s)) x = ret p" "pages (vm s) p = Some pg" using b(1) i by (auto simp: may_write_def)
    then show ?thesis using k e by (simp add: check_write_page_def the_obj_def)
  qed
  then have "check_write_loop s (pg_round_down b) (pg_round_down (b + of_nat n - 1)) = returnS () s"
    using user_round_down [OF ends(2)] ends(3) by (intro check_write_loop_ok) auto
  then show ?thesis using check_read_ok(1) [OF ok m b(2,3)] ends by (simp add: check_write_buffer_def)
qed


section \<open>What the checks decide\<close>

text \<open>
  C10. No system call is lured into the kernel's memory: when a check of a buffer lets the call go on, every
  byte of the buffer lies in user memory, whatever address and size the program passed and whatever the
  page faults of the check did.
\<close>

theorem checked_buffer_is_user:
  assumes "check_read_buffer s buffer sz = returnS () s' \<or> check_write_buffer s buffer sz = returnS () s'"
  shows "buffer \<noteq> NULL \<and> (\<forall>i < unat sz. is_user_vaddr (buffer + of_nat i))"
proof -
  have "is_user_vaddr buffer \<and> is_user_vaddr (buffer + ucast sz - 1) \<and> buffer \<noteq> NULL"
    using assms by (auto simp: check_read_buffer_def check_write_buffer_def check_buffer_def sys_exit_def bindS_eq_return split: if_splits)
  then show ?thesis using buffer_user by blast
qed


section \<open>Writing and reading back\<close>

lemma sint_of_nat_u32: "n < 2 ^ 31 \<Longrightarrow> sint (of_nat n :: u32) = int n"
  by (simp add: sint_uint uint_nat unat_of_nat_u32 signed_take_bit_int_eq_self)

lemma in_memory_cong: "in_memory v b n \<Longrightarrow> pml4 v' = pml4 v \<Longrightarrow> same_map (ph v) (ph v') (pml4 v) \<Longrightarrow> in_memory v' b n"
  using same_map_mapped by (auto simp: in_memory_def)

lemma may_write_cong:
  assumes "may_write v b n" "pml4 v' = pml4 v" "same_map (ph v) (ph v') (pml4 v)" "spt_tab v' = spt_tab v" "pages v' = pages v"
  shows "may_write v' b n"
  using assms in_memory_cong [OF _ assms(2,3)] same_map_leads [OF assms(3)] by (auto simp: may_write_def same_map_def)

lemma is_file_dirI: "inodes fs (f_inode f) = Some i \<Longrightarrow> is_file_dir fs f = ret (is_dir i)"
  by (simp add: is_file_dir_def the_inode_def)

text \<open>A write from memory to a regular file, and a read from a file to memory.\<close>

lemma sys_write_file:
  assumes ok: "vm_ok (ph (vm s)) (pml4 (vm s))" and b: "in_memory (vm s) b n" "0 < n" "n < 2 ^ 31"
    and fd: "2 \<le> fd" "fd < MAX_FD" "\<not> special (fd_table s fd)" "files_of s (fd_table s fd) = Some f" and lock: "\<not> filesys_lock s"
    and d: "inodes (fsys_of s) (f_inode f) = Some i" "\<not> is_dir i"
    and w: "file_write (mem (vm s)) (fsys_of s) f (user_bytes (ph (vm s)) (pml4 (vm s)) b n) (int n) = ret (r, f', fs)"
  obtains m where "sys_write s fd b (of_nat n) = returnS r (set_file (set_fsys (s\<lparr>vm := (vm s)\<lparr>ph := m\<rparr>\<rparr>) fs) (fd_table s fd) (Some f'))"
    "same_map (ph (vm s)) m (pml4 (vm s))" "keeps (ph (vm s)) m (pml4 (vm s))"
proof -
  from user_load_mapped [OF ok, of n b] b(1) obtain m where m:
    "user_load n (vm s) b = ret (user_bytes (ph (vm s)) (pml4 (vm s)) b n, (vm s)\<lparr>ph := m\<rparr>)" "same_map (ph (vm s)) m (pml4 (vm s))" "keeps (ph (vm s)) m (pml4 (vm s))"
    by (auto simp: in_memory_def)
  have "sys_write s fd b (of_nat n) = returnS r (set_file (set_fsys (s\<lparr>vm := (vm s)\<lparr>ph := m\<rparr>\<rparr>) fs) (fd_table s fd) (Some f'))"
    using check_read_ok(2) [OF ok b] fd lock is_file_dirI [OF d(1)] d(2) w m(1) sint_of_nat_u32 [OF b(3)]
    by (simp add: sys_write_def fd_slot_def process_get_file_def lock_acquire_fs_def lock_release_fs_def as_file_def load_user_def put_pos_def)
  then show thesis using m(2,3) by (rule that)
qed

lemma sys_read_file:
  assumes ok: "vm_ok (ph (vm s)) (pml4 (vm s))" and b: "may_write (vm s) b n" "0 < n" "n < 2 ^ 31"
    and fd: "0 \<le> fd" "fd < MAX_FD" "\<not> special (fd_table s fd)" "files_of s (fd_table s fd) = Some f" and lock: "\<not> filesys_lock s"
    and r: "file_read (mem (vm s)) (fsys_of s) f (int n) = ret (bytes, f', fs)" "length bytes \<le> n"
  obtains m where "sys_read s fd b (of_nat n) = returnS (int (length bytes))
      (set_file (set_fsys (s\<lparr>vm := (vm s)\<lparr>ph := m\<rparr>\<rparr>) fs) (fd_table s fd) (Some f'))"
    "same_map (ph (vm s)) m (pml4 (vm s))" "user_bytes m (pml4 (vm s)) b (length bytes) = bytes"
    "\<And>x. mapped (ph (vm s)) (pml4 (vm s)) x \<Longrightarrow> (\<And>i. i < length bytes \<Longrightarrow> leads (ph (vm s)) (pml4 (vm s)) x \<noteq> leads (ph (vm s)) (pml4 (vm s)) (b + of_nat i)) \<Longrightarrow>
      user_byte m (pml4 (vm s)) x = user_byte (ph (vm s)) (pml4 (vm s)) x"
proof -
  have z: "(of_nat n :: u32) \<noteq> 0" using unat_of_nat_u32 [of n] b(2,3) by (auto simp del: unat_of_nat)
  define s1 where "s1 = put_pos (set_fsys (s\<lparr>filesys_lock := True\<rparr>) fs) (fd_table s fd) f'"
  have v: "ph (vm s1) = ph (vm s)" "pml4 (vm s1) = pml4 (vm s)" using fd(4) by (simp_all add: s1_def put_pos_def)
  have "\<exists>m. user_store bytes (vm s1) b = ret ((vm s1)\<lparr>ph := m\<rparr>) \<and> same_map (ph (vm s1)) m (pml4 (vm s1)) \<and> user_bytes m (pml4 (vm s1)) b (length bytes) = bytes \<and>
    (\<forall>x. mapped (ph (vm s1)) (pml4 (vm s1)) x \<and> (\<forall>i < length bytes. leads (ph (vm s1)) (pml4 (vm s1)) x \<noteq> leads (ph (vm s1)) (pml4 (vm s1)) (b + of_nat i)) \<longrightarrow>
      user_byte m (pml4 (vm s1)) x = user_byte (ph (vm s1)) (pml4 (vm s1)) x)"
    using ok b(1) r(2) by (intro user_store_mapped) (auto simp: v may_write_def in_memory_def)
  then obtain m where m: "user_store bytes (vm s1) b = ret ((vm s1)\<lparr>ph := m\<rparr>)" "same_map (ph (vm s)) m (pml4 (vm s))"
    "user_bytes m (pml4 (vm s)) b (length bytes) = bytes"
    and o: "\<And>x. mapped (ph (vm s)) (pml4 (vm s)) x \<Longrightarrow> (\<And>i. i < length bytes \<Longrightarrow> leads (ph (vm s)) (pml4 (vm s)) x \<noteq> leads (ph (vm s)) (pml4 (vm s)) (b + of_nat i)) \<Longrightarrow>
      user_byte m (pml4 (vm s)) x = user_byte (ph (vm s)) (pml4 (vm s)) x"
    unfolding v by blast
  have "sys_read s fd b (of_nat n) = returnS (int (length bytes)) (set_file (set_fsys (s\<lparr>vm := (vm s)\<lparr>ph := m\<rparr>\<rparr>) fs) (fd_table s fd) (Some f'))"
    using check_write_ok [OF ok b] z fd lock r(1) m(1) sint_of_nat_u32 [OF b(3)]
    by (simp add: sys_read_def fd_slot_def lock_acquire_fs_def lock_release_fs_def as_file_def store_user_def put_pos_def s1_def)
  then show thesis using m(2,3) o by (rule that)
qed


text \<open>
  What a program writes it reads back: \<open>write\<close> takes the bytes from the program's memory through its page
  table and stores them in the file at the position of the descriptor; after \<open>seek\<close> back, \<open>read\<close> puts
  the same bytes into another buffer of the program.
\<close>

lemma sys_write_seek_read:
  assumes ok: "vm_ok (ph (vm s)) (pml4 (vm s))" and n: "0 < n" "o' + n < 2 ^ 31"
    and b1: "in_memory (vm s) b1 n" and b2: "may_write (vm s) b2 n"
    and fd: "2 \<le> fd" "fd < MAX_FD" "\<not> special (fd_table s fd)" "files_of s (fd_table s fd) = Some f" and lock: "\<not> filesys_lock s"
    and memory: "mem (vm s)" and fok: "file_ok (fsys_of s) C (f_inode f) i cs" "\<not> is_dir i" "deny_write_cnt i = 0" "f_pos f = int o'"
    and room: "fat_safe (fatfs (fsys_of s))" "inode_length i = 0 \<or> nat (inode_length i) mod 512 \<noteq> 0 \<or> o' + n \<le> nat (inode_length i)"
      "ROOT_DIR_CLUSTER \<notin> set cs \<or> o' + n \<le> 512 * length cs"
      "o' + n \<le> nat (inode_length i) \<or> (o' + n + 511) div 512 - length cs < card (free_clusters (fatfs (fsys_of s)))"
  shows "\<exists>s1 s2 s3. sys_write s fd b1 (of_nat n) = returnS (int n) s1 \<and> sys_tell s1 fd = ret (of_nat (o' + n)) \<and>
    sys_seek s1 fd (of_nat o') = ret s2 \<and> sys_read s2 fd b2 (of_nat n) = returnS (int n) s3 \<and> sys_tell s3 fd = ret (of_nat (o' + n)) \<and>
    user_bytes (ph (vm s3)) (pml4 (vm s3)) b2 n = user_bytes (ph (vm s)) (pml4 (vm s)) b1 n \<and>
    user_rsp (vm s1) = user_rsp (vm s) \<and> user_rsp (vm s2) = user_rsp (vm s)"
proof -
  define buf where "buf = user_bytes (ph (vm s)) (pml4 (vm s)) b1 n"
  let ?p = "fd_table s fd" and ?t = "pml4 (vm s)"
  have lb: "length buf = n" by (simp add: buf_def)
  have n31: "n < 2 ^ 31" "o' < 2 ^ 31" using n by simp_all
  from lb n(1) have nb: "buf \<noteq> []" by auto
  from file_write_seek_read [OF fok(1,3) room(1) nb fok(4)] n room lb memory obtain f1 fs1 f2 fs2 where
    w: "file_write (mem (vm s)) (fsys_of s) f buf (int n) = ret (int n, f1, fs1)" "file_tell f1 = int (o' + n)" "file_seek f1 (int o') = ret f"
    and r: "file_read (mem (vm s)) fs1 f (int n) = ret (buf, f2, fs2)" "file_tell f2 = int (o' + n)" by auto
  have "inodes (fsys_of s) (f_inode f) = Some i" using fok(1) by (simp add: file_ok_def)
  from sys_write_file [OF ok b1 n(1) n31(1) fd lock this fok(2) w(1) [unfolded buf_def]] obtain m where
    sw: "sys_write s fd b1 (of_nat n) = returnS (int n) (set_file (set_fsys (s\<lparr>vm := (vm s)\<lparr>ph := m\<rparr>\<rparr>) fs1) ?p (Some f1))"
    and sm: "same_map (ph (vm s)) m ?t" .
  define s1 where "s1 = set_file (set_fsys (s\<lparr>vm := (vm s)\<lparr>ph := m\<rparr>\<rparr>) fs1) ?p (Some f1)"
  define s2 where "s2 = set_file s1 ?p (Some f)"
  have tell: "sys_tell u fd = ret (word_of_int (file_tell g))" if "fd_table u = fd_table s" "files_of u ?p = Some g" for u g
    using fd that by (simp add: sys_tell_def fd_slot_def as_file_def)
  have seek: "sys_seek s1 fd (of_nat o') = ret s2"
    using fd w(3) sint_of_nat_u32 [OF n31(2)] by (simp add: sys_seek_def fd_slot_def as_file_def put_pos_def s1_def s2_def)
  have ok2: "vm_ok (ph (vm s2)) (pml4 (vm s2))" using sm by (simp add: s2_def s1_def same_map_def)
  have mw: "may_write (vm s2) b2 n" by (rule may_write_cong [OF b2]) (simp_all add: s2_def s1_def sm)
  have "file_read (mem (vm s2)) (fsys_of s2) f (int n) = ret (buf, f2, fs2)" using r(1) by (simp add: s2_def s1_def)
  from sys_read_file [OF ok2 mw n(1) n31(1) _ fd(2) _ _ _ this] fd lock lb obtain m3 where
    sr: "sys_read s2 fd b2 (of_nat n) = returnS (int (length buf)) (set_file (set_fsys (s2\<lparr>vm := (vm s2)\<lparr>ph := m3\<rparr>\<rparr>) fs2) (fd_table s2 fd) (Some f2))"
    and ub: "user_bytes m3 (pml4 (vm s2)) b2 (length buf) = buf"
    by (force simp: s2_def s1_def)
  define s3 where "s3 = set_file (set_fsys (s2\<lparr>vm := (vm s2)\<lparr>ph := m3\<rparr>\<rparr>) fs2) (fd_table s2 fd) (Some f2)"
  have "sys_write s fd b1 (of_nat n) = returnS (int n) s1" using sw by (simp add: s1_def)
  moreover have "sys_tell s1 fd = ret (of_nat (o' + n))" using tell [of s1 f1] w(2) by (simp add: s1_def)
  moreover have "sys_read s2 fd b2 (of_nat n) = returnS (int n) s3" using sr lb by (simp add: s3_def)
  moreover have "sys_tell s3 fd = ret (of_nat (o' + n))" using tell [of s3 f2] r(2) by (simp add: s3_def s2_def s1_def)
  moreover have "user_bytes (ph (vm s3)) (pml4 (vm s3)) b2 n = buf" using ub lb by (simp add: s3_def)
  moreover have "user_rsp (vm s1) = user_rsp (vm s)" "user_rsp (vm s2) = user_rsp (vm s)" by (simp_all add: s1_def s2_def)
  ultimately show ?thesis using seek unfolding buf_def by blast
qed


section \<open>A program with a file and a page\<close>

text \<open>The page at \<open>0x4747E000\<close> is mapped to the frame at \<open>0x800400A000\<close>; descriptor 2 is a file at position 900.\<close>

definition sample_user_phys :: phys where
  "sample_user_phys = put_cell sample_tables (0x8004003000 + 8 * PTX 0x4747E000) 0xA007"

definition sample_user_spt :: spt where
  "sample_user_spt = (case spt_insert_page True True empty_spt 0x10 0x4747E000 of Some (Inr (_, h)) \<Rightarrow> h | _ \<Rightarrow> empty_spt)"

definition sample_user :: proc where
  "sample_user = sample_proc\<lparr>vm := (vm sample_proc)\<lparr>ph := sample_user_phys, spt_tab := sample_user_spt,
     files := [0x100 \<mapsto> \<lparr>f_inode = 0x1000, f_pos = 900, deny_write = False, dup_count = 2\<rparr>]\<rparr>\<rparr>"

lemma sample_user_phys_ok:
  "vm_ok sample_user_phys 0x8004000000" "0x800400a000 \<in> data_pages sample_user_phys 0x8004000000"
  "pg_round_down a = 0x4747E000 \<Longrightarrow> is_user_vaddr a \<Longrightarrow> pte_of sample_user_phys 0x8004000000 a = 0xA007"
proof -
  have t: "tab sample_tables 0x8004000000 3 0x4747E000 = Some 0x8004003000"
    using sample_stack_tab sample_tab [of 3 "0x4747E000"] by (auto split: if_splits)
  have w: "pml4e_walk sample_tables 0x8004000000 0x4747E000 False = ret (0x8004003000 + 8 * PTX 0x4747E000, sample_tables)"
    "0x8004003000 + 8 * PTX 0x4747E000 \<noteq> NULL"
    using find_walk [OF sample_tables_ok, of "0x4747E000"] slot_not_null [OF sample_tables_ok, of 3 "0x4747E000" "0x8004003000" 3 "0x4747E000"] t
    by (simp_all add: PTX_idx)
  from with_update [OF sample_tables_ok, of "0x4747E000" "\<lambda>_. 0xA007"] w t have m: "vm_ok sample_user_phys 0x8004000000"
    "pte_of sample_user_phys 0x8004000000 = (\<lambda>va'. if same 4 va' 0x4747E000 then 0xA007 else pte_of sample_tables 0x8004000000 va')"
    "keeps sample_tables sample_user_phys 0x8004000000" by (simp_all add: sample_user_phys_def)
  show "vm_ok sample_user_phys 0x8004000000" by (rule m(1))
  show "0x800400a000 \<in> data_pages sample_user_phys 0x8004000000" using m(3) sample_data by (auto simp: keeps_def)
  show "pte_of sample_user_phys 0x8004000000 a = 0xA007" if "pg_round_down a = 0x4747E000" "is_user_vaddr a"
    using m(2) same_page_iff [of a "0x4747E000"] that
    by (simp add: is_user_vaddr_def is_kernel_vaddr_def KERN_BASE_def pg_ofs_def PGMASK_def)
qed

lemma sample_user_sel:
  "ph (vm sample_user) = sample_user_phys" "pml4 (vm sample_user) = 0x8004000000" "fsys_of sample_user = sample_fsys"
  "fd_table sample_user 2 = 0x100" "files_of sample_user 0x100 = Some \<lparr>f_inode = 0x1000, f_pos = 900, deny_write = False, dup_count = 2\<rparr>"
  "\<not> filesys_lock sample_user" "mem (vm sample_user)" "spt_tab (vm sample_user) = sample_user_spt" "pages (vm sample_user) 0x10 = Some sample_page"
  by (simp_all add: sample_user_def sample_proc_def sample_vmst_def)

lemma sample_user_find: "pg_round_down a = 0x4747E000 \<Longrightarrow> spt_find_page sample_user_spt (pg_round_down a) = ret 0x10"
proof -
  assume a: "pg_round_down a = 0x4747E000"
  have "unat (h_elem_cnt empty_spt) < 2 ^ 64 - 1" "(0x10 :: ptr) \<noteq> NULL" by (simp_all add: empty_spt_wf(3))
  note p = this
  obtain h' where h': "spt_insert_page True True empty_spt 0x10 0x4747E000 = ret (spt_map empty_spt 0x4747E000 = None, h')" "spt_wf h'"
    "spt_map h' = (if spt_map empty_spt 0x4747E000 = None then (spt_map empty_spt)(0x4747E000 \<mapsto> 0x10) else spt_map empty_spt)"
    by (rule spt_insert_map [OF empty_spt_wf(1) p])
  have "pg_round_down 0x4747E000 = 0x4747E000" by (simp add: pg_round_down_def PGMASK_def)
  then show ?thesis using h' spt_find_map [OF h'(2), of "pg_round_down a"] by (simp add: sample_user_spt_def a empty_spt_wf(2))
qed

lemma sample_user_addr:
  assumes "i < 0x200"
  shows "is_user_vaddr (0x4747E000 + of_nat i)" "pg_round_down (0x4747E000 + of_nat i) = 0x4747E000" "pg_ofs (0x4747E000 + of_nat i) = of_nat i"
proof -
  have u: "unat (0x4747E000 + of_nat i :: ptr) = 1195892736 + i" using assms by (simp add: unat_word_ariths unat_of_nat_u64)
  then show "is_user_vaddr (0x4747E000 + of_nat i)" using assms by (simp add: user_bound)
  have e: "1195892736 + i = i + 4096 * 291966" by simp
  have "(1195892736 + i) div 4096 = 291966" "(1195892736 + i) mod 4096 = i"
    unfolding e using assms by (simp_all only: div_mult_self2 mod_mult_self2 mod_less div_less)
  then show "pg_round_down (0x4747E000 + of_nat i) = 0x4747E000" "pg_ofs (0x4747E000 + of_nat i) = of_nat i"
    using u assms by (simp_all only: word_unat_eq_iff unat_round_down unat_pg_ofs) (simp_all add: unat_of_nat_u64)
qed

lemma sample_user_mapped:
  assumes "i < 0x200"
  shows "mapped sample_user_phys 0x8004000000 (0x4747E000 + of_nat i)" "leads sample_user_phys 0x8004000000 (0x4747E000 + of_nat i) = 0x800400a000 + of_nat i"
    "pte_of sample_user_phys 0x8004000000 (0x4747E000 + of_nat i) = 0xA007"
proof -
  show e: "pte_of sample_user_phys 0x8004000000 (0x4747E000 + of_nat i) = 0xA007"
    by (rule sample_user_phys_ok(3)) (rule sample_user_addr [OF assms])+
  have "PTE_ADDR 0xA007 = 0xA000" "(0xA007 :: u64) AND PTE_P \<noteq> 0" "ptov 0xA000 = 0x800400a000" by (simp_all add: PTE_ADDR_def PTE_P_def ptov_def KERN_BASE_def)
  then show "mapped sample_user_phys 0x8004000000 (0x4747E000 + of_nat i)" "leads sample_user_phys 0x8004000000 (0x4747E000 + of_nat i) = 0x800400a000 + of_nat i"
    using e sample_user_addr [OF assms] sample_user_phys_ok(2) by (simp_all add: mapped_def leads_def)
qed

lemma less_3: "i < 3 \<Longrightarrow> i = 0 \<or> i = 1 \<or> i = 2" for i :: nat
  by linarith

lemma sample_buffers: "in_memory (vm sample_user) 0x4747E000 3" "may_write (vm sample_user) 0x4747E100 3"
proof -
  have e: "(0x4747E100 :: ptr) + of_nat i = 0x4747E000 + of_nat (256 + i)" for i by simp
  show "in_memory (vm sample_user) 0x4747E000 3" using sample_user_mapped(1) by (simp add: in_memory_def sample_user_sel)
  have "pte_of sample_user_phys 0x8004000000 (0x4747E100 + of_nat i) AND PTE_W \<noteq> 0"
    "pg_round_down (0x4747E100 + of_nat i) = 0x4747E000" "mapped sample_user_phys 0x8004000000 (0x4747E100 + of_nat i)" if "i < 3" for i
    unfolding e using that sample_user_mapped [of "256 + i"] sample_user_addr [of "256 + i"] by (simp_all add: PTE_W_def del: of_nat_add)
  moreover have "leads sample_user_phys 0x8004000000 (0x4747E100 + of_nat i) \<noteq> leads sample_user_phys 0x8004000000 (0x4747E100 + of_nat j)"
    if "i < 3" "j < 3" "i \<noteq> j" for i j :: nat
  proof -
    have "(of_nat i :: ptr) \<noteq> of_nat j" using less_3 [OF that(1)] less_3 [OF that(2)] that(3) by auto
    then show ?thesis unfolding e using that sample_user_mapped(2) [of "256 + i"] sample_user_mapped(2) [of "256 + j"] by simp
  qed
  moreover have "spt_find_page sample_user_spt 0x4747E000 = ret 0x10"
    using sample_user_find [of "0x4747E000"] sample_user_addr(2) [of 0] by simp
  ultimately show "may_write (vm sample_user) 0x4747E100 3"
    unfolding may_write_def in_memory_def sample_user_sel(1,2,8) using sample_user_sel(9) by simp
qed

theorem checked_buffer_is_user_witness:
  "check_read_buffer sample_user 0x4747E000 3 = returnS () sample_user \<and> is_user_vaddr 0x4747E002"
proof -
  have c: "check_read_buffer sample_user 0x4747E000 3 = returnS () sample_user"
    using check_read_ok(2) [of sample_user "0x4747E000" 3] sample_buffers(1) sample_user_phys_ok(1) by (simp add: sample_user_sel)
  then show ?thesis using checked_buffer_is_user [of sample_user "0x4747E000" 3 sample_user] by (auto dest!: spec [of _ 2])
qed


section \<open>Observations\<close>

text \<open>The calls that end the process while it holds \<open>filesys_lock\<close>, so that no process uses the file system any more.\<close>

lemma sys_create_exits_locked:
  assumes "\<not> filesys_lock s" "\<not> is_user_vaddr p"
  shows "\<exists>s'. sys_create al junk s p n = ret (Exit (- 1), s') \<and> filesys_lock s'"
  using assms by (simp add: sys_create_def lock_acquire_fs_def check_address_def sys_exit_def)

text \<open>A write to a descriptor that \<open>dup2\<close> made a copy of standard input uses the number 1 as the address of a file.\<close>

lemma sys_write_stdin_copy_faults:
  assumes "check_read_buffer s b n = returnS () s'" "2 \<le> fd" "fd < MAX_FD" "fd_table s' fd = STDIN"
    "files_of s' STDIN = None" "dirs s' STDIN = None" "\<not> filesys_lock s'"
  shows "sys_write s fd b n = fail Null_deref"
  using assms by (simp add: sys_write_def fd_slot_def process_get_file_def lock_acquire_fs_def as_file_def)

text \<open>Every \<open>readdir\<close> starts at the first entry again, whatever the position of the descriptor is.\<close>

lemma sys_readdir_restarts:
  assumes "2 \<le> fd" "fd < MAX_FD" "as_file s (fd_table s fd) = ret f" "is_file_dir (fsys_of s) f = ret True" "f_inode f \<noteq> NULL" "mem (vm s)"
  shows "sys_readdir s fd name = readdir_skip (set_fsys s (fsys_of s)) \<lparr>dir_inode = f_inode f, dir_pos = 0\<rparr> name"
  using assms by (simp add: sys_readdir_def fd_slot_def file_to_dir_def dir_open_def the_dir_def)

text \<open>The number of a descriptor is not bounded from above here.\<close>

lemma unbounded_descriptor: "MAX_FD \<le> fd \<Longrightarrow> sys_inumber s fd = fail Out_of_bounds \<and> sys_isdir s fd = fail Out_of_bounds"
  by (simp add: sys_inumber_def sys_isdir_def fd_slot_def MAX_FD_def)

end
