(* ===== verification/Args.thy ===== *)
theory Args
  imports Syscall
begin

unbundle bit_operations_syntax

text \<open>
  The arguments of a program (\<open>parse_args\<close> and the end of \<open>load\<close> in \<open>userprog/process.c\<close>): the command line is
  split at its spaces, and the strings, the array of their addresses and a return address are pushed on
  the stack of the new program. The lemmas show that the program finds \<open>argc\<close> and \<open>argv\<close> as the C calling
  convention promises them.
\<close>

section \<open>Splitting the command line\<close>

definition SPACE :: u8 where "SPACE = 32"

text \<open>\<open>delim\<close> is the address of the string \<open>" "\<close>; the loop is that of \<open>parse_path\<close>, with an array of \<open>MAX_ARGS\<close> pointers.\<close>

definition MAX_ARGS :: nat where "MAX_ARGS = 128"

definition parse_args :: "u8 list \<Rightarrow> nat \<Rightarrow> nat \<Rightarrow> (nat list \<times> u8 list) exec" where
  "parse_args m target delim =
     bindE (strtok_r m (Some target) delim 0) (\<lambda>(token, save_ptr, m). parse_loop m token delim save_ptr [])"

text \<open>The words of a command line, and the name \<open>load\<close> opens: the text up to the end of the first word.\<close>

definition command_words :: "u8 list \<Rightarrow> (u8 list \<times> u8 list list) exec" where
  "command_words line =
     bindE (parse_args (line @ [0, SPACE, 0]) 0 (length line + 1)) (\<lambda>(argv, m).
     ret (cstr m, map (\<lambda>p. cstr (drop p m)) argv))"

section \<open>The stack of a new program\<close>

definition u64_bytes :: "u64 \<Rightarrow> u8 list" where
  "u64_bytes w = map (\<lambda>k. ucast (drop_bit (8 * k) w)) [0..<8]"

record regs =
  rip :: u64
  rsp :: u64
  rdi :: u64
  rsi :: u64

text \<open>The strings, from the last to the first; \<open>arr\<close> is the part of \<open>rsp_arr\<close> that is filled.\<close>

fun push_strings :: "vmst \<Rightarrow> u64 \<Rightarrow> u8 list list \<Rightarrow> u64 list \<Rightarrow> (u64 list \<times> u64 \<times> vmst) exec" where
  "push_strings v sp [] arr = ret (arr, sp, v)"
| "push_strings v sp (w # ws) arr =
     (let sp = sp - of_nat (length w + 1) in
      bindE (user_store (w @ [0]) v sp) (\<lambda>v. push_strings v sp ws (sp # arr)))"

partial_function (option) align_stack :: "vmst \<Rightarrow> u64 \<Rightarrow> (u64 \<times> vmst) exec" where
  "align_stack v sp =
     (if sp mod 8 \<noteq> 0 then let sp = sp - 1 in bindE (user_store [0] v sp) (\<lambda>v. align_stack v sp) else ret (sp, v))"

fun push_words :: "vmst \<Rightarrow> u64 \<Rightarrow> u64 list \<Rightarrow> (u64 \<times> vmst) exec" where
  "push_words v sp [] = ret (sp, v)"
| "push_words v sp (w # ws) = (let sp = sp - 8 in bindE (user_store (u64_bytes w) v sp) (\<lambda>v. push_words v sp ws))"

definition pass_arguments :: "vmst \<Rightarrow> regs \<Rightarrow> u8 list list \<Rightarrow> (regs \<times> vmst) exec" where
  "pass_arguments v r argv =
     bindE (push_strings v (rsp r) (rev argv) []) (\<lambda>(rsp_arr, sp, v).
     bindE (align_stack v sp) (\<lambda>(sp, v).
     bindE (user_store (replicate 8 0) v (sp - 8)) (\<lambda>v.
     bindE (push_words v (sp - 8) (rev rsp_arr)) (\<lambda>(sp, v).
     bindE (user_store (replicate 8 0) v (sp - 8)) (\<lambda>v.
     let sp = sp - 8 in
     ret (r\<lparr>rsp := sp, rdi := of_nat (length argv), rsi := sp + 8\<rparr>, v))))))"

section \<open>The words\<close>

lemma command_words_eq:
  assumes "0 \<notin> set line"
  shows "if length (words {SPACE} line) < MAX_ARGS
    then \<exists>name. command_words line = ret (name, words {SPACE} line)
    else command_words line = fail Out_of_bounds"
proof -
  let ?m = "line @ [0, SPACE, 0]" and ?d = "length line + 1"
  have d: "string_at ?m ?d [SPACE]" using string_at_append [of "[SPACE]" "line @ [0]" "[]"] by (simp add: SPACE_def)
  have p: "string_at ?m 0 line" using string_at_append [of line "[]" "[SPACE, 0]"] assms by simp
  from strtok_r_inv [OF d p, of 0] obtain tk sv m where
    i: "strtok_r ?m (Some 0) ?d 0 = ret (tk, sv, m)" "parse_inv SPACE m tk ?d sv (words {SPACE} line)" by auto
  show ?thesis
  proof (cases "length (words {SPACE} line) < 128")
    case True
    with parse_loop_ok [OF i(2), of "[]"] obtain argv m' where
      r: "parse_loop m tk ?d sv [] = ret (argv, m')" "list_all2 (string_at m') argv (words {SPACE} line)" by auto
    from r(2) have "map (\<lambda>p. cstr (drop p m')) argv = words {SPACE} line" by (induction) (auto simp: string_at_cstr)
    then show ?thesis using True i(1) r(1) by (simp add: command_words_def parse_args_def MAX_ARGS_def)
  next
    case False
    then show ?thesis using parse_loop_overflow [OF i(2), of "[]"] i(1) by (simp add: command_words_def parse_args_def MAX_ARGS_def)
  qed
qed

section \<open>A page of user memory\<close>

definition user_frame :: "vmst \<Rightarrow> ptr \<Rightarrow> bool" where
  "user_frame v p \<longleftrightarrow> vm_ok (ph v) (pml4 v) \<and> pg_ofs p = 0 \<and> mapped (ph v) (pml4 v) p"

text \<open>The byte at an offset of the page.\<close>

definition page_byte :: "vmst \<Rightarrow> ptr \<Rightarrow> nat \<Rightarrow> u8" where
  "page_byte v p k = user_byte (ph v) (pml4 v) (p + of_nat k)"

lemma in_page:
  assumes "pg_ofs p = 0" "is_user_vaddr p" "k < 4096"
  shows "is_user_vaddr (p + of_nat k)" "pg_round_down (p + of_nat k) = p" "pg_ofs (p + of_nat k) = of_nat k"
proof -
  have al: "unat p mod 4096 = 0" using assms(1) unat_pg_ofs [of p] by simp
  have u: "unat (p + of_nat k) = unat p + k" using assms(2,3) by (simp add: user_bound unat_word_ariths unat_of_nat_u64)
  have dv: "(unat p + k) div 4096 = unat p div 4096" "(unat p + k) mod 4096 = k" using al assms(3) by (auto simp: mod_eq_0_iff_dvd elim!: dvdE)
  have "4096 * (unat p div 4096) = unat p" using al by auto
  then show "pg_round_down (p + of_nat k) = p" "pg_ofs (p + of_nat k) = of_nat k"
    using u dv assms(3) by (simp_all only: word_unat_eq_iff unat_round_down unat_pg_ofs) (simp add: unat_of_nat_u64)
  have "unat p div 4096 < 134234112" using assms(2) al by (auto simp: user_bound)
  then have "unat p \<le> 549822918656" using \<open>4096 * (unat p div 4096) = unat p\<close> by linarith
  then show "is_user_vaddr (p + of_nat k)" using u assms(3) by (simp add: user_bound)
qed

lemma user_frame_props:
  assumes f: "user_frame v p" and k: "k < 4096"
  shows "mapped (ph v) (pml4 v) (p + of_nat k)" "leads (ph v) (pml4 v) (p + of_nat k) = leads (ph v) (pml4 v) p + of_nat k"
proof -
  have p: "pg_ofs p = 0" "is_user_vaddr p" using f by (auto simp: user_frame_def mapped_def)
  have e: "pte_of (ph v) (pml4 v) (p + of_nat k) = pte_of (ph v) (pml4 v) p"
    using pte_round_down [of "p + of_nat k" "ph v" "pml4 v"] in_page [OF p k] by simp
  show "mapped (ph v) (pml4 v) (p + of_nat k)" using f e in_page [OF p k] by (simp add: user_frame_def mapped_def)
  show "leads (ph v) (pml4 v) (p + of_nat k) = leads (ph v) (pml4 v) p + of_nat k" using e in_page [OF p k] p by (simp add: leads_def)
qed

lemma leads_distinct:
  assumes "user_frame v p" "j < 4096" "k < 4096" "j \<noteq> k"
  shows "leads (ph v) (pml4 v) (p + of_nat j) \<noteq> leads (ph v) (pml4 v) (p + of_nat k)"
proof -
  have "(of_nat j :: u64) \<noteq> of_nat k" using assms(2-4) unat_of_nat_u64 [of j] unat_of_nat_u64 [of k] by fastforce
  then show ?thesis using assms user_frame_props(2) [OF assms(1)] by simp
qed

text \<open>Storing inside the page.\<close>

lemma frame_store:
  assumes f: "user_frame v p" and k: "k + length bs \<le> 4096"
  obtains m where "user_store bs v (p + of_nat k) = ret (v\<lparr>ph := m\<rparr>)" "user_frame (v\<lparr>ph := m\<rparr>) p"
    "\<And>j. j < 4096 \<Longrightarrow> page_byte (v\<lparr>ph := m\<rparr>) p j = (if k \<le> j \<and> j < k + length bs then bs ! (j - k) else page_byte v p j)"
proof -
  have a: "p + of_nat k + of_nat i = p + of_nat (k + i)" for i by (simp add: add.assoc)
  have ok: "vm_ok (ph v) (pml4 v)" using f by (simp add: user_frame_def)
  have "\<exists>m. user_store bs v (p + of_nat k) = ret (v\<lparr>ph := m\<rparr>) \<and> same_map (ph v) m (pml4 v) \<and> user_bytes m (pml4 v) (p + of_nat k) (length bs) = bs \<and>
    (\<forall>x. mapped (ph v) (pml4 v) x \<and> (\<forall>i < length bs. leads (ph v) (pml4 v) x \<noteq> leads (ph v) (pml4 v) (p + of_nat k + of_nat i)) \<longrightarrow>
      user_byte m (pml4 v) x = user_byte (ph v) (pml4 v) x)"
    using k by (intro user_store_mapped [OF ok]; unfold a) (intro user_frame_props(1) [OF f] leads_distinct [OF f]; simp)+
  then obtain m where m: "user_store bs v (p + of_nat k) = ret (v\<lparr>ph := m\<rparr>)" "same_map (ph v) m (pml4 v)"
    "user_bytes m (pml4 v) (p + of_nat k) (length bs) = bs"
    and other: "\<And>x. mapped (ph v) (pml4 v) x \<Longrightarrow> (\<And>i. i < length bs \<Longrightarrow> leads (ph v) (pml4 v) x \<noteq> leads (ph v) (pml4 v) (p + of_nat (k + i))) \<Longrightarrow>
      user_byte m (pml4 v) x = user_byte (ph v) (pml4 v) x" unfolding a by blast
  show thesis
  proof (rule that [OF m(1)])
    show "user_frame (v\<lparr>ph := m\<rparr>) p" using f m(2) same_map_mapped [OF m(2)] by (simp add: user_frame_def same_map_def)
    fix j :: nat assume j: "j < 4096"
    show "page_byte (v\<lparr>ph := m\<rparr>) p j = (if k \<le> j \<and> j < k + length bs then bs ! (j - k) else page_byte v p j)"
    proof (cases "k \<le> j \<and> j < k + length bs")
      case True
      then have "user_bytes m (pml4 v) (p + of_nat k) (length bs) ! (j - k) = user_byte m (pml4 v) (p + of_nat j)"
        by (auto simp: user_bytes_def a simp del: of_nat_add of_nat_diff)
      then show ?thesis using True m(3) by (simp add: page_byte_def)
    next
      case False
      have "user_byte m (pml4 v) (p + of_nat j) = user_byte (ph v) (pml4 v) (p + of_nat j)"
        using False j k by (intro other user_frame_props(1) [OF f] leads_distinct [OF f]) auto
      then show ?thesis using False by (auto simp: page_byte_def)
    qed
  qed
qed


section \<open>The layout\<close>

text \<open>The bytes \<open>bs\<close> lie at an offset of the page.\<close>

definition bytes_at :: "vmst \<Rightarrow> ptr \<Rightarrow> nat \<Rightarrow> u8 list \<Rightarrow> bool" where
  "bytes_at v p k bs \<longleftrightarrow> k + length bs \<le> 4096 \<and> (\<forall>j < length bs. page_byte v p (k + j) = bs ! j)"

text \<open>Nothing changes from the offset \<open>k\<close> on.\<close>

definition kept :: "vmst \<Rightarrow> vmst \<Rightarrow> ptr \<Rightarrow> nat \<Rightarrow> bool" where
  "kept v v' p k \<longleftrightarrow> (\<forall>j. k \<le> j \<and> j < 4096 \<longrightarrow> page_byte v' p j = page_byte v p j)"

lemma kept_trans: "kept v v' p k \<Longrightarrow> kept v' v'' p k' \<Longrightarrow> k' \<le> k \<Longrightarrow> kept v v'' p k"
  by (auto simp: kept_def)

lemma bytes_at_kept: "bytes_at v p a bs \<Longrightarrow> kept v v' p k \<Longrightarrow> k \<le> a \<Longrightarrow> bytes_at v' p a bs"
  by (auto simp: bytes_at_def kept_def)

text \<open>One push: the bytes are stored below the stack pointer.\<close>

lemma push_bytes:
  assumes f: "user_frame v p" and k: "length bs \<le> k" "k \<le> 4096"
  obtains m where "user_store bs v (p + of_nat (k - length bs)) = ret (v\<lparr>ph := m\<rparr>)" "user_frame (v\<lparr>ph := m\<rparr>) p"
    "kept v (v\<lparr>ph := m\<rparr>) p k" "bytes_at (v\<lparr>ph := m\<rparr>) p (k - length bs) bs"
proof -
  obtain m where m: "user_store bs v (p + of_nat (k - length bs)) = ret (v\<lparr>ph := m\<rparr>)" "user_frame (v\<lparr>ph := m\<rparr>) p"
    "\<And>j. j < 4096 \<Longrightarrow> page_byte (v\<lparr>ph := m\<rparr>) p j = (if k - length bs \<le> j \<and> j < k - length bs + length bs then bs ! (j - (k - length bs)) else page_byte v p j)"
    by (rule frame_store [OF f, of "k - length bs" bs]) (use k in auto)
  show thesis
  proof (rule that [OF m(1,2)])
    show "kept v (v\<lparr>ph := m\<rparr>) p k" using m(3) k by (auto simp: kept_def)
    show "bytes_at (v\<lparr>ph := m\<rparr>) p (k - length bs) bs" using m(3) k by (auto simp: bytes_at_def)
  qed
qed

definition strings_size :: "u8 list list \<Rightarrow> nat" where
  "strings_size ws = sum_list (map (\<lambda>w. length w + 1) ws)"

lemma strings_size_simps [simp]: "strings_size [] = 0" "strings_size (w # ws) = length w + 1 + strings_size ws" "strings_size (rev ws) = strings_size ws"
  by (simp_all add: strings_size_def rev_map [symmetric] sum_list_rev)

lemma ph_ph: "v\<lparr>ph := a, ph := b\<rparr> = v\<lparr>ph := b\<rparr>" for v :: vmst
  by simp

lemma push_strings_ok:
  assumes "user_frame v p" "strings_size ws \<le> k" "k \<le> 4096"
  shows "\<exists>m offs. push_strings v (p + of_nat k) ws arr = ret (map (\<lambda>a. p + of_nat a) (rev offs) @ arr, p + of_nat (k - strings_size ws), v\<lparr>ph := m\<rparr>) \<and>
    user_frame (v\<lparr>ph := m\<rparr>) p \<and> kept v (v\<lparr>ph := m\<rparr>) p k \<and>
    list_all2 (\<lambda>a w. k - strings_size ws \<le> a \<and> bytes_at (v\<lparr>ph := m\<rparr>) p a (w @ [0])) offs ws"
  using assms
proof (induction ws arbitrary: v k arr)
  case Nil
  then show ?case by (intro exI [of _ "ph v"] exI [of _ "[]"]) (simp add: kept_def)
next
  case (Cons w ws)
  let ?k = "k - (length w + 1)"
  have l: "length (w @ [0]) = length w + 1" by simp
  have k: "length (w @ [0]) \<le> k" "k \<le> 4096" using Cons.prems(2,3) by simp_all
  obtain m1 where m1: "user_store (w @ [0]) v (p + of_nat ?k) = ret (v\<lparr>ph := m1\<rparr>)" "user_frame (v\<lparr>ph := m1\<rparr>) p"
    "kept v (v\<lparr>ph := m1\<rparr>) p k" "bytes_at (v\<lparr>ph := m1\<rparr>) p ?k (w @ [0])"
    by (rule push_bytes [OF Cons.prems(1) k, unfolded l])
  have e: "p + of_nat k - of_nat (length w + 1) = p + of_nat ?k" using k(1) by (simp add: of_nat_diff)
  have k': "strings_size ws \<le> ?k" "?k \<le> 4096" using Cons.prems by simp_all
  from Cons.IH [OF m1(2) k', of "(p + of_nat ?k) # arr"] obtain m offs where
    m: "push_strings (v\<lparr>ph := m1\<rparr>) (p + of_nat ?k) ws ((p + of_nat ?k) # arr) =
        ret (map (\<lambda>a. p + of_nat a) (rev offs) @ (p + of_nat ?k) # arr, p + of_nat (?k - strings_size ws), v\<lparr>ph := m\<rparr>)"
      "user_frame (v\<lparr>ph := m\<rparr>) p" "kept (v\<lparr>ph := m1\<rparr>) (v\<lparr>ph := m\<rparr>) p ?k"
      "list_all2 (\<lambda>a w. ?k - strings_size ws \<le> a \<and> bytes_at (v\<lparr>ph := m\<rparr>) p a (w @ [0])) offs ws"
    unfolding ph_ph by blast
  have "push_strings v (p + of_nat k) (w # ws) arr =
      ret (map (\<lambda>a. p + of_nat a) (rev (?k # offs)) @ arr, p + of_nat (k - strings_size (w # ws)), v\<lparr>ph := m\<rparr>)"
    by (simp only: push_strings.simps Let_def e m1(1) m(1) bindE_simps) simp
  moreover have "kept v (v\<lparr>ph := m\<rparr>) p k" using kept_trans [OF m1(3) m(3)] by simp
  moreover have "bytes_at (v\<lparr>ph := m\<rparr>) p ?k (w @ [0])" using bytes_at_kept [OF m1(4) m(3)] by simp
  ultimately show ?case using m(2,4) by (intro exI [of _ m] exI [of _ "?k # offs"]) simp
qed

lemma align_stack_ok:
  assumes f: "user_frame v p" and "k \<le> 4096"
  shows "\<exists>m. align_stack v (p + of_nat k) = ret (p + of_nat (k - k mod 8), v\<lparr>ph := m\<rparr>) \<and> user_frame (v\<lparr>ph := m\<rparr>) p \<and> kept v (v\<lparr>ph := m\<rparr>) p k"
proof -
  have p: "unat p mod 4096 = 0" "unat p < 549822922752" using f unat_pg_ofs [of p] by (auto simp: user_frame_def mapped_def user_bound)
  from p(1) obtain q where q: "unat p = 8 * (512 * q)" by (auto simp: mod_eq_0_iff_dvd elim!: dvdE)
  have md: "(p + of_nat k) mod 8 = 0 \<longleftrightarrow> k mod 8 = 0" if "k \<le> 4096" for k
  proof -
    have "unat (p + of_nat k) = 8 * (512 * q) + k" using that p(2) q by (simp add: unat_word_ariths unat_of_nat_u64)
    then have "unat ((p + of_nat k) mod 8) = k mod 8" using mod_mult_self4 [of 8 "512 * q" k] by (simp only: unat_mod) simp
    then show ?thesis by (metis unat_eq_0)
  qed
  show ?thesis using assms
  proof (induction "k mod 8" arbitrary: k v)
    case 0
    then show ?case using md [of k] by (subst align_stack.simps) (auto simp: kept_def intro!: exI [of _ "ph v"])
  next
    case (Suc n)
    have "k \<noteq> 0" using Suc.hyps(2) by (metis mod_0 nat.simps(3))
    then have k: "length [0 :: u8] \<le> k" "k \<le> 4096" using Suc.prems by simp_all
    obtain m1 where m1: "user_store [0] v (p + of_nat (k - length [0 :: u8])) = ret (v\<lparr>ph := m1\<rparr>)" "user_frame (v\<lparr>ph := m1\<rparr>) p"
      "kept v (v\<lparr>ph := m1\<rparr>) p k" "bytes_at (v\<lparr>ph := m1\<rparr>) p (k - length [0 :: u8]) [0]"
      by (rule push_bytes [OF Suc.prems(1) k])
    have "(k - 1) mod 8 = n" using Suc.hyps(2) \<open>k \<noteq> 0\<close> by (cases k) (auto simp: mod_Suc split: if_splits)
    then have k8: "(k - 1) mod 8 = n" "k - 1 - (k - 1) mod 8 = k - k mod 8" using Suc.hyps(2) by simp_all
    have e: "p + of_nat k - 1 = p + of_nat (k - 1)" using k(1) by (simp add: of_nat_diff)
    have k': "k - 1 \<le> 4096" using k(2) by simp
    from Suc.hyps(1) [OF k8(1) [symmetric] m1(2) k'] obtain m where
      m: "align_stack (v\<lparr>ph := m1\<rparr>) (p + of_nat (k - 1)) = ret (p + of_nat (k - k mod 8), v\<lparr>ph := m\<rparr>)" "user_frame (v\<lparr>ph := m\<rparr>) p"
        "kept (v\<lparr>ph := m1\<rparr>) (v\<lparr>ph := m\<rparr>) p (k - 1)" unfolding ph_ph k8(2) by blast
    have "align_stack v (p + of_nat k) = ret (p + of_nat (k - k mod 8), v\<lparr>ph := m\<rparr>)"
    proof -
      have n0: "(p + of_nat k) mod 8 \<noteq> 0" using md [OF k(2)] Suc.hyps(2) by simp
      have st: "user_store [0] v (p + of_nat (k - 1)) = ret (v\<lparr>ph := m1\<rparr>)" using m1(1) by (simp del: user_store.simps of_nat_diff)
      show ?thesis by (subst align_stack.simps) (simp only: n0 if_True Let_def e st m(1) bindE_simps not_False_eq_True)
    qed
    then show ?case using m(2) kept_trans [OF m1(3) m(3)] by (intro exI [of _ m]) simp
  qed
qed

lemma length_u64_bytes [simp]: "length (u64_bytes w) = 8"
  by (simp add: u64_bytes_def)

lemma push_words_ok:
  assumes "user_frame v p" "8 * length ws \<le> k" "k \<le> 4096"
  shows "\<exists>m. push_words v (p + of_nat k) ws = ret (p + of_nat (k - 8 * length ws), v\<lparr>ph := m\<rparr>) \<and> user_frame (v\<lparr>ph := m\<rparr>) p \<and>
    kept v (v\<lparr>ph := m\<rparr>) p k \<and> (\<forall>i < length ws. bytes_at (v\<lparr>ph := m\<rparr>) p (k - 8 * Suc i) (u64_bytes (ws ! i)))"
  using assms
proof (induction ws arbitrary: v k)
  case Nil
  then show ?case by (intro exI [of _ "ph v"]) (simp add: kept_def)
next
  case (Cons w ws)
  have k: "length (u64_bytes w) \<le> k" "k \<le> 4096" using Cons.prems(2,3) by simp_all
  obtain m1 where m1: "user_store (u64_bytes w) v (p + of_nat (k - 8)) = ret (v\<lparr>ph := m1\<rparr>)" "user_frame (v\<lparr>ph := m1\<rparr>) p"
    "kept v (v\<lparr>ph := m1\<rparr>) p k" "bytes_at (v\<lparr>ph := m1\<rparr>) p (k - 8) (u64_bytes w)"
    by (rule push_bytes [OF Cons.prems(1) k, unfolded length_u64_bytes])
  have e: "p + of_nat k - 8 = p + of_nat (k - 8)" using k(1) by (simp add: of_nat_diff)
  have k': "8 * length ws \<le> k - 8" "k - 8 \<le> 4096" using Cons.prems by simp_all
  from Cons.IH [OF m1(2) k'] obtain m where
    m: "push_words (v\<lparr>ph := m1\<rparr>) (p + of_nat (k - 8)) ws = ret (p + of_nat (k - 8 - 8 * length ws), v\<lparr>ph := m\<rparr>)" "user_frame (v\<lparr>ph := m\<rparr>) p"
      "kept (v\<lparr>ph := m1\<rparr>) (v\<lparr>ph := m\<rparr>) p (k - 8)" "\<forall>i < length ws. bytes_at (v\<lparr>ph := m\<rparr>) p (k - 8 - 8 * Suc i) (u64_bytes (ws ! i))" unfolding ph_ph by blast
  have "push_words v (p + of_nat k) (w # ws) = ret (p + of_nat (k - 8 * length (w # ws)), v\<lparr>ph := m\<rparr>)"
    by (simp only: push_words.simps Let_def e m1(1) m(1) bindE_simps) simp
  moreover have "bytes_at (v\<lparr>ph := m\<rparr>) p (k - 8 * Suc i) (u64_bytes ((w # ws) ! i))" if "i < length (w # ws)" for i
    using that m(4) bytes_at_kept [OF m1(4) m(3)] by (cases i) auto
  moreover have "kept v (v\<lparr>ph := m\<rparr>) p k" using kept_trans [OF m1(3) m(3)] by simp
  ultimately show ?case using m(2) by blast
qed


text \<open>
  C9. A program starts as the C calling convention promises. When the strings, at most seven bytes of
  padding, the array of pointers and the return address fit into the page of the stack, \<open>load\<close> ends with
  \<open>rdi\<close> the number of arguments and \<open>rsi\<close> the address of an array, aligned to 8 and directly above the
  return address at \<open>rsp\<close>, whose first elements point to the arguments in order, each a string closed by a
  zero, and whose last element is the null pointer; the return address is zero, and everything lies in
  the page.
\<close>

theorem pass_arguments_correct:
  assumes f: "user_frame v p" and r: "rsp r = p + 4096"
    and fits: "strings_size argv + 7 + 8 * (length argv + 2) \<le> 4096"
  shows "\<exists>v' sp ptrs. pass_arguments v r argv = ret (r\<lparr>rsp := p + of_nat sp, rdi := of_nat (length argv), rsi := p + of_nat (sp + 8)\<rparr>, v') \<and>
    user_frame v' p \<and> sp mod 8 = 0 \<and> sp + 8 * (length argv + 2) \<le> 4096 \<and> bytes_at v' p sp (replicate 8 0) \<and>
    length ptrs = length argv \<and>
    (\<forall>i < length argv. bytes_at v' p (sp + 8 + 8 * i) (u64_bytes (p + of_nat (ptrs ! i))) \<and> bytes_at v' p (ptrs ! i) (argv ! i @ [0])) \<and>
    bytes_at v' p (sp + 8 + 8 * length argv) (replicate 8 0)"
proof -
  let ?n = "length argv" and ?S = "strings_size argv"
  define a where "a = 4096 - ?S"
  define b where "b = a - a mod 8"
  have r': "rsp r = p + of_nat 4096" using r by simp
  have S: "strings_size (rev argv) \<le> 4096" using fits by simp
  from push_strings_ok [OF f S order_refl, of "[]"] obtain m1 offs where
    m1: "push_strings v (p + of_nat 4096) (rev argv) [] = ret (map (\<lambda>a. p + of_nat a) (rev offs), p + of_nat a, v\<lparr>ph := m1\<rparr>)" "user_frame (v\<lparr>ph := m1\<rparr>) p"
      "list_all2 (\<lambda>x w. a \<le> x \<and> bytes_at (v\<lparr>ph := m1\<rparr>) p x (w @ [0])) offs (rev argv)" by (auto simp: a_def)
  have a: "a \<le> 4096" by (simp add: a_def)
  from align_stack_ok [OF m1(2) a] obtain m2 where m2: "align_stack (v\<lparr>ph := m1\<rparr>) (p + of_nat a) = ret (p + of_nat b, v\<lparr>ph := m2\<rparr>)"
    "user_frame (v\<lparr>ph := m2\<rparr>) p" "kept (v\<lparr>ph := m1\<rparr>) (v\<lparr>ph := m2\<rparr>) p a" unfolding ph_ph b_def by blast
  have b: "8 * (?n + 2) \<le> b" "b \<le> a" "b mod 8 = 0" using fits by (auto simp: b_def a_def minus_mod_eq_mult_div mult.commute)
  have z: "length (replicate 8 (0 :: u8)) = 8" by simp
  have down: "p + of_nat k - 8 = p + of_nat (k - 8)" if "8 \<le> k" for k using that by (simp add: of_nat_diff)
  obtain m3 where m3: "user_store (replicate 8 0) (v\<lparr>ph := m2\<rparr>) (p + of_nat (b - 8)) = ret (v\<lparr>ph := m3\<rparr>)" "user_frame (v\<lparr>ph := m3\<rparr>) p"
    "kept (v\<lparr>ph := m2\<rparr>) (v\<lparr>ph := m3\<rparr>) p b" "bytes_at (v\<lparr>ph := m3\<rparr>) p (b - 8) (replicate 8 0)"
    by (rule push_bytes [OF m2(2), of "replicate 8 0" b, unfolded z ph_ph]) (use b a in auto)
  let ?w = "map (\<lambda>a. p + of_nat a) offs"
  have lo: "length offs = ?n" using m1(3) by (simp add: list_all2_lengthD)
  have w: "8 * length ?w \<le> b - 8" "b - 8 \<le> 4096" using b a lo by simp_all
  from push_words_ok [OF m3(2) w] obtain m4 where m4: "push_words (v\<lparr>ph := m3\<rparr>) (p + of_nat (b - 8)) ?w = ret (p + of_nat (b - 8 - 8 * length ?w), v\<lparr>ph := m4\<rparr>)"
    "user_frame (v\<lparr>ph := m4\<rparr>) p" "kept (v\<lparr>ph := m3\<rparr>) (v\<lparr>ph := m4\<rparr>) p (b - 8)"
    "\<forall>i < length ?w. bytes_at (v\<lparr>ph := m4\<rparr>) p (b - 8 - 8 * Suc i) (u64_bytes (?w ! i))" unfolding ph_ph by blast
  define c where "c = b - 8 - 8 * ?n"
  have c: "8 \<le> c" "c \<le> 4096" "c = b - 8 - 8 * length ?w" using b a lo by (simp_all add: c_def)
  obtain m5 where m5: "user_store (replicate 8 0) (v\<lparr>ph := m4\<rparr>) (p + of_nat (c - 8)) = ret (v\<lparr>ph := m5\<rparr>)" "user_frame (v\<lparr>ph := m5\<rparr>) p"
    "kept (v\<lparr>ph := m4\<rparr>) (v\<lparr>ph := m5\<rparr>) p c" "bytes_at (v\<lparr>ph := m5\<rparr>) p (c - 8) (replicate 8 0)"
    by (rule push_bytes [OF m4(2), of "replicate 8 0" c, unfolded z ph_ph]) (use c in auto)
  define sp where "sp = c - 8"
  have up: "p + of_nat (c - 8) + 8 = p + of_nat (sp + 8)" by (simp add: sp_def)
  have b8: "8 \<le> b" using b(1) by simp
  have e: "pass_arguments v r argv = ret (r\<lparr>rsp := p + of_nat sp, rdi := of_nat ?n, rsi := p + of_nat (sp + 8)\<rparr>, v\<lparr>ph := m5\<rparr>)"
    unfolding pass_arguments_def r' m1(1) bindE_simps prod.case m2(1) down [OF b8] m3(1) rev_map rev_rev_ident m4(1) c(3) [symmetric] down [OF c(1)] m5(1) Let_def up
    by (simp only: sp_def)
  have k: "kept (v\<lparr>ph := m1\<rparr>) (v\<lparr>ph := m5\<rparr>) p a" "kept (v\<lparr>ph := m3\<rparr>) (v\<lparr>ph := m5\<rparr>) p (b - 8)"
    using kept_trans [OF m2(3) kept_trans [OF m3(3) kept_trans [OF m4(3) m5(3)]]] kept_trans [OF m4(3) m5(3)] b c by (simp_all add: c_def)
  have spc: "sp + 8 = c" "sp + 8 + 8 * ?n = b - 8" using c b by (simp_all add: sp_def c_def)
  have "bytes_at (v\<lparr>ph := m5\<rparr>) p (sp + 8 + 8 * i) (u64_bytes (p + of_nat (rev offs ! i))) \<and> bytes_at (v\<lparr>ph := m5\<rparr>) p (rev offs ! i) (argv ! i @ [0])"
    if i: "i < ?n" for i
  proof
    define j where "j = ?n - Suc i"
    have j: "j < ?n" "rev offs ! i = offs ! j" "b - 8 - 8 * Suc j = sp + 8 + 8 * i"
      using i lo spc b by (simp_all add: j_def rev_nth)
    have "bytes_at (v\<lparr>ph := m4\<rparr>) p (b - 8 - 8 * Suc j) (u64_bytes (?w ! j))" using m4(4) j(1) lo by simp
    then show "bytes_at (v\<lparr>ph := m5\<rparr>) p (sp + 8 + 8 * i) (u64_bytes (p + of_nat (rev offs ! i)))"
      using bytes_at_kept [OF _ m5(3)] j spc lo by simp
    have "argv ! i = rev argv ! j" using i by (simp add: j_def rev_nth)
    moreover have "a \<le> offs ! j \<and> bytes_at (v\<lparr>ph := m1\<rparr>) p (offs ! j) (rev argv ! j @ [0])" using m1(3) j(1) lo by (simp add: list_all2_conv_all_nth)
    ultimately show "bytes_at (v\<lparr>ph := m5\<rparr>) p (rev offs ! i) (argv ! i @ [0])" using bytes_at_kept [OF _ k(1)] j(2) by simp
  qed
  moreover have "bytes_at (v\<lparr>ph := m5\<rparr>) p (sp + 8 + 8 * ?n) (replicate 8 0)" using bytes_at_kept [OF m3(4) k(2)] spc by simp
  moreover have "sp mod 8 = 0"
  proof -
    have "8 dvd b" using b(3) by auto
    then have "8 dvd b - 8 - 8 * ?n - 8" by (intro dvd_diff_nat) auto
    then show ?thesis by (simp add: sp_def c_def)
  qed
  moreover have "sp + 8 * (?n + 2) \<le> 4096" using spc b a by simp
  moreover have "bytes_at (v\<lparr>ph := m5\<rparr>) p sp (replicate 8 0)" using m5(4) by (simp add: sp_def)
  ultimately show ?thesis using e m5(2) lo by (intro exI [of _ "v\<lparr>ph := m5\<rparr>"] exI [of _ sp] exI [of _ "rev offs"]) simp
qed


text \<open>Every command line \<open>process_exec\<close> can hold in its buffer of 128 bytes fits.\<close>

lemma words_size: "sum_list (map length (words D s)) \<le> length s"
proof (induction D s rule: words.induct)
  case (1 D s)
  let ?s = "dropWhile (\<lambda>c. c \<in> D) s"
  show ?case
  proof (cases "?s = []")
    case False
    have "length (takeWhile (\<lambda>c. c \<notin> D) ?s) + length (dropWhile (\<lambda>c. c \<notin> D) ?s) = length ?s"
      by (metis length_append takeWhile_dropWhile_id)
    moreover have "length ?s \<le> length s" by (rule length_dropWhile_le)
    ultimately show ?thesis using 1 [OF refl False] False by (subst words.simps) (simp add: Let_def)
  qed (subst words.simps, simp)
qed

lemma command_line_fits:
  assumes "length line < 128"
  shows "strings_size (words {SPACE} line) + 7 + 8 * (length (words {SPACE} line) + 2) \<le> 4096"
proof -
  have "strings_size ws = sum_list (map length ws) + length ws" for ws by (induction ws) simp_all
  then show ?thesis using words_size [of "{SPACE}" line] length_words [of "{SPACE}" line] assms by simp
qed

theorem pass_arguments_correct_witness:
  "\<exists>v' sp ptrs. pass_arguments (vm sample_user) \<lparr>rip = 0, rsp = 0x4747F000, rdi = 0, rsi = 0\<rparr> [[108, 115], [45, 108]] =
     ret (\<lparr>rip = 0, rsp = 0x4747E000 + of_nat sp, rdi = 2, rsi = 0x4747E000 + of_nat (sp + 8)\<rparr>, v') \<and>
     bytes_at v' 0x4747E000 (sp + 16) (u64_bytes (0x4747E000 + of_nat (ptrs ! 1))) \<and> bytes_at v' 0x4747E000 (ptrs ! 1) [45, 108, 0]"
proof -
  have "pg_ofs 0x4747E000 = 0" by (simp add: pg_ofs_def PGMASK_def)
  then have "user_frame (vm sample_user) 0x4747E000"
    using sample_user_phys_ok(1) sample_user_mapped(1) [of 0] by (simp add: user_frame_def sample_user_sel)
  from pass_arguments_correct [OF this, of "\<lparr>rip = 0, rsp = 0x4747F000, rdi = 0, rsi = 0\<rparr>" "[[108, 115], [45, 108]]"] obtain v' sp ptrs where
    e: "pass_arguments (vm sample_user) \<lparr>rip = 0, rsp = 0x4747F000, rdi = 0, rsi = 0\<rparr> [[108, 115], [45, 108]] =
     ret (\<lparr>rip = 0, rsp = 0x4747E000 + of_nat sp, rdi = 2, rsi = 0x4747E000 + of_nat (sp + 8)\<rparr>, v')"
    and b: "\<forall>i < length [[108, 115], [45, 108 :: u8]]. bytes_at v' 0x4747E000 (sp + 8 + 8 * i) (u64_bytes (0x4747E000 + of_nat (ptrs ! i))) \<and>
      bytes_at v' 0x4747E000 (ptrs ! i) ([[108, 115], [45, 108]] ! i @ [0])" by (simp add: strings_size_def) blast
  have "bytes_at v' 0x4747E000 (sp + 16) (u64_bytes (0x4747E000 + of_nat (ptrs ! 1))) \<and> bytes_at v' 0x4747E000 (ptrs ! 1) [45, 108, 0]"
    using b [rule_format, of 1] by (simp add: add.commute)
  with e show ?thesis by blast
qed

end
