(* ===== verification/Loader.thy ===== *)
theory Loader
  imports Args
begin

unbundle bit_operations_syntax

text \<open>
  Executable files (the ELF part of \<open>userprog/process.c\<close>): the headers, \<open>validate_segment\<close>, \<open>load_segment\<close> and
  \<open>setup_stack\<close> in their versions for virtual memory. The lemmas show which segments are accepted, and
  that a segment becomes exactly the pages it covers, each with the part of the file it will be filled
  from.
\<close>

section \<open>Headers\<close>

definition le16 :: "u8 list \<Rightarrow> nat \<Rightarrow> 16 word" where
  "le16 bs i = ucast (bs ! i) OR push_bit 8 (ucast (bs ! (i + 1)))"

definition le32 :: "u8 list \<Rightarrow> nat \<Rightarrow> u32" where
  "le32 bs i = bytes_u32 (take 4 (drop i bs))"

definition le64 :: "u8 list \<Rightarrow> nat \<Rightarrow> u64" where
  "le64 bs i = ucast (le32 bs i) OR push_bit 32 (ucast (le32 bs (i + 4)))"

record ELF64_hdr =
  e_ident :: "u8 list"
  e_type :: "16 word"
  e_machine :: "16 word"
  e_version :: u32
  e_entry :: u64
  e_phoff :: u64
  e_shoff :: u64
  e_flags :: u32
  e_ehsize :: "16 word"
  e_phentsize :: "16 word"
  e_phnum :: "16 word"
  e_shentsize :: "16 word"
  e_shnum :: "16 word"
  e_shstrndx :: "16 word"

record ELF64_PHDR =
  p_type :: u32
  p_flags :: u32
  p_offset :: u64
  p_vaddr :: u64
  p_paddr :: u64
  p_filesz :: u64
  p_memsz :: u64
  p_align :: u64

text \<open>The headers as they lie in the file: 64 and 56 bytes.\<close>

definition bytes_ehdr :: "u8 list \<Rightarrow> ELF64_hdr" where
  "bytes_ehdr bs = \<lparr>e_ident = take 16 bs, e_type = le16 bs 16, e_machine = le16 bs 18, e_version = le32 bs 20, e_entry = le64 bs 24,
     e_phoff = le64 bs 32, e_shoff = le64 bs 40, e_flags = le32 bs 48, e_ehsize = le16 bs 52, e_phentsize = le16 bs 54,
     e_phnum = le16 bs 56, e_shentsize = le16 bs 58, e_shnum = le16 bs 60, e_shstrndx = le16 bs 62\<rparr>"

definition bytes_phdr :: "u8 list \<Rightarrow> ELF64_PHDR" where
  "bytes_phdr bs = \<lparr>p_type = le32 bs 0, p_flags = le32 bs 4, p_offset = le64 bs 8, p_vaddr = le64 bs 16, p_paddr = le64 bs 24,
     p_filesz = le64 bs 32, p_memsz = le64 bs 40, p_align = le64 bs 48\<rparr>"

definition PT_NULL :: u32 where "PT_NULL = 0"
definition PT_LOAD :: u32 where "PT_LOAD = 1"
definition PT_DYNAMIC :: u32 where "PT_DYNAMIC = 2"
definition PT_INTERP :: u32 where "PT_INTERP = 3"
definition PT_NOTE :: u32 where "PT_NOTE = 4"
definition PT_SHLIB :: u32 where "PT_SHLIB = 5"
definition PT_PHDR :: u32 where "PT_PHDR = 6"
definition PT_STACK :: u32 where "PT_STACK = 0x6474e551"
definition PF_W :: u32 where "PF_W = 2"

definition valid_ehdr :: "ELF64_hdr \<Rightarrow> bool" where
  "valid_ehdr h \<longleftrightarrow> take 7 (e_ident h) = [0x7F, 0x45, 0x4C, 0x46, 2, 1, 1] \<and> e_type h = 2 \<and> e_machine h = 0x3E \<and> e_version h = 1 \<and>
     e_phentsize h = 56 \<and> e_phnum h \<le> 1024"

definition validate_segment :: "fsys \<Rightarrow> ELF64_PHDR \<Rightarrow> open_file \<Rightarrow> bool exec" where
  "validate_segment fs h file =
     (if p_offset h AND PGMASK \<noteq> p_vaddr h AND PGMASK then ret False
      else bindE (file_length fs file) (\<lambda>len.
        if p_offset h > word_of_int len then ret False
        else if p_memsz h < p_filesz h then ret False
        else if p_memsz h = 0 then ret False
        else if \<not> is_user_vaddr (p_vaddr h) then ret False
        else if \<not> is_user_vaddr (p_vaddr h + p_memsz h) then ret False
        else if p_vaddr h + p_memsz h < p_vaddr h then ret False
        else if p_vaddr h < PGSIZE then ret False
        else ret True))"

section \<open>Segments\<close>

partial_function (option) load_segment_loop :: "vmst \<Rightarrow> ptr \<Rightarrow> off_t \<Rightarrow> ptr \<Rightarrow> u32 \<Rightarrow> u32 \<Rightarrow> bool \<Rightarrow> (bool \<times> vmst) exec" where
  "load_segment_loop v file ofs upage read_bytes zero_bytes wr =
     (if read_bytes > 0 \<or> zero_bytes > 0 then
        let page_read_bytes = (if ucast read_bytes < PGSIZE then ucast read_bytes else PGSIZE);
            page_zero_bytes = PGSIZE - page_read_bytes;
            (aux, v) = malloc v in
        if aux = NULL then ret (False, v)
        else
          bindE (reopen_file v file) (\<lambda>(nf, v).
          let v = v\<lparr>infos := (infos v)(aux \<mapsto> \<lparr>l_file = nf, l_offset = ofs, readbyte = page_read_bytes, zerobyte = page_zero_bytes\<rparr>)\<rparr> in
          bindE (vm_alloc_page_with_initializer v VM_ANON upage wr (sym_lazy_load_segment (syms v)) aux) (\<lambda>(ok, v).
          if \<not> ok then ret (False, v)
          else
            load_segment_loop v file (int32 (ofs + uint page_read_bytes)) (upage + PGSIZE)
              (read_bytes - ucast page_read_bytes) (zero_bytes - ucast page_zero_bytes) wr))
      else ret (True, v))"

definition load_segment :: "vmst \<Rightarrow> ptr \<Rightarrow> off_t \<Rightarrow> ptr \<Rightarrow> u32 \<Rightarrow> u32 \<Rightarrow> bool \<Rightarrow> (bool \<times> vmst) exec" where
  "load_segment v file ofs upage read_bytes zero_bytes wr =
     ASSERT ((read_bytes + zero_bytes) mod 4096 = 0) (ASSERT (pg_ofs upage = 0) (ASSERT (cmod ofs 4096 = 0) (
     load_segment_loop v file ofs upage read_bytes zero_bytes wr)))"

text \<open>The stack starts with one page; the stack pointer is at its end.\<close>

definition setup_stack :: "vmst \<Rightarrow> regs \<Rightarrow> (bool \<times> regs \<times> vmst) exec" where
  "setup_stack v r =
     (let stack_bottom = USER_STACK - PGSIZE in
      bindE (vm_alloc_page v VM_ANON stack_bottom True) (\<lambda>(ok, v).
      if \<not> ok then ret (False, r, v)
      else bindE (vm_claim_page v stack_bottom) (\<lambda>(ok, v).
        if \<not> ok then ret (False, r, v) else ret (True, r\<lparr>rsp := USER_STACK\<rparr>, v))))"

definition round_up_page :: "u64 \<Rightarrow> u64" where
  "round_up_page x = (x + PGSIZE - 1) div PGSIZE * PGSIZE"

text \<open>The case \<open>PT_LOAD\<close> of \<open>load\<close>; \<open>read_bytes\<close> and \<open>zero_bytes\<close> are 32-bit variables.\<close>

definition load_phdr :: "vmst \<Rightarrow> ptr \<Rightarrow> ELF64_PHDR \<Rightarrow> (bool \<times> vmst) exec" where
  "load_phdr v file h =
     (let wr = (p_flags h AND PF_W \<noteq> 0);
          file_page = p_offset h AND NOT PGMASK;
          mem_page = p_vaddr h AND NOT PGMASK;
          page_offset = p_vaddr h AND PGMASK;
          (read_bytes, zero_bytes) =
            (if p_filesz h > 0 then
               let rb = (ucast (page_offset + p_filesz h) :: u32) in (rb, ucast (round_up_page (page_offset + p_memsz h) - ucast rb))
             else (0, ucast (round_up_page (page_offset + p_memsz h)))) in
      load_segment v file (off_of_size file_page) mem_page read_bytes zero_bytes wr)"

text \<open>The loop over the program headers; \<open>n\<close> headers are left.\<close>

primrec load_phdrs :: "nat \<Rightarrow> vmst \<Rightarrow> ptr \<Rightarrow> off_t \<Rightarrow> (bool \<times> vmst) exec" where
  "load_phdrs 0 v file file_ofs = ret (True, v)"
| "load_phdrs (Suc n) v file file_ofs =
     bindE (the_file v file) (\<lambda>fl.
     bindE (file_length (fsystem v) fl) (\<lambda>len.
     if file_ofs < 0 \<or> file_ofs > len then ret (False, v)
     else
       bindE (file_seek fl file_ofs) (\<lambda>fl.
       bindE (file_read (mem v) (fsystem v) fl 56) (\<lambda>(bytes, fl, fs).
       let v = v\<lparr>files := (files v)(file \<mapsto> fl), fsystem := fs\<rparr> in
       if length bytes \<noteq> 56 then ret (False, v)
       else
         let h = bytes_phdr bytes; file_ofs = int32 (file_ofs + 56) in
         if p_type h = PT_DYNAMIC \<or> p_type h = PT_INTERP \<or> p_type h = PT_SHLIB then ret (False, v)
         else if p_type h = PT_LOAD then
           bindE (validate_segment (fsystem v) h fl) (\<lambda>valid.
           if \<not> valid then ret (False, v)
           else bindE (load_phdr v file h) (\<lambda>(ok, v). if \<not> ok then ret (False, v) else load_phdrs n v file file_ofs))
         else load_phdrs n v file file_ofs))))"

text \<open>Reading an executable: the header and its segments; the entry point.\<close>

definition load_elf :: "vmst \<Rightarrow> ptr \<Rightarrow> (u64 option \<times> vmst) exec" where
  "load_elf v file =
     bindE (the_file v file) (\<lambda>fl.
     bindE (file_read (mem v) (fsystem v) fl 64) (\<lambda>(bytes, fl, fs).
     let v = v\<lparr>files := (files v)(file \<mapsto> fl), fsystem := fs\<rparr>; h = bytes_ehdr bytes in
     if length bytes \<noteq> 64 \<or> \<not> valid_ehdr h then ret (None, v)
     else bindE (load_phdrs (unat (e_phnum h)) v file (off_of_size (e_phoff h))) (\<lambda>(ok, v).
       ret (if ok then Some (e_entry h) else None, v))))"

section \<open>Which segments are accepted\<close>



section \<open>The pages of a segment\<close>

text \<open>The number of entries is the number of addresses, so that a table with page addresses only has room.\<close>

lemma spt_room:
  assumes wf: "spt_wf h" and al: "\<And>a. spt_map h a \<noteq> None \<Longrightarrow> pg_ofs a = 0"
  shows "unat (h_elem_cnt h) < 2 ^ 64 - 1"
proof -
  have "se_va e \<noteq> 1" "se_va e \<noteq> 2" if "e \<in> set (helems h)" for e
  proof -
    have "pg_ofs (se_va e) = 0" using al [of "se_va e"] that by (auto simp: spt_map_None)
    then show "se_va e \<noteq> 1" "se_va e \<noteq> 2" by (auto simp: pg_ofs_def PGMASK_def)
  qed
  then have "se_va ` set (helems h) \<subseteq> UNIV - {1, 2}" by auto
  then have "card (se_va ` set (helems h)) \<le> card (UNIV - {1, 2 :: ptr})" by (intro card_mono) auto
  also have "\<dots> = 2 ^ 64 - 2" by (simp add: card_Diff_subset card_word)
  finally have "card (se_va ` set (helems h)) \<le> 2 ^ 64 - 2" .
  moreover have "card (se_va ` set (helems h)) = length (helems h)"
    using wf spt_keys_unique [OF wf] by (subst card_image) (auto simp: inj_on_def distinct_card spt_wf_def spt.table_def hash_wf_def)
  ultimately show ?thesis using wf by (simp add: spt_wf_def spt.table_def hash_wf_def)
qed

definition lazy_page :: "vmst \<Rightarrow> ptr \<Rightarrow> bool \<Rightarrow> ptr \<Rightarrow> page" where
  "lazy_page v va wr aux = \<lparr>operations = uninit_ops, p_va = va, p_frame = NULL, writable = wr, is_swap = False,
     w0 = sym_lazy_load_segment (syms v), w1 = ucast VM_ANON, w2 = aux, w3 = sym_anon_initializer (syms v), w4 = 0\<rparr>"

lemma alloc_lazy_page:
  assumes t: "spt_wf (spt_tab s)" "unat (h_elem_cnt (spt_tab s)) < 2 ^ 64 - 1" and h: "heap s = p # e # hs" "p \<noteq> NULL" "e \<noteq> NULL"
    and a: "pg_ofs a = 0" "spt_map (spt_tab s) a = None"
  obtains tb where "vm_alloc_page_with_initializer s VM_ANON a wr (sym_lazy_load_segment (syms s)) aux =
      ret (True, s\<lparr>heap := hs, pages := (pages s)(p \<mapsto> lazy_page s a wr aux), spt_tab := tb\<rparr>)"
    "spt_wf tb" "spt_map tb = (spt_map (spt_tab s))(a \<mapsto> p)"
proof -
  obtain tb where tb: "spt_insert_page True (mem s) (spt_tab s) p a = ret (spt_map (spt_tab s) a = None, tb)" "spt_wf tb"
    "spt_map tb = (if spt_map (spt_tab s) a = None then (spt_map (spt_tab s))(a \<mapsto> p) else spt_map (spt_tab s))"
    by (rule spt_insert_map [OF t h(2)])
  have ty: "VM_TYPE VM_ANON = VM_ANON" "VM_ANON \<noteq> VM_UNINIT" by (simp_all add: VM_TYPE_def VM_ANON_def VM_UNINIT_def)
  have "spt_find_page (spt_tab s) a = ret NULL" using spt_find_map [OF t(1), of a] round_down_aligned [OF a(1)] a(2) by simp
  then have "vm_alloc_page_with_initializer s VM_ANON a wr (sym_lazy_load_segment (syms s)) aux =
      ret (True, s\<lparr>heap := hs, pages := (pages s)(p \<mapsto> lazy_page s a wr aux), spt_tab := tb\<rparr>)"
    using h tb(1) ty a(2)
    by (simp add: vm_alloc_page_with_initializer_def uninit_new_def put_page_def the_obj_def lazy_page_def Let_def)
  then show thesis using tb(2,3) a(2) by (intro that) simp_all
qed

text \<open>What holds of the state before each page: the executable is open, and the table has page addresses only.\<close>

definition loading :: "vmst \<Rightarrow> ptr \<Rightarrow> ptr \<Rightarrow> bool" where
  "loading v file inode \<longleftrightarrow> spt_wf (spt_tab v) \<and> (\<forall>a. spt_map (spt_tab v) a \<noteq> None \<longrightarrow> pg_ofs a = 0) \<and>
     (\<exists>fl. files v file = Some fl \<and> f_inode fl = inode) \<and> inode \<noteq> NULL \<and> inodes (fsystem v) inode \<noteq> None"

definition fresh_file :: "ptr \<Rightarrow> open_file" where
  "fresh_file inode = \<lparr>f_inode = inode, f_pos = 0, deny_write = False, dup_count = 1\<rparr>"

lemma segment_step:
  assumes l: "loading v file inode" and h: "heap v = aux # nf # p # e # hs" "NULL \<notin> {aux, nf, p, e}" "file \<noteq> nf"
    and a: "pg_ofs upage = 0" "spt_map (spt_tab v) upage = None" and more: "read_bytes > 0 \<or> zero_bytes > 0"
  defines "prb \<equiv> (if ucast read_bytes < PGSIZE then ucast read_bytes else PGSIZE)"
  shows "\<exists>tb fs. load_segment_loop v file ofs upage read_bytes zero_bytes wr =
      load_segment_loop (v\<lparr>files := (files v)(nf \<mapsto> fresh_file inode), fsystem := fs,
        infos := (infos v)(aux \<mapsto> \<lparr>l_file = nf, l_offset = ofs, readbyte = prb, zerobyte = PGSIZE - prb\<rparr>),
        heap := hs, pages := (pages v)(p \<mapsto> lazy_page v upage wr aux), spt_tab := tb\<rparr>)
      file (int32 (ofs + uint prb)) (upage + PGSIZE) (read_bytes - ucast prb) (zero_bytes - ucast (PGSIZE - prb)) wr \<and>
    spt_wf tb \<and> spt_map tb = (spt_map (spt_tab v))(upage \<mapsto> p) \<and> inodes fs inode \<noteq> None"
proof -
  from l obtain fl i where fl: "files v file = Some fl" "f_inode fl = inode" "inode \<noteq> NULL" "inodes (fsystem v) inode = Some i"
    by (auto simp: loading_def)
  define fs where "fs = put_inode (fsystem v) inode (i\<lparr>open_cnt := open_cnt i + 1\<rparr>)"
  define v1 where "v1 = v\<lparr>heap := p # e # hs, files := (files v)(nf \<mapsto> fresh_file inode), fsystem := fs,
    infos := (infos v)(aux \<mapsto> \<lparr>l_file = nf, l_offset = ofs, readbyte = prb, zerobyte = PGSIZE - prb\<rparr>)\<rparr>"
  have t: "spt_wf (spt_tab v1)" "unat (h_elem_cnt (spt_tab v1)) < 2 ^ 64 - 1" "heap v1 = p # e # hs" "spt_map (spt_tab v1) upage = None"
    using l a(2) spt_room [of "spt_tab v"] by (auto simp: v1_def loading_def)
  obtain tb where tb: "vm_alloc_page_with_initializer v1 VM_ANON upage wr (sym_lazy_load_segment (syms v1)) aux =
      ret (True, v1\<lparr>heap := hs, pages := (pages v1)(p \<mapsto> lazy_page v1 upage wr aux), spt_tab := tb\<rparr>)"
    "spt_wf tb" "spt_map tb = (spt_map (spt_tab v1))(upage \<mapsto> p)"
    by (rule alloc_lazy_page [OF t(1,2,3) _ _ a(1) t(4)]) (use h(2) in auto)
  have ro: "reopen_file (v\<lparr>heap := nf # p # e # hs\<rparr>) file = ret (nf, v\<lparr>heap := p # e # hs, files := (files v)(nf \<mapsto> fresh_file inode), fsystem := fs\<rparr>)"
    using h fl by (simp add: reopen_file_def the_obj_def file_reopen_def inode_reopen_def the_inode_def file_open_def fs_def fresh_file_def Let_def)
  have "load_segment_loop v file ofs upage read_bytes zero_bytes wr =
      load_segment_loop (v1\<lparr>heap := hs, pages := (pages v1)(p \<mapsto> lazy_page v1 upage wr aux), spt_tab := tb\<rparr>)
      file (int32 (ofs + uint prb)) (upage + PGSIZE) (read_bytes - ucast prb) (zero_bytes - ucast (PGSIZE - prb)) wr"
    using more h ro tb(1) by (subst load_segment_loop.simps) (simp add: Let_def prb_def [symmetric] v1_def)
  moreover have "inodes fs inode \<noteq> None" by (simp add: fs_def put_inode_def)
  moreover have "lazy_page v1 upage wr aux = lazy_page v upage wr aux" by (simp add: lazy_page_def v1_def)
  ultimately show ?thesis using tb(2,3) by (intro exI [of _ tb] exI [of _ fs]) (simp add: v1_def)
qed


text \<open>The part of the file for the \<open>k\<close>-th page of a segment of \<open>R\<close> bytes.\<close>

definition segment_info :: "ptr \<Rightarrow> off_t \<Rightarrow> nat \<Rightarrow> nat \<Rightarrow> lazy_load_info" where
  "segment_info nf ofs R k = \<lparr>l_file = nf, l_offset = ofs + int (min (4096 * k) R), readbyte = of_nat (min 4096 (R - 4096 * k)),
     zerobyte = of_nat (4096 - min 4096 (R - 4096 * k))\<rparr>"

text \<open>The objects of a segment whose \<open>n\<close> pages took their addresses from \<open>hs\<close>.\<close>

definition segment_pages :: "vmst \<Rightarrow> vmst \<Rightarrow> ptr list \<Rightarrow> ptr \<Rightarrow> off_t \<Rightarrow> ptr \<Rightarrow> nat \<Rightarrow> bool \<Rightarrow> nat \<Rightarrow> bool" where
  "segment_pages v v' hs inode ofs upage R wr n \<longleftrightarrow>
     (\<forall>k < n. spt_map (spt_tab v') (upage + of_nat k * PGSIZE) = Some (hs ! (4 * k + 2)) \<and>
        pages v' (hs ! (4 * k + 2)) = Some (lazy_page v (upage + of_nat k * PGSIZE) wr (hs ! (4 * k))) \<and>
        infos v' (hs ! (4 * k)) = Some (segment_info (hs ! (4 * k + 1)) ofs R k) \<and> files v' (hs ! (4 * k + 1)) = Some (fresh_file inode)) \<and>
     (\<forall>a. (\<forall>k < n. a \<noteq> upage + of_nat k * PGSIZE) \<longrightarrow> spt_map (spt_tab v') a = spt_map (spt_tab v) a) \<and>
     (\<forall>q. q \<notin> set (take (4 * n) hs) \<longrightarrow> pages v' q = pages v q \<and> infos v' q = infos v q \<and> files v' q = files v q)"

lemma page_step: "unat upage + 4096 * n < 2 ^ 64 \<Longrightarrow> k < n \<Longrightarrow> unat (upage + of_nat k * PGSIZE) = unat upage + 4096 * k"
  by (simp add: unat_word_ariths unat_of_nat_u64 PGSIZE_def)

lemma u32_of_small: "unat (ucast (of_nat (min 4096 m) :: u64) :: u32) = min 4096 m" "unat (ucast (of_nat (4096 - m) :: u64) :: u32) = 4096 - m"
  by (simp_all add: unsigned_ucast_eq unat_of_nat_u64 take_bit_nat_eq_self del: of_nat_diff)

lemma segment_info_Suc: "segment_info nf (ofs + int (min 4096 R)) (R - min 4096 R) k = segment_info nf ofs R (Suc k)"
  by (auto simp: segment_info_def min_def)

lemma segment_pages_Suc:
  assumes r: "segment_pages v1 v' hs inode (ofs + int (min 4096 R)) (upage + PGSIZE) (R - min 4096 R) wr n"
    and v1: "spt_map (spt_tab v1) = (spt_map (spt_tab v))(upage \<mapsto> p)" "pages v1 = (pages v)(p \<mapsto> lazy_page v upage wr aux)"
      "infos v1 = (infos v)(aux \<mapsto> segment_info nf ofs R 0)" "files v1 = (files v)(nf \<mapsto> fresh_file inode)" "syms v1 = syms v"
    and d: "{aux, nf, p} \<inter> set hs = {}" and nu: "\<And>k. k < n \<Longrightarrow> upage + of_nat (Suc k) * PGSIZE \<noteq> upage"
  shows "segment_pages v v' (aux # nf # p # e # hs) inode ofs upage R wr (Suc n)"
proof -
  have up: "upage + PGSIZE + of_nat k * PGSIZE = upage + of_nat (Suc k) * PGSIZE" for k by (simp add: algebra_simps)
  have lz: "lazy_page v1 = lazy_page v" by (simp add: fun_eq_iff lazy_page_def v1(5))
  note r' = r [unfolded segment_pages_def up segment_info_Suc lz]
  have fr: "q \<notin> set (take (4 * n) hs)" if "q \<in> {aux, nf, p}" for q using d that by (auto dest: in_set_takeD)
  have here: "spt_map (spt_tab v') upage = Some p" using r' nu v1(1) by (metis fun_upd_same)
  show ?thesis unfolding segment_pages_def
  proof (intro conjI allI impI)
    fix k assume k: "k < Suc n"
    let ?h = "aux # nf # p # e # hs"
    show "spt_map (spt_tab v') (upage + of_nat k * PGSIZE) = Some (?h ! (4 * k + 2))" using k r' here by (cases k) auto
    show "pages v' (?h ! (4 * k + 2)) = Some (lazy_page v (upage + of_nat k * PGSIZE) wr (?h ! (4 * k)))"
      using k r' fr v1(2) by (cases k) auto
    show "infos v' (?h ! (4 * k)) = Some (segment_info (?h ! (4 * k + 1)) ofs R k)" using k r' fr v1(3) by (cases k) auto
    show "files v' (?h ! (4 * k + 1)) = Some (fresh_file inode)" using k r' fr v1(4) by (cases k) auto
  next
    fix a assume a: "\<forall>k < Suc n. a \<noteq> upage + of_nat k * PGSIZE"
    then have "a \<noteq> upage" "\<forall>k < n. a \<noteq> upage + of_nat (Suc k) * PGSIZE" by (auto dest: spec [of _ 0])
    then show "spt_map (spt_tab v') a = spt_map (spt_tab v) a" using r' v1(1) by (metis fun_upd_other)
  next
    fix q assume "q \<notin> set (take (4 * Suc n) (aux # nf # p # e # hs))"
    moreover have "take (4 * Suc n) (aux # nf # p # e # hs) = aux # nf # p # e # take (4 * n) hs" by (simp add: take_Cons' )
    ultimately have q: "q \<notin> {aux, nf, p}" "q \<notin> set (take (4 * n) hs)" by auto
    then show "pages v' q = pages v q" "infos v' q = infos v q" "files v' q = files v q" using r' v1(2-4) by auto
  qed
qed

lemma load_segment_loop_ok:
  assumes "loading v file inode" "unat read_bytes + unat zero_bytes = 4096 * n" "heap v = hs" "4 * n \<le> length hs" "distinct hs" "NULL \<notin> set hs" "file \<notin> set hs"
    and "pg_ofs upage = 0" "unat upage + 4096 * n < 2 ^ 64" "\<And>k. k < n \<Longrightarrow> spt_map (spt_tab v) (upage + of_nat k * PGSIZE) = None"
    and "0 \<le> ofs" "ofs + uint read_bytes < 2 ^ 31"
  shows "\<exists>v'. load_segment_loop v file ofs upage read_bytes zero_bytes wr = ret (True, v') \<and> loading v' file inode \<and>
    segment_pages v v' hs inode ofs upage (unat read_bytes) wr n"
  using assms
proof (induction n arbitrary: v hs ofs upage read_bytes zero_bytes)
  case 0
  then have "read_bytes = 0" "zero_bytes = 0" by (simp_all add: unat_eq_0)
  then show ?case using 0 by (subst load_segment_loop.simps) (simp add: segment_pages_def)
next
  case (Suc n)
  let ?R = "unat read_bytes"
  from Suc.prems(4) obtain aux nf p e hs' where hs: "hs = aux # nf # p # e # hs'"
    by (cases hs; cases "tl hs"; cases "tl (tl hs)"; cases "tl (tl (tl hs))") auto
  define prb :: u64 where "prb = (if ucast read_bytes < PGSIZE then ucast read_bytes else PGSIZE)"
  have uc: "unat (ucast read_bytes :: u64) = ?R" using unat_u32_bound [of read_bytes] by (simp add: unsigned_ucast_eq take_bit_nat_eq_self)
  have prb: "unat prb = min 4096 ?R" "prb = of_nat (min 4096 ?R)"
    using uc by (auto simp: prb_def word_less_nat_alt PGSIZE_def word_unat_eq_iff unat_of_nat_u64)
  have pz: "PGSIZE - prb = of_nat (4096 - min 4096 ?R)" unfolding prb(2) by (simp add: PGSIZE_def of_nat_diff)
  have more: "read_bytes > 0 \<or> zero_bytes > 0" using Suc.prems(2) by (auto simp: word_less_nat_alt)
  have f: "NULL \<notin> {aux, nf, p, e}" "file \<noteq> nf" "spt_map (spt_tab v) upage = None" "heap v = aux # nf # p # e # hs'"
    using Suc.prems(3,6,7) Suc.prems(10) [of 0] hs by auto
  from segment_step [OF Suc.prems(1) f(4,1,2) Suc.prems(8) f(3) more, of ofs wr, folded prb_def] obtain tb fs where
    st: "load_segment_loop v file ofs upage read_bytes zero_bytes wr =
      load_segment_loop (v\<lparr>files := (files v)(nf \<mapsto> fresh_file inode), fsystem := fs,
        infos := (infos v)(aux \<mapsto> \<lparr>l_file = nf, l_offset = ofs, readbyte = prb, zerobyte = PGSIZE - prb\<rparr>),
        heap := hs', pages := (pages v)(p \<mapsto> lazy_page v upage wr aux), spt_tab := tb\<rparr>)
      file (int32 (ofs + uint prb)) (upage + PGSIZE) (read_bytes - ucast prb) (zero_bytes - ucast (PGSIZE - prb)) wr"
    "spt_wf tb" "spt_map tb = (spt_map (spt_tab v))(upage \<mapsto> p)" "inodes fs inode \<noteq> None" by blast
  define v1 where "v1 = v\<lparr>files := (files v)(nf \<mapsto> fresh_file inode), fsystem := fs,
        infos := (infos v)(aux \<mapsto> \<lparr>l_file = nf, l_offset = ofs, readbyte = prb, zerobyte = PGSIZE - prb\<rparr>),
        heap := hs', pages := (pages v)(p \<mapsto> lazy_page v upage wr aux), spt_tab := tb\<rparr>"
  define rb' zb' where "rb' = read_bytes - ucast prb" and "zb' = zero_bytes - ucast (PGSIZE - prb)"
  have u1: "unat (ucast prb :: u32) = min 4096 ?R" "unat (ucast (PGSIZE - prb) :: u32) = 4096 - min 4096 ?R"
    unfolding pz by (simp_all only: prb(2) u32_of_small)
  have rz: "unat rb' = ?R - min 4096 ?R" "unat zb' = unat zero_bytes - (4096 - min 4096 ?R)"
    using Suc.prems(2) by (simp_all add: rb'_def zb'_def unat_sub_if' u1)
  have sum: "unat rb' + unat zb' = 4096 * n" using rz Suc.prems(2) by (auto simp: min_def)
  have o1: "int32 (ofs + uint prb) = ofs + int (min 4096 ?R)"
    unfolding uint_nat prb(1) using Suc.prems(11,12) [unfolded uint_nat] by (intro int32_id) (auto simp: in_int32_def min_def simp del: of_nat_unat)
  have ld: "loading v1 file inode" using Suc.prems(1,8) st(2-4) f(2) by (auto simp: loading_def v1_def)
  have up: "upage + PGSIZE + of_nat k * PGSIZE = upage + of_nat (Suc k) * PGSIZE" for k by (simp add: algebra_simps)
  have nu: "upage + of_nat (Suc k) * PGSIZE \<noteq> upage" if "k < n" for k
    using page_step [OF Suc.prems(9), of "Suc k"] that by (metis add.right_neutral add_left_cancel less_nat_zero_code mult_eq_0_iff nat.simps(3) not_less_eq zero_neq_numeral)
  have un: "unat (upage + PGSIZE) = unat upage + 4096" using Suc.prems(9) by (simp add: unat_word_ariths PGSIZE_def)
  then have al: "pg_ofs (upage + PGSIZE) = 0" using Suc.prems(8) by (simp add: pg_ofs_0_iff)
  have d: "distinct hs'" "NULL \<notin> set hs'" "file \<notin> set hs'" "4 * n \<le> length hs'" "heap v1 = hs'" "{aux, nf, p} \<inter> set hs' = {}" "aux \<noteq> nf" "nf \<noteq> p" "aux \<noteq> p"
    using Suc.prems(4-7) hs by (auto simp: v1_def)
  have none: "spt_map (spt_tab v1) (upage + PGSIZE + of_nat k * PGSIZE) = None" if "k < n" for k
    unfolding up using Suc.prems(10) [of "Suc k"] that nu [OF that] st(3) by (simp add: v1_def)
  have no: "unat (upage + PGSIZE) + 4096 * n < 2 ^ 64" using un Suc.prems(9) by simp
  have os: "0 \<le> ofs + int (min 4096 ?R)" "ofs + int (min 4096 ?R) + uint rb' < 2 ^ 31"
    unfolding uint_nat rz(1) using Suc.prems(11,12) [unfolded uint_nat] by (auto simp: min_def simp del: of_nat_unat)
  from Suc.IH [OF ld sum d(5,4,1-3) al no none os] obtain v' where
    r: "load_segment_loop v1 file (ofs + int (min 4096 ?R)) (upage + PGSIZE) rb' zb' wr = ret (True, v')" "loading v' file inode"
      "segment_pages v1 v' hs' inode (ofs + int (min 4096 ?R)) (upage + PGSIZE) (unat rb') wr n" by blast
  have e: "load_segment_loop v file ofs upage read_bytes zero_bytes wr = ret (True, v')"
    using st(1) r(1) by (simp only: v1_def rb'_def zb'_def o1)
  have "segment_pages v v' hs inode ofs upage ?R wr (Suc n)"
    unfolding hs
  proof (rule segment_pages_Suc [OF r(3) [unfolded rz(1)] _ _ _ _ _ d(6) nu])
    show "infos v1 = (infos v)(aux \<mapsto> segment_info nf ofs ?R 0)" unfolding segment_info_def using prb(2) pz by (simp add: v1_def)
  qed (simp_all add: v1_def st(3))
  then show ?case using e r(2) by blast
qed

text \<open>
  C39. Loading a segment of \<open>n\<close> pages at free addresses succeeds when the memory lasts. Page \<open>k\<close> of it is then in
  the table at its address, with the permission of the segment, to be filled when it is first used: with
  the bytes of the file from \<open>4096 k\<close> bytes after the start of the segment on, as many as the segment has
  left and at most a page, and zeros after them, through a file of its own on the executable. All
  other pages, files and addresses are as before.
\<close>

theorem load_segment_correct:
  assumes "loading v file inode" "unat read_bytes + unat zero_bytes = 4096 * n" "4096 * n < 2 ^ 32" "heap v = hs" "4 * n \<le> length hs"
    "distinct hs" "NULL \<notin> set hs" "file \<notin> set hs" "pg_ofs upage = 0" "unat upage + 4096 * n < 2 ^ 64"
    "\<And>k. k < n \<Longrightarrow> spt_map (spt_tab v) (upage + of_nat k * PGSIZE) = None" "0 \<le> ofs" "ofs mod 4096 = 0" "ofs + uint read_bytes < 2 ^ 31"
  shows "\<exists>v'. load_segment v file ofs upage read_bytes zero_bytes wr = ret (True, v') \<and> loading v' file inode \<and>
    segment_pages v v' hs inode ofs upage (unat read_bytes) wr n"
proof -
  have "unat ((read_bytes + zero_bytes) mod 4096) = 4096 * n mod 4096"
    using assms(2,3) by (simp add: unat_mod_distrib unat_word_ariths)
  then have "(read_bytes + zero_bytes) mod 4096 = 0" by (simp add: unat_eq_0 del: unat_mod_distrib)
  moreover have "cmod ofs 4096 = 0" using assms(12,13) by (simp add: cmod_nonneg)
  ultimately show ?thesis
    using load_segment_loop_ok [OF assms(1,2,4-12,14), of wr] assms(9) by (simp add: load_segment_def)
qed

definition sample_loading :: vmst where
  "sample_loading = (vm sample_user)\<lparr>heap := [0xA10, 0xA20, 0xA30, 0xA40, 0xA50, 0xA60, 0xA70, 0xA80]\<rparr>"

lemma sample_user_spt_map: "spt_wf sample_user_spt" "spt_map sample_user_spt = [0x4747E000 \<mapsto> 0x10]"
proof -
  have "unat (h_elem_cnt empty_spt) < 2 ^ 64 - 1" "(0x10 :: ptr) \<noteq> NULL" by (simp_all add: empty_spt_wf(3))
  note p = this
  obtain h' where h': "spt_insert_page True True empty_spt 0x10 0x4747E000 = ret (spt_map empty_spt 0x4747E000 = None, h')" "spt_wf h'"
    "spt_map h' = (if spt_map empty_spt 0x4747E000 = None then (spt_map empty_spt)(0x4747E000 \<mapsto> 0x10) else spt_map empty_spt)"
    by (rule spt_insert_map [OF empty_spt_wf(1) p])
  then show "spt_wf sample_user_spt" "spt_map sample_user_spt = [0x4747E000 \<mapsto> 0x10]" by (simp_all add: sample_user_spt_def empty_spt_wf(2) fun_eq_iff)
qed

lemma sample_loading_ok: "loading sample_loading 0x100 0x1000"
proof -
  have "inodes sample_fsys 0x1000 \<noteq> None" using sample_file_ok by (auto simp: file_ok_def)
  moreover have "pg_ofs 0x4747E000 = 0" by (simp add: pg_ofs_def PGMASK_def)
  ultimately show ?thesis
    using sample_user_spt_map sample_user_sel(3,5) by (auto simp: loading_def sample_loading_def sample_user_sel(8) split: if_splits)
qed

theorem load_segment_correct_witness:
  "\<exists>v'. load_segment sample_loading 0x100 4096 0x400000 5000 3192 True = ret (True, v') \<and>
     spt_map (spt_tab v') 0x401000 = Some 0xA70 \<and> infos v' 0xA50 = Some \<lparr>l_file = 0xA60, l_offset = 8192, readbyte = 904, zerobyte = 3192\<rparr>"
proof -
  have n: "spt_map (spt_tab sample_loading) (0x400000 + of_nat k * PGSIZE) = None" if "k < 2" for k
    using that by (auto simp: sample_loading_def sample_user_sel(8) sample_user_spt_map less_2_cases_iff PGSIZE_def)
  have "\<exists>v'. load_segment sample_loading 0x100 4096 0x400000 5000 3192 True = ret (True, v') \<and> loading v' 0x100 0x1000 \<and>
      segment_pages sample_loading v' (heap sample_loading) 0x1000 4096 0x400000 (unat (5000 :: u32)) True 2"
    by (rule load_segment_correct [OF sample_loading_ok]) (rule n | simp add: sample_loading_def pg_ofs_def PGMASK_def)+
  then obtain v' where v': "load_segment sample_loading 0x100 4096 0x400000 5000 3192 True = ret (True, v')"
    "segment_pages sample_loading v' (heap sample_loading) 0x1000 4096 0x400000 (unat (5000 :: u32)) True 2" by blast
  from v'(2) have "spt_map (spt_tab v') 0x401000 = Some 0xA70 \<and> infos v' 0xA50 = Some \<lparr>l_file = 0xA60, l_offset = 8192, readbyte = 904, zerobyte = 3192\<rparr>"
    by (auto simp: segment_pages_def sample_loading_def segment_info_def PGSIZE_def dest!: spec [of _ "1 :: nat"])
  with v'(1) show ?thesis by blast
qed


end
