(* ===== verification/Process.thy ===== *)
theory Process
  imports Loader
begin

unbundle bit_operations_syntax

text \<open>
  The life of a process (\<open>userprog/process.c\<close>): starting a program in place of the running one, copying a
  process, its end, and the dispatch of system calls (\<open>syscall_handler\<close> of \<open>userprog/syscall.c\<close>). The lemmas
  show that the end of a process closes each of its files once, and which calls change which registers.
\<close>

section \<open>Address spaces\<close>

definition process_cleanup :: "vmst \<Rightarrow> vmst exec" where
  "process_cleanup v =
     bindE (supplemental_page_table_kill v) (\<lambda>v.
     if pml4 v \<noteq> NULL then
       let t = pml4 v; v = v\<lparr>pml4 := NULL\<rparr> in
       bindE (pml4_destroy (base_pml4 v) (ph v) t) (\<lambda>m. ret (v\<lparr>ph := m\<rparr>))
     else ret v)"

text \<open>
  A new, empty table of pages. When there is no memory for its buckets it cannot be used: the next
  access, at the latest that of \<open>process_cleanup\<close>, goes through a null pointer.
\<close>

definition new_page_table :: "vmst \<Rightarrow> vmst exec" where
  "new_page_table v =
     (case supplemental_page_table_init (if mem v then Some (replicate 4 []) else None) of
        None \<Rightarrow> fail Null_deref
      | Some h \<Rightarrow> ret (v\<lparr>spt_tab := h\<rparr>))"

section \<open>Starting a program\<close>

text \<open>
  \<open>load\<close>: the command line is split in place, so that the file has the name of its first word. The
  executable is closed at the end on every path after it was opened. Messages are not part of the model.
\<close>

definition load_program :: "alloc \<Rightarrow> proc \<Rightarrow> regs \<Rightarrow> u8 list \<Rightarrow> (bool \<times> regs \<times> proc) exec" where
  "load_program al s r line =
     bindE (command_words line) (\<lambda>(file_name, argv).
     bindE (pml4_create (ph (vm s)) (base_pml4 (vm s))) (\<lambda>(t, m).
     let s = s\<lparr>vm := (vm s)\<lparr>ph := m, pml4 := t\<rparr>\<rparr> in
     if t = NULL then ret (False, r, s)
     else
       bindE (lock_acquire_fs s) (\<lambda>s.
       let (new, v) = malloc (vm s); s = s\<lparr>vm := v\<rparr> in
       bindE (load_file_open (mem (vm s) \<and> new \<noteq> NULL) al (fsys_of s) (cwd s) file_name) (\<lambda>(f, d, fs).
       bindE (lock_release_fs ((set_fsys s fs)\<lparr>cwd := d\<rparr>)) (\<lambda>s.
       case f of
         None \<Rightarrow> ret (False, r, s)
       | Some f \<Rightarrow>
           let s = set_file s new (Some f) in
           bindE (load_elf (vm s) new) (\<lambda>(entry_point, v).
           bindE (case entry_point of
                    None \<Rightarrow> ret (False, r, v)
                  | Some e \<Rightarrow>
                      bindE (setup_stack v r) (\<lambda>(ok, r, v).
                      if \<not> ok then ret (False, r, v)
                      else bindE (pass_arguments v (r\<lparr>rip := e\<rparr>) argv) (\<lambda>(r, v). ret (True, r, v)))) (\<lambda>(ok, r, v).
           bindE (close_file (s\<lparr>vm := v\<rparr>) new) (\<lambda>s. ret (ok, r, s)))))))))"

definition MAX_BUF :: nat where "MAX_BUF = 128"

text \<open>The loop of \<open>process_exec\<close> that copies the first word; \<open>i\<close> characters are copied.\<close>

fun copy_word :: "nat \<Rightarrow> u8 list \<Rightarrow> u8 list" where
  "copy_word i [] = []"
| "copy_word i (c # cs) = (if c \<noteq> 0 \<and> c \<noteq> SPACE \<and> i < MAX_BUF - 1 then c # copy_word (i + 1) cs else [])"

text \<open>\<open>file_allow_write\<close> and \<open>file_close\<close> on the program that runs.\<close>

definition close_running :: "proc \<Rightarrow> proc exec" where
  "close_running s =
     bindE (counted_file s (running_file s)) (\<lambda>f.
     bindE (file_allow_write (fsys_of s) f) (\<lambda>(f, fs).
     close_file (set_file (set_fsys s fs) (running_file s) (Some f)) (running_file s)))"

text \<open>
  The command line is the string at the kernel address \<open>file_name\<close>, the start of a page. The copy goes to an array of
  \<open>MAX_BUF\<close> characters. \<open>None\<close> is the return value -1; otherwise the processor goes to user mode with
  the registers.
\<close>

definition process_exec :: "alloc \<Rightarrow> proc \<Rightarrow> regs \<Rightarrow> ptr \<Rightarrow> (regs option \<times> proc) exec" where
  "process_exec al s r file_name =
     bindE (string_user s file_name) (\<lambda>(line, s).
     if length line + 1 > MAX_BUF then fail Out_of_bounds
     else
       bindE (if running_file s \<noteq> NULL then bindE (close_running s) (\<lambda>s. ret (s\<lparr>running_file := NULL\<rparr>)) else ret s) (\<lambda>s.
       bindE (lock_acquire_fs s) (\<lambda>s.
       let (new, v) = malloc (vm s); s = s\<lparr>vm := v\<rparr> in
       bindE (filesys_open (mem (vm s) \<and> new \<noteq> NULL) al (fsys_of s) (cwd s) (copy_word 0 line)) (\<lambda>(opened, fs).
       bindE (lock_release_fs (set_fsys s fs)) (\<lambda>s.
       let (new_file, s) =
         (case opened of
            Not_opened \<Rightarrow> (NULL, s)
          | Opened_file f \<Rightarrow> (new, set_file s new (Some f))
          | Opened_dir d \<Rightarrow> (new, s\<lparr>dirs := (dirs s)(new \<mapsto> d)\<rparr>)) in
       bindE (process_cleanup (vm s)) (\<lambda>v.
       bindE (new_page_table v) (\<lambda>v.
       bindE (load_program al (s\<lparr>vm := v\<rparr>) r line) (\<lambda>(success, r, s).
       bindE (palloc_free_page (ph (vm s)) file_name) (\<lambda>m.
       let s = s\<lparr>vm := (vm s)\<lparr>ph := m\<rparr>\<rparr> in
       if \<not> success then ret (None, s)
       else if new_file = NULL then ret (None, s)
       else
         let s = s\<lparr>running_file := new_file\<rparr> in
         bindE (counted_file s new_file) (\<lambda>f.
         bindE (file_deny_write (fsys_of s) f) (\<lambda>(f, fs).
         ret (Some r, set_file (set_fsys s fs) new_file (Some f)))))))))))))"

text \<open>The first process: \<open>initd\<close> panics when its program cannot be started.\<close>

definition initd :: "alloc \<Rightarrow> proc \<Rightarrow> regs \<Rightarrow> ptr \<Rightarrow> (regs \<times> proc) exec" where
  "initd al s r f_name =
     bindE (new_page_table (vm s)) (\<lambda>v.
     bindE (process_init al (s\<lparr>vm := v\<rparr>)) (\<lambda>s.
     bindE (process_exec al s r f_name) (\<lambda>(entered, s).
     case entered of None \<Rightarrow> fail Panicked | Some r \<Rightarrow> ret (r, s))))"

definition sys_exec :: "alloc \<Rightarrow> proc \<Rightarrow> regs \<Rightarrow> ptr \<Rightarrow> regs sys" where
  "sys_exec al s r file_name =
     bindS (check_address s file_name) (\<lambda>_ s.
     bindE (string_user s file_name) (\<lambda>(line, s).
     bindE (palloc_get_page (ph (vm s)) PAL_ZERO) (\<lambda>(fn_copy, m).
     let s = s\<lparr>vm := (vm s)\<lparr>ph := m\<rparr>\<rparr> in
     if fn_copy = NULL then sys_exit s (- 1)
     else
       bindE (store_user s fn_copy (line @ [0])) (\<lambda>s.
       bindE (process_exec al s r fn_copy) (\<lambda>(entered, s).
       case entered of None \<Rightarrow> sys_exit s (- 1) | Some r \<Rightarrow> returnS r s)))))"

section \<open>Copying a process\<close>

text \<open>
  The thread function \<open>__do_fork\<close>, up to the point where it wakes its parent: the state of the child, whose
  registers are those of the parent with the result 0; \<open>None\<close> when it goes to its error exit.
\<close>

definition do_fork :: "alloc \<Rightarrow> proc \<Rightarrow> proc \<Rightarrow> proc option exec" where
  "do_fork al parent s =
     bindE (pml4_create (ph (vm s)) (base_pml4 (vm s))) (\<lambda>(t, m).
     let s = s\<lparr>vm := (vm s)\<lparr>ph := m, pml4 := t\<rparr>\<rparr> in
     if t = NULL then ret None
     else
       bindE (new_page_table (vm s)) (\<lambda>v.
       bindE (supplemental_page_table_copy v (spt_tab (vm parent))) (\<lambda>(copied, v).
       let s = s\<lparr>vm := v\<rparr> in
       if \<not> copied then ret None else do_fork_files al parent s)))"

section \<open>The end of a process\<close>

text \<open>\<open>process_exit\<close> up to its semaphores.\<close>

definition process_exit :: "proc \<Rightarrow> proc exec" where
  "process_exit s =
     bindE (if fd_pages s \<noteq> NULL then close_fds s [0..MAX_FD - 1] else ret s) (\<lambda>s.
     bindE (palloc_free_multiple (ph (vm s)) (fd_pages s) FDT_PAGES) (\<lambda>m.
     let s = s\<lparr>vm := (vm s)\<lparr>ph := m\<rparr>\<rparr> in
     bindE (if running_file s \<noteq> NULL then close_running s else ret s) (\<lambda>s.
     bindE (case cwd s of
              None \<Rightarrow> ret s
            | Some d \<Rightarrow>
                bindE (good_dir (fsys_of s) d) (\<lambda>good.
                if good then bindE (dir_close (fsys_of s) (Some d)) (\<lambda>fs. ret (set_fsys s fs)) else ret s)) (\<lambda>s.
     bindE (process_cleanup (vm s)) (\<lambda>v. ret (s\<lparr>vm := v\<rparr>))))))"

section \<open>System calls\<close>

text \<open>The registers of the interrupted program that the handler uses.\<close>

record intr_frame =
  R_rax :: u64
  R_rdi :: u64
  R_rsi :: u64
  R_rdx :: u64
  R_r10 :: u64
  R_r8 :: u64
  R_r9 :: u64
  if_cs :: "16 word"
  if_rsp :: u64

definition SEL_UCSEG :: "16 word" where "SEL_UCSEG = 0x23"

text \<open>
  How a call goes on: the program resumes with a frame, or with a new program's registers, the machine is switched
  off, or the thread goes on in \<open>process_wait\<close> or \<open>process_fork\<close>, which have theories of their own.
\<close>

datatype after_call = Resume intr_frame | Enter regs | Powered_off | Waits int | Forks ptr

text \<open>Conversions of the arguments to \<open>int\<close> and \<open>unsigned\<close>, and of results to the register.\<close>

definition int_arg :: "u64 \<Rightarrow> int" where
  "int_arg a = sint (ucast a :: u32)"

definition int_result :: "intr_frame \<Rightarrow> int \<Rightarrow> after_call" where
  "int_result f i = Resume (f\<lparr>R_rax := word_of_int i\<rparr>)"

definition bool_result :: "intr_frame \<Rightarrow> bool \<Rightarrow> after_call" where
  "bool_result f b = Resume (f\<lparr>R_rax := (if b then 1 else 0)\<rparr>)"

definition sys_halt :: "proc \<Rightarrow> after_call sys" where
  "sys_halt s = returnS Powered_off s"

text \<open>
  \<open>junk\<close> and \<open>garbage\<close> are the values of uninitialised variables of \<open>sys_create\<close> and \<open>sys_mkdir\<close>, and \<open>r\<close> the
  registers \<open>process_exec\<close> does not set.
\<close>

definition syscall_handler :: "alloc \<Rightarrow> u8 list \<Rightarrow> dir option \<Rightarrow> regs \<Rightarrow> proc \<Rightarrow> intr_frame \<Rightarrow> after_call sys" where
  "syscall_handler al junk garbage r s f =
     (let s = (if if_cs f = SEL_UCSEG then s\<lparr>vm := (vm s)\<lparr>user_rsp := if_rsp f\<rparr>\<rparr> else s);
          syscall_num = R_rax f; arg1 = R_rdi f; arg2 = R_rsi f; arg3 = R_rdx f; arg4 = R_r10 f; arg5 = R_r8 f in
      if syscall_num = 0 then sys_halt s
      else if syscall_num = 1 then sys_exit s (int_arg arg1)
      else if syscall_num = 2 then returnS (Forks arg1) s
      else if syscall_num = 3 then bindS (sys_exec al s r arg1) (\<lambda>r s. returnS (Enter r) s)
      else if syscall_num = 4 then returnS (Waits (int_arg arg1)) s
      else if syscall_num = 5 then bindS (sys_create al junk s arg1 (ucast arg2)) (\<lambda>b s. returnS (bool_result f b) s)
      else if syscall_num = 6 then bindS (sys_remove al s arg1) (\<lambda>b s. returnS (bool_result f b) s)
      else if syscall_num = 7 then bindS (sys_open al s arg1) (\<lambda>i s. returnS (int_result f i) s)
      else if syscall_num = 8 then bindE (sys_filesize s (int_arg arg1)) (\<lambda>i. returnS (int_result f i) s)
      else if syscall_num = 9 then bindS (sys_read s (int_arg arg1) arg2 (ucast arg3)) (\<lambda>i s. returnS (int_result f i) s)
      else if syscall_num = 10 then bindS (sys_write s (int_arg arg1) arg2 (ucast arg3)) (\<lambda>i s. returnS (int_result f i) s)
      else if syscall_num = 11 then bindE (sys_seek s (int_arg arg1) (ucast arg2)) (\<lambda>s. returnS (Resume f) s)
      else if syscall_num = 12 then bindE (sys_tell s (int_arg arg1)) (\<lambda>p. returnS (Resume (f\<lparr>R_rax := ucast p\<rparr>)) s)
      else if syscall_num = 13 then bindE (sys_close s (int_arg arg1)) (\<lambda>s. returnS (Resume f) s)
      else if syscall_num = 14 then
        bindE (sys_mmap s arg1 arg2 (int_arg arg3) (int_arg arg4) (int_arg arg5)) (\<lambda>(a, s). returnS (Resume (f\<lparr>R_rax := a\<rparr>)) s)
      else if syscall_num = 15 then bindE (sys_munmap s arg1) (\<lambda>s. returnS (Resume f) s)
      else if syscall_num = 16 then bindS (sys_chdir al s arg1) (\<lambda>b s. returnS (bool_result f b) s)
      else if syscall_num = 17 then bindS (sys_mkdir al junk garbage s arg1) (\<lambda>b s. returnS (bool_result f b) s)
      else if syscall_num = 18 then bindE (sys_readdir s (int_arg arg1) arg2) (\<lambda>(b, s). returnS (bool_result f b) s)
      else if syscall_num = 19 then bindE (sys_isdir s (int_arg arg1)) (\<lambda>b. returnS (bool_result f b) s)
      else if syscall_num = 20 then bindE (sys_inumber s (int_arg arg1)) (\<lambda>i. returnS (int_result f i) s)
      else if syscall_num = 22 then bindE (sys_dup2 s (int_arg arg1) (int_arg arg2)) (\<lambda>(i, s). returnS (int_result f i) s)
      else ret (Exit (exit_status s), s))"

section \<open>Faults\<close>

definition SEL_KCSEG :: "16 word" where "SEL_KCSEG = 8"
definition PF_P :: u64 where "PF_P = 1"
definition PF_PW :: u64 where "PF_PW = 2"
definition PF_U :: u64 where "PF_U = 4"

text \<open>A fault nobody handled ends a user program and stops the kernel when it happened there.\<close>

definition kill :: "proc \<Rightarrow> intr_frame \<Rightarrow> unit sys" where
  "kill s f =
     (if if_cs f = SEL_UCSEG then ret (Exit (- 1), s\<lparr>exit_status := - 1\<rparr>)
      else if if_cs f = SEL_KCSEG then fail Panicked
      else ret (Exit (exit_status s), s))"

definition page_fault :: "proc \<Rightarrow> intr_frame \<Rightarrow> ptr \<Rightarrow> u64 \<Rightarrow> unit sys" where
  "page_fault s f fault_addr error_code =
     (let s = (if if_cs f = SEL_UCSEG then s\<lparr>vm := (vm s)\<lparr>user_rsp := if_rsp f\<rparr>\<rparr> else s);
          not_present = (error_code AND PF_P = 0); wr = (error_code AND PF_PW \<noteq> 0); user = (error_code AND PF_U \<noteq> 0) in
      bindE (vm_try_handle_fault (vm s) fault_addr user wr not_present) (\<lambda>(handled, v).
      let s = s\<lparr>vm := v\<rparr> in if handled then returnS () s else kill s f))"

text \<open>A call for the program that resumes: number and three arguments.\<close>

definition call :: "intr_frame \<Rightarrow> u64 \<Rightarrow> int \<Rightarrow> u64 \<Rightarrow> u64 \<Rightarrow> intr_frame" where
  "call f n a b c = f\<lparr>R_rax := n, R_rdi := word_of_int a, R_rsi := b, R_rdx := c\<rparr>"

lemma ucast_low:
  "ucast (word_of_int k :: u64) = (word_of_int k :: u32)" "ucast (of_nat n :: u64) = (of_nat n :: u32)"
  by (rule bit_word_eqI, simp add: bit_simps)+

lemma int_arg_of_int: "in_int32 a \<Longrightarrow> int_arg (word_of_int a) = a"
  by (simp add: int_arg_def ucast_low sint_word_of_int32)


definition sample_regs :: regs where
  "sample_regs = \<lparr>rip = 0, rsp = 0, rdi = 0, rsi = 0\<rparr>"

definition sample_frame :: intr_frame where
  "sample_frame = \<lparr>R_rax = 0, R_rdi = 0, R_rsi = 0, R_rdx = 0, R_r10 = 0, R_r8 = 0, R_r9 = 0, if_cs = SEL_UCSEG, if_rsp = 0x4747EF00\<rparr>"


section \<open>Closing everything\<close>

text \<open>
  The files of a process, all and those on an inode; what must hold so that they can be closed: every inode in memory
  is open at least as often as the process has files on it, and no file of the process is on a removed inode or denies writes.
\<close>

definition own_files :: "proc \<Rightarrow> ptr set" where
  "own_files s = {p. \<not> special p \<and> fds_on s p \<noteq> {}}"

definition files_on :: "proc \<Rightarrow> ptr \<Rightarrow> ptr set" where
  "files_on s q = {p \<in> own_files s. map_option f_inode (files_of s p) = Some q}"

definition closable :: "proc \<Rightarrow> bool" where
  "closable s \<longleftrightarrow>
     (\<forall>q i. inodes (fsys_of s) q = Some i \<longrightarrow> q \<noteq> NULL \<and> 0 < open_cnt i \<and> int (card (files_on s q)) \<le> open_cnt i) \<and>
     (\<forall>p \<in> own_files s. \<forall>f. files_of s p = Some f \<longrightarrow> \<not> deny_write f \<and>
        (\<exists>i. inodes (fsys_of s) (f_inode f) = Some i \<and> d_magic (i_data i) = INODE_MAGIC \<and> \<not> removed i))"

text \<open>How often an inode is open apart from the files of the process.\<close>

definition others :: "proc \<Rightarrow> ptr \<Rightarrow> int" where
  "others s q = (case inodes (fsys_of s) q of None \<Rightarrow> 0 | Some i \<Rightarrow> open_cnt i - int (card (files_on s q)))"

lemma finite_files_on [simp]: "finite (files_on s q)"
proof -
  have "files_on s q \<subseteq> fd_table s ` {0..<MAX_FD}" by (auto simp: files_on_def own_files_def fds_on_def)
  then show ?thesis by (rule finite_subset) simp
qed

text \<open>What one or more closed descriptors leave as it was.\<close>

definition only_closed :: "proc \<Rightarrow> proc \<Rightarrow> bool" where
  "only_closed s s' \<longleftrightarrow> others s' = others s \<and> fatfs (fsys_of s') = fatfs (fsys_of s) \<and> filesys_disk (fsys_of s') = filesys_disk (fsys_of s) \<and>
     own_files s' \<subseteq> own_files s \<and> (\<forall>p \<in> own_files s - own_files s'. files_of s' p = None) \<and>
     (\<forall>p. p \<notin> own_files s \<longrightarrow> files_of s' p = files_of s p)"

lemma only_closed_refl: "only_closed s s"
  by (simp add: only_closed_def)

lemma only_closed_trans: "only_closed s t \<Longrightarrow> only_closed t u \<Longrightarrow> only_closed s u"
  by (auto simp: only_closed_def) (metis DiffI)

lemma file_close_plain:
  assumes "\<not> deny_write f" "f_inode f \<noteq> NULL" "inodes fs (f_inode f) = Some i" "d_magic (i_data i) = INODE_MAGIC" "\<not> removed i"
  obtains fs' where "file_close fs (Some f) = ret fs'" "fatfs fs' = fatfs fs" "filesys_disk fs' = filesys_disk fs"
    "inodes fs' = (inodes fs)(f_inode f := if open_cnt i = 1 then None else Some (i\<lparr>open_cnt := open_cnt i - 1\<rparr>))"
proof (cases "open_cnt i = 1")
  case True
  then show thesis using assms
    by (intro that [of "fs\<lparr>open_inodes := remove1 (f_inode f) (open_inodes fs), inodes := (inodes fs)(f_inode f := None)\<rparr>"])
       (simp_all add: file_close_def file_allow_write_def inode_close_def the_inode_def Let_def)
next
  case False
  then show thesis using assms
    by (intro that [of "put_inode fs (f_inode f) (i\<lparr>open_cnt := open_cnt i - 1\<rparr>)"])
       (simp_all add: file_close_def file_allow_write_def inode_close_def the_inode_def put_inode_def Let_def)
qed

lemma fds_on_closed:
  assumes "0 \<le> fd" "fd < MAX_FD" "fd_table s' = (fd_table s)(fd := NULL)" "p \<noteq> NULL"
  shows "fds_on s' p = fds_on s p - {fd}"
  using assms by (auto simp: fds_on_def)

lemma close_special_step:
  assumes "closable s" "0 \<le> fd" "fd < MAX_FD" "special (fd_table s fd)" "sys_close s fd = ret s'"
  shows "closable s' \<and> only_closed s s'"
proof -
  have s': "s' = s\<lparr>fd_table := (fd_table s)(fd := NULL),
     stdin_count := (if fd_table s fd = STDIN then int32 (stdin_count s - 1) else stdin_count s),
     stdout_count := (if fd_table s fd = STDOUT then int32 (stdout_count s - 1) else stdout_count s)\<rparr>"
    using assms(5) sys_close_special [OF assms(2-4)] by simp
  have sub: "fds_on s' p = fds_on s p - {fd}" if "p \<noteq> NULL" for p using fds_on_closed [OF assms(2,3) _ that] s' by simp
  have on: "fds_on s' p = fds_on s p" if "\<not> special p" for p using sub [of p] that assms(4) by (auto simp: fds_on_def)
  have same: "files_of s' = files_of s" "fsys_of s' = fsys_of s" by (simp_all add: s')
  have own: "own_files s' = own_files s" using on by (auto simp: own_files_def)
  have files: "files_on s' = files_on s" by (simp add: fun_eq_iff files_on_def same own)
  have "closable s'" using assms(1) unfolding closable_def same files own .
  moreover have "others s' = others s" by (rule ext) (unfold others_def same files, rule refl)
  then have "only_closed s s'" by (simp add: only_closed_def same own)
  ultimately show ?thesis by simp
qed

lemma closableD:
  assumes "closable s"
  shows "inodes (fsys_of s) q = Some i \<Longrightarrow> q \<noteq> NULL" "inodes (fsys_of s) q = Some i \<Longrightarrow> 0 < open_cnt i"
    "inodes (fsys_of s) q = Some i \<Longrightarrow> int (card (files_on s q)) \<le> open_cnt i"
    "p \<in> own_files s \<Longrightarrow> files_of s p = Some f \<Longrightarrow> \<not> deny_write f"
    "p \<in> own_files s \<Longrightarrow> files_of s p = Some f \<Longrightarrow> \<exists>i. inodes (fsys_of s) (f_inode f) = Some i \<and> d_magic (i_data i) = INODE_MAGIC \<and> \<not> removed i"
  using assms unfolding closable_def by blast+

text \<open>The last descriptor of a file goes away: the inode is open once less.\<close>

lemma close_last_step:
  assumes c: "closable s" and fd: "0 \<le> fd" "fd < MAX_FD" "\<not> special (fd_table s fd)" "fds_on s (fd_table s fd) = {fd}"
    and f: "files_of s (fd_table s fd) = Some f" "dup_count f = 1"
  shows "\<exists>fs s'. file_close (fsys_of s) (Some f) = ret fs \<and> sys_close s fd = ret s' \<and> closable s' \<and> only_closed s s'"
proof -
  let ?p = "fd_table s fd" and ?q = "f_inode f"
  have p: "?p \<in> own_files s" using fd by (simp add: own_files_def)
  from closableD(5) [OF c p f(1)] obtain i where i: "inodes (fsys_of s) ?q = Some i" "d_magic (i_data i) = INODE_MAGIC" "\<not> removed i" by blast
  obtain fs where fs: "file_close (fsys_of s) (Some f) = ret fs" "fatfs fs = fatfs (fsys_of s)" "filesys_disk fs = filesys_disk (fsys_of s)"
    "inodes fs = (inodes (fsys_of s))(?q := if open_cnt i = 1 then None else Some (i\<lparr>open_cnt := open_cnt i - 1\<rparr>))"
    by (rule file_close_plain [OF closableD(4) [OF c p f(1)] closableD(1) [OF c i(1)] i])
  define s' where "s' = (drop_ref s ?p f 1 fs)\<lparr>fd_table := (fd_table s)(fd := NULL)\<rparr>"
  have e: "sys_close s fd = ret s'" unfolding s'_def using fd f fs(1) by (intro sys_close_file) simp_all
  have fl: "files_of s' = (files_of s)(?p := None)" and fy: "fsys_of s' = fs" by (simp_all add: s'_def)
  have on: "fds_on s' x = fds_on s x - {fd}" if "x \<noteq> NULL" for x using fds_on_closed [OF fd(1,2) _ that] by (simp add: s'_def)
  have "fds_on s x - {fd} = fds_on s x" if "x \<noteq> ?p" for x using that by (auto simp: fds_on_def)
  then have own: "own_files s' = own_files s - {?p}" using on fd(4) by (auto simp: own_files_def)
  have files: "files_on s' x = files_on s x - {?p}" for x by (auto simp: files_on_def own fl)
  have mem: "?p \<in> files_on s x \<longleftrightarrow> x = ?q" for x using p f by (auto simp: files_on_def)
  have k: "card (files_on s' x) = card (files_on s x) - (if x = ?q then 1 else 0)" for x using files [of x] mem [of x] by (cases "x = ?q") simp_all
  have pos: "0 < card (files_on s ?q)" using mem [of ?q] by (auto simp: card_gt_0_iff)
  have le: "int (card (files_on s ?q)) \<le> open_cnt i" by (rule closableD(3) [OF c i(1)])
  have "closable s'" unfolding closable_def fy
  proof (intro conjI allI impI ballI)
    fix x j assume "inodes fs x = Some j"
    then have x: "x = ?q \<and> open_cnt i \<noteq> 1 \<and> j = i\<lparr>open_cnt := open_cnt i - 1\<rparr> \<or> x \<noteq> ?q \<and> inodes (fsys_of s) x = Some j"
      by (auto simp: fs(4) split: if_splits)
    then show "x \<noteq> NULL" using closableD(1) [OF c i(1)] closableD(1) [OF c, of x j] by auto
    from x show "0 < open_cnt j" using closableD(2) [OF c i(1)] closableD(2) [OF c, of x j] by auto
    from x show "int (card (files_on s' x)) \<le> open_cnt j" using closableD(3) [OF c, of x j] k [of x] le pos by auto
  next
    fix x g assume x: "x \<in> own_files s'" "files_of s' x = Some g"
    then have g: "x \<in> own_files s" "files_of s x = Some g" "x \<noteq> ?p" by (auto simp: own fl split: if_splits)
    then show "\<not> deny_write g" by (intro closableD(4) [OF c])
    from closableD(5) [OF c g(1,2)] obtain j where j: "inodes (fsys_of s) (f_inode g) = Some j" "d_magic (i_data j) = INODE_MAGIC" "\<not> removed j" by blast
    have "open_cnt i \<noteq> 1" if "f_inode g = ?q"
    proof -
      have "{x, ?p} \<subseteq> files_on s ?q" using g that mem [of ?q] by (simp add: files_on_def)
      then have "card {x, ?p} \<le> card (files_on s ?q)" by (intro card_mono) simp_all
      then show ?thesis using g(3) le by simp
    qed
    then show "\<exists>j. inodes fs (f_inode g) = Some j \<and> d_magic (i_data j) = INODE_MAGIC \<and> \<not> removed j" using j i by (auto simp: fs(4))
  qed
  moreover have "others s' x = others s x" for x
    using k [of x] pos le i(1) by (cases "inodes (fsys_of s) x"; cases "x = ?q") (auto simp: others_def fy fs(4))
  then have "only_closed s s'" using fs(2,3) p by (auto simp: only_closed_def fun_eq_iff fy own fl)
  ultimately show ?thesis using e fs(1) by blast
qed

lemma close_shared_step:
  assumes c: "closable s" and fd: "0 \<le> fd" "fd < MAX_FD" "\<not> special (fd_table s fd)" "fds_on s (fd_table s fd) \<noteq> {fd}"
    and f: "files_of s (fd_table s fd) = Some f" "dup_count f = int (card (fds_on s (fd_table s fd)))"
  shows "\<exists>s'. sys_close s fd = ret s' \<and> closable s' \<and> only_closed s s'"
proof -
  let ?p = "fd_table s fd"
  define n where "n = card (fds_on s ?p)"
  have m: "fd \<in> fds_on s ?p" using fd by (simp add: fds_on_def)
  have n: "n \<noteq> 1" "1 \<le> n" "n \<le> 1537" using card_fds_1 [OF m] fd(4) m card_fds [of s ?p] by (auto simp: n_def Suc_le_eq card_gt_0_iff)
  define s' where "s' = (drop_ref s ?p f n (fsys_of s))\<lparr>fd_table := (fd_table s)(fd := NULL)\<rparr>"
  have e: "sys_close s fd = ret s'" unfolding s'_def using fd f n by (intro sys_close_file) (simp_all add: n_def)
  have fl: "files_of s' = (files_of s)(?p \<mapsto> f\<lparr>dup_count := int n - 1\<rparr>)" and fy: "fsys_of s' = fsys_of s" using n(1) by (simp_all add: s'_def)
  have on: "fds_on s' x = fds_on s x - {fd}" if "x \<noteq> NULL" for x using fds_on_closed [OF fd(1,2) _ that] by (simp add: s'_def)
  have "fds_on s x - {fd} = fds_on s x" if "x \<noteq> ?p" for x using that by (auto simp: fds_on_def)
  moreover have "fds_on s ?p - {fd} \<noteq> {}" using m fd(4) by blast
  ultimately have "fds_on s' x = {} \<longleftrightarrow> fds_on s x = {}" if "\<not> special x" for x using on [of x] that m by (cases "x = ?p") auto
  then have own: "own_files s' = own_files s" by (auto simp: own_files_def)
  have files: "files_on s' = files_on s" using f(1) by (auto simp: fun_eq_iff files_on_def own fl)
  have p: "?p \<in> own_files s" using fd m by (auto simp: own_files_def)
  have "closable s'" unfolding closable_def fy files own
  proof (intro conjI allI impI ballI)
    fix x g assume x: "x \<in> own_files s" "files_of s' x = Some g"
    then obtain g' where g: "files_of s x = Some g'" "deny_write g = deny_write g'" "f_inode g = f_inode g'" using f(1) by (auto simp: fl split: if_splits)
    then show "\<not> deny_write g" "\<exists>i. inodes (fsys_of s) (f_inode g) = Some i \<and> d_magic (i_data i) = INODE_MAGIC \<and> \<not> removed i"
      using closableD(4,5) [OF c x(1) g(1)] by simp_all
  qed (use closableD(1-3) [OF c] in blast)+
  moreover have "others s' = others s" by (rule ext) (unfold others_def fy files, rule refl)
  then have "only_closed s s'" using p by (auto simp: only_closed_def fy own fl)
  ultimately show ?thesis using e by blast
qed

lemma close_step:
  assumes inv: "fd_inv s" and c: "closable s" and fd: "0 \<le> fd" "fd < MAX_FD"
  shows "\<exists>s'. sys_close s fd = ret s' \<and> fd_inv s' \<and> fd_table s' = (fd_table s)(fd := NULL) \<and> closable s' \<and> only_closed s s'"
proof -
  let ?p = "fd_table s fd"
  have m: "fd \<in> fds_on s ?p" using fd by (simp add: fds_on_def)
  have f: "\<exists>f. files_of s ?p = Some f \<and> dup_count f = int (card (fds_on s ?p))" if "\<not> special ?p" using fd_invD(1) [OF inv that] m by blast
  have last: "\<exists>fs s'. file_close (fsys_of s) (Some f) = ret fs \<and> sys_close s fd = ret s' \<and> closable s' \<and> only_closed s s'"
    if "\<not> special ?p" "fds_on s ?p = {fd}" "files_of s ?p = Some f" for f
    using close_last_step [OF c fd that] f that by auto
  then obtain fs where "\<And>f. \<not> special ?p \<Longrightarrow> fds_on s ?p = {fd} \<Longrightarrow> files_of s ?p = Some f \<Longrightarrow> file_close (fsys_of s) (Some f) = ret fs"
    by (metis option.inject)
  from sys_close_spec [OF inv fd this] obtain s' where s': "sys_close s fd = ret s'" "fd_inv s'" "fd_table s' = (fd_table s)(fd := NULL)" by blast
  have "closable s' \<and> only_closed s s'"
  proof (cases "special ?p")
    case True
    then show ?thesis using close_special_step [OF c fd _ s'(1)] by blast
  next
    case False
    then obtain g where g: "files_of s ?p = Some g" "dup_count g = int (card (fds_on s ?p))" using f by blast
    show ?thesis using last [OF False _ g(1)] close_shared_step [OF c fd False _ g] s'(1) by (cases "fds_on s ?p = {fd}") auto
  qed
  then show ?thesis using s' by blast
qed

lemma close_fds_ok:
  assumes "fd_inv s" "closable s" "set fds \<subseteq> {0..<MAX_FD}"
  shows "\<exists>s'. close_fds s fds = ret s' \<and> fd_inv s' \<and> closable s' \<and> only_closed s s' \<and> fd_table s' = (\<lambda>fd. if fd \<in> set fds then NULL else fd_table s fd)"
  using assms
proof (induction fds arbitrary: s)
  case Nil
  then show ?case by (simp add: only_closed_refl)
next
  case (Cons fd fds)
  have fd: "0 \<le> fd" "fd < MAX_FD" using Cons.prems(3) by simp_all
  show ?case
  proof (cases "fd_table s fd = NULL")
    case True
    from Cons.IH [OF Cons.prems(1,2)] Cons.prems(3) obtain s' where "close_fds s fds = ret s'" "fd_inv s'" "closable s'" "only_closed s s'"
      "fd_table s' = (\<lambda>fd. if fd \<in> set fds then NULL else fd_table s fd)" by auto
    then show ?thesis using True fd by (auto simp: fd_slot_def)
  next
    case False
    from close_step [OF Cons.prems(1,2) fd] obtain t where t: "sys_close s fd = ret t" "fd_inv t" "fd_table t = (fd_table s)(fd := NULL)"
      "closable t" "only_closed s t" by blast
    have "set_fd t fd NULL = ret t" using t(3) fd by (simp add: set_fd_def fun_upd_idem)
    then have e: "close_fds s (fd # fds) = close_fds t fds" using t(1) False fd by (simp add: fd_slot_def)
    from Cons.IH [OF t(2,4)] Cons.prems(3) obtain s' where s': "close_fds t fds = ret s'" "fd_inv s'" "closable s'" "only_closed t s'"
      "fd_table s' = (\<lambda>fd. if fd \<in> set fds then NULL else fd_table t fd)" by auto
    have "fd_table s' = (\<lambda>x. if x \<in> set (fd # fds) then NULL else fd_table s x)" using s'(5) t(3) by auto
    then show ?thesis using s'(1-3) only_closed_trans [OF t(5) s'(4)] unfolding e by blast
  qed
qed

text \<open>
  C6. The loop with which \<open>process_exit\<close> closes the descriptors ends with every slot empty and both console
  counters at zero. Each file of the process is freed, however many descriptors shared it, and no other
  file; each inode stays open exactly as often as others have it open and is dropped from memory when
  nobody has. The allocation table and the disk do not change.
\<close>

theorem exit_closes_files:
  assumes "fd_inv s" "closable s"
  shows "\<exists>s'. close_fds s [0..MAX_FD - 1] = ret s' \<and> (\<forall>fd. 0 \<le> fd \<and> fd < MAX_FD \<longrightarrow> fd_table s' fd = NULL) \<and>
    stdin_count s' = 0 \<and> stdout_count s' = 0 \<and> files_of s' = (\<lambda>p. if p \<in> own_files s then None else files_of s p) \<and>
    (\<forall>q. map_option open_cnt (inodes (fsys_of s') q) = (if others s q = 0 then None else Some (others s q))) \<and>
    fatfs (fsys_of s') = fatfs (fsys_of s) \<and> filesys_disk (fsys_of s') = filesys_disk (fsys_of s)"
proof -
  have "set [0..MAX_FD - 1] \<subseteq> {0..<MAX_FD}" by auto
  from close_fds_ok [OF assms this] obtain s' where
    s': "close_fds s [0..MAX_FD - 1] = ret s'" "fd_inv s'" "closable s'" "only_closed s s'"
      "fd_table s' = (\<lambda>fd. if fd \<in> set [0..MAX_FD - 1] then NULL else fd_table s fd)" by blast
  have t: "fd_table s' fd = NULL" if "0 \<le> fd \<and> fd < MAX_FD" for fd using that s'(5) by simp
  have none: "fds_on s' p = {}" if "p \<noteq> NULL" for p using that t by (auto simp: fds_on_def)
  then have own: "own_files s' = {}" by (auto simp: own_files_def)
  have c: "stdin_count s' = 0" "stdout_count s' = 0" using fd_invD(2,3) [OF s'(2)] none by simp_all
  have f: "files_of s' = (\<lambda>p. if p \<in> own_files s then None else files_of s p)" using s'(4) own by (auto simp: only_closed_def)
  have o: "others s' q = others s q" for q using s'(4) by (simp add: only_closed_def)
  have i: "map_option open_cnt (inodes (fsys_of s') q) = (if others s q = 0 then None else Some (others s q))" for q
    unfolding o [symmetric] using closableD(2) [OF s'(3), of q]
    by (cases "inodes (fsys_of s') q") (simp_all add: others_def files_on_def own)
  have d: "fatfs (fsys_of s') = fatfs (fsys_of s)" "filesys_disk (fsys_of s') = filesys_disk (fsys_of s)" using s'(4) by (simp_all add: only_closed_def)
  show ?thesis using s'(1) t c f i d by blast
qed

definition sample_exit :: proc where
  "sample_exit = set_fsys sample_proc (sample_fsys\<lparr>inodes := [0x1000 \<mapsto> sample_inode\<lparr>open_cnt := 3\<rparr>]\<rparr>)"

lemma sample_exit_own: "own_files sample_exit = {0x100, 0x200}" "files_on sample_exit q = (if q = 0x1000 then {0x100, 0x200} else {})"
proof -
  have "fds_on sample_exit p = fds_on sample_proc p" for p by (simp add: fds_on_def sample_exit_def)
  then show o: "own_files sample_exit = {0x100, 0x200}"
    unfolding own_files_def by (auto simp: sample_fds STDIN_def STDOUT_def split: if_splits)
  have "files_of sample_exit = files_of sample_proc" by (simp add: sample_exit_def)
  then show "files_on sample_exit q = (if q = 0x1000 then {0x100, 0x200} else {})"
    unfolding files_on_def o by (auto simp: sample_files sample_open_def)
qed

theorem exit_closes_files_witness:
  "\<exists>s'. close_fds sample_exit [0..MAX_FD - 1] = ret s' \<and> fd_table s' 3 = NULL \<and> files_of s' 0x100 = None \<and> files_of s' 0x300 = Some (sample_open 1) \<and>
     map_option open_cnt (inodes (fsys_of s') 0x1000) = Some 1"
proof -
  have fy: "fsys_of sample_exit = sample_fsys\<lparr>inodes := [0x1000 \<mapsto> sample_inode\<lparr>open_cnt := 3\<rparr>]\<rparr>" "files_of sample_exit = files_of sample_proc"
    by (simp_all add: sample_exit_def)
  have "fd_inv sample_exit" using sample_inv by (simp add: fd_inv_def fds_on_def sample_exit_def)
  moreover have "closable sample_exit" unfolding closable_def sample_exit_own fy
    by (auto simp: sample_files sample_open_def sample_inode_def split: if_splits)
  moreover have "others sample_exit 0x1000 = 1" unfolding others_def fy sample_exit_own by simp
  ultimately show ?thesis using exit_closes_files [of sample_exit]
    by (auto simp: MAX_FD_def sample_exit_own fy sample_files dest!: spec [of _ "0x1000 :: ptr"])
qed

section \<open>Observations\<close>

text \<open>A command line of 128 characters or more overruns the array \<open>process_exec\<close> copies it to.\<close>

lemma process_exec_overflow:
  assumes "string_user s file_name = ret (line, s')" "MAX_BUF \<le> length line"
  shows "process_exec al s r file_name = fail Out_of_bounds"
  using assms by (simp add: process_exec_def)

text \<open>A call with an unknown number ends the process with the status it was created with.\<close>

lemma unknown_call_exits:
  assumes "20 < R_rax f" "R_rax f \<noteq> 22"
  shows "\<exists>s'. syscall_handler al junk g r s f = ret (Exit (exit_status s), s')"
proof -
  have "R_rax f \<notin> {0, 1, 2, 3, 4, 5, 6, 7, 8, 9, 10, 11, 12, 13, 14, 15, 16, 17, 18, 19, 20}" using assms(1) by auto
  then show ?thesis using assms(2) by (simp add: syscall_handler_def Let_def)
qed

end
