(* ===== verification/Family.thy ===== *)
theory Family
  imports Prelude
begin

text \<open>
  Parents and children (\<open>userprog/process.c\<close>): \<open>process_wait\<close>, the end of \<open>process_exit\<close>, and how \<open>process_fork\<close>
  and \<open>__do_fork\<close> wait for each other. Each function is cut where it may block on a semaphore; any
  interleaving of the parts of any number of processes is a run of the step relation. The theorems show
  that memory that was freed is never used, that a parent gets the status of each child once, and that a
  child whose parent does not wait for it stays in memory forever.
\<close>

section \<open>State\<close>

text \<open>
  Where a thread is: in its program; in \<open>process_wait\<close>, before \<open>sema_down\<close> on the semaphore of a child; in
  \<open>process_fork\<close>, before \<open>sema_down\<close> on its own; as a child in \<open>__do_fork\<close>, before it wakes the parent; in the
  error exit behind that; in \<open>process_exit\<close>, before \<open>sema_up\<close>; and there before the last \<open>sema_down\<close>.
\<close>

datatype place = Running | In_wait ptr | In_fork int | Copying ptr | Failing | Ending | In_exit

text \<open>The members of \<open>struct thread\<close> these functions use; a semaphore is its value.\<close>

record task =
  t_tid :: int
  t_status :: int
  wait_sema :: nat
  free_sema :: nat
  fork_sema :: nat
  t_children :: "ptr list"
  t_at :: place

type_synonym tasks = "ptr \<Rightarrow> task option"

definition TID_ERR :: int where "TID_ERR = - 1"

definition the_task :: "tasks \<Rightarrow> ptr \<Rightarrow> task exec" where
  "the_task T p = (case T p of None \<Rightarrow> fail Null_deref | Some t \<Rightarrow> ret t)"

definition upd :: "tasks \<Rightarrow> ptr \<Rightarrow> (task \<Rightarrow> task) \<Rightarrow> tasks" where
  "upd T p g = T(p := map_option g (T p))"

definition goes :: "tasks \<Rightarrow> ptr \<Rightarrow> place \<Rightarrow> tasks" where
  "goes T p a = upd T p (\<lambda>t. t\<lparr>t_at := a\<rparr>)"

section \<open>Operations\<close>

fun get_my_child :: "tasks \<Rightarrow> ptr list \<Rightarrow> int \<Rightarrow> ptr exec" where
  "get_my_child T [] tid = ret NULL"
| "get_my_child T (c # cs) tid = bindE (the_task T c) (\<lambda>child. if t_tid child = tid then ret c else get_my_child T cs tid)"

text \<open>\<open>process_wait\<close> up to its \<open>sema_down\<close>: the result when it returns at once.\<close>

definition process_wait :: "tasks \<Rightarrow> ptr \<Rightarrow> int \<Rightarrow> (int option \<times> tasks) exec" where
  "process_wait T cur child_tid =
     bindE (the_task T cur) (\<lambda>t.
     if t_children t = [] then ret (Some (- 1), T)
     else
       bindE (get_my_child T (t_children t) child_tid) (\<lambda>child.
       if child = NULL then ret (Some (- 1), T) else ret (None, goes T cur (In_wait child))))"

text \<open>The rest of it, when the semaphore of the child is up; nothing when it is not.\<close>

definition process_wait_end :: "tasks \<Rightarrow> ptr \<Rightarrow> ptr \<Rightarrow> (int \<times> tasks) option exec" where
  "process_wait_end T cur child =
     bindE (the_task T child) (\<lambda>t.
     if wait_sema t = 0 then ret None
     else
       let status = t_status t;
           T = upd T child (\<lambda>t. t\<lparr>wait_sema := wait_sema t - 1\<rparr>);
           T = upd T cur (\<lambda>t. t\<lparr>t_children := remove1 child (t_children t)\<rparr>);
           T = upd T child (\<lambda>t. t\<lparr>free_sema := free_sema t + 1\<rparr>) in
       ret (Some (if status < 0 then - 1 else status, goes T cur Running)))"

text \<open>\<open>sys_exit\<close> stores the status; \<open>process_exit\<close> frees what the process has, raises one semaphore and lowers the other.\<close>

definition store_status :: "tasks \<Rightarrow> ptr \<Rightarrow> int \<Rightarrow> tasks" where
  "store_status T p status = goes (upd T p (\<lambda>t. t\<lparr>t_status := status\<rparr>)) p Ending"

definition exit_up :: "tasks \<Rightarrow> ptr \<Rightarrow> tasks" where
  "exit_up T p = goes (upd T p (\<lambda>t. t\<lparr>wait_sema := wait_sema t + 1\<rparr>)) p In_exit"

text \<open>After \<open>sema_down\<close> the thread is dying, and the scheduler frees its page.\<close>

definition exit_down :: "tasks \<Rightarrow> ptr \<Rightarrow> tasks option exec" where
  "exit_down T p = bindE (the_task T p) (\<lambda>t. ret (if free_sema t = 0 then None else Some (T(p := None))))"

text \<open>The thread \<open>thread_create\<close> makes, at address \<open>new\<close>.\<close>

definition new_task :: "int \<Rightarrow> place \<Rightarrow> task" where
  "new_task tid a = \<lparr>t_tid = tid, t_status = 0, wait_sema = 0, free_sema = 0, fork_sema = 0, t_children = [], t_at = a\<rparr>"

definition create :: "tasks \<Rightarrow> ptr \<Rightarrow> ptr \<Rightarrow> int \<Rightarrow> place \<Rightarrow> tasks" where
  "create T cur new tid a = (upd T cur (\<lambda>t. t\<lparr>t_children := t_children t @ [new]\<rparr>))(new \<mapsto> new_task tid a)"

text \<open>\<open>process_fork\<close> up to its \<open>sema_down\<close>.\<close>

definition process_fork :: "tasks \<Rightarrow> ptr \<Rightarrow> ptr \<Rightarrow> int \<Rightarrow> tasks" where
  "process_fork T cur new tid = goes (create T cur new tid (Copying cur)) cur (In_fork tid)"

text \<open>\<open>__do_fork\<close> wakes the parent, with success or before it goes to \<open>sys_exit\<close>.\<close>

definition fork_up :: "tasks \<Rightarrow> ptr \<Rightarrow> ptr \<Rightarrow> bool \<Rightarrow> tasks exec" where
  "fork_up T child parent ok =
     bindE (the_task T parent) (\<lambda>_.
     ret (goes (upd T parent (\<lambda>t. t\<lparr>fork_sema := fork_sema t + 1\<rparr>)) child (if ok then Running else Failing)))"

text \<open>The rest of \<open>process_fork\<close>.\<close>

definition process_fork_end :: "tasks \<Rightarrow> ptr \<Rightarrow> int \<Rightarrow> (int \<times> tasks) option exec" where
  "process_fork_end T cur child_tid =
     bindE (the_task T cur) (\<lambda>t.
     if fork_sema t = 0 then ret None
     else
       let T = upd T cur (\<lambda>t. t\<lparr>fork_sema := fork_sema t - 1\<rparr>) in
       bindE (get_my_child T (t_children t) child_tid) (\<lambda>child.
       bindE (the_task T child) (\<lambda>ct.
       ret (Some (if t_status ct = TID_ERR then TID_ERR else child_tid, goes T cur Running)))))"

section \<open>Runs\<close>

text \<open>What happened: a process ended with a status, a parent got a status, a call returned a number.\<close>

datatype event = Exited int int | Reaped int int | Forked int int

record family =
  tasks :: tasks
  next_tid :: int
  log :: "event list"

definition is_at :: "family \<Rightarrow> ptr \<Rightarrow> place \<Rightarrow> bool" where
  "is_at s p a \<longleftrightarrow> map_option t_at (tasks s p) = Some a"

definition tid_of :: "family \<Rightarrow> ptr \<Rightarrow> int" where
  "tid_of s p = (case tasks s p of None \<Rightarrow> TID_ERR | Some t \<Rightarrow> t_tid t)"

inductive fstep :: "family \<Rightarrow> family \<Rightarrow> bool" where
  wait_return: "is_at s p Running \<Longrightarrow> process_wait (tasks s) p i = ret (Some r, T) \<Longrightarrow> fstep s (s\<lparr>tasks := T\<rparr>)"
| wait_begin: "is_at s p Running \<Longrightarrow> process_wait (tasks s) p i = ret (None, T) \<Longrightarrow> fstep s (s\<lparr>tasks := T\<rparr>)"
| wait_finish: "is_at s p (In_wait c) \<Longrightarrow> process_wait_end (tasks s) p c = ret (Some (r, T)) \<Longrightarrow>
    fstep s (s\<lparr>tasks := T, log := log s @ [Reaped (tid_of s c) r]\<rparr>)"
| sys_exit: "is_at s p Running \<Longrightarrow> fstep s (s\<lparr>tasks := store_status (tasks s) p r, log := log s @ [Exited (tid_of s p) r]\<rparr>)"
| fork_exit: "is_at s p Failing \<Longrightarrow>
    fstep s (s\<lparr>tasks := store_status (tasks s) p TID_ERR, log := log s @ [Exited (tid_of s p) TID_ERR]\<rparr>)"
| exit_raise: "is_at s p Ending \<Longrightarrow> fstep s (s\<lparr>tasks := exit_up (tasks s) p\<rparr>)"
| exit_finish: "is_at s p In_exit \<Longrightarrow> exit_down (tasks s) p = ret (Some T) \<Longrightarrow> fstep s (s\<lparr>tasks := T\<rparr>)"
| fork_begin: "is_at s p Running \<Longrightarrow> tasks s c = None \<Longrightarrow> c \<noteq> NULL \<Longrightarrow>
    fstep s (s\<lparr>tasks := process_fork (tasks s) p c (next_tid s), next_tid := next_tid s + 1\<rparr>)"
| spawn: "is_at s p Running \<Longrightarrow> tasks s c = None \<Longrightarrow> c \<noteq> NULL \<Longrightarrow>
    fstep s (s\<lparr>tasks := create (tasks s) p c (next_tid s) Running, next_tid := next_tid s + 1\<rparr>)"
| copied: "is_at s c (Copying p) \<Longrightarrow> fork_up (tasks s) c p ok = ret T \<Longrightarrow> fstep s (s\<lparr>tasks := T\<rparr>)"
| fork_finish: "is_at s p (In_fork i) \<Longrightarrow> process_fork_end (tasks s) p i = ret (Some (r, T)) \<Longrightarrow>
    fstep s (s\<lparr>tasks := T, log := log s @ [Forked i r]\<rparr>)"

text \<open>In the beginning there is the first thread.\<close>

definition start :: "ptr \<Rightarrow> family" where
  "start main = \<lparr>tasks = [main \<mapsto> new_task 1 Running], next_tid = 2, log = []\<rparr>"

definition reachable :: "family \<Rightarrow> bool" where
  "reachable s \<longleftrightarrow> (\<exists>main. main \<noteq> NULL \<and> fstep\<^sup>*\<^sup>* (start main) s)"

lemma reach_start: "main \<noteq> NULL \<Longrightarrow> reachable (start main)"
  by (auto simp: reachable_def)

lemma reach_step: "reachable s \<Longrightarrow> fstep s s' \<Longrightarrow> reachable s'"
  by (auto simp: reachable_def intro: rtranclp.rtrancl_into_rtrancl)

section \<open>Children stay\<close>

lemmas task_ops = the_task_def upd_def goes_def

text \<open>
  The structure of a family. A child is in one list, once, its memory is not free, and it has raised its
  semaphore if and only if it is at the end of \<open>process_exit\<close>. A parent waits for a child in its list.
\<close>

definition tree :: "tasks \<Rightarrow> int \<Rightarrow> bool" where
  "tree T n \<longleftrightarrow>
     (\<forall>p t. T p = Some t \<longrightarrow> p \<noteq> NULL \<and> t_tid t < n \<and> distinct (t_children t)) \<and>
     (\<forall>p t c. T p = Some t \<longrightarrow> c \<in> set (t_children t) \<longrightarrow>
        c \<noteq> p \<and> (\<exists>u. T c = Some u \<and> free_sema u = 0 \<and> wait_sema u = (if t_at u = In_exit then 1 else 0))) \<and>
     (\<forall>p q t u c. T p = Some t \<longrightarrow> T q = Some u \<longrightarrow> c \<in> set (t_children t) \<longrightarrow> c \<in> set (t_children u) \<longrightarrow> p = q) \<and>
     (\<forall>p q t u. T p = Some t \<longrightarrow> T q = Some u \<longrightarrow> t_tid t = t_tid u \<longrightarrow> p = q) \<and>
     (\<forall>p t c. T p = Some t \<longrightarrow> t_at t = In_wait c \<longrightarrow> c \<in> set (t_children t))"

lemma treeD:
  assumes "tree T n" "T p = Some t"
  shows "p \<noteq> NULL" "t_tid t < n" "distinct (t_children t)" "c \<in> set (t_children t) \<Longrightarrow> c \<noteq> p"
    "c \<in> set (t_children t) \<Longrightarrow> \<exists>u. T c = Some u \<and> free_sema u = 0 \<and> wait_sema u = (if t_at u = In_exit then 1 else 0)"
    "T q = Some u \<Longrightarrow> c \<in> set (t_children t) \<Longrightarrow> c \<in> set (t_children u) \<Longrightarrow> p = q"
    "T q = Some u \<Longrightarrow> t_tid t = t_tid u \<Longrightarrow> p = q" "t_at t = In_wait c \<Longrightarrow> c \<in> set (t_children t)"
proof -
  note tr = assms(1) [unfolded tree_def]
  note c = tr [THEN conjunct1, rule_format, OF assms(2)] tr [THEN conjunct2, THEN conjunct1, rule_format, OF assms(2)]
    tr [THEN conjunct2, THEN conjunct2, THEN conjunct1, rule_format, OF assms(2)]
    tr [THEN conjunct2, THEN conjunct2, THEN conjunct2, THEN conjunct1, rule_format, OF assms(2)]
    tr [THEN conjunct2, THEN conjunct2, THEN conjunct2, THEN conjunct2, rule_format, OF assms(2)]
  show "p \<noteq> NULL" "t_tid t < n" "distinct (t_children t)" using c(1) by simp_all
  show "c \<in> set (t_children t) \<Longrightarrow> c \<noteq> p" by (rule c(2) [THEN conjunct1])
  show "c \<in> set (t_children t) \<Longrightarrow> \<exists>u. T c = Some u \<and> free_sema u = 0 \<and> wait_sema u = (if t_at u = In_exit then 1 else 0)"
    by (rule c(2) [THEN conjunct2])
  show "T q = Some u \<Longrightarrow> c \<in> set (t_children t) \<Longrightarrow> c \<in> set (t_children u) \<Longrightarrow> p = q" by (rule c(3))
  show "T q = Some u \<Longrightarrow> t_tid t = t_tid u \<Longrightarrow> p = q" by (rule c(4))
  show "t_at t = In_wait c \<Longrightarrow> c \<in> set (t_children t)" by (rule c(5))
qed

text \<open>A change of one task that keeps its number, its children and the claim of its memory.\<close>

lemma tree_upd:
  assumes tr: "tree T n" and p: "T p = Some t" "t_tid t' = t_tid t" "t_children t' = t_children t" "free_sema t' = free_sema t"
    and w: "wait_sema t = (if t_at t = In_exit then 1 else 0) \<Longrightarrow> wait_sema t' = (if t_at t' = In_exit then 1 else 0)"
    and a: "\<And>c. t_at t' = In_wait c \<Longrightarrow> c \<in> set (t_children t)"
  shows "tree (T(p \<mapsto> t')) n"
  unfolding tree_def
proof (intro conjI allI impI)
  have old: "\<exists>u. T q = Some u \<and> t_tid v = t_tid u \<and> t_children v = t_children u \<and> (q = p \<and> v = t' \<and> u = t \<or> q \<noteq> p \<and> v = u)"
    if "(T(p \<mapsto> t')) q = Some v" for q v using that p by (auto split: if_splits)
  fix q v assume q: "(T(p \<mapsto> t')) q = Some v"
  from old [OF q] obtain u where u: "T q = Some u" "t_tid v = t_tid u" "t_children v = t_children u" "q = p \<and> v = t' \<and> u = t \<or> q \<noteq> p \<and> v = u" by blast
  show "q \<noteq> NULL" "t_tid v < n" "distinct (t_children v)" using treeD(1-3) [OF tr u(1)] u by simp_all
  show "c \<noteq> q" if "c \<in> set (t_children v)" for c using treeD(4) [OF tr u(1), of c] that u(3) by simp
  show "\<exists>x. (T(p \<mapsto> t')) c = Some x \<and> free_sema x = 0 \<and> wait_sema x = (if t_at x = In_exit then 1 else 0)" if "c \<in> set (t_children v)" for c
    using treeD(5) [OF tr u(1), of c] that u(3) p(1,4) w by auto
  show "c \<in> set (t_children v)" if "t_at v = In_wait c" for c using treeD(8) [OF tr u(1), of c] a [of c] u that by auto
  fix q' v' assume q': "(T(p \<mapsto> t')) q' = Some v'"
  from old [OF q'] obtain u' where u': "T q' = Some u'" "t_tid v' = t_tid u'" "t_children v' = t_children u'" by blast
  show "q = q'" if "c \<in> set (t_children v)" "c \<in> set (t_children v')" for c
    by (rule treeD(6) [OF tr u(1) u'(1), of c]) (use that u(3) u'(3) in simp_all)
  show "q = q'" if "t_tid v = t_tid v'" by (rule treeD(7) [OF tr u(1) u'(1)]) (use that u(2) u'(2) in simp)
qed

lemma tree_goes:
  assumes "tree T n" "T p = Some t" "t_at t \<noteq> In_exit" "a \<noteq> In_exit" "\<And>c. a = In_wait c \<Longrightarrow> c \<in> set (t_children t)"
  shows "tree (goes T p a) n"
  unfolding goes_def upd_def using assms by (simp, intro tree_upd [where t = t]) auto

text \<open>A task that may go is in no list.\<close>

lemma tree_free:
  assumes tr: "tree T n" and p: "T p = Some t" "free_sema t \<noteq> 0"
  shows "tree (T(p := None)) n"
  unfolding tree_def
proof (intro conjI allI impI)
  have np: "p \<notin> set (t_children u)" if "T q = Some u" for q u using treeD(5) [OF tr that, of p] p by auto
  fix q v assume "(T(p := None)) q = Some v"
  then have q: "T q = Some v" "q \<noteq> p" by (auto split: if_splits)
  note d = treeD [OF tr q(1)]
  show "q \<noteq> NULL" "t_tid v < n" "distinct (t_children v)" by (rule d)+
  show "c \<noteq> q" if "c \<in> set (t_children v)" for c using d(4) that by simp
  show "\<exists>x. (T(p := None)) c = Some x \<and> free_sema x = 0 \<and> wait_sema x = (if t_at x = In_exit then 1 else 0)" if "c \<in> set (t_children v)" for c
    using d(5) [OF that] np [OF q(1)] that by auto
  show "c \<in> set (t_children v)" if "t_at v = In_wait c" for c using d(8) that by simp
  fix q' v' assume "(T(p := None)) q' = Some v'"
  then have q': "T q' = Some v'" by (auto split: if_splits)
  show "q = q'" if "c \<in> set (t_children v)" "c \<in> set (t_children v')" for c by (rule d(6) [OF q' that])
  show "q = q'" if "t_tid v = t_tid v'" by (rule d(7) [OF q' that])
qed

text \<open>The parent takes a child out of its list.\<close>

lemma tree_unlink:
  assumes tr: "tree T n" and p: "T p = Some t" "c \<in> set (t_children t)" "t_children t' = remove1 c (t_children t)" "t_tid t' = t_tid t"
    "free_sema t' = free_sema t" "wait_sema t' = wait_sema t" "t_at t = In_exit \<longleftrightarrow> t_at t' = In_exit" "\<And>x. t_at t' \<noteq> In_wait x"
    and u: "T c = Some u" "t_tid u' = t_tid u" "t_children u' = t_children u" "t_at u' = t_at u"
  shows "tree (T(c \<mapsto> u', p \<mapsto> t')) n"
  unfolding tree_def
proof (intro conjI allI impI)
  have cp: "c \<noteq> p" by (rule treeD(4) [OF tr p(1,2)])
  have ch: "set (t_children t') = set (t_children t) - {c}" using treeD(3) [OF tr p(1)] p(3) by simp
  let ?T = "T(c \<mapsto> u', p \<mapsto> t')"
  have old: "\<exists>w. T q = Some w \<and> t_tid v = t_tid w \<and> set (t_children v) \<subseteq> set (t_children w) \<and> distinct (t_children v) \<and>
      c \<notin> set (t_children v) \<and> (\<forall>x. t_at v = In_wait x \<longrightarrow> t_at w = In_wait x \<and> q \<noteq> p)" if "?T q = Some v" for q v
  proof -
    have "c \<notin> set (t_children w)" if "T q = Some w" "q \<noteq> p" for w using treeD(6) [OF tr p(1) that(1) p(2)] that(2) by blast
    then show ?thesis using that p u ch cp treeD(3) [OF tr] by (auto split: if_splits)
  qed
  fix q v assume q: "?T q = Some v"
  from old [OF q] obtain w where w: "T q = Some w" "t_tid v = t_tid w" "set (t_children v) \<subseteq> set (t_children w)" "distinct (t_children v)"
    "c \<notin> set (t_children v)" "\<And>x. t_at v = In_wait x \<Longrightarrow> t_at w = In_wait x \<and> q \<noteq> p" by blast
  note d = treeD [OF tr w(1)]
  show "q \<noteq> NULL" "t_tid v < n" "distinct (t_children v)" using d(1,2) w(2,4) by simp_all
  show "x \<noteq> q" if "x \<in> set (t_children v)" for x using d(4) that w(3) by blast
  show "\<exists>y. ?T x = Some y \<and> free_sema y = 0 \<and> wait_sema y = (if t_at y = In_exit then 1 else 0)" if x: "x \<in> set (t_children v)" for x
  proof -
    from d(5) [of x] x w(3) obtain y where y: "T x = Some y" "free_sema y = 0" "wait_sema y = (if t_at y = In_exit then 1 else 0)" by blast
    moreover have "x \<noteq> c" using x w(5) by blast
    ultimately show ?thesis using p(1,5-7) by (cases "x = p") auto
  qed
  show "x \<in> set (t_children v)" if x: "t_at v = In_wait x" for x
  proof -
    have "t_at w = In_wait x" "q \<noteq> p" using w(6) [OF x] by simp_all
    then show ?thesis using d(8) q w(1) u(1,3) by (auto split: if_splits)
  qed
  fix q' v' assume q': "?T q' = Some v'"
  from old [OF q'] obtain w' where w': "T q' = Some w'" "t_tid v' = t_tid w'" "set (t_children v') \<subseteq> set (t_children w')" by blast
  show "q = q'" if "x \<in> set (t_children v)" "x \<in> set (t_children v')" for x by (rule d(6) [OF w'(1), of x]) (use that w(3) w'(3) in blast)+
  show "q = q'" if "t_tid v = t_tid v'" by (rule d(7) [OF w'(1)]) (use that w(2) w'(2) in simp)
qed

text \<open>A new child.\<close>

lemma tree_create:
  assumes tr: "tree T n" and p: "T p = Some t" and c: "T c = None" "c \<noteq> NULL" and a: "a \<noteq> In_exit" "\<And>x. a \<noteq> In_wait x"
  shows "tree (create T p c n a) (n + 1)"
  unfolding tree_def
proof (intro conjI allI impI)
  let ?T = "create T p c n a"
  have cp: "c \<noteq> p" using p c by auto
  have nl: "c \<notin> set (t_children u)" if "T q = Some u" for q u using treeD(5) [OF tr that, of c] c(1) by auto
  have old: "q = c \<and> v = new_task n a \<or> q \<noteq> c \<and> (\<exists>w. T q = Some w \<and> t_tid v = t_tid w \<and> t_at v = t_at w \<and> free_sema v = free_sema w \<and> wait_sema v = wait_sema w \<and>
      t_children v = t_children w @ (if q = p then [c] else []))" if "?T q = Some v" for q v
    using that cp p by (auto simp: create_def upd_def split: if_splits)
  fix q v assume q: "?T q = Some v"
  note o = old [OF q]
  show "q \<noteq> NULL" "t_tid v < n + 1" using o c(2) treeD(1,2) [OF tr] by (force simp: new_task_def)+
  show "distinct (t_children v)" using o nl treeD(3) [OF tr] by (auto simp: new_task_def)
  show "x \<noteq> q" if "x \<in> set (t_children v)" for x using o that treeD(4) [OF tr, of q _ x] by (auto simp: new_task_def split: if_splits)
  show "\<exists>y. ?T x = Some y \<and> free_sema y = 0 \<and> wait_sema y = (if t_at y = In_exit then 1 else 0)" if x: "x \<in> set (t_children v)" for x
  proof (cases "x = c")
    case True
    then show ?thesis using a by (simp add: create_def new_task_def)
  next
    case False
    then obtain w where "T q = Some w" "x \<in> set (t_children w)" using o x by (auto simp: new_task_def split: if_splits)
    from treeD(5) [OF tr this] show ?thesis using False p by (auto simp: create_def upd_def)
  qed
  show "x \<in> set (t_children v)" if x: "t_at v = In_wait x" for x using o x a treeD(8) [OF tr] by (auto simp: new_task_def)
  fix q' v' assume q': "?T q' = Some v'"
  note o' = old [OF q']
  show "q = q'" if x: "x \<in> set (t_children v)" "x \<in> set (t_children v')" for x
  proof (cases "x = c")
    case True
    then show ?thesis using x o o' nl by (auto simp: new_task_def split: if_splits)
  next
    case False
    then obtain w w' where "T q = Some w" "x \<in> set (t_children w)" "T q' = Some w'" "x \<in> set (t_children w')"
      using o o' x by (auto simp: new_task_def split: if_splits)
    then show ?thesis using treeD(6) [OF tr] by blast
  qed
  show "q = q'" if i: "t_tid v = t_tid v'"
  proof (cases "q = c \<or> q' = c")
    case True
    then show ?thesis using o o' i by (auto simp: new_task_def dest: treeD(2) [OF tr])
  next
    case False
    then obtain w w' where "T q = Some w" "T q' = Some w'" "t_tid w = t_tid w'" using o o' i by auto
    then show ?thesis using treeD(7) [OF tr] by blast
  qed
qed

section \<open>The operations on a tree\<close>

text \<open>Looking for a child finds the child with the number, if there is one, and never uses free memory.\<close>

lemma get_my_child_ok:
  assumes "\<And>c. c \<in> set cs \<Longrightarrow> \<exists>u. T c = Some u"
  shows "\<exists>c. get_my_child T cs i = ret c \<and> (c = NULL \<and> (\<forall>d \<in> set cs. \<forall>u. T d = Some u \<longrightarrow> t_tid u \<noteq> i) \<or> c \<in> set cs \<and> (\<exists>u. T c = Some u \<and> t_tid u = i))"
  using assms
proof (induction cs)
  case (Cons d cs)
  obtain u where u: "T d = Some u" using Cons.prems [of d] by auto
  show ?case
  proof (cases "t_tid u = i")
    case False
    from Cons.IH Cons.prems obtain c where "get_my_child T cs i = ret c"
      "c = NULL \<and> (\<forall>d \<in> set cs. \<forall>u. T d = Some u \<longrightarrow> t_tid u \<noteq> i) \<or> c \<in> set cs \<and> (\<exists>u. T c = Some u \<and> t_tid u = i)" by auto
    then show ?thesis using u False by (intro exI [of _ c]) (auto simp: the_task_def)
  qed (use u in \<open>auto simp: the_task_def\<close>)
qed simp

lemma tree_child:
  assumes tr: "tree T n" and p: "T p = Some t"
  shows "\<exists>c. get_my_child T (t_children t) i = ret c \<and>
    (c = NULL \<and> (\<forall>d \<in> set (t_children t). \<forall>u. T d = Some u \<longrightarrow> t_tid u \<noteq> i) \<or> c \<in> set (t_children t) \<and> c \<noteq> NULL \<and> (\<exists>u. T c = Some u \<and> t_tid u = i))"
proof -
  have "\<exists>u. T c = Some u" if "c \<in> set (t_children t)" for c using treeD(5) [OF tr p that] by blast
  then have "\<exists>c. get_my_child T (t_children t) i = ret c \<and> (c = NULL \<and> (\<forall>d \<in> set (t_children t). \<forall>u. T d = Some u \<longrightarrow> t_tid u \<noteq> i) \<or>
      c \<in> set (t_children t) \<and> (\<exists>u. T c = Some u \<and> t_tid u = i))" by (rule get_my_child_ok)
  then show ?thesis using treeD(1) [OF tr] by blast
qed

lemma process_wait_cases:
  assumes tr: "tree T n" and p: "T p = Some t"
  shows "process_wait T p i = ret (Some (- 1), T) \<and> (\<forall>d \<in> set (t_children t). \<forall>u. T d = Some u \<longrightarrow> t_tid u \<noteq> i) \<or>
    (\<exists>c u. process_wait T p i = ret (None, goes T p (In_wait c)) \<and> c \<in> set (t_children t) \<and> T c = Some u \<and> t_tid u = i)"
  using tree_child [OF tr p, of i] p by (auto simp: process_wait_def the_task_def)

lemma process_wait_end_eq:
  assumes "T p = Some t" "T c = Some u" "c \<noteq> p"
  shows "process_wait_end T p c = ret (if wait_sema u = 0 then None else
    Some (if t_status u < 0 then - 1 else t_status u,
      T(c \<mapsto> u\<lparr>wait_sema := wait_sema u - 1, free_sema := free_sema u + 1\<rparr>, p \<mapsto> t\<lparr>t_children := remove1 c (t_children t), t_at := Running\<rparr>)))"
  using assms by (auto simp: process_wait_end_def task_ops Let_def fun_eq_iff)

lemma process_fork_end_eq:
  assumes tr: "tree T n" and p: "T p = Some t" "fork_sema t \<noteq> 0" and c: "c \<in> set (t_children t)" "T c = Some u" "t_tid u = i"
  shows "process_fork_end T p i = ret (Some (if t_status u = TID_ERR then TID_ERR else i, T(p \<mapsto> t\<lparr>fork_sema := fork_sema t - 1, t_at := Running\<rparr>)))"
proof -
  let ?T = "T(p \<mapsto> t\<lparr>fork_sema := fork_sema t - 1\<rparr>)"
  have tr': "tree ?T n" using treeD(8) [OF tr p(1)] by (intro tree_upd [OF tr p(1)]) auto
  have cp: "c \<noteq> p" by (rule treeD(4) [OF tr p(1) c(1)])
  have e: "t_children (t\<lparr>fork_sema := fork_sema t - 1\<rparr>) = t_children t" by simp
  have "?T p = Some (t\<lparr>fork_sema := fork_sema t - 1\<rparr>)" by simp
  from tree_child [OF tr' this, of i, unfolded e] obtain d where d: "get_my_child ?T (t_children t) i = ret d"
    "d = NULL \<and> (\<forall>d \<in> set (t_children t). \<forall>u. ?T d = Some u \<longrightarrow> t_tid u \<noteq> i) \<or> d \<in> set (t_children t) \<and> d \<noteq> NULL \<and> (\<exists>u. ?T d = Some u \<and> t_tid u = i)" by blast
  have "?T c = Some u" using c(2) cp by simp
  then have "d = c" using d(2) c treeD(7) [OF tr', of c u d] by blast
  then show ?thesis using d(1) p c cp by (auto simp: process_fork_end_def task_ops Let_def)
qed

text \<open>What a step does to the tasks, with the operations written out.\<close>

lemma atE: "is_at s p a \<Longrightarrow> (\<And>t. tasks s p = Some t \<Longrightarrow> t_at t = a \<Longrightarrow> thesis) \<Longrightarrow> thesis"
  by (auto simp: is_at_def)

lemma goes_eq: "T p = Some t \<Longrightarrow> goes T p a = T(p \<mapsto> t\<lparr>t_at := a\<rparr>)"
  by (simp add: task_ops)

lemma store_status_eq: "T p = Some t \<Longrightarrow> store_status T p r = T(p \<mapsto> t\<lparr>t_status := r, t_at := Ending\<rparr>)"
  by (simp add: store_status_def task_ops)

lemma exit_up_eq: "T p = Some t \<Longrightarrow> exit_up T p = T(p \<mapsto> t\<lparr>wait_sema := wait_sema t + 1, t_at := In_exit\<rparr>)"
  by (simp add: exit_up_def task_ops)

lemma exit_down_eq: "T p = Some t \<Longrightarrow> exit_down T p = ret (if free_sema t = 0 then None else Some (T(p := None)))"
  by (simp add: exit_down_def the_task_def)

lemma fork_up_eq:
  "T p = Some t \<Longrightarrow> T c = Some u \<Longrightarrow> c \<noteq> p \<Longrightarrow>
    fork_up T c p ok = ret (T(p \<mapsto> t\<lparr>fork_sema := fork_sema t + 1\<rparr>, c \<mapsto> u\<lparr>t_at := (if ok then Running else Failing)\<rparr>))"
  by (simp add: fork_up_def task_ops fun_eq_iff)

text \<open>The part of the invariant on forks: the parent waits exactly as long as the child copies.\<close>

definition forks :: "tasks \<Rightarrow> bool" where
  "forks T \<longleftrightarrow>
     (\<forall>p t. T p = Some t \<longrightarrow> (case t_at t of
        In_fork i \<Rightarrow> \<exists>c u. c \<in> set (t_children t) \<and> T c = Some u \<and> t_tid u = i \<and>
          (fork_sema t = 0 \<and> t_at u = Copying p \<or> fork_sema t = 1 \<and> (\<forall>q. t_at u \<noteq> Copying q))
      | _ \<Rightarrow> fork_sema t = 0)) \<and>
     (\<forall>c u p. T c = Some u \<longrightarrow> t_at u = Copying p \<longrightarrow> (\<exists>t. T p = Some t \<and> t_at t = In_fork (t_tid u) \<and> c \<in> set (t_children t)))"

lemma forksD:
  assumes "forks T" "T p = Some t"
  shows "t_at t = In_fork i \<Longrightarrow> \<exists>c u. c \<in> set (t_children t) \<and> T c = Some u \<and> t_tid u = i \<and>
      (fork_sema t = 0 \<and> t_at u = Copying p \<or> fork_sema t = 1 \<and> (\<forall>q. t_at u \<noteq> Copying q))"
    and "(\<And>i. t_at t \<noteq> In_fork i) \<Longrightarrow> fork_sema t = 0"
    and "t_at t = Copying q \<Longrightarrow> \<exists>u. T q = Some u \<and> t_at u = In_fork (t_tid t) \<and> p \<in> set (t_children u)"
proof -
  note f = assms(1) [unfolded forks_def, THEN conjunct1, rule_format, OF assms(2)]
    assms(1) [unfolded forks_def, THEN conjunct2, rule_format, OF assms(2)]
  show "t_at t = In_fork i \<Longrightarrow> \<exists>c u. c \<in> set (t_children t) \<and> T c = Some u \<and> t_tid u = i \<and>
      (fork_sema t = 0 \<and> t_at u = Copying p \<or> fork_sema t = 1 \<and> (\<forall>q. t_at u \<noteq> Copying q))" using f(1) by simp
  show "(\<And>i. t_at t \<noteq> In_fork i) \<Longrightarrow> fork_sema t = 0" using f(1) by (cases "t_at t") auto
  show "t_at t = Copying q \<Longrightarrow> \<exists>u. T q = Some u \<and> t_at u = In_fork (t_tid t) \<and> p \<in> set (t_children u)" by (rule f(2))
qed

lemma forksI:
  assumes "\<And>p t i. T p = Some t \<Longrightarrow> t_at t = In_fork i \<Longrightarrow> \<exists>c u. c \<in> set (t_children t) \<and> T c = Some u \<and> t_tid u = i \<and>
      (fork_sema t = 0 \<and> t_at u = Copying p \<or> fork_sema t = 1 \<and> (\<forall>q. t_at u \<noteq> Copying q))"
    and "\<And>p t. T p = Some t \<Longrightarrow> (\<And>i. t_at t \<noteq> In_fork i) \<Longrightarrow> fork_sema t = 0"
    and "\<And>c u p. T c = Some u \<Longrightarrow> t_at u = Copying p \<Longrightarrow> \<exists>t. T p = Some t \<and> t_at t = In_fork (t_tid u) \<and> c \<in> set (t_children t)"
  shows "forks T"
proof -
  have "case t_at t of In_fork i \<Rightarrow> \<exists>c u. c \<in> set (t_children t) \<and> T c = Some u \<and> t_tid u = i \<and>
      (fork_sema t = 0 \<and> t_at u = Copying p \<or> fork_sema t = 1 \<and> (\<forall>q. t_at u \<noteq> Copying q)) | _ \<Rightarrow> fork_sema t = 0" if "T p = Some t" for p t
    using assms(1) [OF that] assms(2) [OF that] by (cases "t_at t") auto
  then show ?thesis unfolding forks_def using assms(3) by simp
qed

definition plain :: "place \<Rightarrow> bool" where
  "plain a \<longleftrightarrow> (\<forall>i q. a \<noteq> In_fork i \<and> a \<noteq> Copying q)"

lemma forks_upd:
  assumes f: "forks T" and p: "T p = Some t" "plain (t_at t)" "plain (t_at t')" "t_tid t' = t_tid t" "fork_sema t' = fork_sema t"
  shows "forks (T(p \<mapsto> t'))"
proof (rule forksI)
  fix q v assume q: "(T(p \<mapsto> t')) q = Some v"
  show "fork_sema v = 0" if "\<And>i. t_at v \<noteq> In_fork i"
    using q that p forksD(2) [OF f p(1)] forksD(2) [OF f, of q v] by (auto simp: plain_def split: if_splits)
  show "\<exists>c u. c \<in> set (t_children v) \<and> (T(p \<mapsto> t')) c = Some u \<and> t_tid u = i \<and>
      (fork_sema v = 0 \<and> t_at u = Copying q \<or> fork_sema v = 1 \<and> (\<forall>q. t_at u \<noteq> Copying q))" if i: "t_at v = In_fork i" for i
  proof -
    have v: "T q = Some v" "q \<noteq> p" using q i p(3) by (auto simp: plain_def split: if_splits)
    from forksD(1) [OF f v(1) i] obtain c u where cu: "c \<in> set (t_children v)" "T c = Some u" "t_tid u = i"
      "fork_sema v = 0 \<and> t_at u = Copying q \<or> fork_sema v = 1 \<and> (\<forall>q. t_at u \<noteq> Copying q)" by blast
    show ?thesis
    proof (cases "c = p")
      case True
      then have "fork_sema v = 1" using cu(2,4) p(1,2) by (auto simp: plain_def)
      then show ?thesis using True cu p by (intro exI [of _ c] exI [of _ t']) (auto simp: plain_def)
    qed (use cu in auto)
  qed
next
  fix c u q assume c: "(T(p \<mapsto> t')) c = Some u" and a: "t_at u = Copying q"
  then have "T c = Some u" using p(3) by (auto simp: plain_def split: if_splits)
  from forksD(3) [OF f this a] obtain v where v: "T q = Some v" "t_at v = In_fork (t_tid u)" "c \<in> set (t_children v)" by blast
  then have "q \<noteq> p" using p(1,2) by (auto simp: plain_def)
  then show "\<exists>t. (T(p \<mapsto> t')) q = Some t \<and> t_at t = In_fork (t_tid u) \<and> c \<in> set (t_children t)" using v by auto
qed

lemma forks_free:
  assumes f: "forks T" and tr: "tree T n" and p: "T p = Some t" "free_sema t \<noteq> 0" "plain (t_at t)"
  shows "forks (T(p := None))"
proof (rule forksI)
  have np: "p \<notin> set (t_children u)" if "T q = Some u" for q u using treeD(5) [OF tr that, of p] p by auto
  fix q v assume "(T(p := None)) q = Some v"
  then have q: "T q = Some v" by (auto split: if_splits)
  show "fork_sema v = 0" if "\<And>i. t_at v \<noteq> In_fork i" using forksD(2) [OF f q] that by blast
  show "\<exists>c u. c \<in> set (t_children v) \<and> (T(p := None)) c = Some u \<and> t_tid u = i \<and>
      (fork_sema v = 0 \<and> t_at u = Copying q \<or> fork_sema v = 1 \<and> (\<forall>q. t_at u \<noteq> Copying q))" if i: "t_at v = In_fork i" for i
  proof -
    from forksD(1) [OF f q i] obtain c u where cu: "c \<in> set (t_children v)" "T c = Some u" "t_tid u = i"
      "fork_sema v = 0 \<and> t_at u = Copying q \<or> fork_sema v = 1 \<and> (\<forall>q. t_at u \<noteq> Copying q)" by blast
    then show ?thesis using np [OF q] by (intro exI [of _ c] exI [of _ u]) auto
  qed
next
  fix c u q assume c: "(T(p := None)) c = Some u" and a: "t_at u = Copying q"
  then have "T c = Some u" by (auto split: if_splits)
  from forksD(3) [OF f this a] p(1,3) show "\<exists>t. (T(p := None)) q = Some t \<and> t_at t = In_fork (t_tid u) \<and> c \<in> set (t_children t)"
    by (auto simp: plain_def)
qed

text \<open>The child wakes its parent: both are unlike all others.\<close>

lemma forks_up:
  assumes f: "forks T" and tr: "tree T n" and c: "T c = Some u" "t_at u = Copying p" and p: "T p = Some t" and a: "plain a"
  shows "forks (T(p \<mapsto> t\<lparr>fork_sema := fork_sema t + 1\<rparr>, c \<mapsto> u\<lparr>t_at := a\<rparr>))"
proof (rule forksI)
  let ?T = "T(p \<mapsto> t\<lparr>fork_sema := fork_sema t + 1\<rparr>, c \<mapsto> u\<lparr>t_at := a\<rparr>)"
  from forksD(3) [OF f c] p have t: "t_at t = In_fork (t_tid u)" "c \<in> set (t_children t)" by auto
  have cp: "c \<noteq> p" by (rule treeD(4) [OF tr p t(2)])
  from forksD(1) [OF f p t(1)] obtain d w where "T d = Some w" "t_tid w = t_tid u"
    "fork_sema t = 0 \<and> t_at w = Copying p \<or> fork_sema t = 1 \<and> (\<forall>q. t_at w \<noteq> Copying q)" by blast
  moreover have "d = c" by (rule treeD(7) [OF tr calculation(1) c(1) calculation(2)])
  ultimately have z: "fork_sema t = 0" using c by auto
  have uz: "fork_sema u = 0" using forksD(2) [OF f c(1)] c(2) by auto
  fix q v assume q: "?T q = Some v"
  show "fork_sema v = 0" if no: "\<And>i. t_at v \<noteq> In_fork i"
  proof -
    have "q \<noteq> p" using q no [of "t_tid u"] t(1) cp by auto
    then show ?thesis using q uz no forksD(2) [OF f, of q v] by (auto split: if_splits)
  qed
  show "\<exists>x y. x \<in> set (t_children v) \<and> ?T x = Some y \<and> t_tid y = i \<and>
      (fork_sema v = 0 \<and> t_at y = Copying q \<or> fork_sema v = 1 \<and> (\<forall>q. t_at y \<noteq> Copying q))" if i: "t_at v = In_fork i" for i
  proof (cases "q = p")
    case True
    then have v: "v = t\<lparr>fork_sema := fork_sema t + 1\<rparr>" "i = t_tid u" using q cp i t(1) by auto
    show ?thesis using v t(2) z a by (intro exI [of _ c] exI [of _ "u\<lparr>t_at := a\<rparr>"]) (auto simp: plain_def)
  next
    case False
    then have v: "T q = Some v" using q i a by (auto simp: plain_def split: if_splits)
    from forksD(1) [OF f v i] obtain x y where x: "x \<in> set (t_children v)" "T x = Some y" "t_tid y = i"
      "fork_sema v = 0 \<and> t_at y = Copying q \<or> fork_sema v = 1 \<and> (\<forall>q. t_at y \<noteq> Copying q)" by blast
    have "x \<noteq> c" using treeD(6) [OF tr p v t(2)] False x(1) by blast
    then show ?thesis using x t(1) by (intro exI [of _ x] exI [of _ "if x = p then t\<lparr>fork_sema := fork_sema t + 1\<rparr> else y"]) (auto simp: p)
  qed
next
  let ?T = "T(p \<mapsto> t\<lparr>fork_sema := fork_sema t + 1\<rparr>, c \<mapsto> u\<lparr>t_at := a\<rparr>)"
  fix x y q assume x: "?T x = Some y" and y: "t_at y = Copying q"
  then have x': "x \<noteq> c" using a by (auto simp: plain_def)
  then obtain y' where y': "T x = Some y'" "t_at y' = Copying q" "t_tid y' = t_tid y" using x y p by (auto split: if_splits)
  from forksD(3) [OF f y'(1,2)] obtain v where v: "T q = Some v" "t_at v = In_fork (t_tid y)" "x \<in> set (t_children v)" using y'(3) by auto
  have "q \<noteq> c" using v c by auto
  then show "\<exists>t. ?T q = Some t \<and> t_at t = In_fork (t_tid y) \<and> x \<in> set (t_children t)" using v p by auto
qed

text \<open>The parent goes on.\<close>

lemma forks_end:
  assumes f: "forks T" and tr: "tree T n" and p: "T p = Some t" "t_at t = In_fork i" "fork_sema t = 1"
  shows "forks (T(p \<mapsto> t\<lparr>fork_sema := fork_sema t - 1, t_at := Running\<rparr>))"
proof (rule forksI)
  let ?t = "t\<lparr>fork_sema := fork_sema t - 1, t_at := Running\<rparr>"
  fix q v assume q: "(T(p \<mapsto> ?t)) q = Some v"
  show "fork_sema v = 0" if "\<And>i. t_at v \<noteq> In_fork i" using q that p(3) forksD(2) [OF f, of q v] by (auto split: if_splits)
  show "\<exists>c u. c \<in> set (t_children v) \<and> (T(p \<mapsto> ?t)) c = Some u \<and> t_tid u = j \<and>
      (fork_sema v = 0 \<and> t_at u = Copying q \<or> fork_sema v = 1 \<and> (\<forall>q. t_at u \<noteq> Copying q))" if j: "t_at v = In_fork j" for j
  proof -
    have v: "T q = Some v" using q j by (auto split: if_splits)
    from forksD(1) [OF f v j] obtain c u where cu: "c \<in> set (t_children v)" "T c = Some u" "t_tid u = j"
      "fork_sema v = 0 \<and> t_at u = Copying q \<or> fork_sema v = 1 \<and> (\<forall>q. t_at u \<noteq> Copying q)" by blast
    show ?thesis using cu p by (intro exI [of _ c] exI [of _ "if c = p then ?t else u"]) auto
  qed
next
  let ?t = "t\<lparr>fork_sema := fork_sema t - 1, t_at := Running\<rparr>"
  fix c u q assume c: "(T(p \<mapsto> ?t)) c = Some u" and a: "t_at u = Copying q"
  then have c': "T c = Some u" "c \<noteq> p" by (auto split: if_splits)
  from forksD(3) [OF f c'(1) a] obtain v where v: "T q = Some v" "t_at v = In_fork (t_tid u)" "c \<in> set (t_children v)" by blast
  have "q \<noteq> p"
  proof
    assume "q = p"
    then have t: "t_at t = In_fork (t_tid u)" using v p by auto
    from forksD(1) [OF f p(1) t] obtain d w where d: "T d = Some w" "t_tid w = t_tid u" "\<forall>q. t_at w \<noteq> Copying q" using p(3) by auto
    have "d = c" by (rule treeD(7) [OF tr d(1) c'(1) d(2)])
    then show False using d c'(1) a by simp
  qed
  then show "\<exists>t. (T(p \<mapsto> ?t)) q = Some t \<and> t_at t = In_fork (t_tid u) \<and> c \<in> set (t_children t)" using v by auto
qed

lemma forks_create:
  assumes f: "forks T" and tr: "tree T n" and p: "T p = Some t" "plain (t_at t)" and c: "T c = None" "c \<noteq> NULL"
  shows "forks (create T p c n Running)" "forks (process_fork T p c n)"
proof -
  have cp: "c \<noteq> p" using p c by auto
  have nl: "c \<notin> set (t_children u)" if "T q = Some u" for q u using treeD(5) [OF tr that, of c] c(1) by auto
  have tz: "fork_sema t = 0" using forksD(2) [OF f p(1)] p(2) by (auto simp: plain_def)
  let ?t = "\<lambda>a. t\<lparr>t_children := t_children t @ [c], t_at := a\<rparr>"
  have e: "create T p c n Running = T(p \<mapsto> ?t (t_at t), c \<mapsto> new_task n Running)" "process_fork T p c n = T(p \<mapsto> ?t (In_fork n), c \<mapsto> new_task n (Copying p))"
    using p(1) cp by (auto simp: create_def process_fork_def task_ops fun_eq_iff)
  have g: "forks (T(p \<mapsto> ?t a, c \<mapsto> new_task n b))" if ab: "a = In_fork n \<and> b = Copying p \<or> plain a \<and> plain b" for a b
  proof (rule forksI)
    let ?T = "T(p \<mapsto> ?t a, c \<mapsto> new_task n b)"
    fix q v assume q: "?T q = Some v"
    show "fork_sema v = 0" if "\<And>i. t_at v \<noteq> In_fork i"
      using q that tz forksD(2) [OF f, of q v] by (auto simp: new_task_def split: if_splits)
    show "\<exists>x y. x \<in> set (t_children v) \<and> ?T x = Some y \<and> t_tid y = j \<and>
        (fork_sema v = 0 \<and> t_at y = Copying q \<or> fork_sema v = 1 \<and> (\<forall>q. t_at y \<noteq> Copying q))" if j: "t_at v = In_fork j" for j
    proof (cases "q = p")
      case True
      then have "v = ?t a" "a = In_fork j" using q cp j by auto
      then show ?thesis using True ab tz by (intro exI [of _ c] exI [of _ "new_task n b"]) (auto simp: new_task_def plain_def)
    next
      case False
      then have v: "T q = Some v" using q j ab by (auto simp: new_task_def plain_def split: if_splits)
      from forksD(1) [OF f v j] obtain x y where x: "x \<in> set (t_children v)" "T x = Some y" "t_tid y = j"
        "fork_sema v = 0 \<and> t_at y = Copying q \<or> fork_sema v = 1 \<and> (\<forall>q. t_at y \<noteq> Copying q)" by blast
      have "x \<noteq> c" using nl [OF v] x(1) by blast
      then show ?thesis using x ab p by (intro exI [of _ x] exI [of _ "if x = p then ?t a else y"]) (auto simp: plain_def)
    qed
  next
    let ?T = "T(p \<mapsto> ?t a, c \<mapsto> new_task n b)"
    fix x y q assume x: "?T x = Some y" and y: "t_at y = Copying q"
    show "\<exists>t. ?T q = Some t \<and> t_at t = In_fork (t_tid y) \<and> x \<in> set (t_children t)"
    proof (cases "x = c")
      case True
      then show ?thesis using x y ab cp by (auto simp: new_task_def plain_def)
    next
      case False
      then have "T x = Some y" using x y ab by (auto simp: plain_def split: if_splits)
      from forksD(3) [OF f this y] obtain v where v: "T q = Some v" "t_at v = In_fork (t_tid y)" "x \<in> set (t_children v)" by blast
      then have "q \<noteq> c" "q \<noteq> p" using c(1) p by (auto simp: plain_def)
      then show ?thesis using v by auto
    qed
  qed
  show "forks (create T p c n Running)" unfolding e by (rule g) (use p(2) in \<open>simp add: plain_def\<close>)
  show "forks (process_fork T p c n)" unfolding e by (rule g) simp
qed

section \<open>Every reachable state\<close>

text \<open>The status a parent gets.\<close>

definition clip :: "int \<Rightarrow> int" where
  "clip st = (if st < 0 then - 1 else st)"

text \<open>The steps in a tree, with the tasks they are about.\<close>

lemma wait_return_inv:
  assumes "tree (tasks s) n" "is_at s p Running" "process_wait (tasks s) p i = ret (Some r, T)"
  shows "T = tasks s"
proof -
  from assms(2) obtain t where t: "tasks s p = Some t" by (rule atE)
  show ?thesis using process_wait_cases [OF assms(1) t, of i] assms(3) by auto
qed

lemma wait_begin_inv:
  assumes "tree (tasks s) n" "is_at s p Running" "process_wait (tasks s) p i = ret (None, T)"
  obtains t c where "tasks s p = Some t" "t_at t = Running" "c \<in> set (t_children t)" "T = (tasks s)(p \<mapsto> t\<lparr>t_at := In_wait c\<rparr>)"
proof -
  from assms(2) obtain t where t: "tasks s p = Some t" "t_at t = Running" by (rule atE)
  from process_wait_cases [OF assms(1) t(1), of i] assms(3) obtain c where "T = goes (tasks s) p (In_wait c)" "c \<in> set (t_children t)" by auto
  then show thesis using that [OF t] goes_eq [of "tasks s", OF t(1)] by simp
qed

lemma wait_finish_inv:
  assumes tr: "tree (tasks s) n" and a: "is_at s p (In_wait c)" and e: "process_wait_end (tasks s) p c = ret (Some (r, T))"
  obtains t u where "tasks s p = Some t" "t_at t = In_wait c" "c \<in> set (t_children t)" "c \<noteq> p" "tasks s c = Some u" "t_at u = In_exit"
    "r = clip (t_status u)"
    "T = (tasks s)(c \<mapsto> u\<lparr>wait_sema := wait_sema u - 1, free_sema := free_sema u + 1\<rparr>, p \<mapsto> t\<lparr>t_children := remove1 c (t_children t), t_at := Running\<rparr>)"
proof -
  from a obtain t where t: "tasks s p = Some t" "t_at t = In_wait c" by (rule atE)
  have c: "c \<in> set (t_children t)" by (rule treeD(8) [OF tr t])
  have cp: "c \<noteq> p" by (rule treeD(4) [OF tr t(1) c])
  from treeD(5) [OF tr t(1) c] obtain u where u: "tasks s c = Some u" "wait_sema u = (if t_at u = In_exit then 1 else 0)" by blast
  from e [unfolded process_wait_end_eq [of "tasks s", OF t(1) u(1) cp]] have w: "wait_sema u \<noteq> 0" "r = clip (t_status u)"
    "T = (tasks s)(c \<mapsto> u\<lparr>wait_sema := wait_sema u - 1, free_sema := free_sema u + 1\<rparr>, p \<mapsto> t\<lparr>t_children := remove1 c (t_children t), t_at := Running\<rparr>)"
    by (auto simp: clip_def split: if_splits)
  have "t_at u = In_exit" using u(2) w(1) by (auto split: if_splits)
  then show thesis using that [OF t c cp u(1)] w(2,3) by blast
qed

lemma exit_finish_inv:
  assumes "is_at s p In_exit" "exit_down (tasks s) p = ret (Some T)"
  obtains t where "tasks s p = Some t" "t_at t = In_exit" "free_sema t \<noteq> 0" "T = (tasks s)(p := None)"
proof -
  from assms(1) obtain t where t: "tasks s p = Some t" "t_at t = In_exit" by (rule atE)
  from assms(2) [unfolded exit_down_eq [of "tasks s", OF t(1)]] show thesis using that [OF t] by (auto split: if_splits)
qed

lemma copied_inv:
  assumes tr: "tree (tasks s) n" and fk: "forks (tasks s)" and a: "is_at s c (Copying p)" and e: "fork_up (tasks s) c p ok = ret T"
  obtains t u where "tasks s c = Some u" "t_at u = Copying p" "tasks s p = Some t" "t_at t = In_fork (t_tid u)" "c \<in> set (t_children t)" "c \<noteq> p"
    "T = (tasks s)(p \<mapsto> t\<lparr>fork_sema := fork_sema t + 1\<rparr>, c \<mapsto> u\<lparr>t_at := (if ok then Running else Failing)\<rparr>)"
proof -
  from a obtain u where u: "tasks s c = Some u" "t_at u = Copying p" by (rule atE)
  from forksD(3) [OF fk u] obtain t where t: "tasks s p = Some t" "t_at t = In_fork (t_tid u)" "c \<in> set (t_children t)" by blast
  have cp: "c \<noteq> p" by (rule treeD(4) [OF tr t(1,3)])
  show thesis using that [OF u t cp] e fork_up_eq [of "tasks s", OF t(1) u(1) cp] by simp
qed

lemma fork_finish_inv:
  assumes tr: "tree (tasks s) n" and fk: "forks (tasks s)" and a: "is_at s p (In_fork i)" and e: "process_fork_end (tasks s) p i = ret (Some (r, T))"
  obtains t where "tasks s p = Some t" "t_at t = In_fork i" "fork_sema t = 1" "T = (tasks s)(p \<mapsto> t\<lparr>fork_sema := fork_sema t - 1, t_at := Running\<rparr>)"
proof -
  from a obtain t where t: "tasks s p = Some t" "t_at t = In_fork i" by (rule atE)
  from forksD(1) [OF fk t] obtain c u where c: "c \<in> set (t_children t)" "tasks s c = Some u" "t_tid u = i" "fork_sema t = 0 \<or> fork_sema t = 1" by blast
  have z: "fork_sema t \<noteq> 0" using e t(1) by (cases "fork_sema t = 0") (simp_all add: process_fork_end_def the_task_def)
  show thesis using that [OF t] c(4) z e process_fork_end_eq [OF tr t(1) z c(1-3)] by simp
qed

text \<open>A new process, with the task of its parent.\<close>

lemma fork_begin_eq:
  assumes "T p = Some t" "T c = None"
  shows "create T p c n (Copying p) p = Some (t\<lparr>t_children := t_children t @ [c]\<rparr>)"
    "process_fork T p c n = (create T p c n (Copying p))(p \<mapsto> t\<lparr>t_children := t_children t @ [c], t_at := In_fork n\<rparr>)"
proof -
  have "c \<noteq> p" using assms by auto
  then show e: "create T p c n (Copying p) p = Some (t\<lparr>t_children := t_children t @ [c]\<rparr>)" using assms by (simp add: create_def upd_def)
  show "process_fork T p c n = (create T p c n (Copying p))(p \<mapsto> t\<lparr>t_children := t_children t @ [c], t_at := In_fork n\<rparr>)"
    unfolding process_fork_def goes_eq [of "create T p c n (Copying p)", OF e] by simp
qed

lemma tree_forks_step:
  assumes "fstep s s'" "tree (tasks s) (next_tid s)" "forks (tasks s)"
  shows "tree (tasks s') (next_tid s') \<and> forks (tasks s')"
  using assms
proof (induction rule: fstep.induct)
  case (wait_return s p i r T)
  then show ?case using wait_return_inv [OF wait_return.prems(1) wait_return.hyps] by simp
next
  case (wait_begin s p i T)
  obtain t c where t: "tasks s p = Some t" "t_at t = Running" "c \<in> set (t_children t)" "T = (tasks s)(p \<mapsto> t\<lparr>t_at := In_wait c\<rparr>)"
    by (rule wait_begin_inv [OF wait_begin.prems(1) wait_begin.hyps])
  have "tree T (next_tid s)" unfolding t(4) using t(2,3) by (intro tree_upd [OF wait_begin.prems(1) t(1)]) auto
  moreover have "forks T" unfolding t(4) using t(2) by (intro forks_upd [OF wait_begin.prems(2) t(1)]) (auto simp: plain_def)
  ultimately show ?case by simp
next
  case (wait_finish s p c r T)
  obtain t u where t: "tasks s p = Some t" "t_at t = In_wait c" "c \<in> set (t_children t)" "c \<noteq> p" "tasks s c = Some u" "t_at u = In_exit" "r = clip (t_status u)"
    "T = (tasks s)(c \<mapsto> u\<lparr>wait_sema := wait_sema u - 1, free_sema := free_sema u + 1\<rparr>, p \<mapsto> t\<lparr>t_children := remove1 c (t_children t), t_at := Running\<rparr>)"
    by (rule wait_finish_inv [OF wait_finish.prems(1) wait_finish.hyps])
  have "tree T (next_tid s)" unfolding t(8) using t(2) by (intro tree_unlink [OF wait_finish.prems(1) t(1,3) _ _ _ _ _ _ t(5)]) simp_all
  moreover have "forks T" unfolding t(8)
    using t by (intro forks_upd [where t = t] forks_upd [OF wait_finish.prems(2) t(5)]) (simp_all add: plain_def)
  ultimately show ?case by simp
next
  case (sys_exit s p r)
  from sys_exit.hyps(1) obtain t where t: "tasks s p = Some t" "t_at t = Running" by (rule atE)
  have "tree (store_status (tasks s) p r) (next_tid s)" unfolding store_status_eq [of "tasks s", OF t(1)] using t(2) by (intro tree_upd [OF sys_exit.prems(1) t(1)]) auto
  moreover have "forks (store_status (tasks s) p r)" unfolding store_status_eq [of "tasks s", OF t(1)]
    using t(2) by (intro forks_upd [OF sys_exit.prems(2) t(1)]) (simp_all add: plain_def)
  ultimately show ?case by simp
next
  case (fork_exit s p)
  from fork_exit.hyps(1) obtain t where t: "tasks s p = Some t" "t_at t = Failing" by (rule atE)
  have "tree (store_status (tasks s) p TID_ERR) (next_tid s)" unfolding store_status_eq [of "tasks s", OF t(1)] using t(2) by (intro tree_upd [OF fork_exit.prems(1) t(1)]) auto
  moreover have "forks (store_status (tasks s) p TID_ERR)" unfolding store_status_eq [of "tasks s", OF t(1)]
    using t(2) by (intro forks_upd [OF fork_exit.prems(2) t(1)]) (simp_all add: plain_def)
  ultimately show ?case by simp
next
  case (exit_raise s p)
  from exit_raise.hyps(1) obtain t where t: "tasks s p = Some t" "t_at t = Ending" by (rule atE)
  have "tree (exit_up (tasks s) p) (next_tid s)" unfolding exit_up_eq [of "tasks s", OF t(1)] using t(2) by (intro tree_upd [OF exit_raise.prems(1) t(1)]) auto
  moreover have "forks (exit_up (tasks s) p)" unfolding exit_up_eq [of "tasks s", OF t(1)]
    using t(2) by (intro forks_upd [OF exit_raise.prems(2) t(1)]) (simp_all add: plain_def)
  ultimately show ?case by simp
next
  case (exit_finish s p T)
  obtain t where t: "tasks s p = Some t" "t_at t = In_exit" "free_sema t \<noteq> 0" "T = (tasks s)(p := None)" by (rule exit_finish_inv [OF exit_finish.hyps])
  have "tree T (next_tid s)" unfolding t(4) by (rule tree_free [OF exit_finish.prems(1) t(1,3)])
  moreover have "forks T" unfolding t(4) by (rule forks_free [OF exit_finish.prems(2,1) t(1,3)]) (simp add: t(2) plain_def)
  ultimately show ?case by simp
next
  case (fork_begin s p c)
  from fork_begin.hyps(1) obtain t where t: "tasks s p = Some t" "t_at t = Running" by (rule atE)
  note e = fork_begin_eq [of "tasks s", OF t(1) fork_begin.hyps(2), of "next_tid s"]
  have x: "tree (create (tasks s) p c (next_tid s) (Copying p)) (next_tid s + 1)" by (rule tree_create [OF fork_begin.prems(1) t(1) fork_begin.hyps(2,3)]) simp_all
  have "tree (process_fork (tasks s) p c (next_tid s)) (next_tid s + 1)" unfolding e(2) using t(2) by (intro tree_upd [OF x e(1)]) auto
  then show ?case using forks_create(2) [OF fork_begin.prems(2,1) t(1) _ fork_begin.hyps(2,3)] t(2) by (simp add: plain_def)
next
  case (spawn s p c)
  from spawn.hyps(1) obtain t where t: "tasks s p = Some t" "t_at t = Running" by (rule atE)
  have "tree (create (tasks s) p c (next_tid s) Running) (next_tid s + 1)" by (rule tree_create [OF spawn.prems(1) t(1) spawn.hyps(2,3)]) simp_all
  then show ?case using forks_create(1) [OF spawn.prems(2,1) t(1) _ spawn.hyps(2,3)] t(2) by (simp add: plain_def)
next
  case (copied s c p ok T)
  obtain t u where u: "tasks s c = Some u" "t_at u = Copying p" and t: "tasks s p = Some t" "t_at t = In_fork (t_tid u)" "c \<in> set (t_children t)" "c \<noteq> p"
    and T: "T = (tasks s)(p \<mapsto> t\<lparr>fork_sema := fork_sema t + 1\<rparr>, c \<mapsto> u\<lparr>t_at := (if ok then Running else Failing)\<rparr>)"
    by (rule copied_inv [OF copied.prems copied.hyps])
  have x: "tree ((tasks s)(p \<mapsto> t\<lparr>fork_sema := fork_sema t + 1\<rparr>)) (next_tid s)" using t(2) by (intro tree_upd [OF copied.prems(1) t(1)]) auto
  have "((tasks s)(p \<mapsto> t\<lparr>fork_sema := fork_sema t + 1\<rparr>)) c = Some u" using u t(4) by simp
  then have "tree T (next_tid s)" unfolding T using u(2) by (intro tree_upd [OF x]) (auto split: if_splits)
  moreover have "forks T" unfolding T using forks_up [OF copied.prems(2,1) u t(1)] by (simp add: plain_def)
  ultimately show ?case by simp
next
  case (fork_finish s p i r T)
  obtain t where t: "tasks s p = Some t" "t_at t = In_fork i" "fork_sema t = 1" "T = (tasks s)(p \<mapsto> t\<lparr>fork_sema := fork_sema t - 1, t_at := Running\<rparr>)"
    by (rule fork_finish_inv [OF fork_finish.prems fork_finish.hyps])
  have "tree T (next_tid s)" unfolding t(4) using t(2) by (intro tree_upd [OF fork_finish.prems(1) t(1)]) auto
  moreover have "forks T" unfolding t(4) by (rule forks_end [OF fork_finish.prems(2,1) t(1-3)])
  ultimately show ?case by simp
qed

section \<open>The status of a child\<close>

text \<open>The processes that ended and those a parent waited for, with their status.\<close>

fun exits :: "event list \<Rightarrow> (int \<times> int) list" where
  "exits [] = []"
| "exits (Exited i r # es) = (i, r) # exits es"
| "exits (_ # es) = exits es"

fun reaps :: "event list \<Rightarrow> (int \<times> int) list" where
  "reaps [] = []"
| "reaps (Reaped i r # es) = (i, r) # reaps es"
| "reaps (_ # es) = reaps es"

lemma log_append [simp]: "exits (es @ es') = exits es @ exits es'" "reaps (es @ es') = reaps es @ reaps es'"
proof -
  show "exits (es @ es') = exits es @ exits es'" by (induction es rule: exits.induct) simp_all
  show "reaps (es @ es') = reaps es @ reaps es'" by (induction es rule: reaps.induct) simp_all
qed

definition ended :: "task \<Rightarrow> bool" where
  "ended t \<longleftrightarrow> t_at t = Ending \<or> t_at t = In_exit"

text \<open>How the record of the past fits the tasks.\<close>

definition records :: "tasks \<Rightarrow> int \<Rightarrow> (int \<times> int) list \<Rightarrow> (int \<times> int) list \<Rightarrow> bool" where
  "records T n ex re \<longleftrightarrow>
     (\<forall>(i, r) \<in> set ex. i < n) \<and> (\<forall>p t. T p = Some t \<longrightarrow> (\<forall>r. (t_tid t, r) \<in> set ex \<longrightarrow> ended t \<and> t_status t = r)) \<and>
     (\<forall>p t. T p = Some t \<longrightarrow> ended t \<longrightarrow> (t_tid t, t_status t) \<in> set ex) \<and>
     (\<forall>(i, r) \<in> set re. \<exists>st. (i, st) \<in> set ex \<and> r = clip st) \<and>
     (\<forall>p t c u. T p = Some t \<longrightarrow> c \<in> set (t_children t) \<longrightarrow> T c = Some u \<longrightarrow> t_tid u \<notin> fst ` set re) \<and>
     distinct (map fst ex) \<and> distinct (map fst re)"

lemma recordsD:
  assumes "records T n ex re"
  shows "(i, r) \<in> set ex \<Longrightarrow> i < n" "T p = Some t \<Longrightarrow> (t_tid t, r) \<in> set ex \<Longrightarrow> ended t"
    "T p = Some t \<Longrightarrow> (t_tid t, r) \<in> set ex \<Longrightarrow> t_status t = r" "T p = Some t \<Longrightarrow> ended t \<Longrightarrow> (t_tid t, t_status t) \<in> set ex"
    "(i, r) \<in> set re \<Longrightarrow> \<exists>st. (i, st) \<in> set ex \<and> r = clip st"
    "T p = Some t \<Longrightarrow> c \<in> set (t_children t) \<Longrightarrow> T c = Some u \<Longrightarrow> t_tid u \<notin> fst ` set re"
    "distinct (map fst ex)" "distinct (map fst re)"
proof -
  note r = assms [unfolded records_def]
  show "(i, r) \<in> set ex \<Longrightarrow> i < n" using r by auto
  show "T p = Some t \<Longrightarrow> (t_tid t, r) \<in> set ex \<Longrightarrow> ended t" "T p = Some t \<Longrightarrow> (t_tid t, r) \<in> set ex \<Longrightarrow> t_status t = r"
    using r [THEN conjunct2, THEN conjunct1] by simp_all
  show "T p = Some t \<Longrightarrow> ended t \<Longrightarrow> (t_tid t, t_status t) \<in> set ex" using r by simp
  show "(i, r) \<in> set re \<Longrightarrow> \<exists>st. (i, st) \<in> set ex \<and> r = clip st"
    using r [THEN conjunct2, THEN conjunct2, THEN conjunct2, THEN conjunct1] by fast
  show "T p = Some t \<Longrightarrow> c \<in> set (t_children t) \<Longrightarrow> T c = Some u \<Longrightarrow> t_tid u \<notin> fst ` set re"
    using r [THEN conjunct2, THEN conjunct2, THEN conjunct2, THEN conjunct2, THEN conjunct1] by simp
  show "distinct (map fst ex)" "distinct (map fst re)" using r by simp_all
qed

text \<open>A step that ends no process and reaps none: it keeps the tasks' numbers and status, or adds a task with a new number.\<close>

definition calm :: "tasks \<Rightarrow> tasks \<Rightarrow> int \<Rightarrow> bool" where
  "calm T T' n \<longleftrightarrow> (\<forall>p t'. T' p = Some t' \<longrightarrow>
     T p = None \<and> t_tid t' = n \<and> \<not> ended t' \<and> t_children t' = [] \<or>
     (\<exists>t. T p = Some t \<and> t_tid t' = t_tid t \<and> t_status t' = t_status t \<and> ended t' = ended t \<and> set (t_children t') \<subseteq> set (t_children t) \<union> {c. T c = None}))"

lemma calmD:
  assumes "calm T T' n" "T' p = Some t'"
  shows "T p = None \<and> t_tid t' = n \<and> \<not> ended t' \<and> t_children t' = [] \<or>
     (\<exists>t. T p = Some t \<and> t_tid t' = t_tid t \<and> t_status t' = t_status t \<and> ended t' = ended t \<and> set (t_children t') \<subseteq> set (t_children t) \<union> {c. T c = None})"
  using assms by (simp add: calm_def)

lemma records_calm:
  assumes r: "records T n ex re" and q: "calm T T' n" and n: "n \<le> n'"
  shows "records T' n' ex re"
  unfolding records_def
proof (intro conjI allI impI ballI)
  show "case x of (i, r) \<Rightarrow> i < n'" if "x \<in> set ex" for x using recordsD(1) [OF r] n that by (cases x) force
  show "case x of (i, r) \<Rightarrow> \<exists>st. (i, st) \<in> set ex \<and> r = clip st" if "x \<in> set re" for x
    using recordsD(5) [OF r] that by (cases x) blast
  show "distinct (map fst ex)" "distinct (map fst re)" by (rule recordsD [OF r])+
  have new1: "(n, y) \<notin> set ex" for y using recordsD(1) [OF r, of n] by auto
  then have "(n, y) \<notin> set re" for y using recordsD(5) [OF r, of n] by blast
  then have new2: "n \<notin> fst ` set re" by auto
  fix p t' assume p: "T' p = Some t'"
  note c = calmD [OF q p]
  show "ended t'" "t_status t' = y" if "(t_tid t', y) \<in> set ex" for y
    using c that new1 recordsD(2,3) [OF r, of p _ y] by auto
  show "(t_tid t', t_status t') \<in> set ex" if "ended t'" using c that recordsD(4) [OF r, of p] by auto
  fix d u assume d: "d \<in> set (t_children t')" and u: "T' d = Some u"
  show "t_tid u \<notin> fst ` set re"
  proof (cases "T d")
    case None
    then have "t_tid u = n" using calmD [OF q u] by auto
    then show ?thesis using new2 by simp
  next
    case (Some w)
    then have w: "t_tid u = t_tid w" using calmD [OF q u] by auto
    from c d Some obtain t where "T p = Some t" "d \<in> set (t_children t)" by auto
    from recordsD(6) [OF r this Some] show ?thesis using w by simp
  qed
qed

lemma calm_upd:
  assumes "T p = Some t" "t_tid t' = t_tid t" "t_status t' = t_status t" "ended t' = ended t" "set (t_children t') \<subseteq> set (t_children t)"
  shows "calm T (T(p \<mapsto> t')) n"
  unfolding calm_def using assms by auto

lemma calm_create:
  assumes "T p = Some t" "T c = None" "\<not> ended (new_task n a)"
  shows "calm T (create T p c n a) n"
  unfolding calm_def create_def upd_def using assms by (auto simp: new_task_def ended_def)

lemma calm_then:
  assumes "calm T T' n" "T' p = Some t" "t_tid t' = t_tid t" "t_status t' = t_status t" "ended t' = ended t" "t_children t' = t_children t"
  shows "calm T (T'(p \<mapsto> t')) n"
  unfolding calm_def
proof (intro allI impI)
  fix q v assume q: "(T'(p \<mapsto> t')) q = Some v"
  then obtain w where w: "T' q = Some w" "t_tid v = t_tid w" "t_status v = t_status w" "ended v = ended w" "t_children v = t_children w"
    using assms by (auto split: if_splits)
  show "T q = None \<and> t_tid v = n \<and> \<not> ended v \<and> t_children v = [] \<or>
     (\<exists>t. T q = Some t \<and> t_tid v = t_tid t \<and> t_status v = t_status t \<and> ended v = ended t \<and> set (t_children v) \<subseteq> set (t_children t) \<union> {c. T c = None})"
    unfolding w(2-5) by (rule calmD [OF assms(1) w(1)])
qed

text \<open>A process ends.\<close>

lemma records_exit:
  assumes r: "records T n ex re" and tr: "tree T n" and p: "T p = Some t" "\<not> ended t"
  shows "records (T(p \<mapsto> t\<lparr>t_status := st, t_at := Ending\<rparr>)) n (ex @ [(t_tid t, st)]) re"
  unfolding records_def
proof (intro conjI allI impI ballI)
  let ?t = "t\<lparr>t_status := st, t_at := Ending\<rparr>"
  have no: "(t_tid t, y) \<notin> set ex" for y using recordsD(2) [OF r p(1)] p(2) by blast
  show "case x of (i, r) \<Rightarrow> i < n" if "x \<in> set (ex @ [(t_tid t, st)])" for x
    using recordsD(1) [OF r] treeD(2) [OF tr p(1)] that by (cases x) auto
  show "case x of (i, r) \<Rightarrow> \<exists>y. (i, y) \<in> set (ex @ [(t_tid t, st)]) \<and> r = clip y" if "x \<in> set re" for x
    using recordsD(5) [OF r, of "fst x" "snd x"] that by (cases x) auto
  show "distinct (map fst (ex @ [(t_tid t, st)]))" using recordsD(7) [OF r] no by auto
  show "distinct (map fst re)" by (rule recordsD(8) [OF r])
  fix q v assume q: "(T(p \<mapsto> ?t)) q = Some v"
  have tid: "t_tid v = t_tid t \<longleftrightarrow> q = p" using q treeD(7) [OF tr p(1), of q v] by (auto split: if_splits)
  show "ended v" "t_status v = y" if "(t_tid v, y) \<in> set (ex @ [(t_tid t, st)])" for y
    using q that tid no recordsD(2,3) [OF r, of q v y] by (auto simp: ended_def split: if_splits)
  show "(t_tid v, t_status v) \<in> set (ex @ [(t_tid t, st)])" if "ended v" using q that recordsD(4) [OF r, of q v] by (auto split: if_splits)
  fix d u assume d: "d \<in> set (t_children v)" and u: "(T(p \<mapsto> ?t)) d = Some u"
  obtain w x where "T q = Some w" "d \<in> set (t_children w)" "T d = Some x" "t_tid u = t_tid x" using q d u p(1) by (auto split: if_splits)
  then show "t_tid u \<notin> fst ` set re" using recordsD(6) [OF r] by metis
qed

text \<open>A parent gets the status of a child.\<close>

lemma records_reap:
  assumes r: "records T n ex re" and tr: "tree T n" and p: "T p = Some t" "c \<in> set (t_children t)" "\<not> ended t" and u: "T c = Some u" "ended u"
    and t': "t_tid t' = t_tid t" "t_children t' = remove1 c (t_children t)" "\<not> ended t'"
    and u': "t_tid u' = t_tid u" "t_status u' = t_status u" "ended u'" "t_children u' = t_children u"
  shows "records (T(c \<mapsto> u', p \<mapsto> t')) n ex (re @ [(t_tid u, clip (t_status u))])"
  unfolding records_def
proof (intro conjI allI impI ballI)
  let ?T = "T(c \<mapsto> u', p \<mapsto> t')" and ?re = "re @ [(t_tid u, clip (t_status u))]"
  have cp: "c \<noteq> p" by (rule treeD(4) [OF tr p(1,2)])
  show "case x of (i, r) \<Rightarrow> i < n" if "x \<in> set ex" for x using recordsD(1) [OF r] that by (cases x) auto
  show "case x of (i, r) \<Rightarrow> \<exists>y. (i, y) \<in> set ex \<and> r = clip y" if "x \<in> set ?re" for x
    using recordsD(5) [OF r, of "fst x" "snd x"] recordsD(4) [OF r u] that by (cases x) auto
  show "distinct (map fst ex)" by (rule recordsD(7) [OF r])
  show "distinct (map fst ?re)" using recordsD(8) [OF r] recordsD(6) [OF r p(1,2) u(1)] by auto
  have notended: "(t_tid t, y) \<notin> set ex" for y using recordsD(2) [OF r p(1)] p(3) by blast
  fix q v assume q: "?T q = Some v"
  have v: "q = p \<and> v = t' \<or> q = c \<and> v = u' \<or> T q = Some v" using q by (auto split: if_splits)
  show "ended v" "t_status v = y" if y: "(t_tid v, y) \<in> set ex" for y
  proof -
    have "v \<noteq> t'" using y notended t'(1) by auto
    then consider "v = u'" | "T q = Some v" using v by blast
    then have "ended v \<and> t_status v = y"
    proof cases
      case 1
      then have "(t_tid u, y) \<in> set ex" using y u'(1) by simp
      then show ?thesis using 1 u' recordsD(3) [OF r u(1)] by simp
    next
      case 2
      then show ?thesis using y recordsD(2,3) [OF r 2] by blast
    qed
    then show "ended v" "t_status v = y" by simp_all
  qed
  show "(t_tid v, t_status v) \<in> set ex" if e: "ended v"
  proof -
    have "v \<noteq> t'" using e t'(3) by auto
    then show ?thesis using v e recordsD(4) [OF r, of q v] recordsD(4) [OF r u] u' by auto
  qed
  fix d w assume d: "d \<in> set (t_children v)" and w: "?T d = Some w"
  have "\<exists>y. T q = Some y \<and> d \<in> set (t_children y) \<and> d \<noteq> c"
  proof (cases "q = p")
    case True
    then show ?thesis using q d p t' treeD(3) [OF tr p(1)] by auto
  next
    case False
    then obtain y where y: "T q = Some y" "d \<in> set (t_children y)" using q d u u' by (auto split: if_splits)
    then have "d \<noteq> c" using treeD(6) [OF tr p(1) y(1) p(2)] False by blast
    then show ?thesis using y by blast
  qed
  then obtain y where y: "T q = Some y" "d \<in> set (t_children y)" "d \<noteq> c" by blast
  then obtain x where x: "T d = Some x" "t_tid w = t_tid x" using w p t' by (auto split: if_splits)
  have "t_tid x \<noteq> t_tid u" using treeD(7) [OF tr x(1) u(1)] y(3) by blast
  then show "t_tid w \<notin> fst ` set ?re" using recordsD(6) [OF r y(1,2) x(1)] x(2) by auto
qed

abbreviation remembers :: "family \<Rightarrow> bool" where
  "remembers s \<equiv> records (tasks s) (next_tid s) (exits (log s)) (reaps (log s))"

lemma remembers_step:
  assumes "fstep s s'" "tree (tasks s) (next_tid s)" "forks (tasks s)" "remembers s"
  shows "remembers s'"
  using assms
proof (induction rule: fstep.induct)
  case (wait_return s p i r T)
  then show ?case using wait_return_inv [OF wait_return.prems(1) wait_return.hyps] by simp
next
  case (wait_begin s p i T)
  obtain t c where t: "tasks s p = Some t" "t_at t = Running" "c \<in> set (t_children t)" "T = (tasks s)(p \<mapsto> t\<lparr>t_at := In_wait c\<rparr>)"
    by (rule wait_begin_inv [OF wait_begin.prems(1) wait_begin.hyps])
  have "calm (tasks s) T (next_tid s)" unfolding t(4) using t by (intro calm_upd) (auto simp: ended_def)
  then show ?case using records_calm [OF wait_begin.prems(3)] by simp
next
  case (wait_finish s p c r T)
  obtain t u where t: "tasks s p = Some t" "t_at t = In_wait c" "c \<in> set (t_children t)" "c \<noteq> p" "tasks s c = Some u" "t_at u = In_exit" "r = clip (t_status u)"
    "T = (tasks s)(c \<mapsto> u\<lparr>wait_sema := wait_sema u - 1, free_sema := free_sema u + 1\<rparr>, p \<mapsto> t\<lparr>t_children := remove1 c (t_children t), t_at := Running\<rparr>)"
    by (rule wait_finish_inv [OF wait_finish.prems(1) wait_finish.hyps])
  have "records T (next_tid s) (exits (log s)) (reaps (log s) @ [(t_tid u, clip (t_status u))])"
    unfolding t(8) using t by (intro records_reap [OF wait_finish.prems(3,1) t(1,3) _ t(5)]) (simp_all add: ended_def)
  then show ?case using t(5,7) by (simp add: tid_of_def)
next
  case (sys_exit s p r)
  from sys_exit.hyps(1) obtain t where t: "tasks s p = Some t" "t_at t = Running" by (rule atE)
  have "records (store_status (tasks s) p r) (next_tid s) (exits (log s) @ [(t_tid t, r)]) (reaps (log s))"
    unfolding store_status_eq [of "tasks s", OF t(1)] using t(2) by (intro records_exit [OF sys_exit.prems(3,1) t(1)]) (simp add: ended_def)
  then show ?case using t(1) by (simp add: tid_of_def)
next
  case (fork_exit s p)
  from fork_exit.hyps(1) obtain t where t: "tasks s p = Some t" "t_at t = Failing" by (rule atE)
  have "records (store_status (tasks s) p TID_ERR) (next_tid s) (exits (log s) @ [(t_tid t, TID_ERR)]) (reaps (log s))"
    unfolding store_status_eq [of "tasks s", OF t(1)] using t(2) by (intro records_exit [OF fork_exit.prems(3,1) t(1)]) (simp add: ended_def)
  then show ?case using t(1) by (simp add: tid_of_def)
next
  case (exit_raise s p)
  from exit_raise.hyps(1) obtain t where t: "tasks s p = Some t" "t_at t = Ending" by (rule atE)
  have "calm (tasks s) (exit_up (tasks s) p) (next_tid s)" unfolding exit_up_eq [of "tasks s", OF t(1)] using t by (intro calm_upd) (auto simp: ended_def)
  then show ?case using records_calm [OF exit_raise.prems(3)] by simp
next
  case (exit_finish s p T)
  obtain t where t: "tasks s p = Some t" "t_at t = In_exit" "free_sema t \<noteq> 0" "T = (tasks s)(p := None)" by (rule exit_finish_inv [OF exit_finish.hyps])
  have "calm (tasks s) T (next_tid s)" by (auto simp: calm_def t(4) split: if_splits)
  then show ?case using records_calm [OF exit_finish.prems(3)] by simp
next
  case (fork_begin s p c)
  from fork_begin.hyps(1) obtain t where t: "tasks s p = Some t" "t_at t = Running" by (rule atE)
  note e = fork_begin_eq [of "tasks s", OF t(1) fork_begin.hyps(2), of "next_tid s"]
  have q: "calm (tasks s) (create (tasks s) p c (next_tid s) (Copying p)) (next_tid s)"
    by (rule calm_create [of "tasks s", OF t(1) fork_begin.hyps(2)]) (simp add: new_task_def ended_def)
  have "calm (tasks s) (process_fork (tasks s) p c (next_tid s)) (next_tid s)"
    unfolding e(2) using t(2) by (intro calm_then [OF q e(1)]) (simp_all add: ended_def)
  then show ?case using records_calm [OF fork_begin.prems(3)] by simp
next
  case (spawn s p c)
  from spawn.hyps(1) obtain t where t: "tasks s p = Some t" "t_at t = Running" by (rule atE)
  have "calm (tasks s) (create (tasks s) p c (next_tid s) Running) (next_tid s)"
    by (rule calm_create [of "tasks s", OF t(1) spawn.hyps(2)]) (simp add: new_task_def ended_def)
  then show ?case using records_calm [OF spawn.prems(3)] by simp
next
  case (copied s c p ok T)
  obtain t u where u: "tasks s c = Some u" "t_at u = Copying p" and t: "tasks s p = Some t" "t_at t = In_fork (t_tid u)" "c \<in> set (t_children t)" "c \<noteq> p"
    and T: "T = (tasks s)(p \<mapsto> t\<lparr>fork_sema := fork_sema t + 1\<rparr>, c \<mapsto> u\<lparr>t_at := (if ok then Running else Failing)\<rparr>)"
    by (rule copied_inv [OF copied.prems(1,2) copied.hyps])
  have q: "calm (tasks s) ((tasks s)(p \<mapsto> t\<lparr>fork_sema := fork_sema t + 1\<rparr>)) (next_tid s)" using t(1) by (intro calm_upd) (auto simp: ended_def)
  have "calm (tasks s) T (next_tid s)" unfolding T using u t(4) by (intro calm_then [OF q, where t = u]) (auto simp: ended_def)
  then show ?case using records_calm [OF copied.prems(3)] by simp
next
  case (fork_finish s p i r T)
  obtain t where t: "tasks s p = Some t" "t_at t = In_fork i" "fork_sema t = 1" "T = (tasks s)(p \<mapsto> t\<lparr>fork_sema := fork_sema t - 1, t_at := Running\<rparr>)"
    by (rule fork_finish_inv [OF fork_finish.prems(1,2) fork_finish.hyps])
  have "calm (tasks s) T (next_tid s)" unfolding t(4) using t by (intro calm_upd) (auto simp: ended_def)
  then show ?case using records_calm [OF fork_finish.prems(3)] by simp
qed

interpretation fam: stable fstep "\<lambda>s. tree (tasks s) (next_tid s) \<and> forks (tasks s) \<and> remembers s"
  by unfold_locales (use tree_forks_step remembers_step in blast)

lemma reachable_inv:
  assumes "reachable s"
  shows "tree (tasks s) (next_tid s)" "forks (tasks s)" "remembers s"
proof -
  from assms obtain main where m: "main \<noteq> NULL" "fstep\<^sup>*\<^sup>* (start main) s" by (auto simp: reachable_def)
  have "tree (tasks (start main)) (next_tid (start main))" "forks (tasks (start main))" "remembers (start main)"
    using m(1) by (auto simp: start_def tree_def new_task_def records_def ended_def intro!: forksI split: if_splits)
  then show "tree (tasks s) (next_tid s)" "forks (tasks s)" "remembers s" using fam.runs [OF m(2)] by blast+
qed


text \<open>
  C7. No part of \<open>process_wait\<close>, \<open>process_fork\<close> and \<open>__do_fork\<close> uses the memory of a thread that is gone: whatever the
  order of the steps was, the next part of a process that is still there runs without a fault. The last
  part of \<open>process_fork\<close> always finds its child.
\<close>

theorem family_memory_safe:
  assumes "reachable s" "tasks s p = Some t"
  shows "(\<exists>x. process_wait (tasks s) p i = ret x) \<and> (t_at t = In_wait c \<longrightarrow> (\<exists>x. process_wait_end (tasks s) p c = ret x)) \<and>
    (t_at t = In_fork i \<longrightarrow> (\<exists>x. process_fork_end (tasks s) p i = ret x)) \<and> (t_at t = Copying q \<longrightarrow> (\<exists>x. fork_up (tasks s) p q ok = ret x))"
proof (intro conjI impI)
  note tr = reachable_inv(1) [OF assms(1)] and fk = reachable_inv(2) [OF assms(1)]
  show "\<exists>x. process_wait (tasks s) p i = ret x" using process_wait_cases [OF tr assms(2), of i] by blast
  show "\<exists>x. process_wait_end (tasks s) p c = ret x" if w: "t_at t = In_wait c"
  proof -
    have c: "c \<in> set (t_children t)" by (rule treeD(8) [OF tr assms(2) w])
    from treeD(5) [OF tr assms(2) c] obtain u where u: "tasks s c = Some u" by blast
    show ?thesis using process_wait_end_eq [of "tasks s", OF assms(2) u treeD(4) [OF tr assms(2) c]] by blast
  qed
  show "\<exists>x. process_fork_end (tasks s) p i = ret x" if w: "t_at t = In_fork i"
  proof (cases "fork_sema t = 0")
    case True
    then show ?thesis using assms(2) by (simp add: process_fork_end_def the_task_def)
  next
    case False
    from forksD(1) [OF fk assms(2) w] obtain d u where "d \<in> set (t_children t)" "tasks s d = Some u" "t_tid u = i" by blast
    from process_fork_end_eq [OF tr assms(2) False this] show ?thesis by blast
  qed
  show "\<exists>x. fork_up (tasks s) p q ok = ret x" if w: "t_at t = Copying q"
    using forksD(3) [OF fk assms(2) w] by (auto simp: fork_up_def the_task_def)
qed


section \<open>Children without a parent\<close>

text \<open>A task nobody lists and nobody released stays: only \<open>process_wait\<close> of its parent releases it.\<close>

definition orphan :: "tasks \<Rightarrow> ptr \<Rightarrow> bool" where
  "orphan T c \<longleftrightarrow> (\<exists>u. T c = Some u \<and> free_sema u = 0) \<and> (\<forall>q t. T q = Some t \<longrightarrow> c \<notin> set (t_children t))"

lemma orphan_upd:
  assumes "orphan T c" "T p = Some t" "free_sema t' = free_sema t" "set (t_children t') \<subseteq> set (t_children t)"
  shows "orphan (T(p \<mapsto> t')) c"
  using assms by (auto simp: orphan_def split: if_splits)

lemma orphan_create:
  assumes "orphan T c" "T p = Some t" "T d = None"
  shows "orphan (create T p d n a) c"
  using assms by (auto simp: orphan_def create_def upd_def new_task_def split: if_splits)

lemma orphan_step:
  assumes "fstep s s'" "tree (tasks s) (next_tid s)" "forks (tasks s)" "orphan (tasks s) c"
  shows "orphan (tasks s') c"
  using assms
proof (induction rule: fstep.induct)
  case (wait_return s p i r T)
  then show ?case using wait_return_inv [OF wait_return.prems(1) wait_return.hyps] by simp
next
  case (wait_begin s p i T)
  obtain t d where t: "tasks s p = Some t" "t_at t = Running" "d \<in> set (t_children t)" "T = (tasks s)(p \<mapsto> t\<lparr>t_at := In_wait d\<rparr>)"
    by (rule wait_begin_inv [OF wait_begin.prems(1) wait_begin.hyps])
  have "orphan T c" unfolding t(4) by (rule orphan_upd [OF wait_begin.prems(3) t(1)]) simp_all
  then show ?case by simp
next
  case (wait_finish s p d r T)
  obtain t u where t: "tasks s p = Some t" "t_at t = In_wait d" "d \<in> set (t_children t)" "d \<noteq> p" "tasks s d = Some u" "t_at u = In_exit" "r = clip (t_status u)"
    "T = (tasks s)(d \<mapsto> u\<lparr>wait_sema := wait_sema u - 1, free_sema := free_sema u + 1\<rparr>, p \<mapsto> t\<lparr>t_children := remove1 d (t_children t), t_at := Running\<rparr>)"
    by (rule wait_finish_inv [OF wait_finish.prems(1) wait_finish.hyps])
  have "c \<noteq> d" using wait_finish.prems(3) t(1,3) by (auto simp: orphan_def)
  moreover have "set (remove1 d (t_children t)) \<subseteq> set (t_children t)" by (rule set_remove1_subset)
  ultimately have "orphan T c" unfolding t(8) using wait_finish.prems(3) t(1,5) by (auto simp: orphan_def split: if_splits)
  then show ?case by simp
next
  case (sys_exit s p r)
  from sys_exit.hyps(1) obtain t where t: "tasks s p = Some t" by (rule atE)
  have "orphan (store_status (tasks s) p r) c" unfolding store_status_eq [of "tasks s", OF t] by (rule orphan_upd [OF sys_exit.prems(3) t]) simp_all
  then show ?case by simp
next
  case (fork_exit s p)
  from fork_exit.hyps(1) obtain t where t: "tasks s p = Some t" by (rule atE)
  have "orphan (store_status (tasks s) p TID_ERR) c" unfolding store_status_eq [of "tasks s", OF t] by (rule orphan_upd [OF fork_exit.prems(3) t]) simp_all
  then show ?case by simp
next
  case (exit_raise s p)
  from exit_raise.hyps(1) obtain t where t: "tasks s p = Some t" by (rule atE)
  have "orphan (exit_up (tasks s) p) c" unfolding exit_up_eq [of "tasks s", OF t] by (rule orphan_upd [OF exit_raise.prems(3) t]) simp_all
  then show ?case by simp
next
  case (exit_finish s p T)
  obtain t where t: "tasks s p = Some t" "t_at t = In_exit" "free_sema t \<noteq> 0" "T = (tasks s)(p := None)" by (rule exit_finish_inv [OF exit_finish.hyps])
  have "orphan T c" unfolding t(4) using exit_finish.prems(3) t(1,3) by (auto simp: orphan_def split: if_splits)
  then show ?case by simp
next
  case (fork_begin s p d)
  from fork_begin.hyps(1) obtain t where t: "tasks s p = Some t" by (rule atE)
  note e = fork_begin_eq [of "tasks s", OF t fork_begin.hyps(2), of "next_tid s"]
  note o = orphan_create [OF fork_begin.prems(3) t fork_begin.hyps(2), of "next_tid s" "Copying p"]
  have "orphan (process_fork (tasks s) p d (next_tid s)) c" unfolding e(2) by (rule orphan_upd [OF o e(1)]) simp_all
  then show ?case by simp
next
  case (spawn s p d)
  from spawn.hyps(1) obtain t where t: "tasks s p = Some t" by (rule atE)
  have "orphan (create (tasks s) p d (next_tid s) Running) c" by (rule orphan_create [OF spawn.prems(3) t spawn.hyps(2)])
  then show ?case by simp
next
  case (copied s d p ok T)
  obtain t u where u: "tasks s d = Some u" "t_at u = Copying p" and t: "tasks s p = Some t" "t_at t = In_fork (t_tid u)" "d \<in> set (t_children t)" "d \<noteq> p"
    and T: "T = (tasks s)(p \<mapsto> t\<lparr>fork_sema := fork_sema t + 1\<rparr>, d \<mapsto> u\<lparr>t_at := (if ok then Running else Failing)\<rparr>)"
    by (rule copied_inv [OF copied.prems(1,2) copied.hyps])
  have "orphan ((tasks s)(p \<mapsto> t\<lparr>fork_sema := fork_sema t + 1\<rparr>)) c" by (rule orphan_upd [OF copied.prems(3) t(1)]) simp_all
  then have "orphan T c" unfolding T by (rule orphan_upd [where t = u]) (use u t(4) in simp_all)
  then show ?case by simp
next
  case (fork_finish s p i r T)
  obtain t where t: "tasks s p = Some t" "t_at t = In_fork i" "fork_sema t = 1" "T = (tasks s)(p \<mapsto> t\<lparr>fork_sema := fork_sema t - 1, t_at := Running\<rparr>)"
    by (rule fork_finish_inv [OF fork_finish.prems(1,2) fork_finish.hyps])
  have "orphan T c" unfolding t(4) by (rule orphan_upd [OF fork_finish.prems(3) t(1)]) simp_all
  then show ?case by simp
qed

interpretation orph: stable fstep "\<lambda>s. tree (tasks s) (next_tid s) \<and> forks (tasks s) \<and> orphan (tasks s) c" for c
  by unfold_locales (use tree_forks_step orphan_step in blast)

text \<open>
  A process that ended while a child was still in its list, because it did not wait for it, leaves the child
  in memory forever: whatever happens later, the child's thread is never freed.
\<close>

lemma unwaited_child_stays:
  assumes "reachable s" "tasks s p = Some t" "c \<in> set (t_children t)" "fstep s s'" "tasks s' p = None" "fstep\<^sup>*\<^sup>* s' s''"
  shows "tasks s'' c \<noteq> None"
proof -
  note tr = reachable_inv(1) [OF assms(1)] and fk = reachable_inv(2) [OF assms(1)]
  from treeD(5) [OF tr assms(2,3)] obtain u where u: "tasks s c = Some u" "free_sema u = 0" by blast
  have cp: "c \<noteq> p" by (rule treeD(4) [OF tr assms(2,3)])
  have gone: "tasks s' = (tasks s)(p := None)" using assms(4)
  proof cases
    case (exit_finish q T)
    obtain v where v: "tasks s q = Some v" "T = (tasks s)(q := None)" by (rule exit_finish_inv [OF exit_finish(2,3)])
    then show ?thesis using exit_finish(1) assms(2,5) by (auto split: if_splits)
  next
    case (wait_return q i r T)
    then show ?thesis using wait_return_inv [OF tr wait_return(2,3)] assms(2,5) by simp
  next
    case (wait_begin q i T)
    show ?thesis by (rule wait_begin_inv [OF tr wait_begin(2,3)]) (use wait_begin(1) assms(2,5) in \<open>auto split: if_splits\<close>)
  next
    case (wait_finish q d r T)
    show ?thesis by (rule wait_finish_inv [OF tr wait_finish(2,3)]) (use wait_finish(1) assms(2,5) in \<open>auto split: if_splits\<close>)
  next
    case (copied d q ok T)
    show ?thesis by (rule copied_inv [OF tr fk copied(2,3)]) (use copied(1) assms(2,5) in \<open>auto split: if_splits\<close>)
  next
    case (fork_finish q i r T)
    show ?thesis by (rule fork_finish_inv [OF tr fk fork_finish(2,3)]) (use fork_finish(1) assms(2,5) in \<open>auto split: if_splits\<close>)
  qed (use assms(2,5) in \<open>auto simp: store_status_def exit_up_def create_def process_fork_def task_ops split: if_splits\<close>)
  have "c \<notin> set (t_children v)" if "tasks s q = Some v" "q \<noteq> p" for q v using treeD(6) [OF tr assms(2) that(1) assms(3)] that(2) by blast
  then have "orphan (tasks s') c" using u cp by (auto simp: orphan_def gone split: if_splits)
  with orph.runs [OF assms(6), of c] reachable_inv(1,2) [OF reach_step [OF assms(1,4)]] have "orphan (tasks s'') c" by blast
  then show ?thesis by (auto simp: orphan_def)
qed

section \<open>Runs of two processes\<close>

text \<open>The first thread at address 1 and its child at address 2.\<close>

definition pair :: "task \<Rightarrow> task \<Rightarrow> tasks" where
  "pair t u = [1 \<mapsto> t, 2 \<mapsto> u]"

definition main_task :: "nat \<Rightarrow> place \<Rightarrow> task" where
  "main_task f a = (new_task 1 a)\<lparr>t_children := [2], fork_sema := f\<rparr>"

lemma pair_sel [simp]: "pair t u 1 = Some t" "pair t u 2 = Some u" "(pair t u)(1 \<mapsto> t') = pair t' u" "(pair t u)(2 \<mapsto> u') = pair t u'"
  by (auto simp: pair_def fun_eq_iff)

lemma forked_reach: "reachable \<lparr>tasks = pair (main_task 0 (In_fork 2)) (new_task 2 (Copying 1)), next_tid = 3, log = []\<rparr>" (is "reachable ?s")
proof -
  have "fstep (start 1) ((start 1)\<lparr>tasks := process_fork (tasks (start 1)) 1 2 (next_tid (start 1)), next_tid := next_tid (start 1) + 1\<rparr>)"
    by (rule fork_begin) (simp_all add: start_def is_at_def new_task_def)
  moreover have "process_fork [1 \<mapsto> new_task 1 Running] 1 2 2 = pair (main_task 0 (In_fork 2)) (new_task 2 (Copying 1))"
    by (auto simp: process_fork_def create_def task_ops pair_def main_task_def new_task_def fun_eq_iff)
  ultimately have "fstep (start 1) ?s" by (simp add: start_def)
  moreover have "reachable (start 1)" by (rule reach_start) simp
  ultimately show ?thesis by (rule reach_step [rotated])
qed

lemma copied_reach: "reachable \<lparr>tasks = pair (main_task 1 (In_fork 2)) (new_task 2 (if ok then Running else Failing)), next_tid = 3, log = []\<rparr>"
proof (rule reach_step [OF forked_reach])
  let ?T = "pair (main_task 0 (In_fork 2)) (new_task 2 (Copying 1))" and ?T' = "pair (main_task 1 (In_fork 2)) (new_task 2 (if ok then Running else Failing))"
  let ?s = "\<lparr>tasks = ?T, next_tid = 3, log = []\<rparr>"
  have "fork_up ?T 2 1 ok = ret ?T'" using fork_up_eq [of ?T 1 "main_task 0 (In_fork 2)" 2 "new_task 2 (Copying 1)" ok] by (simp add: main_task_def new_task_def)
  then have "fstep ?s (?s\<lparr>tasks := ?T'\<rparr>)" by (intro copied [where c = 2 and p = 1 and ok = ok]) (simp_all add: is_at_def new_task_def)
  then show "fstep ?s \<lparr>tasks = ?T', next_tid = 3, log = []\<rparr>" by simp
qed

lemma finish_fork:
  assumes "reachable \<lparr>tasks = pair (main_task 1 (In_fork 2)) u, next_tid = 3, log = l\<rparr>" "t_tid u = 2"
  shows "reachable \<lparr>tasks = pair (main_task 0 Running) u, next_tid = 3, log = l @ [Forked 2 (if t_status u = - 1 then - 1 else 2)]\<rparr>"
proof (rule reach_step [OF assms(1)])
  let ?T = "pair (main_task 1 (In_fork 2)) u"
  let ?s = "\<lparr>tasks = ?T, next_tid = 3, log = l\<rparr>"
  note tr = reachable_inv(1) [OF assms(1), simplified]
  have "process_fork_end ?T 1 2 = ret (Some (if t_status u = - 1 then - 1 else 2, pair (main_task 0 Running) u))"
    using process_fork_end_eq [OF tr, of 1 "main_task 1 (In_fork 2)" 2 u 2] assms(2) by (simp add: TID_ERR_def main_task_def new_task_def)
  then have "fstep ?s (?s\<lparr>tasks := pair (main_task 0 Running) u, log := log ?s @ [Forked 2 (if t_status u = - 1 then - 1 else 2)]\<rparr>)"
    by (intro fork_finish [where p = 1 and i = 2]) (simp_all add: is_at_def main_task_def new_task_def)
  then show "fstep ?s \<lparr>tasks = pair (main_task 0 Running) u, next_tid = 3, log = l @ [Forked 2 (if t_status u = - 1 then - 1 else 2)]\<rparr>" by simp
qed

text \<open>
  \<open>fork\<close> can report success though the copy failed: the child wakes the parent before \<open>sys_exit\<close> stores the status
  the parent looks at.
\<close>

lemma failed_copy_reported_as_success: "\<exists>s. reachable s \<and> log s = [Forked 2 2] \<and> is_at s 2 Failing"
proof -
  have "reachable \<lparr>tasks = pair (main_task 0 Running) (new_task 2 Failing), next_tid = 3, log = [] @ [Forked 2 2]\<rparr>" (is "reachable ?s")
    using finish_fork [OF copied_reach [of False]] by (simp add: new_task_def)
  moreover have "is_at ?s 2 Failing" by (simp add: is_at_def new_task_def)
  ultimately show ?thesis by (intro exI [of _ ?s]) simp
qed

lemma child_exit_reach:
  assumes "reachable \<lparr>tasks = pair t u, next_tid = 3, log = l\<rparr>" "t_at u = Running" "t_tid u = 2"
  shows "reachable \<lparr>tasks = pair t (u\<lparr>t_status := r, t_at := Ending\<rparr>), next_tid = 3, log = l @ [Exited 2 r]\<rparr>"
proof (rule reach_step [OF assms(1)])
  let ?s = "\<lparr>tasks = pair t u, next_tid = 3, log = l\<rparr>"
  have "fstep ?s (?s\<lparr>tasks := store_status (tasks ?s) 2 r, log := log ?s @ [Exited (tid_of ?s 2) r]\<rparr>)"
    by (rule sys_exit) (simp add: is_at_def assms)
  then show "fstep ?s \<lparr>tasks = pair t (u\<lparr>t_status := r, t_at := Ending\<rparr>), next_tid = 3, log = l @ [Exited 2 r]\<rparr>"
    by (simp add: store_status_eq [of "pair t u" 2 u] tid_of_def assms(3))
qed

text \<open>\<open>fork\<close> can report failure though the child ran: it ended with -1 before the parent looked.\<close>

lemma exit_reported_as_failed_fork: "\<exists>s. reachable s \<and> log s = [Exited 2 (- 1), Forked 2 (- 1)]"
proof -
  have "reachable \<lparr>tasks = pair (main_task 1 (In_fork 2)) ((new_task 2 Running)\<lparr>t_status := - 1, t_at := Ending\<rparr>), next_tid = 3, log = [] @ [Exited 2 (- 1)]\<rparr>"
    using child_exit_reach [OF copied_reach [of True, simplified], of "- 1"] by (simp add: new_task_def)
  from finish_fork [OF this] show ?thesis
    by (intro exI [of _ "\<lparr>tasks = pair (main_task 0 Running) ((new_task 2 Running)\<lparr>t_status := - 1, t_at := Ending\<rparr>), next_tid = 3, log = [Exited 2 (- 1), Forked 2 (- 1)]\<rparr>"])
       (simp add: new_task_def)
qed

text \<open>The parent waits for a child that ended with 7.\<close>

definition waiting :: family where
  "waiting = \<lparr>tasks = pair (main_task 0 (In_wait 2)) ((new_task 2 In_exit)\<lparr>t_status := 7, wait_sema := 1\<rparr>), next_tid = 3, log = [Forked 2 2, Exited 2 7]\<rparr>"

lemma waiting_reach: "reachable waiting"
proof -
  let ?u = "new_task 2 Running"
  have "reachable \<lparr>tasks = pair (main_task 0 Running) ?u, next_tid = 3, log = [] @ [Forked 2 2]\<rparr>" (is "reachable ?s")
    using finish_fork [OF copied_reach [of True]] by (simp add: new_task_def)
  moreover have "process_wait (pair (main_task 0 Running) ?u) 1 2 = ret (None, pair (main_task 0 (In_wait 2)) ?u)"
    by (simp add: process_wait_def task_ops main_task_def new_task_def fun_eq_iff)
  then have "fstep ?s (?s\<lparr>tasks := pair (main_task 0 (In_wait 2)) ?u\<rparr>)"
    by (intro wait_begin [where p = 1 and i = 2]) (simp_all add: is_at_def main_task_def new_task_def)
  ultimately have "reachable \<lparr>tasks = pair (main_task 0 (In_wait 2)) ?u, next_tid = 3, log = [Forked 2 2]\<rparr>" using reach_step by fastforce
  from child_exit_reach [OF this, of 7] have "reachable \<lparr>tasks = pair (main_task 0 (In_wait 2)) ((new_task 2 Ending)\<lparr>t_status := 7\<rparr>), next_tid = 3, log = [Forked 2 2, Exited 2 7]\<rparr>"
    (is "reachable ?t") by (simp add: new_task_def)
  moreover have "fstep ?t (?t\<lparr>tasks := exit_up (tasks ?t) 2\<rparr>)" by (rule exit_raise) (simp add: is_at_def new_task_def)
  moreover have "?t\<lparr>tasks := exit_up (tasks ?t) 2\<rparr> = waiting"
    by (simp add: waiting_def exit_up_eq [of "pair t u" 2 u for t u] new_task_def)
  ultimately show ?thesis using reach_step by metis
qed

lemma waiting_at: "is_at waiting 1 (In_wait 2)" "is_at waiting 2 In_exit" "tid_of waiting 2 = 2" "exits (log waiting) = [(2, 7)]" "reaps (log waiting) = []"
  by (simp_all add: waiting_def is_at_def tid_of_def main_task_def new_task_def)



theorem family_memory_safe_witness: "reachable waiting \<and> (\<exists>x. process_wait_end (tasks waiting) 1 2 = ret x)"
proof -
  have "tasks waiting 1 = Some (main_task 0 (In_wait 2))" by (simp add: waiting_def)
  from family_memory_safe [OF waiting_reach this, of 0 2] show ?thesis using waiting_reach by (simp add: main_task_def new_task_def)
qed

end
