(* ===== verification/Stdlib.thy ===== *)
theory Stdlib
  imports Klist_Ordered Kstring
begin

text \<open>
  Sorting, searching and number parsing, \<open>lib/stdlib.c\<close>. An array of \<open>cnt\<close> elements of \<open>size\<close>
  bytes is the sequence of its elements; indexes are natural numbers, as twice the number of
  elements of an array in memory is below the size of an address. Indexes of the heap sort count
  from 1. \<open>compare\<close> returns a number whose sign is the order of its arguments.

  The locale \<open>comparison\<close> states what the callers promise of it; \<open>sort\<close> then terminates with a
  sorted permutation, and \<open>binary_search\<close> finds an equal element of a sorted array if there is one.
\<close>

section \<open>Heap sort\<close>

definition at :: "'a list \<Rightarrow> nat \<Rightarrow> 'a exec" where
  "at xs k = (if 1 \<le> k \<and> k \<le> length xs then ret (xs ! (k - 1)) else fail Out_of_bounds)"

definition do_swap :: "'a list \<Rightarrow> nat \<Rightarrow> nat \<Rightarrow> 'a list exec" where
  "do_swap xs a_idx b_idx =
     bindE (at xs a_idx) (\<lambda>a. bindE (at xs b_idx) (\<lambda>b. ret (xs[a_idx - 1 := b, b_idx - 1 := a])))"

definition do_compare :: "('a \<Rightarrow> 'a \<Rightarrow> int) \<Rightarrow> 'a list \<Rightarrow> nat \<Rightarrow> nat \<Rightarrow> int exec" where
  "do_compare compare xs a_idx b_idx = bindE (at xs a_idx) (\<lambda>a. bindE (at xs b_idx) (\<lambda>b. ret (compare a b)))"

text \<open>The index of the largest element among \<open>i\<close> and its children.\<close>

definition heap_max :: "('a \<Rightarrow> 'a \<Rightarrow> int) \<Rightarrow> 'a list \<Rightarrow> nat \<Rightarrow> nat \<Rightarrow> nat exec" where
  "heap_max compare xs i cnt =
     (let left = 2 * i; right = 2 * i + 1; m = i in
      bindE (if left \<le> cnt then bindE (do_compare compare xs left m) (\<lambda>c. ret (if c > 0 then left else m)) else ret m) (\<lambda>m.
      if right \<le> cnt then bindE (do_compare compare xs right m) (\<lambda>c. ret (if c > 0 then right else m)) else ret m))"

partial_function (option) heapify :: "('a \<Rightarrow> 'a \<Rightarrow> int) \<Rightarrow> 'a list \<Rightarrow> nat \<Rightarrow> nat \<Rightarrow> 'a list exec" where
  "heapify compare xs i cnt =
     bindE (heap_max compare xs i cnt) (\<lambda>m.
     if m = i then ret xs
     else bindE (do_swap xs i m) (\<lambda>xs. heapify compare xs m cnt))"

fun build_loop :: "('a \<Rightarrow> 'a \<Rightarrow> int) \<Rightarrow> 'a list \<Rightarrow> nat \<Rightarrow> nat \<Rightarrow> 'a list exec" where
  "build_loop compare xs cnt 0 = ret xs"
| "build_loop compare xs cnt (Suc i) = bindE (heapify compare xs (Suc i) cnt) (\<lambda>xs. build_loop compare xs cnt i)"

fun extract_loop :: "('a \<Rightarrow> 'a \<Rightarrow> int) \<Rightarrow> 'a list \<Rightarrow> nat \<Rightarrow> 'a list exec" where
  "extract_loop compare xs 0 = ret xs"
| "extract_loop compare xs (Suc i) =
     (if Suc i > 1 then
        bindE (do_swap xs 1 (Suc i)) (\<lambda>xs. bindE (heapify compare xs 1 i) (\<lambda>xs. extract_loop compare xs i))
      else ret xs)"

definition sort_array :: "('a \<Rightarrow> 'a \<Rightarrow> int) \<Rightarrow> 'a list \<Rightarrow> nat \<Rightarrow> 'a list exec" where
  "sort_array compare xs cnt =
     bindE (build_loop compare xs cnt (cnt div 2)) (\<lambda>xs. extract_loop compare xs cnt)"

text \<open>\<open>qsort\<close> passes its argument on through \<open>compare_thunk\<close>.\<close>

definition compare_thunk :: "('a \<Rightarrow> 'a \<Rightarrow> int) \<Rightarrow> 'a \<Rightarrow> 'a \<Rightarrow> int" where
  "compare_thunk compare a b = compare a b"

definition qsort :: "('a \<Rightarrow> 'a \<Rightarrow> int) \<Rightarrow> 'a list \<Rightarrow> nat \<Rightarrow> 'a list exec" where
  "qsort compare xs cnt = sort_array (compare_thunk compare) xs cnt"

section \<open>Binary search\<close>

text \<open>\<open>first\<close> and \<open>lst\<close> are the indexes of the pointers; the result is an index or the null pointer.\<close>

partial_function (option) search_loop :: "('k \<Rightarrow> 'a \<Rightarrow> int) \<Rightarrow> 'k \<Rightarrow> 'a list \<Rightarrow> nat \<Rightarrow> nat \<Rightarrow> nat option exec" where
  "search_loop compare key xs first lst =
     (if first < lst then
        let range = lst - first; middle = first + range div 2 in
        bindE (at xs (middle + 1)) (\<lambda>x.
        let cmp = compare key x in
        if cmp < 0 then search_loop compare key xs first middle
        else if cmp > 0 then search_loop compare key xs (middle + 1) lst
        else ret (Some middle))
      else ret None)"

definition binary_search :: "('k \<Rightarrow> 'a \<Rightarrow> int) \<Rightarrow> 'k \<Rightarrow> 'a list \<Rightarrow> nat \<Rightarrow> nat option exec" where
  "binary_search compare key xs cnt = search_loop compare key xs 0 cnt"

definition bsearch :: "('a \<Rightarrow> 'a \<Rightarrow> int) \<Rightarrow> 'a \<Rightarrow> 'a list \<Rightarrow> nat \<Rightarrow> nat option exec" where
  "bsearch compare key xs cnt = binary_search (compare_thunk compare) key xs cnt"

section \<open>Numbers\<close>

definition isspace :: "u8 \<Rightarrow> bool" where
  "isspace c \<longleftrightarrow> c = 32 \<or> c = 12 \<or> c = 10 \<or> c = 13 \<or> c = 9 \<or> c = 11"

definition isdigit :: "u8 \<Rightarrow> bool" where
  "isdigit c \<longleftrightarrow> 48 \<le> c \<and> c \<le> 57"

function skip_space :: "u8 list \<Rightarrow> nat \<Rightarrow> nat exec" where
  "skip_space m s = (if s < length m then if isspace (m ! s) then skip_space m (s + 1) else ret s else fail Out_of_bounds)"
  by auto
termination by (relation "measure (\<lambda>(m, s). length m - s)") auto

function digits_loop :: "u8 list \<Rightarrow> nat \<Rightarrow> int \<Rightarrow> int exec" where
  "digits_loop m s value =
     (if s < length m
      then if isdigit (m ! s) then digits_loop m (s + 1) (int32 (int32 (value * 10) - (uint (m ! s) - 48))) else ret value
      else fail Out_of_bounds)"
  by auto
termination by (relation "measure (\<lambda>(m, s, v). length m - s)") auto

definition atoi :: "u8 list \<Rightarrow> nat \<Rightarrow> int exec" where
  "atoi m s =
     bindE (skip_space m s) (\<lambda>s.
     bindE (load m s) (\<lambda>c.
     let negative = (c = 45); s = (if c = 43 \<or> c = 45 then s + 1 else s) in
     bindE (digits_loop m s 0) (\<lambda>value. ret (if negative then value else int32 (- value)))))"

declare skip_space.simps [simp del] digits_loop.simps [simp del]

section \<open>What a comparison function promises\<close>

abbreviation el :: "'a list \<Rightarrow> nat \<Rightarrow> 'a" where
  "el xs k \<equiv> xs ! (k - 1)"

lemma at_el [simp]: "1 \<le> k \<Longrightarrow> k \<le> length xs \<Longrightarrow> at xs k = ret (el xs k)"
  by (simp add: at_def)

locale comparison = list_less "\<lambda>a b. compare a b < 0" for compare :: "'a \<Rightarrow> 'a \<Rightarrow> int" +
  assumes swap: "compare a b > 0 \<longleftrightarrow> compare b a < 0"
begin

definition le :: "'a \<Rightarrow> 'a \<Rightarrow> bool" where
  "le a b \<longleftrightarrow> \<not> compare b a < 0"

lemma le_refl [simp]: "le a a"
  using irrefl by (simp add: le_def)

lemma le_trans: "le a b \<Longrightarrow> le b c \<Longrightarrow> le a c"
  unfolding le_def using negtrans by blast

lemma le_compare: "compare a b > 0 \<Longrightarrow> le b a" "\<not> compare a b > 0 \<Longrightarrow> le a b"
  using asym by (auto simp: le_def swap)

text \<open>The parent of the element \<open>k\<close> is no smaller, for the parents from \<open>l\<close> on; \<open>sift\<close> excepts the parent \<open>i\<close>.\<close>

definition heap :: "nat \<Rightarrow> nat \<Rightarrow> 'a list \<Rightarrow> bool" where
  "heap l cnt xs \<longleftrightarrow> (\<forall>k. k \<le> cnt \<and> l \<le> k div 2 \<longrightarrow> le (el xs k) (el xs (k div 2)))"

definition sift :: "nat \<Rightarrow> nat \<Rightarrow> nat \<Rightarrow> 'a list \<Rightarrow> bool" where
  "sift l i cnt xs \<longleftrightarrow> (\<forall>k. k \<le> cnt \<and> l \<le> k div 2 \<and> k div 2 \<noteq> i \<longrightarrow> le (el xs k) (el xs (k div 2))) \<and>
     (\<forall>k. k \<le> cnt \<and> k div 2 = i \<and> l \<le> i div 2 \<longrightarrow> le (el xs k) (el xs (i div 2)))"

lemma heap_max_ok:
  assumes "1 \<le> i" and "i \<le> cnt" and "cnt \<le> length xs"
  shows "\<exists>m. heap_max compare xs i cnt = ret m \<and> (m = i \<or> m div 2 = i \<and> m \<le> cnt \<and> i < m) \<and>
    le (el xs i) (el xs m) \<and> (\<forall>k. k \<le> cnt \<and> k div 2 = i \<longrightarrow> le (el xs k) (el xs m))"
proof -
  have kids: "k = 2 * i \<or> k = 2 * i + 1" if "k div 2 = i" for k using that by auto
  define m1 where "m1 = (if 2 * i \<le> cnt \<and> compare (el xs (2 * i)) (el xs i) > 0 then 2 * i else i)"
  define m2 where "m2 = (if 2 * i + 1 \<le> cnt \<and> compare (el xs (2 * i + 1)) (el xs m1) > 0 then 2 * i + 1 else m1)"
  have m1: "m1 = i \<or> m1 = 2 * i \<and> 2 * i \<le> cnt" "le (el xs i) (el xs m1)" "2 * i \<le> cnt \<Longrightarrow> le (el xs (2 * i)) (el xs m1)"
    using le_compare by (auto simp: m1_def)
  have m2: "m2 = m1 \<or> m2 = 2 * i + 1 \<and> 2 * i + 1 \<le> cnt" "le (el xs m1) (el xs m2)"
    "2 * i + 1 \<le> cnt \<Longrightarrow> le (el xs (2 * i + 1)) (el xs m2)"
    using le_compare by (auto simp: m2_def)
  have "heap_max compare xs i cnt = ret m2"
    using assms m1(1) by (auto simp: heap_max_def do_compare_def m2_def m1_def Let_def)
  moreover have "le (el xs k) (el xs m2)" if "k \<le> cnt" "k div 2 = i" for k
    using that(1) kids [OF that(2)] le_trans [OF m1(3) m2(2)] m2(3) by metis
  moreover have "m2 = i \<or> m2 div 2 = i \<and> m2 \<le> cnt \<and> i < m2" using m1(1) m2(1) assms(1) by auto
  ultimately show ?thesis using le_trans [OF m1(2) m2(2)] by blast
qed

lemma sift_step:
  assumes "sift l i cnt xs" and "1 \<le> l" "l \<le> i" "i \<le> cnt" "cnt \<le> length xs"
    and m: "m div 2 = i" "m \<le> cnt" "i < m" "le (el xs i) (el xs m)" "\<forall>k. k \<le> cnt \<and> k div 2 = i \<longrightarrow> le (el xs k) (el xs m)"
  shows "sift l m cnt (xs[i - 1 := el xs m, m - 1 := el xs i])"
proof -
  let ?ys = "xs[i - 1 := el xs m, m - 1 := el xs i]"
  have ne: "i - 1 \<noteq> m - 1" "i - 1 < length xs" "m - 1 < length xs" using assms by auto
  have y: "el ?ys i = el xs m" "el ?ys m = el xs i" "\<And>k. k \<noteq> i \<Longrightarrow> k \<noteq> m \<Longrightarrow> 1 \<le> k \<Longrightarrow> el ?ys k = el xs k"
    using ne assms by (auto simp: nth_list_update)
  show ?thesis
    unfolding sift_def
  proof (intro conjI allI impI; elim conjE)
    fix k assume k: "k \<le> cnt" "l \<le> k div 2" "k div 2 \<noteq> m"
    consider "k = m" | "k \<noteq> m" "k div 2 = i" | "k = i" | "k \<noteq> m" "k \<noteq> i" "k div 2 \<noteq> i" by blast
    then show "le (el ?ys k) (el ?ys (k div 2))"
    proof cases
      case 1
      then show ?thesis using m(1,4) y by simp
    next
      case 2
      moreover from 2 have "k \<noteq> i" "1 \<le> k" using assms(2,3) by auto
      ultimately show ?thesis using m(5) k(1) y by auto
    next
      case 3
      then have "le (el xs m) (el xs (i div 2))" using assms(1) m(1,2) k(2) by (auto simp: sift_def)
      moreover have "i div 2 \<noteq> i" "i div 2 \<noteq> m" "1 \<le> i div 2" using 3 k assms(2) m(3) by auto
      ultimately show ?thesis using 3 y by simp
    next
      case 4
      then have "le (el xs k) (el xs (k div 2))" using assms(1) k by (auto simp: sift_def)
      moreover have "1 \<le> k div 2" "1 \<le> k" using k(2) assms(2) by auto
      ultimately show ?thesis using 4 k(3) y(3) [of k] y(3) [of "k div 2"] by simp
    qed
  next
    fix k assume k: "k \<le> cnt" "k div 2 = m" "l \<le> m div 2"
    then have "le (el xs k) (el xs m)" using assms(1) m by (auto simp: sift_def)
    moreover have "k \<noteq> i" "k \<noteq> m" "1 \<le> k" using k m(3) by auto
    ultimately show "le (el ?ys k) (el ?ys (m div 2))" using y m(1) by simp
  qed
qed

lemma mset_swap: "a < length xs \<Longrightarrow> b < length xs \<Longrightarrow> mset (xs[a := xs ! b, b := xs ! a]) = mset xs"
  by (cases "a = b") (simp_all add: mset_swap)

lemma heapify_ok:
  assumes "sift l i cnt xs" and "1 \<le> l" "l \<le> i" "i \<le> cnt" "cnt \<le> length xs"
  shows "\<exists>ys. heapify compare xs i cnt = ret ys \<and> heap l cnt ys \<and> mset ys = mset xs \<and> drop cnt ys = drop cnt xs"
  using assms
proof (induction "cnt - i" arbitrary: i xs rule: less_induct)
  case less
  from heap_max_ok [of i cnt xs] less.prems obtain m where
    m: "heap_max compare xs i cnt = ret m" "m = i \<or> m div 2 = i \<and> m \<le> cnt \<and> i < m" "le (el xs i) (el xs m)"
      "\<forall>k. k \<le> cnt \<and> k div 2 = i \<longrightarrow> le (el xs k) (el xs m)" by auto
  show ?case
  proof (cases "m = i")
    case True
    then have "heap l cnt xs" using less.prems(1) m(4) by (auto simp: sift_def heap_def)
    then show ?thesis using m(1) True by (subst heapify.simps) simp
  next
    case False
    let ?ys = "xs[i - 1 := el xs m, m - 1 := el xs i]"
    have m2: "m div 2 = i" "m \<le> cnt" "i < m" using m(2) False by auto
    have s: "sift l m cnt ?ys" by (rule sift_step [OF less.prems m2 m(3,4)])
    have "do_swap xs i m = ret ?ys" using less.prems m2 by (simp add: do_swap_def)
    then have step: "heapify compare xs i cnt = heapify compare ?ys m cnt" using m(1) False by (subst heapify.simps) simp
    have "mset ?ys = mset xs" using less.prems m2 by (intro mset_swap) auto
    moreover have "drop cnt ?ys = drop cnt xs" using less.prems m2 by (auto simp: drop_update_cancel)
    ultimately show ?thesis
      using less.hyps [of m ?ys] s step less.prems m2 by simp
  qed
qed

end

context comparison
begin

lemma build_loop_ok:
  assumes "heap (Suc i) cnt xs" and "i \<le> cnt" "cnt \<le> length xs"
  shows "\<exists>ys. build_loop compare xs cnt i = ret ys \<and> heap 1 cnt ys \<and> mset ys = mset xs \<and> drop cnt ys = drop cnt xs"
  using assms
proof (induction i arbitrary: xs)
  case (Suc i)
  have "sift (Suc i) (Suc i) cnt xs" using Suc.prems(1) by (auto simp: sift_def heap_def)
  from heapify_ok [OF this] Suc.prems obtain ys where
    ys: "heapify compare xs (Suc i) cnt = ret ys" "heap (Suc i) cnt ys" "mset ys = mset xs" "drop cnt ys = drop cnt xs" by auto
  have "length ys = length xs" using ys(3) by (metis size_mset)
  with Suc.IH [of ys] ys Suc.prems show ?case by auto
qed (auto simp: heap_def)

lemma heap_root: "heap 1 cnt xs \<Longrightarrow> 1 \<le> k \<Longrightarrow> k \<le> cnt \<Longrightarrow> le (el xs k) (el xs 1)"
proof (induction k rule: less_induct)
  case (less k)
  show ?case
  proof (cases "k = 1")
    case False
    then have "le (el xs k) (el xs (k div 2))" "1 \<le> k div 2" "k div 2 < k" using less.prems by (auto simp: heap_def)
    then show ?thesis using less.IH [of "k div 2"] less.prems le_trans by (meson le_trans order_trans less_imp_le)
  qed simp
qed

lemma take_mset: "mset ys = mset xs \<Longrightarrow> drop n ys = drop n xs \<Longrightarrow> mset (take n ys) = mset (take n xs)"
  by (metis add_right_cancel append_take_drop_id mset_append)

text \<open>The state of the second loop: a heap, and behind it larger elements in order.\<close>

definition half_sorted :: "nat \<Rightarrow> 'a list \<Rightarrow> bool" where
  "half_sorted i xs \<longleftrightarrow> i \<le> length xs \<and> heap 1 i xs \<and> ordered (\<lambda>a b. compare a b < 0) (drop i xs) \<and>
     (\<forall>a \<in> set (take i xs). \<forall>b \<in> set (drop i xs). le a b)"

lemma half_sorted_step:
  assumes h: "half_sorted (Suc i) xs" and i: "1 \<le> i"
  shows "\<exists>ys. bindE (do_swap xs 1 (Suc i)) (\<lambda>xs. heapify compare xs 1 i) = ret ys \<and> half_sorted i ys \<and> mset ys = mset xs"
proof -
  let ?xs = "xs[0 := xs ! i, i := xs ! 0]"
  have n: "Suc i \<le> length xs" "heap 1 (Suc i) xs" using h by (auto simp: half_sorted_def)
  have sw: "do_swap xs 1 (Suc i) = ret ?xs" using n by (simp add: do_swap_def)
  have "le (el ?xs k) (el ?xs (k div 2))" if "k \<le> i" "1 \<le> k div 2" "k div 2 \<noteq> 1" for k
  proof -
    have "2 \<le> k div 2" using that by arith
    then have "k - 1 \<noteq> 0" "k - 1 \<noteq> i" "k div 2 - 1 \<noteq> 0" "k div 2 - 1 \<noteq> i" using that by arith+
    moreover have "le (el xs k) (el xs (k div 2))" using n(2) that by (simp add: heap_def)
    ultimately show ?thesis by simp
  qed
  then have "sift 1 1 i ?xs" by (auto simp: sift_def)
  from heapify_ok [OF this] n(1) i obtain ys where
    ys: "heapify compare ?xs 1 i = ret ys" "heap 1 i ys" "mset ys = mset ?xs" "drop i ys = drop i ?xs" by auto
  have d: "drop i ?xs = xs ! 0 # drop (Suc i) xs" using n(1) i by (simp add: drop_update_swap Cons_nth_drop_Suc [symmetric])
  have xs0: "xs ! 0 \<in> set (take (Suc i) xs)" using n(1) by (cases xs) auto
  have tk: "set (take i ?xs) \<subseteq> set (take (Suc i) xs)"
  proof
    fix a assume "a \<in> set (take i ?xs)"
    then obtain k where k: "k < i" "a = ?xs ! k" using n(1) by (auto simp: in_set_conv_nth)
    moreover have "0 < length xs" using n(1) by linarith
    ultimately have "a = xs ! (if k = 0 then i else k)" by (auto simp: nth_list_update)
    moreover have "(if k = 0 then i else k) < Suc i" using k by simp
    ultimately show "a \<in> set (take (Suc i) xs)" using n(1) by (metis in_set_conv_nth length_take min.absorb2 nth_take)
  qed
  have root: "le a (xs ! 0)" if "a \<in> set (take (Suc i) xs)" for a
  proof -
    from that obtain k where "k < Suc i" "a = xs ! k" using n(1) by (auto simp: in_set_conv_nth)
    then show ?thesis using heap_root [OF n(2), of "Suc k"] by simp
  qed
  have m: "set (take i ys) = set (take i ?xs)" using take_mset [OF ys(3,4)] by (metis set_mset_mset)
  have "half_sorted i ys"
    unfolding half_sorted_def ys(4) d m
  proof (intro conjI ballI)
    show "i \<le> length ys" using n(1) ys(3) by (metis Suc_leD length_list_update size_mset)
    show "heap 1 i ys" by (rule ys(2))
    show "ordered (\<lambda>a b. compare a b < 0) (xs ! 0 # drop (Suc i) xs)"
      using h xs0 by (auto simp: half_sorted_def ordered_Cons le_def)
    show "le a b" if "a \<in> set (take i ?xs)" "b \<in> set (xs ! 0 # drop (Suc i) xs)" for a b
      using that tk root h by (auto simp: half_sorted_def)
  qed
  moreover have "mset ?xs = mset xs" using n(1) by (intro mset_swap) auto
  ultimately show ?thesis using sw ys by simp
qed

lemma extract_loop_ok:
  "half_sorted i xs \<Longrightarrow> \<exists>ys. extract_loop compare xs i = ret ys \<and> mset ys = mset xs \<and> ordered (\<lambda>a b. compare a b < 0) ys"
proof (induction i arbitrary: xs)
  case (Suc i)
  show ?case
  proof (cases "i = 0")
    case True
    obtain x ys where "xs = x # ys" using Suc.prems by (cases xs) (auto simp: half_sorted_def)
    then show ?thesis using Suc.prems True by (auto simp: half_sorted_def ordered_Cons le_def)
  next
    case False
    with half_sorted_step [OF Suc.prems] obtain zs ys where
      "do_swap xs 1 (Suc i) = ret zs" "heapify compare zs 1 i = ret ys" "half_sorted i ys" "mset ys = mset xs" by auto
    with Suc.IH [of ys] False show ?thesis by auto
  qed
qed (simp add: half_sorted_def)

lemma sort_array_ok:
  "\<exists>ys. sort_array compare xs (length xs) = ret ys \<and> mset ys = mset xs \<and> ordered (\<lambda>a b. compare a b < 0) ys"
proof -
  have "heap (Suc (length xs div 2)) (length xs) xs" by (auto simp: heap_def)
  from build_loop_ok [OF this] obtain ys where
    ys: "build_loop compare xs (length xs) (length xs div 2) = ret ys" "heap 1 (length xs) ys" "mset ys = mset xs" by auto
  have "length ys = length xs" using ys(3) by (metis size_mset)
  then have "half_sorted (length xs) ys" using ys(2) by (simp add: half_sorted_def)
  with extract_loop_ok [OF this] ys show ?thesis by (auto simp: sort_array_def)
qed

lemma search_loop_ok:
  assumes "ordered (\<lambda>a b. compare a b < 0) xs" and "lst \<le> length xs"
    and "\<forall>k < first. compare key (xs ! k) > 0" and "\<forall>k. lst \<le> k \<and> k < length xs \<longrightarrow> compare key (xs ! k) < 0"
  shows "\<exists>r. search_loop compare key xs first lst = ret r \<and>
    (case r of None \<Rightarrow> \<forall>k < length xs. compare key (xs ! k) \<noteq> 0 | Some k \<Rightarrow> k < length xs \<and> compare key (xs ! k) = 0)"
  using assms(2-4)
proof (induction "lst - first" arbitrary: first lst rule: less_induct)
  case less
  show ?case
  proof (cases "first < lst")
    case False
    have "compare key (xs ! k) \<noteq> 0" if "k < length xs" for k
    proof (cases "k < first")
      case True
      then show ?thesis using less.prems(2) by force
    next
      case False
      then have "compare key (xs ! k) < 0" using less.prems(3) that \<open>\<not> first < lst\<close> by simp
      then show ?thesis by simp
    qed
    then show ?thesis using False by (subst search_loop.simps) simp
  next
    case True
    define m where "m = first + (lst - first) div 2"
    have m: "first \<le> m" "m < lst" "m < length xs" "m - first < lst - first" "lst - (m + 1) < lst - first"
      using True less.prems(1) by (auto simp: m_def)
    have ord: "\<not> compare (xs ! b) (xs ! a) < 0" if "a \<le> b" "b < length xs" for a b
      using assms(1) that irrefl by (cases "a = b") (auto simp: ordered_def sorted_wrt_iff_nth_less)
    have step: "search_loop compare key xs first lst = (if compare key (xs ! m) < 0 then search_loop compare key xs first m
      else if compare key (xs ! m) > 0 then search_loop compare key xs (m + 1) lst else ret (Some m))"
      using True m(3) by (subst search_loop.simps) (simp add: Let_def m_def)
    consider "compare key (xs ! m) < 0" | "compare key (xs ! m) > 0" "\<not> compare key (xs ! m) < 0" | "compare key (xs ! m) = 0" by linarith
    then show ?thesis
    proof cases
      case 1
      have "compare key (xs ! k) < 0" if "m \<le> k" "k < length xs" for k
        using ord [OF that] 1 negtrans [of key "xs ! k" "xs ! m"] by blast
      then show ?thesis unfolding step using less.hyps [OF m(4)] m(2) 1 less.prems by simp
    next
      case 2
      have "compare key (xs ! k) > 0" if "k < m + 1" for k
        using ord [of k m] that m 2(1) negtrans [of "xs ! m" "xs ! k" key] unfolding swap by fastforce
      then show ?thesis unfolding step using less.hyps [OF m(5)] 2 less.prems by simp
    next
      case 3
      then show ?thesis unfolding step using m by simp
    qed
  qed
qed

end

section \<open>Decimal numbers\<close>

lemma int32_mod: "int32 x mod 2 ^ 32 = x mod 2 ^ 32"
proof -
  have "((x + 2 ^ 31) mod 2 ^ 32 - 2 ^ 31) mod 2 ^ 32 = (x + 2 ^ 31 - 2 ^ 31) mod 2 ^ 32" by (rule mod_diff_left_eq)
  then show ?thesis by (simp add: int32_def)
qed

lemma int32_cong: "x mod 2 ^ 32 = y mod 2 ^ 32 \<Longrightarrow> int32 x = int32 y"
  unfolding int32_def by (metis mod_add_left_eq)

lemma int32_step: "int32 (int32 (int32 v * 10) - d) = int32 (v * 10 - d)"
proof (rule int32_cong)
  have "int32 (int32 v * 10) mod 2 ^ 32 = (v * 10) mod 2 ^ 32"
    using int32_mod [of "int32 v * 10"] int32_mod [of v] mod_mult_left_eq [of "int32 v" "2 ^ 32" 10] mod_mult_left_eq [of v "2 ^ 32" 10]
    by presburger
  then show "(int32 (int32 v * 10) - d) mod 2 ^ 32 = (v * 10 - d) mod 2 ^ 32" by (metis mod_diff_left_eq)
qed

lemma int32_uminus: "int32 (- int32 x) = int32 (- x)"
  by (rule int32_cong) (metis int32_mod mod_minus_eq)

definition decimal :: "u8 list \<Rightarrow> int" where
  "decimal ds = foldl (\<lambda>v c. v * 10 + (uint c - 48)) 0 ds"

lemma digits_loop_at:
  "string_at m p (ds @ rest) \<Longrightarrow> list_all isdigit ds \<Longrightarrow> rest = [] \<or> \<not> isdigit (hd rest) \<Longrightarrow>
     digits_loop m p (int32 (- v)) = ret (int32 (- foldl (\<lambda>v c. v * 10 + (uint c - 48)) v ds))"
proof (induction ds arbitrary: p v)
  case Nil
  then have "p < length m" "\<not> isdigit (m ! p)" by (cases rest; auto simp: isdigit_def)+
  then show ?case by (subst digits_loop.simps) simp
next
  case (Cons c ds)
  have "int32 (int32 (int32 (- v) * 10) - (uint c - 48)) = int32 (- (v * 10 + (uint c - 48)))"
    unfolding int32_step by (simp add: algebra_simps)
  moreover have "digits_loop m (Suc p) (int32 (- (v * 10 + (uint c - 48)))) =
      ret (int32 (- foldl (\<lambda>v c. v * 10 + (uint c - 48)) (v * 10 + (uint c - 48)) ds))"
    using Cons.prems by (intro Cons.IH) simp_all
  ultimately show ?case using Cons.prems by (subst digits_loop.simps) simp
qed

lemma skip_space_at:
  "string_at m p (sp @ s) \<Longrightarrow> list_all isspace sp \<Longrightarrow> s = [] \<or> \<not> isspace (hd s) \<Longrightarrow> skip_space m p = ret (p + length sp)"
proof (induction sp arbitrary: p)
  case Nil
  then have "p < length m" "\<not> isspace (m ! p)" by (cases s; auto simp: isspace_def)+
  then show ?case by (subst skip_space.simps) simp
next
  case (Cons c sp)
  then show ?case by (subst skip_space.simps) simp
qed

section \<open>Properties\<close>

text \<open>
  C29. \<open>sort\<close> and \<open>qsort\<close> (a heap sort) terminate for every comparison function that orders its
  elements, stay inside the array, and leave it a sorted permutation.
\<close>

theorem sort_correct:
  assumes "comparison compare"
  shows "\<exists>ys. sort_array compare xs (length xs) = ret ys \<and> qsort compare xs (length xs) = ret ys \<and>
    mset ys = mset xs \<and> ordered (\<lambda>a b. compare a b < 0) ys"
proof -
  have "compare_thunk compare = compare" by (intro ext) (simp add: compare_thunk_def)
  then show ?thesis using comparison.sort_array_ok [OF assms, of xs] by (simp add: qsort_def)
qed

text \<open>
  \<open>binary_search\<close> terminates on a sorted array, reads only elements of it, and returns an
  element equal to the key if and only if there is one.
\<close>

theorem binary_search_correct:
  assumes "comparison compare" and "ordered (\<lambda>a b. compare a b < 0) xs"
  shows "\<exists>r. binary_search compare key xs (length xs) = ret r \<and>
    (case r of None \<Rightarrow> \<forall>x \<in> set xs. compare key x \<noteq> 0 | Some k \<Rightarrow> k < length xs \<and> compare key (xs ! k) = 0)"
proof -
  from comparison.search_loop_ok [OF assms, of "length xs" 0 key] obtain r where
    "search_loop compare key xs 0 (length xs) = ret r"
    "case r of None \<Rightarrow> \<forall>k < length xs. compare key (xs ! k) \<noteq> 0 | Some k \<Rightarrow> k < length xs \<and> compare key (xs ! k) = 0" by auto
  then show ?thesis by (auto simp: binary_search_def in_set_conv_nth split: option.splits)
qed

text \<open>
  \<open>atoi\<close> on blanks, an optional sign, digits and anything that is not a digit returns the
  number, reduced to 32 bits in two's complement; so it is exact for every value of an \<open>int\<close>,
  the smallest included.
\<close>

theorem atoi_correct:
  assumes "string_at m p (sp @ sg @ ds @ rest)" and "list_all isspace sp" and "sg \<in> {[], [43], [45]}"
    and "list_all isdigit ds" and "rest = [] \<or> \<not> isdigit (hd rest)"
    and "sg = [] \<longrightarrow> ds \<noteq> []"
  shows "atoi m p = ret (int32 (if sg = [45] then - decimal ds else decimal ds))"
proof -
  let ?q = "p + length sp"
  have q: "string_at m ?q (sg @ ds @ rest)" by (rule string_at_drop [OF assms(1)])
  have hd: "sg @ ds @ rest = [] \<or> \<not> isspace (hd (sg @ ds @ rest))"
    using assms(3,4,6) by (cases ds) (auto simp: isspace_def isdigit_def)
  have sp: "skip_space m p = ret ?q" by (rule skip_space_at [OF assms(1,2) hd])
  have r: "string_at m (?q + length sg) (ds @ rest)" by (rule string_at_drop [OF q])
  have dg: "digits_loop m (?q + length sg) 0 = ret (int32 (- decimal ds))"
    using digits_loop_at [OF r assms(4,5), of 0] by (simp add: decimal_def int32_def)
  have c: "load m ?q = ret (m ! ?q)" "m ! ?q = hd (sg @ ds @ rest @ [0])"
    using string_at_bound [OF q] string_at_bytes [OF q] q by (cases sg; cases ds; cases rest; simp add: load_def)+
  show ?thesis
  proof (cases "sg = []")
    case True
    then have "m ! ?q \<noteq> 43" "m ! ?q \<noteq> 45" using c(2) assms(4,6) by (cases ds; auto simp: isdigit_def)+
    then show ?thesis using True sp c(1) dg by (simp add: atoi_def Let_def int32_uminus)
  next
    case False
    then show ?thesis using assms(3) sp c dg by (auto simp: atoi_def Let_def int32_uminus)
  qed
qed

theorem atoi_correct_witness:
  "atoi [32, 45, 50, 49, 52, 55, 52, 56, 51, 54, 52, 56, 0] 0 = ret (- 2147483648)"
  using atoi_correct [of "[32, 45, 50, 49, 52, 55, 52, 56, 51, 54, 52, 56, 0]" 0 "[32]" "[45]" "[50, 49, 52, 55, 52, 56, 51, 54, 52, 56]" "[]"]
  by (simp add: isspace_def isdigit_def decimal_def int32_def)

text \<open>The order of \<open>strcmp\<close> is one the two functions can be called with.\<close>

definition strcmp_order :: "u8 list \<Rightarrow> u8 list \<Rightarrow> int" where
  "strcmp_order s t = (if s = t then 0 else if ord_class.lexordp s t then - 1 else 1)"

lemma strcmp_order: "string_at m p s \<Longrightarrow> string_at m q t \<Longrightarrow> strcmp m p q = ret (strcmp_order s t)"
  by (simp add: strcmp_at strcmp_order_def)

interpretation str: comparison strcmp_order
proof
  have lt: "strcmp_order s t < 0 \<longleftrightarrow> ord_class.lexordp s t" for s t
    by (auto simp: strcmp_order_def lexordp_irreflexive')
  fix a b c :: "u8 list"
  show "\<not> strcmp_order a a < 0" by (simp add: strcmp_order_def)
  show "strcmp_order a b < 0 \<Longrightarrow> strcmp_order b c < 0 \<Longrightarrow> strcmp_order a c < 0" unfolding lt by (rule lexordp_trans)
  show "\<not> strcmp_order a b < 0 \<Longrightarrow> \<not> strcmp_order b c < 0 \<Longrightarrow> \<not> strcmp_order a c < 0"
    unfolding lt by (metis lexordp_linear lexordp_trans)
  show "0 < strcmp_order a b \<longleftrightarrow> strcmp_order b a < 0"
    unfolding lt by (metis lexordp_linear lexordp_trans lexordp_irreflexive' strcmp_order_def less_irrefl zero_less_one neg_0_less_iff_less not_one_less_zero)
qed

theorem sort_correct_witness:
  "\<exists>ys. sort_array strcmp_order [[98], [97, 97], [97]] 3 = ret ys \<and> mset ys = mset [[98], [97, 97], [97]] \<and>
     ordered (\<lambda>a b. strcmp_order a b < 0) ys"
  using sort_correct [OF str.comparison_axioms, of "[[98], [97, 97], [97]]"] by (auto simp: numeral_3_eq_3)

theorem binary_search_correct_witness:
  "\<exists>r. binary_search strcmp_order [97, 97] [[97], [97, 97], [98]] 3 = ret r \<and> r \<noteq> None"
  using binary_search_correct [OF str.comparison_axioms, of "[[97], [97, 97], [98]]" "[97, 97]"]
  by (auto simp: strcmp_order_def ordered_def numeral_3_eq_3 split: option.splits)

end
