(* ===== verification/Fixed_Point.thy ===== *)
theory Fixed_Point
  imports Prelude
begin

text \<open>
  17.14 fixed-point numbers, \<open>threads/fixed-point.c\<close>: an \<open>int\<close> stands for that many 16384ths. The
  products and quotients of two such numbers are computed with 64 bits; every result is reduced to
  32 bits. Division by zero is the divide error.

  The lemmas bound the rounding error of each operation as long as the exact result fits.
\<close>

type_synonym fixed_t = int

definition F :: int where "F = 2 ^ 14"

definition int_to_fp :: "int \<Rightarrow> fixed_t" where
  "int_to_fp n = int32 (n * F)"

definition fp_to_int :: "fixed_t \<Rightarrow> int" where
  "fp_to_int x = cdiv x F"

definition fp_to_int_round :: "fixed_t \<Rightarrow> int" where
  "fp_to_int_round x = (if x \<ge> 0 then cdiv (int32 (x + cdiv F 2)) F else cdiv (int32 (x - cdiv F 2)) F)"

definition add_fp :: "fixed_t \<Rightarrow> fixed_t \<Rightarrow> fixed_t" where
  "add_fp x y = int32 (x + y)"

definition sub_fp :: "fixed_t \<Rightarrow> fixed_t \<Rightarrow> fixed_t" where
  "sub_fp x y = int32 (x - y)"

definition add_fp_int :: "fixed_t \<Rightarrow> int \<Rightarrow> fixed_t" where
  "add_fp_int x n = int32 (x + int32 (n * F))"

definition sub_fp_int :: "fixed_t \<Rightarrow> int \<Rightarrow> fixed_t" where
  "sub_fp_int x n = int32 (x - int32 (n * F))"

definition mul_fp :: "fixed_t \<Rightarrow> fixed_t \<Rightarrow> fixed_t" where
  "mul_fp x y = int32 (cdiv (x * y) F)"

definition mul_fp_int :: "fixed_t \<Rightarrow> int \<Rightarrow> fixed_t" where
  "mul_fp_int x n = int32 (x * n)"

definition div_fp :: "fixed_t \<Rightarrow> fixed_t \<Rightarrow> fixed_t exec" where
  "div_fp x y = (if y = 0 then fail Div_error else ret (int32 (cdiv (x * F) y)))"

text \<open>The quotient \<open>INT_MIN / -1\<close> does not fit and stops with the divide error too.\<close>

definition div_fp_int :: "fixed_t \<Rightarrow> int \<Rightarrow> fixed_t exec" where
  "div_fp_int x n = (if n = 0 \<or> x = - (2 ^ 31) \<and> n = - 1 then fail Div_error else ret (cdiv x n))"

lemma F_pos [simp]: "0 < F" "F \<noteq> 0" "\<not> F < 0" "cdiv F 2 = 2 ^ 13" "sgn F = 1" "\<bar>F\<bar> = F"
  by (simp_all add: F_def cdiv_def)

text \<open>C's division is off by less than the divisor, and errs towards zero.\<close>

lemma cdiv_error: "d \<noteq> 0 \<Longrightarrow> \<bar>cdiv x d * d - x\<bar> < \<bar>d\<bar> \<and> \<bar>cdiv x d * d\<bar> \<le> \<bar>x\<bar>"
proof -
  assume d: "d \<noteq> 0"
  have s: "cdiv x d * d = sgn x * (\<bar>x\<bar> div \<bar>d\<bar> * \<bar>d\<bar>)"
    using d by (simp add: cdiv_def) (metis (no_types, opaque_lifting) abs_mult_sgn mult.commute mult.left_commute sgn_mult_self_eq mult_1 abs_sgn)
  have m: "\<bar>x\<bar> div \<bar>d\<bar> * \<bar>d\<bar> = \<bar>x\<bar> - \<bar>x\<bar> mod \<bar>d\<bar>" by (simp add: minus_mod_eq_div_mult)
  have b: "0 \<le> \<bar>x\<bar> mod \<bar>d\<bar>" "\<bar>x\<bar> mod \<bar>d\<bar> < \<bar>d\<bar>" using d by simp_all
  have b2: "\<bar>x\<bar> mod \<bar>d\<bar> \<le> \<bar>x\<bar>" by (rule zmod_le_nonneg_dividend) simp
  show ?thesis
  proof (cases "x \<ge> 0")
    case True
    then show ?thesis using s m b b2 by (cases "x = 0") (auto simp: sgn_if)
  next
    case False
    then show ?thesis using s m b b2 by (auto simp: sgn_if)
  qed
qed

lemma cdiv_cases: "0 < d \<Longrightarrow> cdiv x d = (if x \<ge> 0 then x div d else - (- x div d))"
  by (auto simp: cdiv_def sgn_if)

lemma round_value:
  "\<bar>x\<bar> < 2 ^ 31 - 2 ^ 13 \<Longrightarrow> fp_to_int_round x = (if x \<ge> 0 then (x + 8192) div 16384 else - ((8192 - x) div 16384))"
  by (auto simp: fp_to_int_round_def F_def cdiv_cases in_int32_def)

lemma cdiv_fits:
  assumes "\<bar>x\<bar> < 2 ^ 31 * \<bar>d\<bar>"
  shows "in_int32 (cdiv x d)"
proof -
  have "d \<noteq> 0" using assms by auto
  then have "0 \<le> \<bar>x\<bar> div \<bar>d\<bar>" by (simp add: div_int_pos_iff)
  moreover have "\<bar>x\<bar> div \<bar>d\<bar> < 2 ^ 31"
  proof (rule ccontr)
    assume "\<not> ?thesis"
    then have "2 ^ 31 * \<bar>d\<bar> \<le> \<bar>x\<bar> div \<bar>d\<bar> * \<bar>d\<bar>" by (intro mult_right_mono) auto
    also have "\<dots> \<le> \<bar>x\<bar>" using \<open>d \<noteq> 0\<close> by (simp add: minus_mod_eq_div_mult [symmetric])
    finally show False using assms by simp
  qed
  ultimately have "\<bar>cdiv x d\<bar> < 2 ^ 31" by (auto simp: cdiv_def sgn_if abs_mult)
  then show ?thesis by (auto simp: in_int32_def)
qed

text \<open>
  Accuracy: an integer survives the conversion to fixed point and back; rounding a fixed-point
  number is off by at most a half; products and quotients that fit are off by less than one
  16384th; a zero divisor is the divide error.
\<close>

theorem fixed_point_accuracy:
  assumes n: "\<bar>n\<bar> < 2 ^ 17" and x: "\<bar>x\<bar> < 2 ^ 31 - 2 ^ 13" and y: "in_int32 y"
    and p: "\<bar>x * y\<bar> < 2 ^ 31 * F" and q: "\<bar>x * F\<bar> < 2 ^ 31 * \<bar>y\<bar> \<or> y = 0"
  shows "fp_to_int (int_to_fp n) = n \<and> fp_to_int_round (int_to_fp n) = n \<and>
    2 * \<bar>fp_to_int_round x * F - x\<bar> \<le> F \<and> \<bar>mul_fp x y * F - x * y\<bar> < F \<and>
    (case div_fp x y of Some (Inr z) \<Rightarrow> y \<noteq> 0 \<and> \<bar>z * y - x * F\<bar> < \<bar>y\<bar> | r \<Rightarrow> y = 0 \<and> r = fail Div_error)"
proof (intro conjI)
  have fp: "int_to_fp n = n * 16384" using n unfolding int_to_fp_def F_def by (subst int32_id) (auto simp: in_int32_def)
  show "fp_to_int (int_to_fp n) = n" 
  proof -
    have "- (n * 16384) div 16384 = - n" using nonzero_mult_div_cancel_right [of 16384 "- n"] by simp
    then show ?thesis unfolding fp fp_to_int_def F_def by (simp add: cdiv_cases)
  qed
  have "\<bar>n * 16384\<bar> < 2 ^ 31 - 2 ^ 13" using n by auto
  then show "fp_to_int_round (int_to_fp n) = n" unfolding fp by (subst round_value) auto
  show "2 * \<bar>fp_to_int_round x * F - x\<bar> \<le> F" unfolding round_value [OF x] F_def by (cases "x \<ge> 0"; simp; presburger?)
  have "in_int32 (cdiv (x * y) F)" using p by (intro cdiv_fits) simp
  then show "\<bar>mul_fp x y * F - x * y\<bar> < F" using cdiv_error [of F "x * y"] by (simp add: mul_fp_def)
  show "case div_fp x y of Some (Inr z) \<Rightarrow> y \<noteq> 0 \<and> \<bar>z * y - x * F\<bar> < \<bar>y\<bar> | r \<Rightarrow> y = 0 \<and> r = fail Div_error"
  proof (cases "y = 0")
    case False
    then have "in_int32 (cdiv (x * F) y)" using q by (intro cdiv_fits) simp
    then show ?thesis using False cdiv_error [of y "x * F"] by (simp add: div_fp_def)
  qed (simp add: div_fp_def)
qed

theorem fixed_point_accuracy_witness:
  "fp_to_int (int_to_fp (- 5)) = - 5 \<and> 2 * \<bar>fp_to_int_round 24576 * F - 24576\<bar> \<le> F \<and> \<bar>mul_fp 24576 16384 * F - 24576 * 16384\<bar> < F"
  using fixed_point_accuracy [of "- 5" 24576 16384] by (simp add: in_int32_def F_def)

end
