(* ===== verification/Thread.thy ===== *)
theory Thread
  imports Klist_Ordered Fixed_Point
begin

text \<open>
  Threads and the scheduler, \<open>threads/thread.c\<close>. The state \<open>kstate\<close> holds the thread structures by
  the address of their page, the running thread, the ready list, the list of all threads, the
  pages to be freed, the clock's counters and sleepers, and the semaphores and locks of
  \<open>threads/synch.c\<close>. Kernel lists are sequences of addresses; \<open>insert_by\<close> and \<open>sort_by\<close> are what
  \<open>list_insert_ordered\<close> and \<open>list_sort\<close> do to them (\<open>Klist_Ordered\<close>).

  All functions run with interrupts off, so each is one step of the system; the interrupt level
  itself is not part of the state, and \<open>in_intr\<close> says whether an interrupt handler runs. A function
  that switches threads leaves the state in which the next thread goes on (\<open>current\<close>); what the
  old thread does after the switch is a later step. A page that was freed is no longer in
  \<open>threads\<close>, and following a pointer to it is a fault. The switch of registers and page tables is
  not modelled.
\<close>

section \<open>Data\<close>

datatype thread_status = THREAD_RUNNING | THREAD_READY | THREAD_BLOCKED | THREAD_DYING

record donation =
  d_priority :: int
  donor :: ptr
  d_lock :: ptr

record thread =
  tid :: int
  status :: thread_status
  t_name :: "u8 list"
  priority :: int
  original_priority :: int
  donations :: "donation list"
  pending_lock :: ptr
  nice :: int
  recent_cpu :: fixed_t
  children_list :: "ptr list"
  user_thread :: bool
  t_magic :: u32

record semaphore =
  sema_value :: u32
  waiters :: "ptr list"

record kstate =
  threads :: "ptr \<Rightarrow> thread option"
  current :: ptr
  ready_list :: "ptr list"
  all_list :: "ptr list"
  destruction_req :: "ptr list"
  idle_thread :: ptr
  initial_thread :: ptr
  next_tid :: int
  thread_ticks :: u32
  idle_ticks :: int
  kernel_ticks :: int
  user_ticks :: int
  load_avg :: fixed_t
  thread_mlfqs :: bool
  in_intr :: bool
  yield_on_return :: bool
  ticks :: int
  closet_tick :: int
  block_thread_list :: "(ptr \<times> int) list"
  semas :: "ptr \<Rightarrow> semaphore option"
  holders :: "ptr \<Rightarrow> ptr"
  conds :: "ptr \<Rightarrow> ptr list"

definition THREAD_MAGIC :: u32 where "THREAD_MAGIC = 0xcd6abf4b"
definition TIME_SLICE :: u32 where "TIME_SLICE = 4"
definition PRI_MIN :: int where "PRI_MIN = 0"
definition PRI_DEFAULT :: int where "PRI_DEFAULT = 31"
definition PRI_MAX :: int where "PRI_MAX = 63"
definition TID_ERROR :: int where "TID_ERROR = - 1"

definition the_thread :: "kstate \<Rightarrow> ptr \<Rightarrow> thread exec" where
  "the_thread s p = (case threads s p of None \<Rightarrow> fail Null_deref | Some t \<Rightarrow> ret t)"

definition upd_thread :: "kstate \<Rightarrow> ptr \<Rightarrow> (thread \<Rightarrow> thread) \<Rightarrow> kstate" where
  "upd_thread s p f = s\<lparr>threads := (threads s)(p := map_option f (threads s p))\<rparr>"

definition is_thread :: "kstate \<Rightarrow> ptr \<Rightarrow> bool" where
  "is_thread s p \<longleftrightarrow> p \<noteq> NULL \<and> (case threads s p of None \<Rightarrow> False | Some t \<Rightarrow> t_magic t = THREAD_MAGIC)"

definition prio :: "kstate \<Rightarrow> ptr \<Rightarrow> int" where
  "prio s p = (case threads s p of None \<Rightarrow> 0 | Some t \<Rightarrow> priority t)"

definition compare_priority :: "kstate \<Rightarrow> ptr \<Rightarrow> ptr \<Rightarrow> bool" where
  "compare_priority s a b \<longleftrightarrow> prio s a > prio s b"

text \<open>A stable sort: elements that are equal stay in their order.\<close>

definition sort_by :: "('a \<Rightarrow> 'a \<Rightarrow> bool) \<Rightarrow> 'a list \<Rightarrow> 'a list" where
  "sort_by lt xs = fold (insert_by lt) xs []"

section \<open>Scheduling\<close>

definition thread_current :: "kstate \<Rightarrow> ptr exec" where
  "thread_current s =
     (if \<not> is_thread s (current s) then fail Assert_failed
      else bindE (the_thread s (current s)) (\<lambda>t. ASSERT (status t = THREAD_RUNNING) (ret (current s))))"

definition next_thread_to_run :: "kstate \<Rightarrow> ptr \<times> kstate" where
  "next_thread_to_run s =
     (case ready_list s of [] \<Rightarrow> (idle_thread s, s) | t # ts \<Rightarrow> (t, s\<lparr>ready_list := ts\<rparr>))"

definition schedule :: "kstate \<Rightarrow> kstate exec" where
  "schedule s =
     (let curr = current s; (nxt, s) = next_thread_to_run s in
      bindE (the_thread s curr) (\<lambda>c.
      ASSERT (status c \<noteq> THREAD_RUNNING) (
      ASSERT (is_thread s nxt) (
      let s = (upd_thread s nxt (\<lambda>t. t\<lparr>status := THREAD_RUNNING\<rparr>))\<lparr>thread_ticks := 0\<rparr> in
      if curr \<noteq> nxt then
        let s = (if status c = THREAD_DYING \<and> curr \<noteq> initial_thread s
                 then s\<lparr>destruction_req := insert_by (compare_priority s) curr (destruction_req s)\<rparr> else s) in
        ret (s\<lparr>current := nxt\<rparr>)
      else ret s))))"

fun free_victims :: "kstate \<Rightarrow> ptr list \<Rightarrow> kstate" where
  "free_victims s [] = s\<lparr>destruction_req := []\<rparr>"
| "free_victims s (victim # vs) = free_victims (s\<lparr>threads := (threads s)(victim := None)\<rparr>) vs"

definition do_schedule :: "kstate \<Rightarrow> thread_status \<Rightarrow> kstate exec" where
  "do_schedule s st =
     bindE (thread_current s) (\<lambda>_.
     let s = free_victims s (destruction_req s) in
     bindE (thread_current s) (\<lambda>cur. schedule (upd_thread s cur (\<lambda>t. t\<lparr>status := st\<rparr>))))"

definition thread_block :: "kstate \<Rightarrow> kstate exec" where
  "thread_block s =
     ASSERT (\<not> in_intr s) (
     bindE (thread_current s) (\<lambda>cur. schedule (upd_thread s cur (\<lambda>t. t\<lparr>status := THREAD_BLOCKED\<rparr>))))"

definition thread_unblock :: "kstate \<Rightarrow> ptr \<Rightarrow> kstate exec" where
  "thread_unblock s t =
     ASSERT (is_thread s t) (
     bindE (the_thread s t) (\<lambda>th.
     ASSERT (status th = THREAD_BLOCKED) (
     let s = s\<lparr>ready_list := insert_by (compare_priority s) t (ready_list s)\<rparr> in
     ret (upd_thread s t (\<lambda>t. t\<lparr>status := THREAD_READY\<rparr>)))))"

definition thread_yield :: "kstate \<Rightarrow> kstate exec" where
  "thread_yield s =
     bindE (thread_current s) (\<lambda>curr.
     ASSERT (\<not> in_intr s) (
     let s = (if curr \<noteq> idle_thread s then s\<lparr>ready_list := insert_by (compare_priority s) curr (ready_list s)\<rparr> else s) in
     do_schedule s THREAD_READY))"

definition compare_cur_next_priority :: "kstate \<Rightarrow> kstate exec" where
  "compare_cur_next_priority s =
     (if ready_list s = [] then ret s
      else
        let s = s\<lparr>ready_list := sort_by (compare_priority s) (ready_list s)\<rparr>; nxt = hd (ready_list s) in
        bindE (the_thread s nxt) (\<lambda>n.
        bindE (thread_current s) (\<lambda>cur.
        if priority n > prio s cur then
          if in_intr s then ret (s\<lparr>yield_on_return := True\<rparr>) else thread_yield s
        else ret s)))"

text \<open>The end of \<open>thread_exit\<close>, after \<open>process_exit\<close>.\<close>

definition thread_exit :: "kstate \<Rightarrow> kstate exec" where
  "thread_exit s = ASSERT (\<not> in_intr s) (do_schedule s THREAD_DYING)"

definition thread_tid :: "kstate \<Rightarrow> int exec" where
  "thread_tid s = bindE (thread_current s) (\<lambda>c. bindE (the_thread s c) (\<lambda>t. ret (tid t)))"

definition thread_name :: "kstate \<Rightarrow> u8 list exec" where
  "thread_name s = bindE (thread_current s) (\<lambda>c. bindE (the_thread s c) (\<lambda>t. ret (t_name t)))"

section \<open>Priorities\<close>

definition thread_get_priority :: "kstate \<Rightarrow> int exec" where
  "thread_get_priority s = bindE (thread_current s) (\<lambda>c. bindE (the_thread s c) (\<lambda>t. ret (priority t)))"

definition thread_set_priority :: "kstate \<Rightarrow> int \<Rightarrow> kstate exec" where
  "thread_set_priority s new_priority =
     (if thread_mlfqs s then ret s
      else bindE (thread_current s) (\<lambda>cur.
        let s = upd_thread s cur (\<lambda>t. t\<lparr>original_priority := new_priority,
          priority := (case donations t of [] \<Rightarrow> new_priority
            | d # _ \<Rightarrow> if d_priority d > new_priority then d_priority d else new_priority)\<rparr>) in
        compare_cur_next_priority s))"

section \<open>The feedback scheduler\<close>

definition update_recent_cpu :: "kstate \<Rightarrow> kstate exec" where
  "update_recent_cpu s =
     bindE (thread_current s) (\<lambda>cur. ret (upd_thread s cur (\<lambda>t. t\<lparr>recent_cpu := add_fp_int (recent_cpu t) 1\<rparr>)))"

definition update_load_avg :: "kstate \<Rightarrow> kstate exec" where
  "update_load_avg s =
     bindE (thread_current s) (\<lambda>cur.
     let ready_threads = int (length (ready_list s)) + (if cur \<noteq> idle_thread s then 1 else 0) in
     bindE (div_fp_int (mul_fp_int (load_avg s) 59) 60) (\<lambda>term1.
     bindE (div_fp_int (int_to_fp 1) 60) (\<lambda>sixtieth.
     ret (s\<lparr>load_avg := add_fp term1 (mul_fp_int sixtieth ready_threads)\<rparr>))))"

definition update_priority :: "kstate \<Rightarrow> ptr \<Rightarrow> kstate exec" where
  "update_priority s t =
     (if t = idle_thread s then ret s
      else bindE (the_thread s t) (\<lambda>th.
        bindE (div_fp_int (recent_cpu th) 4) (\<lambda>q.
        let new_priority = int32 (PRI_MAX - fp_to_int_round q - int32 (nice th * 2));
            new_priority = (if new_priority > PRI_MAX then PRI_MAX else new_priority);
            new_priority = (if new_priority < PRI_MIN then PRI_MIN else new_priority) in
        ret (upd_thread s t (\<lambda>th. th\<lparr>priority := new_priority\<rparr>)))))"

fun recent_cpu_loop :: "kstate \<Rightarrow> ptr list \<Rightarrow> kstate exec" where
  "recent_cpu_loop s [] = ret s"
| "recent_cpu_loop s (e # es) =
     bindE (the_thread s e) (\<lambda>entry.
     if status entry = THREAD_DYING \<or> e = idle_thread s then recent_cpu_loop s es
     else
       bindE (div_fp (mul_fp_int (load_avg s) 2) (add_fp_int (mul_fp_int (load_avg s) 2) 1)) (\<lambda>coeff.
       recent_cpu_loop (upd_thread s e (\<lambda>t. t\<lparr>recent_cpu := add_fp (mul_fp coeff (recent_cpu t)) (int_to_fp (nice t))\<rparr>)) es))"

definition update_recent_cpu_all :: "kstate \<Rightarrow> kstate exec" where
  "update_recent_cpu_all s = recent_cpu_loop s (all_list s)"

fun all_priority_loop :: "kstate \<Rightarrow> ptr list \<Rightarrow> kstate exec" where
  "all_priority_loop s [] = ret s"
| "all_priority_loop s (e # es) =
     bindE (the_thread s e) (\<lambda>entry.
     if status entry = THREAD_DYING \<or> e = idle_thread s then all_priority_loop s es
     else bindE (update_priority s e) (\<lambda>s. all_priority_loop s es))"

definition update_all_priority :: "kstate \<Rightarrow> kstate exec" where
  "update_all_priority s = bindE (all_priority_loop s (all_list s)) compare_cur_next_priority"

definition thread_set_nice :: "kstate \<Rightarrow> int \<Rightarrow> kstate exec" where
  "thread_set_nice s n =
     bindE (thread_current s) (\<lambda>cur.
     bindE (update_priority (upd_thread s cur (\<lambda>t. t\<lparr>nice := n\<rparr>)) cur) compare_cur_next_priority)"

definition thread_get_nice :: "kstate \<Rightarrow> int exec" where
  "thread_get_nice s = bindE (thread_current s) (\<lambda>c. bindE (the_thread s c) (\<lambda>t. ret (nice t)))"

definition thread_get_load_avg :: "kstate \<Rightarrow> int" where
  "thread_get_load_avg s = fp_to_int_round (int32 (load_avg s * 100))"

definition thread_get_recent_cpu :: "kstate \<Rightarrow> int exec" where
  "thread_get_recent_cpu s =
     bindE (thread_current s) (\<lambda>c. bindE (the_thread s c) (\<lambda>t. ret (fp_to_int_round (int32 (recent_cpu t * 100)))))"

definition TIMER_FREQ :: int where "TIMER_FREQ = 100"

definition mlfqs_on_tick :: "kstate \<Rightarrow> kstate exec" where
  "mlfqs_on_tick s =
     bindE (update_recent_cpu s) (\<lambda>s.
     bindE (if cmod (ticks s) TIMER_FREQ = 0
            then bindE (update_load_avg s) update_recent_cpu_all else ret s) (\<lambda>s.
     if cmod (ticks s) 4 = 0 then bindE (update_all_priority s) compare_cur_next_priority else ret s))"

definition thread_tick :: "kstate \<Rightarrow> kstate exec" where
  "thread_tick s =
     bindE (thread_current s) (\<lambda>t.
     bindE (the_thread s t) (\<lambda>th.
     let s = (if t = idle_thread s then s\<lparr>idle_ticks := idle_ticks s + 1\<rparr>
              else if user_thread th then s\<lparr>user_ticks := user_ticks s + 1\<rparr>
              else s\<lparr>kernel_ticks := kernel_ticks s + 1\<rparr>) in
     bindE (if thread_mlfqs s then mlfqs_on_tick s else ret s) (\<lambda>s.
     let s = s\<lparr>thread_ticks := thread_ticks s + 1\<rparr> in
     ret (if thread_ticks s \<ge> TIME_SLICE then s\<lparr>yield_on_return := True\<rparr> else s))))"

section \<open>New threads\<close>

text \<open>The two semaphores inside a thread's page, at addresses of their own.\<close>

definition wait_sema :: "ptr \<Rightarrow> ptr" where "wait_sema t = t + 1"
definition free_sema :: "ptr \<Rightarrow> ptr" where "free_sema t = t + 2"

definition init_thread :: "kstate \<Rightarrow> ptr \<Rightarrow> u8 list \<Rightarrow> int \<Rightarrow> kstate exec" where
  "init_thread s t name pri =
     ASSERT (t \<noteq> NULL) (ASSERT (PRI_MIN \<le> pri \<and> pri \<le> PRI_MAX) (
     let th = \<lparr>tid = 0, status = THREAD_BLOCKED, t_name = take 15 name, priority = pri, original_priority = pri,
           donations = [], pending_lock = NULL, nice = 0, recent_cpu = 0, children_list = [], user_thread = False,
           t_magic = THREAD_MAGIC\<rparr> in
     bindE (if thread_mlfqs s
            then if t = initial_thread s then ret (th\<lparr>nice := 0, recent_cpu := int_to_fp 0\<rparr>)
                 else bindE (thread_current s) (\<lambda>c. bindE (the_thread s c) (\<lambda>ct.
                   ret (th\<lparr>nice := nice ct, recent_cpu := recent_cpu ct\<rparr>)))
            else ret th) (\<lambda>th.
     ret (s\<lparr>threads := (threads s)(t \<mapsto> th), all_list := all_list s @ [t],
            semas := (semas s)(wait_sema t \<mapsto> \<lparr>sema_value = 0, waiters = []\<rparr>, free_sema t \<mapsto> \<lparr>sema_value = 0, waiters = []\<rparr>)\<rparr>))))"

section \<open>Ordered lists\<close>

context list_less
begin

lemma set_insert_by: "set (insert_by lt x xs) = insert x (set xs)"
  by (metis insert_by_def set_append list.simps(15) takeWhile_dropWhile_id Un_insert_right)

lemma insert_by_split:
  assumes "ordered lt xs"
  obtains ys zs where "xs = ys @ zs" "insert_by lt x xs = ys @ x # zs" "\<forall>y \<in> set ys. \<not> lt x y" "\<forall>z \<in> set zs. lt x z"
proof
  let ?ys = "takeWhile (\<lambda>e. \<not> lt x e) xs" and ?zs = "dropWhile (\<lambda>e. \<not> lt x e) xs"
  show "xs = ?ys @ ?zs" by simp
  show "insert_by lt x xs = ?ys @ x # ?zs" by (simp add: insert_by_def)
  show "\<forall>y \<in> set ?ys. \<not> lt x y" by (auto dest: set_takeWhileD)
  show "\<forall>z \<in> set ?zs. lt x z"
  proof (cases ?zs)
    case (Cons w ws)
    then have w: "lt x w" using hd_dropWhile [of "\<lambda>e. \<not> lt x e" xs] by simp
    have "ordered lt (?ys @ w # ws)" using assms Cons by (metis takeWhile_dropWhile_id)
    then have "\<forall>z \<in> set ws. \<not> lt z w" by (simp add: ordered_append ordered_Cons)
    then show ?thesis using Cons w negtrans by (metis list.set_cases set_ConsD)
  next
    case Nil
    then show ?thesis by (metis empty_iff list.set(1))
  qed
qed

lemma equiv_by_sym: "equiv_by lt x y = equiv_by lt y x"
  by auto

lemma filter_insert_by:
  assumes "ordered lt xs"
  shows "filter (equiv_by lt a) (insert_by lt x xs) = filter (equiv_by lt a) xs @ (if equiv_by lt a x then [x] else [])"
proof -
  from insert_by_split [OF assms, of x] obtain ys zs where
    s: "xs = ys @ zs" "insert_by lt x xs = ys @ x # zs" "\<forall>z \<in> set zs. lt x z" by metis
  have "filter (equiv_by lt a) zs = []" if "equiv_by lt a x"
  proof -
    have "\<not> equiv_by lt a z" if "z \<in> set zs" for z
      using negtrans [of x a z] s(3) that \<open>equiv_by lt a x\<close> by blast
    then show ?thesis by (simp add: filter_empty_conv)
  qed
  then show ?thesis using s(1,2) by simp
qed

lemma sort_by_fold:
  "ordered lt acc \<Longrightarrow> ordered lt (fold (insert_by lt) xs acc) \<and> mset (fold (insert_by lt) xs acc) = mset xs + mset acc \<and>
     filter (equiv_by lt a) (fold (insert_by lt) xs acc) = filter (equiv_by lt a) acc @ filter (equiv_by lt a) xs"
  by (induction xs arbitrary: acc) (simp_all add: ordered_insert_by mset_insert_by filter_insert_by)

lemma sort_by_ok: "ordered lt (sort_by lt xs)" "mset (sort_by lt xs) = mset xs" "stably lt xs (sort_by lt xs)"
  using sort_by_fold [of "[]" xs] by (auto simp: sort_by_def stably_def)

lemma set_sort_by [simp]: "set (sort_by lt xs) = set xs"
  using sort_by_ok(2) by (metis set_mset_mset)

lemma ordered_unique:
  "ordered lt ys \<Longrightarrow> ordered lt zs \<Longrightarrow> (\<And>x. filter (equiv_by lt x) ys = filter (equiv_by lt x) zs) \<Longrightarrow> ys = zs"
proof (induction ys arbitrary: zs)
  case Nil
  have "z \<notin> set zs" for z
  proof
    assume "z \<in> set zs"
    then have "z \<in> set (filter (equiv_by lt z) zs)" using irrefl by simp
    then show False unfolding Nil(3) [symmetric] by simp
  qed
  then show ?case by (cases zs) auto
next
  case (Cons y ys)
  have mem: "x \<in> set (y # ys) \<longleftrightarrow> x \<in> set zs" for x
    using arg_cong [OF Cons.prems(3) [of x], of "\<lambda>l. x \<in> set l"] irrefl by (auto split: if_splits)
  then obtain z zs' where zs: "zs = z # zs'" by (cases zs) auto
  have "z = y \<or> z \<in> set ys" "y = z \<or> y \<in> set zs'" using mem [of z] mem [of y] zs by auto
  then have eq: "equiv_by lt y z" "equiv_by lt y y"
    using Cons.prems(1,2) zs irrefl by (auto simp: ordered_Cons)
  then have yz: "y = z" using Cons.prems(3) [of y] zs by simp
  have "filter (equiv_by lt x) ys = filter (equiv_by lt x) zs'" for x
    using Cons.prems(3) [of x] zs yz by (simp split: if_splits)
  then show ?case using Cons.IH [of zs'] Cons.prems zs yz by (simp add: ordered_Cons)
qed

lemma sort_by_unique: "ordered lt ys \<Longrightarrow> stably lt xs ys \<Longrightarrow> ys = sort_by lt xs"
  using ordered_unique [of ys "sort_by lt xs"] sort_by_ok [of xs] by (simp add: stably_def)

end

text \<open>Priority order is an order of the kernel's lists, so what they do with it is \<open>insert_by\<close> and \<open>sort_by\<close>.\<close>

interpretation pri: elem_less "compare_priority s" for s
  by unfold_locales (auto simp: compare_priority_def)

text \<open>
  On the doubly linked lists of \<open>lib/kernel/list.c\<close> (an element named by its thread), insertion by
  priority and sorting by priority represent \<open>insert_by\<close> and \<open>sort_by\<close> of the sequence.
\<close>

lemma ready_list_on_heap:
  assumes "list_rep h l xs"
  shows "t \<notin> set (list_nodes l xs) \<Longrightarrow> t \<noteq> NULL \<Longrightarrow>
      \<exists>h'. list_insert_ordered (compare_priority s) h l t = ret h' \<and> list_rep h' l (insert_by (compare_priority s) t xs)"
    and "\<exists>h'. list_sort (compare_priority s) h l = ret h' \<and> list_rep h' l (sort_by (compare_priority s) xs)"
proof -
  show "\<exists>h'. list_sort (compare_priority s) h l = ret h' \<and> list_rep h' l (sort_by (compare_priority s) xs)"
    using pri.list_sort_rep [OF assms, of s] pri.sort_by_unique [of s _ xs] by auto
qed (use list_insert_ordered_rep [OF assms] in blast)

section \<open>The invariant of the scheduler\<close>

definition ready_set :: "kstate \<Rightarrow> ptr set" where
  "ready_set s = {p. \<exists>t. threads s p = Some t \<and> status t = THREAD_READY} - {idle_thread s}"

text \<open>What holds also in the middle of a switch.\<close>

definition base_wf :: "kstate \<Rightarrow> bool" where
  "base_wf s \<longleftrightarrow> (\<forall>p t. threads s p = Some t \<longrightarrow> p \<noteq> NULL \<and> t_magic t = THREAD_MAGIC) \<and>
     (\<exists>t. threads s (idle_thread s) = Some t \<and> status t \<noteq> THREAD_DYING) \<and>
     distinct (ready_list s) \<and> set (ready_list s) = ready_set s \<and> distinct (destruction_req s) \<and>
     (\<forall>p \<in> set (destruction_req s). \<exists>t. threads s p = Some t \<and> status t = THREAD_DYING)"

text \<open>
  Exactly one thread is running; the ready list holds the ready threads, each once (the idle
  thread is never in it); the pages to be freed belong to dying threads.
\<close>

definition sched_wf :: "kstate \<Rightarrow> bool" where
  "sched_wf s \<longleftrightarrow> base_wf s \<and> (\<exists>t. threads s (current s) = Some t \<and> status t = THREAD_RUNNING) \<and>
     (\<forall>p t. threads s p = Some t \<and> status t = THREAD_RUNNING \<longrightarrow> p = current s)"

definition mid_wf :: "kstate \<Rightarrow> bool" where
  "mid_wf s \<longleftrightarrow> base_wf s \<and> (\<exists>t. threads s (current s) = Some t \<and> (status t = THREAD_DYING \<longrightarrow> current s \<notin> set (destruction_req s))) \<and>
     (\<forall>p t. threads s p = Some t \<longrightarrow> status t \<noteq> THREAD_RUNNING)"

lemma base_wf_is_thread: "base_wf s \<Longrightarrow> threads s p \<noteq> None \<Longrightarrow> is_thread s p"
  by (auto simp: base_wf_def is_thread_def)

lemma sched_wf_current [simp]: "sched_wf s \<Longrightarrow> thread_current s = ret (current s)"
  using base_wf_is_thread [of s "current s"] by (auto simp: sched_wf_def thread_current_def the_thread_def)

lemma thread_current_cong: "threads s' = threads s \<Longrightarrow> current s' = current s \<Longrightarrow> thread_current s' = thread_current s"
  by (simp add: thread_current_def is_thread_def the_thread_def cong: if_cong)

lemma prio_upd_status [simp]: "prio (upd_thread s p (\<lambda>t. t\<lparr>status := st\<rparr>)) = prio s"
  by (auto simp: fun_eq_iff prio_def upd_thread_def split: option.splits)

lemma upd_thread_simps [simp]:
  "current (upd_thread s p f) = current s" "ready_list (upd_thread s p f) = ready_list s" "idle_thread (upd_thread s p f) = idle_thread s"
  "destruction_req (upd_thread s p f) = destruction_req s" "in_intr (upd_thread s p f) = in_intr s" "all_list (upd_thread s p f) = all_list s"
  "initial_thread (upd_thread s p f) = initial_thread s" "semas (upd_thread s p f) = semas s" "holders (upd_thread s p f) = holders s"
  "threads (upd_thread s p f) = (threads s)(p := map_option f (threads s p))" "thread_mlfqs (upd_thread s p f) = thread_mlfqs s"
  "conds (upd_thread s p f) = conds s"
  by (simp_all add: upd_thread_def)

lemma compare_priority_cong: "prio s = prio s' \<Longrightarrow> compare_priority s = compare_priority s'"
  by (simp add: compare_priority_def fun_eq_iff)

lemma prio_cong: "threads s' = threads s \<Longrightarrow> prio s' = prio s"
  by (simp add: prio_def fun_eq_iff)

lemma distinct_insert_by: "x \<notin> set xs \<Longrightarrow> distinct xs \<Longrightarrow> distinct (insert_by lt x xs)"
  by (metis distinct.simps(2) mset.simps(2) mset_eq_imp_distinct_iff mset_insert_by)

text \<open>The thread that runs next.\<close>

definition chosen :: "kstate \<Rightarrow> ptr" where
  "chosen s = hd (ready_list s @ [idle_thread s])"

lemma schedule_ok:
  assumes m: "mid_wf s"
  shows "\<exists>s'. schedule s = ret s' \<and> sched_wf s' \<and> current s' = chosen s \<and> ready_list s' = tl (ready_list s) \<and>
    threads s' = (threads s)(chosen s := map_option (\<lambda>t. t\<lparr>status := THREAD_RUNNING\<rparr>) (threads s (chosen s))) \<and>
    semas s' = semas s \<and> holders s' = holders s \<and> conds s' = conds s \<and> idle_thread s' = idle_thread s \<and> in_intr s' = in_intr s"
proof -
  let ?n = "chosen s"
  define s1 where "s1 = s\<lparr>ready_list := tl (ready_list s)\<rparr>"
  have nx: "next_thread_to_run s = (?n, s1)" by (cases "ready_list s") (simp_all add: next_thread_to_run_def chosen_def s1_def)
  have mem: "?n = idle_thread s \<or> ?n \<in> ready_set s" "ready_list s \<noteq> [] \<Longrightarrow> ?n \<in> ready_set s"
    using m by (cases "ready_list s"; auto simp: chosen_def mid_wf_def base_wf_def)+
  obtain n where n: "threads s ?n = Some n" "status n \<noteq> THREAD_DYING"
    using mem m by (auto simp: mid_wf_def base_wf_def ready_set_def)
  obtain c where c: "threads s (current s) = Some c" "status c = THREAD_DYING \<longrightarrow> current s \<notin> set (destruction_req s)"
    "status c \<noteq> THREAD_RUNNING" using m by (auto simp: mid_wf_def)
  have it: "is_thread s1 ?n" using base_wf_is_thread [of s ?n] m n(1) by (simp add: mid_wf_def is_thread_def s1_def)
  define s2 where "s2 = (upd_thread s1 ?n (\<lambda>t. t\<lparr>status := THREAD_RUNNING\<rparr>))\<lparr>thread_ticks := 0\<rparr>"
  define s3 where "s3 = (if current s \<noteq> ?n \<and> status c = THREAD_DYING \<and> current s \<noteq> initial_thread s
    then s2\<lparr>destruction_req := insert_by (compare_priority s2) (current s) (destruction_req s2)\<rparr> else s2)"
  have t1: "the_thread s1 (current s) = ret c" using c(1) by (simp add: the_thread_def s1_def)
  have "schedule s = (if current s \<noteq> ?n then ret ((if status c = THREAD_DYING \<and> current s \<noteq> initial_thread s2
      then s2\<lparr>destruction_req := insert_by (compare_priority s2) (current s) (destruction_req s2)\<rparr> else s2)\<lparr>current := ?n\<rparr>)
      else ret s2)"
    unfolding schedule_def Let_def nx prod.case t1 bindE_simps s2_def [symmetric] using c(3) it by simp
  moreover have "initial_thread s2 = initial_thread s" "current s2 = current s" by (simp_all add: s2_def s1_def)
  ultimately have run: "schedule s = ret (s3\<lparr>current := ?n\<rparr>)" by (auto simp: s3_def)
  have th: "threads s3 = (threads s)(?n := Some (n\<lparr>status := THREAD_RUNNING\<rparr>))" using n(1) by (simp add: s3_def s2_def s1_def)
  have rd: "ready_list s3 = tl (ready_list s)" "idle_thread s3 = idle_thread s" by (simp_all add: s3_def s2_def s1_def)
  have tls: "set (tl (ready_list s)) = ready_set s - {?n}"
    using m by (cases "ready_list s") (auto simp: chosen_def mid_wf_def base_wf_def ready_set_def)
  have dreq: "distinct (destruction_req s3)" "set (destruction_req s3) \<subseteq> insert (current s) (set (destruction_req s))"
    "current s \<in> set (destruction_req s3) \<Longrightarrow> status c = THREAD_DYING"
  proof -
    have ds: "distinct (destruction_req s)" "\<forall>p \<in> set (destruction_req s). \<exists>t. threads s p = Some t \<and> status t = THREAD_DYING"
      using m by (auto simp: mid_wf_def base_wf_def)
    have d2: "destruction_req s2 = destruction_req s" by (simp add: s2_def s1_def)
    have "distinct (insert_by (compare_priority s2) (current s) (destruction_req s))" if "status c = THREAD_DYING"
      using that c(2) ds(1) by (metis distinct_insert_by)
    then show "distinct (destruction_req s3)" using ds(1) by (simp add: s3_def d2)
    show "set (destruction_req s3) \<subseteq> insert (current s) (set (destruction_req s))" by (auto simp: s3_def d2 pri.set_insert_by)
    show "status c = THREAD_DYING" if "current s \<in> set (destruction_req s3)"
      using that ds(2) c(1) by (auto simp: s3_def d2 split: if_splits)
  qed
  have "?n \<notin> set (destruction_req s3)"
  proof
    assume "?n \<in> set (destruction_req s3)"
    then have "?n = current s \<and> status c = THREAD_DYING \<or> ?n \<in> set (destruction_req s)" using dreq by auto
    then show False using n c(1) m by (auto simp: mid_wf_def base_wf_def)
  qed
  then have dok: "\<exists>t. threads s3 p = Some t \<and> status t = THREAD_DYING" if "p \<in> set (destruction_req s3)" for p
    using that dreq c(1) m unfolding th by (auto simp: mid_wf_def base_wf_def)
  have base: "base_wf (s3\<lparr>current := ?n\<rparr>)"
    unfolding base_wf_def
  proof (intro conjI)
    show "\<forall>p t. threads (s3\<lparr>current := ?n\<rparr>) p = Some t \<longrightarrow> p \<noteq> NULL \<and> t_magic t = THREAD_MAGIC"
      using m n(1) by (auto simp: th mid_wf_def base_wf_def)
    show "\<exists>t. threads (s3\<lparr>current := ?n\<rparr>) (idle_thread (s3\<lparr>current := ?n\<rparr>)) = Some t \<and> status t \<noteq> THREAD_DYING"
      using m by (auto simp: th rd mid_wf_def base_wf_def)
    show "distinct (ready_list (s3\<lparr>current := ?n\<rparr>))" using m by (simp add: rd mid_wf_def base_wf_def distinct_tl)
    show "set (ready_list (s3\<lparr>current := ?n\<rparr>)) = ready_set (s3\<lparr>current := ?n\<rparr>)"
      using tls by (auto simp: rd th ready_set_def)
  qed (use dreq(1) dok in auto)
  have "sched_wf (s3\<lparr>current := ?n\<rparr>)" using base m by (auto simp: sched_wf_def mid_wf_def th)
  moreover have "semas s3 = semas s" "holders s3 = holders s" "conds s3 = conds s" "in_intr s3 = in_intr s" by (simp_all add: s3_def s2_def s1_def)
  ultimately show ?thesis using run th rd n(1) by simp
qed

lemma free_victims_eq: "free_victims s vs = s\<lparr>threads := (\<lambda>p. if p \<in> set vs then None else threads s p), destruction_req := []\<rparr>"
proof (induction vs arbitrary: s)
  case (Cons v vs)
  have "(\<lambda>p. if p \<in> set vs then None else ((threads s)(v := None)) p) = (\<lambda>p. if p \<in> set (v # vs) then None else threads s p)" by auto
  then show ?case by (simp only: free_victims.simps Cons.IH) (simp cong: if_cong)
qed simp

definition reaped :: "kstate \<Rightarrow> kstate" where
  "reaped s = free_victims s (destruction_req s)"

lemma reaped_simps [simp]:
  "conds (reaped s) = conds s"
  "current (reaped s) = current s" "ready_list (reaped s) = ready_list s" "idle_thread (reaped s) = idle_thread s"
  "destruction_req (reaped s) = []" "in_intr (reaped s) = in_intr s" "semas (reaped s) = semas s" "holders (reaped s) = holders s"
  "all_list (reaped s) = all_list s" "thread_mlfqs (reaped s) = thread_mlfqs s"
  "threads (reaped s) p = (if p \<in> set (destruction_req s) then None else threads s p)"
  by (simp_all add: reaped_def free_victims_eq)

lemma reaped_kept:
  assumes "base_wf s" and "threads s p = Some t" and "status t \<noteq> THREAD_DYING"
  shows "threads (reaped s) p = Some t"
  using assms by (auto simp: base_wf_def)

lemma reaped_ready_set: "base_wf s \<Longrightarrow> ready_set (reaped s) = ready_set s"
  by (auto simp: ready_set_def base_wf_def)

lemma reaped_base: "base_wf s \<Longrightarrow> base_wf (reaped s)"
  using reaped_ready_set [of s] reaped_kept [of s "idle_thread s"] by (auto simp: base_wf_def)

text \<open>The running thread gives up the processor.\<close>

lemma leave_mid:
  assumes wf: "sched_wf s" and "st \<noteq> THREAD_RUNNING" and "st = THREAD_DYING \<Longrightarrow> current s \<noteq> idle_thread s \<and> current s \<notin> set (destruction_req s)"
    and rd: "distinct rs" "set rs = (if st = THREAD_READY \<and> current s \<noteq> idle_thread s then insert (current s) (ready_set s) else ready_set s)"
  shows "mid_wf ((upd_thread s (current s) (\<lambda>t. t\<lparr>status := st\<rparr>))\<lparr>ready_list := rs\<rparr>)"
proof -
  obtain c where c: "threads s (current s) = Some c" "status c = THREAD_RUNNING" using wf by (auto simp: sched_wf_def)
  let ?s = "(upd_thread s (current s) (\<lambda>t. t\<lparr>status := st\<rparr>))\<lparr>ready_list := rs\<rparr>"
  have th: "threads ?s = (threads s)(current s \<mapsto> c\<lparr>status := st\<rparr>)" using c by simp
  have "set rs = ready_set ?s" using rd(2) c by (auto simp: ready_set_def)
  moreover have "\<forall>p \<in> set (destruction_req s). \<exists>t. threads s p = Some t \<and> status t = THREAD_DYING" using wf by (simp add: sched_wf_def base_wf_def)
  then have "current s \<notin> set (destruction_req s)" using c by auto
  ultimately have "base_wf ?s" using wf rd(1) assms(3) c unfolding base_wf_def th by (auto simp: sched_wf_def base_wf_def)
  moreover have "\<forall>p t. threads ?s p = Some t \<longrightarrow> status t \<noteq> THREAD_RUNNING"
    unfolding th using wf assms(2) by (auto simp: sched_wf_def)
  ultimately show ?thesis unfolding mid_wf_def using assms(3) c by simp
qed

lemma leave_simps:
  "chosen ((upd_thread s p f)\<lparr>ready_list := rs\<rparr>) = hd (rs @ [idle_thread s])"
  by (simp add: chosen_def)

lemma thread_block_ok:
  assumes wf: "sched_wf s" and "\<not> in_intr s"
  shows "\<exists>s'. thread_block s = ret s' \<and> sched_wf s' \<and> current s' = chosen s \<and> ready_list s' = tl (ready_list s) \<and>
    threads s' = ((threads s)(current s := map_option (\<lambda>t. t\<lparr>status := THREAD_BLOCKED\<rparr>) (threads s (current s))))
      (chosen s := map_option (\<lambda>t. t\<lparr>status := THREAD_RUNNING\<rparr>) (threads s (chosen s))) \<and>
    semas s' = semas s \<and> holders s' = holders s \<and> conds s' = conds s \<and> idle_thread s' = idle_thread s \<and> in_intr s' = in_intr s"
proof -
  let ?s = "upd_thread s (current s) (\<lambda>t. t\<lparr>status := THREAD_BLOCKED\<rparr>)"
  have b: "distinct (ready_list s)" "set (ready_list s) = ready_set s" using wf by (auto simp: sched_wf_def base_wf_def)
  have eq: "?s\<lparr>ready_list := ready_list s\<rparr> = ?s" by (simp add: upd_thread_def)
  have "mid_wf ?s" using leave_mid [OF wf, of THREAD_BLOCKED "ready_list s"] b by (simp add: eq)
  moreover have "chosen ?s = chosen s" by (simp add: chosen_def)
  ultimately obtain s' where "schedule ?s = ret s'" "sched_wf s'" "current s' = chosen s" "ready_list s' = tl (ready_list s)"
    "threads s' = (threads ?s)(chosen s := map_option (\<lambda>t. t\<lparr>status := THREAD_RUNNING\<rparr>) (threads ?s (chosen s)))"
    "semas s' = semas s" "holders s' = holders s" "conds s' = conds s" "idle_thread s' = idle_thread s" "in_intr s' = in_intr s"
    using schedule_ok [of ?s] by auto
  then show ?thesis using assms by (auto simp: thread_block_def fun_eq_iff option.map_comp comp_def)
qed

text \<open>A switch of threads leaves every sleeping thread as it is.\<close>

definition sleepers_kept :: "kstate \<Rightarrow> kstate \<Rightarrow> bool" where
  "sleepers_kept s s' \<longleftrightarrow>
     (\<forall>p t. threads s p = Some t \<and> status t = THREAD_BLOCKED \<and> p \<noteq> idle_thread s \<longrightarrow> threads s' p = Some t)"

lemma sleepers_kept_refl [simp]: "sleepers_kept s s"
  by (simp add: sleepers_kept_def)

lemma sleepers_keptD: "sleepers_kept s s' \<Longrightarrow> threads s p = Some t \<Longrightarrow> status t = THREAD_BLOCKED \<Longrightarrow> p \<noteq> idle_thread s \<Longrightarrow> threads s' p = Some t"
  unfolding sleepers_kept_def by blast

lemma do_schedule_ok:
  assumes wf: "sched_wf s" and "st \<noteq> THREAD_RUNNING" and "st = THREAD_DYING \<Longrightarrow> current s \<noteq> idle_thread s"
    and rd: "distinct rs" "set rs = (if st = THREAD_READY \<and> current s \<noteq> idle_thread s then insert (current s) (ready_set s) else ready_set s)"
  shows "\<exists>s'. do_schedule (s\<lparr>ready_list := rs\<rparr>) st = ret s' \<and> sched_wf s' \<and> current s' = hd (rs @ [idle_thread s]) \<and> ready_list s' = tl rs \<and>
    (\<forall>p. p \<notin> set (destruction_req s) \<longrightarrow> prio s' p = prio s p) \<and> sleepers_kept s s' \<and>
    semas s' = semas s \<and> holders s' = holders s \<and> conds s' = conds s \<and> idle_thread s' = idle_thread s \<and> in_intr s' = in_intr s"
proof -
  let ?r = "reaped s" and ?f = "\<lambda>t. t\<lparr>status := st\<rparr>"
  obtain c where c: "threads s (current s) = Some c" "status c = THREAD_RUNNING" using wf by (auto simp: sched_wf_def)
  have bs: "base_wf s" using wf by (simp add: sched_wf_def)
  have wr: "sched_wf ?r"
    using reaped_base [OF bs] reaped_kept [OF bs c(1)] c wf by (auto simp: sched_wf_def split: if_splits)
  have "mid_wf ((upd_thread ?r (current ?r) ?f)\<lparr>ready_list := rs\<rparr>)"
    using assms reaped_ready_set [OF bs] by (intro leave_mid [OF wr]) auto
  from schedule_ok [OF this] obtain s' where
    x: "schedule ((upd_thread ?r (current s) ?f)\<lparr>ready_list := rs\<rparr>) = ret s'" "sched_wf s'" "current s' = hd (rs @ [idle_thread s])"
      "ready_list s' = tl rs" "semas s' = semas s" "holders s' = holders s" "conds s' = conds s" "idle_thread s' = idle_thread s" "in_intr s' = in_intr s"
      "threads s' = (threads (upd_thread ?r (current s) ?f))
        (hd (rs @ [idle_thread s]) := map_option (\<lambda>t. t\<lparr>status := THREAD_RUNNING\<rparr>) (threads (upd_thread ?r (current s) ?f) (hd (rs @ [idle_thread s]))))"
    by (auto simp: leave_simps)
  have t1: "thread_current (s\<lparr>ready_list := rs\<rparr>) = ret (current s)"
    using sched_wf_current [OF wf] thread_current_cong [of "s\<lparr>ready_list := rs\<rparr>" s] by simp
  have r1: "free_victims (s\<lparr>ready_list := rs\<rparr>) (destruction_req s) = ?r\<lparr>ready_list := rs\<rparr>" by (simp add: reaped_def free_victims_eq cong: if_cong)
  have t2: "thread_current (?r\<lparr>ready_list := rs\<rparr>) = ret (current s)"
    using sched_wf_current [OF wr] thread_current_cong [of "?r\<lparr>ready_list := rs\<rparr>" ?r] by simp
  have u: "upd_thread (?r\<lparr>ready_list := rs\<rparr>) (current s) ?f = (upd_thread ?r (current s) ?f)\<lparr>ready_list := rs\<rparr>" by (simp add: upd_thread_def)
  have "do_schedule (s\<lparr>ready_list := rs\<rparr>) st = ret s'"
    using x(1) by (simp add: do_schedule_def t1 r1 t2 u Let_def)
  moreover have "prio s' p = prio s p" if "p \<notin> set (destruction_req s)" for p
    using that unfolding prio_def x(10) by (auto simp: option.map_comp comp_def split: option.splits)
  moreover have "threads s' p = Some t" if "threads s p = Some t" "status t = THREAD_BLOCKED" "p \<noteq> idle_thread s" for p t
  proof -
    have "p \<noteq> current s" "p \<notin> set (destruction_req s)" "p \<notin> ready_set s" using that c bs by (auto simp: base_wf_def ready_set_def)
    moreover from this have "p \<noteq> hd (rs @ [idle_thread s])" using rd(2) that(3) by (cases rs) (auto split: if_splits)
    ultimately show ?thesis using that(1) unfolding x(10) by simp
  qed
  ultimately show ?thesis using x unfolding sleepers_kept_def by auto
qed

lemma thread_exit_ok:
  assumes "sched_wf s" and "\<not> in_intr s" and "current s \<noteq> idle_thread s"
  shows "\<exists>s'. thread_exit s = ret s' \<and> sched_wf s' \<and> current s' = chosen s"
proof -
  have eq: "s\<lparr>ready_list := ready_list s\<rparr> = s" by simp
  show ?thesis
    using do_schedule_ok [of s THREAD_DYING "ready_list s"] assms
    by (auto simp: eq thread_exit_def sched_wf_def base_wf_def chosen_def)
qed

text \<open>The queue a yielding thread leaves behind.\<close>

definition yield_queue :: "kstate \<Rightarrow> ptr list" where
  "yield_queue s = (if current s \<noteq> idle_thread s then insert_by (compare_priority s) (current s) (ready_list s) else ready_list s)"

lemma thread_yield_ok:
  assumes wf: "sched_wf s" and "\<not> in_intr s"
  shows "\<exists>s'. thread_yield s = ret s' \<and> sched_wf s' \<and> current s' = hd (yield_queue s @ [idle_thread s]) \<and>
    ready_list s' = tl (yield_queue s) \<and> (\<forall>p. p \<notin> set (destruction_req s) \<longrightarrow> prio s' p = prio s p) \<and> sleepers_kept s s' \<and>
    semas s' = semas s \<and> holders s' = holders s \<and> conds s' = conds s \<and> idle_thread s' = idle_thread s \<and> in_intr s' = in_intr s"
proof -
  have b: "distinct (ready_list s)" "set (ready_list s) = ready_set s" using wf by (auto simp: sched_wf_def base_wf_def)
  have nr: "current s \<notin> ready_set s" using wf by (auto simp: sched_wf_def ready_set_def)
  have "distinct (yield_queue s)" "set (yield_queue s) = (if current s \<noteq> idle_thread s then insert (current s) (ready_set s) else ready_set s)"
    using b nr by (auto simp: yield_queue_def distinct_insert_by pri.set_insert_by)
  then obtain s' where x: "do_schedule (s\<lparr>ready_list := yield_queue s\<rparr>) THREAD_READY = ret s'" "sched_wf s'"
    "current s' = hd (yield_queue s @ [idle_thread s])" "ready_list s' = tl (yield_queue s)"
    "\<forall>p. p \<notin> set (destruction_req s) \<longrightarrow> prio s' p = prio s p" "sleepers_kept s s'"
    "semas s' = semas s" "holders s' = holders s" "conds s' = conds s" "idle_thread s' = idle_thread s" "in_intr s' = in_intr s"
    using do_schedule_ok [OF wf, of THREAD_READY "yield_queue s"] by auto
  have "(if current s \<noteq> idle_thread s then s\<lparr>ready_list := insert_by (compare_priority s) (current s) (ready_list s)\<rparr> else s) =
    s\<lparr>ready_list := yield_queue s\<rparr>" by (simp add: yield_queue_def)
  then have "thread_yield s = ret s'" using x(1) assms by (simp add: thread_yield_def Let_def)
  with x show ?thesis by auto
qed

lemma thread_unblock_ok:
  assumes wf: "sched_wf s" and t: "threads s t = Some th" "status th = THREAD_BLOCKED" and "t \<noteq> idle_thread s"
  shows "\<exists>s'. thread_unblock s t = ret s' \<and> sched_wf s' \<and> current s' = current s \<and>
    ready_list s' = insert_by (compare_priority s) t (ready_list s) \<and> threads s' = (threads s)(t \<mapsto> th\<lparr>status := THREAD_READY\<rparr>) \<and>
    semas s' = semas s \<and> holders s' = holders s \<and> conds s' = conds s \<and> idle_thread s' = idle_thread s \<and> in_intr s' = in_intr s \<and> prio s' = prio s"
proof -
  let ?s = "upd_thread (s\<lparr>ready_list := insert_by (compare_priority s) t (ready_list s)\<rparr>) t (\<lambda>t. t\<lparr>status := THREAD_READY\<rparr>)"
  have bs: "base_wf s" using wf by (simp add: sched_wf_def)
  have run: "thread_unblock s t = ret ?s"
    using base_wf_is_thread [OF bs, of t] t by (simp add: thread_unblock_def the_thread_def Let_def)
  have th: "threads ?s = (threads s)(t \<mapsto> th\<lparr>status := THREAD_READY\<rparr>)" using t by simp
  have nt: "t \<notin> ready_set s" using t by (auto simp: ready_set_def)
  have "set (ready_list ?s) = ready_set ?s" using bs t assms(4) by (auto simp: pri.set_insert_by base_wf_def ready_set_def)
  moreover have "distinct (ready_list ?s)" using bs nt by (simp add: base_wf_def distinct_insert_by)
  moreover have "t \<notin> set (destruction_req s)" using bs t by (auto simp: base_wf_def)
  ultimately have "base_wf ?s" using bs t unfolding base_wf_def th by auto
  then have "sched_wf ?s" using wf t unfolding sched_wf_def th by auto
  moreover have "prio ?s = prio s" unfolding prio_upd_status by (rule prio_cong) simp
  ultimately show ?thesis using run th by simp
qed

text \<open>The ready list is in order of priority, and nobody in it comes before the running thread.\<close>

definition preempted :: "kstate \<Rightarrow> bool" where
  "preempted s \<longleftrightarrow> ordered (compare_priority s) (ready_list s) \<and> (\<forall>p \<in> set (ready_list s). prio s p \<le> prio s (current s))"

lemma ordered_cong:
  "(\<And>p. p \<in> set xs \<Longrightarrow> prio s' p = prio s p) \<Longrightarrow> ordered (compare_priority s') xs = ordered (compare_priority s) xs"
  unfolding ordered_def compare_priority_def by (induction xs) auto

lemma thread_yield_preempted:
  assumes wf: "sched_wf s" and "\<not> in_intr s" and ord: "ordered (compare_priority s) (ready_list s)"
    and "thread_yield s = ret s'"
  shows "preempted s'"
proof -
  let ?q = "yield_queue s"
  from thread_yield_ok [OF wf assms(2)] assms(4) have
    x: "current s' = hd (?q @ [idle_thread s])" "ready_list s' = tl ?q" "\<forall>p. p \<notin> set (destruction_req s) \<longrightarrow> prio s' p = prio s p" by auto
  have o: "ordered (compare_priority s) ?q" using ord by (simp add: yield_queue_def pri.ordered_insert_by)
  have "set ?q \<subseteq> insert (current s) (ready_set s)" using wf
    by (auto simp: yield_queue_def pri.set_insert_by sched_wf_def base_wf_def)
  then have nd: "set ?q \<inter> set (destruction_req s) = {}" using wf by (fastforce simp: sched_wf_def base_wf_def ready_set_def)
  show ?thesis
  proof (cases ?q)
    case (Cons q qs)
    have p: "prio s' z = prio s z" if "z \<in> set ?q" for z using that nd x(3) by auto
    have "ordered (compare_priority s') qs" using o Cons p ordered_cong [of qs s' s] by (simp add: pri.ordered_Cons)
    moreover have "\<forall>z \<in> set qs. prio s' z \<le> prio s' q"
      using o Cons p by (auto simp: pri.ordered_Cons compare_priority_def)
    ultimately show ?thesis using x Cons by (simp add: preempted_def)
  qed (use x in \<open>simp add: preempted_def\<close>)
qed

lemma sched_wf_ready:
  assumes "sched_wf s" and "distinct rs" and "set rs = set (ready_list s)"
  shows "sched_wf (s\<lparr>ready_list := rs\<rparr>)"
  using assms by (simp add: sched_wf_def base_wf_def ready_set_def)

lemma compare_cur_next_priority_ok:
  assumes wf: "sched_wf s"
  shows "\<exists>s'. compare_cur_next_priority s = ret s' \<and> sched_wf s' \<and> in_intr s' = in_intr s \<and> semas s' = semas s \<and> holders s' = holders s \<and>
    conds s' = conds s \<and> sleepers_kept s s' \<and> idle_thread s' = idle_thread s \<and> (\<not> in_intr s \<longrightarrow> preempted s') \<and>
    (in_intr s \<longrightarrow> current s' = current s \<and> (preempted s' \<or> yield_on_return s'))"
proof (cases "ready_list s = []")
  case True
  then show ?thesis using wf by (auto simp: compare_cur_next_priority_def preempted_def)
next
  case False
  define s1 where "s1 = s\<lparr>ready_list := sort_by (compare_priority s) (ready_list s)\<rparr>"
  have ds: "distinct (ready_list s)" using wf by (simp add: sched_wf_def base_wf_def)
  have "distinct (sort_by (compare_priority s) (ready_list s))" using ds pri.sort_by_ok(2) [of s] by (metis mset_eq_imp_distinct_iff)
  then have w1: "sched_wf s1" unfolding s1_def by (intro sched_wf_ready [OF wf]) simp_all
  have pr0: "prio s1 = prio s" by (rule prio_cong) (simp add: s1_def)
  note pr = pr0 compare_priority_cong [OF pr0]
  have o1: "ordered (compare_priority s1) (ready_list s1)" unfolding pr by (simp add: s1_def pri.sort_by_ok(1))
  obtain n ns where n: "ready_list s1 = n # ns" proof -
    have "set (ready_list s1) \<noteq> {}" using False by (simp add: s1_def)
    then show thesis using that by (cases "ready_list s1") auto
  qed
  have "n \<in> ready_set s1" using w1 n by (auto simp: sched_wf_def base_wf_def)
  then obtain nt where nt: "threads s1 n = Some nt" by (auto simp: ready_set_def)
  have pn: "priority nt = prio s1 n" using nt by (simp add: prio_def)
  have run: "compare_cur_next_priority s = (if priority nt > prio s1 (current s1)
      then if in_intr s1 then ret (s1\<lparr>yield_on_return := True\<rparr>) else thread_yield s1 else ret s1)"
    using False n nt w1 by (simp add: compare_cur_next_priority_def Let_def s1_def [symmetric] the_thread_def)
  have fr: "semas s1 = semas s" "holders s1 = holders s" "conds s1 = conds s" "idle_thread s1 = idle_thread s" "in_intr s1 = in_intr s" "current s1 = current s"
    by (simp_all add: s1_def)
  have kept: "sleepers_kept s (s1\<lparr>yield_on_return := y\<rparr>)" "sleepers_kept s s1" "sleepers_kept s1 s' \<Longrightarrow> sleepers_kept s s'" for y s'
    by (simp_all add: s1_def sleepers_kept_def)
  show ?thesis
  proof (cases "priority nt > prio s1 (current s1)")
    case True
    show ?thesis
    proof (cases "in_intr s")
      case True
      have "sched_wf (s1\<lparr>yield_on_return := True\<rparr>)" using w1 by (simp add: sched_wf_def base_wf_def ready_set_def)
      then show ?thesis using run fr kept True \<open>priority nt > _\<close> by auto
    next
      case False
      then show ?thesis
        using run fr kept(3) \<open>priority nt > _\<close> thread_yield_ok [OF w1] thread_yield_preempted [OF w1 _ o1] by (auto simp: preempted_def)
    qed
  next
    case False
    then have "preempted s1" using o1 n pn unfolding preempted_def by (auto simp: pri.ordered_Cons compare_priority_def)
    then show ?thesis using run fr kept False w1 by simp
  qed
qed

section \<open>Feedback\<close>

text \<open>A state in which only the numbers of the feedback scheduler differ.\<close>

definition same_sched :: "kstate \<Rightarrow> kstate \<Rightarrow> bool" where
  "same_sched s s' \<longleftrightarrow> current s' = current s \<and> ready_list s' = ready_list s \<and> idle_thread s' = idle_thread s \<and>
     destruction_req s' = destruction_req s \<and> in_intr s' = in_intr s \<and> all_list s' = all_list s \<and> ticks s' = ticks s \<and>
     (\<forall>p. map_option (\<lambda>t. (status t, t_magic t)) (threads s' p) = map_option (\<lambda>t. (status t, t_magic t)) (threads s p))"

lemma same_sched_refl [simp]: "same_sched s s"
  by (simp add: same_sched_def)

lemma same_sched_trans: "same_sched s s' \<Longrightarrow> same_sched s' s'' \<Longrightarrow> same_sched s s''"
  by (simp add: same_sched_def)

lemma same_sched_thread:
  assumes "same_sched s s'"
  shows "threads s' p = Some t' \<Longrightarrow> \<exists>t. threads s p = Some t \<and> status t = status t' \<and> t_magic t = t_magic t'"
    and "threads s p = Some t \<Longrightarrow> \<exists>t'. threads s' p = Some t' \<and> status t' = status t \<and> t_magic t' = t_magic t"
proof -
  have eq: "map_option (\<lambda>t. (status t, t_magic t)) (threads s' p) = map_option (\<lambda>t. (status t, t_magic t)) (threads s p)"
    using assms by (simp add: same_sched_def)
  show "threads s' p = Some t' \<Longrightarrow> \<exists>t. threads s p = Some t \<and> status t = status t' \<and> t_magic t = t_magic t'"
    using eq by (cases "threads s p") auto
  show "threads s p = Some t \<Longrightarrow> \<exists>t'. threads s' p = Some t' \<and> status t' = status t \<and> t_magic t' = t_magic t"
    using eq by (cases "threads s' p") auto
qed

lemma same_sched_wf:
  assumes r: "same_sched s s'" and wf: "sched_wf s"
  shows "sched_wf s'"
proof -
  note tt = same_sched_thread [OF r]
  have f: "current s' = current s" "ready_list s' = ready_list s" "idle_thread s' = idle_thread s" "destruction_req s' = destruction_req s"
    using r by (auto simp: same_sched_def)
  have "ready_set s' = ready_set s" unfolding ready_set_def f using tt by (metis (no_types, lifting))
  moreover have "\<forall>p t. threads s' p = Some t \<longrightarrow> p \<noteq> NULL \<and> t_magic t = THREAD_MAGIC"
    using tt(1) wf unfolding sched_wf_def base_wf_def by metis
  moreover have "\<exists>t. threads s' (idle_thread s) = Some t \<and> status t \<noteq> THREAD_DYING"
    using tt(2) wf unfolding sched_wf_def base_wf_def by metis
  moreover have "\<forall>p \<in> set (destruction_req s). \<exists>t. threads s' p = Some t \<and> status t = THREAD_DYING"
    using tt(2) wf unfolding sched_wf_def base_wf_def by metis
  ultimately have b: "base_wf s'" using wf unfolding base_wf_def f by (simp add: sched_wf_def base_wf_def)
  have cur: "\<exists>t. threads s (current s) = Some t \<and> status t = THREAD_RUNNING"
    and one: "\<forall>p t. threads s p = Some t \<and> status t = THREAD_RUNNING \<longrightarrow> p = current s" using wf unfolding sched_wf_def by blast+
  from cur tt(2) have "\<exists>t. threads s' (current s) = Some t \<and> status t = THREAD_RUNNING" by fastforce
  moreover have "p = current s" if "threads s' p = Some t" "status t = THREAD_RUNNING" for p t
    using tt(1) [OF that(1)] that(2) one by auto
  ultimately show ?thesis using b unfolding sched_wf_def f by blast
qed

lemma same_sched_upd:
  assumes "\<And>t. status (f t) = status t \<and> t_magic (f t) = t_magic t"
  shows "same_sched s (upd_thread s p f)"
proof -
  have "map_option (\<lambda>t. (status t, t_magic t)) (threads (upd_thread s p f) q) = map_option (\<lambda>t. (status t, t_magic t)) (threads s q)" for q
    using assms by (cases "threads s q") (auto simp: upd_thread_def)
  then show ?thesis unfolding same_sched_def by (simp add: upd_thread_def)
qed

definition all_alive :: "kstate \<Rightarrow> bool" where
  "all_alive s \<longleftrightarrow> (\<forall>p \<in> set (all_list s). threads s p \<noteq> None)"

lemma same_sched_alive: "same_sched s s' \<Longrightarrow> threads s p \<noteq> None \<Longrightarrow> threads s' p \<noteq> None"
  using same_sched_thread(2) by fastforce

lemma update_priority_ok:
  assumes "threads s t = Some th"
  shows "\<exists>s'. update_priority s t = ret s' \<and> same_sched s s' \<and> load_avg s' = load_avg s \<and>
    (\<forall>p. p \<noteq> t \<longrightarrow> threads s' p = threads s p) \<and> (t \<noteq> idle_thread s \<longrightarrow> PRI_MIN \<le> prio s' t \<and> prio s' t \<le> PRI_MAX)"
proof (cases "t = idle_thread s")
  case False
  define w where "w = int32 (PRI_MAX - fp_to_int_round (cdiv (recent_cpu th) 4) - int32 (nice th * 2))"
  define v where "v = (let w = if w > PRI_MAX then PRI_MAX else w in if w < PRI_MIN then PRI_MIN else w)"
  have "update_priority s t = ret (upd_thread s t (\<lambda>th. th\<lparr>priority := v\<rparr>))"
    using False assms unfolding v_def w_def by (simp add: update_priority_def the_thread_def div_fp_int_def Let_def)
  moreover have "PRI_MIN \<le> v" "v \<le> PRI_MAX" by (simp_all add: v_def Let_def PRI_MIN_def PRI_MAX_def)
  moreover have "prio (upd_thread s t (\<lambda>th. th\<lparr>priority := v\<rparr>)) t = v" using assms by (simp add: prio_def)
  moreover have "same_sched s (upd_thread s t (\<lambda>th. th\<lparr>priority := v\<rparr>))" by (rule same_sched_upd) simp
  moreover have "load_avg (upd_thread s t (\<lambda>th. th\<lparr>priority := v\<rparr>)) = load_avg s" by (simp add: upd_thread_def)
  ultimately show ?thesis by simp
qed (simp add: update_priority_def)

definition prio_in_range :: "kstate \<Rightarrow> ptr \<Rightarrow> bool" where
  "prio_in_range s p \<longleftrightarrow> p = idle_thread s \<or> PRI_MIN \<le> prio s p \<and> prio s p \<le> PRI_MAX \<or>
     (\<exists>t. threads s p = Some t \<and> status t = THREAD_DYING)"

lemma all_priority_loop_ok:
  assumes "\<forall>p \<in> set es. threads s p \<noteq> None"
  shows "\<exists>s'. all_priority_loop s es = ret s' \<and> same_sched s s' \<and> load_avg s' = load_avg s \<and>
    (\<forall>p. p \<notin> set es \<longrightarrow> threads s' p = threads s p) \<and> (\<forall>p. p \<in> set es \<or> prio_in_range s p \<longrightarrow> prio_in_range s' p)"
  using assms
proof (induction es arbitrary: s)
  case (Cons e es)
  obtain t where t: "threads s e = Some t" using Cons.prems by auto
  show ?case
  proof (cases "status t = THREAD_DYING \<or> e = idle_thread s")
    case True
    then have "prio_in_range s e" using t by (auto simp: prio_in_range_def)
    moreover from Cons.IH [of s] Cons.prems obtain s' where "all_priority_loop s es = ret s' \<and> same_sched s s' \<and> load_avg s' = load_avg s \<and>
      (\<forall>p. p \<notin> set es \<longrightarrow> threads s' p = threads s p) \<and> (\<forall>p. p \<in> set es \<or> prio_in_range s p \<longrightarrow> prio_in_range s' p)" by auto
    ultimately show ?thesis using True t by (intro exI [of _ s']) (auto simp: the_thread_def)
  next
    case False
    from update_priority_ok [OF t] obtain s1 where
      u: "update_priority s e = ret s1" "same_sched s s1" "load_avg s1 = load_avg s" "\<forall>p. p \<noteq> e \<longrightarrow> threads s1 p = threads s p"
        "e \<noteq> idle_thread s \<longrightarrow> PRI_MIN \<le> prio s1 e \<and> prio s1 e \<le> PRI_MAX" by blast
    have id: "idle_thread s1 = idle_thread s" using u(2) by (simp add: same_sched_def)
    have r1: "prio_in_range s1 p" if "p = e \<or> prio_in_range s p" for p
      using that u(4,5) False id by (cases "p = e") (auto simp: prio_in_range_def prio_def)
    have "\<forall>p \<in> set es. threads s1 p \<noteq> None" using Cons.prems same_sched_alive [OF u(2)] by simp
    from Cons.IH [OF this] obtain s' where "all_priority_loop s1 es = ret s'" "same_sched s1 s'" "load_avg s' = load_avg s1"
      "\<forall>p. p \<notin> set es \<longrightarrow> threads s' p = threads s1 p" "\<forall>p. p \<in> set es \<or> prio_in_range s1 p \<longrightarrow> prio_in_range s' p" by auto
    then show ?thesis using False t u r1 same_sched_trans [OF u(2), of s'] by (intro exI [of _ s']) (auto simp: the_thread_def)
  qed
qed simp

lemma recent_cpu_loop_ok:
  assumes "\<forall>p \<in> set es. threads s p \<noteq> None" and "0 \<le> load_avg s" and "load_avg s < 2 ^ 29"
  shows "\<exists>s'. recent_cpu_loop s es = ret s' \<and> same_sched s s' \<and> load_avg s' = load_avg s"
  using assms
proof (induction es arbitrary: s)
  case (Cons e es)
  obtain t where t: "threads s e = Some t" using Cons.prems by auto
  have m: "mul_fp_int (load_avg s) 2 = 2 * load_avg s" using Cons.prems(2,3) by (simp add: mul_fp_int_def in_int32_def)
  have a: "add_fp_int (2 * load_avg s) 1 = 2 * load_avg s + F"
    using Cons.prems(2,3) by (simp add: add_fp_int_def F_def in_int32_def)
  obtain c where c: "div_fp (mul_fp_int (load_avg s) 2) (add_fp_int (mul_fp_int (load_avg s) 2) 1) = ret c"
    unfolding m a div_fp_def using Cons.prems(2) by (simp add: F_def)
  let ?s = "upd_thread s e (\<lambda>t. t\<lparr>recent_cpu := add_fp (mul_fp c (recent_cpu t)) (int_to_fp (nice t))\<rparr>)"
  have u: "same_sched s ?s" "load_avg ?s = load_avg s" by (rule same_sched_upd) (simp_all add: upd_thread_def)
  have "\<exists>s'. recent_cpu_loop ?s es = ret s' \<and> same_sched ?s s' \<and> load_avg s' = load_avg ?s"
    using Cons.prems same_sched_alive [OF u(1)] u(2) by (intro Cons.IH) auto
  then show ?case
    using Cons.IH [of s] Cons.prems t c u same_sched_trans [OF u(1)] by (auto simp: the_thread_def)
qed simp

text \<open>The load average of at most \<open>R\<close> runnable threads lies between 0 and \<open>R\<close>.\<close>

lemma update_load_avg_ok:
  assumes wf: "sched_wf s" and la: "0 \<le> load_avg s" "load_avg s \<le> R * F" and R: "int (length (ready_list s)) + 1 \<le> R" "R \<le> 2000"
  shows "\<exists>s'. update_load_avg s = ret s' \<and> same_sched s s' \<and> 0 \<le> load_avg s' \<and> load_avg s' \<le> R * F \<and> threads s' = threads s"
proof -
  let ?n = "int (length (ready_list s)) + (if current s \<noteq> idle_thread s then 1 else 0)"
  have n: "0 \<le> ?n" "?n \<le> R" using R(1) by auto
  have l: "load_avg s \<le> 32768000" using la(2) R(2) by (simp add: F_def)
  have m: "mul_fp_int (load_avg s) 59 = load_avg s * 59" using la(1) l by (simp add: mul_fp_int_def in_int32_def)
  have d: "div_fp_int (load_avg s * 59) 60 = ret (load_avg s * 59 div 60)" using la(1) by (simp add: div_fp_int_def cdiv_nonneg)
  have sx: "div_fp_int (int_to_fp 1) 60 = ret 273" by (simp add: div_fp_int_def int_to_fp_def F_def in_int32_def cdiv_nonneg)
  have t2: "mul_fp_int 273 ?n = 273 * ?n" using n R(2) by (subst mul_fp_int_def, subst int32_id) (auto simp: in_int32_def)
  define v where "v = load_avg s * 59 div 60 + 273 * ?n"
  have v0: "0 \<le> v" using la(1) n(1) by (simp add: v_def)
  have "load_avg s * 59 div 60 \<le> R * F * 59 div 60" using la(2) by (intro zdiv_mono1) auto
  moreover have "273 * ?n \<le> 273 * R" using n(2) by simp
  moreover have "R * F * 59 div 60 + 273 * R \<le> R * F"
  proof -
    have "60 * (x div 60) \<le> x" for x :: int by presburger
    then have "60 * (R * F * 59 div 60) \<le> R * F * 59" .
    moreover have "60 * (273 * R) \<le> R * F" using R by (simp add: F_def)
    ultimately show ?thesis by linarith
  qed
  ultimately have v1: "v \<le> R * F" unfolding v_def by linarith
  have "v < 2 ^ 31" using v1 R(2) by (simp add: F_def)
  then have "add_fp (load_avg s * 59 div 60) (273 * ?n) = v" using v0 by (subst add_fp_def, subst int32_id) (auto simp: in_int32_def v_def)
  then have "update_load_avg s = ret (s\<lparr>load_avg := v\<rparr>)"
    using wf m d sx t2 by (simp add: update_load_avg_def Let_def)
  then show ?thesis using v0 v1 by (simp add: same_sched_def)
qed

section \<open>An example\<close>

text \<open>The idle thread 1 is blocked, thread 2 runs, thread 3 of the same priority and thread 4 of a lower one are ready.\<close>

definition sample_thread :: "thread_status \<Rightarrow> int \<Rightarrow> thread" where
  "sample_thread st pri =
     \<lparr>tid = 1, status = st, t_name = [], priority = pri, original_priority = pri, donations = [], pending_lock = NULL,
      nice = 0, recent_cpu = 0, children_list = [], user_thread = False, t_magic = THREAD_MAGIC\<rparr>"

definition sample_kstate :: kstate where
  "sample_kstate =
     \<lparr>threads = [1 \<mapsto> sample_thread THREAD_BLOCKED 0, 2 \<mapsto> sample_thread THREAD_RUNNING 31,
        3 \<mapsto> sample_thread THREAD_READY 31, 4 \<mapsto> sample_thread THREAD_READY 20],
      current = 2, ready_list = [3, 4], all_list = [2, 1, 3, 4], destruction_req = [], idle_thread = 1, initial_thread = 2,
      next_tid = 5, thread_ticks = 0, idle_ticks = 0, kernel_ticks = 0, user_ticks = 0, load_avg = F, thread_mlfqs = False,
      in_intr = False, yield_on_return = False, ticks = 100, closet_tick = 0, block_thread_list = [],
      semas = Map.empty, holders = (\<lambda>_. NULL), conds = (\<lambda>_. [])\<rparr>"

lemma sample_kstate_wf: "sched_wf sample_kstate"
  by (auto simp: sched_wf_def base_wf_def ready_set_def sample_kstate_def sample_thread_def split: if_splits)

lemma sample_yield: "\<exists>s. thread_yield sample_kstate = ret s \<and> current s = 3 \<and> ready_list s = [2, 4] \<and> \<not> in_intr s"
  by (simp add: thread_yield_def thread_current_def is_thread_def the_thread_def do_schedule_def schedule_def next_thread_to_run_def
      insert_by_def compare_priority_def prio_def upd_thread_def Let_def sample_kstate_def sample_thread_def)

section \<open>Properties\<close>

text \<open>
  The steps of the scheduler: a thread blocks, yields, exits or changes its priority, or a blocked
  thread is made ready.
\<close>

inductive sched_step :: "kstate \<Rightarrow> kstate \<Rightarrow> bool" where
  block: "\<not> in_intr s \<Longrightarrow> thread_block s = ret s' \<Longrightarrow> sched_step s s'"
| unblock: "t \<noteq> idle_thread s \<Longrightarrow> thread_unblock s t = ret s' \<Longrightarrow> sched_step s s'"
| yield: "\<not> in_intr s \<Longrightarrow> thread_yield s = ret s' \<Longrightarrow> sched_step s s'"
| exit: "\<not> in_intr s \<Longrightarrow> current s \<noteq> idle_thread s \<Longrightarrow> thread_exit s = ret s' \<Longrightarrow> sched_step s s'"
| preempt: "compare_cur_next_priority s = ret s' \<Longrightarrow> sched_step s s'"

lemma thread_unblock_cases:
  assumes "sched_wf s" and "thread_unblock s t = ret s'"
  obtains th where "threads s t = Some th" "status th = THREAD_BLOCKED"
  using assms by (auto simp: thread_unblock_def the_thread_def split: if_splits option.splits)

lemma sched_step_wf: "sched_step s s' \<Longrightarrow> sched_wf s \<Longrightarrow> sched_wf s'"
proof (induction rule: sched_step.induct)
  case (unblock t s s')
  from thread_unblock_cases [OF unblock.prems unblock.hyps(2)] obtain th where "threads s t = Some th" "status th = THREAD_BLOCKED" .
  then show ?case using thread_unblock_ok [OF unblock.prems] unblock.hyps by fastforce
qed (use thread_block_ok thread_yield_ok thread_exit_ok compare_cur_next_priority_ok in fastforce)+

interpretation sched: stable sched_step sched_wf
  by unfold_locales (auto intro: sched_step_wf)

text \<open>
  C13. The scheduler's invariant survives every sequence of steps: one thread is running, the ready
  list holds every ready thread once, and only dying threads are on the list of pages to free. From
  every state reached, the running thread can yield or block without failing an assertion.
\<close>

theorem scheduler_invariant:
  assumes "sched_wf s0" and "sched_step\<^sup>*\<^sup>* s0 s"
  shows "sched_wf s \<and> (\<not> in_intr s \<longrightarrow> returns (thread_yield s) \<and> returns (thread_block s))"
proof -
  have wf: "sched_wf s" by (rule sched.runs [OF assms(2,1)])
  with thread_yield_ok [OF wf] thread_block_ok [OF wf] show ?thesis by blast
qed

theorem scheduler_invariant_witness:
  "\<exists>s. sched_step\<^sup>*\<^sup>* sample_kstate s \<and> current s = 3 \<and> ready_list s = [2, 4] \<and> sched_wf s \<and>
    returns (thread_yield s) \<and> returns (thread_block s)"
proof -
  obtain s where s: "thread_yield sample_kstate = ret s" "current s = 3" "ready_list s = [2, 4]" "\<not> in_intr s"
    using sample_yield by blast
  then have "sched_step\<^sup>*\<^sup>* sample_kstate s" by (intro r_into_rtranclp sched_step.yield) (simp_all add: sample_kstate_def)
  with scheduler_invariant [OF sample_kstate_wf this] s show ?thesis by blast
qed

text \<open>
  Preemption: \<open>compare_cur_next_priority\<close> returns, keeps the invariant, and afterwards no ready
  thread has a higher priority than the running one and the ready list is in order of priority;
  in an interrupt handler it does not switch but asks for a yield on return when one has.
\<close>

theorem compare_cur_next_priority_preempts:
  assumes "sched_wf s"
  shows "\<exists>s'. compare_cur_next_priority s = ret s' \<and> sched_wf s' \<and>
    (if in_intr s then current s' = current s \<and> (preempted s' \<or> yield_on_return s') else preempted s')"
  using compare_cur_next_priority_ok [OF assms] by auto

theorem compare_cur_next_priority_preempts_witness:
  "\<exists>s'. compare_cur_next_priority (sample_kstate\<lparr>in_intr := True\<rparr>) = ret s' \<and> sched_wf s' \<and> current s' = 2"
proof -
  have "sched_wf (sample_kstate\<lparr>in_intr := True\<rparr>)" using sample_kstate_wf by (simp add: sched_wf_def base_wf_def ready_set_def)
  from compare_cur_next_priority_preempts [OF this] show ?thesis by (auto simp: sample_kstate_def)
qed

text \<open>
  Fairness of \<open>thread_yield\<close>: with an ordered ready list it hands the processor to a thread of
  highest priority, and among those to the one that has waited longest; the yielding thread queues
  up behind all threads of its own priority.
\<close>

theorem thread_yield_round_robin:
  assumes wf: "sched_wf s" and "\<not> in_intr s" and ord: "ordered (compare_priority s) (ready_list s)"
    and cur: "current s \<noteq> idle_thread s"
  shows "\<exists>s' ys zs. thread_yield s = ret s' \<and> preempted s' \<and> ready_list s = ys @ zs \<and>
    current s' # ready_list s' = ys @ current s # zs \<and>
    (\<forall>y \<in> set ys. prio s y \<ge> prio s (current s)) \<and> (\<forall>z \<in> set zs. prio s z < prio s (current s))"
proof -
  from pri.insert_by_split [OF ord, of "current s"] obtain ys zs where
    s: "ready_list s = ys @ zs" "insert_by (compare_priority s) (current s) (ready_list s) = ys @ current s # zs"
      "\<forall>y \<in> set ys. \<not> compare_priority s (current s) y" "\<forall>z \<in> set zs. compare_priority s (current s) z" by metis
  from thread_yield_ok [OF wf assms(2)] cur s(2) obtain s' where
    "thread_yield s = ret s'" "current s' = hd (ys @ current s # zs)" "ready_list s' = tl (ys @ current s # zs)"
    by (auto simp: yield_queue_def hd_append)
  moreover from thread_yield_preempted [OF wf assms(2) ord this(1)] have "preempted s'" .
  moreover have "hd (ys @ current s # zs) # tl (ys @ current s # zs) = ys @ current s # zs" by simp
  ultimately show ?thesis using s by (intro exI [of _ s'] exI [of _ ys] exI [of _ zs]) (auto simp: compare_priority_def)
qed

theorem thread_yield_round_robin_witness:
  "\<exists>s' ys zs. thread_yield sample_kstate = ret s' \<and> preempted s' \<and> [3, 4] = ys @ zs \<and> current s' # ready_list s' = ys @ 2 # zs"
  using thread_yield_round_robin [OF sample_kstate_wf] pri.ordered_Cons
  by (fastforce simp: sample_kstate_def compare_priority_def prio_def sample_thread_def)

text \<open>In an interrupt handler \<open>compare_cur_next_priority\<close> only sorts the ready list and asks for a yield.\<close>

lemma compare_cur_next_priority_intr:
  assumes "in_intr s" and "compare_cur_next_priority s = ret s'"
  shows "\<exists>rl y. s' = s\<lparr>ready_list := rl, yield_on_return := y\<rparr>"
proof -
  let ?s = "s\<lparr>ready_list := sort_by (compare_priority s) (ready_list s)\<rparr>"
  from assms have "s' = s \<or> s' = ?s \<or> s' = ?s\<lparr>yield_on_return := True\<rparr>"
    by (auto simp: compare_cur_next_priority_def Let_def split: if_splits)
  moreover have "s = s\<lparr>ready_list := ready_list s, yield_on_return := yield_on_return s\<rparr>"
    "?s = ?s\<lparr>yield_on_return := yield_on_return s\<rparr>" by simp_all
  ultimately show ?thesis by blast
qed

lemma prio_in_range_cong: "threads s' = threads s \<Longrightarrow> idle_thread s' = idle_thread s \<Longrightarrow> prio_in_range s' p = prio_in_range s p"
  by (simp add: prio_in_range_def prio_def)

lemma compare_cur_next_priority_tick:
  assumes "sched_wf s" and "in_intr s"
  shows "\<exists>s'. compare_cur_next_priority s = ret s' \<and> sched_wf s' \<and> in_intr s' \<and> threads s' = threads s \<and> load_avg s' = load_avg s \<and>
    current s' = current s \<and> idle_thread s' = idle_thread s \<and> (preempted s' \<or> yield_on_return s')"
proof -
  from compare_cur_next_priority_ok [OF assms(1)] assms(2) obtain s' where
    s: "compare_cur_next_priority s = ret s'" "sched_wf s'" "preempted s' \<or> yield_on_return s'" by auto
  from compare_cur_next_priority_intr [OF assms(2) s(1)] obtain rl y where "s' = s\<lparr>ready_list := rl, yield_on_return := y\<rparr>" by blast
  then show ?thesis using s assms(2) by (intro exI [of _ s']) simp
qed

lemma update_all_priority_tick:
  assumes wf: "sched_wf s" and "in_intr s" and al: "all_alive s"
  shows "\<exists>s'. bindE (update_all_priority s) compare_cur_next_priority = ret s' \<and> sched_wf s' \<and> load_avg s' = load_avg s \<and>
    current s' = current s \<and> (\<forall>p \<in> set (all_list s). prio_in_range s' p) \<and> (preempted s' \<or> yield_on_return s')"
proof -
  from all_priority_loop_ok [of "all_list s" s] al obtain s1 where
    l: "all_priority_loop s (all_list s) = ret s1" "same_sched s s1" "load_avg s1 = load_avg s" "\<forall>p \<in> set (all_list s). prio_in_range s1 p"
    by (auto simp: all_alive_def)
  have w: "sched_wf s1" "in_intr s1" "current s1 = current s"
    using same_sched_wf [OF l(2) wf] l(2) assms(2) by (simp_all add: same_sched_def)
  from compare_cur_next_priority_tick [OF w(1,2)] obtain s2 where
    c: "compare_cur_next_priority s1 = ret s2" "sched_wf s2" "in_intr s2" "threads s2 = threads s1" "load_avg s2 = load_avg s1"
      "current s2 = current s1" "idle_thread s2 = idle_thread s1" by blast
  from compare_cur_next_priority_tick [OF c(2,3)] obtain s3 where
    d: "compare_cur_next_priority s2 = ret s3" "sched_wf s3" "threads s3 = threads s2" "load_avg s3 = load_avg s2"
      "current s3 = current s2" "idle_thread s3 = idle_thread s2" "preempted s3 \<or> yield_on_return s3" by blast
  have "prio_in_range s3 p = prio_in_range s1 p" for p using c d by (intro prio_in_range_cong) simp_all
  then show ?thesis using l c d w by (intro exI [of _ s3]) (simp add: update_all_priority_def)
qed

lemma update_recent_cpu_ok:
  assumes "sched_wf s"
  shows "\<exists>s'. update_recent_cpu s = ret s' \<and> same_sched s s' \<and> load_avg s' = load_avg s"
proof -
  let ?s = "upd_thread s (current s) (\<lambda>t. t\<lparr>recent_cpu := add_fp_int (recent_cpu t) 1\<rparr>)"
  have "same_sched s ?s" by (rule same_sched_upd) simp
  moreover have "load_avg ?s = load_avg s" by (simp add: upd_thread_def)
  ultimately show ?thesis using assms by (simp add: update_recent_cpu_def)
qed

lemma same_sched_all_alive: "same_sched s s' \<Longrightarrow> all_alive s \<Longrightarrow> all_alive s'"
  unfolding all_alive_def using same_sched_alive [of s s'] by (simp add: same_sched_def)



text \<open>
  \<open>thread_exit\<close> leaves the thread on \<open>all_list\<close>, and the next switch frees its page: the following
  recalculation of the priorities follows the dangling element.
\<close>

lemma exited_thread_dangles:
  "\<exists>s1 s2. thread_exit (sample_kstate\<lparr>initial_thread := 1\<rparr>) = ret s1 \<and> thread_yield s1 = ret s2 \<and>
     2 \<in> set (all_list s2) \<and> threads s2 2 = None \<and> update_all_priority s2 = fail Null_deref"
proof -
  obtain s1 where s1: "thread_exit (sample_kstate\<lparr>initial_thread := 1\<rparr>) = ret s1" "current s1 = 3" "ready_list s1 = [4]"
      "destruction_req s1 = [2]" "all_list s1 = [2, 1, 3, 4]" "idle_thread s1 = 1" "\<not> in_intr s1"
      "threads s1 3 = Some (sample_thread THREAD_RUNNING 31)" "threads s1 4 = Some (sample_thread THREAD_READY 20)"
    by (simp add: thread_exit_def thread_current_def is_thread_def the_thread_def do_schedule_def schedule_def next_thread_to_run_def
        insert_by_def upd_thread_def Let_def sample_kstate_def sample_thread_def)
  have c: "insert_by (compare_priority s1) 3 [4] = [3, 4]"
    using s1 by (simp add: insert_by_def compare_priority_def prio_def sample_thread_def)
  obtain s2 where s2: "thread_yield s1 = ret s2" "all_list s2 = [2, 1, 3, 4]" "threads s2 2 = None"
    using s1 c by (simp add: thread_yield_def thread_current_def is_thread_def the_thread_def do_schedule_def schedule_def
        next_thread_to_run_def upd_thread_def Let_def sample_thread_def)
  then show ?thesis using s1(1) by (simp add: update_all_priority_def the_thread_def)
qed

end
