(* ===== verification/Synch.thy ===== *)
theory Synch
  imports Thread
begin

text \<open>
  Semaphores, locks with priority donation and condition variables, \<open>threads/synch.c\<close>, and the
  creation of threads, which takes the lock of the identifiers.

  A semaphore is named by its address (\<open>semas\<close>); a lock's semaphore and holder are both named by
  the address of the lock (\<open>semas\<close>, \<open>holders\<close>); a condition variable holds the addresses of the
  semaphores of its waiters (\<open>conds\<close>). A function that may sleep is split where it sleeps.
  \<open>sema_down\<close> is one test of its loop: it returns \<open>True\<close> when the value was taken, and \<open>False\<close> when
  the caller went to sleep and has to test again when it next runs. \<open>lock_acquire\<close> is
  \<open>lock_acquire_begin\<close>, then \<open>sema_down\<close> until it succeeds, then \<open>lock_acquire_end\<close>; \<open>lock_release\<close>
  is \<open>lock_release_begin\<close> followed by \<open>sema_up\<close>. A statement that follows a possible switch of
  threads runs only if the caller still runs (\<open>if_running\<close>): otherwise it is a later step of the caller.
  The flag \<open>mem\<close> says whether \<open>malloc\<close> finds memory.
\<close>

section \<open>Semaphores\<close>

definition the_sema :: "kstate \<Rightarrow> ptr \<Rightarrow> semaphore exec" where
  "the_sema s p = (case semas s p of None \<Rightarrow> fail Null_deref | Some m \<Rightarrow> ret m)"

definition upd_sema :: "kstate \<Rightarrow> ptr \<Rightarrow> (semaphore \<Rightarrow> semaphore) \<Rightarrow> kstate" where
  "upd_sema s p f = s\<lparr>semas := (semas s)(p := map_option f (semas s p))\<rparr>"

definition sema_init :: "kstate \<Rightarrow> ptr \<Rightarrow> u32 \<Rightarrow> kstate exec" where
  "sema_init s sema v =
     ASSERT (sema \<noteq> NULL) (ret (s\<lparr>semas := (semas s)(sema \<mapsto> \<lparr>sema_value = v, waiters = []\<rparr>)\<rparr>))"

definition sema_down :: "kstate \<Rightarrow> ptr \<Rightarrow> (bool \<times> kstate) exec" where
  "sema_down s sema =
     ASSERT (sema \<noteq> NULL) (ASSERT (\<not> in_intr s) (
     bindE (the_sema s sema) (\<lambda>m.
     if sema_value m = 0 then
       bindE (thread_current s) (\<lambda>cur.
       bindE (thread_block (upd_sema s sema (\<lambda>m. m\<lparr>waiters := insert_by (compare_priority s) cur (waiters m)\<rparr>))) (\<lambda>s.
       ret (False, s)))
     else ret (True, upd_sema s sema (\<lambda>m. m\<lparr>sema_value := sema_value m - 1\<rparr>)))))"

definition sema_try_down :: "kstate \<Rightarrow> ptr \<Rightarrow> (bool \<times> kstate) exec" where
  "sema_try_down s sema =
     ASSERT (sema \<noteq> NULL) (
     bindE (the_sema s sema) (\<lambda>m.
     if sema_value m > 0 then ret (True, upd_sema s sema (\<lambda>m. m\<lparr>sema_value := sema_value m - 1\<rparr>))
     else ret (False, s)))"

definition sema_up :: "kstate \<Rightarrow> ptr \<Rightarrow> kstate exec" where
  "sema_up s sema =
     ASSERT (sema \<noteq> NULL) (
     bindE (the_sema s sema) (\<lambda>m.
     bindE (if waiters m \<noteq> [] then
              let ws = sort_by (compare_priority s) (waiters m) in
              thread_unblock (upd_sema s sema (\<lambda>m. m\<lparr>waiters := tl ws\<rparr>)) (hd ws)
            else ret s) (\<lambda>s.
     compare_cur_next_priority (upd_sema s sema (\<lambda>m. m\<lparr>sema_value := sema_value m + 1\<rparr>)))))"

section \<open>Locks\<close>

definition if_running :: "ptr \<Rightarrow> kstate \<Rightarrow> (kstate \<Rightarrow> kstate exec) \<Rightarrow> kstate exec" where
  "if_running cur s f = (if current s = cur then f s else ret s)"

definition lock_init :: "kstate \<Rightarrow> ptr \<Rightarrow> kstate exec" where
  "lock_init s l = ASSERT (l \<noteq> NULL) (sema_init (s\<lparr>holders := (holders s)(l := NULL)\<rparr>) l 1)"

definition lock_held_by_current_thread :: "kstate \<Rightarrow> ptr \<Rightarrow> bool exec" where
  "lock_held_by_current_thread s l = ASSERT (l \<noteq> NULL) (bindE (thread_current s) (\<lambda>cur. ret (holders s l = cur)))"

definition compare_priority_for_donate :: "donation \<Rightarrow> donation \<Rightarrow> bool" where
  "compare_priority_for_donate a b \<longleftrightarrow> d_priority a > d_priority b"

definition create_donation :: "bool \<Rightarrow> kstate \<Rightarrow> ptr \<Rightarrow> ptr \<Rightarrow> donation exec" where
  "create_donation mem s t l =
     (if \<not> mem then fail Null_deref
      else bindE (thread_get_priority s) (\<lambda>p. ret \<lparr>d_priority = p, donor = t, d_lock = l\<rparr>))"

text \<open>One round of the loop of \<open>lock_acquire\<close>: \<open>None\<close> leaves it, otherwise it goes on with the lock the holder waits for.\<close>

definition donate_round :: "bool \<Rightarrow> kstate \<Rightarrow> ptr \<Rightarrow> ptr \<Rightarrow> (ptr \<times> kstate) option exec" where
  "donate_round mem s cur pending =
     (let holder = holders s pending in
      if holder = NULL then ret None
      else
        bindE (thread_get_priority s) (\<lambda>p.
        bindE (the_thread s holder) (\<lambda>h.
        if p < priority h then ret None
        else
          bindE (create_donation mem s cur pending) (\<lambda>donate.
          let s = (if priority h < p then upd_thread s holder (\<lambda>t. t\<lparr>priority := p\<rparr>) else s);
              s = upd_thread s holder (\<lambda>t. t\<lparr>donations := insert_by compare_priority_for_donate donate (donations t)\<rparr>) in
          if pending_lock h \<noteq> NULL then
            bindE (the_sema s (pending_lock h)) (\<lambda>_.
            ret (Some (pending_lock h, upd_sema s (pending_lock h) (\<lambda>m. m\<lparr>waiters := sort_by (compare_priority s) (waiters m)\<rparr>))))
          else ret (Some (pending_lock h, s))))))"

partial_function (option) donate_loop :: "bool \<Rightarrow> kstate \<Rightarrow> ptr \<Rightarrow> ptr \<Rightarrow> kstate exec" where
  "donate_loop mem s cur pending =
     (if pending = NULL then ret s
      else bindE (donate_round mem s cur pending) (\<lambda>r.
        case r of None \<Rightarrow> ret s | Some (pending, s) \<Rightarrow> donate_loop mem s cur pending))"

definition lock_acquire_begin :: "bool \<Rightarrow> kstate \<Rightarrow> ptr \<Rightarrow> kstate exec" where
  "lock_acquire_begin mem s l =
     ASSERT (l \<noteq> NULL) (ASSERT (\<not> in_intr s) (
     bindE (lock_held_by_current_thread s l) (\<lambda>held.
     ASSERT (\<not> held) (
     bindE (thread_current s) (\<lambda>cur.
     if holders s l \<noteq> NULL then donate_loop mem (upd_thread s cur (\<lambda>t. t\<lparr>pending_lock := l\<rparr>)) cur l
     else ret s)))))"

definition lock_acquire_end :: "kstate \<Rightarrow> ptr \<Rightarrow> kstate exec" where
  "lock_acquire_end s l =
     bindE (thread_current s) (\<lambda>cur.
     ret ((upd_thread s cur (\<lambda>t. t\<lparr>pending_lock := NULL\<rparr>))\<lparr>holders := (holders s)(l := cur)\<rparr>))"

text \<open>\<open>lock_acquire\<close> up to its return or to its going to sleep in \<open>sema_down\<close>.\<close>

definition lock_acquire :: "bool \<Rightarrow> kstate \<Rightarrow> ptr \<Rightarrow> (bool \<times> kstate) exec" where
  "lock_acquire mem s l =
     bindE (lock_acquire_begin mem s l) (\<lambda>s.
     bindE (sema_down s l) (\<lambda>(got, s).
     if got then bindE (lock_acquire_end s l) (\<lambda>s. ret (True, s)) else ret (False, s)))"

definition lock_try_acquire :: "kstate \<Rightarrow> ptr \<Rightarrow> (bool \<times> kstate) exec" where
  "lock_try_acquire s l =
     ASSERT (l \<noteq> NULL) (
     bindE (lock_held_by_current_thread s l) (\<lambda>held.
     ASSERT (\<not> held) (
     bindE (sema_try_down s l) (\<lambda>(success, s).
     if success then bindE (thread_current s) (\<lambda>cur. ret (True, s\<lparr>holders := (holders s)(l := cur)\<rparr>))
     else ret (False, s)))))"

definition remove_donation_for_lock :: "kstate \<Rightarrow> ptr \<Rightarrow> kstate exec" where
  "remove_donation_for_lock s l =
     bindE (thread_current s) (\<lambda>cur.
     ret (upd_thread s cur (\<lambda>t. t\<lparr>donations := filter (\<lambda>d. d_lock d \<noteq> l) (donations t)\<rparr>)))"

definition recalc_priority :: "kstate \<Rightarrow> kstate exec" where
  "recalc_priority s =
     bindE (thread_current s) (\<lambda>cur.
     let s = upd_thread s cur (\<lambda>t. t\<lparr>priority := original_priority t\<rparr>) in
     bindE (the_thread s cur) (\<lambda>t.
     if donations t = [] then ret s
     else
       let ds = sort_by compare_priority_for_donate (donations t); front_priority = d_priority (hd ds) in
       ret (upd_thread s cur (\<lambda>t. t\<lparr>donations := ds, priority := (if priority t < front_priority then front_priority else priority t)\<rparr>))))"

definition lock_release_begin :: "kstate \<Rightarrow> ptr \<Rightarrow> kstate exec" where
  "lock_release_begin s l =
     ASSERT (l \<noteq> NULL) (
     bindE (lock_held_by_current_thread s l) (\<lambda>held.
     ASSERT held (ASSERT (holders s l \<noteq> NULL) (
     bindE (remove_donation_for_lock s l) (\<lambda>s.
     bindE (recalc_priority s) (\<lambda>s.
     ret (s\<lparr>holders := (holders s)(l := NULL)\<rparr>)))))))"

definition lock_release :: "kstate \<Rightarrow> ptr \<Rightarrow> kstate exec" where
  "lock_release s l =
     bindE (lock_release_begin s l) (\<lambda>s'.
     bindE (sema_up s' l) (\<lambda>s'. if_running (current s) s' compare_cur_next_priority))"

section \<open>Condition variables\<close>

definition cond_init :: "kstate \<Rightarrow> ptr \<Rightarrow> kstate exec" where
  "cond_init s c = ASSERT (c \<noteq> NULL) (ret (s\<lparr>conds := (conds s)(c := [])\<rparr>))"

definition sema_waiters :: "kstate \<Rightarrow> ptr \<Rightarrow> ptr list" where
  "sema_waiters s p = (case semas s p of None \<Rightarrow> [] | Some m \<Rightarrow> waiters m)"

definition compare_priority_for_cond :: "kstate \<Rightarrow> ptr \<Rightarrow> ptr \<Rightarrow> bool" where
  "compare_priority_for_cond s a b =
     (if sema_waiters s a = [] then False
      else if sema_waiters s b = [] then True
      else prio s (hd (sema_waiters s a)) > prio s (hd (sema_waiters s b)))"

text \<open>
  \<open>cond_wait\<close> up to the release of the lock; the caller then waits in \<open>sema_down\<close> on its own
  semaphore \<open>w\<close> and takes the lock again with \<open>lock_acquire\<close>.
\<close>

definition cond_wait_begin :: "kstate \<Rightarrow> ptr \<Rightarrow> ptr \<Rightarrow> ptr \<Rightarrow> kstate exec" where
  "cond_wait_begin s c l w =
     ASSERT (c \<noteq> NULL) (ASSERT (l \<noteq> NULL) (ASSERT (\<not> in_intr s) (
     bindE (lock_held_by_current_thread s l) (\<lambda>held.
     ASSERT held (
     bindE (sema_init s w 0) (\<lambda>s.
     lock_release (s\<lparr>conds := (conds s)(c := insert_by (compare_priority_for_cond s) w (conds s c))\<rparr>) l))))))"

definition cond_signal :: "kstate \<Rightarrow> ptr \<Rightarrow> ptr \<Rightarrow> kstate exec" where
  "cond_signal s c l =
     ASSERT (c \<noteq> NULL) (ASSERT (l \<noteq> NULL) (ASSERT (\<not> in_intr s) (
     bindE (lock_held_by_current_thread s l) (\<lambda>held.
     ASSERT held (
     if conds s c \<noteq> [] then
       let ws = sort_by (compare_priority_for_cond s) (conds s c) in
       sema_up (s\<lparr>conds := (conds s)(c := tl ws)\<rparr>) (hd ws)
     else ret s)))))"

text \<open>The loop of \<open>cond_broadcast\<close> until it ends or the caller is preempted.\<close>

partial_function (option) broadcast_loop :: "kstate \<Rightarrow> ptr \<Rightarrow> ptr \<Rightarrow> ptr \<Rightarrow> kstate exec" where
  "broadcast_loop s cur c l =
     (if conds s c \<noteq> [] then
        bindE (cond_signal s c l) (\<lambda>s. if current s = cur then broadcast_loop s cur c l else ret s)
      else ret s)"

definition cond_broadcast :: "kstate \<Rightarrow> ptr \<Rightarrow> ptr \<Rightarrow> kstate exec" where
  "cond_broadcast s c l = ASSERT (c \<noteq> NULL) (ASSERT (l \<noteq> NULL) (broadcast_loop s (current s) c l))"

section \<open>New threads\<close>

definition tid_lock :: ptr where "tid_lock = 0x8004240000"

text \<open>
  \<open>allocate_tid\<close> and \<open>thread_create\<close> as far as the caller runs on; \<open>None\<close> is a caller that went to
  sleep on the lock of the identifiers or was preempted when it released it. The page comes from \<open>palloc_get_page\<close>, \<open>NULL\<close> when there is none.
\<close>

definition allocate_tid :: "bool \<Rightarrow> kstate \<Rightarrow> (int option \<times> kstate) exec" where
  "allocate_tid mem s =
     bindE (lock_acquire mem s tid_lock) (\<lambda>(got, s).
     if \<not> got then ret (None, s)
     else
       let new_tid = next_tid s; s = s\<lparr>next_tid := int32 (next_tid s + 1)\<rparr> in
       bindE (lock_release s tid_lock) (\<lambda>s. ret (Some new_tid, s)))"

definition thread_init :: "kstate \<Rightarrow> ptr \<Rightarrow> u8 list \<Rightarrow> kstate exec" where
  "thread_init s t main =
     bindE (lock_init s tid_lock) (\<lambda>s.
     let s = s\<lparr>ready_list := [], destruction_req := [], all_list := [], initial_thread := t, current := t\<rparr> in
     bindE (init_thread s t main PRI_DEFAULT) (\<lambda>s.
     let s = upd_thread s t (\<lambda>th. th\<lparr>status := THREAD_RUNNING\<rparr>) in
     bindE (allocate_tid True s) (\<lambda>(i, s).
     ret (upd_thread s t (\<lambda>th. th\<lparr>tid := (case i of None \<Rightarrow> 0 | Some i \<Rightarrow> i)\<rparr>)))))"

definition thread_create :: "bool \<Rightarrow> kstate \<Rightarrow> ptr \<Rightarrow> u8 list \<Rightarrow> int \<Rightarrow> (int option \<times> kstate) exec" where
  "thread_create mem s t name pri =
     bindE (thread_current s) (\<lambda>cur.
     if t = NULL then ret (Some TID_ERROR, s)
     else
       bindE (init_thread s t name pri) (\<lambda>s.
       bindE (if thread_mlfqs s then update_priority s t else ret s) (\<lambda>s.
       bindE (allocate_tid mem s) (\<lambda>(i, s).
       case i of None \<Rightarrow> ret (None, s)
       | Some i \<Rightarrow>
         if current s \<noteq> cur then ret (None, s)
         else
           let s = upd_thread s t (\<lambda>th. th\<lparr>tid := i\<rparr>); s = upd_thread s cur (\<lambda>th. th\<lparr>children_list := children_list th @ [t]\<rparr>) in
           bindE (thread_unblock s t) (\<lambda>s.
           bindE (if compare_priority s t cur then thread_yield s else ret s) (\<lambda>s.
           ret (Some i, s)))))))"

section \<open>What the operations keep\<close>

lemma the_sema_simp [simp]: "semas s p = Some m \<Longrightarrow> the_sema s p = ret m"
  by (simp add: the_sema_def)

lemma the_sema_eq_ret [simp]: "the_sema s p = ret m \<longleftrightarrow> semas s p = Some m"
  by (simp add: the_sema_def split: option.splits)

lemma upd_sema_simps [simp]:
  "threads (upd_sema s p f) = threads s" "current (upd_sema s p f) = current s" "ready_list (upd_sema s p f) = ready_list s"
  "idle_thread (upd_sema s p f) = idle_thread s" "destruction_req (upd_sema s p f) = destruction_req s"
  "in_intr (upd_sema s p f) = in_intr s" "holders (upd_sema s p f) = holders s" "conds (upd_sema s p f) = conds s"
  "all_list (upd_sema s p f) = all_list s" "ticks (upd_sema s p f) = ticks s"
  "semas (upd_sema s p f) = (semas s)(p := map_option f (semas s p))"
  by (simp_all add: upd_sema_def)

lemma sched_wf_cong:
  "threads s' = threads s \<Longrightarrow> current s' = current s \<Longrightarrow> ready_list s' = ready_list s \<Longrightarrow> idle_thread s' = idle_thread s \<Longrightarrow>
   destruction_req s' = destruction_req s \<Longrightarrow> sched_wf s' = sched_wf s"
  by (simp add: sched_wf_def base_wf_def ready_set_def)

text \<open>
  The threads on a semaphore's list sleep, each on one semaphore; the idle thread never does.
\<close>

definition waiting_wf :: "kstate \<Rightarrow> bool" where
  "waiting_wf s \<longleftrightarrow>
     (\<forall>l m. semas s l = Some m \<longrightarrow> distinct (waiters m) \<and>
        (\<forall>p \<in> set (waiters m). p \<noteq> idle_thread s \<and> (\<exists>t. threads s p = Some t \<and> status t = THREAD_BLOCKED))) \<and>
     (\<forall>l m l' m'. semas s l = Some m \<and> semas s l' = Some m' \<and> l \<noteq> l' \<longrightarrow> set (waiters m) \<inter> set (waiters m') = {})"

lemma waiting_wf_sleeper:
  assumes "waiting_wf s" "semas s l = Some m" "p \<in> set (waiters m)"
  obtains t where "p \<noteq> idle_thread s" "threads s p = Some t" "status t = THREAD_BLOCKED"
  using assms unfolding waiting_wf_def by blast

lemma waiting_wf_once:
  "waiting_wf s \<Longrightarrow> semas s l = Some m \<Longrightarrow> semas s l' = Some m' \<Longrightarrow> p \<in> set (waiters m) \<Longrightarrow> p \<in> set (waiters m') \<Longrightarrow> l = l'"
  unfolding waiting_wf_def by blast

lemma waiting_wf_not_current: "waiting_wf s \<Longrightarrow> sched_wf s \<Longrightarrow> semas s l = Some m \<Longrightarrow> current s \<notin> set (waiters m)"
  by (auto simp: sched_wf_def elim: waiting_wf_sleeper)

text \<open>
  The semaphores of \<open>s'\<close> have the waiters of those of \<open>s\<close>, in any order, but for the threads in \<open>ps\<close>;
  the waiters still sleep.
\<close>

lemma waiting_wf_mono:
  assumes wf: "waiting_wf s" and idle: "idle_thread s' = idle_thread s"
    and sub: "\<And>l m'. semas s' l = Some m' \<Longrightarrow> \<exists>m. semas s l = Some m \<and> distinct (waiters m') \<and> set (waiters m') \<subseteq> set (waiters m)"
    and sl: "\<And>l m' p. semas s' l = Some m' \<Longrightarrow> p \<in> set (waiters m') \<Longrightarrow> \<exists>t. threads s' p = Some t \<and> status t = THREAD_BLOCKED"
  shows "waiting_wf s'"
proof -
  have "distinct (waiters m') \<and> (\<forall>p \<in> set (waiters m'). p \<noteq> idle_thread s' \<and> (\<exists>t. threads s' p = Some t \<and> status t = THREAD_BLOCKED))"
    if "semas s' l = Some m'" for l m'
    using sub [OF that] sl [OF that] waiting_wf_sleeper [OF wf] idle by (metis subsetD)
  moreover have "set (waiters m) \<inter> set (waiters m') = {}" if "semas s' l = Some m" "semas s' l' = Some m'" "l \<noteq> l'" for l m l' m'
  proof -
    from sub [OF that(1)] sub [OF that(2)] obtain n n' where "semas s l = Some n" "semas s l' = Some n'"
      "set (waiters m) \<subseteq> set (waiters n)" "set (waiters m') \<subseteq> set (waiters n')" by blast
    moreover from this that(3) have "set (waiters n) \<inter> set (waiters n') = {}" using wf unfolding waiting_wf_def by blast
    ultimately show ?thesis by blast
  qed
  ultimately show ?thesis unfolding waiting_wf_def by blast
qed

lemma waiting_wf_sleepers:
  assumes "waiting_wf s" and "sleepers_kept s s'" and "semas s' = semas s" and "idle_thread s' = idle_thread s"
  shows "waiting_wf s'"
proof (rule waiting_wf_mono [OF assms(1,4)])
  fix l m' p assume "semas s' l = Some m'" "p \<in> set (waiters m')"
  then obtain t where "p \<noteq> idle_thread s" "threads s p = Some t" "status t = THREAD_BLOCKED"
    using waiting_wf_sleeper [OF assms(1)] assms(3) by metis
  then show "\<exists>t. threads s' p = Some t \<and> status t = THREAD_BLOCKED" using sleepers_keptD [OF assms(2)] by blast
qed (use assms(1,3) in \<open>auto simp: waiting_wf_def\<close>)

section \<open>Semaphore operations\<close>

lemma sema_down_taken:
  assumes "sema \<noteq> NULL" and "\<not> in_intr s" and "semas s sema = Some m" and "sema_value m \<noteq> 0"
  shows "sema_down s sema = ret (True, upd_sema s sema (\<lambda>m. m\<lparr>sema_value := sema_value m - 1\<rparr>))"
  using assms by (simp add: sema_down_def)

text \<open>A thread that finds 0 goes to sleep behind the waiters of at least its priority.\<close>

lemma sema_down_sleeps:
  assumes wf: "sched_wf s" and ww: "waiting_wf s" and "sema \<noteq> NULL" and i: "\<not> in_intr s" and m: "semas s sema = Some m" "sema_value m = 0"
    and ni: "current s \<noteq> idle_thread s"
  shows "\<exists>s'. sema_down s sema = ret (False, s') \<and> sched_wf s' \<and> waiting_wf s' \<and> current s' = chosen s \<and> holders s' = holders s \<and>
    semas s' = (semas s)(sema \<mapsto> m\<lparr>waiters := insert_by (compare_priority s) (current s) (waiters m)\<rparr>) \<and>
    idle_thread s' = idle_thread s \<and> in_intr s' = in_intr s \<and> ready_list s' = tl (ready_list s)"
proof -
  let ?m = "m\<lparr>waiters := insert_by (compare_priority s) (current s) (waiters m)\<rparr>"
  let ?u = "upd_sema s sema (\<lambda>m. m\<lparr>waiters := insert_by (compare_priority s) (current s) (waiters m)\<rparr>)"
  have wu: "sched_wf ?u" using wf sched_wf_cong [of ?u s] by simp
  have ch: "chosen ?u = chosen s" by (simp add: chosen_def)
  have se: "semas ?u = (semas s)(sema \<mapsto> ?m)" using m by simp
  from thread_block_ok [OF wu] i ch se obtain s' where
    b: "thread_block ?u = ret s'" "sched_wf s'" "current s' = chosen s" "semas s' = (semas s)(sema \<mapsto> ?m)"
      "holders s' = holders s" "idle_thread s' = idle_thread s" "in_intr s' = in_intr s"
      "threads s' = ((threads s)(current s := map_option (\<lambda>t. t\<lparr>status := THREAD_BLOCKED\<rparr>) (threads s (current s))))
        (chosen s := map_option (\<lambda>t. t\<lparr>status := THREAD_RUNNING\<rparr>) (threads s (chosen s)))" "ready_list s' = tl (ready_list s)"
    by auto
  obtain c where c: "threads s (current s) = Some c" "status c = THREAD_RUNNING" using wf by (auto simp: sched_wf_def)
  have chs: "chosen s = idle_thread s \<or> chosen s \<in> ready_set s" using wf by (cases "ready_list s") (auto simp: chosen_def sched_wf_def base_wf_def)
  have nch: "current s \<noteq> chosen s" using chs ni c by (auto simp: ready_set_def)
  have sl: "\<exists>t. threads s' p = Some t \<and> status t = THREAD_BLOCKED" if "p = current s \<or> threads s p = Some t \<and> status t = THREAD_BLOCKED \<and> p \<noteq> idle_thread s" for p t
    using that chs c nch unfolding b(8) by (auto simp: ready_set_def)
  have nc: "current s \<notin> set (waiters n)" if "semas s l = Some n" for l n using waiting_wf_not_current [OF ww wf that] .
  have old: "distinct (waiters n)" "\<forall>p \<in> set (waiters n). p \<noteq> idle_thread s \<and> (\<exists>t. threads s p = Some t \<and> status t = THREAD_BLOCKED)"
    if "semas s l = Some n" for l n using ww that unfolding waiting_wf_def by blast+
  have ws: "distinct (waiters n) \<and> (\<forall>p \<in> set (waiters n). p \<noteq> idle_thread s \<and> (\<exists>t. threads s' p = Some t \<and> status t = THREAD_BLOCKED))"
    if "semas s' l = Some n" for l n
  proof (cases "l = sema")
    case True
    then have "n = ?m" using that b(4) by simp
    then show ?thesis using old [OF m(1)] nc [OF m(1)] sl ni by (fastforce simp: pri.set_insert_by distinct_insert_by)
  next
    case False
    then have "semas s l = Some n" using that b(4) by simp
    then show ?thesis using old sl by blast
  qed
  have dj: "set (waiters n) \<inter> set (waiters n') = {}" if "semas s' l = Some n" "semas s' l' = Some n'" "l \<noteq> l'" for l n l' n'
  proof -
    have d: "set (waiters k) \<inter> set (waiters k') = {}" if "semas s l = Some k" "semas s l' = Some k'" "l \<noteq> l'" for l k l' k'
      using ww that unfolding waiting_wf_def by blast
    show ?thesis using that d [of l n l' n'] d [of sema m l' n'] d [of l n sema m] nc m(1)
      by (auto simp: b(4) pri.set_insert_by split: if_splits)
  qed
  have "waiting_wf s'" unfolding waiting_wf_def b(6) using ws dj by blast
  then show ?thesis using b wf m i assms(3) by (simp add: sema_down_def)
qed


text \<open>The threads the scheduler can choose, now or later.\<close>

definition runnable :: "kstate \<Rightarrow> ptr \<Rightarrow> bool" where
  "runnable s p \<longleftrightarrow> p = current s \<or> p \<in> set (ready_list s)"

lemma thread_yield_runnable:
  assumes "sched_wf s" and "thread_yield s = ret s'" and "runnable s p" and "p \<noteq> idle_thread s"
  shows "runnable s' p"
proof -
  have "\<not> in_intr s" using assms(2) by (auto simp: thread_yield_def split: if_splits)
  with thread_yield_ok [OF assms(1)] assms(2) have
    "current s' = hd (yield_queue s @ [idle_thread s])" "ready_list s' = tl (yield_queue s)" by auto
  moreover have "p \<in> set (yield_queue s)" using assms(3,4) by (auto simp: yield_queue_def runnable_def pri.set_insert_by)
  ultimately show ?thesis by (cases "yield_queue s") (auto simp: runnable_def)
qed

lemma compare_cur_next_priority_runnable:
  assumes wf: "sched_wf s" and r: "compare_cur_next_priority s = ret s'" and p: "runnable s p" "p \<noteq> idle_thread s"
  shows "runnable s' p"
proof -
  let ?s = "s\<lparr>ready_list := sort_by (compare_priority s) (ready_list s)\<rparr>"
  have d: "distinct (sort_by (compare_priority s) (ready_list s))"
    using wf pri.sort_by_ok(2) [of s "ready_list s"] by (metis mset_eq_imp_distinct_iff sched_wf_def base_wf_def)
  have ws: "sched_wf ?s" by (rule sched_wf_ready [OF wf d]) simp
  have ps: "runnable ?s p" using p by (simp add: runnable_def)
  from r have "s' = s \<or> s' = ?s \<or> s' = ?s\<lparr>yield_on_return := True\<rparr> \<or> thread_yield ?s = ret s'"
    by (auto simp: compare_cur_next_priority_def Let_def split: if_splits)
  then show ?thesis using p ps thread_yield_runnable [OF ws _ ps, of s'] by (auto simp: runnable_def)
qed

lemma compare_cur_next_priority_prio:
  assumes wf: "sched_wf s" and r: "compare_cur_next_priority s = ret s'" and p: "p \<notin> set (destruction_req s)"
  shows "prio s' p = prio s p"
proof -
  let ?s = "s\<lparr>ready_list := sort_by (compare_priority s) (ready_list s)\<rparr>"
  have d: "distinct (sort_by (compare_priority s) (ready_list s))"
    using wf pri.sort_by_ok(2) [of s "ready_list s"] by (metis mset_eq_imp_distinct_iff sched_wf_def base_wf_def)
  have ws: "sched_wf ?s" by (rule sched_wf_ready [OF wf d]) simp
  have pr: "prio ?s = prio s" "prio (?s\<lparr>yield_on_return := True\<rparr>) = prio s" by (rule prio_cong, simp)+
  from r have "s' = s \<or> s' = ?s \<or> s' = ?s\<lparr>yield_on_return := True\<rparr> \<or> thread_yield ?s = ret s' \<and> \<not> in_intr ?s"
    by (auto simp: compare_cur_next_priority_def Let_def split: if_splits)
  then show ?thesis using pr thread_yield_ok [OF ws] p by auto
qed

text \<open>
  \<open>sema_up\<close> returns; it wakes the first of the waiters in order of priority, adds 1 and lets the
  woken thread run if its priority is higher.
\<close>

lemma sema_up_ok:
  assumes wf: "sched_wf s" and ww: "waiting_wf s" and "sema \<noteq> NULL" and m: "semas s sema = Some m"
  defines "ws \<equiv> sort_by (compare_priority s) (waiters m)"
  shows "\<exists>s'. sema_up s sema = ret s' \<and> sched_wf s' \<and> waiting_wf s' \<and> holders s' = holders s \<and>
    semas s' = (semas s)(sema \<mapsto> m\<lparr>waiters := tl ws, sema_value := sema_value m + 1\<rparr>) \<and>
    idle_thread s' = idle_thread s \<and> in_intr s' = in_intr s \<and> conds s' = conds s \<and> (\<not> in_intr s \<longrightarrow> preempted s') \<and>
    (\<forall>p. (runnable s p \<or> ws \<noteq> [] \<and> p = hd ws) \<and> p \<noteq> idle_thread s \<longrightarrow> runnable s' p) \<and>
    (\<forall>p. p \<notin> set (destruction_req s) \<longrightarrow> prio s' p = prio s p)"
proof -
  let ?m = "m\<lparr>waiters := tl ws, sema_value := sema_value m + 1\<rparr>"
  let ?up = "\<lambda>s. upd_sema s sema (\<lambda>m. m\<lparr>sema_value := sema_value m + 1\<rparr>)"
  have sw: "set ws = set (waiters m)" "distinct ws" "ws = [] \<longleftrightarrow> waiters m = []"
  proof -
    show "set ws = set (waiters m)" by (simp add: ws_def)
    then show "ws = [] \<longleftrightarrow> waiters m = []" by (metis set_empty)
    show "distinct ws" using ww m pri.sort_by_ok(2) [of s "waiters m"] unfolding ws_def waiting_wf_def by (metis mset_eq_imp_distinct_iff)
  qed
  define r where "r = (if waiters m \<noteq> [] then thread_unblock (upd_sema s sema (\<lambda>m. m\<lparr>waiters := tl ws\<rparr>)) (hd ws) else ret s)"
  have "\<exists>s1. r = ret s1 \<and> sched_wf s1 \<and> waiting_wf s1 \<and> holders s1 = holders s \<and> conds s1 = conds s \<and>
      semas s1 = (semas s)(sema \<mapsto> m\<lparr>waiters := tl ws\<rparr>) \<and> idle_thread s1 = idle_thread s \<and> in_intr s1 = in_intr s \<and>
      (\<forall>p. runnable s p \<or> ws \<noteq> [] \<and> p = hd ws \<longrightarrow> runnable s1 p) \<and> prio s1 = prio s \<and> destruction_req s1 = destruction_req s"
  proof (cases "waiters m = []")
    case True
    then have "(semas s)(sema \<mapsto> m\<lparr>waiters := tl ws\<rparr>) = semas s" using m sw(3) by (auto simp: fun_eq_iff)
    then show ?thesis using True wf ww sw(3) by (simp add: r_def)
  next
    case False
    let ?u = "upd_sema s sema (\<lambda>m. m\<lparr>waiters := tl ws\<rparr>)"
    have hw: "hd ws \<in> set (waiters m)" using False sw(1,3) by (metis hd_in_set)
    obtain t where t: "hd ws \<noteq> idle_thread s" "threads s (hd ws) = Some t" "status t = THREAD_BLOCKED" by (rule waiting_wf_sleeper [OF ww m hw])
    have "sched_wf ?u" using wf sched_wf_cong [of ?u s] by simp
    from thread_unblock_ok [OF this, of "hd ws" t] t obtain s1 where
      b: "thread_unblock ?u (hd ws) = ret s1" "sched_wf s1" "current s1 = current s" "threads s1 = (threads s)(hd ws \<mapsto> t\<lparr>status := THREAD_READY\<rparr>)"
        "semas s1 = (semas s)(sema \<mapsto> m\<lparr>waiters := tl ws\<rparr>)" "holders s1 = holders s" "conds s1 = conds s"
        "idle_thread s1 = idle_thread s" "in_intr s1 = in_intr s" "ready_list s1 = insert_by (compare_priority ?u) (hd ws) (ready_list s)"
        "prio s1 = prio ?u"
      using m by auto
    have ps: "prio s1 = prio s" unfolding b(11) by (rule prio_cong) simp
    have dr: "destruction_req s1 = destruction_req s" using b(1) by (auto simp: thread_unblock_def Let_def split: if_splits)
    have tl: "set (tl ws) \<subseteq> set (waiters m)" "hd ws \<notin> set (tl ws)" "distinct (tl ws)"
      using sw False by (cases ws; auto)+
    have nh: "hd ws \<notin> set (waiters n)" if "semas s1 l = Some n" for l n
      using that tl(2) waiting_wf_once [OF ww m _ hw, of l n] unfolding b(5) by (auto split: if_splits)
    have "waiting_wf s1"
    proof (rule waiting_wf_mono [OF ww b(8)])
      show "\<exists>n. semas s l = Some n \<and> distinct (waiters m') \<and> set (waiters m') \<subseteq> set (waiters n)" if "semas s1 l = Some m'" for l m'
        using that tl m ww unfolding b(5) waiting_wf_def by (auto split: if_splits)
    next
      fix l m' p assume l: "semas s1 l = Some m'" "p \<in> set (waiters m')"
      then obtain n where n: "semas s l = Some n" "p \<in> set (waiters n)" using tl m unfolding b(5) by (auto split: if_splits)
      obtain t' where "threads s p = Some t'" "status t' = THREAD_BLOCKED" by (rule waiting_wf_sleeper [OF ww n])
      then show "\<exists>t. threads s1 p = Some t \<and> status t = THREAD_BLOCKED" using nh [OF l(1)] l(2) unfolding b(4) by auto
    qed
    then show ?thesis using b False ps dr by (auto simp: r_def runnable_def pri.set_insert_by)
  qed
  then obtain s1 where s1: "r = ret s1" "sched_wf s1" "waiting_wf s1" "holders s1 = holders s" "conds s1 = conds s"
      "semas s1 = (semas s)(sema \<mapsto> m\<lparr>waiters := tl ws\<rparr>)" "idle_thread s1 = idle_thread s" "in_intr s1 = in_intr s"
      "\<forall>p. runnable s p \<or> ws \<noteq> [] \<and> p = hd ws \<longrightarrow> runnable s1 p" "prio s1 = prio s" "destruction_req s1 = destruction_req s" by blast
  have u: "sched_wf (?up s1)" using s1(2) sched_wf_cong [of "?up s1" s1] by simp
  have uw: "waiting_wf (?up s1)"
    by (rule waiting_wf_mono [OF s1(3)]) (use s1(3) in \<open>auto simp: waiting_wf_def split: if_splits option.splits\<close>)
  have us: "semas (?up s1) = (semas s)(sema \<mapsto> ?m)" by (simp add: s1(6))
  from compare_cur_next_priority_ok [OF u] obtain s' where
    c: "compare_cur_next_priority (?up s1) = ret s'" "sched_wf s'" "in_intr s' = in_intr s" "semas s' = (semas s)(sema \<mapsto> ?m)"
      "holders s' = holders s" "conds s' = conds s" "sleepers_kept (?up s1) s'" "idle_thread s' = idle_thread s" "\<not> in_intr s \<longrightarrow> preempted s'"
    using s1 us by auto
  have "waiting_wf s'" by (rule waiting_wf_sleepers [OF uw c(7)]) (use c us s1(7) in simp_all)
  moreover have "runnable s' p" if "runnable s1 p" "p \<noteq> idle_thread s" for p
    using compare_cur_next_priority_runnable [OF u c(1), of p] that s1(7) by (simp add: runnable_def)
  moreover have "prio s' p = prio s p" if "p \<notin> set (destruction_req s)" for p
    using compare_cur_next_priority_prio [OF u c(1), of p] that s1(10,11) prio_cong [of "?up s1" s1] by simp
  moreover have "sema_up s sema = ret s'"
    using s1(1) c(1) assms(3) m unfolding r_def ws_def by (simp add: sema_up_def Let_def cong: if_cong)
  ultimately show ?thesis using c s1(9) by blast
qed

section \<open>Lock operations\<close>

text \<open>A step that wakes nobody and puts nobody to sleep: it may change priorities and the order of waiters.\<close>

definition sema_sig :: "semaphore \<Rightarrow> u32 \<times> ptr multiset" where
  "sema_sig m = (sema_value m, mset (waiters m))"

definition quiet :: "kstate \<Rightarrow> kstate \<Rightarrow> bool" where
  "quiet s s' \<longleftrightarrow> same_sched s s' \<and> conds s' = conds s \<and> (\<forall>l. map_option sema_sig (semas s' l) = map_option sema_sig (semas s l))"

lemma quiet_refl [simp]: "quiet s s"
  by (simp add: quiet_def)

lemma quiet_trans: "quiet s s' \<Longrightarrow> quiet s' s'' \<Longrightarrow> quiet s s''"
  unfolding quiet_def using same_sched_trans [of s s' s''] by simp

lemma quiet_upd_thread:
  assumes "\<And>t. status (f t) = status t \<and> t_magic (f t) = t_magic t"
  shows "quiet s (upd_thread s p f)"
  using same_sched_upd [of f s p] assms by (simp add: quiet_def)

lemma quiet_sort_waiters: "quiet s (upd_sema s l (\<lambda>m. m\<lparr>waiters := sort_by (compare_priority s') (waiters m)\<rparr>))"
proof -
  have "map_option sema_sig (semas (upd_sema s l (\<lambda>m. m\<lparr>waiters := sort_by (compare_priority s') (waiters m)\<rparr>)) k) = map_option sema_sig (semas s k)" for k
    by (cases "semas s k") (auto simp: pri.sort_by_ok(2) sema_sig_def)
  then show ?thesis by (simp add: quiet_def same_sched_def)
qed

lemma quiet_sema:
  assumes "quiet s s'" and "semas s' l = Some m'"
  obtains m where "semas s l = Some m" "sema_value m' = sema_value m" "mset (waiters m') = mset (waiters m)"
proof -
  have "map_option sema_sig (semas s' l) = map_option sema_sig (semas s l)" using assms(1) by (simp add: quiet_def)
  then show thesis using that assms(2) by (cases "semas s l") (auto simp: sema_sig_def)
qed

lemma quiet_sched:
  assumes "quiet s s'"
  shows "sched_wf s \<Longrightarrow> sched_wf s'" "current s' = current s" "idle_thread s' = idle_thread s" "in_intr s' = in_intr s"
    "runnable s' p = runnable s p"
  using assms same_sched_wf [of s s'] unfolding quiet_def runnable_def by (auto simp: same_sched_def)

lemma quiet_waiting:
  assumes q: "quiet s s'" and ww: "waiting_wf s"
  shows "waiting_wf s'"
proof (rule waiting_wf_mono [OF ww])
  show "idle_thread s' = idle_thread s" using q by (rule quiet_sched)
next
  fix l m' assume m': "semas s' l = Some m'"
  obtain m where "semas s l = Some m" "mset (waiters m') = mset (waiters m)" by (rule quiet_sema [OF q m'])
  moreover from this have "distinct (waiters m)" using ww unfolding waiting_wf_def by blast
  ultimately show "\<exists>m. semas s l = Some m \<and> distinct (waiters m') \<and> set (waiters m') \<subseteq> set (waiters m)"
    by (metis mset_eq_imp_distinct_iff mset_eq_setD order_refl)
  fix p assume "p \<in> set (waiters m')"
  then have "p \<in> set (waiters m)" using \<open>mset (waiters m') = mset (waiters m)\<close> by (metis mset_eq_setD)
  then obtain t where "threads s p = Some t" "status t = THREAD_BLOCKED" using waiting_wf_sleeper [OF ww \<open>semas s l = Some m\<close>] by metis
  moreover have "same_sched s s'" using q by (simp add: quiet_def)
  ultimately show "\<exists>t. threads s' p = Some t \<and> status t = THREAD_BLOCKED" using same_sched_thread(2) by fastforce
qed

text \<open>One round of the donation loop: what the holder of \<open>l\<close> receives.\<close>

definition donate_to :: "kstate \<Rightarrow> ptr \<Rightarrow> ptr \<Rightarrow> int \<Rightarrow> ptr \<Rightarrow> kstate" where
  "donate_to s cur l p holder =
     upd_thread s holder (\<lambda>t. t\<lparr>priority := max p (priority t),
       donations := insert_by compare_priority_for_donate \<lparr>d_priority = p, donor = cur, d_lock = l\<rparr> (donations t)\<rparr>)"

definition resort :: "kstate \<Rightarrow> ptr \<Rightarrow> kstate" where
  "resort s l = (if l = NULL then s else upd_sema s l (\<lambda>m. m\<lparr>waiters := sort_by (compare_priority s) (waiters m)\<rparr>))"

lemma donate_round_eq:
  assumes "sched_wf s" and "holders s l \<noteq> NULL" and "threads s (holders s l) = Some h"
  shows "donate_round mem s cur l =
    (if prio s (current s) < priority h then ret None
     else if \<not> mem \<or> pending_lock h \<noteq> NULL \<and> semas s (pending_lock h) = None then fail Null_deref
     else ret (Some (pending_lock h, resort (donate_to s cur l (prio s (current s)) (holders s l)) (pending_lock h))))"
proof -
  obtain c where c: "threads s (current s) = Some c" "thread_get_priority s = ret (prio s (current s))"
    using assms(1) by (auto simp: sched_wf_def thread_get_priority_def the_thread_def prio_def)
  let ?p = "prio s (current s)" and ?ho = "holders s l"
  let ?d = "\<lambda>t. t\<lparr>donations := insert_by compare_priority_for_donate \<lparr>d_priority = ?p, donor = cur, d_lock = l\<rparr> (donations t)\<rparr>"
  have eq: "upd_thread (if priority h < ?p then upd_thread s ?ho (\<lambda>t. t\<lparr>priority := ?p\<rparr>) else s) ?ho ?d = donate_to s cur l ?p ?ho"
    if "\<not> ?p < priority h" using assms(3) that by (cases h) (auto simp: donate_to_def upd_thread_def max_def)
  show ?thesis
    using assms by (auto simp: donate_round_def c(2) the_thread_def create_donation_def eq Let_def resort_def the_sema_def donate_to_def
        split: option.splits)
qed

lemma quiet_donate_to: "quiet s (donate_to s cur l p h)"
  unfolding donate_to_def by (rule quiet_upd_thread) simp

lemma quiet_resort: "quiet s (resort s l)"
  using quiet_sort_waiters by (simp add: resort_def)

lemma donate_to_simps [simp]:
  "holders (donate_to s cur l p h) = holders s" "current (donate_to s cur l p h) = current s" "semas (donate_to s cur l p h) = semas s"
  "threads (resort s l) = threads s" "holders (resort s l) = holders s" "current (resort s l) = current s"
  by (simp_all add: donate_to_def resort_def)

lemma resort_None [simp]: "semas (resort s l) k = None \<longleftrightarrow> semas s k = None"
  by (simp add: resort_def)

lemma donate_round_quiet:
  assumes "donate_round mem s cur l = ret (Some (l', s'))" and "sched_wf s"
  shows "quiet s s' \<and> holders s' = holders s"
proof -
  from assms(1) obtain h where h: "holders s l \<noteq> NULL" "threads s (holders s l) = Some h"
    by (auto simp: donate_round_def Let_def the_thread_def split: if_splits option.splits)
  have "quiet s (resort (donate_to s cur l p k) j)" for p k j using quiet_donate_to quiet_resort quiet_trans by blast
  then show ?thesis using assms(1) unfolding donate_round_eq [OF assms(2) h] by (auto split: if_splits)
qed

lemma donate_loop_quiet:
  assumes "donate_loop mem s cur l = ret s'" and "sched_wf s"
  shows "quiet s s' \<and> holders s' = holders s"
proof -
  have "\<forall>s'. z = Inr s' \<and> sched_wf s \<longrightarrow> quiet s s' \<and> holders s' = holders s" if "donate_loop mem s cur l = Some z" for s cur l z
    using that
  proof (rule donate_loop.raw_induct [rotated])
    fix f :: "bool \<Rightarrow> kstate \<Rightarrow> ptr \<Rightarrow> ptr \<Rightarrow> kstate exec" and mem s cur l z
    assume IH: "\<And>mem s cur l z. f mem s cur l = Some z \<Longrightarrow> \<forall>s'. z = Inr s' \<and> sched_wf s \<longrightarrow> quiet s s' \<and> holders s' = holders s"
    assume eq: "(if l = NULL then ret s else bindE (donate_round mem s cur l) (\<lambda>r.
        case r of None \<Rightarrow> ret s | Some (pending, s) \<Rightarrow> f mem s cur pending)) = Some z"
    show "\<forall>s'. z = Inr s' \<and> sched_wf s \<longrightarrow> quiet s s' \<and> holders s' = holders s"
    proof (intro allI impI)
      fix s' assume z: "z = Inr s' \<and> sched_wf s"
      from eq z consider "s' = s" | l1 s1 where "donate_round mem s cur l = ret (Some (l1, s1))" "f mem s1 cur l1 = ret s'"
        by (auto split: if_splits option.splits)
      then show "quiet s s' \<and> holders s' = holders s"
      proof cases
        case 2
        with donate_round_quiet z have q: "quiet s s1" "holders s1 = holders s" by blast+
        with IH [OF 2(2)] z quiet_sched(1) [OF q(1)] show ?thesis using quiet_trans by auto
      qed simp
    qed
  qed
  then show ?thesis using assms by blast
qed
text \<open>The threads that hold the locks from \<open>l\<close> on: the holder of \<open>l\<close>, the holder of the lock it waits for, and so on.\<close>

fun lock_chain :: "kstate \<Rightarrow> ptr \<Rightarrow> ptr list \<Rightarrow> bool" where
  "lock_chain s l [] \<longleftrightarrow> l = NULL \<or> holders s l = NULL"
| "lock_chain s l (h # hs) \<longleftrightarrow> l \<noteq> NULL \<and> h \<noteq> NULL \<and> holders s l = h \<and>
     (case threads s h of None \<Rightarrow> False
      | Some t \<Rightarrow> (pending_lock t \<noteq> NULL \<longrightarrow> semas s (pending_lock t) \<noteq> None) \<and> lock_chain s (pending_lock t) hs)"

definition waits_for :: "kstate \<Rightarrow> ptr \<Rightarrow> ptr option" where
  "waits_for s p = map_option pending_lock (threads s p)"

lemma lock_chain_cong:
  assumes "holders s' = holders s" and "\<And>p. waits_for s' p = waits_for s p" and "\<And>l. semas s' l = None \<longleftrightarrow> semas s l = None"
  shows "lock_chain s' l hs = lock_chain s l hs"
proof (induction hs arbitrary: l)
  case (Cons h hs)
  have "map_option pending_lock (threads s' h) = map_option pending_lock (threads s h)" using assms(2) by (simp add: waits_for_def)
  then show ?case using Cons assms(1,3) by (cases "threads s' h"; cases "threads s h") auto
qed (simp add: assms(1))

lemma waits_for_donate [simp]: "waits_for (donate_to s cur l p h) q = waits_for s q" "waits_for (resort s l) q = waits_for s q"
  by (simp_all add: waits_for_def donate_to_def option.map_comp comp_def)

lemma prio_donate [simp]:
  "prio (resort s l) = prio s" "threads s h \<noteq> None \<Longrightarrow> prio (donate_to s cur l p h) = (prio s)(h := max p (prio s h))"
  by (auto simp: prio_def fun_eq_iff donate_to_def)

text \<open>
  The donation loop returns when the chain of holders is finite: the holders up to the first of a
  higher priority get the priority of the running thread, and all other priorities are unchanged.
\<close>

lemma donate_loop_ok:
  assumes "sched_wf s" and "lock_chain s l hs" and "distinct (current s # hs)"
  shows "\<exists>s'. donate_loop True s cur l = ret s' \<and>
    (\<forall>p. prio s' p = (if p \<in> set (takeWhile (\<lambda>h. prio s h \<le> prio s (current s)) hs) then prio s (current s) else prio s p))"
  using assms
proof (induction hs arbitrary: s l)
  case Nil
  then show ?case by (subst donate_loop.simps) (auto simp: donate_round_def)
next
  case (Cons h hs)
  from Cons.prems(2) obtain t where t: "l \<noteq> NULL" "h \<noteq> NULL" "holders s l = h" "threads s h = Some t"
    "pending_lock t \<noteq> NULL \<longrightarrow> semas s (pending_lock t) \<noteq> None" "lock_chain s (pending_lock t) hs" by (auto split: option.splits)
  have pt: "priority t = prio s h" using t(4) by (simp add: prio_def)
  let ?p = "prio s (current s)"
  let ?s = "resort (donate_to s cur l ?p h) (pending_lock t)"
  note round = donate_round_eq [OF Cons.prems(1), of l t True cur] t
  show ?case
  proof (cases "?p < prio s h")
    case True
    then have "donate_loop True s cur l = ret s" using round pt by (subst donate_loop.simps) simp
    then show ?thesis using True by simp
  next
    case False
    have q: "quiet s ?s" using quiet_donate_to quiet_resort quiet_trans by blast
    have ch: "lock_chain ?s (pending_lock t) hs"
      using t(6) by (subst lock_chain_cong [of _ s]) simp_all
    have cur: "current ?s = current s" by simp
    have pr: "prio ?s = (prio s)(h := max ?p (prio s h))" using t(4) by simp
    have pc: "prio ?s (current ?s) = ?p" using Cons.prems(3) t(4) by simp
    have tw: "takeWhile (\<lambda>h. prio ?s h \<le> ?p) hs = takeWhile (\<lambda>h. prio s h \<le> ?p) hs"
      using Cons.prems(3) t(4) by (intro takeWhile_cong) auto
    from Cons.IH [OF quiet_sched(1) [OF q Cons.prems(1)] ch] Cons.prems(3) obtain s' where
      s': "donate_loop True ?s cur (pending_lock t) = ret s'"
        "\<forall>p. prio s' p = (if p \<in> set (takeWhile (\<lambda>h. prio s h \<le> ?p) hs) then ?p else prio ?s p)"
      unfolding cur pc [unfolded cur] tw by auto
    have "donate_loop True s cur l = ret s'" using round False pt s'(1) by (subst donate_loop.simps) auto
    then show ?thesis using s'(2) [unfolded pr] False by (auto simp: max_def)
  qed
qed

lemma lock_acquire_begin_quiet:
  assumes "lock_acquire_begin mem s l = ret s'" and "sched_wf s"
  shows "quiet s s' \<and> holders s' = holders s \<and> holders s l \<noteq> current s"
proof (cases "holders s l = NULL")
  case True
  then show ?thesis using assms by (auto simp: lock_acquire_begin_def lock_held_by_current_thread_def split: if_splits)
next
  case False
  let ?s = "upd_thread s (current s) (\<lambda>t. t\<lparr>pending_lock := l\<rparr>)"
  have q: "quiet s ?s" by (rule quiet_upd_thread) simp
  from False assms have d: "donate_loop mem ?s (current s) l = ret s'" "holders s l \<noteq> current s"
    by (auto simp: lock_acquire_begin_def lock_held_by_current_thread_def split: if_splits)
  from donate_loop_quiet [OF d(1) quiet_sched(1) [OF q assms(2)]] d(2) q quiet_trans show ?thesis by auto
qed

lemma lock_acquire_end_quiet:
  assumes "lock_acquire_end s l = ret s'" and "sched_wf s"
  shows "quiet s s' \<and> holders s' = (holders s)(l := current s)"
proof -
  let ?s = "upd_thread s (current s) (\<lambda>t. t\<lparr>pending_lock := NULL\<rparr>)"
  have "quiet s ?s" by (rule quiet_upd_thread) simp
  moreover have "s' = ?s\<lparr>holders := (holders s)(l := current s)\<rparr>" using assms by (auto simp: lock_acquire_end_def)
  ultimately show ?thesis by (simp add: quiet_def same_sched_def)
qed

interpretation don: list_less compare_priority_for_donate
  by unfold_locales (auto simp: compare_priority_for_donate_def)

text \<open>The priority a thread keeps when it gives a lock back.\<close>

definition effective :: "int \<Rightarrow> donation list \<Rightarrow> int" where
  "effective p ds = Max (insert p (d_priority ` set ds))"

lemma hd_sort_donations:
  assumes "ds \<noteq> []"
  shows "d_priority (hd (sort_by compare_priority_for_donate ds)) = Max (d_priority ` set ds)"
proof -
  obtain e es where e: "sort_by compare_priority_for_donate ds = e # es"
    using assms don.set_sort_by [of ds] by (cases "sort_by compare_priority_for_donate ds") (auto simp del: don.set_sort_by)
  then have "set ds = set (e # es)" using don.set_sort_by [of ds] by simp
  moreover have "\<forall>y \<in> set es. d_priority y \<le> d_priority e"
    using don.sort_by_ok(1) [of ds] unfolding e don.ordered_Cons by (auto simp: compare_priority_for_donate_def not_less)
  ultimately show ?thesis using e by (simp, intro Max_eqI [symmetric]) auto
qed

lemma effective_Cons: "ds \<noteq> [] \<Longrightarrow> effective p ds = max p (Max (d_priority ` set ds))"
  by (simp add: effective_def)

text \<open>Giving a lock back takes its donations away and leaves the highest of the others or the thread's own priority.\<close>

lemma lock_release_begin_ok:
  assumes wf: "sched_wf s" and "l \<noteq> NULL" and h: "holders s l = current s" and t: "threads s (current s) = Some t"
  defines "ds \<equiv> filter (\<lambda>d. d_lock d \<noteq> l) (donations t)"
  shows "\<exists>s' ds'. lock_release_begin s l = ret s' \<and> quiet s s' \<and> holders s' = (holders s)(l := NULL) \<and> mset ds' = mset ds \<and>
    threads s' = (threads s)(current s \<mapsto> t\<lparr>donations := ds', priority := effective (original_priority t) ds\<rparr>)"
proof -
  define ds' where "ds' = sort_by compare_priority_for_donate ds"
  define t' where "t' = t\<lparr>donations := ds', priority := effective (original_priority t) ds\<rparr>"
  define s' where "s' = s\<lparr>threads := (threads s)(current s \<mapsto> t'), holders := (holders s)(l := NULL)\<rparr>"
  have n: "current s \<noteq> NULL" using wf t by (auto simp: sched_wf_def base_wf_def)
  have cur: "thread_current (upd_thread s (current s) f) = ret (current s)" if "\<And>t. status (f t) = status t \<and> t_magic (f t) = t_magic t" for f
    using sched_wf_current [OF quiet_sched(1) [OF quiet_upd_thread wf]] that by simp
  have c1: "thread_current (s\<lparr>threads := (threads s)(current s \<mapsto> t\<lparr>donations := x\<rparr>)\<rparr>) = ret (current s)" for x
    using cur [of "\<lambda>t. t\<lparr>donations := x\<rparr>"] t by (simp add: upd_thread_def)
  have e: "effective (original_priority t) [] = original_priority t" by (simp add: effective_def)
  have "lock_release_begin s l = ret s'"
  proof (cases "ds = []")
    case True
    then show ?thesis using assms(2) h wf t n c1 e
      by (simp add: lock_release_begin_def lock_held_by_current_thread_def remove_donation_for_lock_def recalc_priority_def Let_def
          upd_thread_def the_thread_def s'_def t'_def ds'_def ds_def sort_by_def)
  next
    case False
    then have hd: "d_priority (hd ds') = Max (d_priority ` set ds)" "effective (original_priority t) ds =
        (if original_priority t < Max (d_priority ` set ds) then Max (d_priority ` set ds) else original_priority t)"
      using hd_sort_donations effective_Cons by (auto simp: ds'_def max_def)
    show ?thesis using assms(2) h wf t n c1 False hd
      by (simp add: lock_release_begin_def lock_held_by_current_thread_def remove_donation_for_lock_def recalc_priority_def Let_def
          upd_thread_def the_thread_def s'_def t'_def ds'_def [symmetric] ds_def [symmetric])
  qed
  moreover have "quiet s s'"
  proof -
    have "quiet s (upd_thread s (current s) (\<lambda>t. t\<lparr>donations := ds', priority := effective (original_priority t') ds\<rparr>))"
      by (rule quiet_upd_thread) simp
    then show ?thesis using t by (simp add: s'_def t'_def quiet_def same_sched_def upd_thread_def)
  qed
  moreover have "mset ds' = mset ds" by (simp add: ds'_def don.sort_by_ok(2))
  ultimately show ?thesis by (intro exI [of _ s'] exI [of _ ds']) (simp add: s'_def t'_def)
qed

section \<open>Threads that use locks\<close>

text \<open>
  What a thread is doing with a lock: nothing, waiting for it (from the donation to the end of
  \<open>sema_down\<close>), past \<open>sema_down\<close> but not yet the holder, or no longer the holder but not yet past
  \<open>sema_up\<close>. The steps are the sections that run with interrupts off, in any interleaving, and
  switches of threads.
\<close>

datatype activity = Free | Want ptr | Got ptr | Leaving ptr

type_synonym lstate = "kstate \<times> (ptr \<Rightarrow> activity)"

inductive lock_step :: "ptr set \<Rightarrow> bool \<Rightarrow> lstate \<Rightarrow> lstate \<Rightarrow> bool" for L mem where
  ask: "pc (current s) = Free \<Longrightarrow> current s \<noteq> idle_thread s \<Longrightarrow> l \<in> L \<Longrightarrow> lock_acquire_begin mem s l = ret s' \<Longrightarrow>
    lock_step L mem (s, pc) (s', pc(current s := Want l))"
| take: "pc (current s) = Want l \<Longrightarrow> sema_down s l = ret (True, s') \<Longrightarrow> lock_step L mem (s, pc) (s', pc(current s := Got l))"
| sleep: "pc (current s) = Want l \<Longrightarrow> sema_down s l = ret (False, s') \<Longrightarrow> lock_step L mem (s, pc) (s', pc)"
| enter: "pc (current s) = Got l \<Longrightarrow> lock_acquire_end s l = ret s' \<Longrightarrow> lock_step L mem (s, pc) (s', pc(current s := Free))"
| give: "pc (current s) = Free \<Longrightarrow> current s \<noteq> idle_thread s \<Longrightarrow> l \<in> L \<Longrightarrow> lock_release_begin s l = ret s' \<Longrightarrow> lock_step L mem (s, pc) (s', pc(current s := Leaving l))"
| leave: "pc (current s) = Leaving l \<Longrightarrow> sema_up s l = ret s' \<Longrightarrow> lock_step L mem (s, pc) (s', pc(current s := Free))"
| yield: "thread_yield s = ret s' \<Longrightarrow> lock_step L mem (s, pc) (s', pc)"
| preempt: "compare_cur_next_priority s = ret s' \<Longrightarrow> lock_step L mem (s, pc) (s', pc)"

definition owns :: "lstate \<Rightarrow> ptr \<Rightarrow> ptr \<Rightarrow> bool" where
  "owns c l t \<longleftrightarrow> t \<noteq> NULL \<and> (holders (fst c) l = t \<or> snd c t = Got l \<or> snd c t = Leaving l)"

text \<open>
  A lock has one owner and value 0, or no owner and value 1; its waiters are asking for it; and
  while it is free and threads wait for it, one that asks for it can run: no wake-up is lost.
\<close>

definition lock_ok :: "lstate \<Rightarrow> ptr \<Rightarrow> bool" where
  "lock_ok c l \<longleftrightarrow> l \<noteq> NULL \<and> (\<exists>m. semas (fst c) l = Some m \<and>
     ((sema_value m = 0 \<and> (\<exists>!t. owns c l t)) \<or>
      (sema_value m = 1 \<and> (\<forall>t. \<not> owns c l t) \<and>
       (waiters m \<noteq> [] \<longrightarrow> (\<exists>t. snd c t = Want l \<and> t \<noteq> idle_thread (fst c) \<and> runnable (fst c) t)))) \<and>
     (\<forall>p \<in> set (waiters m). snd c p = Want l)) \<and>
     (\<forall>t. snd c t = Got l \<or> snd c t = Leaving l \<longrightarrow> holders (fst c) l = NULL)"

definition locks_inv :: "ptr set \<Rightarrow> lstate \<Rightarrow> bool" where
  "locks_inv L c \<longleftrightarrow> sched_wf (fst c) \<and> waiting_wf (fst c) \<and> \<not> in_intr (fst c) \<and> (\<forall>l \<in> L. lock_ok c l) \<and>
     snd c (idle_thread (fst c)) = Free \<and> (\<forall>p l. snd c p = Want l \<or> snd c p = Got l \<or> snd c p = Leaving l \<longrightarrow> l \<in> L \<and> p \<noteq> NULL)"

lemma lock_ok_frame:
  assumes ok: "lock_ok (s, pc) l" and m: "semas s l = Some m" "semas s' l = Some m'" "sema_value m' = sema_value m" "set (waiters m') = set (waiters m)"
    and h: "holders s' l = holders s l" and pc: "\<And>t. pc' t \<noteq> pc t \<Longrightarrow> pc t \<noteq> Got l \<and> pc t \<noteq> Leaving l \<and> pc' t \<noteq> Got l \<and> pc' t \<noteq> Leaving l \<and> pc t \<noteq> Want l"
    and r: "\<And>t. pc t = Want l \<Longrightarrow> t \<noteq> idle_thread s \<Longrightarrow> runnable s t \<Longrightarrow> t \<noteq> idle_thread s' \<and> runnable s' t"
  shows "lock_ok (s', pc') l"
proof -
  have g: "pc' t = x \<longleftrightarrow> pc t = x" if "x = Got l \<or> x = Leaving l" for t x using pc [of t] that by (cases "pc' t = pc t") auto
  have w: "pc t = Want l \<Longrightarrow> pc' t = Want l" for t using pc [of t] by (cases "pc' t = pc t") auto
  have o: "owns (s', pc') l t = owns (s, pc) l t" for t using g h by (simp add: owns_def)
  have e: "waiters m' = [] \<longleftrightarrow> waiters m = []" using m(4) by (metis set_empty)
  have "\<forall>t. pc' t = Got l \<or> pc' t = Leaving l \<longrightarrow> holders s' l = NULL" using ok g h by (simp add: lock_ok_def)
  moreover have "\<forall>p \<in> set (waiters m'). pc' p = Want l" using ok m w by (auto simp: lock_ok_def)
  moreover have "sema_value m' = 0 \<and> (\<exists>!t. owns (s', pc') l t) \<or> sema_value m' = 1 \<and> (\<forall>t. \<not> owns (s', pc') l t) \<and>
      (waiters m' \<noteq> [] \<longrightarrow> (\<exists>t. pc' t = Want l \<and> t \<noteq> idle_thread s' \<and> runnable s' t))"
    using ok m o e w r unfolding lock_ok_def by fastforce
  moreover have "l \<noteq> NULL" using ok by (simp add: lock_ok_def)
  ultimately show ?thesis unfolding lock_ok_def using m(2) by simp
qed

lemma locks_inv_sema:
  assumes "locks_inv L (s, pc)" and "l \<in> L"
  obtains m where "semas s l = Some m" "l \<noteq> NULL" "lock_ok (s, pc) l"
proof -
  have "lock_ok (s, pc) l" using assms by (simp add: locks_inv_def)
  moreover from this obtain m where "semas s l = Some m" "l \<noteq> NULL" unfolding lock_ok_def fst_conv by blast
  ultimately show thesis using that by blast
qed

text \<open>A quiet step of the running thread on \<open>l\<close> keeps every other lock.\<close>

lemma lock_ok_quiet:
  assumes inv: "locks_inv L (s, pc)" and q: "quiet s s'" and k: "k \<in> L" "k \<noteq> l" and h: "holders s' k = holders s k"
    and a: "pc (current s) \<in> {Free, Got l}" "a \<in> {Free, Want l, Leaving l}"
  shows "lock_ok (s', pc(current s := a)) k"
proof -
  obtain m where m: "semas s k = Some m" "lock_ok (s, pc) k" by (rule locks_inv_sema [OF inv k(1)])
  then obtain m' where m': "semas s' k = Some m'" using q by (metis (no_types, lifting) quiet_def map_option_eq_Some)
  obtain n where "semas s k = Some n" "sema_value m' = sema_value n" "mset (waiters m') = mset (waiters n)" by (rule quiet_sema [OF q m'])
  then have mm: "sema_value m' = sema_value m" "set (waiters m') = set (waiters m)" using m(1) by (auto dest: mset_eq_setD)
  show ?thesis
    by (rule lock_ok_frame [OF m(2,1) m' mm h]) (use a k quiet_sched(3,5) [OF q] in \<open>auto split: if_splits\<close>)
qed

lemma locks_invD:
  assumes "locks_inv L (s, pc)"
  shows "sched_wf s" "waiting_wf s" "\<not> in_intr s" "pc (idle_thread s) = Free" "current s \<noteq> NULL"
    "pc p = Want l \<or> pc p = Got l \<or> pc p = Leaving l \<Longrightarrow> l \<in> L" "pc p = Want l \<or> pc p = Got l \<or> pc p = Leaving l \<Longrightarrow> p \<noteq> NULL" "pc (current s) \<noteq> Free \<Longrightarrow> current s \<noteq> idle_thread s"
  using assms unfolding locks_inv_def by (auto simp: sched_wf_def base_wf_def)

lemma locks_invI:
  assumes "locks_inv L (s, pc)" and "sched_wf s'" "waiting_wf s'" "\<not> in_intr s'" "idle_thread s' = idle_thread s"
    and "current s \<noteq> idle_thread s \<or> a = Free" and "a \<in> {Free, pc (current s)} \<or> a \<in> Want ` L \<union> Got ` L \<union> Leaving ` L"
    and "\<And>l. l \<in> L \<Longrightarrow> lock_ok (s', pc(current s := a)) l"
  shows "locks_inv L (s', pc(current s := a))"
  using assms(2-8) locks_invD(4,5) [OF assms(1)] assms(1) unfolding locks_inv_def by (auto split: if_splits)

lemma lock_ok_owner:
  assumes "lock_ok (s, pc) l" and "semas s l = Some m" and "owns (s, pc) l t"
  shows "sema_value m = 0" "owns (s, pc) l t' \<Longrightarrow> t' = t"
  using assms unfolding lock_ok_def by auto

text \<open>The running thread changes hands with \<open>l\<close> in a quiet step: it owned the lock and still does.\<close>

lemma lock_ok_pass:
  assumes inv: "locks_inv L (s, pc)" and q: "quiet s s'" and l: "l \<in> L" and o: "owns (s, pc) l (current s)"
    and h: "holders s' = (holders s)(l := v)" and a: "v = current s \<and> a = Free \<or> v = NULL \<and> a = Leaving l"
    and w: "pc (current s) \<noteq> Want l"
  shows "lock_ok (s', pc(current s := a)) l"
proof -
  obtain m where m: "semas s l = Some m" "l \<noteq> NULL" "lock_ok (s, pc) l" by (rule locks_inv_sema [OF inv l])
  then obtain m' where m': "semas s' l = Some m'" using q by (metis (no_types, lifting) quiet_def map_option_eq_Some)
  obtain n where "semas s l = Some n" "sema_value m' = sema_value n" "mset (waiters m') = mset (waiters n)" by (rule quiet_sema [OF q m'])
  then have mm: "sema_value m' = 0" "set (waiters m') = set (waiters m)" using m(1) lock_ok_owner(1) [OF m(3,1) o] by (auto dest: mset_eq_setD)
  have one: "t = current s" if "owns (s, pc) l t" for t using lock_ok_owner(2) [OF m(3,1) o that] .
  have nn: "current s \<noteq> NULL" by (rule locks_invD(5) [OF inv])
  have "owns (s', pc(current s := a)) l t \<longleftrightarrow> t = current s" for t
  proof (cases "t = current s")
    case False
    then have "\<not> owns (s, pc) l t" using one by blast
    then show ?thesis using False nn h a by (auto simp: owns_def)
  qed (use nn h a in \<open>auto simp: owns_def\<close>)
  then have "\<exists>!t. owns (s', pc(current s := a)) l t" by simp
  moreover have "\<forall>p \<in> set (waiters m'). (pc(current s := a)) p = Want l"
  proof -
    have "\<forall>p \<in> set (waiters m). pc p = Want l" using m(1,3) unfolding lock_ok_def by simp
    then show ?thesis using mm(2) waiting_wf_not_current [OF locks_invD(2,1) [OF inv] m(1)] by auto
  qed
  moreover have "holders s' l = NULL" if "(pc(current s := a)) t = Got l \<or> (pc(current s := a)) t = Leaving l" for t
  proof (cases "t = current s")
    case False
    then have "owns (s, pc) l t" using that locks_invD(7) [OF inv, of t l] by (auto simp: owns_def)
    then show ?thesis using one False by blast
  qed (use that a h in auto)
  ultimately show ?thesis unfolding lock_ok_def using m(2) m' mm(1) by auto
qed

section \<open>Every step keeps the locks\<close>

lemma quiet_inv:
  assumes inv: "locks_inv L (s, pc)" and q: "quiet s s'"
  shows "sched_wf s'" "waiting_wf s'" "\<not> in_intr s'" "idle_thread s' = idle_thread s"
  using locks_invD(1-3) [OF inv] quiet_sched [OF q] quiet_waiting [OF q] by auto

lemma step_ask:
  assumes inv: "locks_inv L (s, pc)" and f: "pc (current s) = Free" and ni: "current s \<noteq> idle_thread s" and l: "l \<in> L" and r: "lock_acquire_begin mem s l = ret s'"
  shows "locks_inv L (s', pc(current s := Want l))"
proof -
  from lock_acquire_begin_quiet [OF r locks_invD(1) [OF inv]] have q: "quiet s s'" "holders s' = holders s" by blast+
  show ?thesis
  proof (rule locks_invI [OF inv quiet_inv [OF inv q(1)]])
    fix k assume k: "k \<in> L"
    obtain m where m: "semas s k = Some m" "lock_ok (s, pc) k" by (rule locks_inv_sema [OF inv k])
    then obtain m' where m': "semas s' k = Some m'" using q(1) by (metis (no_types, lifting) quiet_def map_option_eq_Some)
    obtain n where "semas s k = Some n" "sema_value m' = sema_value n" "mset (waiters m') = mset (waiters n)" by (rule quiet_sema [OF q(1) m'])
    then have mm: "sema_value m' = sema_value m" "set (waiters m') = set (waiters m)" using m(1) by (auto dest: mset_eq_setD)
    show "lock_ok (s', pc(current s := Want l)) k"
      by (rule lock_ok_frame [OF m(2,1) m' mm]) (use f q(2) quiet_sched(3,5) [OF q(1)] in \<open>auto split: if_splits\<close>)
  qed (use f ni l in auto)
qed

lemma step_take:
  assumes inv: "locks_inv L (s, pc)" and w: "pc (current s) = Want l" and r: "sema_down s l = ret (True, s')"
  shows "locks_inv L (s', pc(current s := Got l))"
proof -
  have l: "l \<in> L" using locks_invD(6) [OF inv] w by blast
  obtain m where m: "semas s l = Some m" "l \<noteq> NULL" "lock_ok (s, pc) l" by (rule locks_inv_sema [OF inv l])
  from r m(1) have v: "sema_value m \<noteq> 0" and s': "s' = upd_sema s l (\<lambda>m. m\<lparr>sema_value := sema_value m - 1\<rparr>)"
    by (auto simp: sema_down_def split: if_splits)
  have v1: "sema_value m = 1" "\<And>t. \<not> owns (s, pc) l t" using m v unfolding lock_ok_def by auto
  have wf: "sched_wf s'" using locks_invD(1) [OF inv] sched_wf_cong [of s' s] by (simp add: s')
  have ww: "waiting_wf s'"
    by (rule waiting_wf_mono [OF locks_invD(2) [OF inv]]) (use locks_invD(2) [OF inv] in \<open>auto simp: s' waiting_wf_def split: if_splits option.splits\<close>)
  show ?thesis
  proof (rule locks_invI [OF inv wf ww])
    fix k assume k: "k \<in> L"
    show "lock_ok (s', pc(current s := Got l)) k"
    proof (cases "k = l")
      case True
      have o: "owns (s', pc(current s := Got l)) l t \<longleftrightarrow> t = current s" for t
        using v1(2) [of t] locks_invD(5) [OF inv] v1(2) [of "current s"] by (auto simp: owns_def s')
      have "holders s l = NULL" using v1(2) [of "holders s l"] by (simp add: owns_def)
      moreover have "\<forall>p \<in> set (waiters m). (pc(current s := Got l)) p = Want l"
        using m(1,3) waiting_wf_not_current [OF locks_invD(2,1) [OF inv] m(1)] unfolding lock_ok_def by auto
      ultimately show ?thesis using True m(1,2) v1(1) o unfolding lock_ok_def by (auto simp: s')
    next
      case False
      obtain n where n: "semas s k = Some n" "lock_ok (s, pc) k" by (rule locks_inv_sema [OF inv k])
      show ?thesis
        by (rule lock_ok_frame [OF n(2,1)]) (use False n w in \<open>auto simp: s' runnable_def split: if_splits\<close>)
    qed
  qed (use l w locks_invD [OF inv] in \<open>auto simp: s'\<close>)
qed

lemma step_sleep:
  assumes inv: "locks_inv L (s, pc)" and w: "pc (current s) = Want l" and r: "sema_down s l = ret (False, s')"
  shows "locks_inv L (s', pc)"
proof -
  have l: "l \<in> L" using locks_invD(6) [OF inv] w by blast
  obtain m where m: "semas s l = Some m" "l \<noteq> NULL" "lock_ok (s, pc) l" by (rule locks_inv_sema [OF inv l])
  from r m(1) have v: "sema_value m = 0" by (auto simp: sema_down_def split: if_splits)
  have ni: "current s \<noteq> idle_thread s" using locks_invD(8) [OF inv] w by simp
  from sema_down_sleeps [OF locks_invD(1,2) [OF inv] m(2) locks_invD(3) [OF inv] m(1) v ni] r have
    d: "sched_wf s'" "waiting_wf s'" "current s' = chosen s" "holders s' = holders s" "idle_thread s' = idle_thread s" "\<not> in_intr s'"
      "semas s' = (semas s)(l \<mapsto> m\<lparr>waiters := insert_by (compare_priority s) (current s) (waiters m)\<rparr>)" "ready_list s' = tl (ready_list s)"
    using locks_invD(3) [OF inv] by auto
  have rn: "runnable s' t" if "runnable s t" "t \<noteq> current s" for t
    using that d(3,8) by (cases "ready_list s") (auto simp: runnable_def chosen_def)
  have "locks_inv L (s', pc(current s := pc (current s)))"
  proof (rule locks_invI [OF inv d(1,2,6,5)])
    fix k assume k: "k \<in> L"
    show "lock_ok (s', pc(current s := pc (current s))) k"
    proof (cases "k = l")
      case True
      have "owns (s', pc) l t = owns (s, pc) l t" for t by (simp add: owns_def d(4))
      then have "\<exists>!t. owns (s', pc) l t" using m v unfolding lock_ok_def by auto
      moreover have "\<forall>t. pc t = Got l \<or> pc t = Leaving l \<longrightarrow> holders s' l = NULL" "\<forall>p \<in> set (waiters m). pc p = Want l"
        using m(1,3) by (auto simp: lock_ok_def d(4))
      ultimately show ?thesis using True m(2) v w unfolding lock_ok_def fun_upd_triv by (simp add: d(7) pri.set_insert_by)
    next
      case False
      obtain n where n: "semas s k = Some n" "lock_ok (s, pc) k" by (rule locks_inv_sema [OF inv k])
      have rk: "runnable s' t" if "pc t = Want k" "runnable s t" for t using rn that w False by (cases "t = current s") auto
      show ?thesis
        by (rule lock_ok_frame [OF n(2,1)]) (use False n w d rk in \<open>auto split: if_splits\<close>)
    qed
  qed (use ni in auto)
  then show ?thesis by simp
qed

lemma step_enter:
  assumes inv: "locks_inv L (s, pc)" and w: "pc (current s) = Got l" and r: "lock_acquire_end s l = ret s'"
  shows "locks_inv L (s', pc(current s := Free))"
proof -
  have l: "l \<in> L" using locks_invD(6) [OF inv] w by blast
  from lock_acquire_end_quiet [OF r locks_invD(1) [OF inv]] have q: "quiet s s'" "holders s' = (holders s)(l := current s)" by blast+
  have o: "owns (s, pc) l (current s)" using w locks_invD(5) [OF inv] by (simp add: owns_def)
  show ?thesis
  proof (rule locks_invI [OF inv quiet_inv [OF inv q(1)]])
    fix k assume k: "k \<in> L"
    show "lock_ok (s', pc(current s := Free)) k"
      using lock_ok_pass [OF inv q(1) l o q(2)] lock_ok_quiet [OF inv q(1) k, of l Free] w q(2) by (cases "k = l") auto
  qed auto
qed

lemma step_give:
  assumes inv: "locks_inv L (s, pc)" and w: "pc (current s) = Free" and ni: "current s \<noteq> idle_thread s" and l: "l \<in> L" and r: "lock_release_begin s l = ret s'"
  shows "locks_inv L (s', pc(current s := Leaving l))"
proof -
  note wf = locks_invD(1) [OF inv]
  obtain t where t: "threads s (current s) = Some t" using wf by (auto simp: sched_wf_def)
  have h: "l \<noteq> NULL" "holders s l = current s" using r wf by (auto simp: lock_release_begin_def lock_held_by_current_thread_def split: if_splits)
  from lock_release_begin_ok [OF wf h t] r have q: "quiet s s'" "holders s' = (holders s)(l := NULL)" by auto
  have o: "owns (s, pc) l (current s)" using h locks_invD(5) [OF inv] by (simp add: owns_def)
  show ?thesis
  proof (rule locks_invI [OF inv quiet_inv [OF inv q(1)]])
    fix k assume k: "k \<in> L"
    show "lock_ok (s', pc(current s := Leaving l)) k"
      using lock_ok_pass [OF inv q(1) l o q(2)] lock_ok_quiet [OF inv q(1) k, of l "Leaving l"] w q(2) by (cases "k = l") auto
  qed (use l ni in auto)
qed

lemma step_leave:
  assumes inv: "locks_inv L (s, pc)" and w: "pc (current s) = Leaving l" and r: "sema_up s l = ret s'"
  shows "locks_inv L (s', pc(current s := Free))"
proof -
  have l: "l \<in> L" using locks_invD(6) [OF inv] w by blast
  obtain m where m: "semas s l = Some m" "l \<noteq> NULL" "lock_ok (s, pc) l" by (rule locks_inv_sema [OF inv l])
  define ws where "ws = sort_by (compare_priority s) (waiters m)"
  from sema_up_ok [OF locks_invD(1,2) [OF inv] m(2,1)] r have
    u: "sched_wf s'" "waiting_wf s'" "holders s' = holders s" "idle_thread s' = idle_thread s" "\<not> in_intr s'"
      "semas s' = (semas s)(l \<mapsto> m\<lparr>waiters := tl ws, sema_value := sema_value m + 1\<rparr>)"
      "\<And>p. (runnable s p \<or> ws \<noteq> [] \<and> p = hd ws) \<and> p \<noteq> idle_thread s \<Longrightarrow> runnable s' p"
    using locks_invD(3) [OF inv] unfolding ws_def by auto
  have o: "owns (s, pc) l (current s)" using w locks_invD(5) [OF inv] by (simp add: owns_def)
  have v: "sema_value m = 0" by (rule lock_ok_owner(1) [OF m(3,1) o])
  have hn: "holders s l = NULL" using m(3) w unfolding lock_ok_def by auto
  have wm: "pc p = Want l" "p \<noteq> idle_thread s" "p \<noteq> current s" if "p \<in> set ws" for p
  proof -
    have p: "p \<in> set (waiters m)" using that by (simp add: ws_def)
    then show "pc p = Want l" using m(1,3) unfolding lock_ok_def by auto
    show "p \<noteq> idle_thread s" using waiting_wf_sleeper [OF locks_invD(2) [OF inv] m(1) p] by metis
    show "p \<noteq> current s" using waiting_wf_not_current [OF locks_invD(2,1) [OF inv] m(1)] p by blast
  qed
  show ?thesis
  proof (rule locks_invI [OF inv u(1,2,5,4)])
    fix k assume k: "k \<in> L"
    show "lock_ok (s', pc(current s := Free)) k"
    proof (cases "k = l")
      case True
      have no: "\<not> owns (s, pc) l t" if "t \<noteq> current s" for t using lock_ok_owner(2) [OF m(3,1) o] that by blast
      have "\<not> owns (s', pc(current s := Free)) l t" for t
        using no [of t] hn by (cases "t = current s") (auto simp: owns_def u(3))
      moreover have "\<exists>t. (pc(current s := Free)) t = Want l \<and> t \<noteq> idle_thread s' \<and> runnable s' t" if "tl ws \<noteq> []"
      proof -
        have "ws \<noteq> []" using that by auto
        then show ?thesis using wm [of "hd ws"] u(7) [of "hd ws"] u(4) by (intro exI [of _ "hd ws"]) auto
      qed
      moreover have "\<forall>p \<in> set (tl ws). (pc(current s := Free)) p = Want l" using wm by (cases ws) auto
      ultimately show ?thesis unfolding lock_ok_def using True m(2) v hn by (simp add: u(6,3))
    next
      case False
      obtain n where n: "semas s k = Some n" "lock_ok (s, pc) k" by (rule locks_inv_sema [OF inv k])
      show ?thesis
        by (rule lock_ok_frame [OF n(2,1)]) (use False n w u in \<open>auto split: if_splits\<close>)
    qed
  qed auto
qed

lemma step_switch:
  assumes inv: "locks_inv L (s, pc)" and s': "sched_wf s'" "sleepers_kept s s'" "semas s' = semas s" "holders s' = holders s"
      "idle_thread s' = idle_thread s" "\<not> in_intr s'" and r: "\<And>p. runnable s p \<Longrightarrow> p \<noteq> idle_thread s \<Longrightarrow> runnable s' p"
  shows "locks_inv L (s', pc)"
proof -
  have ww: "waiting_wf s'" by (rule waiting_wf_sleepers [OF locks_invD(2) [OF inv] s'(2,3,5)])
  have "lock_ok (s', pc) k" if k: "k \<in> L" for k
  proof -
    obtain n where n: "semas s k = Some n" "lock_ok (s, pc) k" by (rule locks_inv_sema [OF inv k])
    show ?thesis by (rule lock_ok_frame [OF n(2,1)]) (use n s' r in auto)
  qed
  then show ?thesis using inv s' ww unfolding locks_inv_def by auto
qed

lemma lock_step_inv: "lock_step L mem c c' \<Longrightarrow> locks_inv L c \<Longrightarrow> locks_inv L c'"
proof (induction rule: lock_step.induct)
  case (yield s s' pc)
  note i = locks_invD(1,3) [OF yield.prems]
  from thread_yield_ok [OF i] yield.hyps show ?case
    by (intro step_switch [OF yield.prems]) (use thread_yield_runnable [OF i(1)] i(2) in auto)
next
  case (preempt s s' pc)
  note i = locks_invD(1,3) [OF preempt.prems]
  from compare_cur_next_priority_ok [OF i(1)] preempt.hyps show ?case
    by (intro step_switch [OF preempt.prems]) (use compare_cur_next_priority_runnable [OF i(1)] i(2) in auto)
qed (blast intro: step_ask step_take step_sleep step_enter step_give step_leave)+

section \<open>Condition variables\<close>

interpretation cnd: list_less "compare_priority_for_cond s" for s
  by unfold_locales (auto simp: compare_priority_for_cond_def split: if_splits)

lemma cond_signal_ok:
  assumes wf: "sched_wf s" "waiting_wf s" "\<not> in_intr s" and "c \<noteq> NULL" "l \<noteq> NULL" "holders s l = current s"
    and ne: "conds s c \<noteq> []" and se: "\<forall>w \<in> set (conds s c). w \<noteq> NULL \<and> semas s w \<noteq> None"
  shows "\<exists>s'. cond_signal s c l = ret s' \<and> sched_wf s' \<and> waiting_wf s' \<and> \<not> in_intr s' \<and> holders s' = holders s \<and>
    conds s' = (conds s)(c := tl (sort_by (compare_priority_for_cond s) (conds s c))) \<and>
    (\<forall>w. semas s w \<noteq> None \<longrightarrow> semas s' w \<noteq> None)"
proof -
  let ?ws = "sort_by (compare_priority_for_cond s) (conds s c)" and ?s = "s\<lparr>conds := (conds s)(c := tl (sort_by (compare_priority_for_cond s) (conds s c)))\<rparr>"
  have "?ws \<noteq> []" using ne cnd.set_sort_by [of s "conds s c"] by (metis set_empty)
  then have "hd ?ws \<in> set (conds s c)" using cnd.set_sort_by [of s "conds s c"] by (metis hd_in_set)
  then obtain m where m: "hd ?ws \<noteq> NULL" "semas s (hd ?ws) = Some m" using se by blast
  have w: "sched_wf ?s" "waiting_wf ?s" using wf(1,2) sched_wf_cong [of ?s s] by (simp_all add: waiting_wf_def)
  from sema_up_ok [OF w m(1), of m] m(2) wf(3) obtain s' where
    "sema_up ?s (hd ?ws) = ret s'" "sched_wf s'" "waiting_wf s'" "\<not> in_intr s'" "holders s' = holders s" "conds s' = conds ?s"
      "\<forall>w. semas s w \<noteq> None \<longrightarrow> semas s' w \<noteq> None" by auto
  then show ?thesis using assms by (auto simp: cond_signal_def lock_held_by_current_thread_def Let_def)
qed

lemma broadcast_loop_ok:
  assumes "sched_wf s" "waiting_wf s" "\<not> in_intr s" and "c \<noteq> NULL" "l \<noteq> NULL" "holders s l = current s"
    and "\<forall>w \<in> set (conds s c). w \<noteq> NULL \<and> semas s w \<noteq> None"
  shows "\<exists>s'. broadcast_loop s (current s) c l = ret s' \<and> sched_wf s' \<and> (current s' = current s \<longrightarrow> conds s' c = [])"
  using assms
proof (induction "length (conds s c)" arbitrary: s rule: less_induct)
  case less
  show ?case
  proof (cases "conds s c = []")
    case True
    then show ?thesis using less.prems(1) by (subst broadcast_loop.simps) simp
  next
    case False
    let ?ws = "sort_by (compare_priority_for_cond s) (conds s c)"
    from cond_signal_ok [OF less.prems(1-6) False less.prems(7)] obtain s1 where
      s1: "cond_signal s c l = ret s1" "sched_wf s1" "waiting_wf s1" "\<not> in_intr s1" "holders s1 = holders s"
        "conds s1 = (conds s)(c := tl ?ws)" "\<forall>w. semas s w \<noteq> None \<longrightarrow> semas s1 w \<noteq> None" by blast
    have len: "length ?ws = length (conds s c)" using cnd.sort_by_ok(2) [of s "conds s c"] by (metis size_mset)
    have sub: "set (tl ?ws) \<subseteq> set (conds s c)" using cnd.set_sort_by [of s "conds s c"] by (metis list.set_sel(2) subsetI tl_Nil)
    have run: "broadcast_loop s (current s) c l = (if current s1 = current s then broadcast_loop s1 (current s) c l else ret s1)"
      using False s1(1) by (subst broadcast_loop.simps) simp
    show ?thesis
    proof (cases "current s1 = current s")
      case True
      have "length (conds s1 c) < length (conds s c)" using s1(6) len False by (cases ?ws) auto
      moreover have "\<forall>w \<in> set (conds s1 c). w \<noteq> NULL \<and> semas s1 w \<noteq> None" using s1(6,7) less.prems(7) sub by (simp add: subset_iff)
      ultimately show ?thesis using less.hyps [OF _ s1(2-4) less.prems(4,5)] s1(5) less.prems(6) True run by auto
    qed (use run s1(2) in auto)
  qed
qed

section \<open>A cycle of locks\<close>

text \<open>
  Two threads that wait for each other's locks: the donation loop of the second one to ask never
  ends (on a real machine it fills the memory with donations).
\<close>

definition deadly :: "kstate \<Rightarrow> ptr \<Rightarrow> ptr \<Rightarrow> ptr \<Rightarrow> bool" where
  "deadly s t a b \<longleftrightarrow> sched_wf s \<and> a \<noteq> NULL \<and> b \<noteq> NULL \<and> t \<noteq> NULL \<and> t \<noteq> current s \<and> holders s a = t \<and> holders s b = current s \<and>
     waits_for s t = Some b \<and> waits_for s (current s) = Some a \<and> semas s a \<noteq> None \<and> semas s b \<noteq> None \<and> prio s t \<le> prio s (current s)"

lemma deadly_round:
  assumes d: "deadly s t a b" and l: "l = a \<or> l = b"
  shows "\<exists>s'. donate_round True s cur l = ret (Some (if l = a then b else a, s')) \<and> deadly s' t a b \<and> current s' = current s"
proof -
  note D = d [unfolded deadly_def]
  have ab: "a \<noteq> b" using D by auto
  define h where "h = holders s l"
  obtain th where th: "threads s h = Some th" "pending_lock th = (if l = a then b else a)"
    using D l ab by (auto simp: h_def waits_for_def)
  have n: "h \<noteq> NULL" using D l by (auto simp: h_def sched_wf_def base_wf_def)
  have pt: "priority th = prio s h" using th by (simp add: prio_def)
  let ?s = "resort (donate_to s cur l (prio s (current s)) h) (pending_lock th)"
  have q: "quiet s ?s" using quiet_donate_to quiet_resort quiet_trans by blast
  have le: "\<not> prio s (current s) < prio s h" using D l by (auto simp: h_def)
  then have "donate_round True s cur l = ret (Some (pending_lock th, ?s))"
    using donate_round_eq [of s l th True cur] D n th pt by (auto simp: h_def)
  moreover have "prio ?s t \<le> prio ?s (current ?s)"
    using D th(1) le l by (auto simp: h_def)
  then have "deadly ?s t a b" using D quiet_sched(1) [OF q] unfolding deadly_def by simp
  ultimately show ?thesis using th(2) by simp
qed

lemma donation_cycle_diverges:
  assumes "deadly s t a b"
  shows "donate_loop True s cur a = diverges"
proof (rule ccontr)
  assume "donate_loop True s cur a \<noteq> diverges"
  then obtain y where y: "donate_loop True s cur a = Some y" by auto
  have "\<not> (mem \<and> deadly s t a b \<and> (l = a \<or> l = b))" if "donate_loop mem s cur l = Some z" for mem s cur l z
    using that
  proof (rule donate_loop.raw_induct [rotated])
    fix f :: "bool \<Rightarrow> kstate \<Rightarrow> ptr \<Rightarrow> ptr \<Rightarrow> kstate exec" and mem s cur l z
    assume IH: "\<And>mem s cur l z. f mem s cur l = Some z \<Longrightarrow> \<not> (mem \<and> deadly s t a b \<and> (l = a \<or> l = b))"
    assume eq: "(if l = NULL then ret s else bindE (donate_round mem s cur l) (\<lambda>r.
        case r of None \<Rightarrow> ret s | Some (pending, s) \<Rightarrow> f mem s cur pending)) = Some z"
    show "\<not> (mem \<and> deadly s t a b \<and> (l = a \<or> l = b))"
    proof
      assume h: "mem \<and> deadly s t a b \<and> (l = a \<or> l = b)"
      then have "l \<noteq> NULL" by (auto simp: deadly_def)
      moreover from deadly_round [of s t a b l cur] h obtain s' where
        "donate_round mem s cur l = ret (Some (if l = a then b else a, s'))" "deadly s' t a b" by auto
      ultimately show False using eq IH [of mem s' cur "if l = a then b else a" z] h by (auto split: if_splits)
    qed
  qed
  then show False using y assms by blast
qed

section \<open>Properties\<close>

text \<open>Locks that were just initialised.\<close>

lemma locks_inv_init:
  assumes "sched_wf s" "waiting_wf s" "\<not> in_intr s" and "\<forall>l \<in> L. l \<noteq> NULL \<and> semas s l = Some \<lparr>sema_value = 1, waiters = []\<rparr> \<and> holders s l = NULL"
  shows "locks_inv L (s, \<lambda>_. Free)"
  using assms by (auto simp: locks_inv_def lock_ok_def owns_def)

interpretation lks: stable "lock_step L mem" "locks_inv L" for L mem
  by unfold_locales (auto intro: lock_step_inv)


text \<open>
  C26. Priority donation: when a thread asks for a lock that is held, the donation loop returns if the
  chain of holders is finite and does not come back to the thread; the holders along the chain, up
  to the first of a higher priority, get the priority of the thread, and no other priority changes.
\<close>

theorem lock_acquire_donates:
  assumes wf: "sched_wf s" and "\<not> in_intr s" and l: "l \<noteq> NULL" "holders s l \<noteq> NULL"
    and ch: "lock_chain s l hs" "distinct (current s # hs)"
  shows "\<exists>s'. lock_acquire_begin True s l = ret s' \<and> sched_wf s' \<and> current s' = current s \<and>
    (\<forall>p. prio s' p = (if p \<in> set (takeWhile (\<lambda>h. prio s h \<le> prio s (current s)) hs) then prio s (current s) else prio s p))"
proof -
  let ?s = "upd_thread s (current s) (\<lambda>t. t\<lparr>pending_lock := l\<rparr>)"
  have q: "quiet s ?s" by (rule quiet_upd_thread) simp
  have pr: "prio ?s = prio s" by (auto simp: prio_def fun_eq_iff split: option.splits)
  have chain: "lock_chain ?s k hs = lock_chain s k hs" if "current s \<notin> set hs" for k hs
    using that by (induction hs arbitrary: k) (auto split: option.splits)
  have nh: "holders s l \<noteq> current s" using ch l by (cases hs) auto
  from donate_loop_ok [OF quiet_sched(1) [OF q wf], of l hs "current s"] chain ch obtain s' where
    d: "donate_loop True ?s (current s) l = ret s'"
      "\<forall>p. prio s' p = (if p \<in> set (takeWhile (\<lambda>h. prio s h \<le> prio s (current s)) hs) then prio s (current s) else prio s p)"
    unfolding pr by auto
  have run: "lock_acquire_begin True s l = ret s'"
    using d(1) assms(2) l nh wf by (simp add: lock_acquire_begin_def lock_held_by_current_thread_def)
  with lock_acquire_begin_quiet [OF run wf] quiet_sched(1,2) wf d(2) show ?thesis by blast
qed

text \<open>
  C20. \<open>lock_release\<close> by the holder returns: the thread loses the donations for this lock and keeps
  the highest of its own priority and of the donations for other locks; the lock has no holder; the
  first waiter in order of priority can run; and afterwards no ready thread outranks the running one.
\<close>

theorem lock_release_restores:
  assumes wf: "sched_wf s" "waiting_wf s" "\<not> in_intr s" and l: "l \<noteq> NULL" "holders s l = current s"
    and t: "threads s (current s) = Some t" and m: "semas s l = Some m"
  shows "\<exists>s'. lock_release s l = ret s' \<and> sched_wf s' \<and> holders s' l = NULL \<and> preempted s' \<and>
    prio s' (current s) = effective (original_priority t) (filter (\<lambda>d. d_lock d \<noteq> l) (donations t)) \<and>
    (waiters m \<noteq> [] \<longrightarrow> (\<exists>w \<in> set (waiters m). runnable s' w \<and> (\<forall>v \<in> set (waiters m). prio s v \<le> prio s w)))"
proof -
  let ?e = "effective (original_priority t) (filter (\<lambda>d. d_lock d \<noteq> l) (donations t))"
  from lock_release_begin_ok [OF wf(1) l t] obtain s1 ds where
    b: "lock_release_begin s l = ret s1" "quiet s s1" "holders s1 = (holders s)(l := NULL)"
      "threads s1 = (threads s)(current s \<mapsto> t\<lparr>donations := ds, priority := ?e\<rparr>)" by blast
  note w1 = quiet_sched(1) [OF b(2) wf(1)] quiet_waiting [OF b(2) wf(2)]
  have i1: "\<not> in_intr s1" "current s1 = current s" "destruction_req s1 = destruction_req s" "idle_thread s1 = idle_thread s"
    using wf(3) b(2) by (simp_all add: quiet_def same_sched_def)
  have "map_option sema_sig (semas s1 l) = Some (sema_sig m)" using b(2) m by (simp add: quiet_def)
  then obtain m1 where m1: "semas s1 l = Some m1" "mset (waiters m1) = mset (waiters m)" by (auto simp: sema_sig_def)
  define ws where "ws = sort_by (compare_priority s1) (waiters m1)"
  from sema_up_ok [OF w1 l(1) m1(1)] i1 obtain s2 where
    u: "sema_up s1 l = ret s2" "sched_wf s2" "\<not> in_intr s2" "holders s2 = holders s1" "preempted s2" "idle_thread s2 = idle_thread s"
      "\<And>p. ws \<noteq> [] \<Longrightarrow> p = hd ws \<Longrightarrow> p \<noteq> idle_thread s \<Longrightarrow> runnable s2 p" "\<And>p. p \<notin> set (destruction_req s) \<Longrightarrow> prio s2 p = prio s1 p"
    unfolding ws_def [symmetric] by auto
  have nd: "current s \<notin> set (destruction_req s)" using wf(1) by (auto simp: sched_wf_def base_wf_def)
  have cp: "prio s2 (current s) = ?e" using u(8) [OF nd] b(4) by (simp add: prio_def)
  have wt: "\<exists>w \<in> set (waiters m). runnable s2 w \<and> w \<noteq> idle_thread s \<and> (\<forall>v \<in> set (waiters m). prio s v \<le> prio s w)" if "waiters m \<noteq> []"
  proof -
    have sw: "set ws = set (waiters m)" using mset_eq_setD [OF m1(2)] by (simp add: ws_def)
    then have ne: "ws \<noteq> []" using that by auto
    then have h: "hd ws \<in> set (waiters m)" using sw hd_in_set by blast
    then have ni: "hd ws \<noteq> idle_thread s" using waiting_wf_sleeper [OF wf(2) m] by metis
    have "\<forall>v \<in> set ws. prio s1 v \<le> prio s1 (hd ws)"
      using pri.sort_by_ok(1) [of s1 "waiters m1"] ne unfolding ws_def [symmetric]
      by (cases ws) (auto simp: pri.ordered_Cons compare_priority_def not_less)
    moreover have "prio s1 v = prio s v" if "v \<in> set ws" for v
      using that waiting_wf_not_current [OF wf(2,1) m] sw b(4) by (auto simp: prio_def)
    ultimately show ?thesis using u(7) [OF ne refl ni] h ni sw hd_in_set [OF ne] by auto
  qed
  show ?thesis
  proof (cases "current s2 = current s")
    case True
    from compare_cur_next_priority_ok [OF u(2)] u(3) obtain s3 where
      c: "compare_cur_next_priority s2 = ret s3" "sched_wf s3" "preempted s3" "holders s3 = holders s2" by auto
    have "current s \<notin> set (destruction_req s2)" using u(2) True by (auto simp: sched_wf_def base_wf_def)
    with compare_cur_next_priority_prio [OF u(2) c(1)] cp have "prio s3 (current s) = ?e" by simp
    moreover have "runnable s3 w" if "runnable s2 w" "w \<noteq> idle_thread s" for w
      using compare_cur_next_priority_runnable [OF u(2) c(1)] that u(6) by simp
    moreover have "lock_release s l = ret s3" using b(1) u(1) c(1) True by (simp add: lock_release_def if_running_def)
    moreover have "holders s3 l = NULL" using b(3) u(4) c(4) by simp
    ultimately show ?thesis using c(2,3) wt by blast
  next
    case False
    then have "lock_release s l = ret s2" using b(1) u(1) by (simp add: lock_release_def if_running_def)
    moreover have "holders s2 l = NULL" using b(3) u(4) by simp
    ultimately show ?thesis using u(2,5) cp wt by blast
  qed
qed

text \<open>
  An example: thread 2 runs and holds the lock 16 with a donation of priority 40 for it; thread 5
  of priority 40 sleeps on the lock.
\<close>

definition sample_locked :: kstate where
  "sample_locked = sample_kstate\<lparr>
     threads := (threads sample_kstate)(5 \<mapsto> (sample_thread THREAD_BLOCKED 40)\<lparr>pending_lock := 16\<rparr>,
       2 \<mapsto> (sample_thread THREAD_RUNNING 31)\<lparr>priority := 40, donations := [\<lparr>d_priority = 40, donor = 5, d_lock = 16\<rparr>]\<rparr>),
     semas := [16 \<mapsto> \<lparr>sema_value = 0, waiters = [5]\<rparr>], holders := (\<lambda>_. NULL)(16 := 2)\<rparr>"

lemma sample_locked_wf: "sched_wf sample_locked" "waiting_wf sample_locked"
  by (auto simp: sched_wf_def base_wf_def ready_set_def waiting_wf_def sample_locked_def sample_kstate_def sample_thread_def split: if_splits)

theorem lock_release_restores_witness:
  "\<exists>s'. lock_release sample_locked 16 = ret s' \<and> holders s' 16 = NULL \<and> preempted s' \<and> prio s' 2 = 31 \<and> runnable s' 5"
proof -
  have c: "current sample_locked = 2" "holders sample_locked 16 = 2" "\<not> in_intr sample_locked"
    "semas sample_locked 16 = Some \<lparr>sema_value = 0, waiters = [5]\<rparr>"
    "threads sample_locked 2 = Some ((sample_thread THREAD_RUNNING 31)\<lparr>priority := 40, donations := [\<lparr>d_priority = 40, donor = 5, d_lock = 16\<rparr>]\<rparr>)"
    by (simp_all add: sample_locked_def sample_kstate_def)
  have h: "holders sample_locked 16 = current sample_locked" using c(1,2) by simp
  show ?thesis
    using lock_release_restores [OF sample_locked_wf c(3) _ h c(5) [folded c(1)] c(4)] c(1) by (auto simp: effective_def sample_thread_def)
qed

text \<open>Thread 2 runs and asks for the lock 16, whose holder 3 waits for the lock 17, whose holder is 4.\<close>

definition sample_nested :: kstate where
  "sample_nested = sample_kstate\<lparr>
     threads := (threads sample_kstate)(3 \<mapsto> (sample_thread THREAD_READY 20)\<lparr>pending_lock := 17\<rparr>),
     semas := [16 \<mapsto> \<lparr>sema_value = 0, waiters = []\<rparr>, 17 \<mapsto> \<lparr>sema_value = 0, waiters = []\<rparr>],
     holders := (\<lambda>_. NULL)(16 := 3, 17 := 4)\<rparr>"

theorem lock_acquire_donates_witness:
  "\<exists>s'. lock_acquire_begin True sample_nested 16 = ret s' \<and> prio s' 3 = 31 \<and> prio s' 4 = 31 \<and> prio s' 2 = 31"
proof -
  have wf: "sched_wf sample_nested"
    by (auto simp: sched_wf_def base_wf_def ready_set_def sample_nested_def sample_kstate_def sample_thread_def split: if_splits)
  have c: "\<not> in_intr sample_nested" "holders sample_nested 16 \<noteq> NULL" "lock_chain sample_nested 16 [3, 4]" "distinct (current sample_nested # [3, 4])"
    by (simp_all add: sample_nested_def sample_kstate_def sample_thread_def)
  have p: "prio sample_nested 2 = 31" "prio sample_nested 3 = 20" "prio sample_nested 4 = 20" "current sample_nested = 2"
    by (simp_all add: prio_def sample_nested_def sample_kstate_def sample_thread_def)
  show ?thesis using lock_acquire_donates [OF wf c(1) _ c(2-4)] p by auto
qed


end
