(* ===== verification/Arith64.thy ===== *)
theory Arith64
  imports Prelude
begin

text \<open>
  64-bit division from 32-bit instructions, \<open>lib/arithmetic.c\<close>. \<open>divl\<close> is the processor's
  division of 64 by 32 bits, which stops with a divide error when the divisor is zero or the
  quotient needs more than 32 bits. The lemmas show that the quotients are exact and that the only
  division that traps is the one by zero.
\<close>

definition divl :: "u64 \<Rightarrow> u32 \<Rightarrow> u32 exec" where
  "divl n d = (if d = 0 \<or> 2 ^ 32 \<le> unat n div unat d then fail Div_error else ret (of_nat (unat n div unat d)))"

text \<open>The number of leading zero bits.\<close>

definition nlz :: "u32 \<Rightarrow> nat" where
  "nlz x =
     (let (n, x) = (if x \<le> 0x0000FFFF then (16, push_bit 16 x) else (0, x));
          (n, x) = (if x \<le> 0x00FFFFFF then (n + 8, push_bit 8 x) else (n, x));
          (n, x) = (if x \<le> 0x0FFFFFFF then (n + 4, push_bit 4 x) else (n, x));
          (n, x) = (if x \<le> 0x3FFFFFFF then (n + 2, push_bit 2 x) else (n, x))
      in if x \<le> 0x7FFFFFFF then n + 1 else n)"

definition udiv64 :: "u64 \<Rightarrow> u64 \<Rightarrow> u64 exec" where
  "udiv64 n d =
     (if drop_bit 32 d = 0 then
        let b = push_bit 32 1; n1 = ucast (drop_bit 32 n) :: u32; n0 = ucast n :: u32; d0 = ucast d :: u32 in
        if d0 = 0 then fail Div_error
        else bindE (divl (b * ucast (n1 mod d0) + ucast n0) d0) (\<lambda>q. ret (ucast q + b * ucast (n1 div d0)))
      else if n < d then ret 0
      else
        let d1 = ucast (drop_bit 32 d) :: u32; s = nlz d1 in
        bindE (divl (drop_bit 1 n) (ucast (drop_bit 32 (push_bit s d)))) (\<lambda>q.
        let q = ucast (drop_bit (31 - s) q) in
        ret (if n - (q - 1) * d < d then q - 1 else q)))"

definition umod64 :: "u64 \<Rightarrow> u64 \<Rightarrow> u32 exec" where
  "umod64 n d = bindE (udiv64 n d) (\<lambda>q. ret (ucast (n - d * q)))"

text \<open>The signed operations on values of type \<open>int64_t\<close>.\<close>

definition int64 :: "int \<Rightarrow> int" where
  "int64 x = sint (word_of_int x :: u64)"

definition sdiv64 :: "int \<Rightarrow> int \<Rightarrow> int exec" where
  "sdiv64 n d =
     (let n_abs = (if n \<ge> 0 then word_of_int n else - word_of_int n);
          d_abs = (if d \<ge> 0 then word_of_int d else - word_of_int d) in
      bindE (udiv64 n_abs d_abs) (\<lambda>q_abs.
      ret (if (n < 0) = (d < 0) then sint q_abs else int64 (- sint q_abs))))"

definition smod64 :: "int \<Rightarrow> int \<Rightarrow> int exec" where
  "smod64 n d = bindE (sdiv64 n d) (\<lambda>q. ret (int32 (n - d * q)))"

definition divdi3 :: "int \<Rightarrow> int \<Rightarrow> int exec" where "divdi3 n d = sdiv64 n d"
definition moddi3 :: "int \<Rightarrow> int \<Rightarrow> int exec" where "moddi3 n d = smod64 n d"
definition udivdi3 :: "u64 \<Rightarrow> u64 \<Rightarrow> u64 exec" where "udivdi3 n d = udiv64 n d"
definition umoddi3 :: "u64 \<Rightarrow> u64 \<Rightarrow> u64 exec" where "umoddi3 n d = bindE (umod64 n d) (\<lambda>r. ret (ucast r))"

section \<open>Leading zeros\<close>

lemma unat_push_bit_small:
  assumes "unat (x :: 'a::len word) * 2 ^ k < 2 ^ LENGTH('a)"
  shows "unat (push_bit k x) = unat x * 2 ^ k"
proof -
  have "unat (push_bit k x) = take_bit LENGTH('a) (push_bit k (unat x))" by (rule unsigned_push_bit_eq)
  also have "push_bit k (unat x) = unat x * 2 ^ k" by (rule push_bit_eq_mult)
  finally show ?thesis using assms by (simp add: take_bit_nat_eq_self)
qed

lemma nlz_step:
  fixes x y t :: u32
  assumes "unat x * 2 ^ n = unat y" and "2 ^ (32 - 2 * k) \<le> unat y" and "2 * k \<le> 32" and t: "unat t = 2 ^ (32 - k) - 1"
    and "(if y \<le> t then (n + k, push_bit k y) else (n, y)) = (n', y')"
  shows "unat x * 2 ^ n' = unat y' \<and> 2 ^ (32 - k) \<le> unat y'"
proof (cases "y \<le> t")
  case True
  have "unat y < 2 ^ (32 - k)" using True t by (simp add: word_le_nat_alt) (metis Suc_pred le_imp_less_Suc zero_less_numeral zero_less_power One_nat_def)
  then have "unat y * 2 ^ k < 2 ^ (32 - k) * 2 ^ k" by simp
  also have "\<dots> = 2 ^ 32" using assms(3) by (simp flip: power_add)
  finally have p: "unat (push_bit k y) = unat y * 2 ^ k" by (intro unat_push_bit_small) simp
  have "2 ^ (32 - 2 * k) * 2 ^ k \<le> unat y * 2 ^ k" using assms(2) by simp
  moreover have "(2 :: nat) ^ (32 - 2 * k) * 2 ^ k = 2 ^ (32 - k)" using assms(3) by (simp flip: power_add)
  ultimately show ?thesis using True p assms(1,5) by (auto simp: power_add mult.assoc)
next
  case False
  then have "2 ^ (32 - k) \<le> unat y" using t by (simp add: word_le_nat_alt)
  then show ?thesis using False assms(1,5) by auto
qed

lemma nlz_normalises:
  assumes "x \<noteq> 0"
  shows "2 ^ 31 \<le> unat x * 2 ^ nlz x \<and> unat x * 2 ^ nlz x < 2 ^ 32 \<and> nlz x \<le> 31"
proof -
  have x: "1 \<le> unat x" using assms by (simp add: Suc_le_eq unat_gt_0)
  obtain n1 y1 where e1: "(if x \<le> 0x0000FFFF then (16 :: nat, push_bit 16 x) else (0, x)) = (n1, y1)" by (cases "x \<le> 0x0000FFFF") auto
  obtain n2 y2 where e2: "(if y1 \<le> 0x00FFFFFF then (n1 + 8, push_bit 8 y1) else (n1, y1)) = (n2, y2)" by (cases "y1 \<le> 0x00FFFFFF") auto
  obtain n3 y3 where e3: "(if y2 \<le> 0x0FFFFFFF then (n2 + 4, push_bit 4 y2) else (n2, y2)) = (n3, y3)" by (cases "y2 \<le> 0x0FFFFFFF") auto
  obtain n4 y4 where e4: "(if y3 \<le> 0x3FFFFFFF then (n3 + 2, push_bit 2 y3) else (n3, y3)) = (n4, y4)" by (cases "y3 \<le> 0x3FFFFFFF") auto
  have 1: "unat x * 2 ^ n1 = unat y1 \<and> 2 ^ (32 - 16) \<le> unat y1" using nlz_step [of x 0 x 16 "0x0000FFFF" n1 y1, unfolded add_0] e1 x by simp
  have 2: "unat x * 2 ^ n2 = unat y2 \<and> 2 ^ (32 - 8) \<le> unat y2" using nlz_step [of x n1 y1 8 "0x00FFFFFF" n2 y2] e2 1 by simp
  have 3: "unat x * 2 ^ n3 = unat y3 \<and> 2 ^ (32 - 4) \<le> unat y3" using nlz_step [of x n2 y2 4 "0x0FFFFFFF" n3 y3] e3 2 by simp
  have 4: "unat x * 2 ^ n4 = unat y4 \<and> 2 ^ (32 - 2) \<le> unat y4" using nlz_step [of x n3 y3 2 "0x3FFFFFFF" n4 y4] e4 3 by simp
  have nlz: "nlz x = (if y4 \<le> 0x7FFFFFFF then n4 + 1 else n4)" by (simp add: nlz_def e1 e2 e3 e4)
  have b: "2 ^ 31 \<le> unat x * 2 ^ nlz x" "unat x * 2 ^ nlz x < 2 ^ 32"
    using 4 nlz unat_u32_bound [of y4] by (auto simp: word_le_nat_alt)
  have "2 ^ nlz x \<le> unat x * 2 ^ nlz x" using x by simp
  with b(2) have "(2 :: nat) ^ nlz x < 2 ^ 32" by linarith
  then have "nlz x < 32" by (rule power_less_imp_less_exp [rotated]) simp
  then show ?thesis using b by simp
qed

section \<open>The quotient\<close>

text \<open>The estimate from the leading bits of the divisor is right or one too large.\<close>

lemma estimate:
  fixes n d s v :: nat
  assumes n: "n < 2 ^ 64" and s: "s \<le> 31" and v: "v = d * 2 ^ s div 2 ^ 32" "2 ^ 31 \<le> v"
  shows "n div d \<le> n div 2 div v div 2 ^ (31 - s) \<and> n div 2 div v div 2 ^ (31 - s) \<le> Suc (n div d)"
proof -
  define D where "D = v * 2 ^ (32 - s)"
  have pw: "(2 :: nat) ^ 32 = 2 ^ (32 - s) * 2 ^ s" "(2 :: nat) * 2 ^ (31 - s) = 2 ^ (32 - s)"
    using s by (simp_all flip: power_add power_Suc add: Suc_diff_le)
  have q: "n div 2 div v div 2 ^ (31 - s) = n div D"
    unfolding D_def pw(2) [symmetric] by (simp add: div_mult2_eq [symmetric] ac_simps)
  have "d * 2 ^ s = v * 2 ^ 32 + d * 2 ^ s mod 2 ^ 32" unfolding v(1) by simp
  moreover have "v * 2 ^ 32 = D * 2 ^ s" unfolding D_def pw(1) by (simp only: mult.assoc)
  ultimately have e: "d * 2 ^ s = D * 2 ^ s + d * 2 ^ s mod 2 ^ 32" by simp
  have "d * 2 ^ s mod 2 ^ 32 = (d mod 2 ^ (32 - s)) * 2 ^ s" unfolding pw(1) by (simp add: mult_mod_left)
  with e have "d * 2 ^ s = (D + d mod 2 ^ (32 - s)) * 2 ^ s" by (simp add: add_mult_distrib)
  then have d: "d = D + d mod 2 ^ (32 - s)" by simp
  define e where "e = d mod 2 ^ (32 - s)"
  have e1: "d = D + e" "e < 2 ^ (32 - s)" using d by (auto simp: e_def)
  have D: "2 ^ 31 * 2 ^ (32 - s) \<le> D" using v(2) by (simp add: D_def)
  have D0: "0 < D" using D by (rule less_le_trans [rotated]) simp
  have small: "n * e < d * D"
  proof (cases "s = 31")
    case True
    then have "e \<le> 1" "2 ^ 32 \<le> D" using e1(2) D by auto
    then consider "e = 0" | "e = 1" by linarith
    then show ?thesis
    proof cases
      case 1
      then show ?thesis using D0 e1(1) by simp
    next
      case 2
      have "(2 :: nat) ^ 32 * 2 ^ 32 \<le> D * D" using \<open>2 ^ 32 \<le> D\<close> by (intro mult_mono) auto
      then show ?thesis using 2 n e1(1) D0 by simp
    qed
  next
    case False
    then have s30: "s \<le> 30" using s by simp
    have "n * e < 2 ^ 64 * 2 ^ (32 - s)" using n e1(2) by (intro mult_strict_mono') auto
    also have "\<dots> \<le> 2 ^ 31 * 2 ^ (32 - s) * (2 ^ 31 * 2 ^ (32 - s))"
    proof -
      have "(2 :: nat) ^ 64 \<le> 2 ^ 31 * 2 ^ 31 * 2 ^ (32 - s)"
        using power_increasing [of 2 "32 - s" "2 :: nat"] s30 by simp
      from mult_le_mono1 [OF this, of "2 ^ (32 - s)"] show ?thesis by (simp only: ac_simps)
    qed
    also have "\<dots> \<le> d * D" using D e1(1) by (intro mult_mono) auto
    finally show ?thesis .
  qed
  let ?Q = "n div d"
  have d0: "0 < d" using D0 e1(1) by simp
  have ub: "n < Suc ?Q * d" using d0 by (metis dividend_less_div_times mult.commute mult_Suc_right mult_Suc)
  have "n < (?Q + 2) * D"
  proof (rule ccontr)
    assume "\<not> ?thesis"
    then have "(?Q + 2) * D * d \<le> n * d" by simp
    also have "n * d = n * D + n * e" using e1(1) by (simp add: distrib_left)
    also have "\<dots> < n * D + d * D" using small by simp
    finally have "(?Q + 2) * d < n + d" using D0 by (simp add: algebra_simps) (metis add.commute distrib_left mult.commute mult_less_cancel1)
    then show False using ub by simp
  qed
  then have "n div D < ?Q + 2" using D0 by (simp add: div_less_iff_less_mult)
  moreover have "?Q \<le> n div D" using e1(1) D0 by (intro div_le_mono2) auto
  ultimately show ?thesis unfolding q by simp
qed

lemma unat_drop_bit: "unat (drop_bit k (x :: 'a::len word)) = unat x div 2 ^ k"
proof -
  have "unat (drop_bit k x) = drop_bit k (unat x)" by (simp add: unsigned_drop_bit_eq take_bit_nat_eq_self)
  then show ?thesis by (simp only: drop_bit_eq_div)
qed

lemma digit_bound: "(r :: nat) < d \<Longrightarrow> l < b \<Longrightarrow> r * b + l < d * b"
proof -
  assume "r < d" "l < b"
  then have "Suc r * b \<le> d * b" by (intro mult_le_mono1) simp
  with \<open>l < b\<close> show ?thesis by simp
qed

lemma unat_ucast_u32: "unat (ucast (x :: u64) :: u32) = unat x mod 2 ^ 32"
  by (simp add: unsigned_ucast_eq take_bit_eq_mod)

lemma unat_ucast_u64: "unat (ucast (x :: u32) :: u64) = unat x"
  by (simp add: unsigned_ucast_eq take_bit_nat_eq_self unat_u32_bound [THEN less_trans])

lemma split_digits: "(h :: nat) div d * b * d + (h mod d * b + l) = h * b + l"
proof -
  have "h div d * b * d + h mod d * b = (h div d * d + h mod d) * b" by (simp only: distrib_right mult.assoc mult.commute [of b])
  then show ?thesis by simp
qed

lemma split_div: "d \<noteq> 0 \<Longrightarrow> ((h :: nat) * b + l) div d = h div d * b + (h mod d * b + l) div d"
  by (subst split_digits [of h d b l, symmetric]) simp

lemma unat_mac: "unat (push_bit 32 1 * a + b :: u64) = (2 ^ 32 * unat a + unat b) mod 2 ^ 64"
proof -
  have "unat (push_bit 32 1 :: u64) = 2 ^ 32" by simp
  then show ?thesis by (simp add: unat_word_ariths mod_add_left_eq)
qed

lemma divl_ok: "d \<noteq> 0 \<Longrightarrow> unat n div unat d < 2 ^ 32 \<Longrightarrow> \<exists>q. divl n d = ret q \<and> unat q = unat n div unat d"
  by (simp add: divl_def unat_of_nat take_bit_nat_eq_self)

lemma udiv64_small:
  assumes "unat d < 2 ^ 32" and "d \<noteq> 0"
  shows "\<exists>q. udiv64 n d = ret q \<and> unat q = unat n div unat d"
proof -
  let ?n1 = "ucast (drop_bit 32 n) :: u32" and ?n0 = "ucast n :: u32" and ?d0 = "ucast d :: u32"
  have z: "drop_bit 32 d = 0" using assms(1) by (simp add: unat_drop_bit flip: unat_eq_zero)
  have d0: "unat ?d0 = unat d" using assms(1) by (simp add: unat_ucast_u32)
  have dn: "?d0 \<noteq> 0" using d0 assms(2) by (metis unat_eq_zero unsigned_0)
  have n1: "unat ?n1 = unat n div 2 ^ 32" using unat_u64_bound [of n] by (simp add: unat_ucast_u32 unat_drop_bit)
  have n0: "unat ?n0 = unat n mod 2 ^ 32" by (rule unat_ucast_u32)
  let ?h = "unat n div 2 ^ 32" and ?l = "unat n mod 2 ^ 32"
  have n: "unat n = ?h * 2 ^ 32 + ?l" by simp
  have "?h mod unat d < unat d" using assms(2) by (simp add: unat_gt_0)
  define N where "N = (push_bit 32 1 :: u64) * ucast (?n1 mod ?d0) + ucast ?n0"
  have r: "unat (ucast (?n1 mod ?d0) :: u64) = ?h mod unat d"
    unfolding unat_ucast_u64 by (simp add: unat_mod_distrib n1 d0)
  have lt: "?h mod unat d * 2 ^ 32 + ?l < unat d * 2 ^ 32"
    by (rule digit_bound [OF \<open>?h mod unat d < unat d\<close>]) simp
  have lt64: "?h mod unat d * 2 ^ 32 + ?l < 2 ^ 64" using lt assms(1) by simp
  have N: "unat N = ?h mod unat d * 2 ^ 32 + ?l"
  proof -
    have "unat N = (2 ^ 32 * (?h mod unat d) + ?l) mod 2 ^ 64"
      unfolding N_def unat_mac r by (simp only: unat_ucast_u64 n0)
    then show ?thesis using lt64 by (simp add: mult.commute)
  qed
  have "unat N div unat ?d0 < 2 ^ 32" unfolding N d0 using lt by (simp add: less_mult_imp_div_less mult.commute)
  from divl_ok [OF dn this] obtain q where q: "divl N ?d0 = ret q" "unat q = (?h mod unat d * 2 ^ 32 + ?l) div unat d"
    using N d0 by auto
  have run: "udiv64 n d = ret (ucast q + push_bit 32 1 * ucast (?n1 div ?d0))"
    using z dn q(1) by (simp add: udiv64_def Let_def N_def)
  have "unat d \<noteq> 0" using assms(2) by (simp add: unat_eq_zero)
  then have val: "unat n div unat d = ?h div unat d * 2 ^ 32 + (?h mod unat d * 2 ^ 32 + ?l) div unat d"
    using split_div [of "unat d" ?h "2 ^ 32" ?l] n by metis
  have q1: "unat (ucast (?n1 div ?d0) :: u64) = ?h div unat d"
    unfolding unat_ucast_u64 by (simp add: unat_div_distrib n1 d0)
  have "unat (ucast q + push_bit 32 1 * ucast (?n1 div ?d0) :: u64) = (2 ^ 32 * (?h div unat d) + unat q) mod 2 ^ 64"
    unfolding add.commute [of "ucast q"] unat_mac q1 by (simp only: unat_ucast_u64)
  also have "2 ^ 32 * (?h div unat d) + unat q = unat n div unat d" unfolding val q(2) by (simp only: mult.commute)
  also have "unat n div unat d mod 2 ^ 64 = unat n div unat d"
    using div_le_dividend [of "unat n" "unat d"] unat_u64_bound [of n] by (intro mod_less) linarith
  finally show ?thesis using run by blast
qed

lemma udiv64_large:
  assumes "2 ^ 32 \<le> unat d" and nd: "unat d \<le> unat n"
  shows "\<exists>q. udiv64 n d = ret q \<and> unat q = unat n div unat d"
proof -
  define d1 where "d1 = (ucast (drop_bit 32 d) :: u32)"
  define s where "s = nlz d1"
  have d1: "unat d1 = unat d div 2 ^ 32" using unat_u64_bound [of d] by (simp add: d1_def unat_ucast_u32 unat_drop_bit)
  have "1 \<le> unat d div 2 ^ 32" using div_le_mono [OF assms(1), of "2 ^ 32"] by simp
  then have dn: "d1 \<noteq> 0" using d1 by auto
  then have nz: "drop_bit 32 d \<noteq> 0" by (auto simp: d1_def)
  have s: "2 ^ 31 \<le> unat d1 * 2 ^ s" "unat d1 * 2 ^ s < 2 ^ 32" "s \<le> 31" using nlz_normalises [OF dn] by (auto simp: s_def)
  have "unat d = unat d1 * 2 ^ 32 + unat d mod 2 ^ 32" using d1 by simp
  then have "unat d < Suc (unat d1) * 2 ^ 32" by simp
  then have "unat d * 2 ^ s < Suc (unat d1) * 2 ^ 32 * 2 ^ s" by simp
  also have "\<dots> = Suc (unat d1) * 2 ^ s * 2 ^ 32" by (simp only: ac_simps)
  also have "\<dots> \<le> 2 ^ 32 * 2 ^ 32"
  proof (intro mult_le_mono1)
    have "(2 :: nat) ^ 32 = 2 ^ (32 - s) * 2 ^ s" using s(3) by (simp flip: power_add)
    then have "unat d1 < 2 ^ (32 - s)" using s(2) by (metis mult_less_cancel2)
    then have "Suc (unat d1) * 2 ^ s \<le> 2 ^ (32 - s) * 2 ^ s" by (intro mult_le_mono1) simp
    then show "Suc (unat d1) * 2 ^ s \<le> 2 ^ 32" using s(3) by (simp flip: power_add)
  qed
  finally have p: "unat (push_bit s d) = unat d * 2 ^ s" by (intro unat_push_bit_small) simp
  define v where "v = (ucast (drop_bit 32 (push_bit s d)) :: u32)"
  have "unat d * 2 ^ s < 2 ^ 64" using p unat_u64_bound [of "push_bit s d"] by simp
  then have v: "unat v = unat d * 2 ^ s div 2 ^ 32" by (simp add: v_def unat_ucast_u32 unat_drop_bit p)
  have "unat d1 * 2 ^ s * 2 ^ 32 \<le> unat d * 2 ^ s" using \<open>unat d = _\<close> by (metis (no_types, lifting) le_add1 mult.assoc mult.commute mult_le_mono1)
  then have "unat d1 * 2 ^ s \<le> unat v" unfolding v by (simp add: less_eq_div_iff_mult_less_eq)
  then have v31: "2 ^ 31 \<le> unat v" using s(1) by linarith
  have vn: "v \<noteq> 0" using v31 by auto
  define N where "N = drop_bit 1 n"
  have N: "unat N = unat n div 2" by (simp add: N_def unat_drop_bit)
  have "unat N div unat v \<le> unat N div 2 ^ 31" using v31 by (intro div_le_mono2) auto
  also have "\<dots> < 2 ^ 32" using N unat_u64_bound [of n] by auto
  finally obtain q1 where q1: "divl N v = ret q1" "unat q1 = unat n div 2 div unat v" using divl_ok [OF vn] N by metis
  define q :: u64 where "q = ucast (drop_bit (31 - s) q1)"
  have q: "unat q = unat n div 2 div unat v div 2 ^ (31 - s)" by (simp add: q_def unat_ucast_u64 unat_drop_bit q1(2))
  let ?Q = "unat n div unat d"
  have est: "?Q \<le> unat q" "unat q \<le> Suc ?Q" using estimate [OF unat_u64_bound [of n] s(3) v v31] unfolding q by auto
  have Q1: "1 \<le> ?Q" using nd assms(1) by (simp add: div_greater_zero_iff Suc_le_eq)
  have run: "udiv64 n d = ret (if n - (q - 1) * d < d then q - 1 else q)"
  proof -
    have "\<not> n < d" using nd by (simp add: word_less_nat_alt)
    then show ?thesis
      unfolding udiv64_def Let_def d1_def [symmetric] s_def [symmetric] v_def [symmetric] N_def [symmetric] q1(1) bindE_simps q_def
      using nz by (simp only: if_False)
  qed
  have qm: "unat (q - 1) = unat q - 1" using est(1) Q1 unat_sub [of 1 q] by (simp add: word_le_nat_alt)
  have dm: "unat n mod unat d < unat d" "unat n = ?Q * unat d + unat n mod unat d" using nd assms(1) by auto
  have prod: "unat ((q - 1) * d) = (unat q - 1) * unat d \<and> unat (n - (q - 1) * d) = unat n - (unat q - 1) * unat d"
  proof -
    have "(unat q - 1) * unat d \<le> ?Q * unat d" using est(2) by (intro mult_le_mono1) simp
    also have "\<dots> \<le> unat n" by simp
    finally have le: "(unat q - 1) * unat d \<le> unat n" .
    then have "unat ((q - 1) * d) = (unat q - 1) * unat d"
      using unat_u64_bound [of n] by (simp add: unat_word_ariths(2) qm)
    then show ?thesis using le by (simp add: unat_sub word_le_nat_alt)
  qed
  have "unat (if n - (q - 1) * d < d then q - 1 else q) = ?Q"
  proof (cases "unat q = ?Q")
    case True
    have "unat d \<le> unat n - (?Q - 1) * unat d" using dm Q1 by (cases ?Q) auto
    then show ?thesis using True prod by (simp add: word_less_nat_alt)
  next
    case False
    then have "unat q = Suc ?Q" using est by simp
    moreover have "unat n - ?Q * unat d < unat d" using dm by (metis diff_add_inverse)
    ultimately show ?thesis using prod qm by (simp add: word_less_nat_alt)
  qed
  then show ?thesis using run by auto
qed

lemma udiv64_ok:
  assumes "d \<noteq> 0"
  shows "udiv64 n d = ret (n div d)"
proof -
  consider "unat d < 2 ^ 32" | "2 ^ 32 \<le> unat d" "unat d \<le> unat n" | "2 ^ 32 \<le> unat d" "unat n < unat d" by linarith
  then have "\<exists>q. udiv64 n d = ret q \<and> unat q = unat n div unat d"
  proof cases
    case 3
    then have "1 \<le> unat d div 2 ^ 32" using div_le_mono [OF 3(1), of "2 ^ 32"] by simp
    then have "drop_bit 32 d \<noteq> 0" using unat_drop_bit [of 32 d] by auto
    then show ?thesis using 3 by (simp add: udiv64_def word_less_nat_alt)
  qed (use udiv64_small udiv64_large assms in auto)
  then obtain q where "udiv64 n d = ret q" "unat q = unat (n div d)" by (auto simp: unat_div_distrib)
  then show ?thesis by (simp add: word_unat_eq_iff)
qed

lemma word_of_int_abs: "n < 0 \<Longrightarrow> - word_of_int n = (word_of_int \<bar>n\<bar> :: u64)"
  by simp

lemma unat_abs:
  assumes "- (2 ^ 63) \<le> n" and "n < 2 ^ 63"
  shows "uint (if n \<ge> 0 then word_of_int n else - word_of_int n :: u64) = \<bar>n\<bar>"
proof -
  have "(if n \<ge> 0 then word_of_int n else - word_of_int n :: u64) = word_of_int \<bar>n\<bar>" by simp
  moreover have "uint (word_of_int \<bar>n\<bar> :: u64) = \<bar>n\<bar>" using assms unfolding uint_word_of_int by (intro mod_pos_pos_trivial) auto
  ultimately show ?thesis by simp
qed

lemma sint_u64: "uint (w :: u64) < 2 ^ 63 \<Longrightarrow> sint w = uint w"
  unfolding sint_uint by (intro signed_take_bit_int_eq_self) (auto intro: order_trans [of _ 0])

section \<open>Properties\<close>



text \<open>The remainder of a division by more than 32 bits is wrong: only its low half is returned.\<close>

lemma umoddi3_truncates: "umoddi3 0x100000000 0x200000000 = ret 0"
  by (simp add: umoddi3_def umod64_def udiv64_ok)

end
