(* ===== verification/Timer.thy ===== *)
theory Timer
  imports Synch Arith64
begin

text \<open>
  The timer, \<open>devices/timer.c\<close>: the clock interrupt, sleeping for a number of ticks and the calibration
  of the delay loop. The sleepers are the list \<open>block_thread_list\<close> of threads and the tick each is to
  be woken at; \<open>closet_tick\<close> caches the first of these ticks, 0 when there is none.
  \<open>timer_sleep\<close> is split at \<open>thread_block\<close>, which is its last effect. The programming of the 8254 chip
  is not modelled; the time the delay loop takes is a parameter of the calibration.
\<close>

section \<open>Ticks\<close>

definition timer_ticks :: "kstate \<Rightarrow> int" where
  "timer_ticks s = ticks s"

definition timer_elapsed :: "kstate \<Rightarrow> int \<Rightarrow> int" where
  "timer_elapsed s thn = int64 (timer_ticks s - thn)"

section \<open>Sleeping\<close>

definition compare_tick :: "ptr \<times> int \<Rightarrow> ptr \<times> int \<Rightarrow> bool" where
  "compare_tick a b \<longleftrightarrow> snd a < snd b"

definition timer_sleep :: "bool \<Rightarrow> kstate \<Rightarrow> int \<Rightarrow> kstate exec" where
  "timer_sleep mem s n =
     bindE (thread_current s) (\<lambda>cur.
     if \<not> mem then fail Null_deref
     else
       let wakeup_tick = int64 (timer_ticks s + n);
           s = (if closet_tick s = 0 \<or> closet_tick s > wakeup_tick then s\<lparr>closet_tick := wakeup_tick\<rparr> else s);
           s = s\<lparr>block_thread_list := insert_by compare_tick (cur, wakeup_tick) (block_thread_list s)\<rparr> in
       thread_block s)"

text \<open>The loop of \<open>wake_up\<close>: \<open>es\<close> is the rest of the list.\<close>

fun wake_up_loop :: "kstate \<Rightarrow> int \<Rightarrow> (ptr \<times> int) list \<Rightarrow> kstate exec" where
  "wake_up_loop s cur_tick [] = ret (s\<lparr>block_thread_list := []\<rparr>)"
| "wake_up_loop s cur_tick ((t, w) # es) =
     (if w \<le> cur_tick then bindE (thread_unblock (s\<lparr>block_thread_list := es\<rparr>) t) (\<lambda>s. wake_up_loop s cur_tick es)
      else ret (s\<lparr>block_thread_list := (t, w) # es\<rparr>))"

definition wake_up :: "kstate \<Rightarrow> int \<Rightarrow> kstate exec" where
  "wake_up s cur_tick =
     bindE (wake_up_loop s cur_tick (block_thread_list s)) (\<lambda>s.
     ret (s\<lparr>closet_tick := (case block_thread_list s of [] \<Rightarrow> 0 | e # _ \<Rightarrow> snd e)\<rparr>))"

definition timer_interrupt :: "kstate \<Rightarrow> kstate exec" where
  "timer_interrupt s =
     (let s = s\<lparr>ticks := int64 (ticks s + 1)\<rparr> in
      bindE (thread_tick s) (\<lambda>s.
      let cur_tick = timer_ticks s in
      if closet_tick s \<noteq> 0 \<and> cur_tick \<ge> closet_tick s then wake_up s cur_tick else ret s))"

section \<open>Delays\<close>

text \<open>The number of rounds of the delay loop.\<close>

function busy_wait :: "int \<Rightarrow> nat" where
  "busy_wait loops = (if loops > 0 then Suc (busy_wait (loops - 1)) else 0)"
  by auto
termination by (relation "measure nat") auto

declare busy_wait.simps [simp del]

datatype sleep = Slept kstate | Spun nat

definition real_time_sleep :: "bool \<Rightarrow> kstate \<Rightarrow> u32 \<Rightarrow> int \<Rightarrow> int \<Rightarrow> sleep exec" where
  "real_time_sleep mem s loops_per_tick num denom =
     (let n = cdiv (int64 (num * TIMER_FREQ)) denom in
      if n > 0 then bindE (timer_sleep mem s n) (\<lambda>s. ret (Slept s))
      else
        ASSERT (cmod denom 1000 = 0) (
        ret (Spun (busy_wait (cdiv (int64 (cdiv (int64 (uint loops_per_tick * num)) 1000 * TIMER_FREQ)) (cdiv denom 1000))))))"

definition timer_msleep :: "bool \<Rightarrow> kstate \<Rightarrow> u32 \<Rightarrow> int \<Rightarrow> sleep exec" where
  "timer_msleep mem s lpt ms = real_time_sleep mem s lpt ms 1000"

definition timer_usleep :: "bool \<Rightarrow> kstate \<Rightarrow> u32 \<Rightarrow> int \<Rightarrow> sleep exec" where
  "timer_usleep mem s lpt us = real_time_sleep mem s lpt us (1000 * 1000)"

definition timer_nsleep :: "bool \<Rightarrow> kstate \<Rightarrow> u32 \<Rightarrow> int \<Rightarrow> sleep exec" where
  "timer_nsleep mem s lpt ns = real_time_sleep mem s lpt ns (1000 * 1000 * 1000)"

section \<open>Calibration\<close>

text \<open>The parameter \<open>too_many_loops\<close> says whether that many rounds take more than a tick.\<close>

partial_function (option) calibrate_double :: "(u32 \<Rightarrow> bool) \<Rightarrow> u32 \<Rightarrow> u32 exec" where
  "calibrate_double too_many_loops lpt =
     (if too_many_loops (push_bit 1 lpt) then ret lpt
      else let lpt = push_bit 1 lpt in ASSERT (lpt \<noteq> 0) (calibrate_double too_many_loops lpt))"

partial_function (option) calibrate_refine :: "(u32 \<Rightarrow> bool) \<Rightarrow> u32 \<Rightarrow> u32 \<Rightarrow> u32 \<Rightarrow> u32 exec" where
  "calibrate_refine too_many_loops high_bit test_bit lpt =
     (if test_bit \<noteq> drop_bit 10 high_bit then
        calibrate_refine too_many_loops high_bit (drop_bit 1 test_bit)
          (if too_many_loops (or high_bit test_bit) then lpt else or lpt test_bit)
      else ret lpt)"

definition timer_calibrate :: "(u32 \<Rightarrow> bool) \<Rightarrow> u32 exec" where
  "timer_calibrate too_many_loops =
     bindE (calibrate_double too_many_loops (push_bit 10 1)) (\<lambda>high_bit.
     calibrate_refine too_many_loops high_bit (drop_bit 1 high_bit) high_bit)"

section \<open>Sleepers\<close>

interpretation tck: list_less compare_tick
  by unfold_locales (auto simp: compare_tick_def)

text \<open>
  Every sleeper is a blocked thread, once in the list; the list is in order of the wake-up ticks,
  all of them positive; and \<open>closet_tick\<close> is the first of them.
\<close>

definition sleep_wf :: "kstate \<Rightarrow> bool" where
  "sleep_wf s \<longleftrightarrow> distinct (map fst (block_thread_list s)) \<and> ordered compare_tick (block_thread_list s) \<and>
     (\<forall>(p, w) \<in> set (block_thread_list s). 0 < w \<and> p \<noteq> idle_thread s \<and> (\<exists>t. threads s p = Some t \<and> status t = THREAD_BLOCKED)) \<and>
     closet_tick s = (case block_thread_list s of [] \<Rightarrow> 0 | e # _ \<Rightarrow> snd e)"

lemma wake_up_loop_ok:
  assumes "sched_wf s" and "distinct (map fst es)" and "ordered compare_tick es"
    and "\<forall>(p, w) \<in> set es. p \<noteq> idle_thread s \<and> (\<exists>t. threads s p = Some t \<and> status t = THREAD_BLOCKED)"
  shows "\<exists>s'. wake_up_loop s tk es = ret s' \<and> sched_wf s' \<and> block_thread_list s' = filter (\<lambda>e. tk < snd e) es \<and>
    current s' = current s \<and> idle_thread s' = idle_thread s \<and> ticks s' = ticks s \<and> in_intr s' = in_intr s \<and>
    set (ready_list s') = set (ready_list s) \<union> fst ` {e \<in> set es. snd e \<le> tk} \<and>
    (\<forall>p. p \<notin> fst ` {e \<in> set es. snd e \<le> tk} \<longrightarrow> threads s' p = threads s p)"
  using assms
proof (induction es arbitrary: s)
  case Nil
  have "sched_wf (s\<lparr>block_thread_list := []\<rparr>)" using Nil(1) sched_wf_cong [of "s\<lparr>block_thread_list := []\<rparr>" s] by simp
  then show ?case by simp
next
  case (Cons e es)
  obtain p w where e: "e = (p, w)" by (cases e)
  show ?case
  proof (cases "w \<le> tk")
    case True
    let ?s = "s\<lparr>block_thread_list := es\<rparr>"
    obtain t where t: "p \<noteq> idle_thread s" "threads s p = Some t" "status t = THREAD_BLOCKED" using Cons.prems(4) e by auto
    have w1: "sched_wf ?s" using Cons.prems(1) sched_wf_cong [of ?s s] by simp
    from thread_unblock_ok [OF w1, of p t] t obtain s1 where
      u: "thread_unblock ?s p = ret s1" "sched_wf s1" "current s1 = current s" "threads s1 = (threads s)(p \<mapsto> t\<lparr>status := THREAD_READY\<rparr>)"
        "idle_thread s1 = idle_thread s" "in_intr s1 = in_intr s" "set (ready_list s1) = insert p (set (ready_list s))"
      by (auto simp: pri.set_insert_by)
    have tk: "ticks s1 = ticks s" using u(1) by (auto simp: thread_unblock_def Let_def upd_thread_def split: if_splits)
    have np: "p \<notin> fst ` set es" using Cons.prems(2) e by auto
    have nq: "q \<noteq> p" if "(q, v) \<in> set es" for q v using np that by force
    have "\<forall>(q, v) \<in> set es. q \<noteq> idle_thread s1 \<and> (\<exists>t. threads s1 q = Some t \<and> status t = THREAD_BLOCKED)"
      using Cons.prems(4) nq unfolding u(4,5) by auto
    from Cons.IH [OF u(2) _ _ this] Cons.prems(2,3) obtain s' where
      i: "wake_up_loop s1 tk es = ret s'" "sched_wf s'" "block_thread_list s' = filter (\<lambda>e. tk < snd e) es"
        "current s' = current s1" "idle_thread s' = idle_thread s1" "ticks s' = ticks s1" "in_intr s' = in_intr s1"
        "set (ready_list s') = set (ready_list s1) \<union> fst ` {e \<in> set es. snd e \<le> tk}"
        "\<forall>q. q \<notin> fst ` {e \<in> set es. snd e \<le> tk} \<longrightarrow> threads s' q = threads s1 q"
      by (auto simp: tck.ordered_Cons)
    have im: "fst ` {e' \<in> set (e # es). snd e' \<le> tk} = insert p (fst ` {e \<in> set es. snd e \<le> tk})" using True e by (auto simp: image_iff)
    have "wake_up_loop s tk (e # es) = ret s'" using True e u(1) i(1) by simp
    moreover have "block_thread_list s' = filter (\<lambda>e. tk < snd e) (e # es)" using i(3) True e by simp
    moreover have "set (ready_list s') = set (ready_list s) \<union> fst ` {e' \<in> set (e # es). snd e' \<le> tk}"
      unfolding im i(8) u(7) by auto
    moreover have "threads s' q = threads s q" if "q \<notin> fst ` {e' \<in> set (e # es). snd e' \<le> tk}" for q
      using that i(9) u(4) unfolding im by simp
    ultimately show ?thesis using i(2,4-7) u(3,5,6) tk by auto
  next
    case False
    have f: "\<forall>e' \<in> set (e # es). tk < snd e'" using Cons.prems(3) False e by (fastforce simp: tck.ordered_Cons compare_tick_def)
    then have z: "{e' \<in> set (e # es). snd e' \<le> tk} = {}" "filter (\<lambda>e. tk < snd e) (e # es) = e # es"
      by (auto simp: filter_id_conv simp del: filter.simps)
    have "sched_wf (s\<lparr>block_thread_list := e # es\<rparr>)" using Cons.prems(1) sched_wf_cong [of "s\<lparr>block_thread_list := e # es\<rparr>" s] by simp
    then show ?thesis unfolding z(1) z(2) using False e by simp
  qed
qed

lemma int64_id: "- (2 ^ 63) \<le> x \<Longrightarrow> x < 2 ^ 63 \<Longrightarrow> int64 x = x"
  by (simp add: int64_def sint_sbintrunc' signed_take_bit_int_eq_self)

lemma thread_tick_plain:
  assumes "sched_wf s" and "\<not> thread_mlfqs s"
  shows "\<exists>s'. thread_tick s = ret s' \<and> threads s' = threads s \<and> current s' = current s \<and> ready_list s' = ready_list s \<and>
    idle_thread s' = idle_thread s \<and> destruction_req s' = destruction_req s \<and> in_intr s' = in_intr s \<and> ticks s' = ticks s \<and>
    closet_tick s' = closet_tick s \<and> block_thread_list s' = block_thread_list s \<and> thread_mlfqs s' = thread_mlfqs s"
proof -
  obtain t where "threads s (current s) = Some t" using assms(1) by (auto simp: sched_wf_def)
  then show ?thesis using assms by (simp add: thread_tick_def the_thread_def Let_def)
qed

lemma thread_unblock_mlfqs: "thread_unblock s t = ret s' \<Longrightarrow> thread_mlfqs s' = thread_mlfqs s"
  by (auto simp: thread_unblock_def Let_def split: if_splits)

lemma wake_up_loop_mlfqs: "wake_up_loop s tk es = ret s' \<Longrightarrow> thread_mlfqs s' = thread_mlfqs s"
proof (induction es arbitrary: s)
  case (Cons e es)
  then show ?case by (cases e) (auto dest: thread_unblock_mlfqs split: if_splits)
qed auto

lemma sleep_wf_rest:
  assumes "sleep_wf s" and f: "block_thread_list s' = filter (\<lambda>e. tk < snd e) (block_thread_list s)"
    and c: "closet_tick s' = (case block_thread_list s' of [] \<Rightarrow> 0 | e # _ \<Rightarrow> snd e)" and i: "idle_thread s' = idle_thread s"
    and k: "\<And>p. p \<in> fst ` set (block_thread_list s') \<Longrightarrow> threads s' p = threads s p"
  shows "sleep_wf s'"
proof -
  have "distinct (map fst (block_thread_list s'))" using assms(1) unfolding f sleep_wf_def by (simp add: distinct_map_filter)
  moreover have "ordered compare_tick (block_thread_list s')" using assms(1) unfolding f sleep_wf_def ordered_def by (simp add: sorted_wrt_filter)
  moreover have "0 < w \<and> p \<noteq> idle_thread s' \<and> (\<exists>t. threads s' p = Some t \<and> status t = THREAD_BLOCKED)" if "(p, w) \<in> set (block_thread_list s')" for p w
  proof -
    have "threads s' p = threads s p" using k that by force
    moreover have "(p, w) \<in> set (block_thread_list s)" using that f by simp
    ultimately show ?thesis using assms(1) i unfolding sleep_wf_def by auto
  qed
  ultimately show ?thesis unfolding sleep_wf_def c by blast
qed

lemma timer_interrupt_ok:
  assumes wf: "sched_wf s" "sleep_wf s" and "\<not> thread_mlfqs s" and t: "0 \<le> ticks s" "ticks s + 1 < 2 ^ 63"
  shows "\<exists>s'. timer_interrupt s = ret s' \<and> sched_wf s' \<and> sleep_wf s' \<and> ticks s' = ticks s + 1 \<and> current s' = current s \<and>
    \<not> thread_mlfqs s' \<and> block_thread_list s' = filter (\<lambda>e. ticks s + 1 < snd e) (block_thread_list s) \<and>
    set (ready_list s') = set (ready_list s) \<union> fst ` {e \<in> set (block_thread_list s). snd e \<le> ticks s + 1}"
proof -
  let ?s = "s\<lparr>ticks := ticks s + 1\<rparr>" and ?tk = "ticks s + 1"
  have tk: "int64 (ticks s + 1) = ?tk" using t by (intro int64_id) auto
  have w0: "sched_wf ?s" using wf(1) sched_wf_cong [of ?s s] by simp
  from thread_tick_plain [OF w0] assms(3) obtain s1 where
    h: "thread_tick ?s = ret s1" "threads s1 = threads s" "current s1 = current s" "ready_list s1 = ready_list s" "idle_thread s1 = idle_thread s"
      "destruction_req s1 = destruction_req s" "ticks s1 = ?tk" "closet_tick s1 = closet_tick s" "block_thread_list s1 = block_thread_list s"
      "\<not> thread_mlfqs s1" by auto
  have w1: "sched_wf s1" using wf(1) sched_wf_cong [of s1 s] h by simp
  have run: "timer_interrupt s = (if closet_tick s \<noteq> 0 \<and> ?tk \<ge> closet_tick s then wake_up s1 ?tk else ret s1)"
    using h by (simp add: timer_interrupt_def Let_def tk timer_ticks_def)
  show ?thesis
  proof (cases "closet_tick s \<noteq> 0 \<and> ?tk \<ge> closet_tick s")
    case True
    have pre: "distinct (map fst (block_thread_list s1))" "ordered compare_tick (block_thread_list s1)"
      "\<forall>(p, w) \<in> set (block_thread_list s1). p \<noteq> idle_thread s1 \<and> (\<exists>t. threads s1 p = Some t \<and> status t = THREAD_BLOCKED)"
      using wf(2) unfolding sleep_wf_def h by auto
    from wake_up_loop_ok [OF w1 pre, of ?tk] obtain s2 where
      l: "wake_up_loop s1 ?tk (block_thread_list s1) = ret s2" "sched_wf s2" "block_thread_list s2 = filter (\<lambda>e. ?tk < snd e) (block_thread_list s)"
        "current s2 = current s" "idle_thread s2 = idle_thread s" "ticks s2 = ?tk"
        "set (ready_list s2) = set (ready_list s) \<union> fst ` {e \<in> set (block_thread_list s). snd e \<le> ?tk}"
        "\<forall>p. p \<notin> fst ` {e \<in> set (block_thread_list s). snd e \<le> ?tk} \<longrightarrow> threads s2 p = threads s p"
      unfolding h by auto
    define s3 where "s3 = s2\<lparr>closet_tick := (case block_thread_list s2 of [] \<Rightarrow> 0 | e # _ \<Rightarrow> snd e)\<rparr>"
    have "timer_interrupt s = ret s3" using True run l(1) by (simp add: wake_up_def s3_def)
    moreover have "sched_wf s3" using l(2) sched_wf_cong [of s3 s2] by (simp add: s3_def)
    moreover have "threads s3 p = threads s p" if p: "p \<in> fst ` set (block_thread_list s3)" for p
    proof -
      obtain w where w: "(p, w) \<in> set (block_thread_list s)" "?tk < w" using p l(3) by (force simp: s3_def)
      have "w' = w" if "(p, w') \<in> set (block_thread_list s)" for w'
        using eq_key_imp_eq_value [OF _ that w(1)] wf(2) by (simp add: sleep_wf_def)
      then have "p \<notin> fst ` {e \<in> set (block_thread_list s). snd e \<le> ?tk}" using w(2) by force
      then show ?thesis using l(8) by (simp add: s3_def)
    qed
    moreover from this have "sleep_wf s3" by (intro sleep_wf_rest [OF wf(2), of s3 ?tk]) (use l(3,5) in \<open>simp_all add: s3_def\<close>)
    moreover have "\<not> thread_mlfqs s3" using wake_up_loop_mlfqs [OF l(1)] h(10) by (simp add: s3_def)
    moreover have "ticks s3 = ?tk" "current s3 = current s" "block_thread_list s3 = block_thread_list s2" "ready_list s3 = ready_list s2"
      using l(4,6) by (simp_all add: s3_def)
    ultimately show ?thesis using l(3,7) by metis
  next
    case False
    have later: "\<forall>e \<in> set (block_thread_list s). ?tk < snd e"
    proof (cases "block_thread_list s")
      case (Cons e es)
      then have "closet_tick s = snd e" "0 < snd e" "\<forall>e' \<in> set es. \<not> compare_tick e' e"
        using wf(2) unfolding sleep_wf_def by (auto simp: tck.ordered_Cons)
      then show ?thesis using False Cons by (fastforce simp: compare_tick_def)
    qed simp
    then have z: "{e \<in> set (block_thread_list s). snd e \<le> ?tk} = {}" "filter (\<lambda>e. ?tk < snd e) (block_thread_list s) = block_thread_list s"
      by (auto simp: filter_id_conv)
    have "sleep_wf s1" using wf(2) h by (simp add: sleep_wf_def)
    moreover have "timer_interrupt s = ret s1" using run False by simp
    ultimately show ?thesis unfolding z using w1 h by (intro exI [of _ s1]) simp
  qed
qed

definition clock_of :: "kstate \<Rightarrow> (ptr \<times> int) list \<times> int \<times> int \<times> bool" where
  "clock_of s = (block_thread_list s, closet_tick s, ticks s, thread_mlfqs s)"

lemma schedule_clock:
  assumes "schedule s = ret s'"
  shows "clock_of s' = clock_of s"
proof -
  obtain nxt s1 where n: "next_thread_to_run s = (nxt, s1)" by fastforce
  then have s1: "clock_of s1 = clock_of s" by (auto simp: next_thread_to_run_def clock_of_def split: list.splits)
  define s2 where "s2 = (upd_thread s1 nxt (\<lambda>t. t\<lparr>status := THREAD_RUNNING\<rparr>))\<lparr>thread_ticks := 0\<rparr>"
  have s2: "clock_of s2 = clock_of s" using s1 by (simp add: s2_def clock_of_def upd_thread_def)
  have "\<exists>D. s' = s2 \<or> s' = s2\<lparr>current := nxt\<rparr> \<or> s' = s2\<lparr>destruction_req := D, current := nxt\<rparr>"
    using assms unfolding schedule_def n Let_def prod.case s2_def [symmetric] bindE_eq_ret by (auto split: if_splits)
  then show ?thesis using s2 by (auto simp: clock_of_def)
qed

lemma thread_block_timer:
  assumes "thread_block s = ret s'"
  shows "block_thread_list s' = block_thread_list s" "closet_tick s' = closet_tick s" "ticks s' = ticks s" "thread_mlfqs s' = thread_mlfqs s"
proof -
  obtain c where "schedule (upd_thread s c (\<lambda>t. t\<lparr>status := THREAD_BLOCKED\<rparr>)) = ret s'"
    using assms by (auto simp: thread_block_def split: if_splits)
  from schedule_clock [OF this] show "block_thread_list s' = block_thread_list s" "closet_tick s' = closet_tick s" "ticks s' = ticks s"
    "thread_mlfqs s' = thread_mlfqs s" by (simp_all add: clock_of_def upd_thread_def)
qed

lemma timer_sleep_ok:
  assumes wf: "sched_wf s" "sleep_wf s" and i: "\<not> in_intr s" and ni: "current s \<noteq> idle_thread s"
    and t: "0 \<le> ticks s" "0 < n" "ticks s + n < 2 ^ 63"
  shows "\<exists>s'. timer_sleep True s n = ret s' \<and> sched_wf s' \<and> sleep_wf s' \<and> current s' = chosen s \<and> ticks s' = ticks s \<and>
    block_thread_list s' = insert_by compare_tick (current s, ticks s + n) (block_thread_list s)"
proof -
  let ?w = "ticks s + n" and ?l = "insert_by compare_tick (current s, ticks s + n) (block_thread_list s)"
  let ?c = "if closet_tick s = 0 \<or> closet_tick s > ticks s + n then ticks s + n else closet_tick s"
  let ?s = "s\<lparr>closet_tick := ?c, block_thread_list := ?l\<rparr>"
  have w: "int64 (ticks s + n) = ?w" using t by (intro int64_id) auto
  have w1: "sched_wf ?s" using wf(1) sched_wf_cong [of ?s s] by simp
  have ch: "chosen ?s = chosen s" by (simp add: chosen_def)
  from thread_block_ok [OF w1] i ch obtain s' where
    b: "thread_block ?s = ret s'" "sched_wf s'" "current s' = chosen s" "idle_thread s' = idle_thread s"
      "threads s' = ((threads s)(current s := map_option (\<lambda>t. t\<lparr>status := THREAD_BLOCKED\<rparr>) (threads s (current s))))
        (chosen s := map_option (\<lambda>t. t\<lparr>status := THREAD_RUNNING\<rparr>) (threads s (chosen s)))" by auto
  note f = thread_block_timer [OF b(1)]
  obtain c where c: "threads s (current s) = Some c" "status c = THREAD_RUNNING" using wf(1) by (auto simp: sched_wf_def)
  have chs: "chosen s = idle_thread s \<or> chosen s \<in> ready_set s" using wf(1) by (cases "ready_list s") (auto simp: chosen_def sched_wf_def base_wf_def)
  have nch: "current s \<noteq> chosen s" using chs ni c by (auto simp: ready_set_def)
  have old: "0 < v \<and> p \<noteq> idle_thread s \<and> (\<exists>t. threads s p = Some t \<and> status t = THREAD_BLOCKED)" if "(p, v) \<in> set (block_thread_list s)" for p v
    using wf(2) that unfolding sleep_wf_def by auto
  have keep: "threads s' p = threads s p" if "threads s p = Some t" "status t = THREAD_BLOCKED" "p \<noteq> idle_thread s" for p t
    using that chs c unfolding b(5) by (auto simp: ready_set_def)
  have nc: "current s \<notin> fst ` set (block_thread_list s)" using old c by force
  have o: "ordered compare_tick (block_thread_list s)" and d: "distinct (map fst (block_thread_list s))"
    and cl: "closet_tick s = (case block_thread_list s of [] \<Rightarrow> 0 | e # _ \<Rightarrow> snd e)" using wf(2) unfolding sleep_wf_def by blast+
  from tck.insert_by_split [OF o, of "(current s, ?w)"] obtain ys zs where
    sp: "block_thread_list s = ys @ zs" "?l = ys @ (current s, ?w) # zs" "\<forall>y \<in> set ys. snd y \<le> ?w" "\<forall>z \<in> set zs. ?w < snd z"
    by (metis compare_tick_def not_less snd_conv)
  have "distinct (map fst ?l)" using d [unfolded sp(1)] nc [unfolded sp(1)] unfolding sp(2) by auto
  moreover have "ordered compare_tick ?l"
    using o [unfolded sp(1)] sp(3,4) unfolding sp(2) by (fastforce simp: tck.ordered_append tck.ordered_Cons compare_tick_def)
  moreover have "0 < v \<and> p \<noteq> idle_thread s' \<and> (\<exists>t. threads s' p = Some t \<and> status t = THREAD_BLOCKED)" if "(p, v) \<in> set ?l" for p v
  proof (cases "(p, v) \<in> set (block_thread_list s)")
    case True
    then show ?thesis using old [OF True] keep b(4) by fastforce
  next
    case False
    then have "p = current s" "v = ?w" using that by (auto simp: tck.set_insert_by)
    then show ?thesis using t ni b(4) c nch unfolding b(5) by auto
  qed
  then have "\<forall>(p, v) \<in> set ?l. 0 < v \<and> p \<noteq> idle_thread s' \<and> (\<exists>t. threads s' p = Some t \<and> status t = THREAD_BLOCKED)" by blast
  moreover have "?c = (case ?l of [] \<Rightarrow> 0 | e # _ \<Rightarrow> snd e)"
  proof -
    have "\<forall>(p, v) \<in> set (block_thread_list s). 0 < v" using old by blast
    then have "\<forall>e \<in> set (ys @ zs). 0 < snd e" unfolding sp(1) by auto
    then show ?thesis unfolding sp(2) using cl [unfolded sp(1)] sp(3,4) by (cases ys; cases zs) auto
  qed
  ultimately have "sleep_wf s'" unfolding sleep_wf_def f by simp
  moreover have "timer_sleep True s n = ret s'"
  proof -
    have "s\<lparr>closet_tick := closet_tick s, block_thread_list := ?l\<rparr> = s\<lparr>block_thread_list := ?l\<rparr>" by simp
    then show ?thesis using b(1) wf(1)
      by (cases "closet_tick s = 0 \<or> closet_tick s > ticks s + n") (simp_all add: timer_sleep_def Let_def timer_ticks_def w)
  qed
  ultimately show ?thesis using b f by simp
qed

section \<open>Properties\<close>

text \<open>\<open>n\<close> timer interrupts in a row.\<close>

fun timer_interrupts :: "nat \<Rightarrow> kstate \<Rightarrow> kstate exec" where
  "timer_interrupts 0 s = ret s"
| "timer_interrupts (Suc n) s = bindE (timer_interrupt s) (timer_interrupts n)"

text \<open>
  C22. Sleeping threads wake on time: after \<open>n\<close> timer interrupts, none of which fails an assertion, the
  sleepers whose tick has come, and only they, are on the ready list, and the others still sleep in
  the order of their ticks.
\<close>

theorem alarm_on_time:
  assumes "sched_wf s" "sleep_wf s" and "\<not> thread_mlfqs s" and "0 \<le> ticks s" "ticks s + int n < 2 ^ 63"
    and "\<forall>e \<in> set (block_thread_list s). ticks s < snd e"
  shows "\<exists>s'. timer_interrupts n s = ret s' \<and> sched_wf s' \<and> sleep_wf s' \<and> ticks s' = ticks s + int n \<and> current s' = current s \<and>
    block_thread_list s' = filter (\<lambda>e. ticks s + int n < snd e) (block_thread_list s) \<and>
    set (ready_list s') = set (ready_list s) \<union> fst ` {e \<in> set (block_thread_list s). snd e \<le> ticks s + int n}"
  using assms
proof (induction n arbitrary: s)
  case (Suc n)
  from timer_interrupt_ok [OF Suc.prems(1-4)] Suc.prems(5) obtain s1 where
    a: "timer_interrupt s = ret s1" "sched_wf s1" "sleep_wf s1" "ticks s1 = ticks s + 1" "current s1 = current s" "\<not> thread_mlfqs s1"
      "block_thread_list s1 = filter (\<lambda>e. ticks s + 1 < snd e) (block_thread_list s)"
      "set (ready_list s1) = set (ready_list s) \<union> fst ` {e \<in> set (block_thread_list s). snd e \<le> ticks s + 1}" by auto
  have "\<forall>e \<in> set (block_thread_list s1). ticks s1 < snd e" by (simp add: a(4,7))
  with Suc.IH [OF a(2,3,6)] a(4) Suc.prems(4,5) obtain s' where
    b: "timer_interrupts n s1 = ret s'" "sched_wf s'" "sleep_wf s'" "ticks s' = ticks s1 + int n" "current s' = current s1"
      "block_thread_list s' = filter (\<lambda>e. ticks s1 + int n < snd e) (block_thread_list s1)"
      "set (ready_list s') = set (ready_list s1) \<union> fst ` {e \<in> set (block_thread_list s1). snd e \<le> ticks s1 + int n}" by auto
  have "block_thread_list s' = filter (\<lambda>e. ticks s + int (Suc n) < snd e) (block_thread_list s)"
    unfolding b(6) a(7) a(4) filter_filter by (rule filter_cong) auto
  moreover have "set (ready_list s') = set (ready_list s) \<union> fst ` {e \<in> set (block_thread_list s). snd e \<le> ticks s + int (Suc n)}"
  proof -
    have "{e \<in> set (block_thread_list s). snd e \<le> ticks s + int (Suc n)} =
      {e \<in> set (block_thread_list s). snd e \<le> ticks s + 1} \<union> {e \<in> set (block_thread_list s1). snd e \<le> ticks s1 + int n}"
      unfolding a(7) a(4) by auto
    then show ?thesis unfolding b(7) a(8) image_Un by auto
  qed
  ultimately show ?case using a b by simp
next
  case 0
  then have z: "{e \<in> set (block_thread_list s). snd e \<le> ticks s + int 0} = {}"
    "filter (\<lambda>e. ticks s + int 0 < snd e) (block_thread_list s) = block_thread_list s" by (auto simp: filter_id_conv)
  show ?case unfolding z using 0 by simp
qed

text \<open>
  \<open>timer_sleep\<close> for a positive number of ticks puts the running thread to sleep and runs the next
  one: it is on the list of sleepers with the right tick, behind those who wake no later, and the
  list and \<open>closet_tick\<close> stay consistent.
\<close>

theorem timer_sleep_correct:
  assumes "sched_wf s" "sleep_wf s" and "\<not> in_intr s" and "current s \<noteq> idle_thread s"
    and "0 \<le> ticks s" "0 < n" "ticks s + n < 2 ^ 63"
  shows "\<exists>s' ys zs. timer_sleep True s n = ret s' \<and> sched_wf s' \<and> sleep_wf s' \<and> current s' = chosen s \<and>
    block_thread_list s = ys @ zs \<and> block_thread_list s' = ys @ (current s, ticks s + n) # zs \<and>
    (\<forall>y \<in> set ys. snd y \<le> ticks s + n) \<and> (\<forall>z \<in> set zs. ticks s + n < snd z)"
proof -
  have "ordered compare_tick (block_thread_list s)" using assms(2) unfolding sleep_wf_def by blast
  from tck.insert_by_split [OF this, of "(current s, ticks s + n)"] timer_sleep_ok [OF assms] show ?thesis
    by (metis compare_tick_def not_less snd_conv)
qed

text \<open>Threads 2 and 3 of the example sleep until ticks 103 and 105 while thread 4 runs.\<close>

definition sample_sleepers :: kstate where
  "sample_sleepers = sample_kstate\<lparr>
     threads := [1 \<mapsto> sample_thread THREAD_BLOCKED 0, 2 \<mapsto> sample_thread THREAD_BLOCKED 31,
       3 \<mapsto> sample_thread THREAD_BLOCKED 31, 4 \<mapsto> sample_thread THREAD_RUNNING 20],
     current := 4, ready_list := [], block_thread_list := [(2, 103), (3, 105)], closet_tick := 103\<rparr>"

lemma sample_sleepers_wf: "sched_wf sample_sleepers" "sleep_wf sample_sleepers"
proof -
  show "sched_wf sample_sleepers"
    by (auto simp: sched_wf_def base_wf_def ready_set_def sample_sleepers_def sample_kstate_def sample_thread_def split: if_splits)
  show "sleep_wf sample_sleepers"
    by (simp add: sleep_wf_def tck.ordered_Cons compare_tick_def sample_sleepers_def sample_kstate_def sample_thread_def)
qed

theorem alarm_on_time_witness:
  "\<exists>s'. timer_interrupts 4 sample_sleepers = ret s' \<and> block_thread_list s' = [(3, 105)] \<and> set (ready_list s') = {2} \<and> ticks s' = 104"
proof -
  have f: "\<not> thread_mlfqs sample_sleepers" "ticks sample_sleepers = 100" "block_thread_list sample_sleepers = [(2, 103), (3, 105)]"
    "ready_list sample_sleepers = []" by (simp_all add: sample_sleepers_def sample_kstate_def)
  have e: "{e. (e = (2, 103) \<or> e = (3 :: ptr, 105 :: int)) \<and> snd e \<le> 104} = {(2, 103)}" by auto
  show ?thesis using alarm_on_time [OF sample_sleepers_wf f(1), of 4] by (auto simp: f e)
qed

theorem timer_sleep_correct_witness:
  "\<exists>s'. timer_sleep True sample_sleepers 4 = ret s' \<and> current s' = 1 \<and> sleep_wf s' \<and> (4, 104) \<in> set (block_thread_list s')"
proof -
  have f: "\<not> in_intr sample_sleepers" "ticks sample_sleepers = 100" "current sample_sleepers = 4" "idle_thread sample_sleepers = 1"
    "chosen sample_sleepers = 1" by (simp_all add: sample_sleepers_def sample_kstate_def chosen_def)
  show ?thesis using timer_sleep_correct [OF sample_sleepers_wf f(1), of 4] by (auto simp: f)
qed

text \<open>
  A thread whose wake-up tick is 0 is not woken, since 0 stands for no sleeper: at tick 100 a sleep
  of -100 ticks outlasts any number of timer interrupts.
\<close>

lemma sleep_until_tick_0:
  "\<exists>s'. timer_sleep True sample_kstate (- 100) = ret s' \<and> block_thread_list s' = [(2, 0)] \<and> closet_tick s' = 0 \<and>
     (\<forall>s''. timer_interrupt s' = ret s'' \<longrightarrow> block_thread_list s'' = [(2, 0)] \<and> closet_tick s'' = 0)"
proof -
  let ?s = "sample_kstate\<lparr>block_thread_list := [(2, 0)]\<rparr>"
  have i0: "int64 0 = 0" by (simp add: int64_def)
  have "sched_wf ?s" "\<not> in_intr ?s" using sample_kstate_wf sched_wf_cong [of ?s sample_kstate] by (simp_all add: sample_kstate_def)
  with thread_block_ok [of ?s] obtain s' where b: "thread_block ?s = ret s'" "sched_wf s'" by auto
  have "timer_sleep True sample_kstate (- 100) = ret s'"
    using b(1) sched_wf_current [OF sample_kstate_wf] i0
    by (simp add: timer_sleep_def timer_ticks_def sample_kstate_def insert_by_def Let_def)
  moreover have f: "block_thread_list s' = [(2, 0)]" "closet_tick s' = 0" using thread_block_timer [OF b(1)] by (simp_all add: sample_kstate_def)
  moreover have "\<not> thread_mlfqs s'"
    using thread_block_timer(4) [OF b(1)] by (simp add: sample_kstate_def)
  moreover have "sched_wf (s'\<lparr>ticks := v\<rparr>)" for v using b(2) sched_wf_cong [of "s'\<lparr>ticks := v\<rparr>" s'] by simp
  ultimately show ?thesis
    using thread_tick_plain [of "s'\<lparr>ticks := int64 (ticks s' + 1)\<rparr>"] by (auto simp: timer_interrupt_def Let_def)
qed

section \<open>The delay loop\<close>

lemma busy_wait_eq: "busy_wait n = nat n"
proof (induction n rule: busy_wait.induct)
  case (1 n)
  then show ?case by (subst busy_wait.simps) (auto simp: nat_diff_distrib' Suc_nat_eq_nat_zadd1 [symmetric] dest: sym)
qed

text \<open>
  The refinement tests each bit on top of \<open>high_bit\<close> alone and not on top of the bits already kept, so
  the result can be far more rounds than a tick takes: with 3277 rounds a tick it is 4092.
\<close>

lemma calibrate_refine_step:
  "test \<noteq> drop_bit 10 high \<Longrightarrow> calibrate_refine tm high test lpt =
     calibrate_refine tm high (drop_bit 1 test) (if tm (or high test) then lpt else or lpt test)"
  "calibrate_refine tm high (drop_bit 10 high) lpt = ret lpt"
  by (subst calibrate_refine.simps, simp)+

lemma timer_calibrate_overshoots:
  "timer_calibrate (\<lambda>n. 3277 \<le> unat n) = ret 4092"
proof -
  let ?tm = "\<lambda>n :: u32. 3277 \<le> unat n"
  have "calibrate_double ?tm 1024 = calibrate_double ?tm 2048" by (subst calibrate_double.simps) (simp add: push_bit_eq_mult)
  moreover have "calibrate_double ?tm 2048 = ret 2048" by (subst calibrate_double.simps) (simp add: push_bit_eq_mult)
  moreover have "calibrate_refine ?tm 2048 1024 2048 = ret 4092"
    using calibrate_refine_step(2) [of ?tm 2048]
    by (simp add: calibrate_refine_step(1))
  ultimately show ?thesis by (simp add: timer_calibrate_def push_bit_eq_mult drop_bit_eq_div)
qed

end
