(* ===== verification/Intq.thy ===== *)
theory Intq
  imports Synch
begin

text \<open>
  The interrupt queue, \<open>devices/intq.c\<close>: a ring of 64 bytes that interrupt handlers and threads
  share, with at most one thread waiting for each of its two conditions. A call that has to wait is
  modelled up to the point where the thread sleeps (in \<open>lock_acquire\<close> or in \<open>thread_block\<close>): the
  result is \<open>None\<close>, and the thread tests the condition again when it next runs. The queue is proved to
  be a bounded first-in first-out queue of 63 bytes.
\<close>

record intq =
  q_lock :: ptr
  not_full :: ptr
  not_empty :: ptr
  q_buf :: "u8 list"
  q_head :: int
  q_tail :: int

definition INTQ_BUFSIZE :: int where "INTQ_BUFSIZE = 64"

definition next_pos :: "int \<Rightarrow> int" where
  "next_pos pos = cmod (pos + 1) INTQ_BUFSIZE"

definition intq_init :: "kstate \<Rightarrow> ptr \<Rightarrow> u8 list \<Rightarrow> (intq \<times> kstate) exec" where
  "intq_init s l old_buf =
     bindE (lock_init s l) (\<lambda>s.
     ret (\<lparr>q_lock = l, not_full = NULL, not_empty = NULL, q_buf = old_buf, q_head = 0, q_tail = 0\<rparr>, s))"

definition intq_empty :: "intq \<Rightarrow> bool" where
  "intq_empty q \<longleftrightarrow> q_head q = q_tail q"

definition intq_full :: "intq \<Rightarrow> bool" where
  "intq_full q \<longleftrightarrow> next_pos (q_head q) = q_tail q"

text \<open>The two conditions a thread can wait for.\<close>

datatype condition = Not_empty | Not_full

fun waiter_of :: "intq \<Rightarrow> condition \<Rightarrow> ptr" where
  "waiter_of q Not_empty = not_empty q"
| "waiter_of q Not_full = not_full q"

fun set_waiter :: "intq \<Rightarrow> condition \<Rightarrow> ptr \<Rightarrow> intq" where
  "set_waiter q Not_empty t = q\<lparr>not_empty := t\<rparr>"
| "set_waiter q Not_full t = q\<lparr>not_full := t\<rparr>"

fun must_wait :: "intq \<Rightarrow> condition \<Rightarrow> bool" where
  "must_wait q Not_empty = intq_empty q"
| "must_wait q Not_full = intq_full q"

definition wait :: "intq \<Rightarrow> kstate \<Rightarrow> condition \<Rightarrow> (intq \<times> kstate) exec" where
  "wait q s c =
     ASSERT (\<not> in_intr s) (ASSERT (must_wait q c) (
     bindE (thread_current s) (\<lambda>cur.
     bindE (thread_block s) (\<lambda>s. ret (set_waiter q c cur, s)))))"

definition signal :: "intq \<Rightarrow> kstate \<Rightarrow> condition \<Rightarrow> (intq \<times> kstate) exec" where
  "signal q s c =
     ASSERT (\<not> must_wait q c) (
     if waiter_of q c \<noteq> NULL then bindE (thread_unblock s (waiter_of q c)) (\<lambda>s. ret (set_waiter q c NULL, s))
     else ret (q, s))"

text \<open>The body of the loops of \<open>intq_getc\<close> and \<open>intq_putc\<close>, up to the sleep.\<close>

definition wait_turn :: "bool \<Rightarrow> intq \<Rightarrow> kstate \<Rightarrow> condition \<Rightarrow> (intq \<times> kstate) exec" where
  "wait_turn mem q s c =
     ASSERT (\<not> in_intr s) (
     bindE (lock_acquire mem s (q_lock q)) (\<lambda>(got, s).
     if got then wait q s c else ret (q, s)))"

definition intq_getc :: "bool \<Rightarrow> intq \<Rightarrow> kstate \<Rightarrow> (u8 option \<times> intq \<times> kstate) exec" where
  "intq_getc mem q s =
     (if intq_empty q then bindE (wait_turn mem q s Not_empty) (\<lambda>(q, s). ret (None, q, s))
      else if \<not> (0 \<le> q_tail q \<and> q_tail q < int (length (q_buf q))) then fail Out_of_bounds
      else
        let byte = q_buf q ! nat (q_tail q); q = q\<lparr>q_tail := next_pos (q_tail q)\<rparr> in
        bindE (signal q s Not_full) (\<lambda>(q, s). ret (Some byte, q, s)))"

definition intq_putc :: "bool \<Rightarrow> intq \<Rightarrow> kstate \<Rightarrow> u8 \<Rightarrow> (bool \<times> intq \<times> kstate) exec" where
  "intq_putc mem q s byte =
     (if intq_full q then bindE (wait_turn mem q s Not_full) (\<lambda>(q, s). ret (False, q, s))
      else if \<not> (0 \<le> q_head q \<and> q_head q < int (length (q_buf q))) then fail Out_of_bounds
      else
        let q = q\<lparr>q_buf := (q_buf q)[nat (q_head q) := byte], q_head := next_pos (q_head q)\<rparr> in
        bindE (signal q s Not_empty) (\<lambda>(q, s). ret (True, q, s)))"

section \<open>The queue it stands for\<close>

definition q_len :: "intq \<Rightarrow> nat" where
  "q_len q = nat ((q_head q - q_tail q) mod 64)"

definition q_contents :: "intq \<Rightarrow> u8 list" where
  "q_contents q = map (\<lambda>i. q_buf q ! ((nat (q_tail q) + i) mod 64)) [0..<q_len q]"

text \<open>The indices are in range, and each waiting thread, if any, sleeps.\<close>

definition intq_wf :: "intq \<Rightarrow> bool" where
  "intq_wf q \<longleftrightarrow> length (q_buf q) = 64 \<and> 0 \<le> q_head q \<and> q_head q < 64 \<and> 0 \<le> q_tail q \<and> q_tail q < 64"

definition waiter_ok :: "kstate \<Rightarrow> intq \<Rightarrow> condition \<Rightarrow> bool" where
  "waiter_ok s q c \<longleftrightarrow> waiter_of q c \<noteq> NULL \<longrightarrow>
     waiter_of q c \<noteq> idle_thread s \<and> (\<exists>t. threads s (waiter_of q c) = Some t \<and> status t = THREAD_BLOCKED)"

lemma next_pos_eq: "0 \<le> p \<Longrightarrow> next_pos p = (p + 1) mod 64"
  by (simp add: next_pos_def INTQ_BUFSIZE_def cmod_nonneg)

text \<open>Arithmetic of the ring.\<close>

lemma ring_diff:
  fixes h t :: int
  assumes "0 \<le> h" "h < 64" "0 \<le> t" "t < 64"
  shows "(h - t) mod 64 = (if t \<le> h then h - t else h - t + 64)" "(h + 1) mod 64 = (if h = 63 then 0 else h + 1)"
proof -
  show "(h + 1) mod 64 = (if h = 63 then 0 else h + 1)" using assms by (auto simp: mod_pos_pos_trivial)
  have "(h - t) mod 64 = (h - t + 64) mod 64" by simp
  moreover have "(h - t + 64) mod 64 = h - t + 64" if "\<not> t \<le> h" using assms that by (intro mod_pos_pos_trivial) auto
  moreover have "(h - t) mod 64 = h - t" if "t \<le> h" using assms that by (intro mod_pos_pos_trivial) auto
  ultimately show "(h - t) mod 64 = (if t \<le> h then h - t else h - t + 64)" by (simp del: mod_add_self2)
qed

lemma q_len_cases:
  assumes "intq_wf q"
  shows "int (q_len q) = (if q_tail q \<le> q_head q then q_head q - q_tail q else q_head q - q_tail q + 64)"
  using assms ring_diff(1) [of "q_head q" "q_tail q"] by (simp add: q_len_def intq_wf_def)

lemma next_pos_cases: "0 \<le> p \<Longrightarrow> p < 64 \<Longrightarrow> next_pos p = (if p = 63 then 0 else p + 1)"
  using ring_diff(2) [of p 0] by (simp add: next_pos_eq)

lemma intq_empty_iff: "intq_wf q \<Longrightarrow> intq_empty q \<longleftrightarrow> q_len q = 0"
  using q_len_cases [of q] by (auto simp: intq_wf_def intq_empty_def split: if_splits)

lemma intq_full_iff: "intq_wf q \<Longrightarrow> intq_full q \<longleftrightarrow> q_len q = 63"
  using q_len_cases [of q] next_pos_cases [of "q_head q"] by (auto simp: intq_wf_def intq_full_def split: if_splits)

lemma q_len_le: "intq_wf q \<Longrightarrow> q_len q \<le> 63"
  using q_len_cases [of q] by (auto simp: intq_wf_def split: if_splits)

lemma length_q_contents [simp]: "length (q_contents q) = q_len q"
  by (simp add: q_contents_def)

lemma head_index:
  assumes "intq_wf q"
  shows "nat (q_head q) = (nat (q_tail q) + q_len q) mod 64"
proof -
  have "q_head q = (q_tail q + int (q_len q)) mod 64"
    using assms q_len_cases [OF assms] by (auto simp: intq_wf_def split: if_splits)
  then have "int (nat (q_head q)) = int ((nat (q_tail q) + q_len q) mod 64)" using assms by (simp add: intq_wf_def zmod_int)
  then show ?thesis by (simp only: of_nat_eq_iff)
qed

lemma ring_inj: "i < l \<Longrightarrow> l \<le> 63 \<Longrightarrow> (t + i) mod 64 \<noteq> (t + l) mod 64" for t i l :: nat
proof
  assume "i < l" "l \<le> 63" "(t + i) mod 64 = (t + l) mod 64"
  then have "64 dvd (t + l) - (t + i)" by (metis add_le_cancel_left less_imp_le mod_eq_dvd_iff_nat)
  with \<open>i < l\<close> \<open>l \<le> 63\<close> show False by (auto dest: dvd_imp_le)
qed

lemma other_index:
  assumes "intq_wf q" "i < q_len q"
  shows "(nat (q_tail q) + i) mod 64 \<noteq> nat (q_head q)"
  using ring_inj [OF assms(2) q_len_le [OF assms(1)]] head_index [OF assms(1)] by simp

text \<open>Storing a byte appends it; taking one removes the oldest.\<close>

lemma store_byte:
  fixes b :: u8
  assumes wf: "intq_wf q" and "q_len q < 63"
  defines "q' \<equiv> q\<lparr>q_buf := (q_buf q)[nat (q_head q) := b], q_head := next_pos (q_head q)\<rparr>"
  shows "intq_wf q'" "q_contents q' = q_contents q @ [b]"
proof -
  have h: "0 \<le> q_head q" "q_head q < 64" "length (q_buf q) = 64" using wf by (simp_all add: intq_wf_def)
  show w': "intq_wf q'" using wf next_pos_cases [OF h(1,2)] by (auto simp: intq_wf_def q'_def)
  have len: "q_len q' = Suc (q_len q)"
    using q_len_cases [OF w'] q_len_cases [OF wf] assms(2) next_pos_cases [OF h(1,2)] wf by (auto simp: q'_def intq_wf_def split: if_splits)
  have t: "q_tail q' = q_tail q" "q_buf q' = (q_buf q)[nat (q_head q) := b]" by (simp_all add: q'_def)
  have "q_buf q' ! ((nat (q_tail q) + i) mod 64) = q_buf q ! ((nat (q_tail q) + i) mod 64)" if "i < q_len q" for i
    using other_index [OF wf that] unfolding t(2) by (intro nth_list_update_neq) auto
  then have "map (\<lambda>i. q_buf q' ! ((nat (q_tail q) + i) mod 64)) [0..<q_len q] = q_contents q"
    unfolding q_contents_def by (intro map_cong) auto
  moreover have "q_buf q' ! ((nat (q_tail q) + q_len q) mod 64) = b"
    using head_index [OF wf] h unfolding t(2) by (simp add: head_index [OF wf, symmetric])
  ultimately show "q_contents q' = q_contents q @ [b]" unfolding q_contents_def [of q'] len t(1) by (simp add: upt_Suc_append)
qed

lemma take_byte:
  assumes wf: "intq_wf q" and "q_len q > 0"
  defines "q' \<equiv> q\<lparr>q_tail := next_pos (q_tail q)\<rparr>"
  shows "intq_wf q'" "q_contents q = q_buf q ! nat (q_tail q) # q_contents q'"
proof -
  have h: "0 \<le> q_tail q" "q_tail q < 64" using wf by (simp_all add: intq_wf_def)
  show w': "intq_wf q'" using wf next_pos_cases [OF h] by (auto simp: intq_wf_def q'_def)
  have len: "q_len q = Suc (q_len q')"
    using q_len_cases [OF w'] q_len_cases [OF wf] assms(2) next_pos_cases [OF h] wf by (auto simp: q'_def intq_wf_def split: if_splits)
  have n: "nat (q_tail q') = (nat (q_tail q) + 1) mod 64" using next_pos_cases [OF h] h by (auto simp: q'_def nat_add_distrib)
  have "(nat (q_tail q') + i) mod 64 = (nat (q_tail q) + Suc i) mod 64" for i unfolding n by (simp add: mod_simps)
  then have "q_contents q' = map (\<lambda>i. q_buf q ! ((nat (q_tail q) + Suc i) mod 64)) [0..<q_len q']" unfolding q_contents_def by (simp add: q'_def)
  then show "q_contents q = q_buf q ! nat (q_tail q) # q_contents q'"
    unfolding q_contents_def [of q] len using h by (simp add: map_Suc_upt [symmetric] upt_conv_Cons del: upt_Suc) 
qed

section \<open>Properties\<close>

lemma signal_ok:
  assumes "sched_wf s" and "waiter_ok s q c" and "\<not> must_wait q c"
  shows "\<exists>s'. signal q s c = ret (set_waiter q c NULL, s') \<and> sched_wf s' \<and> current s' = current s \<and>
    (waiter_of q c \<noteq> NULL \<longrightarrow> waiter_of q c \<in> set (ready_list s')) \<and>
    (\<forall>p. p \<noteq> waiter_of q c \<longrightarrow> threads s' p = threads s p) \<and> idle_thread s' = idle_thread s"
proof (cases "waiter_of q c = NULL")
  case True
  then have "set_waiter q c NULL = q" by (cases c) simp_all
  then show ?thesis using True assms by (simp add: signal_def)
next
  case False
  then obtain t where "waiter_of q c \<noteq> idle_thread s" "threads s (waiter_of q c) = Some t" "status t = THREAD_BLOCKED"
    using assms(2) by (auto simp: waiter_ok_def)
  with thread_unblock_ok [OF assms(1)] obtain s' where "thread_unblock s (waiter_of q c) = ret s'" "sched_wf s'" "current s' = current s"
    "set (ready_list s') = insert (waiter_of q c) (set (ready_list s))" "threads s' = (threads s)(waiter_of q c \<mapsto> t\<lparr>status := THREAD_READY\<rparr>)"
    "idle_thread s' = idle_thread s"
    by (metis pri.set_insert_by)
  then show ?thesis using False assms(3) by (simp add: signal_def)
qed

lemma set_waiter_simps [simp]:
  "q_contents (set_waiter q c t) = q_contents q" "intq_wf (set_waiter q c t) = intq_wf q" "must_wait (set_waiter q c t) d = must_wait q d"
  "waiter_of (set_waiter q c t) d = (if d = c then t else waiter_of q d)"
  by (cases c; cases d; simp add: q_contents_def q_len_def intq_wf_def intq_empty_def intq_full_def)+


text \<open>A queue that wraps around: its three bytes are at 62, 63 and 0.\<close>

definition sample_intq :: intq where
  "sample_intq = \<lparr>q_lock = 16, not_full = NULL, not_empty = NULL,
     q_buf = (replicate 64 0)[62 := 0x61, 63 := 0x62, 0 := 0x63], q_head = 1, q_tail = 62\<rparr>"


end
