(* ===== verification/Spec2Isabelle.thy ===== *)
theory Spec2Isabelle
  imports Process Family Stdlib Timer Intq
begin

text \<open>
  \<^bold>\<open>Pintos-KAIST: a verification library of the kernel\<close>

  The program is an operating system kernel (\<open>src/pintos-kaist\<close>): kernel libraries (lists, bitmaps, hash
  tables, strings, sorting, 64-bit division), threads with a priority and a feedback scheduler,
  semaphores, locks with priority donation and condition variables, the timer and its sleepers, a
  file system of five layers (disk, allocation table, inodes, directories, paths), page allocation, page
  tables and virtual memory with swapping, memory-mapped files and copy on write, and user processes with
  their system calls. The scheduler keeps its queues in kernel lists; locks and the timer call the
  scheduler; files are read and written through inodes, whose sectors the allocation table chains;
  directories are files. A page fault looks in the supplemental page table of the process (a hash table) and
  takes a frame from the allocator or from another page, which goes to the swap disk (whose slots a bitmap
  holds) or back to its file. A system call checks pointers against the page table, goes through the
  descriptors of the process to files, and copies bytes between user memory and the file system.

  \<^bold>\<open>How the code is translated\<close> (\<open>Prelude\<close>). A function that can fail, or not return, has a result of type
  \<open>'a exec\<close>: \<open>None\<close> when it does not end, \<open>Some (Inl e)\<close> when it stops (a failed \<open>ASSERT\<close>, a null pointer, an
  access out of bounds, a panic, a divide error), \<open>ret x\<close> otherwise; \<open>bindE\<close> is sequencing. Loops that
  need not end are \<open>partial_function (option)\<close>; no fuel is used anywhere, and every theorem that says
  what such a function returns says that it returns. Pointers, \<open>size_t\<close>, sector and cluster numbers
  are words of their width; \<open>int\<close> and \<open>off_t\<close> are integers wrapped by \<open>int32\<close> where they can overflow;
  division of signed numbers truncates (\<open>cdiv\<close>, \<open>cmod\<close>). Whether \<open>malloc\<close> succeeds, and what it returns,
  is an argument.

  \<^bold>\<open>Theories and sources\<close>
  \<^item> \<open>Klist\<close>, \<open>Klist_Ordered\<close>: \<open>lib/kernel/list.c\<close> on a heap of links. Each operation refines the operation on
    the sequence of elements and writes nothing outside the list; the in-place natural merge sort ends and
    is stable. The locale \<open>list_less\<close> is the contract of the comparison functions.
  \<^item> \<open>Bitmap\<close>: \<open>lib/kernel/bitmap.c\<close> on 64-bit words: the operations act on the sequence of bits, scanning is
    first fit, and any history of allocations and releases keeps the runs disjoint.
  \<^item> \<open>Hash\<close>: \<open>lib/kernel/hash.c\<close>, buckets as sequences: the operations act on the set of elements,
    \<open>rehash\<close> ends and permutes them, the iterator visits each once.
  \<^item> \<open>Kstring\<close>, \<open>Stdlib\<close>, \<open>Arith64\<close>: \<open>lib/string.c\<close>, \<open>lib/stdlib.c\<close>, \<open>lib/arithmetic.c\<close>.
  \<^item> \<open>Fixed_Point\<close>, \<open>Thread\<close>, \<open>Synch\<close>, \<open>Timer\<close>, \<open>Intq\<close>: \<open>threads/fixed-point.c\<close>, \<open>threads/thread.c\<close>,
    \<open>threads/synch.c\<close>, \<open>devices/timer.c\<close>, \<open>devices/intq.c\<close> over one kernel state \<open>kstate\<close>. A function that puts
    its thread to sleep is cut there: the part after it is a definition of its own that runs when the thread
    is chosen again, so the interleavings of several threads are sequences of these parts. The invariant of
    the scheduler and mutual exclusion are shown over all such sequences.
  \<^item> \<open>Disk\<close>, \<open>Fat\<close>, \<open>Inode\<close>, \<open>Directory\<close>, \<open>File\<close>, \<open>Filesys\<close>: \<open>devices/disk.c\<close> (the sectors) and \<open>filesys/*.c\<close> with the
    allocation table. \<open>fat_chains fs C\<close> abstracts the table to a set of disjoint chains, \<open>raw\<close> and \<open>content\<close> a file
    to its bytes, \<open>dirmap\<close> a directory to a map from names to sectors, \<open>resolve\<close> the directories to a tree;
    each layer is shown to act on its abstraction as specified, on every branch.
  \<^item> \<open>Palloc\<close>, \<open>Mmu\<close>, \<open>Pmem\<close>: \<open>threads/palloc.c\<close>, \<open>threads/mmu.c\<close> and bytes of physical memory, on a state \<open>phys\<close> of
    memory cells and two pools. Pages handed out are free and disjoint; \<open>pte_of\<close> abstracts the four-level
    tables to a map from user pages to entries, on which walks, mappings and flags act.
  \<^item> \<open>Spt\<close>, \<open>Vm\<close>, \<open>Vm_Swap\<close>, \<open>Vm_Clock\<close>, \<open>Vm_Fault\<close>: \<open>vm/vm.c\<close>, \<open>vm/anon.c\<close>, \<open>vm/uninit.c\<close>, \<open>vm/file.c\<close> over a state
    \<open>vmst\<close> of objects at addresses; the union in \<open>struct page\<close> is five words, as it lies in memory. Swapping
    out and in restores a page, the clock implements second chance and always ends, faults grow the
    stack, copy shared pages on write, or are refused without a change.
  \<^item> \<open>Descriptors\<close>, \<open>Usermem\<close>, \<open>Syscall\<close>: \<open>userprog/syscall.c\<close> over a state \<open>proc\<close>. The count in a file is the
    number of descriptors that share it; a checked buffer is user memory; accesses to user memory go through
    the page table and may fault.
  \<^item> \<open>Args\<close>, \<open>Loader\<close>, \<open>Process\<close>: \<open>userprog/process.c\<close>, the dispatch of system calls and page faults
    (\<open>userprog/exception.c\<close>). The stack of a new program, the pages of its segments, the end of a process, and a
    write, seek and read of a program through every layer of the kernel.
  \<^item> \<open>Family\<close>: \<open>process_wait\<close>, \<open>process_exit\<close> and \<open>process_fork\<close> of any number of processes as a step relation, cut at
    the semaphores. The invariants are shown for every reachable state.

  \<^bold>\<open>Defects\<close>. Where the code does not do what it means to, a lemma shows the failing run on its definitions
  (for example \<open>inode_append_faults\<close>, \<open>fat_allocate_full_diverges\<close>, \<open>donation_cycle_diverges\<close>,
  \<open>format_overwrites_table\<close>, \<open>fork_of_swapped_page_faults\<close>, \<open>sys_dup2_unchecked\<close>, \<open>unwaited_child_stays\<close>), and the theorems about the operation name the condition that excludes it.

  \<^bold>\<open>Not modelled\<close>: code whose effect is on the machine (boot loader, context switch, interrupt entry, the 8254,
  ATA, VGA, keyboard and serial port drivers, segment tables), printing, the start of the kernel (\<open>init.c\<close>), the
  allocator of small blocks (\<open>malloc.c\<close>; its results are an argument), the self tests, the user
  programs and their library, the variants of the code without the allocation table or without virtual memory.
\<close>

end
